(* ===== verification/Prelude.thy ===== *)
theory Prelude
  imports Main "HOL-Library.Word" "HOL-Library.Monad_Syntax"
begin

text \<open>
  Shared material of the development: the C integer types of \<^verbatim>\<open>rtdef.h\<close> as words, the
  error codes, the alignment macros, C block copies on byte lists, the collections of
  simplification rules and the generic list and word lemmas that the component theories
  use.

  Every operation of the kernel that can fail an \<^verbatim>\<open>RT_ASSERT\<close>, or that would read or
  write outside an object, is a function into \<open>option\<close>: \<open>None\<close> is "the
  assertion fails or the access is out of range", and a theorem that concludes \<open>Some\<close>
  shows that neither happens.
\<close>

unbundle bit_operations_syntax

subsection \<open>Collections of rules\<close>

named_theorems kdefs \<open>definitions of kernel operations unfolded by component proofs\<close>
named_theorems wf_intros \<open>preservation lemmas of the component invariants\<close>

subsection \<open>Integer types of rtdef.h\<close>

type_synonym u8 = "8 word"
type_synonym u16 = "16 word"
type_synonym u32 = "32 word"
type_synonym u64 = "64 word"
type_synonym rt_tick_t = "32 word"
type_synonym rt_size_t = "64 word"
type_synonym rt_err_t = int

subsection \<open>Error codes of rtdef.h\<close>

abbreviation (input) RT_EOK :: rt_err_t where "RT_EOK \<equiv> 0"
abbreviation (input) RT_ERROR :: rt_err_t where "RT_ERROR \<equiv> 1"
abbreviation (input) RT_ETIMEOUT :: rt_err_t where "RT_ETIMEOUT \<equiv> 2"
abbreviation (input) RT_EFULL :: rt_err_t where "RT_EFULL \<equiv> 3"
abbreviation (input) RT_EEMPTY :: rt_err_t where "RT_EEMPTY \<equiv> 4"
abbreviation (input) RT_ENOMEM :: rt_err_t where "RT_ENOMEM \<equiv> 5"
abbreviation (input) RT_EINVAL :: rt_err_t where "RT_EINVAL \<equiv> 10"

subsection \<open>Assertions\<close>

text \<open>\<^verbatim>\<open>RT_ASSERT(e)\<close>: execution goes on only where the condition holds.\<close>

definition RT_ASSERT :: "bool \<Rightarrow> unit option" where
  "RT_ASSERT b = (if b then Some () else None)"

lemma RT_ASSERT_simps [simp]:
  "RT_ASSERT True = Some ()" "RT_ASSERT False = None"
  by (simp_all add: RT_ASSERT_def)

lemma RT_ASSERT_bind [simp]:
  "(RT_ASSERT b \<bind> f = Some y) \<longleftrightarrow> b \<and> f () = Some y"
  by (simp add: RT_ASSERT_def)

subsection \<open>Block copies\<close>

text \<open>
  \<^verbatim>\<open>memcpy(&dst[i], src, n)\<close> on byte arrays: the first \<open>n\<close> elements of \<open>src\<close> replace
  the elements of \<open>dst\<close> from \<open>i\<close> on; reading past \<open>src\<close> or writing past \<open>dst\<close> is
  \<open>None\<close>. Reading a part of an array is the same with the roles changed. A negative size
  is a huge \<^verbatim>\<open>size_t\<close>, so it is out of range too.
\<close>

definition blit :: "'a list \<Rightarrow> nat \<Rightarrow> 'a list \<Rightarrow> 'a list" where
  "blit dst i src = take i dst @ src @ drop (i + length src) dst"

definition memcpy_to :: "'a list \<Rightarrow> int \<Rightarrow> 'a list \<Rightarrow> int \<Rightarrow> 'a list option" where
  "memcpy_to dst i src n =
     (if 0 \<le> n \<and> 0 \<le> i \<and> n \<le> int (length src) \<and> i + n \<le> int (length dst)
      then Some (blit dst (nat i) (take (nat n) src)) else None)"

definition memread :: "'a list \<Rightarrow> int \<Rightarrow> int \<Rightarrow> 'a list option" where
  "memread src i n =
     (if 0 \<le> n \<and> 0 \<le> i \<and> i + n \<le> int (length src)
      then Some (take (nat n) (drop (nat i) src)) else None)"

lemma length_blit [simp]: "i + length ys \<le> length xs \<Longrightarrow> length (blit xs i ys) = length xs"
  by (simp add: blit_def)

lemma nth_blit:
  "i + length ys \<le> length xs \<Longrightarrow> k < length xs \<Longrightarrow>
   blit xs i ys ! k = (if i \<le> k \<and> k < i + length ys then ys ! (k - i) else xs ! k)"
  by (auto simp: blit_def nth_append min_def)

lemma blit_Nil [simp]: "i \<le> length xs \<Longrightarrow> blit xs i [] = xs"
  by (simp add: blit_def)

lemma memcpy_to_Some:
  "n \<le> length src \<Longrightarrow> i + n \<le> length dst \<Longrightarrow>
   memcpy_to dst (int i) src (int n) = Some (blit dst i (take n src))"
  by (simp add: memcpy_to_def)

lemma memread_Some:
  "i + n \<le> length src \<Longrightarrow> memread src (int i) (int n) = Some (take n (drop i src))"
  by (simp add: memread_def)

subsection \<open>Circular indices\<close>

lemma mod_add_wrap:
  "(a::nat) < n \<Longrightarrow> b \<le> n \<Longrightarrow> (a + b) mod n = (if a + b < n then a + b else a + b - n)"
  by (auto simp: mod_if not_less)

subsection \<open>Bounds of unsigned values\<close>

lemma unat_u8: "unat (w :: u8) < 256"
  by (rule order.strict_trans2 [OF unsigned_less]) simp

lemma unat_u16: "unat (w :: u16) < 65536"
  by (rule order.strict_trans2 [OF unsigned_less]) simp

lemma unat_u32: "unat (w :: u32) < 4294967296"
  by (rule order.strict_trans2 [OF unsigned_less]) simp

lemma unat_Suc_u8: "(w :: u8) < 255 \<Longrightarrow> unat (w + 1) = unat w + 1"
  using unat_plus_simple [of w 1] by (simp add: word_less_nat_alt unat_word_ariths)

lemma unat_Suc_u16: "(w :: u16) < 65535 \<Longrightarrow> unat (w + 1) = unat w + 1"
  using unat_plus_simple [of w 1] by (simp add: word_less_nat_alt unat_word_ariths)

lemma unat_pred: "(w :: 'a :: len word) > 0 \<Longrightarrow> unat (w - 1) = unat w - 1"
  by (simp add: unat_minus_one word_gt_0)

subsection \<open>Widening of unsigned values\<close>

lemma unat_ucast_u16_u64 [simp]: "unat (ucast (w :: u16) :: u64) = unat w"
  by (simp add: unsigned_ucast_eq take_bit_nat_eq_self less_le_trans [OF unsigned_less])

lemma unat_ucast_u32_u64 [simp]: "unat (ucast (w :: u32) :: u64) = unat w"
  by (simp add: unsigned_ucast_eq take_bit_nat_eq_self less_le_trans [OF unsigned_less])

subsection \<open>Alignment\<close>

lemma and_not_mask:
  fixes a :: "'a :: ring_bit_operations"
  shows "a AND NOT (mask n) = a - take_bit n a"
proof -
  have "NOT a AND take_bit n a = 0"
    by (rule bit_eqI) (auto simp: bit_simps)
  then have "a - take_bit n a = a AND NOT (take_bit n a)"
    by (rule disjunctive_diff_eq_and_not)
  also have "\<dots> = a AND NOT (mask n)"
    by (rule bit_eqI) (auto simp: bit_simps)
  finally show ?thesis by simp
qed

definition RT_ALIGN :: "u64 \<Rightarrow> u64 \<Rightarrow> u64" where
  "RT_ALIGN sz align = (sz + align - 1) AND NOT (align - 1)"

definition RT_ALIGN_DOWN :: "u64 \<Rightarrow> u64 \<Rightarrow> u64" where
  "RT_ALIGN_DOWN sz align = sz AND NOT (align - 1)"

lemma unat_and_not_7: "unat (w AND NOT 7 :: u64) = unat w - unat w mod 8"
proof -
  have e: "w AND NOT 7 = w - take_bit 3 w"
    using and_not_mask [of w 3] by (simp add: mask_eq_exp_minus_1)
  have t: "unat (take_bit 3 w) = unat w mod 8"
    unfolding unsigned_take_bit_eq by (simp add: take_bit_eq_mod)
  then have "unat (take_bit 3 w) \<le> unat w" by simp
  then have "unat (w - take_bit 3 w) = unat w - unat (take_bit 3 w)" by (simp add: unat_sub word_le_nat_alt)
  then show ?thesis unfolding e t .
qed

lemma unat_RT_ALIGN: "unat (RT_ALIGN (of_nat n) 8) = (n + 7) mod 2 ^ 64 - (n + 7) mod 8"
proof -
  have e: "(of_nat n + 8 - 1 :: u64) = of_nat (n + 7)" by simp
  have u: "unat (of_nat (n + 7) :: u64) = (n + 7) mod 2 ^ 64"
    unfolding unat_of_nat by (simp add: take_bit_eq_mod)
  have "(n + 7) mod 2 ^ 64 mod 8 = (n + 7) mod 8" by (rule mod_mod_cancel) simp
  moreover have "(8 - 1 :: u64) = 7" by simp
  ultimately show ?thesis unfolding RT_ALIGN_def e using unat_and_not_7 [of "of_nat (n + 7)"] u by simp
qed

end
