(* ===== verification/Circular.thy ===== *)
theory Circular
  imports Prelude
begin

text \<open>
  Circular buffers in general: the contents of a circular array as a list, the effect of
  writing at its end, and the interface \<open>bounded_fifo\<close> of a bounded queue of bytes, which the
  serial ring buffer implements. The conservation law of a queue is proved once here, for any run
  of puts and gets, and reaches the ring buffer through its interpretation; the queue of blocks of
  the image library and the mailbox use the contents lemmas.
\<close>

subsection \<open>Contents of a circular array\<close>

definition circ :: "'a list \<Rightarrow> nat \<Rightarrow> nat \<Rightarrow> nat \<Rightarrow> 'a list" where
  "circ buf n r l = map (\<lambda>k. buf ! ((r + k) mod n)) [0..<l]"

lemma length_circ [simp]: "length (circ buf n r l) = l"
  by (simp add: circ_def)

lemma circ_0 [simp]: "circ buf n r 0 = []"
  by (simp add: circ_def)

lemma circ_nth: "k < l \<Longrightarrow> circ buf n r l ! k = buf ! ((r + k) mod n)"
  by (simp add: circ_def)

lemma circ_Suc: "circ buf n r (Suc l) = circ buf n r l @ [buf ! ((r + l) mod n)]"
  by (simp add: circ_def)

lemma circ_append: "circ buf n r (a + b) = circ buf n r a @ circ buf n ((r + a) mod n) b"
  by (rule nth_equalityI) (auto simp: circ_def nth_append mod_add_left_eq add.assoc)

lemma circ_Cons:
  "0 < n \<Longrightarrow> r < n \<Longrightarrow> circ buf n r (Suc l) = buf ! r # circ buf n (Suc r mod n) l"
  using circ_append [of buf n r 1 l] by (simp add: circ_def)

lemma circ_segment: "r + l \<le> n \<Longrightarrow> n \<le> length buf \<Longrightarrow> circ buf n r l = take l (drop r buf)"
  by (rule nth_equalityI) (auto simp: circ_def)

text \<open>Two cells at most \<open>n\<close> apart on the circle coincide only when they are the same cell.\<close>

lemma circ_distinct_cells:
  fixes n :: nat
  assumes "i < n" "k < n" "(r + i) mod n = (r + k) mod n"
  shows "i = k"
proof -
  have aux: "a = b" if "a \<le> b" "b < n" "(r + a) mod n = (r + b) mod n" for a b
  proof -
    have "n dvd (r + b) - (r + a)"
      using that mod_eq_dvd_iff_nat [of "r + a" "r + b" n] by simp
    then have "n dvd b - a" by simp
    then show ?thesis using that by (auto dest!: dvd_imp_le)
  qed
  show ?thesis using assms aux [of i k] aux [of k i] by (cases "i \<le> k") auto
qed

text \<open>
  Writing a block that does not cross the end of the array, at the cell after the last
  element: it is appended to the contents. A block that crosses the end is two of these.
\<close>

lemma circ_blit:
  assumes wf: "n \<le> length buf" "0 < n"
    and w: "w = (r + l) mod n" and fits: "w + length ys \<le> n" "l + length ys \<le> n"
  shows "circ (blit buf w ys) n r (l + length ys) = circ buf n r l @ ys"
proof (rule nth_equalityI)
  fix k
  assume "k < length (circ (blit buf w ys) n r (l + length ys))"
  then have k: "k < l + length ys" by simp
  let ?c = "(r + k) mod n"
  have c: "?c < length buf" using wf by (meson mod_less_divisor order_less_le_trans)
  have b: "blit buf w ys ! ?c = (if w \<le> ?c \<and> ?c < w + length ys then ys ! (?c - w) else buf ! ?c)"
    using wf fits c by (intro nth_blit) auto
  show "circ (blit buf w ys) n r (l + length ys) ! k = (circ buf n r l @ ys) ! k"
  proof (cases "k < l")
    case True
    have "\<not> (w \<le> ?c \<and> ?c < w + length ys)"
    proof
      assume a: "w \<le> ?c \<and> ?c < w + length ys"
      define d where "d = ?c - w"
      have d: "d < length ys" "?c = w + d" using a by (auto simp: d_def)
      have "(r + (l + d)) mod n = (w + d) mod n"
        by (simp add: w mod_add_left_eq add.assoc [symmetric])
      also have "\<dots> = ?c" using d fits by simp
      finally have "(r + (l + d)) mod n = ?c" .
      then have "l + d = k" using circ_distinct_cells [of "l + d" n k r] d fits True by simp
      then show False using True by simp
    qed
    then have "blit buf w ys ! ?c = buf ! ?c" using b by presburger
    then show ?thesis using True k by (simp add: circ_nth nth_append)
  next
    case False
    then obtain d where d: "k = l + d" by (metis le_Suc_ex not_less)
    have "?c = (w + d) mod n" by (simp add: w d mod_add_left_eq add.assoc [symmetric])
    then have "?c = w + d" using d k fits by simp
    then show ?thesis using b d k by (simp add: circ_nth nth_append)
  qed
qed simp

lemma circ_update:
  assumes "n \<le> length buf" "0 < n" "w = (r + l) mod n" "l < n"
  shows "circ (buf[w := y]) n r (Suc l) = circ buf n r l @ [y]"
proof -
  have w: "w < n" using assms by simp
  have "blit buf w [y] = buf[w := y]"
    using w assms(1) by (simp add: blit_def upd_conv_take_nth_drop)
  then show ?thesis using circ_blit [of n buf w r l "[y]"] assms w by simp
qed

subsection \<open>Bounded FIFO queues\<close>

text \<open>A run of a queue: the operations asked for, and what was accepted and delivered.\<close>

datatype 'a fop = Put 'a | Get

fun fifo_run ::
  "('a \<Rightarrow> 'q \<Rightarrow> 'q option) \<Rightarrow> ('q \<Rightarrow> ('a \<times> 'q) option) \<Rightarrow> 'a fop list \<Rightarrow> 'q
   \<Rightarrow> 'a list \<times> 'a list \<times> 'q" where
  "fifo_run put get [] q = ([], [], q)"
| "fifo_run put get (Put x # ops) q =
     (case put x q of
        None \<Rightarrow> fifo_run put get ops q
      | Some q' \<Rightarrow> (case fifo_run put get ops q' of (ins, outs, q'') \<Rightarrow> (x # ins, outs, q'')))"
| "fifo_run put get (Get # ops) q =
     (case get q of
        None \<Rightarrow> fifo_run put get ops q
      | Some (y, q') \<Rightarrow> (case fifo_run put get ops q' of (ins, outs, q'') \<Rightarrow> (ins, y # outs, q'')))"

locale bounded_fifo =
  fixes put :: "'a \<Rightarrow> 'q \<Rightarrow> 'q option"
    and get :: "'q \<Rightarrow> ('a \<times> 'q) option"
    and abs :: "'q \<Rightarrow> 'a list"
    and inv :: "'q \<Rightarrow> bool"
    and cap :: "'q \<Rightarrow> nat"
  assumes put_full: "inv q \<Longrightarrow> cap q \<le> length (abs q) \<Longrightarrow> put x q = None"
    and put_ok: "inv q \<Longrightarrow> length (abs q) < cap q \<Longrightarrow>
          \<exists>q'. put x q = Some q' \<and> inv q' \<and> abs q' = abs q @ [x] \<and> cap q' = cap q"
    and get_empty: "inv q \<Longrightarrow> abs q = [] \<Longrightarrow> get q = None"
    and get_ok: "inv q \<Longrightarrow> abs q = y # ys \<Longrightarrow>
          \<exists>q'. get q = Some (y, q') \<and> inv q' \<and> abs q' = ys \<and> cap q' = cap q"
begin

lemma put_cases:
  assumes "inv q"
  shows "put x q = None \<and> cap q \<le> length (abs q) \<or>
         (\<exists>q'. put x q = Some q' \<and> inv q' \<and> abs q' = abs q @ [x] \<and> cap q' = cap q)"
  using put_full [OF assms] put_ok [OF assms] by (meson not_less)

lemma get_cases:
  assumes "inv q"
  shows "get q = None \<and> abs q = [] \<or>
         (\<exists>y q'. get q = Some (y, q') \<and> inv q' \<and> abs q = y # abs q' \<and> cap q' = cap q)"
  using get_empty [OF assms] get_ok [OF assms] by (cases "abs q") force+

text \<open>
  Nothing is lost, duplicated or reordered: what was in the queue followed by what was
  accepted is what was delivered followed by what is still there.
\<close>

theorem conservation:
  "inv q \<Longrightarrow> fifo_run put get ops q = (ins, outs, q') \<Longrightarrow>
   inv q' \<and> cap q' = cap q \<and> abs q @ ins = outs @ abs q'"
proof (induction ops arbitrary: q ins outs)
  case Nil
  then show ?case by simp
next
  case (Cons a ops)
  show ?case
  proof (cases a)
    case (Put x)
    from put_cases [OF Cons.prems(1), of x] show ?thesis
      using Cons Put by (fastforce split: prod.splits)
  next
    case Get
    from get_cases [OF Cons.prems(1)] show ?thesis
      using Cons Get by (fastforce split: prod.splits)
  qed
qed

lemma run_bounded:
  assumes "inv q" "length (abs q) \<le> cap q" "fifo_run put get ops q = (ins, outs, q')"
  shows "length (abs q') \<le> cap q'"
  using assms
proof (induction ops arbitrary: q ins outs)
  case Nil
  then show ?case by simp
next
  case (Cons a ops)
  show ?case
  proof (cases a)
    case (Put x)
    show ?thesis
    proof (cases "length (abs q) < cap q")
      case True
      with put_ok [OF Cons.prems(1) True, of x] show ?thesis
        using Cons Put by (auto split: prod.splits)
    next
      case False
      then show ?thesis
        using put_full [OF Cons.prems(1), of x] Cons Put by (auto split: prod.splits)
    qed
  next
    case Get
    from get_cases [OF Cons.prems(1)] show ?thesis
      using Cons Get by (auto split: prod.splits)
  qed
qed

end

end
