(* ===== verification/Ringbuffer.thy ===== *)
theory Ringbuffer
  imports Circular
begin

text \<open>
  The driver ring buffer (\<^verbatim>\<open>components/drivers/src/ringbuffer.c\<close>,
  \<^verbatim>\<open>ipc/ringbuffer.h\<close>): read and write positions of 15 bits with a mirror bit each, so
  that a full and an empty buffer differ. The model keeps the bit-fields at their widths
  and the C conversions of every length; the refinement lemmas relate each operation to
  the list of bytes the buffer holds. \<open>None\<close> is a failed assertion or a copy out of
  range.
\<close>

subsection \<open>Data\<close>

record rt_ringbuffer =
  buffer_ptr :: "u8 list"
  read_mirror :: "1 word"
  read_index :: "15 word"
  write_mirror :: "1 word"
  write_index :: "15 word"
  buffer_size :: int

datatype rt_ringbuffer_state = RT_RINGBUFFER_EMPTY | RT_RINGBUFFER_FULL | RT_RINGBUFFER_HALFFULL

subsection \<open>Operations\<close>

definition rt_ringbuffer_status :: "rt_ringbuffer \<Rightarrow> rt_ringbuffer_state" where
  "rt_ringbuffer_status rb =
     (if read_index rb = write_index rb then
        if read_mirror rb = write_mirror rb then RT_RINGBUFFER_EMPTY else RT_RINGBUFFER_FULL
      else RT_RINGBUFFER_HALFFULL)"

text \<open>\<^verbatim>\<open>RT_ALIGN_DOWN(size, RT_ALIGN_SIZE)\<close> with \<^verbatim>\<open>RT_ALIGN_SIZE\<close> 8, on a C int.\<close>

definition RT_ALIGN_DOWN8 :: "int \<Rightarrow> int" where
  "RT_ALIGN_DOWN8 sz = sz AND NOT 7"

definition rt_ringbuffer_init :: "u8 list \<Rightarrow> int \<Rightarrow> rt_ringbuffer option" where
  "rt_ringbuffer_init pool sz = do {
     RT_ASSERT (0 < sz);
     Some \<lparr>buffer_ptr = pool, read_mirror = 0, read_index = 0, write_mirror = 0,
           write_index = 0, buffer_size = RT_ALIGN_DOWN8 sz\<rparr> }"

definition rt_ringbuffer_data_len :: "rt_ringbuffer \<Rightarrow> rt_size_t" where
  "rt_ringbuffer_data_len rb =
     (case rt_ringbuffer_status rb of
        RT_RINGBUFFER_EMPTY \<Rightarrow> 0
      | RT_RINGBUFFER_FULL \<Rightarrow> word_of_int (buffer_size rb)
      | RT_RINGBUFFER_HALFFULL \<Rightarrow>
          if read_index rb < write_index rb
          then word_of_int (uint (write_index rb) - uint (read_index rb))
          else word_of_int (buffer_size rb - (uint (read_index rb) - uint (write_index rb))))"

definition rt_ringbuffer_space_len :: "rt_ringbuffer \<Rightarrow> rt_size_t" where
  "rt_ringbuffer_space_len rb = word_of_int (buffer_size rb) - rt_ringbuffer_data_len rb"

definition rt_ringbuffer_put ::
  "rt_ringbuffer \<Rightarrow> u8 list \<Rightarrow> u16 \<Rightarrow> (rt_size_t \<times> rt_ringbuffer) option" where
  "rt_ringbuffer_put rb ptr len =
     (let sz = (ucast (rt_ringbuffer_space_len rb) :: u16) in
      if sz = 0 then Some (0, rb)
      else
        let len = (if sz < len then sz else len);
            room = buffer_size rb - uint (write_index rb)
        in
        if room > uint len then do {
          buf \<leftarrow> memcpy_to (buffer_ptr rb) (uint (write_index rb)) ptr (uint len);
          Some (ucast len, rb\<lparr>buffer_ptr := buf, write_index := write_index rb + ucast len\<rparr>)
        }
        else do {
          buf \<leftarrow> memcpy_to (buffer_ptr rb) (uint (write_index rb)) ptr room;
          buf \<leftarrow> memcpy_to buf 0 (drop (nat room) ptr) (uint len - room);
          Some (ucast len, rb\<lparr>buffer_ptr := buf, write_mirror := NOT (write_mirror rb),
                              write_index := word_of_int (uint len - room)\<rparr>)
        })"

definition rt_ringbuffer_put_force ::
  "rt_ringbuffer \<Rightarrow> u8 list \<Rightarrow> u16 \<Rightarrow> (rt_size_t \<times> rt_ringbuffer) option" where
  "rt_ringbuffer_put_force rb ptr len =
     (let space = (ucast (rt_ringbuffer_space_len rb) :: u16);
          over = uint len > buffer_size rb;
          ptr = (if over then drop (nat (uint len - buffer_size rb)) ptr else ptr);
          len = (if over then word_of_int (buffer_size rb) else len);
          room = buffer_size rb - uint (write_index rb)
      in
      if room > uint len then do {
        buf \<leftarrow> memcpy_to (buffer_ptr rb) (uint (write_index rb)) ptr (uint len);
        let w = write_index rb + ucast len;
        Some (ucast len,
              rb\<lparr>buffer_ptr := buf, write_index := w,
                 read_index := (if space < len then w else read_index rb)\<rparr>)
      }
      else do {
        buf \<leftarrow> memcpy_to (buffer_ptr rb) (uint (write_index rb)) ptr room;
        buf \<leftarrow> memcpy_to buf 0 (drop (nat room) ptr) (uint len - room);
        let w = word_of_int (uint len - room);
        Some (ucast len,
              rb\<lparr>buffer_ptr := buf, write_mirror := NOT (write_mirror rb), write_index := w,
                 read_mirror := (if space < len then NOT (read_mirror rb) else read_mirror rb),
                 read_index := (if space < len then w else read_index rb)\<rparr>)
      })"

text \<open>The bytes a get copies to the caller's buffer are the second component of its result.\<close>

definition rt_ringbuffer_get ::
  "rt_ringbuffer \<Rightarrow> u16 \<Rightarrow> (rt_size_t \<times> u8 list \<times> rt_ringbuffer) option" where
  "rt_ringbuffer_get rb len =
     (let sz = rt_ringbuffer_data_len rb in
      if sz = 0 then Some (0, [], rb)
      else
        let len = (if sz < ucast len then ucast sz else len);
            room = buffer_size rb - uint (read_index rb)
        in
        if room > uint len then do {
          out \<leftarrow> memread (buffer_ptr rb) (uint (read_index rb)) (uint len);
          Some (ucast len, out, rb\<lparr>read_index := read_index rb + ucast len\<rparr>)
        }
        else do {
          out1 \<leftarrow> memread (buffer_ptr rb) (uint (read_index rb)) room;
          out2 \<leftarrow> memread (buffer_ptr rb) 0 (uint len - room);
          Some (ucast len, out1 @ out2,
                rb\<lparr>read_mirror := NOT (read_mirror rb),
                   read_index := word_of_int (uint len - room)\<rparr>)
        })"

definition rt_ringbuffer_putchar ::
  "rt_ringbuffer \<Rightarrow> u8 \<Rightarrow> (rt_size_t \<times> rt_ringbuffer) option" where
  "rt_ringbuffer_putchar rb ch =
     (if rt_ringbuffer_space_len rb = 0 then Some (0, rb)
      else do {
        buf \<leftarrow> memcpy_to (buffer_ptr rb) (uint (write_index rb)) [ch] 1;
        Some (1,
          if uint (write_index rb) = buffer_size rb - 1
          then rb\<lparr>buffer_ptr := buf, write_mirror := NOT (write_mirror rb), write_index := 0\<rparr>
          else rb\<lparr>buffer_ptr := buf, write_index := write_index rb + 1\<rparr>)
      })"

definition rt_ringbuffer_putchar_force ::
  "rt_ringbuffer \<Rightarrow> u8 \<Rightarrow> (rt_size_t \<times> rt_ringbuffer) option" where
  "rt_ringbuffer_putchar_force rb ch =
     (let old_state = rt_ringbuffer_status rb in do {
        buf \<leftarrow> memcpy_to (buffer_ptr rb) (uint (write_index rb)) [ch] 1;
        Some (1,
          if uint (write_index rb) = buffer_size rb - 1
          then rb\<lparr>buffer_ptr := buf, write_mirror := NOT (write_mirror rb), write_index := 0,
                  read_mirror := (if old_state = RT_RINGBUFFER_FULL then NOT (read_mirror rb)
                                  else read_mirror rb),
                  read_index := (if old_state = RT_RINGBUFFER_FULL then 0 else read_index rb)\<rparr>
          else rb\<lparr>buffer_ptr := buf, write_index := write_index rb + 1,
                  read_index := (if old_state = RT_RINGBUFFER_FULL then write_index rb + 1
                                 else read_index rb)\<rparr>)
      })"

definition rt_ringbuffer_getchar ::
  "rt_ringbuffer \<Rightarrow> (rt_size_t \<times> u8 option \<times> rt_ringbuffer) option" where
  "rt_ringbuffer_getchar rb =
     (if rt_ringbuffer_data_len rb = 0 then Some (0, None, rb)
      else do {
        out \<leftarrow> memread (buffer_ptr rb) (uint (read_index rb)) 1;
        Some (1, Some (hd out),
          if uint (read_index rb) = buffer_size rb - 1
          then rb\<lparr>read_mirror := NOT (read_mirror rb), read_index := 0\<rparr>
          else rb\<lparr>read_index := read_index rb + 1\<rparr>)
      })"

definition rt_ringbuffer_reset :: "rt_ringbuffer \<Rightarrow> rt_ringbuffer" where
  "rt_ringbuffer_reset rb =
     rb\<lparr>read_mirror := 0, read_index := 0, write_mirror := 0, write_index := 0\<rparr>"

subsection \<open>Invariant and abstraction\<close>

abbreviation rb_n :: "rt_ringbuffer \<Rightarrow> nat" where "rb_n rb \<equiv> nat (buffer_size rb)"
abbreviation rb_r :: "rt_ringbuffer \<Rightarrow> nat" where "rb_r rb \<equiv> unat (read_index rb)"
abbreviation rb_w :: "rt_ringbuffer \<Rightarrow> nat" where "rb_w rb \<equiv> unat (write_index rb)"

definition rb_wf :: "rt_ringbuffer \<Rightarrow> bool" where
  "rb_wf rb \<longleftrightarrow>
     0 < buffer_size rb \<and> buffer_size rb < 2 ^ 15 \<and> rb_n rb \<le> length (buffer_ptr rb) \<and>
     rb_r rb < rb_n rb \<and> rb_w rb < rb_n rb \<and>
     (if read_mirror rb = write_mirror rb then rb_r rb \<le> rb_w rb else rb_w rb \<le> rb_r rb)"

definition rb_len :: "rt_ringbuffer \<Rightarrow> nat" where
  "rb_len rb = (if read_mirror rb = write_mirror rb then rb_w rb - rb_r rb
                else rb_n rb - (rb_r rb - rb_w rb))"

definition rb_data :: "rt_ringbuffer \<Rightarrow> u8 list" where
  "rb_data rb = circ (buffer_ptr rb) (rb_n rb) (rb_r rb) (rb_len rb)"

subsection \<open>Basic facts\<close>

lemma length_rb_data [simp]: "length (rb_data rb) = rb_len rb"
  by (simp add: rb_data_def)

lemma mirror_cases: "(a :: 1 word) = 0 \<or> a = 1"
proof -
  have "unat a < 2" using unsigned_less [where ?'a=nat and w=a] by simp
  then have "unat a = 0 \<or> unat a = 1" by linarith
  then show ?thesis by (metis unat_eq_zero unat_1 word_unat_eq_iff)
qed

lemma NOT_mirror [simp]:
  "(NOT a = b) = (a \<noteq> (b :: 1 word))" "(b = NOT a) = (a \<noteq> (b :: 1 word))"
  using mirror_cases [of a] mirror_cases [of b] by auto

lemma rb_len_le: "rb_wf rb \<Longrightarrow> rb_len rb \<le> rb_n rb"
  by (auto simp: rb_wf_def rb_len_def split: if_splits)

text \<open>The write position is the cell after the last byte held.\<close>

lemma rb_write_pos:
  assumes "rb_wf rb"
  shows "rb_w rb = (rb_r rb + rb_len rb) mod rb_n rb"
proof (cases "read_mirror rb = write_mirror rb")
  case True
  with assms show ?thesis by (simp add: rb_wf_def rb_len_def)
next
  case False
  with assms have "rb_r rb + rb_len rb = rb_w rb + rb_n rb" and "rb_w rb < rb_n rb"
    by (auto simp: rb_wf_def rb_len_def)
  then show ?thesis by simp
qed

lemma unat_word_of_int_small:
  "0 \<le> i \<Longrightarrow> i < 2 ^ 15 \<Longrightarrow> unat (word_of_int i :: u64) = nat i"
  "0 \<le> i \<Longrightarrow> i < 2 ^ 15 \<Longrightarrow> unat (word_of_int i :: u16) = nat i"
  "0 \<le> i \<Longrightarrow> i < 2 ^ 15 \<Longrightarrow> unat (word_of_int i :: 15 word) = nat i"
  by (simp_all add: unsigned_of_int take_bit_int_eq_self)

lemma uint_index: "uint (w :: 15 word) = int (unat w)"
  by simp

lemma unat_data_len:
  assumes "rb_wf rb"
  shows "unat (rt_ringbuffer_data_len rb) = rb_len rb"
proof -
  have eq: "read_index rb = write_index rb \<longleftrightarrow> rb_r rb = rb_w rb"
    by (simp add: word_unat_eq_iff)
  have lt: "read_index rb < write_index rb \<longleftrightarrow> rb_r rb < rb_w rb"
    by (simp add: word_less_nat_alt)
  have below: "rb_w rb < 2 ^ 15" "rb_r rb < 2 ^ 15"
    using assms by (auto simp: rb_wf_def)
  have half1: "unat (word_of_int (uint (write_index rb) - uint (read_index rb)) :: u64)
      = rb_w rb - rb_r rb" if "rb_r rb < rb_w rb"
    using that below by (subst unat_word_of_int_small) (auto simp: uint_nat simp del: of_nat_unat)
  have half2: "unat (word_of_int (buffer_size rb - (uint (read_index rb) - uint (write_index rb))) :: u64)
      = rb_n rb - (rb_r rb - rb_w rb)" if "rb_w rb < rb_r rb"
    using that assms
    by (subst unat_word_of_int_small) (auto simp: rb_wf_def uint_nat simp del: of_nat_unat)
  have full: "unat (word_of_int (buffer_size rb) :: u64) = rb_n rb"
    using assms by (simp add: rb_wf_def unat_word_of_int_small)
  show ?thesis
    using assms half1 half2 full unfolding rt_ringbuffer_data_len_def rt_ringbuffer_status_def eq lt
    by (cases "rb_r rb" "rb_w rb" rule: linorder_cases)
      (auto simp: rb_wf_def rb_len_def split: if_splits)
qed

lemma unat_space_len:
  assumes "rb_wf rb"
  shows "unat (rt_ringbuffer_space_len rb) = rb_n rb - rb_len rb"
    and "unat (ucast (rt_ringbuffer_space_len rb) :: u16) = rb_n rb - rb_len rb"
proof -
  have n: "unat (word_of_int (buffer_size rb) :: u64) = rb_n rb"
    using assms by (simp add: rb_wf_def unat_word_of_int_small)
  have le: "rt_ringbuffer_data_len rb \<le> word_of_int (buffer_size rb)"
    using assms by (simp add: word_le_nat_alt n unat_data_len rb_len_le)
  show s: "unat (rt_ringbuffer_space_len rb) = rb_n rb - rb_len rb"
    using le by (simp add: rt_ringbuffer_space_len_def unat_sub n unat_data_len [OF assms])
  have "rb_n rb < 2 ^ 15" using assms by (auto simp: rb_wf_def)
  then show "unat (ucast (rt_ringbuffer_space_len rb) :: u16) = rb_n rb - rb_len rb"
    by (simp add: unsigned_ucast_eq s take_bit_nat_eq_self)
qed

subsection \<open>Advancing the positions\<close>

lemma unat_index_add:
  assumes "unat (i :: 15 word) + unat (m :: u16) < 2 ^ 15"
  shows "unat (i + ucast m) = unat i + unat m"
proof -
  have "unat (ucast m :: 15 word) = unat m"
    using assms by (simp add: unsigned_ucast_eq take_bit_nat_eq_self)
  then show ?thesis using assms by (simp add: unat_word_ariths)
qed

text \<open>The sizes and positions as natural numbers.\<close>

lemma rb_nat_view:
  assumes "rb_wf rb"
  shows "buffer_size rb = int (rb_n rb)" "0 < rb_n rb" "rb_n rb < 2 ^ 15"
    "rb_n rb \<le> length (buffer_ptr rb)" "rb_r rb < rb_n rb" "rb_w rb < rb_n rb"
    "rb_len rb \<le> rb_n rb"
    "read_mirror rb = write_mirror rb \<Longrightarrow> rb_w rb = rb_r rb + rb_len rb"
    "read_mirror rb \<noteq> write_mirror rb \<Longrightarrow> rb_w rb + rb_n rb = rb_r rb + rb_len rb"
proof -
  show "read_mirror rb \<noteq> write_mirror rb \<Longrightarrow> rb_w rb + rb_n rb = rb_r rb + rb_len rb"
    using assms by (simp add: rb_wf_def rb_len_def)
qed (use assms rb_len_le [OF assms] in \<open>auto simp: rb_wf_def rb_len_def\<close>)

text \<open>Conversely, a buffer whose positions fit a length and a start is well formed.\<close>

lemma rb_wf_intro:
  assumes "buffer_size rb = int n" "0 < n" "n < 2 ^ 15" "n \<le> length (buffer_ptr rb)"
    "rb_r rb < n" "rb_w rb < n" "l \<le> n"
    "if read_mirror rb = write_mirror rb then rb_w rb = rb_r rb + l else rb_w rb + n = rb_r rb + l"
  shows "rb_wf rb" and "rb_len rb = l"
  using assms by (auto simp: rb_wf_def rb_len_def split: if_splits)

text \<open>
  The two ways the write position moves: inside the current mirror, or across the end of
  the pool into the other mirror. Both keep the invariant and append the bytes written.
\<close>

lemma rb_write_inside:
  assumes wf: "rb_wf rb" and m: "length ys \<le> rb_n rb - rb_len rb"
    and ins: "rb_w rb + length ys < rb_n rb" and w': "unat w' = rb_w rb + length ys"
  defines "rb' \<equiv> rb\<lparr>buffer_ptr := blit (buffer_ptr rb) (rb_w rb) ys, write_index := w'\<rparr>"
  shows "rb_wf rb'" and "rb_len rb' = rb_len rb + length ys" and "rb_data rb' = rb_data rb @ ys"
proof -
  define n where "n = rb_n rb"
  note n = rb_nat_view [OF wf, folded n_def]
  note m = m [folded n_def]
  have l: "length (blit (buffer_ptr rb) (rb_w rb) ys) = length (buffer_ptr rb)"
    using ins n by (intro length_blit) simp
  have new: "buffer_size rb' = int n" "n \<le> length (buffer_ptr rb')" "rb_r rb' = rb_r rb"
    "rb_w rb' = rb_w rb + length ys" "read_mirror rb' = read_mirror rb"
    "write_mirror rb' = write_mirror rb"
    using n(1,4) l w' by (simp_all add: rb'_def)
  have fit: "rb_len rb + length ys \<le> n" using m n(7) by linarith
  have wl: "rb_wf rb' \<and> rb_len rb' = rb_len rb + length ys"
    using new n(2,3,5,8,9) fit ins [folded n_def]
    by (intro conjI rb_wf_intro [where n = n and l = "rb_len rb + length ys"]) auto
  then show "rb_wf rb'" "rb_len rb' = rb_len rb + length ys" by auto
  have "circ (blit (buffer_ptr rb) (rb_w rb) ys) n (rb_r rb) (rb_len rb + length ys)
      = circ (buffer_ptr rb) n (rb_r rb) (rb_len rb) @ ys"
    using n(2,4) ins fit rb_write_pos [OF wf] unfolding n_def by (intro circ_blit) auto
  then show "rb_data rb' = rb_data rb @ ys"
    using wl by (simp add: rb_data_def n_def) (simp add: rb'_def)
qed

lemma rb_write_across:
  assumes wf: "rb_wf rb" and m: "length ys \<le> rb_n rb - rb_len rb"
    and acr: "rb_n rb \<le> rb_w rb + length ys"
    and w': "unat w' = length ys - (rb_n rb - rb_w rb)"
  defines "t \<equiv> rb_n rb - rb_w rb"
  defines "rb' \<equiv> rb\<lparr>buffer_ptr := blit (blit (buffer_ptr rb) (rb_w rb) (take t ys)) 0 (drop t ys),
                     write_mirror := NOT (write_mirror rb), write_index := w'\<rparr>"
  shows "rb_wf rb'" and "rb_len rb' = rb_len rb + length ys" and "rb_data rb' = rb_data rb @ ys"
proof -
  define n where "n = rb_n rb"
  note n = rb_nat_view [OF wf, folded n_def]
  note m = m [folded n_def]
  have fit: "rb_len rb + length ys \<le> n" using m n(7) by linarith
  have same: "read_mirror rb = write_mirror rb"
    using n(5,9) acr [folded n_def] fit by fastforce
  note wr = n(8) [OF same]
  have t: "rb_w rb + t = n" "t \<le> length ys" using n(6) acr [folded n_def] by (simp_all add: t_def n_def [symmetric])
  obtain ys1 ys2 where ys: "ys = ys1 @ ys2" "length ys1 = t" "take t ys = ys1" "drop t ys = ys2"
    using t(2) by (metis append_take_drop_id length_take min.absorb2)
  let ?b1 = "blit (buffer_ptr rb) (rb_w rb) ys1"
  have b1: "length ?b1 = length (buffer_ptr rb)"
    using t n(4) ys by (intro length_blit) simp
  have b2: "length (blit ?b1 0 ys2) = length (buffer_ptr rb)"
    using fit n(4) ys b1 by (subst length_blit) auto
  have new: "buffer_size rb' = int n" "n \<le> length (buffer_ptr rb')" "rb_r rb' = rb_r rb"
    "rb_w rb' = length ys2" "read_mirror rb' = read_mirror rb"
    "write_mirror rb' = NOT (write_mirror rb)"
    using n(1,4) b2 w' [folded n_def] ys t by (simp_all add: rb'_def t_def n_def [symmetric])
  have wl: "rb_wf rb' \<and> rb_len rb' = rb_len rb + length ys"
    using new n(2,3,5) fit same wr t ys
    by (intro conjI rb_wf_intro [where n = n and l = "rb_len rb + length ys"]) auto
  then show "rb_wf rb'" "rb_len rb' = rb_len rb + length ys" by auto
  have c1: "circ ?b1 n (rb_r rb) (rb_len rb + length ys1)
      = circ (buffer_ptr rb) n (rb_r rb) (rb_len rb) @ ys1"
    using n(2,4) t ys fit rb_write_pos [OF wf] unfolding n_def by (intro circ_blit) auto
  have "circ (blit ?b1 0 ys2) n (rb_r rb) (rb_len rb + length ys1 + length ys2)
      = circ ?b1 n (rb_r rb) (rb_len rb + length ys1) @ ys2"
    using n(2,4) b1 t ys wr fit by (intro circ_blit) (auto simp: add.assoc [symmetric])
  then have "circ (blit ?b1 0 ys2) n (rb_r rb) (rb_len rb + length ys)
      = circ (buffer_ptr rb) n (rb_r rb) (rb_len rb) @ ys"
    using c1 ys(1) by (simp add: add.assoc)
  then show "rb_data rb' = rb_data rb @ ys"
    using wl ys(3,4) by (simp add: rb_data_def n_def) (simp add: rb'_def)
qed

subsection \<open>Put\<close>

lemma rt_ringbuffer_put_refines:
  assumes wf: "rb_wf rb" and src: "unat len \<le> length ptr"
  defines "m \<equiv> min (unat len) (rb_n rb - rb_len rb)"
  shows "\<exists>rb'. rt_ringbuffer_put rb ptr len = Some (of_nat m, rb') \<and> rb_wf rb' \<and>
           buffer_size rb' = buffer_size rb \<and> rb_data rb' = rb_data rb @ take m ptr"
proof -
  let ?sz = "ucast (rt_ringbuffer_space_len rb) :: u16"
  define len' where "len' = (if ?sz < len then ?sz else len)"
  define n where "n = rb_n rb"
  note n = rb_nat_view [OF wf, folded n_def]
  have sz: "unat ?sz = n - rb_len rb" using unat_space_len(2) [OF wf] by (simp add: n_def)
  have len: "unat len' = m"
    by (auto simp: m_def len'_def sz word_less_nat_alt min_def n_def [symmetric])
  have ulen: "uint len' = int m" using len by (simp add: uint_nat del: of_nat_unat)
  have lenw: "(ucast len' :: u64) = of_nat m" by (simp flip: len)
  have m: "m \<le> n - rb_len rb" "length (take m ptr) = m" "m \<le> length ptr"
    using src by (auto simp: m_def n_def)
  have fit: "length (take m ptr) \<le> rb_n rb - rb_len rb" using m by (simp add: n_def)
  have put: "rt_ringbuffer_put rb ptr len =
     (if ?sz = 0 then Some (0, rb)
      else if int n - int (rb_w rb) > int m then do {
        buf \<leftarrow> memcpy_to (buffer_ptr rb) (int (rb_w rb)) ptr (int m);
        Some (of_nat m, rb\<lparr>buffer_ptr := buf, write_index := write_index rb + ucast len'\<rparr>) }
      else do {
        buf \<leftarrow> memcpy_to (buffer_ptr rb) (int (rb_w rb)) ptr (int n - int (rb_w rb));
        buf \<leftarrow> memcpy_to buf 0 (drop (nat (int n - int (rb_w rb))) ptr) (int m - (int n - int (rb_w rb)));
        Some (of_nat m, rb\<lparr>buffer_ptr := buf, write_mirror := NOT (write_mirror rb),
                           write_index := word_of_int (int m - (int n - int (rb_w rb)))\<rparr>) })"
    unfolding rt_ringbuffer_put_def Let_def len'_def [symmetric] n(1) uint_index ulen lenw
    by (rule refl)
  show ?thesis
  proof (cases "?sz = 0")
    case True
    then have "m = 0" using sz by (simp add: m_def n_def)
    with True show ?thesis using wf by (simp add: put)
  next
    case nz: False
    show ?thesis
    proof (cases "rb_w rb + m < n")
      case True
      have w': "unat (write_index rb + ucast len') = rb_w rb + length (take m ptr)"
        using True m n(3) len unat_index_add [of "write_index rb" len'] by simp
      have c: "int n - int (rb_w rb) > int m" using True by linarith
      have cp: "memcpy_to (buffer_ptr rb) (int (rb_w rb)) ptr (int m)
          = Some (blit (buffer_ptr rb) (rb_w rb) (take m ptr))"
        using True m n(4) by (intro memcpy_to_Some) auto
      have "rb_w rb + length (take m ptr) < rb_n rb" using True m(2) by (simp add: n_def)
      note new = rb_write_inside [OF wf fit this w']
      show ?thesis
        using new by (auto simp only: put nz c if_True if_False cp Option.bind.simps) simp
    next
      case False
      let ?t = "n - rb_w rb"
      have c: "\<not> int ?t > int m" using False by linarith
      have d: "int n - int (rb_w rb) = int ?t" "int m - int ?t = int (m - ?t)"
        using False n(6) by linarith+
      have w': "unat (word_of_int (int (m - ?t)) :: 15 word) = length (take m ptr) - (rb_n rb - rb_w rb)"
        using m n(3) by (subst unat_word_of_int_small) (auto simp: n_def)
      have cp1: "memcpy_to (buffer_ptr rb) (int (rb_w rb)) ptr (int ?t)
          = Some (blit (buffer_ptr rb) (rb_w rb) (take ?t (take m ptr)))"
        using False m n(4,6) by (subst memcpy_to_Some) (auto simp: min_def)
      have cp2: "memcpy_to (blit (buffer_ptr rb) (rb_w rb) (take ?t (take m ptr))) 0
            (drop ?t ptr) (int (m - ?t))
          = Some (blit (blit (buffer_ptr rb) (rb_w rb) (take ?t (take m ptr))) 0 (drop ?t (take m ptr)))"
      proof -
        have "m - ?t \<le> length ptr - ?t" "m - ?t \<le> length (buffer_ptr rb)"
          "rb_w rb + length (take ?t (take m ptr)) \<le> length (buffer_ptr rb)"
          using m n(4,6) by (auto simp: min_def)
        then show ?thesis
          using memcpy_to_Some [of "m - ?t" "drop ?t ptr" 0
              "blit (buffer_ptr rb) (rb_w rb) (take ?t (take m ptr))"] by (simp add: drop_take)
      qed
      have "rb_n rb \<le> rb_w rb + length (take m ptr)" using False m(2) by (simp add: n_def)
      note new = rb_write_across [OF wf fit this w', folded n_def]
      have "rt_ringbuffer_put rb ptr len = Some (of_nat m,
          rb\<lparr>buffer_ptr := blit (blit (buffer_ptr rb) (rb_w rb) (take ?t (take m ptr))) 0
               (drop ?t (take m ptr)),
             write_mirror := NOT (write_mirror rb), write_index := word_of_int (int (m - ?t))\<rparr>)"
        by (simp only: put nz d c if_False nat_int cp1 cp2 Option.bind.simps)
      with new show ?thesis by simp
    qed
  qed
qed

subsection \<open>Get\<close>

text \<open>Moving the read position over \<open>k\<close> bytes drops them from the contents.\<close>

lemma rb_read_advance:
  assumes wf: "rb_wf rb" and k: "k \<le> rb_len rb"
    and r': "unat r' = (if rb_r rb + k < rb_n rb then rb_r rb + k else rb_r rb + k - rb_n rb)"
    and m': "m' = (if rb_r rb + k < rb_n rb then read_mirror rb else NOT (read_mirror rb))"
  defines "rb' \<equiv> rb\<lparr>read_mirror := m', read_index := r'\<rparr>"
  shows "rb_wf rb'" and "rb_len rb' = rb_len rb - k" and "rb_data rb' = drop k (rb_data rb)"
    and "take k (rb_data rb) = circ (buffer_ptr rb) (rb_n rb) (rb_r rb) k"
proof -
  define n where "n = rb_n rb"
  note n = rb_nat_view [OF wf, folded n_def]
  have new: "buffer_size rb' = int n" "buffer_ptr rb' = buffer_ptr rb"
    "rb_r rb' = (if rb_r rb + k < n then rb_r rb + k else rb_r rb + k - n)"
    "rb_w rb' = rb_w rb" "read_mirror rb' = (if rb_r rb + k < n then read_mirror rb else NOT (read_mirror rb))"
    "write_mirror rb' = write_mirror rb"
    using n(1) r' m' by (simp_all add: rb'_def n_def)
  have "(if read_mirror rb' = write_mirror rb' then rb_w rb' = rb_r rb' + (rb_len rb - k)
         else rb_w rb' + n = rb_r rb' + (rb_len rb - k))"
    using new n(5,6,8,9) k by (cases "read_mirror rb = write_mirror rb") auto
  then have wl: "rb_wf rb' \<and> rb_len rb' = rb_len rb - k"
    using new(1-4) n(2-7) k
    by (intro conjI rb_wf_intro [where n = n and l = "rb_len rb - k"]) auto
  then show "rb_wf rb'" and len: "rb_len rb' = rb_len rb - k" by auto
  have split: "rb_data rb = circ (buffer_ptr rb) n (rb_r rb) k
      @ circ (buffer_ptr rb) n ((rb_r rb + k) mod n) (rb_len rb - k)"
    using circ_append [of "buffer_ptr rb" n "rb_r rb" k "rb_len rb - k"] k
    by (simp add: rb_data_def n_def)
  have "rb_r rb' = (rb_r rb + k) mod n"
    using new(3) n(5,7) k mod_add_wrap [of "rb_r rb" n k] by simp
  then show "rb_data rb' = drop k (rb_data rb)"
    using split len new(1,2) by (simp add: rb_data_def)
  show "take k (rb_data rb) = circ (buffer_ptr rb) (rb_n rb) (rb_r rb) k"
    using split by (simp add: n_def)
qed

lemma rt_ringbuffer_get_refines:
  fixes len :: u16
  assumes wf: "rb_wf rb"
  defines "m \<equiv> min (unat len) (rb_len rb)"
  shows "\<exists>rb'. rt_ringbuffer_get rb len = Some (of_nat m, take m (rb_data rb), rb') \<and> rb_wf rb' \<and>
           buffer_size rb' = buffer_size rb \<and> rb_data rb' = drop m (rb_data rb)"
proof -
  let ?sz = "rt_ringbuffer_data_len rb"
  define len' where "len' = (if ?sz < ucast len then ucast ?sz else len)"
  define n where "n = rb_n rb"
  note n = rb_nat_view [OF wf, folded n_def]
  have sz: "unat ?sz = rb_len rb" by (rule unat_data_len [OF wf])
  have "unat (ucast ?sz :: u16) = rb_len rb"
    using n(3,7) by (simp add: unsigned_ucast_eq sz take_bit_nat_eq_self)
  then have len: "unat len' = m"
    by (auto simp: m_def len'_def sz word_less_nat_alt min_def)
  have ulen: "uint len' = int m" using len by (simp add: uint_nat del: of_nat_unat)
  have lenw: "(ucast len' :: u64) = of_nat m" by (simp flip: len)
  have m: "m \<le> rb_len rb" by (simp add: m_def)
  have get: "rt_ringbuffer_get rb len =
     (if ?sz = 0 then Some (0, [], rb)
      else if int n - int (rb_r rb) > int m then do {
        out \<leftarrow> memread (buffer_ptr rb) (int (rb_r rb)) (int m);
        Some (of_nat m, out, rb\<lparr>read_index := read_index rb + ucast len'\<rparr>) }
      else do {
        out1 \<leftarrow> memread (buffer_ptr rb) (int (rb_r rb)) (int n - int (rb_r rb));
        out2 \<leftarrow> memread (buffer_ptr rb) 0 (int m - (int n - int (rb_r rb)));
        Some (of_nat m, out1 @ out2, rb\<lparr>read_mirror := NOT (read_mirror rb),
                 read_index := word_of_int (int m - (int n - int (rb_r rb)))\<rparr>) })"
    unfolding rt_ringbuffer_get_def Let_def len'_def [symmetric] n(1) uint_index ulen lenw
    by (rule refl)
  show ?thesis
  proof (cases "?sz = 0")
    case True
    then have "m = 0" using sz by (simp add: m_def)
    with True show ?thesis using wf by (simp add: get)
  next
    case nz: False
    show ?thesis
    proof (cases "rb_r rb + m < n")
      case True
      have r': "unat (read_index rb + ucast len') =
          (if rb_r rb + m < rb_n rb then rb_r rb + m else rb_r rb + m - rb_n rb)"
        using True n(3) len unat_index_add [of "read_index rb" len'] by (simp add: n_def)
      have c: "int n - int (rb_r rb) > int m" using True by linarith
      have rd: "memread (buffer_ptr rb) (int (rb_r rb)) (int m) = Some (take m (drop (rb_r rb) (buffer_ptr rb)))"
        using True n(4) by (intro memread_Some) simp
      note new = rb_read_advance [OF wf m r' refl]
      have out: "take m (rb_data rb) = take m (drop (rb_r rb) (buffer_ptr rb))"
        using new(4) True n(4) circ_segment [of "rb_r rb" m n "buffer_ptr rb"] by (simp add: n_def)
      show ?thesis
        unfolding out get using new(1-3) True nz c rd by (simp add: n_def del: of_nat_unat)
    next
      case False
      let ?t = "n - rb_r rb"
      have c: "\<not> int ?t > int m" using False by linarith
      have d: "int n - int (rb_r rb) = int ?t" "int m - int ?t = int (m - ?t)"
        using False n(5) by linarith+
      have "unat (word_of_int (int (m - ?t)) :: 15 word) = m - ?t"
        using m n(3,7) by (subst unat_word_of_int_small) simp_all
      then have r': "unat (word_of_int (int (m - ?t)) :: 15 word) =
          (if rb_r rb + m < rb_n rb then rb_r rb + m else rb_r rb + m - rb_n rb)"
        using False n(5) by (simp add: n_def [symmetric] del: of_int_of_nat_eq)
      have rd1: "memread (buffer_ptr rb) (int (rb_r rb)) (int ?t) = Some (take ?t (drop (rb_r rb) (buffer_ptr rb)))"
        using n(4,5) by (intro memread_Some) simp
      have rd2: "memread (buffer_ptr rb) 0 (int (m - ?t)) = Some (take (m - ?t) (buffer_ptr rb))"
        using n(4,5,7) m memread_Some [of 0 "m - ?t" "buffer_ptr rb"] by simp
      note new = rb_read_advance [OF wf m r' refl]
      have "circ (buffer_ptr rb) n (rb_r rb) (?t + (m - ?t))
          = circ (buffer_ptr rb) n (rb_r rb) ?t @ circ (buffer_ptr rb) n ((rb_r rb + ?t) mod n) (m - ?t)"
        by (rule circ_append)
      moreover have "circ (buffer_ptr rb) n (rb_r rb) ?t = take ?t (drop (rb_r rb) (buffer_ptr rb))"
        using n(4,5) by (intro circ_segment) simp_all
      moreover have "circ (buffer_ptr rb) n ((rb_r rb + ?t) mod n) (m - ?t) = take (m - ?t) (buffer_ptr rb)"
        using n(4,5,7) m circ_segment [of 0 "m - ?t" n "buffer_ptr rb"] by simp
      moreover have "?t + (m - ?t) = m" using False by simp
      ultimately have out: "take m (rb_data rb)
          = take ?t (drop (rb_r rb) (buffer_ptr rb)) @ take (m - ?t) (buffer_ptr rb)"
        using new(4) by (simp add: n_def)
      have "rt_ringbuffer_get rb len = Some (of_nat m, take m (rb_data rb),
          rb\<lparr>read_mirror := NOT (read_mirror rb), read_index := word_of_int (int (m - ?t))\<rparr>)"
        unfolding out by (simp only: get nz d c if_False rd1 rd2 Option.bind.simps)
      then show ?thesis using new(1-3) False by (simp add: n_def)
    qed
  qed
qed

subsection \<open>Single characters\<close>

lemma space_len_zero: "rb_wf rb \<Longrightarrow> rt_ringbuffer_space_len rb = 0 \<longleftrightarrow> rb_len rb = rb_n rb"
  using unat_space_len(1) [of rb] rb_len_le [of rb] by (auto simp: unat_eq_zero [symmetric])

lemma data_len_zero: "rb_wf rb \<Longrightarrow> rt_ringbuffer_data_len rb = 0 \<longleftrightarrow> rb_len rb = 0"
  using unat_data_len [of rb] by (auto simp: unat_eq_zero [symmetric])

lemma last_cell:
  "rb_wf rb \<Longrightarrow> uint (i :: 15 word) = buffer_size rb - 1 \<longleftrightarrow> Suc (unat i) = rb_n rb"
  by (auto simp: rb_wf_def uint_nat simp del: of_nat_unat)

lemma unat_index_Suc:
  "Suc (unat (i :: 15 word)) < 2 ^ 15 \<Longrightarrow> unat (i + 1) = Suc (unat i)"
  by (simp add: unat_word_ariths)

text \<open>Writing one byte and moving the write position, when there is room.\<close>

definition rb_push :: "rt_ringbuffer \<Rightarrow> u8 \<Rightarrow> rt_ringbuffer" where
  "rb_push rb ch =
     (if uint (write_index rb) = buffer_size rb - 1
      then rb\<lparr>buffer_ptr := blit (buffer_ptr rb) (rb_w rb) [ch],
              write_mirror := NOT (write_mirror rb), write_index := 0\<rparr>
      else rb\<lparr>buffer_ptr := blit (buffer_ptr rb) (rb_w rb) [ch],
              write_index := write_index rb + 1\<rparr>)"

lemma rb_push:
  assumes wf: "rb_wf rb" and space: "rb_len rb < rb_n rb"
  shows "rb_wf (rb_push rb ch)" and "rb_data (rb_push rb ch) = rb_data rb @ [ch]"
    and "buffer_size (rb_push rb ch) = buffer_size rb"
proof -
  note n = rb_nat_view [OF wf]
  have one: "length [ch] \<le> rb_n rb - rb_len rb" using space by simp
  have "rb_wf (rb_push rb ch) \<and> rb_data (rb_push rb ch) = rb_data rb @ [ch]"
  proof (cases "Suc (rb_w rb) = rb_n rb")
    case True
    have acr: "rb_n rb \<le> rb_w rb + length [ch]"
      and w': "unat (0 :: 15 word) = length [ch] - (rb_n rb - rb_w rb)"
      and t: "rb_n rb - rb_w rb = 1"
      using True by simp_all
    have "blit (blit (buffer_ptr rb) (rb_w rb) [ch]) 0 [] = blit (buffer_ptr rb) (rb_w rb) [ch]"
      by simp
    then show ?thesis
      using rb_write_across [OF wf one acr w'] last_cell [OF wf] True t
      by (simp add: rb_push_def)
  next
    case False
    have ins: "rb_w rb + length [ch] < rb_n rb" using False n(6) by simp
    have w': "unat (write_index rb + 1) = rb_w rb + length [ch]"
      using ins n(3) unat_index_Suc [of "write_index rb"] by simp
    show ?thesis
      using rb_write_inside [OF wf one ins w'] last_cell [OF wf] False by (simp add: rb_push_def)
  qed
  then show "rb_wf (rb_push rb ch)" and "rb_data (rb_push rb ch) = rb_data rb @ [ch]" by auto
  show "buffer_size (rb_push rb ch) = buffer_size rb" by (simp add: rb_push_def)
qed

lemma write_char:
  "rb_wf rb \<Longrightarrow> memcpy_to (buffer_ptr rb) (uint (write_index rb)) [ch] 1
     = Some (blit (buffer_ptr rb) (rb_w rb) [ch])"
  using rb_nat_view(4,6) [of rb] memcpy_to_Some [of 1 "[ch]" "rb_w rb" "buffer_ptr rb"] by simp

lemma rt_ringbuffer_putchar_eq:
  assumes "rb_wf rb"
  shows "rt_ringbuffer_putchar rb ch =
     (if rb_len rb = rb_n rb then Some (0, rb) else Some (1, rb_push rb ch))"
  using assms
  by (simp add: rt_ringbuffer_putchar_def space_len_zero write_char rb_push_def)

text \<open>Removing the first byte.\<close>

definition rb_pop :: "rt_ringbuffer \<Rightarrow> rt_ringbuffer" where
  "rb_pop rb =
     (if uint (read_index rb) = buffer_size rb - 1
      then rb\<lparr>read_mirror := NOT (read_mirror rb), read_index := 0\<rparr>
      else rb\<lparr>read_index := read_index rb + 1\<rparr>)"

lemma rb_pop:
  assumes wf: "rb_wf rb" and data: "rb_data rb = y # ys"
  shows "rb_wf (rb_pop rb)" and "rb_data (rb_pop rb) = ys"
    and "buffer_size (rb_pop rb) = buffer_size rb" and "buffer_ptr rb ! rb_r rb = y"
proof -
  note n = rb_nat_view [OF wf]
  have "0 < length (rb_data rb)" using data by simp
  then have k: "1 \<le> rb_len rb" by simp
  let ?r = "if Suc (rb_r rb) = rb_n rb then 0 else read_index rb + 1"
  let ?m = "if rb_r rb + 1 < rb_n rb then read_mirror rb else NOT (read_mirror rb)"
  have r': "unat ?r = (if rb_r rb + 1 < rb_n rb then rb_r rb + 1 else rb_r rb + 1 - rb_n rb)"
    using n(3,5) unat_index_Suc [of "read_index rb"] by simp
  have eq: "rb_pop rb = rb\<lparr>read_mirror := ?m, read_index := ?r\<rparr>"
    using n(5) last_cell [OF wf, of "read_index rb"] by (auto simp: rb_pop_def)
  note adv = rb_read_advance [OF wf k r' refl]
  show "rb_wf (rb_pop rb)" and "rb_data (rb_pop rb) = ys"
    unfolding eq using adv(1,3) data by simp_all
  show "buffer_size (rb_pop rb) = buffer_size rb" by (simp add: rb_pop_def)
  show "buffer_ptr rb ! rb_r rb = y"
    using adv(4) data n(5) by (simp add: circ_def)
qed

lemma rt_ringbuffer_getchar_eq:
  assumes wf: "rb_wf rb"
  shows "rt_ringbuffer_getchar rb =
     (case rb_data rb of [] \<Rightarrow> Some (0, None, rb) | y # _ \<Rightarrow> Some (1, Some y, rb_pop rb))"
proof (cases "rb_data rb")
  case Nil
  then have "rb_len rb = 0" by (metis length_rb_data list.size(3))
  then show ?thesis using Nil wf by (simp add: rt_ringbuffer_getchar_def data_len_zero)
next
  case (Cons y ys)
  then have "rb_len rb \<noteq> 0" by (metis length_rb_data length_0_conv list.distinct(1))
  moreover have "memread (buffer_ptr rb) (uint (read_index rb)) 1 = Some [buffer_ptr rb ! rb_r rb]"
    using rb_nat_view(4,5) [OF wf] memread_Some [of "rb_r rb" 1 "buffer_ptr rb"]
    by (simp add: take_Suc_conv_app_nth hd_drop_conv_nth take_Suc)
  ultimately show ?thesis
    using rb_pop(4) [OF wf Cons] wf Cons
    by (simp add: rt_ringbuffer_getchar_def data_len_zero rb_pop_def)
qed

subsection \<open>Overwriting puts\<close>

lemma status_full: "rb_wf rb \<Longrightarrow> rt_ringbuffer_status rb = RT_RINGBUFFER_FULL \<longleftrightarrow> rb_len rb = rb_n rb"
  by (auto simp: rt_ringbuffer_status_def rb_wf_def rb_len_def word_unat_eq_iff split: if_splits)

lemma full_positions: "rb_wf rb \<Longrightarrow> rb_len rb = rb_n rb \<Longrightarrow> read_index rb = write_index rb"
  by (auto simp: rb_wf_def rb_len_def word_unat_eq_iff split: if_splits)

lemma empty_positions:
  "read_mirror rb = write_mirror rb \<Longrightarrow> read_index rb = write_index rb \<Longrightarrow> rb_data rb = []"
  by (simp add: rb_data_def rb_len_def)

lemma rt_ringbuffer_putchar_force_eq:
  assumes wf: "rb_wf rb"
  shows "rt_ringbuffer_putchar_force rb ch =
     Some (1, rb_push (if rb_len rb = rb_n rb then rb_pop rb else rb) ch)"
proof (cases "rb_len rb = rb_n rb")
  case True
  then show ?thesis
    using wf full_positions [OF wf True]
    by (simp add: rt_ringbuffer_putchar_force_def Let_def status_full write_char rb_push_def rb_pop_def)
next
  case False
  then show ?thesis
    using wf
    by (simp add: rt_ringbuffer_putchar_force_def Let_def status_full write_char rb_push_def)
qed

text \<open>With enough room, the overwriting put is the plain put.\<close>

lemma put_force_fits:
  assumes wf: "rb_wf rb" and fits: "unat len \<le> rb_n rb - rb_len rb"
  shows "rt_ringbuffer_put_force rb ptr len = rt_ringbuffer_put rb ptr len"
proof -
  note n = rb_nat_view [OF wf]
  let ?sz = "ucast (rt_ringbuffer_space_len rb) :: u16"
  have over: "\<not> buffer_size rb < uint len"
    using fits n(1) unfolding uint_nat by linarith
  have sz: "\<not> ?sz < len"
    using fits unat_space_len(2) [OF wf] by (simp add: word_less_nat_alt)
  show ?thesis
  proof (cases "?sz = 0")
    case True
    then have "rb_n rb - rb_len rb = 0" using unat_space_len(2) [OF wf] by simp
    then have "len = 0" using fits by (simp add: unat_eq_zero)
    moreover have "uint (write_index rb) < buffer_size rb"
      using n(1,6) by (simp add: uint_nat del: of_nat_unat)
    moreover have "memcpy_to (buffer_ptr rb) (uint (write_index rb)) ptr 0 = Some (buffer_ptr rb)"
      using n(4,6) memcpy_to_Some [of 0 ptr "rb_w rb" "buffer_ptr rb"] by simp
    ultimately show ?thesis
      using True over sz by (simp add: rt_ringbuffer_put_def rt_ringbuffer_put_force_def Let_def)
  next
    case False
    then show ?thesis
      using over sz by (simp add: rt_ringbuffer_put_def rt_ringbuffer_put_force_def Let_def)
  qed
qed

text \<open>The two branches of the overwriting put when it discards, with the lengths as naturals.\<close>

lemma put_force_discard:
  assumes wf: "rb_wf rb" and src: "unat len \<le> length ptr"
    and disc: "rb_n rb - rb_len rb < min (unat len) (rb_n rb)"
  defines "m \<equiv> min (unat len) (rb_n rb)"
  defines "ys \<equiv> take m (drop (unat len - m) ptr)"
  defines "t \<equiv> rb_n rb - rb_w rb"
  shows "rb_w rb + m < rb_n rb \<Longrightarrow> \<exists>w'. unat w' = rb_w rb + m \<and>
           rt_ringbuffer_put_force rb ptr len = Some (of_nat m,
             rb\<lparr>buffer_ptr := blit (buffer_ptr rb) (rb_w rb) ys, write_index := w', read_index := w'\<rparr>)"
    and "\<not> rb_w rb + m < rb_n rb \<Longrightarrow> \<exists>w'. unat w' = m - t \<and>
           rt_ringbuffer_put_force rb ptr len = Some (of_nat m,
             rb\<lparr>buffer_ptr := blit (blit (buffer_ptr rb) (rb_w rb) (take t ys)) 0 (drop t ys),
                write_mirror := NOT (write_mirror rb), write_index := w',
                read_mirror := NOT (read_mirror rb), read_index := w'\<rparr>)"
proof -
  define n where "n = rb_n rb"
  note n = rb_nat_view [OF wf, folded n_def]
  let ?sz = "ucast (rt_ringbuffer_space_len rb) :: u16"
  let ?over = "uint len > buffer_size rb"
  define len' where "len' = (if ?over then word_of_int (buffer_size rb) else len)"
  define p' where "p' = (if ?over then drop (nat (uint len - buffer_size rb)) ptr else ptr)"
  have over: "?over \<longleftrightarrow> n < unat len" using n(1) by (simp add: uint_nat del: of_nat_unat)
  have len: "unat len' = m"
    using over n(1,3) unat_word_of_int_small(2) [of "int n"]
    by (auto simp: len'_def m_def min_def n_def [symmetric])
  have ulen: "uint len' = int m" using len by (simp add: uint_nat del: of_nat_unat)
  have lenw: "(ucast len' :: u64) = of_nat m" by (simp flip: len)
  have "nat (uint len - buffer_size rb) = unat len - n" if "n < unat len"
    using that n(1) by (simp add: uint_nat nat_diff_distrib del: of_nat_unat)
  then have p': "p' = drop (unat len - m) ptr"
    using over by (auto simp: p'_def m_def min_def n_def [symmetric])
  have ys: "take m p' = ys" "length ys = m" "m \<le> length p'"
    using src by (auto simp: p' ys_def m_def)
  have mn: "m \<le> n" by (simp add: m_def n_def)
  have sz: "?sz < len'"
    using disc len unat_space_len(2) [OF wf] by (simp add: word_less_nat_alt m_def)
  have force: "rt_ringbuffer_put_force rb ptr len =
     (if int n - int (rb_w rb) > int m then do {
        buf \<leftarrow> memcpy_to (buffer_ptr rb) (int (rb_w rb)) p' (int m);
        let w = write_index rb + ucast len';
        Some (of_nat m, rb\<lparr>buffer_ptr := buf, write_index := w, read_index := (if ?sz < len' then w else read_index rb)\<rparr>) }
      else do {
        buf \<leftarrow> memcpy_to (buffer_ptr rb) (int (rb_w rb)) p' (int n - int (rb_w rb));
        buf \<leftarrow> memcpy_to buf 0 (drop (nat (int n - int (rb_w rb))) p') (int m - (int n - int (rb_w rb)));
        let w = word_of_int (int m - (int n - int (rb_w rb)));
        Some (of_nat m, rb\<lparr>buffer_ptr := buf, write_mirror := NOT (write_mirror rb), write_index := w,
                 read_mirror := (if ?sz < len' then NOT (read_mirror rb) else read_mirror rb),
                 read_index := (if ?sz < len' then w else read_index rb)\<rparr>) })"
    unfolding rt_ringbuffer_put_force_def Let_def len'_def [symmetric] p'_def [symmetric] ulen lenw
    unfolding n(1) uint_index by (rule refl)
  show "\<exists>w'. unat w' = rb_w rb + m \<and>
           rt_ringbuffer_put_force rb ptr len = Some (of_nat m,
             rb\<lparr>buffer_ptr := blit (buffer_ptr rb) (rb_w rb) ys, write_index := w', read_index := w'\<rparr>)"
    if "rb_w rb + m < rb_n rb"
  proof (rule exI [of _ "write_index rb + ucast len'"], rule conjI)
    show "unat (write_index rb + ucast len') = rb_w rb + m"
      using that n(3) len unat_index_add [of "write_index rb" len'] by (simp add: n_def)
    have c: "int n - int (rb_w rb) > int m" using that by (simp add: n_def [symmetric] del: of_nat_unat)
    have cp: "memcpy_to (buffer_ptr rb) (int (rb_w rb)) p' (int m)
        = Some (blit (buffer_ptr rb) (rb_w rb) ys)"
      using that n(4) ys memcpy_to_Some [of m p' "rb_w rb" "buffer_ptr rb"]
      by (simp add: n_def [symmetric] del: of_nat_unat)
    show "rt_ringbuffer_put_force rb ptr len = Some (of_nat m,
             rb\<lparr>buffer_ptr := blit (buffer_ptr rb) (rb_w rb) ys, write_index := write_index rb + ucast len',
                read_index := write_index rb + ucast len'\<rparr>)"
      by (simp only: force c if_True cp Option.bind.simps sz Let_def)
  qed
  show "\<exists>w'. unat w' = m - t \<and>
           rt_ringbuffer_put_force rb ptr len = Some (of_nat m,
             rb\<lparr>buffer_ptr := blit (blit (buffer_ptr rb) (rb_w rb) (take t ys)) 0 (drop t ys),
                write_mirror := NOT (write_mirror rb), write_index := w',
                read_mirror := NOT (read_mirror rb), read_index := w'\<rparr>)"
    if "\<not> rb_w rb + m < rb_n rb"
  proof (rule exI [of _ "word_of_int (int (m - t))"], rule conjI)
    have t: "t = n - rb_w rb" by (simp add: t_def n_def)
    have d: "int n - int (rb_w rb) = int t" "int m - int t = int (m - t)" "t \<le> m"
      using that n(6) by (auto simp: t n_def [symmetric] simp del: of_nat_unat)
    show "unat (word_of_int (int (m - t)) :: 15 word) = m - t"
      using mn n(3) by (subst unat_word_of_int_small) simp_all
    have c: "\<not> int t > int m" using d(3) by simp
    have tk: "take t p' = take t ys" "take (m - t) (drop t p') = drop t ys"
      unfolding ys(1) [symmetric] using d(3) by (simp_all add: drop_take min_def)
    have cp1: "memcpy_to (buffer_ptr rb) (int (rb_w rb)) p' (int t)
        = Some (blit (buffer_ptr rb) (rb_w rb) (take t ys))"
    proof -
      have "t \<le> length p'" "rb_w rb + t \<le> length (buffer_ptr rb)"
        using d(3) ys(3) n(4,6) by (simp_all add: t)
      then show ?thesis using memcpy_to_Some [of t p'] tk(1) by metis
    qed
    have "length (blit (buffer_ptr rb) (rb_w rb) (take t ys)) = length (buffer_ptr rb)"
      using n(4,6) d(3) ys(2) by (intro length_blit) (simp add: t)
    then have cp2: "memcpy_to (blit (buffer_ptr rb) (rb_w rb) (take t ys)) 0 (drop t p') (int (m - t))
        = Some (blit (blit (buffer_ptr rb) (rb_w rb) (take t ys)) 0 (drop t ys))"
      using mn n(4) ys(3) tk(2)
        memcpy_to_Some [of "m - t" "drop t p'" 0 "blit (buffer_ptr rb) (rb_w rb) (take t ys)"]
      by simp
    show "rt_ringbuffer_put_force rb ptr len = Some (of_nat m,
             rb\<lparr>buffer_ptr := blit (blit (buffer_ptr rb) (rb_w rb) (take t ys)) 0 (drop t ys),
                write_mirror := NOT (write_mirror rb), write_index := word_of_int (int (m - t)),
                read_mirror := NOT (read_mirror rb), read_index := word_of_int (int (m - t))\<rparr>)"
      by (simp only: force d c if_True if_False nat_int cp1 cp2 Option.bind.simps sz Let_def)
  qed
qed

text \<open>A request longer than the pool is cut to its last bytes before anything else happens.\<close>

lemma put_force_cut:
  assumes wf: "rb_wf rb" and len: "rb_n rb < unat len"
  shows "rt_ringbuffer_put_force rb ptr len =
     rt_ringbuffer_put_force rb (drop (unat len - rb_n rb) ptr) (of_nat (rb_n rb))"
proof -
  note n = rb_nat_view [OF wf]
  have over: "buffer_size rb < uint len" using len n(1) unfolding uint_nat by linarith
  have small: "uint (of_nat (rb_n rb) :: u16) = buffer_size rb"
    using n(1,3) by (simp add: unsigned_of_nat take_bit_nat_eq_self)
  have w: "(word_of_int (buffer_size rb) :: u16) = of_nat (rb_n rb)" using n(1) by (metis of_int_of_nat_eq)
  have d: "nat (uint len - buffer_size rb) = unat len - rb_n rb"
    using len n(1) unfolding uint_nat by linarith
  show ?thesis
    unfolding rt_ringbuffer_put_force_def Let_def small w d using over by simp
qed

lemma rt_ringbuffer_put_force_overwrites:
  assumes wf: "rb_wf rb" and src: "unat len \<le> length ptr"
    and mir: "read_mirror rb \<noteq> write_mirror rb"
    and disc: "rb_n rb - rb_len rb < min (unat len) (rb_n rb)"
  defines "m \<equiv> min (unat len) (rb_n rb)"
  defines "ys \<equiv> take m (drop (unat len - m) ptr)"
  shows "\<exists>rb'. rt_ringbuffer_put_force rb ptr len = Some (of_nat m, rb') \<and> rb_wf rb' \<and>
           buffer_size rb' = buffer_size rb \<and> rb_data rb' = drop (rb_len rb + m - rb_n rb) (rb_data rb) @ ys"
proof -
  define n where "n = rb_n rb"
  note n = rb_nat_view [OF wf, folded n_def]
  define k where "k = rb_len rb + m - n"
  have k: "k \<le> rb_len rb" "rb_len rb - k + m = n" and mn: "m \<le> n"
    using disc n(7) unfolding m_def n_def [symmetric] k_def by linarith+
  have pos: "rb_r rb + k = rb_w rb + m" using n(9) [OF mir] k disc [folded m_def n_def] k_def by linarith
  have ys: "length ys = m" using src by (simp add: ys_def m_def)
  note pf = put_force_discard [OF wf src disc, folded m_def n_def, folded ys_def]
  have adv: "\<exists>rb1. rb1 = rb\<lparr>read_mirror := (if rb_r rb + k < n then read_mirror rb else NOT (read_mirror rb)),
         read_index := w'\<rparr> \<and> rb_wf rb1 \<and> rb_len rb1 = rb_len rb - k \<and> rb_data rb1 = drop k (rb_data rb)"
    if "unat w' = (if rb_r rb + k < n then rb_r rb + k else rb_r rb + k - n)" for w'
    using rb_read_advance [OF wf k(1) that [unfolded n_def] refl] by (simp add: n_def)
  show ?thesis
  proof (cases "rb_w rb + m < n")
    case True
    then obtain w' where w': "unat w' = rb_w rb + m"
      and force: "rt_ringbuffer_put_force rb ptr len = Some (of_nat m,
             rb\<lparr>buffer_ptr := blit (buffer_ptr rb) (rb_w rb) ys, write_index := w', read_index := w'\<rparr>)"
      using pf(1) by blast
    obtain rb1 where rb1: "rb1 = rb\<lparr>read_mirror := read_mirror rb, read_index := w'\<rparr>"
      "rb_wf rb1" "rb_len rb1 = rb_len rb - k" "rb_data rb1 = drop k (rb_data rb)"
      using adv [of w'] True w' pos by auto
    have same: "buffer_ptr rb1 = buffer_ptr rb" "rb_w rb1 = rb_w rb" "rb_n rb1 = n"
      by (simp_all add: rb1(1) n_def)
    have "length ys \<le> rb_n rb1 - rb_len rb1" "rb_w rb1 + length ys < rb_n rb1" "unat w' = rb_w rb1 + length ys"
      using k ys same rb1(3) True w' by simp_all
    note new = rb_write_inside [OF rb1(2) this]
    have eq: "rb\<lparr>buffer_ptr := blit (buffer_ptr rb) (rb_w rb) ys, write_index := w', read_index := w'\<rparr>
        = rb1\<lparr>buffer_ptr := blit (buffer_ptr rb1) (rb_w rb1) ys, write_index := w'\<rparr>"
      by (cases rb) (simp add: rb1(1))
    show ?thesis
      using new(1,3) force [unfolded eq] rb1(4) by (simp add: k_def n_def) (simp add: rb1(1))
  next
    case False
    then obtain w' where w': "unat w' = m - (n - rb_w rb)"
      and force: "rt_ringbuffer_put_force rb ptr len = Some (of_nat m,
             rb\<lparr>buffer_ptr := blit (blit (buffer_ptr rb) (rb_w rb) (take (n - rb_w rb) ys)) 0 (drop (n - rb_w rb) ys),
                write_mirror := NOT (write_mirror rb), write_index := w',
                read_mirror := NOT (read_mirror rb), read_index := w'\<rparr>)"
      using pf(2) by blast
    obtain rb1 where rb1: "rb1 = rb\<lparr>read_mirror := NOT (read_mirror rb), read_index := w'\<rparr>"
      "rb_wf rb1" "rb_len rb1 = rb_len rb - k" "rb_data rb1 = drop k (rb_data rb)"
      using adv [of w'] False w' pos n(6) by auto
    have same: "buffer_ptr rb1 = buffer_ptr rb" "rb_w rb1 = rb_w rb" "rb_n rb1 = n" "write_mirror rb1 = write_mirror rb"
      by (simp_all add: rb1(1) n_def)
    have "length ys \<le> rb_n rb1 - rb_len rb1" "rb_n rb1 \<le> rb_w rb1 + length ys"
      "unat w' = length ys - (rb_n rb1 - rb_w rb1)"
      using k ys same rb1(3) False w' by simp_all
    note new = rb_write_across [OF rb1(2) this]
    have eq: "rb\<lparr>buffer_ptr := blit (blit (buffer_ptr rb) (rb_w rb) (take (n - rb_w rb) ys)) 0 (drop (n - rb_w rb) ys),
           write_mirror := NOT (write_mirror rb), write_index := w',
           read_mirror := NOT (read_mirror rb), read_index := w'\<rparr>
        = rb1\<lparr>buffer_ptr := blit (blit (buffer_ptr rb1) (rb_w rb1) (take (rb_n rb1 - rb_w rb1) ys)) 0
                (drop (rb_n rb1 - rb_w rb1) ys),
             write_mirror := NOT (write_mirror rb1), write_index := w'\<rparr>"
      by (cases rb) (simp add: rb1(1) n_def)
    show ?thesis
      using new(1,3) force [unfolded eq] rb1(4) by (simp add: k_def n_def) (simp add: rb1(1))
  qed
qed

subsection \<open>Initialisation, and the queue the characters form\<close>

lemma RT_ALIGN_DOWN8_eq: "RT_ALIGN_DOWN8 sz = sz - sz mod 8"
  using and_not_mask [of sz 3] by (simp add: RT_ALIGN_DOWN8_def mask_eq_exp_minus_1 take_bit_eq_mod)

lemma rt_ringbuffer_init_wf:
  assumes "8 \<le> sz" "sz < 2 ^ 15" "nat sz \<le> length pool"
  shows "\<exists>rb. rt_ringbuffer_init pool sz = Some rb \<and> rb_wf rb \<and> rb_data rb = [] \<and>
           buffer_size rb = sz - sz mod 8"
proof -
  have "0 < sz - sz mod 8" "sz - sz mod 8 \<le> sz" using assms(1) by presburger+
  moreover from this have "nat (sz - sz mod 8) \<le> length pool" "sz - sz mod 8 < 2 ^ 15"
    using assms(2,3) by linarith+
  ultimately show ?thesis
    using assms(1)
    by (simp add: rt_ringbuffer_init_def RT_ALIGN_DOWN8_eq rb_wf_def rb_data_def rb_len_def)
qed

lemma rt_ringbuffer_reset_wf:
  "rb_wf rb \<Longrightarrow> rb_wf (rt_ringbuffer_reset rb) \<and> rb_data (rt_ringbuffer_reset rb) = []"
  by (auto simp: rt_ringbuffer_reset_def rb_wf_def rb_data_def rb_len_def)

text \<open>
  The character operations as a queue: a put that returns 0 is refused, a get that returns
  0 delivers nothing.
\<close>

definition rb_enq :: "u8 \<Rightarrow> rt_ringbuffer \<Rightarrow> rt_ringbuffer option" where
  "rb_enq ch rb = (case rt_ringbuffer_putchar rb ch of
     Some (cnt, rb') \<Rightarrow> if cnt = 1 then Some rb' else None | None \<Rightarrow> None)"

definition rb_deq :: "rt_ringbuffer \<Rightarrow> (u8 \<times> rt_ringbuffer) option" where
  "rb_deq rb = (case rt_ringbuffer_getchar rb of
     Some (cnt, Some ch, rb') \<Rightarrow> Some (ch, rb') | _ \<Rightarrow> None)"

lemma rb_enq_full: "rb_wf rb \<Longrightarrow> rb_n rb \<le> rb_len rb \<Longrightarrow> rb_enq ch rb = None"
  using rb_len_le [of rb] by (simp add: rb_enq_def rt_ringbuffer_putchar_eq)

lemma rb_enq_ok:
  "rb_wf rb \<Longrightarrow> rb_len rb < rb_n rb \<Longrightarrow> \<exists>rb'. rb_enq ch rb = Some rb' \<and> rb_wf rb' \<and>
     rb_data rb' = rb_data rb @ [ch] \<and> rb_n rb' = rb_n rb"
  using rb_push [of rb ch] by (simp add: rb_enq_def rt_ringbuffer_putchar_eq)

interpretation ring: bounded_fifo rb_enq rb_deq rb_data rb_wf rb_n
proof unfold_locales
  fix q :: rt_ringbuffer and y ys
  assume "rb_wf q" "rb_data q = y # ys"
  then show "\<exists>q'. rb_deq q = Some (y, q') \<and> rb_wf q' \<and> rb_data q' = ys \<and> rb_n q' = rb_n q"
    using rb_pop [of q y ys] by (simp add: rb_deq_def rt_ringbuffer_getchar_eq)
qed (simp_all add: rb_enq_full rb_enq_ok rb_deq_def rt_ringbuffer_getchar_eq)

subsection \<open>Properties\<close>

text \<open>
  \<^bold>\<open>C28\<close>: Storing a block with \<^verbatim>\<open>rt_ringbuffer_put\<close> never copies out of range, accepts as many
  bytes as fit, and appends exactly these bytes to the contents.
\<close>

theorem ringbuffer_put_appends:
  assumes "rb_wf rb" "unat len \<le> length ptr"
  shows "\<exists>rb'. rt_ringbuffer_put rb ptr len
             = Some (of_nat (min (unat len) (rb_n rb - length (rb_data rb))), rb') \<and>
           rb_wf rb' \<and> buffer_size rb' = buffer_size rb \<and>
           rb_data rb' = rb_data rb @ take (min (unat len) (rb_n rb - length (rb_data rb))) ptr"
  using rt_ringbuffer_put_refines [OF assms] by simp

definition example_rb :: rt_ringbuffer where
  "example_rb = \<lparr>buffer_ptr = [0, 0, 1, 2, 0, 0, 0, 0], read_mirror = 0, read_index = 2,
     write_mirror = 0, write_index = 4, buffer_size = 8\<rparr>"

lemma example_rb_wf: "rb_wf example_rb"
  by (simp add: example_rb_def rb_wf_def)

lemma example_rb_facts:
  "rb_data example_rb = [1, 2]" "rb_len example_rb = 2" "rb_n example_rb = 8"
  by (simp_all add: example_rb_def rb_data_def rb_len_def circ_def upt_rec)

theorem ringbuffer_put_appends_witness:
  "\<exists>rb'. rt_ringbuffer_put example_rb [1, 2, 3, 4, 5, 6, 7] 7 = Some (6, rb') \<and> rb_wf rb' \<and>
     rb_data rb' = rb_data example_rb @ [1, 2, 3, 4, 5, 6]"
proof -
  have "unat (7 :: u16) \<le> length [1, 2, 3, 4, 5, 6, 7 :: u8]" by simp
  from ringbuffer_put_appends [OF example_rb_wf this] show ?thesis
    unfolding example_rb_facts by auto
qed

text \<open>
  Reading a block with \<^verbatim>\<open>rt_ringbuffer_get\<close> delivers the oldest bytes in order, as
  many as were asked for or are there, and leaves the others.
\<close>

theorem ringbuffer_get_delivers:
  fixes len :: u16
  assumes "rb_wf rb"
  shows "\<exists>rb'. rt_ringbuffer_get rb len
             = Some (of_nat (min (unat len) (length (rb_data rb))), take (unat len) (rb_data rb), rb') \<and>
           rb_wf rb' \<and> buffer_size rb' = buffer_size rb \<and> rb_data rb' = drop (unat len) (rb_data rb)"
proof -
  have "take (min (unat len) (rb_len rb)) (rb_data rb) = take (unat len) (rb_data rb)"
    "drop (min (unat len) (rb_len rb)) (rb_data rb) = drop (unat len) (rb_data rb)"
    by (auto simp: min_def)
  then show ?thesis using rt_ringbuffer_get_refines [OF assms, of len] by simp
qed

theorem ringbuffer_get_delivers_witness:
  "\<exists>rb'. rt_ringbuffer_get example_rb 5 = Some (2, [1, 2], rb') \<and> rb_data rb' = []"
  using ringbuffer_get_delivers [OF example_rb_wf, of 5] unfolding example_rb_facts by auto

text \<open>
  \<^bold>\<open>C29\<close>: In any interleaving of \<^verbatim>\<open>rt_ringbuffer_putchar\<close> and \<^verbatim>\<open>rt_ringbuffer_getchar\<close> no
  byte is lost, duplicated or reordered: the bytes held at the start followed by the bytes
  accepted are the bytes delivered followed by the bytes held at the end.
\<close>

theorem ringbuffer_conservation:
  assumes "rb_wf rb" "fifo_run rb_enq rb_deq ops rb = (ins, outs, rb')"
  shows "rb_wf rb' \<and> rb_data rb @ ins = outs @ rb_data rb' \<and> length (rb_data rb') \<le> rb_n rb"
  using ring.conservation [OF assms] ring.run_bounded [OF assms(1) _ assms(2)] rb_len_le [OF assms(1)]
  by simp

theorem ringbuffer_conservation_witness:
  "\<exists>ins outs rb'. fifo_run rb_enq rb_deq [Put 9, Get, Get] example_rb = (ins, outs, rb') \<and>
     rb_data example_rb @ ins = outs @ rb_data rb'"
proof -
  obtain ins outs rb' where "fifo_run rb_enq rb_deq [Put 9, Get, Get] example_rb = (ins, outs, rb')"
    using prod_cases3 by blast
  with ringbuffer_conservation [OF example_rb_wf this] show ?thesis by blast
qed

text \<open>
  \<^verbatim>\<open>rt_ringbuffer_putchar_force\<close> always stores its byte; on a full buffer exactly the
  oldest byte is discarded.
\<close>

theorem ringbuffer_putchar_force_discards_oldest:
  assumes "rb_wf rb"
  shows "\<exists>rb'. rt_ringbuffer_putchar_force rb ch = Some (1, rb') \<and> rb_wf rb' \<and>
           rb_data rb' = (if length (rb_data rb) = rb_n rb then tl (rb_data rb) else rb_data rb) @ [ch]"
proof (cases "rb_len rb = rb_n rb")
  case True
  have "length (rb_data rb) > 0" using True rb_nat_view(2) [OF assms] by simp
  then obtain y ys where d: "rb_data rb = y # ys" by (cases "rb_data rb") auto
  note pop = rb_pop [OF assms d]
  have "rb_len (rb_pop rb) < rb_n (rb_pop rb)"
    using pop(2,3) d True by (metis length_Cons length_rb_data lessI)
  note push = rb_push [OF pop(1) this, of ch]
  have "Suc (length ys) = rb_n rb" using d True by (metis length_Cons length_rb_data)
  then show ?thesis
    using push True d pop(2) by (simp add: rt_ringbuffer_putchar_force_eq [OF assms])
next
  case False
  then have "rb_len rb < rb_n rb" using rb_len_le [OF assms] by simp
  from rb_push [OF assms this, of ch] False show ?thesis
    by (simp add: rt_ringbuffer_putchar_force_eq [OF assms])
qed

theorem ringbuffer_putchar_force_discards_oldest_witness:
  "\<exists>rb'. rt_ringbuffer_putchar_force (example_rb\<lparr>read_index := 4, read_mirror := 1\<rparr>) 7 = Some (1, rb') \<and>
     rb_data rb' = [0, 0, 0, 0, 0, 1, 2, 7]"
proof -
  let ?rb = "example_rb\<lparr>read_index := 4, read_mirror := 1\<rparr>"
  have wf: "rb_wf ?rb"
    by (simp add: example_rb_def rb_wf_def)
  have d: "rb_data ?rb = [0, 0, 0, 0, 0, 0, 1, 2]" "rb_n ?rb = 8"
    by (simp_all add: example_rb_def rb_data_def rb_len_def circ_def upt_rec)
  show ?thesis
    using ringbuffer_putchar_force_discards_oldest [OF wf, of 7] unfolding d by auto
qed

text \<open>
  \<^verbatim>\<open>rt_ringbuffer_put_force\<close> keeps the newest bytes (the last \<open>n\<close> bytes of the old
  contents followed by the block) whenever the block fits or the write position has already
  wrapped past the read position.
\<close>

theorem ringbuffer_put_force_keeps_newest:
  assumes wf: "rb_wf rb" and src: "unat len \<le> length ptr"
    and ok: "min (unat len) (rb_n rb) + length (rb_data rb) \<le> rb_n rb \<or> read_mirror rb \<noteq> write_mirror rb"
  shows "\<exists>cnt rb'. rt_ringbuffer_put_force rb ptr len = Some (cnt, rb') \<and> rb_wf rb' \<and>
           rb_data rb' = drop (length (rb_data rb) + unat len - rb_n rb) (rb_data rb @ take (unat len) ptr)"
proof (cases "min (unat len) (rb_n rb) + rb_len rb \<le> rb_n rb")
  case True
  show ?thesis
  proof (cases "unat len \<le> rb_n rb")
    case small: True
    with True have fits: "unat len \<le> rb_n rb - rb_len rb" by simp
    have "rb_len rb + unat len - rb_n rb = 0" "min (unat len) (rb_n rb - rb_len rb) = unat len"
      using fits rb_len_le [OF wf] by simp_all
    then show ?thesis
      using rt_ringbuffer_put_refines [OF wf src] put_force_fits [OF wf fits, of ptr] by auto
  next
    case False
    with True have empty: "rb_len rb = 0" by simp
    then have data: "rb_data rb = []" by (metis length_rb_data length_0_conv)
    note n = rb_nat_view [OF wf]
    have l: "unat (of_nat (rb_n rb) :: u16) = rb_n rb"
      using n(3) by (simp add: unsigned_of_nat take_bit_nat_eq_self)
    have fits: "unat (of_nat (rb_n rb) :: u16) \<le> rb_n rb - rb_len rb"
      and src': "unat (of_nat (rb_n rb) :: u16) \<le> length (drop (unat len - rb_n rb) ptr)"
      using l empty src False by simp_all
    have "take (rb_n rb) (drop (unat len - rb_n rb) ptr) = drop (unat len - rb_n rb) (take (unat len) ptr)"
      using False by (simp add: drop_take)
    then show ?thesis
      using rt_ringbuffer_put_refines [OF wf src'] put_force_fits [OF wf fits] l empty data False
      by (auto simp: put_force_cut [OF wf])
  qed
next
  case False
  let ?m = "min (unat len) (rb_n rb)"
  have mir: "read_mirror rb \<noteq> write_mirror rb" and disc: "rb_n rb - rb_len rb < ?m"
    using False ok rb_len_le [OF wf] by simp_all
  have k: "rb_len rb + ?m - rb_n rb \<le> rb_len rb" by simp
  have "drop (rb_len rb + unat len - rb_n rb) (rb_data rb @ take (unat len) ptr)
      = drop (rb_len rb + ?m - rb_n rb) (rb_data rb) @ take ?m (drop (unat len - ?m) ptr)"
    using False rb_len_le [OF wf] by (cases "unat len \<le> rb_n rb") (auto simp: drop_take)
  then show ?thesis
    using rt_ringbuffer_put_force_overwrites [OF wf src mir disc] by auto
qed

theorem ringbuffer_put_force_keeps_newest_witness:
  "\<exists>cnt rb'. rt_ringbuffer_put_force (example_rb\<lparr>read_index := 6, read_mirror := 1\<rparr>) [1, 2, 3] 3
      = Some (cnt, rb') \<and> rb_data rb' = [0, 0, 0, 1, 2, 1, 2, 3]"
proof -
  let ?rb = "example_rb\<lparr>read_index := 6, read_mirror := 1\<rparr>"
  have wf: "rb_wf ?rb"
    by (simp add: example_rb_def rb_wf_def)
  have d: "rb_data ?rb = [0, 0, 0, 0, 1, 2]" "rb_n ?rb = 8"
    "read_mirror ?rb \<noteq> write_mirror ?rb"
    by (simp_all add: example_rb_def rb_data_def rb_len_def circ_def upt_rec)
  have src: "unat (3 :: u16) \<le> length [1, 2, 3 :: u8]" by simp
  show ?thesis
    using ringbuffer_put_force_keeps_newest [OF wf src disjI2 [OF d(3)]] unfolding d by auto
qed

text \<open>
  \<^bold>\<open>C30\<close>: A defect of \<^verbatim>\<open>rt_ringbuffer_put_force\<close>: when the block discards old bytes while the
  read and write positions are in the same mirror, both mirror bits are flipped and the
  buffer ends up empty, although the call reports that the whole block was stored.
\<close>

theorem ringbuffer_put_force_loses_block:
  assumes wf: "rb_wf rb" and src: "unat len \<le> length ptr"
    and mir: "read_mirror rb = write_mirror rb"
    and disc: "rb_n rb - length (rb_data rb) < min (unat len) (rb_n rb)"
  shows "\<exists>rb'. rt_ringbuffer_put_force rb ptr len = Some (of_nat (min (unat len) (rb_n rb)), rb') \<and>
           rb_data rb' = []"
proof -
  note n = rb_nat_view [OF wf]
  define m where "m = min (unat len) (rb_n rb)"
  define k where "k = rb_n rb"
  have disc': "rb_n rb - rb_len rb < min (unat len) (rb_n rb)" using disc by simp
  note d = put_force_discard(2) [OF wf src disc']
  have "k - rb_len rb < m" "rb_w rb = rb_r rb + rb_len rb"
    using disc' n(8) [OF mir] by (simp_all add: m_def k_def)
  then have "\<not> rb_w rb + m < k" by simp
  then have "\<not> rb_w rb + min (unat len) (rb_n rb) < rb_n rb" unfolding m_def k_def .
  from d [OF this] obtain rb' where
    "rt_ringbuffer_put_force rb ptr len = Some (of_nat (min (unat len) (rb_n rb)), rb')"
    "read_mirror rb' = NOT (read_mirror rb)" "write_mirror rb' = NOT (write_mirror rb)"
    "read_index rb' = write_index rb'"
    by (elim exE conjE) simp
  then show ?thesis using mir empty_positions [of rb'] by metis
qed

theorem ringbuffer_put_force_loses_block_witness:
  "\<exists>rb'. rt_ringbuffer_put_force example_rb [1, 2, 3, 4, 5, 6, 7, 8] 8 = Some (8, rb') \<and> rb_data rb' = []"
proof -
  have mir: "read_mirror example_rb = write_mirror example_rb" by (simp add: example_rb_def)
  have src: "unat (8 :: u16) \<le> length [1, 2, 3, 4, 5, 6, 7, 8 :: u8]" by simp
  have "rb_n example_rb - length (rb_data example_rb) < min (unat (8 :: u16)) (rb_n example_rb)"
    unfolding example_rb_facts by simp
  from ringbuffer_put_force_loses_block [OF example_rb_wf src mir this] show ?thesis
    unfolding example_rb_facts by simp
qed

end
