(* ===== verification/Rt_List.thy ===== *)
theory Rt_List
  imports Prelude
begin

text \<open>
  The intrusive circular doubly linked lists of \<^verbatim>\<open>rtservice.h\<close>, on an explicit pointer
  heap, and what a family of such lists looks like to the kernel: a function from list
  heads to sequences of nodes in which every node is in at most one list. The kernel
  theories state their queues as such families; the interface \<open>intrusive_lists\<close> says what
  they rely on, and the interpretation at the end discharges it for the pointer code.
\<close>

subsection \<open>The pointer code\<close>

record rt_list_heap =
  nxt :: "nat \<Rightarrow> nat"
  prv :: "nat \<Rightarrow> nat"

definition set_nxt :: "nat \<Rightarrow> nat \<Rightarrow> rt_list_heap \<Rightarrow> rt_list_heap" where
  "set_nxt a b h = h\<lparr>nxt := (nxt h)(a := b)\<rparr>"

definition set_prv :: "nat \<Rightarrow> nat \<Rightarrow> rt_list_heap \<Rightarrow> rt_list_heap" where
  "set_prv a b h = h\<lparr>prv := (prv h)(a := b)\<rparr>"

definition rt_list_init :: "nat \<Rightarrow> rt_list_heap \<Rightarrow> rt_list_heap" where
  "rt_list_init l h = set_nxt l l (set_prv l l h)"

definition rt_list_insert_after :: "nat \<Rightarrow> nat \<Rightarrow> rt_list_heap \<Rightarrow> rt_list_heap" where
  "rt_list_insert_after l n h =
     (let h = set_prv (nxt h l) n h;
          h = set_nxt n (nxt h l) h;
          h = set_nxt l n h
      in set_prv n l h)"

definition rt_list_insert_before :: "nat \<Rightarrow> nat \<Rightarrow> rt_list_heap \<Rightarrow> rt_list_heap" where
  "rt_list_insert_before l n h =
     (let h = set_nxt (prv h l) n h;
          h = set_prv n (prv h l) h;
          h = set_prv l n h
      in set_nxt n l h)"

definition rt_list_remove :: "nat \<Rightarrow> rt_list_heap \<Rightarrow> rt_list_heap" where
  "rt_list_remove n h =
     (let h = set_prv (nxt h n) (prv h n) h;
          h = set_nxt (prv h n) (nxt h n) h
      in set_nxt n n (set_prv n n h))"

definition rt_list_isempty :: "nat \<Rightarrow> rt_list_heap \<Rightarrow> bool" where
  "rt_list_isempty l h \<longleftrightarrow> nxt h l = l"

text \<open>The loop of \<^verbatim>\<open>rt_list_len\<close> ends only where the links lead back to the head.\<close>

partial_function (option) rt_list_len_loop :: "nat \<Rightarrow> rt_list_heap \<Rightarrow> nat \<Rightarrow> u32 \<Rightarrow> u32 option" where
  "rt_list_len_loop l h p len =
     (if nxt h p \<noteq> l then rt_list_len_loop l h (nxt h p) (len + 1) else Some len)"

definition rt_list_len :: "nat \<Rightarrow> rt_list_heap \<Rightarrow> u32 option" where
  "rt_list_len l h = rt_list_len_loop l h l 0"

subsection \<open>Segments\<close>

fun seg :: "rt_list_heap \<Rightarrow> nat \<Rightarrow> nat list \<Rightarrow> nat \<Rightarrow> bool" where
  "seg h a [] b \<longleftrightarrow> nxt h a = b \<and> prv h b = a"
| "seg h a (x # xs) b \<longleftrightarrow> nxt h a = x \<and> prv h x = a \<and> seg h x xs b"

lemma seg_append [simp]: "seg h a (xs @ y # ys) b \<longleftrightarrow> seg h a xs y \<and> seg h y ys b"
  by (induction xs arbitrary: a) auto

lemma seg_frame:
  assumes "\<And>x. x \<in> set (a # xs) \<Longrightarrow> nxt h' x = nxt h x"
    and "\<And>x. x \<in> set (b # xs) \<Longrightarrow> prv h' x = prv h x"
  shows "seg h' a xs b \<longleftrightarrow> seg h a xs b"
  using assms by (induction xs arbitrary: a) auto

lemma seg_ends:
  "seg h a xs b \<Longrightarrow> nxt h a = hd (xs @ [b])"
  "seg h a xs b \<Longrightarrow> prv h b = last (a # xs)"
  by (induction xs arbitrary: a) auto

definition dlist :: "rt_list_heap \<Rightarrow> nat \<Rightarrow> nat list \<Rightarrow> bool" where
  "dlist h l xs \<longleftrightarrow> seg h l xs l \<and> distinct (l # xs)"

lemma dlist_init: "dlist (rt_list_init l h) l []"
  by (simp add: dlist_def rt_list_init_def set_nxt_def set_prv_def)

text \<open>Linking \<open>n\<close> between two neighbours, and unlinking it.\<close>

definition link :: "nat \<Rightarrow> nat \<Rightarrow> nat \<Rightarrow> rt_list_heap \<Rightarrow> rt_list_heap" where
  "link a n b h = h\<lparr>nxt := (nxt h)(a := n, n := b), prv := (prv h)(b := n, n := a)\<rparr>"

lemma insert_after_link:
  "n \<noteq> l \<Longrightarrow> n \<noteq> nxt h l \<Longrightarrow> rt_list_insert_after l n h = link l n (nxt h l) h"
  by (auto simp: rt_list_insert_after_def link_def set_nxt_def set_prv_def fun_upd_twist)

lemma insert_before_link:
  "n \<noteq> l \<Longrightarrow> n \<noteq> prv h l \<Longrightarrow> rt_list_insert_before l n h = link (prv h l) n l h"
  by (auto simp: rt_list_insert_before_def link_def set_nxt_def set_prv_def fun_upd_twist Let_def)

lemma seg_link:
  assumes "seg h a (xs @ ys) c" "distinct (a # xs @ ys)" "c \<notin> set (xs @ ys)"
    "n \<notin> set (a # c # xs @ ys)"
  shows "seg (link (last (a # xs)) n (hd (ys @ [c])) h) a (xs @ n # ys) c"
  using assms
proof (induction xs arbitrary: a)
  case Nil
  show ?case
  proof (cases ys)
    case Nil
    then show ?thesis using Nil.prems by (auto simp: link_def)
  next
    case (Cons y ys')
    have "seg (link a n y h) y ys' c \<longleftrightarrow> seg h y ys' c"
      using Nil.prems Cons by (intro seg_frame) (auto simp: link_def)
    then show ?thesis using Nil.prems Cons by (auto simp: link_def)
  qed
next
  case (Cons x xs)
  let ?h = "link (last (x # xs)) n (hd (ys @ [c])) h"
  have "seg ?h x (xs @ n # ys) c" using Cons by auto
  moreover have "nxt ?h a = x"
    using Cons.prems last_in_set [of "x # xs"] by (auto simp: link_def split: if_splits)
  moreover have "prv ?h x = a"
    using Cons.prems hd_in_set [of "ys @ [c]"] by (auto simp: link_def)
  ultimately show ?case by simp
qed

lemma dlist_link:
  assumes "dlist h l (xs @ ys)" "n \<notin> set (l # xs @ ys)"
  shows "dlist (link (last (l # xs)) n (hd (ys @ [l])) h) l (xs @ n # ys)"
  using assms seg_link [of h l xs ys l n] by (auto simp: dlist_def)

definition unlink :: "nat \<Rightarrow> nat \<Rightarrow> nat \<Rightarrow> rt_list_heap \<Rightarrow> rt_list_heap" where
  "unlink a n b h = h\<lparr>nxt := (nxt h)(a := b, n := n), prv := (prv h)(b := a, n := n)\<rparr>"

lemma remove_unlink:
  "prv h n \<noteq> n \<Longrightarrow> nxt h n \<noteq> n \<Longrightarrow> rt_list_remove n h = unlink (prv h n) n (nxt h n) h"
  by (auto simp: rt_list_remove_def unlink_def set_nxt_def set_prv_def Let_def)

lemma remove_detached: "prv h n = n \<Longrightarrow> nxt h n = n \<Longrightarrow> rt_list_remove n h = h"
  by (cases h) (simp add: rt_list_remove_def set_nxt_def set_prv_def Let_def fun_upd_idem)

lemma seg_unlink:
  assumes "seg h a (xs @ n # ys) c" "distinct (a # xs @ n # ys)" "c \<notin> set (xs @ n # ys)"
  shows "seg (unlink (last (a # xs)) n (hd (ys @ [c])) h) a (xs @ ys) c"
  using assms
proof (induction xs arbitrary: a)
  case Nil
  show ?case
  proof (cases ys)
    case Nil
    then show ?thesis using Nil.prems by (auto simp: unlink_def)
  next
    case (Cons y ys')
    have "seg (unlink a n y h) y ys' c \<longleftrightarrow> seg h y ys' c"
      using Nil.prems Cons by (intro seg_frame) (auto simp: unlink_def)
    then show ?thesis using Nil.prems Cons by (auto simp: unlink_def)
  qed
next
  case (Cons x xs)
  let ?h = "unlink (last (x # xs)) n (hd (ys @ [c])) h"
  have "seg ?h x (xs @ ys) c" using Cons by auto
  moreover have "nxt ?h a = x"
    using Cons.prems last_in_set [of "x # xs"] by (auto simp: unlink_def split: if_splits)
  moreover have "prv ?h x = a"
    using Cons.prems hd_in_set [of "ys @ [c]"] by (auto simp: unlink_def)
  ultimately show ?case by simp
qed

lemma seg_node:
  assumes "seg h a (xs @ n # ys) c"
  shows "prv h n = last (a # xs)" and "nxt h n = hd (ys @ [c])"
  using assms seg_ends(2) [of h a xs n] seg_ends(1) [of h n ys c] by auto

lemma dlist_remove:
  assumes "dlist h l (xs @ n # ys)"
  shows "rt_list_remove n h = unlink (last (l # xs)) n (hd (ys @ [l])) h"
    and "dlist (rt_list_remove n h) l (xs @ ys)"
proof -
  have seg: "seg h l (xs @ n # ys) l" and dist: "distinct (l # xs @ n # ys)"
    using assms by (auto simp: dlist_def)
  note node = seg_node [OF seg]
  have "prv h n \<noteq> n" using node(1) dist last_in_set [of "l # xs"] by (auto split: if_splits)
  moreover have "nxt h n \<noteq> n" using node(2) dist hd_in_set [of "ys @ [l]"] by auto
  ultimately show eq: "rt_list_remove n h = unlink (last (l # xs)) n (hd (ys @ [l])) h"
    using node remove_unlink [of h n] by simp
  show "dlist (rt_list_remove n h) l (xs @ ys)"
    unfolding eq using seg_unlink [OF seg dist] dist by (auto simp: dlist_def)
qed

text \<open>A list is untouched by link and unlink of cells outside it.\<close>

lemma dlist_frame:
  assumes "dlist h l xs" "\<And>x. x \<in> set (l # xs) \<Longrightarrow> nxt h' x = nxt h x \<and> prv h' x = prv h x"
  shows "dlist h' l xs"
  using assms seg_frame [of l xs h' h l] by (auto simp: dlist_def)

lemma dlist_link_frame:
  assumes "dlist h k ks" "a \<notin> set (k # ks)" "b \<notin> set (k # ks)" "n \<notin> set (k # ks)"
  shows "dlist (link a n b h) k ks" "dlist (unlink a n b h) k ks"
  by (rule dlist_frame [OF assms(1)]; use assms in \<open>auto simp: link_def unlink_def\<close>)+

lemma dlist_isempty: "dlist h l xs \<Longrightarrow> rt_list_isempty l h \<longleftrightarrow> xs = []"
  by (cases xs) (auto simp: dlist_def rt_list_isempty_def)

lemma dlist_first: "dlist h l (x # xs) \<Longrightarrow> nxt h l = x"
  by (simp add: dlist_def)

lemma rt_list_len_loop_seg:
  assumes "seg h p xs l" "l \<notin> set xs"
  shows "rt_list_len_loop l h p k = Some (k + of_nat (length xs))"
  using assms
  by (induction xs arbitrary: p k) (auto simp: rt_list_len_loop.simps ac_simps)

lemma dlist_len: "dlist h l xs \<Longrightarrow> rt_list_len l h = Some (of_nat (length xs))"
  using rt_list_len_loop_seg [of h l xs l 0] by (simp add: dlist_def rt_list_len_def)

subsection \<open>Families of lists\<close>

text \<open>
  The queues of the kernel: a node is appended at the end (\<^verbatim>\<open>rt_list_insert_before\<close> the
  head), put first (\<^verbatim>\<open>rt_list_insert_after\<close> the head), put before another node, or removed
  from whichever list holds it.
\<close>

definition q_tail :: "'k \<Rightarrow> 'n \<Rightarrow> ('k \<Rightarrow> 'n list) \<Rightarrow> ('k \<Rightarrow> 'n list)" where
  "q_tail k n Q = Q(k := Q k @ [n])"

definition q_head :: "'k \<Rightarrow> 'n \<Rightarrow> ('k \<Rightarrow> 'n list) \<Rightarrow> ('k \<Rightarrow> 'n list)" where
  "q_head k n Q = Q(k := n # Q k)"

fun insert_before_node :: "'n \<Rightarrow> 'n \<Rightarrow> 'n list \<Rightarrow> 'n list" where
  "insert_before_node s n [] = []"
| "insert_before_node s n (x # xs) = (if x = s then n # x # xs else x # insert_before_node s n xs)"

definition q_before :: "'k \<Rightarrow> 'n \<Rightarrow> 'n \<Rightarrow> ('k \<Rightarrow> 'n list) \<Rightarrow> ('k \<Rightarrow> 'n list)" where
  "q_before k s n Q = Q(k := insert_before_node s n (Q k))"

definition q_remove :: "'n \<Rightarrow> ('k \<Rightarrow> 'n list) \<Rightarrow> ('k \<Rightarrow> 'n list)" where
  "q_remove n Q = (\<lambda>k. removeAll n (Q k))"

definition q_ok :: "('k \<Rightarrow> 'n list) \<Rightarrow> bool" where
  "q_ok Q \<longleftrightarrow> (\<forall>k. distinct (Q k)) \<and> (\<forall>k k' n. n \<in> set (Q k) \<and> n \<in> set (Q k') \<longrightarrow> k = k')"

lemma insert_before_node_split:
  "s \<notin> set xs \<Longrightarrow> insert_before_node s n (xs @ s # ys) = xs @ n # s # ys"
  by (induction xs) auto

lemma set_insert_before_node:
  "set (insert_before_node s n xs) = set xs \<union> (if s \<in> set xs then {n} else {})"
  by (induction xs) auto

lemma distinct_insert_before_node:
  "distinct xs \<Longrightarrow> n \<notin> set xs \<Longrightarrow> distinct (insert_before_node s n xs)"
  by (induction xs) (auto simp: set_insert_before_node)

lemma q_okD: "q_ok Q \<Longrightarrow> n \<in> set (Q k) \<Longrightarrow> n \<in> set (Q k') \<Longrightarrow> k = k'"
  unfolding q_ok_def by blast

lemma q_ok_distinct: "q_ok Q \<Longrightarrow> distinct (Q k)"
  by (simp add: q_ok_def)

lemma q_ok_upd:
  assumes "q_ok Q" "distinct xs" "\<And>m k'. m \<in> set xs \<Longrightarrow> k' \<noteq> k \<Longrightarrow> m \<notin> set (Q k')"
  shows "q_ok (Q(k := xs))"
  unfolding q_ok_def
proof (intro conjI allI impI)
  fix j j' n
  assume "n \<in> set ((Q(k := xs)) j) \<and> n \<in> set ((Q(k := xs)) j')"
  then show "j = j'" using q_okD [OF assms(1), of n j j'] assms(3) by (auto split: if_splits)
qed (use assms in \<open>auto simp: q_ok_distinct\<close>)

lemma q_ok_tail: "q_ok Q \<Longrightarrow> (\<And>k. n \<notin> set (Q k)) \<Longrightarrow> q_ok (q_tail k n Q)"
  unfolding q_tail_def by (rule q_ok_upd) (auto simp: q_ok_distinct dest: q_okD)

lemma q_ok_head: "q_ok Q \<Longrightarrow> (\<And>k. n \<notin> set (Q k)) \<Longrightarrow> q_ok (q_head k n Q)"
  unfolding q_head_def by (rule q_ok_upd) (auto simp: q_ok_distinct dest: q_okD)

lemma q_ok_before: "q_ok Q \<Longrightarrow> (\<And>k. n \<notin> set (Q k)) \<Longrightarrow> q_ok (q_before k s n Q)"
  unfolding q_before_def
  by (rule q_ok_upd)
    (auto simp: q_ok_distinct set_insert_before_node distinct_insert_before_node
          dest: q_okD split: if_splits)

lemma q_ok_remove: "q_ok Q \<Longrightarrow> q_ok (q_remove n Q)"
  by (auto simp: q_ok_def q_remove_def distinct_removeAll)

lemma q_remove_notin [simp]: "n \<notin> set (q_remove n Q k)"
  by (simp add: q_remove_def)

lemma set_q_remove [simp]: "set (q_remove n Q k) = set (Q k) - {n}"
  by (simp add: q_remove_def)

text \<open>The heap represents the family: every head of \<open>H\<close> carries its list, cells apart.\<close>

definition rep :: "nat set \<Rightarrow> rt_list_heap \<Rightarrow> (nat \<Rightarrow> nat list) \<Rightarrow> bool" where
  "rep H h Q \<longleftrightarrow>
     (\<forall>l\<in>H. dlist h l (Q l)) \<and> (\<forall>l. l \<notin> H \<longrightarrow> Q l = []) \<and>
     (\<forall>l\<in>H. \<forall>l'\<in>H. l \<noteq> l' \<longrightarrow> set (l # Q l) \<inter> set (l' # Q l') = {})"

definition fresh :: "nat set \<Rightarrow> (nat \<Rightarrow> nat list) \<Rightarrow> nat \<Rightarrow> bool" where
  "fresh H Q n \<longleftrightarrow> n \<notin> H \<and> (\<forall>l. n \<notin> set (Q l))"

lemma rep_link:
  assumes rep: "rep H h Q" and l: "l \<in> H" and Q: "Q l = xs @ ys" and n: "fresh H Q n"
  shows "rep H (link (last (l # xs)) n (hd (ys @ [l])) h) (Q(l := xs @ n # ys))"
proof -
  let ?a = "last (l # xs)" and ?b = "hd (ys @ [l])"
  have in_l: "?a \<in> set (l # Q l)" "?b \<in> set (l # Q l)"
    using last_in_set [of "l # xs"] hd_in_set [of "ys @ [l]"] Q by auto
  have apart: "set (k # Q k) \<inter> set (l # Q l) = {}" if "k \<in> H" "k \<noteq> l" for k
    using rep l that unfolding rep_def by blast
  have nk: "n \<notin> set (k # Q k)" if "k \<in> H" for k
    using n that by (auto simp: fresh_def)
  have "dlist (link ?a n ?b h) k ((Q(l := xs @ n # ys)) k)" if k: "k \<in> H" for k
  proof (cases "k = l")
    case True
    have "dlist h l (xs @ ys)" "n \<notin> set (l # xs @ ys)"
      using rep l Q nk [OF l] unfolding rep_def by (metis, simp)
    then show ?thesis using dlist_link True by simp
  next
    case False
    have "dlist h k (Q k)" using rep k by (simp add: rep_def)
    moreover have "?a \<notin> set (k # Q k)" "?b \<notin> set (k # Q k)"
      using apart [OF k False] in_l by blast+
    ultimately have "dlist (link ?a n ?b h) k (Q k)"
      using nk [OF k] by (intro dlist_link_frame)
    then show ?thesis using False by simp
  qed
  moreover have "set (k # (Q(l := xs @ n # ys)) k) \<inter> set (k' # (Q(l := xs @ n # ys)) k') = {}"
    if k: "k \<in> H" "k' \<in> H" "k \<noteq> k'" for k k'
  proof -
    have "set (j # (Q(l := xs @ n # ys)) j) \<subseteq> insert n (set (j # Q j))" for j
      using Q by auto
    moreover have "n \<notin> set (j # (Q(l := xs @ n # ys)) j)" if "j \<in> H" "j \<noteq> l" for j
      using nk [OF that(1)] that(2) by simp
    moreover have "set (k # Q k) \<inter> set (k' # Q k') = {}"
      using rep k unfolding rep_def by blast
    ultimately show ?thesis
      using nk [OF k(1)] nk [OF k(2)] k by (cases "k = l") blast+
  qed
  moreover have "(Q(l := xs @ n # ys)) k = []" if "k \<notin> H" for k
    using rep l that by (auto simp: rep_def)
  ultimately show ?thesis unfolding rep_def by blast
qed

lemma fresh_cell: "fresh H Q n \<Longrightarrow> l \<in> H \<Longrightarrow> x \<in> set (l # Q l) \<Longrightarrow> n \<noteq> x"
  by (auto simp: fresh_def)

lemma rep_tail:
  assumes "rep H h Q" "l \<in> H" "fresh H Q n"
  shows "rep H (rt_list_insert_before l n h) (q_tail l n Q)"
proof -
  have d: "dlist h l (Q l)" using assms by (simp add: rep_def)
  then have p: "prv h l = last (l # Q l)" using seg_ends(2) [of h l "Q l" l] by (simp add: dlist_def)
  have "n \<noteq> l" "n \<noteq> prv h l"
    using fresh_cell [OF assms(3,2)] last_in_set [of "l # Q l"] unfolding p by simp_all
  then show ?thesis
    using rep_link [OF assms(1,2) _ assms(3), of "Q l" "[]"] p
    by (simp add: insert_before_link q_tail_def)
qed

lemma rep_head:
  assumes "rep H h Q" "l \<in> H" "fresh H Q n"
  shows "rep H (rt_list_insert_after l n h) (q_head l n Q)"
proof -
  have d: "dlist h l (Q l)" using assms by (simp add: rep_def)
  then have p: "nxt h l = hd (Q l @ [l])" using seg_ends(1) [of h l "Q l" l] by (simp add: dlist_def)
  have "n \<noteq> l" "n \<noteq> nxt h l"
    using fresh_cell [OF assms(3,2)] hd_in_set [of "Q l @ [l]"] unfolding p by auto
  then show ?thesis
    using rep_link [OF assms(1,2) _ assms(3), of "[]" "Q l"] p
    by (simp add: insert_after_link q_head_def)
qed

lemma rep_before:
  assumes "rep H h Q" "l \<in> H" "fresh H Q n" "s \<in> set (Q l)"
  shows "rep H (rt_list_insert_before s n h) (q_before l s n Q)"
proof -
  obtain xs ys where Q: "Q l = xs @ s # ys" "s \<notin> set xs"
    using assms(4) split_list_first by fastforce
  have "seg h l (xs @ s # ys) l" using assms(1,2) Q(1) by (metis rep_def dlist_def)
  then have p: "prv h s = last (l # xs)" by (rule seg_node)
  have "n \<noteq> s" "n \<noteq> prv h s"
    using fresh_cell [OF assms(3,2)] last_in_set [of "l # xs"] Q(1) unfolding p by auto
  then show ?thesis
    using rep_link [OF assms(1,2) Q(1) assms(3)] p Q
    by (simp add: insert_before_link q_before_def insert_before_node_split)
qed

text \<open>A detached node points at itself, as \<^verbatim>\<open>rt_list_init\<close> and \<^verbatim>\<open>rt_list_remove\<close> leave it.\<close>

lemma rep_remove:
  assumes rep: "rep H h Q"
    and n: "n \<in> set (Q l) \<and> l \<in> H \<or> fresh H Q n \<and> nxt h n = n \<and> prv h n = n"
  shows "rep H (rt_list_remove n h) (q_remove n Q)"
    and "nxt (rt_list_remove n h) n = n \<and> prv (rt_list_remove n h) n = n"
proof -
  show "nxt (rt_list_remove n h) n = n \<and> prv (rt_list_remove n h) n = n"
    by (simp add: rt_list_remove_def set_nxt_def set_prv_def Let_def)
  show "rep H (rt_list_remove n h) (q_remove n Q)"
  proof (cases "fresh H Q n \<and> nxt h n = n \<and> prv h n = n")
    case True
    then have "q_remove n Q = Q" by (auto simp: q_remove_def fresh_def)
    then show ?thesis using True rep by (simp add: remove_detached)
  next
    case False
    then have l: "n \<in> set (Q l)" "l \<in> H" using n by auto
    then obtain xs ys where Q: "Q l = xs @ n # ys" by (metis split_list)
    have d: "dlist h l (xs @ n # ys)" using rep l Q by (metis rep_def)
    note rm = dlist_remove [OF d]
    let ?a = "last (l # xs)" and ?b = "hd (ys @ [l])"
    have in_l: "?a \<in> set (l # Q l)" "?b \<in> set (l # Q l)"
      using last_in_set [of "l # xs"] hd_in_set [of "ys @ [l]"] Q by auto
    have apart: "set (k # Q k) \<inter> set (l # Q l) = {}" if "k \<in> H" "k \<noteq> l" for k
      using rep l(2) that unfolding rep_def by blast
    have "dlist (rt_list_remove n h) k (removeAll n (Q k))" if k: "k \<in> H" for k
    proof (cases "k = l")
      case True
      have "removeAll n (Q l) = xs @ ys" using d Q by (simp add: dlist_def)
      then show ?thesis using rm True by simp
    next
      case False
      have "n \<notin> set (Q k)" using apart [OF k False] l(1) by auto
      moreover have "dlist (rt_list_remove n h) k (Q k)"
      proof -
        have "dlist h k (Q k)" using rep k by (simp add: rep_def)
        moreover have "?a \<notin> set (k # Q k)" "?b \<notin> set (k # Q k)" "n \<notin> set (k # Q k)"
          using apart [OF k False] in_l l(1) by (blast, blast, auto)
        ultimately show ?thesis unfolding rm(1) by (intro dlist_link_frame)
      qed
      ultimately show ?thesis by simp
    qed
    moreover have "set (k # removeAll n (Q k)) \<inter> set (k' # removeAll n (Q k')) = {}"
      if k: "k \<in> H" "k' \<in> H" "k \<noteq> k'" for k k'
    proof -
      have "set (k # Q k) \<inter> set (k' # Q k') = {}"
        using rep k unfolding rep_def by blast
      then show ?thesis by auto
    qed
    moreover have "removeAll n (Q k) = []" if "k \<notin> H" for k
      using rep that by (simp add: rep_def)
    ultimately show ?thesis unfolding rep_def q_remove_def by blast
  qed
qed

subsection \<open>The interface the kernel relies on\<close>

text \<open>
  \<open>rp h Q\<close>: the heap represents the family; \<open>free h Q n\<close>: the node is in no list and
  may be inserted or removed.
\<close>

locale intrusive_lists =
  fixes tail :: "nat \<Rightarrow> nat \<Rightarrow> 'h \<Rightarrow> 'h"
    and head :: "nat \<Rightarrow> nat \<Rightarrow> 'h \<Rightarrow> 'h"
    and remove :: "nat \<Rightarrow> 'h \<Rightarrow> 'h"
    and isempty :: "nat \<Rightarrow> 'h \<Rightarrow> bool"
    and len :: "nat \<Rightarrow> 'h \<Rightarrow> u32 option"
    and heads :: "nat set"
    and rp :: "'h \<Rightarrow> (nat \<Rightarrow> nat list) \<Rightarrow> bool"
    and free :: "'h \<Rightarrow> (nat \<Rightarrow> nat list) \<Rightarrow> nat \<Rightarrow> bool"
  assumes tail_law: "rp h Q \<Longrightarrow> l \<in> heads \<Longrightarrow> free h Q n \<Longrightarrow> rp (tail l n h) (q_tail l n Q)"
    and head_law: "rp h Q \<Longrightarrow> l \<in> heads \<Longrightarrow> free h Q n \<Longrightarrow> rp (head l n h) (q_head l n Q)"
    and remove_law: "rp h Q \<Longrightarrow> n \<in> set (Q l) \<or> free h Q n \<Longrightarrow> rp (remove n h) (q_remove n Q)"
    and remove_free: "rp h Q \<Longrightarrow> n \<in> set (Q l) \<or> free h Q n \<Longrightarrow> free (remove n h) (q_remove n Q) n"
    and isempty_law: "rp h Q \<Longrightarrow> l \<in> heads \<Longrightarrow> isempty l h \<longleftrightarrow> Q l = []"
    and len_law: "rp h Q \<Longrightarrow> l \<in> heads \<Longrightarrow> len l h = Some (of_nat (length (Q l)))"
    and rp_ok: "rp h Q \<Longrightarrow> q_ok Q"
begin

text \<open>Moving a node to the end of another list, as suspending and resuming a thread does.\<close>

lemma requeue:
  assumes "rp h Q" "n \<in> set (Q l) \<or> free h Q n" "l' \<in> heads"
  shows "rp (tail l' n (remove n h)) (q_tail l' n (q_remove n Q))"
  using assms remove_law remove_free tail_law by blast

lemma requeue_len:
  assumes "rp h Q" "n \<in> set (Q l)" "l' \<in> heads"
  shows "len l' (tail l' n (remove n h)) = Some (of_nat (length (removeAll n (Q l')) + 1))"
  using requeue [of h Q n l l'] assms len_law [of _ "q_tail l' n (q_remove n Q)" l']
  by (simp add: q_tail_def q_remove_def)

lemma remove_empties:
  assumes "rp h Q" "Q l = [n]" "l \<in> heads"
  shows "isempty l (remove n h)"
  using remove_law [of h Q n l] isempty_law [of "remove n h" "q_remove n Q" l] assms
  by (simp add: q_remove_def)

end

definition detached :: "nat set \<Rightarrow> rt_list_heap \<Rightarrow> (nat \<Rightarrow> nat list) \<Rightarrow> nat \<Rightarrow> bool" where
  "detached H h Q n \<longleftrightarrow> fresh H Q n \<and> nxt h n = n \<and> prv h n = n"

lemma rep_q_ok:
  assumes "rep H h Q"
  shows "q_ok Q"
  unfolding q_ok_def
proof (intro conjI allI impI)
  show "distinct (Q k)" for k using assms by (cases "k \<in> H") (auto simp: rep_def dlist_def)
  fix k k' n
  assume n: "n \<in> set (Q k) \<and> n \<in> set (Q k')"
  then have "k \<in> H" "k' \<in> H" using assms by (auto simp: rep_def)
  then have "k \<noteq> k' \<Longrightarrow> set (k # Q k) \<inter> set (k' # Q k') = {}"
    using assms unfolding rep_def by blast
  then show "k = k'" using n by (meson disjoint_iff list.set_intros(2))
qed

lemma rep_head_notin: "rep H h Q \<Longrightarrow> l \<in> H \<Longrightarrow> l \<notin> set (Q k)"
  by (cases "k \<in> H"; cases "k = l") (auto simp: rep_def dlist_def)

lemma rep_in_head: "rep H h Q \<Longrightarrow> n \<in> set (Q l) \<Longrightarrow> l \<in> H"
  by (auto simp: rep_def)

interpretation rtl: intrusive_lists rt_list_insert_before rt_list_insert_after rt_list_remove
    rt_list_isempty rt_list_len H "rep H" "detached H" for H :: "nat set"
proof unfold_locales
  fix h Q n l
  assume rep: "rep H h Q" and n: "n \<in> set (Q l) \<or> detached H h Q n"
  then have n': "n \<in> set (Q l) \<and> l \<in> H \<or> fresh H Q n \<and> nxt h n = n \<and> prv h n = n"
    using rep_in_head [OF rep] by (auto simp: detached_def)
  show "rep H (rt_list_remove n h) (q_remove n Q)" by (rule rep_remove [OF rep n'])
  have "n \<notin> H" using n rep_head_notin [OF rep] by (auto simp: detached_def fresh_def)
  then show "detached H (rt_list_remove n h) (q_remove n Q) n"
    using rep_remove(2) [OF rep n'] by (simp add: detached_def fresh_def)
next
  fix h Q l
  assume "rep H h Q" "l \<in> H"
  then have "dlist h l (Q l)" by (simp add: rep_def)
  then show "rt_list_isempty l h \<longleftrightarrow> Q l = []" "rt_list_len l h = Some (of_nat (length (Q l)))"
    by (simp_all add: dlist_isempty dlist_len)
qed (auto simp: rep_tail rep_head rep_q_ok detached_def)

subsection \<open>Property\<close>

text \<open>
  \<^bold>\<open>C31\<close>: On the pointer heap, removing a node from the circular list that holds it and linking
  it before another list's head moves exactly this node to the end of that list: every
  other list keeps its nodes and order, all lists stay well linked in both directions, and
  \<^verbatim>\<open>rt_list_len\<close> of the target returns with the new length as an \<^verbatim>\<open>unsigned int\<close>, that is modulo \<open>2\<^sup>3\<^sup>2\<close>.
\<close>

theorem rt_list_requeue_refines:
  assumes "rep H h Q" "n \<in> set (Q l)" "l' \<in> H"
  defines "h' \<equiv> rt_list_insert_before l' n (rt_list_remove n h)"
  shows "rep H h' (\<lambda>k. if k = l' then removeAll n (Q k) @ [n] else removeAll n (Q k)) \<and>
         rt_list_len l' h' = Some (of_nat (length (removeAll n (Q l')) + 1))"
proof -
  have "q_tail l' n (q_remove n Q) = (\<lambda>k. if k = l' then removeAll n (Q k) @ [n] else removeAll n (Q k))"
    by (auto simp: q_tail_def q_remove_def)
  then show ?thesis
    using rtl.requeue [OF assms(1) disjI1 [OF assms(2)] assms(3)] rtl.requeue_len [OF assms(1-3)]
    by (simp add: h'_def)
qed

definition example_heap :: rt_list_heap where
  "example_heap = rt_list_insert_before 0 3 (rt_list_insert_before 0 2
     (rt_list_init 1 (rt_list_init 0 \<lparr>nxt = (\<lambda>n. n), prv = (\<lambda>n. n)\<rparr>)))"

lemma example_heap_rep: "rep {0, 1} example_heap ((\<lambda>_. [])(0 := [2, 3]))"
  by (auto simp: rep_def dlist_def example_heap_def rt_list_insert_before_def rt_list_init_def
      set_nxt_def set_prv_def Let_def)

theorem rt_list_requeue_refines_witness:
  "rep {0, 1} (rt_list_insert_before 1 2 (rt_list_remove 2 example_heap))
     (\<lambda>k. if k = 1 then removeAll 2 (((\<lambda>_. [])(0 := [2, 3])) k) @ [2]
          else removeAll 2 (((\<lambda>_. [])(0 := [2, 3])) k)) \<and>
   rt_list_len 1 (rt_list_insert_before 1 2 (rt_list_remove 2 example_heap)) = Some 1"
  using rt_list_requeue_refines [OF example_heap_rep, of 2 0 1] by simp

end
