(* ===== verification/Kernel_State.thy ===== *)
theory Kernel_State
  imports Prelude Rt_List
begin

text \<open>
  The data of the kernel: the structures of \<^verbatim>\<open>include/rtdef.h\<close> in the configuration of the
  two K210 projects (\<^verbatim>\<open>RT_USING_SMP\<close> with two harts, 32 priorities, one timer row, no
  signals, no soft timers), and the global variables of \<^verbatim>\<open>scheduler.c\<close>, \<^verbatim>\<open>cpu.c\<close> and
  \<^verbatim>\<open>timer.c\<close> as one record.

  Threads, timers and IPC objects are named by numbers, the objects' addresses. The
  intrusive lists that thread threads together (\<^verbatim>\<open>tlist\<close>) are the family \<open>tq\<close> of queues,
  those of timers (\<^verbatim>\<open>row\<close>) the family \<open>tml\<close>; the operations on them are \<^const>\<open>q_tail\<close>,
  \<^const>\<open>q_head\<close>, \<^const>\<open>q_before\<close> and \<^const>\<open>q_remove\<close>, which the pointer operations of
  \<^verbatim>\<open>rtservice.h\<close> implement (theory \<open>Rt_List\<close>).
\<close>

subsection \<open>Constants of the configuration\<close>

abbreviation (input) RT_CPUS_NR :: "'a :: numeral" where "RT_CPUS_NR \<equiv> 2"
abbreviation (input) RT_CPU_DETACHED :: u8 where "RT_CPU_DETACHED \<equiv> 2"
abbreviation (input) RT_CPU_MASK :: u32 where "RT_CPU_MASK \<equiv> 3"
abbreviation (input) RT_THREAD_PRIORITY_MAX :: nat where "RT_THREAD_PRIORITY_MAX \<equiv> 32"

abbreviation (input) RT_THREAD_INIT :: u8 where "RT_THREAD_INIT \<equiv> 0"
abbreviation (input) RT_THREAD_READY :: u8 where "RT_THREAD_READY \<equiv> 1"
abbreviation (input) RT_THREAD_SUSPEND :: u8 where "RT_THREAD_SUSPEND \<equiv> 2"
abbreviation (input) RT_THREAD_RUNNING :: u8 where "RT_THREAD_RUNNING \<equiv> 3"
abbreviation (input) RT_THREAD_CLOSE :: u8 where "RT_THREAD_CLOSE \<equiv> 4"
abbreviation (input) RT_THREAD_STAT_MASK :: u8 where "RT_THREAD_STAT_MASK \<equiv> 7"
abbreviation (input) RT_THREAD_STAT_YIELD :: u8 where "RT_THREAD_STAT_YIELD \<equiv> 8"

abbreviation (input) RT_TIMER_FLAG_ACTIVATED :: u8 where "RT_TIMER_FLAG_ACTIVATED \<equiv> 1"
abbreviation (input) RT_TIMER_FLAG_PERIODIC :: u8 where "RT_TIMER_FLAG_PERIODIC \<equiv> 2"
abbreviation (input) RT_TICK_MAX :: u32 where "RT_TICK_MAX \<equiv> 0xffffffff"

abbreviation (input) RT_IPC_FLAG_FIFO :: u8 where "RT_IPC_FLAG_FIFO \<equiv> 0"
abbreviation (input) RT_IPC_FLAG_PRIO :: u8 where "RT_IPC_FLAG_PRIO \<equiv> 1"

subsection \<open>Object classes\<close>

abbreviation (input) RT_Object_Class_Thread :: u8 where "RT_Object_Class_Thread \<equiv> 1"
abbreviation (input) RT_Object_Class_Timer :: u8 where "RT_Object_Class_Timer \<equiv> 0x0a"
abbreviation (input) RT_Object_Class_Static :: u8 where "RT_Object_Class_Static \<equiv> 0x80"

definition rt_object_get_type :: "u8 \<Rightarrow> u8" where
  "rt_object_get_type ty = ty AND NOT RT_Object_Class_Static"

definition rt_object_is_systemobject :: "u8 \<Rightarrow> bool" where
  "rt_object_is_systemobject ty \<longleftrightarrow> ty AND RT_Object_Class_Static \<noteq> 0"

subsection \<open>Structures\<close>

type_synonym tid = nat

text \<open>
  A thread. The stack is represented by its bounds, the saved stack pointer and its guard
  byte, which is what the overflow check reads; \<open>th_cleanup\<close> tells whether a cleanup
  function is set.
\<close>

record rt_thread =
  th_type :: u8
  th_sp :: u64
  th_stack_addr :: u64
  th_stack_size :: u32
  th_stack_guard :: u8
  th_error :: rt_err_t
  th_stat :: u8
  th_bind_cpu :: u8
  th_oncpu :: u8
  th_scheduler_lock_nest :: u16
  th_cpus_lock_nest :: u16
  th_critical_lock_nest :: u16
  th_current_priority :: u8
  th_init_priority :: u8
  th_number_mask :: u32
  th_event_set :: u32
  th_event_info :: u8
  th_init_tick :: u64
  th_remaining_tick :: u64
  th_cleanup :: bool

record rt_cpu =
  cpu_current_thread :: "tid option"
  cpu_irq_nest :: u16
  cpu_irq_switch_flag :: u8
  cpu_current_priority :: u8
  cpu_priority_group :: u32
  cpu_tick :: rt_tick_t

text \<open>
  A timer: the timer built into a thread, or a timer object of its own. The timeout
  function with its parameter is \<^verbatim>\<open>rt_thread_timeout\<close> of a thread or one of the functions the
  application installs.
\<close>

datatype timer_id = ThreadTimer tid | SysTimer nat

datatype timeout_func = Rt_thread_timeout tid | User_timeout nat

record rt_timer =
  tm_type :: u8
  tm_flag :: u8
  tm_timeout_func :: timeout_func
  tm_init_tick :: rt_tick_t
  tm_timeout_tick :: rt_tick_t

text \<open>
  The IPC objects. The object's class is the map that holds it; \<open>static\<close> is the flag
  \<^verbatim>\<open>RT_Object_Class_Static\<close> of its type, \<open>flag\<close> the order of its waiting threads.
\<close>

datatype oid = Sem nat | Mutex nat | Event nat | Mailbox nat | Mqueue nat | Mempool nat

record rt_semaphore =
  sem_static :: bool
  sem_flag :: u8
  sem_value :: u16

record rt_mutex =
  mtx_static :: bool
  mtx_flag :: u8
  mtx_value :: u16
  mtx_original_priority :: u8
  mtx_hold :: u8
  mtx_owner :: "tid option"

record rt_event =
  ev_static :: bool
  ev_flag :: u8
  ev_set :: u32

record rt_mailbox =
  mb_static :: bool
  mb_flag :: u8
  mb_msg_pool :: "u64 list"
  mb_size :: u16
  mb_entry :: u16
  mb_in_offset :: u16
  mb_out_offset :: u16

text \<open>
  A message queue's pool is an array of \<^verbatim>\<open>struct rt_mq_message\<close> headers, each followed by its
  payload; the three list pointers are indices into it.
\<close>

record rt_mq_message =
  msg_next :: "nat option"
  msg_data :: "u8 list"

record rt_messagequeue =
  mq_static :: bool
  mq_flag :: u8
  mq_msg_pool :: "rt_mq_message list"
  mq_msg_size :: u16
  mq_max_msgs :: u16
  mq_entry :: u16
  mq_queue_head :: "nat option"
  mq_queue_tail :: "nat option"
  mq_queue_free :: "nat option"

subsection \<open>The kernel state\<close>

text \<open>
  The lists a thread's \<^verbatim>\<open>tlist\<close> node can be in: \<^verbatim>\<open>rt_thread_priority_table[p]\<close>, the
  \<^verbatim>\<open>priority_table[p]\<close> of a hart, the \<^verbatim>\<open>suspend_thread\<close> list or the sender list of an IPC
  object, and \<^verbatim>\<open>rt_thread_defunct\<close>. Timers are in \<^verbatim>\<open>rt_timer_list\<close> or in the list on the
  stack of \<^verbatim>\<open>rt_timer_check\<close>.
\<close>

datatype qid = ReadyQ nat | CpuReadyQ nat nat | SuspendQ oid | SenderQ oid | DefunctQ

datatype tmq = TimerList | TempList

record kernel =
  threads :: "tid \<Rightarrow> rt_thread"
  cpus :: "nat \<Rightarrow> rt_cpu"
  cpus_lock :: "nat option"
  tq :: "qid \<Rightarrow> tid list"
  ready_priority_group :: u32
  timers :: "timer_id \<Rightarrow> rt_timer"
  tml :: "tmq \<Rightarrow> timer_id list"
  ipi :: "nat \<Rightarrow> bool"
  sems :: "nat \<rightharpoonup> rt_semaphore"
  mutexes :: "nat \<rightharpoonup> rt_mutex"
  events :: "nat \<rightharpoonup> rt_event"
  mailboxes :: "nat \<rightharpoonup> rt_mailbox"
  mqueues :: "nat \<rightharpoonup> rt_messagequeue"

definition upd_thread :: "tid \<Rightarrow> (rt_thread \<Rightarrow> rt_thread) \<Rightarrow> kernel \<Rightarrow> kernel" where
  "upd_thread t f s = s\<lparr>threads := (threads s)(t := f (threads s t))\<rparr>"

definition upd_cpu :: "nat \<Rightarrow> (rt_cpu \<Rightarrow> rt_cpu) \<Rightarrow> kernel \<Rightarrow> kernel" where
  "upd_cpu c f s = s\<lparr>cpus := (cpus s)(c := f (cpus s c))\<rparr>"

definition upd_timer :: "timer_id \<Rightarrow> (rt_timer \<Rightarrow> rt_timer) \<Rightarrow> kernel \<Rightarrow> kernel" where
  "upd_timer t f s = s\<lparr>timers := (timers s)(t := f (timers s t))\<rparr>"

definition upd_tq :: "((qid \<Rightarrow> tid list) \<Rightarrow> (qid \<Rightarrow> tid list)) \<Rightarrow> kernel \<Rightarrow> kernel" where
  "upd_tq f s = s\<lparr>tq := f (tq s)\<rparr>"

definition upd_tml :: "((tmq \<Rightarrow> timer_id list) \<Rightarrow> (tmq \<Rightarrow> timer_id list)) \<Rightarrow> kernel \<Rightarrow> kernel" where
  "upd_tml f s = s\<lparr>tml := f (tml s)\<rparr>"

lemmas upd_defs = upd_thread_def upd_cpu_def upd_timer_def upd_tq_def upd_tml_def

lemma upd_thread_sel [simp]:
  "threads (upd_thread t f s) = (threads s)(t := f (threads s t))"
  "cpus (upd_thread t f s) = cpus s" "cpus_lock (upd_thread t f s) = cpus_lock s"
  "tq (upd_thread t f s) = tq s" "ready_priority_group (upd_thread t f s) = ready_priority_group s"
  "timers (upd_thread t f s) = timers s" "tml (upd_thread t f s) = tml s" "ipi (upd_thread t f s) = ipi s"
  "sems (upd_thread t f s) = sems s" "mutexes (upd_thread t f s) = mutexes s"
  "events (upd_thread t f s) = events s" "mailboxes (upd_thread t f s) = mailboxes s"
  "mqueues (upd_thread t f s) = mqueues s"
  by (simp_all add: upd_thread_def)

lemma upd_cpu_sel [simp]:
  "cpus (upd_cpu c g s) = (cpus s)(c := g (cpus s c))"
  "threads (upd_cpu c g s) = threads s" "cpus_lock (upd_cpu c g s) = cpus_lock s"
  "tq (upd_cpu c g s) = tq s" "ready_priority_group (upd_cpu c g s) = ready_priority_group s"
  "timers (upd_cpu c g s) = timers s" "tml (upd_cpu c g s) = tml s" "ipi (upd_cpu c g s) = ipi s"
  "sems (upd_cpu c g s) = sems s" "mutexes (upd_cpu c g s) = mutexes s"
  "events (upd_cpu c g s) = events s" "mailboxes (upd_cpu c g s) = mailboxes s"
  "mqueues (upd_cpu c g s) = mqueues s"
  by (simp_all add: upd_cpu_def)

lemma upd_timer_sel [simp]:
  "timers (upd_timer i h s) = (timers s)(i := h (timers s i))"
  "threads (upd_timer i h s) = threads s" "cpus_lock (upd_timer i h s) = cpus_lock s"
  "tq (upd_timer i h s) = tq s" "ready_priority_group (upd_timer i h s) = ready_priority_group s"
  "cpus (upd_timer i h s) = cpus s" "tml (upd_timer i h s) = tml s" "ipi (upd_timer i h s) = ipi s"
  "sems (upd_timer i h s) = sems s" "mutexes (upd_timer i h s) = mutexes s"
  "events (upd_timer i h s) = events s" "mailboxes (upd_timer i h s) = mailboxes s"
  "mqueues (upd_timer i h s) = mqueues s"
  by (simp_all add: upd_timer_def)

lemma upd_tq_sel [simp]:
  "tq (upd_tq k s) = k (tq s)" "timers (upd_tq k s) = timers s"
  "threads (upd_tq k s) = threads s" "cpus_lock (upd_tq k s) = cpus_lock s"
  "ready_priority_group (upd_tq k s) = ready_priority_group s"
  "cpus (upd_tq k s) = cpus s" "tml (upd_tq k s) = tml s" "ipi (upd_tq k s) = ipi s"
  "sems (upd_tq k s) = sems s" "mutexes (upd_tq k s) = mutexes s"
  "events (upd_tq k s) = events s" "mailboxes (upd_tq k s) = mailboxes s"
  "mqueues (upd_tq k s) = mqueues s"
  by (simp_all add: upd_tq_def)

lemma upd_tml_sel [simp]:
  "tml (upd_tml l s) = l (tml s)" "timers (upd_tml l s) = timers s"
  "threads (upd_tml l s) = threads s" "cpus_lock (upd_tml l s) = cpus_lock s"
  "ready_priority_group (upd_tml l s) = ready_priority_group s"
  "cpus (upd_tml l s) = cpus s" "tq (upd_tml l s) = tq s" "ipi (upd_tml l s) = ipi s"
  "sems (upd_tml l s) = sems s" "mutexes (upd_tml l s) = mutexes s"
  "events (upd_tml l s) = events s" "mailboxes (upd_tml l s) = mailboxes s"
  "mqueues (upd_tml l s) = mqueues s"
  by (simp_all add: upd_tml_def)

subsection \<open>Thread status\<close>

text \<open>
  The status byte holds the state in its low three bits and the yield mark in bit three.
\<close>

abbreviation stat_of :: "rt_thread \<Rightarrow> u8" where
  "stat_of th \<equiv> th_stat th AND RT_THREAD_STAT_MASK"

definition set_stat :: "u8 \<Rightarrow> rt_thread \<Rightarrow> rt_thread" where
  "set_stat st th = th\<lparr>th_stat := st OR (th_stat th AND NOT RT_THREAD_STAT_MASK)\<rparr>"

lemma stat_7: "(7 :: u8) = mask 3" by (simp add: mask_eq_exp_minus_1)

lemma bit_8: "bit (8 :: u8) n \<longleftrightarrow> n = 3"
proof -
  have "(8 :: u8) = 2 ^ 3" by simp
  then show ?thesis by (auto simp only: bit_exp_iff possible_bit_word) simp
qed

lemma stat_of_set_stat [simp]: "st AND 7 = st \<Longrightarrow> stat_of (set_stat st th) = st"
proof -
  assume st: "st AND 7 = st"
  have "(st OR (w AND NOT 7)) AND 7 = st AND 7" for w :: u8
    by (rule bit_word_eqI) (auto simp: bit_simps)
  then show ?thesis using st by (simp add: set_stat_def)
qed

lemma set_stat_yield [simp]:
  "st AND 8 = 0 \<Longrightarrow> th_stat (set_stat st th) AND 8 = th_stat th AND 8"
proof -
  assume st: "st AND 8 = 0"
  have "(st OR (w AND NOT 7)) AND 8 = (st AND 8) OR (w AND 8)" for w :: u8
    by (rule bit_word_eqI) (auto simp: stat_7 bit_simps bit_8 simp del: bit_numeral_word_iff)
  then show ?thesis using st by (simp add: set_stat_def)
qed

lemma set_stat_sel [simp]:
  "th_type (set_stat st th) = th_type th" "th_error (set_stat st th) = th_error th"
  "th_bind_cpu (set_stat st th) = th_bind_cpu th" "th_oncpu (set_stat st th) = th_oncpu th"
  "th_scheduler_lock_nest (set_stat st th) = th_scheduler_lock_nest th"
  "th_cpus_lock_nest (set_stat st th) = th_cpus_lock_nest th"
  "th_critical_lock_nest (set_stat st th) = th_critical_lock_nest th"
  "th_current_priority (set_stat st th) = th_current_priority th"
  "th_init_priority (set_stat st th) = th_init_priority th"
  "th_number_mask (set_stat st th) = th_number_mask th"
  "th_event_set (set_stat st th) = th_event_set th" "th_event_info (set_stat st th) = th_event_info th"
  "th_init_tick (set_stat st th) = th_init_tick th"
  "th_remaining_tick (set_stat st th) = th_remaining_tick th"
  "th_sp (set_stat st th) = th_sp th" "th_stack_addr (set_stat st th) = th_stack_addr th"
  "th_stack_size (set_stat st th) = th_stack_size th" "th_stack_guard (set_stat st th) = th_stack_guard th"
  "th_cleanup (set_stat st th) = th_cleanup th"
  by (simp_all add: set_stat_def)

end
