(* ===== verification/Kservice.thy ===== *)
theory Kservice
  imports Prelude
begin

text \<open>
  \<^verbatim>\<open>src/kservice.c\<close>: the table-driven \<^verbatim>\<open>__rt_ffs\<close> used by the scheduler to find the highest
  ready priority. Its \<^verbatim>\<open>int\<close> argument is read as the 32-bit pattern it is.
\<close>

subsection \<open>Find first set bit\<close>

definition lowest_bit_row :: "nat \<Rightarrow> nat list" where
  "lowest_bit_row k = [k, 0, 1, 0, 2, 0, 1, 0, 3, 0, 1, 0, 2, 0, 1, 0]"

text \<open>The sixteen rows of \<^verbatim>\<open>__lowest_bit_bitmap\<close> differ in their first entry only.\<close>

definition lowest_bit_bitmap :: "nat list" where
  "lowest_bit_bitmap = concat (map lowest_bit_row [0, 4, 5, 4, 6, 4, 5, 4, 7, 4, 5, 4, 6, 4, 5, 4])"

definition rt_ffs :: "u32 \<Rightarrow> int" where
  "rt_ffs v =
     (if v = 0 then 0
      else if v AND 0xff \<noteq> 0 then int (lowest_bit_bitmap ! unat (v AND 0xff)) + 1
      else if v AND 0xff00 \<noteq> 0 then int (lowest_bit_bitmap ! unat (drop_bit 8 (v AND 0xff00))) + 9
      else if v AND 0xff0000 \<noteq> 0 then int (lowest_bit_bitmap ! unat (drop_bit 16 (v AND 0xff0000))) + 17
      else int (lowest_bit_bitmap ! unat (drop_bit 24 (v AND 0xff000000))) + 25)"

definition bitmap_row_ok :: "int \<Rightarrow> nat \<Rightarrow> bool" where
  "bitmap_row_ok b k \<longleftrightarrow> b = 0 \<or> k < 8 \<and> b mod 2 ^ k = 0 \<and> odd (b div 2 ^ k)"

lemma bitmap_rows: "list_all (\<lambda>(b, k). bitmap_row_ok b k) (zip [0..255] lowest_bit_bitmap)"
  by code_simp

lemma length_lowest_bit_bitmap: "length lowest_bit_bitmap = 256"
  by code_simp

lemma bitmap_row: "b < 256 \<Longrightarrow> bitmap_row_ok (int b) (lowest_bit_bitmap ! b)"
proof -
  assume b: "b < 256"
  then have "zip [0..255] lowest_bit_bitmap ! b = (int b, lowest_bit_bitmap ! b)"
    by (simp add: length_lowest_bit_bitmap nth_upto)
  moreover have "zip [0..255] lowest_bit_bitmap ! b \<in> set (zip [0..255] lowest_bit_bitmap)"
    by (rule nth_mem) (use b in \<open>simp add: length_lowest_bit_bitmap\<close>)
  ultimately show ?thesis using bitmap_rows by (auto simp: list_all_iff)
qed

lemma low_bits_clear: "(b :: int) mod 2 ^ k = 0 \<Longrightarrow> j < k \<Longrightarrow> \<not> bit b j"
  by (metis bit_take_bit_iff take_bit_eq_mod bit_0_eq bot_apply bot_bool_def)

lemma bitmap_byte:
  assumes "b < 256" "b \<noteq> 0"
  shows "lowest_bit_bitmap ! b < 8" "bit b (lowest_bit_bitmap ! b)"
    "j < lowest_bit_bitmap ! b \<Longrightarrow> \<not> bit b j"
proof -
  have *: "bitmap_row_ok (int b) (lowest_bit_bitmap ! b)" using bitmap_row [OF assms(1)] .
  then show "lowest_bit_bitmap ! b < 8" using assms(2) by (simp add: bitmap_row_ok_def)
  have "bit (int b) (lowest_bit_bitmap ! b)"
    using * assms(2) by (simp add: bitmap_row_ok_def bit_iff_odd)
  then show "bit b (lowest_bit_bitmap ! b)" by (simp add: bit_of_nat_iff)
  show "\<not> bit b j" if "j < lowest_bit_bitmap ! b"
    using * assms(2) low_bits_clear [OF _ that, of "int b"] by (simp add: bitmap_row_ok_def bit_of_nat_iff)
qed

text \<open>One byte of the argument, at bit offset \<open>n\<close>.\<close>

definition byte_at :: "nat \<Rightarrow> u32 \<Rightarrow> nat" where
  "byte_at n v = unat (drop_bit n (v AND push_bit n (mask 8)))"

lemma bit_byte_at: "n \<le> 24 \<Longrightarrow> bit (byte_at n v) k \<longleftrightarrow> k < 8 \<and> bit v (n + k)"
  by (auto simp: byte_at_def bit_unsigned_iff bit_drop_bit_eq bit_and_iff bit_push_bit_iff bit_mask_iff
      dest: bit_imp_le_length)

lemma byte_at_less: "n \<le> 24 \<Longrightarrow> byte_at n v < 256"
proof -
  assume n: "n \<le> 24"
  have "take_bit 8 (byte_at n v) = byte_at n v"
    by (rule bit_eqI) (use bit_byte_at [OF n] in \<open>auto simp: bit_take_bit_iff\<close>)
  then have "byte_at n v < 2 ^ 8" by (simp only: take_bit_nat_eq_self_iff)
  then show ?thesis by simp
qed

definition is_ffs :: "u32 \<Rightarrow> nat \<Rightarrow> bool" where
  "is_ffs v p \<longleftrightarrow> p < 32 \<and> bit v p \<and> (\<forall>j<p. \<not> bit v j)"

lemma is_ffs_byte:
  assumes "n \<le> 24" "byte_at n v \<noteq> 0" "\<forall>j<n. \<not> bit v j"
  shows "is_ffs v (n + lowest_bit_bitmap ! byte_at n v)"
proof -
  let ?b = "byte_at n v"
  note B = bitmap_byte [OF byte_at_less [OF assms(1)] assms(2)]
  have "\<not> bit v j" if j: "j < n + lowest_bit_bitmap ! ?b" for j
  proof (cases "j < n")
    case False
    then have "j - n < lowest_bit_bitmap ! ?b" using j by simp
    then show ?thesis using B(1,3) bit_byte_at [OF assms(1), of v "j - n"] False by simp
  qed (use assms(3) in simp)
  then show ?thesis using B(1,2) bit_byte_at [OF assms(1)] assms(1) by (simp add: is_ffs_def)
qed

lemma byte_at_zero: "n \<le> 24 \<Longrightarrow> byte_at n v = 0 \<Longrightarrow> k < 8 \<Longrightarrow> \<not> bit v (n + k)"
  using bit_byte_at [of n v k] by simp

lemma byte_masks:
  "unat (v AND 0xff) = byte_at 0 v" "unat (drop_bit 8 (v AND 0xff00)) = byte_at 8 v"
  "unat (drop_bit 16 (v AND 0xff0000)) = byte_at 16 v"
  "unat (drop_bit 24 (v AND 0xff000000)) = byte_at 24 v"
  by (simp_all add: byte_at_def mask_eq_exp_minus_1)

lemma byte_mask_zero:
  "n \<le> 24 \<Longrightarrow> v AND push_bit n (mask 8) = 0 \<longleftrightarrow> byte_at n v = 0"
proof -
  assume n: "n \<le> 24"
  have "v AND push_bit n (mask 8) = 0" if z: "byte_at n v = 0"
  proof (rule bit_eqI)
    fix k
    assume "possible_bit TYPE(32 word) k"
    show "bit (v AND push_bit n (mask 8)) k \<longleftrightarrow> bit (0::u32) k"
      using byte_at_zero [OF n z, of "k - n"]
      by (auto simp: bit_and_iff bit_push_bit_iff bit_mask_iff)
  qed
  then show ?thesis unfolding byte_at_def by (metis drop_bit_of_0 unsigned_0)
qed

lemma byte_masks_zero:
  "(v :: u32) AND 0xff = 0 \<longleftrightarrow> byte_at 0 v = 0" "v AND 0xff00 = 0 \<longleftrightarrow> byte_at 8 v = 0"
  "v AND 0xff0000 = 0 \<longleftrightarrow> byte_at 16 v = 0"
  using byte_mask_zero [of 0 v] byte_mask_zero [of 8 v] byte_mask_zero [of 16 v]
  by (simp_all add: mask_eq_exp_minus_1)

lemma low_bytes_zero:
  assumes "\<forall>j<n. \<not> bit v j" "byte_at n v = 0" "n \<le> 24"
  shows "\<forall>j<n + 8. \<not> bit v j"
proof (intro allI impI)
  fix j
  assume "j < n + 8"
  then show "\<not> bit v j"
    using assms(1) byte_at_zero [OF assms(3,2), of "j - n"] by (cases "j < n") auto
qed

lemma rt_ffs_bytes:
  "rt_ffs v =
     (if v = 0 then 0
      else if byte_at 0 v \<noteq> 0 then int (lowest_bit_bitmap ! byte_at 0 v) + 1
      else if byte_at 8 v \<noteq> 0 then int (lowest_bit_bitmap ! byte_at 8 v) + 9
      else if byte_at 16 v \<noteq> 0 then int (lowest_bit_bitmap ! byte_at 16 v) + 17
      else int (lowest_bit_bitmap ! byte_at 24 v) + 25)"
  by (simp only: rt_ffs_def byte_masks byte_masks_zero)

lemma byte_24_pos:
  assumes "v \<noteq> 0" "\<forall>j<24. \<not> bit v j"
  shows "byte_at 24 v \<noteq> 0"
proof
  assume "byte_at 24 v = 0"
  then have *: "\<forall>j<24 + 8. \<not> bit v j" using low_bytes_zero [OF assms(2)] by blast
  have "v = 0" by (rule bit_word_eqI) (use * in simp)
  with assms show False by simp
qed

lemma rt_ffs_pos:
  assumes v: "v \<noteq> 0"
  shows "\<exists>p. rt_ffs v = int p + 1 \<and> is_ffs v p"
proof -
  let ?e = "\<lambda>n. lowest_bit_bitmap ! byte_at n v"
  have z0: "\<forall>j<0. \<not> bit v j" by blast
  have z8: "\<forall>j<8. \<not> bit v j" if "byte_at 0 v = 0" using low_bytes_zero [OF z0 that] by simp
  have z16: "\<forall>j<16. \<not> bit v j" if "byte_at 0 v = 0" "byte_at 8 v = 0"
    using low_bytes_zero [OF z8 [OF that(1)] that(2)] by simp
  have z24: "\<forall>j<24. \<not> bit v j" if "byte_at 0 v = 0" "byte_at 8 v = 0" "byte_at 16 v = 0"
    using low_bytes_zero [OF z16 [OF that(1,2)] that(3)] by simp
  consider (a) "byte_at 0 v \<noteq> 0" | (b) "byte_at 0 v = 0" "byte_at 8 v \<noteq> 0"
    | (c) "byte_at 0 v = 0" "byte_at 8 v = 0" "byte_at 16 v \<noteq> 0"
    | (d) "byte_at 0 v = 0" "byte_at 8 v = 0" "byte_at 16 v = 0" by blast
  then show ?thesis
  proof cases
    case a
    then have "rt_ffs v = int (0 + ?e 0) + 1" using v by (simp add: rt_ffs_bytes)
    then show ?thesis by (intro exI conjI) (assumption, rule is_ffs_byte [OF _ a z0], simp)
  next
    case b
    then have "rt_ffs v = int (8 + ?e 8) + 1" using v by (simp add: rt_ffs_bytes)
    then show ?thesis by (intro exI conjI) (assumption, rule is_ffs_byte [OF _ b(2) z8 [OF b(1)]], simp)
  next
    case c
    then have "rt_ffs v = int (16 + ?e 16) + 1" using v by (simp add: rt_ffs_bytes)
    then show ?thesis by (intro exI conjI) (assumption, rule is_ffs_byte [OF _ c(3) z16 [OF c(1,2)]], simp)
  next
    case d
    then have "rt_ffs v = int (24 + ?e 24) + 1" using v by (simp add: rt_ffs_bytes)
    then show ?thesis
      by (intro exI conjI) (assumption, rule is_ffs_byte [OF _ byte_24_pos [OF v z24 [OF d]] z24 [OF d]], simp)
  qed
qed

lemma rt_ffs_0 [simp]: "rt_ffs 0 = 0" by (simp add: rt_ffs_def)

lemma is_ffs_Least: "is_ffs v p \<Longrightarrow> (LEAST j. bit v j) = p"
  by (rule Least_equality) (auto simp: is_ffs_def not_le [symmetric])

text \<open>
  \<^bold>\<open>C27\<close>: \<^verbatim>\<open>__rt_ffs\<close> returns zero for zero; for every other 32-bit value it returns one plus
  the index of the least significant set bit.
\<close>

theorem rt_ffs_lowest_set_bit:
  "if v = 0 then rt_ffs v = 0
   else bit v (nat (rt_ffs v - 1)) \<and> rt_ffs v = int (LEAST j. bit v j) + 1 \<and> rt_ffs v \<le> 32"
proof (cases "v = 0")
  case False
  then obtain p where "rt_ffs v = int p + 1" "is_ffs v p" using rt_ffs_pos by blast
  then show ?thesis using False is_ffs_Least [of v p] by (simp add: is_ffs_def)
qed simp

end
