(* ===== verification/Scheduler.thy ===== *)
theory Scheduler
  imports Kernel_State Kservice
begin

text \<open>
  \<^verbatim>\<open>src/cpu.c\<close> and \<^verbatim>\<open>src/scheduler.c\<close> in their SMP form. The argument \<open>c\<close> of an operation is
  the hart that executes it, \<^verbatim>\<open>rt_hw_cpu_id()\<close>.

  \<^verbatim>\<open>rt_hw_interrupt_disable\<close> and \<^verbatim>\<open>rt_hw_interrupt_enable\<close> are \<^verbatim>\<open>rt_cpus_lock\<close> and \<^verbatim>\<open>rt_cpus_unlock\<close>
  here. They are written out in the operations whose behaviour depends on the nesting
  counters (\<^verbatim>\<open>rt_schedule\<close>, \<^verbatim>\<open>rt_scheduler_do_irq_switch\<close>, the critical sections and, in later
  theories, \<^verbatim>\<open>rt_thread_yield\<close> and \<^verbatim>\<open>rt_thread_exit\<close>). Elsewhere they bracket a section that is
  executed as one step, and \<open>rt_cpus_unlock_lock\<close> shows that such a bracket has no effect.

  A context switch ends with what the thread switched to does first: a thread that had
  been switched out inside \<^verbatim>\<open>rt_schedule\<close> executes the \<^verbatim>\<open>rt_hw_interrupt_enable\<close> calls its nesting
  counter still owes.
\<close>

subsection \<open>cpu.c\<close>

definition rt_hw_spin_lock :: "nat \<Rightarrow> kernel \<Rightarrow> kernel option" where
  "rt_hw_spin_lock c s = (if cpus_lock s = None then Some (s\<lparr>cpus_lock := Some c\<rparr>) else None)"

definition rt_hw_spin_unlock :: "kernel \<Rightarrow> kernel" where
  "rt_hw_spin_unlock s = s\<lparr>cpus_lock := None\<rparr>"

definition rt_cpus_lock :: "nat \<Rightarrow> kernel \<Rightarrow> kernel option" where
  "rt_cpus_lock c s =
     (case cpu_current_thread (cpus s c) of
        None \<Rightarrow> Some s
      | Some t \<Rightarrow>
          let lock_nest = th_cpus_lock_nest (threads s t);
              s1 = upd_thread t (\<lambda>th. th\<lparr>th_cpus_lock_nest := th_cpus_lock_nest th + 1\<rparr>) s
          in if lock_nest = 0
             then rt_hw_spin_lock c
                    (upd_thread t (\<lambda>th. th\<lparr>th_scheduler_lock_nest := th_scheduler_lock_nest th + 1\<rparr>) s1)
             else Some s1)"

definition rt_cpus_unlock :: "nat \<Rightarrow> kernel \<Rightarrow> kernel" where
  "rt_cpus_unlock c s =
     (case cpu_current_thread (cpus s c) of
        None \<Rightarrow> s
      | Some t \<Rightarrow>
          let s1 = upd_thread t (\<lambda>th. th\<lparr>th_cpus_lock_nest := th_cpus_lock_nest th - 1\<rparr>) s
          in if th_cpus_lock_nest (threads s1 t) = 0
             then rt_hw_spin_unlock
                    (upd_thread t (\<lambda>th. th\<lparr>th_scheduler_lock_nest := th_scheduler_lock_nest th - 1\<rparr>) s1)
             else s1)"

definition rt_cpus_lock_status_restore :: "nat \<Rightarrow> tid \<Rightarrow> kernel \<Rightarrow> kernel" where
  "rt_cpus_lock_status_restore c t s =
     (let s1 = upd_cpu c (\<lambda>cpu. cpu\<lparr>cpu_current_thread := Some t\<rparr>) s
      in if th_cpus_lock_nest (threads s1 t) = 0 then rt_hw_spin_unlock s1 else s1)"

text \<open>The switch itself, with the enable calls that the thread switched to still owes.\<close>

definition rt_hw_context_switch :: "nat \<Rightarrow> tid \<Rightarrow> kernel \<Rightarrow> kernel" where
  "rt_hw_context_switch c t s =
     (rt_cpus_unlock c ^^ unat (th_cpus_lock_nest (threads s t))) (rt_cpus_lock_status_restore c t s)"

subsection \<open>The ready queues\<close>

definition rt_hw_ipi_send :: "u32 \<Rightarrow> kernel \<Rightarrow> kernel" where
  "rt_hw_ipi_send cpu_mask s =
     s\<lparr>ipi := (\<lambda>idx. if idx < RT_CPUS_NR \<and> cpu_mask AND push_bit idx 1 \<noteq> 0 then True else ipi s idx)\<rparr>"

definition rt_schedule_insert_thread :: "nat \<Rightarrow> tid \<Rightarrow> kernel \<Rightarrow> kernel" where
  "rt_schedule_insert_thread c t s =
     (if th_oncpu (threads s t) \<noteq> RT_CPU_DETACHED
      then upd_thread t (set_stat RT_THREAD_RUNNING) s
      else
        let s1 = upd_thread t (set_stat RT_THREAD_READY) s;
            th = threads s1 t;
            bind_cpu = th_bind_cpu th;
            prio = unat (th_current_priority th)
        in if bind_cpu = RT_CPUS_NR
           then rt_hw_ipi_send (RT_CPU_MASK XOR push_bit c 1)
                  (upd_tq (q_tail (ReadyQ prio) t)
                     (s1\<lparr>ready_priority_group := ready_priority_group s1 OR th_number_mask th\<rparr>))
           else
             let s2 = upd_tq (q_tail (CpuReadyQ (unat bind_cpu) prio) t)
                        (upd_cpu (unat bind_cpu)
                           (\<lambda>cpu. cpu\<lparr>cpu_priority_group := cpu_priority_group cpu OR th_number_mask th\<rparr>) s1)
             in if c \<noteq> unat bind_cpu then rt_hw_ipi_send (push_bit (unat bind_cpu) 1) s2 else s2)"

definition rt_schedule_remove_thread :: "tid \<Rightarrow> kernel \<Rightarrow> kernel" where
  "rt_schedule_remove_thread t s =
     (let s1 = upd_tq (q_remove t) s;
          th = threads s1 t;
          bind_cpu = th_bind_cpu th;
          prio = unat (th_current_priority th)
      in if bind_cpu = RT_CPUS_NR
         then if tq s1 (ReadyQ prio) = []
              then s1\<lparr>ready_priority_group := ready_priority_group s1 AND NOT (th_number_mask th)\<rparr>
              else s1
         else if tq s1 (CpuReadyQ (unat bind_cpu) prio) = []
              then upd_cpu (unat bind_cpu)
                     (\<lambda>cpu. cpu\<lparr>cpu_priority_group := cpu_priority_group cpu AND NOT (th_number_mask th)\<rparr>) s1
              else s1)"

text \<open>
  \<^verbatim>\<open>_get_highest_priority_thread\<close>: the priorities are \<^verbatim>\<open>rt_ubase_t\<close>, so the value of an empty
  group, \<open>-1\<close>, is the largest one. The first node of an empty list is not a thread.
\<close>

definition first_of :: "'a list \<Rightarrow> 'a option" where
  "first_of xs = (case xs of [] \<Rightarrow> None | x # _ \<Rightarrow> Some x)"

definition get_highest_priority_thread :: "nat \<Rightarrow> kernel \<Rightarrow> (tid \<times> u64) option" where
  "get_highest_priority_thread c s =
     (let highest_ready_priority = (word_of_int (rt_ffs (ready_priority_group s) - 1) :: u64);
          local_highest_ready_priority = word_of_int (rt_ffs (cpu_priority_group (cpus s c)) - 1)
      in if highest_ready_priority < local_highest_ready_priority
         then map_option (\<lambda>t. (t, highest_ready_priority))
                (first_of (tq s (ReadyQ (unat highest_ready_priority))))
         else map_option (\<lambda>t. (t, local_highest_ready_priority))
                (first_of (tq s (CpuReadyQ c (unat local_highest_ready_priority)))))"

text \<open>A detected stack overflow ends in an endless loop; the warning only prints.\<close>

definition rt_scheduler_stack_check :: "rt_thread \<Rightarrow> unit option" where
  "rt_scheduler_stack_check th =
     (if th_stack_guard th \<noteq> 35 \<or> th_sp th \<le> th_stack_addr th \<or>
         th_sp th > th_stack_addr th + ucast (th_stack_size th)
      then None else Some ())"

subsection \<open>Scheduling\<close>

text \<open>
  The choice of the next thread, the same code in \<^verbatim>\<open>rt_schedule\<close> and
  \<^verbatim>\<open>rt_scheduler_do_irq_switch\<close>.
\<close>

definition schedule_select :: "nat \<Rightarrow> tid \<Rightarrow> kernel \<Rightarrow> (tid \<times> u64 \<times> kernel) option" where
  "schedule_select c cur s =
     do { (hi, prio) \<leftarrow> get_highest_priority_thread c s;
          let s1 = upd_thread cur (\<lambda>th. th\<lparr>th_oncpu := RT_CPU_DETACHED\<rparr>) s;
          let th = threads s1 cur;
          let (to, s2) =
            (if stat_of th = RT_THREAD_RUNNING
             then let (to, s') =
                    (if ucast (th_current_priority th) < prio then (cur, s1)
                     else if ucast (th_current_priority th) = prio \<and> th_stat th AND RT_THREAD_STAT_YIELD = 0
                     then (cur, s1)
                     else (hi, rt_schedule_insert_thread c cur s1))
                  in (to, upd_thread cur (\<lambda>th. th\<lparr>th_stat := th_stat th AND NOT RT_THREAD_STAT_YIELD\<rparr>) s')
             else (hi, s1));
          Some (to, prio, upd_thread to (\<lambda>th. th\<lparr>th_oncpu := of_nat c\<rparr>) s2) }"

definition rt_schedule :: "nat \<Rightarrow> kernel \<Rightarrow> kernel option" where
  "rt_schedule c s0 =
     do { s \<leftarrow> rt_cpus_lock c s0;
          if cpu_irq_nest (cpus s c) \<noteq> 0
          then Some (rt_cpus_unlock c (upd_cpu c (\<lambda>cpu. cpu\<lparr>cpu_irq_switch_flag := 1\<rparr>) s))
          else do {
            current_thread \<leftarrow> cpu_current_thread (cpus s c);
            if th_scheduler_lock_nest (threads s current_thread) = 1 \<and>
               (ready_priority_group s \<noteq> 0 \<or> cpu_priority_group (cpus s c) \<noteq> 0)
            then do {
              (to_thread, prio, s1) \<leftarrow> schedule_select c current_thread s;
              if to_thread \<noteq> current_thread
              then do {
                let s2 = upd_cpu c (\<lambda>cpu. cpu\<lparr>cpu_current_priority := ucast prio\<rparr>) s1;
                let s3 = upd_thread to_thread (set_stat RT_THREAD_RUNNING)
                           (rt_schedule_remove_thread to_thread s2);
                rt_scheduler_stack_check (threads s3 to_thread);
                Some (rt_hw_context_switch c to_thread s3) }
              else Some (rt_cpus_unlock c s1) }
            else Some (rt_cpus_unlock c s) } }"

definition rt_scheduler_ipi_handler :: "nat \<Rightarrow> kernel \<Rightarrow> kernel option" where
  "rt_scheduler_ipi_handler c s = rt_schedule c s"

definition rt_scheduler_do_irq_switch :: "nat \<Rightarrow> kernel \<Rightarrow> kernel option" where
  "rt_scheduler_do_irq_switch c s0 =
     do { s \<leftarrow> rt_cpus_lock c s0;
          if cpu_irq_switch_flag (cpus s c) = 0 then Some (rt_cpus_unlock c s)
          else do {
            current_thread \<leftarrow> cpu_current_thread (cpus s c);
            if th_scheduler_lock_nest (threads s current_thread) = 1 \<and> cpu_irq_nest (cpus s c) = 0
            then do {
              let s' = upd_cpu c (\<lambda>cpu. cpu\<lparr>cpu_irq_switch_flag := 0\<rparr>) s;
              if ready_priority_group s' \<noteq> 0 \<or> cpu_priority_group (cpus s' c) \<noteq> 0
              then do {
                (to_thread, prio, s1) \<leftarrow> schedule_select c current_thread s';
                if to_thread \<noteq> current_thread
                then do {
                  let s2 = upd_cpu c (\<lambda>cpu. cpu\<lparr>cpu_current_priority := ucast prio\<rparr>) s1;
                  let s3 = upd_thread to_thread (set_stat RT_THREAD_RUNNING)
                             (rt_schedule_remove_thread to_thread s2);
                  rt_scheduler_stack_check (threads s3 to_thread);
                  let s4 = upd_thread current_thread
                             (\<lambda>th. th\<lparr>th_cpus_lock_nest := th_cpus_lock_nest th - 1,
                                     th_scheduler_lock_nest := th_scheduler_lock_nest th - 1\<rparr>) s3;
                  Some (rt_hw_context_switch c to_thread s4) }
                else Some (rt_cpus_unlock c s1) }
              else Some (rt_cpus_unlock c s') }
            else Some (rt_cpus_unlock c s) } }"

definition rt_system_scheduler_init :: "kernel \<Rightarrow> kernel" where
  "rt_system_scheduler_init s =
     s\<lparr>tq := (\<lambda>k. case k of
                  ReadyQ p \<Rightarrow> if p < RT_THREAD_PRIORITY_MAX then [] else tq s k
                | CpuReadyQ c p \<Rightarrow> if c < RT_CPUS_NR \<and> p < RT_THREAD_PRIORITY_MAX then [] else tq s k
                | DefunctQ \<Rightarrow> []
                | _ \<Rightarrow> tq s k),
       cpus := (\<lambda>c. if c < RT_CPUS_NR
                   then (cpus s c)\<lparr>cpu_irq_switch_flag := 0,
                                   cpu_current_priority := of_nat (RT_THREAD_PRIORITY_MAX - 1),
                                   cpu_current_thread := None, cpu_priority_group := 0\<rparr>
                   else cpus s c),
       ready_priority_group := 0\<rparr>"

definition rt_system_scheduler_start :: "nat \<Rightarrow> kernel \<Rightarrow> kernel option" where
  "rt_system_scheduler_start c s =
     do { (to_thread, prio) \<leftarrow> get_highest_priority_thread c s;
          let s1 = rt_schedule_remove_thread to_thread
                     (upd_thread to_thread (\<lambda>th. th\<lparr>th_oncpu := of_nat c\<rparr>) s);
          Some (rt_hw_context_switch c to_thread
                  (upd_thread to_thread (\<lambda>th. th\<lparr>th_stat := RT_THREAD_RUNNING\<rparr>) s1)) }"

subsection \<open>Critical sections\<close>

definition rt_enter_critical :: "nat \<Rightarrow> kernel \<Rightarrow> kernel option" where
  "rt_enter_critical c s =
     (case cpu_current_thread (cpus s c) of
        None \<Rightarrow> Some s
      | Some t \<Rightarrow>
          do { s2 \<leftarrow> rt_cpus_lock c s;
               Some (upd_thread t (\<lambda>th. th\<lparr>th_critical_lock_nest := th_critical_lock_nest th + 1,
                                          th_scheduler_lock_nest := th_scheduler_lock_nest th + 1\<rparr>) s2) })"

definition rt_exit_critical :: "nat \<Rightarrow> kernel \<Rightarrow> kernel option" where
  "rt_exit_critical c s =
     (case cpu_current_thread (cpus s c) of
        None \<Rightarrow> Some s
      | Some t \<Rightarrow>
          let s1 = upd_thread t (\<lambda>th. th\<lparr>th_scheduler_lock_nest := th_scheduler_lock_nest th - 1,
                                        th_critical_lock_nest := th_critical_lock_nest th - 1\<rparr>) s;
              s2 = rt_cpus_unlock c s1
          in if th_scheduler_lock_nest (threads s2 t) \<le> 0
             then rt_schedule c (upd_thread t (\<lambda>th. th\<lparr>th_scheduler_lock_nest := 0\<rparr>) s2)
             else Some s2)"

definition rt_preempt_disable :: "nat \<Rightarrow> kernel \<Rightarrow> kernel" where
  "rt_preempt_disable c s =
     (case cpu_current_thread (cpus s c) of
        None \<Rightarrow> s
      | Some t \<Rightarrow> upd_thread t (\<lambda>th. th\<lparr>th_scheduler_lock_nest := th_scheduler_lock_nest th + 1\<rparr>) s)"

definition rt_preempt_enable :: "nat \<Rightarrow> kernel \<Rightarrow> kernel option" where
  "rt_preempt_enable c s =
     (case cpu_current_thread (cpus s c) of
        None \<Rightarrow> Some s
      | Some t \<Rightarrow>
          rt_schedule c (upd_thread t (\<lambda>th. th\<lparr>th_scheduler_lock_nest := th_scheduler_lock_nest th - 1\<rparr>) s))"

subsection \<open>Invariant of the ready queues\<close>

fun is_ready :: "qid \<Rightarrow> bool" where
  "is_ready (ReadyQ p) = True"
| "is_ready (CpuReadyQ c p) = True"
| "is_ready _ = False"

fun q_stat :: "qid \<Rightarrow> u8" where
  "q_stat (ReadyQ p) = RT_THREAD_READY"
| "q_stat (CpuReadyQ c p) = RT_THREAD_READY"
| "q_stat (SuspendQ i) = RT_THREAD_SUSPEND"
| "q_stat (SenderQ i) = RT_THREAD_SUSPEND"
| "q_stat DefunctQ = RT_THREAD_CLOSE"

definition ready_key :: "rt_thread \<Rightarrow> qid" where
  "ready_key th = (if th_bind_cpu th = RT_CPUS_NR then ReadyQ (unat (th_current_priority th))
                   else CpuReadyQ (unat (th_bind_cpu th)) (unat (th_current_priority th)))"

definition thread_ok :: "rt_thread \<Rightarrow> bool" where
  "thread_ok th \<longleftrightarrow> th_current_priority th < 32 \<and> th_bind_cpu th \<le> 2 \<and>
     th_number_mask th = push_bit (unat (th_current_priority th)) 1"

definition groups_ok :: "(qid \<Rightarrow> tid list) \<Rightarrow> u32 \<Rightarrow> (nat \<Rightarrow> u32) \<Rightarrow> bool" where
  "groups_ok Q g cg \<longleftrightarrow>
     (\<forall>p. Q (ReadyQ p) \<noteq> [] \<longleftrightarrow> bit g p) \<and> (\<forall>c p. Q (CpuReadyQ c p) \<noteq> [] \<longleftrightarrow> c < 2 \<and> bit (cg c) p)"

definition queued_ok :: "(qid \<Rightarrow> tid list) \<Rightarrow> (tid \<Rightarrow> rt_thread) \<Rightarrow> bool" where
  "queued_ok Q T \<longleftrightarrow> (\<forall>k t. t \<in> set (Q k) \<longrightarrow> stat_of (T t) = q_stat k \<and>
     (is_ready k \<longrightarrow> k = ready_key (T t) \<and> thread_ok (T t) \<and> th_oncpu (T t) = RT_CPU_DETACHED))"

text \<open>
  \<open>rq_ok X s\<close>: the lists are disjoint; a group bit is set exactly for a non-empty list; a
  thread in a list has the status that belongs to it and, in a ready list, the list's
  priority and binding; and every READY thread, those of \<open>X\<close> apart, is in its ready list.
\<close>

definition rq_ok :: "tid set \<Rightarrow> kernel \<Rightarrow> bool" where
  "rq_ok X s \<longleftrightarrow> q_ok (tq s) \<and>
     groups_ok (tq s) (ready_priority_group s) (\<lambda>c. cpu_priority_group (cpus s c)) \<and>
     queued_ok (tq s) (threads s) \<and>
     (\<forall>t. stat_of (threads s t) = RT_THREAD_READY \<and> t \<notin> X \<longrightarrow> t \<in> set (tq s (ready_key (threads s t))))"

text \<open>
  The harts: a thread is the current thread of a hart exactly if its \<^verbatim>\<open>oncpu\<close> names the
  hart, a RUNNING thread is on a hart, and current threads are well formed.
\<close>

definition cpu_ok :: "kernel \<Rightarrow> bool" where
  "cpu_ok s \<longleftrightarrow>
     (\<forall>c<2. \<forall>t. cpu_current_thread (cpus s c) = Some t \<longleftrightarrow> th_oncpu (threads s t) = of_nat c) \<and>
     (\<forall>t. th_oncpu (threads s t) \<le> 2) \<and>
     (\<forall>t. stat_of (threads s t) = RT_THREAD_RUNNING \<longrightarrow> th_oncpu (threads s t) \<noteq> 2) \<and>
     (\<forall>t. th_oncpu (threads s t) \<noteq> 2 \<longrightarrow> thread_ok (threads s t))"

definition sched_ok :: "kernel \<Rightarrow> bool" where
  "sched_ok s \<longleftrightarrow> rq_ok {} s \<and> cpu_ok s"

lemma q_stat_ready: "is_ready k \<longleftrightarrow> q_stat k = RT_THREAD_READY"
  by (cases k) auto

lemma is_ready_key [simp]: "is_ready (ready_key th)"
  by (simp add: ready_key_def)

lemma q_stat_key [simp]: "q_stat (ready_key th) = RT_THREAD_READY"
  by (simp add: ready_key_def)

lemma ready_key_set_stat [simp]: "ready_key (set_stat st th) = ready_key th"
  by (simp add: ready_key_def)

lemma thread_ok_set_stat [simp]: "thread_ok (set_stat st th) = thread_ok th"
  by (simp add: thread_ok_def)

lemma bit_prio_mask: "p < 32 \<Longrightarrow> bit (push_bit p 1 :: u32) q \<longleftrightarrow> q = p"
  by (auto simp: push_bit_eq_mult bit_exp_iff)

lemma prio_less: "thread_ok th \<Longrightarrow> unat (th_current_priority th) < 32"
  by (simp add: thread_ok_def word_less_nat_alt)

lemma bit_number_mask: "thread_ok th \<Longrightarrow> bit (th_number_mask th) q \<longleftrightarrow> q = unat (th_current_priority th)"
  using prio_less [of th] bit_prio_mask by (simp add: thread_ok_def)

lemma bind_less: "thread_ok th \<Longrightarrow> th_bind_cpu th \<noteq> 2 \<Longrightarrow> unat (th_bind_cpu th) < 2"
  by (simp add: thread_ok_def word_le_nat_alt word_unat_eq_iff)

subsubsection \<open>Effect of insertion and removal\<close>

lemma insert_running:
  "th_oncpu (threads s t) \<noteq> 2 \<Longrightarrow> rt_schedule_insert_thread c t s = upd_thread t (set_stat 3) s"
  by (simp add: rt_schedule_insert_thread_def)

lemma ipi_send_sel [simp]:
  "threads (rt_hw_ipi_send m s) = threads s" "cpus (rt_hw_ipi_send m s) = cpus s"
  "tq (rt_hw_ipi_send m s) = tq s" "ready_priority_group (rt_hw_ipi_send m s) = ready_priority_group s"
  "cpus_lock (rt_hw_ipi_send m s) = cpus_lock s" "timers (rt_hw_ipi_send m s) = timers s"
  "tml (rt_hw_ipi_send m s) = tml s" "sems (rt_hw_ipi_send m s) = sems s"
  "mutexes (rt_hw_ipi_send m s) = mutexes s" "events (rt_hw_ipi_send m s) = events s"
  "mailboxes (rt_hw_ipi_send m s) = mailboxes s" "mqueues (rt_hw_ipi_send m s) = mqueues s"
  by (simp_all add: rt_hw_ipi_send_def)

lemma insert_frame [simp]:
  "cpus_lock (rt_schedule_insert_thread c t s) = cpus_lock s"
  "timers (rt_schedule_insert_thread c t s) = timers s" "tml (rt_schedule_insert_thread c t s) = tml s"
  "sems (rt_schedule_insert_thread c t s) = sems s" "mutexes (rt_schedule_insert_thread c t s) = mutexes s"
  "events (rt_schedule_insert_thread c t s) = events s"
  "mailboxes (rt_schedule_insert_thread c t s) = mailboxes s"
  "mqueues (rt_schedule_insert_thread c t s) = mqueues s"
  "cpu_current_thread (cpus (rt_schedule_insert_thread c t s) d) = cpu_current_thread (cpus s d)"
  "cpu_irq_nest (cpus (rt_schedule_insert_thread c t s) d) = cpu_irq_nest (cpus s d)"
  "cpu_irq_switch_flag (cpus (rt_schedule_insert_thread c t s) d) = cpu_irq_switch_flag (cpus s d)"
  "cpu_tick (cpus (rt_schedule_insert_thread c t s) d) = cpu_tick (cpus s d)"
  by (simp_all add: rt_schedule_insert_thread_def Let_def)

lemma insert_threads:
  "threads (rt_schedule_insert_thread c t s) =
     (threads s)(t := set_stat (if th_oncpu (threads s t) = 2 then 1 else 3) (threads s t))"
  by (simp add: rt_schedule_insert_thread_def Let_def)

lemma insert_detached:
  assumes "th_oncpu (threads s t) = 2"
  shows "tq (rt_schedule_insert_thread c t s) = q_tail (ready_key (threads s t)) t (tq s)"
    "ready_priority_group (rt_schedule_insert_thread c t s) =
       (if th_bind_cpu (threads s t) = 2 then ready_priority_group s OR th_number_mask (threads s t)
        else ready_priority_group s)"
    "cpu_priority_group (cpus (rt_schedule_insert_thread c t s) d) =
       (if th_bind_cpu (threads s t) \<noteq> 2 \<and> d = unat (th_bind_cpu (threads s t))
        then cpu_priority_group (cpus s d) OR th_number_mask (threads s t)
        else cpu_priority_group (cpus s d))"
  using assms by (simp_all add: rt_schedule_insert_thread_def Let_def ready_key_def)

lemma remove_frame [simp]:
  "threads (rt_schedule_remove_thread t s) = threads s"
  "tq (rt_schedule_remove_thread t s) = q_remove t (tq s)"
  "cpus_lock (rt_schedule_remove_thread t s) = cpus_lock s"
  "timers (rt_schedule_remove_thread t s) = timers s" "tml (rt_schedule_remove_thread t s) = tml s"
  "sems (rt_schedule_remove_thread t s) = sems s" "mutexes (rt_schedule_remove_thread t s) = mutexes s"
  "events (rt_schedule_remove_thread t s) = events s" "ipi (rt_schedule_remove_thread t s) = ipi s"
  "mailboxes (rt_schedule_remove_thread t s) = mailboxes s"
  "mqueues (rt_schedule_remove_thread t s) = mqueues s"
  "cpu_current_thread (cpus (rt_schedule_remove_thread t s) d) = cpu_current_thread (cpus s d)"
  "cpu_irq_nest (cpus (rt_schedule_remove_thread t s) d) = cpu_irq_nest (cpus s d)"
  "cpu_irq_switch_flag (cpus (rt_schedule_remove_thread t s) d) = cpu_irq_switch_flag (cpus s d)"
  "cpu_tick (cpus (rt_schedule_remove_thread t s) d) = cpu_tick (cpus s d)"
  by (simp_all add: rt_schedule_remove_thread_def Let_def)

lemma remove_groups:
  "ready_priority_group (rt_schedule_remove_thread t s) =
     (if th_bind_cpu (threads s t) = 2 \<and> q_remove t (tq s) (ready_key (threads s t)) = []
      then ready_priority_group s AND NOT (th_number_mask (threads s t)) else ready_priority_group s)"
  "cpu_priority_group (cpus (rt_schedule_remove_thread t s) d) =
     (if th_bind_cpu (threads s t) \<noteq> 2 \<and> d = unat (th_bind_cpu (threads s t)) \<and>
         q_remove t (tq s) (ready_key (threads s t)) = []
      then cpu_priority_group (cpus s d) AND NOT (th_number_mask (threads s t))
      else cpu_priority_group (cpus s d))"
  by (simp_all add: rt_schedule_remove_thread_def Let_def ready_key_def)

subsubsection \<open>Preservation\<close>

lemma groups_ok_insert:
  assumes "groups_ok Q g cg" "thread_ok th"
  shows "groups_ok (q_tail (ready_key th) t Q)
     (if th_bind_cpu th = 2 then g OR th_number_mask th else g)
     (\<lambda>d. if th_bind_cpu th \<noteq> 2 \<and> d = unat (th_bind_cpu th) then cg d OR th_number_mask th else cg d)"
  using assms bit_number_mask [OF assms(2)] bind_less [OF assms(2)]
  by (auto simp: groups_ok_def q_tail_def ready_key_def bit_or_iff)

lemma groups_ok_remove:
  assumes g: "groups_ok Q g cg" and ok: "thread_ok th" and q: "q_ok Q"
    and in_key: "\<And>k. t \<in> set (Q k) \<Longrightarrow> is_ready k \<Longrightarrow> k = ready_key th"
  shows "groups_ok (q_remove t Q)
     (if th_bind_cpu th = 2 \<and> q_remove t Q (ready_key th) = [] then g AND NOT (th_number_mask th) else g)
     (\<lambda>d. if th_bind_cpu th \<noteq> 2 \<and> d = unat (th_bind_cpu th) \<and> q_remove t Q (ready_key th) = []
          then cg d AND NOT (th_number_mask th) else cg d)"
proof -
  have other: "q_remove t Q k = Q k" if "is_ready k" "k \<noteq> ready_key th" for k
    unfolding q_remove_def by (rule removeAll_id) (use that in_key [of k] in blast)
  have sub: "q_remove t Q k \<noteq> [] \<Longrightarrow> Q k \<noteq> []" for k by (auto simp: q_remove_def)
  have len: "bit (w :: u32) p \<Longrightarrow> p < 32" for w p by (drule bit_imp_le_length) simp
  have clear: "bit (if C then w AND NOT (th_number_mask th) else w) p \<longleftrightarrow>
      bit w p \<and> \<not> (C \<and> p = unat (th_current_priority th))" for C p and w :: u32
    using bit_number_mask [OF ok, of p] len [of w p] by (simp add: bit_and_iff bit_not_iff) blast
  show ?thesis
    unfolding groups_ok_def clear
  proof (intro conjI allI)
    fix p
    have key: "ReadyQ p = ready_key th \<longleftrightarrow> th_bind_cpu th = 2 \<and> p = unat (th_current_priority th)"
      by (auto simp: ready_key_def)
    have "Q (ReadyQ p) \<noteq> [] \<longleftrightarrow> bit g p" using g by (simp add: groups_ok_def)
    then show "q_remove t Q (ReadyQ p) \<noteq> [] \<longleftrightarrow> bit g p \<and>
        \<not> ((th_bind_cpu th = 2 \<and> q_remove t Q (ready_key th) = []) \<and> p = unat (th_current_priority th))"
      using other [of "ReadyQ p"] sub [of "ReadyQ p"] key
      by (cases "ReadyQ p = ready_key th") auto
  next
    fix c p
    have key: "CpuReadyQ c p = ready_key th \<longleftrightarrow>
        th_bind_cpu th \<noteq> 2 \<and> c = unat (th_bind_cpu th) \<and> p = unat (th_current_priority th)"
      by (auto simp: ready_key_def)
    have "Q (CpuReadyQ c p) \<noteq> [] \<longleftrightarrow> c < 2 \<and> bit (cg c) p" using g by (simp add: groups_ok_def)
    then show "q_remove t Q (CpuReadyQ c p) \<noteq> [] \<longleftrightarrow> c < 2 \<and> bit (cg c) p \<and>
        \<not> ((th_bind_cpu th \<noteq> 2 \<and> c = unat (th_bind_cpu th) \<and> q_remove t Q (ready_key th) = []) \<and>
           p = unat (th_current_priority th))"
      using other [of "CpuReadyQ c p"] sub [of "CpuReadyQ c p"] key
      by (cases "CpuReadyQ c p = ready_key th") (simp_all, blast)
  qed
qed

lemma rq_ok_insert:
  assumes "rq_ok X s" "\<And>k. t \<notin> set (tq s k)" "thread_ok (threads s t)" "th_oncpu (threads s t) = 2"
  shows "rq_ok (X - {t}) (rt_schedule_insert_thread c t s)"
proof -
  let ?th = "threads s t"
  have "queued_ok (q_tail (ready_key ?th) t (tq s)) ((threads s)(t := set_stat 1 ?th))"
    using assms by (auto simp: queued_ok_def rq_ok_def q_tail_def)
  moreover have "groups_ok (q_tail (ready_key ?th) t (tq s))
     (if th_bind_cpu ?th = 2 then ready_priority_group s OR th_number_mask ?th else ready_priority_group s)
     (\<lambda>d. if th_bind_cpu ?th \<noteq> 2 \<and> d = unat (th_bind_cpu ?th)
          then cpu_priority_group (cpus s d) OR th_number_mask ?th else cpu_priority_group (cpus s d))"
    using assms(1,3) groups_ok_insert by (simp add: rq_ok_def)
  moreover have "q_ok (q_tail (ready_key ?th) t (tq s))"
    using assms(1,2) by (simp add: rq_ok_def q_ok_tail)
  ultimately show ?thesis
    using assms(1,4) unfolding rq_ok_def insert_detached [OF assms(4)] insert_threads
    by (auto simp: q_tail_def)
qed

lemma rq_ok_remove:
  assumes "rq_ok X s" "thread_ok (threads s t)"
  shows "rq_ok (insert t X) (rt_schedule_remove_thread t s)"
proof -
  have "groups_ok (tq (rt_schedule_remove_thread t s)) (ready_priority_group (rt_schedule_remove_thread t s))
     (\<lambda>d. cpu_priority_group (cpus (rt_schedule_remove_thread t s) d))"
    unfolding remove_groups remove_frame
    by (rule groups_ok_remove) (use assms in \<open>auto simp: rq_ok_def queued_ok_def\<close>)
  moreover have "queued_ok (q_remove t (tq s)) (threads s)"
    using assms(1) by (auto simp: rq_ok_def queued_ok_def)
  ultimately show ?thesis using assms(1) by (auto simp: rq_ok_def q_ok_remove)
qed

text \<open>A change of a thread that is in no list, to a status other than READY.\<close>

lemma rq_ok_upd_free:
  assumes "rq_ok X s" "\<And>k. t \<notin> set (tq s k)" "stat_of (f (threads s t)) \<noteq> 1"
  shows "rq_ok (X - {t}) (upd_thread t f s)"
  using assms by (auto simp: rq_ok_def queued_ok_def)

text \<open>A change that keeps what the invariant reads of the thread.\<close>

lemma rq_ok_upd_same:
  assumes "rq_ok X s" "stat_of (f (threads s t)) = stat_of (threads s t)"
    "th_current_priority (f (threads s t)) = th_current_priority (threads s t)"
    "th_bind_cpu (f (threads s t)) = th_bind_cpu (threads s t)"
    "th_number_mask (f (threads s t)) = th_number_mask (threads s t)"
    "th_oncpu (f (threads s t)) = th_oncpu (threads s t)"
  shows "rq_ok X (upd_thread t f s)"
proof -
  have "ready_key (f (threads s t)) = ready_key (threads s t)"
    "thread_ok (f (threads s t)) = thread_ok (threads s t)"
    using assms by (simp_all add: ready_key_def thread_ok_def)
  then show ?thesis using assms by (auto simp: rq_ok_def queued_ok_def)
qed

lemma rq_ok_cong:
  assumes "rq_ok X s" "tq s' = tq s" "threads s' = threads s" "ready_priority_group s' = ready_priority_group s"
    "\<And>c. cpu_priority_group (cpus s' c) = cpu_priority_group (cpus s c)"
  shows "rq_ok X s'"
  using assms by (simp add: rq_ok_def)

lemma rq_ok_mono: "rq_ok X s \<Longrightarrow> X \<subseteq> Y \<Longrightarrow> rq_ok Y s"
  by (auto simp: rq_ok_def)

subsection \<open>Lock nesting\<close>

text \<open>
  What the lock counters of a thread that is not running can be: zero, or the state in
  which it entered the switch inside \<^verbatim>\<open>rt_schedule\<close>.
\<close>

definition nest_ok :: "rt_thread \<Rightarrow> bool" where
  "nest_ok th \<longleftrightarrow> th_scheduler_lock_nest th = (if th_cpus_lock_nest th = 0 then 0 else 1)"

lemma rt_cpus_lock_free:
  assumes "cpu_current_thread (cpus s c) = Some t" "th_cpus_lock_nest (threads s t) = 0" "cpus_lock s = None"
  shows "rt_cpus_lock c s = Some (upd_thread t (\<lambda>th. th\<lparr>th_cpus_lock_nest := 1,
     th_scheduler_lock_nest := th_scheduler_lock_nest th + 1\<rparr>) (s\<lparr>cpus_lock := Some c\<rparr>))"
  using assms by (simp add: rt_cpus_lock_def rt_hw_spin_lock_def upd_thread_def)

lemma rt_cpus_lock_nested:
  assumes "cpu_current_thread (cpus s c) = Some t" "th_cpus_lock_nest (threads s t) \<noteq> 0"
  shows "rt_cpus_lock c s = Some (upd_thread t (\<lambda>th. th\<lparr>th_cpus_lock_nest := th_cpus_lock_nest th + 1\<rparr>) s)"
  using assms by (simp add: rt_cpus_lock_def)

lemma cpus_lock_nest_id: "th_cpus_lock_nest th = n \<Longrightarrow> th\<lparr>th_cpus_lock_nest := n\<rparr> = th"
  by (cases th) simp

lemma cpus_lock_id: "cpus_lock s = l \<Longrightarrow> s\<lparr>threads := threads s, cpus_lock := l\<rparr> = s"
  by (cases s) simp

lemma rt_cpus_unlock_lock:
  assumes "rt_cpus_lock c s = Some s'"
    "\<And>t. cpu_current_thread (cpus s c) = Some t \<Longrightarrow> th_cpus_lock_nest (threads s t) \<noteq> -1"
  shows "rt_cpus_unlock c s' = s"
proof (cases "cpu_current_thread (cpus s c)")
  case (Some t)
  then have "th_cpus_lock_nest (threads s t) + 1 \<noteq> 0"
    using assms(2) by (metis add.inverse_unique add.commute)
  then show ?thesis using assms(1) Some
    by (auto simp: cpus_lock_nest_id cpus_lock_id rt_cpus_lock_def rt_cpus_unlock_def rt_hw_spin_lock_def rt_hw_spin_unlock_def
        upd_thread_def Let_def split: if_splits)
qed (use assms in \<open>simp add: rt_cpus_lock_def rt_cpus_unlock_def\<close>)

lemma rt_cpus_unlock_last:
  assumes "cpu_current_thread (cpus s c) = Some t" "th_cpus_lock_nest (threads s t) = 1"
  shows "rt_cpus_unlock c s = rt_hw_spin_unlock (upd_thread t (\<lambda>th. th\<lparr>th_cpus_lock_nest := 0,
     th_scheduler_lock_nest := th_scheduler_lock_nest th - 1\<rparr>) s)"
  using assms by (simp add: rt_cpus_unlock_def upd_thread_def)

lemma rt_cpus_unlock_nested:
  assumes "cpu_current_thread (cpus s c) = Some t" "th_cpus_lock_nest (threads s t) \<noteq> 1"
  shows "rt_cpus_unlock c s = upd_thread t (\<lambda>th. th\<lparr>th_cpus_lock_nest := th_cpus_lock_nest th - 1\<rparr>) s"
  using assms by (simp add: rt_cpus_unlock_def)

lemma spin_unlock_sel [simp]:
  "threads (rt_hw_spin_unlock s) = threads s" "cpus (rt_hw_spin_unlock s) = cpus s"
  "tq (rt_hw_spin_unlock s) = tq s" "ready_priority_group (rt_hw_spin_unlock s) = ready_priority_group s"
  "cpus_lock (rt_hw_spin_unlock s) = None" "timers (rt_hw_spin_unlock s) = timers s"
  "tml (rt_hw_spin_unlock s) = tml s" "ipi (rt_hw_spin_unlock s) = ipi s"
  "sems (rt_hw_spin_unlock s) = sems s" "mutexes (rt_hw_spin_unlock s) = mutexes s"
  "events (rt_hw_spin_unlock s) = events s" "mailboxes (rt_hw_spin_unlock s) = mailboxes s"
  "mqueues (rt_hw_spin_unlock s) = mqueues s"
  by (simp_all add: rt_hw_spin_unlock_def)

lemma unlock_iter:
  assumes "cpu_current_thread (cpus s c) = Some t" "th_cpus_lock_nest (threads s t) = of_nat (Suc n)"
    "Suc n < 65536"
  shows "(rt_cpus_unlock c ^^ Suc n) s = rt_hw_spin_unlock (upd_thread t (\<lambda>th. th\<lparr>th_cpus_lock_nest := 0,
     th_scheduler_lock_nest := th_scheduler_lock_nest th - 1\<rparr>) s)"
  using assms
proof (induction n arbitrary: s)
  case 0
  then show ?case by (simp add: rt_cpus_unlock_last)
next
  case (Suc n)
  have "th_cpus_lock_nest (threads s t) \<noteq> 1"
  proof
    assume "th_cpus_lock_nest (threads s t) = 1"
    then have "unat (of_nat (Suc (Suc n)) :: u16) = 1" using Suc.prems(2) by (metis unat_1)
    then show False using Suc.prems(3) by (simp add: unsigned_of_nat take_bit_nat_eq_self_iff del: of_nat_Suc)
        (simp add: take_bit_nat_eq_self)
  qed
  then have s: "rt_cpus_unlock c s = upd_thread t (\<lambda>th. th\<lparr>th_cpus_lock_nest := th_cpus_lock_nest th - 1\<rparr>) s"
    using Suc.prems(1) by (rule rt_cpus_unlock_nested [rotated])
  have "(rt_cpus_unlock c ^^ Suc (Suc n)) s = (rt_cpus_unlock c ^^ Suc n) (rt_cpus_unlock c s)"
    by (simp only: funpow_Suc_right o_apply)
  also have "\<dots> = rt_hw_spin_unlock (upd_thread t (\<lambda>th. th\<lparr>th_cpus_lock_nest := 0,
     th_scheduler_lock_nest := th_scheduler_lock_nest th - 1\<rparr>) (rt_cpus_unlock c s))"
    by (rule Suc.IH) (use Suc.prems in \<open>simp_all add: s\<close>)
  finally show ?case by (simp add: s upd_thread_def)
qed

text \<open>After a switch the counters of the thread switched to are zero and the lock is free.\<close>

lemma rt_hw_context_switch_eq:
  assumes "nest_ok (threads s t)"
  shows "rt_hw_context_switch c t s = rt_hw_spin_unlock
     (upd_thread t (\<lambda>th. th\<lparr>th_cpus_lock_nest := 0, th_scheduler_lock_nest := 0\<rparr>)
       (upd_cpu c (\<lambda>cpu. cpu\<lparr>cpu_current_thread := Some t\<rparr>) s))"
proof (cases "unat (th_cpus_lock_nest (threads s t))")
  case 0
  then have "th_cpus_lock_nest (threads s t) = 0" by (simp add: unat_eq_0)
  moreover have "threads s = (threads s)(t := threads s t\<lparr>th_cpus_lock_nest := 0, th_scheduler_lock_nest := 0\<rparr>)"
    using assms calculation by (auto simp: nest_ok_def)
  ultimately show ?thesis
    by (simp add: rt_hw_context_switch_def rt_cpus_lock_status_restore_def upd_thread_def upd_cpu_def)
next
  case (Suc n)
  let ?s = "upd_cpu c (\<lambda>cpu. cpu\<lparr>cpu_current_thread := Some t\<rparr>) s"
  have n: "th_cpus_lock_nest (threads s t) = of_nat (Suc n)" using Suc by (metis of_nat_unat ucast_id)
  have "Suc n < 65536" using unsigned_less [of "th_cpus_lock_nest (threads s t)", where ?'a = nat] Suc by simp
  then have "(rt_cpus_unlock c ^^ Suc n) ?s = rt_hw_spin_unlock (upd_thread t (\<lambda>th. th\<lparr>th_cpus_lock_nest := 0,
     th_scheduler_lock_nest := th_scheduler_lock_nest th - 1\<rparr>) ?s)"
    by (intro unlock_iter) (use n in simp_all)
  moreover have "th_cpus_lock_nest (threads s t) \<noteq> 0" using Suc by auto
  ultimately show ?thesis using assms Suc
    by (simp add: rt_hw_context_switch_def rt_cpus_lock_status_restore_def nest_ok_def upd_thread_def upd_cpu_def)
qed

subsection \<open>Choosing the next thread\<close>

definition eligible :: "nat \<Rightarrow> kernel \<Rightarrow> tid \<Rightarrow> bool" where
  "eligible c s t \<longleftrightarrow> stat_of (threads s t) = RT_THREAD_READY \<and>
     (th_bind_cpu (threads s t) = RT_CPUS_NR \<or> th_bind_cpu (threads s t) = of_nat c)"

lemma ffs_prio:
  assumes "v \<noteq> 0"
  shows "\<exists>p<32. word_of_int (rt_ffs v - 1) = (of_nat p :: u64) \<and> unat (of_nat p :: u64) = p \<and>
     bit v p \<and> (\<forall>j. bit v j \<longrightarrow> p \<le> j)"
proof -
  obtain p where p: "rt_ffs v = int p + 1" "is_ffs v p" using rt_ffs_pos [OF assms] by blast
  then have "p < 32" by (simp add: is_ffs_def)
  moreover have "unat (of_nat p :: u64) = p"
    using \<open>p < 32\<close> by (simp add: unsigned_of_nat take_bit_nat_eq_self)
  ultimately show ?thesis using p by (intro exI [of _ p]) (auto simp: is_ffs_def not_less [symmetric])
qed

lemma unat_small_u64: "p < 32 \<Longrightarrow> unat (of_nat p :: u64) = p"
  by (simp add: unsigned_of_nat take_bit_nat_eq_self)

lemma small_not_max: "p < 32 \<Longrightarrow> (of_nat p :: u64) \<noteq> -1"
proof
  assume p: "p < 32" and eq: "(of_nat p :: u64) = -1"
  have "unat (-1 :: u64) = p" using unat_small_u64 [OF p] unfolding eq .
  then show False using p by (simp add: unsigned_minus_1_eq_mask mask_eq_exp_minus_1)
qed

lemma get_highest_spec:
  assumes rq: "rq_ok {} s" and c: "c < 2"
    and ne: "ready_priority_group s \<noteq> 0 \<or> cpu_priority_group (cpus s c) \<noteq> 0"
  obtains hi p where "get_highest_priority_thread c s = Some (hi, of_nat p)" "p < 32"
    "eligible c s hi" "unat (th_current_priority (threads s hi)) = p" "hi \<in> set (tq s (ready_key (threads s hi)))"
    "\<And>t. eligible c s t \<Longrightarrow> p \<le> unat (th_current_priority (threads s t))"
proof -
  let ?g = "ready_priority_group s" and ?l = "cpu_priority_group (cpus s c)"
  define P L :: u64 where PL: "P = word_of_int (rt_ffs ?g - 1)" "L = word_of_int (rt_ffs ?l - 1)"
  have get: "get_highest_priority_thread c s =
      (if P < L then map_option (\<lambda>t. (t, P)) (first_of (tq s (ReadyQ (unat P))))
       else map_option (\<lambda>t. (t, L)) (first_of (tq s (CpuReadyQ c (unat L)))))"
    by (simp only: get_highest_priority_thread_def Let_def PL)
  have in_q: "t \<in> set (tq s k) \<Longrightarrow> is_ready k \<Longrightarrow> stat_of (threads s t) = 1 \<and> k = ready_key (threads s t)" for t k
    using rq by (auto simp: rq_ok_def queued_ok_def q_stat_ready)
  have elig_q: "bit ?g (unat (th_current_priority (threads s t))) \<or> bit ?l (unat (th_current_priority (threads s t)))"
    if "eligible c s t" for t
  proof -
    have "t \<in> set (tq s (ready_key (threads s t)))" using rq that by (simp add: rq_ok_def eligible_def)
    then have "tq s (ready_key (threads s t)) \<noteq> []" by auto
    moreover have "unat (of_nat c :: u8) = c" using c by (simp add: unsigned_of_nat take_bit_nat_eq_self)
    ultimately show ?thesis using that rq c by (auto simp: eligible_def ready_key_def rq_ok_def groups_ok_def split: if_splits)
  qed
  have G: "\<exists>p<32. P = of_nat p \<and> unat (of_nat p :: u64) = p \<and> bit ?g p \<and> (\<forall>j. bit ?g j \<longrightarrow> p \<le> j)" if "?g \<noteq> 0"
    using ffs_prio [OF that] unfolding PL .
  have M: "\<exists>p<32. L = of_nat p \<and> unat (of_nat p :: u64) = p \<and> bit ?l p \<and> (\<forall>j. bit ?l j \<longrightarrow> p \<le> j)" if "?l \<noteq> 0"
    using ffs_prio [OF that] unfolding PL .
  have top: "P = -1" if "?g = 0" using that by (simp add: PL)
  have topl: "L = -1" if "?l = 0" using that by (simp add: PL)
  show thesis
  proof (cases "P < L")
    case True
    then have "?g \<noteq> 0" using top by auto
    then obtain p where p: "p < 32" "P = of_nat p" "unat (of_nat p :: u64) = p" "bit ?g p"
      "\<And>j. bit ?g j \<Longrightarrow> p \<le> j" using G by blast
    then obtain hi xs where hi: "tq s (ReadyQ p) = hi # xs"
      using rq by (cases "tq s (ReadyQ p)") (auto simp: rq_ok_def groups_ok_def)
    have low: "p \<le> j" if "bit ?l j" for j
    proof -
      have "?l \<noteq> 0" using that bit_0_eq by force
      then obtain q where q: "L = of_nat q" "unat (of_nat q :: u64) = q" "\<forall>i. bit ?l i \<longrightarrow> q \<le> i"
        using M by metis
      have "q \<le> j" using q(3) that by blast
      moreover have "unat P < unat L" using True by (simp only: word_less_nat_alt)
      ultimately show ?thesis using p(2,3) q(1,2) by simp
    qed
    have key: "stat_of (threads s hi) = 1" "ReadyQ p = ready_key (threads s hi)" using in_q [of hi "ReadyQ p"] hi by auto
    show thesis
    proof (rule that [of hi p])
      show "get_highest_priority_thread c s = Some (hi, of_nat p)"
        using True p(2,3) hi by (simp add: get first_of_def)
      show "eligible c s hi" "unat (th_current_priority (threads s hi)) = p"
        using key by (auto simp: eligible_def ready_key_def split: if_splits)
      show "hi \<in> set (tq s (ready_key (threads s hi)))" using hi key(2) by (metis list.set_intros(1))
    qed (use p(1,5) low elig_q in blast)+
  next
    case False
    have "?l \<noteq> 0"
    proof
      assume l: "?l = 0"
      then have "?g \<noteq> 0" using ne by simp
      then obtain p where "p < 32" "P = of_nat p" using G by blast
      then have "P \<noteq> -1" by (simp add: small_not_max)
      then have "P < L" unfolding topl [OF l] by (simp only: word_order.not_eq_extremum)
      then show False using False by simp
    qed
    then obtain p where p: "p < 32" "L = of_nat p" "unat (of_nat p :: u64) = p" "bit ?l p"
      "\<And>j. bit ?l j \<Longrightarrow> p \<le> j" using M by blast
    then obtain hi xs where hi: "tq s (CpuReadyQ c p) = hi # xs"
      using rq c by (cases "tq s (CpuReadyQ c p)") (auto simp: rq_ok_def groups_ok_def)
    have low: "p \<le> j" if "bit ?g j" for j
    proof -
      have "?g \<noteq> 0" using that bit_0_eq by force
      then obtain q where q: "P = of_nat q" "unat (of_nat q :: u64) = q" "\<forall>i. bit ?g i \<longrightarrow> q \<le> i"
        using G by metis
      have "q \<le> j" using q(3) that by blast
      moreover have "unat L \<le> unat P" using False by (simp only: word_less_nat_alt not_less)
      ultimately show ?thesis using p(2,3) q(1,2) by simp
    qed
    have key: "stat_of (threads s hi) = 1" "CpuReadyQ c p = ready_key (threads s hi)"
      using in_q [of hi "CpuReadyQ c p"] hi by auto
    show thesis
    proof (rule that [of hi p])
      show "get_highest_priority_thread c s = Some (hi, of_nat p)"
        using False p(2,3) hi by (simp add: get first_of_def)
      show "eligible c s hi" "unat (th_current_priority (threads s hi)) = p"
        using key by (auto simp: eligible_def ready_key_def split: if_splits)
      show "hi \<in> set (tq s (ready_key (threads s hi)))" using hi key(2) by (metis list.set_intros(1))
    qed (use p(1,5) low elig_q in blast)+
  qed
qed

subsection \<open>One scheduling step\<close>

text \<open>
  The state in which the choice is made: the invariant holds, the lock is taken by the
  hart and its thread \<open>cur\<close> has the scheduler counter one, and every thread that is not on a
  hart has consistent counters and an intact stack.
\<close>

definition stacks_ok :: "kernel \<Rightarrow> bool" where
  "stacks_ok s \<longleftrightarrow> (\<forall>t. stat_of (threads s t) = RT_THREAD_READY \<longrightarrow>
     nest_ok (threads s t) \<and> rt_scheduler_stack_check (threads s t) = Some ())"

lemma cur_facts:
  assumes "sched_ok s" "c < 2" "cpu_current_thread (cpus s c) = Some cur"
  shows "th_oncpu (threads s cur) = of_nat c" "of_nat c \<noteq> (2 :: u8)" "thread_ok (threads s cur)"
    "is_ready k \<Longrightarrow> cur \<notin> set (tq s k)" "stat_of (threads s cur) \<noteq> 1"
    "stat_of (threads s cur) = 3 \<Longrightarrow> cur \<notin> set (tq s k)"
proof -
  show 1: "th_oncpu (threads s cur) = of_nat c" using assms by (auto simp: sched_ok_def cpu_ok_def)
  show 2: "of_nat c \<noteq> (2 :: u8)" using assms(2) less_2_cases [of c] by auto
  show "thread_ok (threads s cur)" using assms(1) 1 2 by (auto simp: sched_ok_def cpu_ok_def)
  show 3: "is_ready k \<Longrightarrow> cur \<notin> set (tq s k)" for k
    using assms(1) 1 2 by (auto simp: sched_ok_def rq_ok_def queued_ok_def)
  show "stat_of (threads s cur) \<noteq> 1" using assms(1) 3 by (auto simp: sched_ok_def rq_ok_def)
  show "stat_of (threads s cur) = 3 \<Longrightarrow> cur \<notin> set (tq s k)"
    using assms(1) by (cases k) (auto simp: sched_ok_def rq_ok_def queued_ok_def)
qed

lemma rq_okD:
  assumes "rq_ok X s" "t \<in> set (tq s k)"
  shows "stat_of (threads s t) = q_stat k"
    "is_ready k \<Longrightarrow> k = ready_key (threads s t)" "is_ready k \<Longrightarrow> thread_ok (threads s t)"
    "is_ready k \<Longrightarrow> th_oncpu (threads s t) = RT_CPU_DETACHED"
  using assms unfolding rq_ok_def queued_ok_def by blast+

lemma cpu_ok_current:
  "cpu_ok s \<Longrightarrow> c < 2 \<Longrightarrow> cpu_current_thread (cpus s c) = Some t \<longleftrightarrow> th_oncpu (threads s t) = of_nat c"
  unfolding cpu_ok_def by blast

lemma rq_ok_upd_nonready:
  assumes "rq_ok X s" "\<And>k. is_ready k \<Longrightarrow> t \<notin> set (tq s k)"
    "stat_of (f (threads s t)) = stat_of (threads s t)" "stat_of (threads s t) \<noteq> 1"
  shows "rq_ok X (upd_thread t f s)"
  using assms by (auto simp: rq_ok_def queued_ok_def)

lemma clear_yield_stat [simp]: "(w AND -9) AND 7 = w AND (7 :: u8)"
proof -
  have "(w AND NOT 8) AND 7 = w AND (7 :: u8)"
    by (rule bit_word_eqI) (auto simp: stat_7 bit_simps bit_8 simp del: bit_numeral_word_iff)
  then show ?thesis by simp
qed

lemma remove_upd_thread:
  assumes "th_bind_cpu (f (threads s t)) = th_bind_cpu (threads s t)"
    "th_current_priority (f (threads s t)) = th_current_priority (threads s t)"
    "th_number_mask (f (threads s t)) = th_number_mask (threads s t)"
  shows "rt_schedule_remove_thread t (upd_thread t f s) = upd_thread t f (rt_schedule_remove_thread t s)"
  using assms by (simp add: rt_schedule_remove_thread_def Let_def upd_thread_def upd_cpu_def upd_tq_def)

text \<open>A hart without a current thread, as during a switch or before the scheduler starts.\<close>

definition cpu_vacant :: "nat \<Rightarrow> kernel \<Rightarrow> bool" where
  "cpu_vacant c s \<longleftrightarrow>
     (\<forall>d<2. d \<noteq> c \<longrightarrow> (\<forall>t. cpu_current_thread (cpus s d) = Some t \<longleftrightarrow> th_oncpu (threads s t) = of_nat d)) \<and>
     (\<forall>t. th_oncpu (threads s t) \<noteq> of_nat c \<and> th_oncpu (threads s t) \<le> 2) \<and>
     (\<forall>t. stat_of (threads s t) = RT_THREAD_RUNNING \<longrightarrow> th_oncpu (threads s t) \<noteq> 2) \<and>
     (\<forall>t. th_oncpu (threads s t) \<noteq> 2 \<longrightarrow> thread_ok (threads s t))"

text \<open>Taking the current thread off its hart: back to its ready list if it is RUNNING.\<close>

definition preempt :: "nat \<Rightarrow> tid \<Rightarrow> kernel \<Rightarrow> kernel" where
  "preempt c cur s =
     (let s1 = upd_thread cur (\<lambda>th. th\<lparr>th_oncpu := RT_CPU_DETACHED\<rparr>) s
      in if stat_of (threads s cur) = RT_THREAD_RUNNING
         then upd_thread cur (\<lambda>th. th\<lparr>th_stat := th_stat th AND NOT RT_THREAD_STAT_YIELD\<rparr>)
                (rt_schedule_insert_thread c cur s1)
         else s1)"

lemma of_nat_cpu_inj: "c < 2 \<Longrightarrow> d < 2 \<Longrightarrow> (of_nat c :: u8) = of_nat d \<longleftrightarrow> c = d"
  using less_2_cases [of c] less_2_cases [of d] by auto

lemma of_nat_cpu_ne: "c < 2 \<Longrightarrow> (of_nat c :: u8) \<noteq> 2"
  using less_2_cases [of c] by auto

lemma preempt_threads:
  "threads (preempt c cur s) = (threads s)(cur :=
     (if stat_of (threads s cur) = 3
      then (\<lambda>th. th\<lparr>th_stat := th_stat th AND NOT 8\<rparr>) (set_stat 1 (threads s cur\<lparr>th_oncpu := 2\<rparr>))
      else threads s cur\<lparr>th_oncpu := 2\<rparr>))"
  by (simp add: preempt_def Let_def insert_threads)

lemma preempt_ok:
  assumes ok: "sched_ok s" and c: "c < 2" and cur: "cpu_current_thread (cpus s c) = Some cur"
  shows "rq_ok {} (preempt c cur s)" "cpu_vacant c (preempt c cur s)"
proof -
  note C = cur_facts [OF ok c cur]
  let ?s1 = "upd_thread cur (\<lambda>th. th\<lparr>th_oncpu := 2\<rparr>) s"
  have r1: "rq_ok {} ?s1"
    using ok C(4,5) by (intro rq_ok_upd_nonready) (auto simp: sched_ok_def)
  show "rq_ok {} (preempt c cur s)"
  proof (cases "stat_of (threads s cur) = 3")
    case True
    have "rq_ok ({} - {cur}) (rt_schedule_insert_thread c cur ?s1)"
      using r1 C(6) [OF True] C(3) by (intro rq_ok_insert) (auto simp: thread_ok_def)
    then have "rq_ok {} (upd_thread cur (\<lambda>th. th\<lparr>th_stat := th_stat th AND NOT 8\<rparr>)
        (rt_schedule_insert_thread c cur ?s1))"
      by (intro rq_ok_upd_same) simp_all
    then show ?thesis using True by (simp add: preempt_def)
  qed (use r1 in \<open>simp add: preempt_def\<close>)
  have only: "th_oncpu (threads s t) = of_nat c \<longleftrightarrow> t = cur" for t
    using ok cur cpu_ok_current [OF _ c, of s t] by (auto simp: sched_ok_def)
  have "cpu_current_thread (cpus (preempt c cur s) d) = cpu_current_thread (cpus s d)" for d
    by (simp add: preempt_def Let_def)
  moreover have "th_oncpu (threads (preempt c cur s) t) = (if t = cur then 2 else th_oncpu (threads s t))" for t
    by (simp add: preempt_threads)
  ultimately have "cpu_current_thread (cpus (preempt c cur s) d) = Some t \<longleftrightarrow>
      th_oncpu (threads (preempt c cur s) t) = of_nat d" if "d < 2" "d \<noteq> c" for d t
    using that ok C(1) cpu_ok_current [OF _ that(1), of s] of_nat_cpu_ne [OF that(1)] of_nat_cpu_inj [OF that(1) c]
    by (cases "t = cur") (auto simp: sched_ok_def)
  then show "cpu_vacant c (preempt c cur s)"
    using ok c C(1,2,3) only
    unfolding cpu_vacant_def sched_ok_def cpu_ok_def preempt_threads by (auto simp: thread_ok_def)
qed

text \<open>Putting a ready thread on a vacant hart.\<close>

definition dispatch :: "nat \<Rightarrow> tid \<Rightarrow> u64 \<Rightarrow> kernel \<Rightarrow> kernel" where
  "dispatch c t prio s =
     upd_thread t (set_stat RT_THREAD_RUNNING) (rt_schedule_remove_thread t
       (upd_cpu c (\<lambda>cpu. cpu\<lparr>cpu_current_priority := ucast prio\<rparr>)
         (upd_thread t (\<lambda>th. th\<lparr>th_oncpu := of_nat c\<rparr>) s)))"

lemma dispatch_ok:
  assumes rq: "rq_ok {} s" and v: "cpu_vacant c s" and c: "c < 2"
    and hi: "eligible c s t" "nest_ok (threads s t)"
  shows "sched_ok (rt_hw_context_switch c t (dispatch c t prio s))"
proof -
  let ?r = "rt_schedule_remove_thread t s"
  let ?f = "\<lambda>th. set_stat 3 (th\<lparr>th_oncpu := of_nat c\<rparr>)"
  have in_q: "t \<in> set (tq s (ready_key (threads s t)))" using rq hi by (simp add: rq_ok_def eligible_def)
  have th: "thread_ok (threads s t)" "th_oncpu (threads s t) = 2"
    using rq_okD(3,4) [OF rq in_q] by simp_all
  have "rq_ok ({t} - {t}) (upd_thread t ?f ?r)"
    by (rule rq_ok_upd_free [OF rq_ok_remove [OF rq th(1)]]) simp_all
  then have r: "rq_ok {} (upd_thread t ?f ?r)" by simp
  have d: "tq (dispatch c t prio s) = tq ?r" "threads (dispatch c t prio s) = threads (upd_thread t ?f ?r)"
    "ready_priority_group (dispatch c t prio s) = ready_priority_group ?r"
    "cpu_priority_group (cpus (dispatch c t prio s) e) = cpu_priority_group (cpus ?r e)"
    "cpu_current_thread (cpus (dispatch c t prio s) e) = cpu_current_thread (cpus s e)" for e
    by (simp_all add: dispatch_def remove_groups ready_key_def)
  let ?s = "dispatch c t prio s"
  have nest: "nest_ok (threads ?s t)" using hi(2) by (simp add: d nest_ok_def)
  have rq': "rq_ok {} ?s" using r by (rule rq_ok_cong) (simp_all add: d)
  have sw: "rt_hw_context_switch c t ?s = rt_hw_spin_unlock
     (upd_thread t (\<lambda>th. th\<lparr>th_cpus_lock_nest := 0, th_scheduler_lock_nest := 0\<rparr>)
       (upd_cpu c (\<lambda>cpu. cpu\<lparr>cpu_current_thread := Some t\<rparr>) ?s))"
    by (rule rt_hw_context_switch_eq [OF nest])
  have "rq_ok {} (upd_thread t (\<lambda>th. th\<lparr>th_cpus_lock_nest := 0, th_scheduler_lock_nest := 0\<rparr>) ?s)"
    using rq' by (intro rq_ok_upd_same) simp_all
  then have "rq_ok {} (rt_hw_context_switch c t ?s)" unfolding sw by (rule rq_ok_cong) simp_all
  moreover have "cpu_ok (rt_hw_context_switch c t ?s)"
  proof -
    have c2: "(of_nat c :: u8) \<noteq> 2" "(of_nat c :: u8) \<le> 2" using c less_2_cases [of c] by auto
    show ?thesis using v th c2 of_nat_cpu_inj [OF c] of_nat_cpu_ne
      unfolding sw cpu_ok_def cpu_vacant_def by (auto simp: d thread_ok_def)
  qed
  ultimately show ?thesis by (simp add: sched_ok_def)
qed


lemma unat_ucast_u8_u64 [simp]: "unat (ucast (w :: u8) :: u64) = unat w"
  by (simp add: unsigned_ucast_eq take_bit_nat_eq_self less_le_trans [OF unsigned_less])

text \<open>The thread keeps the hart: it is RUNNING and no eligible thread goes before it.\<close>

definition keeps_cpu :: "rt_thread \<Rightarrow> nat \<Rightarrow> bool" where
  "keeps_cpu th p \<longleftrightarrow> stat_of th = RT_THREAD_RUNNING \<and>
     (unat (th_current_priority th) < p \<or>
      unat (th_current_priority th) = p \<and> th_stat th AND RT_THREAD_STAT_YIELD = 0)"

lemma ucast_prio_cmp:
  assumes "p < 32"
  shows "(ucast (w :: u8) :: u64) < of_nat p \<longleftrightarrow> unat w < p" "(ucast (w :: u8) :: u64) = of_nat p \<longleftrightarrow> unat w = p"
  using unat_small_u64 [OF assms] by (simp_all add: word_less_nat_alt word_unat_eq_iff)

lemma schedule_select_eq:
  assumes "get_highest_priority_thread c s = Some (hi, of_nat p)" "p < 32"
  shows "schedule_select c cur s = Some
     (if keeps_cpu (threads s cur) p
      then (cur, of_nat p, upd_thread cur (\<lambda>th. th\<lparr>th_stat := th_stat th AND NOT RT_THREAD_STAT_YIELD,
              th_oncpu := of_nat c\<rparr>) s)
      else (hi, of_nat p, upd_thread hi (\<lambda>th. th\<lparr>th_oncpu := of_nat c\<rparr>) (preempt c cur s)))"
  using assms(1) ucast_prio_cmp [OF assms(2), of "th_current_priority (threads s cur)"]
  by (auto simp: schedule_select_def keeps_cpu_def preempt_def Let_def upd_thread_def)

lemma rt_schedule_locked:
  assumes lock: "rt_cpus_lock c s0 = Some s" and irq: "cpu_irq_nest (cpus s c) = 0"
    and cur: "cpu_current_thread (cpus s c) = Some cur" and n: "th_scheduler_lock_nest (threads s cur) = 1"
    and ok: "sched_ok s" and c: "c < 2" and st: "stacks_ok s"
  shows "rt_schedule c s0 = Some (rt_cpus_unlock c s) \<and> (\<nexists>t. eligible c s t) \<or>
    (\<exists>hi p. eligible c s hi \<and> unat (th_current_priority (threads s hi)) = p \<and>
       (\<forall>t. eligible c s t \<longrightarrow> p \<le> unat (th_current_priority (threads s t))) \<and>
       rt_schedule c s0 = Some
         (if keeps_cpu (threads s cur) p
          then rt_cpus_unlock c (upd_thread cur (\<lambda>th. th\<lparr>th_stat := th_stat th AND NOT RT_THREAD_STAT_YIELD,
                 th_oncpu := of_nat c\<rparr>) s)
          else rt_hw_context_switch c hi (dispatch c hi (of_nat p) (preempt c cur s))))"
proof (cases "ready_priority_group s = 0 \<and> cpu_priority_group (cpus s c) = 0")
  case True
  have "\<not> eligible c s t" for t
  proof
    assume e: "eligible c s t"
    then have "t \<in> set (tq s (ready_key (threads s t)))" using ok by (simp add: sched_ok_def rq_ok_def eligible_def)
    then have "tq s (ready_key (threads s t)) \<noteq> []" by auto
    moreover have "unat (of_nat c :: u8) = c" using c by (simp add: unsigned_of_nat take_bit_nat_eq_self)
    ultimately show False using ok e True
      by (auto simp: sched_ok_def rq_ok_def groups_ok_def ready_key_def eligible_def split: if_splits)
  qed
  moreover have "rt_schedule c s0 = Some (rt_cpus_unlock c s)"
    using lock irq cur True by (simp add: rt_schedule_def)
  ultimately show ?thesis by blast
next
  case False
  have rq: "rq_ok {} s" using ok by (simp add: sched_ok_def)
  obtain hi p where g: "get_highest_priority_thread c s = Some (hi, of_nat p)" "p < 32"
    and e: "eligible c s hi" "unat (th_current_priority (threads s hi)) = p"
    and low: "\<And>t. eligible c s t \<Longrightarrow> p \<le> unat (th_current_priority (threads s t))"
    using get_highest_spec [OF rq c] False by blast
  have ne: "hi \<noteq> cur" using e(1) cur_facts(5) [OF ok c cur] by (auto simp: eligible_def)
  have th: "threads (preempt c cur s) hi = threads s hi" using ne by (simp add: preempt_threads)
  have chk: "rt_scheduler_stack_check (set_stat 3 (threads s hi\<lparr>th_oncpu := of_nat c\<rparr>)) = Some ()"
    using st e(1) by (simp add: stacks_ok_def eligible_def rt_scheduler_stack_check_def)
  have "rt_schedule c s0 = Some
         (if keeps_cpu (threads s cur) p
          then rt_cpus_unlock c (upd_thread cur (\<lambda>th. th\<lparr>th_stat := th_stat th AND NOT RT_THREAD_STAT_YIELD,
                 th_oncpu := of_nat c\<rparr>) s)
          else rt_hw_context_switch c hi (dispatch c hi (of_nat p) (preempt c cur s)))"
    using lock irq cur n False ne chk th
    by (auto simp: rt_schedule_def schedule_select_eq [OF g] simp flip: dispatch_def)
  then show ?thesis using e low by blast
qed


subsection \<open>The result of scheduling\<close>

lemma sched_ok_upd_nest:
  assumes "sched_ok s" "stat_of (f (threads s t)) = stat_of (threads s t)"
    "th_current_priority (f (threads s t)) = th_current_priority (threads s t)"
    "th_bind_cpu (f (threads s t)) = th_bind_cpu (threads s t)"
    "th_number_mask (f (threads s t)) = th_number_mask (threads s t)"
    "th_oncpu (f (threads s t)) = th_oncpu (threads s t)"
  shows "sched_ok (upd_thread t f s)"
proof -
  have "rq_ok {} (upd_thread t f s)"
    using assms by (intro rq_ok_upd_same) (simp_all add: sched_ok_def)
  moreover have "thread_ok (f (threads s t)) = thread_ok (threads s t)"
    using assms by (simp add: thread_ok_def)
  then have "cpu_ok (upd_thread t f s)" using assms by (auto simp: sched_ok_def cpu_ok_def)
  ultimately show ?thesis by (simp add: sched_ok_def)
qed

lemma sched_ok_cong:
  assumes "sched_ok s" "tq s' = tq s" "threads s' = threads s" "ready_priority_group s' = ready_priority_group s"
    "\<And>c. cpu_priority_group (cpus s' c) = cpu_priority_group (cpus s c)"
    "\<And>c. cpu_current_thread (cpus s' c) = cpu_current_thread (cpus s c)"
  shows "sched_ok s'"
  using assms by (simp add: sched_ok_def rq_ok_def cpu_ok_def)

lemma rt_cpus_lock_ok:
  assumes "rt_cpus_lock c s = Some s'" "sched_ok s"
  shows "sched_ok s'" "cpus s' = cpus s" "tq s' = tq s" "timers s' = timers s" "tml s' = tml s"
    "stat_of (threads s' t) = stat_of (threads s t)" "th_stat (threads s' t) = th_stat (threads s t)"
    "th_current_priority (threads s' t) = th_current_priority (threads s t)"
    "th_bind_cpu (threads s' t) = th_bind_cpu (threads s t)"
proof -
  consider "s' = s"
    | u n where "s' = upd_thread u (\<lambda>th. th\<lparr>th_cpus_lock_nest := n th\<rparr>) s"
    | u n m where "s' = upd_thread u (\<lambda>th. th\<lparr>th_cpus_lock_nest := n th, th_scheduler_lock_nest := m th\<rparr>) (s\<lparr>cpus_lock := Some c\<rparr>)"
  proof (cases "cpu_current_thread (cpus s c)")
    case None
    then show thesis using assms(1) that(1) by (simp add: rt_cpus_lock_def)
  next
    case (Some u)
    show thesis
    proof (cases "th_cpus_lock_nest (threads s u) = 0")
      case True
      then have "cpus_lock s = None"
        using assms(1) Some by (auto simp: rt_cpus_lock_def rt_hw_spin_lock_def split: if_splits)
      then show thesis using rt_cpus_lock_free [OF Some True] assms(1) that(3) by simp
    next
      case False
      then show thesis using rt_cpus_lock_nested [OF Some] assms(1) that(2) by simp
    qed
  qed
  then have "sched_ok s' \<and> cpus s' = cpus s \<and> tq s' = tq s \<and> timers s' = timers s \<and> tml s' = tml s \<and>
     th_stat (threads s' t) = th_stat (threads s t) \<and>
     th_current_priority (threads s' t) = th_current_priority (threads s t) \<and>
     th_bind_cpu (threads s' t) = th_bind_cpu (threads s t)"
  proof cases
    case 3
    have "sched_ok (s\<lparr>cpus_lock := Some c\<rparr>)" by (rule sched_ok_cong [OF assms(2)]) simp_all
    then have "sched_ok s'" unfolding 3 by (rule sched_ok_upd_nest) simp_all
    then show ?thesis using 3 by simp
  qed (use assms(2) in \<open>auto intro: sched_ok_upd_nest\<close>)
  then show "sched_ok s'" "cpus s' = cpus s" "tq s' = tq s" "timers s' = timers s" "tml s' = tml s"
    "stat_of (threads s' t) = stat_of (threads s t)" "th_stat (threads s' t) = th_stat (threads s t)"
    "th_current_priority (threads s' t) = th_current_priority (threads s t)"
    "th_bind_cpu (threads s' t) = th_bind_cpu (threads s t)" by simp_all
qed

text \<open>A hart that runs \<open>cur\<close> outside every lock and interrupt.\<close>

definition running_on :: "nat \<Rightarrow> tid \<Rightarrow> kernel \<Rightarrow> bool" where
  "running_on c cur s \<longleftrightarrow> c < 2 \<and> cpu_current_thread (cpus s c) = Some cur \<and> cpu_irq_nest (cpus s c) = 0 \<and>
     cpus_lock s = None \<and> th_cpus_lock_nest (threads s cur) = 0 \<and> th_scheduler_lock_nest (threads s cur) = 0"

lemma context_switch_result:
  assumes "c < 2" "nest_ok (threads s t)"
  shows "cpu_current_thread (cpus (rt_hw_context_switch c t s) c) = Some t"
    "cpu_irq_nest (cpus (rt_hw_context_switch c t s) d) = cpu_irq_nest (cpus s d)"
    "cpus_lock (rt_hw_context_switch c t s) = None" "tq (rt_hw_context_switch c t s) = tq s"
    "threads (rt_hw_context_switch c t s) =
      (threads s)(t := (threads s t)\<lparr>th_cpus_lock_nest := 0, th_scheduler_lock_nest := 0\<rparr>)"
  using assms by (simp_all add: rt_hw_context_switch_eq)

lemma dispatch_result:
  "threads (dispatch c t p s) = (threads s)(t := set_stat 3 (threads s t\<lparr>th_oncpu := of_nat c\<rparr>))"
  "cpu_irq_nest (cpus (dispatch c t p s) d) = cpu_irq_nest (cpus s d)"
  by (simp_all add: dispatch_def)

lemma preempt_irq [simp]: "cpu_irq_nest (cpus (preempt c cur s) d) = cpu_irq_nest (cpus s d)"
  by (simp add: preempt_def Let_def)

lemma eligible_cong:
  "stat_of (threads s' t) = stat_of (threads s t) \<Longrightarrow> th_bind_cpu (threads s' t) = th_bind_cpu (threads s t) \<Longrightarrow>
   eligible c s' t = eligible c s t"
  by (simp add: eligible_def)

text \<open>
  What a scheduling step started by a thread outside every lock does, with the thread that
  runs afterwards.
\<close>

lemma rt_schedule_result:
  assumes ok: "sched_ok s" and st: "stacks_ok s" and run: "running_on c cur s"
  obtains (idle) "\<nexists>t. eligible c s t" "rt_schedule c s = Some s"
  | (stay) hi where "eligible c s hi" "keeps_cpu (threads s cur) (unat (th_current_priority (threads s hi)))"
      "\<forall>t. eligible c s t \<longrightarrow> th_current_priority (threads s hi) \<le> th_current_priority (threads s t)"
      "rt_schedule c s = Some (upd_thread cur (\<lambda>th. th\<lparr>th_stat := th_stat th AND NOT RT_THREAD_STAT_YIELD\<rparr>) s)"
  | (switch) hi s' where "eligible c s hi" "\<not> keeps_cpu (threads s cur) (unat (th_current_priority (threads s hi)))"
      "\<forall>t. eligible c s t \<longrightarrow> th_current_priority (threads s hi) \<le> th_current_priority (threads s t)"
      "rt_schedule c s = Some s'" "sched_ok s'" "running_on c hi s'"
      "threads s' hi = set_stat 3 (threads s hi\<lparr>th_oncpu := of_nat c, th_cpus_lock_nest := 0, th_scheduler_lock_nest := 0\<rparr>)"
      "stat_of (threads s' cur) = (if stat_of (threads s cur) = 3 then 1 else stat_of (threads s cur))"
      "th_current_priority (threads s' cur) = th_current_priority (threads s cur)"
      "\<forall>t. t \<noteq> cur \<and> t \<noteq> hi \<longrightarrow> threads s' t = threads s t" "hi \<noteq> cur"
      "\<exists>st. threads s' cur = threads s cur\<lparr>th_stat := st, th_oncpu := 2, th_cpus_lock_nest := 1, th_scheduler_lock_nest := 1\<rparr>"
      "tq s' = q_remove hi (if stat_of (threads s cur) = 3 then q_tail (ready_key (threads s cur)) cur (tq s) else tq s)"
proof -
  have c: "c < 2" and cur: "cpu_current_thread (cpus s c) = Some cur"
    and z: "th_cpus_lock_nest (threads s cur) = 0" "th_scheduler_lock_nest (threads s cur) = 0"
    and l: "cpus_lock s = None" and irq: "cpu_irq_nest (cpus s c) = 0"
    using run by (auto simp: running_on_def)
  define s1 where s1: "s1 = upd_thread cur (\<lambda>th. th\<lparr>th_cpus_lock_nest := 1,
     th_scheduler_lock_nest := th_scheduler_lock_nest th + 1\<rparr>) (s\<lparr>cpus_lock := Some c\<rparr>)"
  have lock: "rt_cpus_lock c s = Some s1" using rt_cpus_lock_free [OF cur z(1) l] by (simp add: s1)
  have ok1: "sched_ok s1" by (rule rt_cpus_lock_ok(1) [OF lock ok])
  have nr: "stat_of (threads s cur) \<noteq> 1" by (rule cur_facts(5) [OF ok c cur])
  have st1: "stacks_ok s1" using st nr by (auto simp: stacks_ok_def s1)
  have el: "eligible c s1 t = eligible c s t" for t by (rule eligible_cong) (simp_all add: s1)
  have pr: "th_current_priority (threads s1 t) = th_current_priority (threads s t)" for t by (simp add: s1)
  have kp: "keeps_cpu (threads s1 cur) p = keeps_cpu (threads s cur) p" for p by (simp add: keeps_cpu_def s1)
  have on: "th_oncpu (threads s cur) = of_nat c" by (rule cur_facts(1) [OF ok c cur])
  have unlock: "rt_cpus_unlock c s1 = s" by (rule rt_cpus_unlock_lock [OF lock]) (use cur z in auto)
  have n1: "th_scheduler_lock_nest (threads s1 cur) = 1" using z by (simp add: s1)
  have cur1: "cpu_current_thread (cpus s1 c) = Some cur" using cur by (simp add: s1)
  have irq1: "cpu_irq_nest (cpus s1 c) = 0" using irq by (simp add: s1)
  from rt_schedule_locked [OF lock irq1 cur1 n1 ok1 c st1]
  show thesis
  proof (elim disjE exE conjE)
    assume "rt_schedule c s = Some (rt_cpus_unlock c s1)" "\<nexists>t. eligible c s1 t"
    then show thesis using idle el unlock by simp
  next
    fix hi p
    assume e: "eligible c s1 hi" and p: "unat (th_current_priority (threads s1 hi)) = p"
      and low: "\<forall>t. eligible c s1 t \<longrightarrow> p \<le> unat (th_current_priority (threads s1 t))"
      and r: "rt_schedule c s = Some
         (if keeps_cpu (threads s1 cur) p
          then rt_cpus_unlock c (upd_thread cur (\<lambda>th. th\<lparr>th_stat := th_stat th AND NOT RT_THREAD_STAT_YIELD,
                 th_oncpu := of_nat c\<rparr>) s1)
          else rt_hw_context_switch c hi (dispatch c hi (of_nat p) (preempt c cur s1)))"
    have low': "\<forall>t. eligible c s t \<longrightarrow> th_current_priority (threads s hi) \<le> th_current_priority (threads s t)"
      using low p by (simp add: el pr word_le_nat_alt)
    have p': "unat (th_current_priority (threads s hi)) = p" using p by (simp add: pr)
    show thesis
    proof (cases "keeps_cpu (threads s cur) p")
      case True
      let ?g = "\<lambda>th. th\<lparr>th_stat := th_stat th AND NOT RT_THREAD_STAT_YIELD, th_oncpu := of_nat c\<rparr>"
      have "rt_cpus_unlock c (upd_thread cur ?g s1) =
          upd_thread cur (\<lambda>th. th\<lparr>th_stat := th_stat th AND NOT RT_THREAD_STAT_YIELD\<rparr>) s"
      proof -
        have "rt_cpus_unlock c (upd_thread cur ?g s1) = rt_hw_spin_unlock (upd_thread cur (\<lambda>th. th\<lparr>th_cpus_lock_nest := 0,
            th_scheduler_lock_nest := th_scheduler_lock_nest th - 1\<rparr>) (upd_thread cur ?g s1))"
          by (rule rt_cpus_unlock_last) (use cur in \<open>simp_all add: s1\<close>)
        moreover have "(\<lambda>th. th\<lparr>th_cpus_lock_nest := 0, th_scheduler_lock_nest := th_scheduler_lock_nest th - 1\<rparr>)
            (?g (threads s1 cur)) = threads s cur\<lparr>th_stat := th_stat (threads s cur) AND NOT RT_THREAD_STAT_YIELD\<rparr>"
          using z on by (cases "threads s cur") (simp add: s1)
        ultimately show ?thesis
          using l by (intro kernel.equality) (simp_all add: s1 fun_upd_def fun_eq_iff)
      qed
      then show thesis using stay [of hi] e el p' low' r True kp by simp
    next
      case False
      have ne: "hi \<noteq> cur" using e el nr by (auto simp: eligible_def)
      have th: "threads (preempt c cur s1) hi = threads s hi" using ne by (simp add: preempt_threads s1)
      have e': "eligible c (preempt c cur s1) hi" using e th by (simp add: eligible_def el s1 ne)
      have nk: "nest_ok (threads s hi)" using st e el by (simp add: stacks_ok_def eligible_def)
      let ?s' = "rt_hw_context_switch c hi (dispatch c hi (of_nat p) (preempt c cur s1))"
      have ok': "sched_ok ?s'"
        by (rule dispatch_ok [OF preempt_ok [OF ok1 c cur1] c e']) (use nk th in simp)
      have nk': "nest_ok (threads (dispatch c hi (of_nat p) (preempt c cur s1)) hi)"
        using nk th by (simp add: dispatch_result nest_ok_def)
      note R = context_switch_result [OF c nk']
      have hi': "threads ?s' hi = set_stat 3 (threads s hi\<lparr>th_oncpu := of_nat c, th_cpus_lock_nest := 0, th_scheduler_lock_nest := 0\<rparr>)"
        unfolding R(5) by (simp add: dispatch_result th set_stat_def)
      show thesis
      proof (rule switch [of hi ?s'])
        show "running_on c hi ?s'" using c irq1 R(1-3) hi' by (simp add: running_on_def dispatch_result)
        show "stat_of (threads ?s' cur) = (if stat_of (threads s cur) = 3 then 1 else stat_of (threads s cur))"
          "th_current_priority (threads ?s' cur) = th_current_priority (threads s cur)"
          unfolding R(5) using ne by (simp_all add: dispatch_result preempt_threads s1)
        show "\<forall>t. t \<noteq> cur \<and> t \<noteq> hi \<longrightarrow> threads ?s' t = threads s t"
          unfolding R(5) by (simp add: dispatch_result preempt_threads s1)
        have "threads ?s' cur = threads s cur\<lparr>th_stat := th_stat (threads ?s' cur), th_oncpu := 2,
            th_cpus_lock_nest := 1, th_scheduler_lock_nest := 1\<rparr>"
          unfolding R(5) using ne z by (cases "threads s cur") (simp add: dispatch_result preempt_threads s1 set_stat_def)
        then show "\<exists>st. threads ?s' cur = threads s cur\<lparr>th_stat := st, th_oncpu := 2, th_cpus_lock_nest := 1,
            th_scheduler_lock_nest := 1\<rparr>" by blast
        have key: "ready_key (threads s1 cur\<lparr>th_oncpu := 2\<rparr>) = ready_key (threads s cur)" by (simp add: ready_key_def s1)
        show "tq ?s' = q_remove hi (if stat_of (threads s cur) = 3 then q_tail (ready_key (threads s cur)) cur (tq s) else tq s)"
          unfolding R(4) using key by (simp add: dispatch_def preempt_def s1 insert_detached(1))
      qed (use e el p' low' r False kp ok' hi' ne in simp_all)
    qed
  qed
qed

lemma keeps_cpu_clear: "keeps_cpu th p \<Longrightarrow> stat_of (th\<lparr>th_stat := th_stat th AND NOT 8\<rparr>) = 3"
  by (simp add: keeps_cpu_def)

text \<open>
  \<^bold>\<open>C26\<close>: A thread that calls \<^verbatim>\<open>rt_schedule\<close> outside every lock and interrupt leaves its hart to the
  thread of the highest priority: the call returns, the scheduler invariant holds again,
  the hart runs a thread outside every lock, and if that thread is RUNNING then no READY
  thread that may run on this hart has a higher priority. If the caller was RUNNING or
  some thread was eligible, the thread that runs afterwards is RUNNING; and a RUNNING caller
  that loses the hart is READY, that is, waiting in its ready list.
\<close>

theorem rt_schedule_runs_highest_priority:
  assumes "sched_ok s" "stacks_ok s" "running_on c cur s"
  shows "\<exists>s' t. rt_schedule c s = Some s' \<and> sched_ok s' \<and> running_on c t s' \<and>
     (t = cur \<or> eligible c s t) \<and>
     (stat_of (threads s cur) = RT_THREAD_RUNNING \<or> (\<exists>u. eligible c s u) \<longrightarrow>
        stat_of (threads s' t) = RT_THREAD_RUNNING) \<and>
     (stat_of (threads s' t) = RT_THREAD_RUNNING \<longrightarrow>
        (\<forall>u. eligible c s' u \<longrightarrow> th_current_priority (threads s' t) \<le> th_current_priority (threads s' u))) \<and>
     (stat_of (threads s cur) = RT_THREAD_RUNNING \<and> t \<noteq> cur \<longrightarrow> stat_of (threads s' cur) = RT_THREAD_READY)"
  using assms
proof (cases rule: rt_schedule_result)
  case idle
  then show ?thesis using assms by blast
next
  case (stay hi)
  let ?f = "\<lambda>th. th\<lparr>th_stat := th_stat th AND NOT RT_THREAD_STAT_YIELD\<rparr>"
  have 1: "sched_ok (upd_thread cur ?f s)" by (rule sched_ok_upd_nest [OF assms(1)]) simp_all
  have 2: "running_on c cur (upd_thread cur ?f s)" using assms(3) by (simp add: running_on_def)
  have 3: "eligible c (upd_thread cur ?f s) u = eligible c s u" for u by (rule eligible_cong) simp_all
  have 4: "th_current_priority (threads s cur) \<le> th_current_priority (threads s hi)"
    using stay(2) by (auto simp: keeps_cpu_def word_le_nat_alt)
  show ?thesis
    using 1 2 3 stay(3,4) order.trans [OF 4] keeps_cpu_clear [OF stay(2)]
    by (intro exI [of _ "upd_thread cur ?f s"] exI [of _ cur]) simp
next
  case (switch hi s')
  have "th_current_priority (threads s' hi) \<le> th_current_priority (threads s' u)" if u: "eligible c s' u" for u
  proof (cases "u = cur")
    case True
    then have "stat_of (threads s cur) = 3"
      using u switch(8) cur_facts(5) [OF assms(1)] assms(3) by (auto simp: eligible_def running_on_def split: if_splits)
    then have "unat (th_current_priority (threads s hi)) \<le> unat (th_current_priority (threads s cur))"
      using switch(2) by (auto simp: keeps_cpu_def)
    then show ?thesis using True switch(7,9) by (simp add: word_le_nat_alt)
  next
    case False
    moreover have "u \<noteq> hi" using u switch(7) by (auto simp: eligible_def)
    ultimately have "threads s' u = threads s u" using switch(10) by blast
    then show ?thesis using switch(3,7) u by (simp add: eligible_def)
  qed
  then show ?thesis using switch by (intro exI [of _ s'] exI [of _ hi]) auto
qed

subsection \<open>A concrete state\<close>

definition ex_thread :: "nat \<Rightarrow> u8 \<Rightarrow> u8 \<Rightarrow> rt_thread" where
  "ex_thread prio st on = \<lparr>th_type = 0x81, th_sp = 0x1700, th_stack_addr = 0x1000, th_stack_size = 0x800,
     th_stack_guard = 35, th_error = 0, th_stat = st, th_bind_cpu = 2, th_oncpu = on,
     th_scheduler_lock_nest = 0, th_cpus_lock_nest = 0, th_critical_lock_nest = 0,
     th_current_priority = of_nat prio, th_init_priority = of_nat prio, th_number_mask = push_bit prio 1,
     th_event_set = 0, th_event_info = 0, th_init_tick = 10, th_remaining_tick = 10, th_cleanup = False\<rparr>"

definition ex_cpu :: "tid option \<Rightarrow> rt_cpu" where
  "ex_cpu t = \<lparr>cpu_current_thread = t, cpu_irq_nest = 0, cpu_irq_switch_flag = 0, cpu_current_priority = 0,
     cpu_priority_group = 0, cpu_tick = 100\<rparr>"

definition ex_timer :: "timer_id \<Rightarrow> rt_timer" where
  "ex_timer i = \<lparr>tm_type = 0x8a, tm_flag = 0,
     tm_timeout_func = (case i of ThreadTimer t \<Rightarrow> Rt_thread_timeout t | SysTimer n \<Rightarrow> User_timeout n),
     tm_init_tick = 0, tm_timeout_tick = 0\<rparr>"

text \<open>
  Thread 1 of priority 10 runs on hart 0, thread 2 of priority 31 on hart 1, thread 3 of
  priority 5 is ready and every other thread is suspended.
\<close>

definition ex_kernel :: kernel where
  "ex_kernel = \<lparr>threads = (\<lambda>_. ex_thread 20 2 2)(1 := ex_thread 10 3 0, 2 := ex_thread 31 3 1, 3 := ex_thread 5 1 2),
     cpus = (\<lambda>_. ex_cpu None)(0 := ex_cpu (Some 1), 1 := ex_cpu (Some 2)), cpus_lock = None,
     tq = (\<lambda>_. [])(ReadyQ 5 := [3]), ready_priority_group = 32, timers = ex_timer, tml = (\<lambda>_. []),
     ipi = (\<lambda>_. False), sems = (\<lambda>_. None), mutexes = (\<lambda>_. None), events = (\<lambda>_. None),
     mailboxes = (\<lambda>_. None), mqueues = (\<lambda>_. None)\<rparr>"

lemma bit_32: "bit (32 :: u32) p \<longleftrightarrow> p = 5"
proof -
  have "(32 :: u32) = 2 ^ 5" by simp
  then show ?thesis by (auto simp only: bit_exp_iff possible_bit_word) simp
qed

lemma ex_thread_ok: "p < 32 \<Longrightarrow> thread_ok (ex_thread p st on)"
  by (simp add: thread_ok_def ex_thread_def word_less_nat_alt unsigned_of_nat take_bit_nat_eq_self)

lemma ex_kernel_rq: "rq_ok {} ex_kernel"
  unfolding rq_ok_def
proof (intro conjI)
  show "q_ok (tq ex_kernel)" by (simp add: ex_kernel_def q_ok_def)
  show "groups_ok (tq ex_kernel) (ready_priority_group ex_kernel) (\<lambda>c. cpu_priority_group (cpus ex_kernel c))"
    by (simp add: ex_kernel_def groups_ok_def bit_32 ex_cpu_def del: bit_numeral_word_iff)
  show "queued_ok (tq ex_kernel) (threads ex_kernel)"
    by (auto simp: queued_ok_def ex_kernel_def ex_thread_ok split: if_splits)
      (auto simp: ex_thread_def ready_key_def)
  show "\<forall>t. stat_of (threads ex_kernel t) = 1 \<and> t \<notin> {} \<longrightarrow> t \<in> set (tq ex_kernel (ready_key (threads ex_kernel t)))"
    by (auto simp: ex_kernel_def ex_thread_def ready_key_def)
qed

lemma ex_kernel_cpu: "cpu_ok ex_kernel"
  unfolding cpu_ok_def
  by (auto simp: ex_kernel_def ex_thread_ok ex_cpu_def dest: less_2_cases split: if_splits)
    (auto simp: ex_thread_def split: if_splits dest!: less_2_cases)

lemma ex_kernel_ok: "sched_ok ex_kernel" "stacks_ok ex_kernel" "running_on 0 1 ex_kernel" "running_on 1 2 ex_kernel"
proof -
  show "sched_ok ex_kernel" using ex_kernel_rq ex_kernel_cpu by (simp add: sched_ok_def)
  show "stacks_ok ex_kernel"
    by (auto simp: stacks_ok_def ex_kernel_def ex_thread_def nest_ok_def rt_scheduler_stack_check_def)
  show "running_on 0 1 ex_kernel" "running_on 1 2 ex_kernel"
    by (simp_all add: running_on_def ex_kernel_def ex_cpu_def ex_thread_def)
qed

theorem rt_schedule_runs_highest_priority_witness:
  "\<exists>s' t. rt_schedule 0 ex_kernel = Some s' \<and> sched_ok s' \<and> running_on 0 t s' \<and>
     (t = 1 \<or> eligible 0 ex_kernel t) \<and> stat_of (threads s' t) = RT_THREAD_RUNNING"
proof -
  have "stat_of (threads ex_kernel 1) = 3" by (simp add: ex_kernel_def ex_thread_def)
  then show ?thesis
    using rt_schedule_runs_highest_priority [OF ex_kernel_ok(1,2,3)] by blast
qed

end
