(* ===== verification/Timer.thy ===== *)
theory Timer
  imports Kernel_State
begin

text \<open>
  \<^verbatim>\<open>src/timer.c\<close>: the hard timers, with one row of the skip list
  (\<^verbatim>\<open>RT_TIMER_SKIP_LIST_LEVEL\<close> is 1). \<^verbatim>\<open>rt_timer_check\<close>, which calls the timeout functions, is in
  the theory \<open>Clock\<close>. The current tick is the counter of hart 0 (\<^verbatim>\<open>clock.c\<close>).

  The list of running timers is kept sorted by the time left; the ticks are 32-bit words
  that wrap around, and every timer's distance to the current tick is below half of their
  range.
\<close>

subsection \<open>Operations\<close>

definition rt_tick_get :: "kernel \<Rightarrow> rt_tick_t" where
  "rt_tick_get s = cpu_tick (cpus s 0)"

definition rt_timer_init_fields :: "timer_id \<Rightarrow> timeout_func \<Rightarrow> rt_tick_t \<Rightarrow> u8 \<Rightarrow> kernel \<Rightarrow> kernel" where
  "rt_timer_init_fields i timeout time flag s =
     upd_timer i (\<lambda>t. t\<lparr>tm_flag := flag AND NOT RT_TIMER_FLAG_ACTIVATED, tm_timeout_func := timeout,
                       tm_timeout_tick := 0, tm_init_tick := time\<rparr>) s"

definition rt_timer_init :: "timer_id \<Rightarrow> timeout_func \<Rightarrow> rt_tick_t \<Rightarrow> u8 \<Rightarrow> kernel \<Rightarrow> kernel" where
  "rt_timer_init i timeout time flag s =
     rt_timer_init_fields i timeout time flag
       (upd_timer i (\<lambda>t. t\<lparr>tm_type := RT_Object_Class_Timer OR RT_Object_Class_Static\<rparr>) s)"

definition rt_timer_remove :: "timer_id \<Rightarrow> kernel \<Rightarrow> kernel" where
  "rt_timer_remove i s = upd_tml (q_remove i) s"

definition clear_active :: "rt_timer \<Rightarrow> rt_timer" where
  "clear_active t = t\<lparr>tm_flag := tm_flag t AND NOT RT_TIMER_FLAG_ACTIVATED\<rparr>"

definition rt_timer_list_next_timeout :: "tmq \<Rightarrow> kernel \<Rightarrow> rt_tick_t" where
  "rt_timer_list_next_timeout l s =
     (case tml s l of [] \<Rightarrow> RT_TICK_MAX | i # _ \<Rightarrow> tm_timeout_tick (timers s i))"

definition rt_timer_next_timeout_tick :: "kernel \<Rightarrow> rt_tick_t" where
  "rt_timer_next_timeout_tick s = rt_timer_list_next_timeout TimerList s"

definition rt_timer_detach :: "timer_id \<Rightarrow> kernel \<Rightarrow> kernel option" where
  "rt_timer_detach i s =
     do { RT_ASSERT (rt_object_get_type (tm_type (timers s i)) = RT_Object_Class_Timer);
          RT_ASSERT (rt_object_is_systemobject (tm_type (timers s i)));
          let s1 = upd_timer i clear_active (rt_timer_remove i s);
          Some (upd_timer i (\<lambda>t. t\<lparr>tm_type := 0\<rparr>) s1) }"

definition rt_timer_delete :: "timer_id \<Rightarrow> kernel \<Rightarrow> kernel option" where
  "rt_timer_delete i s =
     do { RT_ASSERT (rt_object_get_type (tm_type (timers s i)) = RT_Object_Class_Timer);
          RT_ASSERT (\<not> rt_object_is_systemobject (tm_type (timers s i)));
          let s1 = upd_timer i clear_active (rt_timer_remove i s);
          Some (upd_timer i (\<lambda>t. t\<lparr>tm_type := 0\<rparr>) s1) }"

text \<open>
  The search loop of \<^verbatim>\<open>rt_timer_start\<close>: it steps over timers with the same timeout and over
  earlier ones, and the new timer is linked where it stops.
\<close>

fun timer_insert :: "(timer_id \<Rightarrow> rt_tick_t) \<Rightarrow> rt_tick_t \<Rightarrow> timer_id \<Rightarrow> timer_id list \<Rightarrow> timer_id list" where
  "timer_insert timeout new i [] = [i]"
| "timer_insert timeout new i (t # ts) =
     (if timeout t - new = 0 then t # timer_insert timeout new i ts
      else if timeout t - new < RT_TICK_MAX div 2 then i # t # ts
      else t # timer_insert timeout new i ts)"

definition rt_timer_start :: "timer_id \<Rightarrow> kernel \<Rightarrow> kernel option" where
  "rt_timer_start i s =
     do { RT_ASSERT (rt_object_get_type (tm_type (timers s i)) = RT_Object_Class_Timer);
          let s1 = upd_timer i clear_active (rt_timer_remove i s);
          RT_ASSERT (tm_init_tick (timers s1 i) < RT_TICK_MAX div 2);
          let s2 = upd_timer i (\<lambda>t. t\<lparr>tm_timeout_tick := rt_tick_get s1 + tm_init_tick t\<rparr>) s1;
          let s3 = upd_tml (\<lambda>L. L(TimerList :=
                     timer_insert (\<lambda>j. tm_timeout_tick (timers s2 j)) (tm_timeout_tick (timers s2 i)) i
                       (L TimerList))) s2;
          Some (upd_timer i (\<lambda>t. t\<lparr>tm_flag := tm_flag t OR RT_TIMER_FLAG_ACTIVATED\<rparr>) s3) }"

definition rt_timer_stop :: "timer_id \<Rightarrow> kernel \<Rightarrow> (rt_err_t \<times> kernel) option" where
  "rt_timer_stop i s =
     do { RT_ASSERT (rt_object_get_type (tm_type (timers s i)) = RT_Object_Class_Timer);
          if tm_flag (timers s i) AND RT_TIMER_FLAG_ACTIVATED = 0 then Some (- RT_ERROR, s)
          else Some (RT_EOK, upd_timer i clear_active (rt_timer_remove i s)) }"

datatype timer_cmd = SET_TIME | GET_TIME | SET_ONESHOT | SET_PERIODIC | GET_STATE | OTHER_CMD

text \<open>\<^verbatim>\<open>*arg\<close> is read by the set commands and written by the get commands.\<close>

definition rt_timer_control :: "timer_id \<Rightarrow> timer_cmd \<Rightarrow> rt_tick_t \<Rightarrow> kernel \<Rightarrow> (rt_tick_t \<times> kernel) option" where
  "rt_timer_control i cmd arg s =
     do { RT_ASSERT (rt_object_get_type (tm_type (timers s i)) = RT_Object_Class_Timer);
          Some (case cmd of
             GET_TIME \<Rightarrow> (tm_init_tick (timers s i), s)
           | SET_TIME \<Rightarrow> (arg, upd_timer i (\<lambda>t. t\<lparr>tm_init_tick := arg\<rparr>) s)
           | SET_ONESHOT \<Rightarrow> (arg, upd_timer i (\<lambda>t. t\<lparr>tm_flag := tm_flag t AND NOT RT_TIMER_FLAG_PERIODIC\<rparr>) s)
           | SET_PERIODIC \<Rightarrow> (arg, upd_timer i (\<lambda>t. t\<lparr>tm_flag := tm_flag t OR RT_TIMER_FLAG_PERIODIC\<rparr>) s)
           | GET_STATE \<Rightarrow> (if tm_flag (timers s i) AND RT_TIMER_FLAG_ACTIVATED \<noteq> 0 then 1 else 0, s)
           | OTHER_CMD \<Rightarrow> (arg, s)) }"

subsection \<open>The order of the timer list\<close>

text \<open>Ticks from \<open>b\<close> to the timeout of a timer.\<close>

definition left :: "rt_tick_t \<Rightarrow> kernel \<Rightarrow> timer_id \<Rightarrow> nat" where
  "left b s i = unat (tm_timeout_tick (timers s i) - b)"

definition timers_ok :: "rt_tick_t \<Rightarrow> kernel \<Rightarrow> bool" where
  "timers_ok b s \<longleftrightarrow> q_ok (tml s) \<and> sorted (map (left b s) (tml s TimerList)) \<and>
     (\<forall>i \<in> set (tml s TimerList). left b s i < 0x7fffffff \<and>
        rt_object_get_type (tm_type (timers s i)) = RT_Object_Class_Timer)"

lemma half_range: "unat (RT_TICK_MAX div 2) = 0x7fffffff"
  by simp

text \<open>
  The comparison of the loop, \<^verbatim>\<open>t->timeout_tick - timer->timeout_tick < RT_TICK_MAX / 2\<close>, is the
  order of the distances, because both are below half of the range.
\<close>

lemma tick_compare:
  fixes x y b :: rt_tick_t
  assumes "unat (x - b) < 0x7fffffff" "unat (y - b) < 0x7fffffff"
  shows "x - y = 0 \<longleftrightarrow> unat (x - b) = unat (y - b)"
    "x - y \<noteq> 0 \<Longrightarrow> x - y < RT_TICK_MAX div 2 \<longleftrightarrow> unat (y - b) < unat (x - b)"
proof -
  let ?x = "x - b" and ?y = "y - b"
  have d: "x - y = ?x - ?y" by simp
  show e: "x - y = 0 \<longleftrightarrow> unat ?x = unat ?y" using word_unat_eq_iff [of ?x ?y] by simp
  show "x - y < RT_TICK_MAX div 2 \<longleftrightarrow> unat ?y < unat ?x" if ne: "x - y \<noteq> 0"
  proof (cases "unat ?y \<le> unat ?x")
    case True
    then have "unat (x - y) = unat ?x - unat ?y" unfolding d by (simp only: unat_sub word_le_nat_alt)
    then have "unat (x - y) < 0x7fffffff" using assms(1) by linarith
    then have "x - y < RT_TICK_MAX div 2" by (simp add: word_less_nat_alt)
    moreover have "unat ?x \<noteq> unat ?y" using ne e by blast
    ultimately show ?thesis using True by simp
  next
    case False
    then have "unat (x - y) = unat ?x + 2 ^ 32 - unat ?y" unfolding d
      by (simp only: unat_sub_if_size word_size if_False) simp
    then have "\<not> unat (x - y) < 0x7fffffff" using assms(2) by simp
    then have "\<not> x - y < RT_TICK_MAX div 2" by (simp add: word_less_nat_alt)
    then show ?thesis using False by simp
  qed
qed

text \<open>The list the loop builds: the new timer after all with at most its distance.\<close>

lemma timer_insert_split:
  assumes "\<forall>t \<in> set ts. unat (timeout t - b) < 0x7fffffff" "unat (new - b) < 0x7fffffff"
    "sorted (map (\<lambda>t. unat (timeout t - b)) ts)"
  shows "timer_insert timeout new i ts =
     filter (\<lambda>t. unat (timeout t - b) \<le> unat (new - b)) ts @ i #
     filter (\<lambda>t. unat (new - b) < unat (timeout t - b)) ts"
  using assms
proof (induction ts)
  case (Cons t ts)
  note cmp = tick_compare [of "timeout t" b new]
  have IH: "timer_insert timeout new i ts =
     filter (\<lambda>t. unat (timeout t - b) \<le> unat (new - b)) ts @ i #
     filter (\<lambda>t. unat (new - b) < unat (timeout t - b)) ts"
    using Cons by simp
  show ?case
  proof (cases "unat (new - b) < unat (timeout t - b)")
    case True
    then have later: "\<forall>u \<in> set ts. unat (new - b) < unat (timeout u - b)"
      using Cons.prems(3) by (auto intro: less_le_trans)
    have "timeout t - new \<noteq> 0" using cmp(1) Cons.prems True by auto
    then have "timeout t - new < RT_TICK_MAX div 2" using cmp(2) Cons.prems True by simp
    then have "timer_insert timeout new i (t # ts) = i # t # ts" using \<open>timeout t - new \<noteq> 0\<close> by simp
    then show ?thesis using True later by (simp add: filter_id_conv not_le [symmetric])
  next
    case False
    then have "timeout t - new = 0 \<or> \<not> timeout t - new < RT_TICK_MAX div 2"
      using cmp Cons.prems by auto
    then have "timer_insert timeout new i (t # ts) = t # timer_insert timeout new i ts" by auto
    then show ?thesis using False IH by simp
  qed
qed simp


lemma clear_active_sel [simp]:
  "tm_type (clear_active t) = tm_type t" "tm_init_tick (clear_active t) = tm_init_tick t"
  "tm_timeout_tick (clear_active t) = tm_timeout_tick t" "tm_timeout_func (clear_active t) = tm_timeout_func t"
  "tm_flag (clear_active t) = tm_flag t AND NOT 1"
  by (simp_all add: clear_active_def)

lemma rt_timer_remove_sel [simp]:
  "tml (rt_timer_remove i s) = q_remove i (tml s)" "timers (rt_timer_remove i s) = timers s"
  "threads (rt_timer_remove i s) = threads s" "cpus (rt_timer_remove i s) = cpus s"
  "cpus_lock (rt_timer_remove i s) = cpus_lock s" "tq (rt_timer_remove i s) = tq s"
  "ready_priority_group (rt_timer_remove i s) = ready_priority_group s" "ipi (rt_timer_remove i s) = ipi s"
  "sems (rt_timer_remove i s) = sems s" "mutexes (rt_timer_remove i s) = mutexes s"
  "events (rt_timer_remove i s) = events s" "mailboxes (rt_timer_remove i s) = mailboxes s"
  "mqueues (rt_timer_remove i s) = mqueues s"
  by (simp_all add: rt_timer_remove_def)

text \<open>A timer that can be started: its type is right and its period below half of the tick range.\<close>

definition startable :: "timer_id \<Rightarrow> kernel \<Rightarrow> bool" where
  "startable i s \<longleftrightarrow> rt_object_get_type (tm_type (timers s i)) = RT_Object_Class_Timer \<and>
     tm_init_tick (timers s i) < RT_TICK_MAX div 2"

lemma filter_sorted_insert:
  "sorted (map f xs) \<Longrightarrow> f i = n \<Longrightarrow>
   sorted (map f (filter (\<lambda>t. f t \<le> n) xs @ i # filter (\<lambda>t. n < f t) xs))"
  by (auto simp: sorted_append sorted_filter intro: less_imp_le)

lemma timers_ok_start:
  assumes ok: "timers_ok (rt_tick_get s) s" and st: "startable i s"
  obtains s' where "rt_timer_start i s = Some s'" "timers_ok (rt_tick_get s) s'"
    "tml s' TimerList =
       filter (\<lambda>t. left (rt_tick_get s) s t \<le> unat (tm_init_tick (timers s i))) (removeAll i (tml s TimerList)) @
       i # filter (\<lambda>t. unat (tm_init_tick (timers s i)) < left (rt_tick_get s) s t) (removeAll i (tml s TimerList))"
    "timers s' = (timers s)(i := (timers s i)\<lparr>tm_timeout_tick := rt_tick_get s + tm_init_tick (timers s i),
       tm_flag := (tm_flag (timers s i) AND NOT RT_TIMER_FLAG_ACTIVATED) OR RT_TIMER_FLAG_ACTIVATED\<rparr>)"
    "tml s' TempList = removeAll i (tml s TempList)"
    "threads s' = threads s" "cpus s' = cpus s" "tq s' = tq s" "cpus_lock s' = cpus_lock s"
    "ready_priority_group s' = ready_priority_group s"
proof -
  let ?b = "rt_tick_get s" and ?L = "removeAll i (tml s TimerList)" and ?n = "tm_init_tick (timers s i)"
  define T where "T = (timers s)(i := (timers s i)\<lparr>tm_timeout_tick := ?b + ?n,
       tm_flag := (tm_flag (timers s i) AND NOT 1) OR 1\<rparr>)"
  define new where "new = timer_insert (\<lambda>j. tm_timeout_tick (T j)) (?b + ?n) i ?L"
  define s' where "s' = s\<lparr>tml := (q_remove i (tml s))(TimerList := new), timers := T\<rparr>"
  have n: "unat ?n < 0x7fffffff" using st by (simp add: startable_def word_less_nat_alt)
  have cong: "timer_insert f x i ts = timer_insert g x i ts" if "\<forall>t \<in> set ts. f t = g t" for f g x ts
    using that by (induction ts) auto
  define s2 where "s2 = upd_timer i (\<lambda>t. t\<lparr>tm_timeout_tick := ?b + tm_init_tick t\<rparr>)
      (upd_timer i clear_active (rt_timer_remove i s))"
  have start: "rt_timer_start i s = Some s'"
  proof -
    have ins: "timer_insert (\<lambda>j. tm_timeout_tick (timers s2 j)) (tm_timeout_tick (timers s2 i)) i ?L = new"
      unfolding new_def by (subst cong [where g = "\<lambda>j. tm_timeout_tick (T j)"]) (auto simp: T_def s2_def)
    have "rt_timer_start i s = Some (upd_timer i (\<lambda>t. t\<lparr>tm_flag := tm_flag t OR 1\<rparr>) (upd_tml (\<lambda>L. L(TimerList :=
        timer_insert (\<lambda>j. tm_timeout_tick (timers s2 j)) (tm_timeout_tick (timers s2 i)) i (L TimerList))) s2))"
      using st unfolding rt_timer_start_def Let_def s2_def rt_tick_get_def by (simp add: startable_def)
    moreover have "tml s2 = q_remove i (tml s)" by (simp add: s2_def)
    ultimately show ?thesis using ins
      by (auto intro!: kernel.equality simp: s'_def T_def s2_def q_remove_def clear_active_def)
  qed
  have lefts: "unat (tm_timeout_tick (T t) - ?b) = left ?b s t" if "t \<noteq> i" for t
    using that by (simp add: T_def left_def)
  have split: "new = filter (\<lambda>t. unat (tm_timeout_tick (T t) - ?b) \<le> unat (?b + ?n - ?b)) ?L @ i #
      filter (\<lambda>t. unat (?b + ?n - ?b) < unat (tm_timeout_tick (T t) - ?b)) ?L"
    unfolding new_def
  proof (rule timer_insert_split)
    show "\<forall>t \<in> set ?L. unat (tm_timeout_tick (T t) - ?b) < 0x7fffffff"
      using ok lefts by (auto simp: timers_ok_def)
    have "sorted (map (left ?b s) ?L)"
      using ok unfolding timers_ok_def removeAll_filter_not_eq by (simp add: sorted_filter)
    moreover have "map (\<lambda>t. unat (tm_timeout_tick (T t) - ?b)) ?L = map (left ?b s) ?L"
      by (rule map_cong) (auto simp: lefts)
    ultimately show "sorted (map (\<lambda>t. unat (tm_timeout_tick (T t) - ?b)) ?L)" by (simp only:)
  qed (use n in simp)
  have new: "new = filter (\<lambda>t. left ?b s t \<le> unat ?n) ?L @ i # filter (\<lambda>t. unat ?n < left ?b s t) ?L"
  proof -
    have "filter (\<lambda>t. unat (tm_timeout_tick (T t) - ?b) \<le> unat (?b + ?n - ?b)) ?L = filter (\<lambda>t. left ?b s t \<le> unat ?n) ?L"
      "filter (\<lambda>t. unat (?b + ?n - ?b) < unat (tm_timeout_tick (T t) - ?b)) ?L = filter (\<lambda>t. unat ?n < left ?b s t) ?L"
      by (rule filter_cong [OF refl], auto simp: lefts)+
    then show ?thesis using split by simp
  qed
  have left': "left ?b s' t = (if t = i then unat ?n else left ?b s t)" for t
    by (simp add: left_def s'_def T_def)
  have "timers_ok ?b s'"
    unfolding timers_ok_def
  proof (intro conjI ballI)
    have qr: "q_ok (q_remove i (tml s))" using ok by (simp add: timers_ok_def q_ok_remove)
    show "q_ok (tml s')"
    proof -
      have set_new: "set new = insert i (set ?L)" unfolding new by (auto simp: not_le)
      have "distinct new"
        using ok unfolding new by (auto simp: timers_ok_def q_ok_def distinct_removeAll)
      then show ?thesis using qr set_new
        unfolding q_ok_def s'_def by (auto simp: q_remove_def) metis+
    qed
    have "sorted (map (left ?b s) ?L)"
      using ok unfolding timers_ok_def removeAll_filter_not_eq by (simp add: sorted_filter)
    moreover have "map (left ?b s') ?L = map (left ?b s) ?L" by (rule map_cong) (auto simp: left')
    ultimately have "sorted (map (left ?b s') ?L)" by (simp only:)
    from filter_sorted_insert [OF this, of i "unat ?n"]
    have "sorted (map (left ?b s') (filter (\<lambda>t. left ?b s' t \<le> unat ?n) ?L @ i # filter (\<lambda>t. unat ?n < left ?b s' t) ?L))"
      by (simp add: left')
    moreover have "filter (\<lambda>t. left ?b s' t \<le> unat ?n) ?L = filter (\<lambda>t. left ?b s t \<le> unat ?n) ?L"
      "filter (\<lambda>t. unat ?n < left ?b s' t) ?L = filter (\<lambda>t. unat ?n < left ?b s t) ?L"
      by (rule filter_cong [OF refl], auto simp: left')+
    ultimately show "sorted (map (left ?b s') (tml s' TimerList))" using new by (simp add: s'_def)
    fix t
    assume "t \<in> set (tml s' TimerList)"
    then have "t = i \<or> t \<in> set (tml s TimerList)" using new by (auto simp: s'_def)
    then show "left ?b s' t < 0x7fffffff" "rt_object_get_type (tm_type (timers s' t)) = 0x0a"
      using ok n st by (auto simp: left' timers_ok_def) (auto simp: startable_def s'_def T_def)
  qed
  then show thesis
    by (intro that [OF start]) (simp_all add: s'_def T_def new q_remove_def)
qed


subsection \<open>Properties\<close>

text \<open>
  \<^verbatim>\<open>rt_timer_start\<close> of a timer whose period is below half of the tick range passes its
  assertions and puts the timer into the list behind every timer that expires no later
  and before all that expire later, wherever the tick counter wraps around; the list stays
  sorted by the time left, no other timer is moved, and timers that expire at the same tick
  keep the order in which they were started.
\<close>

theorem rt_timer_start_sorted:
  assumes "timers_ok (rt_tick_get s) s" "startable i s"
  shows "\<exists>s'. rt_timer_start i s = Some s' \<and> timers_ok (rt_tick_get s) s' \<and>
     tml s' TimerList =
       filter (\<lambda>t. left (rt_tick_get s) s t \<le> unat (tm_init_tick (timers s i))) (removeAll i (tml s TimerList)) @
       i # filter (\<lambda>t. unat (tm_init_tick (timers s i)) < left (rt_tick_get s) s t) (removeAll i (tml s TimerList)) \<and>
     left (rt_tick_get s) s' i = unat (tm_init_tick (timers s i)) \<and>
     tm_flag (timers s' i) AND RT_TIMER_FLAG_ACTIVATED \<noteq> 0"
proof -
  obtain s' where *: "rt_timer_start i s = Some s'" "timers_ok (rt_tick_get s) s'"
    "tml s' TimerList =
       filter (\<lambda>t. left (rt_tick_get s) s t \<le> unat (tm_init_tick (timers s i))) (removeAll i (tml s TimerList)) @
       i # filter (\<lambda>t. unat (tm_init_tick (timers s i)) < left (rt_tick_get s) s t) (removeAll i (tml s TimerList))"
    "timers s' = (timers s)(i := (timers s i)\<lparr>tm_timeout_tick := rt_tick_get s + tm_init_tick (timers s i),
       tm_flag := (tm_flag (timers s i) AND NOT RT_TIMER_FLAG_ACTIVATED) OR RT_TIMER_FLAG_ACTIVATED\<rparr>)"
    using timers_ok_start [OF assms] by metis
  have "(w OR 1) AND 1 = (1 :: u8)" for w by (rule bit_word_eqI) (auto simp: bit_simps)
  then have "tm_flag (timers s' i) AND 1 \<noteq> 0" by (simp add: *(4))
  moreover have "left (rt_tick_get s) s' i = unat (tm_init_tick (timers s i))" by (simp add: left_def *(4))
  ultimately show ?thesis using *(1-3) by blast
qed

text \<open>
  Timers 0 and 1 expire in 5 and 9 ticks, just after the tick counter has wrapped around.
\<close>

definition ex_timers :: "kernel \<Rightarrow> kernel" where
  "ex_timers s = s\<lparr>cpus := (\<lambda>c. (cpus s c)\<lparr>cpu_tick := 0xfffffffe\<rparr>),
     timers := (\<lambda>i. (timers s i)\<lparr>tm_type := 0x8a, tm_flag := 1,
       tm_init_tick := (if i = SysTimer 2 then 5 else 9),
       tm_timeout_tick := (if i = SysTimer 0 then 3 else 7)\<rparr>),
     tml := (\<lambda>k. if k = TimerList then [SysTimer 0, SysTimer 1] else [])\<rparr>"

lemma ex_timers_ok: "timers_ok (rt_tick_get (ex_timers s)) (ex_timers s)" "startable (SysTimer 2) (ex_timers s)"
  by (simp_all add: ex_timers_def timers_ok_def startable_def rt_tick_get_def left_def q_ok_def rt_object_get_type_def)

theorem rt_timer_start_sorted_witness:
  "\<forall>s. \<exists>s'. rt_timer_start (SysTimer 2) (ex_timers s) = Some s' \<and>
     tml s' TimerList = [SysTimer 0, SysTimer 2, SysTimer 1]"
proof
  fix s
  show "\<exists>s'. rt_timer_start (SysTimer 2) (ex_timers s) = Some s' \<and>
     tml s' TimerList = [SysTimer 0, SysTimer 2, SysTimer 1]"
    using rt_timer_start_sorted [OF ex_timers_ok, of s]
    by (auto simp: ex_timers_def rt_tick_get_def left_def)
qed

end
