(* ===== verification/Thread.thy ===== *)
theory Thread
  imports Scheduler Timer
begin

text \<open>
  \<^verbatim>\<open>src/thread.c\<close>. An operation that blocks its caller is split at the call of \<^verbatim>\<open>rt_schedule\<close>:
  the first part ends with the switch, and a function with the suffix \<open>_resume\<close> is what
  the thread executes when it runs again. Hooks are not modelled; object registration is
  the type byte of the object.
\<close>

subsection \<open>Creation and start\<close>

definition rt_thread_init_fields :: "tid \<Rightarrow> u64 \<Rightarrow> u32 \<Rightarrow> u64 \<Rightarrow> u8 \<Rightarrow> u32 \<Rightarrow> kernel \<Rightarrow> (rt_err_t \<times> kernel) option" where
  "rt_thread_init_fields t stack_start stack_size sp priority tick s =
     do { RT_ASSERT (unat priority < RT_THREAD_PRIORITY_MAX);
          let s1 = upd_thread t (\<lambda>th. th\<lparr>
             th_stack_addr := stack_start, th_stack_size := stack_size, th_stack_guard := 35, th_sp := sp,
             th_init_priority := priority, th_current_priority := priority, th_number_mask := 0,
             th_init_tick := ucast tick, th_remaining_tick := ucast tick,
             th_error := RT_EOK, th_stat := RT_THREAD_INIT,
             th_bind_cpu := RT_CPUS_NR, th_oncpu := RT_CPU_DETACHED,
             th_scheduler_lock_nest := 0, th_cpus_lock_nest := 0, th_critical_lock_nest := 0,
             th_cleanup := False\<rparr>) s;
          Some (RT_EOK, rt_timer_init (ThreadTimer t) (Rt_thread_timeout t) 0 0 s1) }"

definition rt_thread_init :: "tid \<Rightarrow> u64 \<Rightarrow> u32 \<Rightarrow> u64 \<Rightarrow> u8 \<Rightarrow> u32 \<Rightarrow> kernel \<Rightarrow> (rt_err_t \<times> kernel) option" where
  "rt_thread_init t stack_start stack_size sp priority tick s =
     do { RT_ASSERT (stack_start \<noteq> 0);
          rt_thread_init_fields t stack_start stack_size sp priority tick
            (upd_thread t (\<lambda>th. th\<lparr>th_type := RT_Object_Class_Thread OR RT_Object_Class_Static\<rparr>) s) }"

definition rt_thread_self :: "nat \<Rightarrow> kernel \<Rightarrow> tid option" where
  "rt_thread_self c s = cpu_current_thread (cpus s c)"

abbreviation assert_thread :: "tid \<Rightarrow> kernel \<Rightarrow> unit option" where
  "assert_thread t s \<equiv> RT_ASSERT (rt_object_get_type (th_type (threads s t)) = RT_Object_Class_Thread)"

subsection \<open>Suspending and resuming\<close>

definition rt_thread_suspend :: "nat \<Rightarrow> tid \<Rightarrow> kernel \<Rightarrow> (rt_err_t \<times> kernel) option" where
  "rt_thread_suspend c t s =
     do { assert_thread t s;
          let stat = stat_of (threads s t);
          if stat \<noteq> RT_THREAD_READY \<and> stat \<noteq> RT_THREAD_RUNNING then Some (- RT_ERROR, s)
          else do {
            RT_ASSERT (stat = RT_THREAD_RUNNING \<longrightarrow> rt_thread_self c s = Some t);
            let s1 = upd_thread t (set_stat RT_THREAD_SUSPEND) (rt_schedule_remove_thread t s);
            (_, s2) \<leftarrow> rt_timer_stop (ThreadTimer t) s1;
            Some (RT_EOK, s2) } }"

definition rt_thread_resume :: "nat \<Rightarrow> tid \<Rightarrow> kernel \<Rightarrow> (rt_err_t \<times> kernel) option" where
  "rt_thread_resume c t s =
     do { assert_thread t s;
          if stat_of (threads s t) \<noteq> RT_THREAD_SUSPEND then Some (- RT_ERROR, s)
          else do {
            let s1 = upd_tq (q_remove t) s;
            (_, s2) \<leftarrow> rt_timer_stop (ThreadTimer t) s1;
            Some (RT_EOK, rt_schedule_insert_thread c t s2) } }"

definition rt_thread_timeout :: "nat \<Rightarrow> tid \<Rightarrow> kernel \<Rightarrow> kernel option" where
  "rt_thread_timeout c t s =
     do { RT_ASSERT (stat_of (threads s t) = RT_THREAD_SUSPEND);
          assert_thread t s;
          let s1 = upd_thread t (\<lambda>th. th\<lparr>th_error := - RT_ETIMEOUT\<rparr>) s;
          let s2 = upd_tq (q_remove t) s1;
          rt_schedule c (rt_schedule_insert_thread c t s2) }"

definition rt_thread_startup :: "nat \<Rightarrow> tid \<Rightarrow> kernel \<Rightarrow> (rt_err_t \<times> kernel) option" where
  "rt_thread_startup c t s =
     do { RT_ASSERT (stat_of (threads s t) = RT_THREAD_INIT);
          assert_thread t s;
          let s1 = upd_thread t (\<lambda>th. th\<lparr>th_current_priority := th_init_priority th,
                     th_number_mask := push_bit (unat (th_init_priority th)) 1,
                     th_stat := RT_THREAD_SUSPEND\<rparr>) s;
          (_, s2) \<leftarrow> rt_thread_resume c t s1;
          if rt_thread_self c s2 \<noteq> None
          then do { s3 \<leftarrow> rt_schedule c s2; Some (RT_EOK, s3) }
          else Some (RT_EOK, s2) }"

subsection \<open>Termination of threads\<close>

definition rt_thread_exit :: "nat \<Rightarrow> kernel \<Rightarrow> kernel option" where
  "rt_thread_exit c s =
     do { t \<leftarrow> rt_thread_self c s;
          s1 \<leftarrow> rt_cpus_lock c s;
          let s2 = upd_thread t (\<lambda>th. th\<lparr>th_stat := RT_THREAD_CLOSE\<rparr>) (rt_schedule_remove_thread t s1);
          s3 \<leftarrow> rt_timer_detach (ThreadTimer t) s2;
          let s4 = (if rt_object_is_systemobject (th_type (threads s3 t)) \<and> \<not> th_cleanup (threads s3 t)
                    then upd_thread t (\<lambda>th. th\<lparr>th_type := 0\<rparr>) s3
                    else upd_tq (q_head DefunctQ t) s3);
          rt_schedule c s4 }"

definition rt_thread_detach :: "tid \<Rightarrow> kernel \<Rightarrow> (rt_err_t \<times> kernel) option" where
  "rt_thread_detach t s =
     do { assert_thread t s;
          RT_ASSERT (rt_object_is_systemobject (th_type (threads s t)));
          if stat_of (threads s t) = RT_THREAD_CLOSE then Some (RT_EOK, s)
          else do {
            let s1 = (if stat_of (threads s t) \<noteq> RT_THREAD_INIT then rt_schedule_remove_thread t s else s);
            s2 \<leftarrow> rt_timer_detach (ThreadTimer t) s1;
            let s3 = upd_thread t (\<lambda>th. th\<lparr>th_stat := RT_THREAD_CLOSE\<rparr>) s2;
            Some (RT_EOK,
              if rt_object_is_systemobject (th_type (threads s3 t)) \<and> \<not> th_cleanup (threads s3 t)
              then upd_thread t (\<lambda>th. th\<lparr>th_type := 0\<rparr>) s3
              else upd_tq (q_head DefunctQ t) s3) } }"

definition rt_thread_delete :: "tid \<Rightarrow> kernel \<Rightarrow> (rt_err_t \<times> kernel) option" where
  "rt_thread_delete t s =
     do { assert_thread t s;
          RT_ASSERT (\<not> rt_object_is_systemobject (th_type (threads s t)));
          if stat_of (threads s t) = RT_THREAD_CLOSE then Some (RT_EOK, s)
          else do {
            let s1 = (if stat_of (threads s t) \<noteq> RT_THREAD_INIT then rt_schedule_remove_thread t s else s);
            s2 \<leftarrow> rt_timer_detach (ThreadTimer t) s1;
            let s3 = upd_thread t (\<lambda>th. th\<lparr>th_stat := RT_THREAD_CLOSE\<rparr>) s2;
            Some (RT_EOK, upd_tq (q_head DefunctQ t) s3) } }"

subsection \<open>Giving up the hart\<close>

text \<open>
  The last \<^verbatim>\<open>rt_hw_interrupt_enable\<close> is executed here when the thread kept the hart, and as part
  of the switch back to it otherwise.
\<close>

definition rt_thread_yield :: "nat \<Rightarrow> kernel \<Rightarrow> (rt_err_t \<times> kernel) option" where
  "rt_thread_yield c s =
     do { t \<leftarrow> rt_thread_self c s;
          s1 \<leftarrow> rt_cpus_lock c s;
          let s2 = upd_thread t (\<lambda>th. th\<lparr>th_remaining_tick := th_init_tick th,
                                        th_stat := th_stat th OR RT_THREAD_STAT_YIELD\<rparr>) s1;
          s3 \<leftarrow> rt_schedule c s2;
          Some (RT_EOK, if rt_thread_self c s3 = Some t then rt_cpus_unlock c s3 else s3) }"

definition rt_thread_sleep :: "nat \<Rightarrow> rt_tick_t \<Rightarrow> kernel \<Rightarrow> kernel option" where
  "rt_thread_sleep c tick s =
     do { t \<leftarrow> rt_thread_self c s;
          assert_thread t s;
          (_, s1) \<leftarrow> rt_thread_suspend c t s;
          (_, s2) \<leftarrow> rt_timer_control (ThreadTimer t) SET_TIME tick s1;
          s3 \<leftarrow> rt_timer_start (ThreadTimer t) s2;
          rt_schedule c s3 }"

definition rt_thread_sleep_resume :: "tid \<Rightarrow> kernel \<Rightarrow> rt_err_t \<times> kernel" where
  "rt_thread_sleep_resume t s =
     (RT_EOK, if th_error (threads s t) = - RT_ETIMEOUT
              then upd_thread t (\<lambda>th. th\<lparr>th_error := RT_EOK\<rparr>) s else s)"

definition rt_thread_delay :: "nat \<Rightarrow> rt_tick_t \<Rightarrow> kernel \<Rightarrow> kernel option" where
  "rt_thread_delay c tick s = rt_thread_sleep c tick s"

text \<open>
  \<^verbatim>\<open>rt_thread_delay_until\<close>: the result is the value of \<^verbatim>\<open>*tick\<close> and whether the thread has blocked.
\<close>

definition rt_thread_delay_until :: "nat \<Rightarrow> rt_tick_t \<Rightarrow> rt_tick_t \<Rightarrow> kernel \<Rightarrow> (rt_tick_t \<times> bool \<times> kernel) option" where
  "rt_thread_delay_until c tick inc_tick s =
     do { t \<leftarrow> rt_thread_self c s;
          assert_thread t s;
          if rt_tick_get s - tick < inc_tick
          then do {
            let tick' = tick + inc_tick - rt_tick_get s;
            (_, s1) \<leftarrow> rt_thread_suspend c t s;
            (_, s2) \<leftarrow> rt_timer_control (ThreadTimer t) SET_TIME tick' s1;
            s3 \<leftarrow> rt_timer_start (ThreadTimer t) s2;
            s4 \<leftarrow> rt_schedule c s3;
            Some (tick', True, s4) }
          else Some (rt_tick_get s, False, s) }"

definition rt_thread_delay_until_resume :: "tid \<Rightarrow> kernel \<Rightarrow> rt_tick_t \<times> kernel" where
  "rt_thread_delay_until_resume t s =
     (rt_tick_get s, if th_error (threads s t) = - RT_ETIMEOUT
                     then upd_thread t (\<lambda>th. th\<lparr>th_error := RT_EOK\<rparr>) s else s)"

subsection \<open>Control\<close>

datatype thread_cmd = CHANGE_PRIORITY u8 | STARTUP | CLOSE | BIND_CPU u8 | OTHER_THREAD_CMD

text \<open>\<^verbatim>\<open>1 << priority\<close> is undefined for a priority of 32 or more.\<close>

definition set_priority :: "u8 \<Rightarrow> rt_thread \<Rightarrow> rt_thread" where
  "set_priority p th = th\<lparr>th_current_priority := p, th_number_mask := push_bit (unat p) 1\<rparr>"

definition rt_thread_control :: "nat \<Rightarrow> tid \<Rightarrow> thread_cmd \<Rightarrow> kernel \<Rightarrow> (rt_err_t \<times> kernel) option" where
  "rt_thread_control c t cmd s =
     do { assert_thread t s;
          case cmd of
            CHANGE_PRIORITY p \<Rightarrow>
              if unat p < 32
              then Some (RT_EOK,
                if stat_of (threads s t) = RT_THREAD_READY
                then rt_schedule_insert_thread c t (upd_thread t (set_priority p) (rt_schedule_remove_thread t s))
                else upd_thread t (set_priority p) s)
              else None
          | STARTUP \<Rightarrow> rt_thread_startup c t s
          | CLOSE \<Rightarrow> if rt_object_is_systemobject (th_type (threads s t)) then rt_thread_detach t s
                     else rt_thread_delete t s
          | BIND_CPU cpu \<Rightarrow>
              if stat_of (threads s t) \<noteq> RT_THREAD_INIT then Some (RT_ERROR, s)
              else Some (RT_EOK, upd_thread t (\<lambda>th. th\<lparr>th_bind_cpu := if cpu > RT_CPUS_NR then RT_CPUS_NR else cpu\<rparr>) s)
          | OTHER_THREAD_CMD \<Rightarrow> Some (RT_EOK, s) }"

subsection \<open>The timer calls leave the scheduler's data alone\<close>

definition sched_same :: "kernel \<Rightarrow> kernel \<Rightarrow> bool" where
  "sched_same s s' \<longleftrightarrow> s' = s\<lparr>timers := timers s', tml := tml s'\<rparr>"

lemma sched_sameD:
  assumes "sched_same s s'"
  shows "threads s' = threads s" "cpus s' = cpus s" "cpus_lock s' = cpus_lock s" "tq s' = tq s"
    "ready_priority_group s' = ready_priority_group s" "ipi s' = ipi s" "sems s' = sems s"
    "mutexes s' = mutexes s" "events s' = events s" "mailboxes s' = mailboxes s" "mqueues s' = mqueues s"
  using assms unfolding sched_same_def
  by (metis kernel.select_convs kernel.update_convs(6,7) kernel.surjective)+

lemma sched_same_upd:
  "sched_same s (upd_timer i h s)" "sched_same s (upd_tml l s)" "sched_same s s"
  "sched_same s s' \<Longrightarrow> sched_same s' s'' \<Longrightarrow> sched_same s s''"
  by (cases s; cases s'; cases s''; simp add: sched_same_def upd_timer_def upd_tml_def)+

lemma rt_timer_stop_same:
  assumes "rt_object_get_type (tm_type (timers s i)) = RT_Object_Class_Timer"
  shows "\<exists>e s'. rt_timer_stop i s = Some (e, s') \<and> sched_same s s'"
  using assms sched_same_upd(3) sched_same_upd(4) [OF sched_same_upd(2,1)]
  by (auto simp: rt_timer_stop_def rt_timer_remove_def)

lemma sched_ok_same: "sched_same s s' \<Longrightarrow> sched_ok s' = sched_ok s"
  by (simp add: sched_ok_def rq_ok_def cpu_ok_def sched_sameD)

abbreviation timer_typed :: "tid \<Rightarrow> kernel \<Rightarrow> bool" where
  "timer_typed t s \<equiv> rt_object_get_type (tm_type (timers s (ThreadTimer t))) = RT_Object_Class_Timer"

subsection \<open>Preservation of the scheduler invariant\<close>

lemma sched_ok_leave:
  assumes "sched_ok s" "thread_ok (threads s t)" "st AND 7 = st" "st \<noteq> 1" "st \<noteq> 3"
  shows "sched_ok (upd_thread t (set_stat st) (rt_schedule_remove_thread t s))"
proof -
  have "rq_ok ({t} - {t}) (upd_thread t (set_stat st) (rt_schedule_remove_thread t s))"
    using assms by (intro rq_ok_upd_free rq_ok_remove) (simp_all add: sched_ok_def)
  moreover have "cpu_ok (upd_thread t (set_stat st) (rt_schedule_remove_thread t s))"
    using assms by (auto simp: sched_ok_def cpu_ok_def)
  ultimately show ?thesis by (simp add: sched_ok_def)
qed

lemma sched_ok_unlink:
  assumes "sched_ok s" "stat_of (threads s t) \<noteq> 1"
  shows "sched_ok (upd_tq (q_remove t) s)"
proof -
  have no: "is_ready k \<Longrightarrow> t \<notin> set (tq s k)" for k
    using assms rq_okD(1) [of "{}" s t k] by (auto simp: sched_ok_def q_stat_ready)
  have same: "q_remove t (tq s) k = tq s k" if "is_ready k" for k
    unfolding q_remove_def by (rule removeAll_id) (rule no [OF that])
  have "rq_ok {} (upd_tq (q_remove t) s)"
    using assms same unfolding sched_ok_def rq_ok_def
    by (auto simp: q_ok_remove groups_ok_def queued_ok_def)
  moreover have "cpu_ok (upd_tq (q_remove t) s)" using assms by (simp add: sched_ok_def cpu_ok_def)
  ultimately show ?thesis by (simp add: sched_ok_def)
qed

lemma sched_ok_insert:
  assumes "sched_ok s" "\<And>k. t \<notin> set (tq s k)" "thread_ok (threads s t)"
  shows "sched_ok (rt_schedule_insert_thread c t s)"
proof (cases "th_oncpu (threads s t) = 2")
  case True
  have "rq_ok ({} - {t}) (rt_schedule_insert_thread c t s)"
    using assms True by (intro rq_ok_insert) (auto simp: sched_ok_def)
  moreover have "cpu_ok (rt_schedule_insert_thread c t s)"
    using assms(1) True by (auto simp: sched_ok_def cpu_ok_def insert_threads)
  ultimately show ?thesis by (simp add: sched_ok_def)
next
  case False
  have "rq_ok ({} - {t}) (upd_thread t (set_stat 3) s)"
    using assms by (intro rq_ok_upd_free) (auto simp: sched_ok_def)
  moreover have "cpu_ok (upd_thread t (set_stat 3) s)"
    using assms(1) False by (auto simp: sched_ok_def cpu_ok_def)
  ultimately show ?thesis by (simp add: sched_ok_def insert_running [OF False])
qed

lemma rt_thread_suspend_ok:
  assumes "sched_ok s" "thread_ok (threads s t)" "timer_typed t s"
    "rt_object_get_type (th_type (threads s t)) = 1"
    "stat_of (threads s t) = 1 \<or> stat_of (threads s t) = 3 \<and> rt_thread_self c s = Some t"
  obtains s' where "rt_thread_suspend c t s = Some (0, s')" "sched_ok s'"
    "sched_same (upd_thread t (set_stat 2) (rt_schedule_remove_thread t s)) s'"
proof -
  let ?s1 = "upd_thread t (set_stat 2) (rt_schedule_remove_thread t s)"
  have ok: "sched_ok ?s1" using assms by (intro sched_ok_leave) simp_all
  obtain e s' where st: "rt_timer_stop (ThreadTimer t) ?s1 = Some (e, s')" "sched_same ?s1 s'"
    using rt_timer_stop_same [of ?s1 "ThreadTimer t"] assms(3) by auto
  have "rt_thread_suspend c t s = Some (0, s')"
    using assms(4,5) st by (auto simp: rt_thread_suspend_def)
  then show thesis using that st(2) ok sched_ok_same by blast
qed

lemma rt_thread_resume_ok:
  assumes "sched_ok s" "thread_ok (threads s t)" "timer_typed t s"
    "rt_object_get_type (th_type (threads s t)) = 1" "stat_of (threads s t) = 2"
  obtains s' where "rt_thread_resume c t s = Some (0, rt_schedule_insert_thread c t s')"
    "sched_same (upd_tq (q_remove t) s) s'" "sched_ok (rt_schedule_insert_thread c t s')"
proof -
  let ?s1 = "upd_tq (q_remove t) s"
  obtain e s' where st: "rt_timer_stop (ThreadTimer t) ?s1 = Some (e, s')" "sched_same ?s1 s'"
    using rt_timer_stop_same [of ?s1 "ThreadTimer t"] assms(3) by auto
  note D = sched_sameD [OF st(2)]
  have "sched_ok s'" using sched_ok_unlink [of s t] assms sched_ok_same [OF st(2)] by simp
  then have "sched_ok (rt_schedule_insert_thread c t s')"
    by (rule sched_ok_insert) (simp_all add: D assms(2))
  moreover have "rt_thread_resume c t s = Some (0, rt_schedule_insert_thread c t s')"
    using assms st by (simp add: rt_thread_resume_def)
  ultimately show thesis using that st(2) by blast
qed

lemma u8_le_2: "(b :: u8) \<le> 2 \<Longrightarrow> b = 0 \<or> b = 1 \<or> b = 2"
proof -
  assume "b \<le> 2"
  then have "unat b \<le> 2" by (simp add: word_le_nat_alt)
  then have "unat b = 0 \<or> unat b = 1 \<or> unat b = 2" by linarith
  then show ?thesis by (auto simp: word_unat_eq_iff)
qed

lemma insert_ipi:
  assumes "thread_ok (threads s t)" "c < 2" "th_oncpu (threads s t) = 2"
  shows "ipi (rt_schedule_insert_thread c t s) (1 - c) =
     (ipi s (1 - c) \<or> th_bind_cpu (threads s t) = 2 \<or> th_bind_cpu (threads s t) = of_nat (1 - c))"
proof -
  have "th_bind_cpu (threads s t) = 0 \<or> th_bind_cpu (threads s t) = 1 \<or> th_bind_cpu (threads s t) = 2"
    using assms(1) by (intro u8_le_2) (simp add: thread_ok_def)
  moreover have "c = 0 \<or> c = 1" using assms(2) by auto
  ultimately show ?thesis using assms(3)
    by (elim disjE) (simp_all add: rt_schedule_insert_thread_def rt_hw_ipi_send_def)
qed

text \<open>
  \<^verbatim>\<open>rt_thread_resume\<close> of a suspended thread succeeds and keeps the scheduler invariant. A
  thread that is off its hart becomes READY at the end of the ready list of its priority
  (the list of its hart if it is bound to one), and the other harts that may run it get a
  scheduling interrupt; a thread that has suspended itself but not yet left its hart becomes
  RUNNING again and is in no list.
\<close>

theorem rt_thread_resume_ready:
  assumes "sched_ok s" "thread_ok (threads s t)" "timer_typed t s" "c < 2"
    "rt_object_get_type (th_type (threads s t)) = RT_Object_Class_Thread"
    "stat_of (threads s t) = RT_THREAD_SUSPEND"
  shows "\<exists>s'. rt_thread_resume c t s = Some (RT_EOK, s') \<and> sched_ok s' \<and>
     (if th_oncpu (threads s t) = RT_CPU_DETACHED
      then stat_of (threads s' t) = RT_THREAD_READY \<and>
           tq s' (ready_key (threads s t)) = tq s (ready_key (threads s t)) @ [t] \<and>
           ipi s' (1 - c) = (ipi s (1 - c) \<or> th_bind_cpu (threads s t) = RT_CPUS_NR \<or> th_bind_cpu (threads s t) = of_nat (1 - c))
      else stat_of (threads s' t) = RT_THREAD_RUNNING \<and> (\<forall>k. t \<notin> set (tq s' k)))"
proof -
  obtain s' where r: "rt_thread_resume c t s = Some (0, rt_schedule_insert_thread c t s')"
    and same: "sched_same (upd_tq (q_remove t) s) s'" and ok: "sched_ok (rt_schedule_insert_thread c t s')"
    using rt_thread_resume_ok assms by blast
  note D = sched_sameD [OF same]
  have no: "t \<notin> set (tq s (ready_key (threads s t)))"
    using rq_okD(1) [of "{}" s t "ready_key (threads s t)"] assms(1,6) by (auto simp: sched_ok_def)
  then have key: "q_remove t (tq s) (ready_key (threads s t)) = tq s (ready_key (threads s t))"
    by (simp add: q_remove_def removeAll_id)
  show ?thesis
  proof (cases "th_oncpu (threads s t) = 2")
    case True
    then have on: "th_oncpu (threads s' t) = 2" by (simp add: D)
    have ipi: "ipi (rt_schedule_insert_thread c t s') (1 - c) =
       (ipi s (1 - c) \<or> th_bind_cpu (threads s t) = 2 \<or> th_bind_cpu (threads s t) = of_nat (1 - c))"
      using insert_ipi [of s' t c] assms(2,4) on by (simp add: D)
    show ?thesis using r ok True key ipi
      by (simp add: insert_threads insert_detached [OF on] D q_tail_def)
  next
    case False
    then have on: "th_oncpu (threads s' t) \<noteq> 2" by (simp add: D)
    show ?thesis using r ok False by (simp add: insert_running [OF on] D)
  qed
qed

lemma ex_thread_sel [simp]:
  "th_type (ex_thread p st on) = 0x81" "th_stat (ex_thread p st on) = st" "th_oncpu (ex_thread p st on) = on"
  "th_bind_cpu (ex_thread p st on) = 2" "th_current_priority (ex_thread p st on) = of_nat p"
  "th_init_priority (ex_thread p st on) = of_nat p" "th_error (ex_thread p st on) = 0"
  "th_cpus_lock_nest (ex_thread p st on) = 0" "th_scheduler_lock_nest (ex_thread p st on) = 0"
  "th_cleanup (ex_thread p st on) = False" "th_event_set (ex_thread p st on) = 0"
  by (simp_all add: ex_thread_def)

lemma ex_kernel_threads:
  "threads ex_kernel 1 = ex_thread 10 3 0" "threads ex_kernel 2 = ex_thread 31 3 1"
  "threads ex_kernel 3 = ex_thread 5 1 2" "threads ex_kernel 4 = ex_thread 20 2 2"
  "threads ex_kernel 5 = ex_thread 20 2 2"
  by (simp_all add: ex_kernel_def)

lemma ex_kernel_types:
  "timer_typed t ex_kernel" "rt_object_get_type (0x81 :: u8) = 1" "rt_object_get_type (0x8a :: u8) = 0x0a"
  by (simp_all add: ex_kernel_def ex_timer_def rt_object_get_type_def)

theorem rt_thread_resume_ready_witness:
  "\<exists>s'. rt_thread_resume 0 4 ex_kernel = Some (RT_EOK, s') \<and> sched_ok s' \<and>
     stat_of (threads s' 4) = RT_THREAD_READY \<and> tq s' (ReadyQ 20) = [4]"
proof -
  have "ready_key (threads ex_kernel 4) = ReadyQ 20" by (simp add: ready_key_def ex_kernel_threads)
  moreover have "tq ex_kernel (ReadyQ 20) = []" by (simp add: ex_kernel_def)
  ultimately show ?thesis
    using rt_thread_resume_ready [OF ex_kernel_ok(1), of 4 0] ex_thread_ok [of 20 2 2]
    by (auto simp: ex_kernel_threads ex_kernel_types)
qed

subsection \<open>What scheduling leaves alone\<close>

definition rest :: "kernel \<Rightarrow> (timer_id \<Rightarrow> rt_timer) \<times> (tmq \<Rightarrow> timer_id list) \<times> (nat \<rightharpoonup> rt_semaphore) \<times>
    (nat \<rightharpoonup> rt_mutex) \<times> (nat \<rightharpoonup> rt_event) \<times> (nat \<rightharpoonup> rt_mailbox) \<times> (nat \<rightharpoonup> rt_messagequeue) \<times> (nat \<Rightarrow> rt_tick_t)" where
  "rest s = (timers s, tml s, sems s, mutexes s, events s, mailboxes s, mqueues s, \<lambda>c. cpu_tick (cpus s c))"

lemma rest_upd [simp]:
  "rest (upd_thread t f s) = rest s" "rest (upd_tq l s) = rest s" "rest (rt_hw_spin_unlock s) = rest s"
  "rest (rt_schedule_remove_thread t s) = rest s" "rest (rt_schedule_insert_thread c t s) = rest s"
  "rest (s\<lparr>cpus_lock := k\<rparr>) = rest s"
  by (simp_all add: rest_def)

lemma rest_upd_cpu: "(\<And>cpu. cpu_tick (f cpu) = cpu_tick cpu) \<Longrightarrow> rest (upd_cpu c f s) = rest s"
  by (auto simp: rest_def fun_eq_iff)

lemma rest_lock: "rt_cpus_lock c s = Some s' \<Longrightarrow> rest s' = rest s"
  by (auto simp: rt_cpus_lock_def rt_hw_spin_lock_def Let_def split: option.splits if_splits)

lemma rest_unlock [simp]: "rest (rt_cpus_unlock c s) = rest s"
  by (simp add: rt_cpus_unlock_def Let_def split: option.split)

lemma rest_context_switch [simp]: "rest (rt_hw_context_switch c t s) = rest s"
proof -
  have "rest ((rt_cpus_unlock c ^^ n) s') = rest s'" for n s' by (induction n) simp_all
  then show ?thesis
    by (simp add: rt_hw_context_switch_def rt_cpus_lock_status_restore_def Let_def rest_upd_cpu)
qed

lemma rest_select: "schedule_select c cur s = Some (t, p, s') \<Longrightarrow> rest s' = rest s"
  by (auto simp: schedule_select_def Let_def split: if_splits prod.splits option.splits Option.bind_splits)

lemma rest_schedule: "rt_schedule c s = Some s' \<Longrightarrow> rest s' = rest s"
  by (auto simp: rt_schedule_def Let_def rest_upd_cpu rest_lock dest!: rest_lock rest_select
      split: if_splits prod.splits Option.bind_splits)

subsection \<open>Yielding\<close>

lemma sched_ok_unlock: "sched_ok s \<Longrightarrow> sched_ok (rt_cpus_unlock c s)"
proof (cases "cpu_current_thread (cpus s c)")
  case (Some t)
  assume ok: "sched_ok s"
  show ?thesis
  proof (cases "th_cpus_lock_nest (threads s t) = 1")
    case True
    have "sched_ok (upd_thread t (\<lambda>th. th\<lparr>th_cpus_lock_nest := 0,
        th_scheduler_lock_nest := th_scheduler_lock_nest th - 1\<rparr>) s)"
      by (rule sched_ok_upd_nest [OF ok]) simp_all
    then show ?thesis unfolding rt_cpus_unlock_last [OF Some True] by (rule sched_ok_cong) simp_all
  next
    case False
    show ?thesis unfolding rt_cpus_unlock_nested [OF Some False]
      by (rule sched_ok_upd_nest [OF ok]) simp_all
  qed
qed (simp add: rt_cpus_unlock_def)

lemma unlock_running:
  assumes "c < 2" "cpu_current_thread (cpus s c) = Some t" "th_cpus_lock_nest (threads s t) = 1"
    "th_scheduler_lock_nest (threads s t) = 1" "cpu_irq_nest (cpus s c) = 0"
  shows "running_on c t (rt_cpus_unlock c s)"
  using assms by (simp add: rt_cpus_unlock_last [OF assms(2,3)] running_on_def)

lemma unlock_threads:
  "stat_of (threads (rt_cpus_unlock c s) u) = stat_of (threads s u)"
  "th_current_priority (threads (rt_cpus_unlock c s) u) = th_current_priority (threads s u)"
  "th_bind_cpu (threads (rt_cpus_unlock c s) u) = th_bind_cpu (threads s u)"
  "tq (rt_cpus_unlock c s) = tq s"
  "cpu_current_thread (cpus (rt_cpus_unlock c s) d) = cpu_current_thread (cpus s d)"
  "cpu_irq_nest (cpus (rt_cpus_unlock c s) d) = cpu_irq_nest (cpus s d)"
  by (simp_all add: rt_cpus_unlock_def Let_def split: option.split)

lemma or_yield [simp]: "(w OR 8) AND 7 = w AND (7 :: u8)" "(w OR 8) AND 8 = (8 :: u8)"
  by (rule bit_word_eqI, auto simp: stat_7 bit_simps bit_8 simp del: bit_numeral_word_iff)+

text \<open>The kernel state in which \<^verbatim>\<open>rt_thread_yield\<close> calls the scheduler, and the one after the scheduler has taken the lock.\<close>

definition yielding :: "nat \<Rightarrow> tid \<Rightarrow> kernel \<Rightarrow> kernel" where
  "yielding c cur s = upd_thread cur (\<lambda>th. th\<lparr>th_remaining_tick := th_init_tick th, th_stat := th_stat th OR 8\<rparr>)
     (upd_thread cur (\<lambda>th. th\<lparr>th_cpus_lock_nest := 1, th_scheduler_lock_nest := th_scheduler_lock_nest th + 1\<rparr>) (s\<lparr>cpus_lock := Some c\<rparr>))"

definition yield_entered :: "nat \<Rightarrow> tid \<Rightarrow> kernel \<Rightarrow> kernel" where
  "yield_entered c cur s = upd_thread cur (\<lambda>th. th\<lparr>th_cpus_lock_nest := th_cpus_lock_nest th + 1\<rparr>) (yielding c cur s)"

lemma yield_unfold:
  assumes "running_on c cur s"
  shows "rt_thread_yield c s = do { s4 \<leftarrow> rt_schedule c (yielding c cur s);
      Some (0, if rt_thread_self c s4 = Some cur then rt_cpus_unlock c s4 else s4) }"
proof -
  have f: "cpu_current_thread (cpus s c) = Some cur" "th_cpus_lock_nest (threads s cur) = 0" "cpus_lock s = None"
    using assms by (auto simp: running_on_def)
  from rt_cpus_lock_free [OF f] f(1) show ?thesis by (simp add: rt_thread_yield_def rt_thread_self_def yielding_def Let_def)
qed

lemma yield_threads:
  "stat_of (threads (yield_entered c cur s) u) = stat_of (threads s u)"
  "th_current_priority (threads (yield_entered c cur s) u) = th_current_priority (threads s u)"
  "th_bind_cpu (threads (yield_entered c cur s) u) = th_bind_cpu (threads s u)"
  "u \<noteq> cur \<Longrightarrow> threads (yield_entered c cur s) u = threads s u"
  "th_stat (threads (yield_entered c cur s) cur) AND 8 \<noteq> 0"
  "tq (yield_entered c cur s) = tq s"
  by (simp_all add: yield_entered_def yielding_def)

lemma yield_eligible: "eligible c (yield_entered c cur s) t = eligible c s t"
  by (rule eligible_cong) (simp_all add: yield_threads)

lemma yield_entry:
  assumes ok: "sched_ok s" "stacks_ok s" and run: "running_on c cur s" and r3: "stat_of (threads s cur) = RT_THREAD_RUNNING"
  defines "s3 \<equiv> yield_entered c cur s"
  shows "rt_cpus_lock c (yielding c cur s) = Some s3" "cpu_irq_nest (cpus s3 c) = 0" "cpu_current_thread (cpus s3 c) = Some cur"
    "th_scheduler_lock_nest (threads s3 cur) = 1" "th_cpus_lock_nest (threads s3 cur) = 2" "sched_ok s3" "stacks_ok s3"
proof -
  have f: "cpu_current_thread (cpus s c) = Some cur" "th_cpus_lock_nest (threads s cur) = 0" "cpus_lock s = None"
    "th_scheduler_lock_nest (threads s cur) = 0" "cpu_irq_nest (cpus s c) = 0" using run by (auto simp: running_on_def)
  note ok1 = rt_cpus_lock_ok(1) [OF rt_cpus_lock_free [OF f(1-3)] ok(1)]
  have ok2: "sched_ok (yielding c cur s)" unfolding yielding_def by (rule sched_ok_upd_nest [OF ok1]) simp_all
  show "sched_ok s3" unfolding s3_def yield_entered_def by (rule sched_ok_upd_nest [OF ok2]) simp_all
  show "rt_cpus_lock c (yielding c cur s) = Some s3"
    using rt_cpus_lock_nested [of "yielding c cur s" c cur] f by (simp add: s3_def yield_entered_def yielding_def)
  show "stacks_ok s3" using ok(2) r3 by (auto simp: stacks_ok_def s3_def yield_entered_def yielding_def)
qed (use run in \<open>auto simp: running_on_def s3_def yield_entered_def yielding_def\<close>)

lemma yield_kept:
  assumes run: "running_on c cur s" and r: "rt_schedule c (yielding c cur s) = Some (rt_cpus_unlock c s5)" and o5: "sched_ok s5"
    and f: "cpu_current_thread (cpus s5 c) = Some cur" "th_cpus_lock_nest (threads s5 cur) = 2"
      "th_scheduler_lock_nest (threads s5 cur) = 1" "cpu_irq_nest (cpus s5 c) = 0"
  shows "\<exists>s'. rt_thread_yield c s = Some (0, s') \<and> sched_ok s' \<and> running_on c cur s'"
proof -
  have c: "c < 2" using run by (simp add: running_on_def)
  have u: "rt_cpus_unlock c s5 = upd_thread cur (\<lambda>th. th\<lparr>th_cpus_lock_nest := th_cpus_lock_nest th - 1\<rparr>) s5"
    by (rule rt_cpus_unlock_nested) (use f in simp_all)
  have "rt_thread_self c (rt_cpus_unlock c s5) = Some cur" using f by (simp add: rt_thread_self_def u)
  moreover have "running_on c cur (rt_cpus_unlock c (rt_cpus_unlock c s5))"
    by (rule unlock_running) (use f c in \<open>simp_all add: u\<close>)
  ultimately show ?thesis using r yield_unfold [OF run] sched_ok_unlock o5 by simp
qed

lemma yield_switched:
  assumes ok: "sched_ok s" "stacks_ok s" and run: "running_on c cur s" and r3: "stat_of (threads s cur) = RT_THREAD_RUNNING"
    and e: "eligible c s hi"
    and r: "rt_schedule c (yielding c cur s) = Some (rt_hw_context_switch c hi (dispatch c hi p (preempt c cur (yield_entered c cur s))))"
  obtains s' where "rt_thread_yield c s = Some (0, s')" "sched_ok s'" "running_on c hi s'" "stat_of (threads s' cur) = RT_THREAD_READY"
    "tq s' (ready_key (threads s cur)) = removeAll hi (tq s (ready_key (threads s cur))) @ [cur]"
proof -
  let ?s3 = "yield_entered c cur s"
  let ?d = "dispatch c hi p (preempt c cur ?s3)" let ?s' = "rt_hw_context_switch c hi ?d"
  note E = yield_entry [OF ok run r3]
  have c: "c < 2" using run by (simp add: running_on_def)
  have ne: "hi \<noteq> cur" using e r3 by (auto simp: eligible_def)
  have th: "threads (preempt c cur ?s3) hi = threads s hi" using ne by (simp add: preempt_threads yield_threads(4))
  have e': "eligible c (preempt c cur ?s3) hi" using e th by (simp add: eligible_def)
  have nk: "nest_ok (threads s hi)" using ok(2) e by (simp add: stacks_ok_def eligible_def)
  have nk': "nest_ok (threads ?d hi)" using nk th by (simp add: dispatch_result nest_ok_def)
  note R = context_switch_result [OF c nk']
  have "rt_thread_yield c s = Some (0, ?s')" using yield_unfold [OF run] r R(1) ne by (simp add: rt_thread_self_def)
  moreover have "sched_ok ?s'" by (rule dispatch_ok [OF preempt_ok [OF E(6) c E(3)] c e']) (use nk th in simp)
  moreover have "running_on c hi ?s'" using c E(2) R(1-3) R(5) by (simp add: running_on_def dispatch_result)
  moreover have "stat_of (threads ?s' cur) = 1" unfolding R(5) using ne r3 by (simp add: dispatch_result preempt_threads yield_threads)
  moreover have key: "ready_key (threads ?s3 cur\<lparr>th_oncpu := 2\<rparr>) = ready_key (threads s cur)" by (simp add: ready_key_def yield_threads)
  have "tq (preempt c cur ?s3) = q_tail (ready_key (threads s cur)) cur (tq s)"
    using r3 key by (simp add: preempt_def yield_threads insert_detached(1))
  then have "tq ?s' (ready_key (threads s cur)) = removeAll hi (tq s (ready_key (threads s cur))) @ [cur]"
    unfolding R(4) using ne by (simp add: dispatch_def q_remove_def q_tail_def)
  ultimately show ?thesis using that by simp
qed

text \<open>
  \<^bold>\<open>C24\<close>: \<^verbatim>\<open>rt_thread_yield\<close> of a RUNNING thread outside every lock returns with the scheduler
  invariant. If a READY thread of the same or a higher priority may run on the hart, the hart
  goes to one of the highest priority and the caller waits as the last thread of its ready
  list (round robin); otherwise the caller keeps the hart.
\<close>

theorem rt_thread_yield_round_robin:
  assumes ok: "sched_ok s" and st: "stacks_ok s" and run: "running_on c cur s"
    and r3: "stat_of (threads s cur) = RT_THREAD_RUNNING"
  shows "\<exists>s' t. rt_thread_yield c s = Some (RT_EOK, s') \<and> sched_ok s' \<and> running_on c t s' \<and>
     (if \<exists>u. eligible c s u \<and> th_current_priority (threads s u) \<le> th_current_priority (threads s cur)
      then eligible c s t \<and>
           (\<forall>u. eligible c s u \<longrightarrow> th_current_priority (threads s t) \<le> th_current_priority (threads s u)) \<and>
           stat_of (threads s' cur) = RT_THREAD_READY \<and>
           tq s' (ready_key (threads s cur)) = removeAll t (tq s (ready_key (threads s cur))) @ [cur]
      else t = cur)"
proof -
  let ?s3 = "yield_entered c cur s" and ?pr = "\<lambda>u. th_current_priority (threads s u)"
  have c: "c < 2" using run by (simp add: running_on_def)
  note E = yield_entry [OF ok st run r3]
  from rt_schedule_locked [OF E(1-4) E(6) c E(7)] show ?thesis
  proof (elim disjE exE conjE)
    assume "rt_schedule c (yielding c cur s) = Some (rt_cpus_unlock c ?s3)" "\<nexists>t. eligible c ?s3 t"
    then show ?thesis using yield_kept [OF run _ E(6,3,5,4,2)] yield_eligible by auto
  next
    fix hi p
    let ?g = "\<lambda>th. th\<lparr>th_stat := th_stat th AND NOT RT_THREAD_STAT_YIELD, th_oncpu := of_nat c\<rparr>"
    assume e: "eligible c ?s3 hi" and p: "unat (th_current_priority (threads ?s3 hi)) = p"
      and low: "\<forall>t. eligible c ?s3 t \<longrightarrow> p \<le> unat (th_current_priority (threads ?s3 t))"
      and r: "rt_schedule c (yielding c cur s) = Some (if keeps_cpu (threads ?s3 cur) p then rt_cpus_unlock c (upd_thread cur ?g ?s3)
          else rt_hw_context_switch c hi (dispatch c hi (of_nat p) (preempt c cur ?s3)))"
    have low': "?pr hi \<le> ?pr t" if "eligible c s t" for t
      using low p that by (auto simp: yield_eligible yield_threads word_le_nat_alt)
    have keep: "keeps_cpu (threads ?s3 cur) p \<longleftrightarrow> ?pr cur < ?pr hi"
      using r3 yield_threads(5) p by (auto simp: keeps_cpu_def yield_threads word_less_nat_alt)
    show ?thesis
    proof (cases "keeps_cpu (threads ?s3 cur) p")
      case True
      have "sched_ok (upd_thread cur ?g ?s3)" by (rule sched_ok_upd_nest [OF E(6)]) (use cur_facts(1) [OF E(6) c E(3)] in simp_all)
      moreover have "\<not> (\<exists>u. eligible c s u \<and> ?pr u \<le> ?pr cur)" using True keep low' by (meson leD order.trans)
      ultimately show ?thesis using yield_kept [OF run, of "upd_thread cur ?g ?s3"] r True E(2-5) by auto
    next
      case False
      have e': "eligible c s hi" using e by (simp add: yield_eligible)
      moreover have "?pr hi \<le> ?pr cur" using False keep by (simp add: not_less)
      moreover obtain s' where "rt_thread_yield c s = Some (0, s')" "sched_ok s'" "running_on c hi s'" "stat_of (threads s' cur) = 1"
        "tq s' (ready_key (threads s cur)) = removeAll hi (tq s (ready_key (threads s cur))) @ [cur]"
        by (rule yield_switched [OF ok st run r3 e']) (use r False in simp_all)
      ultimately show ?thesis using low' by (intro exI [of _ s'] exI [of _ hi]) auto
    qed
  qed
qed

theorem rt_thread_yield_round_robin_witness:
  "\<exists>s' t. rt_thread_yield 0 ex_kernel = Some (RT_EOK, s') \<and> sched_ok s' \<and> running_on 0 t s' \<and>
     eligible 0 ex_kernel t \<and> tq s' (ReadyQ 10) = [1]"
proof -
  have "eligible 0 ex_kernel 3 \<and> th_current_priority (threads ex_kernel 3) \<le> th_current_priority (threads ex_kernel 1)"
    unfolding eligible_def ex_kernel_threads by simp
  then have ex: "\<exists>u. eligible 0 ex_kernel u \<and> th_current_priority (threads ex_kernel u) \<le> th_current_priority (threads ex_kernel 1)"
    by blast
  have k: "ready_key (threads ex_kernel 1) = ReadyQ 10" unfolding ready_key_def ex_kernel_threads by simp
  have q: "tq ex_kernel (ReadyQ 10) = []" by (simp add: ex_kernel_def)
  have "stat_of (threads ex_kernel 1) = 3" unfolding ex_kernel_threads by simp
  from rt_thread_yield_round_robin [OF ex_kernel_ok(1,2,3) this] ex show ?thesis
    unfolding k q by auto
qed

subsection \<open>Sleeping\<close>

lemma restD:
  assumes "rest s' = rest s"
  shows "timers s' = timers s" "tml s' = tml s" "sems s' = sems s" "mutexes s' = mutexes s"
    "events s' = events s" "mailboxes s' = mailboxes s" "mqueues s' = mqueues s"
    "cpu_tick (cpus s' c) = cpu_tick (cpus s c)"
  using assms by (auto simp: rest_def dest: fun_cong)

lemma timers_ok_cong:
  "timers s' = timers s \<Longrightarrow> tml s' = tml s \<Longrightarrow> timers_ok b s' = timers_ok b s"
proof -
  assume *: "timers s' = timers s" "tml s' = tml s"
  then have "left b s' = left b s" by (simp add: left_def fun_eq_iff)
  then show ?thesis using * by (simp add: timers_ok_def)
qed

lemma timers_ok_remove: "timers_ok b s \<Longrightarrow> timers_ok b (upd_timer i clear_active (rt_timer_remove i s))"
proof -
  assume ok: "timers_ok b s"
  have l: "left b (upd_timer i clear_active (rt_timer_remove i s)) = left b s"
    by (auto simp: left_def fun_eq_iff)
  have "sorted (map (left b s) (removeAll i (tml s TimerList)))"
    using ok unfolding timers_ok_def removeAll_filter_not_eq by (simp add: sorted_filter)
  then show ?thesis using ok q_ok_remove [of "tml s" i] unfolding timers_ok_def l by (auto simp: q_remove_def)
qed

lemma timers_ok_stop: "timers_ok b s \<Longrightarrow> rt_timer_stop i s = Some (e, s') \<Longrightarrow> timers_ok b s'"
  by (auto simp: rt_timer_stop_def timers_ok_remove split: if_splits)

lemma timers_ok_set_time: "timers_ok b s \<Longrightarrow> timers_ok b (upd_timer i (\<lambda>t. t\<lparr>tm_init_tick := n\<rparr>) s)"
proof -
  assume ok: "timers_ok b s"
  have l: "left b (upd_timer i (\<lambda>t. t\<lparr>tm_init_tick := n\<rparr>) s) = left b s" by (auto simp: left_def fun_eq_iff)
  show ?thesis using ok unfolding timers_ok_def l by auto
qed

lemma rt_timer_stop_type:
  "rt_timer_stop i s = Some (e, s') \<Longrightarrow> tm_type (timers s' j) = tm_type (timers s j)"
  by (auto simp: rt_timer_stop_def split: if_splits)

lemma sched_same_step [intro]:
  "sched_same s0 s \<Longrightarrow> sched_same s0 (upd_timer i h s)" "sched_same s0 s \<Longrightarrow> sched_same s0 (upd_tml l s)"
  by (erule sched_same_upd(4), rule sched_same_upd)+

lemma rt_timer_start_same: "rt_timer_start i s = Some s' \<Longrightarrow> sched_same s s'"
  unfolding rt_timer_start_def Let_def rt_timer_remove_def RT_ASSERT_bind option.inject
  by (elim conjE) (hypsubst, intro sched_same_step sched_same_upd(3))

text \<open>Suspending the caller with its timer running, as all waiting operations do.\<close>

definition suspend_with_timer :: "nat \<Rightarrow> tid \<Rightarrow> rt_tick_t \<Rightarrow> kernel \<Rightarrow> kernel option" where
  "suspend_with_timer c t tick s =
     do { (_, s1) \<leftarrow> rt_thread_suspend c t s;
          (_, s2) \<leftarrow> rt_timer_control (ThreadTimer t) SET_TIME tick s1;
          rt_timer_start (ThreadTimer t) s2 }"

lemma start_timer_ok:
  assumes t: "timers_ok (rt_tick_get s) s" and ty: "timer_typed u s" and n: "tick < RT_TICK_MAX div 2"
  obtains s2 s3 where "rt_timer_control (ThreadTimer u) SET_TIME tick s = Some (tick, s2)"
    "rt_timer_start (ThreadTimer u) s2 = Some s3" "sched_same s s3" "timers_ok (rt_tick_get s) s3"
    "ThreadTimer u \<in> set (tml s3 TimerList)" "left (rt_tick_get s) s3 (ThreadTimer u) = unat tick"
    "timer_typed v s3 = timer_typed v s"
proof -
  let ?s2 = "upd_timer (ThreadTimer u) (\<lambda>t. t\<lparr>tm_init_tick := tick\<rparr>) s"
  have tick: "rt_tick_get ?s2 = rt_tick_get s" by (simp add: rt_tick_get_def)
  have 1: "rt_timer_control (ThreadTimer u) SET_TIME tick s = Some (tick, ?s2)"
    using ty by (simp add: rt_timer_control_def)
  have ok: "timers_ok (rt_tick_get ?s2) ?s2" using timers_ok_set_time [OF t] tick by simp
  have st: "startable (ThreadTimer u) ?s2" using ty n by (simp add: startable_def)
  obtain s3 where s3: "rt_timer_start (ThreadTimer u) ?s2 = Some s3" "timers_ok (rt_tick_get ?s2) s3"
    "tml s3 TimerList =
       filter (\<lambda>t. left (rt_tick_get ?s2) ?s2 t \<le> unat (tm_init_tick (timers ?s2 (ThreadTimer u)))) (removeAll (ThreadTimer u) (tml ?s2 TimerList)) @
       ThreadTimer u # filter (\<lambda>t. unat (tm_init_tick (timers ?s2 (ThreadTimer u))) < left (rt_tick_get ?s2) ?s2 t) (removeAll (ThreadTimer u) (tml ?s2 TimerList))"
    "timers s3 = (timers ?s2)(ThreadTimer u := (timers ?s2 (ThreadTimer u))\<lparr>tm_timeout_tick := rt_tick_get ?s2 + tm_init_tick (timers ?s2 (ThreadTimer u)),
       tm_flag := (tm_flag (timers ?s2 (ThreadTimer u)) AND NOT RT_TIMER_FLAG_ACTIVATED) OR RT_TIMER_FLAG_ACTIVATED\<rparr>)"
    by (rule timers_ok_start [OF ok st]) blast
  have same: "sched_same ?s2 s3" by (rule rt_timer_start_same [OF s3(1)])
  have "left (rt_tick_get s) s3 (ThreadTimer u) = unat tick"
    by (simp add: left_def s3(4) tick)
  moreover have "ThreadTimer u \<in> set (tml s3 TimerList)" unfolding s3(3) by simp
  moreover have "timers_ok (rt_tick_get s) s3" using s3(2) tick by simp
  moreover have "timer_typed v s3 = timer_typed v s" unfolding s3(4) by simp
  ultimately show thesis
    using that [OF 1 s3(1) sched_same_upd(4) [OF sched_same_upd(1) same]] by blast
qed

lemma suspend_with_timer_ok:
  assumes ok: "sched_ok s" and run: "rt_thread_self c s = Some t" "c < 2"
    and r3: "stat_of (threads s t) = RT_THREAD_RUNNING"
    and ty: "rt_object_get_type (th_type (threads s t)) = RT_Object_Class_Thread" "timer_typed t s"
    and tm: "timers_ok (rt_tick_get s) s" and n: "tick < RT_TICK_MAX div 2"
  obtains s' where "suspend_with_timer c t tick s = Some s'" "sched_ok s'"
    "sched_same (upd_thread t (set_stat 2) (rt_schedule_remove_thread t s)) s'"
    "timers_ok (rt_tick_get s) s'" "ThreadTimer t \<in> set (tml s' TimerList)"
    "left (rt_tick_get s) s' (ThreadTimer t) = unat tick"
proof -
  let ?s0 = "upd_thread t (set_stat 2) (rt_schedule_remove_thread t s)"
  have cur: "cpu_current_thread (cpus s c) = Some t" using run by (simp add: rt_thread_self_def)
  have th: "thread_ok (threads s t)" by (rule cur_facts(3) [OF ok run(2) cur])
  obtain e s1 where s1: "rt_timer_stop (ThreadTimer t) ?s0 = Some (e, s1)" "sched_same ?s0 s1"
    using rt_timer_stop_same [of ?s0 "ThreadTimer t"] ty(2) by auto
  have sus: "rt_thread_suspend c t s = Some (0, s1)"
    using ty r3 run s1(1) by (simp add: rt_thread_suspend_def)
  have ok1: "sched_ok s1" using sched_ok_leave [OF ok th, of 2] sched_ok_same [OF s1(2)] by simp
  have tick: "rt_tick_get s1 = rt_tick_get s" using sched_sameD(2) [OF s1(2)] by (simp add: rt_tick_get_def)
  have "timers_ok (rt_tick_get s) ?s0" using tm timers_ok_cong [of ?s0 s] by simp
  then have tm1: "timers_ok (rt_tick_get s1) s1" using timers_ok_stop [OF _ s1(1)] tick by simp
  have ty1: "timer_typed t s1" using rt_timer_stop_type [OF s1(1), of "ThreadTimer t"] ty(2) by simp
  obtain s2 s3 where s3: "rt_timer_control (ThreadTimer t) SET_TIME tick s1 = Some (tick, s2)"
    "rt_timer_start (ThreadTimer t) s2 = Some s3" "sched_same s1 s3" "timers_ok (rt_tick_get s1) s3"
    "ThreadTimer t \<in> set (tml s3 TimerList)" "left (rt_tick_get s1) s3 (ThreadTimer t) = unat tick"
    "timer_typed t s3 = timer_typed t s1"
    by (rule start_timer_ok [OF tm1 ty1 n])
  show thesis
  proof (rule that [of s3])
    show "suspend_with_timer c t tick s = Some s3" using sus s3 by (simp add: suspend_with_timer_def)
    show "sched_ok s3" using ok1 sched_ok_same [OF s3(3)] by simp
    show "sched_same ?s0 s3" by (rule sched_same_upd(4) [OF s1(2) s3(3)])
  qed (use s3 tick in simp_all)
qed

text \<open>
  \<^bold>\<open>C23\<close>: \<^verbatim>\<open>rt_thread_sleep(tick)\<close> with fewer than half of the tick range suspends the calling
  thread, starts its timer so that it expires exactly \<^verbatim>\<open>tick\<close> ticks later, keeps the timer list
  sorted and the scheduler invariant, and the hart runs another, RUNNING thread.
\<close>

theorem rt_thread_sleep_suspends:
  assumes ok: "sched_ok s" "stacks_ok s" and run: "running_on c cur s"
    and r3: "stat_of (threads s cur) = RT_THREAD_RUNNING" and el: "eligible c s u"
    and ty: "rt_object_get_type (th_type (threads s cur)) = RT_Object_Class_Thread" "timer_typed cur s"
    and tm: "timers_ok (rt_tick_get s) s" and n: "tick < RT_TICK_MAX div 2"
  shows "\<exists>s' t. rt_thread_sleep c tick s = Some s' \<and> sched_ok s' \<and> running_on c t s' \<and> t \<noteq> cur \<and>
     stat_of (threads s' t) = RT_THREAD_RUNNING \<and> stat_of (threads s' cur) = RT_THREAD_SUSPEND \<and>
     timers_ok (rt_tick_get s') s' \<and> ThreadTimer cur \<in> set (tml s' TimerList) \<and>
     left (rt_tick_get s') s' (ThreadTimer cur) = unat tick"
proof -
  have c: "c < 2" and cur: "rt_thread_self c s = Some cur" using run by (auto simp: running_on_def rt_thread_self_def)
  obtain s1 where s1: "suspend_with_timer c cur tick s = Some s1" "sched_ok s1"
    "sched_same (upd_thread cur (set_stat 2) (rt_schedule_remove_thread cur s)) s1"
    "timers_ok (rt_tick_get s) s1" "ThreadTimer cur \<in> set (tml s1 TimerList)"
    "left (rt_tick_get s) s1 (ThreadTimer cur) = unat tick"
    by (rule suspend_with_timer_ok [OF ok(1) cur c r3 ty tm n])
  note D = sched_sameD [OF s1(3)]
  have ne: "u \<noteq> cur" using el r3 by (auto simp: eligible_def)
  have run1: "running_on c cur s1" using run by (simp add: running_on_def D)
  have st1: "stacks_ok s1" using ok(2) by (auto simp: stacks_ok_def D)
  have el1: "eligible c s1 u" using el ne by (simp add: eligible_def D)
  have nk: "\<not> keeps_cpu (threads s1 cur) p" for p by (simp add: keeps_cpu_def D)
  have sleep: "rt_thread_sleep c tick s = rt_schedule c s1"
    using s1(1) cur ty by (auto simp: rt_thread_sleep_def suspend_with_timer_def split: Option.bind_splits)
  show ?thesis
    using s1(2) st1 run1
  proof (cases rule: rt_schedule_result)
    case idle
    then show ?thesis using el1 by blast
  next
    case (stay hi)
    then show ?thesis using nk by blast
  next
    case (switch hi s')
    note R = restD [OF rest_schedule [OF switch(4)]]
    have tick: "rt_tick_get s' = rt_tick_get s" by (simp add: rt_tick_get_def R D)
    have "timers_ok (rt_tick_get s') s'" using s1(4) timers_ok_cong [OF R(1,2)] tick by simp
    moreover have "left (rt_tick_get s') s' (ThreadTimer cur) = unat tick"
      using s1(6) tick by (simp add: left_def R)
    moreover have "stat_of (threads s' cur) = 2" using switch(8) by (simp add: D)
    moreover have "stat_of (threads s' hi) = 3" using switch(7) by simp
    ultimately show ?thesis using sleep switch(4,5,6,11) s1(5) R(2) by auto
  qed
qed

theorem rt_thread_sleep_suspends_witness:
  "\<exists>s' t. rt_thread_sleep 0 50 ex_kernel = Some s' \<and> running_on 0 t s' \<and> t \<noteq> 1 \<and>
     left (rt_tick_get s') s' (ThreadTimer 1) = 50"
proof -
  have e: "eligible 0 ex_kernel 3" unfolding eligible_def ex_kernel_threads by simp
  have r: "stat_of (threads ex_kernel 1) = 3" unfolding ex_kernel_threads by simp
  have ty: "rt_object_get_type (th_type (threads ex_kernel 1)) = 1"
    unfolding ex_kernel_threads by (simp add: ex_kernel_types)
  have tm: "timers_ok (rt_tick_get ex_kernel) ex_kernel" by (simp add: timers_ok_def ex_kernel_def q_ok_def)
  have "(50 :: u32) < RT_TICK_MAX div 2" by simp
  from rt_thread_sleep_suspends [OF ex_kernel_ok(1,2,3) r e ty ex_kernel_types(1) tm this]
  show ?thesis by auto
qed

end
