(* ===== verification/Clock.thy ===== *)
theory Clock
  imports Thread
begin

text \<open>
  \<^verbatim>\<open>src/clock.c\<close> and \<^verbatim>\<open>rt_timer_check\<close> of \<^verbatim>\<open>src/timer.c\<close>: the work of the tick interrupt. The
  timeout functions of application timers are the parameter \<open>cb\<close>; that of a thread's own
  timer is \<^verbatim>\<open>rt_thread_timeout\<close>.

  A timer that \<^verbatim>\<open>rt_timer_check\<close> has moved to the list on its stack is in \<open>TempList\<close>. The
  function does not unlink it from there, so on return the nodes of one-shot timers point
  into a dead stack frame; the model keeps them in \<open>TempList\<close> until the next call, and later
  removals act as if the dead frame were intact.
\<close>

subsection \<open>Operations\<close>

definition rt_tick_set :: "rt_tick_t \<Rightarrow> kernel \<Rightarrow> kernel" where
  "rt_tick_set tick s = upd_cpu 0 (\<lambda>cpu. cpu\<lparr>cpu_tick := tick\<rparr>) s"

abbreviation (input) RT_TICK_PER_SECOND :: int where "RT_TICK_PER_SECOND \<equiv> 1000"

text \<open>C division truncates; \<^verbatim>\<open>ms\<close> is not negative in the branch that divides.\<close>

definition rt_tick_from_millisecond :: "32 word \<Rightarrow> rt_tick_t" where
  "rt_tick_from_millisecond ms =
     (if sint ms < 0 then 0xffffffff
      else word_of_int (RT_TICK_PER_SECOND * (sint ms div 1000)) +
           word_of_int ((RT_TICK_PER_SECOND * (sint ms mod 1000) + 999) div 1000))"

definition rt_thread_mdelay :: "nat \<Rightarrow> 32 word \<Rightarrow> kernel \<Rightarrow> kernel option" where
  "rt_thread_mdelay c ms s = rt_thread_sleep c (rt_tick_from_millisecond ms) s"

type_synonym callbacks = "nat \<Rightarrow> nat \<Rightarrow> kernel \<Rightarrow> kernel option"

definition run_timeout_func :: "callbacks \<Rightarrow> nat \<Rightarrow> timer_id \<Rightarrow> kernel \<Rightarrow> kernel option" where
  "run_timeout_func cb c i s =
     (case tm_timeout_func (timers s i) of
        Rt_thread_timeout t \<Rightarrow> rt_thread_timeout c t s
      | User_timeout n \<Rightarrow> cb n c s)"

text \<open>The timer is taken off the running timers and linked into the temporary list.\<close>

definition timer_to_temp :: "timer_id \<Rightarrow> kernel \<Rightarrow> kernel" where
  "timer_to_temp i s =
     (let s1 = rt_timer_remove i s;
          s2 = (if tm_flag (timers s1 i) AND RT_TIMER_FLAG_PERIODIC = 0 then upd_timer i clear_active s1 else s1)
      in upd_tml (q_head TempList i) s2)"

partial_function (option) timer_check_loop :: "callbacks \<Rightarrow> nat \<Rightarrow> rt_tick_t \<Rightarrow> kernel \<Rightarrow> kernel option" where
  "timer_check_loop cb c current_tick s =
     (case tml s TimerList of
        [] \<Rightarrow> Some s
      | i # _ \<Rightarrow>
          if current_tick - tm_timeout_tick (timers s i) < RT_TICK_MAX div 2
          then Option.bind (run_timeout_func cb c i (timer_to_temp i s)) (\<lambda>s1.
               if tml s1 TempList \<noteq> [] \<and>
                  tm_flag (timers s1 i) AND RT_TIMER_FLAG_PERIODIC \<noteq> 0 \<and>
                  tm_flag (timers s1 i) AND RT_TIMER_FLAG_ACTIVATED \<noteq> 0
               then Option.bind (rt_timer_start i (upd_timer i clear_active s1)) (\<lambda>s2.
                    timer_check_loop cb c (rt_tick_get s1) s2)
               else timer_check_loop cb c (rt_tick_get s1) s1)
          else Some s)"

definition rt_timer_check :: "callbacks \<Rightarrow> nat \<Rightarrow> kernel \<Rightarrow> kernel option" where
  "rt_timer_check cb c s =
     do { let current_tick = rt_tick_get s;
          s1 \<leftarrow> rt_cpus_lock c (upd_tml (\<lambda>L. L(TempList := [])) s);
          s2 \<leftarrow> timer_check_loop cb c current_tick s1;
          Some (rt_cpus_unlock c s2) }"

definition rt_tick_increase :: "callbacks \<Rightarrow> nat \<Rightarrow> kernel \<Rightarrow> kernel option" where
  "rt_tick_increase cb c s =
     do { let s1 = upd_cpu c (\<lambda>cpu. cpu\<lparr>cpu_tick := cpu_tick cpu + 1\<rparr>) s;
          t \<leftarrow> rt_thread_self c s1;
          let s2 = upd_thread t (\<lambda>th. th\<lparr>th_remaining_tick := th_remaining_tick th - 1\<rparr>) s1;
          s4 \<leftarrow> (if th_remaining_tick (threads s2 t) = 0
                 then rt_schedule c (upd_thread t (\<lambda>th. th\<lparr>th_remaining_tick := th_init_tick th,
                                       th_stat := th_stat th OR RT_THREAD_STAT_YIELD\<rparr>) s2)
                 else Some s2);
          rt_timer_check cb c s4 }"

subsection \<open>Milliseconds\<close>

text \<open>
  With the configured 1000 ticks per second \<^verbatim>\<open>rt_tick_from_millisecond\<close> is exact: every
  non-negative \<^verbatim>\<open>ms\<close> is that many ticks and a negative one is \<^verbatim>\<open>RT_WAITING_FOREVER\<close>, the largest
  tick; the intermediate products do not overflow.
\<close>

theorem rt_tick_from_millisecond_exact:
  "rt_tick_from_millisecond ms = (if sint ms < 0 then -1 else ms) \<and>
   RT_TICK_PER_SECOND * (max 0 (sint ms) div 1000) < 2 ^ 31 \<and>
   RT_TICK_PER_SECOND * (max 0 (sint ms) mod 1000) + 999 < 2 ^ 31"
proof -
  have b: "sint ms < 2 ^ 31" using sint_lt [of ms] by simp
  have "1000 * (max 0 (sint ms) div 1000) \<le> max 0 (sint ms)" by simp
  moreover have "max 0 (sint ms) < 2 ^ 31" using b by simp
  ultimately have 1: "1000 * (max 0 (sint ms) div 1000) < 2 ^ 31" by linarith
  have "max 0 (sint ms) mod 1000 < 1000" by simp
  then have 2: "1000 * (max 0 (sint ms) mod 1000) + 999 < 2 ^ 31" by simp
  have q: "(1000 * (x mod 1000) + 999) div 1000 = x mod 1000" for x :: int by simp
  have "rt_tick_from_millisecond ms = ms" if "\<not> sint ms < 0"
  proof -
    have "rt_tick_from_millisecond ms = word_of_int (1000 * (sint ms div 1000) + sint ms mod 1000)"
      using that by (simp only: rt_tick_from_millisecond_def if_False q of_int_add)
    also have "\<dots> = word_of_int (sint ms)" by simp
    finally show ?thesis by simp
  qed
  then show ?thesis using 1 2 by (auto simp: rt_tick_from_millisecond_def)
qed


subsection \<open>Expired thread timers\<close>

text \<open>In an interrupt \<^verbatim>\<open>rt_schedule\<close> only marks that a switch is due.\<close>

lemma rt_schedule_in_irq:
  assumes cur: "cpu_current_thread (cpus s c) = Some cur" and irq: "cpu_irq_nest (cpus s c) \<noteq> 0"
    and n: "th_cpus_lock_nest (threads s cur) \<noteq> 0" "th_cpus_lock_nest (threads s cur) \<noteq> -1"
  shows "rt_schedule c s = Some (upd_cpu c (\<lambda>cpu. cpu\<lparr>cpu_irq_switch_flag := 1\<rparr>) s)"
proof -
  let ?u = "upd_cpu c (\<lambda>cpu. cpu\<lparr>cpu_irq_switch_flag := 1\<rparr>)"
  let ?l = "upd_thread cur (\<lambda>th. th\<lparr>th_cpus_lock_nest := th_cpus_lock_nest th + 1\<rparr>)"
  have lock: "rt_cpus_lock c s = Some (?l s)" by (rule rt_cpus_lock_nested [OF cur n(1)])
  have comm: "?u (?l s) = ?l (?u s)" by (simp add: upd_cpu_def upd_thread_def)
  have "rt_cpus_lock c (?u s) = Some (?l (?u s))"
    by (rule rt_cpus_lock_nested) (use cur n in simp_all)
  then have "rt_cpus_unlock c (?u (?l s)) = ?u s"
    unfolding comm by (rule rt_cpus_unlock_lock) (use cur n in auto)
  then show ?thesis using lock irq by (simp add: rt_schedule_def)
qed

text \<open>The effect of one expired thread timer.\<close>

definition expire :: "nat \<Rightarrow> tid \<Rightarrow> kernel \<Rightarrow> kernel" where
  "expire c t s = upd_cpu c (\<lambda>cpu. cpu\<lparr>cpu_irq_switch_flag := 1\<rparr>)
     (rt_schedule_insert_thread c t (upd_tq (q_remove t)
       (upd_thread t (\<lambda>th. th\<lparr>th_error := - RT_ETIMEOUT\<rparr>) (timer_to_temp (ThreadTimer t) s))))"

lemma timer_to_temp_sel [simp]:
  "tml (timer_to_temp i s) = q_head TempList i (q_remove i (tml s))"
  "threads (timer_to_temp i s) = threads s" "cpus (timer_to_temp i s) = cpus s" "tq (timer_to_temp i s) = tq s"
  "cpus_lock (timer_to_temp i s) = cpus_lock s" "ready_priority_group (timer_to_temp i s) = ready_priority_group s"
  "tm_type (timers (timer_to_temp i s) j) = tm_type (timers s j)"
  "tm_timeout_tick (timers (timer_to_temp i s) j) = tm_timeout_tick (timers s j)"
  "tm_init_tick (timers (timer_to_temp i s) j) = tm_init_tick (timers s j)"
  "tm_timeout_func (timers (timer_to_temp i s) j) = tm_timeout_func (timers s j)"
  "tm_flag (timers (timer_to_temp i s) j) = (if j = i \<and> tm_flag (timers s i) AND 2 = 0 then tm_flag (timers s i) AND NOT 1 else tm_flag (timers s j))"
  by (simp_all add: timer_to_temp_def Let_def)

lemma and_not_1_2 [simp]: "(w AND -2) AND 2 = w AND (2 :: u8)"
proof -
  have "(w AND NOT 1) AND 2 = w AND (2 :: u8)"
    by (rule bit_word_eqI) (auto simp: bit_simps bit_1_iff)
  then show ?thesis by simp
qed

lemma expire_sel [simp]:
  "tml (expire c t s) = q_head TempList (ThreadTimer t) (q_remove (ThreadTimer t) (tml s))"
  "cpus_lock (expire c t s) = cpus_lock s"
  "timers (expire c t s) = timers (timer_to_temp (ThreadTimer t) s)"
  "cpu_current_thread (cpus (expire c t s) d) = cpu_current_thread (cpus s d)"
  "cpu_irq_nest (cpus (expire c t s) d) = cpu_irq_nest (cpus s d)"
  "cpu_tick (cpus (expire c t s) d) = cpu_tick (cpus s d)"
  "cpu_irq_switch_flag (cpus (expire c t s) c) = 1"
  "threads (expire c t s) = (threads s)(t := set_stat (if th_oncpu (threads s t) = 2 then 1 else 3)
     (threads s t\<lparr>th_error := -2\<rparr>))"
  by (simp_all add: expire_def insert_threads)

lemma expire_ok:
  assumes "sched_ok s" "thread_ok (threads s t)" "stat_of (threads s t) = 2"
  shows "sched_ok (expire c t s)"
proof -
  have "sched_ok (timer_to_temp (ThreadTimer t) s)" by (rule sched_ok_cong [OF assms(1)]) simp_all
  then have "sched_ok (upd_thread t (\<lambda>th. th\<lparr>th_error := -2\<rparr>) (timer_to_temp (ThreadTimer t) s))"
    by (rule sched_ok_upd_nest) simp_all
  then have "sched_ok (upd_tq (q_remove t) (upd_thread t (\<lambda>th. th\<lparr>th_error := -2\<rparr>) (timer_to_temp (ThreadTimer t) s)))"
    by (rule sched_ok_unlink) (use assms in simp)
  then have "sched_ok (rt_schedule_insert_thread c t (upd_tq (q_remove t)
      (upd_thread t (\<lambda>th. th\<lparr>th_error := -2\<rparr>) (timer_to_temp (ThreadTimer t) s))))"
    by (rule sched_ok_insert) (use assms(2) in \<open>simp_all add: thread_ok_def\<close>)
  then show ?thesis unfolding expire_def by (rule sched_ok_cong) auto
qed

text \<open>A thread that waits for its own, one-shot timer.\<close>

definition waits :: "kernel \<Rightarrow> timer_id \<Rightarrow> bool" where
  "waits s i \<longleftrightarrow> (\<exists>t. i = ThreadTimer t \<and> tm_timeout_func (timers s i) = Rt_thread_timeout t \<and>
     tm_flag (timers s i) AND RT_TIMER_FLAG_PERIODIC = 0 \<and> stat_of (threads s t) = RT_THREAD_SUSPEND \<and>
     thread_ok (threads s t) \<and> rt_object_get_type (th_type (threads s t)) = RT_Object_Class_Thread)"

text \<open>The tick interrupt on hart \<open>c\<close>, which runs \<open>cur\<close> and holds the lock.\<close>

definition in_tick :: "nat \<Rightarrow> tid \<Rightarrow> kernel \<Rightarrow> bool" where
  "in_tick c cur s \<longleftrightarrow> cpu_current_thread (cpus s c) = Some cur \<and> cpu_irq_nest (cpus s c) \<noteq> 0 \<and>
     th_cpus_lock_nest (threads s cur) = 1"

lemma run_timeout_expire:
  assumes "in_tick c cur s" "waits s (ThreadTimer t)"
  shows "run_timeout_func cb c (ThreadTimer t) (timer_to_temp (ThreadTimer t) s) = Some (expire c t s)"
proof -
  let ?s = "rt_schedule_insert_thread c t (upd_tq (q_remove t)
      (upd_thread t (\<lambda>th. th\<lparr>th_error := -2\<rparr>) (timer_to_temp (ThreadTimer t) s)))"
  have "rt_schedule c ?s = Some (upd_cpu c (\<lambda>cpu. cpu\<lparr>cpu_irq_switch_flag := 1\<rparr>) ?s)"
    by (rule rt_schedule_in_irq [of _ _ cur]) (use assms(1) in \<open>auto simp: in_tick_def insert_threads\<close>)
  then show ?thesis using assms(2)
    by (auto simp: waits_def run_timeout_func_def rt_thread_timeout_def expire_def)
qed

lemma expire_step:
  assumes "in_tick c cur s" "sched_ok s" "waits s (ThreadTimer t)"
  shows "in_tick c cur (expire c t s)" "sched_ok (expire c t s)"
    "waits s i \<Longrightarrow> i \<noteq> ThreadTimer t \<Longrightarrow> waits (expire c t s) i"
    "rt_tick_get (expire c t s) = rt_tick_get s"
  using assms expire_ok [of s t c]
  by (auto simp: in_tick_def waits_def rt_tick_get_def)


lemma expired_iff:
  assumes "rt_tick_get s = b + of_nat d" "d < 0x40000000" "left b s i < 0x7fffffff"
  shows "rt_tick_get s - tm_timeout_tick (timers s i) < RT_TICK_MAX div 2 \<longleftrightarrow> left b s i \<le> d"
proof -
  let ?x = "rt_tick_get s" and ?y = "tm_timeout_tick (timers s i)"
  have d: "unat (?x - b) = d" using assms(1,2) by (simp add: unsigned_of_nat take_bit_nat_eq_self)
  have y: "unat (?y - b) = left b s i" by (simp add: left_def)
  have "unat (?x - b) < 0x7fffffff" using d assms(2) by simp
  note cmp = tick_compare [OF this, of ?y, unfolded y, OF assms(3), unfolded d]
  show ?thesis
  proof (cases "?x - ?y = 0")
    case True
    then show ?thesis using cmp(1) by (simp only: True) auto
  next
    case False
    then show ?thesis using cmp(1) cmp(2) [OF False] by auto
  qed
qed

lemma timer_check_loop_thread_timers:
  assumes "in_tick c cur s" "sched_ok s" "q_ok (tml s)"
    "\<forall>i \<in> set xs. waits s i" "tml s TimerList = xs @ ys"
    "\<forall>i \<in> set xs. now - tm_timeout_tick (timers s i) < RT_TICK_MAX div 2"
    "ys = [] \<or> \<not> now - tm_timeout_tick (timers s (hd ys)) < RT_TICK_MAX div 2"
    "now = rt_tick_get s"
  obtains s' where "timer_check_loop cb c now s = Some s'" "in_tick c cur s'" "sched_ok s'"
    "tml s' TimerList = ys" "tml s' TempList = rev xs @ tml s TempList" "q_ok (tml s')"
    "\<forall>t. threads s' t = (if ThreadTimer t \<in> set xs
        then set_stat (if th_oncpu (threads s t) = 2 then 1 else 3) (threads s t\<lparr>th_error := -2\<rparr>) else threads s t)"
    "\<forall>i. tm_timeout_tick (timers s' i) = tm_timeout_tick (timers s i)"
    "\<forall>i. tm_type (timers s' i) = tm_type (timers s i)" "cpus_lock s' = cpus_lock s"
    "rt_tick_get s' = rt_tick_get s" "xs \<noteq> [] \<longrightarrow> cpu_irq_switch_flag (cpus s' c) = 1"
  using assms
proof (induction xs arbitrary: s thesis)
  case Nil
  have "timer_check_loop cb c now s = Some s"
    using Nil.prems by (subst timer_check_loop.simps) (auto split: list.split)
  then show ?case using Nil.prems by (intro Nil.prems(1)) auto
next
  case (Cons i xs)
  obtain t where t: "i = ThreadTimer t" and w: "waits s (ThreadTimer t)"
    using Cons.prems(5) by (auto simp: waits_def)
  let ?s = "expire c t s"
  note st = expire_step [OF Cons.prems(2,3) w]
  have dist: "i \<notin> set xs" "i \<notin> set ys" "i \<notin> set (tml s TempList)"
  proof -
    have d: "distinct (tml s TimerList)" using Cons.prems(4) by (simp add: q_ok_def)
    then show "i \<notin> set xs" "i \<notin> set ys" using Cons.prems(6) by auto
    have "i \<in> set (tml s TimerList)" using Cons.prems(6) by simp
    then show "i \<notin> set (tml s TempList)" using q_okD [OF Cons.prems(4)] by blast
  qed
  have tmp: "tml ?s TempList = i # tml s TempList" "tml ?s TimerList = xs @ ys"
    using dist Cons.prems(6) by (simp_all add: t q_head_def q_remove_def removeAll_id)
  have q': "q_ok (tml ?s)" using q_ok_head [OF q_ok_remove [OF Cons.prems(4)]] by simp
  have flag: "tm_flag (timers ?s i) AND 2 = 0" using w by (simp add: t waits_def)
  have step: "timer_check_loop cb c now s = timer_check_loop cb c now ?s"
    using Cons.prems(6,7,9) run_timeout_expire [OF Cons.prems(2) w, of cb] flag st(4)
    by (subst timer_check_loop.simps) (simp add: t)
  have w': "\<forall>j \<in> set xs. waits ?s j" using Cons.prems(5) dist(1) st(3) t by auto
  show ?case
  proof (rule Cons.IH [OF _ st(1,2) q' w' tmp(2)])
    show "\<forall>j \<in> set xs. now - tm_timeout_tick (timers ?s j) < RT_TICK_MAX div 2" using Cons.prems(7) by simp
    show "ys = [] \<or> \<not> now - tm_timeout_tick (timers ?s (hd ys)) < RT_TICK_MAX div 2" using Cons.prems(8) by simp
    show "now = rt_tick_get ?s" using Cons.prems(9) st(4) by simp
    fix s'
    assume IH: "timer_check_loop cb c now ?s = Some s'" "in_tick c cur s'" "sched_ok s'"
      "tml s' TimerList = ys" "tml s' TempList = rev xs @ tml ?s TempList" "q_ok (tml s')"
      "\<forall>u. threads s' u = (if ThreadTimer u \<in> set xs
        then set_stat (if th_oncpu (threads ?s u) = 2 then 1 else 3) (threads ?s u\<lparr>th_error := -2\<rparr>) else threads ?s u)"
      "\<forall>i. tm_timeout_tick (timers s' i) = tm_timeout_tick (timers ?s i)"
      "\<forall>i. tm_type (timers s' i) = tm_type (timers ?s i)" "cpus_lock s' = cpus_lock ?s"
      "rt_tick_get s' = rt_tick_get ?s" "xs \<noteq> [] \<longrightarrow> cpu_irq_switch_flag (cpus s' c) = 1"
    have fl: "cpu_irq_switch_flag (cpus s' c) = 1"
    proof (cases "xs = []")
      case True
      have "timer_check_loop cb c now ?s = Some ?s"
        using tmp(2) True Cons.prems(8) by (subst timer_check_loop.simps) (auto split: list.split)
      then show ?thesis using IH(1) by simp
    qed (use IH(12) in simp)
    have "threads s' u = (if ThreadTimer u \<in> set (i # xs)
        then set_stat (if th_oncpu (threads s u) = 2 then 1 else 3) (threads s u\<lparr>th_error := -2\<rparr>) else threads s u)" for u
      using spec [OF IH(7), of u] dist(1) t by auto
    then have "\<forall>u. threads s' u = (if ThreadTimer u \<in> set (i # xs)
        then set_stat (if th_oncpu (threads s u) = 2 then 1 else 3) (threads s u\<lparr>th_error := -2\<rparr>) else threads s u)" by blast
    then show thesis
    proof (rule Cons.prems(1) [rotated 6])
      show "timer_check_loop cb c now s = Some s'" using IH(1) step by simp
      show "tml s' TempList = rev (i # xs) @ tml s TempList" using IH(5) tmp(1) by simp
      show "\<forall>j. tm_timeout_tick (timers s' j) = tm_timeout_tick (timers s j)" using IH(8) by simp
      show "\<forall>j. tm_type (timers s' j) = tm_type (timers s j)" using IH(9) by simp
      show "cpus_lock s' = cpus_lock s" using IH(10) by simp
      show "rt_tick_get s' = rt_tick_get s" using IH(11) st(4) by simp
    qed (use IH(2,3,4,6) fl in simp_all)
  qed
qed


lemma sorted_split:
  "sorted (map f xs) \<Longrightarrow> xs = filter (\<lambda>x. f x \<le> d) xs @ filter (\<lambda>x. d < f x) xs" for f :: "'a \<Rightarrow> nat"
proof (induction xs)
  case (Cons x xs)
  show ?case
  proof (cases "f x \<le> d")
    case False
    then have "\<forall>y \<in> set xs. d < f y" using Cons.prems by (auto intro: less_le_trans)
    then have "filter (\<lambda>x. f x \<le> d) xs = []" "filter (\<lambda>x. d < f x) xs = xs"
      by (auto simp: filter_empty_conv not_le filter_id_conv)
    then show ?thesis using False by simp
  qed (use Cons in auto)
qed simp

lemma left_advance:
  assumes "left b s i < 0x7fffffff" "d < left b s i"
  shows "left (b + of_nat d) s i = left b s i - d"
proof -
  let ?w = "tm_timeout_tick (timers s i) - b"
  have d: "unat (of_nat d :: u32) = d" using assms by (simp add: left_def unsigned_of_nat take_bit_nat_eq_self)
  have "of_nat d \<le> ?w" using assms(2) by (simp add: word_le_nat_alt d left_def)
  then have "unat (?w - of_nat d) = unat ?w - d" by (simp only: unat_sub d)
  then show ?thesis by (simp add: left_def diff_diff_eq)
qed

lemma timers_ok_advance:
  assumes "timers_ok b s" "tml s' TimerList = filter (\<lambda>i. d < left b s i) (tml s TimerList)" "q_ok (tml s')"
    "\<And>i. tm_timeout_tick (timers s' i) = tm_timeout_tick (timers s i)"
    "\<And>i. tm_type (timers s' i) = tm_type (timers s i)"
  shows "timers_ok (b + of_nat d) s'"
proof -
  have l: "left b' s' = left b' s" for b' using assms(4) by (simp add: left_def fun_eq_iff)
  let ?ys = "filter (\<lambda>i. d < left b s i) (tml s TimerList)"
  have adv: "left (b + of_nat d) s' i = left b s i - d" if "i \<in> set ?ys" for i
    using left_advance [of b s i d] assms(1) that unfolding l by (auto simp: timers_ok_def)
  have "sorted (map (left b s) ?ys)" using assms(1) by (simp add: timers_ok_def sorted_filter)
  then have "sorted (map (\<lambda>i. left b s i - d) ?ys)"
    by (auto simp: sorted_iff_nth_mono intro: diff_le_mono)
  moreover have "map (left (b + of_nat d) s') ?ys = map (\<lambda>i. left b s i - d) ?ys"
    by (rule map_cong) (simp_all add: adv del: set_filter)
  ultimately have so: "sorted (map (left (b + of_nat d) s') ?ys)" by (simp only:)
  show ?thesis
    unfolding timers_ok_def assms(2)
  proof (intro conjI ballI so assms(3))
    fix i
    assume i: "i \<in> set ?ys"
    show "left (b + of_nat d) s' i < 0x7fffffff" unfolding adv [OF i] using assms(1) i by (auto simp: timers_ok_def less_imp_diff_less)
    show "rt_object_get_type (tm_type (timers s' i)) = 0x0a" using assms(1,5) i by (auto simp: timers_ok_def)
  qed
qed

text \<open>The tick interrupt of a hart that runs \<open>cur\<close> outside every lock.\<close>

definition in_irq :: "nat \<Rightarrow> tid \<Rightarrow> kernel \<Rightarrow> bool" where
  "in_irq c cur s \<longleftrightarrow> cpu_current_thread (cpus s c) = Some cur \<and> cpu_irq_nest (cpus s c) \<noteq> 0 \<and>
     cpus_lock s = None \<and> th_cpus_lock_nest (threads s cur) = 0"

lemma rt_timer_check_result:
  assumes ok: "sched_ok s" and tm: "timers_ok b s" and now: "rt_tick_get s = b + of_nat d" "d < 0x40000000"
    and w: "\<forall>i \<in> set (tml s TimerList). waits s i" and irq: "in_irq c cur s"
  obtains s' where "rt_timer_check cb c s = Some s'" "sched_ok s'"
    "tml s' TimerList = filter (\<lambda>i. d < left b s i) (tml s TimerList)"
    "tml s' TempList = rev (filter (\<lambda>i. left b s i \<le> d) (tml s TimerList))" "timers_ok (rt_tick_get s') s'"
    "rt_tick_get s' = rt_tick_get s"
    "\<And>t. stat_of (threads s' t) = (if ThreadTimer t \<in> set (tml s TimerList) \<and> left b s (ThreadTimer t) \<le> d
       then (if th_oncpu (threads s t) = 2 then 1 else 3) else stat_of (threads s t))"
    "\<And>t. th_error (threads s' t) = (if ThreadTimer t \<in> set (tml s TimerList) \<and> left b s (ThreadTimer t) \<le> d
       then -2 else th_error (threads s t))"
proof -
  let ?s0 = "upd_tml (\<lambda>L. L(TempList := [])) s"
  define s1 where s1: "s1 = upd_thread cur (\<lambda>th. th\<lparr>th_cpus_lock_nest := 1,
     th_scheduler_lock_nest := th_scheduler_lock_nest th + 1\<rparr>) (?s0\<lparr>cpus_lock := Some c\<rparr>)"
  have lock: "rt_cpus_lock c ?s0 = Some s1"
    unfolding s1 by (rule rt_cpus_lock_free) (use irq in \<open>simp_all add: in_irq_def\<close>)
  have "sched_ok ?s0" by (rule sched_ok_cong [OF ok]) simp_all
  then have ok1: "sched_ok s1" by (rule rt_cpus_lock_ok(1) [OF lock])
  have i1: "in_tick c cur s1" using irq by (simp add: in_tick_def in_irq_def s1)
  have q1: "q_ok (tml s1)" using tm by (auto simp: s1 timers_ok_def q_ok_def)
  let ?xs = "filter (\<lambda>i. left b s i \<le> d) (tml s TimerList)" and ?ys = "filter (\<lambda>i. d < left b s i) (tml s TimerList)"
  have split: "tml s1 TimerList = ?xs @ ?ys"
    using sorted_split [of "left b s" "tml s TimerList" d] tm by (simp add: s1 timers_ok_def)
  have w1: "\<forall>i \<in> set ?xs. waits s1 i" using w by (auto simp: s1 waits_def thread_ok_def)
  have tick1: "rt_tick_get s1 = rt_tick_get s" by (simp add: rt_tick_get_def s1)
  have ex: "rt_tick_get s - tm_timeout_tick (timers s1 i) < RT_TICK_MAX div 2 \<longleftrightarrow> left b s i \<le> d"
    if "i \<in> set (tml s TimerList)" for i
    using expired_iff [OF now, of i] tm that by (simp add: timers_ok_def s1)
  have e1: "\<forall>i \<in> set ?xs. rt_tick_get s - tm_timeout_tick (timers s1 i) < RT_TICK_MAX div 2" using ex by auto
  have e2: "?ys = [] \<or> \<not> rt_tick_get s - tm_timeout_tick (timers s1 (hd ?ys)) < RT_TICK_MAX div 2"
  proof (cases ?ys)
    case (Cons y zs)
    then have "y \<in> set ?ys" by simp
    then have "\<not> left b s y \<le> d" "y \<in> set (tml s TimerList)" by simp_all
    then show ?thesis using ex [of y] Cons by simp
  qed simp
  obtain s2 where s2: "timer_check_loop cb c (rt_tick_get s) s1 = Some s2" "in_tick c cur s2" "sched_ok s2"
    "tml s2 TimerList = ?ys" "tml s2 TempList = rev ?xs @ tml s1 TempList" "q_ok (tml s2)"
    "\<forall>t. threads s2 t = (if ThreadTimer t \<in> set ?xs
        then set_stat (if th_oncpu (threads s1 t) = 2 then 1 else 3) (threads s1 t\<lparr>th_error := -2\<rparr>) else threads s1 t)"
    "\<forall>i. tm_timeout_tick (timers s2 i) = tm_timeout_tick (timers s1 i)"
    "\<forall>i. tm_type (timers s2 i) = tm_type (timers s1 i)" "cpus_lock s2 = cpus_lock s1"
    "rt_tick_get s2 = rt_tick_get s1" "?xs \<noteq> [] \<longrightarrow> cpu_irq_switch_flag (cpus s2 c) = 1"
    by (rule timer_check_loop_thread_timers [OF i1 ok1 q1 w1 split e1 e2 tick1 [symmetric], where cb = cb])
  have r: "rt_timer_check cb c s = Some (rt_cpus_unlock c s2)"
    using lock s2(1) by (simp add: rt_timer_check_def Let_def)
  note R = restD [OF rest_unlock [of c s2]]
  have tick2: "rt_tick_get (rt_cpus_unlock c s2) = rt_tick_get s"
    using s2(11) tick1 by (simp add: rt_tick_get_def R)
  have "timers_ok (b + of_nat d) (rt_cpus_unlock c s2)"
    by (rule timers_ok_advance [OF tm]) (use s2 in \<open>simp_all add: R s1\<close>)
  then have tm2: "timers_ok (rt_tick_get (rt_cpus_unlock c s2)) (rt_cpus_unlock c s2)" using now tick2 by simp
  have un: "th_error (threads (rt_cpus_unlock c s2) t) = th_error (threads s2 t)" for t
    by (simp add: rt_cpus_unlock_def Let_def split: option.split)
  show thesis
  proof (rule that [OF r _ _ _ tm2 tick2])
    show "sched_ok (rt_cpus_unlock c s2)" by (rule sched_ok_unlock [OF s2(3)])
    show "tml (rt_cpus_unlock c s2) TimerList = ?ys" "tml (rt_cpus_unlock c s2) TempList = rev ?xs"
      using s2(4,5) by (simp_all add: R s1)
    show "stat_of (threads (rt_cpus_unlock c s2) t) = (if ThreadTimer t \<in> set (tml s TimerList) \<and> left b s (ThreadTimer t) \<le> d
       then (if th_oncpu (threads s t) = 2 then 1 else 3) else stat_of (threads s t))"
      "th_error (threads (rt_cpus_unlock c s2) t) = (if ThreadTimer t \<in> set (tml s TimerList) \<and> left b s (ThreadTimer t) \<le> d
       then -2 else th_error (threads s t))" for t
      unfolding unlock_threads un using s2(7) by (simp_all add: s1)
  qed
qed

text \<open>
  \<^bold>\<open>C15\<close>: The tick interrupt wakes exactly the threads whose time is over. Let the timer list be
  sorted relative to a tick \<open>b\<close> and let \<open>d\<close> ticks have passed since; if all running timers are
  those of waiting threads, \<^verbatim>\<open>rt_timer_check\<close> terminates without a failed assertion, keeps the
  scheduler invariant, leaves exactly the timers with more than \<open>d\<close> ticks left in the list,
  sorted relative to the current tick, and gives every thread whose timer expired the error
  \<^verbatim>\<open>-RT_ETIMEOUT\<close> and the status READY (RUNNING if it is still on a hart); all other threads
  keep status and error.
\<close>

theorem rt_timer_check_wakes_expired:
  assumes "sched_ok s" "timers_ok b s" "rt_tick_get s = b + of_nat d" "d < 0x40000000"
    "\<forall>i \<in> set (tml s TimerList). waits s i" "in_irq c cur s"
  shows "\<exists>s'. rt_timer_check cb c s = Some s' \<and> sched_ok s' \<and> timers_ok (rt_tick_get s') s' \<and>
     tml s' TimerList = filter (\<lambda>i. d < left b s i) (tml s TimerList) \<and>
     (\<forall>t. if ThreadTimer t \<in> set (tml s TimerList) \<and> left b s (ThreadTimer t) \<le> d
          then th_error (threads s' t) = - RT_ETIMEOUT \<and>
               stat_of (threads s' t) = (if th_oncpu (threads s t) = RT_CPU_DETACHED then RT_THREAD_READY else RT_THREAD_RUNNING)
          else th_error (threads s' t) = th_error (threads s t) \<and> stat_of (threads s' t) = stat_of (threads s t))"
  by (rule rt_timer_check_result [OF assms, of cb]) auto

text \<open>
  \<^bold>\<open>C25\<close>: After \<^verbatim>\<open>rt_timer_check\<close> returns, the nodes of all one-shot timers that expired are still
  linked into the list whose head was on the stack of that call: the function takes them off
  the running timers but never off its temporary list.
\<close>

theorem rt_timer_check_leaves_timers_on_stack_list:
  assumes "sched_ok s" "timers_ok b s" "rt_tick_get s = b + of_nat d" "d < 0x40000000"
    "\<forall>i \<in> set (tml s TimerList). waits s i" "in_irq c cur s"
  shows "\<exists>s'. rt_timer_check cb c s = Some s' \<and>
     tml s' TempList = rev (filter (\<lambda>i. left b s i \<le> d) (tml s TimerList))"
  by (rule rt_timer_check_result [OF assms, of cb]) auto

text \<open>Threads 4 and 5 of the example state sleep, for 1 and for 3 more ticks.\<close>

definition ex_tick :: kernel where
  "ex_tick = ex_kernel\<lparr>cpus := (cpus ex_kernel)(0 := (ex_cpu (Some 1))\<lparr>cpu_irq_nest := 1\<rparr>),
     timers := (timers ex_kernel)(ThreadTimer 4 := (ex_timer (ThreadTimer 4))\<lparr>tm_flag := 1, tm_timeout_tick := 100\<rparr>,
       ThreadTimer 5 := (ex_timer (ThreadTimer 5))\<lparr>tm_flag := 1, tm_timeout_tick := 102\<rparr>),
     tml := (\<lambda>k. if k = TimerList then [ThreadTimer 4, ThreadTimer 5] else [])\<rparr>"

lemma ex_tick_ok:
  "sched_ok ex_tick" "timers_ok 99 ex_tick" "rt_tick_get ex_tick = 99 + of_nat 1"
  "\<forall>i \<in> set (tml ex_tick TimerList). waits ex_tick i" "in_irq 0 1 ex_tick"
proof -
  show "sched_ok ex_tick" by (rule sched_ok_cong [OF ex_kernel_ok(1)]) (simp_all add: ex_tick_def ex_kernel_def ex_cpu_def)
  show "timers_ok 99 ex_tick"
    by (simp add: timers_ok_def ex_tick_def left_def q_ok_def ex_timer_def rt_object_get_type_def)
  show "rt_tick_get ex_tick = 99 + of_nat 1" by (simp add: rt_tick_get_def ex_tick_def ex_cpu_def)
  show "\<forall>i \<in> set (tml ex_tick TimerList). waits ex_tick i"
    by (simp add: ex_tick_def waits_def ex_kernel_threads ex_timer_def ex_thread_ok ex_kernel_types)
  show "in_irq 0 1 ex_tick" unfolding in_irq_def
    by (simp add: ex_tick_def ex_cpu_def ex_kernel_def)
qed

theorem rt_timer_check_wakes_expired_witness:
  "\<exists>s'. rt_timer_check (\<lambda>_ _. Some) 0 ex_tick = Some s' \<and> sched_ok s' \<and>
     tml s' TimerList = [ThreadTimer 5] \<and> th_error (threads s' 4) = - RT_ETIMEOUT \<and>
     stat_of (threads s' 4) = RT_THREAD_READY \<and> stat_of (threads s' 5) = RT_THREAD_SUSPEND"
proof -
  have l: "left 99 ex_tick (ThreadTimer 4) = 1" "left 99 ex_tick (ThreadTimer 5) = 3"
    and m: "tml ex_tick TimerList = [ThreadTimer 4, ThreadTimer 5]"
    and o: "threads ex_tick = threads ex_kernel"
    by (simp_all add: ex_tick_def left_def)
  obtain s' where s': "rt_timer_check (\<lambda>_ _. Some) 0 ex_tick = Some s'" "sched_ok s'"
    "tml s' TimerList = filter (\<lambda>i. 1 < left 99 ex_tick i) (tml ex_tick TimerList)"
    and all: "\<forall>t. if ThreadTimer t \<in> set (tml ex_tick TimerList) \<and> left 99 ex_tick (ThreadTimer t) \<le> 1
          then th_error (threads s' t) = -2 \<and>
               stat_of (threads s' t) = (if th_oncpu (threads ex_tick t) = 2 then 1 else 3)
          else th_error (threads s' t) = th_error (threads ex_tick t) \<and> stat_of (threads s' t) = stat_of (threads ex_tick t)"
    using rt_timer_check_wakes_expired [OF ex_tick_ok(1-3) _ ex_tick_ok(4,5), of "\<lambda>_ _. Some"] by auto
  show ?thesis using s' spec [OF all, of 4] spec [OF all, of 5] by (simp add: l m o ex_kernel_threads)
qed

theorem rt_timer_check_leaves_timers_on_stack_list_witness:
  "\<exists>s'. rt_timer_check (\<lambda>_ _. Some) 0 ex_tick = Some s' \<and> tml s' TempList = [ThreadTimer 4]"
proof -
  have l: "left 99 ex_tick (ThreadTimer 4) = 1" "left 99 ex_tick (ThreadTimer 5) = 3"
    and m: "tml ex_tick TimerList = [ThreadTimer 4, ThreadTimer 5]" by (simp_all add: ex_tick_def left_def)
  show ?thesis
    using rt_timer_check_leaves_timers_on_stack_list [OF ex_tick_ok(1-3) _ ex_tick_ok(4,5), of "\<lambda>_ _. Some"]
    by (auto simp: l m)
qed

end
