(* ===== verification/Kernel_Inv.thy ===== *)
theory Kernel_Inv
  imports Clock
begin

text \<open>
  The invariant of the whole kernel that the IPC operations rely on and keep: the scheduler's
  data, the timer list, and the well-formedness of every thread that has been started. It
  is what \<^verbatim>\<open>rt_schedule\<close>, \<^verbatim>\<open>rt_thread_suspend\<close> and \<^verbatim>\<open>rt_thread_resume\<close> promise to their callers
  in \<^verbatim>\<open>ipc.c\<close>; the lemmas here are the interface between the two.
\<close>

definition live :: "rt_thread \<Rightarrow> bool" where
  "live th \<longleftrightarrow> stat_of th = RT_THREAD_READY \<or> stat_of th = RT_THREAD_SUSPEND \<or> stat_of th = RT_THREAD_RUNNING"

definition thread_wf :: "rt_thread \<Rightarrow> bool" where
  "thread_wf th \<longleftrightarrow> thread_ok th \<and> rt_object_get_type (th_type th) = RT_Object_Class_Thread \<and>
     rt_scheduler_stack_check th = Some () \<and> (th_oncpu th = RT_CPU_DETACHED \<longrightarrow> nest_ok th)"

definition kernel_ok :: "kernel \<Rightarrow> bool" where
  "kernel_ok s \<longleftrightarrow> sched_ok s \<and> timers_ok (rt_tick_get s) s \<and>
     (\<forall>t. live (threads s t) \<longrightarrow> thread_wf (threads s t) \<and> timer_typed t s)"

lemma thread_wf_upd [simp]:
  "thread_wf (th\<lparr>th_stat := a\<rparr>) = thread_wf th" "thread_wf (set_stat a th) = thread_wf th"
  "thread_wf (th\<lparr>th_error := e\<rparr>) = thread_wf th" "thread_wf (th\<lparr>th_event_set := x\<rparr>) = thread_wf th"
  "thread_wf (th\<lparr>th_event_info := y\<rparr>) = thread_wf th"
  by (simp_all add: thread_wf_def thread_ok_def rt_scheduler_stack_check_def nest_ok_def set_stat_def)

lemma live_upd [simp]:
  "live (th\<lparr>th_error := e\<rparr>) = live th" "live (th\<lparr>th_event_set := x\<rparr>) = live th"
  "live (th\<lparr>th_event_info := y\<rparr>) = live th"
  by (simp_all add: live_def)

text \<open>The fields of a thread that scheduling does not write.\<close>

definition th_frame :: "rt_thread \<Rightarrow> rt_thread \<Rightarrow> bool" where
  "th_frame th th' \<longleftrightarrow> th' = th\<lparr>th_stat := th_stat th', th_oncpu := th_oncpu th',
     th_cpus_lock_nest := th_cpus_lock_nest th', th_scheduler_lock_nest := th_scheduler_lock_nest th'\<rparr>"

lemma th_frameI:
  "th_frame th th" "th_frame th (th\<lparr>th_stat := a\<rparr>)" "th_frame th (set_stat a th)"
  "th_frame th (th\<lparr>th_stat := a, th_oncpu := b, th_cpus_lock_nest := d, th_scheduler_lock_nest := e\<rparr>)"
  "th_frame th (set_stat a (th\<lparr>th_oncpu := b, th_cpus_lock_nest := d, th_scheduler_lock_nest := e\<rparr>))"
  by (cases th; simp add: th_frame_def set_stat_def)+

lemma th_frame_trans: "th_frame a b \<Longrightarrow> th_frame b d \<Longrightarrow> th_frame a d"
  by (cases a; cases b; cases d; simp add: th_frame_def)

lemma th_frameD:
  assumes "th_frame th th'"
  shows "th_error th' = th_error th" "th_current_priority th' = th_current_priority th"
    "th_init_priority th' = th_init_priority th" "th_number_mask th' = th_number_mask th"
    "th_bind_cpu th' = th_bind_cpu th" "th_event_set th' = th_event_set th"
    "th_event_info th' = th_event_info th" "th_type th' = th_type th"
    "rt_scheduler_stack_check th' = rt_scheduler_stack_check th" "thread_ok th' = thread_ok th"
    "ready_key th' = ready_key th"
  using assms by (cases th; cases th'; simp add: th_frame_def rt_scheduler_stack_check_def thread_ok_def ready_key_def)+

lemma kernel_okD:
  assumes "kernel_ok s"
  shows "sched_ok s" "timers_ok (rt_tick_get s) s"
    "live (threads s t) \<Longrightarrow> thread_wf (threads s t)" "live (threads s t) \<Longrightarrow> timer_typed t s" "stacks_ok s"
proof -
  show "sched_ok s" "timers_ok (rt_tick_get s) s"
    "live (threads s t) \<Longrightarrow> thread_wf (threads s t)" "live (threads s t) \<Longrightarrow> timer_typed t s"
    using assms by (auto simp: kernel_ok_def)
  have on: "th_oncpu (threads s t) = 2" if "stat_of (threads s t) = 1" for t
  proof -
    have rq: "rq_ok {} s" using assms by (simp add: kernel_ok_def sched_ok_def)
    then have "t \<in> set (tq s (ready_key (threads s t)))" using that unfolding rq_ok_def by blast
    then show ?thesis using rq_okD(4) [OF rq] by simp
  qed
  have "thread_wf (threads s t)" if "stat_of (threads s t) = 1" for t
    using assms that by (simp add: kernel_ok_def live_def)
  then show "stacks_ok s" unfolding stacks_ok_def thread_wf_def using on by blast
qed

lemma kernel_okI:
  assumes "sched_ok s" "timers_ok (rt_tick_get s) s"
    "\<And>t. live (threads s t) \<Longrightarrow> thread_wf (threads s t) \<and> timer_typed t s"
  shows "kernel_ok s"
  using assms by (simp add: kernel_ok_def)

lemma non_ready_q:
  assumes "sched_ok s" "stat_of (threads s t) = 1" "\<not> is_ready q"
  shows "t \<notin> set (tq s q)"
proof
  assume "t \<in> set (tq s q)"
  then have "stat_of (threads s t) = q_stat q" using assms(1) by (auto simp: sched_ok_def intro: rq_okD)
  then show False using assms(2,3) by (simp add: q_stat_ready)
qed

lemma running_not_queued:
  assumes "sched_ok s" "stat_of (threads s t) = 3"
  shows "t \<notin> set (tq s q)"
proof
  assume "t \<in> set (tq s q)"
  then have "stat_of (threads s t) = q_stat q" using assms(1) by (auto simp: sched_ok_def intro: rq_okD)
  then show False using assms(2) by (cases q) simp_all
qed

lemma suspend_q_stat:
  assumes "sched_ok s" "t \<in> set (tq s (SuspendQ k)) \<or> t \<in> set (tq s (SenderQ k))"
  shows "stat_of (threads s t) = 2"
  using assms rq_okD(1) [of "{}" s t "SuspendQ k"] rq_okD(1) [of "{}" s t "SenderQ k"] by (auto simp: sched_ok_def)

subsection \<open>Scheduling\<close>

lemma kernel_ok_cong:
  assumes "kernel_ok s" "rest s' = rest s" "sched_ok s'"
    "\<And>t. live (threads s' t) \<Longrightarrow> live (threads s t) \<and> thread_wf (threads s' t)"
  shows "kernel_ok s'"
proof (rule kernel_okI)
  note R = restD [OF assms(2)]
  have "rt_tick_get s' = rt_tick_get s" by (simp add: rt_tick_get_def R)
  then show "timers_ok (rt_tick_get s') s'" using kernel_okD(2) [OF assms(1)] timers_ok_cong [OF R(1,2)] by simp
  show "thread_wf (threads s' t) \<and> timer_typed t s'" if "live (threads s' t)" for t
    using assms(4) [OF that] kernel_okD(4) [OF assms(1), of t] by (simp add: R)
qed (rule assms(3))

lemma kernel_ok_schedule:
  assumes ok: "kernel_ok s" and run: "running_on c cur s"
    and some: "stat_of (threads s cur) = 3 \<or> (\<exists>u. eligible c s u)" and lv: "live (threads s cur)"
  obtains s' t where "rt_schedule c s = Some s'" "kernel_ok s'" "running_on c t s'"
    "stat_of (threads s' t) = 3" "t = cur \<or> eligible c s t" "rest s' = rest s"
    "\<forall>u. th_frame (threads s u) (threads s' u)"
    "\<forall>q. \<not> is_ready q \<longrightarrow> tq s' q = tq s q"
    "\<forall>u. stat_of (threads s' u) = 2 \<longleftrightarrow> stat_of (threads s u) = 2"
    "\<forall>u. eligible c s u \<longrightarrow> th_current_priority (threads s t) \<le> th_current_priority (threads s u)"
    "\<forall>u. live (threads s u) \<longrightarrow> live (threads s' u)"
  using kernel_okD(1) [OF ok] kernel_okD(5) [OF ok] run
proof (cases rule: rt_schedule_result)
  case idle
  then show thesis using that [of s cur] ok run some by (auto simp: th_frameI)
next
  case (stay hi)
  let ?s = "upd_thread cur (\<lambda>th. th\<lparr>th_stat := th_stat th AND NOT RT_THREAD_STAT_YIELD\<rparr>) s"
  have s3: "stat_of (threads s cur) = 3" using stay by (simp add: keeps_cpu_def)
  have le: "th_current_priority (threads s cur) \<le> th_current_priority (threads s hi)"
    using stay(2) by (auto simp: keeps_cpu_def word_le_nat_alt)
  have sk: "sched_ok ?s" by (rule sched_ok_upd_nest [OF kernel_okD(1) [OF ok]]) simp_all
  have kk: "kernel_ok ?s"
    using ok sk kernel_okD(3) [OF ok]
    by (intro kernel_ok_cong [OF ok]) (auto simp: live_def split: if_splits)
  show thesis
    by (rule that [of ?s cur, OF stay(4) kk])
      (use run s3 stay(3) le in \<open>auto simp: running_on_def th_frameI live_def intro: order.trans\<close>)
next
  case (switch hi s')
  obtain st where cur': "threads s' cur = threads s cur\<lparr>th_stat := st, th_oncpu := 2, th_cpus_lock_nest := 1, th_scheduler_lock_nest := 1\<rparr>"
    using switch(12) by blast
  have r: "rest s' = rest s" by (rule rest_schedule [OF switch(4)])
  have fr: "th_frame (threads s u) (threads s' u)" for u
    by (cases "u = cur"; cases "u = hi") (use cur' switch(7,10) in \<open>simp_all add: th_frameI\<close>)
  have wf: "live (threads s u) \<and> thread_wf (threads s' u)" if "live (threads s' u)" for u
  proof -
    have l: "live (threads s u)"
    proof (cases "u = cur \<or> u = hi")
      case True
      then show ?thesis using lv switch(1) by (auto simp: live_def eligible_def)
    qed (use that switch(10) in auto)
    moreover have "th_oncpu (threads s' u) = 2 \<longrightarrow> nest_ok (threads s' u)"
      by (cases "u = cur"; cases "u = hi")
        (use cur' switch(7,10) kernel_okD(3) [OF ok l] in \<open>simp_all add: nest_ok_def thread_wf_def\<close>)
    ultimately show ?thesis
      using kernel_okD(3) [OF ok l] th_frameD [OF fr [of u]] by (simp add: thread_wf_def)
  qed
  have hi1: "stat_of (threads s hi) = 1" using switch(1) by (simp add: eligible_def)
  have q: "tq s' q = tq s q" if "\<not> is_ready q" for q
  proof -
    have ne: "q \<noteq> ready_key (threads s cur)" using that by auto
    have "hi \<notin> set (tq s q)" by (rule non_ready_q [OF kernel_okD(1) [OF ok] hi1 that])
    then show ?thesis using ne by (simp add: switch(13) q_remove_def q_tail_def removeAll_id)
  qed
  have st2: "stat_of (threads s' u) = 2 \<longleftrightarrow> stat_of (threads s u) = 2" for u
    by (cases "u = cur"; cases "u = hi") (use hi1 switch(7,8,10) in \<open>auto split: if_splits\<close>)
  have lv': "live (threads s' u)" if "live (threads s u)" for u
    by (cases "u = cur"; cases "u = hi")
      (use that lv switch(7,8,10) in \<open>auto simp: live_def split: if_splits\<close>)
  show thesis
    by (rule that [of s' hi, OF switch(4) kernel_ok_cong [OF ok r switch(5) wf] switch(6)])
      (use switch(1,3,7) fr q st2 r lv' in auto)
qed

subsection \<open>Resuming a thread\<close>

definition ipcs :: "kernel \<Rightarrow> (nat \<rightharpoonup> rt_semaphore) \<times> (nat \<rightharpoonup> rt_mutex) \<times> (nat \<rightharpoonup> rt_event) \<times>
    (nat \<rightharpoonup> rt_mailbox) \<times> (nat \<rightharpoonup> rt_messagequeue)" where
  "ipcs s = (sems s, mutexes s, events s, mailboxes s, mqueues s)"

lemma ipcsD:
  assumes "ipcs s' = ipcs s"
  shows "sems s' = sems s" "mutexes s' = mutexes s" "events s' = events s" "mailboxes s' = mailboxes s" "mqueues s' = mqueues s"
  using assms by (simp_all add: ipcs_def)

lemma ipcs_rest: "rest s' = rest s \<Longrightarrow> ipcs s' = ipcs s"
  by (simp add: rest_def ipcs_def)

lemma ipcs_same: "sched_same s s' \<Longrightarrow> ipcs s' = ipcs s"
  by (simp add: ipcs_def sched_sameD)

lemma ipcs_upd [simp]:
  "ipcs (upd_thread t f s) = ipcs s" "ipcs (upd_tq l s) = ipcs s"
  "ipcs (rt_schedule_remove_thread t s) = ipcs s" "ipcs (rt_schedule_insert_thread c t s) = ipcs s"
  by (simp_all add: ipcs_def)

text \<open>What is the same before and after an operation that does not schedule.\<close>

definition hart_frame :: "kernel \<Rightarrow> kernel \<Rightarrow> bool" where
  "hart_frame s s' \<longleftrightarrow> cpus_lock s' = cpus_lock s \<and> (\<forall>c. cpu_current_thread (cpus s' c) = cpu_current_thread (cpus s c) \<and>
     cpu_irq_nest (cpus s' c) = cpu_irq_nest (cpus s c) \<and> cpu_tick (cpus s' c) = cpu_tick (cpus s c)) \<and>
     (\<forall>t. th_cpus_lock_nest (threads s' t) = th_cpus_lock_nest (threads s t) \<and>
        th_scheduler_lock_nest (threads s' t) = th_scheduler_lock_nest (threads s t))"

lemma hart_frame_running: "hart_frame s s' \<Longrightarrow> running_on c t s' = running_on c t s"
  by (simp add: hart_frame_def running_on_def)

lemma hart_frame_trans: "hart_frame s s' \<Longrightarrow> hart_frame s' s'' \<Longrightarrow> hart_frame s s''"
  by (simp add: hart_frame_def)

lemma hart_frame_refl [simp]: "hart_frame s s"
  by (simp add: hart_frame_def)

lemma hart_frame_same: "sched_same s s' \<Longrightarrow> hart_frame s s'"
  by (simp add: hart_frame_def sched_sameD)

lemma hart_frame_tick: "hart_frame s s' \<Longrightarrow> rt_tick_get s' = rt_tick_get s"
  by (simp add: hart_frame_def rt_tick_get_def)

lemma hart_frame_self: "hart_frame s s' \<Longrightarrow> rt_thread_self c s' = rt_thread_self c s"
  by (simp add: hart_frame_def rt_thread_self_def)

lemma kernel_ok_resume:
  assumes ok: "kernel_ok s" and st: "stat_of (threads s t) = 2"
  obtains s' where "rt_thread_resume c t s = Some (0, s')" "kernel_ok s'"
    "threads s' = (threads s)(t := set_stat (if th_oncpu (threads s t) = 2 then 1 else 3) (threads s t))"
    "\<forall>q. \<not> is_ready q \<longrightarrow> tq s' q = removeAll t (tq s q)" "ipcs s' = ipcs s" "hart_frame s s'"
proof -
  let ?s1 = "upd_tq (q_remove t) s"
  have lv: "live (threads s t)" using st by (simp add: live_def)
  have wf: "thread_wf (threads s t)" "timer_typed t s" using kernel_okD(3,4) [OF ok lv] by auto
  obtain e s2 where s2: "rt_timer_stop (ThreadTimer t) ?s1 = Some (e, s2)" "sched_same ?s1 s2"
    using rt_timer_stop_same [of ?s1 "ThreadTimer t"] wf(2) by auto
  note D = sched_sameD [OF s2(2)]
  let ?s' = "rt_schedule_insert_thread c t s2"
  have r: "rt_thread_resume c t s = Some (0, ?s')"
    using wf st s2(1) by (simp add: rt_thread_resume_def thread_wf_def)
  have "sched_ok s2" using sched_ok_unlink [OF kernel_okD(1) [OF ok], of t] st sched_ok_same [OF s2(2)] by simp
  then have sk: "sched_ok ?s'" by (rule sched_ok_insert) (use wf in \<open>simp_all add: D thread_wf_def\<close>)
  have tick: "rt_tick_get ?s' = rt_tick_get s" by (simp add: rt_tick_get_def D)
  have "timers_ok (rt_tick_get s) ?s1" using kernel_okD(2) [OF ok] timers_ok_cong [of ?s1 s] by simp
  then have "timers_ok (rt_tick_get s) s2" using timers_ok_stop s2(1) by blast
  then have tm: "timers_ok (rt_tick_get ?s') ?s'" using tick timers_ok_cong [of ?s' s2] by simp
  have th: "threads ?s' = (threads s)(t := set_stat (if th_oncpu (threads s t) = 2 then 1 else 3) (threads s t))"
    by (simp add: insert_threads D)
  have ty: "timer_typed u ?s' = timer_typed u s" for u
    using rt_timer_stop_type [OF s2(1), of "ThreadTimer u"] by simp
  have kk: "kernel_ok ?s'"
  proof (rule kernel_okI [OF sk tm])
    show "thread_wf (threads ?s' u) \<and> timer_typed u ?s'" if "live (threads ?s' u)" for u
      using that kernel_okD(3,4) [OF ok, of u] lv unfolding ty th by (auto split: if_splits)
  qed
  have q: "tq ?s' q = removeAll t (tq s q)" if "\<not> is_ready q" for q
  proof -
    have "q \<noteq> ready_key (threads s t)" using that by auto
    then show ?thesis
      by (cases "th_oncpu (threads s2 t) = 2") (simp_all add: insert_detached insert_running D q_tail_def q_remove_def)
  qed
  have "hart_frame s ?s'" unfolding hart_frame_def th by (simp add: D)
  then show thesis using that [OF r kk th] q ipcs_same [OF s2(2)] by simp
qed

subsection \<open>Suspending the running thread\<close>

lemma kernel_ok_suspend:
  assumes ok: "kernel_ok s" and run: "running_on c t s" and st: "stat_of (threads s t) = 3"
  obtains s' where "rt_thread_suspend c t s = Some (0, s')" "kernel_ok s'"
    "threads s' = (threads s)(t := set_stat 2 (threads s t))" "tq s' = tq s" "ipcs s' = ipcs s" "hart_frame s s'"
proof -
  let ?s1 = "upd_thread t (set_stat 2) (rt_schedule_remove_thread t s)"
  have lv: "live (threads s t)" using st by (simp add: live_def)
  have wf: "thread_wf (threads s t)" "timer_typed t s" using kernel_okD(3,4) [OF ok lv] by auto
  obtain e s' where s': "rt_timer_stop (ThreadTimer t) ?s1 = Some (e, s')" "sched_same ?s1 s'"
    using rt_timer_stop_same [of ?s1 "ThreadTimer t"] wf(2) by auto
  note D = sched_sameD [OF s'(2)]
  have r: "rt_thread_suspend c t s = Some (0, s')"
    using wf st s'(1) run by (simp add: rt_thread_suspend_def thread_wf_def running_on_def rt_thread_self_def)
  have "sched_ok ?s1" using kernel_okD(1) [OF ok] wf by (intro sched_ok_leave) (simp_all add: thread_wf_def)
  then have sk: "sched_ok s'" using sched_ok_same [OF s'(2)] by simp
  have tick: "rt_tick_get s' = rt_tick_get s" by (simp add: rt_tick_get_def D)
  have "timers_ok (rt_tick_get s) ?s1" using kernel_okD(2) [OF ok] timers_ok_cong [of ?s1 s] by simp
  then have tm: "timers_ok (rt_tick_get s') s'" using timers_ok_stop s'(1) tick by metis
  have th: "threads s' = (threads s)(t := set_stat 2 (threads s t))" by (simp add: D)
  have ty: "timer_typed u s' = timer_typed u s" for u
    using rt_timer_stop_type [OF s'(1), of "ThreadTimer u"] by simp
  have kk: "kernel_ok s'"
  proof (rule kernel_okI [OF sk tm])
    show "thread_wf (threads s' u) \<and> timer_typed u s'" if "live (threads s' u)" for u
      using that kernel_okD(3,4) [OF ok, of u] lv unfolding ty th by (auto split: if_splits)
  qed
  have "t \<notin> set (tq s q)" for q by (rule running_not_queued [OF kernel_okD(1) [OF ok] st])
  then have q: "tq s' = tq s" by (simp add: D q_remove_def removeAll_id fun_eq_iff)
  have "hart_frame s s'" unfolding hart_frame_def th by (simp add: D)
  then show thesis using that [OF r kk th q] ipcs_same [OF s'(2)] by simp
qed

lemma sched_ok_enqueue:
  assumes "sched_ok s" "q_stat q = stat_of (threads s t)" "\<not> is_ready q" "q_ok ((tq s)(q := xs))"
    "set xs = insert t (set (tq s q))"
  shows "sched_ok (upd_tq (\<lambda>Q. Q(q := xs)) s)"
proof -
  have rq: "rq_ok {} s" and cp: "cpu_ok s" using assms(1) by (auto simp: sched_ok_def)
  have ne: "q \<noteq> ReadyQ p" "q \<noteq> CpuReadyQ d p" "q \<noteq> ready_key th" for p d th using assms(3) by auto
  have g: "groups_ok ((tq s)(q := xs)) (ready_priority_group s) (\<lambda>c. cpu_priority_group (cpus s c))"
    using rq ne by (auto simp: rq_ok_def groups_ok_def)
  have qd: "queued_ok ((tq s)(q := xs)) (threads s)"
    using rq assms(2,3,5) unfolding rq_ok_def queued_ok_def by (auto split: if_splits)
  have rd: "\<forall>u. stat_of (threads s u) = 1 \<and> u \<notin> {} \<longrightarrow> u \<in> set (((tq s)(q := xs)) (ready_key (threads s u)))"
    using rq ne unfolding rq_ok_def by auto
  have "rq_ok {} (upd_tq (\<lambda>Q. Q(q := xs)) s)"
    unfolding rq_ok_def upd_tq_sel using assms(4) g qd rd by blast
  moreover have "cpu_ok (upd_tq (\<lambda>Q. Q(q := xs)) s)" using cp by (simp add: cpu_ok_def)
  ultimately show ?thesis by (simp add: sched_ok_def)
qed

lemma kernel_ok_enqueue:
  assumes "kernel_ok s" "q_stat q = stat_of (threads s t)" "\<not> is_ready q" "q_ok ((tq s)(q := xs))"
    "set xs = insert t (set (tq s q))"
  shows "kernel_ok (upd_tq (\<lambda>Q. Q(q := xs)) s)"
proof (rule kernel_ok_cong [OF assms(1)])
  show "sched_ok (upd_tq (\<lambda>Q. Q(q := xs)) s)"
    by (rule sched_ok_enqueue [OF kernel_okD(1) [OF assms(1)] assms(2-5)])
qed (use kernel_okD(3) [OF assms(1)] in simp_all)

subsection \<open>Updates that leave the scheduler alone\<close>

lemma kernel_ok_upd_thread:
  assumes "kernel_ok s" "stat_of (f (threads s t)) = stat_of (threads s t)"
    "th_current_priority (f (threads s t)) = th_current_priority (threads s t)"
    "th_bind_cpu (f (threads s t)) = th_bind_cpu (threads s t)"
    "th_number_mask (f (threads s t)) = th_number_mask (threads s t)"
    "th_oncpu (f (threads s t)) = th_oncpu (threads s t)"
    "live (f (threads s t)) = live (threads s t)" "thread_wf (f (threads s t)) = thread_wf (threads s t)"
  shows "kernel_ok (upd_thread t f s)"
proof (rule kernel_ok_cong [OF assms(1)])
  show "sched_ok (upd_thread t f s)" by (rule sched_ok_upd_nest [OF kernel_okD(1) [OF assms(1)]]) fact+
qed (use assms(7,8) kernel_okD(3) [OF assms(1)] in \<open>auto split: if_splits\<close>)

lemma kernel_ok_upd [simp]:
  "kernel_ok s \<Longrightarrow> kernel_ok (upd_thread t (\<lambda>th. th\<lparr>th_error := e\<rparr>) s)"
  "kernel_ok s \<Longrightarrow> kernel_ok (upd_thread t (\<lambda>th. th\<lparr>th_event_set := x, th_event_info := y\<rparr>) s)"
  "kernel_ok s \<Longrightarrow> kernel_ok (upd_thread t (\<lambda>th. th\<lparr>th_event_set := x\<rparr>) s)"
  by (auto intro!: kernel_ok_upd_thread simp: th_frameI live_def)

lemma hart_frame_upd [simp]:
  "hart_frame s (upd_thread t (\<lambda>th. th\<lparr>th_error := e\<rparr>) s)"
  "hart_frame s (upd_thread t (\<lambda>th. th\<lparr>th_event_set := x, th_event_info := y\<rparr>) s)"
  "hart_frame s (upd_thread t (\<lambda>th. th\<lparr>th_event_set := x\<rparr>) s)"
  "hart_frame s (upd_tq g s)"
  by (simp_all add: hart_frame_def)

lemma kernel_ok_ipc [simp]:
  "kernel_ok (s\<lparr>sems := a\<rparr>) = kernel_ok s" "kernel_ok (s\<lparr>mutexes := b\<rparr>) = kernel_ok s"
  "kernel_ok (s\<lparr>events := d\<rparr>) = kernel_ok s" "kernel_ok (s\<lparr>mailboxes := e\<rparr>) = kernel_ok s"
  "kernel_ok (s\<lparr>mqueues := f\<rparr>) = kernel_ok s"
proof -
  have tm: "timers_ok x (s\<lparr>sems := a\<rparr>) = timers_ok x s" "timers_ok x (s\<lparr>mutexes := b\<rparr>) = timers_ok x s"
    "timers_ok x (s\<lparr>events := d\<rparr>) = timers_ok x s" "timers_ok x (s\<lparr>mailboxes := e\<rparr>) = timers_ok x s"
    "timers_ok x (s\<lparr>mqueues := f\<rparr>) = timers_ok x s" for x
    by (rule timers_ok_cong; simp)+
  show "kernel_ok (s\<lparr>sems := a\<rparr>) = kernel_ok s" "kernel_ok (s\<lparr>mutexes := b\<rparr>) = kernel_ok s"
    "kernel_ok (s\<lparr>events := d\<rparr>) = kernel_ok s" "kernel_ok (s\<lparr>mailboxes := e\<rparr>) = kernel_ok s"
    "kernel_ok (s\<lparr>mqueues := f\<rparr>) = kernel_ok s"
    by (simp_all add: kernel_ok_def sched_ok_def rq_ok_def cpu_ok_def rt_tick_get_def tm)
qed

lemma running_on_ipc [simp]:
  "running_on c t (s\<lparr>sems := a\<rparr>) = running_on c t s" "running_on c t (s\<lparr>mutexes := b\<rparr>) = running_on c t s"
  "running_on c t (s\<lparr>events := d\<rparr>) = running_on c t s" "running_on c t (s\<lparr>mailboxes := e\<rparr>) = running_on c t s"
  "running_on c t (s\<lparr>mqueues := f\<rparr>) = running_on c t s"
  by (simp_all add: running_on_def)

lemma eligible_ipc [simp]:
  "eligible c (s\<lparr>sems := a\<rparr>) t = eligible c s t" "eligible c (s\<lparr>mutexes := b\<rparr>) t = eligible c s t"
  "eligible c (s\<lparr>events := d\<rparr>) t = eligible c s t" "eligible c (s\<lparr>mailboxes := e\<rparr>) t = eligible c s t"
  "eligible c (s\<lparr>mqueues := f\<rparr>) t = eligible c s t"
  by (simp_all add: eligible_def)

end
