(* ===== verification/Ipc.thy ===== *)
theory Ipc
  imports Kernel_Inv
begin

text \<open>
  The first part of \<^verbatim>\<open>src/ipc.c\<close>: the waiting lists that all IPC objects share.

  Waiting times are signed 32-bit values: positive for a number of ticks, zero for no
  waiting, negative for waiting forever. An operation that can block returns \<open>Done\<close> with its
  error code, or \<open>Blocked\<close> when it has suspended the caller and switched; what the caller
  executes when it runs again is the function with the suffix \<open>_resume\<close>.
\<close>

datatype outcome = Done rt_err_t | Blocked

type_synonym rt_int32_t = "32 word"

subsection \<open>Context checks\<close>

definition RT_DEBUG_NOT_IN_INTERRUPT :: "nat \<Rightarrow> kernel \<Rightarrow> unit option" where
  "RT_DEBUG_NOT_IN_INTERRUPT c s = RT_ASSERT (cpu_irq_nest (cpus s c) = 0)"

definition RT_DEBUG_IN_THREAD_CONTEXT :: "nat \<Rightarrow> kernel \<Rightarrow> unit option" where
  "RT_DEBUG_IN_THREAD_CONTEXT c s =
     do { RT_ASSERT (rt_thread_self c s \<noteq> None); RT_DEBUG_NOT_IN_INTERRUPT c s }"

subsection \<open>Waiting lists\<close>

definition rt_ipc_list_suspend :: "nat \<Rightarrow> qid \<Rightarrow> tid \<Rightarrow> u8 \<Rightarrow> kernel \<Rightarrow> kernel option" where
  "rt_ipc_list_suspend c q t flag s =
     do { (_, s1) \<leftarrow> rt_thread_suspend c t s;
          Some (if flag = RT_IPC_FLAG_FIFO then upd_tq (q_tail q t) s1
                else if flag = RT_IPC_FLAG_PRIO
                then (case find (\<lambda>u. th_current_priority (threads s1 t) < th_current_priority (threads s1 u)) (tq s1 q) of
                        Some u \<Rightarrow> upd_tq (q_before q u t) s1
                      | None \<Rightarrow> upd_tq (q_tail q t) s1)
                else s1) }"

definition rt_ipc_list_resume :: "nat \<Rightarrow> qid \<Rightarrow> kernel \<Rightarrow> kernel option" where
  "rt_ipc_list_resume c q s =
     do { t \<leftarrow> first_of (tq s q);
          (_, s1) \<leftarrow> rt_thread_resume c t s;
          Some s1 }"

text \<open>The loop does not end if a thread in the list is not suspended; that it is proved below.\<close>

partial_function (option) rt_ipc_list_resume_all :: "nat \<Rightarrow> qid \<Rightarrow> kernel \<Rightarrow> kernel option" where
  "rt_ipc_list_resume_all c q s =
     (case tq s q of
        [] \<Rightarrow> Some s
      | t # _ \<Rightarrow>
          Option.bind (rt_thread_resume c t (upd_thread t (\<lambda>th. th\<lparr>th_error := - RT_ERROR\<rparr>) s))
            (\<lambda>r. rt_ipc_list_resume_all c q (snd r)))"

text \<open>
  The blocking section of the take, receive and send operations: suspend the caller on the
  list, start its timer if the waiting time is positive, and schedule.
\<close>

definition start_thread_timer :: "tid \<Rightarrow> rt_int32_t \<Rightarrow> kernel \<Rightarrow> kernel option" where
  "start_thread_timer t time s =
     (if sint time > 0
      then do { (_, s1) \<leftarrow> rt_timer_control (ThreadTimer t) SET_TIME time s;
                rt_timer_start (ThreadTimer t) s1 }
      else Some s)"

definition ipc_block :: "nat \<Rightarrow> qid \<Rightarrow> tid \<Rightarrow> u8 \<Rightarrow> rt_int32_t \<Rightarrow> kernel \<Rightarrow> kernel option" where
  "ipc_block c q t flag time s =
     do { s1 \<leftarrow> rt_ipc_list_suspend c q t flag s;
          s2 \<leftarrow> start_thread_timer t time s1;
          rt_schedule c s2 }"

datatype ipc_cmd = RT_IPC_CMD_RESET | OTHER_IPC_CMD

subsection \<open>The order of waiting threads\<close>

text \<open>
  Where a thread of priority \<open>p\<close> is put: at the end of a FIFO list; in a priority list
  behind all threads of its own and of more urgent priority.
\<close>

definition wait_insert :: "u8 \<Rightarrow> (tid \<Rightarrow> u8) \<Rightarrow> tid \<Rightarrow> tid list \<Rightarrow> tid list" where
  "wait_insert flag prio t ts =
     (if flag = RT_IPC_FLAG_FIFO then ts @ [t]
      else takeWhile (\<lambda>u. prio u \<le> prio t) ts @ t # dropWhile (\<lambda>u. prio u \<le> prio t) ts)"

lemma find_insert_before:
  "find P xs = Some u \<Longrightarrow> insert_before_node u t xs = takeWhile (\<lambda>x. \<not> P x) xs @ t # dropWhile (\<lambda>x. \<not> P x) xs"
  by (induction xs) (auto split: if_splits dest: find_Some_iff [THEN iffD1])

lemma set_wait_insert: "set (wait_insert flag prio t ts) = insert t (set ts)"
proof -
  have "set (takeWhile P ts) \<union> set (dropWhile P ts) = set ts" for P
    by (simp flip: set_append)
  then show ?thesis by (auto simp: wait_insert_def)
qed

lemma distinct_wait_insert: "distinct ts \<Longrightarrow> t \<notin> set ts \<Longrightarrow> distinct (wait_insert flag prio t ts)"
proof -
  assume *: "distinct ts" "t \<notin> set ts"
  have "set (takeWhile P ts) \<inter> set (dropWhile P ts) = {}" for P
    using *(1) distinct_append [of "takeWhile P ts" "dropWhile P ts"] by simp
  moreover have "t \<notin> set (takeWhile P ts)" "t \<notin> set (dropWhile P ts)" for P
    using * by (auto dest: set_takeWhileD set_dropWhileD)
  ultimately show ?thesis using * by (auto simp: wait_insert_def distinct_takeWhile distinct_dropWhile)
qed

lemma sorted_wait_insert:
  "sorted (map prio ts) \<Longrightarrow> sorted (map prio (wait_insert RT_IPC_FLAG_PRIO prio t ts))"
proof -
  assume s: "sorted (map prio ts)"
  let ?P = "\<lambda>u. prio u \<le> prio t"
  have split: "takeWhile ?P ts @ dropWhile ?P ts = ts" by simp
  then have "sorted (map prio (takeWhile ?P ts @ dropWhile ?P ts))" using s by simp
  then have 1: "sorted (map prio (takeWhile ?P ts))" "sorted (map prio (dropWhile ?P ts))"
    "\<forall>x \<in> set (takeWhile ?P ts). \<forall>y \<in> set (dropWhile ?P ts). prio x \<le> prio y"
    unfolding map_append sorted_append by auto
  have 2: "prio t \<le> prio y" if "y \<in> set (dropWhile ?P ts)" for y
  proof (cases "dropWhile ?P ts")
    case (Cons z zs)
    have "\<not> ?P z" using hd_dropWhile [of ?P ts] Cons by simp
    moreover have "prio z \<le> prio y" using 1(2) that Cons by auto
    ultimately show ?thesis by simp
  next
    case Nil
    show ?thesis using that unfolding Nil by simp
  qed
  have 3: "prio x \<le> prio t" if "x \<in> set (takeWhile ?P ts)" for x using that by (auto dest: set_takeWhileD)
  have "sorted (prio t # map prio (dropWhile ?P ts))" using 1(2) 2 by (simp only: sorted_simps) auto
  moreover have "\<forall>a \<in> set (map prio (takeWhile ?P ts)). \<forall>b \<in> set (prio t # map prio (dropWhile ?P ts)). a \<le> b"
  proof (intro ballI)
    fix a b assume "a \<in> set (map prio (takeWhile ?P ts))" "b \<in> set (prio t # map prio (dropWhile ?P ts))"
    then obtain x where x: "a = prio x" "x \<in> set (takeWhile ?P ts)"
      and b: "b = prio t \<or> (\<exists>y \<in> set (dropWhile ?P ts). b = prio y)" by auto
    from b 1(3) 3 [OF x(2)] x show "a \<le> b" by blast
  qed
  ultimately have "sorted (map prio (takeWhile ?P ts) @ prio t # map prio (dropWhile ?P ts))"
    using 1(1) unfolding sorted_append by blast
  then show ?thesis by (simp add: wait_insert_def)
qed

abbreviation wait_queue :: "qid \<Rightarrow> bool" where
  "wait_queue q \<equiv> \<exists>k. q = SuspendQ k \<or> q = SenderQ k"

lemma wait_q_stat: "sched_ok s \<Longrightarrow> wait_queue q \<Longrightarrow> t \<in> set (tq s q) \<Longrightarrow> stat_of (threads s t) = 2"
  using suspend_q_stat [of s t] by blast

lemma wait_queueD: "wait_queue q \<Longrightarrow> q_stat q = 2" "wait_queue q \<Longrightarrow> \<not> is_ready q"
  by auto

text \<open>A thread that was suspended can be put at any place of a waiting list.\<close>

lemma suspended_enqueue_ok:
  assumes s1: "kernel_ok s1" "threads s1 = (threads s)(t := set_stat 2 (threads s t))" "tq s1 = tq s"
    and q: "wait_queue q" and nq: "\<And>k. t \<notin> set (tq s k)" and xs: "distinct xs" "set xs = insert t (set (tq s q))"
  shows "kernel_ok (upd_tq (\<lambda>Q. Q(q := xs)) s1)"
proof -
  have qk: "q_ok (tq s)" using kernel_okD(1) [OF s1(1)] s1(3) by (simp add: sched_ok_def rq_ok_def)
  have "q_ok ((tq s1)(q := xs))" unfolding s1(3)
    by (rule q_ok_upd [OF qk xs(1)]) (use nq qk in \<open>auto simp: xs(2) dest: q_okD\<close>)
  moreover have "q_stat q = stat_of (threads s1 t)" using wait_queueD(1) [OF q] by (simp add: s1(2))
  moreover have "set xs = insert t (set (tq s1 q))" by (simp add: s1(3) xs(2))
  ultimately show ?thesis using kernel_ok_enqueue [OF s1(1) _ wait_queueD(2) [OF q], of t] by blast
qed

lemma rt_ipc_list_suspend_ok:
  assumes ok: "kernel_ok s" and run: "running_on c t s" and st: "stat_of (threads s t) = 3"
    and q: "wait_queue q" and fl: "flag = RT_IPC_FLAG_FIFO \<or> flag = RT_IPC_FLAG_PRIO"
  obtains s' where "rt_ipc_list_suspend c q t flag s = Some s'" "kernel_ok s'"
    "threads s' = (threads s)(t := set_stat 2 (threads s t))"
    "tq s' = (tq s)(q := wait_insert flag (\<lambda>u. th_current_priority (threads s u)) t (tq s q))"
    "ipcs s' = ipcs s" "hart_frame s s'"
proof -
  obtain s1 where s1: "rt_thread_suspend c t s = Some (0, s1)" "kernel_ok s1"
    "threads s1 = (threads s)(t := set_stat 2 (threads s t))" "tq s1 = tq s" "ipcs s1 = ipcs s" "hart_frame s s1"
    by (rule kernel_ok_suspend [OF ok run st])
  let ?pr = "\<lambda>u. th_current_priority (threads s u)" and ?pr1 = "\<lambda>u. th_current_priority (threads s1 u)"
  let ?xs = "wait_insert flag ?pr t (tq s q)"
  have pr: "?pr1 = ?pr" by (simp add: s1(3) fun_eq_iff)
  have nq: "t \<notin> set (tq s k)" for k by (rule running_not_queued [OF kernel_okD(1) [OF ok] st])
  have qk: "q_ok (tq s)" using kernel_okD(1) [OF ok] by (simp add: sched_ok_def rq_ok_def)
  have ins: "rt_ipc_list_suspend c q t flag s = Some (upd_tq (\<lambda>Q. Q(q := ?xs)) s1)"
  proof (cases "flag = 0")
    case True
    then show ?thesis using s1(1,4) by (simp add: rt_ipc_list_suspend_def wait_insert_def q_tail_def upd_tq_def)
  next
    case False
    then have f1: "flag = 1" using fl by simp
    show ?thesis
    proof (cases "find (\<lambda>u. ?pr t < ?pr u) (tq s q)")
      case None
      then have "\<forall>u \<in> set (tq s q). ?pr u \<le> ?pr t" by (auto simp: find_None_iff not_less)
      then have "?xs = tq s q @ [t]" using f1 by (simp add: wait_insert_def takeWhile_eq_all_conv dropWhile_eq_Nil_conv)
      then show ?thesis using s1(1,4) f1 None pr
        by (simp add: rt_ipc_list_suspend_def q_tail_def upd_tq_def fun_cong [OF pr])
    next
      case (Some u)
      then have "insert_before_node u t (tq s q) = ?xs" using f1 by (simp add: wait_insert_def find_insert_before not_less)
      then show ?thesis using s1(1,4) f1 Some pr
        by (simp add: rt_ipc_list_suspend_def q_before_def upd_tq_def fun_cong [OF pr])
    qed
  qed
  have "kernel_ok (upd_tq (\<lambda>Q. Q(q := ?xs)) s1)"
    by (rule suspended_enqueue_ok [OF s1(2-4) q nq distinct_wait_insert [OF q_ok_distinct [OF qk] nq] set_wait_insert])
  then show thesis
  proof (rule that [OF ins])
    show "hart_frame s (upd_tq (\<lambda>Q. Q(q := ?xs)) s1)" by (rule hart_frame_trans [OF s1(6) hart_frame_upd(4)])
  qed (simp_all only: upd_tq_sel ipcs_upd s1)
qed

subsection \<open>Waking threads up\<close>

lemma rt_ipc_list_resume_ok:
  assumes ok: "kernel_ok s" and q: "wait_queue q" "tq s q = t # ts"
  obtains s' where "rt_ipc_list_resume c q s = Some s'" "kernel_ok s'"
    "threads s' = (threads s)(t := set_stat (if th_oncpu (threads s t) = 2 then 1 else 3) (threads s t))"
    "\<forall>k. \<not> is_ready k \<longrightarrow> tq s' k = (if k = q then ts else tq s k)" "ipcs s' = ipcs s" "hart_frame s s'"
proof -
  have qk: "q_ok (tq s)" using kernel_okD(1) [OF ok] by (simp add: sched_ok_def rq_ok_def)
  have t: "t \<in> set (tq s q)" by (simp add: q(2))
  have st: "stat_of (threads s t) = 2" using wait_q_stat [OF kernel_okD(1) [OF ok] q(1)] t by blast
  obtain s' where s': "rt_thread_resume c t s = Some (0, s')" "kernel_ok s'"
    "threads s' = (threads s)(t := set_stat (if th_oncpu (threads s t) = 2 then 1 else 3) (threads s t))"
    "\<forall>k. \<not> is_ready k \<longrightarrow> tq s' k = removeAll t (tq s k)" "ipcs s' = ipcs s" "hart_frame s s'"
    by (rule kernel_ok_resume [OF ok st])
  have "removeAll t (tq s k) = (if k = q then ts else tq s k)" for k
  proof (cases "k = q")
    case True
    then show ?thesis using q_ok_distinct [OF qk, of q] q(2) by (simp add: removeAll_id)
  next
    case False
    then have "t \<notin> set (tq s k)" using q_okD [OF qk t, of k] by auto
    then show ?thesis using False by (simp add: removeAll_id)
  qed
  moreover have "rt_ipc_list_resume c q s = Some s'" using s'(1) q(2) by (simp add: rt_ipc_list_resume_def first_of_def)
  ultimately show thesis using that s'(2-6) by simp
qed

lemma rt_ipc_list_resume_all_ok:
  assumes "kernel_ok s" "wait_queue q"
  obtains s' where "rt_ipc_list_resume_all c q s = Some s'" "kernel_ok s'"
    "\<forall>t. threads s' t = (if t \<in> set (tq s q)
       then set_stat (if th_oncpu (threads s t) = 2 then 1 else 3) (threads s t\<lparr>th_error := -1\<rparr>) else threads s t)"
    "\<forall>k. \<not> is_ready k \<longrightarrow> tq s' k = (if k = q then [] else tq s k)" "ipcs s' = ipcs s" "hart_frame s s'"
  using assms
proof (induction "tq s q" arbitrary: s thesis)
  case Nil
  then have "rt_ipc_list_resume_all c q s = Some s"
    by (subst rt_ipc_list_resume_all.simps) (simp split: list.split)
  then show ?case using Nil by (intro Nil(2)) auto
next
  case (Cons t ts)
  let ?s0 = "upd_thread t (\<lambda>th. th\<lparr>th_error := -1\<rparr>) s"
  have q0: "tq ?s0 q = t # ts" using Cons(2) by simp
  have qk: "q_ok (tq s)" using kernel_okD(1) [OF Cons(4)] by (simp add: sched_ok_def rq_ok_def)
  have nt: "t \<notin> set ts" using q_ok_distinct [OF qk, of q] Cons(2) by (metis distinct.simps(2))
  obtain s1 where s1: "rt_ipc_list_resume c q ?s0 = Some s1" "kernel_ok s1"
    "threads s1 = (threads ?s0)(t := set_stat (if th_oncpu (threads ?s0 t) = 2 then 1 else 3) (threads ?s0 t))"
    "\<forall>k. \<not> is_ready k \<longrightarrow> tq s1 k = (if k = q then ts else tq ?s0 k)" "ipcs s1 = ipcs ?s0" "hart_frame ?s0 s1"
    using rt_ipc_list_resume_ok [of ?s0 q t ts c thesis] Cons(4,5) q0 kernel_ok_upd(1) by blast
  have ts: "ts = tq s1 q" using s1(4) wait_queueD(2) [OF Cons(5)] by simp
  have res: "rt_thread_resume c t ?s0 = Some (e, s1)" if "rt_thread_resume c t ?s0 = Some (e, x)" for e x
    using s1(1) q0 that by (auto simp: rt_ipc_list_resume_def first_of_def split: Option.bind_splits)
  obtain e where e: "rt_thread_resume c t ?s0 = Some (e, s1)"
    using s1(1) q0 res by (auto simp: rt_ipc_list_resume_def first_of_def split: Option.bind_splits)
  obtain s' where s': "rt_ipc_list_resume_all c q s1 = Some s'" "kernel_ok s'"
    "\<forall>t. threads s' t = (if t \<in> set (tq s1 q)
       then set_stat (if th_oncpu (threads s1 t) = 2 then 1 else 3) (threads s1 t\<lparr>th_error := -1\<rparr>) else threads s1 t)"
    "\<forall>k. \<not> is_ready k \<longrightarrow> tq s' k = (if k = q then [] else tq s1 k)" "ipcs s' = ipcs s1" "hart_frame s1 s'"
    by (rule Cons(1) [OF ts _ s1(2) Cons(5)])
  show ?case
  proof (rule Cons(3))
    show "rt_ipc_list_resume_all c q s = Some s'"
      using e s'(1) Cons(2) by (subst rt_ipc_list_resume_all.simps) (auto split: list.split)
    show "\<forall>u. threads s' u = (if u \<in> set (tq s q)
       then set_stat (if th_oncpu (threads s u) = 2 then 1 else 3) (threads s u\<lparr>th_error := -1\<rparr>) else threads s u)"
      using s'(3) nt unfolding ts [symmetric] Cons(2) [symmetric] s1(3) by auto
    show "\<forall>k. \<not> is_ready k \<longrightarrow> tq s' k = (if k = q then [] else tq s k)" using s'(4) s1(4) by simp
    show "hart_frame s s'" using hart_frame_trans [OF hart_frame_trans [OF hart_frame_upd(1) s1(6)] s'(6)] .
  qed (use s' s1(5) in simp_all)
qed

text \<open>The effect of waking one thread and scheduling, from thread context.\<close>

definition woken :: "nat \<Rightarrow> qid \<Rightarrow> tid \<Rightarrow> tid list \<Rightarrow> kernel \<Rightarrow> kernel \<Rightarrow> bool" where
  "woken c q t ts s s' \<longleftrightarrow> kernel_ok s' \<and> stat_of (threads s' t) \<noteq> RT_THREAD_SUSPEND \<and> live (threads s' t) \<and>
     (\<forall>k. \<not> is_ready k \<longrightarrow> tq s' k = (if k = q then ts else tq s k)) \<and> ipcs s' = ipcs s \<and>
     (\<forall>u. th_frame (threads s u) (threads s' u)) \<and> (\<forall>u. live (threads s u) \<longrightarrow> live (threads s' u)) \<and>
     (\<forall>u. u \<noteq> t \<longrightarrow> (stat_of (threads s' u) = RT_THREAD_SUSPEND \<longleftrightarrow> stat_of (threads s u) = RT_THREAD_SUSPEND)) \<and>
     (\<exists>v. running_on c v s' \<and> stat_of (threads s' v) = RT_THREAD_RUNNING \<and>
        (th_oncpu (threads s t) = RT_CPU_DETACHED \<and> th_bind_cpu (threads s t) \<in> {RT_CPUS_NR, of_nat c} \<longrightarrow>
         th_current_priority (threads s' v) \<le> th_current_priority (threads s' t)))"

lemma resume_schedule_ok:
  assumes ok: "kernel_ok s" and run: "running_on c cur s" "stat_of (threads s cur) = 3"
    and q: "wait_queue q" "tq s q = t # ts"
  obtains s1 s' where "rt_ipc_list_resume c q s = Some s1" "rt_schedule c s1 = Some s'" "woken c q t ts s s'"
proof -
  obtain s1 where s1: "rt_ipc_list_resume c q s = Some s1" "kernel_ok s1"
    "threads s1 = (threads s)(t := set_stat (if th_oncpu (threads s t) = 2 then 1 else 3) (threads s t))"
    "\<forall>k. \<not> is_ready k \<longrightarrow> tq s1 k = (if k = q then ts else tq s k)" "ipcs s1 = ipcs s" "hart_frame s s1"
    by (rule rt_ipc_list_resume_ok [OF ok q])
  have t2: "stat_of (threads s t) = 2" using wait_q_stat [OF kernel_okD(1) [OF ok] q(1)] q(2) by auto
  then have ne: "t \<noteq> cur" using run(2) by auto
  have run1: "running_on c cur s1" using run(1) hart_frame_running [OF s1(6)] by simp
  have c3: "stat_of (threads s1 cur) = 3" using run(2) ne by (simp add: s1(3))
  then have lv: "live (threads s1 cur)" by (simp add: live_def)
  obtain s' v where s': "rt_schedule c s1 = Some s'" "kernel_ok s'" "running_on c v s'"
    "stat_of (threads s' v) = 3" "v = cur \<or> eligible c s1 v" "rest s' = rest s1"
    "\<forall>u. th_frame (threads s1 u) (threads s' u)" "\<forall>q. \<not> is_ready q \<longrightarrow> tq s' q = tq s1 q"
    "\<forall>u. stat_of (threads s' u) = 2 \<longleftrightarrow> stat_of (threads s1 u) = 2"
    "\<forall>u. eligible c s1 u \<longrightarrow> th_current_priority (threads s1 v) \<le> th_current_priority (threads s1 u)"
    "\<forall>u. live (threads s1 u) \<longrightarrow> live (threads s' u)"
    by (rule kernel_ok_schedule [OF s1(2) run1 disjI1 [OF c3] lv])
  have fr: "th_frame (threads s u) (threads s1 u)" for u using s1(3) by (simp add: th_frameI)
  have fr': "th_frame (threads s u) (threads s' u)" for u using fr s'(7) th_frame_trans by blast
  have t1: "stat_of (threads s1 t) \<noteq> 2" "live (threads s1 t)" by (auto simp: s1(3) live_def)
  have el: "th_current_priority (threads s' v) \<le> th_current_priority (threads s' t)"
    if "th_oncpu (threads s t) = 2" "th_bind_cpu (threads s t) \<in> {2, of_nat c}"
  proof -
    have "eligible c s1 t" using that by (auto simp: eligible_def s1(3))
    then show ?thesis using s'(10) th_frameD(2) [OF s'(7) [rule_format]] by simp
  qed
  have "ipcs s' = ipcs s" using ipcs_rest [OF s'(6)] s1(5) by simp
  moreover have "stat_of (threads s' u) = 2 \<longleftrightarrow> stat_of (threads s u) = 2" if "u \<noteq> t" for u
    using s'(9) that by (simp add: s1(3))
  moreover have "stat_of (threads s' t) \<noteq> 2" "live (threads s' t)" using t1 s'(9,11) by simp_all
  moreover have "\<forall>k. \<not> is_ready k \<longrightarrow> tq s' k = (if k = q then ts else tq s k)" using s'(8) s1(4) by simp
  moreover have "\<forall>u. live (threads s u) \<longrightarrow> live (threads s' u)"
    using s'(11) t1(2) unfolding s1(3) by (metis fun_upd_apply)
  ultimately have "woken c q t ts s s'" using s'(2,3,4) fr' el unfolding woken_def by blast
  then show thesis using that [OF s1(1) s'(1)] by blast
qed

subsection \<open>Blocking\<close>

abbreviation wait_time :: "rt_int32_t \<Rightarrow> bool" where
  "wait_time time \<equiv> time \<noteq> 0 \<and> (sint time > 0 \<longrightarrow> time < RT_TICK_MAX div 2)"

text \<open>
  The effect of blocking thread \<open>t\<close>: it is suspended and in the waiting list at its place, its
  timer is due after the waiting time if that is positive, and the hart runs another thread.
\<close>

definition blocked_at :: "nat \<Rightarrow> qid \<Rightarrow> tid \<Rightarrow> tid list \<Rightarrow> rt_int32_t \<Rightarrow> kernel \<Rightarrow> kernel \<Rightarrow> bool" where
  "blocked_at c q t xs time s s' \<longleftrightarrow> kernel_ok s' \<and> stat_of (threads s' t) = RT_THREAD_SUSPEND \<and>
     (\<forall>k. \<not> is_ready k \<longrightarrow> tq s' k = (if k = q then xs else tq s k)) \<and>
     ipcs s' = ipcs s \<and> (\<forall>u. th_frame (threads s u) (threads s' u)) \<and>
     (\<forall>u. live (threads s u) \<longrightarrow> live (threads s' u)) \<and>
     (\<forall>u. u \<noteq> t \<longrightarrow> (stat_of (threads s' u) = RT_THREAD_SUSPEND \<longleftrightarrow> stat_of (threads s u) = RT_THREAD_SUSPEND)) \<and>
     (\<exists>v. running_on c v s' \<and> v \<noteq> t \<and> stat_of (threads s' v) = RT_THREAD_RUNNING) \<and>
     (sint time > 0 \<longrightarrow> ThreadTimer t \<in> set (tml s' TimerList) \<and>
        left (rt_tick_get s') s' (ThreadTimer t) = unat time)"

abbreviation blocked :: "nat \<Rightarrow> qid \<Rightarrow> tid \<Rightarrow> u8 \<Rightarrow> rt_int32_t \<Rightarrow> kernel \<Rightarrow> kernel \<Rightarrow> bool" where
  "blocked c q t flag time s s' \<equiv>
     blocked_at c q t (wait_insert flag (\<lambda>u. th_current_priority (threads s u)) t (tq s q)) time s s'"

lemmas blocked_def = blocked_at_def

lemma start_thread_timer_ok:
  assumes ok: "kernel_ok s" and lv: "live (threads s t)" and time: "sint time > 0 \<longrightarrow> time < RT_TICK_MAX div 2"
  obtains s' where "start_thread_timer t time s = Some s'" "kernel_ok s'" "sched_same s s'"
    "sint time > 0 \<longrightarrow> ThreadTimer t \<in> set (tml s' TimerList) \<and> left (rt_tick_get s') s' (ThreadTimer t) = unat time"
proof (cases "sint time > 0")
  case True
  then have lt: "time < RT_TICK_MAX div 2" using time by simp
  have ty: "timer_typed t s" by (rule kernel_okD(4) [OF ok lv])
  have all: "\<exists>s2 s3. rt_timer_control (ThreadTimer t) SET_TIME time s = Some (time, s2) \<and>
    rt_timer_start (ThreadTimer t) s2 = Some s3 \<and> sched_same s s3 \<and> timers_ok (rt_tick_get s) s3 \<and>
    ThreadTimer t \<in> set (tml s3 TimerList) \<and> left (rt_tick_get s) s3 (ThreadTimer t) = unat time \<and>
    timer_typed u s3 = timer_typed u s" for u
    by (rule start_timer_ok [OF kernel_okD(2) [OF ok] ty lt, where v = u]) blast
  then obtain s2 s3 where s3: "rt_timer_control (ThreadTimer t) SET_TIME time s = Some (time, s2)"
    "rt_timer_start (ThreadTimer t) s2 = Some s3" "sched_same s s3" "timers_ok (rt_tick_get s) s3"
    "ThreadTimer t \<in> set (tml s3 TimerList)" "left (rt_tick_get s) s3 (ThreadTimer t) = unat time" by blast
  have ty': "timer_typed u s3 = timer_typed u s" for u using all [of u] s3(1,2) by auto
  have tick: "rt_tick_get s3 = rt_tick_get s" by (rule hart_frame_tick [OF hart_frame_same [OF s3(3)]])
  have kk: "kernel_ok s3"
    by (rule kernel_okI)
      (use sched_ok_same [OF s3(3)] kernel_okD [OF ok] s3(4) tick ty' in \<open>simp_all add: sched_sameD [OF s3(3)]\<close>)
  show thesis
    by (rule that [of s3]) (use True s3 kk tick in \<open>simp_all add: start_thread_timer_def\<close>)
next
  case False
  then show thesis using that [of s] ok by (simp add: start_thread_timer_def sched_same_upd)
qed

lemma suspended_schedule_ok:
  assumes run: "running_on c t s" and st: "stat_of (threads s t) = 3" and el: "eligible c s u"
    and s1: "kernel_ok s1" "threads s1 = (threads s)(t := set_stat 2 (threads s t))" "tq s1 = (tq s)(q := xs)"
      "ipcs s1 = ipcs s" "hart_frame s s1"
    and time: "sint time > 0 \<longrightarrow> time < RT_TICK_MAX div 2"
  obtains s2 s' where "start_thread_timer t time s1 = Some s2" "rt_schedule c s2 = Some s'" "blocked_at c q t xs time s s'"
proof -
  have t2: "stat_of (threads s1 t) = 2" by (simp add: s1(2))
  have lv: "live (threads s1 t)" using t2 by (simp add: live_def)
  obtain s2 where s2: "start_thread_timer t time s1 = Some s2" "kernel_ok s2" "sched_same s1 s2"
    "sint time > 0 \<longrightarrow> ThreadTimer t \<in> set (tml s2 TimerList) \<and> left (rt_tick_get s2) s2 (ThreadTimer t) = unat time"
    by (rule start_thread_timer_ok [OF s1(1) lv time])
  note D = sched_sameD [OF s2(3)]
  have run2: "running_on c t s2"
    using run hart_frame_running [OF hart_frame_trans [OF s1(5) hart_frame_same [OF s2(3)]]] by simp
  have "u \<noteq> t" using el st by (auto simp: eligible_def)
  then have el2: "\<exists>u. eligible c s2 u" using el by (auto simp: eligible_def D s1(2))
  have lv2: "live (threads s2 t)" using lv by (simp add: D)
  obtain s' v where s': "rt_schedule c s2 = Some s'" "kernel_ok s'" "running_on c v s'"
    "stat_of (threads s' v) = 3" "v = t \<or> eligible c s2 v" "rest s' = rest s2"
    "\<forall>u. th_frame (threads s2 u) (threads s' u)" "\<forall>q. \<not> is_ready q \<longrightarrow> tq s' q = tq s2 q"
    "\<forall>u. stat_of (threads s' u) = 2 \<longleftrightarrow> stat_of (threads s2 u) = 2"
    "\<forall>u. eligible c s2 u \<longrightarrow> th_current_priority (threads s2 v) \<le> th_current_priority (threads s2 u)"
    "\<forall>u. live (threads s2 u) \<longrightarrow> live (threads s' u)"
    by (rule kernel_ok_schedule [OF s2(2) run2 disjI2 [OF el2] lv2])
  note R = restD [OF s'(6)]
  have fr: "th_frame (threads s w) (threads s' w)" for w
  proof -
    have "th_frame (threads s w) (threads s2 w)" by (simp add: D s1(2) th_frameI)
    then show ?thesis using s'(7) th_frame_trans by blast
  qed
  have t2': "stat_of (threads s' t) = 2" using s'(9) t2 by (simp add: D)
  then have v: "v \<noteq> t" using s'(4) by auto
  have tick: "rt_tick_get s' = rt_tick_get s2" by (simp add: rt_tick_get_def R)
  have "sint time > 0 \<longrightarrow> ThreadTimer t \<in> set (tml s' TimerList) \<and> left (rt_tick_get s') s' (ThreadTimer t) = unat time"
    using s2(4) unfolding tick left_def R .
  moreover have "ipcs s' = ipcs s" using ipcs_rest [OF s'(6)] ipcs_same [OF s2(3)] s1(4) by simp
  moreover have "\<forall>k. \<not> is_ready k \<longrightarrow> tq s' k = (if k = q then xs else tq s k)" using s'(8) by (simp add: D s1(3))
  moreover have "\<forall>w. w \<noteq> t \<longrightarrow> (stat_of (threads s' w) = 2 \<longleftrightarrow> stat_of (threads s w) = 2)"
    using s'(9) by (simp add: D s1(2))
  moreover have "\<forall>w. live (threads s w) \<longrightarrow> live (threads s' w)"
    using s'(11) lv unfolding D s1(2) by (metis fun_upd_apply)
  ultimately have "blocked_at c q t xs time s s'"
    using s'(2,3,4) fr t2' v unfolding blocked_at_def by blast
  then show thesis using that s2(1) s'(1) by blast
qed

lemma ipc_block_ok:
  assumes ok: "kernel_ok s" and run: "running_on c t s" and st: "stat_of (threads s t) = 3"
    and el: "eligible c s u" and q: "wait_queue q" and fl: "flag = RT_IPC_FLAG_FIFO \<or> flag = RT_IPC_FLAG_PRIO"
    and time: "sint time > 0 \<longrightarrow> time < RT_TICK_MAX div 2"
  obtains s' where "ipc_block c q t flag time s = Some s'" "blocked c q t flag time s s'"
proof -
  let ?xs = "wait_insert flag (\<lambda>u. th_current_priority (threads s u)) t (tq s q)"
  obtain s1 where s1: "rt_ipc_list_suspend c q t flag s = Some s1" "kernel_ok s1"
    "threads s1 = (threads s)(t := set_stat 2 (threads s t))" "tq s1 = (tq s)(q := ?xs)"
    "ipcs s1 = ipcs s" "hart_frame s s1"
    by (rule rt_ipc_list_suspend_ok [OF ok run st q fl])
  obtain s2 s' where "start_thread_timer t time s1 = Some s2" "rt_schedule c s2 = Some s'" "blocked c q t flag time s s'"
    by (rule suspended_schedule_ok [OF run st el s1(2-6) time])
  then show thesis using that s1(1) by (simp add: ipc_block_def)
qed

subsection \<open>The calling thread\<close>

definition caller :: "nat \<Rightarrow> tid \<Rightarrow> kernel \<Rightarrow> bool" where
  "caller c t s \<longleftrightarrow> kernel_ok s \<and> running_on c t s \<and> stat_of (threads s t) = RT_THREAD_RUNNING"

lemma callerD:
  assumes "caller c t s"
  shows "kernel_ok s" "running_on c t s" "stat_of (threads s t) = 3" "rt_thread_self c s = Some t"
    "RT_DEBUG_IN_THREAD_CONTEXT c s = Some ()" "RT_DEBUG_NOT_IN_INTERRUPT c s = Some ()" "c < 2"
  using assms
  by (auto simp: caller_def running_on_def rt_thread_self_def RT_DEBUG_IN_THREAD_CONTEXT_def RT_DEBUG_NOT_IN_INTERRUPT_def)

lemma caller_error: "caller c t s \<Longrightarrow> caller c t (upd_thread u (\<lambda>th. th\<lparr>th_error := e\<rparr>) s)"
  by (auto simp: caller_def running_on_def)

abbreviation ipc_flag :: "u8 \<Rightarrow> bool" where
  "ipc_flag flag \<equiv> flag = RT_IPC_FLAG_FIFO \<or> flag = RT_IPC_FLAG_PRIO"

text \<open>Blocking the caller on a queue, as every waiting operation does after resetting its error.\<close>

lemma caller_blocks:
  assumes "caller c t s" "eligible c s u" "wait_queue q" "ipc_flag flag" "wait_time time"
  obtains s' where "ipc_block c q t flag time s = Some s'" "blocked c q t flag time s s'"
  using ipc_block_ok [OF callerD(1,2,3) [OF assms(1)] assms(2,3,4)] assms(5) by blast

subsection \<open>An example state\<close>

lemma ex_kernel_kernel_ok: "kernel_ok ex_kernel"
proof (rule kernel_okI)
  show "sched_ok ex_kernel" by (rule ex_kernel_ok(1))
  show "timers_ok (rt_tick_get ex_kernel) ex_kernel" by (simp add: timers_ok_def ex_kernel_def q_ok_def)
  have "thread_wf (ex_thread p st on)" if "p < 32" for p st on
    using ex_thread_ok [OF that, of st on]
    by (simp add: thread_wf_def ex_kernel_types) (simp add: ex_thread_def rt_scheduler_stack_check_def nest_ok_def)
  then show "thread_wf (threads ex_kernel t) \<and> timer_typed t ex_kernel" for t
    using ex_kernel_types(1) by (simp add: ex_kernel_def)
qed

lemma ex_kernel_caller: "caller 0 1 ex_kernel" "eligible 0 ex_kernel 3"
proof -
  show "caller 0 1 ex_kernel"
    using ex_kernel_kernel_ok ex_kernel_ok(3) unfolding caller_def ex_kernel_threads by simp
  show "eligible 0 ex_kernel 3" unfolding eligible_def ex_kernel_threads by simp
qed

text \<open>Thread 4 waits in list \<open>q\<close>.\<close>

definition ex_waiting :: "qid \<Rightarrow> kernel" where
  "ex_waiting q = upd_tq (\<lambda>Q. Q(q := [4])) ex_kernel"

lemma ex_waiting_ok:
  assumes "wait_queue q"
  shows "caller 0 1 (ex_waiting q)" "eligible 0 (ex_waiting q) 3"
proof -
  have q0: "tq ex_kernel k = (if k = ReadyQ 5 then [3] else [])" for k by (simp add: ex_kernel_def)
  have "q_ok ((tq ex_kernel)(q := [4]))" using assms by (auto simp: q_ok_def q0)
  moreover have "q_stat q = stat_of (threads ex_kernel 4)"
    unfolding ex_kernel_threads using wait_queueD(1) [OF assms] by simp
  moreover have "set [4] = insert 4 (set (tq ex_kernel q))" using assms by (auto simp: q0)
  ultimately have "kernel_ok (ex_waiting q)" unfolding ex_waiting_def
    using kernel_ok_enqueue [OF ex_kernel_kernel_ok _ wait_queueD(2) [OF assms]] by blast
  then show "caller 0 1 (ex_waiting q)"
    using ex_kernel_caller(1) by (simp add: caller_def ex_waiting_def running_on_def)
  show "eligible 0 (ex_waiting q) 3" using ex_kernel_caller(2) by (simp add: eligible_def ex_waiting_def)
qed

lemma caller_ipc [simp]:
  "caller c t (s\<lparr>sems := a\<rparr>) = caller c t s" "caller c t (s\<lparr>mutexes := b\<rparr>) = caller c t s"
  "caller c t (s\<lparr>events := d\<rparr>) = caller c t s" "caller c t (s\<lparr>mailboxes := e\<rparr>) = caller c t s"
  "caller c t (s\<lparr>mqueues := f\<rparr>) = caller c t s"
  by (simp_all add: caller_def)

subsection \<open>What a call leaves alone\<close>

text \<open>
  What a thread that waits has recorded of its request, and the frame of a call on the IPC object \<open>x\<close>: the
  waiting lists of all other objects, the requests of the threads in them and all other objects are as
  before, and no thread ends.
\<close>

definition same_request :: "rt_thread \<Rightarrow> rt_thread \<Rightarrow> bool" where
  "same_request th th' \<longleftrightarrow> th_error th' = th_error th \<and> th_event_set th' = th_event_set th \<and> th_event_info th' = th_event_info th"

definition objs_frame :: "oid \<Rightarrow> kernel \<Rightarrow> kernel \<Rightarrow> bool" where
  "objs_frame x s s' \<longleftrightarrow> (\<forall>i. Sem i \<noteq> x \<longrightarrow> sems s' i = sems s i) \<and> (\<forall>i. Mutex i \<noteq> x \<longrightarrow> mutexes s' i = mutexes s i) \<and>
     (\<forall>i. Event i \<noteq> x \<longrightarrow> events s' i = events s i) \<and> (\<forall>i. Mailbox i \<noteq> x \<longrightarrow> mailboxes s' i = mailboxes s i) \<and>
     (\<forall>i. Mqueue i \<noteq> x \<longrightarrow> mqueues s' i = mqueues s i)"

definition ipc_frame :: "oid \<Rightarrow> kernel \<Rightarrow> kernel \<Rightarrow> bool" where
  "ipc_frame x s s' \<longleftrightarrow> objs_frame x s s' \<and>
     (\<forall>y. y \<noteq> x \<longrightarrow> tq s' (SuspendQ y) = tq s (SuspendQ y) \<and> tq s' (SenderQ y) = tq s (SenderQ y)) \<and>
     (\<forall>t. stat_of (threads s t) = RT_THREAD_SUSPEND \<longrightarrow> t \<notin> set (tq s (SuspendQ x)) \<longrightarrow> same_request (threads s t) (threads s' t)) \<and>
     (\<forall>t. live (threads s t) \<longrightarrow> live (threads s' t))"

lemma same_request_refl [simp]: "same_request th th"
  by (simp add: same_request_def)

lemma th_frame_request: "th_frame th th' \<Longrightarrow> same_request th0 th \<Longrightarrow> same_request th0 th'"
  using th_frameD(1,6,7) by (simp add: same_request_def)

lemma objs_frame_upd [simp]:
  "objs_frame x s s" "objs_frame x s (upd_thread t f s') = objs_frame x s s'" "objs_frame x s (upd_tq g s') = objs_frame x s s'"
  "objs_frame (Sem i) s (s\<lparr>sems := (sems s)(i := a)\<rparr>)" "objs_frame (Mutex i) s (s\<lparr>mutexes := (mutexes s)(i := b)\<rparr>)"
  "objs_frame (Event i) s (s\<lparr>events := (events s)(i := d)\<rparr>)" "objs_frame (Mailbox i) s (s\<lparr>mailboxes := (mailboxes s)(i := e)\<rparr>)"
  "objs_frame (Mqueue i) s (s\<lparr>mqueues := (mqueues s)(i := f')\<rparr>)"
  by (simp_all add: objs_frame_def)

lemma objs_frame_ipcs: "objs_frame x s s0 \<Longrightarrow> ipcs s' = ipcs s0 \<Longrightarrow> objs_frame x s s'"
  by (simp add: objs_frame_def ipcsD [of s' s0])

text \<open>
  Calls change the object and data of the calling thread first, which is not waiting; what blocking or
  waking a thread does after that is in \<^term>\<open>blocked_at\<close> and \<^term>\<open>woken\<close>.
\<close>

definition prepared :: "oid \<Rightarrow> kernel \<Rightarrow> kernel \<Rightarrow> bool" where
  "prepared x s s0 \<longleftrightarrow> objs_frame x s s0 \<and> (\<forall>k. \<not> is_ready k \<longrightarrow> tq s0 k = tq s k) \<and>
     (\<forall>t. stat_of (threads s t) = RT_THREAD_SUSPEND \<longrightarrow> same_request (threads s t) (threads s0 t)) \<and>
     (\<forall>t. live (threads s t) \<longrightarrow> live (threads s0 t))"

lemma prepared_frame: "prepared x s s' \<Longrightarrow> ipc_frame x s s'"
  by (simp add: prepared_def ipc_frame_def)

lemma ipc_frame_via:
  assumes p: "prepared x s s0" and q: "q = SuspendQ x \<or> q = SenderQ x"
    and s': "\<forall>k. \<not> is_ready k \<longrightarrow> tq s' k = (if k = q then xs else tq s0 k)" "ipcs s' = ipcs s0"
      "\<forall>u. th_frame (threads s0 u) (threads s' u)" "\<forall>u. live (threads s0 u) \<longrightarrow> live (threads s' u)"
  shows "ipc_frame x s s'"
  unfolding ipc_frame_def
proof (intro conjI allI impI)
  show "objs_frame x s s'" by (rule objs_frame_ipcs [OF _ s'(2)]) (use p in \<open>simp add: prepared_def\<close>)
  show "tq s' (SuspendQ y) = tq s (SuspendQ y)" "tq s' (SenderQ y) = tq s (SenderQ y)" if "y \<noteq> x" for y
    using p q s'(1) that by (auto simp: prepared_def)
  show "same_request (threads s t) (threads s' t)" if "stat_of (threads s t) = RT_THREAD_SUSPEND" for t
    using p that th_frame_request [OF s'(3) [rule_format]] by (simp add: prepared_def)
  show "live (threads s' t)" if "live (threads s t)" for t using p s'(4) that by (simp add: prepared_def)
qed

lemma blocked_frame:
  assumes "prepared x s s0" "q = SuspendQ x \<or> q = SenderQ x" "blocked_at c q t xs time s0 s'"
  shows "ipc_frame x s s'" "kernel_ok s'" "\<exists>v. caller c v s'"
proof -
  show "ipc_frame x s s'" by (rule ipc_frame_via [OF assms(1,2), where xs = xs]) (use assms(3) in \<open>simp_all add: blocked_at_def\<close>)
  show "kernel_ok s'" "\<exists>v. caller c v s'" using assms(3) by (auto simp: blocked_at_def caller_def)
qed

lemma woken_frame:
  assumes "prepared x s s0" "q = SuspendQ x \<or> q = SenderQ x" "woken c q t ts s0 s'"
  shows "ipc_frame x s s'" "kernel_ok s'" "\<exists>v. caller c v s'"
proof -
  show "ipc_frame x s s'" by (rule ipc_frame_via [OF assms(1,2), where xs = ts]) (use assms(3) in \<open>simp_all add: woken_def\<close>)
  show "kernel_ok s'" "\<exists>v. caller c v s'" using assms(3) by (auto simp: woken_def caller_def)
qed

text \<open>Changes of the running thread's own request data and of the object.\<close>

lemma prepared_own:
  assumes "caller c t s" "objs_frame x s s0" "tq s0 = tq s" "threads s0 = (threads s)(t := th)" "live th"
  shows "prepared x s s0"
  using assms callerD(3) [OF assms(1)] by (auto simp: prepared_def)

lemma prepared_obj:
  assumes "objs_frame x s s0" "tq s0 = tq s" "threads s0 = threads s"
  shows "prepared x s s0"
  using assms by (simp add: prepared_def)

lemma ipc_frame_schedule:
  assumes "ipc_frame x s s1" "ipcs s' = ipcs s1" "\<forall>k. \<not> is_ready k \<longrightarrow> tq s' k = tq s1 k"
    "\<forall>u. th_frame (threads s1 u) (threads s' u)" "\<forall>u. live (threads s1 u) \<longrightarrow> live (threads s' u)"
  shows "ipc_frame x s s'"
  using assms(1,3,5) objs_frame_ipcs [OF _ assms(2)] th_frame_request [OF assms(4) [rule_format]]
  by (simp add: ipc_frame_def)

end
