(* ===== verification/Refinement.thy ===== *)
theory Refinement
  imports Prelude
begin

text \<open>
  Runs of labelled step relations, and the contract that ties the steps of a kernel object to
  an abstract specification: every step keeps the object's invariant and is allowed by the
  specification, with the abstract state moving accordingly. The kernel objects interpret the
  locale; what it proves about whole runs is then available for each of them.
\<close>

inductive run :: "('s \<Rightarrow> 'e \<Rightarrow> 's \<Rightarrow> bool) \<Rightarrow> 's \<Rightarrow> 'e list \<Rightarrow> 's \<Rightarrow> bool"
  for step :: "'s \<Rightarrow> 'e \<Rightarrow> 's \<Rightarrow> bool" where
  run_nil: "run step s [] s"
| run_step: "step s e s' \<Longrightarrow> run step s' es s'' \<Longrightarrow> run step s (e # es) s''"

inductive_simps run_simps [simp]: "run step s [] s'" "run step s (e # es) s'"

fun spec_run :: "('e \<Rightarrow> 'a \<Rightarrow> 'a option) \<Rightarrow> 'e list \<Rightarrow> 'a \<Rightarrow> 'a option" where
  "spec_run spec [] a = Some a"
| "spec_run spec (e # es) a = Option.bind (spec e a) (spec_run spec es)"

lemma spec_run_invariant:
  assumes "spec_run spec es a = Some b" "I a" "\<And>e x y. spec e x = Some y \<Longrightarrow> I x \<Longrightarrow> I y"
  shows "I b"
  using assms by (induction es arbitrary: a) (auto split: Option.bind_splits)

text \<open>A quantity that every abstract step changes by an amount that depends on the event only.\<close>

lemma spec_run_sum:
  fixes m :: "'a \<Rightarrow> int"
  assumes "spec_run spec es a = Some b" "\<And>e x y. spec e x = Some y \<Longrightarrow> m y = m x + d e"
  shows "m b = m a + (\<Sum>e\<leftarrow>es. d e)"
  using assms(1)
proof (induction es arbitrary: a)
  case (Cons e es)
  then obtain x where "spec e a = Some x" "spec_run spec es x = Some b" by (auto split: Option.bind_splits)
  then show ?case using Cons.IH assms(2) by fastforce
qed simp

locale implements =
  fixes step :: "'s \<Rightarrow> 'e \<Rightarrow> 's \<Rightarrow> bool" and inv :: "'s \<Rightarrow> bool"
    and abs :: "'s \<Rightarrow> 'a" and spec :: "'e \<Rightarrow> 'a \<Rightarrow> 'a option"
  assumes step_inv: "inv s \<Longrightarrow> step s e s' \<Longrightarrow> inv s'"
    and step_spec: "inv s \<Longrightarrow> step s e s' \<Longrightarrow> spec e (abs s) = Some (abs s')"
begin

lemma run_inv: "run step s es s' \<Longrightarrow> inv s \<Longrightarrow> inv s'"
  by (induction rule: run.induct) (auto intro: step_inv)

lemma run_refines: "run step s es s' \<Longrightarrow> inv s \<Longrightarrow> spec_run spec es (abs s) = Some (abs s')"
  by (induction rule: run.induct) (auto simp: step_spec intro: step_inv)

end

end
