(* ===== verification/Semaphore.thy ===== *)
theory Semaphore
  imports Ipc Refinement "HOL-Library.Sublist"
begin

text \<open>
  The semaphore of \<^verbatim>\<open>src/ipc.c\<close>: a 16-bit counter and a list of waiting threads. A release with
  threads waiting hands the unit to the first of them without touching the counter.
\<close>

abbreviation (input) RT_SEM_VALUE_MAX :: u16 where "RT_SEM_VALUE_MAX \<equiv> 0xffff"

subsection \<open>Semaphore\<close>

definition rt_sem_init :: "nat \<Rightarrow> u32 \<Rightarrow> u8 \<Rightarrow> kernel \<Rightarrow> (rt_err_t \<times> kernel) option" where
  "rt_sem_init i value flag s =
     do { RT_ASSERT (value < 0x10000);
          Some (RT_EOK, s\<lparr>sems := (sems s)(i \<mapsto> \<lparr>sem_static = True, sem_flag = flag, sem_value = ucast value\<rparr>),
                         tq := (tq s)(SuspendQ (Sem i) := [])\<rparr>) }"

definition rt_sem_detach :: "nat \<Rightarrow> nat \<Rightarrow> kernel \<Rightarrow> (rt_err_t \<times> kernel) option" where
  "rt_sem_detach c i s =
     do { sem \<leftarrow> sems s i;
          RT_ASSERT (sem_static sem);
          s1 \<leftarrow> rt_ipc_list_resume_all c (SuspendQ (Sem i)) s;
          Some (RT_EOK, s1\<lparr>sems := (sems s1)(i := None)\<rparr>) }"

text \<open>The address the object allocator returns is an argument; \<open>None\<close> is \<^verbatim>\<open>RT_NULL\<close>.\<close>

definition rt_sem_create :: "nat \<Rightarrow> nat option \<Rightarrow> u32 \<Rightarrow> u8 \<Rightarrow> kernel \<Rightarrow> (nat option \<times> kernel) option" where
  "rt_sem_create c obj value flag s =
     do { RT_DEBUG_NOT_IN_INTERRUPT c s;
          RT_ASSERT (value < 0x10000);
          case obj of
            None \<Rightarrow> Some (None, s)
          | Some i \<Rightarrow>
              Some (Some i, s\<lparr>sems := (sems s)(i \<mapsto> \<lparr>sem_static = False, sem_flag = flag, sem_value = ucast value\<rparr>),
                             tq := (tq s)(SuspendQ (Sem i) := [])\<rparr>) }"

definition rt_sem_delete :: "nat \<Rightarrow> nat \<Rightarrow> kernel \<Rightarrow> (rt_err_t \<times> kernel) option" where
  "rt_sem_delete c i s =
     do { RT_DEBUG_NOT_IN_INTERRUPT c s;
          sem \<leftarrow> sems s i;
          RT_ASSERT (\<not> sem_static sem);
          s1 \<leftarrow> rt_ipc_list_resume_all c (SuspendQ (Sem i)) s;
          Some (RT_EOK, s1\<lparr>sems := (sems s1)(i := None)\<rparr>) }"

definition rt_sem_take :: "nat \<Rightarrow> nat \<Rightarrow> rt_int32_t \<Rightarrow> kernel \<Rightarrow> (outcome \<times> kernel) option" where
  "rt_sem_take c i time s =
     do { sem \<leftarrow> sems s i;
          if sem_value sem > 0
          then Some (Done RT_EOK, s\<lparr>sems := (sems s)(i \<mapsto> sem\<lparr>sem_value := sem_value sem - 1\<rparr>)\<rparr>)
          else if time = 0 then Some (Done (- RT_ETIMEOUT), s)
          else do {
            RT_DEBUG_IN_THREAD_CONTEXT c s;
            t \<leftarrow> rt_thread_self c s;
            let s1 = upd_thread t (\<lambda>th. th\<lparr>th_error := RT_EOK\<rparr>) s;
            s2 \<leftarrow> ipc_block c (SuspendQ (Sem i)) t (sem_flag sem) time s1;
            Some (Blocked, s2) } }"

definition rt_sem_take_resume :: "tid \<Rightarrow> kernel \<Rightarrow> rt_err_t" where
  "rt_sem_take_resume t s =
     (if th_error (threads s t) \<noteq> RT_EOK then th_error (threads s t) else RT_EOK)"

definition rt_sem_trytake :: "nat \<Rightarrow> nat \<Rightarrow> kernel \<Rightarrow> (outcome \<times> kernel) option" where
  "rt_sem_trytake c i s = rt_sem_take c i 0 s"

definition rt_sem_release :: "nat \<Rightarrow> nat \<Rightarrow> kernel \<Rightarrow> (rt_err_t \<times> kernel) option" where
  "rt_sem_release c i s =
     do { sem \<leftarrow> sems s i;
          if tq s (SuspendQ (Sem i)) \<noteq> []
          then do { s1 \<leftarrow> rt_ipc_list_resume c (SuspendQ (Sem i)) s;
                    s2 \<leftarrow> rt_schedule c s1;
                    Some (RT_EOK, s2) }
          else if sem_value sem < RT_SEM_VALUE_MAX
          then Some (RT_EOK, s\<lparr>sems := (sems s)(i \<mapsto> sem\<lparr>sem_value := sem_value sem + 1\<rparr>)\<rparr>)
          else Some (- RT_EFULL, s) }"

definition rt_sem_control :: "nat \<Rightarrow> nat \<Rightarrow> ipc_cmd \<Rightarrow> u64 \<Rightarrow> kernel \<Rightarrow> (rt_err_t \<times> kernel) option" where
  "rt_sem_control c i cmd arg s =
     do { sem \<leftarrow> sems s i;
          case cmd of
            RT_IPC_CMD_RESET \<Rightarrow>
              do { s1 \<leftarrow> rt_ipc_list_resume_all c (SuspendQ (Sem i)) s;
                   let s2 = s1\<lparr>sems := (sems s1)(i \<mapsto> sem\<lparr>sem_value := ucast arg\<rparr>)\<rparr>;
                   s3 \<leftarrow> rt_schedule c s2;
                   Some (RT_EOK, s3) }
          | OTHER_IPC_CMD \<Rightarrow> Some (- RT_ERROR, s) }"

subsection \<open>Taking and releasing\<close>

definition ex_sem :: "u16 \<Rightarrow> kernel" where
  "ex_sem v = ex_kernel\<lparr>sems := [7 \<mapsto> \<lparr>sem_static = True, sem_flag = 0, sem_value = v\<rparr>]\<rparr>"

lemma ex_sem_ok:
  "caller 0 1 (ex_sem v)" "eligible 0 (ex_sem v) 3"
  "sems (ex_sem v) 7 = Some \<lparr>sem_static = True, sem_flag = 0, sem_value = v\<rparr>" "tq (ex_sem v) (SuspendQ k) = []"
  using ex_kernel_caller by (simp_all add: ex_sem_def) (simp add: ex_kernel_def)

lemma sem_take_cases:
  assumes "caller c t s" "sems s i = Some sem" "ipc_flag (sem_flag sem)"
    "eligible c s u" "time = 0 \<or> wait_time time"
  shows "if sem_value sem > 0
     then rt_sem_take c i time s = Some (Done RT_EOK, s\<lparr>sems := (sems s)(i \<mapsto> sem\<lparr>sem_value := sem_value sem - 1\<rparr>)\<rparr>)
       \<and> unat (sem_value sem - 1) = unat (sem_value sem) - 1
     else if time = 0 then rt_sem_take c i time s = Some (Done (- RT_ETIMEOUT), s)
     else (\<exists>s'. rt_sem_take c i time s = Some (Blocked, s') \<and>
       blocked c (SuspendQ (Sem i)) t (sem_flag sem) time (upd_thread t (\<lambda>th. th\<lparr>th_error := RT_EOK\<rparr>) s) s')"
proof -
  let ?s1 = "upd_thread t (\<lambda>th. th\<lparr>th_error := 0\<rparr>) s"
  have el: "eligible c ?s1 u" using assms(4) by (auto simp: eligible_def)
  show ?thesis
  proof (cases "sem_value sem > 0 \<or> time = 0")
    case True
    then show ?thesis using assms(2) unat_pred [of "sem_value sem"] by (auto simp: rt_sem_take_def)
  next
    case False
    obtain s' where "ipc_block c (SuspendQ (Sem i)) t (sem_flag sem) time ?s1 = Some s'"
      "blocked c (SuspendQ (Sem i)) t (sem_flag sem) time ?s1 s'"
      using caller_blocks [OF caller_error [OF assms(1)] el _ assms(3), of "SuspendQ (Sem i)" time] assms(5) False by blast
    then show ?thesis using False assms(2) callerD(4,5) [OF assms(1)] by (simp add: rt_sem_take_def)
  qed
qed

text \<open>
  \<^verbatim>\<open>rt_sem_take\<close> called by a running thread has exactly three outcomes: with a unit available it
  takes one and returns \<^verbatim>\<open>RT_EOK\<close>; with none and no waiting time it returns \<^verbatim>\<open>-RT_ETIMEOUT\<close> and changes
  nothing; otherwise the caller's error is reset and it is suspended in the semaphore's list at the place its
  priority or arrival gives it, with its timer due after the waiting time, and another thread runs.
\<close>

theorem rt_sem_take_outcome:
  assumes "caller c t s" "sems s i = Some sem" "ipc_flag (sem_flag sem)"
    "eligible c s u" "time = 0 \<or> wait_time time"
  shows "if sem_value sem > 0
     then rt_sem_take c i time s = Some (Done RT_EOK, s\<lparr>sems := (sems s)(i \<mapsto> sem\<lparr>sem_value := sem_value sem - 1\<rparr>)\<rparr>)
       \<and> unat (sem_value sem - 1) = unat (sem_value sem) - 1
     else if time = 0 then rt_sem_take c i time s = Some (Done (- RT_ETIMEOUT), s)
     else (\<exists>s'. rt_sem_take c i time s = Some (Blocked, s') \<and>
       blocked c (SuspendQ (Sem i)) t (sem_flag sem) time (upd_thread t (\<lambda>th. th\<lparr>th_error := RT_EOK\<rparr>) s) s')"
  using sem_take_cases [OF assms] .

theorem rt_sem_take_outcome_witness:
  "\<exists>s'. rt_sem_take 0 7 10 (ex_sem 0) = Some (Blocked, s') \<and> kernel_ok s' \<and>
     stat_of (threads s' 1) = RT_THREAD_SUSPEND \<and> tq s' (SuspendQ (Sem 7)) = [1] \<and>
     left (rt_tick_get s') s' (ThreadTimer 1) = 10"
proof -
  have "wait_time 10" by simp
  then show ?thesis
    using rt_sem_take_outcome [OF ex_sem_ok(1,3) _ ex_sem_ok(2), of 0 10] by (auto simp: blocked_def ex_sem_ok(4) wait_insert_def)
qed

lemma sem_release_cases:
  assumes "caller c t s" "sems s i = Some sem"
  shows "case tq s (SuspendQ (Sem i)) of
      w # ws \<Rightarrow> \<exists>s'. rt_sem_release c i s = Some (RT_EOK, s') \<and> woken c (SuspendQ (Sem i)) w ws s s'
    | [] \<Rightarrow> if sem_value sem < RT_SEM_VALUE_MAX
       then rt_sem_release c i s = Some (RT_EOK, s\<lparr>sems := (sems s)(i \<mapsto> sem\<lparr>sem_value := sem_value sem + 1\<rparr>)\<rparr>)
         \<and> unat (sem_value sem + 1) = unat (sem_value sem) + 1
       else rt_sem_release c i s = Some (- RT_EFULL, s)"
proof (cases "tq s (SuspendQ (Sem i))")
  case Nil
  then show ?thesis using assms(2) unat_Suc_u16 [of "sem_value sem"] by (auto simp: rt_sem_release_def)
next
  case (Cons w ws)
  obtain s1 s' where "rt_ipc_list_resume c (SuspendQ (Sem i)) s = Some s1" "rt_schedule c s1 = Some s'"
    "woken c (SuspendQ (Sem i)) w ws s s'"
    using resume_schedule_ok [OF callerD(1,2,3) [OF assms(1)] _ Cons] by blast
  then show ?thesis using assms(2) Cons by (simp add: rt_sem_release_def)
qed

text \<open>
  \<^verbatim>\<open>rt_sem_release\<close> called by a running thread: if threads wait, the first of them is removed from the
  list and made ready, the counter is unchanged, and the hart runs no less urgent thread than the woken one;
  otherwise the counter goes up by one, and at its maximum the call fails with \<^verbatim>\<open>-RT_EFULL\<close> and changes nothing.
\<close>

theorem rt_sem_release_outcome:
  assumes "caller c t s" "sems s i = Some sem"
  shows "case tq s (SuspendQ (Sem i)) of
      w # ws \<Rightarrow> \<exists>s'. rt_sem_release c i s = Some (RT_EOK, s') \<and> woken c (SuspendQ (Sem i)) w ws s s'
    | [] \<Rightarrow> if sem_value sem < RT_SEM_VALUE_MAX
       then rt_sem_release c i s = Some (RT_EOK, s\<lparr>sems := (sems s)(i \<mapsto> sem\<lparr>sem_value := sem_value sem + 1\<rparr>)\<rparr>)
         \<and> unat (sem_value sem + 1) = unat (sem_value sem) + 1
       else rt_sem_release c i s = Some (- RT_EFULL, s)"
  using sem_release_cases [OF assms] .

theorem rt_sem_release_outcome_witness:
  "\<exists>s'. rt_sem_release 0 7 ((ex_waiting (SuspendQ (Sem 7)))\<lparr>sems := [7 \<mapsto> \<lparr>sem_static = True, sem_flag = 0, sem_value = 0\<rparr>]\<rparr>)
     = Some (RT_EOK, s') \<and> tq s' (SuspendQ (Sem 7)) = [] \<and> stat_of (threads s' 4) \<noteq> RT_THREAD_SUSPEND"
proof -
  let ?s = "(ex_waiting (SuspendQ (Sem 7)))\<lparr>sems := [7 \<mapsto> \<lparr>sem_static = True, sem_flag = 0, sem_value = 0\<rparr>]\<rparr>"
  have "caller 0 1 ?s" using ex_waiting_ok(1) by simp
  moreover have "tq ?s (SuspendQ (Sem 7)) = [4]" by (simp add: ex_waiting_def)
  ultimately show ?thesis
    using rt_sem_release_outcome [of 0 1 ?s 7 "\<lparr>sem_static = True, sem_flag = 0, sem_value = 0\<rparr>"]
    by (auto simp: woken_def)
qed

subsection \<open>Runs of a semaphore\<close>

text \<open>
  What happens to the units of a semaphore, read off the result of each call and the state after it.
  \<open>Given ts\<close> is a release that returned \<^verbatim>\<open>RT_EOK\<close>, \<open>ts\<close> the threads that were waiting before it, have left
  the list, are no longer suspended, and whose \<^verbatim>\<open>rt_sem_take\<close> returns \<^verbatim>\<open>RT_EOK\<close> when they run; \<open>Other\<close> is any
  step of the kernel that does not touch the semaphore but may take threads out of its list (a timeout,
  a thread detached).
\<close>

datatype unit_event = Got | Refused_unit | Waits_unit | Given "tid list" | Overflowed | Other

definition take_unit :: "outcome \<Rightarrow> unit_event" where
  "take_unit out = (case out of Blocked \<Rightarrow> Waits_unit | Done e \<Rightarrow> if e = RT_EOK then Got else Refused_unit)"

definition woken_waiters :: "qid \<Rightarrow> kernel \<Rightarrow> kernel \<Rightarrow> tid list" where
  "woken_waiters q s s' = filter (\<lambda>t. t \<notin> set (tq s' q) \<and> stat_of (threads s' t) \<noteq> RT_THREAD_SUSPEND \<and>
     rt_sem_take_resume t s' = RT_EOK) (tq s q)"

definition release_unit :: "rt_err_t \<Rightarrow> tid list \<Rightarrow> unit_event" where
  "release_unit e ts = (if e = RT_EOK then Given ts else Overflowed)"

inductive unit_step :: "nat \<Rightarrow> kernel \<Rightarrow> unit_event \<Rightarrow> kernel \<Rightarrow> bool" for i where
  take: "caller c t s \<Longrightarrow> eligible c s u \<Longrightarrow> time = 0 \<or> wait_time time \<Longrightarrow>
     rt_sem_take c i time s = Some (out, s') \<Longrightarrow> unit_step i s (take_unit out) s'"
| release: "caller c t s \<Longrightarrow> rt_sem_release c i s = Some (e, s') \<Longrightarrow>
     unit_step i s (release_unit e (woken_waiters (SuspendQ (Sem i)) s s')) s'"
| environment: "sems s' i = sems s i \<Longrightarrow> subseq (tq s' (SuspendQ (Sem i))) (tq s (SuspendQ (Sem i))) \<Longrightarrow>
     \<forall>t \<in> set (tq s' (SuspendQ (Sem i))). th_error (threads s' t) = th_error (threads s t) \<Longrightarrow>
     unit_step i s Other s'"

fun unit_spec :: "unit_event \<Rightarrow> nat \<Rightarrow> nat option" where
  "unit_spec Got v = (if v > 0 then Some (v - 1) else None)"
| "unit_spec Refused_unit v = (if v = 0 then Some 0 else None)"
| "unit_spec Waits_unit v = (if v = 0 then Some 0 else None)"
| "unit_spec (Given ts) v =
     (if ts = [] then (if v < 65535 then Some (v + 1) else None) else if length ts = 1 \<and> v = 0 then Some 0 else None)"
| "unit_spec Overflowed v = (if v = 65535 then Some v else None)"
| "unit_spec Other v = Some v"

definition sem_inv :: "nat \<Rightarrow> kernel \<Rightarrow> bool" where
  "sem_inv i s \<longleftrightarrow> (\<exists>sem. sems s i = Some sem \<and> ipc_flag (sem_flag sem) \<and>
     (sem_value sem > 0 \<longrightarrow> tq s (SuspendQ (Sem i)) = []))"

text \<open>\<^verbatim>\<open>rt_sem_take\<close> clears the error of the thread it suspends.\<close>

definition waiters_clear :: "nat \<Rightarrow> kernel \<Rightarrow> bool" where
  "waiters_clear i s \<longleftrightarrow> (\<forall>t \<in> set (tq s (SuspendQ (Sem i))). th_error (threads s t) = RT_EOK)"

definition sem_count :: "nat \<Rightarrow> kernel \<Rightarrow> nat" where
  "sem_count i s = (case sems s i of Some sem \<Rightarrow> unat (sem_value sem) | None \<Rightarrow> 0)"

lemma th_frame_error: "th_frame th th' \<Longrightarrow> th_error th' = th_error th"
  by (cases th; cases th') (simp add: th_frame_def)

lemma woken_error: "woken c q w ws s s' \<Longrightarrow> th_error (threads s' u) = th_error (threads s u)"
  by (simp add: woken_def th_frame_error)

lemma sem_take_step:
  assumes inv: "sem_inv i s" and "caller c t s" "eligible c s u" "time = 0 \<or> wait_time time"
    and r: "rt_sem_take c i time s = Some (out, s')"
  shows "sem_inv i s' \<and> (waiters_clear i s \<longrightarrow> waiters_clear i s') \<and>
     unit_spec (take_unit out) (sem_count i s) = Some (sem_count i s')"
proof -
  obtain sem where sem: "sems s i = Some sem" "ipc_flag (sem_flag sem)"
    "sem_value sem > 0 \<longrightarrow> tq s (SuspendQ (Sem i)) = []" using inv by (auto simp: sem_inv_def)
  note out = sem_take_cases [OF assms(2) sem(1,2) assms(3,4)]
  show ?thesis
  proof (cases "sem_value sem > 0")
    case True
    then show ?thesis using out r sem
      by (auto simp: sem_inv_def sem_count_def take_unit_def waiters_clear_def word_less_nat_alt)
  next
    case False
    then have v: "sem_value sem = 0" by (simp add: word_gt_0)
    show ?thesis
    proof (cases "time = 0")
      case True
      then show ?thesis using out v r inv sem(1) by (auto simp: sem_count_def take_unit_def)
    next
      case F: False
      let ?s1 = "upd_thread t (\<lambda>th. th\<lparr>th_error := 0\<rparr>) s"
      obtain b where b: "rt_sem_take c i time s = Some (Blocked, b)"
        "blocked c (SuspendQ (Sem i)) t (sem_flag sem) time ?s1 b"
        using out v F by auto
      then have e: "sems s' = sems s" "out = Blocked" "s' = b" using r ipcsD(1) [of b s] by (auto simp: blocked_def)
      have q: "set (tq s' (SuspendQ (Sem i))) = insert t (set (tq s (SuspendQ (Sem i))))"
        using b(2) e(3) by (simp add: blocked_def set_wait_insert)
      have "th_error (threads s' x) = th_error (threads ?s1 x)" for x
        using b(2) e(3) by (simp add: blocked_def th_frame_error)
      then have "waiters_clear i s \<longrightarrow> waiters_clear i s'" using q by (auto simp: waiters_clear_def)
      then show ?thesis using e sem v by (simp add: sem_inv_def sem_count_def take_unit_def)
    qed
  qed
qed

lemma woken_waiters_first:
  assumes "tq s q = w # ws" "woken c q w ws s s'" "distinct (w # ws)" "\<not> is_ready q" "th_error (threads s w) = RT_EOK"
  shows "woken_waiters q s s' = [w]"
proof -
  have "tq s' q = ws" "th_error (threads s' w) = 0" "stat_of (threads s' w) \<noteq> 2"
    using assms(2,4) woken_error [OF assms(2), of w] assms(5) by (simp_all add: woken_def)
  moreover from this have "filter (\<lambda>t. t \<notin> set (tq s' q) \<and> P t) ws = []" for P by (simp add: filter_empty_conv)
  ultimately show ?thesis using assms(1,3) by (auto simp: woken_waiters_def rt_sem_take_resume_def)
qed

lemma sem_release_step:
  assumes inv: "sem_inv i s" and "caller c t s" and r: "rt_sem_release c i s = Some (e, s')"
  shows "sem_inv i s' \<and> (waiters_clear i s \<longrightarrow> waiters_clear i s' \<and>
     unit_spec (release_unit e (woken_waiters (SuspendQ (Sem i)) s s')) (sem_count i s) = Some (sem_count i s'))"
proof -
  obtain sem where sem: "sems s i = Some sem" "ipc_flag (sem_flag sem)"
    "sem_value sem > 0 \<longrightarrow> tq s (SuspendQ (Sem i)) = []" using inv by (auto simp: sem_inv_def)
  note out = sem_release_cases [OF assms(2) sem(1)]
  show ?thesis
  proof (cases "tq s (SuspendQ (Sem i))")
    case Nil
    then have n: "woken_waiters (SuspendQ (Sem i)) s s' = []" by (simp add: woken_waiters_def)
    show ?thesis
    proof (cases "sem_value sem < 0xffff")
      case True
      then have "unat (sem_value sem) < 65535" by (simp add: word_less_nat_alt)
      then show ?thesis using out r sem Nil True n
        by (auto simp: sem_inv_def sem_count_def release_unit_def waiters_clear_def)
    next
      case False
      then have "unat (sem_value sem) = 65535"
        using unat_u16 [of "sem_value sem"] by (simp add: word_less_nat_alt)
      then show ?thesis using out r sem Nil False inv by (auto simp: sem_count_def release_unit_def)
    qed
  next
    case (Cons w ws)
    then obtain b where b: "rt_sem_release c i s = Some (0, b)" "woken c (SuspendQ (Sem i)) w ws s b"
      using out by auto
    then have e: "sems s' = sems s" "e = 0" "s' = b" using r ipcsD(1) [of b s] by (auto simp: woken_def)
    have "distinct (w # ws)" 
    proof -
      have "q_ok (tq s)" using kernel_okD(1) [OF callerD(1) [OF assms(2)]] by (simp add: sched_ok_def rq_ok_def)
      then show ?thesis using q_ok_distinct [of "tq s" "SuspendQ (Sem i)"] Cons by simp
    qed
    then have "waiters_clear i s \<Longrightarrow> woken_waiters (SuspendQ (Sem i)) s s' = [w]"
      using woken_waiters_first [OF Cons b(2)] Cons e(3) by (simp add: waiters_clear_def)
    moreover have "waiters_clear i s \<longrightarrow> waiters_clear i s'"
      using b(2) e(3) Cons woken_error [OF b(2)] by (auto simp: waiters_clear_def woken_def)
    moreover have "sem_value sem = 0" using sem(3) Cons by (auto simp: word_gt_0)
    ultimately show ?thesis using sem e by (auto simp: sem_inv_def sem_count_def release_unit_def)
  qed
qed

interpretation semaphore: implements "unit_step i" "\<lambda>s. sem_inv i s \<and> waiters_clear i s" "sem_count i" unit_spec for i
proof
  have "(sem_inv i s' \<and> waiters_clear i s') \<and> unit_spec e (sem_count i s) = Some (sem_count i s')"
    if "sem_inv i s \<and> waiters_clear i s" "unit_step i s e s'" for s e s'
    using that(2,1)
  proof cases
    case environment
    moreover have "set (tq s' (SuspendQ (Sem i))) \<subseteq> set (tq s (SuspendQ (Sem i)))"
      using environment(3) by (auto dest: list_emb_set)
    ultimately show ?thesis using that(1) by (auto simp: sem_inv_def sem_count_def waiters_clear_def)
  qed (use sem_take_step sem_release_step in blast)+
  then show "sem_inv i s \<and> waiters_clear i s \<Longrightarrow> unit_step i s e s' \<Longrightarrow> sem_inv i s' \<and> waiters_clear i s'"
    "sem_inv i s \<and> waiters_clear i s \<Longrightarrow> unit_step i s e s' \<Longrightarrow> unit_spec e (sem_count i s) = Some (sem_count i s')" for s e s'
    by blast+
qed

fun units_in :: "unit_event \<Rightarrow> nat" where
  "units_in (Given ts) = 1"
| "units_in _ = 0"

fun units_out :: "unit_event \<Rightarrow> nat" where
  "units_out Got = 1"
| "units_out (Given ts) = length ts"
| "units_out _ = 0"

text \<open>
  \<^bold>\<open>C5\<close>: No unit of a semaphore is lost or duplicated. Over every run of takes and releases by running
  threads, on either hart, interleaved with steps of the rest of the kernel, the units in the counter at the end
  together with those obtained by threads are the units at the beginning together with the releases that
  returned \<^verbatim>\<open>RT_EOK\<close>. A thread obtains a unit when its \<^verbatim>\<open>rt_sem_take\<close> returns \<^verbatim>\<open>RT_EOK\<close> at once or when, after a
  release, it has left the list of waiting threads, is no longer suspended and will return \<^verbatim>\<open>RT_EOK\<close>. A positive
  counter excludes waiting threads throughout.
\<close>

theorem sem_run_conserves_units:
  assumes "run (unit_step i) s es s'" "sem_inv i s" "waiters_clear i s"
  shows "sem_count i s' + (\<Sum>e\<leftarrow>es. units_out e) = sem_count i s + (\<Sum>e\<leftarrow>es. units_in e)
     \<and> sem_inv i s' \<and> waiters_clear i s'"
proof -
  let ?d = "\<lambda>e. int (units_in e) - int (units_out e)"
  have "spec_run unit_spec es (sem_count i s) = Some (sem_count i s')"
    using semaphore.run_refines [OF assms(1)] assms(2,3) by blast
  then have "int (sem_count i s') = int (sem_count i s) + (\<Sum>e\<leftarrow>es. ?d e)"
  proof (rule spec_run_sum)
    show "int y = int x + ?d e" if "unit_spec e x = Some y" for e x y
      using that by (cases e) (auto split: if_splits)
  qed
  moreover have "(\<Sum>e\<leftarrow>es. ?d e) = int (\<Sum>e\<leftarrow>es. units_in e) - int (\<Sum>e\<leftarrow>es. units_out e)"
    by (induction es) auto
  ultimately show ?thesis using semaphore.run_inv [OF assms(1)] assms(2,3) by linarith
qed

theorem sem_run_conserves_units_witness:
  "(\<exists>s'. run (unit_step 7) (ex_sem 1) [Got, Refused_unit, Given []] s' \<and> sem_count 7 s' = 1) \<and>
   (\<exists>s'. run (unit_step 7) ((ex_waiting (SuspendQ (Sem 7)))\<lparr>sems := [7 \<mapsto> \<lparr>sem_static = True, sem_flag = 0, sem_value = 0\<rparr>]\<rparr>)
      [Given [4]] s' \<and> sem_count 7 s' = 0)"
proof
  let ?s = "ex_sem 0"
  have q: "tq ex_kernel (SuspendQ (Sem 7)) = []" by (simp add: ex_kernel_def)
  have "rt_sem_take 0 7 0 (ex_sem 1) = Some (Done 0, ?s)" "rt_sem_take 0 7 0 ?s = Some (Done (-2), ?s)"
    "rt_sem_release 0 7 ?s = Some (0, ex_sem 1)"
    by (simp_all add: rt_sem_take_def rt_sem_release_def ex_sem_def q)
  then have "unit_step 7 (ex_sem 1) Got ?s" "unit_step 7 ?s Refused_unit ?s" "unit_step 7 ?s (Given []) (ex_sem 1)"
    using unit_step.take [OF ex_sem_ok(1,2) disjI1 [OF refl], of 7 1 "Done 0" ?s]
      unit_step.take [OF ex_sem_ok(1,2) disjI1 [OF refl], of 7 0 "Done (-2)" ?s]
      unit_step.release [OF ex_sem_ok(1), of 7 0 0 "ex_sem 1"]
    by (simp_all add: take_unit_def release_unit_def woken_waiters_def ex_sem_ok(4))
  then have r: "run (unit_step 7) (ex_sem 1) [Got, Refused_unit, Given []] (ex_sem 1)" by auto
  moreover have "sem_inv 7 (ex_sem 1)" "waiters_clear 7 (ex_sem 1)" by (simp_all add: sem_inv_def waiters_clear_def ex_sem_ok)
  ultimately show "\<exists>s'. run (unit_step 7) (ex_sem 1) [Got, Refused_unit, Given []] s' \<and> sem_count 7 s' = 1"
    using sem_run_conserves_units [OF r] by (intro exI [of _ "ex_sem 1"]) (simp add: sem_count_def ex_sem_ok)
next
  let ?sem = "\<lparr>sem_static = True, sem_flag = 0, sem_value = 0\<rparr>"
  let ?q = "SuspendQ (Sem 7)"
  let ?s = "(ex_waiting ?q)\<lparr>sems := [7 \<mapsto> ?sem]\<rparr>"
  have c: "caller 0 1 ?s" using ex_waiting_ok(1) by simp
  have q: "tq ?s ?q = [4]" and e: "th_error (threads ?s 4) = 0"
    by (simp_all add: ex_waiting_def ex_kernel_def ex_thread_def)
  then obtain s' where s': "rt_sem_release 0 7 ?s = Some (0, s')" "woken 0 ?q 4 [] ?s s'"
    using sem_release_cases [OF c, of 7 ?sem] by auto
  have "woken_waiters ?q ?s s' = [4]" by (rule woken_waiters_first [OF q s'(2)]) (use e in auto)
  then have "unit_step 7 ?s (Given [4]) s'"
    using unit_step.release [OF c s'(1)] by (simp add: release_unit_def)
  then have r: "run (unit_step 7) ?s [Given [4]] s'" by simp
  have "sem_inv 7 ?s" "waiters_clear 7 ?s" using q e by (simp_all add: sem_inv_def waiters_clear_def)
  from sem_run_conserves_units [OF r this] have "sem_count 7 s' = 0" by (simp add: sem_count_def)
  then show "\<exists>s'. run (unit_step 7) ?s [Given [4]] s' \<and> sem_count 7 s' = 0" using r by blast
qed

subsection \<open>Removing a semaphore\<close>

text \<open>
  \<^bold>\<open>C32\<close>: \<^verbatim>\<open>rt_sem_detach\<close> terminates: its loop empties the list of waiting threads, every one of them is
  ready again with the error \<^verbatim>\<open>-RT_ERROR\<close>, which its \<^verbatim>\<open>rt_sem_take\<close> then returns, no other thread changes,
  and the semaphore is gone.
\<close>

theorem rt_sem_detach_wakes_all:
  assumes "kernel_ok s" "sems s i = Some sem" "sem_static sem"
  shows "\<exists>s'. rt_sem_detach c i s = Some (RT_EOK, s') \<and> kernel_ok s' \<and> sems s' i = None \<and>
     tq s' (SuspendQ (Sem i)) = [] \<and>
     (\<forall>t \<in> set (tq s (SuspendQ (Sem i))). rt_sem_take_resume t s' = - RT_ERROR \<and>
        stat_of (threads s' t) \<noteq> RT_THREAD_SUSPEND \<and> live (threads s' t)) \<and>
     (\<forall>t. t \<notin> set (tq s (SuspendQ (Sem i))) \<longrightarrow> threads s' t = threads s t)"
proof -
  have q: "wait_queue (SuspendQ (Sem i))" by blast
  obtain s1 where s1: "rt_ipc_list_resume_all c (SuspendQ (Sem i)) s = Some s1" "kernel_ok s1"
    "\<forall>t. threads s1 t = (if t \<in> set (tq s (SuspendQ (Sem i)))
       then set_stat (if th_oncpu (threads s t) = 2 then 1 else 3) (threads s t\<lparr>th_error := -1\<rparr>) else threads s t)"
    "\<forall>k. \<not> is_ready k \<longrightarrow> tq s1 k = (if k = SuspendQ (Sem i) then [] else tq s k)" "ipcs s1 = ipcs s" "hart_frame s s1"
    by (rule rt_ipc_list_resume_all_ok [OF assms(1) q])
  let ?s' = "s1\<lparr>sems := (sems s1)(i := None)\<rparr>"
  have "rt_sem_detach c i s = Some (0, ?s')" using assms(2,3) s1(1) by (simp add: rt_sem_detach_def)
  moreover have "tq ?s' (SuspendQ (Sem i)) = []" using s1(4) by simp
  moreover have "\<forall>t \<in> set (tq s (SuspendQ (Sem i))). rt_sem_take_resume t ?s' = -1 \<and>
      stat_of (threads ?s' t) \<noteq> 2 \<and> live (threads ?s' t)"
    using s1(3) by (simp add: rt_sem_take_resume_def live_def)
  ultimately show ?thesis using s1(2,3) by (intro exI [of _ ?s']) simp
qed

theorem rt_sem_detach_wakes_all_witness:
  "\<exists>s'. rt_sem_detach 0 7 ((ex_waiting (SuspendQ (Sem 7)))\<lparr>sems := [7 \<mapsto> \<lparr>sem_static = True, sem_flag = 0, sem_value = 0\<rparr>]\<rparr>)
     = Some (RT_EOK, s') \<and> rt_sem_take_resume 4 s' = - RT_ERROR"
proof -
  let ?s = "(ex_waiting (SuspendQ (Sem 7)))\<lparr>sems := [7 \<mapsto> \<lparr>sem_static = True, sem_flag = 0, sem_value = 0\<rparr>]\<rparr>"
  have k: "kernel_ok ?s" using callerD(1) [OF ex_waiting_ok(1), of "SuspendQ (Sem 7)"] by simp
  have "tq ?s (SuspendQ (Sem 7)) = [4]" by (simp add: ex_waiting_def)
  then show ?thesis using rt_sem_detach_wakes_all [OF k, of 7 _ 0] by auto
qed

end
