(* ===== verification/Sem_Fairness.thy ===== *)
theory Sem_Fairness
  imports Semaphore
begin

text \<open>
  Fairness of a semaphore created with \<^verbatim>\<open>RT_IPC_FLAG_FIFO\<close> (\<^verbatim>\<open>src/ipc.c\<close>): threads that arrive later
  queue up behind a waiting thread, so each hand-over brings it one place nearer to the front.
\<close>

text \<open>
  What an observer sees of each call. \<open>Handed\<close> is a release called while threads wait (whether it serves one of
  them is what is proved), \<open>Env\<close> any step of the kernel that does not touch the semaphore but may take waiting
  threads out of its list (a timeout, a thread detached).
\<close>

datatype sem_event = Taken | Refused | Queued | Released | Handed | Overflow | Env

definition take_event :: "outcome \<Rightarrow> sem_event" where
  "take_event out = (case out of Blocked \<Rightarrow> Queued | Done e \<Rightarrow> if e = RT_EOK then Taken else Refused)"

definition release_event :: "rt_err_t \<Rightarrow> tid list \<Rightarrow> sem_event" where
  "release_event e ws = (if ws \<noteq> [] then Handed else if e = RT_EOK then Released else Overflow)"

inductive sem_step :: "nat \<Rightarrow> kernel \<Rightarrow> sem_event \<Rightarrow> kernel \<Rightarrow> bool" for i where
  take: "caller c t s \<Longrightarrow> eligible c s u \<Longrightarrow> time = 0 \<or> wait_time time \<Longrightarrow>
     rt_sem_take c i time s = Some (out, s') \<Longrightarrow> sem_step i s (take_event out) s'"
| release: "caller c t s \<Longrightarrow> rt_sem_release c i s = Some (e, s') \<Longrightarrow>
     sem_step i s (release_event e (tq s (SuspendQ (Sem i)))) s'"
| environment: "sems s' i = sems s i \<Longrightarrow> subseq (tq s' (SuspendQ (Sem i))) (tq s (SuspendQ (Sem i))) \<Longrightarrow>
     sem_step i s Env s'"

definition fifo_sem :: "nat \<Rightarrow> kernel \<Rightarrow> bool" where
  "fifo_sem i s \<longleftrightarrow> (\<exists>sem. sems s i = Some sem \<and> sem_flag sem = RT_IPC_FLAG_FIFO)"

text \<open>The thread waits and at most \<open>n\<close> threads are ahead of it.\<close>

definition waits :: "nat \<Rightarrow> tid \<Rightarrow> nat \<Rightarrow> kernel \<Rightarrow> bool" where
  "waits i t n s \<longleftrightarrow> (\<exists>as bs. tq s (SuspendQ (Sem i)) = as @ t # bs \<and> t \<notin> set bs \<and> length as \<le> n)"

lemma waits_in: "waits i t n s \<Longrightarrow> t \<in> set (tq s (SuspendQ (Sem i)))"
  by (auto simp: waits_def)

lemma subseq_last_place:
  assumes "subseq ys (as @ t # bs)" "t \<in> set ys" "t \<notin> set bs"
  obtains cs ds where "ys = cs @ t # ds" "t \<notin> set ds" "length cs \<le> length as"
proof -
  obtain y1 y2 where y: "ys = y1 @ y2" "subseq y1 as" "subseq y2 (t # bs)"
    using assms(1) by (auto simp: subseq_append_iff)
  show thesis
  proof (cases "t \<in> set y2")
    case True
    then obtain c d where cd: "y2 = c @ t # d" "t \<notin> set d" by (meson split_list_last)
    have "c = []"
    proof (cases c)
      case (Cons x xs)
      then have "subseq (xs @ t # d) bs" using y(3) cd(1) by (auto simp: subseq_Cons2_iff split: if_splits dest: subseq_Cons')
      then show ?thesis using assms(3) by (auto dest: list_emb_set)
    qed
    then show thesis using that [of y1 d] y cd list_emb_length [OF y(2)] by simp
  next
    case False
    then have "t \<in> set y1" using assms(2) y(1) by auto
    then obtain c d where cd: "y1 = c @ t # d" "t \<notin> set d" by (meson split_list_last)
    then show thesis using that [of c "d @ y2"] False y list_emb_length [OF y(2)] by simp
  qed
qed

lemma fifo_take_queue:
  assumes "fifo_sem i s" "caller c t s" "eligible c s u" "time = 0 \<or> wait_time time"
    and "rt_sem_take c i time s = Some (out, s')"
  shows "fifo_sem i s'" "take_event out \<notin> {Handed, Env}"
    "tq s' (SuspendQ (Sem i)) = tq s (SuspendQ (Sem i)) @ (if out = Blocked then [t] else [])"
proof -
  obtain sem where sem: "sems s i = Some sem" "sem_flag sem = 0" using assms(1) by (auto simp: fifo_sem_def)
  note out = sem_take_cases [OF assms(2) sem(1) _ assms(3,4)]
  have "fifo_sem i s' \<and> tq s' (SuspendQ (Sem i)) = tq s (SuspendQ (Sem i)) @ (if out = Blocked then [t] else [])"
  proof (cases "sem_value sem > 0 \<or> time = 0")
    case True
    then show ?thesis using out assms(1,5) sem by (auto simp: fifo_sem_def split: if_splits)
  next
    case False
    then obtain b where b: "rt_sem_take c i time s = Some (Blocked, b)"
      "blocked c (SuspendQ (Sem i)) t (sem_flag sem) time (upd_thread t (\<lambda>th. th\<lparr>th_error := 0\<rparr>) s) b"
      using out sem(2) by auto
    then have "sems s' = sems s" "out = Blocked" "s' = b" using assms(5) ipcsD(1) [of b s] by (auto simp: blocked_def)
    then show ?thesis using b(2) sem by (auto simp: fifo_sem_def blocked_def wait_insert_def)
  qed
  then show "fifo_sem i s'" "tq s' (SuspendQ (Sem i)) = tq s (SuspendQ (Sem i)) @ (if out = Blocked then [t] else [])"
    by auto
  show "take_event out \<notin> {Handed, Env}" by (auto simp: take_event_def split: outcome.splits)
qed

lemma fifo_release_queue:
  assumes "fifo_sem i s" "caller c t s" "rt_sem_release c i s = Some (e, s')"
  shows "fifo_sem i s' \<and> tq s' (SuspendQ (Sem i)) = tl (tq s (SuspendQ (Sem i))) \<and>
    (tq s (SuspendQ (Sem i)) \<noteq> [] \<longrightarrow> stat_of (threads s' (hd (tq s (SuspendQ (Sem i))))) \<noteq> RT_THREAD_SUSPEND)"
proof -
  obtain sem where sem: "sems s i = Some sem" "sem_flag sem = 0" using assms(1) by (auto simp: fifo_sem_def)
  note out = sem_release_cases [OF assms(2) sem(1)]
  show ?thesis
  proof (cases "tq s (SuspendQ (Sem i))")
    case Nil
    then show ?thesis using out assms(1,3) sem by (auto simp: fifo_sem_def split: if_splits)
  next
    case (Cons w ws)
    then obtain b where b: "rt_sem_release c i s = Some (0, b)" "woken c (SuspendQ (Sem i)) w ws s b"
      using out by auto
    then have "sems s' = sems s" "s' = b" using assms(3) ipcsD(1) [of b s] by (auto simp: woken_def)
    then show ?thesis using b(2) sem Cons by (auto simp: fifo_sem_def woken_def)
  qed
qed

text \<open>Each step keeps the place of a waiting thread, or moves it forward, or takes it out of the list.\<close>

lemma waits_step:
  assumes "fifo_sem i s" "waits i t n s" "sem_step i s e s'"
  shows "fifo_sem i s' \<and>
    (t \<notin> set (tq s' (SuspendQ (Sem i))) \<and> (e = Env \<or> e = Handed \<and> stat_of (threads s' t) \<noteq> RT_THREAD_SUSPEND) \<or>
     (if e = Handed then 0 < n \<and> waits i t (n - 1) s' else waits i t n s'))"
proof -
  obtain as bs where w: "tq s (SuspendQ (Sem i)) = as @ t # bs" "t \<notin> set bs" "length as \<le> n"
    using assms(2) by (auto simp: waits_def)
  show ?thesis using assms(3)
  proof cases
    case (take c v u time out)
    have "v \<notin> set (tq s (SuspendQ (Sem i)))"
      by (rule running_not_queued [OF kernel_okD(1) [OF callerD(1) [OF take(2)]] callerD(3) [OF take(2)]])
    moreover note f = fifo_take_queue [OF assms(1) take(2-5)]
    ultimately have "waits i t n s'" unfolding waits_def
      using w by (intro exI [of _ as] exI [of _ "bs @ (if out = Blocked then [v] else [])"]) auto
    then show ?thesis using f(1,2) take(1) by auto
  next
    case (release c v x)
    note f = fifo_release_queue [OF assms(1) release(2,3)]
    have e: "e = Handed" using release(1) w(1) by (simp add: release_event_def)
    show ?thesis
    proof (cases as)
      case Nil
      then show ?thesis using f w e by auto
    next
      case (Cons a as')
      then have "waits i t (n - 1) s'" unfolding waits_def
        using f w by (intro exI [of _ as'] exI [of _ bs]) auto
      then show ?thesis using f e w(3) Cons by auto
    qed
  next
    case environment
    have "waits i t n s'" if m: "t \<in> set (tq s' (SuspendQ (Sem i)))"
    proof -
      obtain cs ds where "tq s' (SuspendQ (Sem i)) = cs @ t # ds" "t \<notin> set ds" "length cs \<le> length as"
        by (rule subseq_last_place [OF environment(3) [unfolded w(1)] m w(2)])
      then show ?thesis unfolding waits_def using w(3) by (intro exI [of _ cs] exI [of _ ds]) simp
    qed
    then show ?thesis using environment(1,2) assms(1) by (auto simp: fifo_sem_def)
  qed
qed

lemma waits_served:
  assumes "run (sem_step i) s es s'" "fifo_sem i s" "waits i t n s" "n < count_list es Handed"
  shows "\<exists>es1 e es2 s1 s2. es = es1 @ e # es2 \<and> run (sem_step i) s es1 s1 \<and> sem_step i s1 e s2 \<and>
     run (sem_step i) s2 es2 s' \<and> t \<in> set (tq s1 (SuspendQ (Sem i))) \<and> t \<notin> set (tq s2 (SuspendQ (Sem i))) \<and>
     count_list es1 Handed \<le> n \<and> (e = Env \<or> e = Handed \<and> stat_of (threads s2 t) \<noteq> RT_THREAD_SUSPEND)"
  using assms
proof (induction arbitrary: n rule: run.induct)
  case (run_step s e s1 es s2)
  show ?case
  proof (cases "t \<in> set (tq s1 (SuspendQ (Sem i)))")
    case False
    then have "e = Env \<or> e = Handed \<and> stat_of (threads s1 t) \<noteq> RT_THREAD_SUSPEND"
      using waits_step [OF run_step.prems(1,2) run_step.hyps(1)] by (auto split: if_splits dest: waits_in)
    then show ?thesis using False run_step.hyps waits_in [OF run_step.prems(2)]
      by (intro exI [of _ "[]"] exI [of _ e] exI [of _ es] exI [of _ s] exI [of _ s1]) simp
  next
    case True
    let ?n = "if e = Handed then n - 1 else n"
    have w: "fifo_sem i s1" "waits i t ?n s1" "e = Handed \<longrightarrow> 0 < n"
      using waits_step [OF run_step.prems(1,2) run_step.hyps(1)] True by (auto split: if_splits)
    have "?n < count_list es Handed" using run_step.prems(3) w(3) by (auto split: if_splits)
    from run_step.IH [OF w(1,2) this] obtain es1 x es2 a b where
      "es = es1 @ x # es2" "run (sem_step i) s1 es1 a" "sem_step i a x b" "run (sem_step i) b es2 s2"
      "t \<in> set (tq a (SuspendQ (Sem i)))" "t \<notin> set (tq b (SuspendQ (Sem i)))" "count_list es1 Handed \<le> ?n"
      "x = Env \<or> x = Handed \<and> stat_of (threads b t) \<noteq> RT_THREAD_SUSPEND" by blast
    then show ?thesis using run_step.hyps(1) w(3)
      by (intro exI [of _ "e # es1"] exI [of _ x] exI [of _ es2] exI [of _ a] exI [of _ b]) (auto split: if_splits)
  qed
qed simp

text \<open>
  \<^bold>\<open>C9\<close>: A thread that waits for a FIFO semaphore is served. In every run of takes and releases by running
  threads, on either hart and in any interleaving with the rest of the kernel, in which more releases find a thread
  waiting than there were threads ahead of the waiting thread, some step takes it out of the list of waiting
  threads; at most as many hand-overs as there were threads ahead of it come before that step, and unless it is
  a step of the rest of the kernel (a timeout) it is a release that makes the thread ready again.
\<close>

theorem sem_fifo_waiter_served:
  assumes "run (sem_step i) s es s'" "sems s i = Some sem" "sem_flag sem = RT_IPC_FLAG_FIFO"
    and "tq s (SuspendQ (Sem i)) = as @ t # bs" "distinct (tq s (SuspendQ (Sem i)))"
    and "length as < count_list es Handed"
  shows "\<exists>es1 e es2 s1 s2. es = es1 @ e # es2 \<and> run (sem_step i) s es1 s1 \<and> sem_step i s1 e s2 \<and>
     run (sem_step i) s2 es2 s' \<and> t \<in> set (tq s1 (SuspendQ (Sem i))) \<and> t \<notin> set (tq s2 (SuspendQ (Sem i))) \<and>
     count_list es1 Handed \<le> length as \<and> (e = Env \<or> e = Handed \<and> stat_of (threads s2 t) \<noteq> RT_THREAD_SUSPEND)"
proof -
  have "fifo_sem i s" "waits i t (length as) s" using assms(2-5) by (auto simp: fifo_sem_def waits_def)
  from waits_served [OF assms(1) this assms(6)] show ?thesis .
qed

theorem sem_fifo_waiter_served_witness:
  "\<exists>s s'. tq s (SuspendQ (Sem 7)) = [4] \<and> run (sem_step 7) s [Handed] s' \<and> 4 \<notin> set (tq s' (SuspendQ (Sem 7))) \<and>
     stat_of (threads s' 4) \<noteq> RT_THREAD_SUSPEND"
proof -
  let ?sem = "\<lparr>sem_static = True, sem_flag = 0, sem_value = 0\<rparr>"
  let ?s = "(ex_waiting (SuspendQ (Sem 7)))\<lparr>sems := [7 \<mapsto> ?sem]\<rparr>"
  have c: "caller 0 1 ?s" using ex_waiting_ok(1) by simp
  have q: "tq ?s (SuspendQ (Sem 7)) = [4]" by (simp add: ex_waiting_def)
  then obtain s' where "rt_sem_release 0 7 ?s = Some (0, s')" using sem_release_cases [OF c, of 7 ?sem] by auto
  then have "sem_step 7 ?s Handed s'"
    using sem_step.release [OF c, of 7 0 s'] q by (simp add: release_event_def)
  then have r: "run (sem_step 7) ?s [Handed] s'" by simp
  from sem_fifo_waiter_served [OF r, of ?sem "[]" 4 "[]"] q obtain es1 e es2 s1 s2 where
    "[Handed] = es1 @ e # es2" "run (sem_step 7) s2 es2 s'" "4 \<notin> set (tq s2 (SuspendQ (Sem 7)))"
    "e = Env \<or> e = Handed \<and> stat_of (threads s2 4) \<noteq> RT_THREAD_SUSPEND" by auto
  then have "4 \<notin> set (tq s' (SuspendQ (Sem 7))) \<and> stat_of (threads s' 4) \<noteq> RT_THREAD_SUSPEND"
    by (cases es1) auto
  then show ?thesis using q r by (intro exI [of _ ?s] exI [of _ s']) simp
qed

end
