(* ===== verification/Mutex.thy ===== *)
theory Mutex
  imports Ipc Refinement
begin

text \<open>
  The mutex of \<^verbatim>\<open>src/ipc.c\<close>: recursive, owned by a thread, with priority inheritance. The
  owner runs with at least the priority of the threads it keeps waiting and gets its original
  priority back on release.
\<close>

abbreviation (input) RT_MUTEX_VALUE_MAX :: u16 where "RT_MUTEX_VALUE_MAX \<equiv> 65535"
abbreviation (input) RT_MUTEX_HOLD_MAX :: u8 where "RT_MUTEX_HOLD_MAX \<equiv> 255"

definition rt_mutex_init :: "nat \<Rightarrow> u8 \<Rightarrow> kernel \<Rightarrow> rt_err_t \<times> kernel" where
  "rt_mutex_init i flag s =
     (RT_EOK, s\<lparr>mutexes := (mutexes s)(i \<mapsto> \<lparr>mtx_static = True, mtx_flag = flag, mtx_value = 1,
                  mtx_original_priority = 0xff, mtx_hold = 0, mtx_owner = None\<rparr>),
               tq := (tq s)(SuspendQ (Mutex i) := [])\<rparr>)"

definition rt_mutex_detach :: "nat \<Rightarrow> nat \<Rightarrow> kernel \<Rightarrow> (rt_err_t \<times> kernel) option" where
  "rt_mutex_detach c i s =
     do { m \<leftarrow> mutexes s i;
          RT_ASSERT (mtx_static m);
          s1 \<leftarrow> rt_ipc_list_resume_all c (SuspendQ (Mutex i)) s;
          Some (RT_EOK, s1\<lparr>mutexes := (mutexes s1)(i := None)\<rparr>) }"

definition rt_mutex_create :: "nat \<Rightarrow> nat option \<Rightarrow> u8 \<Rightarrow> kernel \<Rightarrow> (nat option \<times> kernel) option" where
  "rt_mutex_create c obj flag s =
     do { RT_DEBUG_NOT_IN_INTERRUPT c s;
          case obj of
            None \<Rightarrow> Some (None, s)
          | Some i \<Rightarrow>
              Some (Some i, s\<lparr>mutexes := (mutexes s)(i \<mapsto> \<lparr>mtx_static = False, mtx_flag = flag, mtx_value = 1,
                                mtx_original_priority = 0xff, mtx_hold = 0, mtx_owner = None\<rparr>),
                             tq := (tq s)(SuspendQ (Mutex i) := [])\<rparr>) }"

definition rt_mutex_delete :: "nat \<Rightarrow> nat \<Rightarrow> kernel \<Rightarrow> (rt_err_t \<times> kernel) option" where
  "rt_mutex_delete c i s =
     do { RT_DEBUG_NOT_IN_INTERRUPT c s;
          m \<leftarrow> mutexes s i;
          RT_ASSERT (\<not> mtx_static m);
          s1 \<leftarrow> rt_ipc_list_resume_all c (SuspendQ (Mutex i)) s;
          Some (RT_EOK, s1\<lparr>mutexes := (mutexes s1)(i := None)\<rparr>) }"

abbreviation upd_mutex :: "nat \<Rightarrow> rt_mutex \<Rightarrow> kernel \<Rightarrow> kernel" where
  "upd_mutex i m s \<equiv> s\<lparr>mutexes := (mutexes s)(i \<mapsto> m)\<rparr>"

definition rt_mutex_take :: "nat \<Rightarrow> nat \<Rightarrow> rt_int32_t \<Rightarrow> kernel \<Rightarrow> (outcome \<times> kernel) option" where
  "rt_mutex_take c i time s =
     do { RT_DEBUG_IN_THREAD_CONTEXT c s;
          m \<leftarrow> mutexes s i;
          t \<leftarrow> rt_thread_self c s;
          let s1 = upd_thread t (\<lambda>th. th\<lparr>th_error := RT_EOK\<rparr>) s;
          if mtx_owner m = Some t
          then (if mtx_hold m < RT_MUTEX_HOLD_MAX
                then Some (Done RT_EOK, upd_mutex i (m\<lparr>mtx_hold := mtx_hold m + 1\<rparr>) s1)
                else Some (Done (- RT_EFULL), s1))
          else if mtx_value m > 0
          then (let m1 = m\<lparr>mtx_value := mtx_value m - 1, mtx_owner := Some t,
                           mtx_original_priority := th_current_priority (threads s1 t)\<rparr>
                in if mtx_hold m1 < RT_MUTEX_HOLD_MAX
                   then Some (Done RT_EOK, upd_mutex i (m1\<lparr>mtx_hold := mtx_hold m1 + 1\<rparr>) s1)
                   else Some (Done (- RT_EFULL), upd_mutex i m1 s1))
          else if time = 0
          then Some (Done (- RT_ETIMEOUT), upd_thread t (\<lambda>th. th\<lparr>th_error := - RT_ETIMEOUT\<rparr>) s1)
          else do {
            own \<leftarrow> mtx_owner m;
            s2 \<leftarrow> (if th_current_priority (threads s1 t) < th_current_priority (threads s1 own)
                    then map_option snd (rt_thread_control c own (CHANGE_PRIORITY (th_current_priority (threads s1 t))) s1)
                    else Some s1);
            s3 \<leftarrow> ipc_block c (SuspendQ (Mutex i)) t (mtx_flag m) time s2;
            Some (Blocked, s3) } }"

definition rt_mutex_take_resume :: "tid \<Rightarrow> kernel \<Rightarrow> rt_err_t" where
  "rt_mutex_take_resume t s =
     (if th_error (threads s t) \<noteq> RT_EOK then th_error (threads s t) else RT_EOK)"

text \<open>The last release: hand the mutex to the first waiting thread, or free it.\<close>

definition mutex_pass :: "nat \<Rightarrow> nat \<Rightarrow> rt_mutex \<Rightarrow> kernel \<Rightarrow> (rt_err_t \<times> kernel) option" where
  "mutex_pass c i m s =
     (case tq s (SuspendQ (Mutex i)) of
        w # _ \<Rightarrow>
          let m2 = m\<lparr>mtx_owner := Some w, mtx_original_priority := th_current_priority (threads s w)\<rparr>
          in if mtx_hold m2 < RT_MUTEX_HOLD_MAX
             then do { s2 \<leftarrow> rt_ipc_list_resume c (SuspendQ (Mutex i))
                               (upd_mutex i (m2\<lparr>mtx_hold := mtx_hold m2 + 1\<rparr>) s);
                       s3 \<leftarrow> rt_schedule c s2;
                       Some (RT_EOK, s3) }
             else Some (- RT_EFULL, upd_mutex i m2 s)
      | [] \<Rightarrow>
          if mtx_value m < RT_MUTEX_VALUE_MAX
          then Some (RT_EOK, upd_mutex i (m\<lparr>mtx_value := mtx_value m + 1, mtx_owner := None,
                                             mtx_original_priority := 0xff\<rparr>) s)
          else Some (- RT_EFULL, upd_mutex i m s))"

definition rt_mutex_release :: "nat \<Rightarrow> nat \<Rightarrow> kernel \<Rightarrow> (rt_err_t \<times> kernel) option" where
  "rt_mutex_release c i s =
     do { m \<leftarrow> mutexes s i;
          RT_DEBUG_IN_THREAD_CONTEXT c s;
          t \<leftarrow> rt_thread_self c s;
          if mtx_owner m \<noteq> Some t
          then Some (- RT_ERROR, upd_thread t (\<lambda>th. th\<lparr>th_error := - RT_ERROR\<rparr>) s)
          else do {
            let m1 = m\<lparr>mtx_hold := mtx_hold m - 1\<rparr>;
            if mtx_hold m1 \<noteq> 0 then Some (RT_EOK, upd_mutex i m1 s)
            else do {
              s1 \<leftarrow> (if mtx_original_priority m1 \<noteq> th_current_priority (threads s t)
                      then map_option snd (rt_thread_control c t (CHANGE_PRIORITY (mtx_original_priority m1)) s)
                      else Some s);
              mutex_pass c i m1 s1 } } }"

lemma mutex_release_last:
  assumes "mutexes s i = Some m" "RT_DEBUG_IN_THREAD_CONTEXT c s = Some ()" "rt_thread_self c s = Some t"
    "mtx_owner m = Some t" "mtx_hold m = 1"
  shows "rt_mutex_release c i s = Option.bind (if mtx_original_priority m \<noteq> th_current_priority (threads s t)
      then map_option snd (rt_thread_control c t (CHANGE_PRIORITY (mtx_original_priority m)) s) else Some s)
      (mutex_pass c i (m\<lparr>mtx_hold := 0\<rparr>))"
  using assms by (simp add: rt_mutex_release_def Let_def)

definition rt_mutex_control :: "nat \<Rightarrow> ipc_cmd \<Rightarrow> u64 \<Rightarrow> kernel \<Rightarrow> (rt_err_t \<times> kernel) option" where
  "rt_mutex_control i cmd arg s = do { _ \<leftarrow> mutexes s i; Some (- RT_ERROR, s) }"

subsection \<open>Changing a priority\<close>

lemma set_priority_sel [simp]:
  "th_current_priority (set_priority p th) = p" "th_stat (set_priority p th) = th_stat th"
  "th_oncpu (set_priority p th) = th_oncpu th" "th_bind_cpu (set_priority p th) = th_bind_cpu th"
  "th_error (set_priority p th) = th_error th" "th_type (set_priority p th) = th_type th"
  "th_cpus_lock_nest (set_priority p th) = th_cpus_lock_nest th"
  "th_scheduler_lock_nest (set_priority p th) = th_scheduler_lock_nest th"
  "live (set_priority p th) = live th"
  by (simp_all add: set_priority_def live_def)

lemma set_priority_wf: "thread_wf th \<Longrightarrow> p < 32 \<Longrightarrow> thread_wf (set_priority p th)"
  by (simp add: thread_wf_def thread_ok_def set_priority_def rt_scheduler_stack_check_def nest_ok_def)

lemma rq_ok_upd_excl:
  assumes "rq_ok X s" "\<And>k. t \<notin> set (tq s k)" "t \<in> X"
  shows "rq_ok X (upd_thread t f s)"
  using assms by (auto simp: rq_ok_def queued_ok_def)

lemma sched_ok_priority:
  assumes ok: "sched_ok s" and wf: "thread_ok (threads s t)" and p: "p < 32"
  shows "stat_of (threads s t) = 1 \<Longrightarrow>
      sched_ok (rt_schedule_insert_thread c t (upd_thread t (set_priority p) (rt_schedule_remove_thread t s)))"
    "stat_of (threads s t) \<noteq> 1 \<Longrightarrow> sched_ok (upd_thread t (set_priority p) s)"
proof -
  have rq: "rq_ok {} s" and cp: "cpu_ok s" using ok by (auto simp: sched_ok_def)
  have th: "thread_ok (set_priority p (threads s t))" using wf p by (simp add: thread_ok_def set_priority_def)
  show "sched_ok (rt_schedule_insert_thread c t (upd_thread t (set_priority p) (rt_schedule_remove_thread t s)))"
    if st: "stat_of (threads s t) = 1"
  proof -
    let ?s1 = "upd_thread t (set_priority p) (rt_schedule_remove_thread t s)"
    have "t \<in> set (tq s (ready_key (threads s t)))" using rq st unfolding rq_ok_def by blast
    then have on: "th_oncpu (threads s t) = 2" using rq_okD(4) [OF rq] by simp
    have "rq_ok {t} ?s1" by (rule rq_ok_upd_excl [OF rq_ok_remove [OF rq wf]]) simp_all
    then have "rq_ok ({t} - {t}) (rt_schedule_insert_thread c t ?s1)"
      by (rule rq_ok_insert) (use th on in simp_all)
    moreover have "cpu_ok (rt_schedule_insert_thread c t ?s1)"
      using cp on by (auto simp: cpu_ok_def insert_threads)
    ultimately show ?thesis by (simp add: sched_ok_def)
  qed
  show "sched_ok (upd_thread t (set_priority p) s)" if st: "stat_of (threads s t) \<noteq> 1"
  proof -
    have "t \<notin> set (tq s k)" if "is_ready k" for k
      using rq_okD(1) [OF rq, of t k] st that q_stat_ready by auto
    then have "rq_ok {} (upd_thread t (set_priority p) s)" using rq st by (intro rq_ok_upd_nonready) simp_all
    moreover have "cpu_ok (upd_thread t (set_priority p) s)" using cp th by (auto simp: cpu_ok_def)
    ultimately show ?thesis by (simp add: sched_ok_def)
  qed
qed

lemma change_priority_ok:
  assumes ok: "kernel_ok s" and lv: "live (threads s t)" and p: "p < 32"
  obtains s' where "rt_thread_control c t (CHANGE_PRIORITY p) s = Some (0, s')" "kernel_ok s'"
    "\<exists>st. threads s' = (threads s)(t := (set_priority p (threads s t))\<lparr>th_stat := st\<rparr>) \<and>
        st AND 7 = stat_of (threads s t)"
    "\<forall>k. \<not> is_ready k \<longrightarrow> tq s' k = tq s k" "ipcs s' = ipcs s" "hart_frame s s'"
proof -
  have wf: "thread_wf (threads s t)" "timer_typed t s" using kernel_okD(3,4) [OF ok lv] by auto
  have p': "unat p < 32" using p by (simp add: word_less_nat_alt)
  have tok: "thread_ok (threads s t)" using wf by (simp add: thread_wf_def)
  define s' where "s' = (if stat_of (threads s t) = 1
     then rt_schedule_insert_thread c t (upd_thread t (set_priority p) (rt_schedule_remove_thread t s))
     else upd_thread t (set_priority p) s)"
  have r: "rt_thread_control c t (CHANGE_PRIORITY p) s = Some (0, s')"
    using wf p' by (simp add: rt_thread_control_def thread_wf_def s'_def)
  have on: "stat_of (threads s t) = 1 \<Longrightarrow> th_oncpu (threads s t) = 2"
  proof -
    assume st: "stat_of (threads s t) = 1"
    have rq: "rq_ok {} s" using kernel_okD(1) [OF ok] by (simp add: sched_ok_def)
    then have "t \<in> set (tq s (ready_key (threads s t)))" using st unfolding rq_ok_def by blast
    then show ?thesis using rq_okD(4) [OF rq] by simp
  qed
  have th: "threads s' = (threads s)(t := if stat_of (threads s t) = 1 then set_stat 1 (set_priority p (threads s t))
       else set_priority p (threads s t))"
    using on by (simp add: s'_def insert_threads)
  have sk: "sched_ok s'" using sched_ok_priority [OF kernel_okD(1) [OF ok] tok p] by (simp add: s'_def)
  have re: "rest s' = rest s" by (simp add: s'_def)
  have kk: "kernel_ok s'"
  proof (rule kernel_ok_cong [OF ok re sk])
    show "live (threads s u) \<and> thread_wf (threads s' u)" if "live (threads s' u)" for u
      using that lv kernel_okD(3) [OF ok, of u] set_priority_wf [OF wf(1) p] unfolding th by (auto split: if_splits)
  qed
  have st': "\<exists>st. threads s' = (threads s)(t := (set_priority p (threads s t))\<lparr>th_stat := st\<rparr>) \<and>
        st AND 7 = stat_of (threads s t)"
    unfolding th using stat_of_set_stat [of 1 "threads s t"]
    by (intro exI [of _ "if stat_of (threads s t) = 1 then th_stat (set_stat 1 (threads s t)) else th_stat (threads s t)"])
      (auto simp: set_stat_def set_priority_def)
  have q: "tq s' k = tq s k" if "\<not> is_ready k" for k
  proof -
    have "k \<noteq> ready_key th" for th using that by auto
    moreover have "t \<notin> set (tq s k)" if "stat_of (threads s t) = 1"
      using non_ready_q [OF kernel_okD(1) [OF ok] that] \<open>\<not> is_ready k\<close> by blast
    ultimately show ?thesis using on by (auto simp: s'_def insert_detached q_tail_def q_remove_def removeAll_id)
  qed
  have "hart_frame s s'" unfolding hart_frame_def th by (auto simp: s'_def)
  then show thesis using that [OF r kk st'] q ipcs_rest [OF re] by blast
qed

subsection \<open>Invariant\<close>

definition mutex_inv :: "nat \<Rightarrow> kernel \<Rightarrow> bool" where
  "mutex_inv i s \<longleftrightarrow> (\<exists>m. mutexes s i = Some m \<and> ipc_flag (mtx_flag m) \<and>
     (case mtx_owner m of
        None \<Rightarrow> mtx_value m = 1 \<and> mtx_hold m = 0 \<and> tq s (SuspendQ (Mutex i)) = []
      | Some own \<Rightarrow> mtx_value m = 0 \<and> mtx_hold m > 0 \<and> mtx_original_priority m < 32 \<and> live (threads s own)))"

lemma mutex_invD:
  assumes "mutex_inv i s" "mutexes s i = Some m"
  shows "ipc_flag (mtx_flag m)"
    "mtx_owner m = None \<Longrightarrow> mtx_value m = 1 \<and> mtx_hold m = 0 \<and> tq s (SuspendQ (Mutex i)) = []"
    "mtx_owner m = Some own \<Longrightarrow> mtx_value m = 0 \<and> mtx_hold m > 0 \<and> mtx_original_priority m < 32 \<and> live (threads s own)"
  using assms by (auto simp: mutex_inv_def)

lemma caller_priority: "caller c t s \<Longrightarrow> th_current_priority (threads s t) < 32"
  using kernel_okD(3) [of s t] by (auto simp: caller_def live_def thread_wf_def thread_ok_def)

lemma caller_change_priority:
  assumes call: "caller c t s" and own: "live (threads s own)" and p: "p < 32"
  obtains s' where "rt_thread_control c own (CHANGE_PRIORITY p) s = Some (0, s')" "caller c t s'"
    "\<forall>u. eligible c s' u = eligible c s u" "th_current_priority (threads s' own) = p"
    "\<forall>v. v \<noteq> own \<longrightarrow> threads s' v = threads s v" "\<forall>v. stat_of (threads s' v) = stat_of (threads s v) \<and> same_request (threads s v) (threads s' v)"
    "\<forall>k. \<not> is_ready k \<longrightarrow> tq s' k = tq s k" "ipcs s' = ipcs s"
proof -
  obtain s' where s': "rt_thread_control c own (CHANGE_PRIORITY p) s = Some (0, s')" "kernel_ok s'"
    "\<exists>st. threads s' = (threads s)(own := (set_priority p (threads s own))\<lparr>th_stat := st\<rparr>) \<and> st AND 7 = stat_of (threads s own)"
    "\<forall>k. \<not> is_ready k \<longrightarrow> tq s' k = tq s k" "ipcs s' = ipcs s" "hart_frame s s'"
    by (rule change_priority_ok [OF callerD(1) [OF call] own p])
  obtain st where st: "threads s' = (threads s)(own := (set_priority p (threads s own))\<lparr>th_stat := st\<rparr>)"
    "st AND 7 = stat_of (threads s own)" using s'(3) by blast
  have stat: "\<forall>v. stat_of (threads s' v) = stat_of (threads s v) \<and> same_request (threads s v) (threads s' v)"
    using st(2) by (simp add: st(1) same_request_def set_priority_def)
  show thesis
  proof (rule that [OF s'(1)])
    show "caller c t s'" using call s'(2) hart_frame_running [OF s'(6)] stat by (simp add: caller_def)
    show "\<forall>u. eligible c s' u = eligible c s u" using stat by (simp add: eligible_def st(1))
  qed (use s' st stat in simp_all)
qed

text \<open>The owner inherits the priority of a more urgent waiting thread.\<close>

lemma inherit_ok:
  assumes call: "caller c t s" and own: "live (threads s own)" and el: "eligible c s u"
  obtains s' where "(if th_current_priority (threads s t) < th_current_priority (threads s own)
       then map_option snd (rt_thread_control c own (CHANGE_PRIORITY (th_current_priority (threads s t))) s) else Some s) = Some s'"
    "caller c t s'" "eligible c s' u"
    "th_current_priority (threads s' own) = min (th_current_priority (threads s t)) (th_current_priority (threads s own))"
    "\<forall>v. v \<noteq> own \<longrightarrow> threads s' v = threads s v" "\<forall>v. stat_of (threads s' v) = stat_of (threads s v) \<and> same_request (threads s v) (threads s' v)"
    "\<forall>k. \<not> is_ready k \<longrightarrow> tq s' k = tq s k" "ipcs s' = ipcs s"
proof (cases "th_current_priority (threads s t) < th_current_priority (threads s own)")
  case True
  show thesis
  proof (rule caller_change_priority [OF call own caller_priority [OF call]], goal_cases)
    case (1 s')
    show thesis by (rule that [of s', OF _ 1(2) _ _ 1(5,6,7,8)]) (use True el 1(1,3,4) in simp_all)
  qed
next
  case False
  then show thesis using that [of s] call el by (simp add: min_def)
qed

text \<open>On the last release the owner goes back to the priority it had when it took the mutex.\<close>

lemma restore_ok:
  assumes call: "caller c t s" and p: "p < 32"
  obtains s' where "(if p \<noteq> th_current_priority (threads s t)
       then map_option snd (rt_thread_control c t (CHANGE_PRIORITY p) s) else Some s) = Some s'"
    "caller c t s'" "th_current_priority (threads s' t) = p" "\<forall>v. v \<noteq> t \<longrightarrow> threads s' v = threads s v"
    "\<forall>v. stat_of (threads s' v) = stat_of (threads s v) \<and> same_request (threads s v) (threads s' v)"
    "\<forall>k. \<not> is_ready k \<longrightarrow> tq s' k = tq s k" "ipcs s' = ipcs s"
proof (cases "p \<noteq> th_current_priority (threads s t)")
  case True
  have lv: "live (threads s t)" using callerD(3) [OF call] by (simp add: live_def)
  show thesis
  proof (rule caller_change_priority [OF call lv p], goal_cases)
    case (1 s')
    show thesis by (rule that [of s', OF _ 1(2,4,5,6,7,8)]) (use True 1(1) in simp)
  qed
next
  case False
  then have e: "p = th_current_priority (threads s t)" by simp
  show thesis by (rule that [of s]) (simp_all only: e if_False not_True_eq_False simp_thms call same_request_refl)
qed

lemma mutex_take_cases:
  assumes call: "caller c t s" and inv: "mutex_inv i s" and m: "mutexes s i = Some m"
    and el: "eligible c s u" and time: "time = 0 \<or> wait_time time"
  shows "let s1 = upd_thread t (\<lambda>th. th\<lparr>th_error := RT_EOK\<rparr>) s in
    case mtx_owner m of
      None \<Rightarrow> rt_mutex_take c i time s = Some (Done RT_EOK, upd_mutex i (m\<lparr>mtx_value := 0, mtx_owner := Some t,
          mtx_original_priority := th_current_priority (threads s t), mtx_hold := 1\<rparr>) s1)
    | Some own \<Rightarrow>
        if own = t then rt_mutex_take c i time s =
          (if mtx_hold m < RT_MUTEX_HOLD_MAX then Some (Done RT_EOK, upd_mutex i (m\<lparr>mtx_hold := mtx_hold m + 1\<rparr>) s1)
           else Some (Done (- RT_EFULL), s1))
        else if time = 0 then rt_mutex_take c i time s =
          Some (Done (- RT_ETIMEOUT), upd_thread t (\<lambda>th. th\<lparr>th_error := - RT_ETIMEOUT\<rparr>) s)
        else (\<exists>s2 s'. rt_mutex_take c i time s = Some (Blocked, s') \<and>
          blocked c (SuspendQ (Mutex i)) t (mtx_flag m) time s2 s' \<and> ipcs s2 = ipcs s \<and>
          (\<forall>k. \<not> is_ready k \<longrightarrow> tq s2 k = tq s k) \<and>
          th_current_priority (threads s2 own) = min (th_current_priority (threads s t)) (th_current_priority (threads s own)) \<and>
          (\<forall>v. v \<noteq> own \<longrightarrow> threads s2 v = threads s1 v) \<and> live (threads s2 own) \<and>
          same_request (threads s own) (threads s2 own))"
proof -
  let ?s1 = "upd_thread t (\<lambda>th. th\<lparr>th_error := 0\<rparr>) s"
  note c = callerD [OF call] and D = mutex_invD [OF inv m]
  have call1: "caller c t ?s1" by (rule caller_error [OF call])
  have el1: "eligible c ?s1 u" using el by (auto simp: eligible_def)
  show ?thesis
  proof (cases "mtx_owner m")
    case None
    then show ?thesis using c m D(2) by (simp add: rt_mutex_take_def)
  next
    case (Some own)
    show ?thesis
    proof (cases "own = t \<or> time = 0")
      case True
      have "upd_thread t (\<lambda>th. th\<lparr>th_error := -2\<rparr>) ?s1 = upd_thread t (\<lambda>th. th\<lparr>th_error := -2\<rparr>) s"
        by (simp add: upd_thread_def)
      then show ?thesis using True Some c m D(3) by (auto simp: rt_mutex_take_def)
    next
      case False
      have lv: "live (threads ?s1 own)" using D(3) [OF Some] False by simp
      obtain s2 where s2: "(if th_current_priority (threads ?s1 t) < th_current_priority (threads ?s1 own)
           then map_option snd (rt_thread_control c own (CHANGE_PRIORITY (th_current_priority (threads ?s1 t))) ?s1) else Some ?s1) = Some s2"
        "caller c t s2" "eligible c s2 u"
        "th_current_priority (threads s2 own) = min (th_current_priority (threads ?s1 t)) (th_current_priority (threads ?s1 own))"
        "\<forall>v. v \<noteq> own \<longrightarrow> threads s2 v = threads ?s1 v"
        "\<forall>v. stat_of (threads s2 v) = stat_of (threads ?s1 v) \<and> same_request (threads ?s1 v) (threads s2 v)"
        "\<forall>k. \<not> is_ready k \<longrightarrow> tq s2 k = tq ?s1 k" "ipcs s2 = ipcs ?s1"
        by (rule inherit_ok [OF call1 lv el1])
      have lv2: "live (threads s2 own)" using lv s2(6) by (simp add: live_def)
      have rq: "same_request (threads s own) (threads s2 own)" using s2(6) False by (auto dest: spec [of _ own])
      have tm: "wait_time time" using time False by blast
      obtain s' where s': "ipc_block c (SuspendQ (Mutex i)) t (mtx_flag m) time s2 = Some s'"
        "blocked c (SuspendQ (Mutex i)) t (mtx_flag m) time s2 s'"
        by (rule caller_blocks [OF s2(2,3) _ D(1) tm]) blast
      have "rt_mutex_take c i time s = Some (Blocked, s')"
        using False Some c m D(3) s'(1) s2(1) by (simp add: rt_mutex_take_def)
      moreover have "th_current_priority (threads s2 own) = min (th_current_priority (threads s t)) (th_current_priority (threads s own))"
        "ipcs s2 = ipcs s" "\<forall>k. \<not> is_ready k \<longrightarrow> tq s2 k = tq s k"
        using s2(4,7,8) False by simp_all
      ultimately have "\<exists>s2 s'. rt_mutex_take c i time s = Some (Blocked, s') \<and>
          blocked c (SuspendQ (Mutex i)) t (mtx_flag m) time s2 s' \<and> ipcs s2 = ipcs s \<and>
          (\<forall>k. \<not> is_ready k \<longrightarrow> tq s2 k = tq s k) \<and>
          th_current_priority (threads s2 own) = min (th_current_priority (threads s t)) (th_current_priority (threads s own)) \<and>
          (\<forall>v. v \<noteq> own \<longrightarrow> threads s2 v = threads ?s1 v) \<and> live (threads s2 own) \<and>
          same_request (threads s own) (threads s2 own)"
        using s'(2) s2(5) lv2 rq by blast
      then show ?thesis using False unfolding Let_def Some option.case by (simp only: if_False de_Morgan_disj not_False_eq_True)
    qed
  qed
qed

lemma mutex_release_cases:
  assumes call: "caller c t s" and inv: "mutex_inv i s" and m: "mutexes s i = Some m"
  shows "if mtx_owner m \<noteq> Some t
     then rt_mutex_release c i s = Some (- RT_ERROR, upd_thread t (\<lambda>th. th\<lparr>th_error := - RT_ERROR\<rparr>) s)
     else if mtx_hold m \<noteq> 1
     then rt_mutex_release c i s = Some (RT_EOK, upd_mutex i (m\<lparr>mtx_hold := mtx_hold m - 1\<rparr>) s)
     else (\<exists>s1 s'. rt_mutex_release c i s = Some (RT_EOK, s') \<and> caller c t s1 \<and>
       th_current_priority (threads s1 t) = mtx_original_priority m \<and> (\<forall>v. v \<noteq> t \<longrightarrow> threads s1 v = threads s v) \<and>
       (\<forall>k. \<not> is_ready k \<longrightarrow> tq s1 k = tq s k) \<and>
       (case tq s (SuspendQ (Mutex i)) of
          [] \<Rightarrow> ipcs s1 = ipcs s \<and> s' = upd_mutex i (m\<lparr>mtx_hold := 0, mtx_value := 1, mtx_owner := None, mtx_original_priority := 0xff\<rparr>) s1
        | w # ws \<Rightarrow> ipcs s1 = ipcs (upd_mutex i (m\<lparr>mtx_owner := Some w, mtx_original_priority := th_current_priority (threads s w), mtx_hold := 1\<rparr>) s) \<and>
             woken c (SuspendQ (Mutex i)) w ws s1 s'))"
proof -
  note c = callerD [OF call] and D = mutex_invD [OF inv m]
  show ?thesis
  proof (cases "mtx_owner m = Some t \<and> mtx_hold m = 1")
    case False
    have "mtx_hold m - 1 \<noteq> 0" if "mtx_hold m \<noteq> 1" using that by (simp add: right_minus_eq)
    then show ?thesis using False c m by (auto simp: rt_mutex_release_def)
  next
    case own: True
    then have p: "mtx_original_priority m < 32" "mtx_value m = 0" using D(3) by auto
    obtain s1 where s1: "(if mtx_original_priority m \<noteq> th_current_priority (threads s t)
        then map_option snd (rt_thread_control c t (CHANGE_PRIORITY (mtx_original_priority m)) s) else Some s) = Some s1"
      "caller c t s1" "th_current_priority (threads s1 t) = mtx_original_priority m"
      "\<forall>v. v \<noteq> t \<longrightarrow> threads s1 v = threads s v" "\<forall>v. stat_of (threads s1 v) = stat_of (threads s v) \<and> same_request (threads s v) (threads s1 v)"
      "\<forall>k. \<not> is_ready k \<longrightarrow> tq s1 k = tq s k" "ipcs s1 = ipcs s"
      by (rule restore_ok [OF call p(1)])
    have last: "rt_mutex_release c i s = mutex_pass c i (m\<lparr>mtx_hold := 0\<rparr>) s1"
      using mutex_release_last [OF m c(5,4)] own unfolding s1(1) by simp
    have q1: "tq s1 (SuspendQ (Mutex i)) = tq s (SuspendQ (Mutex i))" using s1(6) by simp
    show ?thesis
    proof (cases "tq s (SuspendQ (Mutex i))")
      case Nil
      let ?s' = "upd_mutex i (m\<lparr>mtx_hold := 0, mtx_value := 1, mtx_owner := None, mtx_original_priority := 0xff\<rparr>) s1"
      have "rt_mutex_release c i s = Some (0, ?s')"
        unfolding last using p(2) Nil q1 by (simp add: mutex_pass_def)
      then show ?thesis unfolding Nil using own s1(2,3,4,6,7) by auto
    next
      case (Cons w ws)
      have w2: "stat_of (threads s w) = 2"
        using suspend_q_stat [OF kernel_okD(1) [OF c(1)], of w "Mutex i"] Cons by simp
      then have wt: "w \<noteq> t" using c(3) by auto
      let ?s2 = "upd_mutex i (m\<lparr>mtx_owner := Some w, mtx_original_priority := th_current_priority (threads s w), mtx_hold := 1\<rparr>) s1"
      have call2: "caller c t ?s2" using s1(2) by simp
      have q2: "tq ?s2 (SuspendQ (Mutex i)) = w # ws" using q1 Cons by simp
      obtain s3 s' where s3: "rt_ipc_list_resume c (SuspendQ (Mutex i)) ?s2 = Some s3" "rt_schedule c s3 = Some s'"
        "woken c (SuspendQ (Mutex i)) w ws ?s2 s'"
        by (rule resume_schedule_ok [OF callerD(1,2,3) [OF call2] _ q2]) blast
      have "rt_mutex_release c i s = Some (0, s')"
        unfolding last using s1(4) wt s3(1,2) Cons q1 by (simp add: mutex_pass_def)
      moreover have "ipcs ?s2 = ipcs (upd_mutex i (m\<lparr>mtx_owner := Some w, mtx_original_priority := th_current_priority (threads s w), mtx_hold := 1\<rparr>) s)"
        using ipcsD [OF s1(7)] by (simp add: ipcs_def)
      moreover have "th_current_priority (threads ?s2 t) = mtx_original_priority m" using s1(3) by simp
      moreover have "\<forall>v. v \<noteq> t \<longrightarrow> threads ?s2 v = threads s v" "\<forall>k. \<not> is_ready k \<longrightarrow> tq ?s2 k = tq s k"
        using s1(4,6) by simp_all
      ultimately have "\<exists>s1 s'. rt_mutex_release c i s = Some (0, s') \<and> caller c t s1 \<and>
         th_current_priority (threads s1 t) = mtx_original_priority m \<and> (\<forall>v. v \<noteq> t \<longrightarrow> threads s1 v = threads s v) \<and>
         (\<forall>k. \<not> is_ready k \<longrightarrow> tq s1 k = tq s k) \<and>
         ipcs s1 = ipcs (upd_mutex i (m\<lparr>mtx_owner := Some w, mtx_original_priority := th_current_priority (threads s w), mtx_hold := 1\<rparr>) s) \<and> woken c (SuspendQ (Mutex i)) w ws s1 s'"
        using call2 s3(3) by blast
      then show ?thesis unfolding Cons using own by (simp only: list.case if_True if_False simp_thms)
    qed
  qed
qed

subsection \<open>Priority inheritance\<close>

text \<open>
  \<^bold>\<open>C8\<close>: \<^verbatim>\<open>rt_mutex_take\<close> of a mutex that another thread owns, with a waiting time: the caller is suspended in
  the mutex's list at its place, the owner keeps the mutex and now has the more urgent of its own and the
  caller's priority, no other priority changes, and the kernel's and the mutex's invariants hold.
\<close>

theorem rt_mutex_take_inherits_priority:
  assumes "caller c t s" "mutex_inv i s" "mutexes s i = Some m" "mtx_owner m = Some own" "own \<noteq> t"
    "eligible c s u" "wait_time time"
  shows "\<exists>s'. rt_mutex_take c i time s = Some (Blocked, s') \<and> kernel_ok s' \<and> mutex_inv i s' \<and> mutexes s' = mutexes s \<and>
     stat_of (threads s' t) = RT_THREAD_SUSPEND \<and>
     tq s' (SuspendQ (Mutex i)) = wait_insert (mtx_flag m) (\<lambda>v. th_current_priority (threads s' v)) t (tq s (SuspendQ (Mutex i))) \<and>
     th_current_priority (threads s' own) = min (th_current_priority (threads s t)) (th_current_priority (threads s own)) \<and>
     (\<forall>v. v \<noteq> own \<longrightarrow> th_current_priority (threads s' v) = th_current_priority (threads s v))"
proof -
  obtain s2 s' where r: "rt_mutex_take c i time s = Some (Blocked, s')"
    and b: "blocked c (SuspendQ (Mutex i)) t (mtx_flag m) time s2 s'" and ip: "ipcs s2 = ipcs s"
    and q: "\<forall>k. \<not> is_ready k \<longrightarrow> tq s2 k = tq s k"
    and p: "th_current_priority (threads s2 own) = min (th_current_priority (threads s t)) (th_current_priority (threads s own))"
    and th: "\<forall>v. v \<noteq> own \<longrightarrow> threads s2 v = threads (upd_thread t (\<lambda>th. th\<lparr>th_error := 0\<rparr>) s) v"
    and lv: "live (threads s2 own)"
    using mutex_take_cases [OF assms(1,2,3,6) disjI2 [OF assms(7)]] assms(4,5,7) by (auto simp: Let_def)
  have pr: "th_current_priority (threads s' v) = th_current_priority (threads s2 v)" for v
    using b th_frameD(2) by (auto simp: blocked_def)
  have mt: "mutexes s' = mutexes s" using b ip ipcsD(2) [of s' s2] ipcsD(2) [of s2 s] by (simp add: blocked_def)
  have "live (threads s' own)" using b lv by (simp add: blocked_def)
  then have "mutex_inv i s'" using assms(2-4) mt by (auto simp: mutex_inv_def)
  moreover have "tq s' (SuspendQ (Mutex i)) = wait_insert (mtx_flag m) (\<lambda>v. th_current_priority (threads s' v)) t (tq s (SuspendQ (Mutex i)))"
    using b q unfolding blocked_def pr by simp
  moreover have "\<forall>v. v \<noteq> own \<longrightarrow> th_current_priority (threads s' v) = th_current_priority (threads s v)"
    using th pr by simp
  ultimately show ?thesis using r b mt p pr by (auto simp: blocked_def)
qed

definition ex_mutex :: "kernel \<Rightarrow> tid option \<Rightarrow> kernel" where
  "ex_mutex s own = s\<lparr>mutexes := [7 \<mapsto> \<lparr>mtx_static = True, mtx_flag = 1, mtx_value = (if own = None then 1 else 0),
     mtx_original_priority = (if own = None then 0xff else 15), mtx_hold = (if own = None then 0 else 1), mtx_owner = own\<rparr>]\<rparr>"

lemma ex_mutex_inv:
  "live (threads s t) \<Longrightarrow> mutex_inv 7 (ex_mutex s (Some t))"
  "tq s (SuspendQ (Mutex 7)) = [] \<Longrightarrow> mutex_inv 7 (ex_mutex s None)"
  by (simp_all add: mutex_inv_def ex_mutex_def live_def)

lemma ex_mutex_sel [simp]:
  "caller c t (ex_mutex s own) = caller c t s" "eligible c (ex_mutex s own) t = eligible c s t"
  "threads (ex_mutex s own) = threads s" "tq (ex_mutex s own) = tq s"
  "mutexes (ex_mutex s own) 7 = Some \<lparr>mtx_static = True, mtx_flag = 1, mtx_value = (if own = None then 1 else 0),
     mtx_original_priority = (if own = None then 0xff else 15), mtx_hold = (if own = None then 0 else 1), mtx_owner = own\<rparr>"
  by (simp_all add: ex_mutex_def)

theorem rt_mutex_take_inherits_priority_witness:
  "\<exists>s'. rt_mutex_take 0 7 100 (ex_mutex ex_kernel (Some 2)) = Some (Blocked, s') \<and>
     tq s' (SuspendQ (Mutex 7)) = [1] \<and> th_current_priority (threads s' 2) = 10"
proof -
  let ?s = "ex_mutex ex_kernel (Some 2)"
  have "live (threads ex_kernel 2)" unfolding ex_kernel_threads live_def by simp
  note inv = ex_mutex_inv(1) [OF this]
  have q: "tq ex_kernel (SuspendQ (Mutex 7)) = []" by (simp add: ex_kernel_def)
  have p: "th_current_priority (threads ex_kernel 1) = 10" "th_current_priority (threads ex_kernel 2) = 31"
    unfolding ex_kernel_threads by simp_all
  have "caller 0 1 ?s" "eligible 0 ?s 3" using ex_kernel_caller by simp_all
  moreover have "wait_time 100" by simp
  ultimately show ?thesis
    using rt_mutex_take_inherits_priority [OF _ inv ex_mutex_sel(5) _ _ _ \<open>wait_time 100\<close>, of 0 1 2 3] q p
    by (auto simp: wait_insert_def min_def)
qed

subsection \<open>Handing over\<close>

lemma release_last_effect:
  assumes call: "caller c t s" and inv: "mutex_inv i s" and m: "mutexes s i = Some m"
    and own: "mtx_owner m = Some t" "mtx_hold m = 1"
  obtains s' where "rt_mutex_release c i s = Some (RT_EOK, s')" "kernel_ok s'" "mutex_inv i s'"
    "th_current_priority (threads s' t) = mtx_original_priority m"
    "\<forall>v. v \<noteq> t \<longrightarrow> th_current_priority (threads s' v) = th_current_priority (threads s v)"
    "case tq s (SuspendQ (Mutex i)) of
        [] \<Rightarrow> mutexes s' i = Some (m\<lparr>mtx_hold := 0, mtx_value := 1, mtx_owner := None, mtx_original_priority := 0xff\<rparr>)
      | w # ws \<Rightarrow> mutexes s' i = Some (m\<lparr>mtx_owner := Some w, mtx_original_priority := th_current_priority (threads s w), mtx_hold := 1\<rparr>) \<and>
          stat_of (threads s' w) \<noteq> RT_THREAD_SUSPEND \<and> live (threads s' w) \<and> tq s' (SuspendQ (Mutex i)) = ws \<and> w \<noteq> t"
proof -
  note D = mutex_invD [OF inv m]
  obtain s1 s' where r: "rt_mutex_release c i s = Some (0, s')" and s1: "caller c t s1"
    "th_current_priority (threads s1 t) = mtx_original_priority m" "\<forall>v. v \<noteq> t \<longrightarrow> threads s1 v = threads s v"
    "\<forall>k. \<not> is_ready k \<longrightarrow> tq s1 k = tq s k"
    and q: "case tq s (SuspendQ (Mutex i)) of
          [] \<Rightarrow> ipcs s1 = ipcs s \<and> s' = upd_mutex i (m\<lparr>mtx_hold := 0, mtx_value := 1, mtx_owner := None, mtx_original_priority := 0xff\<rparr>) s1
        | w # ws \<Rightarrow> ipcs s1 = ipcs (upd_mutex i (m\<lparr>mtx_owner := Some w, mtx_original_priority := th_current_priority (threads s w), mtx_hold := 1\<rparr>) s) \<and>
             woken c (SuspendQ (Mutex i)) w ws s1 s'"
    using mutex_release_cases [OF call inv m] own by (auto simp only: if_False if_True simp_thms)
  show thesis
  proof (cases "tq s (SuspendQ (Mutex i))")
    case Nil
    have s': "s' = upd_mutex i (m\<lparr>mtx_hold := 0, mtx_value := 1, mtx_owner := None, mtx_original_priority := 0xff\<rparr>) s1"
      using q Nil by simp
    have "tq s' (SuspendQ (Mutex i)) = []" using Nil s1(4) by (simp add: s')
    then have "mutex_inv i s'" using D(1) by (simp add: mutex_inv_def s')
    then show thesis using that [OF r] s1(2,3) callerD(1) [OF s1(1)] Nil by (simp add: s')
  next
    case (Cons w ws)
    have w2: "stat_of (threads s w) = 2"
      using suspend_q_stat [OF kernel_okD(1) [OF callerD(1) [OF call]], of w "Mutex i"] Cons by simp
    then have wt: "w \<noteq> t" using callerD(3) [OF call] by auto
    have lw: "live (threads s w)" using w2 by (simp add: live_def)
    then have pw: "th_current_priority (threads s w) < 32"
      using kernel_okD(3) [OF callerD(1) [OF call]] by (auto simp: thread_wf_def thread_ok_def)
    have wk: "woken c (SuspendQ (Mutex i)) w ws s1 s'" using q Cons by simp
    have pr: "th_current_priority (threads s' v) = th_current_priority (threads s1 v)" for v
      using wk th_frameD(2) by (auto simp: woken_def)
    have "mutexes s' = mutexes s1" using wk ipcsD(2) [of s' s1] by (simp add: woken_def)
    moreover have "mutexes s1 = (mutexes s)(i \<mapsto> m\<lparr>mtx_owner := Some w, mtx_original_priority := th_current_priority (threads s w), mtx_hold := 1\<rparr>)"
      using q Cons by (simp add: ipcs_def)
    ultimately have mt: "mutexes s' i = Some (m\<lparr>mtx_owner := Some w, mtx_original_priority := th_current_priority (threads s w), mtx_hold := 1\<rparr>)"
      by simp
    have "mutex_inv i s'" using wk mt D(1) D(3) [OF own(1)] pw by (simp add: mutex_inv_def woken_def)
    then show thesis using that [OF r] wk mt Cons s1(2,3) pr wt by (simp add: woken_def)
  qed
qed

text \<open>
  \<^bold>\<open>C10\<close>: The last \<^verbatim>\<open>rt_mutex_release\<close> of the owner gives it back the priority it had when it took the mutex and
  changes no other priority. If threads wait, the first of them owns the mutex, held once and with its own
  priority as the original one, and is no longer suspended; otherwise the mutex is free. The invariants hold.
\<close>

theorem rt_mutex_release_restores_priority:
  assumes "caller c t s" "mutex_inv i s" "mutexes s i = Some m" "mtx_owner m = Some t" "mtx_hold m = 1"
  shows "\<exists>s'. rt_mutex_release c i s = Some (RT_EOK, s') \<and> kernel_ok s' \<and> mutex_inv i s' \<and>
     th_current_priority (threads s' t) = mtx_original_priority m \<and>
     (\<forall>v. v \<noteq> t \<longrightarrow> th_current_priority (threads s' v) = th_current_priority (threads s v)) \<and>
     (case tq s (SuspendQ (Mutex i)) of
        [] \<Rightarrow> \<exists>m'. mutexes s' i = Some m' \<and> mtx_owner m' = None \<and> mtx_value m' = 1
      | w # ws \<Rightarrow> \<exists>m'. mutexes s' i = Some m' \<and> mtx_owner m' = Some w \<and> mtx_hold m' = 1 \<and>
          mtx_original_priority m' = th_current_priority (threads s' w) \<and>
          stat_of (threads s' w) \<noteq> RT_THREAD_SUSPEND \<and> tq s' (SuspendQ (Mutex i)) = ws)"
proof (rule release_last_effect [OF assms], goal_cases)
  case (1 s')
  then show ?case by (intro exI [of _ s'] conjI) (auto split: list.splits)
qed

theorem rt_mutex_release_restores_priority_witness:
  "\<exists>s' m'. rt_mutex_release 0 7 (ex_mutex (ex_waiting (SuspendQ (Mutex 7))) (Some 1)) = Some (RT_EOK, s') \<and>
     th_current_priority (threads s' 1) = 15 \<and> mutexes s' 7 = Some m' \<and> mtx_owner m' = Some 4"
proof -
  let ?w = "ex_waiting (SuspendQ (Mutex 7))"
  have c: "caller 0 1 ?w" using ex_waiting_ok(1) by blast
  have "live (threads ?w 1)" using callerD(3) [OF c] by (simp add: live_def)
  note inv = ex_mutex_inv(1) [OF this]
  have "tq ?w (SuspendQ (Mutex 7)) = [4]" by (simp add: ex_waiting_def)
  then show ?thesis
    using rt_mutex_release_restores_priority [OF _ inv ex_mutex_sel(5), of 0 1] c by auto
qed

subsection \<open>Mutual exclusion\<close>

datatype mutex_event = Acquire tid | Reenter tid | Denied tid | Wait tid | Leave tid | Free tid | Hand tid tid | Other

type_synonym mutex_abs = "(tid \<times> nat) option"

fun mutex_spec :: "mutex_event \<Rightarrow> mutex_abs \<Rightarrow> mutex_abs option" where
  "mutex_spec (Acquire t) None = Some (Some (t, 1))"
| "mutex_spec (Reenter t) (Some (u, n)) = (if u = t \<and> n < 255 then Some (Some (t, n + 1)) else None)"
| "mutex_spec (Wait t) (Some (u, n)) = (if u \<noteq> t then Some (Some (u, n)) else None)"
| "mutex_spec (Leave t) (Some (u, n)) = (if u = t \<and> 1 < n then Some (Some (t, n - 1)) else None)"
| "mutex_spec (Free t) (Some (u, n)) = (if u = t \<and> n = 1 then Some None else None)"
| "mutex_spec (Hand t w) (Some (u, n)) = (if u = t \<and> w \<noteq> t \<and> n = 1 then Some (Some (w, 1)) else None)"
| "mutex_spec (Denied t) a = Some a"
| "mutex_spec Other a = Some a"
| "mutex_spec _ _ = None"

definition mutex_abs :: "nat \<Rightarrow> kernel \<Rightarrow> mutex_abs" where
  "mutex_abs i s = (case mutexes s i of None \<Rightarrow> None | Some m \<Rightarrow> map_option (\<lambda>t. (t, unat (mtx_hold m))) (mtx_owner m))"

definition mutex_take_event :: "nat \<Rightarrow> tid \<Rightarrow> kernel \<Rightarrow> outcome \<Rightarrow> mutex_event" where
  "mutex_take_event i t s out =
     (case out of Blocked \<Rightarrow> Wait t
      | Done e \<Rightarrow> if e \<noteq> RT_EOK then Denied t else if mutex_abs i s = None then Acquire t else Reenter t)"

definition mutex_release_event :: "nat \<Rightarrow> tid \<Rightarrow> kernel \<Rightarrow> rt_err_t \<Rightarrow> mutex_event" where
  "mutex_release_event i t s e =
     (if e \<noteq> RT_EOK then Denied t else if mutex_abs i s \<noteq> Some (t, 1) then Leave t
      else case tq s (SuspendQ (Mutex i)) of [] \<Rightarrow> Free t | w # _ \<Rightarrow> Hand t w)"

text \<open>
  A step of the rest of the kernel leaves the mutex alone; threads may leave its list, and the owner
  does not terminate.
\<close>

inductive mutex_step :: "nat \<Rightarrow> kernel \<Rightarrow> mutex_event \<Rightarrow> kernel \<Rightarrow> bool" for i where
  take: "caller c t s \<Longrightarrow> eligible c s u \<Longrightarrow> time = 0 \<or> wait_time time \<Longrightarrow>
     rt_mutex_take c i time s = Some (out, s') \<Longrightarrow> mutex_step i s (mutex_take_event i t s out) s'"
| release: "caller c t s \<Longrightarrow> rt_mutex_release c i s = Some (e, s') \<Longrightarrow>
     mutex_step i s (mutex_release_event i t s e) s'"
| environment: "mutexes s' i = mutexes s i \<Longrightarrow>
     set (tq s' (SuspendQ (Mutex i))) \<subseteq> set (tq s (SuspendQ (Mutex i))) \<Longrightarrow>
     \<forall>own n. mutex_abs i s = Some (own, n) \<longrightarrow> live (threads s own) \<longrightarrow> live (threads s' own) \<Longrightarrow>
     mutex_step i s Other s'"

lemma mutex_take_step:
  assumes inv: "mutex_inv i s" and call: "caller c t s" and el: "eligible c s u" "time = 0 \<or> wait_time time"
    and r: "rt_mutex_take c i time s = Some (out, s')"
  shows "mutex_inv i s' \<and> mutex_spec (mutex_take_event i t s out) (mutex_abs i s) = Some (mutex_abs i s')"
proof -
  obtain m where m: "mutexes s i = Some m" using inv by (auto simp: mutex_inv_def)
  note D = mutex_invD [OF inv m] and out = mutex_take_cases [OF call inv m el]
  have lt: "live (threads s t)" using callerD(3) [OF call] by (simp add: live_def)
  show ?thesis
  proof (cases "mtx_owner m")
    case None
    then show ?thesis using out r m D(1,2) lt caller_priority [OF call]
      by (auto simp: mutex_inv_def mutex_abs_def mutex_take_event_def Let_def)
  next
    case (Some own)
    note E = D(3) [OF Some]
    have h: "unat (mtx_hold m + 1) = unat (mtx_hold m) + 1" "unat (mtx_hold m) < 255" "mtx_hold m + 1 > 0" if "mtx_hold m < 255"
      using unat_Suc_u8 [OF that] that by (simp_all add: word_less_nat_alt)
    show ?thesis
    proof (cases "own = t \<or> time = 0")
      case True
      then show ?thesis using out r m D(1) Some E lt h
        by (auto simp: mutex_inv_def mutex_abs_def mutex_take_event_def Let_def split: if_splits)
    next
      case False
      then obtain s2 where b: "out = Blocked" "blocked c (SuspendQ (Mutex i)) t (mtx_flag m) time s2 s'" "ipcs s2 = ipcs s"
        "live (threads s2 own)" using out r Some by (auto simp: Let_def)
      have "mutexes s' = mutexes s" using b ipcsD(2) [of s' s2] ipcsD(2) [of s2 s] by (simp add: blocked_def)
      moreover have "live (threads s' own)" using b by (simp add: blocked_def)
      ultimately show ?thesis using b(1) m D(1) E Some False
        by (simp add: mutex_inv_def mutex_abs_def mutex_take_event_def)
    qed
  qed
qed

lemma mutex_release_step:
  assumes inv: "mutex_inv i s" and call: "caller c t s" and r: "rt_mutex_release c i s = Some (e, s')"
  shows "mutex_inv i s' \<and> mutex_spec (mutex_release_event i t s e) (mutex_abs i s) = Some (mutex_abs i s')"
proof -
  obtain m where m: "mutexes s i = Some m" using inv by (auto simp: mutex_inv_def)
  note D = mutex_invD [OF inv m] and out = mutex_release_cases [OF call inv m]
  show ?thesis
  proof (cases "mtx_owner m = Some t \<and> mtx_hold m = 1")
    case False
    have h: "unat (mtx_hold m - 1) = unat (mtx_hold m) - 1" "1 < unat (mtx_hold m)" "0 < mtx_hold m - 1"
      if "mtx_owner m = Some t" "mtx_hold m \<noteq> 1"
    proof -
      show 1: "unat (mtx_hold m - 1) = unat (mtx_hold m) - 1" using D(3) [OF that(1)] by (intro unat_pred) simp
      have "unat (mtx_hold m) \<noteq> 1" using that(2) by (simp add: word_unat_eq_iff)
      then show "1 < unat (mtx_hold m)" using D(3) [OF that(1)] by (simp add: word_less_nat_alt)
      then show "0 < mtx_hold m - 1" using 1 by (simp add: word_less_nat_alt)
    qed
    have one: "unat (mtx_hold m) = 1 \<longleftrightarrow> mtx_hold m = 1" by (simp add: word_unat_eq_iff)
    show ?thesis
    proof (cases "mtx_owner m = Some t")
      case True
      then show ?thesis using out False r m D(1) D(3) [OF True] h one
        by (auto simp: mutex_inv_def mutex_abs_def mutex_release_event_def split: option.splits)
    next
      case F: False
      then have "e = -1" "s' = upd_thread t (\<lambda>th. th\<lparr>th_error := -1\<rparr>) s" using out r by auto
      then show ?thesis using inv m by (auto simp: mutex_inv_def mutex_abs_def mutex_release_event_def split: option.splits)
    qed
  next
    case True
    then have own: "mtx_owner m = Some t" "mtx_hold m = 1" by auto
    show ?thesis
    proof (rule release_last_effect [OF call inv m own], goal_cases)
      case (1 b)
      then show ?case using r m own
        by (auto simp: mutex_abs_def mutex_release_event_def split: list.splits)
    qed
  qed
qed

interpretation mutex: implements "mutex_step i" "mutex_inv i" "mutex_abs i" mutex_spec for i
proof
  have "mutex_inv i s' \<and> mutex_spec e (mutex_abs i s) = Some (mutex_abs i s')" if "mutex_inv i s" "mutex_step i s e s'" for s e s'
    using that(2,1)
  proof cases
    case environment
    then show ?thesis using that(1) by (auto simp: mutex_inv_def mutex_abs_def split: option.splits)
  qed (use mutex_take_step mutex_release_step in blast)+
  then show "mutex_inv i s \<Longrightarrow> mutex_step i s e s' \<Longrightarrow> mutex_inv i s'"
    "mutex_inv i s \<Longrightarrow> mutex_step i s e s' \<Longrightarrow> mutex_spec e (mutex_abs i s) = Some (mutex_abs i s')" for s e s' by blast+
qed

text \<open>How often a thread has entered and left the critical section.\<close>

fun enters :: "tid \<Rightarrow> mutex_event \<Rightarrow> int" where
  "enters t (Acquire u) = (if u = t then 1 else 0)"
| "enters t (Reenter u) = (if u = t then 1 else 0)"
| "enters t (Hand u w) = (if w = t then 1 else 0)"
| "enters t _ = 0"

fun leaves :: "tid \<Rightarrow> mutex_event \<Rightarrow> int" where
  "leaves t (Leave u) = (if u = t then 1 else 0)"
| "leaves t (Free u) = (if u = t then 1 else 0)"
| "leaves t (Hand u w) = (if u = t then 1 else 0)"
| "leaves t _ = 0"

definition holds :: "tid \<Rightarrow> mutex_abs \<Rightarrow> int" where
  "holds t a = (case a of Some (u, n) \<Rightarrow> if u = t then int n else 0 | None \<Rightarrow> 0)"

lemma mutex_spec_holds: "mutex_spec e a = Some b \<Longrightarrow> holds t b = holds t a + (enters t e - leaves t e)"
  by (cases "(e, a)" rule: mutex_spec.cases) (auto simp: holds_def split: if_splits)

text \<open>
  \<^bold>\<open>C2\<close>: Mutual exclusion. In every run of takes and releases of a mutex by running threads, on either hart and
  interleaved with arbitrary other steps of the kernel, that starts with the mutex free, no thread has left the
  critical section more often than it has entered it, and of two different threads at most one has entered it more
  often than left it.
\<close>

theorem mutex_mutual_exclusion:
  assumes "run (mutex_step i) s es s'" "mutex_inv i s" "mutex_abs i s = None" "t \<noteq> u"
  shows "(\<Sum>e\<leftarrow>es. leaves t e) \<le> (\<Sum>e\<leftarrow>es. enters t e) \<and>
     ((\<Sum>e\<leftarrow>es. enters t e) = (\<Sum>e\<leftarrow>es. leaves t e) \<or> (\<Sum>e\<leftarrow>es. enters u e) = (\<Sum>e\<leftarrow>es. leaves u e))"
proof -
  have sp: "spec_run mutex_spec es (mutex_abs i s) = Some (mutex_abs i s')" by (rule mutex.run_refines [OF assms(1,2)])
  have bal: "(\<Sum>e\<leftarrow>es. enters v e) - (\<Sum>e\<leftarrow>es. leaves v e) = holds v (mutex_abs i s')" for v
  proof -
    have "holds v (mutex_abs i s') = holds v (mutex_abs i s) + (\<Sum>e\<leftarrow>es. enters v e - leaves v e)"
      by (rule spec_run_sum [OF sp]) (rule mutex_spec_holds)
    then show ?thesis using assms(3) by (simp add: sum_list_subtractf holds_def)
  qed
  have "holds t (mutex_abs i s') = 0 \<or> holds u (mutex_abs i s') = 0" "holds t (mutex_abs i s') \<ge> 0"
    using assms(4) by (auto simp: holds_def split: option.splits)
  then show ?thesis using bal [of t] bal [of u] by linarith
qed

theorem mutex_mutual_exclusion_witness:
  "\<exists>s'. run (mutex_step 7) (ex_mutex ex_kernel None) [Acquire 1] s' \<and>
     (\<Sum>e\<leftarrow>[Acquire 1]. leaves 1 e) \<le> (\<Sum>e\<leftarrow>[Acquire 1]. enters 1 e)"
proof -
  let ?s = "ex_mutex ex_kernel None"
  have inv: "mutex_inv 7 ?s" by (rule ex_mutex_inv(2)) (simp add: ex_kernel_def)
  have ab: "mutex_abs 7 ?s = None" by (simp add: mutex_abs_def)
  have c: "caller 0 1 ?s" "eligible 0 ?s 3" using ex_kernel_caller by simp_all
  obtain s' where "rt_mutex_take 0 7 0 ?s = Some (Done 0, s')"
    using mutex_take_cases [OF c(1) inv ex_mutex_sel(5) c(2), of 0] by (auto simp: Let_def)
  then have "mutex_step 7 ?s (Acquire 1) s'"
    using mutex_step.take [OF c, of 0 7 "Done 0" s'] by (simp add: mutex_take_event_def ab)
  then have r: "run (mutex_step 7) ?s [Acquire 1] s'" by simp
  have "(1 :: tid) \<noteq> 2" by simp
  then show ?thesis using mutex_mutual_exclusion [OF r inv ab] r by blast
qed

end
