(* ===== verification/Event.thy ===== *)
theory Event
  imports Ipc
begin

text \<open>
  The event set of \<^verbatim>\<open>src/ipc.c\<close>: 32 flags, on which threads wait for all (AND) or any (OR) of a
  set of them, taking them away (CLEAR) or not.
\<close>

abbreviation (input) RT_EVENT_FLAG_AND :: u8 where "RT_EVENT_FLAG_AND \<equiv> 1"
abbreviation (input) RT_EVENT_FLAG_OR :: u8 where "RT_EVENT_FLAG_OR \<equiv> 2"
abbreviation (input) RT_EVENT_FLAG_CLEAR :: u8 where "RT_EVENT_FLAG_CLEAR \<equiv> 4"

abbreviation upd_event :: "nat \<Rightarrow> rt_event \<Rightarrow> kernel \<Rightarrow> kernel" where
  "upd_event i ev s \<equiv> s\<lparr>events := (events s)(i \<mapsto> ev)\<rparr>"

definition rt_event_init :: "nat \<Rightarrow> u8 \<Rightarrow> kernel \<Rightarrow> rt_err_t \<times> kernel" where
  "rt_event_init i flag s =
     (RT_EOK, s\<lparr>events := (events s)(i \<mapsto> \<lparr>ev_static = True, ev_flag = flag, ev_set = 0\<rparr>),
               tq := (tq s)(SuspendQ (Event i) := [])\<rparr>)"

definition rt_event_detach :: "nat \<Rightarrow> nat \<Rightarrow> kernel \<Rightarrow> (rt_err_t \<times> kernel) option" where
  "rt_event_detach c i s =
     do { ev \<leftarrow> events s i;
          RT_ASSERT (ev_static ev);
          s1 \<leftarrow> rt_ipc_list_resume_all c (SuspendQ (Event i)) s;
          Some (RT_EOK, s1\<lparr>events := (events s1)(i := None)\<rparr>) }"

definition rt_event_create :: "nat \<Rightarrow> nat option \<Rightarrow> u8 \<Rightarrow> kernel \<Rightarrow> (nat option \<times> kernel) option" where
  "rt_event_create c obj flag s =
     do { RT_DEBUG_NOT_IN_INTERRUPT c s;
          case obj of
            None \<Rightarrow> Some (None, s)
          | Some i \<Rightarrow>
              Some (Some i, s\<lparr>events := (events s)(i \<mapsto> \<lparr>ev_static = False, ev_flag = flag, ev_set = 0\<rparr>),
                             tq := (tq s)(SuspendQ (Event i) := [])\<rparr>) }"

definition rt_event_delete :: "nat \<Rightarrow> nat \<Rightarrow> kernel \<Rightarrow> (rt_err_t \<times> kernel) option" where
  "rt_event_delete c i s =
     do { ev \<leftarrow> events s i;
          RT_ASSERT (\<not> ev_static ev);
          RT_DEBUG_NOT_IN_INTERRUPT c s;
          s1 \<leftarrow> rt_ipc_list_resume_all c (SuspendQ (Event i)) s;
          Some (RT_EOK, s1\<lparr>events := (events s1)(i := None)\<rparr>) }"

text \<open>
  The loop of \<^verbatim>\<open>rt_event_send\<close> over the waiting threads. The next node is read before the
  current thread is resumed, which takes only this thread out of the list, so the threads
  visited are those that were in the list at the beginning. A thread that waits with neither
  AND nor OR ends the loop with \<^verbatim>\<open>-RT_EINVAL\<close>, without scheduling.
\<close>

definition event_wake :: "nat \<Rightarrow> nat \<Rightarrow> tid \<Rightarrow> kernel \<Rightarrow> kernel option" where
  "event_wake c i t s =
     do { ev \<leftarrow> events s i;
          let s1 = (if th_event_info (threads s t) AND RT_EVENT_FLAG_CLEAR \<noteq> 0
                    then upd_event i (ev\<lparr>ev_set := ev_set ev AND NOT (th_event_set (threads s t))\<rparr>) s else s);
          (_, s2) \<leftarrow> rt_thread_resume c t s1;
          Some s2 }"

fun event_send_loop :: "nat \<Rightarrow> nat \<Rightarrow> tid list \<Rightarrow> bool \<Rightarrow> kernel \<Rightarrow> (rt_err_t \<times> bool \<times> kernel) option" where
  "event_send_loop c i [] need s = Some (RT_EOK, need, s)"
| "event_send_loop c i (t # ts) need s =
     do { ev \<leftarrow> events s i;
          let th = threads s t;
          if th_event_info th AND RT_EVENT_FLAG_AND \<noteq> 0
          then if th_event_set th AND ev_set ev = th_event_set th
               then do { s1 \<leftarrow> event_wake c i t s; event_send_loop c i ts True s1 }
               else event_send_loop c i ts need s
          else if th_event_info th AND RT_EVENT_FLAG_OR \<noteq> 0
          then if th_event_set th AND ev_set ev \<noteq> 0
               then do { s1 \<leftarrow> event_wake c i t (upd_thread t (\<lambda>th. th\<lparr>th_event_set := th_event_set th AND ev_set ev\<rparr>) s);
                         event_send_loop c i ts True s1 }
               else event_send_loop c i ts need s
          else Some (- RT_EINVAL, False, s) }"

definition rt_event_send :: "nat \<Rightarrow> nat \<Rightarrow> u32 \<Rightarrow> kernel \<Rightarrow> (rt_err_t \<times> kernel) option" where
  "rt_event_send c i bits s =
     do { ev \<leftarrow> events s i;
          if bits = 0 then Some (- RT_ERROR, s)
          else do {
            let s1 = upd_event i (ev\<lparr>ev_set := ev_set ev OR bits\<rparr>) s;
            (e, need, s2) \<leftarrow> event_send_loop c i (tq s1 (SuspendQ (Event i))) False s1;
            if need then do { s3 \<leftarrow> rt_schedule c s2; Some (e, s3) } else Some (e, s2) } }"

text \<open>
  \<^verbatim>\<open>rt_event_recv\<close>; the second component of the result is the value stored through \<^verbatim>\<open>recved\<close>, if any.
\<close>

definition rt_event_recv :: "nat \<Rightarrow> nat \<Rightarrow> u32 \<Rightarrow> u8 \<Rightarrow> rt_int32_t \<Rightarrow> kernel \<Rightarrow> (outcome \<times> u32 option \<times> kernel) option" where
  "rt_event_recv c i bits opt timeout s =
     do { RT_DEBUG_IN_THREAD_CONTEXT c s;
          ev \<leftarrow> events s i;
          if bits = 0 then Some (Done (- RT_ERROR), None, s)
          else do {
            t \<leftarrow> rt_thread_self c s;
            let s1 = upd_thread t (\<lambda>th. th\<lparr>th_error := RT_EOK\<rparr>) s;
            RT_ASSERT (opt AND RT_EVENT_FLAG_AND \<noteq> 0 \<or> opt AND RT_EVENT_FLAG_OR \<noteq> 0);
            if (if opt AND RT_EVENT_FLAG_AND \<noteq> 0 then ev_set ev AND bits = bits else ev_set ev AND bits \<noteq> 0)
            then (let s2 = upd_thread t (\<lambda>th. th\<lparr>th_event_set := ev_set ev AND bits, th_event_info := opt\<rparr>) s1;
                      s3 = (if opt AND RT_EVENT_FLAG_CLEAR \<noteq> 0
                            then upd_event i (ev\<lparr>ev_set := ev_set ev AND NOT bits\<rparr>) s2 else s2)
                  in Some (Done (th_error (threads s3 t)), Some (ev_set ev AND bits), s3))
            else if timeout = 0
            then Some (Done (- RT_ETIMEOUT), None, upd_thread t (\<lambda>th. th\<lparr>th_error := - RT_ETIMEOUT\<rparr>) s1)
            else do {
              let s2 = upd_thread t (\<lambda>th. th\<lparr>th_event_set := bits, th_event_info := opt\<rparr>) s1;
              s3 \<leftarrow> ipc_block c (SuspendQ (Event i)) t (ev_flag ev) timeout s2;
              Some (Blocked, None, s3) } } }"

definition rt_event_recv_resume :: "tid \<Rightarrow> kernel \<Rightarrow> rt_err_t \<times> u32 option" where
  "rt_event_recv_resume t s =
     (if th_error (threads s t) \<noteq> RT_EOK then (th_error (threads s t), None)
      else (th_error (threads s t), Some (th_event_set (threads s t))))"

definition rt_event_control :: "nat \<Rightarrow> nat \<Rightarrow> ipc_cmd \<Rightarrow> kernel \<Rightarrow> (rt_err_t \<times> kernel) option" where
  "rt_event_control c i cmd s =
     do { ev \<leftarrow> events s i;
          case cmd of
            RT_IPC_CMD_RESET \<Rightarrow>
              do { s1 \<leftarrow> rt_ipc_list_resume_all c (SuspendQ (Event i)) s;
                   s2 \<leftarrow> rt_schedule c (upd_event i (ev\<lparr>ev_set := 0\<rparr>) s1);
                   Some (RT_EOK, s2) }
          | OTHER_IPC_CMD \<Rightarrow> Some (- RT_ERROR, s) }"

subsection \<open>Delivery\<close>

text \<open>
  The specification of a send: the waiting threads are served in the order of the list; a
  thread whose condition the flags meet receives the flags it waited for (with OR, those that
  are set), and takes them away if it asked for it.
\<close>

definition meets :: "u8 \<Rightarrow> u32 \<Rightarrow> u32 \<Rightarrow> bool" where
  "meets info want bits = (if info AND RT_EVENT_FLAG_AND \<noteq> 0 then want AND bits = want else want AND bits \<noteq> 0)"

fun deliver :: "(tid \<Rightarrow> u32 \<times> u8) \<Rightarrow> tid list \<Rightarrow> u32 \<Rightarrow> u32 \<times> (tid \<times> u32) list" where
  "deliver W [] bits = (bits, [])"
| "deliver W (t # ts) bits =
     (if meets (snd (W t)) (fst (W t)) bits
      then let got = fst (W t) AND bits;
               rest = deliver W ts (if snd (W t) AND RT_EVENT_FLAG_CLEAR \<noteq> 0 then bits AND NOT got else bits)
           in (fst rest, (t, got) # snd rest)
      else deliver W ts bits)"

abbreviation option_ok :: "u8 \<Rightarrow> bool" where
  "option_ok opt \<equiv> opt AND RT_EVENT_FLAG_AND \<noteq> 0 \<or> opt AND RT_EVENT_FLAG_OR \<noteq> 0"

lemma meets_mono: "\<not> meets info want bits \<Longrightarrow> \<not> meets info want (bits AND x)"
proof -
  have "want AND bits = want" if "want AND (bits AND x) = want"
    using that by (metis and.assoc and.commute and.left_idem)
  moreover have "want AND (bits AND x) = 0" if "want AND bits = 0"
    using that by (metis and.assoc and_zero_eq zero_and_eq)
  ultimately show "\<not> meets info want bits \<Longrightarrow> \<not> meets info want (bits AND x)"
    by (auto simp: meets_def split: if_splits)
qed

lemma deliver_shrinks: "\<exists>x. fst (deliver W ts bits) = bits AND x"
proof (induction ts arbitrary: bits)
  case Nil
  then show ?case by (intro exI [of _ "-1"]) simp
next
  case (Cons t ts)
  then show ?case by (simp add: Let_def) (metis and.assoc)
qed

lemma deliver_set: "fst ` set (snd (deliver W ts set')) \<subseteq> set ts"
  by (induction ts arbitrary: set') (auto simp: Let_def)

text \<open>What the loop keeps of the rest of the state.\<close>

definition ev_frame :: "nat \<Rightarrow> kernel \<Rightarrow> kernel \<Rightarrow> bool" where
  "ev_frame i s s' \<longleftrightarrow> hart_frame s s' \<and> sems s' = sems s \<and> mutexes s' = mutexes s \<and> mailboxes s' = mailboxes s \<and>
     mqueues s' = mqueues s \<and> (\<forall>j. j \<noteq> i \<longrightarrow> events s' j = events s j) \<and>
     (\<forall>k. \<not> is_ready k \<and> k \<noteq> SuspendQ (Event i) \<longrightarrow> tq s' k = tq s k)"

lemma ev_frame_trans: "ev_frame i s s' \<Longrightarrow> ev_frame i s' s'' \<Longrightarrow> ev_frame i s s''"
  unfolding ev_frame_def using hart_frame_trans by auto

lemma ev_frame_upd [simp]:
  "ev_frame i s (upd_event i ev s)" "ev_frame i s (upd_thread t (\<lambda>th. th\<lparr>th_event_set := x\<rparr>) s)" "ev_frame i s s"
  by (simp_all add: ev_frame_def) (simp add: hart_frame_def)

lemma event_wake_ok:
  assumes ok: "kernel_ok s" and q: "tq s (SuspendQ (Event i)) = pre @ t # ts" and ev: "events s i = Some ev"
  obtains s' where "event_wake c i t s = Some s'" "kernel_ok s'" "tq s' (SuspendQ (Event i)) = pre @ ts"
    "threads s' = (threads s)(t := set_stat (if th_oncpu (threads s t) = 2 then 1 else 3) (threads s t))"
    "events s' i = Some (ev\<lparr>ev_set := if th_event_info (threads s t) AND RT_EVENT_FLAG_CLEAR \<noteq> 0
       then ev_set ev AND NOT (th_event_set (threads s t)) else ev_set ev\<rparr>)" "ev_frame i s s'"
proof -
  define s1 where "s1 = (if th_event_info (threads s t) AND 4 \<noteq> 0
     then upd_event i (ev\<lparr>ev_set := ev_set ev AND NOT (th_event_set (threads s t))\<rparr>) s else s)"
  have t: "t \<in> set (tq s (SuspendQ (Event i)))" using q by simp
  have st: "stat_of (threads s1 t) = 2" using suspend_q_stat [OF kernel_okD(1) [OF ok], of t "Event i"] t by (simp add: s1_def)
  have ok1: "kernel_ok s1" using ok by (simp add: s1_def)
  obtain s' where s': "rt_thread_resume c t s1 = Some (0, s')" "kernel_ok s'"
    "threads s' = (threads s1)(t := set_stat (if th_oncpu (threads s1 t) = 2 then 1 else 3) (threads s1 t))"
    "\<forall>k. \<not> is_ready k \<longrightarrow> tq s' k = removeAll t (tq s1 k)" "ipcs s' = ipcs s1" "hart_frame s1 s'"
    by (rule kernel_ok_resume [OF ok1 st])
  have qk: "q_ok (tq s)" using kernel_okD(1) [OF ok] by (simp add: sched_ok_def rq_ok_def)
  have d: "distinct (pre @ t # ts)" using q_ok_distinct [OF qk, of "SuspendQ (Event i)"] q by simp
  have tq1: "tq s1 = tq s" by (simp add: s1_def)
  have other: "removeAll t (tq s k) = tq s k" if "k \<noteq> SuspendQ (Event i)" for k
    using q_okD [OF qk t, of k] that by (intro removeAll_id) auto
  have "ev_frame i s1 s'" using s'(4,5,6) other tq1 by (simp add: ev_frame_def ipcs_def)
  then have fr: "ev_frame i s s'" by (rule ev_frame_trans [rotated]) (simp add: s1_def)
  have "event_wake c i t s = Some s'" using s'(1) ev by (simp add: event_wake_def s1_def Let_def)
  moreover have "tq s' (SuspendQ (Event i)) = pre @ ts" using s'(4) tq1 q d by (simp add: removeAll_id)
  moreover have "events s' i = Some (ev\<lparr>ev_set := if th_event_info (threads s t) AND 4 \<noteq> 0
       then ev_set ev AND NOT (th_event_set (threads s t)) else ev_set ev\<rparr>)"
    using ipcsD(3) [OF s'(5)] ev by (simp add: s1_def)
  moreover have "threads s1 = threads s" by (simp add: s1_def)
  ultimately show thesis using that s'(2,3) fr by simp
qed

definition served :: "kernel \<Rightarrow> kernel \<Rightarrow> (tid \<times> u32) list \<Rightarrow> bool" where
  "served s s' ws \<longleftrightarrow> (\<forall>(t, got) \<in> set ws. stat_of (threads s' t) \<noteq> RT_THREAD_SUSPEND \<and> live (threads s' t) \<and>
     th_event_set (threads s' t) = got \<and> th_error (threads s' t) = th_error (threads s t)) \<and>
   (\<forall>t. t \<notin> fst ` set ws \<longrightarrow> threads s' t = threads s t)"

lemma event_send_loop_ok:
  assumes "kernel_ok s" "events s i = Some ev" "tq s (SuspendQ (Event i)) = pre @ ts"
    "\<forall>t \<in> set ts. option_ok (th_event_info (threads s t)) \<and> W t = (th_event_set (threads s t), th_event_info (threads s t))"
  obtains s' where "event_send_loop c i ts need s = Some (0, need \<or> snd (deliver W ts (ev_set ev)) \<noteq> [], s')"
    "kernel_ok s'" "events s' i = Some (ev\<lparr>ev_set := fst (deliver W ts (ev_set ev))\<rparr>)"
    "tq s' (SuspendQ (Event i)) = pre @ filter (\<lambda>t. t \<notin> fst ` set (snd (deliver W ts (ev_set ev)))) ts"
    "served s s' (snd (deliver W ts (ev_set ev)))" "ev_frame i s s'"
  using assms
proof (induction ts arbitrary: s ev need pre thesis)
  case Nil
  show ?case by (rule Nil(1) [of s]) (use Nil(2-4) in \<open>simp_all add: served_def\<close>)
next
  case (Cons t ts)
  note P = Cons.prems
  let ?th = "threads s t" and ?W = "W t"
  have W: "W t = (th_event_set ?th, th_event_info ?th)" and o: "option_ok (th_event_info ?th)" using P(5) by auto
  have qk: "q_ok (tq s)" using kernel_okD(1) [OF P(2)] by (simp add: sched_ok_def rq_ok_def)
  have d: "distinct (pre @ t # ts)" using q_ok_distinct [OF qk, of "SuspendQ (Event i)"] P(4) by simp
  show ?case
  proof (cases "meets (th_event_info ?th) (th_event_set ?th) (ev_set ev)")
    case False
    have nt: "t \<notin> fst ` set (snd (deliver W ts (ev_set ev)))" using deliver_set [of W ts] d by auto
    obtain s' where s': "event_send_loop c i ts need s = Some (0, need \<or> snd (deliver W ts (ev_set ev)) \<noteq> [], s')"
      "kernel_ok s'" "events s' i = Some (ev\<lparr>ev_set := fst (deliver W ts (ev_set ev))\<rparr>)"
      "tq s' (SuspendQ (Event i)) = (pre @ [t]) @ filter (\<lambda>t. t \<notin> fst ` set (snd (deliver W ts (ev_set ev)))) ts"
      "served s s' (snd (deliver W ts (ev_set ev)))" "ev_frame i s s'"
      by (rule Cons.IH [where s = s and ev = ev and pre = "pre @ [t]" and need = need]) (use P(2-5) in auto)
    show ?thesis
      by (rule P(1) [of s']) (use s' False o P(3) W nt in \<open>auto simp: meets_def split: if_splits\<close>)
  next
    case True
    define got where "got = th_event_set ?th AND ev_set ev"
    define s0 where "s0 = (if th_event_info ?th AND 1 \<noteq> 0 then s else upd_thread t (\<lambda>th. th\<lparr>th_event_set := got\<rparr>) s)"
    have "upd_thread t (\<lambda>th. th\<lparr>th_event_set := th_event_set th AND ev_set ev\<rparr>) s = upd_thread t (\<lambda>th. th\<lparr>th_event_set := got\<rparr>) s"
      by (simp add: upd_thread_def got_def)
    then have step: "event_send_loop c i (t # ts) need s = Option.bind (event_wake c i t s0) (event_send_loop c i ts True)"
      using True o P(3) by (auto simp: meets_def s0_def Let_def)
    have g: "th_event_set (threads s0 t) = got" using True by (auto simp: meets_def s0_def got_def)
    have ok0: "kernel_ok s0" using P(2) by (simp add: s0_def)
    have err0: "th_error (threads s0 t) = th_error ?th" by (simp add: s0_def)
    have q0: "tq s0 (SuspendQ (Event i)) = pre @ t # ts" and e0: "events s0 i = Some ev"
      and f0: "ev_frame i s s0" using P(3,4) by (simp_all add: s0_def)
    obtain s1 where s1: "event_wake c i t s0 = Some s1" "kernel_ok s1" "tq s1 (SuspendQ (Event i)) = pre @ ts"
      "threads s1 = (threads s0)(t := set_stat (if th_oncpu (threads s0 t) = 2 then 1 else 3) (threads s0 t))"
      "events s1 i = Some (ev\<lparr>ev_set := if th_event_info (threads s0 t) AND RT_EVENT_FLAG_CLEAR \<noteq> 0
         then ev_set ev AND NOT (th_event_set (threads s0 t)) else ev_set ev\<rparr>)" "ev_frame i s0 s1"
      by (rule event_wake_ok [OF ok0 q0 e0])
    define set1 where "set1 = (if th_event_info ?th AND 4 \<noteq> 0 then ev_set ev AND NOT got else ev_set ev)"
    have info0: "th_event_info (threads s0 t) = th_event_info ?th" by (simp add: s0_def)
    have e1: "events s1 i = Some (ev\<lparr>ev_set := set1\<rparr>)" using s1(5) unfolding set1_def g info0 .
    have same: "threads s1 u = threads s u" if "u \<noteq> t" for u using that by (simp add: s1(4) s0_def)
    have pre: "\<forall>u \<in> set ts. option_ok (th_event_info (threads s1 u)) \<and> W u = (th_event_set (threads s1 u), th_event_info (threads s1 u))"
    proof
      fix u assume u: "u \<in> set ts"
      then have "u \<noteq> t" using d by auto
      then show "option_ok (th_event_info (threads s1 u)) \<and> W u = (th_event_set (threads s1 u), th_event_info (threads s1 u))"
        using P(5) u same by simp
    qed
    let ?d = "deliver W ts set1"
    obtain s' where s': "event_send_loop c i ts True s1 = Some (0, True \<or> snd (deliver W ts (ev_set (ev\<lparr>ev_set := set1\<rparr>))) \<noteq> [], s')"
      "kernel_ok s'" "events s' i = Some (ev\<lparr>ev_set := set1\<rparr>\<lparr>ev_set := fst (deliver W ts (ev_set (ev\<lparr>ev_set := set1\<rparr>)))\<rparr>)"
      "tq s' (SuspendQ (Event i)) = pre @ filter (\<lambda>t. t \<notin> fst ` set (snd (deliver W ts (ev_set (ev\<lparr>ev_set := set1\<rparr>))))) ts"
      "served s1 s' (snd (deliver W ts (ev_set (ev\<lparr>ev_set := set1\<rparr>))))" "ev_frame i s1 s'"
      by (rule Cons.IH [where s = s1 and ev = "ev\<lparr>ev_set := set1\<rparr>" and pre = pre and need = True]) (use s1(2,3) e1 pre in auto)
    have del: "deliver W (t # ts) (ev_set ev) = (fst ?d, (t, got) # snd ?d)"
      using True W by (simp add: set1_def got_def Let_def)
    have nt: "t \<notin> fst ` set (snd ?d)" using deliver_set [of W ts set1] d by auto
    have t1: "threads s' t = threads s1 t" using s'(5) nt by (simp add: served_def)
    have sv: "served s s' ((t, got) # snd ?d)"
      unfolding served_def
    proof (intro conjI ballI allI impI; clarify?)
      fix u x assume "(u, x) \<in> set ((t, got) # snd ?d)"
      then consider "u = t" "x = got" | "(u, x) \<in> set (snd ?d)" "u \<noteq> t" using nt by force
      then show "stat_of (threads s' u) \<noteq> 2 \<and> live (threads s' u) \<and> th_event_set (threads s' u) = x \<and>
          th_error (threads s' u) = th_error (threads s u)"
      proof cases
        case 1
        show ?thesis unfolding 1 t1 s1(4) using g err0 by (auto simp: live_def)
      next
        case 2
        then show ?thesis using s'(5) same by (auto simp: served_def)
      qed
    next
      fix u assume "u \<notin> fst ` set ((t, got) # snd ?d)"
      then show "threads s' u = threads s u" using s'(5) same by (auto simp: served_def)
    qed
    have fl: "filter (\<lambda>u. u \<notin> fst ` set ((t, got) # snd ?d)) (t # ts) = filter (\<lambda>u. u \<notin> fst ` set (snd ?d)) ts"
      using d by (auto intro!: filter_cong)
    show ?thesis
      by (rule P(1) [of s', unfolded del])
        (use step s1(1) s' sv fl ev_frame_trans [OF f0 ev_frame_trans [OF s1(6) s'(6)]] in simp_all)
  qed
qed

lemma deliver_rest:
  assumes "t \<in> set ts" "t \<notin> fst ` set (snd (deliver W ts bits))"
  shows "\<not> meets (snd (W t)) (fst (W t)) (fst (deliver W ts bits))"
  using assms
proof (induction ts arbitrary: bits)
  case (Cons u ts)
  show ?case
  proof (cases "meets (snd (W u)) (fst (W u)) bits")
    case True
    then show ?thesis using Cons by (auto simp: Let_def)
  next
    case False
    obtain x where x: "fst (deliver W ts bits) = bits AND x" using deliver_shrinks by blast
    show ?thesis
    proof (cases "t = u")
      case True
      then show ?thesis using False meets_mono [OF False, of x] x by simp
    next
      case ne: False
      then show ?thesis using Cons False by simp
    qed
  qed
qed simp

subsection \<open>No thread waits for flags that are set\<close>

definition event_inv :: "nat \<Rightarrow> kernel \<Rightarrow> bool" where
  "event_inv i s \<longleftrightarrow> (\<exists>ev. events s i = Some ev \<and> ipc_flag (ev_flag ev) \<and>
     (\<forall>t \<in> set (tq s (SuspendQ (Event i))). option_ok (th_event_info (threads s t)) \<and> th_error (threads s t) = RT_EOK \<and>
        \<not> meets (th_event_info (threads s t)) (th_event_set (threads s t)) (ev_set ev)))"

abbreviation wants :: "kernel \<Rightarrow> tid \<Rightarrow> u32 \<times> u8" where
  "wants s t \<equiv> (th_event_set (threads s t), th_event_info (threads s t))"

lemma event_inv_frame:
  assumes "event_inv i s" "events s' i = events s i" "tq s' (SuspendQ (Event i)) = tq s (SuspendQ (Event i))"
    "\<forall>u. th_frame (threads s u) (threads s' u)"
  shows "event_inv i s'"
proof -
  have "th_event_info (threads s' u) = th_event_info (threads s u)" "th_event_set (threads s' u) = th_event_set (threads s u)"
    "th_error (threads s' u) = th_error (threads s u)" for u
    using th_frameD(1,6,7) [OF assms(4) [rule_format, of u]] by simp_all
  then show ?thesis using assms(1-3) by (simp add: event_inv_def)
qed

lemma event_send_ok:
  assumes call: "caller c cur s" and inv: "event_inv i s" and ev: "events s i = Some ev" and b: "bits \<noteq> 0"
    and d: "d = deliver (wants s) (tq s (SuspendQ (Event i))) (ev_set ev OR bits)"
  shows "\<exists>s'. rt_event_send c i bits s = Some (RT_EOK, s') \<and> kernel_ok s' \<and> event_inv i s' \<and>
     events s' i = Some (ev\<lparr>ev_set := fst d\<rparr>) \<and>
     tq s' (SuspendQ (Event i)) = filter (\<lambda>t. t \<notin> fst ` set (snd d)) (tq s (SuspendQ (Event i))) \<and>
     (\<forall>(t, got) \<in> set (snd d). stat_of (threads s' t) \<noteq> RT_THREAD_SUSPEND \<and> rt_event_recv_resume t s' = (RT_EOK, Some got)) \<and>
     ipc_frame (Event i) s s' \<and> (\<exists>v. caller c v s')"
proof -
  let ?q = "SuspendQ (Event i)" and ?ev1 = "ev\<lparr>ev_set := ev_set ev OR bits\<rparr>"
  let ?s1 = "upd_event i ?ev1 s"
  note c = callerD [OF call]
  have I: "ipc_flag (ev_flag ev)" "\<And>t. t \<in> set (tq s ?q) \<Longrightarrow> option_ok (th_event_info (threads s t)) \<and> th_error (threads s t) = 0"
    using inv ev by (auto simp: event_inv_def)
  have pre: "kernel_ok ?s1" "events ?s1 i = Some ?ev1" "tq ?s1 ?q = [] @ tq s ?q"
    "\<forall>t \<in> set (tq s ?q). option_ok (th_event_info (threads ?s1 t)) \<and> wants s t = (th_event_set (threads ?s1 t), th_event_info (threads ?s1 t))"
    using c(1) I(2) by auto
  obtain s2 where s2: "event_send_loop c i (tq s ?q) False ?s1 = Some (0, False \<or> snd (deliver (wants s) (tq s ?q) (ev_set ?ev1)) \<noteq> [], s2)"
    "kernel_ok s2" "events s2 i = Some (?ev1\<lparr>ev_set := fst (deliver (wants s) (tq s ?q) (ev_set ?ev1))\<rparr>)"
    "tq s2 ?q = [] @ filter (\<lambda>t. t \<notin> fst ` set (snd (deliver (wants s) (tq s ?q) (ev_set ?ev1)))) (tq s ?q)"
    "served ?s1 s2 (snd (deliver (wants s) (tq s ?q) (ev_set ?ev1)))" "ev_frame i ?s1 s2"
    by (rule event_send_loop_ok [OF pre])
  have e2: "events s2 i = Some (ev\<lparr>ev_set := fst d\<rparr>)" and q2: "tq s2 ?q = filter (\<lambda>t. t \<notin> fst ` set (snd d)) (tq s ?q)"
    and sv: "served ?s1 s2 (snd d)" using s2(3,4,5) by (simp_all add: d)
  have w2: "stat_of (threads s2 t) \<noteq> 2 \<and> rt_event_recv_resume t s2 = (0, Some got)" if "(t, got) \<in> set (snd d)" for t got
  proof -
    have "t \<in> set (tq s ?q)" using that deliver_set [of "wants s" "tq s ?q"] unfolding d by force
    then show ?thesis using sv that I(2) [of t] by (auto simp: served_def rt_event_recv_resume_def)
  qed
  have inv2: "event_inv i s2"
    using I(1) e2 q2 sv I(2) deliver_rest [of _ "tq s ?q" "wants s" "ev_set ev OR bits", folded d]
    by (auto simp: event_inv_def served_def)
  have cur: "cur \<notin> fst ` set (snd d)"
    using deliver_set [of "wants s" "tq s ?q"] running_not_queued [OF kernel_okD(1) [OF c(1)] c(3), of ?q] by (auto simp: d)
  have call2: "caller c cur s2"
  proof -
    have "threads s2 cur = threads s cur" using sv cur by (simp add: served_def)
    moreover have "running_on c cur s2" using s2(6) hart_frame_running [of ?s1 s2 c cur] c(2) by (simp add: ev_frame_def)
    ultimately show ?thesis using s2(2) c(3) by (simp add: caller_def)
  qed
  have fr2: "ipc_frame (Event i) s s2"
    unfolding ipc_frame_def
  proof (intro conjI allI impI)
    show "objs_frame (Event i) s s2" using s2(6) by (auto simp: ev_frame_def objs_frame_def)
    show "tq s2 (SuspendQ y) = tq s (SuspendQ y)" "tq s2 (SenderQ y) = tq s (SenderQ y)" if "y \<noteq> Event i" for y
      using s2(6) that by (simp_all add: ev_frame_def)
    show "same_request (threads s t) (threads s2 t)" if "t \<notin> set (tq s ?q)" for t
    proof -
      have "t \<notin> fst ` set (snd d)" using that deliver_set [of "wants s" "tq s ?q"] by (auto simp: d)
      then show ?thesis using sv by (simp add: served_def)
    qed
    show "live (threads s2 t)" if "live (threads s t)" for t
      using sv that by (cases "t \<in> fst ` set (snd d)") (auto simp: served_def)
  qed
  have send: "rt_event_send c i bits s =
     (if snd d \<noteq> [] then Option.bind (rt_schedule c s2) (\<lambda>s3. Some (0, s3)) else Some (0, s2))"
    using ev b s2(1) by (simp add: rt_event_send_def d)
  show ?thesis
  proof (cases "snd d = []")
    case True
    then show ?thesis using send s2(2) inv2 e2 q2 w2 fr2 call2 by (intro exI [of _ s2]) auto
  next
    case False
    have lv: "live (threads s2 cur)" using callerD(3) [OF call2] by (simp add: live_def)
    obtain s' v where s': "rt_schedule c s2 = Some s'" "kernel_ok s'" "running_on c v s'"
      "stat_of (threads s' v) = 3" "v = cur \<or> eligible c s2 v" "rest s' = rest s2"
      "\<forall>u. th_frame (threads s2 u) (threads s' u)" "\<forall>q. \<not> is_ready q \<longrightarrow> tq s' q = tq s2 q"
      "\<forall>u. stat_of (threads s' u) = 2 \<longleftrightarrow> stat_of (threads s2 u) = 2"
      "\<forall>u. eligible c s2 u \<longrightarrow> th_current_priority (threads s2 v) \<le> th_current_priority (threads s2 u)"
      "\<forall>u. live (threads s2 u) \<longrightarrow> live (threads s' u)"
      by (rule kernel_ok_schedule [OF callerD(1,2) [OF call2] disjI1 [OF callerD(3) [OF call2]] lv])
    have e': "events s' = events s2" using restD(5) [OF s'(6)] .
    have q': "tq s' ?q = tq s2 ?q" using s'(8) by simp
    have inv': "event_inv i s'" by (rule event_inv_frame [OF inv2 _ q' s'(7)]) (simp add: e')
    have w': "stat_of (threads s' t) \<noteq> 2 \<and> rt_event_recv_resume t s' = (0, Some got)" if "(t, got) \<in> set (snd d)" for t got
      using w2 [OF that] s'(9) th_frameD(1,6) [OF s'(7) [rule_format, of t]] by (auto simp: rt_event_recv_resume_def split: if_splits)
    have "ipc_frame (Event i) s s'" by (rule ipc_frame_schedule [OF fr2 ipcs_rest [OF s'(6)] s'(8,7,11)])
    moreover have "caller c v s'" using s'(2-4) by (simp add: caller_def)
    ultimately show ?thesis using send False s'(1,2) inv' w' e2 q2 e' q' by (intro exI [of _ s']) auto
  qed
qed

text \<open>
  \<^bold>\<open>C13\<close>: \<^verbatim>\<open>rt_event_send\<close> serves the waiting threads in the order of the list: with \<open>d\<close> the specified delivery
  of the flags, the call succeeds, the event holds what the delivery leaves, exactly the served threads are taken
  from the list and made ready and their \<^verbatim>\<open>rt_event_recv\<close> returns the flags delivered to them, and afterwards again
  no thread waits for flags that are set.
\<close>

theorem rt_event_send_delivers:
  assumes call: "caller c cur s" and inv: "event_inv i s" and ev: "events s i = Some ev" and b: "bits \<noteq> 0"
    and d: "d = deliver (wants s) (tq s (SuspendQ (Event i))) (ev_set ev OR bits)"
  shows "\<exists>s'. rt_event_send c i bits s = Some (RT_EOK, s') \<and> kernel_ok s' \<and> event_inv i s' \<and>
     events s' i = Some (ev\<lparr>ev_set := fst d\<rparr>) \<and>
     tq s' (SuspendQ (Event i)) = filter (\<lambda>t. t \<notin> fst ` set (snd d)) (tq s (SuspendQ (Event i))) \<and>
     (\<forall>(t, got) \<in> set (snd d). stat_of (threads s' t) \<noteq> RT_THREAD_SUSPEND \<and> rt_event_recv_resume t s' = (RT_EOK, Some got))"
  using event_send_ok [OF assms] by blast

definition ex_event :: kernel where
  "ex_event = (upd_thread 4 (\<lambda>th. th\<lparr>th_event_set := 3, th_event_info := 6\<rparr>) (ex_waiting (SuspendQ (Event 7))))
     \<lparr>events := [7 \<mapsto> \<lparr>ev_static = True, ev_flag = 0, ev_set = 8\<rparr>]\<rparr>"

lemma ex_event_ok:
  "caller 0 1 ex_event" "eligible 0 ex_event 3" "event_inv 7 ex_event" "tq ex_event (SuspendQ (Event 7)) = [4]"
  "events ex_event 7 = Some \<lparr>ev_static = True, ev_flag = 0, ev_set = 8\<rparr>" "wants ex_event 4 = (3, 6)"
proof -
  let ?w = "ex_waiting (SuspendQ (Event 7))"
  have w: "caller 0 1 ?w" "eligible 0 ?w 3" using ex_waiting_ok by blast+
  show "caller 0 1 ex_event"
    using w(1) kernel_ok_upd(2) [OF callerD(1) [OF w(1)], of 4 3 6] by (simp add: ex_event_def caller_def running_on_def)
  show "eligible 0 ex_event 3" using w(2) by (simp add: ex_event_def eligible_def)
  have q: "tq ex_event (SuspendQ (Event 7)) = [4]" by (simp add: ex_event_def ex_waiting_def)
  have "th_error (threads ex_kernel 4) = 0" unfolding ex_kernel_threads by simp
  then show "event_inv 7 ex_event"
    unfolding event_inv_def q by (simp add: ex_event_def ex_waiting_def meets_def)
  show "tq ex_event (SuspendQ (Event 7)) = [4]" by (rule q)
  show "events ex_event 7 = Some \<lparr>ev_static = True, ev_flag = 0, ev_set = 8\<rparr>" "wants ex_event 4 = (3, 6)"
    by (simp_all add: ex_event_def)
qed

theorem rt_event_send_delivers_witness:
  "\<exists>s'. rt_event_send 0 7 6 ex_event = Some (RT_EOK, s') \<and> tq s' (SuspendQ (Event 7)) = [] \<and>
     events s' 7 = Some \<lparr>ev_static = True, ev_flag = 0, ev_set = 12\<rparr> \<and> rt_event_recv_resume 4 s' = (RT_EOK, Some 2)"
proof -
  let ?ev = "\<lparr>ev_static = True, ev_flag = 0, ev_set = 8\<rparr>"
  have d: "(12, [(4, 2)]) = deliver (wants ex_event) (tq ex_event (SuspendQ (Event 7))) (ev_set ?ev OR 6)"
    using ex_event_ok(6) by (simp add: ex_event_ok(4) meets_def)
  have "(6 :: u32) \<noteq> 0" by simp
  from rt_event_send_delivers [OF ex_event_ok(1,3,5) this d]
  show ?thesis unfolding ex_event_ok(4) by auto
qed

lemma event_recv_ok:
  assumes call: "caller c t s" and inv: "event_inv i s" and ev: "events s i = Some ev" and b: "bits \<noteq> 0"
    and opt: "option_ok opt" and el: "eligible c s u" and tm: "timeout = 0 \<or> wait_time timeout"
  shows "\<exists>out rec s'. rt_event_recv c i bits opt timeout s = Some (out, rec, s') \<and> kernel_ok s' \<and> event_inv i s' \<and>
     ipc_frame (Event i) s s' \<and> (\<exists>v. caller c v s') \<and>
     (if meets opt bits (ev_set ev)
      then out = Done RT_EOK \<and> rec = Some (bits AND ev_set ev) \<and> bits AND ev_set ev \<noteq> 0 \<and>
        (opt AND RT_EVENT_FLAG_AND \<noteq> 0 \<longrightarrow> bits AND ev_set ev = bits) \<and>
        events s' i = Some (ev\<lparr>ev_set := if opt AND RT_EVENT_FLAG_CLEAR \<noteq> 0 then ev_set ev AND NOT bits else ev_set ev\<rparr>)
      else events s' i = Some ev \<and> rec = None \<and>
        (if timeout = 0 then out = Done (- RT_ETIMEOUT)
         else out = Blocked \<and> stat_of (threads s' t) = RT_THREAD_SUSPEND \<and> wants s' t = (bits, opt) \<and>
           t \<in> set (tq s' (SuspendQ (Event i)))))"
proof -
  let ?q = "SuspendQ (Event i)"
  note c = callerD [OF call]
  have I: "ipc_flag (ev_flag ev)" "\<And>v. v \<in> set (tq s ?q) \<Longrightarrow> option_ok (th_event_info (threads s v)) \<and>
      th_error (threads s v) = 0 \<and> \<not> meets (th_event_info (threads s v)) (th_event_set (threads s v)) (ev_set ev)"
    using inv ev by (auto simp: event_inv_def)
  have lt: "live (threads s t)" using c(3) by (simp add: live_def)
  have tq: "t \<notin> set (tq s ?q)" by (rule running_not_queued [OF kernel_okD(1) [OF c(1)] c(3)])
  show ?thesis
  proof (cases "meets opt bits (ev_set ev)")
    case True
    let ?f = "\<lambda>th. th\<lparr>th_error := 0, th_event_set := ev_set ev AND bits, th_event_info := opt\<rparr>"
    let ?ev' = "ev\<lparr>ev_set := if opt AND 4 \<noteq> 0 then ev_set ev AND NOT bits else ev_set ev\<rparr>"
    define s' where "s' = upd_event i ?ev' (upd_thread t ?f s)"
    have e: "upd_event i ev x = x" if "events x i = Some ev" for x using that by (simp add: fun_upd_idem)
    have k: "kernel_ok s'" using c(1) kernel_ok_upd_thread [of s ?f t] by (simp add: s'_def live_def)
    have "\<not> meets info want (if opt AND 4 \<noteq> 0 then ev_set ev AND NOT bits else ev_set ev)" if "\<not> meets info want (ev_set ev)" for info want
      using that meets_mono by simp
    then have i': "event_inv i s'" using I tq by (auto simp: event_inv_def s'_def)
    have cond: "if opt AND 1 \<noteq> 0 then ev_set ev AND bits = bits else ev_set ev AND bits \<noteq> 0"
      using True unfolding meets_def and.commute [of bits] .
    have two: "upd_thread t (\<lambda>th. th\<lparr>th_event_set := ev_set ev AND bits, th_event_info := opt\<rparr>)
        (upd_thread t (\<lambda>th. th\<lparr>th_error := 0\<rparr>) s) = upd_thread t ?f s" by (simp add: upd_thread_def)
    have s': "s' = (if opt AND 4 \<noteq> 0 then upd_event i (ev\<lparr>ev_set := ev_set ev AND NOT bits\<rparr>) (upd_thread t ?f s) else upd_thread t ?f s)"
      using e [of "upd_thread t ?f s"] ev by (simp add: s'_def)
    have r: "rt_event_recv c i bits opt timeout s = Some (Done 0, Some (bits AND ev_set ev), s')"
      unfolding s' and.commute [of bits] using ev b opt c cond by (simp add: rt_event_recv_def two Let_def)
    have "bits AND ev_set ev \<noteq> 0" "opt AND 1 \<noteq> 0 \<longrightarrow> bits AND ev_set ev = bits"
      using True b by (auto simp: meets_def split: if_splits)
    moreover have "ipc_frame (Event i) s s'"
      by (rule prepared_frame, rule prepared_own [OF call, where th = "?f (threads s t)"])
        (use lt in \<open>simp_all add: s'_def objs_frame_def live_def\<close>)
    moreover have "caller c t s'" using c(2,3) k by (auto simp: caller_def running_on_def s'_def)
    moreover have "events s' i = Some ?ev'" by (simp add: s'_def)
    ultimately show ?thesis using r k i' True
      by (intro exI [of _ "Done 0"] exI [of _ "Some (bits AND ev_set ev)"] exI [of _ s']) auto
  next
    case False
    have ncond: "\<not> (if opt AND 1 \<noteq> 0 then ev_set ev AND bits = bits else ev_set ev AND bits \<noteq> 0)"
      using False unfolding meets_def and.commute [of bits] .
    show ?thesis
    proof (cases "timeout = 0")
      case True
      let ?s' = "upd_thread t (\<lambda>th. th\<lparr>th_error := -2\<rparr>) (upd_thread t (\<lambda>th. th\<lparr>th_error := 0\<rparr>) s)"
      have "rt_event_recv c i bits opt timeout s = Some (Done (-2), None, ?s')"
        using True ev b opt c ncond by (simp add: rt_event_recv_def)
      moreover have "event_inv i ?s'" using I ev tq by (auto simp: event_inv_def)
      moreover have "ipc_frame (Event i) s ?s'"
        by (rule prepared_frame, rule prepared_own [OF call, where th = "threads s t\<lparr>th_error := -2\<rparr>"])
          (use lt in \<open>simp_all add: live_def\<close>)
      moreover have "\<exists>v. caller c v ?s'" using caller_error [OF caller_error [OF call]] by blast
      ultimately show ?thesis using False True c(1) ev
        by (intro exI [of _ "Done (-2)"] exI [of _ None] exI [of _ ?s']) simp
    next
      case wait: False
      let ?f = "\<lambda>th. th\<lparr>th_error := 0, th_event_set := bits, th_event_info := opt\<rparr>"
      let ?s2 = "upd_thread t (\<lambda>th. th\<lparr>th_event_set := bits, th_event_info := opt\<rparr>) (upd_thread t (\<lambda>th. th\<lparr>th_error := 0\<rparr>) s)"
      have call2: "caller c t ?s2" using call by (auto simp: caller_def running_on_def)
      have el2: "eligible c ?s2 u" using el by (auto simp: eligible_def)
      obtain s' where s': "ipc_block c ?q t (ev_flag ev) timeout ?s2 = Some s'" "blocked c ?q t (ev_flag ev) timeout ?s2 s'"
        by (rule caller_blocks [OF call2 el2 _ I(1)]) (use tm wait in auto)
      have r: "rt_event_recv c i bits opt timeout s = Some (Blocked, None, s')"
        using wait ev b opt c ncond s'(1) by (simp add: rt_event_recv_def)
      have fr: "th_event_info (threads s' v) = th_event_info (threads ?s2 v)" "th_event_set (threads s' v) = th_event_set (threads ?s2 v)"
        "th_error (threads s' v) = th_error (threads ?s2 v)" for v
        using s'(2) th_frameD(1,6,7) [of "threads ?s2 v" "threads s' v"] unfolding blocked_def by blast+
      have e': "events s' = events s" using s'(2) ipcsD(3) [of s' ?s2] by (simp add: blocked_def)
      have q': "set (tq s' ?q) = insert t (set (tq s ?q))" using s'(2) by (simp add: blocked_def set_wait_insert)
      have "event_inv i s'" using I ev False opt unfolding event_inv_def e' q' fr by auto
      moreover have "prepared (Event i) s ?s2"
        by (rule prepared_own [OF call, where th = "?f (threads s t)"]) (use lt in \<open>simp_all add: live_def\<close>)
      note F = blocked_frame [OF this disjI1 [OF refl] s'(2)]
      moreover have "stat_of (threads s' t) = RT_THREAD_SUSPEND" using s'(2) by (simp add: blocked_def)
      ultimately show ?thesis using r False wait e' q' ev fr [of t] F
        by (intro exI [of _ Blocked] exI [of _ None] exI [of _ s']) auto
    qed
  qed
qed

text \<open>
  \<^verbatim>\<open>rt_event_recv\<close> with a valid option: if the flags meet the condition it returns at once with exactly the
  requested flags that are set (all of them with AND), and removes the requested flags if CLEAR is given;
  otherwise it returns \<^verbatim>\<open>-RT_ETIMEOUT\<close> without waiting time, or suspends the caller with its request recorded. In
  every case no thread waits for flags that are set.
\<close>

theorem rt_event_recv_outcome:
  assumes call: "caller c t s" and inv: "event_inv i s" and ev: "events s i = Some ev" and b: "bits \<noteq> 0"
    and opt: "option_ok opt" and el: "eligible c s u" and tm: "timeout = 0 \<or> wait_time timeout"
  shows "\<exists>out rec s'. rt_event_recv c i bits opt timeout s = Some (out, rec, s') \<and> kernel_ok s' \<and> event_inv i s' \<and>
     (if meets opt bits (ev_set ev)
      then out = Done RT_EOK \<and> rec = Some (bits AND ev_set ev) \<and> bits AND ev_set ev \<noteq> 0 \<and>
        (opt AND RT_EVENT_FLAG_AND \<noteq> 0 \<longrightarrow> bits AND ev_set ev = bits) \<and>
        events s' i = Some (ev\<lparr>ev_set := if opt AND RT_EVENT_FLAG_CLEAR \<noteq> 0 then ev_set ev AND NOT bits else ev_set ev\<rparr>)
      else events s' i = Some ev \<and> rec = None \<and>
        (if timeout = 0 then out = Done (- RT_ETIMEOUT)
         else out = Blocked \<and> stat_of (threads s' t) = RT_THREAD_SUSPEND \<and> wants s' t = (bits, opt) \<and>
           t \<in> set (tq s' (SuspendQ (Event i)))))"
  using event_recv_ok [OF assms] by blast

theorem rt_event_recv_outcome_witness:
  "\<exists>s'. rt_event_recv 0 7 24 6 0 ex_event = Some (Done RT_EOK, Some 8, s') \<and>
     events s' 7 = Some \<lparr>ev_static = True, ev_flag = 0, ev_set = 0\<rparr>"
proof -
  have "(24 :: u32) \<noteq> 0" "option_ok (6 :: u8)" "meets 6 24 8" by (simp_all add: meets_def)
  then show ?thesis
    using rt_event_recv_outcome [OF ex_event_ok(1,3,5) _ _ ex_event_ok(2), of 24 6 0] by auto
qed

end
