(* ===== verification/Mailbox.thy ===== *)
theory Mailbox
  imports Ipc Refinement Circular
begin

text \<open>
  The mailbox of \<^verbatim>\<open>src/ipc.c\<close>: a bounded queue of machine words in a circular array, with a
  list of waiting receivers and one of waiting senders. A woken thread looks again at the
  mailbox and may have to wait once more, for the rest of its waiting time; \<open>_resume\<close>
  functions take the waiting time and the tick at which the thread has gone to sleep.
\<close>

abbreviation (input) RT_MB_ENTRY_MAX :: u16 where "RT_MB_ENTRY_MAX \<equiv> 65535"

abbreviation upd_mb :: "nat \<Rightarrow> rt_mailbox \<Rightarrow> kernel \<Rightarrow> kernel" where
  "upd_mb i mb s \<equiv> s\<lparr>mailboxes := (mailboxes s)(i \<mapsto> mb)\<rparr>"

text \<open>The memory of the pool is an argument; its length is what the caller or the heap provides.\<close>

definition rt_mb_init :: "nat \<Rightarrow> u64 list \<Rightarrow> u64 \<Rightarrow> u8 \<Rightarrow> kernel \<Rightarrow> rt_err_t \<times> kernel" where
  "rt_mb_init i msgpool sz flag s =
     (RT_EOK, s\<lparr>mailboxes := (mailboxes s)(i \<mapsto> \<lparr>mb_static = True, mb_flag = flag, mb_msg_pool = msgpool,
                  mb_size = ucast sz, mb_entry = 0, mb_in_offset = 0, mb_out_offset = 0\<rparr>),
               tq := (tq s)(SuspendQ (Mailbox i) := [], SenderQ (Mailbox i) := [])\<rparr>)"

definition rt_mb_detach :: "nat \<Rightarrow> nat \<Rightarrow> kernel \<Rightarrow> (rt_err_t \<times> kernel) option" where
  "rt_mb_detach c i s =
     do { mb \<leftarrow> mailboxes s i;
          RT_ASSERT (mb_static mb);
          s1 \<leftarrow> rt_ipc_list_resume_all c (SuspendQ (Mailbox i)) s;
          s2 \<leftarrow> rt_ipc_list_resume_all c (SenderQ (Mailbox i)) s1;
          Some (RT_EOK, s2\<lparr>mailboxes := (mailboxes s2)(i := None)\<rparr>) }"

definition rt_mb_create :: "nat \<Rightarrow> nat option \<Rightarrow> u64 list option \<Rightarrow> u64 \<Rightarrow> u8 \<Rightarrow> kernel \<Rightarrow> (nat option \<times> kernel) option" where
  "rt_mb_create c obj pool sz flag s =
     do { RT_DEBUG_NOT_IN_INTERRUPT c s;
          case obj of
            None \<Rightarrow> Some (None, s)
          | Some i \<Rightarrow>
              (case pool of
                 None \<Rightarrow> Some (None, s)
               | Some mem \<Rightarrow>
                   Some (Some i, s\<lparr>mailboxes := (mailboxes s)(i \<mapsto> \<lparr>mb_static = False, mb_flag = flag, mb_msg_pool = mem,
                                     mb_size = ucast sz, mb_entry = 0, mb_in_offset = 0, mb_out_offset = 0\<rparr>),
                                  tq := (tq s)(SuspendQ (Mailbox i) := [], SenderQ (Mailbox i) := [])\<rparr>)) }"

definition rt_mb_delete :: "nat \<Rightarrow> nat \<Rightarrow> kernel \<Rightarrow> (rt_err_t \<times> kernel) option" where
  "rt_mb_delete c i s =
     do { RT_DEBUG_NOT_IN_INTERRUPT c s;
          mb \<leftarrow> mailboxes s i;
          RT_ASSERT (\<not> mb_static mb);
          s1 \<leftarrow> rt_ipc_list_resume_all c (SuspendQ (Mailbox i)) s;
          s2 \<leftarrow> rt_ipc_list_resume_all c (SenderQ (Mailbox i)) s1;
          Some (RT_EOK, s2\<lparr>mailboxes := (mailboxes s2)(i := None)\<rparr>) }"

text \<open>The rest of the waiting time of a thread that was woken: \<^verbatim>\<open>timeout -= tick_delta\<close>, at least zero.\<close>

definition remaining :: "rt_int32_t \<Rightarrow> rt_tick_t \<Rightarrow> rt_tick_t \<Rightarrow> rt_int32_t" where
  "remaining timeout tick_delta now =
     (if sint timeout > 0
      then let timeout' = timeout - (now - tick_delta) in if sint timeout' < 0 then 0 else timeout'
      else timeout)"

text \<open>\<^verbatim>\<open>++ mb->in_offset; if (mb->in_offset >= mb->size) mb->in_offset = 0;\<close>\<close>

definition next_index :: "u16 \<Rightarrow> u16 \<Rightarrow> u16" where
  "next_index n x = (if x + 1 \<ge> n then 0 else x + 1)"

text \<open>The end of a send or receive: wake the first waiting thread, if there is one, and reschedule.\<close>

definition wake_first :: "nat \<Rightarrow> qid \<Rightarrow> kernel \<Rightarrow> kernel option" where
  "wake_first c q s =
     (if tq s q \<noteq> [] then do { s1 \<leftarrow> rt_ipc_list_resume c q s; rt_schedule c s1 } else Some s)"

definition mb_put :: "nat \<Rightarrow> nat \<Rightarrow> u64 \<Rightarrow> kernel \<Rightarrow> (outcome \<times> kernel) option" where
  "mb_put c i value s =
     do { mb \<leftarrow> mailboxes s i;
          if unat (mb_in_offset mb) < length (mb_msg_pool mb)
          then do {
            let mb1 = mb\<lparr>mb_msg_pool := (mb_msg_pool mb)[unat (mb_in_offset mb) := value],
                         mb_in_offset := next_index (mb_size mb) (mb_in_offset mb)\<rparr>;
            if mb_entry mb1 < RT_MB_ENTRY_MAX
            then do {
              let s1 = upd_mb i (mb1\<lparr>mb_entry := mb_entry mb1 + 1\<rparr>) s;
              s2 \<leftarrow> wake_first c (SuspendQ (Mailbox i)) s1;
              Some (Done RT_EOK, s2) }
            else Some (Done (- RT_EFULL), upd_mb i mb1 s) }
          else None }"

definition mb_send_loop :: "nat \<Rightarrow> nat \<Rightarrow> u64 \<Rightarrow> rt_int32_t \<Rightarrow> kernel \<Rightarrow> (outcome \<times> kernel) option" where
  "mb_send_loop c i value timeout s =
     do { mb \<leftarrow> mailboxes s i;
          if mb_entry mb = mb_size mb
          then do {
            t \<leftarrow> rt_thread_self c s;
            let s1 = upd_thread t (\<lambda>th. th\<lparr>th_error := RT_EOK\<rparr>) s;
            if timeout = 0 then Some (Done (- RT_EFULL), s1)
            else do {
              RT_DEBUG_IN_THREAD_CONTEXT c s1;
              s2 \<leftarrow> ipc_block c (SenderQ (Mailbox i)) t (mb_flag mb) timeout s1;
              Some (Blocked, s2) } }
          else mb_put c i value s }"

definition rt_mb_send_wait :: "nat \<Rightarrow> nat \<Rightarrow> u64 \<Rightarrow> rt_int32_t \<Rightarrow> kernel \<Rightarrow> (outcome \<times> kernel) option" where
  "rt_mb_send_wait c i value timeout s =
     do { mb \<leftarrow> mailboxes s i;
          if mb_entry mb = mb_size mb \<and> timeout = 0 then Some (Done (- RT_EFULL), s)
          else mb_send_loop c i value timeout s }"

definition rt_mb_send_wait_resume :: "nat \<Rightarrow> nat \<Rightarrow> u64 \<Rightarrow> rt_int32_t \<Rightarrow> rt_tick_t \<Rightarrow> kernel \<Rightarrow> (outcome \<times> kernel) option" where
  "rt_mb_send_wait_resume c i value timeout tick_delta s =
     do { t \<leftarrow> rt_thread_self c s;
          if th_error (threads s t) \<noteq> RT_EOK then Some (Done (th_error (threads s t)), s)
          else mb_send_loop c i value (remaining timeout tick_delta (rt_tick_get s)) s }"

definition rt_mb_send :: "nat \<Rightarrow> nat \<Rightarrow> u64 \<Rightarrow> kernel \<Rightarrow> (outcome \<times> kernel) option" where
  "rt_mb_send c i value s = rt_mb_send_wait c i value 0 s"

definition mb_get :: "nat \<Rightarrow> nat \<Rightarrow> kernel \<Rightarrow> (outcome \<times> u64 option \<times> kernel) option" where
  "mb_get c i s =
     do { mb \<leftarrow> mailboxes s i;
          if unat (mb_out_offset mb) < length (mb_msg_pool mb)
          then do {
            let value = mb_msg_pool mb ! unat (mb_out_offset mb);
            let s1 = upd_mb i (mb\<lparr>mb_out_offset := next_index (mb_size mb) (mb_out_offset mb),
                                  mb_entry := mb_entry mb - 1\<rparr>) s;
            s2 \<leftarrow> wake_first c (SenderQ (Mailbox i)) s1;
            Some (Done RT_EOK, Some value, s2) }
          else None }"

definition mb_recv_loop :: "nat \<Rightarrow> nat \<Rightarrow> rt_int32_t \<Rightarrow> kernel \<Rightarrow> (outcome \<times> u64 option \<times> kernel) option" where
  "mb_recv_loop c i timeout s =
     do { mb \<leftarrow> mailboxes s i;
          if mb_entry mb = 0
          then do {
            t \<leftarrow> rt_thread_self c s;
            let s1 = upd_thread t (\<lambda>th. th\<lparr>th_error := RT_EOK\<rparr>) s;
            if timeout = 0
            then Some (Done (- RT_ETIMEOUT), None, upd_thread t (\<lambda>th. th\<lparr>th_error := - RT_ETIMEOUT\<rparr>) s1)
            else do {
              RT_DEBUG_IN_THREAD_CONTEXT c s1;
              s2 \<leftarrow> ipc_block c (SuspendQ (Mailbox i)) t (mb_flag mb) timeout s1;
              Some (Blocked, None, s2) } }
          else mb_get c i s }"

definition rt_mb_recv :: "nat \<Rightarrow> nat \<Rightarrow> rt_int32_t \<Rightarrow> kernel \<Rightarrow> (outcome \<times> u64 option \<times> kernel) option" where
  "rt_mb_recv c i timeout s =
     do { mb \<leftarrow> mailboxes s i;
          if mb_entry mb = 0 \<and> timeout = 0 then Some (Done (- RT_ETIMEOUT), None, s)
          else mb_recv_loop c i timeout s }"

definition rt_mb_recv_resume :: "nat \<Rightarrow> nat \<Rightarrow> rt_int32_t \<Rightarrow> rt_tick_t \<Rightarrow> kernel \<Rightarrow> (outcome \<times> u64 option \<times> kernel) option" where
  "rt_mb_recv_resume c i timeout tick_delta s =
     do { t \<leftarrow> rt_thread_self c s;
          if th_error (threads s t) \<noteq> RT_EOK then Some (Done (th_error (threads s t)), None, s)
          else mb_recv_loop c i (remaining timeout tick_delta (rt_tick_get s)) s }"

definition rt_mb_control :: "nat \<Rightarrow> nat \<Rightarrow> ipc_cmd \<Rightarrow> kernel \<Rightarrow> (rt_err_t \<times> kernel) option" where
  "rt_mb_control c i cmd s =
     do { _ \<leftarrow> mailboxes s i;
          case cmd of
            RT_IPC_CMD_RESET \<Rightarrow>
              do { s1 \<leftarrow> rt_ipc_list_resume_all c (SuspendQ (Mailbox i)) s;
                   s2 \<leftarrow> rt_ipc_list_resume_all c (SenderQ (Mailbox i)) s1;
                   mb \<leftarrow> mailboxes s2 i;
                   s3 \<leftarrow> rt_schedule c (upd_mb i (mb\<lparr>mb_entry := 0, mb_in_offset := 0, mb_out_offset := 0\<rparr>) s2);
                   Some (RT_EOK, s3) }
          | OTHER_IPC_CMD \<Rightarrow> Some (- RT_ERROR, s) }"

subsection \<open>The circular buffer\<close>

definition mb_wf :: "rt_mailbox \<Rightarrow> bool" where
  "mb_wf mb \<longleftrightarrow> 0 < mb_size mb \<and> unat (mb_size mb) \<le> length (mb_msg_pool mb) \<and> mb_entry mb \<le> mb_size mb \<and>
     mb_out_offset mb < mb_size mb \<and>
     unat (mb_in_offset mb) = (unat (mb_out_offset mb) + unat (mb_entry mb)) mod unat (mb_size mb)"

definition mb_msgs :: "rt_mailbox \<Rightarrow> u64 list" where
  "mb_msgs mb = circ (mb_msg_pool mb) (unat (mb_size mb)) (unat (mb_out_offset mb)) (unat (mb_entry mb))"

lemma next_index:
  assumes "x < n"
  shows "unat (next_index n x) = Suc (unat x) mod unat n" "next_index n x < n"
proof -
  have lt: "unat x < unat n" using assms by (simp add: word_less_nat_alt)
  have "x < 65535" using lt unat_u16 [of n] by (simp add: word_less_nat_alt)
  note s = unat_Suc_u16 [OF this]
  have c: "x + 1 \<ge> n \<longleftrightarrow> Suc (unat x) = unat n" using s lt by (auto simp: word_le_nat_alt)
  show 1: "unat (next_index n x) = Suc (unat x) mod unat n"
    using s c lt by (cases "Suc (unat x) = unat n") (simp_all add: next_index_def)
  have "unat n > 0" using lt by simp
  then show "next_index n x < n" unfolding word_less_nat_alt 1 by simp
qed

lemma mb_in_bounds: "mb_wf mb \<Longrightarrow> unat (mb_in_offset mb) < length (mb_msg_pool mb) \<and> mb_in_offset mb < mb_size mb"
  by (auto simp: mb_wf_def word_less_nat_alt intro: less_le_trans mod_less_divisor)

lemma mb_wf_put:
  assumes wf: "mb_wf mb" and nf: "mb_entry mb \<noteq> mb_size mb"
    and mb': "mb' = mb\<lparr>mb_msg_pool := (mb_msg_pool mb)[unat (mb_in_offset mb) := v],
      mb_in_offset := next_index (mb_size mb) (mb_in_offset mb), mb_entry := mb_entry mb + 1\<rparr>"
  shows "mb_entry mb < RT_MB_ENTRY_MAX" "mb_wf mb'" "mb_msgs mb' = mb_msgs mb @ [v]"
proof -
  let ?n = "unat (mb_size mb)" and ?o = "unat (mb_out_offset mb)" and ?e = "unat (mb_entry mb)"
  have W: "0 < ?n" "?n \<le> length (mb_msg_pool mb)" "?e \<le> ?n" "?o < ?n" "unat (mb_in_offset mb) = (?o + ?e) mod ?n"
    using wf by (auto simp: mb_wf_def word_less_nat_alt word_le_nat_alt)
  have lt: "?e < ?n" using W(3) nf by (simp add: word_unat_eq_iff)
  show e: "mb_entry mb < RT_MB_ENTRY_MAX" using lt unat_u16 [of "mb_size mb"] by (simp add: word_less_nat_alt)
  have in_lt: "mb_in_offset mb < mb_size mb" using mb_in_bounds [OF wf] by simp
  have "Suc ((?o + ?e) mod ?n) mod ?n = (?o + Suc ?e) mod ?n" by (simp add: mod_Suc_eq)
  then show "mb_wf mb'" using W lt next_index(1) [OF in_lt] wf unat_Suc_u16 [OF e]
    by (simp add: mb_wf_def mb' word_le_nat_alt)
  show "mb_msgs mb' = mb_msgs mb @ [v]"
    using circ_update [OF W(2,1,5) lt, of v] unat_Suc_u16 [OF e] by (simp add: mb_msgs_def mb')
qed

lemma mb_wf_get:
  assumes wf: "mb_wf mb" and ne: "mb_entry mb \<noteq> 0"
    and mb': "mb' = mb\<lparr>mb_out_offset := next_index (mb_size mb) (mb_out_offset mb), mb_entry := mb_entry mb - 1\<rparr>"
  shows "unat (mb_out_offset mb) < length (mb_msg_pool mb)" "mb_wf mb'"
    "mb_msgs mb = mb_msg_pool mb ! unat (mb_out_offset mb) # mb_msgs mb'"
proof -
  let ?n = "unat (mb_size mb)" and ?o = "unat (mb_out_offset mb)" and ?e = "unat (mb_entry mb)"
  have W: "0 < ?n" "?n \<le> length (mb_msg_pool mb)" "?e \<le> ?n" "?o < ?n" "unat (mb_in_offset mb) = (?o + ?e) mod ?n"
    "mb_out_offset mb < mb_size mb"
    using wf by (auto simp: mb_wf_def word_less_nat_alt word_le_nat_alt)
  show "?o < length (mb_msg_pool mb)" using W by simp
  have e: "unat (mb_entry mb - 1) = ?e - 1" using ne by (intro unat_pred) (simp add: word_gt_0)
  have pos: "0 < ?e" using ne by (simp add: unat_gt_0)
  have "(Suc ?o mod ?n + (?e - 1)) mod ?n = (Suc ?o + (?e - 1)) mod ?n" by (rule mod_add_left_eq)
  also have "Suc ?o + (?e - 1) = ?o + ?e" using pos by simp
  finally show "mb_wf mb'" using W next_index [OF W(6)] wf e pos
    by (simp add: mb_wf_def mb' word_le_nat_alt)
  show "mb_msgs mb = mb_msg_pool mb ! ?o # mb_msgs mb'"
    using circ_Cons [OF W(1,4), of "mb_msg_pool mb" "?e - 1"] next_index(1) [OF W(6)] e pos
    by (simp add: mb_msgs_def mb')
qed

subsection \<open>Sending and receiving\<close>

definition put_rec :: "u64 \<Rightarrow> rt_mailbox \<Rightarrow> rt_mailbox" where
  "put_rec v mb = mb\<lparr>mb_msg_pool := (mb_msg_pool mb)[unat (mb_in_offset mb) := v],
      mb_in_offset := next_index (mb_size mb) (mb_in_offset mb), mb_entry := mb_entry mb + 1\<rparr>"

definition get_rec :: "rt_mailbox \<Rightarrow> rt_mailbox" where
  "get_rec mb = mb\<lparr>mb_out_offset := next_index (mb_size mb) (mb_out_offset mb), mb_entry := mb_entry mb - 1\<rparr>"

lemma rec_sel [simp]:
  "mb_flag (put_rec v mb) = mb_flag mb" "mb_size (put_rec v mb) = mb_size mb"
  "mb_flag (get_rec mb) = mb_flag mb" "mb_size (get_rec mb) = mb_size mb"
  by (simp_all add: put_rec_def get_rec_def)

text \<open>The first thread of a list, if there is one, is woken.\<close>

definition wakes_first :: "nat \<Rightarrow> qid \<Rightarrow> kernel \<Rightarrow> kernel \<Rightarrow> bool" where
  "wakes_first c q s s' = (case tq s q of [] \<Rightarrow> s' = s | w # ws \<Rightarrow> woken c q w ws s s')"

lemma wakes_first_ipcs: "wakes_first c q s s' \<Longrightarrow> ipcs s' = ipcs s"
  by (auto simp: wakes_first_def woken_def split: list.splits)

lemma wakes_first_ok: "wakes_first c q s s' \<Longrightarrow> kernel_ok s \<Longrightarrow> kernel_ok s'"
  by (auto simp: wakes_first_def woken_def split: list.splits)

lemma wake_first_ok:
  assumes "caller c t s" "wait_queue q"
  obtains s' where "wakes_first c q s s'" "wake_first c q s = Some s'"
proof (cases "tq s q")
  case Nil
  then show thesis using that [of s] by (simp add: wakes_first_def wake_first_def)
next
  case (Cons w ws)
  obtain s1 s' where "rt_ipc_list_resume c q s = Some s1" "rt_schedule c s1 = Some s'" "woken c q w ws s s'"
    by (rule resume_schedule_ok [OF callerD(1,2,3) [OF assms(1)] assms(2) Cons])
  then show thesis using that [of s'] Cons by (simp add: wakes_first_def wake_first_def)
qed

lemma mb_put_ok:
  assumes call: "caller c t s" and mb: "mailboxes s i = Some mb" and wf: "mb_wf mb" and nf: "mb_entry mb \<noteq> mb_size mb"
  obtains s' where "mb_put c i v s = Some (Done 0, s')" "wakes_first c (SuspendQ (Mailbox i)) (upd_mb i (put_rec v mb) s) s'"
    "mailboxes s' i = Some (put_rec v mb)"
proof -
  have call1: "caller c t (upd_mb i (put_rec v mb) s)" using call by simp
  obtain s' where s': "wakes_first c (SuspendQ (Mailbox i)) (upd_mb i (put_rec v mb) s) s'"
    "wake_first c (SuspendQ (Mailbox i)) (upd_mb i (put_rec v mb) s) = Some s'"
    using wake_first_ok [OF call1, of "SuspendQ (Mailbox i)"] by blast
  have "mb_put c i v s = Some (Done 0, s')"
    using mb mb_in_bounds [OF wf] mb_wf_put(1) [OF wf nf refl] s'(2)
    by (simp add: mb_put_def Let_def put_rec_def)
  then show thesis using that s'(1) ipcsD(4) [OF wakes_first_ipcs [OF s'(1)]] by simp
qed

lemma mb_get_ok:
  assumes call: "caller c t s" and mb: "mailboxes s i = Some mb" and wf: "mb_wf mb" and ne: "mb_entry mb \<noteq> 0"
  obtains s' where "mb_get c i s = Some (Done 0, Some (mb_msg_pool mb ! unat (mb_out_offset mb)), s')"
    "wakes_first c (SenderQ (Mailbox i)) (upd_mb i (get_rec mb) s) s'" "mailboxes s' i = Some (get_rec mb)"
proof -
  have call1: "caller c t (upd_mb i (get_rec mb) s)" using call by simp
  obtain s' where s': "wakes_first c (SenderQ (Mailbox i)) (upd_mb i (get_rec mb) s) s'"
    "wake_first c (SenderQ (Mailbox i)) (upd_mb i (get_rec mb) s) = Some s'"
    using wake_first_ok [OF call1, of "SenderQ (Mailbox i)"] by blast
  have "mb_get c i s = Some (Done 0, Some (mb_msg_pool mb ! unat (mb_out_offset mb)), s')"
    using mb mb_wf_get(1) [OF wf ne refl] s'(2)
    by (simp add: mb_get_def Let_def get_rec_def)
  then show thesis using that s'(1) ipcsD(4) [OF wakes_first_ipcs [OF s'(1)]] by simp
qed

definition mb_inv :: "nat \<Rightarrow> kernel \<Rightarrow> bool" where
  "mb_inv i s \<longleftrightarrow> (\<exists>mb. mailboxes s i = Some mb \<and> ipc_flag (mb_flag mb) \<and> mb_wf mb)"

definition mb_abs :: "nat \<Rightarrow> kernel \<Rightarrow> nat \<times> u64 list" where
  "mb_abs i s = (case mailboxes s i of Some mb \<Rightarrow> (unat (mb_size mb), mb_msgs mb) | None \<Rightarrow> (0, []))"

abbreviation no_error :: "tid \<Rightarrow> kernel \<Rightarrow> kernel" where
  "no_error t s \<equiv> upd_thread t (\<lambda>th. th\<lparr>th_error := RT_EOK\<rparr>) s"

lemma eligible_error: "eligible c (upd_thread t (\<lambda>th. th\<lparr>th_error := e\<rparr>) s) u = eligible c s u"
  by (auto simp: eligible_def)

lemma mb_send_loop_cases:
  assumes call: "caller c t s" and inv: "mb_inv i s" and mb: "mailboxes s i = Some mb"
    and el: "eligible c s u" and tm: "timeout = 0 \<or> wait_time timeout"
  shows "if mb_entry mb \<noteq> mb_size mb
     then \<exists>s'. mb_send_loop c i v timeout s = Some (Done RT_EOK, s') \<and>
       wakes_first c (SuspendQ (Mailbox i)) (upd_mb i (put_rec v mb) s) s' \<and> mailboxes s' i = Some (put_rec v mb)
     else if timeout = 0 then mb_send_loop c i v timeout s = Some (Done (- RT_EFULL), no_error t s)
     else \<exists>s'. mb_send_loop c i v timeout s = Some (Blocked, s') \<and>
       blocked c (SenderQ (Mailbox i)) t (mb_flag mb) timeout (no_error t s) s'"
proof -
  note c = callerD [OF call] callerD [OF caller_error [OF call]]
  have I: "ipc_flag (mb_flag mb)" "mb_wf mb" using inv mb by (auto simp: mb_inv_def)
  show ?thesis
  proof (cases "mb_entry mb = mb_size mb")
    case False
    obtain s' where s': "mb_put c i v s = Some (Done 0, s')" "wakes_first c (SuspendQ (Mailbox i)) (upd_mb i (put_rec v mb) s) s'"
      "mailboxes s' i = Some (put_rec v mb)" by (rule mb_put_ok [OF call mb I(2) False])
    then show ?thesis using False mb by (auto simp: mb_send_loop_def)
  next
    case full: True
    show ?thesis
    proof (cases "timeout = 0")
      case True
      then show ?thesis using full mb c by (simp add: mb_send_loop_def)
    next
      case False
      have el': "eligible c (no_error t s) u" using el by (simp add: eligible_error)
      obtain s' where "ipc_block c (SenderQ (Mailbox i)) t (mb_flag mb) timeout (no_error t s) = Some s'"
        "blocked c (SenderQ (Mailbox i)) t (mb_flag mb) timeout (no_error t s) s'"
        using caller_blocks [OF caller_error [OF call] el' _ I(1), of "SenderQ (Mailbox i)" timeout] False tm by blast
      then show ?thesis using False full mb c by (simp add: mb_send_loop_def)
    qed
  qed
qed

lemma mb_recv_loop_cases:
  assumes call: "caller c t s" and inv: "mb_inv i s" and mb: "mailboxes s i = Some mb"
    and el: "eligible c s u" and tm: "timeout = 0 \<or> wait_time timeout"
  shows "if mb_entry mb \<noteq> 0
     then \<exists>s'. mb_recv_loop c i timeout s = Some (Done RT_EOK, Some (mb_msg_pool mb ! unat (mb_out_offset mb)), s') \<and>
       wakes_first c (SenderQ (Mailbox i)) (upd_mb i (get_rec mb) s) s' \<and> mailboxes s' i = Some (get_rec mb)
     else if timeout = 0 then mb_recv_loop c i timeout s =
       Some (Done (- RT_ETIMEOUT), None, upd_thread t (\<lambda>th. th\<lparr>th_error := - RT_ETIMEOUT\<rparr>) (no_error t s))
     else \<exists>s'. mb_recv_loop c i timeout s = Some (Blocked, None, s') \<and>
       blocked c (SuspendQ (Mailbox i)) t (mb_flag mb) timeout (no_error t s) s'"
proof -
  note c = callerD [OF call] callerD [OF caller_error [OF call]]
  have I: "ipc_flag (mb_flag mb)" "mb_wf mb" using inv mb by (auto simp: mb_inv_def)
  show ?thesis
  proof (cases "mb_entry mb = 0")
    case False
    obtain s' where s': "mb_get c i s = Some (Done 0, Some (mb_msg_pool mb ! unat (mb_out_offset mb)), s')"
      "wakes_first c (SenderQ (Mailbox i)) (upd_mb i (get_rec mb) s) s'"
      "mailboxes s' i = Some (get_rec mb)" by (rule mb_get_ok [OF call mb I(2) False])
    then show ?thesis using False mb by (auto simp: mb_recv_loop_def)
  next
    case empty: True
    show ?thesis
    proof (cases "timeout = 0")
      case True
      then show ?thesis using empty mb c by (simp add: mb_recv_loop_def)
    next
      case False
      have el': "eligible c (no_error t s) u" using el by (simp add: eligible_error)
      obtain s' where "ipc_block c (SuspendQ (Mailbox i)) t (mb_flag mb) timeout (no_error t s) = Some s'"
        "blocked c (SuspendQ (Mailbox i)) t (mb_flag mb) timeout (no_error t s) s'"
        using caller_blocks [OF caller_error [OF call] el' _ I(1), of "SuspendQ (Mailbox i)" timeout] False tm by blast
      then show ?thesis using False empty mb c by (simp add: mb_recv_loop_def)
    qed
  qed
qed

subsection \<open>First in, first out\<close>

datatype mb_event = Sent u64 | Received u64 | Nothing

fun mb_spec :: "mb_event \<Rightarrow> nat \<times> u64 list \<Rightarrow> (nat \<times> u64 list) option" where
  "mb_spec (Sent v) (n, q) = (if length q < n then Some (n, q @ [v]) else None)"
| "mb_spec (Received v) (n, x # q) = (if x = v then Some (n, q) else None)"
| "mb_spec (Received v) (n, []) = None"
| "mb_spec Nothing a = Some a"

definition send_event :: "u64 \<Rightarrow> outcome \<Rightarrow> mb_event" where
  "send_event v out = (if out = Done RT_EOK then Sent v else Nothing)"

definition recv_event :: "u64 option \<Rightarrow> mb_event" where
  "recv_event rec = (case rec of Some v \<Rightarrow> Received v | None \<Rightarrow> Nothing)"

text \<open>
  Calls by running threads, threads that go on after having waited, and steps of the rest of the
  kernel, which leave the mailbox alone.
\<close>

inductive mb_step :: "nat \<Rightarrow> kernel \<Rightarrow> mb_event \<Rightarrow> kernel \<Rightarrow> bool" for i where
  send: "caller c t s \<Longrightarrow> eligible c s u \<Longrightarrow> timeout = 0 \<or> wait_time timeout \<Longrightarrow>
     rt_mb_send_wait c i v timeout s = Some (out, s') \<Longrightarrow> mb_step i s (send_event v out) s'"
| send_resume: "caller c t s \<Longrightarrow> eligible c s u \<Longrightarrow>
     remaining timeout tick (rt_tick_get s) = 0 \<or> wait_time (remaining timeout tick (rt_tick_get s)) \<Longrightarrow>
     rt_mb_send_wait_resume c i v timeout tick s = Some (out, s') \<Longrightarrow> mb_step i s (send_event v out) s'"
| recv: "caller c t s \<Longrightarrow> eligible c s u \<Longrightarrow> timeout = 0 \<or> wait_time timeout \<Longrightarrow>
     rt_mb_recv c i timeout s = Some (out, rec, s') \<Longrightarrow> mb_step i s (recv_event rec) s'"
| recv_resume: "caller c t s \<Longrightarrow> eligible c s u \<Longrightarrow>
     remaining timeout tick (rt_tick_get s) = 0 \<or> wait_time (remaining timeout tick (rt_tick_get s)) \<Longrightarrow>
     rt_mb_recv_resume c i timeout tick s = Some (out, rec, s') \<Longrightarrow> mb_step i s (recv_event rec) s'"
| environment: "mailboxes s' i = mailboxes s i \<Longrightarrow> mb_step i s Nothing s'"

definition mb_simulates :: "nat \<Rightarrow> kernel \<Rightarrow> mb_event \<Rightarrow> kernel \<Rightarrow> bool" where
  "mb_simulates i s e s' \<longleftrightarrow> mb_inv i s' \<and> mb_spec e (mb_abs i s) = Some (mb_abs i s')"

lemma mb_unchanged: "mb_inv i s \<Longrightarrow> mailboxes s' i = mailboxes s i \<Longrightarrow> mb_simulates i s Nothing s'"
  by (simp add: mb_simulates_def mb_inv_def mb_abs_def)

lemma mb_no_effect:
  "mb_inv i s \<Longrightarrow> out \<noteq> Done 0 \<Longrightarrow> mb_simulates i s (send_event v out) s" "mb_inv i s \<Longrightarrow> mb_simulates i s (recv_event None) s"
  by (simp_all add: send_event_def recv_event_def mb_unchanged)

lemma blocked_mailboxes: "blocked c q t flag time (no_error t s) s' \<Longrightarrow> mailboxes s' = mailboxes s"
  using ipcsD(4) [of s' "no_error t s"] by (simp add: blocked_def)

lemma mb_send_loop_step:
  assumes call: "caller c t s" and inv: "mb_inv i s" and el: "eligible c s u" and tm: "timeout = 0 \<or> wait_time timeout"
    and r: "mb_send_loop c i v timeout s = Some (out, s')"
  shows "mb_simulates i s (send_event v out) s'"
proof -
  obtain mb where mb: "mailboxes s i = Some mb" "ipc_flag (mb_flag mb)" "mb_wf mb" using inv by (auto simp: mb_inv_def)
  note cases = mb_send_loop_cases [OF call inv mb(1) el tm, of v]
  show ?thesis
  proof (cases "mb_entry mb = mb_size mb")
    case False
    then have s': "out = Done 0" "mailboxes s' i = Some (put_rec v mb)" using cases r by auto
    note P = mb_wf_put(2,3) [OF mb(3) False refl, of v, folded put_rec_def]
    have "unat (mb_entry mb) < unat (mb_size mb)"
      using mb(3) False by (simp add: mb_wf_def word_le_nat_alt word_unat_eq_iff)
    then show ?thesis using s' mb P
      by (simp add: mb_simulates_def mb_inv_def mb_abs_def send_event_def) (simp add: mb_msgs_def)
  next
    case True
    have "out \<noteq> Done 0 \<and> mailboxes s' = mailboxes s"
    proof (cases "timeout = 0")
      case T: True
      then show ?thesis using cases True r by auto
    next
      case False
      then obtain b where "mb_send_loop c i v timeout s = Some (Blocked, b)"
        "blocked c (SenderQ (Mailbox i)) t (mb_flag mb) timeout (no_error t s) b" using cases True by auto
      then show ?thesis using r blocked_mailboxes by simp
    qed
    then show ?thesis using inv by (simp add: send_event_def mb_unchanged)
  qed
qed

lemma mb_recv_loop_step:
  assumes call: "caller c t s" and inv: "mb_inv i s" and el: "eligible c s u" and tm: "timeout = 0 \<or> wait_time timeout"
    and r: "mb_recv_loop c i timeout s = Some (out, rec, s')"
  shows "mb_simulates i s (recv_event rec) s'"
proof -
  obtain mb where mb: "mailboxes s i = Some mb" "ipc_flag (mb_flag mb)" "mb_wf mb" using inv by (auto simp: mb_inv_def)
  note cases = mb_recv_loop_cases [OF call inv mb(1) el tm]
  show ?thesis
  proof (cases "mb_entry mb = 0")
    case False
    then have s': "rec = Some (mb_msg_pool mb ! unat (mb_out_offset mb))" "mailboxes s' i = Some (get_rec mb)"
      using cases r by auto
    note P = mb_wf_get [OF mb(3) False refl, folded get_rec_def]
    show ?thesis using s' mb P by (simp add: mb_simulates_def mb_inv_def mb_abs_def recv_event_def)
  next
    case True
    have "rec = None \<and> mailboxes s' = mailboxes s"
    proof (cases "timeout = 0")
      case T: True
      then show ?thesis using cases True r by auto
    next
      case False
      then obtain b where "mb_recv_loop c i timeout s = Some (Blocked, None, b)"
        "blocked c (SuspendQ (Mailbox i)) t (mb_flag mb) timeout (no_error t s) b" using cases True by auto
      then show ?thesis using r blocked_mailboxes by simp
    qed
    then show ?thesis using inv by (simp add: recv_event_def mb_unchanged)
  qed
qed

lemma mb_ops_loop:
  "rt_mb_send_wait c i v timeout s = Some (out, s') \<Longrightarrow>
     out \<noteq> Done 0 \<and> s' = s \<or> mb_send_loop c i v timeout s = Some (out, s')"
  "rt_mb_send_wait_resume c i v timeout tick s = Some (out, s') \<Longrightarrow>
     out \<noteq> Done 0 \<and> s' = s \<or> mb_send_loop c i v (remaining timeout tick (rt_tick_get s)) s = Some (out, s')"
  "rt_mb_recv c i timeout s = Some (out, rec, s') \<Longrightarrow>
     rec = None \<and> s' = s \<or> mb_recv_loop c i timeout s = Some (out, rec, s')"
  "rt_mb_recv_resume c i timeout tick s = Some (out, rec, s') \<Longrightarrow>
     rec = None \<and> s' = s \<or> mb_recv_loop c i (remaining timeout tick (rt_tick_get s)) s = Some (out, rec, s')"
  by (auto simp: rt_mb_send_wait_def rt_mb_send_wait_resume_def rt_mb_recv_def rt_mb_recv_resume_def
      split: Option.bind_splits if_splits)

lemma mb_step_simulates:
  assumes "mb_inv i s" "mb_step i s e s'"
  shows "mb_simulates i s e s'"
  using assms(2)
proof cases
  case (send c t u timeout v out)
  from mb_ops_loop(1) [OF send(5)] show ?thesis unfolding send(1)
    using mb_send_loop_step [OF send(2) assms(1) send(3,4)] mb_no_effect [OF assms(1)] by blast
next
  case (send_resume c t u timeout tick v out)
  from mb_ops_loop(2) [OF send_resume(5)] show ?thesis unfolding send_resume(1)
    using mb_send_loop_step [OF send_resume(2) assms(1) send_resume(3,4)] mb_no_effect [OF assms(1)] by blast
next
  case (recv c t u timeout out rec)
  from mb_ops_loop(3) [OF recv(5)] show ?thesis unfolding recv(1)
    using mb_recv_loop_step [OF recv(2) assms(1) recv(3,4)] mb_no_effect [OF assms(1)] by blast
next
  case (recv_resume c t u timeout tick out rec)
  from mb_ops_loop(4) [OF recv_resume(5)] show ?thesis unfolding recv_resume(1)
    using mb_recv_loop_step [OF recv_resume(2) assms(1) recv_resume(3,4)] mb_no_effect [OF assms(1)] by blast
next
  case environment
  then show ?thesis using assms(1) by (simp add: mb_unchanged)
qed

interpretation mailbox: implements "mb_step i" "mb_inv i" "mb_abs i" mb_spec for i
  by unfold_locales (auto dest: mb_step_simulates simp: mb_simulates_def)

fun sent :: "mb_event list \<Rightarrow> u64 list" where
  "sent [] = []"
| "sent (Sent v # es) = v # sent es"
| "sent (_ # es) = sent es"

fun received :: "mb_event list \<Rightarrow> u64 list" where
  "received [] = []"
| "received (Received v # es) = v # received es"
| "received (_ # es) = received es"

lemma mb_spec_run_fifo:
  "spec_run mb_spec es (n, q) = Some (n', q') \<Longrightarrow>
   n' = n \<and> received es @ q' = q @ sent es \<and> (length q \<le> n \<longrightarrow> length q' \<le> n)"
proof (induction es arbitrary: q)
  case (Cons e es)
  then obtain a where a: "mb_spec e (n, q) = Some a" "spec_run mb_spec es a = Some (n', q')" by (auto split: Option.bind_splits)
  then obtain m x where ax: "a = (m, x)" by (cases a)
  then show ?case
  proof (cases e)
    case (Received v)
    then show ?thesis using a ax Cons.IH [of x] by (cases q) (auto split: if_splits)
  qed (use a ax Cons.IH [of x] in \<open>auto split: if_splits\<close>)
qed simp

text \<open>
  \<^bold>\<open>C3\<close>: A mailbox delivers messages first in, first out, without loss or duplication. Over every run of sends and
  receives, blocking or not, including the second and later attempts of threads that had to wait, on either hart
  and interleaved with arbitrary other steps of the kernel, the messages received followed by those still in the
  mailbox are the messages that were in it followed by those sent with success; and the mailbox never holds more than
  its size.
\<close>

theorem mailbox_fifo:
  assumes "run (mb_step i) s es s'" "mb_inv i s" "mailboxes s i = Some mb"
  shows "\<exists>mb'. mailboxes s' i = Some mb' \<and> received es @ mb_msgs mb' = mb_msgs mb @ sent es \<and>
     mb_size mb' = mb_size mb \<and> length (mb_msgs mb') \<le> unat (mb_size mb)"
proof -
  have sp: "spec_run mb_spec es (mb_abs i s) = Some (mb_abs i s')" by (rule mailbox.run_refines [OF assms(1,2)])
  obtain mb' where mb': "mailboxes s' i = Some mb'" "mb_wf mb'"
    using mailbox.run_inv [OF assms(1,2)] by (auto simp: mb_inv_def)
  have "mb_wf mb" using assms(2,3) by (simp add: mb_inv_def)
  then have "length (mb_msgs mb) \<le> unat (mb_size mb)" by (simp add: mb_wf_def mb_msgs_def word_le_nat_alt)
  then show ?thesis using mb_spec_run_fifo [of es "unat (mb_size mb)" "mb_msgs mb"] sp mb' assms(3)
    by (auto simp: mb_abs_def word_unat_eq_iff)
qed

definition ex_mb :: "u16 \<Rightarrow> kernel \<Rightarrow> kernel" where
  "ex_mb e s = s\<lparr>mailboxes := [7 \<mapsto> \<lparr>mb_static = True, mb_flag = 0, mb_msg_pool = [5, 6], mb_size = 2,
     mb_entry = e, mb_in_offset = (1 + e) mod 2, mb_out_offset = 1\<rparr>]\<rparr>"

lemma ex_mb_ok:
  assumes "caller 0 1 s" "eligible 0 s 3"
  shows "caller 0 1 (ex_mb e s)" "eligible 0 (ex_mb e s) 3" "e \<in> {0, 1, 2} \<Longrightarrow> mb_inv 7 (ex_mb e s)"
    "mailboxes (ex_mb e s) 7 = Some \<lparr>mb_static = True, mb_flag = 0, mb_msg_pool = [5, 6], mb_size = 2,
     mb_entry = e, mb_in_offset = (1 + e) mod 2, mb_out_offset = 1\<rparr>"
  using assms by (auto simp: ex_mb_def mb_inv_def mb_wf_def)

theorem mailbox_fifo_witness:
  "\<exists>s' mb'. run (mb_step 7) (ex_mb 1 ex_kernel) [Sent 8, Received 6] s' \<and> mailboxes s' 7 = Some mb' \<and> mb_msgs mb' = [8]"
proof -
  let ?s = "ex_mb 1 ex_kernel"
  note k = ex_mb_ok [OF ex_kernel_caller]
  have q: "tq ex_kernel (SuspendQ (Mailbox 7)) = []" "tq ex_kernel (SenderQ (Mailbox 7)) = []" by (simp_all add: ex_kernel_def)
  let ?m1 = "\<lparr>mb_static = True, mb_flag = 0, mb_msg_pool = [8, 6], mb_size = 2, mb_entry = 2, mb_in_offset = 1, mb_out_offset = 1\<rparr>"
  let ?s1 = "ex_kernel\<lparr>mailboxes := [7 \<mapsto> ?m1]\<rparr>"
  let ?s2 = "ex_kernel\<lparr>mailboxes := [7 \<mapsto> ?m1\<lparr>mb_out_offset := 0, mb_entry := 1\<rparr>]\<rparr>"
  have "rt_mb_send_wait 0 7 8 0 ?s = Some (Done 0, ?s1)"
    by (simp add: rt_mb_send_wait_def mb_send_loop_def mb_put_def wake_first_def next_index_def ex_mb_def q word_le_nat_alt)
  then have 1: "mb_step 7 ?s (Sent 8) ?s1"
    using mb_step.send [OF k(1,2) disjI1 [OF refl], of 7 8 1 "Done 0" ?s1] by (simp add: send_event_def)
  have "rt_mb_recv 0 7 0 ?s1 = Some (Done 0, Some 6, ?s2)"
    by (simp add: rt_mb_recv_def mb_recv_loop_def mb_get_def wake_first_def next_index_def q word_le_nat_alt)
  moreover have "caller 0 1 ?s1" "eligible 0 ?s1 3" using ex_kernel_caller by simp_all
  ultimately have 2: "mb_step 7 ?s1 (Received 6) ?s2"
    using mb_step.recv [of 0 1 ?s1 3 0 7 "Done 0" "Some 6" ?s2] by (simp add: recv_event_def)
  have r: "run (mb_step 7) ?s [Sent 8, Received 6] ?s2" using 1 2 by auto
  have inv: "mb_inv 7 ?s" by (rule k(3)) simp
  from mailbox_fifo [OF r inv k(4)] r show ?thesis by (auto simp: mb_msgs_def circ_def)
qed

subsection \<open>Outcomes of single calls\<close>

text \<open>
  \<^verbatim>\<open>rt_mb_send_wait\<close>: with room in the mailbox the message is appended, the call succeeds, and the first waiting
  receiver, if any, is woken; a full mailbox gives \<^verbatim>\<open>-RT_EFULL\<close> without any change if no waiting time is given, and
  otherwise the sender is suspended in the senders' list for that time. The kernel invariant holds in every case.
\<close>

theorem rt_mb_send_wait_outcome:
  assumes "caller c t s" "mb_inv i s" "mailboxes s i = Some mb" "eligible c s u" "timeout = 0 \<or> wait_time timeout"
  shows "if length (mb_msgs mb) < unat (mb_size mb)
     then \<exists>s' mb'. rt_mb_send_wait c i v timeout s = Some (Done RT_EOK, s') \<and> kernel_ok s' \<and>
       mailboxes s' i = Some mb' \<and> mb_msgs mb' = mb_msgs mb @ [v] \<and>
       (\<forall>w ws. tq s (SuspendQ (Mailbox i)) = w # ws \<longrightarrow>
          stat_of (threads s' w) \<noteq> RT_THREAD_SUSPEND \<and> tq s' (SuspendQ (Mailbox i)) = ws)
     else if timeout = 0 then rt_mb_send_wait c i v timeout s = Some (Done (- RT_EFULL), s)
     else \<exists>s'. rt_mb_send_wait c i v timeout s = Some (Blocked, s') \<and> mailboxes s' = mailboxes s \<and>
       blocked c (SenderQ (Mailbox i)) t (mb_flag mb) timeout (no_error t s) s'"
proof -
  have wf: "mb_wf mb" using assms(2,3) by (simp add: mb_inv_def)
  have full: "length (mb_msgs mb) < unat (mb_size mb) \<longleftrightarrow> mb_entry mb \<noteq> mb_size mb"
    using wf by (auto simp: mb_msgs_def mb_wf_def word_le_nat_alt word_unat_eq_iff)
  note cases = mb_send_loop_cases [OF assms, of v]
  show ?thesis
  proof (cases "mb_entry mb = mb_size mb")
    case False
    then obtain s' where s': "mb_send_loop c i v timeout s = Some (Done 0, s')"
      "wakes_first c (SuspendQ (Mailbox i)) (upd_mb i (put_rec v mb) s) s'" "mailboxes s' i = Some (put_rec v mb)"
      using cases by auto
    have "rt_mb_send_wait c i v timeout s = Some (Done 0, s')" using s'(1) False assms(3) by (simp add: rt_mb_send_wait_def)
    moreover have "kernel_ok s'" using wakes_first_ok [OF s'(2)] callerD(1) [OF assms(1)] by simp
    moreover have "mb_msgs (put_rec v mb) = mb_msgs mb @ [v]"
      by (rule mb_wf_put(3) [OF wf False put_rec_def])
    moreover have "\<forall>w ws. tq s (SuspendQ (Mailbox i)) = w # ws \<longrightarrow>
        stat_of (threads s' w) \<noteq> 2 \<and> tq s' (SuspendQ (Mailbox i)) = ws"
      using s'(2) by (auto simp: wakes_first_def woken_def)
    ultimately show ?thesis using full False s'(3) by auto
  next
    case True
    show ?thesis
    proof (cases "timeout = 0")
      case T: True
      then show ?thesis using True full assms(3) by (simp add: rt_mb_send_wait_def)
    next
      case False
      then obtain s' where s': "mb_send_loop c i v timeout s = Some (Blocked, s')"
        "blocked c (SenderQ (Mailbox i)) t (mb_flag mb) timeout (no_error t s) s'" using cases True by auto
      have "rt_mb_send_wait c i v timeout s = Some (Blocked, s')" using s'(1) False assms(3) by (simp add: rt_mb_send_wait_def)
      then show ?thesis using True False full s'(2) blocked_mailboxes [OF s'(2)] by simp
    qed
  qed
qed

theorem rt_mb_send_wait_outcome_witness:
  "\<exists>s' mb'. rt_mb_send_wait 0 7 9 0 (ex_mb 0 (ex_waiting (SuspendQ (Mailbox 7)))) = Some (Done RT_EOK, s') \<and>
     mailboxes s' 7 = Some mb' \<and> mb_msgs mb' = [9] \<and> stat_of (threads s' 4) \<noteq> RT_THREAD_SUSPEND"
proof -
  let ?w = "ex_waiting (SuspendQ (Mailbox 7))"
  have "caller 0 1 ?w" "eligible 0 ?w 3" using ex_waiting_ok by blast+
  note k = ex_mb_ok [OF this]
  have inv: "mb_inv 7 (ex_mb 0 ?w)" by (rule k(3)) simp
  have "tq (ex_mb 0 ?w) (SuspendQ (Mailbox 7)) = [4]" by (simp add: ex_mb_def ex_waiting_def)
  then show ?thesis
    using rt_mb_send_wait_outcome [OF k(1) inv k(4) k(2) disjI1 [OF refl], of 9] by (auto simp: mb_msgs_def)
qed

text \<open>
  The waiting time that is left to a thread woken before its timeout: a limited time becomes the time minus the
  ticks that have passed, and zero if more have passed, for up to half the range of ticks and across a wrap-around of
  the tick counter; waiting forever stays so. So the total waiting time of a send or receive never exceeds the one
  asked for.
\<close>

theorem remaining_time:
  assumes "unat (now - tick_delta) < 2 ^ 31"
  shows "sint (remaining timeout tick_delta now) =
     (if sint timeout > 0 then max 0 (sint timeout - int (unat (now - tick_delta))) else sint timeout)"
proof (cases "sint timeout > 0")
  case True
  let ?D = "now - tick_delta"
  have "unat ?D < 2147483648" using assms by simp
  then have "int (unat ?D) < 2147483648" by linarith
  then have d: "int (unat ?D) < 2 ^ 31" by simp
  have t: "sint timeout < 2 ^ 31" using sint_lt [of timeout] by simp
  have eq: "timeout - ?D = word_of_int (sint timeout - int (unat ?D))" by simp
  have "sint (timeout - ?D) = sint timeout - int (unat ?D)"
  proof -
    have "signed_take_bit 31 (sint timeout - int (unat ?D)) = sint timeout - int (unat ?D)"
      by (rule signed_take_bit_int_eq_self) (use True d t in linarith)+
    then show ?thesis unfolding eq signed_of_int by simp
  qed
  then show ?thesis using True by (simp add: remaining_def Let_def)
qed (simp add: remaining_def)

theorem remaining_time_witness:
  "sint (remaining 100 4294967290 20) = 74 \<and> sint (remaining 100 0 200) = 0 \<and> sint (remaining (-1) 0 200) = -1"
  using remaining_time [of 20 4294967290 100] remaining_time [of 200 0 100] remaining_time [of 200 0 "-1"] by simp

end
