(* ===== verification/Message_Queue.thy ===== *)
theory Message_Queue
  imports Mailbox
begin

text \<open>
  The message queue of \<^verbatim>\<open>src/ipc.c\<close>: messages of a fixed maximal size in the nodes of a pool. The
  nodes are in one of two singly linked lists, that of the queued messages and that of the
  free nodes; a pointer is the index of a node in the pool, at the address
  \<^verbatim>\<open>msg_pool + n * (msg_size + sizeof(struct rt_mq_message))\<close>.
\<close>

abbreviation (input) RT_MQ_ENTRY_MAX :: u16 where "RT_MQ_ENTRY_MAX \<equiv> 65535"

abbreviation upd_mq :: "nat \<Rightarrow> rt_messagequeue \<Rightarrow> kernel \<Rightarrow> kernel" where
  "upd_mq i mq s \<equiv> s\<lparr>mqueues := (mqueues s)(i \<mapsto> mq)\<rparr>"

definition mq_node :: "rt_messagequeue \<Rightarrow> nat \<Rightarrow> rt_mq_message option" where
  "mq_node mq n = (if n < length (mq_msg_pool mq) then Some (mq_msg_pool mq ! n) else None)"

definition set_node :: "nat \<Rightarrow> rt_mq_message \<Rightarrow> rt_messagequeue \<Rightarrow> rt_messagequeue" where
  "set_node n node mq = mq\<lparr>mq_msg_pool := (mq_msg_pool mq)[n := node]\<rparr>"

text \<open>The loop that links all nodes of the pool into the free list.\<close>

fun mq_free_loop :: "nat \<Rightarrow> nat \<Rightarrow> rt_messagequeue \<Rightarrow> rt_messagequeue option" where
  "mq_free_loop temp 0 mq = Some mq"
| "mq_free_loop temp (Suc k) mq =
     do { head \<leftarrow> mq_node mq temp;
          mq_free_loop (temp + 1) k
            (set_node temp (head\<lparr>msg_next := mq_queue_free mq\<rparr>) mq\<lparr>mq_queue_free := Some temp\<rparr>) }"

text \<open>
  The memory handed to \<^verbatim>\<open>rt_mq_init\<close> is given as the nodes it is divided into, with arbitrary
  contents; \<open>psize\<close> is its size in bytes.
\<close>

definition rt_mq_init :: "nat \<Rightarrow> rt_mq_message list \<Rightarrow> u64 \<Rightarrow> u64 \<Rightarrow> u8 \<Rightarrow> kernel \<Rightarrow> (rt_err_t \<times> kernel) option" where
  "rt_mq_init i msgpool msize psize flag s =
     do { let msg_size = ucast (RT_ALIGN msize 8);
          let max_msgs = ucast (psize div (ucast (msg_size :: u16) + 8));
          mq \<leftarrow> mq_free_loop 0 (unat (max_msgs :: u16))
                 \<lparr>mq_static = True, mq_flag = flag, mq_msg_pool = msgpool, mq_msg_size = msg_size, mq_max_msgs = max_msgs,
                  mq_entry = 0, mq_queue_head = None, mq_queue_tail = None, mq_queue_free = None\<rparr>;
          Some (RT_EOK, s\<lparr>mqueues := (mqueues s)(i \<mapsto> mq),
                         tq := (tq s)(SuspendQ (Mqueue i) := [], SenderQ (Mqueue i) := [])\<rparr>) }"

definition rt_mq_detach :: "nat \<Rightarrow> nat \<Rightarrow> kernel \<Rightarrow> (rt_err_t \<times> kernel) option" where
  "rt_mq_detach c i s =
     do { mq \<leftarrow> mqueues s i;
          RT_ASSERT (mq_static mq);
          s1 \<leftarrow> rt_ipc_list_resume_all c (SuspendQ (Mqueue i)) s;
          s2 \<leftarrow> rt_ipc_list_resume_all c (SenderQ (Mqueue i)) s1;
          Some (RT_EOK, s2\<lparr>mqueues := (mqueues s2)(i := None)\<rparr>) }"

definition rt_mq_create :: "nat \<Rightarrow> nat option \<Rightarrow> rt_mq_message list option \<Rightarrow> u64 \<Rightarrow> u64 \<Rightarrow> u8 \<Rightarrow> kernel \<Rightarrow> (nat option \<times> kernel) option" where
  "rt_mq_create c obj pool msize max_msgs flag s =
     do { RT_DEBUG_NOT_IN_INTERRUPT c s;
          case obj of
            None \<Rightarrow> Some (None, s)
          | Some i \<Rightarrow>
              (case pool of
                 None \<Rightarrow> Some (None, s)
               | Some mem \<Rightarrow>
                   do { mq \<leftarrow> mq_free_loop 0 (unat (ucast max_msgs :: u16))
                          \<lparr>mq_static = False, mq_flag = flag, mq_msg_pool = mem, mq_msg_size = ucast (RT_ALIGN msize 8),
                           mq_max_msgs = ucast max_msgs, mq_entry = 0, mq_queue_head = None, mq_queue_tail = None,
                           mq_queue_free = None\<rparr>;
                        Some (Some i, s\<lparr>mqueues := (mqueues s)(i \<mapsto> mq),
                                       tq := (tq s)(SuspendQ (Mqueue i) := [], SenderQ (Mqueue i) := [])\<rparr>) }) }"

definition rt_mq_delete :: "nat \<Rightarrow> nat \<Rightarrow> kernel \<Rightarrow> (rt_err_t \<times> kernel) option" where
  "rt_mq_delete c i s =
     do { RT_DEBUG_NOT_IN_INTERRUPT c s;
          mq \<leftarrow> mqueues s i;
          RT_ASSERT (\<not> mq_static mq);
          s1 \<leftarrow> rt_ipc_list_resume_all c (SuspendQ (Mqueue i)) s;
          s2 \<leftarrow> rt_ipc_list_resume_all c (SenderQ (Mqueue i)) s1;
          Some (RT_EOK, s2\<lparr>mqueues := (mqueues s2)(i := None)\<rparr>) }"

subsection \<open>Sending\<close>

text \<open>
  A send has two critical sections. In the first a node is taken from the free list; then, with interrupts
  enabled and the node in no list, the message is copied into it; in the second the node is linked to the queue,
  for an urgent message at its head.
\<close>

definition mq_take :: "nat \<Rightarrow> rt_messagequeue \<Rightarrow> rt_messagequeue option" where
  "mq_take n mq = do { msg \<leftarrow> mq_node mq n; Some (mq\<lparr>mq_queue_free := msg_next msg\<rparr>) }"

definition mq_fill :: "nat \<Rightarrow> u8 list \<Rightarrow> rt_messagequeue \<Rightarrow> rt_messagequeue option" where
  "mq_fill n buffer mq =
     do { msg \<leftarrow> mq_node mq n;
          data \<leftarrow> memcpy_to (msg_data msg) 0 buffer (int (length buffer));
          Some (set_node n \<lparr>msg_next = None, msg_data = data\<rparr> mq) }"

definition mq_link :: "nat \<Rightarrow> rt_messagequeue \<Rightarrow> (rt_err_t \<times> rt_messagequeue) option" where
  "mq_link n mq =
     do { mq1 \<leftarrow> (case mq_queue_tail mq of
                     None \<Rightarrow> Some mq
                   | Some t \<Rightarrow> do { tl \<leftarrow> mq_node mq t; Some (set_node t (tl\<lparr>msg_next := Some n\<rparr>) mq) });
          let mq2 = mq1\<lparr>mq_queue_tail := Some n,
                        mq_queue_head := (if mq_queue_head mq1 = None then Some n else mq_queue_head mq1)\<rparr>;
          Some (if mq_entry mq2 < RT_MQ_ENTRY_MAX then (RT_EOK, mq2\<lparr>mq_entry := mq_entry mq2 + 1\<rparr>)
                else (- RT_EFULL, mq2)) }"

definition mq_fill_urgent :: "nat \<Rightarrow> u8 list \<Rightarrow> rt_messagequeue \<Rightarrow> rt_messagequeue option" where
  "mq_fill_urgent n buffer mq =
     do { msg \<leftarrow> mq_node mq n;
          data \<leftarrow> memcpy_to (msg_data msg) 0 buffer (int (length buffer));
          Some (set_node n (msg\<lparr>msg_data := data\<rparr>) mq) }"

definition mq_link_urgent :: "nat \<Rightarrow> rt_messagequeue \<Rightarrow> (rt_err_t \<times> rt_messagequeue) option" where
  "mq_link_urgent n mq =
     do { msg \<leftarrow> mq_node mq n;
          let mq1 = set_node n (msg\<lparr>msg_next := mq_queue_head mq\<rparr>) mq;
          let mq2 = mq1\<lparr>mq_queue_head := Some n,
                        mq_queue_tail := (if mq_queue_tail mq1 = None then Some n else mq_queue_tail mq1)\<rparr>;
          Some (if mq_entry mq2 < RT_MQ_ENTRY_MAX then (RT_EOK, mq2\<lparr>mq_entry := mq_entry mq2 + 1\<rparr>)
                else (- RT_EFULL, mq2)) }"

definition mq_finish_send :: "nat \<Rightarrow> nat \<Rightarrow> rt_err_t \<times> rt_messagequeue \<Rightarrow> kernel \<Rightarrow> (outcome \<times> kernel) option" where
  "mq_finish_send c i r s =
     (if fst r = RT_EOK
      then do { s1 \<leftarrow> wake_first c (SuspendQ (Mqueue i)) (upd_mq i (snd r) s); Some (Done RT_EOK, s1) }
      else Some (Done (fst r), upd_mq i (snd r) s))"

text \<open>
  The first critical section: it ends with the result of the call or with the node that was taken. The copy. The
  second critical section, with the result of the call.
\<close>

definition mq_send_begin :: "nat \<Rightarrow> nat \<Rightarrow> rt_int32_t \<Rightarrow> kernel \<Rightarrow> ((outcome + nat) \<times> kernel) option" where
  "mq_send_begin c i timeout s =
     do { mq \<leftarrow> mqueues s i;
          case mq_queue_free mq of
            None \<Rightarrow>
              do { t \<leftarrow> rt_thread_self c s;
                   let s1 = no_error t s;
                   if timeout = 0 then Some (Inl (Done (- RT_EFULL)), s1)
                   else do {
                     RT_DEBUG_IN_THREAD_CONTEXT c s1;
                     s2 \<leftarrow> ipc_block c (SenderQ (Mqueue i)) t (mq_flag mq) timeout s1;
                     Some (Inl Blocked, s2) } }
          | Some n \<Rightarrow> do { mq1 \<leftarrow> mq_take n mq; Some (Inr n, upd_mq i mq1 s) } }"

definition mq_send_copy :: "bool \<Rightarrow> nat \<Rightarrow> nat \<Rightarrow> u8 list \<Rightarrow> kernel \<Rightarrow> kernel option" where
  "mq_send_copy urgent i n buffer s =
     do { mq \<leftarrow> mqueues s i;
          mq1 \<leftarrow> (if urgent then mq_fill_urgent n buffer mq else mq_fill n buffer mq);
          Some (upd_mq i mq1 s) }"

definition mq_send_link :: "bool \<Rightarrow> nat \<Rightarrow> nat \<Rightarrow> nat \<Rightarrow> kernel \<Rightarrow> (outcome \<times> kernel) option" where
  "mq_send_link urgent c i n s =
     do { mq \<leftarrow> mqueues s i;
          r \<leftarrow> (if urgent then mq_link_urgent n mq else mq_link n mq);
          mq_finish_send c i r s }"

definition mq_send_rest :: "bool \<Rightarrow> nat \<Rightarrow> nat \<Rightarrow> u8 list \<Rightarrow> ((outcome + nat) \<times> kernel) option \<Rightarrow> (outcome \<times> kernel) option" where
  "mq_send_rest urgent c i buffer res =
     do { (x, s) \<leftarrow> res;
          case x of
            Inl out \<Rightarrow> Some (out, s)
          | Inr n \<Rightarrow> do { s1 \<leftarrow> mq_send_copy urgent i n buffer s; mq_send_link urgent c i n s1 } }"

text \<open>The calls from their beginning, or from the point where the caller had to wait.\<close>

definition mq_send_enter :: "nat \<Rightarrow> nat \<Rightarrow> u8 list \<Rightarrow> rt_int32_t \<Rightarrow> kernel \<Rightarrow> ((outcome + nat) \<times> kernel) option" where
  "mq_send_enter c i buffer timeout s =
     do { mq \<leftarrow> mqueues s i;
          RT_ASSERT (buffer \<noteq> []);
          if length buffer > unat (mq_msg_size mq) then Some (Inl (Done (- RT_ERROR)), s)
          else if mq_queue_free mq = None \<and> timeout = 0 then Some (Inl (Done (- RT_EFULL)), s)
          else mq_send_begin c i timeout s }"

definition mq_send_retry :: "nat \<Rightarrow> nat \<Rightarrow> rt_int32_t \<Rightarrow> rt_tick_t \<Rightarrow> kernel \<Rightarrow> ((outcome + nat) \<times> kernel) option" where
  "mq_send_retry c i timeout tick_delta s =
     do { t \<leftarrow> rt_thread_self c s;
          if th_error (threads s t) \<noteq> RT_EOK then Some (Inl (Done (th_error (threads s t))), s)
          else mq_send_begin c i (remaining timeout tick_delta (rt_tick_get s)) s }"

definition mq_urgent_enter :: "nat \<Rightarrow> u8 list \<Rightarrow> kernel \<Rightarrow> ((outcome + nat) \<times> kernel) option" where
  "mq_urgent_enter i buffer s =
     do { mq \<leftarrow> mqueues s i;
          RT_ASSERT (buffer \<noteq> []);
          if length buffer > unat (mq_msg_size mq) then Some (Inl (Done (- RT_ERROR)), s)
          else case mq_queue_free mq of
                 None \<Rightarrow> Some (Inl (Done (- RT_EFULL)), s)
               | Some n \<Rightarrow> do { mq1 \<leftarrow> mq_take n mq; Some (Inr n, upd_mq i mq1 s) } }"

definition rt_mq_send_wait :: "nat \<Rightarrow> nat \<Rightarrow> u8 list \<Rightarrow> rt_int32_t \<Rightarrow> kernel \<Rightarrow> (outcome \<times> kernel) option" where
  "rt_mq_send_wait c i buffer timeout s = mq_send_rest False c i buffer (mq_send_enter c i buffer timeout s)"

definition rt_mq_send_wait_resume :: "nat \<Rightarrow> nat \<Rightarrow> u8 list \<Rightarrow> rt_int32_t \<Rightarrow> rt_tick_t \<Rightarrow> kernel \<Rightarrow> (outcome \<times> kernel) option" where
  "rt_mq_send_wait_resume c i buffer timeout tick_delta s =
     mq_send_rest False c i buffer (mq_send_retry c i timeout tick_delta s)"

definition rt_mq_send :: "nat \<Rightarrow> nat \<Rightarrow> u8 list \<Rightarrow> kernel \<Rightarrow> (outcome \<times> kernel) option" where
  "rt_mq_send c i buffer s = rt_mq_send_wait c i buffer 0 s"

definition rt_mq_urgent :: "nat \<Rightarrow> nat \<Rightarrow> u8 list \<Rightarrow> kernel \<Rightarrow> (outcome \<times> kernel) option" where
  "rt_mq_urgent c i buffer s = mq_send_rest True c i buffer (mq_urgent_enter i buffer s)"

subsection \<open>Receiving\<close>

text \<open>
  A receive has two critical sections as well: the first message is unlinked, then copied to the receiver's buffer of
  \<open>bsize\<close> bytes with interrupts enabled, and its node is put on the free list.
\<close>

definition mq_unlink :: "rt_messagequeue \<Rightarrow> (nat \<times> rt_messagequeue) option" where
  "mq_unlink mq =
     do { n \<leftarrow> mq_queue_head mq;
          msg \<leftarrow> mq_node mq n;
          Some (n, mq\<lparr>mq_queue_head := msg_next msg,
                      mq_queue_tail := (if mq_queue_tail mq = Some n then None else mq_queue_tail mq),
                      mq_entry := mq_entry mq - 1\<rparr>) }"

definition mq_read :: "nat \<Rightarrow> nat \<Rightarrow> rt_messagequeue \<Rightarrow> u8 list option" where
  "mq_read n bsize mq =
     do { msg \<leftarrow> mq_node mq n;
          memread (msg_data msg) 0 (int (if bsize > unat (mq_msg_size mq) then unat (mq_msg_size mq) else bsize)) }"

definition mq_release :: "nat \<Rightarrow> rt_messagequeue \<Rightarrow> rt_messagequeue option" where
  "mq_release n mq =
     do { msg \<leftarrow> mq_node mq n;
          Some (set_node n (msg\<lparr>msg_next := mq_queue_free mq\<rparr>) mq\<lparr>mq_queue_free := Some n\<rparr>) }"

definition mq_recv_begin :: "nat \<Rightarrow> nat \<Rightarrow> rt_int32_t \<Rightarrow> kernel \<Rightarrow> ((outcome + nat) \<times> kernel) option" where
  "mq_recv_begin c i timeout s =
     do { mq \<leftarrow> mqueues s i;
          if mq_entry mq = 0
          then do {
            RT_DEBUG_IN_THREAD_CONTEXT c s;
            t \<leftarrow> rt_thread_self c s;
            let s1 = no_error t s;
            if timeout = 0
            then Some (Inl (Done (- RT_ETIMEOUT)), upd_thread t (\<lambda>th. th\<lparr>th_error := - RT_ETIMEOUT\<rparr>) s1)
            else do {
              s2 \<leftarrow> ipc_block c (SuspendQ (Mqueue i)) t (mq_flag mq) timeout s1;
              Some (Inl Blocked, s2) } }
          else do { (n, mq1) \<leftarrow> mq_unlink mq; Some (Inr n, upd_mq i mq1 s) } }"

definition mq_recv_copy :: "nat \<Rightarrow> nat \<Rightarrow> nat \<Rightarrow> kernel \<Rightarrow> u8 list option" where
  "mq_recv_copy i n bsize s = do { mq \<leftarrow> mqueues s i; mq_read n bsize mq }"

definition mq_recv_release :: "nat \<Rightarrow> nat \<Rightarrow> nat \<Rightarrow> kernel \<Rightarrow> kernel option" where
  "mq_recv_release c i n s =
     do { mq \<leftarrow> mqueues s i;
          mq1 \<leftarrow> mq_release n mq;
          wake_first c (SenderQ (Mqueue i)) (upd_mq i mq1 s) }"

definition mq_recv_rest :: "nat \<Rightarrow> nat \<Rightarrow> nat \<Rightarrow> ((outcome + nat) \<times> kernel) option \<Rightarrow> (outcome \<times> u8 list option \<times> kernel) option" where
  "mq_recv_rest c i bsize res =
     do { (x, s) \<leftarrow> res;
          case x of
            Inl out \<Rightarrow> Some (out, None, s)
          | Inr n \<Rightarrow> do { data \<leftarrow> mq_recv_copy i n bsize s; s1 \<leftarrow> mq_recv_release c i n s; Some (Done RT_EOK, Some data, s1) } }"

definition mq_recv_enter :: "nat \<Rightarrow> nat \<Rightarrow> nat \<Rightarrow> rt_int32_t \<Rightarrow> kernel \<Rightarrow> ((outcome + nat) \<times> kernel) option" where
  "mq_recv_enter c i bsize timeout s =
     do { mq \<leftarrow> mqueues s i;
          RT_ASSERT (bsize \<noteq> 0);
          if mq_entry mq = 0 \<and> timeout = 0 then Some (Inl (Done (- RT_ETIMEOUT)), s)
          else mq_recv_begin c i timeout s }"

definition mq_recv_retry :: "nat \<Rightarrow> nat \<Rightarrow> rt_int32_t \<Rightarrow> rt_tick_t \<Rightarrow> kernel \<Rightarrow> ((outcome + nat) \<times> kernel) option" where
  "mq_recv_retry c i timeout tick_delta s =
     do { t \<leftarrow> rt_thread_self c s;
          if th_error (threads s t) \<noteq> RT_EOK then Some (Inl (Done (th_error (threads s t))), s)
          else mq_recv_begin c i (remaining timeout tick_delta (rt_tick_get s)) s }"

definition rt_mq_recv :: "nat \<Rightarrow> nat \<Rightarrow> nat \<Rightarrow> rt_int32_t \<Rightarrow> kernel \<Rightarrow> (outcome \<times> u8 list option \<times> kernel) option" where
  "rt_mq_recv c i bsize timeout s = mq_recv_rest c i bsize (mq_recv_enter c i bsize timeout s)"

definition rt_mq_recv_resume :: "nat \<Rightarrow> nat \<Rightarrow> nat \<Rightarrow> rt_int32_t \<Rightarrow> rt_tick_t \<Rightarrow> kernel \<Rightarrow> (outcome \<times> u8 list option \<times> kernel) option" where
  "rt_mq_recv_resume c i bsize timeout tick_delta s = mq_recv_rest c i bsize (mq_recv_retry c i timeout tick_delta s)"

subsection \<open>Control\<close>

partial_function (option) mq_release_all :: "rt_messagequeue \<Rightarrow> rt_messagequeue option" where
  "mq_release_all mq =
     (case mq_queue_head mq of
        None \<Rightarrow> Some mq
      | Some n \<Rightarrow>
          Option.bind (mq_node mq n) (\<lambda>msg.
            mq_release_all (set_node n (msg\<lparr>msg_next := mq_queue_free mq\<rparr>) mq
              \<lparr>mq_queue_head := msg_next msg,
               mq_queue_tail := (if mq_queue_tail mq = Some n then None else mq_queue_tail mq),
               mq_queue_free := Some n\<rparr>)))"

definition rt_mq_control :: "nat \<Rightarrow> nat \<Rightarrow> ipc_cmd \<Rightarrow> kernel \<Rightarrow> (rt_err_t \<times> kernel) option" where
  "rt_mq_control c i cmd s =
     do { _ \<leftarrow> mqueues s i;
          case cmd of
            RT_IPC_CMD_RESET \<Rightarrow>
              do { s1 \<leftarrow> rt_ipc_list_resume_all c (SuspendQ (Mqueue i)) s;
                   s2 \<leftarrow> rt_ipc_list_resume_all c (SenderQ (Mqueue i)) s1;
                   mq \<leftarrow> mqueues s2 i;
                   mq1 \<leftarrow> mq_release_all mq;
                   s3 \<leftarrow> rt_schedule c (upd_mq i (mq1\<lparr>mq_entry := 0\<rparr>) s2);
                   Some (RT_EOK, s3) }
          | OTHER_IPC_CMD \<Rightarrow> Some (- RT_ERROR, s) }"

subsection \<open>Calls that are not interrupted\<close>

text \<open>
  Where nothing happens between the two critical sections of a call, their composition is one step on the queue, and a
  call is its loop body up to the point where the caller waits.
\<close>

definition mq_enqueue :: "nat \<Rightarrow> u8 list \<Rightarrow> rt_messagequeue \<Rightarrow> (rt_err_t \<times> rt_messagequeue) option" where
  "mq_enqueue n buffer mq = do { mq1 \<leftarrow> mq_take n mq; mq2 \<leftarrow> mq_fill n buffer mq1; mq_link n mq2 }"

definition mq_enqueue_urgent :: "nat \<Rightarrow> u8 list \<Rightarrow> rt_messagequeue \<Rightarrow> (rt_err_t \<times> rt_messagequeue) option" where
  "mq_enqueue_urgent n buffer mq = do { mq1 \<leftarrow> mq_take n mq; mq2 \<leftarrow> mq_fill_urgent n buffer mq1; mq_link_urgent n mq2 }"

definition mq_dequeue :: "nat \<Rightarrow> rt_messagequeue \<Rightarrow> (u8 list \<times> rt_messagequeue) option" where
  "mq_dequeue bsize mq =
     do { (n, mq1) \<leftarrow> mq_unlink mq; data \<leftarrow> mq_read n bsize mq1; mq2 \<leftarrow> mq_release n mq1; Some (data, mq2) }"

abbreviation mq_send_loop :: "nat \<Rightarrow> nat \<Rightarrow> u8 list \<Rightarrow> rt_int32_t \<Rightarrow> kernel \<Rightarrow> (outcome \<times> kernel) option" where
  "mq_send_loop c i buffer timeout s \<equiv> mq_send_rest False c i buffer (mq_send_begin c i timeout s)"

abbreviation mq_recv_loop :: "nat \<Rightarrow> nat \<Rightarrow> nat \<Rightarrow> rt_int32_t \<Rightarrow> kernel \<Rightarrow> (outcome \<times> u8 list option \<times> kernel) option" where
  "mq_recv_loop c i bsize timeout s \<equiv> mq_recv_rest c i bsize (mq_recv_begin c i timeout s)"

lemma upd_mq_twice: "mq_finish_send c i r (upd_mq i mq s) = mq_finish_send c i r s" "upd_mq i mq1 (upd_mq i mq2 s) = upd_mq i mq1 s"
  by (simp_all add: mq_finish_send_def)

lemma mq_send_loop_unfold:
  "mq_send_loop c i buffer timeout s =
     do { mq \<leftarrow> mqueues s i;
          case mq_queue_free mq of
            None \<Rightarrow>
              do { t \<leftarrow> rt_thread_self c s;
                   let s1 = no_error t s;
                   if timeout = 0 then Some (Done (- RT_EFULL), s1)
                   else do {
                     RT_DEBUG_IN_THREAD_CONTEXT c s1;
                     s2 \<leftarrow> ipc_block c (SenderQ (Mqueue i)) t (mq_flag mq) timeout s1;
                     Some (Blocked, s2) } }
          | Some n \<Rightarrow> do { r \<leftarrow> mq_enqueue n buffer mq; mq_finish_send c i r s } }"
  by (auto simp: mq_send_rest_def mq_send_begin_def mq_send_copy_def mq_send_link_def mq_enqueue_def upd_mq_twice Let_def
      split: Option.bind_splits option.splits)

lemma mq_recv_loop_unfold:
  "mq_recv_loop c i bsize timeout s =
     do { mq \<leftarrow> mqueues s i;
          if mq_entry mq = 0
          then do {
            RT_DEBUG_IN_THREAD_CONTEXT c s;
            t \<leftarrow> rt_thread_self c s;
            let s1 = no_error t s;
            if timeout = 0
            then Some (Done (- RT_ETIMEOUT), None, upd_thread t (\<lambda>th. th\<lparr>th_error := - RT_ETIMEOUT\<rparr>) s1)
            else do {
              s2 \<leftarrow> ipc_block c (SuspendQ (Mqueue i)) t (mq_flag mq) timeout s1;
              Some (Blocked, None, s2) } }
          else do {
            r \<leftarrow> mq_dequeue bsize mq;
            s1 \<leftarrow> wake_first c (SenderQ (Mqueue i)) (upd_mq i (snd r) s);
            Some (Done RT_EOK, Some (fst r), s1) } }"
  by (auto simp: mq_recv_rest_def mq_recv_begin_def mq_recv_copy_def mq_recv_release_def mq_dequeue_def upd_mq_twice Let_def
      split: Option.bind_splits option.splits)

lemma rt_mq_send_wait_unfold:
  "rt_mq_send_wait c i buffer timeout s =
     do { mq \<leftarrow> mqueues s i;
          RT_ASSERT (buffer \<noteq> []);
          if length buffer > unat (mq_msg_size mq) then Some (Done (- RT_ERROR), s)
          else if mq_queue_free mq = None \<and> timeout = 0 then Some (Done (- RT_EFULL), s)
          else mq_send_loop c i buffer timeout s }"
  by (auto simp: rt_mq_send_wait_def mq_send_enter_def mq_send_rest_def split: Option.bind_splits)

lemma rt_mq_urgent_unfold:
  "rt_mq_urgent c i buffer s =
     do { mq \<leftarrow> mqueues s i;
          RT_ASSERT (buffer \<noteq> []);
          if length buffer > unat (mq_msg_size mq) then Some (Done (- RT_ERROR), s)
          else case mq_queue_free mq of
                 None \<Rightarrow> Some (Done (- RT_EFULL), s)
               | Some n \<Rightarrow> do { r \<leftarrow> mq_enqueue_urgent n buffer mq; mq_finish_send c i r s } }"
  by (auto simp: rt_mq_urgent_def mq_urgent_enter_def mq_send_rest_def mq_send_copy_def mq_send_link_def mq_enqueue_urgent_def
      upd_mq_twice split: Option.bind_splits option.splits)

lemma rt_mq_recv_unfold:
  "rt_mq_recv c i bsize timeout s =
     do { mq \<leftarrow> mqueues s i;
          RT_ASSERT (bsize \<noteq> 0);
          if mq_entry mq = 0 \<and> timeout = 0 then Some (Done (- RT_ETIMEOUT), None, s)
          else mq_recv_loop c i bsize timeout s }"
  by (auto simp: rt_mq_recv_def mq_recv_enter_def mq_recv_rest_def split: Option.bind_splits)

lemma mq_resume_unfold:
  "rt_mq_send_wait_resume c i buffer timeout tick_delta s =
     do { t \<leftarrow> rt_thread_self c s;
          if th_error (threads s t) \<noteq> RT_EOK then Some (Done (th_error (threads s t)), s)
          else mq_send_loop c i buffer (remaining timeout tick_delta (rt_tick_get s)) s }"
  "rt_mq_recv_resume c i bsize timeout tick_delta s =
     do { t \<leftarrow> rt_thread_self c s;
          if th_error (threads s t) \<noteq> RT_EOK then Some (Done (th_error (threads s t)), None, s)
          else mq_recv_loop c i bsize (remaining timeout tick_delta (rt_tick_get s)) s }"
  by (auto simp: rt_mq_send_wait_resume_def mq_send_retry_def mq_send_rest_def
      rt_mq_recv_resume_def mq_recv_retry_def mq_recv_rest_def split: Option.bind_splits)

subsection \<open>The two lists\<close>

fun chain :: "rt_mq_message list \<Rightarrow> nat option \<Rightarrow> nat list \<Rightarrow> bool" where
  "chain pool p [] = (p = None)"
| "chain pool p (n # ns) = (p = Some n \<and> n < length pool \<and> chain pool (msg_next (pool ! n)) ns)"

fun walk :: "nat \<Rightarrow> rt_mq_message list \<Rightarrow> nat option \<Rightarrow> nat list" where
  "walk 0 pool p = []"
| "walk (Suc k) pool None = []"
| "walk (Suc k) pool (Some n) = n # walk k pool (msg_next (pool ! n))"

lemma walk_chain: "chain pool p ns \<Longrightarrow> walk (length ns) pool p = ns"
  by (induction ns arbitrary: p) auto

lemma chain_upd [simp]: "n \<notin> set ns \<Longrightarrow> chain (pool[n := x]) p ns = chain pool p ns"
  by (induction ns arbitrary: p) auto

lemma chain_bounds: "chain pool p ns \<Longrightarrow> m \<in> set ns \<Longrightarrow> m < length pool"
  by (induction ns arbitrary: p) auto

lemma chain_snoc:
  assumes "chain pool p ns" "distinct (ns @ [n])" "n < length pool" "msg_next (pool ! n) = None"
  shows "chain (if ns = [] then pool else pool[last ns := (pool ! last ns)\<lparr>msg_next := Some n\<rparr>])
     (if ns = [] then Some n else p) (ns @ [n])"
  using assms
proof (induction ns arbitrary: p)
  case (Cons m ns)
  show ?case
  proof (cases ns)
    case Nil
    then show ?thesis using Cons.prems by auto
  next
    case (Cons k ks)
    have l: "last ns \<noteq> m" "last ns \<noteq> n" using Cons Cons.prems(2) by auto
    have "chain pool (msg_next (pool ! m)) ns" "distinct (ns @ [n])" using Cons.prems by auto
    note IH = Cons.IH [OF this Cons.prems(3,4)]
    show ?thesis using IH Cons Cons.prems l by simp
  qed
qed simp

text \<open>
  The representation: the queued and the free nodes are disjoint lists that together are all nodes
  of the pool; the counter is the number of queued messages, and every node has room for a
  message.
\<close>

definition mq_rep :: "rt_messagequeue \<Rightarrow> nat list \<Rightarrow> nat list \<Rightarrow> bool" where
  "mq_rep mq qs fs \<longleftrightarrow> chain (mq_msg_pool mq) (mq_queue_head mq) qs \<and> chain (mq_msg_pool mq) (mq_queue_free mq) fs \<and>
     distinct (qs @ fs) \<and> mq_queue_tail mq = (if qs = [] then None else Some (last qs)) \<and>
     length qs = unat (mq_entry mq) \<and> length (qs @ fs) = length (mq_msg_pool mq) \<and>
     length (mq_msg_pool mq) = unat (mq_max_msgs mq) \<and>
     (\<forall>msg \<in> set (mq_msg_pool mq). length (msg_data msg) = unat (mq_msg_size mq))"

definition mq_msgs :: "rt_messagequeue \<Rightarrow> u8 list list" where
  "mq_msgs mq = map (\<lambda>n. msg_data (mq_msg_pool mq ! n)) (walk (unat (mq_entry mq)) (mq_msg_pool mq) (mq_queue_head mq))"

lemma mq_rep_msgs: "mq_rep mq qs fs \<Longrightarrow> mq_msgs mq = map (\<lambda>n. msg_data (mq_msg_pool mq ! n)) qs"
  using walk_chain [of "mq_msg_pool mq" "mq_queue_head mq" qs] by (simp add: mq_rep_def mq_msgs_def)

lemma mq_repD:
  assumes "mq_rep mq qs fs"
  shows "chain (mq_msg_pool mq) (mq_queue_head mq) qs" "chain (mq_msg_pool mq) (mq_queue_free mq) fs" "distinct (qs @ fs)"
    "mq_queue_tail mq = (if qs = [] then None else Some (last qs))" "length qs = unat (mq_entry mq)"
    "length (qs @ fs) = length (mq_msg_pool mq)" "length (mq_msg_pool mq) = unat (mq_max_msgs mq)"
    "\<forall>msg \<in> set (mq_msg_pool mq). length (msg_data msg) = unat (mq_msg_size mq)"
    "m \<in> set (qs @ fs) \<Longrightarrow> m < length (mq_msg_pool mq)"
    "m < length (mq_msg_pool mq) \<Longrightarrow> length (msg_data (mq_msg_pool mq ! m)) = unat (mq_msg_size mq)"
  using assms chain_bounds unfolding mq_rep_def by fastforce+

lemma mq_rep_full: "mq_rep mq qs fs \<Longrightarrow> mq_queue_free mq = None \<longleftrightarrow> fs = []"
  using mq_repD(2) [of mq qs fs] by (cases fs) auto

lemma mq_rep_empty: "mq_rep mq qs fs \<Longrightarrow> mq_entry mq = 0 \<longleftrightarrow> qs = []"
  using mq_repD(5) [of mq qs fs] by (auto simp: unat_eq_zero)

lemma mq_rep_room: "mq_rep mq qs (n # fs) \<Longrightarrow> mq_entry mq < RT_MQ_ENTRY_MAX"
  using mq_repD(5,6,7) [of mq qs "n # fs"] unat_u16 [of "mq_max_msgs mq"] by (simp add: word_less_nat_alt)

text \<open>What a message leaves in a node: the bytes after it keep what an earlier message has left there.\<close>

definition overlay :: "u8 list \<Rightarrow> u8 list \<Rightarrow> u8 list" where
  "overlay buffer old = buffer @ drop (length buffer) old"

lemma memcpy_overlay:
  "length buffer \<le> length old \<Longrightarrow> memcpy_to old 0 buffer (int (length buffer)) = Some (overlay buffer old)"
  using memcpy_to_Some [of "length buffer" buffer 0 old] by (simp add: overlay_def blit_def)

subsection \<open>The halves of the calls\<close>

text \<open>
  Between the critical sections of a call its node is in neither list: \<open>H\<close> are the nodes that calls under way hold.
\<close>

definition mq_part :: "rt_messagequeue \<Rightarrow> nat list \<Rightarrow> nat list \<Rightarrow> nat set \<Rightarrow> bool" where
  "mq_part mq qs fs H \<longleftrightarrow> chain (mq_msg_pool mq) (mq_queue_head mq) qs \<and> chain (mq_msg_pool mq) (mq_queue_free mq) fs \<and>
     distinct (qs @ fs) \<and> set (qs @ fs) \<inter> H = {} \<and> set (qs @ fs) \<union> H = {..<length (mq_msg_pool mq)} \<and>
     mq_queue_tail mq = (if qs = [] then None else Some (last qs)) \<and> length qs = unat (mq_entry mq) \<and>
     length (mq_msg_pool mq) = unat (mq_max_msgs mq) \<and>
     (\<forall>msg \<in> set (mq_msg_pool mq). length (msg_data msg) = unat (mq_msg_size mq))"

lemma mq_partD:
  assumes "mq_part mq qs fs H"
  shows "chain (mq_msg_pool mq) (mq_queue_head mq) qs" "chain (mq_msg_pool mq) (mq_queue_free mq) fs" "distinct (qs @ fs)"
    "set (qs @ fs) \<inter> H = {}" "set (qs @ fs) \<union> H = {..<length (mq_msg_pool mq)}"
    "mq_queue_tail mq = (if qs = [] then None else Some (last qs))" "length qs = unat (mq_entry mq)"
    "length (mq_msg_pool mq) = unat (mq_max_msgs mq)"
    "m < length (mq_msg_pool mq) \<Longrightarrow> length (msg_data (mq_msg_pool mq ! m)) = unat (mq_msg_size mq)"
    "m \<in> set (qs @ fs) \<union> H \<Longrightarrow> m < length (mq_msg_pool mq)"
  using assms unfolding mq_part_def by auto

lemma mq_part_rep: "mq_part mq qs fs {} \<longleftrightarrow> mq_rep mq qs fs"
proof
  assume p: "mq_part mq qs fs {}"
  have "length (qs @ fs) = card (set (qs @ fs))" using distinct_card [OF mq_partD(3) [OF p]] by simp
  also have "\<dots> = length (mq_msg_pool mq)" using mq_partD(5) [OF p] by simp
  finally show "mq_rep mq qs fs" using p by (simp add: mq_part_def mq_rep_def)
next
  assume r: "mq_rep mq qs fs"
  have "set (qs @ fs) \<subseteq> {..<length (mq_msg_pool mq)}" using mq_repD(9) [OF r] by blast
  moreover have "card (set (qs @ fs)) = card {..<length (mq_msg_pool mq)}"
    using distinct_card [OF mq_repD(3) [OF r]] mq_repD(6) [OF r] by simp
  ultimately have "set (qs @ fs) = {..<length (mq_msg_pool mq)}" by (intro card_subset_eq) simp_all
  then show "mq_part mq qs fs {}" using r by (simp add: mq_part_def mq_rep_def)
qed

lemma mq_part_room:
  assumes "mq_part mq qs fs (insert n H)"
  shows "mq_entry mq < RT_MQ_ENTRY_MAX"
proof -
  have n: "n \<notin> set qs" "insert n (set qs) \<subseteq> {..<length (mq_msg_pool mq)}" using mq_partD(4,5) [OF assms] by auto
  have "Suc (length qs) = card (insert n (set qs))" using n(1) mq_partD(3) [OF assms] by (simp add: distinct_card)
  also have "\<dots> \<le> length (mq_msg_pool mq)" using card_mono [OF _ n(2)] by simp
  also have "\<dots> \<le> 65535" using mq_partD(8) [OF assms] unat_u16 [of "mq_max_msgs mq"] by simp
  finally show ?thesis using mq_partD(7) [OF assms] by (simp add: word_less_nat_alt)
qed

text \<open>The fields that no operation changes, and the messages in the nodes.\<close>

definition mq_same :: "rt_messagequeue \<Rightarrow> rt_messagequeue \<Rightarrow> bool" where
  "mq_same mq mq' \<longleftrightarrow> mq_flag mq' = mq_flag mq \<and> mq_msg_size mq' = mq_msg_size mq \<and> mq_max_msgs mq' = mq_max_msgs mq"

definition mq_data :: "rt_messagequeue \<Rightarrow> nat \<Rightarrow> u8 list" where
  "mq_data mq n = msg_data (mq_msg_pool mq ! n)"

definition mq_next :: "rt_messagequeue \<Rightarrow> nat \<Rightarrow> nat option" where
  "mq_next mq n = msg_next (mq_msg_pool mq ! n)"

lemma mq_take_part:
  assumes p: "mq_part mq qs (n # fs) H"
  obtains mq' where "mq_take n mq = Some mq'" "mq_part mq' qs fs (insert n H)" "mq_same mq mq'" "mq_msg_pool mq' = mq_msg_pool mq"
proof -
  have n: "n < length (mq_msg_pool mq)" using mq_partD(10) [OF p] by simp
  let ?mq = "mq\<lparr>mq_queue_free := msg_next (mq_msg_pool mq ! n)\<rparr>"
  have "mq_take n mq = Some ?mq" using n by (simp add: mq_take_def mq_node_def)
  moreover have "mq_part ?mq qs fs (insert n H)" using p by (auto simp: mq_part_def)
  ultimately show thesis using that by (simp add: mq_same_def)
qed

text \<open>A node outside of both lists can be written to.\<close>

lemma mq_part_node:
  assumes p: "mq_part mq qs fs H" and n: "n \<in> H" and l: "length (msg_data node) = unat (mq_msg_size mq)"
  shows "mq_part (set_node n node mq) qs fs H"
proof -
  have "n \<notin> set qs" "n \<notin> set fs" using mq_partD(4) [OF p] n by auto
  moreover have "\<forall>msg \<in> set ((mq_msg_pool mq)[n := node]). length (msg_data msg) = unat (mq_msg_size mq)"
    using p l set_update_subset_insert [of "mq_msg_pool mq" n node] by (auto simp: mq_part_def)
  ultimately show ?thesis using p by (simp add: mq_part_def set_node_def)
qed

lemma mq_fill_part:
  assumes p: "mq_part mq qs fs H" and n: "n \<in> H" and len: "length buffer \<le> unat (mq_msg_size mq)"
  obtains mq' where "mq_fill n buffer mq = Some mq'" "mq_part mq' qs fs H" "mq_same mq mq'" "mq_next mq' n = None"
    "\<forall>m. mq_data mq' m = (if m = n then overlay buffer (mq_data mq n) else mq_data mq m)" "\<forall>m. m \<noteq> n \<longrightarrow> mq_next mq' m = mq_next mq m"
proof -
  have nl: "n < length (mq_msg_pool mq)" using mq_partD(10) [OF p] n by simp
  let ?d = "overlay buffer (mq_data mq n)"
  let ?mq = "set_node n \<lparr>msg_next = None, msg_data = ?d\<rparr> mq"
  have l: "length (mq_data mq n) = unat (mq_msg_size mq)" using mq_partD(9) [OF p nl] by (simp add: mq_data_def)
  have "mq_fill n buffer mq = Some ?mq"
    using nl l len memcpy_overlay [of buffer "mq_data mq n"] by (simp add: mq_fill_def mq_node_def mq_data_def)
  moreover have "mq_part ?mq qs fs H" by (rule mq_part_node [OF p n]) (use l len in \<open>simp add: overlay_def\<close>)
  ultimately show thesis
    by (rule that) (use nl in \<open>simp_all add: mq_same_def mq_next_def mq_data_def set_node_def nth_list_update\<close>)
qed

lemma mq_fill_urgent_part:
  assumes p: "mq_part mq qs fs H" and n: "n \<in> H" and len: "length buffer \<le> unat (mq_msg_size mq)"
  obtains mq' where "mq_fill_urgent n buffer mq = Some mq'" "mq_part mq' qs fs H" "mq_same mq mq'"
    "\<forall>m. mq_data mq' m = (if m = n then overlay buffer (mq_data mq n) else mq_data mq m)" "\<forall>m. mq_next mq' m = mq_next mq m"
proof -
  have nl: "n < length (mq_msg_pool mq)" using mq_partD(10) [OF p] n by simp
  let ?d = "overlay buffer (mq_data mq n)"
  let ?mq = "set_node n ((mq_msg_pool mq ! n)\<lparr>msg_data := ?d\<rparr>) mq"
  have l: "length (mq_data mq n) = unat (mq_msg_size mq)" using mq_partD(9) [OF p nl] by (simp add: mq_data_def)
  have "mq_fill_urgent n buffer mq = Some ?mq"
    using nl l len memcpy_overlay [of buffer "mq_data mq n"] by (simp add: mq_fill_urgent_def mq_node_def mq_data_def)
  moreover have "mq_part ?mq qs fs H" by (rule mq_part_node [OF p n]) (use l len in \<open>simp add: overlay_def\<close>)
  ultimately show thesis
    by (rule that) (use nl in \<open>simp_all add: mq_same_def mq_next_def mq_data_def set_node_def nth_list_update\<close>)
qed

lemma mq_link_part:
  assumes p: "mq_part mq qs fs (insert n H)" and n: "n \<notin> H" and nx: "mq_next mq n = None"
  obtains mq' where "mq_link n mq = Some (0, mq')" "mq_part mq' (qs @ [n]) fs H" "mq_same mq mq'" "\<forall>m. mq_data mq' m = mq_data mq m"
    "\<forall>m. m \<in> H \<longrightarrow> mq_next mq' m = mq_next mq m"
proof -
  note R = mq_partD [OF p]
  let ?P = "mq_msg_pool mq"
  have nl: "n < length ?P" using R(10) by simp
  define P2 where "P2 = (if qs = [] then ?P else ?P[last qs := (?P ! last qs)\<lparr>msg_next := Some n\<rparr>])"
  define mq' where "mq' = mq\<lparr>mq_msg_pool := P2, mq_queue_tail := Some n,
     mq_queue_head := (if qs = [] then Some n else mq_queue_head mq), mq_entry := mq_entry mq + 1\<rparr>"
  have nq: "n \<notin> set qs" "n \<notin> set fs" using R(4) by auto
  have lq: "last qs < length ?P \<and> last qs \<noteq> n \<and> last qs \<notin> set fs \<and> last qs \<notin> H" if "qs \<noteq> []"
  proof -
    have "last qs \<in> set qs" using that by simp
    then show ?thesis using R(3,4) R(10) [of "last qs"] nq by auto
  qed
  have hd: "mq_queue_head mq = None \<longleftrightarrow> qs = []" using R(1) by (cases qs) auto
  have eq: "mq_link n mq = Some (0, mq')"
    using R(6) mq_part_room [OF p] lq hd
    by (cases "qs = []") (auto simp: mq_link_def mq_node_def set_node_def P2_def mq'_def Let_def)
  have c: "chain P2 (if qs = [] then Some n else mq_queue_head mq) (qs @ [n])"
    unfolding P2_def by (rule chain_snoc [OF R(1)]) (use R(3) nq nl nx in \<open>auto simp: mq_next_def\<close>)
  have c3: "chain P2 (mq_queue_free mq) fs" using R(2) lq by (simp add: P2_def)
  have data: "msg_data (P2 ! m) = msg_data (?P ! m)" for m
    using lq by (cases "m < length ?P") (auto simp: P2_def nth_list_update)
  have dl: "\<forall>msg \<in> set P2. length (msg_data msg) = unat (mq_msg_size mq)"
    using data R(9) by (auto simp: in_set_conv_nth P2_def)
  have "mq_part mq' (qs @ [n]) fs H"
    unfolding mq_part_def using c c3 dl R(3,4,5,7,8) n nq unat_Suc_u16 [OF mq_part_room [OF p]]
    by (auto simp: mq'_def P2_def)
  moreover have "\<forall>m. m \<in> H \<longrightarrow> mq_next mq' m = mq_next mq m" using lq by (auto simp: mq'_def mq_next_def P2_def) (metis nth_list_update_neq)
  ultimately show thesis using that [OF eq] data by (simp add: mq'_def mq_same_def mq_data_def)
qed

lemma mq_link_urgent_part:
  assumes p: "mq_part mq qs fs (insert n H)" and n: "n \<notin> H"
  obtains mq' where "mq_link_urgent n mq = Some (0, mq')" "mq_part mq' (n # qs) fs H" "mq_same mq mq'" "\<forall>m. mq_data mq' m = mq_data mq m"
    "\<forall>m. m \<in> H \<longrightarrow> mq_next mq' m = mq_next mq m"
proof -
  note R = mq_partD [OF p]
  let ?P = "mq_msg_pool mq"
  have nl: "n < length ?P" using R(10) by simp
  define P2 where "P2 = ?P[n := (?P ! n)\<lparr>msg_next := mq_queue_head mq\<rparr>]"
  define mq' where "mq' = mq\<lparr>mq_msg_pool := P2, mq_queue_head := Some n,
     mq_queue_tail := (if qs = [] then Some n else mq_queue_tail mq), mq_entry := mq_entry mq + 1\<rparr>"
  have nq: "n \<notin> set qs" "n \<notin> set fs" using R(4) by auto
  have eq: "mq_link_urgent n mq = Some (0, mq')"
    using nl R(6) mq_part_room [OF p] by (auto simp: mq_link_urgent_def mq_node_def set_node_def P2_def mq'_def Let_def)
  have c: "chain P2 (Some n) (n # qs)" "chain P2 (mq_queue_free mq) fs" using R(1,2) nl nq by (simp_all add: P2_def)
  have data: "msg_data (P2 ! m) = msg_data (?P ! m)" for m
    using nl by (cases "m < length ?P") (auto simp: P2_def nth_list_update)
  have dl: "\<forall>msg \<in> set P2. length (msg_data msg) = unat (mq_msg_size mq)"
    using data R(9) by (auto simp: in_set_conv_nth P2_def)
  have "mq_part mq' (n # qs) fs H"
    unfolding mq_part_def using c dl R(3,4,5,6,7,8) n nq unat_Suc_u16 [OF mq_part_room [OF p]]
    by (auto simp: mq'_def P2_def)
  moreover have "\<forall>m. m \<in> H \<longrightarrow> mq_next mq' m = mq_next mq m" using n by (auto simp: mq'_def mq_next_def P2_def) (metis nth_list_update_neq)
  ultimately show thesis using that [OF eq] data by (simp add: mq'_def mq_same_def mq_data_def)
qed

lemma mq_unlink_part:
  assumes p: "mq_part mq (n # qs) fs H"
  obtains mq' where "mq_unlink mq = Some (n, mq')" "mq_part mq' qs fs (insert n H)" "mq_same mq mq'" "mq_msg_pool mq' = mq_msg_pool mq"
proof -
  note R = mq_partD [OF p]
  have nl: "n < length (mq_msg_pool mq)" using R(10) by simp
  have nq: "n \<notin> set qs" using R(3) by simp
  have tl: "(if mq_queue_tail mq = Some n then None else mq_queue_tail mq) = (if qs = [] then None else Some (last qs))"
  proof (cases "qs = []")
    case False
    then have "last qs \<noteq> n" using nq last_in_set by blast
    then show ?thesis using R(6) False by simp
  qed (use R(6) in simp)
  define mq' where "mq' = mq\<lparr>mq_queue_head := msg_next (mq_msg_pool mq ! n),
     mq_queue_tail := (if qs = [] then None else Some (last qs)), mq_entry := mq_entry mq - 1\<rparr>"
  have "mq_unlink mq = Some (n, mq')" using R(1) nl tl by (simp add: mq_unlink_def mq_node_def mq'_def)
  moreover have "unat (mq_entry mq - 1) = unat (mq_entry mq) - 1" using R(7) by (intro unat_pred) (simp add: word_less_nat_alt)
  then have "mq_part mq' qs fs (insert n H)" using p R(7) by (auto simp: mq_part_def mq'_def)
  ultimately show thesis by (rule that) (simp_all add: mq'_def mq_same_def)
qed

lemma mq_read_part:
  assumes p: "mq_part mq qs fs H" and n: "n \<in> H"
  shows "mq_read n bsize mq = Some (take bsize (mq_data mq n))" "length (mq_data mq n) = unat (mq_msg_size mq)"
proof -
  have nl: "n < length (mq_msg_pool mq)" using mq_partD(10) [OF p] n by simp
  show l: "length (mq_data mq n) = unat (mq_msg_size mq)" using mq_partD(9) [OF p nl] by (simp add: mq_data_def)
  show "mq_read n bsize mq = Some (take bsize (mq_data mq n))"
    using nl l memread_Some [of 0 "if bsize > unat (mq_msg_size mq) then unat (mq_msg_size mq) else bsize" "mq_data mq n"]
    by (auto simp: mq_read_def mq_node_def mq_data_def)
qed

lemma mq_release_part:
  assumes p: "mq_part mq qs fs (insert n H)" and n: "n \<notin> H"
  obtains mq' where "mq_release n mq = Some mq'" "mq_part mq' qs (n # fs) H" "mq_same mq mq'" "\<forall>m. mq_data mq' m = mq_data mq m"
    "\<forall>m. m \<in> H \<longrightarrow> mq_next mq' m = mq_next mq m"
proof -
  note R = mq_partD [OF p]
  let ?P = "mq_msg_pool mq"
  have nl: "n < length ?P" using R(10) by simp
  have nq: "n \<notin> set qs" "n \<notin> set fs" using R(4) by auto
  define mq' where "mq' = set_node n ((?P ! n)\<lparr>msg_next := mq_queue_free mq\<rparr>) mq\<lparr>mq_queue_free := Some n\<rparr>"
  have "mq_part (set_node n ((?P ! n)\<lparr>msg_next := mq_queue_free mq\<rparr>) mq) qs fs (insert n H)"
    by (rule mq_part_node [OF p]) (use R(9) [OF nl] in simp_all)
  then have "mq_part mq' qs (n # fs) H" using n nl nq by (auto simp: mq_part_def mq'_def set_node_def)
  moreover have "mq_release n mq = Some mq'" using nl by (simp add: mq_release_def mq_node_def mq'_def)
  moreover have "msg_data (mq_msg_pool mq' ! m) = msg_data (?P ! m)" for m
    using nl by (cases "m < length ?P") (auto simp: mq'_def set_node_def nth_list_update)
  moreover have "\<forall>m. m \<in> H \<longrightarrow> mq_next mq' m = mq_next mq m"
    using n by (auto simp: mq'_def mq_next_def set_node_def) (metis nth_list_update_neq)
  ultimately show thesis using that by (simp add: mq'_def mq_same_def mq_data_def set_node_def)
qed

text \<open>The calls that are not interrupted are compositions of these.\<close>

lemma mq_part_msgs: "mq_part mq qs fs H \<Longrightarrow> mq_msgs mq = map (mq_data mq) qs"
  using walk_chain [of "mq_msg_pool mq" "mq_queue_head mq" qs] by (simp add: mq_part_def mq_msgs_def mq_data_def)

lemma mq_same_trans: "mq_same a b \<Longrightarrow> mq_same b d \<Longrightarrow> mq_same a d"
  by (simp add: mq_same_def)

lemma mq_enqueue_rep:
  assumes rep: "mq_rep mq qs (n # fs)" and len: "length buffer \<le> unat (mq_msg_size mq)"
  obtains mq' where "mq_enqueue n buffer mq = Some (0, mq')" "mq_rep mq' (qs @ [n]) fs"
    "mq_msgs mq' = mq_msgs mq @ [overlay buffer (msg_data (mq_msg_pool mq ! n))]"
    "mq_flag mq' = mq_flag mq" "mq_msg_size mq' = mq_msg_size mq" "mq_max_msgs mq' = mq_max_msgs mq"
proof -
  have p: "mq_part mq qs (n # fs) {}" using rep by (simp add: mq_part_rep)
  obtain a where a: "mq_take n mq = Some a" "mq_part a qs fs {n}" "mq_same mq a" "mq_msg_pool a = mq_msg_pool mq"
    by (rule mq_take_part [OF p])
  have la: "length buffer \<le> unat (mq_msg_size a)" using len a(3) by (simp add: mq_same_def)
  obtain b where b: "mq_fill n buffer a = Some b" "mq_part b qs fs {n}" "mq_same a b" "mq_next b n = None"
    "\<forall>m. mq_data b m = (if m = n then overlay buffer (mq_data a n) else mq_data a m)"
    by (rule mq_fill_part [OF a(2) singletonI la])
  obtain d where d: "mq_link n b = Some (0, d)" "mq_part d (qs @ [n]) fs {}" "mq_same b d" "\<forall>m. mq_data d m = mq_data b m"
    by (rule mq_link_part [OF b(2) _ b(4)]) simp
  have "n \<notin> set qs" using mq_partD(3) [OF p] by simp
  then have "mq_msgs d = mq_msgs mq @ [overlay buffer (msg_data (mq_msg_pool mq ! n))]"
    using d(4) b(5) a(4) by (auto simp: mq_part_msgs [OF p] mq_part_msgs [OF d(2)] mq_data_def)
  moreover have "mq_same mq d" using a(3) b(3) d(3) by (blast intro: mq_same_trans)
  ultimately show thesis using that a(1) b(1) d(1,2) by (simp add: mq_enqueue_def mq_part_rep mq_same_def)
qed

lemma mq_urgent_rep:
  assumes rep: "mq_rep mq qs (n # fs)" and len: "length buffer \<le> unat (mq_msg_size mq)"
  obtains mq' where "mq_enqueue_urgent n buffer mq = Some (0, mq')" "mq_rep mq' (n # qs) fs"
    "mq_msgs mq' = overlay buffer (msg_data (mq_msg_pool mq ! n)) # mq_msgs mq"
    "mq_flag mq' = mq_flag mq" "mq_msg_size mq' = mq_msg_size mq" "mq_max_msgs mq' = mq_max_msgs mq"
proof -
  have p: "mq_part mq qs (n # fs) {}" using rep by (simp add: mq_part_rep)
  obtain a where a: "mq_take n mq = Some a" "mq_part a qs fs {n}" "mq_same mq a" "mq_msg_pool a = mq_msg_pool mq"
    by (rule mq_take_part [OF p])
  have la: "length buffer \<le> unat (mq_msg_size a)" using len a(3) by (simp add: mq_same_def)
  obtain b where b: "mq_fill_urgent n buffer a = Some b" "mq_part b qs fs {n}" "mq_same a b"
    "\<forall>m. mq_data b m = (if m = n then overlay buffer (mq_data a n) else mq_data a m)"
    by (rule mq_fill_urgent_part [OF a(2) singletonI la])
  obtain d where d: "mq_link_urgent n b = Some (0, d)" "mq_part d (n # qs) fs {}" "mq_same b d" "\<forall>m. mq_data d m = mq_data b m"
    by (rule mq_link_urgent_part [OF b(2)]) simp
  have "n \<notin> set qs" using mq_partD(3) [OF p] by simp
  then have "mq_msgs d = overlay buffer (msg_data (mq_msg_pool mq ! n)) # mq_msgs mq"
    using d(4) b(4) a(4) by (auto simp: mq_part_msgs [OF p] mq_part_msgs [OF d(2)] mq_data_def)
  moreover have "mq_same mq d" using a(3) b(3) d(3) by (blast intro: mq_same_trans)
  ultimately show thesis using that a(1) b(1) d(1,2) by (simp add: mq_enqueue_urgent_def mq_part_rep mq_same_def)
qed

lemma mq_dequeue_rep:
  assumes rep: "mq_rep mq (n # qs) fs"
  obtains mq' where "mq_dequeue bsize mq = Some (take bsize (hd (mq_msgs mq)), mq')" "mq_rep mq' qs (n # fs)"
    "mq_msgs mq = hd (mq_msgs mq) # mq_msgs mq'" "length (hd (mq_msgs mq)) = unat (mq_msg_size mq)"
    "mq_flag mq' = mq_flag mq" "mq_msg_size mq' = mq_msg_size mq" "mq_max_msgs mq' = mq_max_msgs mq"
proof -
  have p: "mq_part mq (n # qs) fs {}" using rep by (simp add: mq_part_rep)
  obtain a where a: "mq_unlink mq = Some (n, a)" "mq_part a qs fs {n}" "mq_same mq a" "mq_msg_pool a = mq_msg_pool mq"
    by (rule mq_unlink_part [OF p])
  note rd = mq_read_part [OF a(2) singletonI]
  obtain b where b: "mq_release n a = Some b" "mq_part b qs (n # fs) {}" "mq_same a b" "\<forall>m. mq_data b m = mq_data a m"
    by (rule mq_release_part [OF a(2)]) simp
  have h: "hd (mq_msgs mq) = mq_data a n" using a(4) by (simp add: mq_part_msgs [OF p] mq_data_def)
  have "mq_msgs mq = hd (mq_msgs mq) # mq_msgs b"
    unfolding h using a(4) b(4) by (simp add: mq_part_msgs [OF p] mq_part_msgs [OF b(2)]) (simp add: mq_data_def)
  moreover have "mq_same mq b" using a(3) b(3) by (blast intro: mq_same_trans)
  moreover have "mq_dequeue bsize mq = Some (take bsize (hd (mq_msgs mq)), b)"
    using a(1) rd(1) b(1) unfolding h by (simp add: mq_dequeue_def)
  ultimately show thesis using that b(2) rd(2) a(3) h by (simp add: mq_part_rep mq_same_def)
qed

subsection \<open>The operations on the kernel state\<close>

definition mq_inv :: "nat \<Rightarrow> kernel \<Rightarrow> bool" where
  "mq_inv i s \<longleftrightarrow> (\<exists>mq qs fs. mqueues s i = Some mq \<and> ipc_flag (mq_flag mq) \<and> mq_rep mq qs fs)"

definition mq_abs :: "nat \<Rightarrow> kernel \<Rightarrow> nat \<times> u8 list list" where
  "mq_abs i s = (case mqueues s i of Some mq \<Rightarrow> (unat (mq_max_msgs mq), mq_msgs mq) | None \<Rightarrow> (0, []))"

text \<open>The bytes in the node that the next message will be written to.\<close>

definition mq_old :: "nat \<Rightarrow> kernel \<Rightarrow> u8 list" where
  "mq_old i s = (case mqueues s i of
     Some mq \<Rightarrow> (case mq_queue_free mq of Some n \<Rightarrow> msg_data (mq_msg_pool mq ! n) | None \<Rightarrow> []) | None \<Rightarrow> [])"

lemma mq_finish_send_ok:
  assumes "caller c t s"
  obtains s' where "mq_finish_send c i (0, mq) s = Some (Done 0, s')"
    "wakes_first c (SuspendQ (Mqueue i)) (upd_mq i mq s) s'" "mqueues s' i = Some mq"
proof -
  have "caller c t (upd_mq i mq s)" using assms by simp
  then obtain s' where s': "wakes_first c (SuspendQ (Mqueue i)) (upd_mq i mq s) s'" "wake_first c (SuspendQ (Mqueue i)) (upd_mq i mq s) = Some s'"
    using wake_first_ok [of c t "upd_mq i mq s" "SuspendQ (Mqueue i)"] by blast
  show thesis by (rule that [OF _ s'(1)]) (use s'(2) ipcsD(5) [OF wakes_first_ipcs [OF s'(1)]] in \<open>simp_all add: mq_finish_send_def\<close>)
qed

lemma blocked_mqueues: "blocked c q t flag time (no_error t s) s' \<Longrightarrow> mqueues s' = mqueues s"
  using ipcsD(5) [of s' "no_error t s"] by (simp add: blocked_def)

lemma mq_send_loop_cases:
  assumes call: "caller c t s" and inv: "mq_inv i s" and mq: "mqueues s i = Some mq"
    and len: "length buffer \<le> unat (mq_msg_size mq)"
    and el: "eligible c s u" and tm: "timeout = 0 \<or> wait_time timeout"
  shows "if mq_queue_free mq \<noteq> None
     then \<exists>s' mq'. mq_send_loop c i buffer timeout s = Some (Done RT_EOK, s') \<and>
       wakes_first c (SuspendQ (Mqueue i)) (upd_mq i mq' s) s' \<and> mqueues s' i = Some mq' \<and> mq_inv i s' \<and>
       mq_msgs mq' = mq_msgs mq @ [overlay buffer (mq_old i s)] \<and> mq_max_msgs mq' = mq_max_msgs mq \<and>
       length (mq_msgs mq) < unat (mq_max_msgs mq)
     else if timeout = 0 then mq_send_loop c i buffer timeout s = Some (Done (- RT_EFULL), no_error t s)
     else \<exists>s'. mq_send_loop c i buffer timeout s = Some (Blocked, s') \<and>
       blocked c (SenderQ (Mqueue i)) t (mq_flag mq) timeout (no_error t s) s'"
proof -
  note c = callerD [OF call] callerD [OF caller_error [OF call]]
  obtain qs fs where I: "ipc_flag (mq_flag mq)" "mq_rep mq qs fs" using inv mq by (auto simp: mq_inv_def)
  show ?thesis
  proof (cases "mq_queue_free mq")
    case (Some n)
    then obtain fs' where fs: "fs = n # fs'" using mq_repD(2) [OF I(2)] by (cases fs) auto
    have rep: "mq_rep mq qs (n # fs')" using I(2) fs by simp
    obtain mq' where m: "mq_enqueue n buffer mq = Some (0, mq')" "mq_rep mq' (qs @ [n]) fs'"
      "mq_msgs mq' = mq_msgs mq @ [overlay buffer (msg_data (mq_msg_pool mq ! n))]"
      "mq_flag mq' = mq_flag mq" "mq_msg_size mq' = mq_msg_size mq" "mq_max_msgs mq' = mq_max_msgs mq"
      by (rule mq_enqueue_rep [OF rep len])
    obtain s' where s': "mq_finish_send c i (0, mq') s = Some (Done 0, s')"
      "wakes_first c (SuspendQ (Mqueue i)) (upd_mq i mq' s) s'" "mqueues s' i = Some mq'"
      by (rule mq_finish_send_ok [OF call])
    have "mq_send_loop c i buffer timeout s = Some (Done 0, s')" using Some mq m(1) s'(1) by (simp add: mq_send_loop_unfold)
    moreover have "mq_inv i s'" using s'(3) m(2,4) I(1) by (auto simp: mq_inv_def)
    moreover have "length (mq_msgs mq) < unat (mq_max_msgs mq)"
      using mq_repD(6,7) [OF rep] by (simp add: mq_rep_msgs [OF rep])
    ultimately show ?thesis using Some s' m(3,6) mq by (auto simp: mq_old_def)
  next
    case None
    show ?thesis
    proof (cases "timeout = 0")
      case True
      then show ?thesis using None mq c by (simp add: mq_send_loop_unfold)
    next
      case False
      have el': "eligible c (no_error t s) u" using el by (simp add: eligible_error)
      obtain s' where "ipc_block c (SenderQ (Mqueue i)) t (mq_flag mq) timeout (no_error t s) = Some s'"
        "blocked c (SenderQ (Mqueue i)) t (mq_flag mq) timeout (no_error t s) s'"
        using caller_blocks [OF caller_error [OF call] el' _ I(1), of "SenderQ (Mqueue i)" timeout] False tm by blast
      then show ?thesis using False None mq c by (simp add: mq_send_loop_unfold)
    qed
  qed
qed

lemma mq_recv_loop_cases:
  assumes call: "caller c t s" and inv: "mq_inv i s" and mq: "mqueues s i = Some mq"
    and el: "eligible c s u" and tm: "timeout = 0 \<or> wait_time timeout"
  shows "case mq_msgs mq of
     m # ms \<Rightarrow> \<exists>s' mq'. mq_recv_loop c i bsize timeout s = Some (Done RT_EOK, Some (take bsize m), s') \<and>
       wakes_first c (SenderQ (Mqueue i)) (upd_mq i mq' s) s' \<and> mqueues s' i = Some mq' \<and> mq_inv i s' \<and>
       mq_msgs mq' = ms \<and> mq_max_msgs mq' = mq_max_msgs mq
   | [] \<Rightarrow> if timeout = 0 then mq_recv_loop c i bsize timeout s =
         Some (Done (- RT_ETIMEOUT), None, upd_thread t (\<lambda>th. th\<lparr>th_error := - RT_ETIMEOUT\<rparr>) (no_error t s))
       else \<exists>s'. mq_recv_loop c i bsize timeout s = Some (Blocked, None, s') \<and>
         blocked c (SuspendQ (Mqueue i)) t (mq_flag mq) timeout (no_error t s) s'"
proof -
  note c = callerD [OF call] callerD [OF caller_error [OF call]]
  obtain qs fs where I: "ipc_flag (mq_flag mq)" "mq_rep mq qs fs" using inv mq by (auto simp: mq_inv_def)
  show ?thesis
  proof (cases qs)
    case (Cons n qs')
    have rep: "mq_rep mq (n # qs') fs" using I(2) Cons by simp
    obtain mq' where m: "mq_dequeue bsize mq = Some (take bsize (hd (mq_msgs mq)), mq')" "mq_rep mq' qs' (n # fs)"
      "mq_msgs mq = hd (mq_msgs mq) # mq_msgs mq'" "length (hd (mq_msgs mq)) = unat (mq_msg_size mq)"
      "mq_flag mq' = mq_flag mq" "mq_msg_size mq' = mq_msg_size mq" "mq_max_msgs mq' = mq_max_msgs mq"
      by (rule mq_dequeue_rep [OF rep])
    have "caller c t (upd_mq i mq' s)" using call by simp
    then obtain s' where s': "wakes_first c (SenderQ (Mqueue i)) (upd_mq i mq' s) s'" "wake_first c (SenderQ (Mqueue i)) (upd_mq i mq' s) = Some s'"
      using wake_first_ok [of c t "upd_mq i mq' s" "SenderQ (Mqueue i)"] by blast
    have mq': "mqueues s' i = Some mq'" using ipcsD(5) [OF wakes_first_ipcs [OF s'(1)]] by simp
    have "mq_entry mq \<noteq> 0" using mq_rep_empty [OF I(2)] Cons by simp
    then have "mq_recv_loop c i bsize timeout s = Some (Done 0, Some (take bsize (hd (mq_msgs mq))), s')"
      using mq m(1) s'(2) by (simp add: mq_recv_loop_unfold)
    moreover have "mq_inv i s'" using mq' m(2,5) I(1) by (auto simp: mq_inv_def)
    ultimately show ?thesis using s'(1) mq' m(3,7) by (auto split: list.split)
  next
    case Nil
    then have e: "mq_msgs mq = []" "mq_entry mq = 0" using mq_rep_msgs [OF I(2)] mq_rep_empty [OF I(2)] by auto
    show ?thesis
    proof (cases "timeout = 0")
      case True
      then show ?thesis using e mq c by (simp add: mq_recv_loop_unfold)
    next
      case False
      have el': "eligible c (no_error t s) u" using el by (simp add: eligible_error)
      obtain s' where "ipc_block c (SuspendQ (Mqueue i)) t (mq_flag mq) timeout (no_error t s) = Some s'"
        "blocked c (SuspendQ (Mqueue i)) t (mq_flag mq) timeout (no_error t s) s'"
        using caller_blocks [OF caller_error [OF call] el' _ I(1), of "SuspendQ (Mqueue i)" timeout] False tm by blast
      then show ?thesis using False e mq c by (simp add: mq_recv_loop_unfold)
    qed
  qed
qed

lemma mq_urgent_cases:
  assumes call: "caller c t s" and inv: "mq_inv i s" and mq: "mqueues s i = Some mq" and b: "buffer \<noteq> []"
  shows "if unat (mq_msg_size mq) < length buffer then rt_mq_urgent c i buffer s = Some (Done (- RT_ERROR), s)
     else if mq_queue_free mq = None then rt_mq_urgent c i buffer s = Some (Done (- RT_EFULL), s)
     else \<exists>s' mq'. rt_mq_urgent c i buffer s = Some (Done RT_EOK, s') \<and>
       wakes_first c (SuspendQ (Mqueue i)) (upd_mq i mq' s) s' \<and> mqueues s' i = Some mq' \<and> mq_inv i s' \<and>
       mq_msgs mq' = overlay buffer (mq_old i s) # mq_msgs mq \<and> mq_max_msgs mq' = mq_max_msgs mq \<and>
       length (mq_msgs mq) < unat (mq_max_msgs mq)"
proof -
  obtain qs fs where I: "ipc_flag (mq_flag mq)" "mq_rep mq qs fs" using inv mq by (auto simp: mq_inv_def)
  show ?thesis
  proof (cases "unat (mq_msg_size mq) < length buffer \<or> mq_queue_free mq = None")
    case True
    then show ?thesis using mq b by (auto simp: rt_mq_urgent_unfold)
  next
    case False
    then obtain n where n: "mq_queue_free mq = Some n" and len: "length buffer \<le> unat (mq_msg_size mq)" by auto
    then obtain fs' where fs: "fs = n # fs'" using mq_repD(2) [OF I(2)] by (cases fs) auto
    have rep: "mq_rep mq qs (n # fs')" using I(2) fs by simp
    obtain mq' where m: "mq_enqueue_urgent n buffer mq = Some (0, mq')" "mq_rep mq' (n # qs) fs'"
      "mq_msgs mq' = overlay buffer (msg_data (mq_msg_pool mq ! n)) # mq_msgs mq"
      "mq_flag mq' = mq_flag mq" "mq_msg_size mq' = mq_msg_size mq" "mq_max_msgs mq' = mq_max_msgs mq"
      by (rule mq_urgent_rep [OF rep len])
    obtain s' where s': "mq_finish_send c i (0, mq') s = Some (Done 0, s')"
      "wakes_first c (SuspendQ (Mqueue i)) (upd_mq i mq' s) s'" "mqueues s' i = Some mq'"
      by (rule mq_finish_send_ok [OF call])
    have "rt_mq_urgent c i buffer s = Some (Done 0, s')" using n len mq m(1) s'(1) b by (simp add: rt_mq_urgent_unfold)
    moreover have "mq_inv i s'" using s'(3) m(2,4) I(1) by (auto simp: mq_inv_def)
    moreover have "length (mq_msgs mq) < unat (mq_max_msgs mq)"
      using mq_repD(6,7) [OF rep] by (simp add: mq_rep_msgs [OF rep])
    ultimately show ?thesis using False s' m(3,6) mq n by (auto simp: mq_old_def)
  qed
qed

subsection \<open>Runs of calls that are not interrupted\<close>

datatype mq_event = Queued "u8 list" "u8 list" | Jumped "u8 list" "u8 list" | Delivered nat "u8 list" | Idle

fun mq_spec :: "mq_event \<Rightarrow> nat \<times> u8 list list \<Rightarrow> (nat \<times> u8 list list) option" where
  "mq_spec (Queued b old) (n, q) = (if length q < n then Some (n, q @ [overlay b old]) else None)"
| "mq_spec (Jumped b old) (n, q) = (if length q < n then Some (n, overlay b old # q) else None)"
| "mq_spec (Delivered bsize r) (n, m # q) = (if r = take bsize m then Some (n, q) else None)"
| "mq_spec (Delivered bsize r) (n, []) = None"
| "mq_spec Idle a = Some a"

definition mq_send_event :: "nat \<Rightarrow> kernel \<Rightarrow> u8 list \<Rightarrow> outcome \<Rightarrow> mq_event" where
  "mq_send_event i s buffer out = (if out = Done RT_EOK then Queued buffer (mq_old i s) else Idle)"

definition mq_urgent_event :: "nat \<Rightarrow> kernel \<Rightarrow> u8 list \<Rightarrow> outcome \<Rightarrow> mq_event" where
  "mq_urgent_event i s buffer out = (if out = Done RT_EOK then Jumped buffer (mq_old i s) else Idle)"

definition mq_recv_event :: "nat \<Rightarrow> u8 list option \<Rightarrow> mq_event" where
  "mq_recv_event bsize rec = (case rec of Some r \<Rightarrow> Delivered bsize r | None \<Rightarrow> Idle)"

inductive mq_step :: "nat \<Rightarrow> kernel \<Rightarrow> mq_event \<Rightarrow> kernel \<Rightarrow> bool" for i where
  send: "caller c t s \<Longrightarrow> eligible c s u \<Longrightarrow> timeout = 0 \<or> wait_time timeout \<Longrightarrow>
     rt_mq_send_wait c i b timeout s = Some (out, s') \<Longrightarrow> mq_step i s (mq_send_event i s b out) s'"
| send_resume: "caller c t s \<Longrightarrow> eligible c s u \<Longrightarrow>
     remaining timeout tick (rt_tick_get s) = 0 \<or> wait_time (remaining timeout tick (rt_tick_get s)) \<Longrightarrow>
     mqueues s i = Some mq \<Longrightarrow> length b \<le> unat (mq_msg_size mq) \<Longrightarrow>
     rt_mq_send_wait_resume c i b timeout tick s = Some (out, s') \<Longrightarrow> mq_step i s (mq_send_event i s b out) s'"
| urgent: "caller c t s \<Longrightarrow> rt_mq_urgent c i b s = Some (out, s') \<Longrightarrow> mq_step i s (mq_urgent_event i s b out) s'"
| recv: "caller c t s \<Longrightarrow> eligible c s u \<Longrightarrow> timeout = 0 \<or> wait_time timeout \<Longrightarrow>
     rt_mq_recv c i bsize timeout s = Some (out, rec, s') \<Longrightarrow> mq_step i s (mq_recv_event bsize rec) s'"
| recv_resume: "caller c t s \<Longrightarrow> eligible c s u \<Longrightarrow>
     remaining timeout tick (rt_tick_get s) = 0 \<or> wait_time (remaining timeout tick (rt_tick_get s)) \<Longrightarrow>
     rt_mq_recv_resume c i bsize timeout tick s = Some (out, rec, s') \<Longrightarrow> mq_step i s (mq_recv_event bsize rec) s'"
| environment: "mqueues s' i = mqueues s i \<Longrightarrow> mq_step i s Idle s'"

definition mq_simulates :: "nat \<Rightarrow> kernel \<Rightarrow> mq_event \<Rightarrow> kernel \<Rightarrow> bool" where
  "mq_simulates i s e s' \<longleftrightarrow> mq_inv i s' \<and> mq_spec e (mq_abs i s) = Some (mq_abs i s')"

lemma mq_unchanged: "mq_inv i s \<Longrightarrow> mqueues s' i = mqueues s i \<Longrightarrow> mq_simulates i s Idle s'"
  by (simp add: mq_simulates_def mq_inv_def mq_abs_def)

lemma mq_no_effect:
  "mq_inv i s \<Longrightarrow> out \<noteq> Done 0 \<Longrightarrow> mq_simulates i s (mq_send_event i s b out) s"
  "mq_inv i s \<Longrightarrow> mq_simulates i s (mq_recv_event bsize None) s"
  by (simp_all add: mq_send_event_def mq_recv_event_def mq_unchanged)

lemma mq_send_loop_step:
  assumes call: "caller c t s" and inv: "mq_inv i s" and el: "eligible c s u" and tm: "timeout = 0 \<or> wait_time timeout"
    and mq: "mqueues s i = Some mq" and len: "length b \<le> unat (mq_msg_size mq)"
    and r: "mq_send_loop c i b timeout s = Some (out, s')"
  shows "mq_simulates i s (mq_send_event i s b out) s'"
proof -
  note cases = mq_send_loop_cases [OF call inv mq len el tm]
  show ?thesis
  proof (cases "mq_queue_free mq")
    case (Some n)
    then obtain s1 mq' where "mq_send_loop c i b timeout s = Some (Done 0, s1)" "mqueues s1 i = Some mq'" "mq_inv i s1"
      "mq_msgs mq' = mq_msgs mq @ [overlay b (mq_old i s)]" "mq_max_msgs mq' = mq_max_msgs mq"
      "length (mq_msgs mq) < unat (mq_max_msgs mq)" using cases by auto
    then show ?thesis using r mq by (auto simp: mq_simulates_def mq_abs_def mq_send_event_def)
  next
    case None
    have "out \<noteq> Done 0 \<and> mqueues s' = mqueues s"
    proof (cases "timeout = 0")
      case False
      then obtain x where "mq_send_loop c i b timeout s = Some (Blocked, x)"
        "blocked c (SenderQ (Mqueue i)) t (mq_flag mq) timeout (no_error t s) x" using cases None by auto
      then show ?thesis using r blocked_mqueues by simp
    qed (use cases None r in auto)
    then show ?thesis using inv by (simp add: mq_send_event_def mq_unchanged)
  qed
qed

lemma mq_recv_loop_step:
  assumes call: "caller c t s" and inv: "mq_inv i s" and el: "eligible c s u" and tm: "timeout = 0 \<or> wait_time timeout"
    and r: "mq_recv_loop c i bsize timeout s = Some (out, rec, s')"
  shows "mq_simulates i s (mq_recv_event bsize rec) s'"
proof -
  obtain mq where mq: "mqueues s i = Some mq" using inv by (auto simp: mq_inv_def)
  note cases = mq_recv_loop_cases [OF call inv mq el tm, of bsize]
  show ?thesis
  proof (cases "mq_msgs mq")
    case (Cons m ms)
    then obtain s1 mq' where "mq_recv_loop c i bsize timeout s = Some (Done 0, Some (take bsize m), s1)"
      "mqueues s1 i = Some mq'" "mq_inv i s1" "mq_msgs mq' = ms" "mq_max_msgs mq' = mq_max_msgs mq" using cases by auto
    then show ?thesis using r mq Cons by (auto simp: mq_simulates_def mq_abs_def mq_recv_event_def)
  next
    case Nil
    have "rec = None \<and> mqueues s' = mqueues s"
    proof (cases "timeout = 0")
      case False
      then obtain x where "mq_recv_loop c i bsize timeout s = Some (Blocked, None, x)"
        "blocked c (SuspendQ (Mqueue i)) t (mq_flag mq) timeout (no_error t s) x" using cases Nil by auto
      then show ?thesis using r blocked_mqueues by simp
    qed (use cases Nil r in auto)
    then show ?thesis using inv by (simp add: mq_recv_event_def mq_unchanged)
  qed
qed

lemma mq_urgent_step:
  assumes call: "caller c t s" and inv: "mq_inv i s" and r: "rt_mq_urgent c i b s = Some (out, s')"
  shows "mq_simulates i s (mq_urgent_event i s b out) s'"
proof -
  obtain mq where mq: "mqueues s i = Some mq" using inv by (auto simp: mq_inv_def)
  have b: "b \<noteq> []" using r mq by (auto simp: rt_mq_urgent_unfold)
  note cases = mq_urgent_cases [OF call inv mq b]
  show ?thesis
  proof (cases "unat (mq_msg_size mq) < length b \<or> mq_queue_free mq = None")
    case True
    then have "out \<noteq> Done 0 \<and> s' = s" using cases r by (auto split: if_splits)
    then show ?thesis using inv by (simp add: mq_urgent_event_def mq_unchanged)
  next
    case False
    then obtain s1 mq' where "rt_mq_urgent c i b s = Some (Done 0, s1)" "mqueues s1 i = Some mq'" "mq_inv i s1"
      "mq_msgs mq' = overlay b (mq_old i s) # mq_msgs mq" "mq_max_msgs mq' = mq_max_msgs mq"
      "length (mq_msgs mq) < unat (mq_max_msgs mq)" using cases by auto
    then show ?thesis using r mq by (auto simp: mq_simulates_def mq_abs_def mq_urgent_event_def)
  qed
qed

lemma mq_ops_loop:
  "rt_mq_send_wait c i b timeout s = Some (out, s') \<Longrightarrow> mqueues s i = Some mq \<Longrightarrow>
     out \<noteq> Done 0 \<and> s' = s \<or> length b \<le> unat (mq_msg_size mq) \<and> mq_send_loop c i b timeout s = Some (out, s')"
  "rt_mq_send_wait_resume c i b timeout tick s = Some (out, s') \<Longrightarrow>
     out \<noteq> Done 0 \<and> s' = s \<or> mq_send_loop c i b (remaining timeout tick (rt_tick_get s)) s = Some (out, s')"
  "rt_mq_recv c i bsize timeout s = Some (out, rec, s') \<Longrightarrow>
     rec = None \<and> s' = s \<or> mq_recv_loop c i bsize timeout s = Some (out, rec, s')"
  "rt_mq_recv_resume c i bsize timeout tick s = Some (out, rec, s') \<Longrightarrow>
     rec = None \<and> s' = s \<or> mq_recv_loop c i bsize (remaining timeout tick (rt_tick_get s)) s = Some (out, rec, s')"
  by (auto simp: rt_mq_send_wait_unfold mq_resume_unfold rt_mq_recv_unfold
      split: Option.bind_splits if_splits)

lemma mq_step_simulates:
  assumes "mq_inv i s" "mq_step i s e s'"
  shows "mq_simulates i s e s'"
  using assms(2)
proof cases
  case (send c t u timeout b out)
  obtain mq where mq: "mqueues s i = Some mq" using assms(1) by (auto simp: mq_inv_def)
  from mq_ops_loop(1) [OF send(5) mq] show ?thesis unfolding send(1)
    using mq_send_loop_step [OF send(2) assms(1) send(3,4) mq] mq_no_effect(1) [OF assms(1)] by blast
next
  case (send_resume c t u timeout tick mq b out)
  from mq_ops_loop(2) [OF send_resume(7)] show ?thesis unfolding send_resume(1)
    using mq_send_loop_step [OF send_resume(2) assms(1) send_resume(3,4,5,6)] mq_no_effect(1) [OF assms(1)] by blast
next
  case (urgent c t b out)
  then show ?thesis using mq_urgent_step [OF _ assms(1)] by simp
next
  case (recv c t u timeout bsize out rec)
  from mq_ops_loop(3) [OF recv(5)] show ?thesis unfolding recv(1)
    using mq_recv_loop_step [OF recv(2) assms(1) recv(3,4)] mq_no_effect(2) [OF assms(1)] by blast
next
  case (recv_resume c t u timeout tick bsize out rec)
  from mq_ops_loop(4) [OF recv_resume(5)] show ?thesis unfolding recv_resume(1)
    using mq_recv_loop_step [OF recv_resume(2) assms(1) recv_resume(3,4)] mq_no_effect(2) [OF assms(1)] by blast
next
  case environment
  then show ?thesis using assms(1) by (simp add: mq_unchanged)
qed

interpretation message_queue: implements "mq_step i" "mq_inv i" "mq_abs i" mq_spec for i
  by unfold_locales (auto dest: mq_step_simulates simp: mq_simulates_def)

definition ex_mq :: "kernel \<Rightarrow> kernel" where
  "ex_mq s = s\<lparr>mqueues := [7 \<mapsto> \<lparr>mq_static = True, mq_flag = 0,
     mq_msg_pool = [\<lparr>msg_next = None, msg_data = [9, 9]\<rparr>, \<lparr>msg_next = Some 0, msg_data = [9, 9]\<rparr>], mq_msg_size = 2,
     mq_max_msgs = 2, mq_entry = 0, mq_queue_head = None, mq_queue_tail = None, mq_queue_free = Some 1\<rparr>]\<rparr>"

lemma ex_mq_rep: "mqueues (ex_mq s) 7 = Some mq \<Longrightarrow> mq_rep mq [] [1, 0] \<and> mq_flag mq = 0 \<and> mq_msg_size mq = 2"
  by (auto simp: ex_mq_def mq_rep_def)

lemma ex_mq_ok:
  "caller c t (ex_mq s) = caller c t s" "eligible c (ex_mq s) t = eligible c s t" "mq_inv 7 (ex_mq s)"
  "\<exists>mq. mqueues (ex_mq s) 7 = Some mq \<and> mq_msgs mq = [] \<and> mq_queue_free mq \<noteq> None \<and> mq_msg_size mq = 2"
  "tq (ex_mq s) = tq s"
proof -
  obtain mq where mq: "mqueues (ex_mq s) 7 = Some mq" by (simp add: ex_mq_def)
  note r = ex_mq_rep [OF mq]
  then show "mq_inv 7 (ex_mq s)" using mq by (auto simp: mq_inv_def)
  show "\<exists>mq. mqueues (ex_mq s) 7 = Some mq \<and> mq_msgs mq = [] \<and> mq_queue_free mq \<noteq> None \<and> mq_msg_size mq = 2"
    using mq r mq_rep_msgs [of mq "[]" "[1, 0]"] mq_rep_full [of mq "[]" "[1, 0]"] by auto
qed (simp_all add: ex_mq_def)

text \<open>
  Sending and receiving is a round trip: a message sent without waiting to an empty queue with a free node
  succeeds, and the following receive with a buffer at least as long returns bytes that begin with the message, as
  many as the buffer and the maximal message size allow, and leaves the queue empty.
\<close>

theorem mq_send_recv_roundtrip:
  assumes call: "caller c t s" and inv: "mq_inv i s" and mq: "mqueues s i = Some mq" and e: "mq_msgs mq = []"
    and free: "mq_queue_free mq \<noteq> None" and b: "buffer \<noteq> []" "length buffer \<le> unat (mq_msg_size mq)"
    "length buffer \<le> bsize" and q: "tq s (SuspendQ (Mqueue i)) = []" and el: "eligible c s u"
  shows "\<exists>s1 s2 r mq'. rt_mq_send c i buffer s = Some (Done RT_EOK, s1) \<and>
     rt_mq_recv c i bsize 0 s1 = Some (Done RT_EOK, Some r, s2) \<and> take (length buffer) r = buffer \<and>
     length r = min bsize (unat (mq_msg_size mq)) \<and> mqueues s2 i = Some mq' \<and> mq_msgs mq' = []"
proof -
  obtain s1 mq1 where s1: "mq_send_loop c i buffer 0 s = Some (Done 0, s1)"
    "wakes_first c (SuspendQ (Mqueue i)) (upd_mq i mq1 s) s1" "mqueues s1 i = Some mq1" "mq_inv i s1"
    "mq_msgs mq1 = [overlay buffer (mq_old i s)]"
    using mq_send_loop_cases [OF call inv mq b(2) el disjI1 [OF refl]] free e by auto
  have send: "rt_mq_send c i buffer s = Some (Done 0, s1)"
    using s1(1) mq free b by (simp add: rt_mq_send_def rt_mq_send_wait_unfold)
  have eq1: "s1 = upd_mq i mq1 s" using s1(2) q by (simp add: wakes_first_def)
  have c1: "caller c t s1" "eligible c s1 u" using call el by (simp_all add: eq1)
  obtain s2 mq2 where s2: "mq_recv_loop c i bsize 0 s1 = Some (Done 0, Some (take bsize (overlay buffer (mq_old i s))), s2)"
    "mqueues s2 i = Some mq2" "mq_msgs mq2 = []"
    using mq_recv_loop_cases [OF c1(1) s1(4,3) c1(2) disjI1 [OF refl], of bsize] s1(5) by auto
  have ne: "mq_entry mq1 \<noteq> 0" using s1(5) by (auto simp: mq_msgs_def)
  have pos: "bsize \<noteq> 0" using b by (cases bsize) auto
  have recv: "rt_mq_recv c i bsize 0 s1 = Some (Done 0, Some (take bsize (overlay buffer (mq_old i s))), s2)"
    using s2(1) s1(3) ne pos by (simp add: rt_mq_recv_unfold)
  obtain qs fs where rep: "mq_rep mq qs fs" using inv mq by (auto simp: mq_inv_def)
  obtain n where n: "mq_queue_free mq = Some n" using free by auto
  then obtain fs' where "fs = n # fs'" using mq_repD(2) [OF rep] by (cases fs) auto
  then have "n < length (mq_msg_pool mq)" using mq_repD(9) [OF rep] by simp
  then have "length (mq_old i s) = unat (mq_msg_size mq)" using mq_repD(10) [OF rep] n mq by (simp add: mq_old_def)
  then have "take (length buffer) (take bsize (overlay buffer (mq_old i s))) = buffer"
    "length (take bsize (overlay buffer (mq_old i s))) = min bsize (unat (mq_msg_size mq))"
    using b by (auto simp: overlay_def min_def)
  then show ?thesis using send recv s2(2,3) by blast
qed

theorem mq_send_recv_roundtrip_witness:
  "\<exists>s1 s2 r. rt_mq_send 0 7 [3] (ex_mq ex_kernel) = Some (Done RT_EOK, s1) \<and>
     rt_mq_recv 0 7 2 0 s1 = Some (Done RT_EOK, Some r, s2) \<and> take 1 r = [3] \<and> length r = 2"
proof -
  have c: "caller 0 1 (ex_mq ex_kernel)" "eligible 0 (ex_mq ex_kernel) 3" using ex_kernel_caller by (simp_all add: ex_mq_ok)
  obtain mq where mq: "mqueues (ex_mq ex_kernel) 7 = Some mq" "mq_msgs mq = []" "mq_queue_free mq \<noteq> None" "mq_msg_size mq = 2"
    using ex_mq_ok(4) by blast
  have q: "tq (ex_mq ex_kernel) (SuspendQ (Mqueue 7)) = []" by (simp add: ex_mq_ok(5) ex_kernel_def)
  show ?thesis
    using mq_send_recv_roundtrip [OF c(1) ex_mq_ok(3) mq(1,2,3) _ _ _ q c(2), of "[3]" 2] mq(4) by auto
qed

subsection \<open>Resetting a message queue\<close>

lemma mq_release_all_chain:
  assumes "chain (mq_msg_pool mq) (mq_queue_head mq) qs" "chain (mq_msg_pool mq) (mq_queue_free mq) fs" "distinct (qs @ fs)"
    "mq_queue_tail mq = (if qs = [] then None else Some (last qs))"
  obtains mq' where "mq_release_all mq = Some mq'" "mq_queue_head mq' = None" "mq_queue_tail mq' = None"
    "chain (mq_msg_pool mq') (mq_queue_free mq') (rev qs @ fs)" "length (mq_msg_pool mq') = length (mq_msg_pool mq)"
    "\<forall>k < length (mq_msg_pool mq). msg_data (mq_msg_pool mq' ! k) = msg_data (mq_msg_pool mq ! k)"
    "mq_flag mq' = mq_flag mq" "mq_msg_size mq' = mq_msg_size mq" "mq_max_msgs mq' = mq_max_msgs mq"
  using assms
proof (induction qs arbitrary: mq fs thesis)
  case Nil
  have "mq_release_all mq = Some mq" using Nil(2) by (subst mq_release_all.simps) simp
  then show ?case using Nil by (intro Nil(1)) auto
next
  case (Cons n qs)
  let ?P = "mq_msg_pool mq"
  have n: "n < length ?P" "mq_queue_head mq = Some n" "n \<notin> set qs" "n \<notin> set fs" using Cons.prems by auto
  define mq1 where "mq1 = set_node n ((?P ! n)\<lparr>msg_next := mq_queue_free mq\<rparr>) mq
     \<lparr>mq_queue_head := msg_next (?P ! n), mq_queue_tail := (if mq_queue_tail mq = Some n then None else mq_queue_tail mq),
      mq_queue_free := Some n\<rparr>"
  have step: "mq_release_all mq = mq_release_all mq1"
    by (subst mq_release_all.simps) (simp add: n mq_node_def mq1_def)
  have P1: "mq_msg_pool mq1 = ?P[n := (?P ! n)\<lparr>msg_next := mq_queue_free mq\<rparr>]" by (simp add: mq1_def set_node_def)
  have c1: "chain (mq_msg_pool mq1) (mq_queue_head mq1) qs" using Cons.prems(2) n by (simp add: P1) (simp add: mq1_def)
  have c2: "chain (mq_msg_pool mq1) (mq_queue_free mq1) (n # fs)" using Cons.prems(3) n by (simp add: P1) (simp add: mq1_def)
  have tl: "mq_queue_tail mq1 = (if qs = [] then None else Some (last qs))"
  proof (cases "qs = []")
    case False
    then have "last qs \<noteq> n" using n(3) last_in_set by blast
    then show ?thesis using Cons.prems(5) False by (simp add: mq1_def)
  qed (use Cons.prems(5) in \<open>simp add: mq1_def\<close>)
  obtain mq' where mq': "mq_release_all mq1 = Some mq'" "mq_queue_head mq' = None" "mq_queue_tail mq' = None"
    "chain (mq_msg_pool mq') (mq_queue_free mq') (rev qs @ n # fs)" "length (mq_msg_pool mq') = length (mq_msg_pool mq1)"
    "\<forall>k < length (mq_msg_pool mq1). msg_data (mq_msg_pool mq' ! k) = msg_data (mq_msg_pool mq1 ! k)"
    "mq_flag mq' = mq_flag mq1" "mq_msg_size mq' = mq_msg_size mq1" "mq_max_msgs mq' = mq_max_msgs mq1"
    by (rule Cons.IH [OF _ c1 c2 _ tl]) (use Cons.prems(4) in auto)
  have d: "msg_data (mq_msg_pool mq1 ! k) = msg_data (?P ! k)" if "k < length ?P" for k
    using that n by (auto simp: P1 nth_list_update)
  show ?case
    by (rule Cons.prems(1) [of mq']) (use step mq' d in \<open>simp_all add: P1\<close>, simp_all add: mq1_def set_node_def)
qed

lemma caller_resume_all:
  assumes call: "caller c t s" and q: "wait_queue q"
  obtains s' where "rt_ipc_list_resume_all c q s = Some s'" "caller c t s'"
    "\<forall>u \<in> set (tq s q). th_error (threads s' u) = - RT_ERROR \<and> stat_of (threads s' u) \<noteq> RT_THREAD_SUSPEND"
    "\<forall>u. u \<notin> set (tq s q) \<longrightarrow> threads s' u = threads s u"
    "\<forall>k. \<not> is_ready k \<longrightarrow> tq s' k = (if k = q then [] else tq s k)" "ipcs s' = ipcs s"
proof -
  obtain s' where s': "rt_ipc_list_resume_all c q s = Some s'" "kernel_ok s'"
    "\<forall>t. threads s' t = (if t \<in> set (tq s q)
       then set_stat (if th_oncpu (threads s t) = 2 then 1 else 3) (threads s t\<lparr>th_error := -1\<rparr>) else threads s t)"
    "\<forall>k. \<not> is_ready k \<longrightarrow> tq s' k = (if k = q then [] else tq s k)" "ipcs s' = ipcs s" "hart_frame s s'"
    by (rule rt_ipc_list_resume_all_ok [OF callerD(1) [OF call] q])
  have "t \<notin> set (tq s q)" by (rule running_not_queued [OF kernel_okD(1) [OF callerD(1) [OF call]] callerD(3) [OF call]])
  then have "caller c t s'" using call s'(2,3) hart_frame_running [OF s'(6)] by (simp add: caller_def)
  then show thesis using that [OF s'(1)] s'(3,4,5) by simp
qed

lemma mq_release_all_rep:
  assumes "mq_rep mq qs fs"
  obtains mq1 where "mq_release_all mq = Some mq1" "mq_rep (mq1\<lparr>mq_entry := 0\<rparr>) [] (rev qs @ fs)"
    "mq_flag mq1 = mq_flag mq" "length (rev qs @ fs) = unat (mq_max_msgs mq)"
proof -
  note R = mq_repD [OF assms]
  obtain mq1 where m: "mq_release_all mq = Some mq1" "mq_queue_head mq1 = None" "mq_queue_tail mq1 = None"
    "chain (mq_msg_pool mq1) (mq_queue_free mq1) (rev qs @ fs)" "length (mq_msg_pool mq1) = length (mq_msg_pool mq)"
    "\<forall>k < length (mq_msg_pool mq). msg_data (mq_msg_pool mq1 ! k) = msg_data (mq_msg_pool mq ! k)"
    "mq_flag mq1 = mq_flag mq" "mq_msg_size mq1 = mq_msg_size mq" "mq_max_msgs mq1 = mq_max_msgs mq"
    by (rule mq_release_all_chain [OF R(1,2,3,4)])
  have dat: "length (msg_data msg) = unat (mq_msg_size mq)" if "msg \<in> set (mq_msg_pool mq1)" for msg
    using that m(5,6) R(10) by (auto simp: in_set_conv_nth)
  have "mq_rep (mq1\<lparr>mq_entry := 0\<rparr>) [] (rev qs @ fs)"
    unfolding mq_rep_def using m(2-5,8,9) R(3,6,7) dat by auto
  then show ?thesis using that [OF m(1) _ m(7)] R(6,7) by simp
qed

lemma resume_both:
  assumes "caller c t s" "wait_queue r" "wait_queue w" "r \<noteq> w"
  obtains s1 s2 where "rt_ipc_list_resume_all c r s = Some s1" "rt_ipc_list_resume_all c w s1 = Some s2" "caller c t s2"
    "\<forall>u \<in> set (tq s r) \<union> set (tq s w). th_error (threads s2 u) = -1 \<and> stat_of (threads s2 u) \<noteq> 2"
    "tq s2 r = []" "tq s2 w = []" "ipcs s2 = ipcs s"
proof -
  have nr: "\<not> is_ready r" "\<not> is_ready w" using wait_queueD(2) assms(2,3) by blast+
  obtain s1 where s1: "rt_ipc_list_resume_all c r s = Some s1" "caller c t s1"
    "\<forall>u \<in> set (tq s r). th_error (threads s1 u) = -1 \<and> stat_of (threads s1 u) \<noteq> 2"
    "\<forall>u. u \<notin> set (tq s r) \<longrightarrow> threads s1 u = threads s u"
    "\<forall>k. \<not> is_ready k \<longrightarrow> tq s1 k = (if k = r then [] else tq s k)" "ipcs s1 = ipcs s"
    by (rule caller_resume_all [OF assms(1,2)])
  obtain s2 where s2: "rt_ipc_list_resume_all c w s1 = Some s2" "caller c t s2"
    "\<forall>u \<in> set (tq s1 w). th_error (threads s2 u) = -1 \<and> stat_of (threads s2 u) \<noteq> 2"
    "\<forall>u. u \<notin> set (tq s1 w) \<longrightarrow> threads s2 u = threads s1 u"
    "\<forall>k. \<not> is_ready k \<longrightarrow> tq s2 k = (if k = w then [] else tq s1 k)" "ipcs s2 = ipcs s1"
    by (rule caller_resume_all [OF s1(2) assms(3)])
  have w: "tq s1 w = tq s w" using s1(5) nr assms(4) by auto
  have "th_error (threads s2 u) = -1 \<and> stat_of (threads s2 u) \<noteq> 2" if "u \<in> set (tq s r) \<union> set (tq s w)" for u
    using that s1(3) s2(3,4) unfolding w by (cases "u \<in> set (tq s w)") auto
  moreover have "tq s2 r = []" "tq s2 w = []" using s1(5) s2(5) nr assms(4) by simp_all
  ultimately show ?thesis using that [OF s1(1) s2(1,2)] s1(6) s2(6) by simp
qed

text \<open>
  \<^bold>\<open>C33\<close>: \<^verbatim>\<open>rt_mq_control\<close> with \<^verbatim>\<open>RT_IPC_CMD_RESET\<close> terminates and succeeds: all its loops end, every thread that waited to
  receive or to send is awake with the error \<^verbatim>\<open>-RT_ERROR\<close>, the queue is empty and well formed, and every node is free again.
\<close>

theorem rt_mq_control_resets:
  assumes call: "caller c t s" and inv: "mq_inv i s" and mq: "mqueues s i = Some mq"
  shows "\<exists>s' mq'. rt_mq_control c i RT_IPC_CMD_RESET s = Some (RT_EOK, s') \<and> kernel_ok s' \<and> mq_inv i s' \<and>
     mqueues s' i = Some mq' \<and> mq_msgs mq' = [] \<and> (\<exists>fs. mq_rep mq' [] fs \<and> length fs = unat (mq_max_msgs mq)) \<and>
     tq s' (SuspendQ (Mqueue i)) = [] \<and> tq s' (SenderQ (Mqueue i)) = [] \<and>
     (\<forall>u \<in> set (tq s (SuspendQ (Mqueue i))) \<union> set (tq s (SenderQ (Mqueue i))).
        th_error (threads s' u) = - RT_ERROR \<and> stat_of (threads s' u) \<noteq> RT_THREAD_SUSPEND)"
proof -
  let ?r = "SuspendQ (Mqueue i)" and ?w = "SenderQ (Mqueue i)"
  obtain s1 s2 where s2: "rt_ipc_list_resume_all c ?r s = Some s1" "rt_ipc_list_resume_all c ?w s1 = Some s2" "caller c t s2"
    "\<forall>u \<in> set (tq s ?r) \<union> set (tq s ?w). th_error (threads s2 u) = -1 \<and> stat_of (threads s2 u) \<noteq> 2"
    "tq s2 ?r = []" "tq s2 ?w = []" "ipcs s2 = ipcs s"
    by (rule resume_both [OF call, of ?r ?w]) simp_all
  have mq2: "mqueues s2 i = Some mq" using s2(7) mq by (simp add: ipcs_def)
  obtain qs fs where I: "ipc_flag (mq_flag mq)" "mq_rep mq qs fs" using inv mq by (auto simp: mq_inv_def)
  obtain mq1 where m: "mq_release_all mq = Some mq1" "mq_rep (mq1\<lparr>mq_entry := 0\<rparr>) [] (rev qs @ fs)"
    "mq_flag mq1 = mq_flag mq" "length (rev qs @ fs) = unat (mq_max_msgs mq)"
    by (rule mq_release_all_rep [OF I(2)])
  let ?mq' = "mq1\<lparr>mq_entry := 0\<rparr>" let ?s3 = "upd_mq i ?mq' s2"
  have c3: "caller c t ?s3" using s2(3) by simp
  have lv: "live (threads ?s3 t)" using callerD(3) [OF c3] by (simp add: live_def)
  obtain s' v where s': "rt_schedule c ?s3 = Some s'" "kernel_ok s'" "rest s' = rest ?s3"
    "\<forall>u. th_frame (threads ?s3 u) (threads s' u)" "\<forall>q. \<not> is_ready q \<longrightarrow> tq s' q = tq ?s3 q"
    "\<forall>u. stat_of (threads s' u) = 2 \<longleftrightarrow> stat_of (threads ?s3 u) = 2"
    by (rule kernel_ok_schedule [OF callerD(1,2) [OF c3] disjI1 [OF callerD(3) [OF c3]] lv])
  have "rt_mq_control c i RT_IPC_CMD_RESET s = Some (0, s')"
    using mq s2(1,2) mq2 m(1) s'(1) by (simp add: rt_mq_control_def)
  moreover have mq': "mqueues s' i = Some ?mq'" using restD(7) [OF s'(3)] by simp
  moreover have "mq_inv i s'" using mq' m(2,3) I(1) by (auto simp: mq_inv_def)
  moreover have "mq_msgs ?mq' = []" using mq_rep_msgs [OF m(2)] by simp
  moreover have "tq s' ?r = []" "tq s' ?w = []" using s'(5) s2(5,6) by simp_all
  moreover have "th_error (threads s' u) = -1 \<and> stat_of (threads s' u) \<noteq> 2" if "u \<in> set (tq s ?r) \<union> set (tq s ?w)" for u
    using s2(4) that s'(6) th_frameD(1) [OF s'(4) [rule_format, of u]] by simp
  ultimately show ?thesis using s'(2) m(2,4) by blast
qed

theorem rt_mq_control_resets_witness:
  "\<exists>s'. rt_mq_control 0 7 RT_IPC_CMD_RESET (ex_mq (ex_waiting (SuspendQ (Mqueue 7)))) = Some (RT_EOK, s') \<and>
     th_error (threads s' 4) = - RT_ERROR"
proof -
  let ?w = "ex_waiting (SuspendQ (Mqueue 7))"
  have "caller 0 1 ?w" using ex_waiting_ok by blast
  then have c: "caller 0 1 (ex_mq ?w)" by (simp add: ex_mq_ok)
  obtain mq where mq: "mqueues (ex_mq ?w) 7 = Some mq" using ex_mq_ok(4) by blast
  have "4 \<in> set (tq (ex_mq ?w) (SuspendQ (Mqueue 7)))" by (simp add: ex_mq_ok(5) ex_waiting_def)
  then show ?thesis using rt_mq_control_resets [OF c ex_mq_ok(3) mq] by blast
qed

end
