(* ===== verification/Kernel_Api.thy ===== *)
theory Kernel_Api
  imports Semaphore Mutex Event Message_Queue
begin

text \<open>
  The IPC objects of \<^verbatim>\<open>src/ipc.c\<close> together. Each object has an invariant of its own; a call on one object
  changes the waiting lists, the threads and the scheduler that the others rely on. The locale states
  what an object relies on, the interpretations show it for every class, and the calls are shown to
  keep to it. The result is the soundness of the kernel interface: in a well-formed kernel no call of a
  running thread fails an assertion or follows a bad pointer, and the kernel stays well-formed. No timer is in the
  temporary list of \<^verbatim>\<open>rt_timer_check\<close> in a well-formed kernel: that list has its head on the stack of a function
  that has returned, and the calls leave it empty.
\<close>

subsection \<open>What an object relies on\<close>

locale ipc_object =
  fixes self :: oid and inv :: "kernel \<Rightarrow> bool"
  assumes stable: "inv s \<Longrightarrow> kernel_ok s \<Longrightarrow> ipc_frame x s s' \<Longrightarrow> x \<noteq> self \<Longrightarrow> inv s'"
begin

text \<open>Calls on other objects, however many, do not disturb it.\<close>

lemma stable_run:
  assumes "run (\<lambda>s x s'. kernel_ok s \<and> ipc_frame x s s') s xs s'" "self \<notin> set xs" "inv s"
  shows "inv s'"
  using assms by (induction rule: run.induct) (auto intro: stable)

end

lemma ipc_frameD:
  assumes "ipc_frame x s s'"
  shows "objs_frame x s s'" "y \<noteq> x \<Longrightarrow> tq s' (SuspendQ y) = tq s (SuspendQ y)"
    "live (threads s t) \<Longrightarrow> live (threads s' t)"
    "stat_of (threads s t) = RT_THREAD_SUSPEND \<Longrightarrow> t \<notin> set (tq s (SuspendQ x)) \<Longrightarrow> same_request (threads s t) (threads s' t)"
  using assms by (simp_all add: ipc_frame_def)

lemma waits_for_one:
  assumes "kernel_ok s" "t \<in> set (tq s (SuspendQ y))" "y \<noteq> x"
  shows "t \<notin> set (tq s (SuspendQ x))"
proof -
  have "q_ok (tq s)" using kernel_okD(1) [OF assms(1)] by (simp add: sched_ok_def rq_ok_def)
  from q_okD [OF this assms(2), of "SuspendQ x"] assms(3) show ?thesis by auto
qed

interpretation semaphore_object: ipc_object "Sem i" "sem_inv i" for i
proof
  fix s x s' assume "sem_inv i s" "kernel_ok s" and f: "ipc_frame x s s'" and "x \<noteq> Sem i"
  then show "sem_inv i s'" using ipc_frameD(1) [OF f] ipc_frameD(2) [OF f, of "Sem i"] by (auto simp: sem_inv_def objs_frame_def)
qed

interpretation mutex_object: ipc_object "Mutex i" "mutex_inv i" for i
proof
  fix s x s' assume I: "mutex_inv i s" and "kernel_ok s" and f: "ipc_frame x s s'" and x: "x \<noteq> Mutex i"
  have "mutexes s' i = mutexes s i" "tq s' (SuspendQ (Mutex i)) = tq s (SuspendQ (Mutex i))"
    using ipc_frameD(1,2) [OF f] x by (auto simp: objs_frame_def)
  then show "mutex_inv i s'" using I ipc_frameD(3) [OF f] by (auto simp: mutex_inv_def split: option.splits)
qed

interpretation event_object: ipc_object "Event i" "event_inv i" for i
proof
  fix s x s' assume I: "event_inv i s" and k: "kernel_ok s" and f: "ipc_frame x s s'" and x: "x \<noteq> Event i"
  have e: "events s' i = events s i" "tq s' (SuspendQ (Event i)) = tq s (SuspendQ (Event i))"
    using ipc_frameD(1,2) [OF f] x by (auto simp: objs_frame_def)
  have "same_request (threads s t) (threads s' t)" if t: "t \<in> set (tq s (SuspendQ (Event i)))" for t
  proof (rule ipc_frameD(4) [OF f])
    show "stat_of (threads s t) = 2" by (rule suspend_q_stat [OF kernel_okD(1) [OF k] disjI1 [OF t]])
    show "t \<notin> set (tq s (SuspendQ x))" by (rule waits_for_one [OF k t]) (use x in simp)
  qed
  then show "event_inv i s'" using I unfolding event_inv_def e by (auto simp: same_request_def)
qed

interpretation mailbox_object: ipc_object "Mailbox i" "mb_inv i" for i
proof
  fix s x s' assume "mb_inv i s" "kernel_ok s" and f: "ipc_frame x s s'" and "x \<noteq> Mailbox i"
  then show "mb_inv i s'" using ipc_frameD(1) [OF f] by (auto simp: mb_inv_def objs_frame_def)
qed

interpretation mqueue_object: ipc_object "Mqueue i" "mq_inv i" for i
proof
  fix s x s' assume "mq_inv i s" "kernel_ok s" and f: "ipc_frame x s s'" and "x \<noteq> Mqueue i"
  then show "mq_inv i s'" using ipc_frameD(1) [OF f] by (auto simp: mq_inv_def objs_frame_def)
qed

subsection \<open>The well-formed kernel\<close>

fun obj_exists :: "kernel \<Rightarrow> oid \<Rightarrow> bool" where
  "obj_exists s (Sem i) = (sems s i \<noteq> None)"
| "obj_exists s (Mutex i) = (mutexes s i \<noteq> None)"
| "obj_exists s (Event i) = (events s i \<noteq> None)"
| "obj_exists s (Mailbox i) = (mailboxes s i \<noteq> None)"
| "obj_exists s (Mqueue i) = (mqueues s i \<noteq> None)"
| "obj_exists s (Mempool i) = False"

fun obj_inv :: "kernel \<Rightarrow> oid \<Rightarrow> bool" where
  "obj_inv s (Sem i) = sem_inv i s"
| "obj_inv s (Mutex i) = mutex_inv i s"
| "obj_inv s (Event i) = event_inv i s"
| "obj_inv s (Mailbox i) = mb_inv i s"
| "obj_inv s (Mqueue i) = mq_inv i s"
| "obj_inv s (Mempool i) = True"

definition system_ok :: "kernel \<Rightarrow> bool" where
  "system_ok s \<longleftrightarrow> kernel_ok s \<and> tml s TempList = [] \<and> (\<forall>x. obj_exists s x \<longrightarrow> obj_inv s x)"

lemma obj_frame:
  assumes "obj_inv s y" "kernel_ok s" "ipc_frame x s s'" "x \<noteq> y"
  shows "obj_inv s' y"
  using assms semaphore_object.stable mutex_object.stable event_object.stable mailbox_object.stable mqueue_object.stable
  by (cases y) auto

lemma obj_exists_frame: "objs_frame x s s' \<Longrightarrow> x \<noteq> y \<Longrightarrow> obj_exists s' y = obj_exists s y"
  by (cases y) (auto simp: objs_frame_def)

lemma system_ok_frame:
  assumes "system_ok s" "kernel_ok s'" "ipc_frame x s s'" "obj_inv s' x" "tml s' TempList = []"
  shows "system_ok s'"
  unfolding system_ok_def
proof (intro conjI allI impI)
  fix y assume y: "obj_exists s' y"
  show "obj_inv s' y"
  proof (cases "y = x")
    case False
    then have "obj_inv s y" using assms(1) y obj_exists_frame [OF ipc_frameD(1) [OF assms(3)], of y] by (auto simp: system_ok_def)
    then show ?thesis using obj_frame assms(1,3) False by (auto simp: system_ok_def)
  qed (use assms(4) in simp)
qed (use assms(2,5) in simp_all)

subsection \<open>The calls keep to the frame\<close>

text \<open>A call on object \<open>x\<close> that comes to state \<open>s'\<close> keeps the frame and leaves some thread running on the hart.\<close>

definition framed :: "nat \<Rightarrow> oid \<Rightarrow> kernel \<Rightarrow> kernel \<Rightarrow> bool" where
  "framed c x s s' \<longleftrightarrow> kernel_ok s' \<and> ipc_frame x s s' \<and> (\<exists>v. caller c v s')"

lemma framed_blocked: "prepared x s s0 \<Longrightarrow> q = SuspendQ x \<or> q = SenderQ x \<Longrightarrow> blocked_at c q t xs time s0 s' \<Longrightarrow> framed c x s s'"
  using blocked_frame by (simp add: framed_def)

lemma framed_woken: "prepared x s s0 \<Longrightarrow> q = SuspendQ x \<or> q = SenderQ x \<Longrightarrow> woken c q t ts s0 s' \<Longrightarrow> framed c x s s'"
  using woken_frame by (simp add: framed_def)

lemma framed_stays: "prepared x s s' \<Longrightarrow> caller c t s' \<Longrightarrow> framed c x s s'"
  using prepared_frame callerD(1) by (auto simp: framed_def)

lemma framed_wakes:
  assumes "prepared x s s0" "q = SuspendQ x \<or> q = SenderQ x" "wakes_first c q s0 s'" "caller c t s0"
  shows "framed c x s s'"
  using assms framed_woken [OF assms(1,2)] framed_stays [OF assms(1)] by (auto simp: wakes_first_def split: list.splits)

lemma prepared_same [simp]: "prepared x s s"
  by (simp add: prepared_def)

lemma prepared_error:
  assumes "caller c t s"
  shows "prepared x s (upd_thread t (\<lambda>th. th\<lparr>th_error := e\<rparr>) s)"
  by (rule prepared_own [OF assms, where th = "threads s t\<lparr>th_error := e\<rparr>"]) (use callerD(3) [OF assms] in \<open>simp_all add: live_def\<close>)

lemma sem_take_framed:
  assumes "caller c t s" "sem_inv i s" "eligible c s u" "time = 0 \<or> wait_time time"
  shows "\<exists>out s'. rt_sem_take c i time s = Some (out, s') \<and> framed c (Sem i) s s' \<and> sem_inv i s'"
proof -
  obtain sem where sem: "sems s i = Some sem" "ipc_flag (sem_flag sem)" using assms(2) by (auto simp: sem_inv_def)
  note C = sem_take_cases [OF assms(1) sem assms(3,4)]
  have "\<exists>out s'. rt_sem_take c i time s = Some (out, s') \<and> framed c (Sem i) s s'"
  proof (cases "sem_value sem > 0 \<or> time = 0")
    case True
    have "prepared (Sem i) s (s\<lparr>sems := (sems s)(i \<mapsto> sem\<lparr>sem_value := v\<rparr>)\<rparr>)" for v by (rule prepared_obj) simp_all
    then have "framed c (Sem i) s (s\<lparr>sems := (sems s)(i \<mapsto> sem\<lparr>sem_value := v\<rparr>)\<rparr>)" for v
      using framed_stays assms(1) by (metis caller_ipc(1))
    then show ?thesis using C True framed_stays [OF prepared_same assms(1)] by (auto split: if_splits)
  next
    case False
    then show ?thesis using C framed_blocked [OF prepared_error [OF assms(1)]] by auto blast
  qed
  then show ?thesis using sem_take_step [OF assms(2,1,3,4)] by blast
qed

lemma sem_release_framed:
  assumes "caller c t s" "sem_inv i s"
  shows "\<exists>e s'. rt_sem_release c i s = Some (e, s') \<and> framed c (Sem i) s s' \<and> sem_inv i s'"
proof -
  obtain sem where sem: "sems s i = Some sem" using assms(2) by (auto simp: sem_inv_def)
  note C = sem_release_cases [OF assms(1) sem]
  have p: "prepared (Sem i) s (s\<lparr>sems := (sems s)(i \<mapsto> sem\<lparr>sem_value := v\<rparr>)\<rparr>)" for v by (rule prepared_obj) simp_all
  have "\<exists>e s'. rt_sem_release c i s = Some (e, s') \<and> framed c (Sem i) s s'"
  proof (cases "tq s (SuspendQ (Sem i))")
    case Nil
    then show ?thesis using C framed_stays [OF prepared_same assms(1)] framed_stays [OF p] assms(1) by (auto split: if_splits)
  next
    case (Cons w ws)
    then show ?thesis using C framed_woken [OF prepared_same] by auto blast
  qed
  then show ?thesis using sem_release_step [OF assms(2,1)] by blast
qed

lemma mutex_take_framed:
  assumes call: "caller c t s" and inv: "mutex_inv i s" and el: "eligible c s u" and tm: "time = 0 \<or> wait_time time"
  shows "\<exists>out s'. rt_mutex_take c i time s = Some (out, s') \<and> framed c (Mutex i) s s' \<and> mutex_inv i s'"
proof -
  obtain m where m: "mutexes s i = Some m" using inv by (auto simp: mutex_inv_def)
  note C = mutex_take_cases [OF call inv m el tm]
  let ?s1 = "upd_thread t (\<lambda>th. th\<lparr>th_error := RT_EOK\<rparr>) s"
  have "prepared (Mutex i) s (upd_mutex i m' ?s1)" for m'
    by (rule prepared_own [OF call, where th = "threads s t\<lparr>th_error := RT_EOK\<rparr>"])
      (use callerD(3) [OF call] in \<open>simp_all add: live_def objs_frame_def\<close>)
  then have upd: "framed c (Mutex i) s (upd_mutex i m' ?s1)" for m'
    using framed_stays caller_error [OF call] by (metis caller_ipc(2))
  have err: "framed c (Mutex i) s (upd_thread t (\<lambda>th. th\<lparr>th_error := e\<rparr>) s)" for e
    by (rule framed_stays [OF prepared_error [OF call] caller_error [OF call]])
  have "\<exists>out s'. rt_mutex_take c i time s = Some (out, s') \<and> framed c (Mutex i) s s'"
  proof (cases "\<exists>own. mtx_owner m = Some own \<and> own \<noteq> t \<and> time \<noteq> 0")
    case False
    then show ?thesis using C upd err by (auto simp: Let_def split: option.splits if_splits)
  next
    case True
    then obtain own where own: "mtx_owner m = Some own" "own \<noteq> t" "time \<noteq> 0" by blast
    then obtain s2 s' where s': "rt_mutex_take c i time s = Some (Blocked, s')"
      "blocked c (SuspendQ (Mutex i)) t (mtx_flag m) time s2 s'" "ipcs s2 = ipcs s" "\<forall>k. \<not> is_ready k \<longrightarrow> tq s2 k = tq s k"
      "\<forall>v. v \<noteq> own \<longrightarrow> threads s2 v = threads ?s1 v" "live (threads s2 own)" "same_request (threads s own) (threads s2 own)"
      using C by (auto simp: Let_def)
    have lt: "live (threads s t)" "stat_of (threads s t) = 3" using callerD(3) [OF call] by (simp_all add: live_def)
    have "prepared (Mutex i) s s2" unfolding prepared_def
    proof (intro conjI allI impI)
      show "objs_frame (Mutex i) s s2" by (rule objs_frame_ipcs [OF objs_frame_upd(1) s'(3)])
      show "same_request (threads s v) (threads s2 v)" if "stat_of (threads s v) = 2" for v
        using s'(5,7) lt that by (cases "v = own"; cases "v = t") auto
      show "live (threads s2 v)" if "live (threads s v)" for v
        using s'(5,6) lt that by (cases "v = own"; cases "v = t") auto
    qed (use s'(4) in simp)
    then show ?thesis using s'(1) framed_blocked [OF _ disjI1 [OF refl] s'(2)] by blast
  qed
  then show ?thesis using mutex_take_step [OF inv call el tm] by blast
qed

lemma mutex_release_framed:
  assumes call: "caller c t s" and inv: "mutex_inv i s"
  shows "\<exists>e s'. rt_mutex_release c i s = Some (e, s') \<and> framed c (Mutex i) s s' \<and> mutex_inv i s'"
proof -
  obtain m where m: "mutexes s i = Some m" using inv by (auto simp: mutex_inv_def)
  note C = mutex_release_cases [OF call inv m]
  have upd: "framed c (Mutex i) s (upd_mutex i m' s)" for m'
    by (rule framed_stays [OF prepared_obj]) (use call in simp_all)
  have err: "framed c (Mutex i) s (upd_thread t (\<lambda>th. th\<lparr>th_error := e\<rparr>) s)" for e
    by (rule framed_stays [OF prepared_error [OF call] caller_error [OF call]])
  have prep: "prepared (Mutex i) s s1" if "caller c t s1" "\<forall>v. v \<noteq> t \<longrightarrow> threads s1 v = threads s v"
    "\<forall>k. \<not> is_ready k \<longrightarrow> tq s1 k = tq s k" "objs_frame (Mutex i) s s1" for s1
    unfolding prepared_def
  proof (intro conjI allI impI)
    show "same_request (threads s v) (threads s1 v)" if "stat_of (threads s v) = 2" for v
      using \<open>\<forall>v. v \<noteq> t \<longrightarrow> threads s1 v = threads s v\<close> callerD(3) [OF call] that by (cases "v = t") auto
    show "live (threads s1 v)" if "live (threads s v)" for v
      using \<open>\<forall>v. v \<noteq> t \<longrightarrow> threads s1 v = threads s v\<close> callerD(3) [OF \<open>caller c t s1\<close>] that
      by (cases "v = t") (auto simp: live_def)
  qed (use that in simp_all)
  have "\<exists>e s'. rt_mutex_release c i s = Some (e, s') \<and> framed c (Mutex i) s s'"
  proof (cases "mtx_owner m = Some t \<and> mtx_hold m = 1")
    case False
    then show ?thesis using C upd err by (auto split: if_splits)
  next
    case True
    then obtain s1 s' where s1: "rt_mutex_release c i s = Some (RT_EOK, s')" "caller c t s1"
      "\<forall>v. v \<noteq> t \<longrightarrow> threads s1 v = threads s v" "\<forall>k. \<not> is_ready k \<longrightarrow> tq s1 k = tq s k"
      "case tq s (SuspendQ (Mutex i)) of
          [] \<Rightarrow> ipcs s1 = ipcs s \<and> s' = upd_mutex i (m\<lparr>mtx_hold := 0, mtx_value := 1, mtx_owner := None, mtx_original_priority := 0xff\<rparr>) s1
        | w # ws \<Rightarrow> ipcs s1 = ipcs (upd_mutex i (m\<lparr>mtx_owner := Some w, mtx_original_priority := th_current_priority (threads s w), mtx_hold := 1\<rparr>) s) \<and>
             woken c (SuspendQ (Mutex i)) w ws s1 s'"
      using C by auto
    have "framed c (Mutex i) s s'"
    proof (cases "tq s (SuspendQ (Mutex i))")
      case Nil
      let ?m' = "m\<lparr>mtx_hold := 0, mtx_value := 1, mtx_owner := None, mtx_original_priority := 0xff\<rparr>"
      have s': "s' = upd_mutex i ?m' s1" and ip: "ipcs s1 = ipcs s" using s1(5) Nil by simp_all
      have "objs_frame (Mutex i) s s'" unfolding s' using ipcsD [OF ip] by (simp add: objs_frame_def)
      then have "prepared (Mutex i) s s'" by (intro prep) (use s1(2-4) s' in simp_all)
      then show ?thesis by (rule framed_stays) (use s1(2) s' in simp)
    next
      case (Cons w ws)
      have "objs_frame (Mutex i) s s1" by (rule objs_frame_ipcs [OF objs_frame_upd(5)]) (use s1(5) Cons in simp)
      then have "prepared (Mutex i) s s1" by (intro prep s1)
      then show ?thesis using framed_woken [OF _ disjI1 [OF refl]] s1(5) Cons by auto
    qed
    then show ?thesis using s1(1) by blast
  qed
  then show ?thesis using mutex_release_step [OF inv call] by blast
qed

lemma event_send_framed:
  assumes call: "caller c t s" and inv: "event_inv i s"
  shows "\<exists>e s'. rt_event_send c i bits s = Some (e, s') \<and> framed c (Event i) s s' \<and> event_inv i s'"
proof -
  obtain ev where ev: "events s i = Some ev" using inv by (auto simp: event_inv_def)
  show ?thesis
  proof (cases "bits = 0")
    case True
    then show ?thesis using ev inv framed_stays [OF prepared_same call] by (simp add: rt_event_send_def)
  next
    case False
    from event_send_ok [OF call inv ev False refl] show ?thesis by (auto simp: framed_def)
  qed
qed

lemma event_recv_framed:
  assumes call: "caller c t s" and inv: "event_inv i s" and opt: "option_ok opt" and el: "eligible c s u" "time = 0 \<or> wait_time time"
  shows "\<exists>out rec s'. rt_event_recv c i bits opt time s = Some (out, rec, s') \<and> framed c (Event i) s s' \<and> event_inv i s'"
proof -
  obtain ev where ev: "events s i = Some ev" using inv by (auto simp: event_inv_def)
  show ?thesis
  proof (cases "bits = 0")
    case True
    then show ?thesis using ev inv framed_stays [OF prepared_same call] callerD(5) [OF call] by (simp add: rt_event_recv_def)
  next
    case False
    from event_recv_ok [OF call inv ev False opt el] show ?thesis unfolding framed_def by blast
  qed
qed

lemma two_errors: "upd_thread t (\<lambda>th. th\<lparr>th_error := e\<rparr>) (no_error t s) = upd_thread t (\<lambda>th. th\<lparr>th_error := e\<rparr>) s"
  by (simp add: upd_thread_def)

lemma err_framed: "caller c t s \<Longrightarrow> framed c x s (upd_thread t (\<lambda>th. th\<lparr>th_error := e\<rparr>) s)"
  by (rule framed_stays [OF prepared_error caller_error])

text \<open>Calls that go on after the caller has waited.\<close>

lemma resumed:
  assumes "caller c t s" "\<exists>out s'. g = Some (out, s') \<and> framed c x s s'"
  shows "\<exists>out s'. do { t \<leftarrow> rt_thread_self c s;
      if th_error (threads s t) \<noteq> RT_EOK then Some (Done (th_error (threads s t)), s) else g } = Some (out, s') \<and> framed c x s s'"
  using assms framed_stays [OF prepared_same assms(1), of x] callerD(4) [OF assms(1)] by auto

lemma resumed_recv:
  assumes "caller c t s" "\<exists>out rec s'. g = Some (out, rec, s') \<and> framed c x s s'"
  shows "\<exists>out rec s'. do { t \<leftarrow> rt_thread_self c s;
      if th_error (threads s t) \<noteq> RT_EOK then Some (Done (th_error (threads s t)), None, s) else g } = Some (out, rec, s') \<and> framed c x s s'"
  using assms framed_stays [OF prepared_same assms(1), of x] callerD(4) [OF assms(1)] by auto

lemma mb_send_loop_framed:
  assumes call: "caller c t s" and inv: "mb_inv i s" and el: "eligible c s u" and tm: "time = 0 \<or> wait_time time"
  shows "\<exists>out s'. mb_send_loop c i v time s = Some (out, s') \<and> framed c (Mailbox i) s s'"
proof -
  obtain mb where mb: "mailboxes s i = Some mb" using inv by (auto simp: mb_inv_def)
  note C = mb_send_loop_cases [OF call inv mb el tm, of v]
  have p: "prepared (Mailbox i) s (upd_mb i x s)" "caller c t (upd_mb i x s)" for x
    using call by (auto intro: prepared_obj)
  show ?thesis
  proof (cases "mb_entry mb \<noteq> mb_size mb")
    case True
    then show ?thesis using C framed_wakes [OF p(1) disjI1 [OF refl] _ p(2)] by auto
  next
    case False
    then show ?thesis using C err_framed [OF call] framed_blocked [OF prepared_error [OF call] disjI2 [OF refl]]
      by (cases "time = 0"; simp; blast)
  qed
qed

lemma mb_send_framed:
  assumes call: "caller c t s" and inv: "mb_inv i s" and el: "eligible c s u" and tm: "time = 0 \<or> wait_time time"
  shows "\<exists>out s'. rt_mb_send_wait c i v time s = Some (out, s') \<and> framed c (Mailbox i) s s' \<and> mb_inv i s'"
proof -
  obtain mb where mb: "mailboxes s i = Some mb" using inv by (auto simp: mb_inv_def)
  have "\<exists>out s'. rt_mb_send_wait c i v time s = Some (out, s') \<and> framed c (Mailbox i) s s'"
    using mb mb_send_loop_framed [OF assms, of v] framed_stays [OF prepared_same call] by (auto simp: rt_mb_send_wait_def)
  then show ?thesis using mailbox.step_inv [OF inv mb_step.send [OF call el tm]] by blast
qed

lemma mb_send_resume_framed:
  assumes call: "caller c t s" and inv: "mb_inv i s" and el: "eligible c s u"
    and tm: "remaining time tick (rt_tick_get s) = 0 \<or> wait_time (remaining time tick (rt_tick_get s))"
  shows "\<exists>out s'. rt_mb_send_wait_resume c i v time tick s = Some (out, s') \<and> framed c (Mailbox i) s s' \<and> mb_inv i s'"
  using resumed [OF call mb_send_loop_framed [OF assms, of v]] mailbox.step_inv [OF inv mb_step.send_resume [OF call el tm]]
  unfolding rt_mb_send_wait_resume_def by blast

lemma mb_recv_loop_framed:
  assumes call: "caller c t s" and inv: "mb_inv i s" and el: "eligible c s u" and tm: "time = 0 \<or> wait_time time"
  shows "\<exists>out rec s'. mb_recv_loop c i time s = Some (out, rec, s') \<and> framed c (Mailbox i) s s'"
proof -
  obtain mb where mb: "mailboxes s i = Some mb" using inv by (auto simp: mb_inv_def)
  note C = mb_recv_loop_cases [OF call inv mb el tm]
  have p: "prepared (Mailbox i) s (upd_mb i x s)" "caller c t (upd_mb i x s)" for x
    using call by (auto intro: prepared_obj)
  show ?thesis
  proof (cases "mb_entry mb \<noteq> 0")
    case True
    then show ?thesis using C framed_wakes [OF p(1) disjI2 [OF refl] _ p(2)] by auto
  next
    case False
    then show ?thesis using C err_framed [OF call] framed_blocked [OF prepared_error [OF call] disjI1 [OF refl]]
      unfolding two_errors by (cases "time = 0"; simp; blast)
  qed
qed

lemma mb_recv_framed:
  assumes call: "caller c t s" and inv: "mb_inv i s" and el: "eligible c s u" and tm: "time = 0 \<or> wait_time time"
  shows "\<exists>out rec s'. rt_mb_recv c i time s = Some (out, rec, s') \<and> framed c (Mailbox i) s s' \<and> mb_inv i s'"
proof -
  obtain mb where mb: "mailboxes s i = Some mb" using inv by (auto simp: mb_inv_def)
  have "\<exists>out rec s'. rt_mb_recv c i time s = Some (out, rec, s') \<and> framed c (Mailbox i) s s'"
    using mb mb_recv_loop_framed [OF assms] framed_stays [OF prepared_same call] by (auto simp: rt_mb_recv_def)
  then show ?thesis using mailbox.step_inv [OF inv mb_step.recv [OF call el tm]] by blast
qed

lemma mb_recv_resume_framed:
  assumes call: "caller c t s" and inv: "mb_inv i s" and el: "eligible c s u"
    and tm: "remaining time tick (rt_tick_get s) = 0 \<or> wait_time (remaining time tick (rt_tick_get s))"
  shows "\<exists>out rec s'. rt_mb_recv_resume c i time tick s = Some (out, rec, s') \<and> framed c (Mailbox i) s s' \<and> mb_inv i s'"
  using resumed_recv [OF call mb_recv_loop_framed [OF assms]] mailbox.step_inv [OF inv mb_step.recv_resume [OF call el tm]]
  unfolding rt_mb_recv_resume_def by blast

lemma mq_send_loop_framed:
  assumes call: "caller c t s" and inv: "mq_inv i s" and el: "eligible c s u" and tm: "time = 0 \<or> wait_time time"
    and mq: "mqueues s i = Some mq" and len: "length b \<le> unat (mq_msg_size mq)"
  shows "\<exists>out s'. mq_send_loop c i b time s = Some (out, s') \<and> framed c (Mqueue i) s s'"
proof -
  have p: "prepared (Mqueue i) s (upd_mq i x s)" "caller c t (upd_mq i x s)" for x
    using call by (auto intro: prepared_obj)
  note C = mq_send_loop_cases [OF call inv mq len el tm]
  show ?thesis
  proof (cases "mq_queue_free mq \<noteq> None")
    case True
    then show ?thesis using C framed_wakes [OF p(1) disjI1 [OF refl] _ p(2)] by auto
  next
    case False
    then show ?thesis using C err_framed [OF call] framed_blocked [OF prepared_error [OF call] disjI2 [OF refl]]
      by (cases "time = 0"; simp; blast)
  qed
qed

lemma mq_send_framed:
  assumes call: "caller c t s" and inv: "mq_inv i s" and el: "eligible c s u" and tm: "time = 0 \<or> wait_time time" and b: "b \<noteq> []"
  shows "\<exists>out s'. rt_mq_send_wait c i b time s = Some (out, s') \<and> framed c (Mqueue i) s s' \<and> mq_inv i s'"
proof -
  obtain mq where mq: "mqueues s i = Some mq" using inv by (auto simp: mq_inv_def)
  have "\<exists>out s'. rt_mq_send_wait c i b time s = Some (out, s') \<and> framed c (Mqueue i) s s'"
    using mq b mq_send_loop_framed [OF assms(1-4) mq] framed_stays [OF prepared_same call] by (auto simp: rt_mq_send_wait_unfold not_less)
  then show ?thesis using message_queue.step_inv [OF inv mq_step.send [OF call el tm]] by blast
qed

lemma mq_send_resume_framed:
  assumes call: "caller c t s" and inv: "mq_inv i s" and el: "eligible c s u"
    and tm: "remaining time tick (rt_tick_get s) = 0 \<or> wait_time (remaining time tick (rt_tick_get s))"
    and mq: "mqueues s i = Some mq" and len: "length b \<le> unat (mq_msg_size mq)"
  shows "\<exists>out s'. rt_mq_send_wait_resume c i b time tick s = Some (out, s') \<and> framed c (Mqueue i) s s' \<and> mq_inv i s'"
  using resumed [OF call mq_send_loop_framed [OF assms]] message_queue.step_inv [OF inv mq_step.send_resume [OF call el tm mq len]]
  unfolding mq_resume_unfold by blast

lemma mq_urgent_framed:
  assumes call: "caller c t s" and inv: "mq_inv i s" and b: "b \<noteq> []"
  shows "\<exists>out s'. rt_mq_urgent c i b s = Some (out, s') \<and> framed c (Mqueue i) s s' \<and> mq_inv i s'"
proof -
  obtain mq where mq: "mqueues s i = Some mq" using inv by (auto simp: mq_inv_def)
  have p: "prepared (Mqueue i) s (upd_mq i x s)" "caller c t (upd_mq i x s)" for x
    using call by (auto intro: prepared_obj)
  have "\<exists>out s'. rt_mq_urgent c i b s = Some (out, s') \<and> framed c (Mqueue i) s s'"
    using mq_urgent_cases [OF call inv mq b] framed_wakes [OF p(1) disjI1 [OF refl] _ p(2)] framed_stays [OF prepared_same call]
    by (auto split: if_splits)
  then show ?thesis using message_queue.step_inv [OF inv mq_step.urgent [OF call]] by blast
qed

lemma mq_recv_loop_framed:
  assumes call: "caller c t s" and inv: "mq_inv i s" and el: "eligible c s u" and tm: "time = 0 \<or> wait_time time"
  shows "\<exists>out rec s'. mq_recv_loop c i n time s = Some (out, rec, s') \<and> framed c (Mqueue i) s s'"
proof -
  obtain mq where mq: "mqueues s i = Some mq" using inv by (auto simp: mq_inv_def)
  note C = mq_recv_loop_cases [OF call inv mq el tm, of n]
  have p: "prepared (Mqueue i) s (upd_mq i x s)" "caller c t (upd_mq i x s)" for x
    using call by (auto intro: prepared_obj)
  show ?thesis
  proof (cases "mq_msgs mq")
    case (Cons m ms)
    then show ?thesis using C framed_wakes [OF p(1) disjI2 [OF refl] _ p(2)] by auto
  next
    case Nil
    then show ?thesis using C err_framed [OF call] framed_blocked [OF prepared_error [OF call] disjI1 [OF refl]]
      unfolding two_errors by (cases "time = 0"; simp; blast)
  qed
qed

lemma mq_recv_framed:
  assumes call: "caller c t s" and inv: "mq_inv i s" and el: "eligible c s u" and tm: "time = 0 \<or> wait_time time" and n: "n \<noteq> 0"
  shows "\<exists>out rec s'. rt_mq_recv c i n time s = Some (out, rec, s') \<and> framed c (Mqueue i) s s' \<and> mq_inv i s'"
proof -
  obtain mq where mq: "mqueues s i = Some mq" using inv by (auto simp: mq_inv_def)
  have "\<exists>out rec s'. rt_mq_recv c i n time s = Some (out, rec, s') \<and> framed c (Mqueue i) s s'"
    using mq n mq_recv_loop_framed [OF assms(1-4), of n] framed_stays [OF prepared_same call] by (auto simp: rt_mq_recv_unfold)
  then show ?thesis using message_queue.step_inv [OF inv mq_step.recv [OF call el tm]] by blast
qed

lemma mq_recv_resume_framed:
  assumes call: "caller c t s" and inv: "mq_inv i s" and el: "eligible c s u"
    and tm: "remaining time tick (rt_tick_get s) = 0 \<or> wait_time (remaining time tick (rt_tick_get s))"
  shows "\<exists>out rec s'. rt_mq_recv_resume c i n time tick s = Some (out, rec, s') \<and> framed c (Mqueue i) s s' \<and> mq_inv i s'"
  using resumed_recv [OF call mq_recv_loop_framed [OF assms, of n]] message_queue.step_inv [OF inv mq_step.recv_resume [OF call el tm]]
  unfolding mq_resume_unfold by blast

subsection \<open>The temporary timer list stays empty\<close>

abbreviation no_temp :: "kernel \<Rightarrow> bool" where
  "no_temp s \<equiv> tml s TempList = []"

lemma temp_schedule: "rt_schedule c s = Some s' \<Longrightarrow> no_temp s \<Longrightarrow> no_temp s'"
  using rest_schedule [of c s s'] by (simp add: rest_def)

lemma temp_timer:
  "rt_timer_stop i s = Some (e, s') \<Longrightarrow> no_temp s \<Longrightarrow> no_temp s'"
  "rt_timer_start i s = Some s' \<Longrightarrow> no_temp s \<Longrightarrow> no_temp s'"
  "rt_timer_control i cmd arg s = Some (v, s') \<Longrightarrow> no_temp s \<Longrightarrow> no_temp s'"
  by (auto simp: rt_timer_stop_def rt_timer_start_def rt_timer_control_def rt_timer_remove_def q_remove_def Let_def
      split: Option.bind_splits if_splits timer_cmd.splits)

lemma temp_thread:
  "rt_thread_suspend c t s = Some (e, s') \<Longrightarrow> no_temp s \<Longrightarrow> no_temp s'"
  "rt_thread_resume c t s = Some (e, s') \<Longrightarrow> no_temp s \<Longrightarrow> no_temp s'"
  "rt_thread_control c t (CHANGE_PRIORITY p) s = Some (e, s') \<Longrightarrow> no_temp s \<Longrightarrow> no_temp s'"
  by (auto simp: rt_thread_suspend_def rt_thread_resume_def rt_thread_control_def Let_def
      split: Option.bind_splits if_splits dest!: temp_timer(1))

lemma temp_ipc:
  "rt_ipc_list_suspend c q t flag s = Some s' \<Longrightarrow> no_temp s \<Longrightarrow> no_temp s'"
  "rt_ipc_list_resume c q s = Some s' \<Longrightarrow> no_temp s \<Longrightarrow> no_temp s'"
  "start_thread_timer t time s = Some s' \<Longrightarrow> no_temp s \<Longrightarrow> no_temp s'"
  by (auto simp: rt_ipc_list_suspend_def rt_ipc_list_resume_def start_thread_timer_def
      split: Option.bind_splits if_splits option.splits dest!: temp_thread temp_timer(2,3))

lemma temp_block: "ipc_block c q t flag time s = Some s' \<Longrightarrow> no_temp s \<Longrightarrow> no_temp s'"
  by (auto simp: ipc_block_def split: Option.bind_splits dest!: temp_ipc temp_schedule)

lemma temp_wake: "wake_first c q s = Some s' \<Longrightarrow> no_temp s \<Longrightarrow> no_temp s'"
  by (auto simp: wake_first_def split: Option.bind_splits if_splits dest!: temp_ipc temp_schedule)

lemma temp_event_wake: "event_wake c i t s = Some s' \<Longrightarrow> no_temp s \<Longrightarrow> no_temp s'"
  by (auto simp: event_wake_def Let_def split: Option.bind_splits if_splits dest!: temp_thread(2))

lemma temp_event_loop: "event_send_loop c i ts need s = Some r \<Longrightarrow> no_temp s \<Longrightarrow> no_temp (snd (snd r))"
proof (induction ts arbitrary: need s)
  case (Cons t ts)
  then obtain ev where ev: "events s i = Some ev" by (cases "events s i") auto
  have w: "do { s1 \<leftarrow> event_wake c i t x; event_send_loop c i ts True s1 } = Some r \<Longrightarrow> no_temp x \<Longrightarrow> no_temp (snd (snd r))" for x
    using Cons.IH temp_event_wake by (auto split: Option.bind_splits)
  from Cons.prems ev show ?case
    by (simp only: event_send_loop.simps Option.bind.bind_lunit Let_def split: if_splits) (use w Cons.IH in \<open>auto\<close>)
qed auto

subsection \<open>Soundness of the interface\<close>

text \<open>Calls of the interface, and what a thread does when it goes on after having waited in a call.\<close>

datatype api_call =
    Sem_take nat rt_int32_t | Sem_release nat
  | Mutex_take nat rt_int32_t | Mutex_release nat
  | Event_send nat u32 | Event_recv nat u32 u8 rt_int32_t
  | Mb_send nat u64 rt_int32_t | Mb_recv nat rt_int32_t
  | Mq_send nat "u8 list" rt_int32_t | Mq_urgent nat "u8 list" | Mq_recv nat nat rt_int32_t
  | Sem_take_resume nat | Mutex_take_resume nat | Event_recv_resume nat
  | Mb_send_resume nat u64 rt_int32_t rt_tick_t | Mb_recv_resume nat rt_int32_t rt_tick_t
  | Mq_send_resume nat "u8 list" rt_int32_t rt_tick_t | Mq_recv_resume nat nat rt_int32_t rt_tick_t

fun target :: "api_call \<Rightarrow> oid" where
  "target (Sem_take i _) = Sem i" | "target (Sem_release i) = Sem i"
| "target (Mutex_take i _) = Mutex i" | "target (Mutex_release i) = Mutex i"
| "target (Event_send i _) = Event i" | "target (Event_recv i _ _ _) = Event i"
| "target (Mb_send i _ _) = Mailbox i" | "target (Mb_recv i _) = Mailbox i"
| "target (Mq_send i _ _) = Mqueue i" | "target (Mq_urgent i _) = Mqueue i" | "target (Mq_recv i _ _) = Mqueue i"
| "target (Sem_take_resume i) = Sem i" | "target (Mutex_take_resume i) = Mutex i" | "target (Event_recv_resume i) = Event i"
| "target (Mb_send_resume i _ _ _) = Mailbox i" | "target (Mb_recv_resume i _ _) = Mailbox i"
| "target (Mq_send_resume i _ _ _) = Mqueue i" | "target (Mq_recv_resume i _ _ _) = Mqueue i"

text \<open>
  The state after a call by the thread that runs on hart \<open>c\<close>; \<open>None\<close> if the call fails an assertion. A thread that goes
  on in \<^verbatim>\<open>rt_sem_take\<close>, \<^verbatim>\<open>rt_mutex_take\<close> or \<^verbatim>\<open>rt_event_recv\<close> only returns its error and what it has received.
\<close>

definition returns_only :: "nat \<Rightarrow> (tid \<Rightarrow> kernel \<Rightarrow> 'r) \<Rightarrow> kernel \<Rightarrow> ('r \<times> kernel) option" where
  "returns_only c f s = do { t \<leftarrow> rt_thread_self c s; Some (f t s, s) }"

fun api :: "nat \<Rightarrow> api_call \<Rightarrow> kernel \<Rightarrow> kernel option" where
  "api c (Sem_take i time) s = map_option snd (rt_sem_take c i time s)"
| "api c (Sem_release i) s = map_option snd (rt_sem_release c i s)"
| "api c (Mutex_take i time) s = map_option snd (rt_mutex_take c i time s)"
| "api c (Mutex_release i) s = map_option snd (rt_mutex_release c i s)"
| "api c (Event_send i bits) s = map_option snd (rt_event_send c i bits s)"
| "api c (Event_recv i bits opt time) s = map_option (snd \<circ> snd) (rt_event_recv c i bits opt time s)"
| "api c (Mb_send i v time) s = map_option snd (rt_mb_send_wait c i v time s)"
| "api c (Mb_recv i time) s = map_option (snd \<circ> snd) (rt_mb_recv c i time s)"
| "api c (Mq_send i b time) s = map_option snd (rt_mq_send_wait c i b time s)"
| "api c (Mq_urgent i b) s = map_option snd (rt_mq_urgent c i b s)"
| "api c (Mq_recv i n time) s = map_option (snd \<circ> snd) (rt_mq_recv c i n time s)"
| "api c (Sem_take_resume i) s = map_option snd (returns_only c rt_sem_take_resume s)"
| "api c (Mutex_take_resume i) s = map_option snd (returns_only c rt_mutex_take_resume s)"
| "api c (Event_recv_resume i) s = map_option snd (returns_only c rt_event_recv_resume s)"
| "api c (Mb_send_resume i v time tick) s = map_option snd (rt_mb_send_wait_resume c i v time tick s)"
| "api c (Mb_recv_resume i time tick) s = map_option (snd \<circ> snd) (rt_mb_recv_resume c i time tick s)"
| "api c (Mq_send_resume i b time tick) s = map_option snd (rt_mq_send_wait_resume c i b time tick s)"
| "api c (Mq_recv_resume i n time tick) s = map_option (snd \<circ> snd) (rt_mq_recv_resume c i n time tick s)"

abbreviation time_ok :: "rt_int32_t \<Rightarrow> bool" where
  "time_ok time \<equiv> time = 0 \<or> wait_time time"

text \<open>
  What the assertions of the calls demand of their arguments. A thread that goes on waits for what is left of its time;
  its message has passed the test of its length.
\<close>

definition rest_ok :: "kernel \<Rightarrow> rt_int32_t \<Rightarrow> rt_tick_t \<Rightarrow> bool" where
  "rest_ok s time tick \<longleftrightarrow> time_ok (remaining time tick (rt_tick_get s))"

fun args_ok :: "kernel \<Rightarrow> api_call \<Rightarrow> bool" where
  "args_ok s (Sem_take i time) = time_ok time" | "args_ok s (Mutex_take i time) = time_ok time"
| "args_ok s (Event_recv i bits opt time) = (option_ok opt \<and> time_ok time)"
| "args_ok s (Mb_send i v time) = time_ok time" | "args_ok s (Mb_recv i time) = time_ok time"
| "args_ok s (Mq_send i b time) = (b \<noteq> [] \<and> time_ok time)" | "args_ok s (Mq_urgent i b) = (b \<noteq> [])"
| "args_ok s (Mq_recv i n time) = (n \<noteq> 0 \<and> time_ok time)"
| "args_ok s (Mb_send_resume i v time tick) = rest_ok s time tick" | "args_ok s (Mb_recv_resume i time tick) = rest_ok s time tick"
| "args_ok s (Mq_send_resume i b time tick) =
     (rest_ok s time tick \<and> (case mqueues s i of Some mq \<Rightarrow> length b \<le> unat (mq_msg_size mq) | None \<Rightarrow> False))"
| "args_ok s (Mq_recv_resume i n time tick) = rest_ok s time tick"
| "args_ok s _ = True"

lemma returns_only_framed: "caller c t s \<Longrightarrow> \<exists>r. returns_only c f s = Some (r, s) \<and> framed c x s s"
  using framed_stays [OF prepared_same] callerD(4) by (auto simp: returns_only_def)

lemma mq_send_resume_args:
  assumes "caller c t s" "mq_inv i s" "eligible c s u" "args_ok s (Mq_send_resume i b time tick)"
  shows "\<exists>out s'. rt_mq_send_wait_resume c i b time tick s = Some (out, s') \<and> framed c (Mqueue i) s s' \<and> mq_inv i s'"
  using assms mq_send_resume_framed [OF assms(1-3)] by (auto simp: rest_ok_def split: option.splits)

lemma api_done: "\<exists>out s'. f = Some (out, s') \<and> P s' \<Longrightarrow> \<exists>s'. map_option snd f = Some s' \<and> P s'"
  by auto

lemma api_done_recv: "\<exists>out rec s'. f = Some (out, rec, s') \<and> P s' \<Longrightarrow> \<exists>s'. map_option (snd \<circ> snd) f = Some s' \<and> P s'"
  by auto

lemma api_framed:
  assumes "caller c t s" "eligible c s u" "args_ok s a" "obj_inv s (target a)"
  shows "\<exists>s'. api c a s = Some s' \<and> framed c (target a) s s' \<and> obj_inv s' (target a)"
  using assms(3,4)
proof (cases a)
  case (Sem_take i time)
  with assms(3,4) show ?thesis using sem_take_framed [OF assms(1) _ assms(2)] by (simp only: api.simps target.simps obj_inv.simps, intro api_done) (simp add: rest_ok_def)
next
  case (Sem_release i)
  with assms(3,4) show ?thesis using sem_release_framed [OF assms(1)] by (simp only: api.simps target.simps obj_inv.simps, intro api_done) (simp add: rest_ok_def)
next
  case (Mutex_take i time)
  with assms(3,4) show ?thesis using mutex_take_framed [OF assms(1) _ assms(2)] by (simp only: api.simps target.simps obj_inv.simps, intro api_done) (simp add: rest_ok_def)
next
  case (Mutex_release i)
  with assms(3,4) show ?thesis using mutex_release_framed [OF assms(1)] by (simp only: api.simps target.simps obj_inv.simps, intro api_done) (simp add: rest_ok_def)
next
  case (Event_send i bits)
  with assms(3,4) show ?thesis using event_send_framed [OF assms(1)] by (simp only: api.simps target.simps obj_inv.simps, intro api_done) (simp add: rest_ok_def)
next
  case (Event_recv i bits opt time)
  with assms(3,4) show ?thesis using event_recv_framed [OF assms(1) _ _ assms(2)] by (simp only: api.simps target.simps obj_inv.simps, intro api_done_recv) (simp add: rest_ok_def)
next
  case (Mb_send i v time)
  with assms(3,4) show ?thesis using mb_send_framed [OF assms(1) _ assms(2)] by (simp only: api.simps target.simps obj_inv.simps, intro api_done) (simp add: rest_ok_def)
next
  case (Mb_recv i time)
  with assms(3,4) show ?thesis using mb_recv_framed [OF assms(1) _ assms(2)] by (simp only: api.simps target.simps obj_inv.simps, intro api_done_recv) (simp add: rest_ok_def)
next
  case (Mq_send i b time)
  with assms(3,4) show ?thesis using mq_send_framed [OF assms(1) _ assms(2)] by (simp only: api.simps target.simps obj_inv.simps, intro api_done) (simp add: rest_ok_def)
next
  case (Mq_urgent i b)
  with assms(3,4) show ?thesis using mq_urgent_framed [OF assms(1)] by (simp only: api.simps target.simps obj_inv.simps, intro api_done) (simp add: rest_ok_def)
next
  case (Mq_recv i n time)
  with assms(3,4) show ?thesis using mq_recv_framed [OF assms(1) _ assms(2)] by (simp only: api.simps target.simps obj_inv.simps, intro api_done_recv) (simp add: rest_ok_def)
next
  case (Mb_send_resume i v time tick)
  with assms(3,4) show ?thesis using mb_send_resume_framed [OF assms(1) _ assms(2)] by (simp only: api.simps target.simps obj_inv.simps, intro api_done) (simp add: rest_ok_def)
next
  case (Mb_recv_resume i time tick)
  with assms(3,4) show ?thesis using mb_recv_resume_framed [OF assms(1) _ assms(2)] by (simp only: api.simps target.simps obj_inv.simps, intro api_done_recv) (simp add: rest_ok_def)
next
  case (Mq_send_resume i b time tick)
  with assms(3,4) show ?thesis using mq_send_resume_args [OF assms(1) _ assms(2)] by (simp only: api.simps target.simps obj_inv.simps, intro api_done) (simp add: rest_ok_def)
next
  case (Mq_recv_resume i n time tick)
  with assms(3,4) show ?thesis using mq_recv_resume_framed [OF assms(1) _ assms(2)] by (simp only: api.simps target.simps obj_inv.simps, intro api_done_recv) (simp add: rest_ok_def)
next
  case (Sem_take_resume i)
  with assms(4) show ?thesis using returns_only_framed [OF assms(1), of rt_sem_take_resume "Sem i"] by auto
next
  case (Mutex_take_resume i)
  with assms(4) show ?thesis using returns_only_framed [OF assms(1), of rt_mutex_take_resume "Mutex i"] by auto
next
  case (Event_recv_resume i)
  with assms(4) show ?thesis using returns_only_framed [OF assms(1), of rt_event_recv_resume "Event i"] by auto
qed

lemma temp_mb:
  "mb_send_loop c i v time s = Some (out, s') \<Longrightarrow> no_temp s \<Longrightarrow> no_temp s'"
  "mb_recv_loop c i time s = Some (out, rec, s') \<Longrightarrow> no_temp s \<Longrightarrow> no_temp s'"
  by (auto simp: mb_send_loop_def mb_recv_loop_def mb_put_def mb_get_def Let_def
      split: Option.bind_splits if_splits dest!: temp_block temp_wake)

lemma temp_mq:
  "mq_send_loop c i b time s = Some (out, s') \<Longrightarrow> no_temp s \<Longrightarrow> no_temp s'"
  "rt_mq_urgent c i b s = Some (out, s') \<Longrightarrow> no_temp s \<Longrightarrow> no_temp s'"
  "mq_recv_loop c i n time s = Some (out, rec, s') \<Longrightarrow> no_temp s \<Longrightarrow> no_temp s'"
  by (auto simp: mq_send_loop_unfold mq_recv_loop_unfold rt_mq_urgent_unfold mq_finish_send_def Let_def
      split: Option.bind_splits if_splits option.splits dest!: temp_block temp_wake)

lemma temp_mutex:
  "rt_mutex_take c i time s = Some (out, s') \<Longrightarrow> no_temp s \<Longrightarrow> no_temp s'"
  "rt_mutex_release c i s = Some (e, s') \<Longrightarrow> no_temp s \<Longrightarrow> no_temp s'"
  by (auto simp: rt_mutex_take_def rt_mutex_release_def mutex_pass_def Let_def
      split: Option.bind_splits if_splits list.splits dest!: temp_block temp_thread(3) temp_ipc(2) temp_schedule)

lemma temp_sem:
  "rt_sem_take c i time s = Some (out, s') \<Longrightarrow> no_temp s \<Longrightarrow> no_temp s'"
  "rt_sem_release c i s = Some (e, s') \<Longrightarrow> no_temp s \<Longrightarrow> no_temp s'"
  by (auto simp: rt_sem_take_def rt_sem_release_def Let_def
      split: Option.bind_splits if_splits dest!: temp_block temp_ipc(2) temp_schedule)

lemma temp_event:
  "rt_event_send c i bits s = Some (e, s') \<Longrightarrow> no_temp s \<Longrightarrow> no_temp s'"
  "rt_event_recv c i bits opt time s = Some (out, rec, s') \<Longrightarrow> no_temp s \<Longrightarrow> no_temp s'"
  by (auto simp: rt_event_send_def rt_event_recv_def Let_def
      split: Option.bind_splits if_splits dest!: temp_event_loop temp_block temp_schedule)

lemma temp_mb_calls:
  "rt_mb_send_wait c i v time s = Some (out, s') \<Longrightarrow> no_temp s \<Longrightarrow> no_temp s'"
  "rt_mb_send_wait_resume c i v time tick s = Some (out, s') \<Longrightarrow> no_temp s \<Longrightarrow> no_temp s'"
  "rt_mb_recv c i time s = Some (out, rec, s') \<Longrightarrow> no_temp s \<Longrightarrow> no_temp s'"
  "rt_mb_recv_resume c i time tick s = Some (out, rec, s') \<Longrightarrow> no_temp s \<Longrightarrow> no_temp s'"
  by (auto simp: rt_mb_send_wait_def rt_mb_recv_def rt_mb_send_wait_resume_def rt_mb_recv_resume_def
      split: Option.bind_splits if_splits dest: temp_mb)

lemma temp_mq_calls:
  "rt_mq_send_wait c i b time s = Some (out, s') \<Longrightarrow> no_temp s \<Longrightarrow> no_temp s'"
  "rt_mq_send_wait_resume c i b time tick s = Some (out, s') \<Longrightarrow> no_temp s \<Longrightarrow> no_temp s'"
  "rt_mq_recv c i n time s = Some (out, rec, s') \<Longrightarrow> no_temp s \<Longrightarrow> no_temp s'"
  "rt_mq_recv_resume c i n time tick s = Some (out, rec, s') \<Longrightarrow> no_temp s \<Longrightarrow> no_temp s'"
  by (auto simp: rt_mq_send_wait_unfold rt_mq_recv_unfold mq_resume_unfold
      split: Option.bind_splits if_splits dest: temp_mq)

lemma temp_api: "api c a s = Some s' \<Longrightarrow> no_temp s \<Longrightarrow> no_temp s'"
  by (cases a) (auto simp: returns_only_def split: Option.bind_splits
      dest: temp_sem temp_mutex temp_event temp_mb_calls temp_mq_calls temp_mq(2))

text \<open>A call on an existing object by the thread that runs on a hart, with another thread ready for the hart.\<close>

inductive api_step :: "kernel \<Rightarrow> nat \<times> api_call \<Rightarrow> kernel \<Rightarrow> bool" where
  api_step: "caller c t s \<Longrightarrow> eligible c s u \<Longrightarrow> args_ok s a \<Longrightarrow> obj_exists s (target a) \<Longrightarrow> api c a s = Some s' \<Longrightarrow>
     api_step s (c, a) s'"

lemma api_progress:
  assumes "system_ok s" "caller c t s" "eligible c s u" "args_ok s a" "obj_exists s (target a)"
  shows "\<exists>s'. api c a s = Some s' \<and> system_ok s' \<and> (\<exists>v. caller c v s')"
proof -
  have "obj_inv s (target a)" using assms(1,5) by (simp add: system_ok_def)
  from api_framed [OF assms(2-4) this] obtain s' where s': "api c a s = Some s'" "framed c (target a) s s'" "obj_inv s' (target a)" by blast
  moreover from this have "no_temp s'" using temp_api assms(1) by (auto simp: system_ok_def)
  ultimately show ?thesis using system_ok_frame [OF assms(1)] by (auto simp: framed_def)
qed

lemma api_preservation: "api_step s e s' \<Longrightarrow> system_ok s \<Longrightarrow> system_ok s'"
  by (induction rule: api_step.induct) (use api_progress in fastforce)

text \<open>
  \<^bold>\<open>C1\<close>: Soundness of the kernel interface. In a well-formed kernel the scheduler's lists and bitmaps, the timer
  list, every thread and every semaphore, mutex, event, mailbox and message queue satisfy their invariants and no timer
  is linked into the stack list of a finished \<^verbatim>\<open>rt_timer_check\<close> (which the expiry of a thread's timer brings about, and
  where the statement ends). From a well-formed kernel every sequence of calls of the IPC interface by running threads
  of either hart, each with another thread ready for its hart and each up to its return or up to the point where its
  caller waits, and of continuations of calls whose callers have waited, leads to a well-formed kernel again. There no such call
  or continuation on an existing object with admissible arguments gets stuck: it fails no assertion, follows no bad
  pointer and ends with a thread running on the hart. The two critical sections of a message queue call follow each
  other here; what happens between them is the subject of the theory of the message queue's interleavings.
\<close>

theorem kernel_api_sound:
  assumes "run api_step s es s'" "system_ok s"
  shows "system_ok s' \<and>
     (\<forall>c t u a. caller c t s' \<and> eligible c s' u \<and> args_ok s' a \<and> obj_exists s' (target a) \<longrightarrow>
        (\<exists>s''. api c a s' = Some s'' \<and> system_ok s'' \<and> (\<exists>v. caller c v s'')))"
proof -
  have "system_ok s'" using assms by (induction rule: run.induct) (auto intro: api_preservation)
  then show ?thesis using api_progress by blast
qed

lemma ex_sem_system_ok: "system_ok (ex_sem v)"
proof -
  have e: "obj_exists (ex_sem v) x \<Longrightarrow> x = Sem 7" for x by (cases x) (auto simp: ex_sem_def ex_kernel_def split: if_splits)
  have "obj_inv (ex_sem v) x" if "obj_exists (ex_sem v) x" for x using e [OF that] by (simp add: sem_inv_def ex_sem_ok)
  moreover have "no_temp (ex_sem v)" by (simp add: ex_sem_def ex_kernel_def)
  ultimately show ?thesis using callerD(1) [OF ex_sem_ok(1)] by (simp add: system_ok_def)
qed

theorem kernel_api_sound_witness:
  "\<exists>s'. run api_step (ex_sem 0) [(0, Sem_release 7), (0, Sem_take 7 0)] s' \<and> system_ok s' \<and>
     (\<exists>s''. api 0 (Sem_take 7 5) s' = Some s'' \<and> system_ok s'')"
proof -
  have "api 0 (Sem_release 7) (ex_sem 0) = Some (ex_sem 1)" "api 0 (Sem_take 7 0) (ex_sem 1) = Some (ex_sem 0)"
    using ex_sem_ok(4) [of 0 "Sem 7"] by (simp_all add: rt_sem_take_def rt_sem_release_def ex_sem_def)
  then have "api_step (ex_sem 0) (0, Sem_release 7) (ex_sem 1)" "api_step (ex_sem 1) (0, Sem_take 7 0) (ex_sem 0)"
    by (auto intro!: api_step [OF ex_sem_ok(1,2)] simp: ex_sem_ok(3))
  then have r: "run api_step (ex_sem 0) [(0, Sem_release 7), (0, Sem_take 7 0)] (ex_sem 0)" by auto
  moreover have "args_ok (ex_sem 0) (Sem_take 7 5)" "obj_exists (ex_sem 0) (target (Sem_take 7 5))" by (simp_all add: ex_sem_ok(3))
  ultimately show ?thesis using kernel_api_sound [OF r ex_sem_system_ok] ex_sem_ok(1,2) by (intro exI [of _ "ex_sem 0"]) blast
qed

end
