(* ===== verification/Mq_Interleaving.thy ===== *)
theory Mq_Interleaving
  imports Message_Queue
begin

text \<open>
  Message queues under interruption (\<^verbatim>\<open>src/ipc.c\<close>). \<^verbatim>\<open>rt_mq_send_wait\<close>, \<^verbatim>\<open>rt_mq_urgent\<close> and \<^verbatim>\<open>rt_mq_recv\<close> enable interrupts
  between their two critical sections, while the message is copied: other threads, on the same hart or on the other one,
  can use the queue in between. The state is the kernel together with the calls that are under way, and a step is a
  critical section, a copy, or anything that leaves the queue alone.
\<close>

subsection \<open>Calls under way\<close>

text \<open>
  Where a thread is inside of a call: waiting for a free node or for a message, with the remaining time and the tick
  when it was suspended, or between the critical sections, with the node it carries. The flag marks urgent messages.
\<close>

datatype phase =
    Sender_waits "u8 list" rt_int32_t rt_tick_t
  | Filling bool nat "u8 list"
  | Linking bool nat "u8 list"
  | Receiver_waits nat rt_int32_t rt_tick_t
  | Copying nat nat
  | Releasing nat

fun owned :: "phase option \<Rightarrow> nat set" where
  "owned (Some (Filling urgent n b)) = {n}"
| "owned (Some (Linking urgent n b)) = {n}"
| "owned (Some (Copying n bsize)) = {n}"
| "owned (Some (Releasing n)) = {n}"
| "owned _ = {}"

definition send_phase :: "u8 list \<Rightarrow> rt_int32_t \<Rightarrow> rt_tick_t \<Rightarrow> outcome + nat \<Rightarrow> phase option" where
  "send_phase b timeout tick r =
     (case r of Inl Blocked \<Rightarrow> Some (Sender_waits b timeout tick) | Inl (Done e) \<Rightarrow> None | Inr n \<Rightarrow> Some (Filling False n b))"

definition urgent_phase :: "u8 list \<Rightarrow> outcome + nat \<Rightarrow> phase option" where
  "urgent_phase b r = (case r of Inl _ \<Rightarrow> None | Inr n \<Rightarrow> Some (Filling True n b))"

definition recv_phase :: "nat \<Rightarrow> rt_int32_t \<Rightarrow> rt_tick_t \<Rightarrow> outcome + nat \<Rightarrow> phase option" where
  "recv_phase bsize timeout tick r =
     (case r of Inl Blocked \<Rightarrow> Some (Receiver_waits bsize timeout tick) | Inl (Done e) \<Rightarrow> None | Inr n \<Rightarrow> Some (Copying n bsize))"

text \<open>
  What happens, read off the results of the critical sections and of the copy: a node with contents \<open>m\<close> is linked by a
  call with message \<open>b\<close>; a thread unlinks a node; it has copied \<open>r\<close> into its buffer of \<open>bsize\<close> bytes; it has put
  the node back; a message was not accepted although a node was taken for it.
\<close>

datatype mq_event2 = Linked bool "u8 list" "u8 list" | Unlinked tid | Copied tid nat "u8 list" | Finished tid | Lost "u8 list" | Quiet

definition node_data :: "nat \<Rightarrow> nat \<Rightarrow> kernel \<Rightarrow> u8 list" where
  "node_data i n s = (case mqueues s i of Some mq \<Rightarrow> mq_data mq n | None \<Rightarrow> [])"

definition link_event :: "bool \<Rightarrow> u8 list \<Rightarrow> u8 list \<Rightarrow> outcome \<Rightarrow> mq_event2" where
  "link_event urgent b m out = (if out = Done RT_EOK then Linked urgent b m else Lost b)"

definition unlink_event :: "tid \<Rightarrow> outcome + nat \<Rightarrow> mq_event2" where
  "unlink_event t r = (case r of Inl _ \<Rightarrow> Quiet | Inr n \<Rightarrow> Unlinked t)"

inductive half_step :: "nat \<Rightarrow> kernel \<times> (tid \<Rightarrow> phase option) \<Rightarrow> mq_event2 \<Rightarrow> kernel \<times> (tid \<Rightarrow> phase option) \<Rightarrow> bool" for i where
  send: "caller c t s \<Longrightarrow> ph t = None \<Longrightarrow> eligible c s u \<Longrightarrow> timeout = 0 \<or> wait_time timeout \<Longrightarrow>
     mq_send_enter c i b timeout s = Some (r, s') \<Longrightarrow>
     half_step i (s, ph) Quiet (s', ph(t := send_phase b timeout (rt_tick_get s) r))"
| send_retry: "caller c t s \<Longrightarrow> ph t = Some (Sender_waits b timeout tick) \<Longrightarrow> eligible c s u \<Longrightarrow>
     left_time = remaining timeout tick (rt_tick_get s) \<Longrightarrow> left_time = 0 \<or> wait_time left_time \<Longrightarrow>
     mq_send_retry c i timeout tick s = Some (r, s') \<Longrightarrow>
     half_step i (s, ph) Quiet (s', ph(t := send_phase b left_time (rt_tick_get s) r))"
| urgent: "caller c t s \<Longrightarrow> ph t = None \<Longrightarrow> mq_urgent_enter i b s = Some (r, s') \<Longrightarrow>
     half_step i (s, ph) Quiet (s', ph(t := urgent_phase b r))"
| fill: "caller c t s \<Longrightarrow> ph t = Some (Filling urgent n b) \<Longrightarrow> mq_send_copy urgent i n b s = Some s' \<Longrightarrow>
     half_step i (s, ph) Quiet (s', ph(t := Some (Linking urgent n b)))"
| link: "caller c t s \<Longrightarrow> ph t = Some (Linking urgent n b) \<Longrightarrow> mq_send_link urgent c i n s = Some (out, s') \<Longrightarrow>
     half_step i (s, ph) (link_event urgent b (node_data i n s') out) (s', ph(t := None))"
| recv: "caller c t s \<Longrightarrow> ph t = None \<Longrightarrow> eligible c s u \<Longrightarrow> timeout = 0 \<or> wait_time timeout \<Longrightarrow>
     mq_recv_enter c i bsize timeout s = Some (r, s') \<Longrightarrow>
     half_step i (s, ph) (unlink_event t r) (s', ph(t := recv_phase bsize timeout (rt_tick_get s) r))"
| recv_retry: "caller c t s \<Longrightarrow> ph t = Some (Receiver_waits bsize timeout tick) \<Longrightarrow> eligible c s u \<Longrightarrow>
     left_time = remaining timeout tick (rt_tick_get s) \<Longrightarrow> left_time = 0 \<or> wait_time left_time \<Longrightarrow>
     mq_recv_retry c i timeout tick s = Some (r, s') \<Longrightarrow>
     half_step i (s, ph) (unlink_event t r) (s', ph(t := recv_phase bsize left_time (rt_tick_get s) r))"
| copy: "caller c t s \<Longrightarrow> ph t = Some (Copying n bsize) \<Longrightarrow> mq_recv_copy i n bsize s = Some r \<Longrightarrow>
     half_step i (s, ph) (Copied t bsize r) (s, ph(t := Some (Releasing n)))"
| release: "caller c t s \<Longrightarrow> ph t = Some (Releasing n) \<Longrightarrow> mq_recv_release c i n s = Some s' \<Longrightarrow>
     half_step i (s, ph) (Finished t) (s', ph(t := None))"
| environment: "mqueues s' i = mqueues s i \<Longrightarrow> half_step i (s, ph) Quiet (s', ph)"

subsection \<open>The invariant\<close>

definition held :: "(tid \<Rightarrow> phase option) \<Rightarrow> nat set" where
  "held ph = (\<Union>t. owned (ph t))"

definition apart :: "(tid \<Rightarrow> phase option) \<Rightarrow> bool" where
  "apart ph \<longleftrightarrow> (\<forall>t u. t \<noteq> u \<longrightarrow> owned (ph t) \<inter> owned (ph u) = {})"

fun phase_ok :: "rt_messagequeue \<Rightarrow> phase option \<Rightarrow> bool" where
  "phase_ok mq (Some (Sender_waits b timeout tick)) = (length b \<le> unat (mq_msg_size mq))"
| "phase_ok mq (Some (Filling urgent n b)) = (length b \<le> unat (mq_msg_size mq))"
| "phase_ok mq (Some (Linking urgent n b)) =
     (length b \<le> unat (mq_msg_size mq) \<and> take (length b) (mq_data mq n) = b \<and> (urgent \<or> mq_next mq n = None))"
| "phase_ok mq _ = True"

definition others :: "(tid \<Rightarrow> phase option) \<Rightarrow> tid \<Rightarrow> nat set" where
  "others ph t = (\<Union>u \<in> - {t}. owned (ph u))"

lemma held_others: "held ph = owned (ph t) \<union> others ph t" "held (ph(t := p)) = owned p \<union> others ph t"
  by (auto simp: held_def others_def split: if_splits)

lemma apart_others: "apart ph \<Longrightarrow> owned (ph t) \<inter> others ph t = {}"
  by (auto simp: apart_def others_def)

lemma apart_upd: "apart ph \<Longrightarrow> owned p \<inter> others ph t = {} \<Longrightarrow> apart (ph(t := p))"
  unfolding apart_def others_def by (auto simp: disjoint_iff)

definition parts_ok :: "nat \<Rightarrow> kernel \<Rightarrow> (tid \<Rightarrow> phase option) \<Rightarrow> rt_messagequeue \<Rightarrow> nat list \<Rightarrow> nat list \<Rightarrow> bool" where
  "parts_ok i s ph mq qs fs \<longleftrightarrow> mqueues s i = Some mq \<and> ipc_flag (mq_flag mq) \<and> mq_part mq qs fs (held ph) \<and> apart ph \<and>
     (\<forall>t. phase_ok mq (ph t))"

definition half_inv :: "nat \<Rightarrow> kernel \<times> (tid \<Rightarrow> phase option) \<Rightarrow> bool" where
  "half_inv i st \<longleftrightarrow> (\<exists>mq qs fs. parts_ok i (fst st) (snd st) mq qs fs)"

text \<open>The message that a thread has unlinked and not yet copied.\<close>

fun in_hand :: "rt_messagequeue \<Rightarrow> phase option \<Rightarrow> u8 list option" where
  "in_hand mq (Some (Copying n bsize)) = Some (mq_data mq n)"
| "in_hand mq _ = None"

definition half_abs :: "nat \<Rightarrow> kernel \<times> (tid \<Rightarrow> phase option) \<Rightarrow> nat \<times> nat \<times> u8 list list \<times> (tid \<Rightarrow> u8 list option)" where
  "half_abs i st = (case mqueues (fst st) i of
       Some mq \<Rightarrow> (unat (mq_max_msgs mq), unat (mq_msg_size mq), mq_msgs mq, \<lambda>t. in_hand mq (snd st t))
     | None \<Rightarrow> (0, 0, [], Map.empty))"

text \<open>The abstract queue: messages leave it in the order in which they were linked, and each thread copies the one it has unlinked.\<close>

fun half_spec :: "mq_event2 \<Rightarrow> nat \<times> nat \<times> u8 list list \<times> (tid \<Rightarrow> u8 list option) \<Rightarrow>
    (nat \<times> nat \<times> u8 list list \<times> (tid \<Rightarrow> u8 list option)) option" where
  "half_spec (Linked urgent b m) (k, sz, q, h) =
     (if length q < k \<and> length m = sz \<and> take (length b) m = b then Some (k, sz, if urgent then m # q else q @ [m], h) else None)"
| "half_spec (Unlinked t) (k, sz, [], h) = None"
| "half_spec (Unlinked t) (k, sz, m # q, h) = (if h t = None then Some (k, sz, q, h(t \<mapsto> m)) else None)"
| "half_spec (Copied t bsize r) (k, sz, q, h) = (if h t \<noteq> None \<and> r = take bsize (the (h t)) then Some (k, sz, q, h(t := None)) else None)"
| "half_spec (Finished t) a = Some a"
| "half_spec (Lost b) a = None"
| "half_spec Quiet a = Some a"

definition half_sim :: "nat \<Rightarrow> kernel \<times> (tid \<Rightarrow> phase option) \<Rightarrow> mq_event2 \<Rightarrow> kernel \<times> (tid \<Rightarrow> phase option) \<Rightarrow> bool" where
  "half_sim i st e st' \<longleftrightarrow> half_inv i st' \<and> half_spec e (half_abs i st) = Some (half_abs i st')"

text \<open>The other calls keep what they rely on if a step leaves their nodes alone.\<close>

lemma phase_ok_cong:
  assumes "phase_ok mq p" "mq_same mq mq'" "\<forall>m \<in> owned p. mq_data mq' m = mq_data mq m \<and> mq_next mq' m = mq_next mq m"
  shows "phase_ok mq' p" "in_hand mq' p = in_hand mq p"
  using assms by (cases "(mq, p)" rule: phase_ok.cases; simp add: mq_same_def)+

lemma half_simI:
  assumes P: "parts_ok i s ph mq qs fs" and mq': "mqueues s' i = Some mq'" "mq_same mq mq'"
    and part: "mq_part mq' qs' fs' (owned p \<union> others ph t)" and o: "owned p \<inter> others ph t = {}"
    and keep: "\<forall>m \<in> others ph t. mq_data mq' m = mq_data mq m \<and> mq_next mq' m = mq_next mq m" and ok: "phase_ok mq' p"
    and spec: "half_spec e (unat (mq_max_msgs mq), unat (mq_msg_size mq), map (mq_data mq) qs, \<lambda>u. in_hand mq (ph u)) =
      Some (unat (mq_max_msgs mq), unat (mq_msg_size mq), map (mq_data mq') qs', (\<lambda>u. in_hand mq (ph u))(t := in_hand mq' p))"
  shows "half_sim i (s, ph) e (s', ph(t := p))"
proof -
  have pq: "mqueues s i = Some mq" "ipc_flag (mq_flag mq)" "mq_part mq qs fs (held ph)" "apart ph" "\<forall>t. phase_ok mq (ph t)"
    using P by (simp_all add: parts_ok_def)
  have u: "phase_ok mq' (ph u) \<and> in_hand mq' (ph u) = in_hand mq (ph u)" if "u \<noteq> t" for u
  proof -
    have "\<forall>m \<in> owned (ph u). mq_data mq' m = mq_data mq m \<and> mq_next mq' m = mq_next mq m"
      using keep that by (auto simp: others_def)
    then show ?thesis using phase_ok_cong [of mq "ph u" mq'] pq(5) mq'(2) by blast
  qed
  have "parts_ok i s' (ph(t := p)) mq' qs' fs'"
    using mq' pq part apart_upd [OF pq(4) o] ok u unfolding parts_ok_def held_others(2) by (auto simp: mq_same_def)
  moreover have "(\<lambda>v. in_hand mq' ((ph(t := p)) v)) = (\<lambda>u. in_hand mq (ph u))(t := in_hand mq' p)" using u by auto
  ultimately show ?thesis using spec mq' pq(1)
    by (auto simp: half_sim_def half_inv_def half_abs_def mq_part_msgs [OF pq(3)] mq_part_msgs [OF part] mq_same_def)
qed

lemma half_sim_same:
  assumes P: "parts_ok i s ph mq qs fs" and mq': "mqueues s' i = mqueues s i" and o: "owned (ph t) = {}" "owned p = {}"
    and ok: "phase_ok mq p"
  shows "half_sim i (s, ph) Quiet (s', ph(t := p))"
proof (rule half_simI [OF P, where mq' = mq and qs' = qs and fs' = fs])
  have "in_hand mq q = None" if "owned q = {}" for q using that by (cases "(mq, q)" rule: in_hand.cases) auto
  then show "half_spec Quiet (unat (mq_max_msgs mq), unat (mq_msg_size mq), map (mq_data mq) qs, \<lambda>u. in_hand mq (ph u)) =
      Some (unat (mq_max_msgs mq), unat (mq_msg_size mq), map (mq_data mq) qs, (\<lambda>u. in_hand mq (ph u))(t := in_hand mq p))"
    using o by (auto simp: fun_eq_iff)
  show "mq_part mq qs fs (owned p \<union> others ph t)" using P o held_others(1) [of ph t] by (simp add: parts_ok_def)
qed (use P mq' o ok in \<open>auto simp: parts_ok_def mq_same_def\<close>)

subsection \<open>The first critical sections\<close>

lemma mq_send_begin_result:
  assumes call: "caller c t s" and mq: "mqueues s i = Some mq" "ipc_flag (mq_flag mq)" and el: "eligible c s u"
    and tm: "timeout = 0 \<or> wait_time timeout" and r: "mq_send_begin c i timeout s = Some (r, s')"
  obtains out where "r = Inl out" "mqueues s' = mqueues s"
  | n mq1 where "r = Inr n" "mq_queue_free mq = Some n" "mq_take n mq = Some mq1" "s' = upd_mq i mq1 s"
proof (cases "mq_queue_free mq")
  case (Some n)
  then show thesis using that r mq by (auto simp: mq_send_begin_def split: Option.bind_splits)
next
  case None
  note c = callerD [OF call] callerD [OF caller_error [OF call]]
  have el': "eligible c (no_error t s) u" using el by (simp add: eligible_error)
  show thesis
  proof (cases "timeout = 0")
    case True
    then have "r = Inl (Done (-3))" "mqueues s' = mqueues s" using r None mq c by (auto simp: mq_send_begin_def)
    then show thesis by (rule that(1))
  next
    case False
    obtain b where b: "ipc_block c (SenderQ (Mqueue i)) t (mq_flag mq) timeout (no_error t s) = Some b"
      "blocked c (SenderQ (Mqueue i)) t (mq_flag mq) timeout (no_error t s) b"
      using caller_blocks [OF caller_error [OF call] el' _ mq(2), of "SenderQ (Mqueue i)" timeout] False tm by blast
    then have "r = Inl Blocked" "s' = b" using r False None mq c by (auto simp: mq_send_begin_def)
    then show thesis using blocked_mqueues [OF b(2)] by (intro that(1)) simp_all
  qed
qed

lemma mq_recv_begin_result:
  assumes call: "caller c t s" and mq: "mqueues s i = Some mq" "ipc_flag (mq_flag mq)" and el: "eligible c s u"
    and tm: "timeout = 0 \<or> wait_time timeout" and r: "mq_recv_begin c i timeout s = Some (r, s')"
  obtains out where "r = Inl out" "mqueues s' = mqueues s"
  | n mq1 where "r = Inr n" "mq_entry mq \<noteq> 0" "mq_unlink mq = Some (n, mq1)" "s' = upd_mq i mq1 s"
proof (cases "mq_entry mq = 0")
  case False
  then show thesis using that r mq by (auto simp: mq_recv_begin_def split: Option.bind_splits)
next
  case True
  note c = callerD [OF call] callerD [OF caller_error [OF call]]
  have el': "eligible c (no_error t s) u" using el by (simp add: eligible_error)
  show thesis
  proof (cases "timeout = 0")
    case z: True
    then have "r = Inl (Done (-2))" "mqueues s' = mqueues s" using r True mq c by (auto simp: mq_recv_begin_def)
    then show thesis by (rule that(1))
  next
    case False
    obtain b where b: "ipc_block c (SuspendQ (Mqueue i)) t (mq_flag mq) timeout (no_error t s) = Some b"
      "blocked c (SuspendQ (Mqueue i)) t (mq_flag mq) timeout (no_error t s) b"
      using caller_blocks [OF caller_error [OF call] el' _ mq(2), of "SuspendQ (Mqueue i)" timeout] False tm by blast
    then have "r = Inl Blocked" "s' = b" using r False True mq c by (auto simp: mq_recv_begin_def)
    then show thesis using blocked_mqueues [OF b(2)] by (intro that(1)) simp_all
  qed
qed

text \<open>Taking a node for a message, and unlinking the first message.\<close>

lemma take_sim:
  assumes P: "parts_ok i s ph mq qs fs" and o: "owned (ph t) = {}"
    and n: "mq_queue_free mq = Some n" "mq_take n mq = Some mq1" and len: "length b \<le> unat (mq_msg_size mq)"
  shows "half_sim i (s, ph) Quiet (upd_mq i mq1 s, ph(t := Some (Filling urgent n b)))"
proof -
  have part: "mq_part mq qs fs (others ph t)" using P o held_others(1) [of ph t] by (simp add: parts_ok_def)
  obtain fs' where fs: "fs = n # fs'" using mq_partD(2) [OF part] n(1) by (cases fs) auto
  obtain mq' where m: "mq_take n mq = Some mq'" "mq_part mq' qs fs' (insert n (others ph t))" "mq_same mq mq'" "mq_msg_pool mq' = mq_msg_pool mq"
    using mq_take_part [of mq qs n fs' "others ph t"] part fs by blast
  have d: "mq_data mq' = mq_data mq" "mq_next mq' = mq_next mq" using m(4) by (simp_all add: fun_eq_iff mq_data_def mq_next_def)
  have h: "in_hand mq (ph t) = None" using o by (cases "(mq, ph t)" rule: in_hand.cases) auto
  have no: "n \<notin> others ph t" using mq_partD(4) [OF part] fs by auto
  have e: "mq1 = mq'" using m(1) n(2) by simp
  show ?thesis unfolding e
    by (rule half_simI [OF P _ m(3), of _ qs fs'])
      (use m(2) no d len m(3) h in \<open>auto simp: mq_same_def fun_eq_iff\<close>)
qed

lemma unlink_sim:
  assumes P: "parts_ok i s ph mq qs fs" and o: "owned (ph t) = {}" and n: "mq_entry mq \<noteq> 0" "mq_unlink mq = Some (n, mq1)"
  shows "half_sim i (s, ph) (Unlinked t) (upd_mq i mq1 s, ph(t := Some (Copying n bsize)))"
proof -
  have part: "mq_part mq qs fs (others ph t)" using P o held_others(1) [of ph t] by (simp add: parts_ok_def)
  obtain k qs' where qs: "qs = k # qs'" using mq_partD(7) [OF part] n(1) by (cases qs) (auto simp: unat_eq_zero)
  obtain mq' where m: "mq_unlink mq = Some (k, mq')" "mq_part mq' qs' fs (insert k (others ph t))" "mq_same mq mq'" "mq_msg_pool mq' = mq_msg_pool mq"
    using mq_unlink_part [of mq k qs' fs "others ph t"] part qs by blast
  have d: "mq_data mq' = mq_data mq" "mq_next mq' = mq_next mq" using m(4) by (simp_all add: fun_eq_iff mq_data_def mq_next_def)
  have h: "in_hand mq (ph t) = None" using o by (cases "(mq, ph t)" rule: in_hand.cases) auto
  have no: "k \<notin> others ph t" using mq_partD(4) [OF part] qs by auto
  have e: "n = k" "mq1 = mq'" using m(1) n(2) by simp_all
  show ?thesis unfolding e
    by (rule half_simI [OF P _ m(3), of _ qs' fs]) (use m(2) no d h qs in auto)
qed

subsection \<open>The copies and the second critical sections\<close>

lemma fill_sim:
  assumes P: "parts_ok i s ph mq qs fs" and t: "ph t = Some (Filling urgent n b)" and r: "mq_send_copy urgent i n b s = Some s'"
  shows "half_sim i (s, ph) Quiet (s', ph(t := Some (Linking urgent n b)))"
proof -
  have pq: "mqueues s i = Some mq" "mq_part mq qs fs (insert n (others ph t))" "n \<notin> others ph t" "length b \<le> unat (mq_msg_size mq)"
    using P held_others(1) [of ph t] t apart_others [of ph t] spec [of "\<lambda>t. phase_ok mq (ph t)" t] by (auto simp: parts_ok_def)
  have l: "length (mq_data mq n) = unat (mq_msg_size mq)" by (rule mq_read_part(2) [OF pq(2)]) simp
  have ov: "take (length b) (overlay b (mq_data mq n)) = b" by (simp add: overlay_def)
  obtain mq' where m: "(if urgent then mq_fill_urgent n b mq else mq_fill n b mq) = Some mq'" "mq_part mq' qs fs (insert n (others ph t))"
    "mq_same mq mq'" "urgent \<or> mq_next mq' n = None"
    "\<forall>m. mq_data mq' m = (if m = n then overlay b (mq_data mq n) else mq_data mq m)" "\<forall>m. m \<noteq> n \<longrightarrow> mq_next mq' m = mq_next mq m"
  proof (cases urgent)
    case True
    show thesis
    proof (rule mq_fill_urgent_part [OF pq(2) insertI1 pq(4)])
      fix mq' assume "mq_fill_urgent n b mq = Some mq'" "mq_part mq' qs fs (insert n (others ph t))" "mq_same mq mq'"
        "\<forall>m. mq_data mq' m = (if m = n then overlay b (mq_data mq n) else mq_data mq m)" "\<forall>m. mq_next mq' m = mq_next mq m"
      then show thesis using True by (intro that [of mq']) simp_all
    qed
  next
    case False
    show thesis
    proof (rule mq_fill_part [OF pq(2) insertI1 pq(4)])
      fix mq' assume "mq_fill n b mq = Some mq'" "mq_part mq' qs fs (insert n (others ph t))" "mq_same mq mq'" "mq_next mq' n = None"
        "\<forall>m. mq_data mq' m = (if m = n then overlay b (mq_data mq n) else mq_data mq m)" "\<forall>m. m \<noteq> n \<longrightarrow> mq_next mq' m = mq_next mq m"
      then show thesis using False by (intro that [of mq']) simp_all
    qed
  qed
  have e: "s' = upd_mq i mq' s" using r pq(1) m(1) by (simp add: mq_send_copy_def)
  have nq: "n \<notin> set qs" using mq_partD(4) [OF pq(2)] by auto
  have mp: "map (mq_data mq') qs = map (mq_data mq) qs" using nq m(5) by auto
  show ?thesis unfolding e
  proof (rule half_simI [OF P _ m(3), of _ qs fs])
    show "phase_ok mq' (Some (Linking urgent n b))" using m(3,4,5) pq(4) ov by (simp add: mq_same_def)
    show "\<forall>m \<in> others ph t. mq_data mq' m = mq_data mq m \<and> mq_next mq' m = mq_next mq m" using m(5,6) pq(3) by auto
  qed (use m(2) pq(3) t mp in \<open>auto simp: fun_eq_iff\<close>)
qed

lemma link_sim:
  assumes call: "caller c t s" and P: "parts_ok i s ph mq qs fs" and t: "ph t = Some (Linking urgent n b)"
    and r: "mq_send_link urgent c i n s = Some (out, s')"
  shows "half_sim i (s, ph) (link_event urgent b (node_data i n s') out) (s', ph(t := None))"
proof -
  have pq: "mqueues s i = Some mq" "mq_part mq qs fs (insert n (others ph t))" "n \<notin> others ph t" "length b \<le> unat (mq_msg_size mq)"
      "take (length b) (mq_data mq n) = b" "\<not> urgent \<longrightarrow> mq_next mq n = None"
    using P held_others(1) [of ph t] t apart_others [of ph t] spec [of "\<lambda>t. phase_ok mq (ph t)" t] by (auto simp: parts_ok_def)
  have l: "length (mq_data mq n) = unat (mq_msg_size mq)" by (rule mq_read_part(2) [OF pq(2)]) simp
  let ?qs = "if urgent then n # qs else qs @ [n]"
  obtain mq' where m: "(if urgent then mq_link_urgent n mq else mq_link n mq) = Some (0, mq')" "mq_part mq' ?qs fs (others ph t)"
    "mq_same mq mq'" "\<forall>m. mq_data mq' m = mq_data mq m" "\<forall>m. m \<in> others ph t \<longrightarrow> mq_next mq' m = mq_next mq m"
  proof (cases urgent)
    case True
    show thesis
    proof (rule mq_link_urgent_part [OF pq(2,3)])
      fix mq' assume "mq_link_urgent n mq = Some (0, mq')" "mq_part mq' (n # qs) fs (others ph t)" "mq_same mq mq'"
        "\<forall>m. mq_data mq' m = mq_data mq m" "\<forall>m. m \<in> others ph t \<longrightarrow> mq_next mq' m = mq_next mq m"
      then show thesis using True by (intro that [of mq']) simp_all
    qed
  next
    case False
    have nx: "mq_next mq n = None" using False pq(6) by simp
    show thesis
    proof (rule mq_link_part [OF pq(2,3) nx])
      fix mq' assume "mq_link n mq = Some (0, mq')" "mq_part mq' (qs @ [n]) fs (others ph t)" "mq_same mq mq'"
        "\<forall>m. mq_data mq' m = mq_data mq m" "\<forall>m. m \<in> others ph t \<longrightarrow> mq_next mq' m = mq_next mq m"
      then show thesis using False by (intro that [of mq']) simp_all
    qed
  qed
  obtain b' where b': "mq_finish_send c i (0, mq') s = Some (Done 0, b')" "mqueues b' i = Some mq'" by (rule mq_finish_send_ok [OF call])
  have e: "out = Done 0" "s' = b'" using r pq(1) m(1) b'(1) by (auto simp: mq_send_link_def)
  have "length qs < unat (mq_max_msgs mq)"
  proof -
    have ne: "n \<notin> set qs" "insert n (set qs) \<subseteq> {..<length (mq_msg_pool mq)}" using mq_partD(4,5) [OF pq(2)] by auto
    have "Suc (length qs) = card (insert n (set qs))" using ne(1) mq_partD(3) [OF pq(2)] by (simp add: distinct_card)
    also have "\<dots> \<le> length (mq_msg_pool mq)" using card_mono [OF _ ne(2)] by simp
    finally show ?thesis using mq_partD(8) [OF pq(2)] by simp
  qed
  then have sp: "half_spec (link_event urgent b (node_data i n s') out) (unat (mq_max_msgs mq), unat (mq_msg_size mq), map (mq_data mq) qs, \<lambda>u. in_hand mq (ph u)) =
      Some (unat (mq_max_msgs mq), unat (mq_msg_size mq), map (mq_data mq') ?qs, (\<lambda>u. in_hand mq (ph u))(t := in_hand mq' None))"
    using e b'(2) m(4) l pq(5) t by (auto simp: link_event_def node_data_def fun_eq_iff)
  show ?thesis
    by (rule half_simI [OF P _ m(3) _ _ _ _ sp, where fs' = fs]) (use m(2,4,5) e b'(2) in auto)
qed

lemma copy_sim:
  assumes P: "parts_ok i s ph mq qs fs" and t: "ph t = Some (Copying n bsize)" and r: "mq_recv_copy i n bsize s = Some data"
  shows "half_sim i (s, ph) (Copied t bsize data) (s, ph(t := Some (Releasing n)))"
proof -
  have pq: "mqueues s i = Some mq" "mq_part mq qs fs (insert n (others ph t))" "n \<notin> others ph t"
    using P held_others(1) [of ph t] t apart_others [of ph t] by (auto simp: parts_ok_def)
  have "data = take bsize (mq_data mq n)" using r pq(1) mq_read_part(1) [OF pq(2) insertI1, of bsize] by (simp add: mq_recv_copy_def)
  then show ?thesis
    by (intro half_simI [OF P, of _ mq qs fs]) (use pq t in \<open>auto simp: mq_same_def fun_eq_iff\<close>)
qed

lemma release_sim:
  assumes call: "caller c t s" and P: "parts_ok i s ph mq qs fs" and t: "ph t = Some (Releasing n)"
    and r: "mq_recv_release c i n s = Some s'"
  shows "half_sim i (s, ph) (Finished t) (s', ph(t := None))"
proof -
  have pq: "mqueues s i = Some mq" "mq_part mq qs fs (insert n (others ph t))" "n \<notin> others ph t"
    using P held_others(1) [of ph t] t apart_others [of ph t] by (auto simp: parts_ok_def)
  obtain mq' where m: "mq_release n mq = Some mq'" "mq_part mq' qs (n # fs) (others ph t)"
    "mq_same mq mq'" "\<forall>m. mq_data mq' m = mq_data mq m" "\<forall>m. m \<in> others ph t \<longrightarrow> mq_next mq' m = mq_next mq m"
    by (rule mq_release_part [OF pq(2,3)])
  have "caller c t (upd_mq i mq' s)" using call by simp
  then obtain b where b: "wakes_first c (SenderQ (Mqueue i)) (upd_mq i mq' s) b" "wake_first c (SenderQ (Mqueue i)) (upd_mq i mq' s) = Some b"
    using wake_first_ok [of c t "upd_mq i mq' s" "SenderQ (Mqueue i)"] by blast
  have e: "s' = b" using r pq(1) m(1) b(2) by (simp add: mq_recv_release_def)
  have mq': "mqueues s' i = Some mq'" using ipcsD(5) [OF wakes_first_ipcs [OF b(1)]] e by simp
  show ?thesis
    by (rule half_simI [OF P mq' m(3), of qs "n # fs"]) (use m(2,4,5) t in \<open>auto simp: fun_eq_iff\<close>)
qed

subsection \<open>Simulation\<close>

lemma send_enter_sim:
  assumes call: "caller c t s" and P: "parts_ok i s ph mq qs fs" and o: "owned (ph t) = {}" and el: "eligible c s u"
    and tm: "timeout = 0 \<or> wait_time timeout" and len: "length b \<le> unat (mq_msg_size mq)"
    and r: "mq_send_begin c i timeout s = Some (r, s')"
  shows "half_sim i (s, ph) Quiet (s', ph(t := send_phase b timeout tick r))"
proof -
  have pq: "mqueues s i = Some mq" "ipc_flag (mq_flag mq)" using P by (simp_all add: parts_ok_def)
  show ?thesis
  proof (rule mq_send_begin_result [OF call pq el tm r])
    fix out assume "r = Inl out" "mqueues s' = mqueues s"
    then show ?thesis using len by (intro half_sim_same [OF P]) (auto simp: send_phase_def o split: outcome.splits)
  next
    fix n mq1 assume "r = Inr n" "mq_queue_free mq = Some n" "mq_take n mq = Some mq1" "s' = upd_mq i mq1 s"
    then show ?thesis using take_sim [OF P o _ _ len] by (simp add: send_phase_def)
  qed
qed

lemma recv_enter_sim:
  assumes call: "caller c t s" and P: "parts_ok i s ph mq qs fs" and o: "owned (ph t) = {}" and el: "eligible c s u"
    and tm: "timeout = 0 \<or> wait_time timeout" and r: "mq_recv_begin c i timeout s = Some (r, s')"
  shows "half_sim i (s, ph) (unlink_event t r) (s', ph(t := recv_phase bsize timeout tick r))"
proof -
  have pq: "mqueues s i = Some mq" "ipc_flag (mq_flag mq)" using P by (simp_all add: parts_ok_def)
  show ?thesis
  proof (rule mq_recv_begin_result [OF call pq el tm r])
    fix out assume "r = Inl out" "mqueues s' = mqueues s"
    moreover from this have "half_sim i (s, ph) Quiet (s', ph(t := recv_phase bsize timeout tick r))"
      by (intro half_sim_same [OF P]) (auto simp: recv_phase_def o split: outcome.splits)
    ultimately show ?thesis by (simp add: unlink_event_def)
  next
    fix n mq1 assume "r = Inr n" "mq_entry mq \<noteq> 0" "mq_unlink mq = Some (n, mq1)" "s' = upd_mq i mq1 s"
    then show ?thesis using unlink_sim [OF P o] by (simp add: recv_phase_def unlink_event_def)
  qed
qed

text \<open>A call that ends at once.\<close>

lemma early_sim:
  "parts_ok i s ph mq qs fs \<Longrightarrow> owned (ph t) = {} \<Longrightarrow> half_sim i (s, ph) Quiet (s, ph(t := None))"
  by (rule half_sim_same) auto

lemma half_step_sim:
  assumes st: "half_step i (s, ph) e (s', ph')" and P: "parts_ok i s ph mq qs fs"
  shows "half_sim i (s, ph) e (s', ph')"
  using st
proof cases
  case (send c t u timeout b r)
  have mq: "mqueues s i = Some mq" using P by (simp add: parts_ok_def)
  have o: "owned (ph t) = {}" using send by simp
  consider e where "r = Inl (Done e)" "s' = s" | "mq_send_begin c i timeout s = Some (r, s')" "length b \<le> unat (mq_msg_size mq)"
    using send mq by (auto simp: mq_send_enter_def split: Option.bind_splits if_splits)
  then show ?thesis
  proof cases
    case 1
    then show ?thesis using early_sim [OF P o] send by (simp add: send_phase_def)
  next
    case 2
    then show ?thesis using send_enter_sim [OF _ P o _ _ 2(2,1)] send by blast
  qed
next
  case (send_retry c t b timeout tick u left_time r)
  have o: "owned (ph t) = {}" using send_retry by simp
  have len: "length b \<le> unat (mq_msg_size mq)" using P send_retry spec [of "\<lambda>t. phase_ok mq (ph t)" t] by (auto simp: parts_ok_def)
  consider e where "r = Inl (Done e)" "s' = s" | "mq_send_begin c i left_time s = Some (r, s')"
    using send_retry by (auto simp: mq_send_retry_def split: Option.bind_splits if_splits)
  then show ?thesis
  proof cases
    case 1
    then show ?thesis using early_sim [OF P o] send_retry by (simp add: send_phase_def)
  next
    case 2
    then show ?thesis using send_enter_sim [OF _ P o _ _ len 2] send_retry by blast
  qed
next
  case (urgent c t b r)
  have mq: "mqueues s i = Some mq" using P by (simp add: parts_ok_def)
  have o: "owned (ph t) = {}" using urgent by simp
  consider e where "r = Inl (Done e)" "s' = s"
    | n mq1 where "r = Inr n" "mq_queue_free mq = Some n" "mq_take n mq = Some mq1" "s' = upd_mq i mq1 s" "length b \<le> unat (mq_msg_size mq)"
    using urgent mq by (auto simp: mq_urgent_enter_def split: Option.bind_splits if_splits option.splits)
  then show ?thesis
  proof cases
    case 1
    then show ?thesis using early_sim [OF P o] urgent by (simp add: urgent_phase_def)
  next
    case 2
    then show ?thesis using take_sim [OF P o 2(2,3,5), of True] urgent by (simp add: urgent_phase_def)
  qed
next
  case (recv c t u timeout bsize r)
  have mq: "mqueues s i = Some mq" using P by (simp add: parts_ok_def)
  have o: "owned (ph t) = {}" using recv by simp
  consider e where "r = Inl (Done e)" "s' = s" | "mq_recv_begin c i timeout s = Some (r, s')"
    using recv mq by (auto simp: mq_recv_enter_def split: Option.bind_splits if_splits)
  then show ?thesis
  proof cases
    case 1
    then show ?thesis using early_sim [OF P o] recv by (simp add: recv_phase_def unlink_event_def)
  next
    case 2
    then show ?thesis using recv_enter_sim [OF _ P o _ _ 2] recv by blast
  qed
next
  case (recv_retry c t bsize timeout tick u left_time r)
  have o: "owned (ph t) = {}" using recv_retry by simp
  consider e where "r = Inl (Done e)" "s' = s" | "mq_recv_begin c i left_time s = Some (r, s')"
    using recv_retry by (auto simp: mq_recv_retry_def split: Option.bind_splits if_splits)
  then show ?thesis
  proof cases
    case 1
    then show ?thesis using early_sim [OF P o] recv_retry by (simp add: recv_phase_def unlink_event_def)
  next
    case 2
    then show ?thesis using recv_enter_sim [OF _ P o _ _ 2] recv_retry by blast
  qed
next
  case environment
  then show ?thesis using P by (auto simp: half_sim_def half_inv_def half_abs_def parts_ok_def)
next
  case (fill c t urgent n b)
  then show ?thesis using fill_sim [OF P] by simp
next
  case (link c t urgent n b out)
  then show ?thesis using link_sim [OF _ P] by simp
next
  case (copy c t n bsize r)
  then show ?thesis using copy_sim [OF P] by simp
next
  case (release c t n)
  then show ?thesis using release_sim [OF _ P] by simp
qed

interpretation message_queue_halves: implements "half_step i" "half_inv i" "half_abs i" half_spec for i
proof
  have "half_sim i st e st'" if "half_inv i st" "half_step i st e st'" for st e st'
    using that half_step_sim [of i "fst st" "snd st" e "fst st'" "snd st'"] by (auto simp: half_inv_def)
  then show "half_inv i st \<Longrightarrow> half_step i st e st' \<Longrightarrow> half_inv i st'"
    "half_inv i st \<Longrightarrow> half_step i st e st' \<Longrightarrow> half_spec e (half_abs i st) = Some (half_abs i st')" for st e st'
    by (auto simp: half_sim_def)
qed

subsection \<open>Order of messages\<close>

fun sent :: "mq_event2 list \<Rightarrow> u8 list list" where
  "sent [] = []"
| "sent (Linked urgent b m # es) = b # sent es"
| "sent (_ # es) = sent es"

fun copied_by :: "tid \<Rightarrow> mq_event2 list \<Rightarrow> (nat \<times> u8 list) option" where
  "copied_by t [] = None"
| "copied_by t (Copied u bsize r # es) = (if u = t then Some (bsize, r) else copied_by t es)"
| "copied_by t (_ # es) = copied_by t es"

text \<open>The receives in the order in which they unlink their messages, each with the size of its buffer and what it has copied, if it has.\<close>

fun received :: "mq_event2 list \<Rightarrow> (nat \<times> u8 list) option list" where
  "received [] = []"
| "received (Unlinked t # es) = copied_by t es # received es"
| "received (_ # es) = received es"

fun no_urgent :: "mq_event2 list \<Rightarrow> bool" where
  "no_urgent [] = True"
| "no_urgent (Linked urgent b m # es) = (\<not> urgent \<and> no_urgent es)"
| "no_urgent (_ # es) = no_urgent es"

text \<open>
  What a receive copies of the message \<open>b\<close> from a node of \<open>sz\<close> bytes: as many bytes as its buffer and the node have, and
  these begin with the message, or are its beginning if the buffer is shorter.
\<close>

definition gets :: "nat \<Rightarrow> u8 list \<Rightarrow> (nat \<times> u8 list) option \<Rightarrow> bool" where
  "gets sz b x \<longleftrightarrow> (case x of None \<Rightarrow> True
     | Some (bsize, r) \<Rightarrow> length r = min bsize sz \<and> take (length b) r = take (length r) b)"

definition carries :: "nat \<Rightarrow> u8 list \<Rightarrow> u8 list \<Rightarrow> bool" where
  "carries sz b m \<longleftrightarrow> length m = sz \<and> take (length b) m = b"

lemma half_spec_in_hand:
  assumes "spec_run half_spec es (k, sz, q, h) = Some a" "h t = Some m" "copied_by t es = Some (bsize, r)"
  shows "r = take bsize m"
  using assms
proof (induction es arbitrary: q h)
  case (Cons e es)
  obtain q1 h1 where a: "half_spec e (k, sz, q, h) = Some (k, sz, q1, h1)" "spec_run half_spec es (k, sz, q1, h1) = Some a"
    using Cons.prems(1) by (cases "(e, k, sz, q, h)" rule: half_spec.cases) (auto split: Option.bind_splits if_splits)
  show ?case
  proof (cases "\<exists>bs x. e = Copied t bs x")
    case True
    then show ?thesis using a(1) Cons.prems(2,3) by (auto split: if_splits)
  next
    case False
    have "h1 t = Some m"
      using a(1) Cons.prems(2) False by (cases "(e, k, sz, q, h)" rule: half_spec.cases) (auto split: if_splits)
    moreover have "copied_by t es = Some (bsize, r)" using Cons.prems(3) False by (cases e) (auto split: if_splits)
    ultimately show ?thesis using Cons.IH [OF a(2)] by blast
  qed
qed simp

lemma gets_carries: "carries sz b m \<Longrightarrow> \<forall>bsize r. x = Some (bsize, r) \<longrightarrow> r = take bsize m \<Longrightarrow> gets sz b x"
  unfolding gets_def carries_def
  by (auto split: option.splits simp: min.commute) (metis length_take min.commute take_take)

lemma half_spec_fifo:
  assumes "spec_run half_spec es (k, sz, q, h) = Some (k', sz', q', h')" "no_urgent es" "list_all2 (carries sz) bs q"
  shows "\<exists>dn lf. bs @ sent es = dn @ lf \<and> list_all2 (gets sz) dn (received es) \<and> list_all2 (carries sz) lf q' \<and> k' = k \<and> sz' = sz"
  using assms
proof (induction es arbitrary: q h bs)
  case (Cons e es)
  obtain a where a: "half_spec e (k, sz, q, h) = Some a" "spec_run half_spec es a = Some (k', sz', q', h')"
    using Cons.prems(1) by (auto split: Option.bind_splits)
  show ?case
  proof (cases e)
    case (Linked urgent b m)
    then have "a = (k, sz, q @ [m], h)" "carries sz b m" using a(1) Cons.prems(2) by (auto simp: carries_def split: if_splits)
    moreover from this have "list_all2 (carries sz) (bs @ [b]) (q @ [m])" using Cons.prems(3) by (simp add: list_all2_appendI)
    ultimately show ?thesis using Cons.IH [of "q @ [m]" h "bs @ [b]"] a(2) Cons.prems(2) Linked by simp
  next
    case (Unlinked t)
    then obtain m q1 where q: "q = m # q1" "a = (k, sz, q1, h(t \<mapsto> m))" using a(1) by (cases q) (auto split: if_splits)
    obtain b bs1 where bs: "bs = b # bs1" "carries sz b m" "list_all2 (carries sz) bs1 q1"
      using Cons.prems(3) q(1) by (auto simp: list_all2_Cons2)
    have "no_urgent es" using Cons.prems(2) Unlinked by simp
    from Cons.IH [OF _ this bs(3)] a(2) q(2) obtain dn lf where
      dn: "bs1 @ sent es = dn @ lf" "list_all2 (gets sz) dn (received es)" "list_all2 (carries sz) lf q'" "k' = k" "sz' = sz" by blast
    have "gets sz b (copied_by t es)"
      by (rule gets_carries [OF bs(2)]) (use half_spec_in_hand [OF a(2) [unfolded q(2)], of t m] in auto)
    then show ?thesis
      by (intro exI [of _ "b # dn"] exI [of _ lf]) (use dn Unlinked bs in simp)
  next
    case (Copied t bsize r)
    then obtain h1 where "a = (k, sz, q, h1)" using a(1) by (auto split: if_splits)
    then show ?thesis using Cons.IH [of q h1 bs] a(2) Cons.prems(2,3) Copied by simp
  qed (use Cons.IH Cons.prems a in auto)
qed simp

text \<open>The next part of a call under way runs to its end.\<close>

definition moves_on :: "nat \<Rightarrow> nat \<Rightarrow> kernel \<Rightarrow> phase option \<Rightarrow> bool" where
  "moves_on i c s p = (case p of
      Some (Filling urgent n b) \<Rightarrow> mq_send_copy urgent i n b s \<noteq> None
    | Some (Linking urgent n b) \<Rightarrow> (\<exists>s'. mq_send_link urgent c i n s = Some (Done RT_EOK, s'))
    | Some (Copying n bsize) \<Rightarrow> mq_recv_copy i n bsize s \<noteq> None
    | Some (Releasing n) \<Rightarrow> mq_recv_release c i n s \<noteq> None
    | _ \<Rightarrow> True)"

lemma half_moves_on:
  assumes "half_inv i (s, ph)" "caller c t s"
  shows "moves_on i c s (ph t)"
proof -
  obtain mq qs fs where P: "mqueues s i = Some mq" "mq_part mq qs fs (owned (ph t) \<union> others ph t)" "owned (ph t) \<inter> others ph t = {}"
      "phase_ok mq (ph t)"
    using assms(1) held_others(1) [of ph t] apart_others [of ph t] by (auto simp: half_inv_def parts_ok_def)
  show ?thesis
  proof (cases "ph t")
    case None
    then show ?thesis by (simp add: moves_on_def)
  next
    case (Some p)
    show ?thesis
    proof (cases p)
      case (Filling urgent n b)
      then have p: "mq_part mq qs fs (insert n (others ph t))" "length b \<le> unat (mq_msg_size mq)" using P Some by simp_all
      obtain x where "mq_fill n b mq = Some x" by (rule mq_fill_part [OF p(1) insertI1 p(2)])
      moreover obtain y where "mq_fill_urgent n b mq = Some y" by (rule mq_fill_urgent_part [OF p(1) insertI1 p(2)])
      ultimately show ?thesis using Filling Some P(1) by (simp add: moves_on_def mq_send_copy_def)
    next
      case (Linking urgent n b)
      then have p: "mq_part mq qs fs (insert n (others ph t))" "n \<notin> others ph t" "\<not> urgent \<Longrightarrow> mq_next mq n = None" using P Some by auto
      have "\<exists>x. (if urgent then mq_link_urgent n mq else mq_link n mq) = Some (0, x)"
      proof (cases urgent)
        case True
        obtain x where "mq_link_urgent n mq = Some (0, x)" by (rule mq_link_urgent_part [OF p(1,2)])
        then show ?thesis using True by simp
      next
        case False
        obtain x where "mq_link n mq = Some (0, x)" by (rule mq_link_part [OF p(1,2) p(3) [OF False]])
        then show ?thesis using False by simp
      qed
      then obtain x where x: "(if urgent then mq_link_urgent n mq else mq_link n mq) = Some (0, x)" ..
      obtain s' where "mq_finish_send c i (0, x) s = Some (Done 0, s')" by (rule mq_finish_send_ok [OF assms(2)])
      then show ?thesis using Linking Some P(1) x by (cases urgent) (auto simp: moves_on_def mq_send_link_def)
    next
      case (Copying n bsize)
      then have p: "mq_part mq qs fs (insert n (others ph t))" using P Some by simp
      show ?thesis using Copying Some P(1) mq_read_part(1) [OF p insertI1] by (simp add: moves_on_def mq_recv_copy_def)
    next
      case (Releasing n)
      then have p: "mq_part mq qs fs (insert n (others ph t))" "n \<notin> others ph t" using P Some by auto
      obtain x where x: "mq_release n mq = Some x" by (rule mq_release_part [OF p])
      have "caller c t (upd_mq i x s)" using assms(2) by simp
      then obtain s' where "wake_first c (SenderQ (Mqueue i)) (upd_mq i x s) = Some s'"
        using wake_first_ok [of c t "upd_mq i x s" "SenderQ (Mqueue i)"] by blast
      then show ?thesis using Releasing Some P(1) x by (simp add: moves_on_def mq_recv_release_def)
    qed (use Some in \<open>simp_all add: moves_on_def\<close>)
  qed
qed

text \<open>
  \<^bold>\<open>C4\<close>: A message queue delivers messages in the order in which they were sent. The runs are arbitrary interleavings, by
  running threads on either hart, of the critical sections of blocking and non-blocking sends and receives, of the copies
  between them and of steps that leave the queue alone, without urgent messages; calls may be under way at the beginning
  and at the end. Starting from an empty queue, the k-th receive to unlink a message gets the k-th message that was linked,
  although the copies may happen in another order: it copies exactly as many bytes as its buffer and a node have, which
  begin with the message, or are its beginning if the buffer is shorter. The messages not yet unlinked are in the queue, in
  order and complete. No call under way is stuck, and no message for which a node was taken is refused.
\<close>

theorem message_queue_fifo:
  assumes "run (half_step i) (s, ph) es (s', ph')" "half_inv i (s, ph)" "mqueues s i = Some mq" "mq_msgs mq = []" "no_urgent es"
  shows "\<exists>dn lf mq'. sent es = dn @ lf \<and> list_all2 (gets (unat (mq_msg_size mq))) dn (received es) \<and>
     mqueues s' i = Some mq' \<and> mq_max_msgs mq' = mq_max_msgs mq \<and> mq_msg_size mq' = mq_msg_size mq \<and>
     list_all2 (carries (unat (mq_msg_size mq))) lf (mq_msgs mq') \<and> (\<forall>c t. caller c t s' \<longrightarrow> moves_on i c s' (ph' t))"
proof -
  have sp: "spec_run half_spec es (half_abs i (s, ph)) = Some (half_abs i (s', ph'))"
    by (rule message_queue_halves.run_refines [OF assms(1,2)])
  have inv: "half_inv i (s', ph')" by (rule message_queue_halves.run_inv [OF assms(1,2)])
  then obtain mq' where mq': "mqueues s' i = Some mq'" by (auto simp: half_inv_def parts_ok_def)
  have "spec_run half_spec es (unat (mq_max_msgs mq), unat (mq_msg_size mq), [], \<lambda>t. in_hand mq (ph t)) =
      Some (unat (mq_max_msgs mq'), unat (mq_msg_size mq'), mq_msgs mq', \<lambda>t. in_hand mq' (ph' t))"
    using sp assms(3,4) mq' by (simp add: half_abs_def)
  from half_spec_fifo [OF this assms(5), of "[]"] show ?thesis
    using mq' half_moves_on [OF inv] by (auto simp: word_unat_eq_iff)
qed

text \<open>
  Thread 1 on hart 0 and thread 2 on hart 1 use the queue together: thread 1 takes the first node, but thread 2 links its message
  first; thread 1 unlinks it, thread 2 unlinks the other message and copies it before thread 1 copies its own.
\<close>

definition ex_queue :: "rt_mq_message list \<Rightarrow> nat option \<Rightarrow> nat option \<Rightarrow> nat option \<Rightarrow> u16 \<Rightarrow> kernel" where
  "ex_queue pool head tail free entry = ex_kernel\<lparr>mqueues := [7 \<mapsto> \<lparr>mq_static = True, mq_flag = 0, mq_msg_pool = pool, mq_msg_size = 2,
     mq_max_msgs = 2, mq_entry = entry, mq_queue_head = head, mq_queue_tail = tail, mq_queue_free = free\<rparr>]\<rparr>"

lemma ex_queue_threads:
  "caller 0 1 (ex_queue pool head tail free entry)" "caller 1 2 (ex_queue pool head tail free entry)"
  "eligible 0 (ex_queue pool head tail free entry) 3" "eligible 1 (ex_queue pool head tail free entry) 3"
  "tq (ex_queue pool head tail free entry) (SuspendQ k) = []"
proof -
  have "caller 1 2 ex_kernel" using ex_kernel_kernel_ok ex_kernel_ok(4) unfolding caller_def ex_kernel_threads by simp
  moreover have "eligible 1 ex_kernel 3" unfolding eligible_def ex_kernel_threads by simp
  ultimately show "caller 0 1 (ex_queue pool head tail free entry)" "caller 1 2 (ex_queue pool head tail free entry)"
    "eligible 0 (ex_queue pool head tail free entry) 3" "eligible 1 (ex_queue pool head tail free entry) 3"
    "tq (ex_queue pool head tail free entry) (SuspendQ k) = []"
    using ex_kernel_caller by (simp_all add: ex_queue_def) (simp add: ex_kernel_def)
qed

lemma ex_queue_wake: "wake_first c (SuspendQ k) (ex_queue pool head tail free entry) = Some (ex_queue pool head tail free entry)"
  by (simp add: wake_first_def ex_queue_threads(5))

lemma ex_queue_upd:
  "upd_mq 7 \<lparr>mq_static = True, mq_flag = 0, mq_msg_pool = pool', mq_msg_size = 2, mq_max_msgs = 2, mq_entry = entry', mq_queue_head = head',
     mq_queue_tail = tail', mq_queue_free = free'\<rparr> (ex_queue pool head tail free entry) = ex_queue pool' head' tail' free' entry'"
  "mqueues (ex_queue pool head tail free entry) 7 = Some \<lparr>mq_static = True, mq_flag = 0, mq_msg_pool = pool, mq_msg_size = 2,
     mq_max_msgs = 2, mq_entry = entry, mq_queue_head = head, mq_queue_tail = tail, mq_queue_free = free\<rparr>"
  by (simp_all add: ex_queue_def)

lemma ex_queue_run:
  fixes a0 a1 b0 b1 b2 :: rt_mq_message and ph0 :: "tid \<Rightarrow> phase option"
  assumes d: "a0 = \<lparr>msg_next = None, msg_data = [9, 9]\<rparr>" "a1 = \<lparr>msg_next = Some 0, msg_data = [9, 9]\<rparr>"
    "b0 = \<lparr>msg_next = None, msg_data = [4, 5]\<rparr>" "b1 = \<lparr>msg_next = None, msg_data = [3, 9]\<rparr>" "b2 = \<lparr>msg_next = Some 1, msg_data = [4, 5]\<rparr>"
  shows "mq_send_enter 0 7 [3] 0 (ex_queue [a0, a1] None None (Some 1) 0) = Some (Inr 1, ex_queue [a0, a1] None None (Some 0) 0)"
    "mq_send_enter 1 7 [4, 5] 0 (ex_queue [a0, a1] None None (Some 0) 0) = Some (Inr 0, ex_queue [a0, a1] None None None 0)"
    "mq_send_copy False 7 0 [4, 5] (ex_queue [a0, a1] None None None 0) = Some (ex_queue [b0, a1] None None None 0)"
    "mq_send_link False 1 7 0 (ex_queue [b0, a1] None None None 0) = Some (Done 0, ex_queue [b0, a1] (Some 0) (Some 0) None 1)"
    "mq_send_copy False 7 1 [3] (ex_queue [b0, a1] (Some 0) (Some 0) None 1) = Some (ex_queue [b0, b1] (Some 0) (Some 0) None 1)"
    "mq_send_link False 0 7 1 (ex_queue [b0, b1] (Some 0) (Some 0) None 1) = Some (Done 0, ex_queue [b2, b1] (Some 0) (Some 1) None 2)"
    "mq_recv_enter 0 7 2 0 (ex_queue [b2, b1] (Some 0) (Some 1) None 2) = Some (Inr 0, ex_queue [b2, b1] (Some 1) (Some 1) None 1)"
    "mq_recv_enter 1 7 1 0 (ex_queue [b2, b1] (Some 1) (Some 1) None 1) = Some (Inr 1, ex_queue [b2, b1] None None None 0)"
    "mq_recv_copy 7 1 1 (ex_queue [b2, b1] None None None 0) = Some [3]"
    "mq_recv_copy 7 0 2 (ex_queue [b2, b1] None None None 0) = Some [4, 5]"
proof -
  show "mq_send_enter 0 7 [3] 0 (ex_queue [a0, a1] None None (Some 1) 0) = Some (Inr 1, ex_queue [a0, a1] None None (Some 0) 0)"
    "mq_send_enter 1 7 [4, 5] 0 (ex_queue [a0, a1] None None (Some 0) 0) = Some (Inr 0, ex_queue [a0, a1] None None None 0)"
    by (simp_all add: mq_send_enter_def mq_send_begin_def mq_take_def mq_node_def ex_queue_upd d)
  show "mq_send_copy False 7 0 [4, 5] (ex_queue [a0, a1] None None None 0) = Some (ex_queue [b0, a1] None None None 0)"
    "mq_send_copy False 7 1 [3] (ex_queue [b0, a1] (Some 0) (Some 0) None 1) = Some (ex_queue [b0, b1] (Some 0) (Some 0) None 1)"
    by (simp_all add: mq_send_copy_def mq_fill_def mq_node_def set_node_def memcpy_to_def blit_def ex_queue_upd d)
  show "mq_send_link False 1 7 0 (ex_queue [b0, a1] None None None 0) = Some (Done 0, ex_queue [b0, a1] (Some 0) (Some 0) None 1)"
    "mq_send_link False 0 7 1 (ex_queue [b0, b1] (Some 0) (Some 0) None 1) = Some (Done 0, ex_queue [b2, b1] (Some 0) (Some 1) None 2)"
    by (simp_all add: mq_send_link_def mq_link_def mq_node_def set_node_def mq_finish_send_def ex_queue_upd ex_queue_wake d)
  show "mq_recv_enter 0 7 2 0 (ex_queue [b2, b1] (Some 0) (Some 1) None 2) = Some (Inr 0, ex_queue [b2, b1] (Some 1) (Some 1) None 1)"
    "mq_recv_enter 1 7 1 0 (ex_queue [b2, b1] (Some 1) (Some 1) None 1) = Some (Inr 1, ex_queue [b2, b1] None None None 0)"
    by (simp_all add: mq_recv_enter_def mq_recv_begin_def mq_unlink_def mq_node_def ex_queue_upd d)
  show "mq_recv_copy 7 1 1 (ex_queue [b2, b1] None None None 0) = Some [3]"
    "mq_recv_copy 7 0 2 (ex_queue [b2, b1] None None None 0) = Some [4, 5]"
    by (simp_all add: mq_recv_copy_def mq_read_def mq_node_def memread_def ex_queue_upd d)
qed

theorem message_queue_fifo_witness:
  "\<exists>s s' ph' mq'. run (half_step 7) (s, \<lambda>_. None) [Quiet, Quiet, Quiet, Linked False [4, 5] [4, 5], Quiet, Linked False [3] [3, 9],
       Unlinked 1, Unlinked 2, Copied 2 1 [3], Copied 1 2 [4, 5]] (s', ph') \<and> mqueues s' 7 = Some mq' \<and> mq_msgs mq' = []"
proof -
  define a0 :: rt_mq_message where "a0 = \<lparr>msg_next = None, msg_data = [9, 9]\<rparr>"
  define a1 :: rt_mq_message where "a1 = \<lparr>msg_next = Some 0, msg_data = [9, 9]\<rparr>"
  define b0 :: rt_mq_message where "b0 = \<lparr>msg_next = None, msg_data = [4, 5]\<rparr>"
  define b1 :: rt_mq_message where "b1 = \<lparr>msg_next = None, msg_data = [3, 9]\<rparr>"
  define b2 :: rt_mq_message where "b2 = \<lparr>msg_next = Some 1, msg_data = [4, 5]\<rparr>"
  note d = a0_def a1_def b0_def b1_def b2_def
  note e = ex_queue_run [OF d]
  note t = ex_queue_threads
  let ?P0 = "(\<lambda>_. None) :: tid \<Rightarrow> phase option"
  let ?P1 = "?P0(1 := Some (Filling False 1 [3]))"
  let ?P2 = "?P1(2 := Some (Filling False 0 [4, 5]))"
  let ?P3 = "?P2(2 := Some (Linking False 0 [4, 5]))"
  let ?P4 = "?P3(2 := None)"
  let ?P5 = "?P4(1 := Some (Linking False 1 [3]))"
  let ?P6 = "?P5(1 := None)"
  let ?P7 = "?P6(1 := Some (Copying 0 2))"
  let ?P8 = "?P7(2 := Some (Copying 1 1))"
  let ?P9 = "?P8(2 := Some (Releasing 1))"
  let ?P10 = "?P9(1 := Some (Releasing 0))"
  let ?s0 = "ex_queue [a0, a1] None None (Some 1) 0" and ?s1 = "ex_queue [a0, a1] None None (Some 0) 0"
  let ?s2 = "ex_queue [a0, a1] None None None 0" and ?s3 = "ex_queue [b0, a1] None None None 0"
  let ?s4 = "ex_queue [b0, a1] (Some 0) (Some 0) None 1" and ?s5 = "ex_queue [b0, b1] (Some 0) (Some 0) None 1"
  let ?s6 = "ex_queue [b2, b1] (Some 0) (Some 1) None 2" and ?s7 = "ex_queue [b2, b1] (Some 1) (Some 1) None 1"
  let ?s8 = "ex_queue [b2, b1] None None None 0"
  have 1: "half_step 7 (?s0, ?P0) Quiet (?s1, ?P1)"
    using half_step.send [OF t(1) _ t(3) disjI1 [OF refl] e(1), of ?P0] by (simp add: send_phase_def)
  have 2: "half_step 7 (?s1, ?P1) Quiet (?s2, ?P2)"
    using half_step.send [OF t(2) _ t(4) disjI1 [OF refl] e(2), of ?P1] by (simp add: send_phase_def)
  have 3: "half_step 7 (?s2, ?P2) Quiet (?s3, ?P3)" using half_step.fill [OF t(2) _ e(3), of ?P2] by simp
  have 4: "half_step 7 (?s3, ?P3) (Linked False [4, 5] [4, 5]) (?s4, ?P4)"
    using half_step.link [OF t(2) _ e(4), of ?P3 "[4, 5]"] by (simp add: link_event_def node_data_def ex_queue_upd mq_data_def b0_def)
  have 5: "half_step 7 (?s4, ?P4) Quiet (?s5, ?P5)" using half_step.fill [OF t(1) _ e(5), of ?P4] by simp
  have 6: "half_step 7 (?s5, ?P5) (Linked False [3] [3, 9]) (?s6, ?P6)"
    using half_step.link [OF t(1) _ e(6), of ?P5 "[3]"] by (simp add: link_event_def node_data_def ex_queue_upd mq_data_def b1_def)
  have 7: "half_step 7 (?s6, ?P6) (Unlinked 1) (?s7, ?P7)"
    using half_step.recv [OF t(1) _ t(3) disjI1 [OF refl] e(7), of ?P6] by (simp add: recv_phase_def unlink_event_def)
  have 8: "half_step 7 (?s7, ?P7) (Unlinked 2) (?s8, ?P8)"
    using half_step.recv [OF t(2) _ t(4) disjI1 [OF refl] e(8), of ?P7] by (simp add: recv_phase_def unlink_event_def)
  have 9: "half_step 7 (?s8, ?P8) (Copied 2 1 [3]) (?s8, ?P9)" using half_step.copy [OF t(2) _ e(9), of ?P8] by simp
  have 10: "half_step 7 (?s8, ?P9) (Copied 1 2 [4, 5]) (?s8, ?P10)" using half_step.copy [OF t(1) _ e(10), of ?P9] by simp
  have r: "run (half_step 7) (?s0, ?P0) [Quiet, Quiet, Quiet, Linked False [4, 5] [4, 5], Quiet, Linked False [3] [3, 9],
       Unlinked 1, Unlinked 2, Copied 2 1 [3], Copied 1 2 [4, 5]] (?s8, ?P10)"
    by (intro run_step) (fact 1 2 3 4 5 6 7 8 9 10 run_nil)+
  obtain mq where mq: "mqueues ?s0 7 = Some mq" "mq_msgs mq = []" "mq_part mq [] [1, 0] {}" "mq_flag mq = 0"
    by (simp add: ex_queue_upd mq_msgs_def mq_part_rep mq_rep_def d)
  have inv: "half_inv 7 (?s0, ?P0)"
    unfolding half_inv_def by (rule exI [of _ mq], rule exI [of _ "[]"], rule exI [of _ "[1, 0]"])
      (use mq in \<open>simp add: parts_ok_def held_def apart_def\<close>)
  from message_queue_fifo [OF r inv mq(1,2)] obtain dn lf mq' where
    m: "[[4, 5], [3]] = dn @ lf" "list_all2 (gets (unat (mq_msg_size mq))) dn [Some (2, [4, 5]), Some (1, [3])]"
      "mqueues ?s8 7 = Some mq'" "list_all2 (carries (unat (mq_msg_size mq))) lf (mq_msgs mq')" by auto
  have "length dn = 2" using list_all2_lengthD [OF m(2)] by simp
  then have "lf = []" using arg_cong [OF m(1), of length] by simp
  then have "mq_msgs mq' = []" using m(4) by simp
  then show ?thesis using r m(3) by blast
qed

end
