(* ===== verification/Byte_Memory.thy ===== *)
theory Byte_Memory
  imports Prelude
begin

text \<open>
  Byte-addressed memory, little-endian integers in it, and the memory and string functions of
  \<^verbatim>\<open>src/kservice.c\<close>. Addresses are natural numbers; an object is a range of addresses.
  \<^verbatim>\<open>rt_memset\<close> and \<^verbatim>\<open>rt_memcpy\<close> are modelled with their word-wise loops and are shown to have
  the effect of the byte-wise definition.
\<close>

type_synonym memory = "nat \<Rightarrow> u8"

subsection \<open>Integers in memory\<close>

fun load :: "nat \<Rightarrow> memory \<Rightarrow> nat \<Rightarrow> nat" where
  "load 0 m a = 0"
| "load (Suc n) m a = unat (m a) + 256 * load n m (a + 1)"

fun store :: "nat \<Rightarrow> nat \<Rightarrow> nat \<Rightarrow> memory \<Rightarrow> memory" where
  "store 0 a v m = m"
| "store (Suc n) a v m = store n (a + 1) (v div 256) (m(a := of_nat v))"

lemma store_outside: "q < a \<or> a + n \<le> q \<Longrightarrow> store n a v m q = m q"
  by (induction n arbitrary: a v m) auto

lemma load_cong: "(\<And>q. a \<le> q \<Longrightarrow> q < a + n \<Longrightarrow> m q = m' q) \<Longrightarrow> load n m a = load n m' a"
proof (induction n arbitrary: a)
  case (Suc n)
  have "load n m (a + 1) = load n m' (a + 1)" by (rule Suc.IH) (auto intro: Suc.prems)
  then show ?case using Suc.prems [of a] by simp
qed simp

lemma load_store_disjoint: "a + k \<le> b \<or> b + n \<le> a \<Longrightarrow> load n (store k a v m) b = load n m b"
  by (rule load_cong) (auto intro: store_outside)

lemma load_store [simp]: "load n (store n a v m) a = v mod 256 ^ n"
proof (induction n arbitrary: a v m)
  case (Suc n)
  have "store n (a + 1) (v div 256) (m(a := of_nat v)) a = of_nat v" by (simp add: store_outside)
  then show ?case
    by (simp add: Suc.IH unat_of_nat take_bit_eq_mod mod_mult2_eq)
qed simp

lemma load_less: "load n m a < 256 ^ n"
proof (induction n arbitrary: a)
  case (Suc n)
  have "unat (m a) < 256" by (rule unat_u8)
  moreover have "load n m (a + 1) + 1 \<le> 256 ^ n" using Suc.IH [of "a + 1"] by simp
  ultimately show ?case by simp
qed simp

text \<open>Storing what was loaded copies the bytes.\<close>

lemma store_load:
  assumes "k < n"
  shows "store n a (load n m' b) m (a + k) = m' (b + k)"
  using assms
proof (induction n arbitrary: a b k m)
  case (Suc n)
  have v: "(unat (m' b) + 256 * load n m' (b + 1)) div 256 = load n m' (b + 1)"
    using unat_u8 [of "m' b"] by simp
  have w: "(of_nat (unat (m' b) + 256 * x) :: u8) = m' b" for x
    by (rule word_unat_eq_iff [THEN iffD2])
      (use unat_u8 [of "m' b"] in \<open>simp add: unat_of_nat take_bit_eq_mod del: of_nat_add of_nat_mult\<close>)
  show ?case
  proof (cases k)
    case 0
    then show ?thesis using w by (simp add: store_outside)
  next
    case (Suc j)
    then show ?thesis using Suc.IH [of j "a + 1" "b + 1"] Suc.prems v by (simp del: of_nat_add of_nat_mult)
  qed
qed simp

subsection \<open>Filling and copying\<close>

text \<open>The reference functions: a range filled with one byte, a range copied to another place.\<close>

definition filled :: "nat \<Rightarrow> u8 \<Rightarrow> nat \<Rightarrow> memory \<Rightarrow> memory" where
  "filled a d n m = (\<lambda>q. if a \<le> q \<and> q < a + n then d else m q)"

definition copied :: "nat \<Rightarrow> nat \<Rightarrow> nat \<Rightarrow> memory \<Rightarrow> memory" where
  "copied dst src n m = (\<lambda>q. if dst \<le> q \<and> q < dst + n then m (src + (q - dst)) else m q)"

fun memset_bytes :: "nat \<Rightarrow> u8 \<Rightarrow> nat \<Rightarrow> memory \<Rightarrow> memory" where
  "memset_bytes a d 0 m = m"
| "memset_bytes a d (Suc n) m = memset_bytes (a + 1) d n (m(a := d))"

fun memset_words4 :: "nat \<Rightarrow> u64 \<Rightarrow> nat \<Rightarrow> memory \<Rightarrow> nat \<times> nat \<times> memory" where
  "memset_words4 a buffer count m =
     (if count \<ge> 8 * 4
      then memset_words4 (a + 32) buffer (count - 8 * 4)
             (store 8 (a + 24) (unat buffer) (store 8 (a + 16) (unat buffer)
               (store 8 (a + 8) (unat buffer) (store 8 a (unat buffer) m))))
      else (a, count, m))"

fun memset_words :: "nat \<Rightarrow> u64 \<Rightarrow> nat \<Rightarrow> memory \<Rightarrow> nat \<times> nat \<times> memory" where
  "memset_words a buffer count m =
     (if count \<ge> 8 then memset_words (a + 8) buffer (count - 8) (store 8 a (unat buffer) m)
      else (a, count, m))"

definition memset_buffer :: "u32 \<Rightarrow> u64" where
  "memset_buffer d = ((\<lambda>buffer. push_bit 8 buffer OR ucast d) ^^ 8) 0"

definition rt_memset :: "nat \<Rightarrow> u32 \<Rightarrow> nat \<Rightarrow> memory \<Rightarrow> memory" where
  "rt_memset s c count m =
     (let d = c AND 0xff in
      if \<not> count < 8 \<and> s mod 8 = 0
      then (let (a1, count1, m1) = memset_words4 s (memset_buffer d) count m;
                (a2, count2, m2) = memset_words a1 (memset_buffer d) count1 m1
            in memset_bytes a2 (ucast d) count2 m2)
      else memset_bytes s (ucast d) count m)"

lemma scast_u32_le:
  fixes len :: u32
  assumes "k \<le> 1000"
  shows "(of_nat k :: u64) \<le> scast len \<longleftrightarrow> k \<le> unat len"
proof -
  have r: "- 2147483648 \<le> sint len" "sint len < 2147483648"
    using sint_ge [of len] sint_lt [of len] by simp_all
  have u: "uint len = sint len mod 4294967296"
    using uint_word_of_int [of "sint len", where 'a = 32] by simp
  have v: "uint (scast len :: u64) = sint len mod 18446744073709551616"
    unfolding scast_eq uint_word_of_int by simp
  have k: "uint (of_nat k :: u64) = int k" using assms by (simp add: uint_nat unat_of_nat take_bit_eq_mod)
  have "int k \<le> uint (scast len :: u64) \<longleftrightarrow> int k \<le> uint len"
  proof (cases "sint len < 0")
    case True
    then have "sint len mod 4294967296 = sint len + 4294967296" "sint len mod 18446744073709551616 = sint len + 18446744073709551616"
      using r mod_pos_pos_trivial [of "sint len + 4294967296" 4294967296]
        mod_pos_pos_trivial [of "sint len + 18446744073709551616" 18446744073709551616] by simp_all
    then show ?thesis using r assms True unfolding u v by linarith
  next
    case False
    then show ?thesis using r unfolding u v by simp
  qed
  then show ?thesis unfolding word_le_def k by (simp only: uint_nat of_nat_le_iff)
qed

text \<open>
  \<^verbatim>\<open>rt_memcpy\<close> keeps the remaining length in an \<^verbatim>\<open>int\<close> and compares it with an unsigned long: the
  comparison sign-extends it first.
\<close>

function memcpy_words4 :: "nat \<Rightarrow> nat \<Rightarrow> u32 \<Rightarrow> memory \<Rightarrow> nat \<times> nat \<times> u32 \<times> memory" where
  "memcpy_words4 dst src len m =
     (if (scast len :: u64) \<ge> 32
      then (let m1 = store 8 dst (load 8 m src) m;
                m2 = store 8 (dst + 8) (load 8 m1 (src + 8)) m1;
                m3 = store 8 (dst + 16) (load 8 m2 (src + 16)) m2;
                m4 = store 8 (dst + 24) (load 8 m3 (src + 24)) m3
            in memcpy_words4 (dst + 32) (src + 32) (len - 32) m4)
      else (dst, src, len, m))"
  by auto
termination
proof (relation "measure (\<lambda>(dst, src, len, m). unat len)", goal_cases)
  case (2 dst src len m)
  then have "32 \<le> unat len" using scast_u32_le [of 32 len] by simp
  then show ?case by (simp add: unat_sub word_le_nat_alt)
qed simp

function memcpy_words :: "nat \<Rightarrow> nat \<Rightarrow> u32 \<Rightarrow> memory \<Rightarrow> nat \<times> nat \<times> u32 \<times> memory" where
  "memcpy_words dst src len m =
     (if (scast len :: u64) \<ge> 8
      then memcpy_words (dst + 8) (src + 8) (len - 8) (store 8 dst (load 8 m src) m)
      else (dst, src, len, m))"
  by auto
termination
proof (relation "measure (\<lambda>(dst, src, len, m). unat len)", goal_cases)
  case (2 dst src len m)
  then have "8 \<le> unat len" using scast_u32_le [of 8 len] by simp
  then show ?case by (simp add: unat_sub word_le_nat_alt)
qed simp

text \<open>
  The counter of \<^verbatim>\<open>while (len--)\<close> is an \<^verbatim>\<open>int\<close>. For counts from \<open>2\<^sup>3\<^sup>1\<close> on it is negative and runs through the smallest
  value of the type; the model counts down with wrap-around, as the compiled loop does.
\<close>

function memcpy_bytes :: "nat \<Rightarrow> nat \<Rightarrow> u32 \<Rightarrow> memory \<Rightarrow> memory" where
  "memcpy_bytes dst src len m =
     (if len \<noteq> 0 then memcpy_bytes (dst + 1) (src + 1) (len - 1) (m(dst := m src)) else m)"
  by auto
termination
  by (relation "measure (\<lambda>(dst, src, len, m). unat len)") (auto simp: unat_minus_one unat_gt_0)

definition rt_memcpy :: "nat \<Rightarrow> nat \<Rightarrow> nat \<Rightarrow> memory \<Rightarrow> memory" where
  "rt_memcpy dst src count m =
     (let len = of_nat count :: u32 in
      if \<not> (scast len :: u64) < 32 \<and> src mod 8 = 0 \<and> dst mod 8 = 0
      then (let (d1, s1, len1, m1) = memcpy_words4 dst src len m;
                (d2, s2, len2, m2) = memcpy_words d1 s1 len1 m1
            in memcpy_bytes d2 s2 len2 m2)
      else memcpy_bytes dst src len m)"

fun copy_up :: "nat \<Rightarrow> nat \<Rightarrow> nat \<Rightarrow> memory \<Rightarrow> memory" where
  "copy_up tmp s 0 m = m"
| "copy_up tmp s (Suc n) m = copy_up (tmp + 1) (s + 1) n (m(tmp := m s))"

fun copy_down :: "nat \<Rightarrow> nat \<Rightarrow> nat \<Rightarrow> memory \<Rightarrow> memory" where
  "copy_down tmp s 0 m = m"
| "copy_down tmp s (Suc n) m = copy_down (tmp - 1) (s - 1) n (m(tmp - 1 := m (s - 1)))"

definition rt_memmove :: "nat \<Rightarrow> nat \<Rightarrow> nat \<Rightarrow> memory \<Rightarrow> memory" where
  "rt_memmove dest src n m =
     (if src < dest \<and> dest < src + n then copy_down (dest + n) (src + n) n m else copy_up dest src n m)"

fun rt_memcmp :: "nat \<Rightarrow> nat \<Rightarrow> nat \<Rightarrow> memory \<Rightarrow> int" where
  "rt_memcmp cs ct 0 m = 0"
| "rt_memcmp cs ct (Suc n) m =
     (let res = uint (m cs) - uint (m ct) in if res \<noteq> 0 then res else rt_memcmp (cs + 1) (ct + 1) n m)"

subsection \<open>The word-wise loops copy and fill\<close>

declare memset_words4.simps [simp del] memset_words.simps [simp del]
  memcpy_words4.simps [simp del] memcpy_words.simps [simp del] memcpy_bytes.simps [simp del]

lemma filled_filled: "filled (a + k) d n (filled a d k m) = filled a d (k + n) m"
  by (auto simp: filled_def fun_eq_iff)

lemma filled_0 [simp]: "filled a d 0 m = m"
  by (auto simp: filled_def fun_eq_iff)

lemma copied_0 [simp]: "copied dst src 0 m = m"
  by (auto simp: copied_def fun_eq_iff)

lemma copied_copied:
  "dst \<le> src \<or> src + k + n \<le> dst \<Longrightarrow> copied (dst + k) (src + k) n (copied dst src k m) = copied dst src (k + n) m"
  by (auto simp: copied_def fun_eq_iff)

lemma store_load_copied: "store n dst (load n m src) m = copied dst src n m"
proof
  fix q
  show "store n dst (load n m src) m q = copied dst src n m q"
    using store_load [of "q - dst" n dst m src m]
    by (cases "dst \<le> q \<and> q < dst + n") (auto simp: copied_def store_outside)
qed

lemma store_bytes:
  "(\<And>i. i < n \<Longrightarrow> of_nat (v div 256 ^ i) = d) \<Longrightarrow> store n a v m = filled a d n m"
proof (induction n arbitrary: a v m)
  case (Suc n)
  have "of_nat (v div 256 div 256 ^ i) = d" if "i < n" for i
    using Suc.prems [of "Suc i"] that by (simp add: div_mult2_eq)
  moreover have "of_nat v = d" using Suc.prems [of 0] by simp
  ultimately show ?case
    by (auto simp: Suc.IH filled_def fun_eq_iff)
qed simp

lemma push_or:
  fixes d :: u32 and b :: u64
  assumes "unat d < 256" "unat b < 2 ^ 56"
  shows "unat (push_bit 8 b OR ucast d) = 256 * unat b + unat d"
proof -
  have "\<not> bit d i" if "8 \<le> i" for i
  proof -
    have "d < 256" using assms(1) by (simp add: word_less_nat_alt)
    then have "take_bit 8 d = d" by (simp add: take_bit_eq_mod word_arith_nat_mod word_less_nat_alt)
    then show ?thesis using that by (metis bit_take_bit_iff leD)
  qed
  then have "push_bit 8 b OR ucast d = push_bit 8 b + (ucast d :: u64)"
    by (intro disjunctive_add [symmetric]) (auto simp: bit_simps)
  moreover have "unat (push_bit 8 b) = 256 * unat b"
    using assms(2) by (simp add: push_bit_eq_mult unat_word_ariths)
  ultimately show ?thesis using assms by (simp add: unat_word_ariths)
qed

lemma memset_buffer_bytes:
  assumes d: "unat d < 256" and j: "j \<le> 8"
  defines "b \<equiv> ((\<lambda>buffer. push_bit 8 buffer OR ucast (d :: u32)) ^^ j) (0 :: u64)"
  shows "unat b < 256 ^ j \<and> (\<forall>i < j. of_nat (unat b div 256 ^ i) = (ucast d :: u8))"
  unfolding b_def using j
proof (induction j)
  case (Suc j)
  let ?b = "((\<lambda>buffer. push_bit 8 buffer OR ucast d) ^^ j) 0 :: u64"
  have IH: "unat ?b < 256 ^ j" "\<forall>i < j. of_nat (unat ?b div 256 ^ i) = (ucast d :: u8)" using Suc by auto
  have "(256 :: nat) ^ j \<le> 256 ^ 7" using Suc.prems by (intro power_increasing) auto
  then have v: "unat (push_bit 8 ?b OR ucast d) = 256 * unat ?b + unat d" using IH(1) by (intro push_or [OF d]) simp
  have "of_nat ((256 * unat ?b + unat d) div 256 ^ i) = (ucast d :: u8)" if "i < Suc j" for i
  proof (cases i)
    case 0
    show ?thesis unfolding 0
      by (rule word_unat_eq_iff [THEN iffD2])
        (use d in \<open>simp add: unat_of_nat take_bit_eq_mod unsigned_ucast_eq del: of_nat_add of_nat_mult\<close>)
  next
    case (Suc i')
    then show ?thesis using IH(2) that d by (simp add: div_mult2_eq)
  qed
  moreover have "256 * unat ?b + unat d < 256 ^ Suc j"
  proof -
    have "256 * (unat ?b + 1) \<le> 256 * 256 ^ j" using IH(1) by (intro mult_left_mono) auto
    then show ?thesis using d by simp
  qed
  ultimately show ?case using v by simp
qed simp

lemma store_memset_buffer:
  "unat d < 256 \<Longrightarrow> store 8 a (unat (memset_buffer d)) m = filled a (ucast d) 8 m"
  using memset_buffer_bytes [of d 8] by (intro store_bytes) (simp add: memset_buffer_def)

lemma memset_words4:
  assumes "unat d < 256"
  shows "memset_words4 a (memset_buffer d) n m =
    (a + (n - n mod 32), n mod 32, filled a (ucast d) (n - n mod 32) m)"
proof (induction n arbitrary: a m rule: less_induct)
  case (less n)
  show ?case
  proof (cases "32 \<le> n")
    case True
    let ?m = "store 8 (a + 24) (unat (memset_buffer d)) (store 8 (a + 16) (unat (memset_buffer d))
               (store 8 (a + 8) (unat (memset_buffer d)) (store 8 a (unat (memset_buffer d)) m)))"
    have "?m = filled a (ucast d) 32 m"
      using filled_filled [of a 8 "ucast d" 8 m] filled_filled [of a 16 "ucast d" 8 m] filled_filled [of a 24 "ucast d" 8 m]
      by (simp add: store_memset_buffer [OF assms])
    moreover have e: "(n - 32) mod 32 = n mod 32" using True by (simp add: mod_if)
    moreover have "32 + (n - 32 - n mod 32) = n - n mod 32"
      using True mod_less_eq_dividend [of "n - 32" 32] e by linarith
    ultimately show ?thesis
      using less.IH [of "n - 32" "a + 32" ?m] True filled_filled [of a 32 "ucast d" "n - 32 - n mod 32" m]
      by (subst memset_words4.simps) (simp add: add.assoc)
  next
    case False
    then show ?thesis by (subst memset_words4.simps) simp
  qed
qed

lemma memset_words:
  assumes "unat d < 256"
  shows "memset_words a (memset_buffer d) n m =
    (a + (n - n mod 8), n mod 8, filled a (ucast d) (n - n mod 8) m)"
proof (induction n arbitrary: a m rule: less_induct)
  case (less n)
  show ?case
  proof (cases "8 \<le> n")
    case True
    have e: "(n - 8) mod 8 = n mod 8" using True by (simp add: mod_if)
    moreover have "8 + (n - 8 - n mod 8) = n - n mod 8"
      using True mod_less_eq_dividend [of "n - 8" 8] e by linarith
    ultimately show ?thesis
      using less.IH [of "n - 8" "a + 8" "filled a (ucast d) 8 m"] True filled_filled [of a 8 "ucast d" "n - 8 - n mod 8" m]
      by (subst memset_words.simps) (simp add: add.assoc store_memset_buffer [OF assms])
  next
    case False
    then show ?thesis by (subst memset_words.simps) simp
  qed
qed

lemma memset_bytes: "memset_bytes a d n m = filled a d n m"
  by (induction n arbitrary: a m) (auto simp: filled_def fun_eq_iff)

lemma rt_memset_filled: "rt_memset s c count m = filled s (ucast c) count m"
proof -
  let ?d = "c AND 0xff"
  have e: "?d = take_bit 8 c" by (simp add: take_bit_eq_mask mask_eq_exp_minus_1)
  have d: "unat ?d < 256" unfolding e unsigned_take_bit_eq using take_bit_nat_less_exp [of 8 "unat c"] by simp
  have u: "(ucast ?d :: u8) = ucast c" unfolding e by (rule bit_eqI) (auto simp: bit_simps)
  let ?n = "count - count mod 32" and ?k = "count mod 32"
  have "filled (s + ?n + (?k - ?k mod 8)) x (?k mod 8) (filled (s + ?n) x (?k - ?k mod 8) (filled s x ?n m))
      = filled s x count m" for x
    using filled_filled [of s ?n x "?k - ?k mod 8" m] filled_filled [of s "?n + (?k - ?k mod 8)" x "?k mod 8" m]
    by (simp add: add.assoc)
  then show ?thesis
    using memset_words4 [OF d] memset_words [OF d] by (simp add: rt_memset_def Let_def memset_bytes u)
qed

lemma memcpy_words4:
  assumes "memcpy_words4 dst src len m = (d', s', len', m')" "dst \<le> src \<or> src + unat len \<le> dst"
  shows "\<exists>k. unat len = k + unat len' \<and> d' = dst + k \<and> s' = src + k \<and> m' = copied dst src k m"
  using assms
proof (induction dst src len m rule: memcpy_words4.induct)
  case (1 dst src len m)
  show ?case
  proof (cases "(scast len :: u64) \<ge> 32")
    case True
    then have l: "32 \<le> unat len" using scast_u32_le [of 32 len] by simp
    then have l': "unat (len - 32) = unat len - 32" by (simp add: unat_sub word_le_nat_alt)
    have ov: "dst \<le> src \<or> src + j + i \<le> dst" if "j + i \<le> unat len" for j i using "1.prems"(2) that by auto
    note c = copied_copied [of dst src 8 8 m, OF ov] copied_copied [of dst src 16 8 m, OF ov]
      copied_copied [of dst src 24 8 m, OF ov]
    have m4: "copied (dst + 24) (src + 24) 8 (copied (dst + 16) (src + 16) 8
        (copied (dst + 8) (src + 8) 8 (copied dst src 8 m))) = copied dst src 32 m"
      using c l by simp
    have "dst + 32 \<le> src + 32 \<or> src + 32 + unat (len - 32) \<le> dst + 32" using "1.prems"(2) l l' by auto
    then have "\<exists>k. unat len - 32 = k + unat len' \<and> d' = dst + 32 + k \<and> s' = src + 32 + k \<and>
        m' = copied (dst + 32) (src + 32) k (copied dst src 32 m)"
      using "1.IH" [OF True refl refl refl refl] "1.prems"(1) True l
      by (subst (asm) memcpy_words4.simps) (simp add: store_load_copied Let_def m4 l')
    then obtain k where k: "unat len - 32 = k + unat len'" "d' = dst + 32 + k" "s' = src + 32 + k"
      "m' = copied (dst + 32) (src + 32) k (copied dst src 32 m)" by blast
    have "m' = copied dst src (32 + k) m"
      using copied_copied [of dst src 32 k m, OF ov] l k(1,4) by simp
    then show ?thesis using k l by (intro exI [of _ "32 + k"]) simp
  next
    case False
    then show ?thesis using "1.prems" by (intro exI [of _ 0]) (subst (asm) memcpy_words4.simps, simp)
  qed
qed

lemma memcpy_words:
  assumes "memcpy_words dst src len m = (d', s', len', m')" "dst \<le> src \<or> src + unat len \<le> dst"
  shows "\<exists>k. unat len = k + unat len' \<and> d' = dst + k \<and> s' = src + k \<and> m' = copied dst src k m"
  using assms
proof (induction dst src len m rule: memcpy_words.induct)
  case (1 dst src len m)
  show ?case
  proof (cases "(scast len :: u64) \<ge> 8")
    case True
    then have l: "8 \<le> unat len" using scast_u32_le [of 8 len] by simp
    then have l': "unat (len - 8) = unat len - 8" by (simp add: unat_sub word_le_nat_alt)
    have "dst + 8 \<le> src + 8 \<or> src + 8 + unat (len - 8) \<le> dst + 8" using "1.prems"(2) l l' by auto
    then have "\<exists>k. unat len - 8 = k + unat len' \<and> d' = dst + 8 + k \<and> s' = src + 8 + k \<and>
        m' = copied (dst + 8) (src + 8) k (copied dst src 8 m)"
      using "1.IH" [OF True] "1.prems"(1) True l
      by (subst (asm) memcpy_words.simps) (simp add: store_load_copied l')
    then obtain k where k: "unat len - 8 = k + unat len'" "d' = dst + 8 + k" "s' = src + 8 + k"
      "m' = copied (dst + 8) (src + 8) k (copied dst src 8 m)" by blast
    have "dst \<le> src \<or> src + 8 + k \<le> dst" using "1.prems"(2) k(1) l by auto
    then have "m' = copied dst src (8 + k) m" using copied_copied [of dst src 8 k m] k(4) by simp
    then show ?thesis using k l by (intro exI [of _ "8 + k"]) simp
  next
    case False
    then show ?thesis using "1.prems" by (intro exI [of _ 0]) (subst (asm) memcpy_words.simps, simp)
  qed
qed

lemma memcpy_bytes:
  "dst \<le> src \<or> src + unat len \<le> dst \<Longrightarrow> memcpy_bytes dst src len m = copied dst src (unat len) m"
proof (induction dst src len m rule: memcpy_bytes.induct)
  case (1 dst src len m)
  show ?case
  proof (cases "len = 0")
    case True
    then show ?thesis by (subst memcpy_bytes.simps) simp
  next
    case False
    then have l: "unat len = 1 + unat (len - 1)" by (simp add: unat_minus_one unat_gt_0)
    have "m(dst := m src) = copied dst src 1 m" by (auto simp: copied_def fun_eq_iff)
    moreover have "dst + 1 \<le> src + 1 \<or> src + 1 + unat (len - 1) \<le> dst + 1" "dst \<le> src \<or> src + 1 + unat (len - 1) \<le> dst"
      using "1.prems" l by auto
    ultimately show ?thesis
      using "1.IH" [OF False] False l copied_copied [of dst src 1 "unat (len - 1)" m]
      by (subst memcpy_bytes.simps) simp
  qed
qed

lemma of_nat_mod_u32: "(of_nat (n mod 4294967296) :: u32) = of_nat n"
  by (rule word_unat_eq_iff [THEN iffD2]) (simp add: unat_of_nat take_bit_eq_mod)

lemma memcpy_copied:
  assumes "count < 2 ^ 32" "dst \<le> src \<or> src + count \<le> dst"
  shows "rt_memcpy dst src count m = copied dst src count m"
proof -
  let ?len = "of_nat count :: u32"
  have l: "unat ?len = count" using assms(1) by (simp add: unat_of_nat take_bit_eq_mod)
  obtain d1 s1 len1 m1 where 1: "memcpy_words4 dst src ?len m = (d1, s1, len1, m1)" by (metis prod_cases4)
  obtain d2 s2 len2 m2 where 2: "memcpy_words d1 s1 len1 m1 = (d2, s2, len2, m2)" by (metis prod_cases4)
  obtain k where k: "count = k + unat len1" "d1 = dst + k" "s1 = src + k" "m1 = copied dst src k m"
    using memcpy_words4 [OF 1] assms(2) l by auto
  have "d1 \<le> s1 \<or> s1 + unat len1 \<le> d1" using assms(2) k by auto
  then obtain j where j: "unat len1 = j + unat len2" "d2 = d1 + j" "s2 = s1 + j" "m2 = copied d1 s1 j m1"
    using memcpy_words [OF 2] by auto
  have "d2 \<le> s2 \<or> s2 + unat len2 \<le> d2" using assms(2) k j by auto
  then have "memcpy_bytes d2 s2 len2 m2 = copied d2 s2 (unat len2) m2" by (rule memcpy_bytes)
  also have "\<dots> = copied d1 s1 (unat len1) m1"
    using copied_copied [of d1 s1 j "unat len2" m1] assms(2) k j by auto
  also have "\<dots> = copied dst src count m"
    using copied_copied [of dst src k "unat len1" m] assms(2) k by auto
  finally show ?thesis using assms(2) l 1 2 by (simp add: rt_memcpy_def Let_def memcpy_bytes)
qed

lemma copy_up: "dst \<le> src \<or> src + n \<le> dst \<Longrightarrow> copy_up dst src n m = copied dst src n m"
proof (induction n arbitrary: dst src m)
  case (Suc n)
  have "m(dst := m src) = copied dst src 1 m" by (auto simp: copied_def fun_eq_iff)
  moreover have "dst + 1 \<le> src + 1 \<or> src + 1 + n \<le> dst + 1" "dst \<le> src \<or> src + 1 + n \<le> dst" using Suc.prems by auto
  ultimately show ?case using Suc.IH [of "dst + 1" "src + 1"] copied_copied [of dst src 1 n m] by simp
qed simp

lemma copy_down: "src \<le> dst \<Longrightarrow> copy_down (dst + n) (src + n) n m = copied dst src n m"
proof (induction n arbitrary: m)
  case (Suc n)
  then show ?case by (auto simp: copied_def fun_eq_iff)
qed simp

lemma rt_memmove_copied: "rt_memmove dst src n m = copied dst src n m"
  using copy_up [of dst src n m] copy_down [of src dst n m] by (auto simp: rt_memmove_def)

text \<open>
  \<^bold>\<open>C34\<close>: The memory functions of the kernel library are equivalent to their byte-wise definitions. The
  optimised \<^verbatim>\<open>rt_memset\<close>, with its loops over four words, one word and one byte, fills exactly the \<open>n\<close> bytes
  from its address on with the low byte of the value; \<^verbatim>\<open>rt_memcpy\<close>, with the same three loops, copies exactly
  \<open>n\<close> bytes when its destination does not start inside the source range (its length is an \<^verbatim>\<open>int\<close>, so it copies
  \<open>n\<close> modulo $2^{32}$ bytes); \<^verbatim>\<open>rt_memmove\<close> copies correctly for all overlapping ranges. All hold for every
  alignment.
\<close>

theorem memory_functions_equivalent:
  "rt_memset dst c n m = filled dst (ucast c) n m \<and>
   rt_memmove dst src n m = copied dst src n m \<and>
   (dst \<le> src \<or> src + n mod 2 ^ 32 \<le> dst \<longrightarrow> rt_memcpy dst src n m = copied dst src (n mod 2 ^ 32) m)"
proof -
  have "rt_memcpy dst src n m = rt_memcpy dst src (n mod 2 ^ 32) m"
    by (simp add: rt_memcpy_def of_nat_mod_u32)
  then show ?thesis using memcpy_copied [of "n mod 2 ^ 32" dst src m] rt_memset_filled rt_memmove_copied by simp
qed

theorem memory_functions_equivalent_witness:
  "rt_memcpy 16 64 37 (\<lambda>a. of_nat a) 52 = 100 \<and> rt_memcpy 16 64 37 (\<lambda>a. of_nat a) 53 = 53"
  using memory_functions_equivalent [of 16 0 37 "\<lambda>a. of_nat a" 64] by (simp add: copied_def)

end
