(* ===== verification/Heap_Blocks.thy ===== *)
theory Heap_Blocks
  imports Prelude
begin

text \<open>
  The structure of the heap of \<^verbatim>\<open>src/mem.c\<close>: a doubly linked list of blocks, each with a header
  \<^verbatim>\<open>struct heap_mem\<close> whose \<^verbatim>\<open>next\<close> and \<^verbatim>\<open>prev\<close> are offsets from the start of the heap. A view maps an
  offset to the header there. This theory has the facts about such lists that do not depend on
  how the headers are kept in memory: splitting and merging of blocks, the first block that fits,
  the lowest free block.
\<close>

record heap_mem =
  magic :: nat
  used :: nat
  nxt :: nat
  prv :: nat

type_synonym view = "nat \<Rightarrow> heap_mem"

abbreviation (input) HEAP_MAGIC :: nat where "HEAP_MAGIC \<equiv> 0x1ea0"
abbreviation (input) SIZEOF_STRUCT_MEM :: nat where "SIZEOF_STRUCT_MEM \<equiv> 24"

subsection \<open>Well-formed block lists\<close>

definition link :: "view \<Rightarrow> nat \<Rightarrow> nat \<Rightarrow> nat \<Rightarrow> bool" where
  "link V E x y \<longleftrightarrow> magic (V x) = HEAP_MAGIC \<and> used (V x) \<le> 1 \<and> nxt (V x) = y \<and>
     (y \<noteq> E \<longrightarrow> prv (V y) = x) \<and> x + SIZEOF_STRUCT_MEM \<le> y \<and> 8 dvd y"

definition links :: "view \<Rightarrow> nat \<Rightarrow> nat list \<Rightarrow> bool" where
  "links V E os \<longleftrightarrow> os \<noteq> [] \<and> hd os = 0 \<and> last os = E \<and> successively (link V E) os \<and> prv (V 0) = 0 \<and>
     magic (V E) = HEAP_MAGIC \<and> used (V E) = 1 \<and> nxt (V E) = E"

abbreviation gap :: "nat \<Rightarrow> nat \<Rightarrow> bool" where
  "gap x y \<equiv> x + SIZEOF_STRUCT_MEM \<le> y"

abbreviation apart :: "nat \<Rightarrow> nat \<Rightarrow> bool" where
  "apart x y \<equiv> gap x y \<or> gap y x"

lemma linksI [intro?]:
  "os \<noteq> [] \<Longrightarrow> hd os = 0 \<Longrightarrow> last os = E \<Longrightarrow> successively (link V E) os \<Longrightarrow> prv (V 0) = 0 \<Longrightarrow>
   magic (V E) = HEAP_MAGIC \<Longrightarrow> used (V E) = 1 \<Longrightarrow> nxt (V E) = E \<Longrightarrow> links V E os"
  by (simp add: links_def)

lemma links_sorted: "links V E os \<Longrightarrow> sorted_wrt gap os"
proof -
  assume "links V E os"
  then have "successively (link V E) os" by (simp add: links_def)
  then have "successively gap os" by (rule successively_mono) (simp add: link_def)
  then show ?thesis by (subst (asm) successively_conv_sorted_wrt) (auto intro: transpI)
qed

lemma links_apart:
  assumes "links V E os" "x \<in> set os" "y \<in> set os" "x \<noteq> y"
  shows "apart x y"
  using links_sorted [OF assms(1)] assms(2-) by (induction os) auto

lemma links_cong:
  assumes "links V E os" "\<And>x. x \<in> set os \<Longrightarrow> V' x = V x"
  shows "links V' E os"
proof -
  have "0 \<in> set os" "E \<in> set os" using assms(1) unfolding links_def by (metis hd_in_set last_in_set)+
  moreover have "successively (link V' E) os"
    using assms(1,2) unfolding links_def by (auto intro: successively_mono simp: link_def)
  ultimately show ?thesis using assms by (simp add: links_def)
qed

lemma links_end: "links V E os \<Longrightarrow> x \<in> set os \<Longrightarrow> x \<noteq> E \<Longrightarrow> gap x E"
proof -
  assume l: "links V E os" and x: "x \<in> set os" "x \<noteq> E"
  obtain ys where os: "os = ys @ [E]" using l unfolding links_def by (metis append_butlast_last_id)
  then show ?thesis using links_sorted [OF l] x by (simp add: sorted_wrt_append)
qed

lemma links_le_end: "links V E os \<Longrightarrow> x \<in> set os \<Longrightarrow> x \<le> E"
  using links_end by (cases "x = E") force+

text \<open>What the list says about the block at its third position.\<close>

lemma links_at:
  assumes "links V E (xs @ x # y # zs)"
  shows "link V E x y" "x \<noteq> E" "gap x y" "nxt (V x) = y" "y \<noteq> E \<longrightarrow> prv (V y) = x"
proof -
  show l: "link V E x y" using assms by (simp add: links_def successively_append_iff)
  then show "gap x y" "nxt (V x) = y" "y \<noteq> E \<longrightarrow> prv (V y) = x" by (simp_all add: link_def)
  show "x \<noteq> E" using links_le_end [OF assms, of y] l by (auto simp: link_def)
qed

lemma links_split_at:
  assumes "links V E os" "x \<in> set os" "x \<noteq> E"
  obtains xs y zs where "os = xs @ x # y # zs"
proof -
  obtain xs ys where os: "os = xs @ x # ys" using assms(2) by (meson split_list)
  then obtain y zs where "ys = y # zs" using assms(1,3) by (cases ys) (auto simp: links_def)
  then show ?thesis using os that by blast
qed

lemma links_pred_at:
  assumes "links V E os" "x \<in> set os" "x \<noteq> 0"
  obtains xs w zs where "os = xs @ w # x # zs"
proof -
  obtain ys zs where os: "os = ys @ x # zs" using assms(2) by (meson split_list)
  then obtain xs w where "ys = xs @ [w]" using assms(1,3) by (cases ys rule: rev_cases) (auto simp: links_def)
  then show ?thesis using os that by simp
qed

lemma links_dvd:
  assumes "links V E os" "x \<in> set os"
  shows "8 dvd x"
proof (cases "x = 0")
  case False
  then obtain xs w zs where "os = xs @ w # x # zs" using links_pred_at [OF assms] by blast
  then show ?thesis using links_at(1) assms(1) by (auto simp: link_def)
qed simp

subsection \<open>Merging and splitting\<close>

text \<open>The links to the left of a block and to its right only depend on the headers there.\<close>

lemma links_left:
  assumes l: "links V E (xs @ x # ys)" and V': "\<And>w. w \<in> set xs \<Longrightarrow> V' w = V w" "prv (V' x) = prv (V x)"
  shows "successively (link V' E) (xs @ [x])"
proof -
  have s: "gap w x" if "w \<in> set xs" for w using links_sorted [OF l] that by (simp add: sorted_wrt_append)
  have "successively (link V E) (xs @ [x])" using l by (auto simp: links_def successively_append_iff)
  then show ?thesis
  proof (rule successively_mono)
    fix p q assume pq: "p \<in> set (xs @ [x])" "q \<in> set (xs @ [x])" "link V E p q"
    have "p \<noteq> x" using s [of q] pq by (auto simp: link_def)
    then have "V' p = V p" "prv (V' q) = prv (V q)" using pq V' by auto
    then show "link V' E p q" using pq(3) by (simp add: link_def)
  qed
qed

lemma links_right:
  assumes l: "links V E (xs @ z # zs)" and V': "\<And>w. w \<in> set zs \<Longrightarrow> V' w = V w" "z \<noteq> E \<longrightarrow> V' z = V z\<lparr>prv := p'\<rparr>"
  shows "successively (link V' E) (z # zs)"
proof (cases "z = E")
  case True
  have s: "gap z w" if "w \<in> set zs" for w using links_sorted [OF l] that by (simp add: sorted_wrt_append)
  have "zs = []" using True s links_le_end [OF l] by (cases zs) force+
  then show ?thesis by simp
next
  case False
  have s: "gap z w" if "w \<in> set zs" for w using links_sorted [OF l] that by (simp add: sorted_wrt_append)
  have "successively (link V E) (z # zs)" using l by (auto simp: links_def successively_append_iff)
  then show ?thesis
  proof (rule successively_mono)
    fix p q assume pq: "p \<in> set (z # zs)" "q \<in> set (z # zs)" "link V E p q"
    have "q \<noteq> z" using s [of p] pq by (auto simp: link_def)
    then have "prv (V' q) = prv (V q)" "magic (V' p) = magic (V p)" "used (V' p) = used (V p)" "nxt (V' p) = nxt (V p)"
      using pq V' False by auto
    then show "link V' E p q" using pq(3) by (simp add: link_def)
  qed
qed

lemma links_ends:
  assumes l: "links V E (xs @ x # ys)" "ys \<noteq> []"
    and V': "\<And>w. w \<in> set xs \<union> set ys \<Longrightarrow> w \<noteq> hd ys \<Longrightarrow> V' w = V w" "prv (V' x) = prv (V x)"
      "magic (V' (hd ys)) = magic (V (hd ys))" "used (V' (hd ys)) = used (V (hd ys))" "nxt (V' (hd ys)) = nxt (V (hd ys))"
  shows "prv (V' 0) = 0" "magic (V' E) = HEAP_MAGIC" "used (V' E) = 1" "nxt (V' E) = E"
proof -
  have s: "gap w (hd ys)" if "w \<in> set xs \<or> w = x" for w
    using links_sorted [OF l(1)] that l(2) by (cases ys) (auto simp: sorted_wrt_append)
  have "0 \<in> set (xs @ [x])" using l by (cases xs) (auto simp: links_def)
  then show "prv (V' 0) = 0" using V'(1,2) l s [of 0] by (cases "x = 0") (auto simp: links_def)
  have "E \<in> set ys" using l last_in_set [of ys] by (auto simp: links_def split: if_splits)
  then have "magic (V' E) = magic (V E) \<and> used (V' E) = used (V E) \<and> nxt (V' E) = nxt (V E)"
    using V'(1,3-5) by (cases "E = hd ys") auto
  then show "magic (V' E) = HEAP_MAGIC" "used (V' E) = 1" "nxt (V' E) = E" using l by (simp_all add: links_def)
qed

lemma links_merge:
  assumes l: "links V E (xs @ x # y # z # zs)"
  shows "links (V(x := V x\<lparr>nxt := z\<rparr>, z := V z\<lparr>prv := x\<rparr>)) E (xs @ x # z # zs)" (is "links ?V E _")
proof
  have s: "gap w x" "gap w z" if "w \<in> set xs" for w using links_sorted [OF l] that by (auto simp: sorted_wrt_append)
  have t: "gap x y" "gap y z" "\<And>w. w \<in> set zs \<Longrightarrow> gap z w" using links_sorted [OF l] by (auto simp: sorted_wrt_append)
  have "successively (link ?V E) (xs @ [x])"
    by (rule links_left [OF l]) (use s t in force)+
  moreover have "successively (link ?V E) (z # zs)"
    by (rule links_right [of V E "xs @ [x, y]", where p' = x]) (use l t in force)+
  moreover have "link ?V E x z"
    using links_at(1) [OF l] links_at(1) [of V E "xs @ [x]" y z zs] l t(1,2) by (auto simp: link_def)
  ultimately show "successively (link ?V E) (xs @ x # z # zs)"
    by (simp add: successively_append_iff successively_Cons)
  show "prv (?V 0) = 0" "magic (?V E) = HEAP_MAGIC" "used (?V E) = 1" "nxt (?V E) = E"
    using links_at(2) [OF l] s t l by (auto simp: links_def)
qed (use l in \<open>auto simp: links_def hd_append split: if_splits\<close>)

lemma links_divide:
  assumes l: "links V E (xs @ x # z # zs)" and y: "gap x y" "gap y z" "8 dvd y"
    and V': "magic (V' y) = HEAP_MAGIC" "used (V' y) \<le> 1" "nxt (V' y) = z" "prv (V' y) = x"
      "magic (V' x) = HEAP_MAGIC" "used (V' x) \<le> 1" "nxt (V' x) = y" "prv (V' x) = prv (V x)"
      "z \<noteq> E \<longrightarrow> V' z = V z\<lparr>prv := y\<rparr>" "z = E \<longrightarrow> V' z = V z"
      "\<And>w. w \<in> set xs \<union> set zs \<Longrightarrow> V' w = V w"
  shows "links V' E (xs @ x # y # z # zs)"
proof
  have "successively (link V' E) (xs @ [x])" by (rule links_left [OF l]) (use V' in auto)
  moreover have "successively (link V' E) (z # zs)"
    by (rule links_right [of V E "xs @ [x]", where p' = y]) (use l V' in auto)
  moreover have "link V' E x y" "link V' E y z"
    using y V' links_at(1) [OF l] links_le_end [OF l, of z] by (auto simp: link_def)
  ultimately show "successively (link V' E) (xs @ x # y # z # zs)"
    by (simp add: successively_append_iff successively_Cons)
  have "magic (V' z) = magic (V z) \<and> used (V' z) = used (V z) \<and> nxt (V' z) = nxt (V z)"
    using V'(9,10) by (cases "z = E") auto
  then show "prv (V' 0) = 0" "magic (V' E) = HEAP_MAGIC" "used (V' E) = 1" "nxt (V' E) = E"
    using links_ends [OF l, of V'] V'(8,11) by auto
qed (use l in \<open>auto simp: links_def hd_append split: if_splits\<close>)

lemma links_flag:
  assumes l: "links V E os" and "u \<le> 1" "x \<noteq> E"
    and V': "\<And>w. w \<in> set os \<Longrightarrow> V' w = (if w = x then V x\<lparr>magic := HEAP_MAGIC, used := u\<rparr> else V w)"
  shows "links V' E os"
proof
  have i: "0 \<in> set os" "E \<in> set os" using l unfolding links_def by (metis hd_in_set last_in_set)+
  have "successively (link V E) os" using l by (simp add: links_def)
  then show "successively (link V' E) os"
    by (rule successively_mono) (use V' assms(2) in \<open>auto simp: link_def\<close>)
  show "prv (V' 0) = 0" using V' [OF i(1)] l by (auto simp: links_def)
  show "magic (V' E) = HEAP_MAGIC" "used (V' E) = 1" "nxt (V' E) = E"
    using V' [OF i(2)] l assms(3) by (auto simp: links_def)
qed (use l in \<open>auto simp: links_def\<close>)

subsection \<open>Blocks, allocated and free\<close>

definition blocks :: "nat list \<Rightarrow> (nat \<times> nat) list" where
  "blocks os = zip os (tl os)"

lemma blocks_simps [simp]: "blocks [] = []" "blocks [x] = []" "blocks (x # y # zs) = (x, y) # blocks (y # zs)"
  by (simp_all add: blocks_def)

lemma blocks_append: "blocks (xs @ x # ys) = blocks (xs @ [x]) @ blocks (x # ys)"
proof (induction xs)
  case (Cons w xs)
  then show ?case by (cases xs) auto
qed simp

lemma blocks_at: "blocks (xs @ x # y # zs) = blocks (xs @ [x]) @ (x, y) # blocks (y # zs)"
  by (subst blocks_append) simp

lemma blocksD:
  assumes "(x, y) \<in> set (blocks os)"
  obtains xs zs where "os = xs @ x # y # zs"
proof -
  have "\<exists>xs zs. os = xs @ x # y # zs" using assms
  proof (induction os rule: induct_list012)
    case (3 a b os)
    show ?case
    proof (cases "(x, y) = (a, b)")
      case True
      then show ?thesis by (intro exI [of _ "[]"] exI [of _ os]) simp
    next
      case False
      then obtain xs zs where "b # os = xs @ x # y # zs" using 3 by auto
      then show ?thesis by (intro exI [of _ "a # xs"] exI [of _ zs]) simp
    qed
  qed auto
  then show ?thesis using that by blast
qed

lemma blocks_fst: "(x, y) \<in> set (blocks (xs @ [z])) \<Longrightarrow> x \<in> set xs"
proof (induction xs)
  case (Cons w xs)
  then show ?case by (cases xs) auto
qed simp

definition used_bytes :: "view \<Rightarrow> nat list \<Rightarrow> nat" where
  "used_bytes V os = (\<Sum>(x, y) \<leftarrow> blocks os. if used (V x) = 0 then 0 else y - x)"

lemma used_bytes_at:
  "used_bytes V (xs @ x # y # zs) =
     used_bytes V (xs @ [x]) + (if used (V x) = 0 then 0 else y - x) + used_bytes V (y # zs)"
  by (simp add: used_bytes_def blocks_at)

lemma used_bytes_cong:
  "(\<And>x. x \<in> set (butlast os) \<Longrightarrow> used (V' x) = used (V x)) \<Longrightarrow> used_bytes V' os = used_bytes V os"
proof (induction os rule: induct_list012)
  case (3 a b os)
  have "used_bytes V' (b # os) = used_bytes V (b # os)" using "3.prems" by (intro "3.IH"(2)) auto
  then show ?case using "3.prems" by (simp add: used_bytes_def)
qed (simp_all add: used_bytes_def)

definition coalesced :: "view \<Rightarrow> nat list \<Rightarrow> bool" where
  "coalesced V os \<longleftrightarrow> successively (\<lambda>x y. used (V x) \<noteq> 0 \<or> used (V y) \<noteq> 0) os"

lemma coalesced_append:
  "coalesced V (xs @ x # ys) \<longleftrightarrow> coalesced V (xs @ [x]) \<and> coalesced V (x # ys)"
  by (auto simp: coalesced_def successively_append_iff successively_Cons)

lemma coalesced_Cons [simp]:
  "coalesced V [x]" "coalesced V (x # y # ys) \<longleftrightarrow> (used (V x) \<noteq> 0 \<or> used (V y) \<noteq> 0) \<and> coalesced V (y # ys)"
  by (simp_all add: coalesced_def)

lemma coalesced_cong: "(\<And>x. x \<in> set os \<Longrightarrow> used (V' x) = used (V x)) \<Longrightarrow> coalesced V os \<Longrightarrow> coalesced V' os"
  unfolding coalesced_def by (erule successively_mono) auto

lemma coalesced_used:
  "(\<And>x. x \<in> set os \<Longrightarrow> used (V x) \<noteq> 0 \<Longrightarrow> used (V' x) \<noteq> 0) \<Longrightarrow> coalesced V os \<Longrightarrow> coalesced V' os"
  unfolding coalesced_def by (erule successively_mono) blast

subsection \<open>The lowest free block\<close>

definition lowest :: "view \<Rightarrow> nat list \<Rightarrow> nat" where
  "lowest V os = (case filter (\<lambda>x. used (V x) = 0) os of x # _ \<Rightarrow> x | [] \<Rightarrow> last os)"

lemma lowest_Cons:
  "lowest V [x] = x" "lowest V (x # y # ys) = (if used (V x) = 0 then x else lowest V (y # ys))"
  by (simp_all add: lowest_def split: list.splits)

lemma lowest_append: "\<forall>x \<in> set xs. used (V x) \<noteq> 0 \<Longrightarrow> lowest V (xs @ y # ys) = lowest V (y # ys)"
  by (induction xs) (auto simp: lowest_def split: list.splits)

lemma lowest_split:
  assumes "os \<noteq> []"
  obtains xs ys where "os = xs @ lowest V os # ys" "\<forall>x \<in> set xs. used (V x) \<noteq> 0" "used (V (lowest V os)) = 0 \<or> ys = []"
  using assms
proof (induction os arbitrary: thesis)
  case (Cons x os)
  show ?case
  proof (cases "used (V x) = 0 \<or> os = []")
    case True
    then have "lowest V (x # os) = x" by (auto simp: lowest_def)
    then show ?thesis using Cons.prems(1) [of "[]" os] True by auto
  next
    case False
    then obtain xs ys where *: "os = xs @ lowest V os # ys" "\<forall>x \<in> set xs. used (V x) \<noteq> 0"
      "used (V (lowest V os)) = 0 \<or> ys = []" using Cons.IH by blast
    moreover have "lowest V (x # os) = lowest V os" using False by (cases os) (simp_all add: lowest_Cons)
    ultimately show ?thesis using Cons.prems(1) [of "x # xs" ys] False by auto
  qed
qed simp

lemma lowest_in: "os \<noteq> [] \<Longrightarrow> lowest V os \<in> set os"
  by (metis lowest_split in_set_conv_decomp)

lemma lowest_least:
  assumes "sorted_wrt gap os" "x \<in> set os" "used (V x) = 0"
  shows "lowest V os \<le> x"
proof -
  obtain xs ys where "os = xs @ lowest V os # ys" "\<forall>x \<in> set xs. used (V x) \<noteq> 0"
    by (rule lowest_split [of os V]) (use assms(2) in auto)
  then obtain l where l: "l = lowest V os" "os = xs @ l # ys" "\<forall>x \<in> set xs. used (V x) \<noteq> 0" by blast
  then show ?thesis using assms unfolding l(1) [symmetric] l(2) by (auto simp: sorted_wrt_append)
qed

lemma lowest_at_free: "used (V x) = 0 \<Longrightarrow> lowest V (xs @ x # ys) = lowest V (xs @ [x])"
  by (induction xs) (auto simp: lowest_def split: list.splits)

lemma lowest_cong: "(\<And>x. x \<in> set os \<Longrightarrow> used (V' x) = used (V x)) \<Longrightarrow> lowest V' os = lowest V os"
  by (simp add: lowest_def cong: filter_cong)

lemma lowest_freed:
  assumes s: "sorted_wrt gap (xs @ x # y # ys)" and u: "used (V' x) = 0" "used (V x) \<noteq> 0"
    and V': "\<And>w. w \<in> set (xs @ y # ys) \<Longrightarrow> used (V' w) = used (V w)"
  shows "lowest V' (xs @ x # y # ys) = (if x < lowest V (xs @ x # y # ys) then x else lowest V (xs @ x # y # ys))"
proof (cases "\<forall>w \<in> set xs. used (V w) \<noteq> 0")
  case True
  have "lowest V (xs @ x # y # ys) = lowest V (y # ys)" using lowest_append [OF True] u by (simp add: lowest_Cons)
  moreover have "lowest V (y # ys) \<in> set (y # ys)" by (rule lowest_in) simp
  then have "x < lowest V (y # ys)" using s by (auto simp: sorted_wrt_append)
  moreover have "lowest V' (xs @ x # y # ys) = x"
    using lowest_append [of xs V' x "y # ys"] True V' u by (simp add: lowest_Cons)
  ultimately show ?thesis by simp
next
  case False
  then obtain as w bs where xs: "xs = as @ w # bs" "used (V w) = 0" by (meson split_list)
  have "lowest V (xs @ x # y # ys) = lowest V (as @ [w])"
    using lowest_at_free [of V w as "bs @ x # y # ys", OF xs(2)] xs(1) by simp
  moreover have "lowest V' (xs @ x # y # ys) = lowest V' (as @ [w])"
    using lowest_at_free [of V' w as "bs @ x # y # ys"] V' xs by simp
  moreover have "lowest V' (as @ [w]) = lowest V (as @ [w])" using V' xs by (intro lowest_cong) auto
  moreover have "lowest V (as @ [w]) \<in> set (as @ [w])" by (rule lowest_in) simp
  then have "\<not> x < lowest V (as @ [w])" using s xs(1) by (auto simp: sorted_wrt_append)
  ultimately show ?thesis by simp
qed

subsection \<open>The first block that fits\<close>

text \<open>The search stops at the offset \<open>lim\<close>.\<close>

fun first_fit :: "view \<Rightarrow> nat \<Rightarrow> nat \<Rightarrow> nat list \<Rightarrow> nat option" where
  "first_fit V sz lim (x # y # zs) =
     (if x < lim
      then if used (V x) = 0 \<and> x + SIZEOF_STRUCT_MEM + sz \<le> y then Some x else first_fit V sz lim (y # zs)
      else None)"
| "first_fit V sz lim _ = None"

lemma first_fit_Some:
  assumes "first_fit V sz lim os = Some x"
  obtains xs y zs where "os = xs @ x # y # zs" "used (V x) = 0" "x + SIZEOF_STRUCT_MEM + sz \<le> y" "x < lim"
  using assms
proof (induction V sz lim os arbitrary: thesis rule: first_fit.induct)
  case (1 V sz lim a b zs)
  show ?case
  proof (cases "used (V a) = 0 \<and> a + SIZEOF_STRUCT_MEM + sz \<le> b")
    case True
    then show ?thesis using "1.prems"(1) [of "[]" b zs] "1.prems"(2) by (auto split: if_splits)
  next
    case False
    then have *: "a < lim" "first_fit V sz lim (b # zs) = Some x" using "1.prems"(2) by (auto split: if_splits)
    show ?thesis
    proof (rule "1.IH" [OF *(1) False _ *(2)])
      fix xs y zs' assume "b # zs = xs @ x # y # zs'" "used (V x) = 0" "x + SIZEOF_STRUCT_MEM + sz \<le> y" "x < lim"
      then show thesis using "1.prems"(1) [of "a # xs" y zs'] by simp
    qed
  qed
qed auto

lemma first_fit_None:
  assumes "first_fit V sz lim os = None" "sorted_wrt gap os" "(x, y) \<in> set (blocks os)" "used (V x) = 0" "x < lim"
  shows "y < x + SIZEOF_STRUCT_MEM + sz"
  using assms
proof (induction V sz lim os rule: first_fit.induct)
  case (1 V sz lim a b zs)
  obtain xs ws where "a # b # zs = xs @ x # y # ws" using blocksD [OF "1.prems"(3)] by blast
  then have "x \<in> set (a # b # zs)" by simp
  then have "a \<le> x" using "1.prems"(2) by auto
  then show ?case using "1" by (auto split: if_splits)
qed auto

lemma first_fit_skip:
  assumes "\<forall>x \<in> set xs. used (V x) \<noteq> 0" "sorted_wrt gap (xs @ y # ys)"
  shows "first_fit V sz lim (xs @ y # ys) = first_fit V sz lim (y # ys)"
  using assms
proof (induction xs)
  case (Cons x xs)
  have IH: "first_fit V sz lim (xs @ y # ys) = first_fit V sz lim (y # ys)" using Cons by simp
  obtain z zs where z: "xs @ y # ys = z # zs" "z \<in> set (xs @ [y])" by (cases xs) auto
  have "first_fit V sz lim (z # zs) = None" if "\<not> x < lim"
  proof -
    have "gap x z" using Cons.prems(2) z(2) by auto
    then have "\<not> z < lim" using that by simp
    then show ?thesis by (cases zs) auto
  qed
  then show ?case using Cons.prems(1) IH z(1) by auto
qed simp

end
