(* ===== verification/Small_Mem.thy ===== *)
theory Small_Mem
  imports Byte_Memory Heap_Blocks
begin

text \<open>
  The system heap of \<^verbatim>\<open>src/mem.c\<close> at the level of memory bytes. The state has the static variables of
  the file; the headers \<^verbatim>\<open>struct heap_mem\<close> are bytes of the memory, little-endian, at the offsets of
  the 64-bit layout. The operations here are the critical sections, between taking and releasing
  \<^verbatim>\<open>heap_sem\<close>; \<open>Heap_Lock\<close> has the entry points. Sizes and offsets are 64-bit unsigned: every
  operation that could wrap is \<open>add64\<close> or \<open>sub64\<close>.
\<close>

record rt_heap =
  mem :: memory
  heap_ptr :: nat
  heap_end :: nat
  lfree :: nat
  mem_size_aligned :: nat
  used_mem :: nat
  max_mem :: nat

abbreviation (input) MIN_SIZE_ALIGNED :: nat where "MIN_SIZE_ALIGNED \<equiv> 24"
abbreviation (input) RT_ALIGN_SIZE :: nat where "RT_ALIGN_SIZE \<equiv> 8"

definition add64 :: "nat \<Rightarrow> nat \<Rightarrow> nat" where
  "add64 a b = (a + b) mod 2 ^ 64"

definition sub64 :: "nat \<Rightarrow> nat \<Rightarrow> nat" where
  "sub64 a b = (a + (2 ^ 64 - b)) mod 2 ^ 64"

lemma add64 [simp]: "a + b < 2 ^ 64 \<Longrightarrow> add64 a b = a + b"
  by (simp add: add64_def)

lemma sub64 [simp]: "b \<le> a \<Longrightarrow> a < 2 ^ 64 \<Longrightarrow> sub64 a b = a - b"
proof -
  assume "b \<le> a" "a < 2 ^ 64"
  then have "a + (2 ^ 64 - b) = (a - b) + 2 ^ 64" by simp
  then have "sub64 a b = (a - b) mod 2 ^ 64" by (simp add: sub64_def)
  then show ?thesis using \<open>a < 2 ^ 64\<close> by simp
qed

subsection \<open>Headers in memory\<close>

definition hdr :: "memory \<Rightarrow> nat \<Rightarrow> heap_mem" where
  "hdr m a = \<lparr>magic = load 2 m a, used = load 2 m (a + 2), nxt = load 8 m (a + 8), prv = load 8 m (a + 16)\<rparr>"

definition put_magic :: "nat \<Rightarrow> nat \<Rightarrow> memory \<Rightarrow> memory" where
  "put_magic a v m = store 2 a v m"

definition put_used :: "nat \<Rightarrow> nat \<Rightarrow> memory \<Rightarrow> memory" where
  "put_used a v m = store 2 (a + 2) v m"

definition put_next :: "nat \<Rightarrow> nat \<Rightarrow> memory \<Rightarrow> memory" where
  "put_next a v m = store 8 (a + 8) v m"

definition put_prev :: "nat \<Rightarrow> nat \<Rightarrow> memory \<Rightarrow> memory" where
  "put_prev a v m = store 8 (a + 16) v m"

lemmas put_defs = put_magic_def put_used_def put_next_def put_prev_def

lemma hdr_put [simp]:
  "v < 2 ^ 16 \<Longrightarrow> hdr (put_magic a v m) a = hdr m a\<lparr>magic := v\<rparr>"
  "v < 2 ^ 16 \<Longrightarrow> hdr (put_used a v m) a = hdr m a\<lparr>used := v\<rparr>"
  "v < 2 ^ 64 \<Longrightarrow> hdr (put_next a v m) a = hdr m a\<lparr>nxt := v\<rparr>"
  "v < 2 ^ 64 \<Longrightarrow> hdr (put_prev a v m) a = hdr m a\<lparr>prv := v\<rparr>"
  by (simp_all add: hdr_def put_defs load_store_disjoint)

lemma hdr_put_apart:
  "apart a a' \<Longrightarrow> hdr (put_magic a v m) a' = hdr m a'"
  "apart a a' \<Longrightarrow> hdr (put_used a v m) a' = hdr m a'"
  "apart a a' \<Longrightarrow> hdr (put_next a v m) a' = hdr m a'"
  "apart a a' \<Longrightarrow> hdr (put_prev a v m) a' = hdr m a'"
  by (auto simp: hdr_def put_defs load_store_disjoint)

lemma put_outside:
  "q < a \<or> a + 24 \<le> q \<Longrightarrow> put_magic a v m q = m q"
  "q < a \<or> a + 24 \<le> q \<Longrightarrow> put_used a v m q = m q"
  "q < a \<or> a + 24 \<le> q \<Longrightarrow> put_next a v m q = m q"
  "q < a \<or> a + 24 \<le> q \<Longrightarrow> put_prev a v m q = m q"
  by (auto simp: put_defs store_outside)

lemma nxt_less: "nxt (hdr m a) < 2 ^ 64" "prv (hdr m a) < 2 ^ 64"
  using load_less [of 8 m] by (simp_all add: hdr_def)

subsection \<open>The operations\<close>

definition plug_next :: "nat \<Rightarrow> rt_heap \<Rightarrow> rt_heap" where
  "plug_next a h =
     (let nmem = heap_ptr h + nxt (hdr (mem h) a)
      in if a \<noteq> nmem \<and> used (hdr (mem h) nmem) = 0 \<and> nmem \<noteq> heap_end h
         then (let m1 = put_next a (nxt (hdr (mem h) nmem)) (mem h)
               in h\<lparr>lfree := (if lfree h = nmem then a else lfree h),
                    mem := put_prev (heap_ptr h + nxt (hdr m1 nmem)) (sub64 a (heap_ptr h)) m1\<rparr>)
         else h)"

definition plug_prev :: "nat \<Rightarrow> rt_heap \<Rightarrow> rt_heap" where
  "plug_prev a h =
     (let pmem = heap_ptr h + prv (hdr (mem h) a)
      in if pmem \<noteq> a \<and> used (hdr (mem h) pmem) = 0
         then (let m1 = put_next pmem (nxt (hdr (mem h) a)) (mem h)
               in h\<lparr>lfree := (if lfree h = a then pmem else lfree h),
                    mem := put_prev (heap_ptr h + nxt (hdr m1 a)) (sub64 pmem (heap_ptr h)) m1\<rparr>)
         else h)"

definition plug_holes :: "nat \<Rightarrow> rt_heap \<Rightarrow> rt_heap option" where
  "plug_holes a h =
     do { RT_ASSERT (a \<ge> heap_ptr h);
          RT_ASSERT (a < heap_end h);
          RT_ASSERT (used (hdr (mem h) a) = 0);
          Some (plug_prev a (plug_next a h)) }"

text \<open>The search of \<^verbatim>\<open>rt_malloc\<close>: the offset of the block taken, or \<open>None\<close> at the end of the loop.\<close>

partial_function (option) malloc_find :: "rt_heap \<Rightarrow> nat \<Rightarrow> nat \<Rightarrow> nat option option" where
  "malloc_find h sz ptr =
     (if ptr < sub64 (mem_size_aligned h) sz
      then (let b = hdr (mem h) (heap_ptr h + ptr)
            in if used b = 0 \<and> sub64 (nxt b) (add64 ptr SIZEOF_STRUCT_MEM) \<ge> sz
               then Some (Some ptr) else malloc_find h sz (nxt b))
      else Some None)"

definition count_used :: "nat \<Rightarrow> rt_heap \<Rightarrow> rt_heap" where
  "count_used n h =
     (let u = add64 (used_mem h) n
      in h\<lparr>used_mem := u, max_mem := (if max_mem h < u then u else max_mem h)\<rparr>)"

definition split_block :: "nat \<Rightarrow> nat \<Rightarrow> rt_heap \<Rightarrow> memory" where
  "split_block ptr ptr2 h =
     (let a = heap_ptr h + ptr; a2 = heap_ptr h + ptr2;
          m1 = put_used a2 0 (put_magic a2 HEAP_MAGIC (mem h))
      in put_prev a2 ptr (put_next a2 (nxt (hdr m1 a)) m1))"

definition relink_next :: "nat \<Rightarrow> rt_heap \<Rightarrow> memory \<Rightarrow> memory" where
  "relink_next ptr2 h m =
     (let n = nxt (hdr m (heap_ptr h + ptr2))
      in if n \<noteq> add64 (mem_size_aligned h) SIZEOF_STRUCT_MEM then put_prev (heap_ptr h + n) ptr2 m else m)"

definition malloc_take :: "nat \<Rightarrow> nat \<Rightarrow> rt_heap \<Rightarrow> rt_heap" where
  "malloc_take sz ptr h =
     (let a = heap_ptr h + ptr; n = nxt (hdr (mem h) a);
          h1 = (if sub64 n (add64 ptr SIZEOF_STRUCT_MEM) \<ge> add64 (add64 sz SIZEOF_STRUCT_MEM) MIN_SIZE_ALIGNED
                then (let ptr2 = add64 (add64 ptr SIZEOF_STRUCT_MEM) sz;
                          m1 = put_used a 1 (put_next a ptr2 (split_block ptr ptr2 h))
                      in count_used (add64 sz SIZEOF_STRUCT_MEM) (h\<lparr>mem := relink_next ptr2 h m1\<rparr>))
                else count_used (sub64 n ptr) (h\<lparr>mem := put_used a 1 (mem h)\<rparr>))
      in h1\<lparr>mem := put_magic a HEAP_MAGIC (mem h1)\<rparr>)"

partial_function (option) lfree_advance :: "rt_heap \<Rightarrow> nat \<Rightarrow> nat option" where
  "lfree_advance h a =
     (if used (hdr (mem h) a) \<noteq> 0 \<and> a \<noteq> heap_end h
      then lfree_advance h (heap_ptr h + nxt (hdr (mem h) a)) else Some a)"

definition malloc_locked :: "nat \<Rightarrow> rt_heap \<Rightarrow> (nat option \<times> rt_heap) option" where
  "malloc_locked sz h =
     do { r \<leftarrow> malloc_find h sz (sub64 (lfree h) (heap_ptr h));
          case r of
            None \<Rightarrow> Some (None, h)
          | Some ptr \<Rightarrow>
              do { let a = heap_ptr h + ptr;
                   let h1 = malloc_take sz ptr h;
                   h2 \<leftarrow> (if a = lfree h1
                           then do { lf \<leftarrow> lfree_advance h1 (lfree h1);
                                     RT_ASSERT (lf = heap_end h1 \<or> used (hdr (mem h1) lf) = 0);
                                     Some (h1\<lparr>lfree := lf\<rparr>) }
                           else Some h1);
                   Some (Some a, h2) } }"

definition free_locked :: "nat \<Rightarrow> rt_heap \<Rightarrow> rt_heap option" where
  "free_locked rmem h =
     do { let a = sub64 rmem SIZEOF_STRUCT_MEM;
          RT_ASSERT (used (hdr (mem h) a) \<noteq> 0);
          RT_ASSERT (magic (hdr (mem h) a) = HEAP_MAGIC);
          let m1 = put_magic a HEAP_MAGIC (put_used a 0 (mem h));
          plug_holes a (h\<lparr>mem := m1, lfree := (if a < lfree h then a else lfree h),
                          used_mem := sub64 (used_mem h) (sub64 (nxt (hdr m1 a)) (sub64 a (heap_ptr h)))\<rparr>) }"

text \<open>
  The critical section of \<^verbatim>\<open>rt_realloc\<close>: either the pointer stays (\<open>Inl\<close>), or the block has to be moved
  and the result is its present size (\<open>Inr\<close>).
\<close>

definition realloc_locked :: "nat \<Rightarrow> nat \<Rightarrow> rt_heap \<Rightarrow> ((unit + nat) \<times> rt_heap) option" where
  "realloc_locked rmem newsize h =
     (if rmem < heap_ptr h \<or> rmem \<ge> heap_end h then Some (Inl (), h)
      else (let a = sub64 rmem SIZEOF_STRUCT_MEM; ptr = sub64 a (heap_ptr h);
                sz = sub64 (sub64 (nxt (hdr (mem h) a)) ptr) SIZEOF_STRUCT_MEM
            in if sz = newsize then Some (Inl (), h)
               else if add64 (add64 newsize SIZEOF_STRUCT_MEM) MIN_SIZE_ALIGNED < sz
               then (let ptr2 = add64 (add64 ptr SIZEOF_STRUCT_MEM) newsize; a2 = heap_ptr h + ptr2;
                         m1 = put_next a ptr2 (split_block ptr ptr2 h);
                         h1 = h\<lparr>used_mem := sub64 (used_mem h) (sub64 sz newsize), mem := relink_next ptr2 h m1,
                                lfree := (if a2 < lfree h then a2 else lfree h)\<rparr>
                     in do { h2 \<leftarrow> plug_holes a2 h1; Some (Inl (), h2) })
               else Some (Inr sz, h)))"

text \<open>\<^verbatim>\<open>rt_system_heap_init\<close>, without the semaphore; the flag is false where it prints an error.\<close>

definition heap_init :: "nat \<Rightarrow> nat \<Rightarrow> rt_heap \<Rightarrow> bool \<times> rt_heap" where
  "heap_init begin_addr end_addr h =
     (let begin_align = unat (RT_ALIGN (of_nat begin_addr) 8);
          end_align = unat (RT_ALIGN_DOWN (of_nat end_addr) 8)
      in if end_align > 2 * SIZEOF_STRUCT_MEM \<and> end_align - 2 * SIZEOF_STRUCT_MEM \<ge> begin_align
         then (let msa = end_align - begin_align - 2 * SIZEOF_STRUCT_MEM; e = begin_align + (msa + SIZEOF_STRUCT_MEM);
                   m1 = put_used begin_align 0 (put_prev begin_align 0
                          (put_next begin_align (msa + SIZEOF_STRUCT_MEM) (put_magic begin_align HEAP_MAGIC (mem h))));
                   m2 = put_prev e (msa + SIZEOF_STRUCT_MEM) (put_next e (msa + SIZEOF_STRUCT_MEM)
                          (put_used e 1 (put_magic e HEAP_MAGIC m1)))
               in (True, h\<lparr>mem := m2, heap_ptr := begin_align, heap_end := e, mem_size_aligned := msa, lfree := begin_align\<rparr>))
         else (False, h))"

subsection \<open>The invariant\<close>

abbreviation hview :: "rt_heap \<Rightarrow> view" where
  "hview h \<equiv> \<lambda>x. hdr (mem h) (heap_ptr h + x)"

abbreviation hsize :: "rt_heap \<Rightarrow> nat" where
  "hsize h \<equiv> mem_size_aligned h + SIZEOF_STRUCT_MEM"

definition allocated :: "rt_heap \<Rightarrow> nat list \<Rightarrow> (nat \<times> nat) set" where
  "allocated h os = {(x, y) \<in> set (blocks os). used (hview h x) \<noteq> 0}"

lemma blocks_mem: "(x, y) \<in> set (blocks os) \<Longrightarrow> x \<in> set os \<and> y \<in> set os"
  by (auto elim: blocksD)

lemma allocated_cong:
  assumes "\<And>w. w \<in> set os \<Longrightarrow> used (hview h' w) = used (hview h w)"
  shows "allocated h' os = allocated h os"
proof -
  have "(x, y) \<in> allocated h' os \<longleftrightarrow> (x, y) \<in> allocated h os" for x y
    using assms [of x] blocks_mem [of x y os] by (auto simp: allocated_def)
  then show ?thesis by auto
qed

lemma blocks_unique: "sorted_wrt gap (xs @ x # y # zs) \<Longrightarrow> (x, t) \<in> set (blocks (xs @ x # y # zs)) \<Longrightarrow> t = y"
proof -
  assume s: "sorted_wrt gap (xs @ x # y # zs)" and t: "(x, t) \<in> set (blocks (xs @ x # y # zs))"
  have "x \<notin> set xs \<union> set (y # zs)" using s by (auto simp: sorted_wrt_append)
  then have "(x, t) \<notin> set (blocks (xs @ [x]))" "(x, t) \<notin> set (blocks (y # zs))"
    using blocks_fst [of x t xs x] blocks_mem [of x t "y # zs"] by auto
  then show ?thesis using t blocks_at [of xs x y zs] by auto
qed

text \<open>The effect on the allocated blocks when the flag of one block changes.\<close>

lemma allocated_flip:
  assumes s: "sorted_wrt gap (xs @ x # y # zs)"
    and V: "\<forall>w \<in> set (xs @ y # zs). used (hview h' w) = used (hview h w)"
  shows "allocated h' (xs @ x # y # zs) =
    (if used (hview h' x) = 0 then allocated h (xs @ x # y # zs) - {(x, y)} else insert (x, y) (allocated h (xs @ x # y # zs)))"
proof -
  let ?os = "xs @ x # y # zs"
  have in_os: "(x, y) \<in> set (blocks ?os)" by (simp add: blocks_at)
  have "(p, q) \<in> allocated h' ?os \<longleftrightarrow>
      (if used (hview h' x) = 0 then (p, q) \<in> allocated h ?os \<and> (p, q) \<noteq> (x, y)
       else (p, q) = (x, y) \<or> (p, q) \<in> allocated h ?os)" for p q
  proof (cases "p = x")
    case True
    then show ?thesis using blocks_unique [OF s, of q] in_os by (auto simp: allocated_def)
  next
    case False
    then show ?thesis using V blocks_mem [of p q ?os] by (auto simp: allocated_def)
  qed
  then show ?thesis by auto
qed

text \<open>Everything but the rule that no two adjacent blocks are free.\<close>

definition heap_struct :: "nat list \<Rightarrow> rt_heap \<Rightarrow> bool" where
  "heap_struct os h \<longleftrightarrow> links (hview h) (hsize h) os \<and> heap_end h = heap_ptr h + hsize h \<and> 8 dvd heap_ptr h \<and>
     heap_ptr h + hsize h + SIZEOF_STRUCT_MEM < 2 ^ 64 \<and> lfree h = heap_ptr h + lowest (hview h) os \<and>
     used_mem h = used_bytes (hview h) os \<and> used_mem h \<le> max_mem h"

definition heap_rep :: "nat list \<Rightarrow> rt_heap \<Rightarrow> bool" where
  "heap_rep os h \<longleftrightarrow> heap_struct os h \<and> coalesced (hview h) os"

definition keeps :: "(nat \<times> nat) set \<Rightarrow> rt_heap \<Rightarrow> rt_heap \<Rightarrow> bool" where
  "keeps A h h' \<longleftrightarrow> heap_ptr h' = heap_ptr h \<and> mem_size_aligned h' = mem_size_aligned h \<and>
     (\<forall>(x, y) \<in> A. \<forall>q. heap_ptr h + x + SIZEOF_STRUCT_MEM \<le> q \<and> q < heap_ptr h + y \<longrightarrow> mem h' q = mem h q)"

lemma keeps_refl [simp]: "keeps A h h"
  by (simp add: keeps_def)

lemma keeps_trans: "keeps A h h1 \<Longrightarrow> keeps A h1 h2 \<Longrightarrow> keeps A h h2"
  by (fastforce simp: keeps_def)

lemma keeps_mono: "keeps A h h' \<Longrightarrow> B \<subseteq> A \<Longrightarrow> keeps B h h'"
  by (fastforce simp: keeps_def)

lemma heap_structD:
  assumes "heap_struct os h"
  shows "links (hview h) (hsize h) os" "heap_end h = heap_ptr h + hsize h" "8 dvd heap_ptr h"
    "heap_ptr h + hsize h + SIZEOF_STRUCT_MEM < 2 ^ 64" "lfree h = heap_ptr h + lowest (hview h) os"
    "used_mem h = used_bytes (hview h) os" "used_mem h \<le> max_mem h"
  using assms by (simp_all add: heap_struct_def)

lemma block_header:
  assumes l: "links V E os" and "(u, v) \<in> set (blocks os)" "w \<in> set os"
  shows "w \<le> u \<or> v \<le> w"
proof -
  obtain xs zs where os: "os = xs @ u # v # zs" using blocksD [OF assms(2)] .
  then show ?thesis using links_sorted [OF l] assms(3) by (auto simp: sorted_wrt_append)
qed

text \<open>A block pair that starts and ends where a block did before, with the same flag.\<close>

lemma used_bytes_le: "sorted_wrt gap os \<Longrightarrow> os \<noteq> [] \<Longrightarrow> used_bytes V os \<le> last os - hd os"
proof (induction os rule: induct_list012)
  case (3 x y zs)
  define l where "l = last (y # zs)"
  have e: "used_bytes V (x # y # zs) = (if used (V x) = 0 then 0 else y - x) + used_bytes V (y # zs)"
    by (simp add: used_bytes_def)
  have "used_bytes V (y # zs) \<le> l - y" using 3 by (simp add: l_def)
  moreover have "l = y \<or> l \<in> set zs" by (simp add: l_def)
  then have "x \<le> y" "y \<le> l" using "3.prems"(1) by auto
  ultimately have "y - x + used_bytes V (y # zs) \<le> l - x" "used_bytes V (y # zs) \<le> l - x" by linarith+
  moreover have "last (x # y # zs) = l" "hd (x # y # zs) = x" by (simp_all add: l_def)
  ultimately show ?case unfolding e \<open>last _ = _\<close> \<open>hd _ = _\<close> by simp
qed (simp_all add: used_bytes_def)

lemma used_mem_bound: "heap_struct os h \<Longrightarrow> used_mem h < 2 ^ 64"
  using used_bytes_le [OF links_sorted, of "hview h" "hsize h" os "hview h"]
  by (auto simp: heap_struct_def links_def)

subsection \<open>Merging\<close>

lemma merge_step:
  assumes S: "heap_struct (xs @ x # y # z # zs) h" and f: "used (hview h x) = 0" "used (hview h y) = 0"
  defines "h' \<equiv> h\<lparr>mem := put_prev (heap_ptr h + z) x (put_next (heap_ptr h + x) z (mem h))\<rparr>"
  shows "heap_struct (xs @ x # z # zs) h' \<and> allocated h' (xs @ x # z # zs) = allocated h (xs @ x # y # z # zs) \<and>
    keeps (allocated h (xs @ x # y # z # zs)) h h' \<and>
    (\<forall>w \<in> set (xs @ x # z # zs). used (hview h' w) = used (hview h w))"
proof -
  let ?os = "xs @ x # y # z # zs" and ?os' = "xs @ x # z # zs" and ?b = "heap_ptr h"
  let ?V = "(hview h)(x := hview h x\<lparr>nxt := z\<rparr>, z := hview h z\<lparr>prv := x\<rparr>)"
  note D = heap_structD [OF S]
  have ap: "apart u v" if "u \<in> set ?os'" "v \<in> set ?os'" "u \<noteq> v" for u v
    using links_apart [OF D(1), of u v] that by auto
  have le: "u < 2 ^ 64" if "u \<in> set ?os'" for u using links_le_end [OF D(1), of u] D(4) that by auto
  have "x \<noteq> z" using links_sorted [OF D(1)] by (auto simp: sorted_wrt_append)
  have V: "hview h' w = ?V w" if "w \<in> set ?os'" for w
  proof -
    have "apart (?b + x) (?b + w)" if "w \<noteq> x" using ap [of x w] \<open>w \<in> set ?os'\<close> that by auto
    moreover have "apart (?b + z) (?b + w)" if "w \<noteq> z" using ap [of z w] \<open>w \<in> set ?os'\<close> that by auto
    ultimately show ?thesis using le [of x] le [of z] \<open>x \<noteq> z\<close>
      by (cases "w = x"; cases "w = z") (simp_all add: h'_def hdr_put_apart)
  qed
  have l: "links (hview h') (hsize h) ?os'" by (rule links_cong [OF links_merge [OF D(1)] V])
  have u: "used (hview h' w) = used (hview h w)" if "w \<in> set ?os'" for w using V [OF that] \<open>x \<noteq> z\<close> by simp
  have b: "heap_ptr h' = ?b" "mem_size_aligned h' = mem_size_aligned h" "lfree h' = lfree h" "heap_end h' = heap_end h"
    "used_mem h' = used_mem h" "max_mem h' = max_mem h"
    by (simp_all add: h'_def)
  have ub: "used_bytes (hview h') ?os' = used_bytes (hview h) ?os"
  proof -
    have "used_bytes (hview h') ?os' = used_bytes (hview h) ?os'"
      by (intro used_bytes_cong u) (rule in_set_butlastD)
    then show ?thesis using f used_bytes_at [of "hview h" xs x] used_bytes_at [of "hview h" "[]" y z zs]
      by (simp add: used_bytes_def)
  qed
  have "lowest (hview h') ?os' = lowest (hview h) ?os'" using u by (intro lowest_cong)
  then have lo: "lowest (hview h') ?os' = lowest (hview h) ?os"
    using lowest_at_free [of "hview h" x xs "z # zs", OF f(1)] lowest_at_free [of "hview h" x xs "y # z # zs", OF f(1)] by simp
  have "heap_struct ?os' h'" unfolding heap_struct_def using l D b ub lo by simp
  moreover have "allocated h' ?os' = allocated h ?os"
  proof -
    have "allocated h' ?os' = allocated h ?os'" using u by (rule allocated_cong)
    also have "\<dots> = allocated h ?os"
      using f blocks_at [of xs x z zs] blocks_at [of xs x y "z # zs"] by (auto simp: allocated_def)
    finally show ?thesis .
  qed
  moreover have "keeps (allocated h ?os) h h'"
    unfolding keeps_def
  proof (intro conjI ballI)
    fix p assume p: "p \<in> allocated h ?os"
    obtain s t where st: "p = (s, t)" by fastforce
    then have B: "(s, t) \<in> set (blocks ?os)" "s \<noteq> x" using p f by (auto simp: allocated_def)
    then have "x \<le> s \<or> t \<le> x" "z \<le> s \<or> t \<le> z" using block_header [OF D(1) B(1)] by auto
    then show "case p of (x, y) \<Rightarrow> \<forall>q. heap_ptr h + x + 24 \<le> q \<and> q < heap_ptr h + y \<longrightarrow> mem h' q = mem h q"
      unfolding st by (auto simp: h'_def put_outside)
  qed (simp_all add: b)
  ultimately show ?thesis using u by blast
qed

text \<open>
  \<^verbatim>\<open>plug_holes\<close> on a free block restores the rule that no two adjacent blocks are free, and changes
  nothing an allocated block can see.
\<close>

lemma hview_less: "prv (hview h x) < 2 ^ 64" "nxt (hview h x) < 2 ^ 64"
  using nxt_less by auto

lemma merge_eq:
  assumes "lfree h \<noteq> a'"
  shows "h\<lparr>lfree := (if lfree h = a' then a else lfree h), mem := m\<rparr> = h\<lparr>mem := m\<rparr>"
  using assms by simp

lemma plug_forward:
  assumes S: "heap_struct (xs @ x # y # zs) h" and f: "used (hview h x) = 0" "coalesced (hview h) (y # zs)"
  obtains h' ys where "heap_struct (xs @ x # ys) h'" "coalesced (hview h') (x # ys)"
    "allocated h' (xs @ x # ys) = allocated h (xs @ x # y # zs)" "keeps (allocated h (xs @ x # y # zs)) h h'"
    "\<forall>w \<in> set (xs @ [x]). used (hview h' w) = used (hview h w)"
    "plug_next (heap_ptr h + x) h = h'"
proof -
  note D = heap_structD [OF S]
  note at = links_at [OF D(1)]
  have ne: "heap_ptr h + x \<noteq> heap_ptr h + y" using at(3) by simp
  show thesis
  proof (cases "used (hview h y) = 0")
    case True
    then have yE: "y \<noteq> hsize h" using D(1) by (auto simp: links_def)
    then obtain z zs' where zs: "zs = z # zs'" using D(1) by (cases zs) (auto simp: links_def)
    have S': "heap_struct (xs @ x # y # z # zs') h" using S zs by simp
    have at2: "nxt (hview h y) = z" "y + 24 \<le> z" using links_at [of "hview h" "hsize h" "xs @ [x]" y z zs'] D(1) zs by auto
    let ?h = "h\<lparr>mem := put_prev (heap_ptr h + z) x (put_next (heap_ptr h + x) z (mem h))\<rparr>"
    note M = merge_step [OF S' f(1) True]
    have z0: "used (hview h z) \<noteq> 0" using f(2) True zs by simp
    have "lowest (hview h) (xs @ x # y # zs) = lowest (hview h) (xs @ [x])" using f(1) by (rule lowest_at_free)
    then have "lowest (hview h) (xs @ x # y # zs) \<noteq> y"
      using links_sorted [OF D(1)] lowest_in [of "xs @ [x]" "hview h"] by (auto simp: sorted_wrt_append)
    then have lf: "lfree h \<noteq> heap_ptr h + y" using D(5) by simp
    have zl: "z < 2 ^ 64" "heap_ptr h + x < 2 ^ 64"
      using links_le_end [OF D(1), of z] links_le_end [OF D(1), of x] D(4) zs by auto
    have ap: "apart (heap_ptr h + x) (heap_ptr h + y)" using at(3) by simp
    show thesis
    proof (rule that [of "z # zs'" ?h])
      have "coalesced (hview ?h) (z # zs')"
        by (rule coalesced_cong [of _ _ "hview h"]) (use M f(2) zs in auto)
      then show "coalesced (hview ?h) (x # z # zs')" using M z0 by simp
      show "plug_next (heap_ptr h + x) h = ?h"
        using True yE D(2) at2(1) at(4) ne lf zl ap by (simp add: plug_next_def Let_def hdr_put_apart)
    qed (use M zs in auto)
  next
    case False
    show thesis
      by (rule that [of "y # zs" h]) (use S f False at(4) in \<open>auto simp: plug_next_def Let_def\<close>)
  qed
qed

lemma plug_backward:
  assumes S: "heap_struct (xs @ x # ys) h" and f: "used (hview h x) = 0" "coalesced (hview h) (x # ys)"
    "xs = [] \<or> coalesced (hview h) xs"
  obtains h' os' where "heap_rep os' h'"
    "allocated h' os' = allocated h (xs @ x # ys)" "keeps (allocated h (xs @ x # ys)) h h'"
    "plug_prev (heap_ptr h + x) h = h'"
proof -
  note D = heap_structD [OF S]
  have xE: "x \<noteq> hsize h" using f(1) D(1) by (auto simp: links_def)
  show thesis
  proof (cases xs rule: rev_cases)
    case Nil
    then have "x = 0" "prv (hview h x) = 0" using D(1) by (auto simp: links_def)
    then show thesis using that [of "xs @ x # ys" h] S f Nil by (auto simp: heap_rep_def plug_prev_def Let_def)
  next
    case (snoc ps p)
    have at: "prv (hview h x) = p" "p + 24 \<le> x" using links_at [of "hview h" "hsize h" ps p x ys] D(1) xE snoc by auto
    obtain z zs where ys: "ys = z # zs" using xE D(1) by (cases ys) (auto simp: links_def)
    have S': "heap_struct (ps @ p # x # z # zs) h" using S snoc ys by simp
    have zn: "nxt (hview h x) = z" "z < 2 ^ 64" using links_at(4) [of "hview h" "hsize h" xs x z zs] D(1) ys nxt_less by auto
    show thesis
    proof (cases "used (hview h p) = 0")
      case True
      let ?h = "h\<lparr>mem := put_prev (heap_ptr h + z) p (put_next (heap_ptr h + p) z (mem h))\<rparr>"
      note M = merge_step [OF S' True f(1)]
      have "lowest (hview h) (xs @ x # ys) = lowest (hview h) (ps @ [p])"
        using lowest_at_free [of "hview h" p ps "x # ys", OF True] snoc by simp
      then have "lowest (hview h) (xs @ x # ys) \<noteq> x"
        using links_sorted [OF D(1)] lowest_in [of "ps @ [p]" "hview h"] snoc by (auto simp: sorted_wrt_append)
      then have lf: "lfree h \<noteq> heap_ptr h + x" using D(5) by simp
      have pl: "heap_ptr h + p < 2 ^ 64" using links_le_end [OF D(1), of p] D(4) snoc by auto
      have ap: "apart (heap_ptr h + p) (heap_ptr h + x)" using at(2) by simp
      have co: "coalesced (hview ?h) (ps @ p # z # zs)"
      proof (rule coalesced_cong [of _ _ "hview h"])
        show "coalesced (hview h) (ps @ p # z # zs)"
          using f snoc ys by (subst coalesced_append) auto
      qed (use M in auto)
      show thesis
      proof (rule that [of "ps @ p # z # zs" ?h])
        show "heap_rep (ps @ p # z # zs) ?h" using M co by (simp add: heap_rep_def)
        show "plug_prev (heap_ptr h + x) h = ?h"
          using True at lf pl ap zn by (simp add: plug_prev_def Let_def hdr_put_apart)
      qed (use M snoc ys in auto)
    next
      case False
      have "coalesced (hview h) (ps @ p # x # ys)" using f snoc False by (subst coalesced_append) auto
      then show thesis
        by (intro that [of "xs @ x # ys" h]) (use S False at snoc in \<open>auto simp: heap_rep_def plug_prev_def Let_def\<close>)
    qed
  qed
qed

lemma plug_holes_ok:
  assumes S: "heap_struct (xs @ x # y # zs) h" and f: "used (hview h x) = 0" "coalesced (hview h) (y # zs)"
    "xs = [] \<or> coalesced (hview h) xs"
  obtains h' os' where "plug_holes (heap_ptr h + x) h = Some h'" "heap_rep os' h'"
    "allocated h' os' = allocated h (xs @ x # y # zs)" "keeps (allocated h (xs @ x # y # zs)) h h'"
proof -
  note D = heap_structD [OF S]
  have xE: "x < hsize h" using links_at(2) [OF D(1)] links_le_end [OF D(1), of x] by simp
  obtain h1 ys where 1: "heap_struct (xs @ x # ys) h1" "coalesced (hview h1) (x # ys)"
    "allocated h1 (xs @ x # ys) = allocated h (xs @ x # y # zs)" "keeps (allocated h (xs @ x # y # zs)) h h1"
    "\<forall>w \<in> set (xs @ [x]). used (hview h1 w) = used (hview h w)"
    and e1: "plug_next (heap_ptr h + x) h = h1"
    by (rule plug_forward [OF S f(1,2)])
  have b: "heap_ptr h1 = heap_ptr h" using 1(4) by (simp add: keeps_def)
  have c: "xs = [] \<or> coalesced (hview h1) xs" using f(3) 1(5) coalesced_cong [of xs "hview h1" "hview h"] by auto
  have u: "used (hview h1 x) = 0" using 1(5) f(1) by simp
  obtain h' os' where 2: "heap_rep os' h'" "allocated h' os' = allocated h1 (xs @ x # ys)"
    "keeps (allocated h1 (xs @ x # ys)) h1 h'"
    and e2: "plug_prev (heap_ptr h1 + x) h1 = h'"
    by (rule plug_backward [OF 1(1) u 1(2) c])
  have "plug_holes (heap_ptr h + x) h = Some h'"
    using D(2) xE f(1) e1 e2 by (simp add: plug_holes_def b)
  then show thesis using that 1 2 keeps_trans by metis
qed

subsection \<open>Freeing\<close>

lemma heap_repD: "heap_rep os h \<Longrightarrow> heap_struct os h" "heap_rep os h \<Longrightarrow> coalesced (hview h) os"
  by (simp_all add: heap_rep_def)

lemma allocatedD:
  assumes "heap_struct os h" "(x, y) \<in> allocated h os"
  obtains xs zs where "os = xs @ x # y # zs" "used (hview h x) = 1" "magic (hview h x) = HEAP_MAGIC"
    "nxt (hview h x) = y" "x + SIZEOF_STRUCT_MEM \<le> y" "x < hsize h" "y \<le> hsize h"
proof -
  note D = heap_structD [OF assms(1)]
  have B: "(x, y) \<in> set (blocks os)" "used (hview h x) \<noteq> 0" using assms(2) by (auto simp: allocated_def)
  obtain xs zs where os: "os = xs @ x # y # zs" using blocksD [OF B(1)] .
  have l: "link (hview h) (hsize h) x y" "x \<noteq> hsize h" using links_at [of "hview h" "hsize h" xs x y zs] D(1) os by auto
  moreover have "x \<le> hsize h" "y \<le> hsize h" using links_le_end [OF D(1)] os by auto
  ultimately show thesis using that [OF os] B(2) by (auto simp: link_def)
qed

lemma put_flag_view:
  assumes l: "links (hview h) E os" "x \<in> set os" "w \<in> set os" "u \<le> 1"
  shows "hdr (put_magic (heap_ptr h + x) HEAP_MAGIC (put_used (heap_ptr h + x) u (mem h))) (heap_ptr h + w) =
    (if w = x then hview h x\<lparr>magic := HEAP_MAGIC, used := u\<rparr> else hview h w)"
proof -
  have "apart (heap_ptr h + x) (heap_ptr h + w)" if "w \<noteq> x" using links_apart [OF l(1-3)] that by auto
  then show ?thesis using l(4) by (auto simp: hdr_put_apart)
qed

lemma free_struct:
  assumes S: "heap_struct (xs @ x # y # zs) h" and u: "used (hview h x) = 1"
  defines "h1 \<equiv> h\<lparr>mem := put_magic (heap_ptr h + x) HEAP_MAGIC (put_used (heap_ptr h + x) 0 (mem h)),
      lfree := (if heap_ptr h + x < lfree h then heap_ptr h + x else lfree h), used_mem := used_mem h - (y - x)\<rparr>"
  shows "heap_struct (xs @ x # y # zs) h1 \<and> used (hview h1 x) = 0 \<and>
    (\<forall>w \<in> set (xs @ y # zs). used (hview h1 w) = used (hview h w)) \<and>
    keeps (allocated h (xs @ x # y # zs) - {(x, y)}) h h1"
proof -
  let ?os = "xs @ x # y # zs"
  note D = heap_structD [OF S]
  note s = links_sorted [OF D(1)]
  have V: "hview h1 w = (if w = x then hview h x\<lparr>magic := HEAP_MAGIC, used := 0\<rparr> else hview h w)" if "w \<in> set ?os" for w
    using put_flag_view [OF D(1), of x w 0] that by (simp add: h1_def)
  have l: "links (hview h1) (hsize h) ?os" by (rule links_flag [OF D(1) _ links_at(2) [OF D(1)] V]) simp_all
  have ne: "x \<notin> set (xs @ y # zs)" using s by (auto simp: sorted_wrt_append)
  have V': "used (hview h1 w) = used (hview h w)" if "w \<in> set (xs @ y # zs)" for w using V [of w] that ne by auto
  have V0: "used (hview h1 x) = 0" using V [of x] by simp
  have lo: "lowest (hview h1) ?os = (if x < lowest (hview h) ?os then x else lowest (hview h) ?os)"
    by (rule lowest_freed [where V = "hview h"]) (use s V0 u V' in auto)
  have ub: "used_bytes (hview h) ?os = used_bytes (hview h1) ?os + (y - x)"
  proof -
    have "used_bytes (hview h1) (xs @ [x]) = used_bytes (hview h) (xs @ [x])"
      by (rule used_bytes_cong) (simp add: V')
    moreover have "used_bytes (hview h1) (y # zs) = used_bytes (hview h) (y # zs)"
      by (rule used_bytes_cong, rule V', drule in_set_butlastD) auto
    ultimately show ?thesis using u V0 used_bytes_at [of "hview h" xs x y zs] used_bytes_at [of "hview h1" xs x y zs] by simp
  qed
  have b: "heap_ptr h1 = heap_ptr h" "mem_size_aligned h1 = mem_size_aligned h" "heap_end h1 = heap_end h"
    "used_mem h1 = used_mem h - (y - x)" "max_mem h1 = max_mem h"
    "lfree h1 = (if heap_ptr h + x < lfree h then heap_ptr h + x else lfree h)" by (simp_all add: h1_def)
  have "heap_struct ?os h1" unfolding heap_struct_def using l D ub lo by (simp add: b)
  moreover have "keeps (allocated h ?os - {(x, y)}) h h1"
    unfolding keeps_def
  proof (intro conjI ballI)
    fix p assume p: "p \<in> allocated h ?os - {(x, y)}"
    obtain s t where st: "p = (s, t)" by fastforce
    then have B: "(s, t) \<in> set (blocks ?os)" using p by (auto simp: allocated_def)
    then have "x \<le> s \<or> t \<le> x" using block_header [OF D(1) B] by auto
    then show "case p of (x, y) \<Rightarrow> \<forall>q. heap_ptr h + x + 24 \<le> q \<and> q < heap_ptr h + y \<longrightarrow> mem h1 q = mem h q"
      unfolding st by (auto simp: h1_def put_outside)
  qed (simp_all add: b)
  ultimately show ?thesis using V' V0 by blast
qed

lemma free_locked_ok:
  assumes R: "heap_rep os h" and A: "(x, y) \<in> allocated h os"
  obtains h' os' where "free_locked (heap_ptr h + x + SIZEOF_STRUCT_MEM) h = Some h'" "heap_rep os' h'"
    "allocated h' os' = allocated h os - {(x, y)}" "keeps (allocated h os - {(x, y)}) h h'"
proof -
  note S = heap_repD(1) [OF R]
  note D = heap_structD [OF S]
  obtain xs zs where os: "os = xs @ x # y # zs" "used (hview h x) = 1" "magic (hview h x) = HEAP_MAGIC"
    "nxt (hview h x) = y" "x + SIZEOF_STRUCT_MEM \<le> y" "x < hsize h" "y \<le> hsize h"
    by (rule allocatedD [OF S A])
  let ?h1 = "h\<lparr>mem := put_magic (heap_ptr h + x) HEAP_MAGIC (put_used (heap_ptr h + x) 0 (mem h)),
      lfree := (if heap_ptr h + x < lfree h then heap_ptr h + x else lfree h), used_mem := used_mem h - (y - x)\<rparr>"
  note F = free_struct [OF S [unfolded os(1)] os(2)]
  have c: "coalesced (hview h) (xs @ x # y # zs)" using heap_repD(2) [OF R] os(1) by simp
  have cy: "coalesced (hview ?h1) (y # zs)"
  proof (rule coalesced_cong [of _ _ "hview h"])
    show "coalesced (hview h) (y # zs)" using c coalesced_append [of "hview h" xs x "y # zs"] by simp
  qed (use F in auto)
  have cx: "xs = [] \<or> coalesced (hview ?h1) xs"
  proof (cases "xs = []")
    case False
    have "coalesced (hview h) xs" using c by (simp add: coalesced_def successively_append_iff)
    then show ?thesis using F coalesced_cong [of xs "hview ?h1" "hview h"] by auto
  qed simp
  obtain h' os' where P: "plug_holes (heap_ptr ?h1 + x) ?h1 = Some h'" "heap_rep os' h'"
    "allocated h' os' = allocated ?h1 (xs @ x # y # zs)" "keeps (allocated ?h1 (xs @ x # y # zs)) ?h1 h'"
    by (rule plug_holes_ok [of xs x y zs ?h1]) (use F cy cx in auto)
  have al: "allocated ?h1 (xs @ x # y # zs) = allocated h os - {(x, y)}"
    using allocated_flip [of xs x y zs ?h1 h] links_sorted [OF D(1)] F os(1) by simp
  have "heap_ptr h + x + 24 < 2 ^ 64" using D(4) os(5,7) by simp
  moreover have "sub64 (used_mem h) (y - x) = used_mem h - (y - x)"
    using used_mem_bound [OF S] used_bytes_at [of "hview h" xs x y zs] D(6) os(1,2) by simp
  moreover have "nxt (hdr (put_magic (heap_ptr h + x) HEAP_MAGIC (put_used (heap_ptr h + x) 0 (mem h))) (heap_ptr h + x)) = y"
    using os(4) by simp
  moreover have "y < 2 ^ 64" using D(4) os(7) by simp
  ultimately have "free_locked (heap_ptr h + x + 24) h = plug_holes (heap_ptr ?h1 + x) ?h1"
    using os(2,3,5) by (simp add: free_locked_def Let_def)
  moreover have "keeps (allocated h os - {(x, y)}) h ?h1" using F os(1) by simp
  then have "keeps (allocated h os - {(x, y)}) h h'" using P(4) unfolding al by (rule keeps_trans)
  ultimately show thesis using that P(1,2,3) al by simp
qed

subsection \<open>Splitting\<close>

text \<open>The headers after a block has been divided at \<open>y2\<close>.\<close>

definition split_view :: "rt_heap \<Rightarrow> nat \<Rightarrow> nat \<Rightarrow> nat \<Rightarrow> view" where
  "split_view h x y2 y = (\<lambda>w.
     if w = y2 then \<lparr>magic = HEAP_MAGIC, used = 0, nxt = y, prv = x\<rparr>
     else if w = x then hview h x\<lparr>nxt := y2, used := 1\<rparr>
     else if w = y \<and> y \<noteq> hsize h then hview h y\<lparr>prv := y2\<rparr> else hview h w)"

definition split_mem :: "nat list \<Rightarrow> nat \<Rightarrow> nat \<Rightarrow> nat \<Rightarrow> rt_heap \<Rightarrow> memory \<Rightarrow> bool" where
  "split_mem os x y2 y h m \<longleftrightarrow> (\<forall>w \<in> insert y2 (set os). hdr m (heap_ptr h + w) = split_view h x y2 y w) \<and>
     (\<forall>q. (\<forall>w \<in> {x, y2, y}. q < heap_ptr h + w \<or> heap_ptr h + w + SIZEOF_STRUCT_MEM \<le> q) \<longrightarrow> m q = mem h q)"

lemma split_memI:
  assumes S: "heap_struct (xs @ x # y # zs) h" and y: "gap x y2" "gap y2 y"
    and m2: "hdr m2 (heap_ptr h + y2) = \<lparr>magic = HEAP_MAGIC, used = 0, nxt = y, prv = x\<rparr>"
      "hdr m2 (heap_ptr h + x) = hview h x\<lparr>nxt := y2, used := 1\<rparr>"
      "\<And>w. apart x w \<Longrightarrow> apart y2 w \<Longrightarrow> hdr m2 (heap_ptr h + w) = hview h w"
      "\<And>q. \<forall>w \<in> {x, y2}. q < heap_ptr h + w \<or> heap_ptr h + w + SIZEOF_STRUCT_MEM \<le> q \<Longrightarrow> m2 q = mem h q"
  shows "split_mem (xs @ x # y # zs) x y2 y h (relink_next y2 h m2)"
proof -
  let ?os = "xs @ x # y # zs"
  note D = heap_structD [OF S]
  have ap: "apart x w \<and> apart y2 w" if "w \<in> set ?os" "w \<noteq> x" for w
  proof -
    have B: "(x, y) \<in> set (blocks ?os)" by (simp add: blocks_at)
    have "w \<le> x \<or> y \<le> w" by (rule block_header [OF D(1) B that(1)])
    then show ?thesis using links_apart [OF D(1) that(1), of x] that y by auto
  qed
  have apy: "apart y w" if "w \<in> set ?os" "w \<noteq> y" for w using links_apart [OF D(1), of y w] that by auto
  have y2y: "apart y y2" "y2 < 2 ^ 64" using y links_le_end [OF D(1), of y] D(4) by auto
  have "mem_size_aligned h + 24 < 2 ^ 64" using D(4) by simp
  then have e: "relink_next y2 h m2 = (if y \<noteq> hsize h then put_prev (heap_ptr h + y) y2 m2 else m2)"
    using m2(1) by (simp add: relink_next_def Let_def)
  have "hdr (relink_next y2 h m2) (heap_ptr h + w) = split_view h x y2 y w" if w: "w = y2 \<or> w \<in> set ?os" for w
  proof (cases "w = y")
    case True
    have "hdr m2 (heap_ptr h + y) = hview h y" using ap [of y] y by (intro m2(3)) auto
    then show ?thesis using True y y2y by (cases "y = hsize h") (auto simp: e split_view_def)
  next
    case False
    have "apart y w" using w apy [of w] y2y False by auto
    then have h: "hdr (relink_next y2 h m2) (heap_ptr h + w) = hdr m2 (heap_ptr h + w)"
      by (simp add: e hdr_put_apart)
    show ?thesis
    proof (cases "w = x \<or> w = y2")
      case True
      then show ?thesis using m2(1,2) y False unfolding h by (auto simp: split_view_def)
    next
      case F: False
      then have "hdr m2 (heap_ptr h + w) = hview h w" using ap [of w] w by (intro m2(3)) auto
      then show ?thesis using F False h by (simp add: split_view_def)
    qed
  qed
  moreover have "relink_next y2 h m2 q = mem h q"
    if "\<forall>w \<in> {x, y2, y}. q < heap_ptr h + w \<or> heap_ptr h + w + 24 \<le> q" for q
    using that m2(4) [of q] by (simp add: e put_outside)
  ultimately show ?thesis unfolding split_mem_def by blast
qed

lemma split_block_mem:
  assumes S: "heap_struct (xs @ x # y # zs) h" and y: "gap x y2" "gap y2 y"
  defines "m \<equiv> put_next (heap_ptr h + x) y2 (split_block x y2 h)"
  shows "hdr m (heap_ptr h + y2) = \<lparr>magic = HEAP_MAGIC, used = 0, nxt = y, prv = x\<rparr>"
    "hdr m (heap_ptr h + x) = hview h x\<lparr>nxt := y2\<rparr>"
    "\<And>w. apart x w \<Longrightarrow> apart y2 w \<Longrightarrow> hdr m (heap_ptr h + w) = hview h w"
    "\<And>q. \<forall>w \<in> {x, y2}. q < heap_ptr h + w \<or> heap_ptr h + w + SIZEOF_STRUCT_MEM \<le> q \<Longrightarrow> m q = mem h q"
proof -
  note D = heap_structD [OF S]
  have n: "nxt (hview h x) = y" by (rule links_at [OF D(1)])
  have le: "x < 2 ^ 64" "y < 2 ^ 64" "y2 < 2 ^ 64" using y links_le_end [OF D(1), of y] D(4) by auto
  show "hdr m (heap_ptr h + y2) = \<lparr>magic = HEAP_MAGIC, used = 0, nxt = y, prv = x\<rparr>"
    using le y n by (simp add: m_def split_block_def Let_def hdr_put_apart)
  show "hdr m (heap_ptr h + x) = hview h x\<lparr>nxt := y2\<rparr>"
    using le y n by (simp add: m_def split_block_def Let_def hdr_put_apart)
  show "hdr m (heap_ptr h + w) = hview h w" if "apart x w" "apart y2 w" for w
    using that by (simp add: m_def split_block_def Let_def hdr_put_apart)
  show "m q = mem h q" if "\<forall>w \<in> {x, y2}. q < heap_ptr h + w \<or> heap_ptr h + w + 24 \<le> q" for q
    using that by (simp add: m_def split_block_def Let_def put_outside)
qed

lemma allocated_at:
  assumes s: "sorted_wrt gap (xs @ x # y # zs)"
  shows "allocated h (xs @ x # y # zs) - {(x, y)} =
    {(p, q) \<in> set (blocks (xs @ [x])) \<union> set (blocks (y # zs)). used (hview h p) \<noteq> 0}"
proof -
  have "x \<notin> set xs \<union> set (y # zs)" using s by (auto simp: sorted_wrt_append)
  then have "(x, y) \<notin> set (blocks (xs @ [x])) \<union> set (blocks (y # zs))"
    using blocks_fst [of x y xs x] blocks_mem [of x y "y # zs"] by auto
  then show ?thesis by (auto simp: allocated_def blocks_at)
qed

lemma split_struct:
  assumes S: "heap_struct (xs @ x # y # zs) h" and y: "gap x y2" "gap y2 y" "8 dvd y2"
    and M: "split_mem (xs @ x # y # zs) x y2 y h (mem h1)"
    and b: "heap_ptr h1 = heap_ptr h" "mem_size_aligned h1 = mem_size_aligned h"
  shows "links (hview h1) (hsize h) (xs @ x # y2 # y # zs)"
    "\<And>w. w \<in> set (xs @ y # zs) \<Longrightarrow> used (hview h1 w) = used (hview h w)"
    "used (hview h1 x) = 1" "used (hview h1 y2) = 0"
    "allocated h1 (xs @ x # y2 # y # zs) = insert (x, y2) (allocated h (xs @ x # y # zs) - {(x, y)})"
    "keeps (allocated h (xs @ x # y # zs) - {(x, y)}) h h1" "keeps {(x, y2)} h h1"
    "used_bytes (hview h1) (xs @ x # y2 # y # zs) + (if used (hview h x) = 0 then 0 else y - x)
       = used_bytes (hview h) (xs @ x # y # zs) + (y2 - x)"
proof -
  let ?os = "xs @ x # y # zs"
  note D = heap_structD [OF S]
  note s = links_sorted [OF D(1)]
  have ne: "x \<notin> set (xs @ y # zs)" using s by (auto simp: sorted_wrt_append)
  have ny: "y \<notin> set (xs @ zs)" using s by (auto simp: sorted_wrt_append)
  have n2: "y2 \<notin> set ?os"
  proof
    assume "y2 \<in> set ?os"
    then have "y2 \<le> x \<or> y \<le> y2" by (intro block_header [OF D(1)]) (simp_all add: blocks_at)
    then show False using y by auto
  qed
  have V: "hview h1 w = split_view h x y2 y w" if "w = y2 \<or> w \<in> set ?os" for w
    using M b that by (auto simp: split_mem_def)
  have l: "link (hview h) (hsize h) x y" by (rule links_at [OF D(1)])
  show "links (hview h1) (hsize h) (xs @ x # y2 # y # zs)"
  proof (rule links_divide [OF D(1) y])
    show "magic (hview h1 y2) = HEAP_MAGIC" "used (hview h1 y2) \<le> 1" "nxt (hview h1 y2) = y" "prv (hview h1 y2) = x"
      using V [of y2] by (simp_all add: split_view_def)
    show "magic (hview h1 x) = HEAP_MAGIC" "used (hview h1 x) \<le> 1" "nxt (hview h1 x) = y2" "prv (hview h1 x) = prv (hview h x)"
      using V [of x] y(1) l by (simp_all add: split_view_def link_def)
    show "y \<noteq> hsize h \<longrightarrow> hview h1 y = hview h y\<lparr>prv := y2\<rparr>" "y = hsize h \<longrightarrow> hview h1 y = hview h y"
      using V [of y] y ne by (auto simp: split_view_def)
    show "hview h1 w = hview h w" if "w \<in> set xs \<union> set zs" for w
      using V [of w] that ne ny n2 by (auto simp: split_view_def)
  qed
  show u: "used (hview h1 w) = used (hview h w)" if "w \<in> set (xs @ y # zs)" for w
    using V [of w] that ne n2 by (auto simp: split_view_def)
  show ux: "used (hview h1 x) = 1" "used (hview h1 y2) = 0" using V [of x] V [of y2] y by (simp_all add: split_view_def)
  have uR: "used (hview h1 p) = used (hview h p)" if "(p, q) \<in> set (blocks (xs @ [x])) \<union> set (blocks (y # zs))" for p q
    using that blocks_fst [of p q xs x] blocks_mem [of p q "y # zs"] u by auto
  have "allocated h1 (xs @ x # y2 # y # zs) =
      insert (x, y2) {(p, q) \<in> set (blocks (xs @ [x])) \<union> set (blocks (y # zs)). used (hview h1 p) \<noteq> 0}"
    using ux blocks_at [of xs x y2 "y # zs"] by (auto simp: allocated_def)
  moreover have "{(p, q) \<in> set (blocks (xs @ [x])) \<union> set (blocks (y # zs)). used (hview h1 p) \<noteq> 0} =
      {(p, q) \<in> set (blocks (xs @ [x])) \<union> set (blocks (y # zs)). used (hview h p) \<noteq> 0}" (is "?A = ?B")
  proof -
    have "(p, q) \<in> ?A \<longleftrightarrow> (p, q) \<in> ?B" for p q using uR [of p q] by auto
    then show ?thesis by auto
  qed
  ultimately show "allocated h1 (xs @ x # y2 # y # zs) = insert (x, y2) (allocated h ?os - {(x, y)})"
    unfolding allocated_at [OF s] by simp
  have pay: "mem h1 q = mem h q" if "(s, t) \<in> set (blocks ?os)" "(s, t) \<noteq> (x, y)" "heap_ptr h + s + 24 \<le> q" "q < heap_ptr h + t" for s t q
  proof -
    have "s \<noteq> x" using that(1,2) blocks_unique [OF s] by auto
    moreover have "x \<le> s \<or> t \<le> x" "y \<le> s \<or> t \<le> y" "s \<in> set ?os" "t \<in> set ?os"
      using block_header [OF D(1) that(1)] blocks_mem [OF that(1)] by auto
    moreover have "s \<le> x \<or> y \<le> s" by (rule block_header [OF D(1) _ \<open>s \<in> set ?os\<close>]) (simp add: blocks_at)
    ultimately have "q < heap_ptr h + x \<or> heap_ptr h + x + 24 \<le> q" "q < heap_ptr h + y2 \<or> heap_ptr h + y2 + 24 \<le> q"
      "q < heap_ptr h + y \<or> heap_ptr h + y + 24 \<le> q" using y that(3,4) by linarith+
    then show ?thesis using M by (simp add: split_mem_def)
  qed
  show "keeps (allocated h ?os - {(x, y)}) h h1"
    unfolding keeps_def
  proof (intro conjI ballI)
    fix p assume "p \<in> allocated h ?os - {(x, y)}"
    then show "case p of (x, y) \<Rightarrow> \<forall>q. heap_ptr h + x + 24 \<le> q \<and> q < heap_ptr h + y \<longrightarrow> mem h1 q = mem h q"
      using pay [of "fst p" "snd p"] by (cases p) (simp add: allocated_def)
  qed (simp_all add: b)
  show "keeps {(x, y2)} h h1" unfolding keeps_def using b y M by (auto simp: split_mem_def)
  have "used_bytes (hview h1) (xs @ [x]) = used_bytes (hview h) (xs @ [x])"
    by (rule used_bytes_cong) (simp add: u)
  moreover have "used_bytes (hview h1) (y # zs) = used_bytes (hview h) (y # zs)"
    by (rule used_bytes_cong, rule u, drule in_set_butlastD) auto
  ultimately show "used_bytes (hview h1) (xs @ x # y2 # y # zs) + (if used (hview h x) = 0 then 0 else y - x)
       = used_bytes (hview h) (xs @ x # y # zs) + (y2 - x)"
    using ux y used_bytes_at [of "hview h" xs x y zs] used_bytes_at [of "hview h1" xs x y2 "y # zs"]
    by (simp add: used_bytes_def)
qed

subsection \<open>Allocating\<close>

lemma malloc_find_eq:
  assumes "heap_struct (xs @ x # ys) h" "sz \<le> mem_size_aligned h"
  shows "malloc_find h sz x = Some (first_fit (hview h) sz (mem_size_aligned h - sz) (x # ys))"
  using assms(1)
proof (induction ys arbitrary: xs x)
  case Nil
  then have "x = hsize h" by (simp add: heap_struct_def links_def)
  then have "\<not> x < mem_size_aligned h - sz" by simp
  moreover have "mem_size_aligned h < 2 ^ 64" using heap_structD(4) [OF Nil] by simp
  ultimately show ?case using assms(2) by (subst malloc_find.simps) simp
next
  case (Cons y zs)
  note D = heap_structD [OF Cons.prems]
  have IH: "malloc_find h sz y = Some (first_fit (hview h) sz (mem_size_aligned h - sz) (y # zs))"
    using Cons.IH [of "xs @ [x]" y] Cons.prems by simp
  have at: "nxt (hview h x) = y" "x + 24 \<le> y" by (rule links_at [OF D(1)])+
  have "y < 2 ^ 64" using links_le_end [OF D(1), of y] D(4) by auto
  then have "add64 x 24 = x + 24" "sub64 y (x + 24) = y - (x + 24)" using at(2) by auto
  moreover have "sz \<le> y - (x + 24) \<longleftrightarrow> x + 24 + sz \<le> y" using at(2) by auto
  ultimately show ?case using assms(2) D(4) IH at(1) by (subst malloc_find.simps) (simp add: Let_def)
qed

lemma lfree_advance_eq:
  assumes "links (hview h) (hsize h) (xs @ x # ys)" "heap_end h = heap_ptr h + hsize h"
  shows "lfree_advance h (heap_ptr h + x) = Some (heap_ptr h + lowest (hview h) (x # ys))"
  using assms(1)
proof (induction ys arbitrary: xs x)
  case Nil
  then have "x = hsize h" by (simp add: links_def)
  then show ?case using assms(2) by (subst lfree_advance.simps) (simp add: lowest_Cons)
next
  case (Cons y zs)
  have "lfree_advance h (heap_ptr h + y) = Some (heap_ptr h + lowest (hview h) (y # zs))"
    using Cons.IH [of "xs @ [x]" y] Cons.prems by simp
  moreover have "nxt (hview h x) = y" "x \<noteq> hsize h" by (rule links_at [OF Cons.prems])+
  ultimately show ?case using assms(2) by (subst lfree_advance.simps) (simp add: lowest_Cons)
qed

lemma lowest_before:
  assumes "lowest V (xs @ x # ys) \<noteq> x" "used (V x) = 0" "\<And>w. w \<in> set xs \<Longrightarrow> used (V' w) = used (V w)"
  shows "lowest V' (xs @ zs) = lowest V (xs @ x # ys)"
proof -
  obtain w where "w \<in> set xs" "used (V w) = 0"
    using assms(1,2) lowest_append [of xs V x ys] by (cases ys) (auto simp: lowest_Cons)
  then obtain as bs where xs: "xs = as @ w # bs" by (meson split_list)
  then have "lowest V' (xs @ zs) = lowest V' (as @ [w])" "lowest V (xs @ x # ys) = lowest V (as @ [w])"
    using lowest_at_free [of V' w as "bs @ zs"] lowest_at_free [of V w as "bs @ x # ys"] assms(3) \<open>used (V w) = 0\<close> by simp_all
  moreover have "lowest V' (as @ [w]) = lowest V (as @ [w])" using assms(3) xs by (intro lowest_cong) auto
  ultimately show ?thesis by simp
qed

text \<open>The block is taken; the lowest free block is still to be found.\<close>

definition taken :: "nat list \<Rightarrow> nat \<Rightarrow> nat \<Rightarrow> nat list \<Rightarrow> rt_heap \<Rightarrow> rt_heap \<Rightarrow> bool" where
  "taken xs x y zs h h1 \<longleftrightarrow> heap_struct (xs @ x # y # zs) (h1\<lparr>lfree := heap_ptr h + lowest (hview h1) (xs @ x # y # zs)\<rparr>) \<and>
     coalesced (hview h1) (xs @ x # y # zs) \<and> (\<forall>w \<in> set xs. used (hview h1 w) = used (hview h w)) \<and>
     lfree h1 = lfree h \<and> used (hview h1 x) = 1"

lemma finish_malloc:
  assumes R: "heap_rep (xs @ x # ys) h" "used (hview h x) = 0" and T: "taken xs x y zs h h1" "heap_ptr h1 = heap_ptr h"
  obtains h2 where "(if heap_ptr h + x = lfree h1
       then do { lf \<leftarrow> lfree_advance h1 (lfree h1);
                 RT_ASSERT (lf = heap_end h1 \<or> used (hdr (mem h1) lf) = 0);
                 Some (h1\<lparr>lfree := lf\<rparr>) }
       else Some h1) = Some h2" "heap_rep (xs @ x # y # zs) h2" "mem h2 = mem h1" "heap_ptr h2 = heap_ptr h1"
     "mem_size_aligned h2 = mem_size_aligned h1"
proof -
  let ?os = "xs @ x # y # zs" and ?l = "heap_ptr h + lowest (hview h1) (xs @ x # y # zs)"
  let ?h2 = "h1\<lparr>lfree := ?l\<rparr>"
  note D = heap_structD [OF heap_repD(1) [OF R(1)]]
  have S: "heap_struct ?os ?h2" "coalesced (hview h1) ?os" "lfree h1 = lfree h" using T by (simp_all add: taken_def)
  note D2 = heap_structD [OF S(1)]
  have l1: "links (hview h1) (hsize h1) ?os" "heap_end h1 = heap_ptr h1 + hsize h1" using D2(1,2) by simp_all
  have rep: "heap_rep ?os ?h2" using S by (simp add: heap_rep_def)
  show thesis
  proof (cases "heap_ptr h + x = lfree h1")
    case True
    then have lx: "lowest (hview h) (xs @ x # ys) = x" using D(5) S(3) by simp
    have "used (hview h w) \<noteq> 0" if "w \<in> set xs" for w
    proof -
      have "gap w x" using links_sorted [OF D(1)] that by (auto simp: sorted_wrt_append)
      then show ?thesis using lowest_least [OF links_sorted [OF D(1)], of w "hview h"] that lx by auto
    qed
    then have "lowest (hview h1) ?os = lowest (hview h1) (x # y # zs)"
      using T by (intro lowest_append) (simp add: taken_def)
    then have adv: "lfree_advance h1 (heap_ptr h + x) = Some ?l"
      using lfree_advance_eq [OF l1] T(2) by simp
    have "lowest (hview h1) ?os = hsize h1 \<or> used (hview h1 (lowest (hview h1) ?os)) = 0"
    proof -
      obtain as bs where "?os = as @ lowest (hview h1) ?os # bs" "used (hview h1 (lowest (hview h1) ?os)) = 0 \<or> bs = []"
        by (rule lowest_split [of ?os "hview h1"]) auto
      moreover have "last ?os = hsize h1" using l1 by (simp add: links_def)
      ultimately show ?thesis by (metis last_snoc)
    qed
    then show thesis using that [of ?h2] True adv rep l1(2) T(2) by simp
  next
    case False
    then have "lowest (hview h) (xs @ x # ys) \<noteq> x" using D(5) S(3) by simp
    then have "lowest (hview h1) ?os = lowest (hview h) (xs @ x # ys)"
      using T R(2) by (intro lowest_before) (auto simp: taken_def)
    then have "?h2 = h1" using D(5) S(3) by simp
    then show thesis using that [of h1] False rep by simp
  qed
qed

lemma take_whole:
  assumes R: "heap_rep (xs @ x # y # zs) h" and u: "used (hview h x) = 0" and x: "x + SIZEOF_STRUCT_MEM + sz \<le> y"
    and small: "y < x + SIZEOF_STRUCT_MEM + sz + 48"
  shows "taken xs x y zs h (malloc_take sz x h) \<and>
    allocated (malloc_take sz x h) (xs @ x # y # zs) = insert (x, y) (allocated h (xs @ x # y # zs)) \<and>
    keeps (allocated h (xs @ x # y # zs)) h (malloc_take sz x h)"
proof -
  let ?os = "xs @ x # y # zs"
  let ?m = "put_magic (heap_ptr h + x) HEAP_MAGIC (put_used (heap_ptr h + x) 1 (mem h))"
  define h1 where "h1 = malloc_take sz x h"
  note D = heap_structD [OF heap_repD(1) [OF R]]
  note s = links_sorted [OF D(1)]
  have at: "nxt (hview h x) = y" "x \<noteq> hsize h" by (rule links_at [OF D(1)])+
  have le: "y < 2 ^ 64" "y \<le> hsize h" using links_le_end [OF D(1), of y] D(4) by auto
  have n: "sub64 y (add64 x 24) = y - (x + 24)" "sub64 y x = y - x" "add64 (add64 sz 24) 24 = sz + 48"
    using le x D(4) by (auto intro!: sub64)
  have "\<not> y - (x + 24) \<ge> sz + 48" using small x by simp
  then have h1: "h1 = (count_used (y - x) (h\<lparr>mem := put_used (heap_ptr h + x) 1 (mem h)\<rparr>))\<lparr>mem := ?m\<rparr>"
    using at(1) n by (simp add: h1_def malloc_take_def Let_def count_used_def)
  have b: "heap_ptr h1 = heap_ptr h" "mem_size_aligned h1 = mem_size_aligned h" "heap_end h1 = heap_end h"
    "mem h1 = ?m" "lfree h1 = lfree h" by (simp_all add: h1 count_used_def Let_def)
  have V: "hview h1 w = (if w = x then hview h x\<lparr>magic := HEAP_MAGIC, used := 1\<rparr> else hview h w)" if "w \<in> set ?os" for w
    using put_flag_view [OF D(1), of x w 1] that by (simp add: b)
  have l: "links (hview h1) (hsize h) ?os" by (rule links_flag [OF D(1) _ at(2) V]) simp_all
  have ne: "x \<notin> set (xs @ y # zs)" using s by (auto simp: sorted_wrt_append)
  have V': "used (hview h1 w) = used (hview h w)" if "w \<in> set (xs @ y # zs)" for w using V [of w] that ne by auto
  have V1: "used (hview h1 x) = 1" using V [of x] by simp
  have ub: "used_bytes (hview h1) ?os = used_bytes (hview h) ?os + (y - x)"
  proof -
    have "used_bytes (hview h1) (xs @ [x]) = used_bytes (hview h) (xs @ [x])"
      by (rule used_bytes_cong) (simp add: V')
    moreover have "used_bytes (hview h1) (y # zs) = used_bytes (hview h) (y # zs)"
      by (rule used_bytes_cong, rule V', drule in_set_butlastD) auto
    ultimately show ?thesis
      using u V1 used_bytes_at [of "hview h" xs x y zs] used_bytes_at [of "hview h1" xs x y zs] by simp
  qed
  have "used_bytes (hview h1) ?os \<le> hsize h" using used_bytes_le [OF s, of "hview h1"] D(1) by (simp add: links_def)
  then have "used_mem h1 = used_bytes (hview h1) ?os" "used_mem h1 \<le> max_mem h1"
    using D(4,6) ub by (simp_all add: h1 count_used_def Let_def)
  then have "heap_struct ?os (h1\<lparr>lfree := heap_ptr h + lowest (hview h1) ?os\<rparr>)"
    unfolding heap_struct_def using l D(2-4) by (simp add: b)
  moreover have "coalesced (hview h1) ?os"
    by (rule coalesced_used [OF _ heap_repD(2) [OF R]]) (use V in auto)
  ultimately have "taken xs x y zs h h1" using V' V1 b unfolding taken_def by simp
  moreover have "allocated h1 ?os = insert (x, y) (allocated h ?os)"
    using allocated_flip [OF s, of h1 h] V' V1 by simp
  moreover have "keeps (allocated h ?os) h h1"
    unfolding keeps_def
  proof (intro conjI ballI)
    fix p assume p: "p \<in> allocated h ?os"
    obtain s t where st: "p = (s, t)" by fastforce
    then have B: "(s, t) \<in> set (blocks ?os)" using p by (auto simp: allocated_def)
    then have "x \<le> s \<or> t \<le> x" using block_header [OF D(1) B] by auto
    then show "case p of (x, y) \<Rightarrow> \<forall>q. heap_ptr h + x + 24 \<le> q \<and> q < heap_ptr h + y \<longrightarrow> mem h1 q = mem h q"
      unfolding st by (auto simp: b put_outside)
  qed (simp_all add: b)
  ultimately show ?thesis unfolding h1_def [symmetric] by blast
qed

lemma split_mem_magic:
  assumes S: "heap_struct (xs @ x # y # zs) h" and y: "gap x y2" "gap y2 y"
    and M: "split_mem (xs @ x # y # zs) x y2 y h m"
  shows "split_mem (xs @ x # y # zs) x y2 y h (put_magic (heap_ptr h + x) HEAP_MAGIC m)"
proof -
  let ?os = "xs @ x # y # zs"
  note D = heap_structD [OF S]
  have "hdr (put_magic (heap_ptr h + x) HEAP_MAGIC m) (heap_ptr h + w) = split_view h x y2 y w"
    if "w = y2 \<or> w \<in> set ?os" for w
  proof (cases "w = x")
    case True
    have "magic (hview h x) = HEAP_MAGIC" using links_at(1) [OF D(1)] by (simp add: link_def)
    then have "magic (split_view h x y2 y x) = HEAP_MAGIC" using y by (simp add: split_view_def)
    moreover have "hdr m (heap_ptr h + x) = split_view h x y2 y x" using M by (simp add: split_mem_def)
    ultimately show ?thesis using True by simp
  next
    case False
    then have "apart x w" using links_apart [OF D(1), of x w] that y by auto
    then show ?thesis using M that by (auto simp: split_mem_def hdr_put_apart)
  qed
  moreover have "put_magic (heap_ptr h + x) HEAP_MAGIC m q = mem h q"
    if "\<forall>w \<in> {x, y2, y}. q < heap_ptr h + w \<or> heap_ptr h + w + 24 \<le> q" for q
    using M that by (simp add: split_mem_def put_outside)
  ultimately show ?thesis unfolding split_mem_def by blast
qed

lemma take_split:
  assumes R: "heap_rep (xs @ x # y # zs) h" and u: "used (hview h x) = 0"
    and big: "x + SIZEOF_STRUCT_MEM + sz + 48 \<le> y" and sz: "8 dvd sz"
  defines "y2 \<equiv> x + SIZEOF_STRUCT_MEM + sz"
  shows "taken xs x y2 (y # zs) h (malloc_take sz x h) \<and>
    allocated (malloc_take sz x h) (xs @ x # y2 # y # zs) = insert (x, y2) (allocated h (xs @ x # y # zs)) \<and>
    keeps (allocated h (xs @ x # y # zs)) h (malloc_take sz x h)"
proof -
  let ?os = "xs @ x # y # zs" and ?os' = "xs @ x # y2 # y # zs" and ?a = "heap_ptr h + x"
  define h1 where "h1 = malloc_take sz x h"
  note S = heap_repD(1) [OF R]
  note D = heap_structD [OF S]
  note s = links_sorted [OF D(1)]
  have at: "nxt (hview h x) = y" by (rule links_at [OF D(1)])
  have le: "y < 2 ^ 64" "y \<le> hsize h" "8 dvd x" using links_le_end [OF D(1), of y] D(4) links_dvd [OF D(1), of x] by auto
  have g: "gap x y2" "gap y2 y" "8 dvd y2" using big sz le(3) by (auto simp: y2_def intro!: dvd_add)
  have n: "sub64 y (add64 x 24) = y - (x + 24)" "add64 (add64 x 24) sz = y2" "add64 (add64 sz 24) 24 = sz + 48"
    "add64 sz 24 = y2 - x" using le big D(4) by (auto simp: y2_def)
  have "y - (x + 24) \<ge> sz + 48" using big by simp
  then have h1: "h1 = (count_used (y2 - x) (h\<lparr>mem := relink_next y2 h (put_used ?a 1 (put_next ?a y2 (split_block x y2 h)))\<rparr>))
      \<lparr>mem := put_magic ?a HEAP_MAGIC (relink_next y2 h (put_used ?a 1 (put_next ?a y2 (split_block x y2 h))))\<rparr>"
    using at n by (simp add: h1_def malloc_take_def Let_def count_used_def)
  have b: "heap_ptr h1 = heap_ptr h" "mem_size_aligned h1 = mem_size_aligned h" "heap_end h1 = heap_end h"
    "mem h1 = put_magic ?a HEAP_MAGIC (relink_next y2 h (put_used ?a 1 (put_next ?a y2 (split_block x y2 h))))"
    "lfree h1 = lfree h" by (simp_all add: h1 count_used_def Let_def)
  have "split_mem ?os x y2 y h (relink_next y2 h (put_used ?a 1 (put_next ?a y2 (split_block x y2 h))))"
    by (rule split_memI [OF S g(1,2)])
      (use split_block_mem [OF S g(1,2)] g in \<open>auto simp: hdr_put_apart put_outside\<close>)
  then have M: "split_mem ?os x y2 y h (mem h1)" unfolding b by (rule split_mem_magic [OF S g(1,2)])
  note P = split_struct [OF S g M b(1,2)]
  have ub: "used_bytes (hview h1) ?os' = used_bytes (hview h) ?os + (y2 - x)" using P(8) u by simp
  have s': "sorted_wrt gap ?os'" by (rule links_sorted [OF P(1)])
  have "used_bytes (hview h1) ?os' \<le> hsize h" using used_bytes_le [OF s', of "hview h1"] P(1) by (simp add: links_def)
  then have "used_mem h1 = used_bytes (hview h1) ?os'" "used_mem h1 \<le> max_mem h1"
    using D(4,6) ub by (simp_all add: h1 count_used_def Let_def)
  then have "heap_struct ?os' (h1\<lparr>lfree := heap_ptr h + lowest (hview h1) ?os'\<rparr>)"
    unfolding heap_struct_def using P(1) D(2-4) by (simp add: b(1-3))
  moreover have "coalesced (hview h1) ?os'"
  proof -
    have c: "coalesced (hview h) (xs @ [x])" "coalesced (hview h) (y # zs)" "used (hview h y) \<noteq> 0"
      using heap_repD(2) [OF R] u coalesced_append [of "hview h" xs x "y # zs"] by auto
    have "coalesced (hview h1) (xs @ [x])" by (rule coalesced_used [OF _ c(1)]) (use P(2,3) in auto)
    moreover have "coalesced (hview h1) (y # zs)" by (rule coalesced_used [OF _ c(2)]) (use P(2) in auto)
    ultimately show ?thesis
      using P(2-4) c(3) coalesced_append [of "hview h1" xs x "y2 # y # zs"] by simp
  qed
  ultimately have "taken xs x y2 (y # zs) h h1" using P(2,3) b(5) unfolding taken_def by simp
  moreover have "(x, y) \<notin> allocated h ?os" using u by (simp add: allocated_def)
  ultimately show ?thesis using P(5,6) unfolding h1_def [symmetric] by simp
qed

lemma malloc_locked_ok:
  assumes R: "heap_rep os h" and sz: "sz \<le> mem_size_aligned h" "8 dvd sz"
  shows "case first_fit (hview h) sz (mem_size_aligned h - sz) os of
      None \<Rightarrow> malloc_locked sz h = Some (None, h)
    | Some x \<Rightarrow> \<exists>y h' os'. malloc_locked sz h = Some (Some (heap_ptr h + x), h') \<and> heap_rep os' h' \<and>
        (\<forall>z. (x, z) \<notin> allocated h os) \<and> allocated h' os' = insert (x, y) (allocated h os) \<and>
        x + SIZEOF_STRUCT_MEM + sz \<le> y \<and> y < x + SIZEOF_STRUCT_MEM + sz + 48 \<and> keeps (allocated h os) h h'"
proof -
  note S = heap_repD(1) [OF R]
  note D = heap_structD [OF S]
  note s = links_sorted [OF D(1)]
  have ne: "os \<noteq> []" using D(1) by (simp add: links_def)
  define l where "l = lowest (hview h) os"
  obtain as bs where o: "os = as @ lowest (hview h) os # bs" and as: "\<forall>x \<in> set as. used (hview h x) \<noteq> 0"
    by (rule lowest_split [of os "hview h", OF ne])
  have os: "os = as @ l # bs" unfolding l_def by (fact o)
  have ll: "sub64 (lfree h) (heap_ptr h) = l"
    using D(4,5) links_le_end [OF D(1), of l] lowest_in [OF ne, of "hview h"] by (simp add: l_def)
  have "malloc_find h sz l = Some (first_fit (hview h) sz (mem_size_aligned h - sz) (l # bs))"
    using malloc_find_eq [of as l bs h sz] S sz(1) unfolding os by simp
  then have find: "malloc_find h sz (sub64 (lfree h) (heap_ptr h)) = Some (first_fit (hview h) sz (mem_size_aligned h - sz) os)"
    using first_fit_skip [OF as, of l bs sz] s unfolding ll os by simp
  show ?thesis
  proof (cases "first_fit (hview h) sz (mem_size_aligned h - sz) os")
    case None
    then show ?thesis using find by (simp add: malloc_locked_def)
  next
    case (Some x)
    obtain xs y zs where x: "os = xs @ x # y # zs" "used (hview h x) = 0" "x + 24 + sz \<le> y"
      by (rule first_fit_Some [OF Some])
    let ?h1 = "malloc_take sz x h"
    have "\<exists>y' zs'. taken xs x y' zs' h ?h1 \<and> allocated ?h1 (xs @ x # y' # zs') = insert (x, y') (allocated h os) \<and>
        keeps (allocated h os) h ?h1 \<and> x + 24 + sz \<le> y' \<and> y' < x + 24 + sz + 48"
    proof (cases "x + 24 + sz + 48 \<le> y")
      case True
      then show ?thesis using take_split [OF R [unfolded x(1)] x(2) True sz(2)] unfolding x(1)
        by (intro exI [of _ "x + 24 + sz"] exI [of _ "y # zs"]) simp
    next
      case False
      then have "y < x + 24 + sz + 48" by simp
      then show ?thesis using take_whole [OF R [unfolded x(1)] x(2,3)] x(3) unfolding x(1)
        by (intro exI [of _ y] exI [of _ zs]) simp
    qed
    then obtain y' zs' where T: "taken xs x y' zs' h ?h1" "allocated ?h1 (xs @ x # y' # zs') = insert (x, y') (allocated h os)"
      "keeps (allocated h os) h ?h1" "x + 24 + sz \<le> y'" "y' < x + 24 + sz + 48" by blast
    have b: "heap_ptr ?h1 = heap_ptr h" using T(3) by (simp add: keeps_def)
    obtain h2 where h2: "(if heap_ptr h + x = lfree ?h1
       then do { lf \<leftarrow> lfree_advance ?h1 (lfree ?h1);
                 RT_ASSERT (lf = heap_end ?h1 \<or> used (hdr (mem ?h1) lf) = 0);
                 Some (?h1\<lparr>lfree := lf\<rparr>) }
       else Some ?h1) = Some h2" "heap_rep (xs @ x # y' # zs') h2" "mem h2 = mem ?h1" "heap_ptr h2 = heap_ptr ?h1"
       "mem_size_aligned h2 = mem_size_aligned ?h1"
      by (rule finish_malloc [OF R [unfolded x(1)] x(2) T(1) b])
    have "malloc_locked sz h = Some (Some (heap_ptr h + x), h2)"
      using find Some h2(1) by (simp add: malloc_locked_def Let_def)
    moreover have "allocated h2 (xs @ x # y' # zs') = insert (x, y') (allocated h os)"
      using T(2) h2(3,4) by (simp add: allocated_def)
    moreover have "keeps (allocated h os) h h2" using T(3) h2(3-5) by (simp add: keeps_def)
    moreover have "\<forall>z. (x, z) \<notin> allocated h os" using x(2) by (simp add: allocated_def)
    ultimately show ?thesis using Some h2(2) T(4,5) by auto
  qed
qed

subsection \<open>Shrinking a block\<close>

lemma lowest_insert_used: "used (V y2) \<noteq> 0 \<Longrightarrow> lowest V (xs @ x # y2 # y # zs) = lowest V (xs @ x # y # zs)"
  by (simp add: lowest_def split: list.splits)

lemma lowest_inserted_free:
  assumes s: "sorted_wrt gap (xs @ x # y2 # y # zs)" and u: "used (V' y2) = 0"
    and V': "\<And>w. w \<in> set (xs @ x # y # zs) \<Longrightarrow> used (V' w) = used (V w)"
  shows "lowest V' (xs @ x # y2 # y # zs) = (if y2 < lowest V (xs @ x # y # zs) then y2 else lowest V (xs @ x # y # zs))"
proof -
  let ?V = "V'(y2 := V' y2\<lparr>used := 1\<rparr>)"
  have n2: "y2 \<notin> set (xs @ x # y # zs)" using s by (auto simp: sorted_wrt_append)
  have "lowest V' ((xs @ [x]) @ y2 # y # zs) = (if y2 < lowest ?V ((xs @ [x]) @ y2 # y # zs) then y2
      else lowest ?V ((xs @ [x]) @ y2 # y # zs))"
    by (rule lowest_freed) (use s u n2 in auto)
  moreover have "lowest ?V (xs @ x # y2 # y # zs) = lowest ?V (xs @ x # y # zs)" by (rule lowest_insert_used) simp
  moreover have "lowest ?V (xs @ x # y # zs) = lowest V (xs @ x # y # zs)"
    using n2 V' by (intro lowest_cong) auto
  ultimately show ?thesis by simp
qed

lemma shrink_ok:
  assumes R: "heap_rep os h" and A: "(x, y) \<in> allocated h os" and new: "x + SIZEOF_STRUCT_MEM + newsize + 48 < y" "8 dvd newsize"
  defines "y2 \<equiv> x + SIZEOF_STRUCT_MEM + newsize"
  obtains h' os' where
    "plug_holes (heap_ptr h + y2)
       (h\<lparr>used_mem := used_mem h - (y - y2),
         mem := relink_next y2 h (put_next (heap_ptr h + x) y2 (split_block x y2 h)),
         lfree := (if heap_ptr h + y2 < lfree h then heap_ptr h + y2 else lfree h)\<rparr>) = Some h'"
    "heap_rep os' h'" "allocated h' os' = insert (x, y2) (allocated h os - {(x, y)})"
    "keeps (insert (x, y2) (allocated h os - {(x, y)})) h h'"
proof -
  note S0 = heap_repD(1) [OF R]
  obtain xs zs where os: "os = xs @ x # y # zs" "used (hview h x) = 1" "magic (hview h x) = HEAP_MAGIC"
    "nxt (hview h x) = y" "x + SIZEOF_STRUCT_MEM \<le> y" "x < hsize h" "y \<le> hsize h"
    by (rule allocatedD [OF S0 A])
  let ?os' = "xs @ x # y2 # y # zs" and ?a = "heap_ptr h + x"
  note S = S0 [unfolded os(1)]
  note D = heap_structD [OF S]
  define h1 where "h1 = h\<lparr>used_mem := used_mem h - (y - y2), mem := relink_next y2 h (put_next ?a y2 (split_block x y2 h)),
      lfree := (if heap_ptr h + y2 < lfree h then heap_ptr h + y2 else lfree h)\<rparr>"
  have b: "heap_ptr h1 = heap_ptr h" "mem_size_aligned h1 = mem_size_aligned h" "heap_end h1 = heap_end h"
    "mem h1 = relink_next y2 h (put_next ?a y2 (split_block x y2 h))" "max_mem h1 = max_mem h"
    "used_mem h1 = used_mem h - (y - y2)" "lfree h1 = (if heap_ptr h + y2 < lfree h then heap_ptr h + y2 else lfree h)"
    by (simp_all add: h1_def)
  have g: "gap x y2" "gap y2 y" "8 dvd y2" using new links_dvd [OF D(1), of x] by (auto simp: y2_def intro!: dvd_add)
  have "hview h x\<lparr>nxt := y2, used := 1\<rparr> = hview h x\<lparr>nxt := y2\<rparr>" using os(2) by simp
  then have M: "split_mem (xs @ x # y # zs) x y2 y h (mem h1)" unfolding b
    by (intro split_memI [OF S g(1,2)]) (use split_block_mem [OF S g(1,2)] in \<open>simp_all add: hview_less\<close>)
  note P = split_struct [OF S g M b(1,2)]
  have s': "sorted_wrt gap ?os'" by (rule links_sorted [OF P(1)])
  have u: "used (hview h1 w) = used (hview h w)" if "w \<in> set (xs @ x # y # zs)" for w
    using P(2) [of w] P(3) os(2) that by auto
  have lo: "lowest (hview h1) ?os' = (if y2 < lowest (hview h) os then y2 else lowest (hview h) os)"
    unfolding os(1) using lowest_inserted_free [of xs x y2 y zs "hview h1" "hview h"] s' P(4) u by simp
  have ub: "used_bytes (hview h1) ?os' = used_bytes (hview h) os - (y - y2)"
    using P(8) os(1,2) g by simp
  have S1: "heap_struct ?os' h1" unfolding heap_struct_def using P(1) D lo ub os(1) by (simp add: b(1-3,5-7))
  have c: "coalesced (hview h) (xs @ [x])" "coalesced (hview h) (y # zs)"
    using heap_repD(2) [OF R] coalesced_append [of "hview h" xs x "y # zs"] os(1) by auto
  have c1: "coalesced (hview h1) (y # zs)" by (rule coalesced_cong [OF _ c(2)]) (use u in auto)
  have c2: "coalesced (hview h1) (xs @ [x])" by (rule coalesced_cong [OF _ c(1)]) (use u in auto)
  obtain h' os' where Q: "plug_holes (heap_ptr h1 + y2) h1 = Some h'" "heap_rep os' h'"
    "allocated h' os' = allocated h1 ?os'" "keeps (allocated h1 ?os') h1 h'"
    by (rule plug_holes_ok [of "xs @ [x]" y2 y zs h1]) (use S1 P(4) c1 c2 in auto)
  have "keeps (insert (x, y2) (allocated h os - {(x, y)})) h h1"
    using P(6,7) os(1) by (simp add: keeps_def)
  then have "keeps (insert (x, y2) (allocated h os - {(x, y)})) h h'"
    using Q(4) P(5) os(1) by (auto intro: keeps_trans)
  then show thesis using that Q P(5) os(1) unfolding h1_def by simp
qed

lemma realloc_locked_ok:
  assumes R: "heap_rep os h" and A: "(x, y) \<in> allocated h os" "x + SIZEOF_STRUCT_MEM < y"
    and new: "newsize \<le> mem_size_aligned h" "8 dvd newsize"
  shows "if x + SIZEOF_STRUCT_MEM + newsize + 48 < y
     then \<exists>h' os'. realloc_locked (heap_ptr h + x + SIZEOF_STRUCT_MEM) newsize h = Some (Inl (), h') \<and> heap_rep os' h' \<and>
       allocated h' os' = insert (x, x + SIZEOF_STRUCT_MEM + newsize) (allocated h os - {(x, y)}) \<and>
       keeps (insert (x, x + SIZEOF_STRUCT_MEM + newsize) (allocated h os - {(x, y)})) h h'
     else realloc_locked (heap_ptr h + x + SIZEOF_STRUCT_MEM) newsize h =
       Some (if y = x + SIZEOF_STRUCT_MEM + newsize then Inl () else Inr (y - x - SIZEOF_STRUCT_MEM), h)"
proof -
  note S = heap_repD(1) [OF R]
  note D = heap_structD [OF S]
  obtain xs zs where os: "os = xs @ x # y # zs" "used (hview h x) = 1" "magic (hview h x) = HEAP_MAGIC"
    "nxt (hview h x) = y" "x + SIZEOF_STRUCT_MEM \<le> y" "x < hsize h" "y \<le> hsize h"
    by (rule allocatedD [OF S A(1)])
  let ?r = "heap_ptr h + x + 24" and ?y2 = "x + 24 + newsize"
  have r: "\<not> (?r < heap_ptr h \<or> ?r \<ge> heap_end h)" using A(2) os(7) D(2) by simp
  have n: "sub64 ?r 24 = heap_ptr h + x" "sub64 (heap_ptr h + x) (heap_ptr h) = x"
    "sub64 (sub64 y x) 24 = y - x - 24" "add64 (add64 newsize 24) 24 = newsize + 48"
    using os(5,7) D(4) new(1) by auto
  show ?thesis
  proof (cases "x + 24 + newsize + 48 < y")
    case True
    obtain h' os' where P: "plug_holes (heap_ptr h + ?y2)
       (h\<lparr>used_mem := used_mem h - (y - ?y2),
         mem := relink_next ?y2 h (put_next (heap_ptr h + x) ?y2 (split_block x ?y2 h)),
         lfree := (if heap_ptr h + ?y2 < lfree h then heap_ptr h + ?y2 else lfree h)\<rparr>) = Some h'"
      "heap_rep os' h'" "allocated h' os' = insert (x, ?y2) (allocated h os - {(x, y)})"
      "keeps (insert (x, ?y2) (allocated h os - {(x, y)})) h h'"
      by (rule shrink_ok [OF R A(1) True new(2)])
    have "y - x \<le> used_mem h" using D(6) os(1,2) used_bytes_at [of "hview h" xs x y zs] by simp
    then have "sub64 (used_mem h) (y - ?y2) = used_mem h - (y - ?y2)"
      using used_mem_bound [OF S] by (intro sub64) auto
    moreover have "sub64 (y - x - 24) newsize = y - ?y2" "add64 (add64 x 24) newsize = ?y2"
      using True os(7) D(4) by auto
    moreover have "y - x - 24 \<noteq> newsize" "newsize + 48 < y - x - 24" using True by auto
    ultimately have "realloc_locked ?r newsize h = Some (Inl (), h')"
      using r n os(4) P(1) by (simp add: realloc_locked_def Let_def)
    then show ?thesis using True P by auto
  next
    case False
    then have "\<not> newsize + 48 < y - x - 24" by auto
    moreover have "y - x - 24 = newsize \<longleftrightarrow> y = ?y2" using os(5) by auto
    ultimately have "realloc_locked ?r newsize h = Some (if y = ?y2 then Inl () else Inr (y - x - 24), h)"
      using r n os(4) by (simp add: realloc_locked_def Let_def)
    then show ?thesis using False by simp
  qed
qed

subsection \<open>Initialisation\<close>

lemma heap_init_ok:
  assumes "begin_addr < 2 ^ 64 - 8" "end_addr < 2 ^ 64" "used_mem h = 0" "max_mem h = 0"
  defines "lo \<equiv> (begin_addr + 7) div 8 * 8" and "hi \<equiv> end_addr div 8 * 8"
  shows "if 48 < hi \<and> lo + 48 \<le> hi
     then \<exists>h'. heap_init begin_addr end_addr h = (True, h') \<and> heap_rep [0, hi - lo - 24] h' \<and>
       allocated h' [0, hi - lo - 24] = {} \<and> heap_ptr h' = lo \<and> mem_size_aligned h' = hi - lo - 48
     else heap_init begin_addr end_addr h = (False, h)"
proof -
  have lo: "unat (RT_ALIGN (of_nat begin_addr) 8) = lo" 
    unfolding unat_RT_ALIGN lo_def using assms(1) by (simp add: minus_mod_eq_div_mult)
  have hi: "unat (RT_ALIGN_DOWN (of_nat end_addr) 8) = hi"
    using unat_and_not_7 [of "of_nat end_addr"] assms(2)
    by (simp add: RT_ALIGN_DOWN_def hi_def unat_of_nat take_bit_eq_mod minus_mod_eq_div_mult)
  show ?thesis
  proof (cases "48 < hi \<and> lo + 48 \<le> hi")
    case True
    define h' where "h' = snd (heap_init begin_addr end_addr h)"
    let ?E = "hi - lo - 24"
    have e: "hi - lo - 48 + 24 = ?E" "lo + ?E = hi - 24" using True by auto
    have "lo \<le> hi - 48" "lo + 24 \<le> hi - 24" using True by linarith+
    have "hi < 2 ^ 64" using assms(2) by (simp add: hi_def)
    have r: "heap_init begin_addr end_addr h = (True, h')"
      using True \<open>lo \<le> hi - 48\<close> by (simp add: h'_def heap_init_def lo hi Let_def)
    have b: "heap_ptr h' = lo" "mem_size_aligned h' = hi - lo - 48" "heap_end h' = lo + ?E" "lfree h' = lo"
      "used_mem h' = 0" "max_mem h' = 0"
      using True e assms(3,4) \<open>lo \<le> hi - 48\<close> by (simp_all add: h'_def heap_init_def lo hi Let_def)
    have m: "hview h' 0 = \<lparr>magic = HEAP_MAGIC, used = 0, nxt = ?E, prv = 0\<rparr>"
      "hview h' ?E = \<lparr>magic = HEAP_MAGIC, used = 1, nxt = ?E, prv = ?E\<rparr>"
      using True e \<open>hi < 2 ^ 64\<close> \<open>lo \<le> hi - 48\<close> \<open>lo + 24 \<le> hi - 24\<close> by (simp_all add: h'_def heap_init_def lo hi Let_def hdr_put_apart)
    have dv: "8 dvd lo" "8 dvd hi" by (simp_all add: lo_def hi_def)
    then have "8 dvd ?E" using True by (intro dvd_diff_nat) auto
    moreover have "24 \<le> ?E" using True by linarith
    ultimately have "links (hview h') ?E [0, ?E]" using m by (simp add: links_def link_def)
    then have "heap_rep [0, ?E] h'"
      using m b e dv True \<open>hi < 2 ^ 64\<close>
      by (simp add: heap_rep_def heap_struct_def lowest_Cons used_bytes_def)
    moreover have "allocated h' [0, ?E] = {}" using m(1) by (simp add: allocated_def cong: conj_cong)
    ultimately show ?thesis using True r b by auto
  next
    case False
    then show ?thesis by (auto simp: heap_init_def lo hi Let_def)
  qed
qed

end
