(* ===== verification/Heap_Contract.thy ===== *)
theory Heap_Contract
  imports Small_Mem Refinement
begin

text \<open>
  What the heap promises its clients. The abstract state of a heap is the contents of its
  allocated blocks: a map from the address a client holds to the bytes of its block. The critical
  sections of \<^verbatim>\<open>rt_malloc\<close>, \<^verbatim>\<open>rt_free\<close> and \<^verbatim>\<open>rt_realloc\<close>, and the writes of the clients to their own
  blocks, are shown to implement an abstract allocator on such maps.
\<close>

definition heap_ok :: "nat list \<Rightarrow> rt_heap \<Rightarrow> bool" where
  "heap_ok os h \<longleftrightarrow> heap_rep os h \<and> (\<forall>(x, y) \<in> allocated h os. x + SIZEOF_STRUCT_MEM + 8 \<le> y)"

lemma heap_okD: "heap_ok os h \<Longrightarrow> heap_rep os h" "heap_ok os h \<Longrightarrow> (x, y) \<in> allocated h os \<Longrightarrow> x + 32 \<le> y"
  by (auto simp: heap_ok_def)

subsection \<open>The block list of a heap\<close>

fun walk :: "nat \<Rightarrow> rt_heap \<Rightarrow> nat \<Rightarrow> nat list" where
  "walk 0 h x = [x]"
| "walk (Suc n) h x = (if x = hsize h then [x] else x # walk n h (nxt (hview h x)))"

definition offsets :: "rt_heap \<Rightarrow> nat list" where
  "offsets h = walk (hsize h) h 0"

lemma walk_links:
  "links (hview h) (hsize h) (xs @ x # ys) \<Longrightarrow> length ys \<le> n \<Longrightarrow> walk n h x = x # ys"
proof (induction ys arbitrary: n xs x)
  case Nil
  then have "x = hsize h" by (simp add: links_def)
  then show ?case by (cases n) simp_all
next
  case (Cons y ys)
  then obtain k where n: "n = Suc k" "length ys \<le> k" by (cases n) auto
  have "walk k h y = y # ys" using Cons.IH [of "xs @ [x]" y k] Cons.prems(1) n(2) by simp
  moreover have "x \<noteq> hsize h" "nxt (hview h x) = y" by (rule links_at [OF Cons.prems(1)])+
  ultimately show ?case using n(1) by simp
qed

lemma length_gap: "sorted_wrt gap (x # xs) \<Longrightarrow> x + length xs \<le> last (x # xs)"
proof (induction xs arbitrary: x)
  case (Cons y ys)
  then have "y + length ys \<le> last (y # ys)" "x + 24 \<le> y" by auto
  then show ?case by simp
qed simp

lemma offsets_eq:
  assumes "heap_struct os h"
  shows "offsets h = os"
proof -
  note D = heap_structD [OF assms]
  obtain ys where os: "os = 0 # ys" using D(1) by (cases os) (auto simp: links_def)
  have "length ys \<le> hsize h" using length_gap [of 0 ys] links_sorted [OF D(1)] D(1) os by (simp add: links_def)
  then show ?thesis using walk_links [of h "[]" 0 ys "hsize h"] D(1) os by (simp add: offsets_def)
qed

subsection \<open>Contents\<close>

definition contents :: "rt_heap \<Rightarrow> nat \<Rightarrow> u8 list option" where
  "contents h =
     map_of (map (\<lambda>(x, y). (heap_ptr h + x + SIZEOF_STRUCT_MEM,
                            map (mem h) [heap_ptr h + x + SIZEOF_STRUCT_MEM ..< heap_ptr h + y]))
              (filter (\<lambda>(x, y). used (hview h x) \<noteq> 0) (blocks (offsets h))))"

lemma map_fst_blocks: "map fst (blocks os) = butlast os"
  by (induction os rule: induct_list012) auto

lemma contents_iff:
  assumes "heap_rep os h"
  shows "contents h p = Some bs \<longleftrightarrow> (\<exists>x y. (x, y) \<in> allocated h os \<and> p = heap_ptr h + x + SIZEOF_STRUCT_MEM \<and>
     bs = map (mem h) [p ..< heap_ptr h + y])"
proof -
  let ?f = "\<lambda>(x, y). (heap_ptr h + x + 24, map (mem h) [heap_ptr h + x + 24 ..< heap_ptr h + y])"
  let ?bs = "filter (\<lambda>(x, y). used (hview h x) \<noteq> 0) (blocks os)"
  have c: "contents h = map_of (map ?f ?bs)"
    using offsets_eq [OF heap_repD(1) [OF assms]] by (simp add: contents_def)
  have "distinct os" using links_sorted [OF heap_structD(1) [OF heap_repD(1) [OF assms]]]
    by (induction os) auto
  then have "distinct (map fst (blocks os))" by (simp add: map_fst_blocks distinct_butlast)
  then have "distinct (map fst ?bs)" by (rule distinct_map_filter)
  moreover have "map fst (map ?f ?bs) = map (\<lambda>x. heap_ptr h + x + 24) (map fst ?bs)" by auto
  ultimately have "distinct (map fst (map ?f ?bs))" by (auto simp: distinct_map inj_on_def)
  then show ?thesis unfolding c by (auto simp: map_of_eq_Some_iff allocated_def image_iff)
qed

lemma contents_frame:
  assumes R: "heap_rep os h" "heap_rep os' h'" and k: "keeps B h h'"
    and A: "\<And>y. (w, y) \<in> allocated h' os' \<longleftrightarrow> (w, y) \<in> allocated h os" "\<And>y. (w, y) \<in> allocated h os \<Longrightarrow> (w, y) \<in> B"
  shows "contents h' (heap_ptr h + w + SIZEOF_STRUCT_MEM) = contents h (heap_ptr h + w + SIZEOF_STRUCT_MEM)"
proof -
  have b: "heap_ptr h' = heap_ptr h" using k by (simp add: keeps_def)
  have "contents h' (heap_ptr h + w + 24) = Some bs \<longleftrightarrow> contents h (heap_ptr h + w + 24) = Some bs" for bs
  proof -
    have e: "map (mem h') [heap_ptr h + w + 24 ..< heap_ptr h + y] = map (mem h) [heap_ptr h + w + 24 ..< heap_ptr h + y]"
      if "(w, y) \<in> allocated h os" for y
      using k A(2) [OF that] by (auto simp: keeps_def)
    have "contents h' (heap_ptr h + w + 24) = Some bs \<longleftrightarrow>
        (\<exists>y. (w, y) \<in> allocated h os \<and> bs = map (mem h') [heap_ptr h + w + 24 ..< heap_ptr h + y])"
      using contents_iff [OF R(2), of "heap_ptr h + w + 24" bs] A(1) b by auto
    also have "\<dots> \<longleftrightarrow> (\<exists>y. (w, y) \<in> allocated h os \<and> bs = map (mem h) [heap_ptr h + w + 24 ..< heap_ptr h + y])"
      using e by metis
    also have "\<dots> \<longleftrightarrow> contents h (heap_ptr h + w + 24) = Some bs"
      using contents_iff [OF R(1), of "heap_ptr h + w + 24" bs] by auto
    finally show ?thesis .
  qed
  then show ?thesis by (metis option.exhaust)
qed

lemma contents_eqI:
  assumes R: "heap_rep os h" "heap_rep os' h'" and b: "heap_ptr h' = heap_ptr h"
    and w: "\<And>w. contents h' (heap_ptr h + w + SIZEOF_STRUCT_MEM) = m (heap_ptr h + w + SIZEOF_STRUCT_MEM)"
    and m: "\<And>q. q < heap_ptr h + SIZEOF_STRUCT_MEM \<Longrightarrow> m q = None"
  shows "contents h' = m"
proof
  fix q
  show "contents h' q = m q"
  proof (cases "q < heap_ptr h + 24")
    case True
    then have "contents h' q \<noteq> Some bs" for bs using contents_iff [OF R(2), of q bs] b by auto
    then show ?thesis using m [OF True] by (cases "contents h' q") auto
  next
    case False
    then show ?thesis using w [of "q - heap_ptr h - 24"] by simp
  qed
qed

lemma contents_low: "heap_rep os h \<Longrightarrow> q < heap_ptr h + SIZEOF_STRUCT_MEM \<Longrightarrow> contents h q = None"
  using contents_iff [of os h q] by (cases "contents h q") auto

text \<open>One block more, one block less, one block resized.\<close>

lemma contents_insert:
  assumes R: "heap_rep os h" "heap_rep os' h'" and k: "keeps (allocated h os) h h'"
    and A: "allocated h' os' = insert (x, y) (allocated h os)" "\<forall>z. (x, z) \<notin> allocated h os"
  defines "p \<equiv> heap_ptr h + x + SIZEOF_STRUCT_MEM"
  shows "contents h' = (contents h)(p \<mapsto> map (mem h') [p ..< heap_ptr h + y])"
proof (rule contents_eqI [OF R])
  show b: "heap_ptr h' = heap_ptr h" using k by (simp add: keeps_def)
  show "contents h' (heap_ptr h + w + 24) = ((contents h)(p \<mapsto> map (mem h') [p ..< heap_ptr h + y])) (heap_ptr h + w + 24)" for w
  proof (cases "w = x")
    case True
    then show ?thesis using contents_iff [OF R(2), of p] A(1) b by (auto simp: p_def)
  next
    case False
    then show ?thesis using contents_frame [OF R k, of w] A by (simp add: p_def)
  qed
qed (use contents_low [OF R(1)] in \<open>auto simp: p_def\<close>)

lemma contents_delete:
  assumes R: "heap_rep os h" "heap_rep os' h'" and k: "keeps (allocated h os - {(x, y)}) h h'"
    and A: "allocated h' os' = allocated h os - {(x, y)}" "(x, y) \<in> allocated h os"
  shows "contents h' = (contents h)(heap_ptr h + x + SIZEOF_STRUCT_MEM := None)"
proof (rule contents_eqI [OF R])
  show b: "heap_ptr h' = heap_ptr h" using k by (simp add: keeps_def)
  have u: "z = y" if "(x, z) \<in> allocated h os" for z
    using that A(2) by (metis allocatedD blocks_unique case_prodD allocated_def heap_repD(1) R(1) links_sorted heap_structD(1) mem_Collect_eq)
  show "contents h' (heap_ptr h + w + 24) = ((contents h)(heap_ptr h + x + 24 := None)) (heap_ptr h + w + 24)" for w
  proof (cases "w = x")
    case True
    have "contents h' (heap_ptr h + x + 24) \<noteq> Some bs" for bs
      using contents_iff [OF R(2), of "heap_ptr h + x + 24" bs] A(1) b u by auto
    then show ?thesis using True by (cases "contents h' (heap_ptr h + x + 24)") auto
  next
    case False
    then show ?thesis using contents_frame [OF R k, of w] A by auto
  qed
qed (use contents_low [OF R(1)] in auto)

lemma contents_resize:
  assumes R: "heap_rep os h" "heap_rep os' h'" and k: "keeps (insert (x, y2) (allocated h os - {(x, y)})) h h'"
    and A: "allocated h' os' = insert (x, y2) (allocated h os - {(x, y)})" "(x, y) \<in> allocated h os"
  defines "p \<equiv> heap_ptr h + x + SIZEOF_STRUCT_MEM"
  shows "contents h' = (contents h)(p \<mapsto> map (mem h) [p ..< heap_ptr h + y2])"
proof (rule contents_eqI [OF R])
  show b: "heap_ptr h' = heap_ptr h" using k by (simp add: keeps_def)
  have e: "map (mem h') [p ..< heap_ptr h + y2] = map (mem h) [p ..< heap_ptr h + y2]"
    using k by (auto simp: keeps_def p_def)
  show "contents h' (heap_ptr h + w + 24) = ((contents h)(p \<mapsto> map (mem h) [p ..< heap_ptr h + y2])) (heap_ptr h + w + 24)" for w
  proof (cases "w = x")
    case True
    have "contents h' p = Some (map (mem h') [p ..< heap_ptr h + y2])"
      using contents_iff [OF R(2), of p] A(1) b by (auto simp: p_def)
    then show ?thesis using True e by (simp add: p_def)
  next
    case False
    then show ?thesis using contents_frame [OF R k, of w] A by (auto simp: p_def)
  qed
qed (use contents_low [OF R(1)] in \<open>auto simp: p_def\<close>)

subsection \<open>Writes of the clients\<close>

text \<open>Bytes inside allocated blocks belong to the clients: the heap does not depend on them.\<close>

lemma client_write:
  assumes R: "heap_ok os h" and A: "(x, y) \<in> allocated h os"
    and w: "\<And>q. q < heap_ptr h + x + SIZEOF_STRUCT_MEM \<or> heap_ptr h + y \<le> q \<Longrightarrow> m q = mem h q"
  shows "heap_ok os (h\<lparr>mem := m\<rparr>) \<and> contents (h\<lparr>mem := m\<rparr>) =
     (contents h)(heap_ptr h + x + SIZEOF_STRUCT_MEM \<mapsto> map m [heap_ptr h + x + SIZEOF_STRUCT_MEM ..< heap_ptr h + y])"
proof -
  let ?h = "h\<lparr>mem := m\<rparr>" and ?p = "heap_ptr h + x + 24"
  note S = heap_repD(1) [OF heap_okD(1) [OF R]]
  note D = heap_structD [OF S]
  have V: "hview ?h w = hview h w" if "w \<in> set os" for w
  proof -
    have "w \<le> x \<or> y \<le> w" using block_header [OF D(1) _ that] A by (auto simp: allocated_def)
    then have "m q = mem h q" if "heap_ptr h + w \<le> q" "q < heap_ptr h + w + 24" for q using that by (intro w) auto
    then show ?thesis by (auto simp: hdr_def intro!: load_cong)
  qed
  have l: "links (hview ?h) (hsize h) os" by (rule links_cong [OF D(1) V])
  have "lowest (hview ?h) os = lowest (hview h) os" by (rule lowest_cong) (use V in simp)
  moreover have "used_bytes (hview ?h) os = used_bytes (hview h) os"
    by (rule used_bytes_cong, drule in_set_butlastD) (use V in simp)
  moreover have "coalesced (hview ?h) os" by (rule coalesced_cong [OF _ heap_repD(2) [OF heap_okD(1) [OF R]]]) (use V in simp)
  ultimately have rep: "heap_rep os ?h" using l D by (simp add: heap_rep_def heap_struct_def)
  have al: "allocated ?h os = allocated h os" by (rule allocated_cong) (use V in simp)
  have "contents ?h = (contents h)(?p \<mapsto> map m [?p ..< heap_ptr h + y])"
  proof (rule contents_eqI [OF heap_okD(1) [OF R] rep])
    have k: "keeps (allocated h os - {(x, y)}) h ?h"
      unfolding keeps_def
    proof (intro conjI ballI)
      fix r assume r: "r \<in> allocated h os - {(x, y)}"
      obtain s t where st: "r = (s, t)" by fastforce
      have B: "(s, t) \<in> set (blocks os)" "(x, y) \<in> set (blocks os)" using r st A by (auto simp: allocated_def)
      have "s \<le> x \<or> y \<le> s" "x \<le> s \<or> t \<le> x" "s = x \<longrightarrow> t = y"
        using block_header [OF D(1) B(2)] block_header [OF D(1) B(1)] blocks_mem [OF B(1)] blocks_mem [OF B(2)]
          blocksD [OF B(2)] blocks_unique links_sorted [OF D(1)] B(1) by metis+
      then show "case r of (x, y) \<Rightarrow> \<forall>q. heap_ptr h + x + 24 \<le> q \<and> q < heap_ptr h + y \<longrightarrow> mem ?h q = mem h q"
        using r st by (auto intro!: w)
    qed simp_all
    show "contents ?h (heap_ptr h + v + 24) = ((contents h)(?p \<mapsto> map m [?p ..< heap_ptr h + y])) (heap_ptr h + v + 24)" for v
    proof (cases "v = x")
      case True
      then show ?thesis using contents_iff [OF rep, of ?p] A al by auto
    next
      case False
      then show ?thesis using contents_frame [OF heap_okD(1) [OF R] rep k, of v] al by simp
    qed
  qed (use contents_low [OF heap_okD(1) [OF R]] in auto)
  then show ?thesis using rep R al by (simp add: heap_ok_def)
qed

subsection \<open>Blocks do not overlap\<close>

lemma allocated_disjoint:
  assumes R: "heap_rep os h" and A: "(x, y) \<in> allocated h os" "(s, t) \<in> allocated h os" "x \<noteq> s"
  shows "y \<le> s \<or> t \<le> x"
proof -
  note D = heap_structD [OF heap_repD(1) [OF R]]
  have B: "(x, y) \<in> set (blocks os)" "(s, t) \<in> set (blocks os)" using A by (auto simp: allocated_def)
  then have "s \<le> x \<or> y \<le> s" "x \<le> s \<or> t \<le> x"
    using block_header [OF D(1) B(1), of s] block_header [OF D(1) B(2), of x] blocks_mem by blast+
  then show ?thesis using A(3) by auto
qed

lemma contentsD:
  assumes R: "heap_ok os h" and "contents h p = Some bs"
  obtains x y where "(x, y) \<in> allocated h os" "p = heap_ptr h + x + SIZEOF_STRUCT_MEM" "bs = map (mem h) [p ..< heap_ptr h + y]"
    "length bs = y - x - SIZEOF_STRUCT_MEM" "8 \<le> length bs" "8 dvd p" "heap_ptr h \<le> p" "p + length bs \<le> heap_end h" "x + 32 \<le> y"
    "heap_ptr h + y = p + length bs"
proof -
  note S = heap_repD(1) [OF heap_okD(1) [OF R]]
  note D = heap_structD [OF S]
  obtain x y where xy: "(x, y) \<in> allocated h os" "p = heap_ptr h + x + 24" "bs = map (mem h) [p ..< heap_ptr h + y]"
    using contents_iff [OF heap_okD(1) [OF R]] assms(2) by auto
  have "x + 32 \<le> y" by (rule heap_okD(2) [OF R xy(1)])
  have "x \<in> set os" "y \<in> set os" using xy(1) blocks_mem [of x y os] by (auto simp: allocated_def)
  then have y: "y \<le> hsize h" and "8 dvd x" using links_le_end [OF D(1)] links_dvd [OF D(1)] by blast+
  then have "8 dvd p" unfolding xy(2) using D(3) by (intro dvd_add) simp_all
  have l: "length bs = y - x - 24" using xy(2,3) by simp
  show thesis
  proof (rule that [OF xy l _ \<open>8 dvd p\<close> _ _ \<open>x + 32 \<le> y\<close>])
    show "8 \<le> length bs" "heap_ptr h \<le> p" "p + length bs \<le> heap_end h" "heap_ptr h + y = p + length bs"
      using l \<open>x + 32 \<le> y\<close> y xy(2) D(2) by linarith+
  qed
qed

definition separate :: "(nat \<Rightarrow> u8 list option) \<Rightarrow> bool" where
  "separate L \<longleftrightarrow> (\<forall>p q bs cs. L p = Some bs \<and> L q = Some cs \<and> p \<noteq> q \<longrightarrow> p + length bs \<le> q \<or> q + length cs \<le> p)"

lemma contents_separate:
  assumes "heap_ok os h"
  shows "separate (contents h)"
  unfolding separate_def
proof (intro allI impI, elim conjE)
  fix p q bs cs assume c: "contents h p = Some bs" "contents h q = Some cs" "p \<noteq> q"
  obtain x y where x: "(x, y) \<in> allocated h os" "p = heap_ptr h + x + 24" "heap_ptr h + y = p + length bs"
    by (rule contentsD [OF assms c(1)])
  obtain s t where s: "(s, t) \<in> allocated h os" "q = heap_ptr h + s + 24" "heap_ptr h + t = q + length cs"
    by (rule contentsD [OF assms c(2)])
  have "y \<le> s \<or> t \<le> x" using allocated_disjoint [OF heap_okD(1) [OF assms] x(1) s(1)] x(2) s(2) c(3) by auto
  then show "p + length bs \<le> q \<or> q + length cs \<le> p" using x s by auto
qed

subsection \<open>The abstract allocator\<close>

text \<open>
  Every label is read off the arguments and the result of the call. For a block that \<^verbatim>\<open>rt_malloc\<close> returned it
  records what the heap after the call holds at that pointer, \<open>None\<close> where it holds no allocated block.
\<close>

datatype heap_event = Allocated nat nat "u8 list option" | NoMemory | Freed nat | Resized nat nat | Moving | Written nat "u8 list"

inductive heap_step :: "rt_heap \<Rightarrow> heap_event \<Rightarrow> rt_heap \<Rightarrow> bool" where
  malloc: "sz \<le> mem_size_aligned h \<Longrightarrow> 8 dvd sz \<Longrightarrow> MIN_SIZE_ALIGNED \<le> sz \<Longrightarrow> malloc_locked sz h = Some (Some a, h') \<Longrightarrow>
     heap_step h (Allocated sz (a + SIZEOF_STRUCT_MEM) (contents h' (a + SIZEOF_STRUCT_MEM))) h'"
| no_memory: "sz \<le> mem_size_aligned h \<Longrightarrow> 8 dvd sz \<Longrightarrow> malloc_locked sz h = Some (None, h') \<Longrightarrow> heap_step h NoMemory h'"
| free: "contents h p = Some bs \<Longrightarrow> free_locked p h = Some h' \<Longrightarrow> heap_step h (Freed p) h'"
| realloc: "contents h p = Some bs \<Longrightarrow> n \<le> mem_size_aligned h \<Longrightarrow> 8 dvd n \<Longrightarrow> 0 < n \<Longrightarrow>
     realloc_locked p n h = Some (r, h') \<Longrightarrow> heap_step h (if r = Inl () then Resized p n else Moving) h'"
| client: "contents h p = Some bs \<Longrightarrow> length cs = length bs \<Longrightarrow>
     heap_step h (Written p cs) (h\<lparr>mem := \<lambda>q. if p \<le> q \<and> q < p + length cs then cs ! (q - p) else mem h q\<rparr>)"

text \<open>A region of memory out of which disjoint aligned blocks are handed out.\<close>

fun alloc_spec :: "nat \<Rightarrow> nat \<Rightarrow> heap_event \<Rightarrow> (nat \<Rightarrow> u8 list option) \<Rightarrow> (nat \<Rightarrow> u8 list option) option" where
  "alloc_spec lo hi (Allocated sz p None) L = None"
| "alloc_spec lo hi (Allocated sz p (Some bs)) L =
     (if sz \<le> length bs \<and> 8 dvd p \<and> lo \<le> p \<and> p + length bs \<le> hi \<and> L p = None \<and> separate (L(p \<mapsto> bs))
      then Some (L(p \<mapsto> bs)) else None)"
| "alloc_spec lo hi NoMemory L = Some L"
| "alloc_spec lo hi (Freed p) L = (if L p = None then None else Some (L(p := None)))"
| "alloc_spec lo hi (Resized p n) L =
     (case L p of Some bs \<Rightarrow> if n \<le> length bs then Some (L(p \<mapsto> take n bs)) else None | None \<Rightarrow> None)"
| "alloc_spec lo hi Moving L = Some L"
| "alloc_spec lo hi (Written p cs) L =
     (case L p of Some bs \<Rightarrow> if length cs = length bs then Some (L(p \<mapsto> cs)) else None | None \<Rightarrow> None)"

definition heap_inv :: "nat \<Rightarrow> nat \<Rightarrow> rt_heap \<Rightarrow> bool" where
  "heap_inv lo hi h \<longleftrightarrow> heap_ok (offsets h) h \<and> heap_ptr h = lo \<and> heap_end h = hi"

lemma heap_invI: "heap_ok os h \<Longrightarrow> heap_ptr h = lo \<Longrightarrow> heap_end h = hi \<Longrightarrow> heap_inv lo hi h"
  using offsets_eq [OF heap_repD(1) [OF heap_okD(1)]] by (simp add: heap_inv_def)

lemma heap_invI_keeps:
  assumes "heap_inv lo hi h" "heap_ok os' h'" "keeps A h h'"
  shows "heap_inv lo hi h'"
proof (rule heap_invI [OF assms(2)])
  have "heap_end h' = heap_ptr h' + hsize h'" "heap_end h = heap_ptr h + hsize h"
    using assms heap_structD(2) heap_repD(1) heap_okD(1) unfolding heap_inv_def by blast+
  then show "heap_ptr h' = lo" "heap_end h' = hi" using assms by (simp_all add: heap_inv_def keeps_def)
qed

lemma malloc_refines:
  assumes I: "heap_inv lo hi h" and sz: "sz \<le> mem_size_aligned h" "8 dvd sz" "MIN_SIZE_ALIGNED \<le> sz"
    and m: "malloc_locked sz h = Some (Some a, h')"
  shows "heap_inv lo hi h' \<and>
     alloc_spec lo hi (Allocated sz (a + SIZEOF_STRUCT_MEM) (contents h' (a + SIZEOF_STRUCT_MEM))) (contents h) = Some (contents h')"
proof -
  let ?os = "offsets h"
  have ok: "heap_ok ?os h" and lo: "heap_ptr h = lo" "heap_end h = hi" using I by (auto simp: heap_inv_def)
  note M = malloc_locked_ok [OF heap_okD(1) [OF ok] sz(1,2)]
  obtain x where ff: "first_fit (hview h) sz (mem_size_aligned h - sz) ?os = Some x"
    using M m by (cases "first_fit (hview h) sz (mem_size_aligned h - sz) ?os") auto
  then obtain y h'' os' where P': "malloc_locked sz h = Some (Some (heap_ptr h + x), h'')" "heap_rep os' h''"
    "\<forall>z. (x, z) \<notin> allocated h ?os" "allocated h'' os' = insert (x, y) (allocated h ?os)" "x + 24 + sz \<le> y"
    "keeps (allocated h ?os) h h''"
    using M by auto
  then have P: "a = heap_ptr h + x" "heap_rep os' h'" "\<forall>z. (x, z) \<notin> allocated h ?os"
    "allocated h' os' = insert (x, y) (allocated h ?os)" "x + 24 + sz \<le> y" "keeps (allocated h ?os) h h'"
    using m by simp_all
  have ok': "heap_ok os' h'" using P(2,4,5) ok sz(3) by (auto simp: heap_ok_def)
  have I': "heap_inv lo hi h'" by (rule heap_invI_keeps [OF I ok' P(6)])
  have c: "contents h' = (contents h)(a + 24 \<mapsto> map (mem h') [a + 24 ..< heap_ptr h + y])"
    using contents_insert [OF heap_okD(1) [OF ok] P(2,6,4,3)] P(1) by simp
  define bs where "bs = map (mem h') [a + 24 ..< heap_ptr h + y]"
  have m2: "contents h' (a + 24) = Some bs" using c by (simp add: bs_def)
  have "contents h (a + 24) = None"
    using contents_iff [OF heap_okD(1) [OF ok], of "a + 24"] P(1,3) by (cases "contents h (a + 24)") auto
  moreover obtain x' y' where "8 dvd a + 24" "heap_ptr h' \<le> a + 24" "a + 24 + length bs \<le> heap_end h'"
    by (rule contentsD [OF ok' m2])
  moreover have "heap_ptr h' = lo" "heap_end h' = hi" using I' by (simp_all add: heap_inv_def)
  moreover have "sz \<le> length bs" using P(1,5) by (auto simp: bs_def)
  moreover have "separate (contents h')" by (rule contents_separate [OF ok'])
  ultimately show ?thesis using I' c m2 by (simp add: bs_def [symmetric])
qed

lemma free_refines:
  assumes I: "heap_inv lo hi h" and c: "contents h p = Some bs"
  obtains h' where "free_locked p h = Some h'" "heap_inv lo hi h'" "contents h' = (contents h)(p := None)"
proof -
  have ok: "heap_ok (offsets h) h" using I by (auto simp: heap_inv_def)
  obtain x y where x: "(x, y) \<in> allocated h (offsets h)" "p = heap_ptr h + x + 24" by (rule contentsD [OF ok c])
  obtain h' os' where P: "free_locked (heap_ptr h + x + 24) h = Some h'" "heap_rep os' h'"
    "allocated h' os' = allocated h (offsets h) - {(x, y)}" "keeps (allocated h (offsets h) - {(x, y)}) h h'"
    by (rule free_locked_ok [OF heap_okD(1) [OF ok] x(1)])
  have "heap_ok os' h'" using P(2,3) ok by (auto simp: heap_ok_def)
  then have "heap_inv lo hi h'" by (rule heap_invI_keeps [OF I _ P(4)])
  moreover have "contents h' = (contents h)(p := None)"
    using contents_delete [OF heap_okD(1) [OF ok] P(2,4,3) x(1)] x(2) by simp
  ultimately show thesis using that P(1) x(2) by simp
qed

lemma realloc_refines:
  assumes I: "heap_inv lo hi h" and c: "contents h p = Some bs" and n: "n \<le> mem_size_aligned h" "8 dvd n" "0 < n"
  obtains r h' where "realloc_locked p n h = Some (r, h')" "heap_inv lo hi h'"
    "if r = Inl () then n \<le> length bs \<and> contents h' = (contents h)(p \<mapsto> take n bs)
     else h' = h \<and> r = Inr (length bs) \<and> length bs \<noteq> n \<and> length bs \<le> n + 48"
    "r = Inl () \<longleftrightarrow> length bs = n \<or> n + 48 < length bs"
proof -
  have ok: "heap_ok (offsets h) h" using I by (auto simp: heap_inv_def)
  obtain x y where x: "(x, y) \<in> allocated h (offsets h)" "p = heap_ptr h + x + 24" "bs = map (mem h) [p ..< heap_ptr h + y]"
    "length bs = y - x - 24" "8 \<le> length bs" "x + 32 \<le> y" by (rule contentsD [OF ok c])
  note Q = realloc_locked_ok [OF heap_okD(1) [OF ok] x(1) _ n(1,2)]
  have n8: "8 \<le> n" using n(2,3) by (auto elim!: dvdE)
  show thesis
  proof (cases "x + 24 + n + 48 < y")
    case True
    then obtain h' os' where P: "realloc_locked p n h = Some (Inl (), h')" "heap_rep os' h'"
      "allocated h' os' = insert (x, x + 24 + n) (allocated h (offsets h) - {(x, y)})"
      "keeps (insert (x, x + 24 + n) (allocated h (offsets h) - {(x, y)})) h h'"
      using Q x(2,6) by auto
    have "heap_ok os' h'" using P(2,3) ok n8 by (auto simp: heap_ok_def)
    then have "heap_inv lo hi h'" by (rule heap_invI_keeps [OF I _ P(4)])
    moreover have "contents h' = (contents h)(p \<mapsto> map (mem h) [p ..< heap_ptr h + (x + 24 + n)])"
      using contents_resize [OF heap_okD(1) [OF ok] P(2,4,3) x(1)] x(2) by simp
    moreover have "map (mem h) [p ..< heap_ptr h + (x + 24 + n)] = take n bs"
      using True x(2,3) by (simp add: take_map take_upt add.assoc)
    moreover have "n + 48 < length bs" using True x(4,6) by linarith
    ultimately show thesis using that [OF P(1)] by simp
  next
    case False
    have e: "y = x + 24 + n \<longleftrightarrow> length bs = n" using x(4,6) by auto
    have P: "realloc_locked p n h = Some (if length bs = n then Inl () else Inr (length bs), h)"
      using Q False x(2,4,6) e by auto
    have "(contents h)(p \<mapsto> bs) = contents h" using c by (rule fun_upd_idem)
    then show thesis using that [OF P I] False x(4,6) by (cases "length bs = n") auto
  qed
qed

lemma client_refines:
  assumes I: "heap_inv lo hi h" and c: "contents h p = Some bs" "length cs = length bs"
  defines "h' \<equiv> h\<lparr>mem := \<lambda>q. if p \<le> q \<and> q < p + length cs then cs ! (q - p) else mem h q\<rparr>"
  shows "heap_inv lo hi h' \<and> contents h' = (contents h)(p \<mapsto> cs)"
proof -
  have ok: "heap_ok (offsets h) h" using I by (auto simp: heap_inv_def)
  obtain x y where x: "(x, y) \<in> allocated h (offsets h)" "p = heap_ptr h + x + 24" "heap_ptr h + y = p + length bs"
    by (rule contentsD [OF ok c(1)])
  let ?m = "\<lambda>q. if p \<le> q \<and> q < p + length cs then cs ! (q - p) else mem h q"
  have W: "heap_ok (offsets h) h' \<and> contents h' = (contents h)(heap_ptr h + x + 24 \<mapsto> map ?m [heap_ptr h + x + 24 ..< heap_ptr h + y])"
    unfolding h'_def by (rule client_write [OF ok x(1)]) (use x c(2) in auto)
  have "map ?m [p ..< p + length bs] = cs" using c(2) by (intro nth_equalityI) auto
  then have "contents h' = (contents h)(p \<mapsto> cs)" using W x(2,3) by simp
  moreover have "heap_inv lo hi h'" using W I by (intro heap_invI [of "offsets h"]) (auto simp: heap_inv_def h'_def)
  ultimately show ?thesis by simp
qed

interpretation heap: implements heap_step "heap_inv lo hi" contents "alloc_spec lo hi" for lo hi
proof
  have "heap_inv lo hi h' \<and> alloc_spec lo hi e (contents h) = Some (contents h')"
    if I: "heap_inv lo hi h" and st: "heap_step h e h'" for h e h'
    using st
  proof cases
    case (malloc sz a)
    then show ?thesis using malloc_refines [OF I] by simp
  next
    case (no_memory sz)
    have "heap_rep (offsets h) h" using I by (simp add: heap_inv_def heap_ok_def)
    from malloc_locked_ok [OF this no_memory(2,3)] have "h' = h" using no_memory(4) by (auto split: option.splits)
    then show ?thesis using I no_memory by simp
  next
    case (free p bs)
    obtain h'' where "free_locked p h = Some h''" "heap_inv lo hi h''" "contents h'' = (contents h)(p := None)"
      by (rule free_refines [OF I free(2)])
    then show ?thesis using free by simp
  next
    case (realloc p bs n r)
    obtain r' h'' where Q: "realloc_locked p n h = Some (r', h'')" "heap_inv lo hi h''"
      "if r' = Inl () then n \<le> length bs \<and> contents h'' = (contents h)(p \<mapsto> take n bs)
       else h'' = h \<and> r' = Inr (length bs) \<and> length bs \<noteq> n \<and> length bs \<le> n + 48"
      by (rule realloc_refines [OF I realloc(2-5)])
    then have "r' = r" "h'' = h'" using realloc(6) by simp_all
    note Q' = Q(2,3) [unfolded this]
    show ?thesis
    proof (cases "r = Inl ()")
      case True
      then show ?thesis unfolding realloc(1) using Q' realloc(2) by simp
    next
      case False
      then have "e = Moving" "h' = h" using realloc(1) Q'(2) by simp_all
      then show ?thesis using I by simp
    qed
  next
    case (client p bs cs)
    then show ?thesis using client_refines [OF I client(3,4)] by simp
  qed
  then show "heap_inv lo hi h \<Longrightarrow> heap_step h e h' \<Longrightarrow> heap_inv lo hi h'"
    "heap_inv lo hi h \<Longrightarrow> heap_step h e h' \<Longrightarrow> alloc_spec lo hi e (contents h) = Some (contents h')" for h e h' by blast+
qed

subsection \<open>Runs of the heap\<close>

definition ex_heap :: rt_heap where
  "ex_heap = snd (heap_init 4096 8192
     \<lparr>mem = \<lambda>_. 0, heap_ptr = 0, heap_end = 0, lfree = 0, mem_size_aligned = 0, used_mem = 0, max_mem = 0\<rparr>)"

lemma ex_heap_ok:
  "heap_rep [0, 4072] ex_heap" "allocated ex_heap [0, 4072] = {}" "heap_ptr ex_heap = 4096" "mem_size_aligned ex_heap = 4048"
  "heap_inv 4096 8168 ex_heap" "used (hview ex_heap 0) = 0" "contents ex_heap = Map.empty"
proof -
  let ?h = "\<lparr>mem = \<lambda>_. 0, heap_ptr = 0, heap_end = 0, lfree = 0, mem_size_aligned = 0, used_mem = 0, max_mem = 0\<rparr>"
  show r: "heap_rep [0, 4072] ex_heap" "allocated ex_heap [0, 4072] = {}" "heap_ptr ex_heap = 4096" "mem_size_aligned ex_heap = 4048"
    using heap_init_ok [of 4096 8192 ?h] by (auto simp: ex_heap_def)
  then show "heap_inv 4096 8168 ex_heap"
    using heap_structD(2) [OF heap_repD(1) [OF r(1)]] by (intro heap_invI [of "[0, 4072]"]) (simp_all add: heap_ok_def)
  have "(0, 4072) \<notin> allocated ex_heap [0, 4072]" using r(2) by simp
  then show "used (hview ex_heap 0) = 0" by (simp add: allocated_def)
  have "contents ex_heap p \<noteq> Some bs" for p bs using contents_iff [OF r(1), of p bs] r(2) by simp
  then show "contents ex_heap = Map.empty" by (intro ext) (meson option.exhaust)
qed

text \<open>
  \<^bold>\<open>C6\<close>: The heap implements an abstract allocator, over every run of the critical sections of
  \<^verbatim>\<open>rt_malloc\<close>, \<^verbatim>\<open>rt_free\<close> and \<^verbatim>\<open>rt_realloc\<close> and of arbitrary writes of the clients to the bytes of their own
  blocks. Seen as a map from pointers to the bytes of their blocks, every step does what the specification allows:
  a new block is at least as large as requested, aligned, inside the heap and disjoint from all others; freeing and
  shrinking change no byte of any other block; writes of clients never damage the heap. At the end of the run the
  heap is well-formed, its blocks are pairwise disjoint, and every further request for memory, release of an allocated
  block or request to resize one runs to its end without failing an assertion.
\<close>

theorem heap_run_refines_allocator:
  assumes "run heap_step h es h'" "heap_inv lo hi h"
  shows "spec_run (alloc_spec lo hi) es (contents h) = Some (contents h') \<and> heap_inv lo hi h' \<and> separate (contents h') \<and>
     (\<forall>p bs. contents h' p = Some bs \<longrightarrow> 8 dvd p \<and> lo \<le> p \<and> p + length bs \<le> hi \<and> free_locked p h' \<noteq> None \<and>
        (\<forall>n. 8 dvd n \<and> 0 < n \<and> n \<le> mem_size_aligned h' \<longrightarrow> realloc_locked p n h' \<noteq> None)) \<and>
     (\<forall>sz. 8 dvd sz \<and> sz \<le> mem_size_aligned h' \<longrightarrow> malloc_locked sz h' \<noteq> None)"
proof -
  have I: "heap_inv lo hi h'" by (rule heap.run_inv [OF assms])
  then have ok: "heap_ok (offsets h') h'" and b: "heap_ptr h' = lo" "heap_end h' = hi" by (simp_all add: heap_inv_def)
  have "8 dvd p \<and> lo \<le> p \<and> p + length bs \<le> hi \<and> free_locked p h' \<noteq> None \<and>
      (\<forall>n. 8 dvd n \<and> 0 < n \<and> n \<le> mem_size_aligned h' \<longrightarrow> realloc_locked p n h' \<noteq> None)" if c: "contents h' p = Some bs" for p bs
  proof -
    obtain x y where "8 dvd p" "heap_ptr h' \<le> p" "p + length bs \<le> heap_end h'" by (rule contentsD [OF ok c])
    moreover obtain h'' where "free_locked p h' = Some h''" by (rule free_refines [OF I c])
    moreover have "realloc_locked p n h' \<noteq> None" if n: "8 dvd n" "0 < n" "n \<le> mem_size_aligned h'" for n
    proof -
      obtain r h'' where "realloc_locked p n h' = Some (r, h'')" by (rule realloc_refines [OF I c n(3,1,2)])
      then show ?thesis by simp
    qed
    ultimately show ?thesis using b by simp
  qed
  moreover have "malloc_locked sz h' \<noteq> None" if "8 dvd sz" "sz \<le> mem_size_aligned h'" for sz
    using malloc_locked_ok [OF heap_okD(1) [OF ok] that(2,1)] by (auto split: option.splits)
  ultimately show ?thesis using heap.run_refines [OF assms] I contents_separate [OF ok] by blast
qed

lemma ex_heap_malloc:
  assumes "8 dvd sz" "sz < 4048"
  obtains h' bs where "malloc_locked sz ex_heap = Some (Some 4096, h')" "contents h' 4120 = Some bs"
proof -
  have ff: "first_fit (hview ex_heap) sz (mem_size_aligned ex_heap - sz) [0, 4072] = Some 0"
    using ex_heap_ok(6) assms(2) by (simp add: ex_heap_ok(4))
  have "sz \<le> mem_size_aligned ex_heap" using assms(2) by (simp add: ex_heap_ok(4))
  then obtain y h' os' where P: "malloc_locked sz ex_heap = Some (Some (heap_ptr ex_heap + 0), h')" "heap_rep os' h'"
    "allocated h' os' = insert (0, y) (allocated ex_heap [0, 4072])" "keeps (allocated ex_heap [0, 4072]) ex_heap h'"
    using malloc_locked_ok [OF ex_heap_ok(1) _ assms(1)] unfolding ff by auto
  have b: "heap_ptr h' = 4096" using P(4) ex_heap_ok(3) by (simp add: keeps_def)
  have "(0, y) \<in> allocated h' os'" using P(3) by simp
  then have "contents h' 4120 = Some (map (mem h') [4120 ..< 4096 + y])"
    using contents_iff [OF P(2), of 4120] b by auto
  then show thesis using that P(1) ex_heap_ok(3) by simp
qed

text \<open>A block of 64 bytes splits the only free block; one of 4024 bytes leaves no room for another and takes all of it.\<close>

theorem heap_run_refines_allocator_witness:
  "(\<exists>bs h'. run heap_step ex_heap [Allocated 64 4120 (Some bs), Freed 4120] h' \<and> contents h' = Map.empty \<and> heap_inv 4096 8168 h') \<and>
   (\<exists>bs h'. run heap_step ex_heap [Allocated 4024 4120 (Some bs), Freed 4120] h' \<and> 4024 \<le> length bs \<and> contents h' = Map.empty)"
proof -
  have "\<exists>bs h'. run heap_step ex_heap [Allocated sz 4120 (Some bs), Freed 4120] h' \<and> sz \<le> length bs \<and>
     contents h' = Map.empty \<and> heap_inv 4096 8168 h'" if sz: "8 dvd sz" "sz < 4048" "24 \<le> sz" for sz
  proof -
    obtain h1 bs where m: "malloc_locked sz ex_heap = Some (Some 4096, h1)" "contents h1 4120 = Some bs" by (rule ex_heap_malloc [OF sz(1,2)])
    have s1: "heap_step ex_heap (Allocated sz 4120 (Some bs)) h1"
      using heap_step.malloc [of sz ex_heap 4096 h1] m sz ex_heap_ok(4) by simp
    then have "heap_inv 4096 8168 h1" using heap_run_refines_allocator [of ex_heap "[Allocated sz 4120 (Some bs)]" h1] ex_heap_ok(5) by auto
    then obtain h2 where "free_locked 4120 h1 = Some h2" by (rule free_refines [OF _ m(2)])
    then have r: "run heap_step ex_heap [Allocated sz 4120 (Some bs), Freed 4120] h2" using s1 heap_step.free [OF m(2)] by auto
    from heap_run_refines_allocator [OF r ex_heap_ok(5)]
    have "contents h2 = Map.empty" "heap_inv 4096 8168 h2" "sz \<le> length bs"
      by (auto simp: ex_heap_ok(7) split: if_splits)
    then show ?thesis using r by blast
  qed
  from this [of 64] this [of 4024] show ?thesis by force
qed

end
