(* ===== verification/Strings.thy ===== *)
theory Strings
  imports Byte_Memory
begin

text \<open>
  The string functions of \<^verbatim>\<open>src/kservice.c\<close> on byte-addressed memory. The kernel uses them for the
  names of its objects, which are fixed-size arrays with a terminator only when the name is shorter.
\<close>

subsection \<open>Copying and comparing\<close>

fun strncpy_pad :: "nat \<Rightarrow> nat \<Rightarrow> memory \<Rightarrow> memory" where
  "strncpy_pad d 0 m = m"
| "strncpy_pad d (Suc n) m = strncpy_pad (d + 1) n (m(d := 0))"

fun strncpy_loop :: "nat \<Rightarrow> nat \<Rightarrow> nat \<Rightarrow> memory \<Rightarrow> memory" where
  "strncpy_loop d s 0 m = m"
| "strncpy_loop d s (Suc n) m =
     (let m1 = m(d := m s)
      in if m s = 0 then strncpy_pad (d + 1) n m1 else strncpy_loop (d + 1) (s + 1) n m1)"

definition rt_strncpy :: "nat \<Rightarrow> nat \<Rightarrow> nat \<Rightarrow> memory \<Rightarrow> memory" where
  "rt_strncpy dst src n m = (if n \<noteq> 0 then strncpy_loop dst src n m else m)"

text \<open>\<^verbatim>\<open>__res\<close> is a \<^verbatim>\<open>signed char\<close>: the difference of the two bytes is reduced to eight bits.\<close>

fun strncmp_loop :: "nat \<Rightarrow> nat \<Rightarrow> nat \<Rightarrow> int \<Rightarrow> memory \<Rightarrow> int" where
  "strncmp_loop cs ct 0 res m = res"
| "strncmp_loop cs ct (Suc count) res m =
     (let res = sint (m cs - m ct)
      in if res \<noteq> 0 \<or> m cs = 0 then res else strncmp_loop (cs + 1) (ct + 1) count res m)"

definition rt_strncmp :: "nat \<Rightarrow> nat \<Rightarrow> nat \<Rightarrow> memory \<Rightarrow> int" where
  "rt_strncmp cs ct count m = strncmp_loop cs ct count 0 m"

text \<open>The loops without a bound do not end when there is no terminator.\<close>

partial_function (option) rt_strcmp :: "nat \<Rightarrow> nat \<Rightarrow> memory \<Rightarrow> int option" where
  "rt_strcmp cs ct m =
     (if m cs \<noteq> 0 \<and> m cs = m ct then rt_strcmp (cs + 1) (ct + 1) m else Some (uint (m cs) - uint (m ct)))"

partial_function (option) strlen_loop :: "nat \<Rightarrow> nat \<Rightarrow> memory \<Rightarrow> nat option" where
  "strlen_loop s sc m = (if m sc \<noteq> 0 then strlen_loop s (sc + 1) m else Some (sc - s))"

definition rt_strlen :: "nat \<Rightarrow> memory \<Rightarrow> nat option" where
  "rt_strlen s m = strlen_loop s s m"

function strnlen_loop :: "nat \<Rightarrow> nat \<Rightarrow> nat \<Rightarrow> memory \<Rightarrow> nat" where
  "strnlen_loop s maxlen sc m =
     (if m sc \<noteq> 0 \<and> sc - s < maxlen then strnlen_loop s maxlen (sc + 1) m else sc - s)"
  by auto
termination by (relation "measure (\<lambda>(s, maxlen, sc, m). s + maxlen - sc)") auto

definition rt_strnlen :: "nat \<Rightarrow> nat \<Rightarrow> memory \<Rightarrow> nat" where
  "rt_strnlen s maxlen m = strnlen_loop s maxlen s m"

declare strnlen_loop.simps [simp del]

text \<open>\<^verbatim>\<open>rt_strstr\<close>: the lengths are kept in an \<^verbatim>\<open>int\<close>, which no string in memory exceeds.\<close>

fun strstr_loop :: "nat \<Rightarrow> nat \<Rightarrow> nat \<Rightarrow> nat \<Rightarrow> memory \<Rightarrow> nat option" where
  "strstr_loop s1 s2 l1 l2 m =
     (if l1 \<ge> l2
      then (if rt_memcmp s1 s2 l2 m = 0 then Some s1
            else if l1 = 0 then None else strstr_loop (s1 + 1) s2 (l1 - 1) l2 m)
      else None)"

definition rt_strstr :: "nat \<Rightarrow> nat \<Rightarrow> memory \<Rightarrow> nat option option" where
  "rt_strstr s1 s2 m =
     do { l2 \<leftarrow> rt_strlen s2 m;
          if l2 = 0 then Some (Some s1)
          else do { l1 \<leftarrow> rt_strlen s1 m; Some (strstr_loop s1 s2 l1 l2 m) } }"

subsection \<open>Strings in memory\<close>

text \<open>The string at an address: its bytes up to the terminator, at most \<open>n\<close> of them.\<close>

fun cstr :: "nat \<Rightarrow> memory \<Rightarrow> nat \<Rightarrow> u8 list" where
  "cstr 0 m a = []"
| "cstr (Suc n) m a = (if m a = 0 then [] else m a # cstr n m (a + 1))"

lemma cstr_numeral:
  "cstr (numeral k) m a = (if m a = 0 then [] else m a # cstr (pred_numeral k) m (a + 1))"
  by (simp add: numeral_eq_Suc)

lemma cstr_cong: "(\<And>q. a \<le> q \<Longrightarrow> q < a + n \<Longrightarrow> m q = m' q) \<Longrightarrow> cstr n m a = cstr n m' a"
proof (induction n arbitrary: a)
  case (Suc n)
  have "cstr n m (a + 1) = cstr n m' (a + 1)" by (rule Suc.IH) (auto intro: Suc.prems)
  then show ?case using Suc.prems [of a] by simp
qed simp

lemma strncpy_pad_outside: "q < d \<or> d + n \<le> q \<Longrightarrow> strncpy_pad d n m q = m q"
  by (induction d n m rule: strncpy_pad.induct) auto

lemma strncpy_loop_outside: "q < d \<or> d + n \<le> q \<Longrightarrow> strncpy_loop d s n m q = m q"
  by (induction d s n m rule: strncpy_loop.induct) (auto simp: Let_def strncpy_pad_outside)

lemma strncpy_loop_cstr:
  "d + n \<le> s \<or> s + n \<le> d \<Longrightarrow> cstr n (strncpy_loop d s n m) d = cstr n m s"
proof (induction d s n m rule: strncpy_loop.induct)
  case (2 d s n m)
  show ?case
  proof (cases "m s = 0")
    case True
    then show ?thesis by (simp add: strncpy_pad_outside)
  next
    case False
    let ?m = "m(d := m s)"
    have "cstr n (strncpy_loop (d + 1) (s + 1) n ?m) (d + 1) = cstr n ?m (s + 1)"
      using "2.prems" by (intro "2.IH" [OF refl False]) auto
    moreover have "cstr n ?m (s + 1) = cstr n m (s + 1)" using "2.prems" by (intro cstr_cong) auto
    ultimately show ?thesis using False by (simp add: strncpy_loop_outside)
  qed
qed simp

lemma strncmp_cstr: "strncmp_loop a b n 0 m = 0 \<longleftrightarrow> cstr n m a = cstr n m b"
proof (induction n arbitrary: a b)
  case (Suc n)
  have "sint (m a - m b) = 0 \<longleftrightarrow> m a = m b" by (metis eq_iff_diff_eq_0 signed_0 signed_eq_0_iff)
  then show ?case using Suc.IH [of "a + 1" "b + 1"] by (cases "m a = m b") (auto simp: Let_def)
qed simp

lemma strlen_cstr:
  assumes "m (a + k) = 0" "\<forall>i < k. m (a + i) \<noteq> 0"
  shows "rt_strlen a m = Some k"
proof -
  have "strlen_loop a (a + i) m = Some k" if "i \<le> k" for i
    using that
  proof (induction "k - i" arbitrary: i)
    case 0
    then show ?case using assms(1) by (subst strlen_loop.simps) simp
  next
    case (Suc j)
    then have "strlen_loop a (a + Suc i) m = Some k" by (intro Suc.hyps(1)) auto
    then show ?case using assms(2) Suc by (subst strlen_loop.simps) simp
  qed
  from this [of 0] show ?thesis by (simp add: rt_strlen_def)
qed

lemma strnlen_cstr: "rt_strnlen a n m = length (cstr n m a)"
proof -
  have "strnlen_loop a n (a + i) m = i + length (cstr (n - i) m (a + i))" if "i \<le> n" for i
    using that
  proof (induction "n - i" arbitrary: i)
    case 0
    then show ?case by (subst strnlen_loop.simps) simp
  next
    case (Suc j)
    then have "strnlen_loop a n (a + Suc i) m = Suc i + length (cstr (n - Suc i) m (a + Suc i))"
      by (intro Suc.hyps(1)) auto
    moreover have "n - i = Suc (n - Suc i)" "i < n" using Suc.hyps(2) by simp_all
    ultimately show ?case by (subst strnlen_loop.simps) simp
  qed
  from this [of 0] show ?thesis by (simp add: rt_strnlen_def)
qed

text \<open>
  Copying and comparing names is a round trip. Where source and destination do not overlap,
  \<^verbatim>\<open>rt_strncpy\<close> with a bound of \<open>n\<close> bytes makes the destination hold the same string as the source (up to its
  terminator or \<open>n\<close> bytes) and changes no byte outside the \<open>n\<close> bytes of the destination; \<^verbatim>\<open>rt_strncmp\<close> then
  finds it equal to a third string exactly if the source is equal to that string.
\<close>

theorem rt_strncpy_rt_strncmp:
  fixes m :: memory
  assumes "dst + n \<le> src \<or> src + n \<le> dst" "dst + n \<le> other \<or> other + n \<le> dst"
  defines "m' \<equiv> rt_strncpy dst src n m"
  shows "cstr n m' dst = cstr n m src \<and> (\<forall>q. q < dst \<or> dst + n \<le> q \<longrightarrow> m' q = m q) \<and>
     (rt_strncmp dst other n m' = 0 \<longleftrightarrow> cstr n m src = cstr n m other)"
proof -
  have "cstr n m' dst = cstr n m src" using strncpy_loop_cstr [OF assms(1)] by (auto simp: m'_def rt_strncpy_def)
  moreover have o: "\<forall>q. q < dst \<or> dst + n \<le> q \<longrightarrow> m' q = m q"
    by (auto simp: m'_def rt_strncpy_def strncpy_loop_outside)
  moreover have "cstr n m' other = cstr n m other" using assms(2) o by (intro cstr_cong) auto
  ultimately show ?thesis by (simp add: rt_strncmp_def strncmp_cstr)
qed

definition ex_names :: memory where
  "ex_names = (\<lambda>_. 0)(16 := 104, 17 := 101, 18 := 97, 19 := 112, 32 := 104, 33 := 101, 34 := 97, 35 := 112)"

theorem rt_strncpy_rt_strncmp_witness:
  "rt_strncmp 0 32 8 (rt_strncpy 0 16 8 ex_names) = 0 \<and> rt_strnlen 16 8 ex_names = 4"
proof -
  have "cstr 8 ex_names 16 = [104, 101, 97, 112]" "cstr 8 ex_names 32 = [104, 101, 97, 112]"
    by (simp_all add: ex_names_def cstr_numeral)
  then show ?thesis using rt_strncpy_rt_strncmp [of 0 8 16 32 ex_names] by (simp add: strnlen_cstr)
qed

text \<open>
  The order \<^verbatim>\<open>rt_strncmp\<close> reports is not that of the bytes: a difference of more than 127 changes its sign.
\<close>

lemma rt_strncmp_order: "uint (m a) - uint (m b) = 200 \<Longrightarrow> rt_strncmp a b (Suc n) m = - 56"
proof -
  assume "uint (m a) - uint (m b) = 200"
  then have "m a - m b = word_of_int 200" by (metis word_of_int_uint wi_hom_sub)
  then have "sint (m a - m b) = - 56" by simp
  then show ?thesis by (simp add: rt_strncmp_def Let_def)
qed

end
