(* ===== verification/Heap_Lock.thy ===== *)
theory Heap_Lock
  imports Heap_Contract Semaphore Strings
begin

text \<open>
  The entry points of \<^verbatim>\<open>src/mem.c\<close>, on the kernel and the heap together: \<^verbatim>\<open>heap_sem\<close> (the semaphore
  \<open>i\<close>) is taken around every critical section, so a call returns or leaves the caller waiting for
  the lock. Where a call waits, the result says at which point; the function with the suffix
  \<open>_resume\<close> is what the caller executes from there. The hooks of \<^verbatim>\<open>mem.c\<close> are not set.
\<close>

datatype ('a, 'p) call = Returns 'a | Waits 'p

abbreviation (input) RT_WAITING_FOREVER :: rt_int32_t where "RT_WAITING_FOREVER \<equiv> - 1"

definition align8 :: "nat \<Rightarrow> nat" where
  "align8 n = unat (RT_ALIGN (of_nat n) 8)"

subsection \<open>rt_malloc and rt_free\<close>

definition malloc_cs :: "nat \<Rightarrow> nat \<Rightarrow> nat \<Rightarrow> kernel \<Rightarrow> rt_heap \<Rightarrow> ((nat option, nat) call \<times> kernel \<times> rt_heap) option" where
  "malloc_cs c i sz k h =
     do { (r, h1) \<leftarrow> malloc_locked sz h;
          (_, k1) \<leftarrow> rt_sem_release c i k;
          case r of
            None \<Rightarrow> Some (Returns None, k1, h1)
          | Some a \<Rightarrow>
              do { RT_ASSERT (a + SIZEOF_STRUCT_MEM + sz \<le> heap_end h1);
                   RT_ASSERT ((a + SIZEOF_STRUCT_MEM) mod RT_ALIGN_SIZE = 0);
                   RT_ASSERT (a mod RT_ALIGN_SIZE = 0);
                   Some (Returns (Some (a + SIZEOF_STRUCT_MEM)), k1, h1) } }"

definition rt_malloc :: "nat \<Rightarrow> nat \<Rightarrow> nat \<Rightarrow> kernel \<Rightarrow> rt_heap \<Rightarrow> ((nat option, nat) call \<times> kernel \<times> rt_heap) option" where
  "rt_malloc c i sz k h =
     (if sz = 0 then Some (Returns None, k, h)
      else do {
        RT_DEBUG_NOT_IN_INTERRUPT c k;
        let sz1 = align8 sz;
        if sz1 > mem_size_aligned h then Some (Returns None, k, h)
        else do {
          let sz2 = (if sz1 < MIN_SIZE_ALIGNED then MIN_SIZE_ALIGNED else sz1);
          (r, k1) \<leftarrow> rt_sem_take c i RT_WAITING_FOREVER k;
          case r of Blocked \<Rightarrow> Some (Waits sz2, k1, h) | Done _ \<Rightarrow> malloc_cs c i sz2 k1 h } })"

definition rt_malloc_resume :: "nat \<Rightarrow> nat \<Rightarrow> nat \<Rightarrow> kernel \<Rightarrow> rt_heap \<Rightarrow> ((nat option, nat) call \<times> kernel \<times> rt_heap) option" where
  "rt_malloc_resume c i sz k h = malloc_cs c i sz k h"

definition free_cs :: "nat \<Rightarrow> nat \<Rightarrow> nat \<Rightarrow> kernel \<Rightarrow> rt_heap \<Rightarrow> ((unit, nat) call \<times> kernel \<times> rt_heap) option" where
  "free_cs c i rmem k h =
     do { h1 \<leftarrow> free_locked rmem h;
          (_, k1) \<leftarrow> rt_sem_release c i k;
          Some (Returns (), k1, h1) }"

definition rt_free :: "nat \<Rightarrow> nat \<Rightarrow> nat \<Rightarrow> kernel \<Rightarrow> rt_heap \<Rightarrow> ((unit, nat) call \<times> kernel \<times> rt_heap) option" where
  "rt_free c i rmem k h =
     (if rmem = 0 then Some (Returns (), k, h)
      else do {
        RT_DEBUG_NOT_IN_INTERRUPT c k;
        RT_ASSERT (rmem mod RT_ALIGN_SIZE = 0);
        RT_ASSERT (heap_ptr h \<le> rmem \<and> rmem < heap_end h);
        (r, k1) \<leftarrow> rt_sem_take c i RT_WAITING_FOREVER k;
        case r of Blocked \<Rightarrow> Some (Waits rmem, k1, h) | Done _ \<Rightarrow> free_cs c i rmem k1 h })"

definition rt_free_resume :: "nat \<Rightarrow> nat \<Rightarrow> nat \<Rightarrow> kernel \<Rightarrow> rt_heap \<Rightarrow> ((unit, nat) call \<times> kernel \<times> rt_heap) option" where
  "rt_free_resume c i rmem k h = free_cs c i rmem k h"

subsection \<open>rt_realloc\<close>

text \<open>
  Where \<^verbatim>\<open>rt_realloc\<close> can wait: for its own lock; in the call of \<^verbatim>\<open>rt_malloc\<close> for the moved block, with the
  old size; in the call of \<^verbatim>\<open>rt_free\<close> for the old block, with the new pointer; in \<^verbatim>\<open>rt_free\<close> for a size of
  zero; in \<^verbatim>\<open>rt_malloc\<close> for a null pointer.
\<close>

datatype realloc_pc = AtLock | AtMalloc nat nat | AtFree nat | AtFreeNull | AtNew nat

type_synonym realloc_result = "((nat option, realloc_pc) call \<times> kernel \<times> rt_heap) option"

definition after :: "('a \<Rightarrow> kernel \<Rightarrow> rt_heap \<Rightarrow> realloc_result) \<Rightarrow> ('p \<Rightarrow> realloc_pc) \<Rightarrow>
    (('a, 'p) call \<times> kernel \<times> rt_heap) option \<Rightarrow> realloc_result" where
  "after f pc res =
     do { (r, k, h) \<leftarrow> res;
          case r of Returns x \<Rightarrow> f x k h | Waits p \<Rightarrow> Some (Waits (pc p), k, h) }"

definition realloc_copy :: "nat \<Rightarrow> nat \<Rightarrow> nat \<Rightarrow> nat \<Rightarrow> nat \<Rightarrow> nat option \<Rightarrow> kernel \<Rightarrow> rt_heap \<Rightarrow> realloc_result" where
  "realloc_copy c i rmem newsize old nmem k h =
     (case nmem of
        None \<Rightarrow> Some (Returns None, k, h)
      | Some p \<Rightarrow>
          after (\<lambda>_ k h. Some (Returns (Some p), k, h)) (\<lambda>_. AtFree p)
            (rt_free c i rmem k (h\<lparr>mem := rt_memcpy p rmem (if old < newsize then old else newsize) (mem h)\<rparr>)))"

definition realloc_cs :: "nat \<Rightarrow> nat \<Rightarrow> nat \<Rightarrow> nat \<Rightarrow> kernel \<Rightarrow> rt_heap \<Rightarrow> realloc_result" where
  "realloc_cs c i rmem newsize k h =
     do { (r, h1) \<leftarrow> realloc_locked rmem newsize h;
          (_, k1) \<leftarrow> rt_sem_release c i k;
          case r of
            Inl _ \<Rightarrow> Some (Returns (Some rmem), k1, h1)
          | Inr old \<Rightarrow> after (realloc_copy c i rmem newsize old) (AtMalloc old) (rt_malloc c i newsize k1 h1) }"

definition rt_realloc :: "nat \<Rightarrow> nat \<Rightarrow> nat \<Rightarrow> nat \<Rightarrow> kernel \<Rightarrow> rt_heap \<Rightarrow> realloc_result" where
  "rt_realloc c i rmem newsize k h =
     do { RT_DEBUG_NOT_IN_INTERRUPT c k;
          let new = align8 newsize;
          if new > mem_size_aligned h then Some (Returns None, k, h)
          else if new = 0
          then after (\<lambda>_ k h. Some (Returns None, k, h)) (\<lambda>_. AtFreeNull) (rt_free c i rmem k h)
          else if rmem = 0
          then after (\<lambda>r k h. Some (Returns r, k, h)) AtNew (rt_malloc c i new k h)
          else do {
            (r, k1) \<leftarrow> rt_sem_take c i RT_WAITING_FOREVER k;
            case r of Blocked \<Rightarrow> Some (Waits AtLock, k1, h) | Done _ \<Rightarrow> realloc_cs c i rmem new k1 h } }"

definition rt_realloc_resume :: "nat \<Rightarrow> nat \<Rightarrow> nat \<Rightarrow> nat \<Rightarrow> realloc_pc \<Rightarrow> kernel \<Rightarrow> rt_heap \<Rightarrow> realloc_result" where
  "rt_realloc_resume c i rmem newsize pc k h =
     (case pc of
        AtLock \<Rightarrow> realloc_cs c i rmem (align8 newsize) k h
      | AtMalloc old sz \<Rightarrow> after (realloc_copy c i rmem (align8 newsize) old) (AtMalloc old) (malloc_cs c i sz k h)
      | AtFree p \<Rightarrow> after (\<lambda>_ k h. Some (Returns (Some p), k, h)) (\<lambda>_. AtFree p) (free_cs c i rmem k h)
      | AtFreeNull \<Rightarrow> after (\<lambda>_ k h. Some (Returns None, k, h)) (\<lambda>_. AtFreeNull) (free_cs c i rmem k h)
      | AtNew sz \<Rightarrow> after (\<lambda>r k h. Some (Returns r, k, h)) AtNew (malloc_cs c i sz k h))"

subsection \<open>rt_calloc, rt_strdup and initialisation\<close>

definition calloc_fill :: "nat \<Rightarrow> nat option \<Rightarrow> rt_heap \<Rightarrow> rt_heap" where
  "calloc_fill n p h = (case p of Some a \<Rightarrow> h\<lparr>mem := rt_memset a 0 n (mem h)\<rparr> | None \<Rightarrow> h)"

definition rt_calloc :: "nat \<Rightarrow> nat \<Rightarrow> nat \<Rightarrow> nat \<Rightarrow> kernel \<Rightarrow> rt_heap \<Rightarrow> ((nat option, nat) call \<times> kernel \<times> rt_heap) option" where
  "rt_calloc c i count sz k h =
     do { let n = count * sz mod 2 ^ 64;
          (r, k1, h1) \<leftarrow> rt_malloc c i n k h;
          Some (r, k1, case r of Returns p \<Rightarrow> calloc_fill n p h1 | Waits _ \<Rightarrow> h1) }"

definition rt_calloc_resume :: "nat \<Rightarrow> nat \<Rightarrow> nat \<Rightarrow> nat \<Rightarrow> nat \<Rightarrow> kernel \<Rightarrow> rt_heap \<Rightarrow> ((nat option, nat) call \<times> kernel \<times> rt_heap) option" where
  "rt_calloc_resume c i count sz asz k h =
     do { (r, k1, h1) \<leftarrow> malloc_cs c i asz k h;
          Some (r, k1, case r of Returns p \<Rightarrow> calloc_fill (count * sz mod 2 ^ 64) p h1 | Waits _ \<Rightarrow> h1) }"

definition rt_strdup :: "nat \<Rightarrow> nat \<Rightarrow> nat \<Rightarrow> kernel \<Rightarrow> rt_heap \<Rightarrow> ((nat option, nat) call \<times> kernel \<times> rt_heap) option" where
  "rt_strdup c i s k h =
     do { n \<leftarrow> rt_strlen s (mem h);
          let len = n + 1;
          (r, k1, h1) \<leftarrow> rt_malloc c i len k h;
          Some (r, k1, case r of Returns (Some tmp) \<Rightarrow> h1\<lparr>mem := rt_memcpy tmp s len (mem h1)\<rparr> | _ \<Rightarrow> h1) }"

definition rt_system_heap_init :: "nat \<Rightarrow> nat \<Rightarrow> nat \<Rightarrow> nat \<Rightarrow> kernel \<Rightarrow> rt_heap \<Rightarrow> (kernel \<times> rt_heap) option" where
  "rt_system_heap_init c i begin_addr end_addr k h =
     do { RT_DEBUG_NOT_IN_INTERRUPT c k;
          let (ok, h1) = heap_init begin_addr end_addr h;
          if ok then do { (_, k1) \<leftarrow> rt_sem_init i 1 RT_IPC_FLAG_FIFO k; Some (k1, h1) } else Some (k, h1) }"

definition rt_memory_info :: "rt_heap \<Rightarrow> u32 \<times> u32 \<times> u32" where
  "rt_memory_info h = (of_nat (mem_size_aligned h), of_nat (used_mem h), of_nat (max_mem h))"

subsection \<open>The lock\<close>

definition lock_free :: "nat \<Rightarrow> kernel \<Rightarrow> bool" where
  "lock_free i k \<longleftrightarrow> (\<exists>sem. sems k i = Some sem \<and> sem_value sem > 0 \<and> tq k (SuspendQ (Sem i)) = [])"

lemma lock_roundtrip:
  assumes "lock_free i k"
  obtains k1 where "rt_sem_take c i time k = Some (Done RT_EOK, k1)" "rt_sem_release c' i k1 = Some (RT_EOK, k)"
proof -
  obtain sem where sem: "sems k i = Some sem" "sem_value sem > 0" "tq k (SuspendQ (Sem i)) = []"
    using assms by (auto simp: lock_free_def)
  let ?k1 = "k\<lparr>sems := (sems k)(i \<mapsto> sem\<lparr>sem_value := sem_value sem - 1\<rparr>)\<rparr>"
  have "sem_value sem - 1 < 0xffff"
    using unat_pred [OF sem(2)] unat_u16 [of "sem_value sem"] sem(2) by (simp add: word_less_nat_alt)
  moreover have "(sems k)(i \<mapsto> sem) = sems k" using sem(1) by (rule fun_upd_idem)
  ultimately have "rt_sem_release c' i ?k1 = Some (0, k)" using sem by (simp add: rt_sem_release_def)
  moreover have "rt_sem_take c i time k = Some (Done 0, ?k1)" using sem by (simp add: rt_sem_take_def)
  ultimately show thesis using that by blast
qed

lemma align8: "n < 2 ^ 64 - 8 \<Longrightarrow> n \<le> align8 n \<and> align8 n < n + 8 \<and> 8 dvd align8 n"
  unfolding align8_def unat_RT_ALIGN by (auto simp: minus_mod_eq_div_mult)

lemma align8_dvd: "8 dvd align8 n"
proof -
  have "(n + 7) mod 8 = (n + 7) mod 2 ^ 64 mod 8" by (rule mod_mod_cancel [symmetric]) simp
  then show ?thesis unfolding align8_def unat_RT_ALIGN by (simp add: minus_mod_eq_div_mult)
qed

definition malloc_size :: "nat \<Rightarrow> nat" where
  "malloc_size sz = (if align8 sz < MIN_SIZE_ALIGNED then MIN_SIZE_ALIGNED else align8 sz)"

lemma malloc_size: "8 dvd malloc_size sz" "MIN_SIZE_ALIGNED \<le> malloc_size sz"
  using align8_dvd by (auto simp: malloc_size_def)

text \<open>The first free block, from the start of the heap, that is large enough and starts early enough.\<close>

definition malloc_choice :: "nat \<Rightarrow> rt_heap \<Rightarrow> nat option" where
  "malloc_choice sz h = first_fit (hview h) sz (mem_size_aligned h - sz) (offsets h)"

lemma malloc_choice_None:
  assumes "heap_inv lo hi h" "malloc_choice sz h = None" "sz \<le> mem_size_aligned h"
    "(x, y) \<in> set (blocks (offsets h))" "used (hview h x) = 0"
  shows "y - x - SIZEOF_STRUCT_MEM < sz \<or> (y = hsize h \<and> y - x - SIZEOF_STRUCT_MEM = sz)"
proof -
  note D = heap_structD [OF heap_repD(1) [OF heap_okD(1)]]
  have l: "links (hview h) (hsize h) (offsets h)" using assms(1) D(1) by (auto simp: heap_inv_def)
  have y: "y \<le> hsize h" using links_le_end [OF l] blocks_mem [OF assms(4)] by blast
  obtain xs zs where os: "offsets h = xs @ x # y # zs" using blocksD [OF assms(4)] .
  have g: "x + 24 \<le> y" using links_at(3) [of "hview h" "hsize h" xs x y zs] l os by simp
  show ?thesis
  proof (cases "x < mem_size_aligned h - sz")
    case True
    then have "y < x + 24 + sz"
      using first_fit_None [OF assms(2) [unfolded malloc_choice_def] links_sorted [OF l] assms(4,5)] by simp
    then show ?thesis using g by linarith
  next
    case False
    then show ?thesis using y g assms(3) by linarith
  qed
qed

lemma malloc_unlocked:
  assumes I: "heap_inv lo hi h" and lock: "lock_free i k" "RT_DEBUG_NOT_IN_INTERRUPT c k = Some ()"
    and sz: "0 < sz" "malloc_size sz \<le> mem_size_aligned h"
  shows "case malloc_choice (malloc_size sz) h of
      None \<Rightarrow> rt_malloc c i sz k h = Some (Returns None, k, h)
    | Some x \<Rightarrow> \<exists>h' bs. rt_malloc c i sz k h = Some (Returns (Some (lo + x + SIZEOF_STRUCT_MEM)), k, h') \<and> heap_inv lo hi h' \<and>
        contents h (lo + x + SIZEOF_STRUCT_MEM) = None \<and> contents h' = (contents h)(lo + x + SIZEOF_STRUCT_MEM \<mapsto> bs) \<and>
        malloc_size sz \<le> length bs \<and> length bs < malloc_size sz + 48 \<and> mem_size_aligned h' = mem_size_aligned h"
proof -
  let ?sz = "malloc_size sz" and ?os = "offsets h"
  have ok: "heap_ok ?os h" "heap_ptr h = lo" using I by (auto simp: heap_inv_def)
  obtain k1 where L: "rt_sem_take c i RT_WAITING_FOREVER k = Some (Done RT_EOK, k1)" "rt_sem_release c i k1 = Some (RT_EOK, k)"
    by (rule lock_roundtrip [OF lock(1)])
  have "align8 sz \<le> mem_size_aligned h" using sz(2) by (auto simp: malloc_size_def split: if_splits)
  then have m: "rt_malloc c i sz k h = malloc_cs c i ?sz k1 h"
    using sz(1) lock(2) L(1) by (simp add: rt_malloc_def malloc_size_def Let_def)
  note M = malloc_locked_ok [OF heap_okD(1) [OF ok(1)] sz(2) malloc_size(1)]
  show ?thesis
  proof (cases "malloc_choice ?sz h")
    case None
    then have "malloc_locked ?sz h = Some (None, h)" using M by (simp add: malloc_choice_def)
    then show ?thesis using None m L(2) by (simp add: malloc_cs_def)
  next
    case (Some x)
    then obtain y h' os' where P: "malloc_locked ?sz h = Some (Some (heap_ptr h + x), h')" "heap_rep os' h'"
      "\<forall>z. (x, z) \<notin> allocated h ?os" "allocated h' os' = insert (x, y) (allocated h ?os)"
      "x + 24 + ?sz \<le> y" "y < x + 24 + ?sz + 48" "keeps (allocated h ?os) h h'"
      using M by (auto simp: malloc_choice_def)
    let ?p = "lo + x + 24" and ?bs = "map (mem h') [lo + x + 24 ..< lo + y]"
    have c: "contents h' = (contents h)(?p \<mapsto> ?bs)"
      using contents_insert [OF heap_okD(1) [OF ok(1)] P(2,7,4,3)] ok(2) by simp
    have R: "heap_inv lo hi h' \<and> alloc_spec lo hi (Allocated ?sz (lo + x + 24) (Some ?bs)) (contents h) = Some (contents h')"
      using malloc_refines [OF I sz(2) malloc_size, of "lo + x" h'] P(1) ok(2) c by simp
    then have S: "8 dvd ?p" "?p + length ?bs \<le> hi" "contents h ?p = None" "?sz \<le> length ?bs"
      by (simp_all split: if_splits)
    have "8 dvd lo + x" using S(1) dvd_add_left_iff [of 8 24 "lo + x"] by simp
    moreover have "heap_end h' = hi" using R by (simp add: heap_inv_def)
    ultimately have "rt_malloc c i sz k h = Some (Returns (Some ?p), k, h')"
      using m P(1) L(2) S ok(2) by (simp add: malloc_cs_def dvd_eq_mod_eq_0 [symmetric] RT_ASSERT_def)
    moreover have "length ?bs < ?sz + 48" using P(6) by auto
    moreover have "mem_size_aligned h' = mem_size_aligned h" using P(7) by (simp add: keeps_def)
    ultimately show ?thesis using Some R S c by auto
  qed
qed

subsection \<open>What rt_malloc returns\<close>

text \<open>
  \<^bold>\<open>C7\<close>: \<^verbatim>\<open>rt_malloc\<close> called by a running thread. For a size of zero or beyond the heap it returns \<^verbatim>\<open>RT_NULL\<close>.
  If the heap is locked, the caller is suspended on the semaphore and the heap is untouched. Otherwise it returns
  with the kernel as it was: the block is the first free one that is large enough (first fit, although the search
  starts at the lowest free block), it was not allocated before, it holds at least the requested size and less than
  48 bytes more than the rounded size, and the contents of all other blocks are unchanged; \<^verbatim>\<open>RT_NULL\<close> is returned
  only if every free block is too small, with one exception: the last block of the heap is not used when it fits
  exactly.
\<close>

theorem rt_malloc_outcome:
  assumes c: "caller c t k" "sems k i = Some sem" "ipc_flag (sem_flag sem)" "eligible c k u"
    and q: "sem_value sem > 0 \<longrightarrow> tq k (SuspendQ (Sem i)) = []"
    and I: "heap_inv lo hi h" and sz: "MIN_SIZE_ALIGNED \<le> mem_size_aligned h" "sz < 2 ^ 64 - 8"
  shows "if sz = 0 \<or> mem_size_aligned h < align8 sz then rt_malloc c i sz k h = Some (Returns None, k, h)
     else if sem_value sem = 0
     then \<exists>k'. rt_malloc c i sz k h = Some (Waits (malloc_size sz), k', h) \<and>
       blocked c (SuspendQ (Sem i)) t (sem_flag sem) RT_WAITING_FOREVER (upd_thread t (\<lambda>th. th\<lparr>th_error := RT_EOK\<rparr>) k) k'
     else case malloc_choice (malloc_size sz) h of
         None \<Rightarrow> rt_malloc c i sz k h = Some (Returns None, k, h) \<and>
           (\<forall>(x, y) \<in> set (blocks (offsets h)). used (hview h x) = 0 \<longrightarrow>
              y - x - SIZEOF_STRUCT_MEM < malloc_size sz \<or> (y = hsize h \<and> y - x - SIZEOF_STRUCT_MEM = malloc_size sz))
       | Some x \<Rightarrow> \<exists>h' bs. rt_malloc c i sz k h = Some (Returns (Some (lo + x + SIZEOF_STRUCT_MEM)), k, h') \<and>
           heap_inv lo hi h' \<and> contents h (lo + x + SIZEOF_STRUCT_MEM) = None \<and>
           contents h' = (contents h)(lo + x + SIZEOF_STRUCT_MEM \<mapsto> bs) \<and> sz \<le> length bs \<and> length bs < malloc_size sz + 48"
proof -
  note irq = callerD(6) [OF c(1)]
  have al: "sz \<le> align8 sz" using align8 [OF sz(2)] by simp
  show ?thesis
  proof (cases "sz = 0 \<or> mem_size_aligned h < align8 sz")
    case True
    then show ?thesis using irq by (auto simp: rt_malloc_def)
  next
    case F: False
    show ?thesis
    proof (cases "sem_value sem = 0")
      case True
      have "\<exists>k'. rt_sem_take c i RT_WAITING_FOREVER k = Some (Blocked, k') \<and>
          blocked c (SuspendQ (Sem i)) t (sem_flag sem) RT_WAITING_FOREVER (upd_thread t (\<lambda>th. th\<lparr>th_error := RT_EOK\<rparr>) k) k'"
        using sem_take_cases [OF c, of RT_WAITING_FOREVER] True by simp
      then show ?thesis using F True irq by (auto simp: rt_malloc_def malloc_size_def Let_def)
    next
      case False
      then have "lock_free i k" using c(2) q by (auto simp: lock_free_def word_gt_0)
      moreover have le: "malloc_size sz \<le> mem_size_aligned h" using F sz(1) by (auto simp: malloc_size_def)
      ultimately have M: "case malloc_choice (malloc_size sz) h of
      None \<Rightarrow> rt_malloc c i sz k h = Some (Returns None, k, h)
    | Some x \<Rightarrow> \<exists>h' bs. rt_malloc c i sz k h = Some (Returns (Some (lo + x + SIZEOF_STRUCT_MEM)), k, h') \<and> heap_inv lo hi h' \<and>
        contents h (lo + x + SIZEOF_STRUCT_MEM) = None \<and> contents h' = (contents h)(lo + x + SIZEOF_STRUCT_MEM \<mapsto> bs) \<and>
        malloc_size sz \<le> length bs \<and> length bs < malloc_size sz + 48 \<and> mem_size_aligned h' = mem_size_aligned h"
        using F by (intro malloc_unlocked [OF I _ irq]) auto
      have "sz \<le> malloc_size sz" using al by (auto simp: malloc_size_def)
      then have "\<exists>bs'. (contents h)(p \<mapsto> bs) = (contents h)(p \<mapsto> bs') \<and> sz \<le> length bs' \<and> length bs' < malloc_size sz + 48"
        if "malloc_size sz \<le> length bs" "length bs < malloc_size sz + 48" for p bs using that by (intro exI [of _ bs]) simp
      then show ?thesis using F False M malloc_choice_None [OF I _ le] by (auto split: option.splits)
    qed
  qed
qed

lemma ex_heap_choice: "sz \<le> 4000 \<Longrightarrow> malloc_choice sz ex_heap = Some 0"
  using ex_heap_ok(6) offsets_eq [OF heap_repD(1) [OF ex_heap_ok(1)]] by (simp add: malloc_choice_def ex_heap_ok(4))

theorem rt_malloc_outcome_witness:
  "\<exists>h' bs. rt_malloc 0 7 50 (ex_sem 1) ex_heap = Some (Returns (Some 4120), ex_sem 1, h') \<and>
     heap_inv 4096 8168 h' \<and> contents h' = [4120 \<mapsto> bs] \<and> 50 \<le> length bs \<and> length bs < 104"
proof -
  have "align8 50 = 56" unfolding align8_def unat_RT_ALIGN by simp
  then have s: "align8 50 = 56" "malloc_size 50 = 56" by (simp_all add: malloc_size_def)
  show ?thesis
    using rt_malloc_outcome [OF ex_sem_ok(1,3) _ ex_sem_ok(2) _ ex_heap_ok(5), of 1 50] ex_heap_choice [of 56]
    by (auto simp: s ex_heap_ok(4,7) ex_sem_ok(4))
qed

text \<open>
  \<^bold>\<open>C35\<close>: Rounding up a size wraps around: \<^verbatim>\<open>rt_malloc\<close> of a size within seven bytes of $2^{64}$ does not fail. The
  rounded size is zero, so it returns a block of fewer than 72 bytes where any free block of 24 bytes is found.
\<close>

theorem rt_malloc_size_wraps:
  assumes "caller c t k" "lock_free i k" "heap_inv lo hi h" "MIN_SIZE_ALIGNED \<le> mem_size_aligned h"
    "2 ^ 64 - 8 < sz" "sz < 2 ^ 64" "malloc_choice MIN_SIZE_ALIGNED h = Some x"
  shows "\<exists>h' bs. rt_malloc c i sz k h = Some (Returns (Some (lo + x + SIZEOF_STRUCT_MEM)), k, h') \<and>
     contents h' (lo + x + SIZEOF_STRUCT_MEM) = Some bs \<and> length bs < 72"
proof -
  obtain d where d: "sz + 7 = 2 ^ 64 + d" "d < 8" using assms(5,6) le_Suc_ex [of "2 ^ 64" "sz + 7"] by auto
  then have "(sz + 7) mod 2 ^ 64 = d" unfolding d(1) by simp
  moreover have "(sz + 7) mod 8 = d" unfolding d(1) using d(2) mod_add_left_eq [of "2 ^ 64" 8 d] by simp
  ultimately have "align8 sz = 0" unfolding align8_def unat_RT_ALIGN by simp
  then have "malloc_size sz = 24" by (simp add: malloc_size_def)
  moreover have "0 < sz" using assms(5) by simp
  ultimately show ?thesis
    using malloc_unlocked [OF assms(3,2) callerD(6) [OF assms(1)], of sz] assms(4,7) by auto
qed

theorem rt_malloc_size_wraps_witness:
  "\<exists>h' bs. rt_malloc 0 7 (2 ^ 64 - 1) (ex_sem 1) ex_heap = Some (Returns (Some 4120), ex_sem 1, h') \<and>
     contents h' 4120 = Some bs \<and> length bs < 72"
  using rt_malloc_size_wraps [OF ex_sem_ok(1) _ ex_heap_ok(5), of 7 1 "2 ^ 64 - 1" 0] ex_heap_choice [of 24]
  by (simp add: lock_free_def ex_sem_ok(3,4) ex_heap_ok(4))

subsection \<open>What rt_realloc returns\<close>

lemma free_unlocked:
  assumes I: "heap_inv lo hi h" and lock: "lock_free i k" "RT_DEBUG_NOT_IN_INTERRUPT c k = Some ()" and p: "contents h p = Some bs"
  obtains h' where "rt_free c i p k h = Some (Returns (), k, h')" "heap_inv lo hi h'" "contents h' = (contents h)(p := None)"
proof -
  have ok: "heap_ok (offsets h) h" using I by (auto simp: heap_inv_def)
  obtain x y where P: "8 \<le> length bs" "8 dvd p" "heap_ptr h \<le> p" "p + length bs \<le> heap_end h" "p = heap_ptr h + x + 24"
    by (rule contentsD [OF ok p])
  obtain h' where F: "free_locked p h = Some h'" "heap_inv lo hi h'" "contents h' = (contents h)(p := None)"
    by (rule free_refines [OF I p])
  obtain k1 where L: "rt_sem_take c i RT_WAITING_FOREVER k = Some (Done RT_EOK, k1)" "rt_sem_release c i k1 = Some (RT_EOK, k)"
    by (rule lock_roundtrip [OF lock(1)])
  have "p \<noteq> 0" "p mod 8 = 0" "p < heap_end h" using P by auto
  then have "rt_free c i p k h = Some (Returns (), k, h')"
    using P(3) F(1) L lock(2) by (simp add: rt_free_def free_cs_def)
  then show thesis using that F by blast
qed

text \<open>Copying into one's own block is a write of a client.\<close>

lemma memcpy_refines:
  assumes I: "heap_inv lo hi h" and c: "contents h p = Some bs" "contents h q = Some cs" "p \<noteq> q"
    and n: "n \<le> length bs" "n \<le> length cs" and hi: "hi \<le> 2 ^ 32"
  defines "h' \<equiv> h\<lparr>mem := rt_memcpy q p n (mem h)\<rparr>"
  shows "heap_inv lo hi h' \<and> contents h' = (contents h)(q \<mapsto> take n bs @ drop n cs)"
proof -
  have ok: "heap_ok (offsets h) h" "heap_end h = hi" using I by (auto simp: heap_inv_def)
  obtain x y where P: "bs = map (mem h) [p ..< heap_ptr h + y]" "heap_ptr h + y = p + length bs" "p + length bs \<le> heap_end h"
      "p = heap_ptr h + x + 24" by (rule contentsD [OF ok(1) c(1)])
  obtain x' y' where Q: "cs = map (mem h) [q ..< heap_ptr h + y']" "heap_ptr h + y' = q + length cs"
    by (rule contentsD [OF ok(1) c(2)])
  have sep: "p + length bs \<le> q \<or> q + length cs \<le> p"
    using contents_separate [OF ok(1)] c unfolding separate_def by blast
  have "rt_memcpy q p n (mem h) = copied q p n (mem h)"
  proof (rule memcpy_copied)
    show "n < 2 ^ 32" using n(1) P(3,4) hi ok(2) by linarith
    show "q \<le> p \<or> p + n \<le> q" using sep n by linarith
  qed
  also have "\<dots> = (\<lambda>a. if q \<le> a \<and> a < q + length cs then (take n bs @ drop n cs) ! (a - q) else mem h a)"
  proof
    fix a
    have b: "bs ! j = mem h (p + j)" if "j < length bs" for j using that P(1,2) by (metis nth_map_upt add_diff_cancel_left' length_map length_upt)
    have d: "cs ! j = mem h (q + j)" if "j < length cs" for j using that Q by (metis nth_map_upt add_diff_cancel_left' length_map length_upt)
    show "copied q p n (mem h) a = (if q \<le> a \<and> a < q + length cs then (take n bs @ drop n cs) ! (a - q) else mem h a)"
    proof (cases "q \<le> a \<and> a < q + n")
      case True
      then have "a - q < n" by linarith
      then show ?thesis using True n b [of "a - q"] by (simp add: copied_def nth_append)
    next
      case False
      then show ?thesis using n d [of "a - q"] by (auto simp: copied_def nth_append)
    qed
  qed
  finally have e: "h' = h\<lparr>mem := \<lambda>a. if q \<le> a \<and> a < q + length (take n bs @ drop n cs)
      then (take n bs @ drop n cs) ! (a - q) else mem h a\<rparr>"
    using n by (simp add: h'_def)
  show ?thesis unfolding e by (rule client_refines [OF I c(2)]) (use n in simp)
qed

text \<open>A block that cannot be resized in place is copied into a new one and released, unless there is none.\<close>

lemma realloc_moves:
  assumes c: "caller c t k" "lock_free i k" and I: "heap_inv lo hi h" and p: "contents h p = Some bs"
    and m: "8 dvd m" "0 < m" "m \<le> mem_size_aligned h" "MIN_SIZE_ALIGNED \<le> mem_size_aligned h" "hi \<le> 2 ^ 32"
  shows "\<exists>r h'. after (realloc_copy c i p m (length bs)) (AtMalloc (length bs)) (rt_malloc c i m k h) = Some (Returns r, k, h') \<and>
     heap_inv lo hi h' \<and> r = map_option (\<lambda>x. lo + x + SIZEOF_STRUCT_MEM) (malloc_choice (malloc_size m) h) \<and>
     (case r of
        None \<Rightarrow> contents h' = contents h
      | Some q \<Rightarrow> \<exists>cs. contents h' = (contents h)(p := None, q \<mapsto> cs) \<and> contents h q = None \<and>
          m \<le> length cs \<and> take (min m (length bs)) cs = take (min m (length bs)) bs)"
proof -
  note irq = callerD(6) [OF c(1)]
  have ok: "heap_ok (offsets h) h" using I by (auto simp: heap_inv_def)
  have "m < 2 ^ 64 - 8" using m(3) heap_structD(4) [OF heap_repD(1) [OF heap_okD(1) [OF ok]]] by simp
  then have "align8 m = m" using align8 [of m] m(1) by (auto elim!: dvdE)
  then have le: "malloc_size m \<le> mem_size_aligned h" "m \<le> malloc_size m" using m(3,4) by (auto simp: malloc_size_def)
  note M = malloc_unlocked [OF I c(2) irq m(2) le(1)]
  show ?thesis
  proof (cases "malloc_choice (malloc_size m) h")
    case None
    then show ?thesis using M I by (auto simp: after_def realloc_copy_def)
  next
    case (Some z)
    let ?q = "lo + z + 24" and ?m = "if length bs < m then length bs else m"
    obtain h2 cs where H: "rt_malloc c i m k h = Some (Returns (Some ?q), k, h2)" "heap_inv lo hi h2" "contents h ?q = None"
      "contents h2 = (contents h)(?q \<mapsto> cs)" "malloc_size m \<le> length cs"
      using M Some by auto
    have ne: "p \<noteq> ?q" using H(3) p by auto
    let ?h3 = "h2\<lparr>mem := rt_memcpy ?q p ?m (mem h2)\<rparr>" and ?cs = "take ?m bs @ drop ?m cs"
    have C: "heap_inv lo hi ?h3 \<and> contents ?h3 = (contents h2)(?q \<mapsto> ?cs)"
      by (rule memcpy_refines [OF H(2)]) (use H p ne le m(5) in auto)
    then have "contents ?h3 p = Some bs" using H(4) p ne by simp
    then obtain h4 where G: "rt_free c i p k ?h3 = Some (Returns (), k, h4)" "heap_inv lo hi h4"
      "contents h4 = (contents ?h3)(p := None)" using free_unlocked [OF _ c(2) irq, of lo hi ?h3 p bs] C by blast
    have "after (realloc_copy c i p m (length bs)) (AtMalloc (length bs)) (rt_malloc c i m k h) = Some (Returns (Some ?q), k, h4)"
      using H(1) G(1) by (simp add: after_def realloc_copy_def)
    moreover have "contents h4 = (contents h)(p := None, ?q \<mapsto> ?cs)" using C G(3) H(4) ne by (auto simp: fun_eq_iff)
    moreover have "m \<le> length ?cs" "take (min m (length bs)) ?cs = take (min m (length bs)) bs"
      using H(5) le(2) by (auto simp: min_def)
    ultimately show ?thesis using G(2) H(3) Some by auto
  qed
qed

lemma align8_idem: "n < 2 ^ 64 - 16 \<Longrightarrow> align8 (align8 n) = align8 n"
  using align8 [of n] align8 [of "align8 n"] by (auto elim!: dvdE)

lemma take_min_mono:
  assumes "take (min m l) xs = take (min m l) ys" "n \<le> m"
  shows "take (min n l) xs = take (min n l) ys"
proof -
  have "take (min n l) zs = take (min n l) (take (min m l) zs)" for zs :: "'a list" using assms(2) by (auto simp: min_def)
  then show ?thesis using assms(1) by metis
qed

text \<open>
  \<^bold>\<open>C12\<close>: \<^verbatim>\<open>rt_realloc\<close> of an allocated block, on an unlocked heap inside the first 4 GB of memory. It returns
  \<^verbatim>\<open>RT_NULL\<close> in exactly two cases, and then every block keeps its contents: the rounded size is beyond the heap, or the
  block cannot be resized in place and no free block fits. It is resized in place exactly when the rounded size is
  its own or more than 48 bytes smaller; otherwise it moves to the block that \<^verbatim>\<open>rt_malloc\<close> would choose. The returned
  block holds at least the requested size and begins with the bytes of the old one, as many as both have; the old
  block is gone when the block has moved; no other block has changed; and the kernel is as before.
\<close>

theorem rt_realloc_keeps_contents:
  assumes c: "caller c t k" "lock_free i k" and I: "heap_inv lo hi h" and p: "contents h p = Some bs"
    and n: "0 < n" "n < 2 ^ 64 - 16" "MIN_SIZE_ALIGNED \<le> mem_size_aligned h" "hi \<le> 2 ^ 32"
  shows "\<exists>r h'. rt_realloc c i p n k h = Some (Returns r, k, h') \<and> heap_inv lo hi h' \<and>
     r = (if mem_size_aligned h < align8 n then None
          else if length bs = align8 n \<or> align8 n + 48 < length bs then Some p
          else map_option (\<lambda>x. lo + x + SIZEOF_STRUCT_MEM) (malloc_choice (malloc_size n) h)) \<and>
     (case r of
        None \<Rightarrow> contents h' = contents h
      | Some q \<Rightarrow> \<exists>cs. contents h' = (contents h)(p := None, q \<mapsto> cs) \<and> (q = p \<or> contents h q = None) \<and>
          n \<le> length cs \<and> take (min n (length bs)) cs = take (min n (length bs)) bs)"
proof (cases "mem_size_aligned h < align8 n")
  case True
  then show ?thesis using I callerD(6) [OF c(1)] by (simp add: rt_realloc_def)
next
  case False
  let ?n = "align8 n"
  note irq = callerD(6) [OF c(1)]
  have al: "n \<le> ?n" "8 dvd ?n" "0 < ?n" "?n \<le> mem_size_aligned h" using align8 [of n] n(1,2) False by auto
  have sz: "malloc_size ?n = malloc_size n" using align8_idem [OF n(2)] by (simp add: malloc_size_def)
  have ok: "heap_ok (offsets h) h" using I by (auto simp: heap_inv_def)
  obtain x y where x: "p = heap_ptr h + x + 24" by (rule contentsD [OF ok p])
  obtain k1 where L: "rt_sem_take c i RT_WAITING_FOREVER k = Some (Done RT_EOK, k1)" "rt_sem_release c i k1 = Some (RT_EOK, k)"
    by (rule lock_roundtrip [OF c(2)])
  have r: "rt_realloc c i p n k h = realloc_cs c i p ?n k1 h"
    using False al(3) x irq L(1) by (simp add: rt_realloc_def Let_def)
  obtain r h1 where R: "realloc_locked p ?n h = Some (r, h1)" "heap_inv lo hi h1"
    "if r = Inl () then ?n \<le> length bs \<and> contents h1 = (contents h)(p \<mapsto> take ?n bs)
     else h1 = h \<and> r = Inr (length bs) \<and> length bs \<noteq> ?n \<and> length bs \<le> ?n + 48"
    "r = Inl () \<longleftrightarrow> length bs = ?n \<or> ?n + 48 < length bs"
    by (rule realloc_refines [OF I p al(4,2,3)])
  show ?thesis
  proof (cases "r = Inl ()")
    case True
    then have "rt_realloc c i p n k h = Some (Returns (Some p), k, h1)" using r R(1) L(2) by (simp add: realloc_cs_def)
    moreover have "n \<le> length bs" "contents h1 = (contents h)(p := None, p \<mapsto> take ?n bs)" using True R(3) al(1) by auto
    moreover have "n \<le> length (take ?n bs)" "take (min n (length bs)) (take ?n bs) = take (min n (length bs)) bs"
      using True R(3) al(1) by (auto simp: min_def)
    ultimately show ?thesis using R(2) True R(4) False by (intro exI [of _ "Some p"] exI [of _ h1]) auto
  next
    case F: False
    then have "h1 = h" "r = Inr (length bs)" using R(3) by simp_all
    then have r2: "rt_realloc c i p n k h = after (realloc_copy c i p ?n (length bs)) (AtMalloc (length bs)) (rt_malloc c i ?n k h)"
      using r R(1) L(2) by (simp add: realloc_cs_def)
    obtain q h' where M: "rt_realloc c i p n k h = Some (Returns q, k, h')" "heap_inv lo hi h'"
      "q = map_option (\<lambda>x. lo + x + 24) (malloc_choice (malloc_size n) h)"
      "case q of None \<Rightarrow> contents h' = contents h
       | Some q \<Rightarrow> \<exists>cs. contents h' = (contents h)(p := None, q \<mapsto> cs) \<and> contents h q = None \<and>
          ?n \<le> length cs \<and> take (min ?n (length bs)) cs = take (min ?n (length bs)) bs"
      using realloc_moves [OF c I p al(2,3,4) n(3,4)] unfolding r2 sz by blast
    have e: "q = (if mem_size_aligned h < ?n then None else if length bs = ?n \<or> ?n + 48 < length bs then Some p
        else map_option (\<lambda>x. lo + x + 24) (malloc_choice (malloc_size n) h))" using M(3) False F R(4) by simp
    have "case q of None \<Rightarrow> contents h' = contents h
       | Some q \<Rightarrow> \<exists>cs. contents h' = (contents h)(p := None, q \<mapsto> cs) \<and> (q = p \<or> contents h q = None) \<and>
          n \<le> length cs \<and> take (min n (length bs)) cs = take (min n (length bs)) bs"
    proof (cases q)
      case None
      then show ?thesis using M(4) by simp
    next
      case (Some q')
      with M(4) obtain cs where cs: "contents h' = (contents h)(p := None, q' \<mapsto> cs)" "contents h q' = None" "?n \<le> length cs"
        "take (min ?n (length bs)) cs = take (min ?n (length bs)) bs" by auto
      have "n \<le> length cs" using al(1) cs(3) by (rule order.trans)
      then show ?thesis using Some cs(1,2) take_min_mono [OF cs(4) al(1)] by auto
    qed
    then show ?thesis using M(1,2) e by blast
  qed
qed

text \<open>A heap with one block, and where the next one goes.\<close>

lemma ex_heap_block:
  obtains h bs where "heap_inv 4096 8168 h" "contents h = [4120 \<mapsto> bs]" "mem_size_aligned h = 4048" "length bs < 112"
proof -
  have "align8 64 = 64" unfolding align8_def unat_RT_ALIGN by simp
  then have s: "malloc_size 64 = 64" by (simp add: malloc_size_def)
  have "lock_free 7 (ex_sem 1)" by (simp add: lock_free_def ex_sem_ok(3,4))
  from malloc_unlocked [OF ex_heap_ok(5) this callerD(6) [OF ex_sem_ok(1)], of 64] ex_heap_choice [of 64] s
  obtain h bs where "heap_inv 4096 8168 h" "contents h = (contents ex_heap)(4120 \<mapsto> bs)" "mem_size_aligned h = mem_size_aligned ex_heap"
    "length bs < 112" by (auto simp: ex_heap_ok(4))
  then show thesis using that ex_heap_ok(4,7) by simp
qed

lemma one_block_choice:
  assumes I: "heap_inv 4096 8168 h" and c: "contents h = [4120 \<mapsto> bs]" "mem_size_aligned h = 4048" "length bs < 112" and sz: "sz \<le> 1000"
  shows "malloc_choice sz h = Some (24 + length bs)"
proof -
  have ok: "heap_ok (offsets h) h" and b: "heap_ptr h = 4096" "heap_end h = 8168" using I by (auto simp: heap_inv_def)
  note R = heap_okD(1) [OF ok]
  note D = heap_structD [OF heap_repD(1) [OF R]]
  have e: "hsize h = 4072" using D(2) b by simp
  define y where "y = 24 + length bs"
  have c4: "contents h 4120 = Some bs" using c(1) by simp
  have A: "allocated h (offsets h) = {(0, y)}"
  proof (rule set_eqI, clarify)
    fix u v
    have "contents h (4096 + u + 24) = Some (map (mem h) [4096 + u + 24 ..< 4096 + v]) \<and> u + 32 \<le> v"
      if "(u, v) \<in> allocated h (offsets h)" using contents_iff [OF R, of "4096 + u + 24"] heap_okD(2) [OF ok that] that b(1) by auto
    then have "(u, v) \<in> allocated h (offsets h) \<Longrightarrow> u = 0 \<and> v = y" using c(1) by (auto simp: y_def split: if_splits)
    moreover obtain u' v' where "(u', v') \<in> allocated h (offsets h)" "4120 = heap_ptr h + u' + 24" "length bs = v' - u' - 24" "u' + 32 \<le> v'"
      by (rule contentsD [OF ok c4])
    then have "(0, y) \<in> allocated h (offsets h)" using b(1) by (auto simp: y_def)
    ultimately show "(u, v) \<in> allocated h (offsets h) \<longleftrightarrow> (u, v) \<in> {(0, y)}" by auto
  qed
  have "(0, y) \<in> set (blocks (offsets h))" using A by (auto simp: allocated_def)
  then obtain xs zs where os: "offsets h = xs @ 0 # y # zs" by (rule blocksD)
  have "xs = []" using links_sorted [OF D(1)] os by (cases xs) auto
  moreover obtain z ws where "zs = z # ws" using D(1) os e c(3) by (cases zs) (auto simp: links_def y_def)
  ultimately have o3: "offsets h = 0 # y # z # ws" using os by simp
  have "(0, y) \<in> allocated h (offsets h)" "(y, z) \<notin> allocated h (offsets h)" "0 < y" using A by (auto simp: y_def)
  then have u: "used (hview h 0) \<noteq> 0" "used (hview h y) = 0" by (auto simp: allocated_def o3)
  have "ws = []"
  proof (cases ws)
    case (Cons w vs)
    have "(z, w) \<notin> allocated h (offsets h)" using A links_sorted [OF D(1)] o3 by auto
    then have "used (hview h z) = 0" by (auto simp: allocated_def o3 Cons)
    then show ?thesis using heap_repD(2) [OF R] u(2) by (simp add: o3 Cons)
  qed
  then have "offsets h = [0, y, 4072]" using o3 D(1) e by (simp add: links_def)
  then show ?thesis using u c sz by (simp add: malloc_choice_def y_def)
qed

theorem rt_realloc_keeps_contents_witness:
  "\<exists>h bs q cs h'. contents h 4120 = Some bs \<and> rt_realloc 0 7 4120 200 (ex_sem 1) h = Some (Returns (Some q), ex_sem 1, h') \<and>
     q \<noteq> 4120 \<and> contents h' q = Some cs \<and> 200 \<le> length cs \<and> take (length bs) cs = bs \<and> contents h' 4120 = None"
proof -
  obtain h bs where h: "heap_inv 4096 8168 h" "contents h = [4120 \<mapsto> bs]" "mem_size_aligned h = 4048" "length bs < 112"
    by (rule ex_heap_block)
  have l: "lock_free 7 (ex_sem 1)" by (simp add: lock_free_def ex_sem_ok(3,4))
  have c: "contents h 4120 = Some bs" using h(2) by simp
  have "align8 200 = 200" unfolding align8_def unat_RT_ALIGN by simp
  then have s: "align8 200 = 200" "malloc_size 200 = 200" by (simp_all add: malloc_size_def)
  obtain r h' where "rt_realloc 0 7 4120 200 (ex_sem 1) h = Some (Returns r, ex_sem 1, h')"
     "r = Some (4096 + (24 + length bs) + 24)"
     "case r of None \<Rightarrow> contents h' = contents h
      | Some q \<Rightarrow> \<exists>cs. contents h' = (contents h)(4120 := None, q \<mapsto> cs) \<and> (q = 4120 \<or> contents h q = None) \<and>
          200 \<le> length cs \<and> take (min 200 (length bs)) cs = take (min 200 (length bs)) bs"
    using rt_realloc_keeps_contents [OF ex_sem_ok(1) l h(1) c, of 200] one_block_choice [OF h, of 200] h(3,4) s by auto
  then obtain cs where "rt_realloc 0 7 4120 200 (ex_sem 1) h = Some (Returns (Some (4144 + length bs)), ex_sem 1, h')"
      "contents h' = (contents h)(4120 := None, 4144 + length bs \<mapsto> cs)" "200 \<le> length cs"
      "take (min 200 (length bs)) cs = take (min 200 (length bs)) bs" by (auto simp: add.commute)
  moreover have "min 200 (length bs) = length bs" using h(4) by simp
  ultimately show ?thesis using c
    by (intro exI [of _ h] exI [of _ bs] exI [of _ "4144 + length bs"] exI [of _ cs] exI [of _ h']) simp
qed

end
