(* ===== verification/Mempool.thy ===== *)
theory Mempool
  imports Heap_Lock Mailbox
begin

text \<open>
  The memory pools of \<^verbatim>\<open>src/mempool.c\<close>: blocks of one size, each behind a pointer-sized header. The
  header of a free block links it into the list of free blocks; the header of an allocated block
  holds the address of its pool, which is how \<^verbatim>\<open>rt_mp_free\<close> finds the pool again. Both are in the
  byte memory, next to the contents the callers write.

  A pool's address is its object identifier. Addresses and sizes are natural numbers below
  \<open>2 ^ 64\<close>, with the wrap-around written out.
\<close>

record rt_mempool =
  mp_static :: bool
  mp_start_address :: nat
  mp_size :: nat
  mp_block_size :: nat
  mp_block_list :: nat
  mp_block_total_count :: nat
  mp_block_free_count :: nat

text \<open>The kernel, the memory with the heap in it, the pools and the global error number of \<^verbatim>\<open>kservice.c\<close>.\<close>

record rt_system =
  kern :: kernel
  heap :: rt_heap
  pools :: "nat \<rightharpoonup> rt_mempool"
  rt_errno :: rt_err_t

abbreviation sys_mem :: "rt_system \<Rightarrow> memory" where
  "sys_mem w \<equiv> mem (heap w)"

abbreviation set_mem :: "memory \<Rightarrow> rt_system \<Rightarrow> rt_system" where
  "set_mem m w \<equiv> w\<lparr>heap := (heap w)\<lparr>mem := m\<rparr>\<rparr>"

abbreviation upd_pool :: "nat \<Rightarrow> rt_mempool \<Rightarrow> rt_system \<Rightarrow> rt_system" where
  "upd_pool i mp w \<equiv> w\<lparr>pools := (pools w)(i \<mapsto> mp)\<rparr>"

subsection \<open>The error number\<close>

definition rt_get_errno :: "nat \<Rightarrow> rt_system \<Rightarrow> rt_err_t" where
  "rt_get_errno c w =
     (if cpu_irq_nest (cpus (kern w) c) \<noteq> 0 then rt_errno w
      else case rt_thread_self c (kern w) of
             None \<Rightarrow> rt_errno w
           | Some t \<Rightarrow> th_error (threads (kern w) t))"

definition rt_set_errno :: "nat \<Rightarrow> rt_err_t \<Rightarrow> rt_system \<Rightarrow> rt_system" where
  "rt_set_errno c e w =
     (if cpu_irq_nest (cpus (kern w) c) \<noteq> 0 then w\<lparr>rt_errno := e\<rparr>
      else case rt_thread_self c (kern w) of
             None \<Rightarrow> w\<lparr>rt_errno := e\<rparr>
           | Some t \<Rightarrow> w\<lparr>kern := upd_thread t (\<lambda>th. th\<lparr>th_error := e\<rparr>) (kern w)\<rparr>)"

subsection \<open>Creating and deleting pools\<close>

text \<open>\<^verbatim>\<open>block_ptr + offset * (block_size + sizeof(rt_uint8_t *))\<close>\<close>

definition block_at :: "nat \<Rightarrow> nat \<Rightarrow> nat \<Rightarrow> nat" where
  "block_at block_ptr stride offset = (block_ptr + offset * stride) mod 2 ^ 64"

fun mp_link :: "nat \<Rightarrow> nat \<Rightarrow> nat \<Rightarrow> nat \<Rightarrow> memory \<Rightarrow> memory" where
  "mp_link 0 offset block_ptr stride m = m"
| "mp_link (Suc n) offset block_ptr stride m =
     mp_link n (offset + 1) block_ptr stride
       (store 8 (block_at block_ptr stride offset) (block_at block_ptr stride (offset + 1)) m)"

definition mp_chain :: "nat \<Rightarrow> nat \<Rightarrow> nat \<Rightarrow> memory \<Rightarrow> memory" where
  "mp_chain block_ptr stride count m =
     store 8 (block_at block_ptr stride (sub64 count 1)) 0 (mp_link count 0 block_ptr stride m)"

definition rt_mp_init :: "nat \<Rightarrow> nat \<Rightarrow> nat \<Rightarrow> nat \<Rightarrow> rt_system \<Rightarrow> (rt_err_t \<times> rt_system) option" where
  "rt_mp_init i start sz block_size w =
     do { RT_ASSERT (start \<noteq> 0);
          RT_ASSERT (sz > 0 \<and> block_size > 0);
          let size1 = unat (RT_ALIGN_DOWN (of_nat sz) 8);
          let bs = align8 block_size;
          let stride = add64 bs 8;
          if stride = 0 then None
          else do {
            let count = size1 div stride;
            let mp = \<lparr>mp_static = True, mp_start_address = start, mp_size = size1, mp_block_size = bs,
                      mp_block_list = start, mp_block_total_count = count, mp_block_free_count = count\<rparr>;
            let w1 = w\<lparr>kern := upd_tq (\<lambda>Q. Q(SuspendQ (Mempool i) := [])) (kern w)\<rparr>;
            Some (RT_EOK, upd_pool i mp (set_mem (mp_chain start stride count (sys_mem w)) w1)) } }"

definition rt_mp_detach :: "nat \<Rightarrow> nat \<Rightarrow> rt_system \<Rightarrow> (rt_err_t \<times> rt_system) option" where
  "rt_mp_detach c i w =
     do { mp \<leftarrow> pools w i;
          RT_ASSERT (mp_static mp);
          k1 \<leftarrow> rt_ipc_list_resume_all c (SuspendQ (Mempool i)) (kern w);
          Some (RT_EOK, w\<lparr>kern := k1, pools := (pools w)(i := None)\<rparr>) }"

text \<open>
  \<^verbatim>\<open>rt_mp_create\<close> calls \<^verbatim>\<open>rt_malloc\<close> and \<^verbatim>\<open>rt_mp_delete\<close> calls \<^verbatim>\<open>rt_free\<close>, which can wait for the heap's
  semaphore \<open>hs\<close>; the functions with the suffix \<open>_resume\<close> continue from there. The address of the
  object is an argument, \<open>None\<close> for \<^verbatim>\<open>RT_NULL\<close>.
\<close>

definition mp_created :: "nat \<Rightarrow> nat \<Rightarrow> nat \<Rightarrow> nat option \<Rightarrow> rt_system \<Rightarrow> nat option \<times> rt_system" where
  "mp_created i count bs p w =
     (case p of
        None \<Rightarrow> (None, w\<lparr>pools := (pools w)(i := None)\<rparr>)
      | Some start \<Rightarrow>
          let stride = add64 bs 8;
              mp = \<lparr>mp_static = False, mp_start_address = start, mp_size = stride * count mod 2 ^ 64, mp_block_size = bs,
                    mp_block_list = start, mp_block_total_count = count, mp_block_free_count = count\<rparr>;
              w1 = w\<lparr>kern := upd_tq (\<lambda>Q. Q(SuspendQ (Mempool i) := [])) (kern w)\<rparr>
          in (Some i, upd_pool i mp (set_mem (mp_chain start stride count (sys_mem w)) w1)))"

definition rt_mp_create_resume :: "nat \<Rightarrow> nat \<Rightarrow> nat \<Rightarrow> nat \<Rightarrow> nat \<Rightarrow> nat \<Rightarrow> rt_system \<Rightarrow> ((nat option, nat) call \<times> rt_system) option" where
  "rt_mp_create_resume c hs i count block_size asz w =
     do { (r, k, h) \<leftarrow> rt_malloc_resume c hs asz (kern w) (heap w);
          let w1 = w\<lparr>kern := k, heap := h\<rparr>;
          case r of
            Waits p \<Rightarrow> Some (Waits p, w1)
          | Returns p \<Rightarrow> let (r', w2) = mp_created i count (align8 block_size) p w1 in Some (Returns r', w2) }"

definition rt_mp_create :: "nat \<Rightarrow> nat \<Rightarrow> nat option \<Rightarrow> nat \<Rightarrow> nat \<Rightarrow> rt_system \<Rightarrow> ((nat option, nat) call \<times> rt_system) option" where
  "rt_mp_create c hs obj count block_size w =
     do { RT_DEBUG_NOT_IN_INTERRUPT c (kern w);
          RT_ASSERT (count > 0 \<and> block_size > 0);
          case obj of
            None \<Rightarrow> Some (Returns None, w)
          | Some i \<Rightarrow>
              do { let bs = align8 block_size;
                   (r, k, h) \<leftarrow> rt_malloc c hs (add64 bs 8 * count mod 2 ^ 64) (kern w) (heap w);
                   let w1 = w\<lparr>kern := k, heap := h\<rparr>;
                   case r of
                     Waits p \<Rightarrow> Some (Waits p, w1)
                   | Returns p \<Rightarrow> let (r', w2) = mp_created i count bs p w1 in Some (Returns r', w2) } }"

definition rt_mp_delete_resume :: "nat \<Rightarrow> nat \<Rightarrow> nat \<Rightarrow> nat \<Rightarrow> rt_system \<Rightarrow> ((rt_err_t, nat) call \<times> rt_system) option" where
  "rt_mp_delete_resume c hs i start w =
     do { (r, k, h) \<leftarrow> rt_free_resume c hs start (kern w) (heap w);
          let w1 = w\<lparr>kern := k, heap := h\<rparr>;
          case r of
            Waits p \<Rightarrow> Some (Waits p, w1)
          | Returns _ \<Rightarrow> Some (Returns RT_EOK, w1\<lparr>pools := (pools w1)(i := None)\<rparr>) }"

definition rt_mp_delete :: "nat \<Rightarrow> nat \<Rightarrow> nat \<Rightarrow> rt_system \<Rightarrow> ((rt_err_t, nat) call \<times> rt_system) option" where
  "rt_mp_delete c hs i w =
     do { RT_DEBUG_NOT_IN_INTERRUPT c (kern w);
          mp \<leftarrow> pools w i;
          RT_ASSERT (\<not> mp_static mp);
          k1 \<leftarrow> rt_ipc_list_resume_all c (SuspendQ (Mempool i)) (kern w);
          (r, k, h) \<leftarrow> rt_free c hs (mp_start_address mp) k1 (heap w);
          let w1 = w\<lparr>kern := k, heap := h\<rparr>;
          case r of
            Waits p \<Rightarrow> Some (Waits p, w1)
          | Returns _ \<Rightarrow> Some (Returns RT_EOK, w1\<lparr>pools := (pools w1)(i := None)\<rparr>) }"

subsection \<open>Allocating and releasing blocks\<close>

definition mp_take :: "nat \<Rightarrow> rt_system \<Rightarrow> (nat \<times> rt_system) option" where
  "mp_take i w =
     do { mp \<leftarrow> pools w i;
          let mp1 = mp\<lparr>mp_block_free_count := sub64 (mp_block_free_count mp) 1\<rparr>;
          let block_ptr = mp_block_list mp1;
          RT_ASSERT (block_ptr \<noteq> 0);
          let mp2 = mp1\<lparr>mp_block_list := load 8 (sys_mem w) block_ptr\<rparr>;
          Some (block_ptr + 8, upd_pool i mp2 (set_mem (store 8 block_ptr i (sys_mem w)) w)) }"

text \<open>
  One round of the loop: with a free block it is taken; without one the caller gives up or is
  put at the front of the waiting threads. \<open>Waits\<close> carries \<^verbatim>\<open>before_sleep\<close>.
\<close>

definition mp_alloc_loop :: "nat \<Rightarrow> nat \<Rightarrow> rt_int32_t \<Rightarrow> rt_system \<Rightarrow> ((nat option, rt_tick_t) call \<times> rt_system) option" where
  "mp_alloc_loop c i time w =
     do { mp \<leftarrow> pools w i;
          if mp_block_free_count mp = 0
          then if time = 0 then Some (Returns None, rt_set_errno c (- RT_ETIMEOUT) w)
               else do {
                 RT_DEBUG_NOT_IN_INTERRUPT c (kern w);
                 t \<leftarrow> rt_thread_self c (kern w);
                 let k1 = upd_thread t (\<lambda>th. th\<lparr>th_error := RT_EOK\<rparr>) (kern w);
                 (_, k2) \<leftarrow> rt_thread_suspend c t k1;
                 let k3 = upd_tq (q_head (SuspendQ (Mempool i)) t) k2;
                 let before_sleep = (if sint time > 0 then rt_tick_get k3 else 0);
                 k4 \<leftarrow> start_thread_timer t time k3;
                 k5 \<leftarrow> rt_schedule c k4;
                 Some (Waits before_sleep, w\<lparr>kern := k5\<rparr>) }
          else do { (p, w1) \<leftarrow> mp_take i w; Some (Returns (Some p), w1) } }"

definition rt_mp_alloc :: "nat \<Rightarrow> nat \<Rightarrow> rt_int32_t \<Rightarrow> rt_system \<Rightarrow> ((nat option, rt_tick_t) call \<times> rt_system) option" where
  "rt_mp_alloc c i time w = mp_alloc_loop c i time w"

definition rt_mp_alloc_resume :: "nat \<Rightarrow> nat \<Rightarrow> rt_int32_t \<Rightarrow> rt_tick_t \<Rightarrow> rt_system \<Rightarrow> ((nat option, rt_tick_t) call \<times> rt_system) option" where
  "rt_mp_alloc_resume c i time before_sleep w =
     do { t \<leftarrow> rt_thread_self c (kern w);
          if th_error (threads (kern w) t) \<noteq> RT_EOK then Some (Returns None, w)
          else mp_alloc_loop c i (remaining time before_sleep (rt_tick_get (kern w))) w }"

definition rt_mp_free :: "nat \<Rightarrow> nat \<Rightarrow> rt_system \<Rightarrow> rt_system option" where
  "rt_mp_free c block w =
     (if block = 0 then Some w
      else do {
        let block_ptr = sub64 block 8;
        let i = load 8 (sys_mem w) block_ptr;
        mp \<leftarrow> pools w i;
        let mp1 = mp\<lparr>mp_block_free_count := add64 (mp_block_free_count mp) 1, mp_block_list := block_ptr\<rparr>;
        let w1 = upd_pool i mp1 (set_mem (store 8 block_ptr (mp_block_list mp) (sys_mem w)) w);
        case tq (kern w1) (SuspendQ (Mempool i)) of
          [] \<Rightarrow> Some w1
        | t # _ \<Rightarrow>
            do { let k1 = upd_thread t (\<lambda>th. th\<lparr>th_error := RT_EOK\<rparr>) (kern w1);
                 (_, k2) \<leftarrow> rt_thread_resume c t k1;
                 k3 \<leftarrow> rt_schedule c k2;
                 Some (w1\<lparr>kern := k3\<rparr>) } })"

subsection \<open>The blocks of a pool\<close>

abbreviation stride_of :: "rt_mempool \<Rightarrow> nat" where
  "stride_of mp \<equiv> mp_block_size mp + 8"

definition mp_addrs :: "rt_mempool \<Rightarrow> nat set" where
  "mp_addrs mp = (\<lambda>j. mp_start_address mp + j * stride_of mp) ` {..<mp_block_total_count mp}"

fun free_list :: "nat \<Rightarrow> memory \<Rightarrow> nat \<Rightarrow> nat list" where
  "free_list 0 m p = []"
| "free_list (Suc n) m p = p # free_list n m (load 8 m p)"

abbreviation frees :: "memory \<Rightarrow> rt_mempool \<Rightarrow> nat list" where
  "frees m mp \<equiv> free_list (mp_block_free_count mp) m (mp_block_list mp)"

text \<open>
  The invariant: the pool lies in the address space, the list of free blocks has as many
  blocks as the counter says, all different and all of the pool, and every other block has the
  address of the pool in its header.
\<close>

definition mp_rep :: "nat \<Rightarrow> memory \<Rightarrow> rt_mempool \<Rightarrow> bool" where
  "mp_rep i m mp \<longleftrightarrow> 0 < mp_start_address mp \<and> mp_start_address mp + mp_block_total_count mp * stride_of mp \<le> 2 ^ 64 \<and>
     i < 2 ^ 64 \<and> mp_block_list mp < 2 ^ 64 \<and> distinct (frees m mp) \<and> set (frees m mp) \<subseteq> mp_addrs mp \<and>
     (\<forall>b \<in> mp_addrs mp - set (frees m mp). load 8 m b = i)"

lemma mp_addrs_apart:
  assumes "a \<in> mp_addrs mp" "b \<in> mp_addrs mp" "a \<noteq> b"
  shows "a + stride_of mp \<le> b \<or> b + stride_of mp \<le> a"
proof -
  obtain j k where jk: "a = mp_start_address mp + j * stride_of mp" "b = mp_start_address mp + k * stride_of mp"
    using assms(1,2) by (auto simp: mp_addrs_def)
  have "Suc x * stride_of mp \<le> y * stride_of mp" if "x < y" for x y using that by (intro mult_right_mono) auto
  moreover have "j \<noteq> k" using assms(3) jk by auto
  ultimately show ?thesis unfolding jk by (metis add.assoc add.commute add_le_cancel_left linorder_neqE_nat mult_Suc)
qed

lemma mp_addrs_bounds:
  assumes "a \<in> mp_addrs mp"
  shows "mp_start_address mp \<le> a" "a + stride_of mp \<le> mp_start_address mp + mp_block_total_count mp * stride_of mp"
proof -
  obtain j where j: "a = mp_start_address mp + j * stride_of mp" "j < mp_block_total_count mp"
    using assms by (auto simp: mp_addrs_def)
  have "Suc j * stride_of mp \<le> mp_block_total_count mp * stride_of mp" using j(2) by (intro mult_right_mono) auto
  then show "mp_start_address mp \<le> a" "a + stride_of mp \<le> mp_start_address mp + mp_block_total_count mp * stride_of mp"
    using j(1) by simp_all
qed

lemma card_mp_addrs: "card (mp_addrs mp) = mp_block_total_count mp" "finite (mp_addrs mp)"
proof -
  have "inj_on (\<lambda>j. mp_start_address mp + j * stride_of mp) {..<mp_block_total_count mp}"
    by (rule inj_onI) simp
  then show "card (mp_addrs mp) = mp_block_total_count mp" by (simp add: mp_addrs_def card_image)
  show "finite (mp_addrs mp)" by (simp add: mp_addrs_def)
qed

lemma length_free_list [simp]: "length (free_list n m p) = n"
  by (induction n arbitrary: p) auto

lemma free_list_cong:
  "(\<And>b. b \<in> set (free_list n m p) \<Longrightarrow> load 8 m' b = load 8 m b) \<Longrightarrow> free_list n m' p = free_list n m p"
  by (induction n arbitrary: p) auto

lemma load_other_block:
  assumes "a \<in> mp_addrs mp" "b \<in> mp_addrs mp" "a \<noteq> b"
  shows "load 8 (store 8 a v m) b = load 8 m b"
  using mp_addrs_apart [OF assms] by (auto intro: load_store_disjoint)

lemma load_payload:
  assumes "a \<in> mp_addrs mp" "b \<in> mp_addrs mp" "a + 8 \<le> q" "q < a + stride_of mp"
  shows "load 8 (m(q := v)) b = load 8 m b"
proof (rule load_cong)
  show "(m(q := v)) x = m x" if "b \<le> x" "x < b + 8" for x
    using that assms mp_addrs_apart [OF assms(1,2)] by (cases "a = b") auto
qed

lemma mp_repD:
  assumes "mp_rep i m mp"
  shows "0 < mp_start_address mp" "mp_start_address mp + mp_block_total_count mp * stride_of mp \<le> 2 ^ 64" "i < 2 ^ 64"
    "mp_block_list mp < 2 ^ 64" "distinct (frees m mp)" "set (frees m mp) \<subseteq> mp_addrs mp"
    "b \<in> mp_addrs mp \<Longrightarrow> b \<notin> set (frees m mp) \<Longrightarrow> load 8 m b = i"
  using assms unfolding mp_rep_def by blast+

lemma mp_rep_counts:
  assumes "mp_rep i m mp"
  shows "mp_block_free_count mp + card (mp_addrs mp - set (frees m mp)) = mp_block_total_count mp"
    "mp_block_total_count mp < 2 ^ 64"
proof -
  have "card (set (frees m mp)) = mp_block_free_count mp" using assms by (simp add: mp_rep_def distinct_card)
  then show "mp_block_free_count mp + card (mp_addrs mp - set (frees m mp)) = mp_block_total_count mp"
    using assms card_mp_addrs [of mp] card_mono [of "mp_addrs mp" "set (frees m mp)"]
    by (simp add: mp_rep_def card_Diff_subset)
  have "mp_block_total_count mp * 1 \<le> mp_block_total_count mp * stride_of mp" by (intro mult_left_mono) auto
  then show "mp_block_total_count mp < 2 ^ 64" using mp_repD(1,2) [OF assms] by linarith
qed

definition took :: "memory \<Rightarrow> rt_mempool \<Rightarrow> rt_mempool" where
  "took m mp = mp\<lparr>mp_block_free_count := mp_block_free_count mp - 1, mp_block_list := load 8 m (mp_block_list mp)\<rparr>"

definition gave :: "nat \<Rightarrow> rt_mempool \<Rightarrow> rt_mempool" where
  "gave b mp = mp\<lparr>mp_block_free_count := mp_block_free_count mp + 1, mp_block_list := b\<rparr>"

lemma mp_addrs_took [simp]: "mp_addrs (took m mp) = mp_addrs mp" "mp_addrs (gave b mp) = mp_addrs mp"
  by (simp_all add: mp_addrs_def took_def gave_def)

lemma mp_rep_take:
  assumes rep: "mp_rep i m mp" and nz: "mp_block_free_count mp \<noteq> 0"
  shows "mp_block_list mp \<in> set (frees m mp)" "mp_block_list mp \<in> mp_addrs mp"
    "mp_rep i (store 8 (mp_block_list mp) i m) (took m mp)"
    "set (frees (store 8 (mp_block_list mp) i m) (took m mp)) = set (frees m mp) - {mp_block_list mp}"
proof -
  let ?b = "mp_block_list mp" and ?m = "store 8 (mp_block_list mp) i m"
  obtain n where n: "mp_block_free_count mp = Suc n" using nz by (cases "mp_block_free_count mp") auto
  then have fs: "frees m mp = ?b # free_list n m (load 8 m ?b)" by simp
  show b: "?b \<in> set (frees m mp)" "?b \<in> mp_addrs mp" using rep by (auto simp: fs mp_rep_def)
  have sub: "set (free_list n m (load 8 m ?b)) \<subseteq> mp_addrs mp" "distinct (free_list n m (load 8 m ?b))"
    "?b \<notin> set (free_list n m (load 8 m ?b))"
    using rep unfolding mp_rep_def fs by auto
  have "free_list n ?m (load 8 m ?b) = free_list n m (load 8 m ?b)"
    by (rule free_list_cong) (use load_other_block [OF b(2)] sub in blast)
  then have fs': "frees ?m (took m mp) = free_list n m (load 8 m ?b)" by (simp add: took_def n)
  then show "set (frees ?m (took m mp)) = set (frees m mp) - {?b}" using sub(3) by (auto simp: fs)
  have hd: "load 8 ?m x = i" if x: "x \<in> mp_addrs mp - set (free_list n m (load 8 m ?b))" for x
  proof (cases "x = ?b")
    case True
    then show ?thesis using mp_repD(3) [OF rep] by simp
  next
    case False
    then have "load 8 m x = i" using mp_repD(7) [OF rep, of x] x by (auto simp: fs)
    then show ?thesis using load_other_block [OF b(2), of x] x False by auto
  qed
  have "load 8 m ?b < 2 ^ 64" using load_less [of 8 m ?b] by simp
  then show "mp_rep i ?m (took m mp)" using mp_repD(1-3) [OF rep] sub(1,2) hd
    unfolding mp_rep_def mp_addrs_took fs' by (simp add: took_def)
qed

lemma mp_rep_give:
  assumes rep: "mp_rep i m mp" and b: "b \<in> mp_addrs mp - set (frees m mp)"
  shows "mp_rep i (store 8 b (mp_block_list mp) m) (gave b mp)"
    "set (frees (store 8 b (mp_block_list mp) m) (gave b mp)) = insert b (set (frees m mp))"
    "load 8 m b = i" "mp_block_free_count mp + 1 < 2 ^ 64" "0 < b" "b + 8 \<le> 2 ^ 64"
proof -
  let ?m = "store 8 b (mp_block_list mp) m"
  have l: "load 8 ?m b = mp_block_list mp" using rep by (simp add: mp_rep_def)
  have other: "load 8 ?m x = load 8 m x" if "x \<in> mp_addrs mp" "x \<noteq> b" for x
    using load_other_block [of b mp x] b that by auto
  have "free_list (mp_block_free_count mp) ?m (mp_block_list mp) = frees m mp"
    by (rule free_list_cong) (use rep b other in \<open>auto simp: mp_rep_def\<close>)
  then have fs: "frees ?m (gave b mp) = b # frees m mp" by (simp add: gave_def l del: load_store)
  then show "set (frees ?m (gave b mp)) = insert b (set (frees m mp))" by simp
  have "b < 2 ^ 64" using mp_addrs_bounds(2) [of b mp] b rep by (simp add: mp_rep_def)
  then show "mp_rep i ?m (gave b mp)" using mp_repD [OF rep] b other
    unfolding mp_rep_def mp_addrs_took fs by (auto simp: gave_def)
  show "load 8 m b = i" using rep b by (auto simp: mp_rep_def)
  have "b \<in> mp_addrs mp - set (frees m mp)" "finite (mp_addrs mp - set (frees m mp))" using b card_mp_addrs(2) by auto
  then have "card (mp_addrs mp - set (frees m mp)) > 0" by (auto simp: card_gt_0_iff)
  then show "mp_block_free_count mp + 1 < 2 ^ 64" using mp_rep_counts [OF rep] by linarith
  show "0 < b" "b + 8 \<le> 2 ^ 64" using mp_addrs_bounds [of b mp] b rep by (auto simp: mp_rep_def)
qed

lemma mp_rep_write:
  assumes rep: "mp_rep i m mp" and b: "b \<in> mp_addrs mp" and q: "b + 8 \<le> q" "q < b + stride_of mp"
  shows "mp_rep i (m(q := v)) mp" "frees (m(q := v)) mp = frees m mp"
proof -
  have "load 8 (m(q := v)) x = load 8 m x" if "x \<in> mp_addrs mp" for x by (rule load_payload [OF b that q])
  moreover from this show "frees (m(q := v)) mp = frees m mp"
    by (intro free_list_cong) (use rep in \<open>auto simp: mp_rep_def\<close>)
  ultimately show "mp_rep i (m(q := v)) mp" using rep by (auto simp: mp_rep_def)
qed

subsection \<open>A fresh pool\<close>

lemma block_at [simp]: "bp + j * st < 2 ^ 64 \<Longrightarrow> block_at bp st j = bp + j * st"
  by (simp add: block_at_def)

lemma blocks_apart: "j < n \<Longrightarrow> 8 \<le> st \<Longrightarrow> bp + j * st + 8 \<le> bp + n * (st :: nat)"
proof -
  assume "j < n" "8 \<le> st"
  then have "Suc j * st \<le> n * st" by (intro mult_right_mono) auto
  then show ?thesis using \<open>8 \<le> st\<close> by simp
qed

lemma block_apart:
  fixes st :: nat
  assumes "j \<noteq> k" "8 \<le> st"
  shows "bp + j * st + 8 \<le> bp + k * st \<or> bp + k * st + 8 \<le> bp + j * st"
  using assms blocks_apart [of j k st bp] blocks_apart [of k j st bp] by (auto simp: neq_iff)

lemma mp_link_outside:
  assumes "8 \<le> st" "bp + (off + n) * st \<le> 2 ^ 64" "q < bp + off * st \<or> bp + (off + n) * st \<le> q"
  shows "mp_link n off bp st m q = m q"
  using assms
proof (induction n arbitrary: off m)
  case (Suc n)
  let ?m = "store 8 (block_at bp st off) (block_at bp st (off + 1)) m"
  have a: "bp + off * st + 8 \<le> bp + (off + Suc n) * st" using blocks_apart [of off "off + Suc n" st bp] Suc.prems(1) by simp
  then have b: "block_at bp st off = bp + off * st" using Suc.prems(2) by simp
  have o: "bp + off * st \<le> bp + (off + 1) * st" by simp
  have "mp_link n (off + 1) bp st ?m q = ?m q"
    by (rule Suc.IH [OF Suc.prems(1)]) (use Suc.prems(2,3) o in \<open>auto simp: algebra_simps\<close>)
  also have "\<dots> = m q" unfolding b by (rule store_outside) (use Suc.prems(3) a in linarith)
  finally show ?case by simp
qed simp

lemma mp_link_load:
  assumes "8 \<le> st" "bp + (off + n) * st \<le> 2 ^ 64" "off \<le> j" "j < off + n"
  shows "load 8 (mp_link n off bp st m) (bp + j * st) = block_at bp st (j + 1)"
  using assms
proof (induction n arbitrary: off m)
  case (Suc n)
  let ?m = "store 8 (block_at bp st off) (block_at bp st (off + 1)) m"
  have "bp + off * st + 8 \<le> bp + (off + Suc n) * st" using blocks_apart [of off "off + Suc n" st bp] Suc.prems(1) by simp
  then have b: "block_at bp st off = bp + off * st" using Suc.prems(2) by simp
  have le: "bp + (off + 1 + n) * st \<le> 2 ^ 64" using Suc.prems(2) by simp
  show ?case
  proof (cases "j = off")
    case True
    have o: "bp + off * st + 8 \<le> bp + (off + 1) * st" using blocks_apart [of off "off + 1" st bp] Suc.prems(1) by simp
    have "load 8 (mp_link n (off + 1) bp st ?m) (bp + off * st) = load 8 ?m (bp + off * st)"
      by (rule load_cong, rule mp_link_outside [OF Suc.prems(1) le]) (use o in linarith)
    also have "\<dots> = block_at bp st (off + 1)" unfolding b by (simp add: block_at_def)
    finally show ?thesis using True by simp
  next
    case False
    then show ?thesis using Suc.IH [of "off + 1" ?m] Suc.prems le by simp
  qed
qed simp

lemma mp_chain_load:
  assumes "8 \<le> st" "bp + n * st \<le> 2 ^ 64" "0 < n" "n < 2 ^ 64"
  shows "j < n \<Longrightarrow> load 8 (mp_chain bp st n m) (bp + j * st) = (if j = n - 1 then 0 else bp + (j + 1) * st)"
    "q < bp \<or> bp + n * st \<le> q \<Longrightarrow> mp_chain bp st n m q = m q"
proof -
  have n1: "sub64 n 1 = n - 1" using assms(3,4) by simp
  have e: "bp + (n - 1) * st + 8 \<le> bp + n * st" using blocks_apart [of "n - 1" n st bp] assms by simp
  then have b: "block_at bp st (n - 1) = bp + (n - 1) * st" using assms(2) by simp
  show "load 8 (mp_chain bp st n m) (bp + j * st) = (if j = n - 1 then 0 else bp + (j + 1) * st)" if "j < n"
  proof (cases "j = n - 1")
    case True
    then show ?thesis unfolding mp_chain_def n1 b by simp
  next
    case False
    then have "bp + (j + 1) * st + 8 \<le> bp + n * st" using blocks_apart [of "j + 1" n st bp] that assms(1) by simp
    then have "block_at bp st (j + 1) = bp + (j + 1) * st" using assms(2) by (intro block_at) linarith
    moreover have "load 8 (mp_chain bp st n m) (bp + j * st) = load 8 (mp_link n 0 bp st m) (bp + j * st)"
      unfolding mp_chain_def n1 b by (rule load_store_disjoint) (use block_apart [OF False assms(1), of bp] in auto)
    ultimately show ?thesis using False mp_link_load [of st bp 0 n j m] assms that by simp
  qed
  show "mp_chain bp st n m q = m q" if "q < bp \<or> bp + n * st \<le> q"
  proof -
    have "bp \<le> bp + (n - 1) * st" by simp
    then have "mp_chain bp st n m q = mp_link n 0 bp st m q"
      unfolding mp_chain_def n1 b by (intro store_outside) (use that e in linarith)
    then show ?thesis using mp_link_outside [of st bp 0 n q m] assms that by simp
  qed
qed

lemma mp_chain_list:
  assumes "8 \<le> st" "bp + n * st \<le> 2 ^ 64" "n < 2 ^ 64" "j \<le> n"
  shows "free_list (n - j) (mp_chain bp st n m) (if j = n then 0 else bp + j * st) = map (\<lambda>k. bp + k * st) [j..<n]"
  using assms(4)
proof (induction rule: inc_induct)
  case (step k)
  have k: "n - k = Suc (n - Suc k)" "k \<noteq> n" using step.hyps(2) by auto
  have "load 8 (mp_chain bp st n m) (bp + k * st) = (if Suc k = n then 0 else bp + Suc k * st)"
    using mp_chain_load(1) [OF assms(1,2) _ assms(3), of k m] step.hyps(2) by auto
  then show ?case using step.IH step.hyps(2) k by (simp add: upt_conv_Cons)
qed simp

lemma mp_fresh:
  assumes "0 < start" "bs mod 8 = 0" "start + n * (bs + 8) \<le> 2 ^ 64" "0 < n" "i < 2 ^ 64"
    and mp: "mp = \<lparr>mp_static = b, mp_start_address = start, mp_size = z, mp_block_size = bs,
      mp_block_list = start, mp_block_total_count = n, mp_block_free_count = n\<rparr>"
  shows "mp_rep i (mp_chain start (bs + 8) n m) mp" "set (frees (mp_chain start (bs + 8) n m) mp) = mp_addrs mp"
proof -
  have "n * 1 \<le> n * (bs + 8)" by (intro mult_left_mono) auto
  then have n: "n < 2 ^ 64" "start < 2 ^ 64" using assms(1,3,4) by linarith+
  have fs: "frees (mp_chain start (bs + 8) n m) mp = map (\<lambda>k. start + k * (bs + 8)) [0..<n]"
    using mp_chain_list [of "bs + 8" start n 0 m] assms(3,4) n(1) by (simp add: mp)
  then show s: "set (frees (mp_chain start (bs + 8) n m) mp) = mp_addrs mp"
    by (auto simp: mp mp_addrs_def)
  have "distinct (frees (mp_chain start (bs + 8) n m) mp)" unfolding fs by (simp add: distinct_map inj_on_def)
  then show "mp_rep i (mp_chain start (bs + 8) n m) mp" unfolding mp_rep_def s
    using assms n by simp
qed

subsection \<open>The outcomes of the operations\<close>

lemma mp_take_eq:
  assumes "pools w i = Some mp" "mp_rep i (sys_mem w) mp" "mp_block_free_count mp \<noteq> 0"
  shows "mp_take i w = Some (mp_block_list mp + 8,
    upd_pool i (took (sys_mem w) mp) (set_mem (store 8 (mp_block_list mp) i (sys_mem w)) w))"
proof -
  have "mp_block_list mp \<noteq> 0" using mp_rep_take(2) [OF assms(2,3)] mp_addrs_bounds(1) mp_repD(1) [OF assms(2)] by fastforce
  moreover have "sub64 (mp_block_free_count mp) 1 = mp_block_free_count mp - 1"
    using assms(3) mp_rep_counts [OF assms(2)] by (intro sub64) auto
  ultimately show ?thesis using assms(1) unfolding mp_take_def took_def by (simp add: Let_def)
qed

lemma mp_alloc_cases:
  assumes call: "caller c t (kern w)" and el: "eligible c (kern w) u" and mp: "pools w i = Some mp" "mp_rep i (sys_mem w) mp"
    and tm: "time = 0 \<or> wait_time time"
  shows "if mp_block_free_count mp \<noteq> 0
     then mp_alloc_loop c i time w = Some (Returns (Some (mp_block_list mp + 8)),
       upd_pool i (took (sys_mem w) mp) (set_mem (store 8 (mp_block_list mp) i (sys_mem w)) w))
     else if time = 0
     then mp_alloc_loop c i time w =
       Some (Returns None, w\<lparr>kern := upd_thread t (\<lambda>th. th\<lparr>th_error := - RT_ETIMEOUT\<rparr>) (kern w)\<rparr>)
     else \<exists>b k'. mp_alloc_loop c i time w = Some (Waits b, w\<lparr>kern := k'\<rparr>) \<and>
       blocked_at c (SuspendQ (Mempool i)) t (t # tq (kern w) (SuspendQ (Mempool i))) time (no_error t (kern w)) k'"
proof (cases "mp_block_free_count mp \<noteq> 0")
  case True
  then show ?thesis using mp_take_eq [OF mp True] mp(1) by (simp add: mp_alloc_loop_def)
next
  case empty: False
  note C = callerD [OF call] callerD [OF caller_error [OF call, of t 0]]
  have nest: "cpu_irq_nest (cpus (kern w) c) = 0" using C(2) by (simp add: running_on_def)
  show ?thesis
  proof (cases "time = 0")
    case True
    then show ?thesis using empty mp(1) C(4) nest by (simp add: mp_alloc_loop_def rt_set_errno_def)
  next
    case False
    let ?k = "no_error t (kern w)" and ?q = "SuspendQ (Mempool i)"
    obtain k2 where k2: "rt_thread_suspend c t ?k = Some (0, k2)" "kernel_ok k2"
      "threads k2 = (threads ?k)(t := set_stat 2 (threads ?k t))" "tq k2 = tq ?k" "ipcs k2 = ipcs ?k" "hart_frame ?k k2"
      by (rule kernel_ok_suspend [OF C(8-10)])
    have q: "wait_queue ?q" by blast
    have nq: "t \<notin> set (tq ?k j)" for j by (rule running_not_queued [OF kernel_okD(1) [OF C(8)] C(10)])
    have qk: "q_ok (tq ?k)" using kernel_okD(1) [OF C(8)] by (simp add: sched_ok_def rq_ok_def)
    let ?xs = "t # tq (kern w) ?q"
    let ?k3 = "upd_tq (\<lambda>Q. Q(?q := ?xs)) k2"
    have k3: "upd_tq (q_head ?q t) k2 = ?k3" using k2(4) by (simp add: q_head_def upd_tq_def)
    have "distinct ?xs" using nq [of ?q] q_ok_distinct [OF qk, of ?q] by simp
    then have ok3: "kernel_ok ?k3" using suspended_enqueue_ok [OF k2(2-4) q nq, of ?xs] by simp
    have fr: "hart_frame ?k ?k3" by (rule hart_frame_trans [OF k2(6) hart_frame_upd(4)])
    have el': "eligible c ?k u" using el by (simp add: eligible_error)
    have "threads ?k3 = (threads ?k)(t := set_stat 2 (threads ?k t))" "tq ?k3 = (tq ?k)(?q := ?xs)" "ipcs ?k3 = ipcs ?k"
      by (simp_all only: upd_tq_sel ipcs_upd k2(3-5))
    note S = suspended_schedule_ok [OF C(9,10) el' ok3 this fr, of time]
    obtain k4 k5 where k5: "start_thread_timer t time ?k3 = Some k4" "rt_schedule c k4 = Some k5"
      "blocked_at c ?q t ?xs time ?k k5"
      using S tm False by blast
    then have "mp_alloc_loop c i time w = Some (Waits (if sint time > 0 then rt_tick_get ?k3 else 0), w\<lparr>kern := k5\<rparr>)"
      using empty False mp(1) C(4,6) k2(1) by (simp add: mp_alloc_loop_def k3 Let_def)
    then show ?thesis using empty False k5(3) by auto
  qed
qed

lemma mp_free_cases:
  assumes call: "caller c t (kern w)" and mp: "pools w i = Some mp" "mp_rep i (sys_mem w) mp"
    and b: "b \<in> mp_addrs mp - set (frees (sys_mem w) mp)"
  shows "\<exists>k'. rt_mp_free c (b + 8) w =
      Some ((upd_pool i (gave b mp) (set_mem (store 8 b (mp_block_list mp) (sys_mem w)) w))\<lparr>kern := k'\<rparr>) \<and>
    (case tq (kern w) (SuspendQ (Mempool i)) of
       [] \<Rightarrow> k' = kern w
     | v # vs \<Rightarrow> woken c (SuspendQ (Mempool i)) v vs (no_error v (kern w)) k')"
proof -
  note G = mp_rep_give [OF mp(2) b]
  have s8: "sub64 (b + 8) 8 = b" using G(5,6) mp_addrs_bounds(2) [of b mp] b mp_repD(2) [OF mp(2)]
    by (cases "b + 8 < 2 ^ 64") (auto simp: sub64_def)
  have a1: "add64 (mp_block_free_count mp) (Suc 0) = Suc (mp_block_free_count mp)" using G(4) by simp
  let ?w1 = "upd_pool i (gave b mp) (set_mem (store 8 b (mp_block_list mp) (sys_mem w)) w)"
  let ?q = "SuspendQ (Mempool i)"
  have f: "rt_mp_free c (b + 8) w = (case tq (kern w) ?q of [] \<Rightarrow> Some ?w1 | v # _ \<Rightarrow>
     do { (_, k2) \<leftarrow> rt_thread_resume c v (no_error v (kern w)); k3 \<leftarrow> rt_schedule c k2; Some (?w1\<lparr>kern := k3\<rparr>) })"
    unfolding rt_mp_free_def Let_def s8 G(3) gave_def mp(1) by (simp add: a1 split: list.split)
  show ?thesis
  proof (cases "tq (kern w) ?q")
    case Nil
    then show ?thesis using f by (intro exI [of _ "kern w"]) simp
  next
    case (Cons v vs)
    have "tq (no_error v (kern w)) ?q = v # vs" using Cons by simp
    note R = resume_schedule_ok [OF callerD(1-3) [OF caller_error [OF call, of v 0]] _ this]
    obtain k1 k' where k': "rt_ipc_list_resume c ?q (no_error v (kern w)) = Some k1" "rt_schedule c k1 = Some k'"
      "woken c ?q v vs (no_error v (kern w)) k'" using R by blast
    then obtain e where "rt_thread_resume c v (no_error v (kern w)) = Some (e, k1)"
      using Cons by (auto simp: rt_ipc_list_resume_def first_of_def split: Option.bind_splits)
    then show ?thesis using f Cons k'(2,3) by (intro exI [of _ k']) simp
  qed
qed

subsection \<open>Runs of a pool\<close>

definition mp_out :: "nat \<Rightarrow> rt_system \<Rightarrow> nat set" where
  "mp_out i w = (case pools w i of None \<Rightarrow> {} | Some mp \<Rightarrow> (\<lambda>b. b + 8) ` (mp_addrs mp - set (frees (sys_mem w) mp)))"

definition mp_inv :: "nat \<Rightarrow> nat set \<Rightarrow> rt_system \<Rightarrow> bool" where
  "mp_inv i B w \<longleftrightarrow> (\<exists>mp. pools w i = Some mp \<and> mp_rep i (sys_mem w) mp \<and> B = (\<lambda>b. b + 8) ` mp_addrs mp)"

text \<open>The abstract pool: the set of the blocks that are handed out, a subset of the blocks \<open>B\<close> of the pool.\<close>

datatype mp_event = Got nat | Exhausted | Gave nat | Other

fun mp_spec :: "nat set \<Rightarrow> mp_event \<Rightarrow> nat set \<Rightarrow> nat set option" where
  "mp_spec B (Got p) A = (if p \<in> B - A then Some (insert p A) else None)"
| "mp_spec B Exhausted A = (if A = B then Some A else None)"
| "mp_spec B (Gave p) A = (if p \<in> A then Some (A - {p}) else None)"
| "mp_spec B Other A = Some A"

definition alloc_event :: "(nat option, rt_tick_t) call \<Rightarrow> mp_event" where
  "alloc_event r = (case r of Returns (Some p) \<Rightarrow> Got p | _ \<Rightarrow> Exhausted)"

text \<open>
  The calls of running threads, threads that go on after having waited, writes into a block
  that is handed out, and steps of the rest of the system, which leave the pool's memory alone.
\<close>

inductive mp_step :: "nat \<Rightarrow> rt_system \<Rightarrow> mp_event \<Rightarrow> rt_system \<Rightarrow> bool" for i where
  alloc: "caller c t (kern w) \<Longrightarrow> eligible c (kern w) u \<Longrightarrow> time = 0 \<or> wait_time time \<Longrightarrow>
     rt_mp_alloc c i time w = Some (r, w') \<Longrightarrow> mp_step i w (alloc_event r) w'"
| alloc_resume: "caller c t (kern w) \<Longrightarrow> eligible c (kern w) u \<Longrightarrow> th_error (threads (kern w) t) = RT_EOK \<Longrightarrow>
     remaining time before (rt_tick_get (kern w)) = 0 \<or> wait_time (remaining time before (rt_tick_get (kern w))) \<Longrightarrow>
     rt_mp_alloc_resume c i time before w = Some (r, w') \<Longrightarrow> mp_step i w (alloc_event r) w'"
| alloc_failed: "caller c t (kern w) \<Longrightarrow> th_error (threads (kern w) t) \<noteq> RT_EOK \<Longrightarrow>
     rt_mp_alloc_resume c i time before w = Some (r, w') \<Longrightarrow> mp_step i w Other w'"
| free: "caller c t (kern w) \<Longrightarrow> p \<in> mp_out i w \<Longrightarrow> rt_mp_free c p w = Some w' \<Longrightarrow> mp_step i w (Gave p) w'"
| store: "pools w i = Some mp \<Longrightarrow> p \<in> mp_out i w \<Longrightarrow> p \<le> q \<Longrightarrow> q < p + mp_block_size mp \<Longrightarrow>
     mp_step i w Other (set_mem ((sys_mem w)(q := v)) w)"
| environment: "pools w i = Some mp \<Longrightarrow> pools w' i = Some mp \<Longrightarrow>
     (\<And>b q. b \<in> mp_addrs mp \<Longrightarrow> b \<le> q \<Longrightarrow> q < b + 8 \<Longrightarrow> sys_mem w' q = sys_mem w q) \<Longrightarrow> mp_step i w Other w'"

definition mp_simulates :: "nat \<Rightarrow> nat set \<Rightarrow> rt_system \<Rightarrow> mp_event \<Rightarrow> rt_system \<Rightarrow> bool" where
  "mp_simulates i B w e w' \<longleftrightarrow> mp_inv i B w' \<and> mp_spec B e (mp_out i w) = Some (mp_out i w')"

lemma mp_simulates_same:
  assumes "pools w i = Some mp" "mp_rep i (sys_mem w) mp" "B = (\<lambda>b. b + 8) ` mp_addrs mp"
    and "pools w' i = Some mp" "\<And>b. b \<in> mp_addrs mp \<Longrightarrow> load 8 (sys_mem w') b = load 8 (sys_mem w) b"
  shows "mp_simulates i B w Other w'" "mp_block_free_count mp = 0 \<Longrightarrow> mp_simulates i B w Exhausted w'"
proof -
  have fs: "frees (sys_mem w') mp = frees (sys_mem w) mp"
    by (rule free_list_cong) (use assms(5) mp_repD(6) [OF assms(2)] in blast)
  then have "mp_rep i (sys_mem w') mp" using assms(2,5) unfolding mp_rep_def by auto
  then show "mp_simulates i B w Other w'" "mp_block_free_count mp = 0 \<Longrightarrow> mp_simulates i B w Exhausted w'"
    using assms(1-4) fs by (auto simp: mp_simulates_def mp_inv_def mp_out_def)
qed

lemma image_add8: "(\<lambda>b. b + 8) ` (A - X) = (\<lambda>b. b + 8) ` A - (\<lambda>b. b + 8) ` (X :: nat set)"
  by auto

lemma mp_alloc_simulates:
  assumes inv: "mp_inv i B w" and call: "caller c t (kern w)" "eligible c (kern w) u" "time = 0 \<or> wait_time time"
    and r: "mp_alloc_loop c i time w = Some (r, w')"
  shows "mp_simulates i B w (alloc_event r) w'"
proof -
  obtain mp where mp: "pools w i = Some mp" "mp_rep i (sys_mem w) mp" "B = (\<lambda>b. b + 8) ` mp_addrs mp"
    using inv by (auto simp: mp_inv_def)
  note C = mp_alloc_cases [OF call(1,2) mp(1,2) call(3)]
  show ?thesis
  proof (cases "mp_block_free_count mp = 0")
    case True
    then have "alloc_event r = Exhausted \<and> (\<exists>k'. w' = w\<lparr>kern := k'\<rparr>)"
      using C r by (auto simp: alloc_event_def split: if_splits)
    then show ?thesis using mp_simulates_same(2) [OF mp, of w'] mp(1) True by auto
  next
    case False
    let ?b = "mp_block_list mp" and ?m = "store 8 (mp_block_list mp) i (sys_mem w)"
    note T = mp_rep_take [OF mp(2) False]
    have w': "r = Returns (Some (?b + 8))" "w' = upd_pool i (took (sys_mem w) mp) (set_mem ?m w)" using C r False by auto
    have "mp_out i w' = insert (?b + 8) (mp_out i w)" using T(2,4) by (auto simp: w' mp_out_def mp(1))
    moreover have "?b + 8 \<in> B - mp_out i w" using T(1,2) by (auto simp: mp(3) mp_out_def mp(1))
    moreover have "mp_inv i B w'" using T(3) by (auto simp: mp_inv_def w' mp(3))
    ultimately show ?thesis by (simp add: mp_simulates_def alloc_event_def w'(1))
  qed
qed

lemma mp_free_simulates:
  assumes inv: "mp_inv i B w" and call: "caller c t (kern w)" and p: "p \<in> mp_out i w" and r: "rt_mp_free c p w = Some w'"
  shows "mp_simulates i B w (Gave p) w'"
proof -
  obtain mp where mp: "pools w i = Some mp" "mp_rep i (sys_mem w) mp" "B = (\<lambda>b. b + 8) ` mp_addrs mp"
    using inv by (auto simp: mp_inv_def)
  obtain b where b: "p = b + 8" "b \<in> mp_addrs mp - set (frees (sys_mem w) mp)" using p by (auto simp: mp_out_def mp(1))
  note G = mp_rep_give [OF mp(2) b(2)]
  let ?m = "store 8 b (mp_block_list mp) (sys_mem w)"
  obtain k' where w': "w' = (upd_pool i (gave b mp) (set_mem ?m w))\<lparr>kern := k'\<rparr>"
    using mp_free_cases [OF call mp(1,2) b(2)] r b(1) by auto
  have "mp_inv i B w'" unfolding mp_inv_def using G(1) by (intro exI [of _ "gave b mp"]) (simp add: w' mp(3))
  moreover have "mp_out i w' = (\<lambda>b. b + 8) ` (mp_addrs mp - insert b (set (frees (sys_mem w) mp)))"
    using G(2) by (simp add: w' mp_out_def)
  then have "mp_out i w' = mp_out i w - {p}" by (auto simp: mp_out_def mp(1) b(1))
  ultimately show ?thesis using p by (simp add: mp_simulates_def)
qed

lemma mp_step_simulates:
  assumes inv: "mp_inv i B w" and st: "mp_step i w e w'"
  shows "mp_simulates i B w e w'"
proof -
  obtain mp where mp: "pools w i = Some mp" "mp_rep i (sys_mem w) mp" "B = (\<lambda>b. b + 8) ` mp_addrs mp"
    using inv by (auto simp: mp_inv_def)
  show ?thesis using st
  proof cases
    case (alloc c t u time r)
    then show ?thesis using mp_alloc_simulates [OF inv alloc(2-4)] by (simp add: rt_mp_alloc_def)
  next
    case (alloc_resume c t u time before r)
    then have "mp_alloc_loop c i (remaining time before (rt_tick_get (kern w))) w = Some (r, w')"
      using callerD(4) [OF alloc_resume(2)] by (simp add: rt_mp_alloc_resume_def)
    then show ?thesis using mp_alloc_simulates [OF inv alloc_resume(2,3,5)] alloc_resume(1) by simp
  next
    case (alloc_failed c t time before r)
    then have "w' = w" using callerD(4) [OF alloc_failed(2)] by (simp add: rt_mp_alloc_resume_def)
    then show ?thesis using mp_simulates_same(1) [OF mp mp(1)] alloc_failed(1) by simp
  next
    case (free c t p)
    then show ?thesis using mp_free_simulates [OF inv free(2-4)] by simp
  next
    case (store mp' p q v)
    then obtain b where b: "p = b + 8" "b \<in> mp_addrs mp" using mp(1) by (auto simp: mp_out_def)
    have "load 8 ((sys_mem w)(q := v)) a = load 8 (sys_mem w) a" if "a \<in> mp_addrs mp" for a
      by (rule load_payload [OF b(2) that]) (use store b mp(1) in auto)
    then show ?thesis using mp_simulates_same(1) [OF mp, of w'] store(1,2) mp(1) by simp
  next
    case (environment mp')
    have "load 8 (sys_mem w') b = load 8 (sys_mem w) b" if "b \<in> mp_addrs mp" for b
      by (rule load_cong) (use environment mp(1) that in auto)
    then show ?thesis using mp_simulates_same(1) [OF mp, of w'] environment mp(1) by simp
  qed
qed

interpretation pool: implements "mp_step i" "mp_inv i B" "mp_out i" "mp_spec B" for i B
  by unfold_locales (auto dest: mp_step_simulates simp: mp_simulates_def)

subsection \<open>Pools made by rt_mp_init\<close>

lemma div_align: "8 dvd st \<Longrightarrow> (n - n mod 8) div st = n div (st :: nat)"
proof -
  assume "8 dvd st"
  then obtain k where k: "st = 8 * k" by (rule dvdE)
  have "n - n mod 8 = 8 * (n div 8)" by (simp add: minus_mod_eq_mult_div)
  then show ?thesis unfolding k by (simp add: div_mult2_eq)
qed

lemma rt_mp_init_ok:
  assumes r: "rt_mp_init i start sz bs w0 = Some (e, w)" and sz: "start + sz \<le> 2 ^ 64" and bs: "bs < 2 ^ 64 - 8"
    and fit: "align8 bs + 8 \<le> sz" and i: "i < 2 ^ 64"
  shows "mp_inv i ((\<lambda>j. start + j * (align8 bs + 8) + 8) ` {..<sz div (align8 bs + 8)}) w" "mp_out i w = {}"
proof -
  let ?st = "align8 bs + 8" and ?n = "sz div (align8 bs + 8)"
  have start: "start \<noteq> 0" using r by (auto simp: rt_mp_init_def split: Option.bind_splits)
  have st: "add64 (align8 bs) 8 = ?st" using fit sz start by (intro add64) linarith
  have "sz < 2 ^ 64" using sz start by linarith
  then have "unat (of_nat sz :: u64) = sz" by (simp add: unat_of_nat take_bit_eq_mod)
  then have z: "unat (RT_ALIGN_DOWN (of_nat sz) 8) = sz - sz mod 8" unfolding RT_ALIGN_DOWN_def using unat_and_not_7 [of "of_nat sz"] by simp
  have "8 dvd ?st" using align8_dvd by simp
  then have n: "(sz - sz mod 8) div ?st = ?n" by (rule div_align)
  let ?mp = "\<lparr>mp_static = True, mp_start_address = start, mp_size = sz - sz mod 8, mp_block_size = align8 bs,
    mp_block_list = start, mp_block_total_count = ?n, mp_block_free_count = ?n\<rparr>"
  have w: "pools w i = Some ?mp" "sys_mem w = mp_chain start ?st ?n (sys_mem w0)"
    using r unfolding rt_mp_init_def st z n Let_def by (auto split: Option.bind_splits if_splits)
  have "?n * ?st \<le> sz" by (rule div_times_less_eq_dividend)
  then have le: "start + ?n * ?st \<le> 2 ^ 64" using sz by linarith
  have "0 < ?n" using fit by (simp add: div_greater_zero_iff)
  note F = mp_fresh [OF _ _ le this i, of ?mp True _ "sys_mem w0"]
  have F': "mp_rep i (sys_mem w) ?mp" "set (frees (sys_mem w) ?mp) = mp_addrs ?mp"
    using F start align8_dvd [of bs] unfolding w(2) by auto
  have "(\<lambda>b. b + 8) ` mp_addrs ?mp = (\<lambda>j. start + j * ?st + 8) ` {..<?n}"
    by (simp add: mp_addrs_def image_image)
  then show "mp_inv i ((\<lambda>j. start + j * ?st + 8) ` {..<?n}) w"
    unfolding mp_inv_def using w(1) F'(1) by (intro exI [of _ ?mp]) simp
  show "mp_out i w = {}" using F'(2) by (simp add: mp_out_def w(1))
qed

text \<open>
  \<^bold>\<open>C11\<close>: A memory pool made by \<^verbatim>\<open>rt_mp_init\<close> hands out its blocks without ever handing out one twice. The
  pool has as many blocks as fit, each with room for the block size, all inside the memory given to it and
  disjoint. Over every run of allocations and releases by running threads, with waiting or not, interleaved with
  writes into blocks that are handed out and with steps of the rest of the system: an allocation returns a block
  that is not handed out, it fails or waits only when all are handed out, a released block can be
  handed out again, and the counter of free blocks is exact.
\<close>

theorem mempool_run_refines:
  assumes "rt_mp_init i start sz bs w0 = Some (e, w)" "start + sz \<le> 2 ^ 64" "bs < 2 ^ 64 - 8" "align8 bs + 8 \<le> sz" "i < 2 ^ 64"
    and "run (mp_step i) w es w'"
  shows "let B = (\<lambda>j. start + j * (align8 bs + 8) + 8) ` {..<sz div (align8 bs + 8)} in
     spec_run (mp_spec B) es {} = Some (mp_out i w') \<and>
     (\<exists>mp. pools w' i = Some mp \<and> mp_block_free_count mp + card (mp_out i w') = sz div (align8 bs + 8)) \<and>
     (\<forall>p \<in> B. start \<le> p \<and> p + bs \<le> start + sz \<and> (\<forall>q \<in> B. p \<noteq> q \<longrightarrow> p + bs \<le> q \<or> q + bs \<le> p))"
proof -
  let ?n = "sz div (align8 bs + 8)"
  let ?B = "(\<lambda>j. start + j * (align8 bs + 8) + 8) ` {..<?n}"
  note I = rt_mp_init_ok [OF assms(1-5)]
  have sp: "spec_run (mp_spec ?B) es {} = Some (mp_out i w')" using pool.run_refines [OF assms(6) I(1)] unfolding I(2) .
  obtain mp where mp: "pools w' i = Some mp" "mp_rep i (sys_mem w') mp" "?B = (\<lambda>b. b + 8) ` mp_addrs mp"
    using pool.run_inv [OF assms(6) I(1)] by (auto simp: mp_inv_def)
  have "card ?B = mp_block_total_count mp" unfolding mp(3) by (simp add: card_image inj_on_def card_mp_addrs(1))
  moreover have "card ?B = ?n" by (subst card_image) (auto intro: inj_onI)
  moreover have "card (mp_out i w') = card (mp_addrs mp - set (frees (sys_mem w') mp))"
    by (simp add: mp_out_def mp(1) card_image inj_on_def)
  ultimately have "mp_block_free_count mp + card (mp_out i w') = ?n" using mp_rep_counts(1) [OF mp(2)] by simp
  moreover have "start \<le> p \<and> p + bs \<le> start + sz \<and> (\<forall>q \<in> ?B. p \<noteq> q \<longrightarrow> p + bs \<le> q \<or> q + bs \<le> p)" if pB: "p \<in> ?B" for p
  proof -
    obtain j where j: "p = start + j * (align8 bs + 8) + 8" "j < ?n" using pB by auto
    have bs: "bs \<le> align8 bs" using align8 [of bs] assms(3) by simp
    have S: "Suc x * (align8 bs + 8) \<le> y * (align8 bs + 8)" if "x < y" for x y using that by (intro mult_right_mono) auto
    have "?n * (align8 bs + 8) \<le> sz" by (rule div_times_less_eq_dividend)
    then have "p + bs \<le> start + sz" using S [OF j(2)] j(1) bs by (simp add: algebra_simps)
    moreover have "p + bs \<le> q \<or> q + bs \<le> p" if qB: "q \<in> ?B" "p \<noteq> q" for q
    proof -
      obtain k where k: "q = start + k * (align8 bs + 8) + 8" using qB(1) by auto
      then have "j < k \<or> k < j" using qB(2) j(1) by auto
      then show ?thesis using S [of j k] S [of k j] j(1) k bs by (auto simp: algebra_simps)
    qed
    ultimately show ?thesis using j(1) by simp
  qed
  ultimately show ?thesis using sp mp(1) unfolding Let_def by blast
qed

definition ex_system :: rt_system where
  "ex_system = \<lparr>kern = ex_kernel, heap = ex_heap, pools = Map.empty, rt_errno = 0\<rparr>"

definition ex_pool :: rt_system where
  "ex_pool = snd (the (rt_mp_init 9 4096 64 16 ex_system))"

lemma ex_pool_ok:
  "align8 16 = 16" "rt_mp_init 9 4096 64 16 ex_system = Some (RT_EOK, ex_pool)"
  "caller 0 1 (kern ex_pool)" "eligible 0 (kern ex_pool) 3" "tq (kern ex_pool) q = tq ex_kernel q"
  "\<exists>mp. pools ex_pool 9 = Some mp \<and> mp_rep 9 (sys_mem ex_pool) mp \<and> mp_block_list mp = 4096 \<and> mp_block_free_count mp = 2"
proof -
  show a: "align8 16 = 16" unfolding align8_def unat_RT_ALIGN by simp
  have z: "unat (RT_ALIGN_DOWN (of_nat 64) 8) = 64" by (simp add: RT_ALIGN_DOWN_def)
  have s: "add64 16 8 = 24" by simp
  show r: "rt_mp_init 9 4096 64 16 ex_system = Some (RT_EOK, ex_pool)"
    unfolding ex_pool_def rt_mp_init_def a z s Let_def by simp
  let ?mp = "\<lparr>mp_static = True, mp_start_address = 4096, mp_size = 64, mp_block_size = 16,
    mp_block_list = 4096, mp_block_total_count = 2, mp_block_free_count = 2\<rparr>"
  have "tq ex_kernel (SuspendQ k) = []" for k by (simp add: ex_kernel_def)
  then have "upd_tq (\<lambda>Q. Q(SuspendQ (Mempool 9) := [])) ex_kernel = ex_kernel" by (simp add: upd_tq_def fun_upd_idem)
  then have k: "kern ex_pool = ex_kernel" "pools ex_pool 9 = Some ?mp"
    unfolding ex_pool_def rt_mp_init_def a z s Let_def by (simp_all add: ex_system_def)
  show "caller 0 1 (kern ex_pool)" "eligible 0 (kern ex_pool) 3" "tq (kern ex_pool) q = tq ex_kernel q"
    unfolding k(1) by (rule ex_kernel_caller)+ simp
  obtain mp where "pools ex_pool 9 = Some mp" "mp_rep 9 (sys_mem ex_pool) mp"
    using rt_mp_init_ok(1) [OF r] a by (auto simp: mp_inv_def)
  then show "\<exists>mp. pools ex_pool 9 = Some mp \<and> mp_rep 9 (sys_mem ex_pool) mp \<and> mp_block_list mp = 4096 \<and> mp_block_free_count mp = 2"
    using k(2) by auto
qed

theorem mempool_run_refines_witness:
  "\<exists>w'. run (mp_step 9) ex_pool [Got 4104] w' \<and> mp_out 9 w' = {4104} \<and>
     (\<exists>mp. pools w' 9 = Some mp \<and> mp_block_free_count mp = 1)"
proof -
  obtain mp where mp: "pools ex_pool 9 = Some mp" "mp_rep 9 (sys_mem ex_pool) mp" "mp_block_list mp = 4096" "mp_block_free_count mp = 2"
    using ex_pool_ok(6) by blast
  obtain w' where "rt_mp_alloc 0 9 0 ex_pool = Some (Returns (Some 4104), w')"
    using mp_alloc_cases [OF ex_pool_ok(3,4) mp(1,2) disjI1 [OF refl]] mp(3,4) by (auto simp: rt_mp_alloc_def)
  then have "mp_step 9 ex_pool (Got 4104) w'"
    using mp_step.alloc [OF ex_pool_ok(3,4) disjI1 [OF refl], of 9 "Returns (Some 4104)" w'] by (simp add: alloc_event_def)
  then have r: "run (mp_step 9) ex_pool [Got 4104] w'" by simp
  have "mp_out 9 w' = {4104} \<and> (\<exists>mp. pools w' 9 = Some mp \<and> mp_block_free_count mp + card (mp_out 9 w') = 2)"
    using mempool_run_refines [OF ex_pool_ok(2) _ _ _ _ r] ex_pool_ok(1) by (auto simp: Let_def split: if_splits)
  then show ?thesis using r by auto
qed

text \<open>
  \<^bold>\<open>C36\<close>: \<^verbatim>\<open>rt_mp_alloc\<close> called by a running thread: with a free block it returns the first one of the list of
  free blocks; with none and no waiting time it returns \<^verbatim>\<open>RT_NULL\<close> and the caller's error number is
  \<^verbatim>\<open>-RT_ETIMEOUT\<close>; otherwise the caller is suspended in front of all threads that already wait, so that of
  the waiting threads the one that came last is woken first.
\<close>

theorem rt_mp_alloc_outcome:
  assumes "caller c t (kern w)" "eligible c (kern w) u" "pools w i = Some mp" "mp_rep i (sys_mem w) mp"
    "time = 0 \<or> wait_time time"
  shows "if mp_block_free_count mp \<noteq> 0
     then \<exists>w'. rt_mp_alloc c i time w = Some (Returns (Some (mp_block_list mp + 8)), w') \<and> kern w' = kern w
     else if time = 0
     then \<exists>w'. rt_mp_alloc c i time w = Some (Returns None, w') \<and> rt_get_errno c w' = - RT_ETIMEOUT \<and>
       pools w' = pools w \<and> heap w' = heap w
     else \<exists>b k'. rt_mp_alloc c i time w = Some (Waits b, w\<lparr>kern := k'\<rparr>) \<and>
       blocked_at c (SuspendQ (Mempool i)) t (t # tq (kern w) (SuspendQ (Mempool i))) time (no_error t (kern w)) k'"
proof -
  note C = mp_alloc_cases [OF assms]
  have "rt_get_errno c (w\<lparr>kern := upd_thread t (\<lambda>th. th\<lparr>th_error := - RT_ETIMEOUT\<rparr>) (kern w)\<rparr>) = - RT_ETIMEOUT"
    using callerD(2,4) [OF caller_error [OF assms(1), of t "- RT_ETIMEOUT"]] by (simp add: rt_get_errno_def running_on_def)
  then show ?thesis using C unfolding rt_mp_alloc_def by (auto split: if_splits)
qed

theorem rt_mp_alloc_outcome_witness:
  "\<exists>w'. rt_mp_alloc 0 9 0 ex_pool = Some (Returns (Some 4104), w')"
proof -
  obtain mp where mp: "pools ex_pool 9 = Some mp" "mp_rep 9 (sys_mem ex_pool) mp" "mp_block_list mp = 4096" "mp_block_free_count mp = 2"
    using ex_pool_ok(6) by blast
  show ?thesis using rt_mp_alloc_outcome [OF ex_pool_ok(3,4) mp(1,2) disjI1 [OF refl]] mp(3,4) by auto
qed

text \<open>
  \<^verbatim>\<open>rt_mp_init\<close> on memory that is too small for one block returns \<^verbatim>\<open>RT_EOK\<close> and writes outside that
  memory: its loop runs no time, and the statement that ends the list of free blocks clears the
  eight bytes at the distance of one block in front of the pool.
\<close>

theorem rt_mp_init_small_overwrites:
  assumes "start < 2 ^ 64" "0 < sz" "sz < align8 bs + 8" "0 < bs" "align8 bs + 8 < start"
  shows "\<exists>w'. rt_mp_init i start sz bs w = Some (RT_EOK, w') \<and>
     sys_mem w' = store 8 (start - (align8 bs + 8)) 0 (sys_mem w) \<and>
     (\<exists>mp. pools w' i = Some mp \<and> mp_block_total_count mp = 0)"
proof -
  let ?st = "align8 bs + 8"
  have st: "add64 (align8 bs) 8 = ?st" using assms(1,5) by (intro add64) linarith
  have "unat (RT_ALIGN_DOWN (of_nat sz) 8) \<le> unat (of_nat sz :: u64)"
    unfolding RT_ALIGN_DOWN_def using unat_and_not_7 [of "of_nat sz"] by simp
  also have "\<dots> \<le> sz" by (simp add: unat_of_nat take_bit_eq_mod)
  finally have n: "unat (RT_ALIGN_DOWN (of_nat sz) 8) div ?st = 0" using assms(3) by simp
  have "start + (2 ^ 64 - 1) * ?st = (start - ?st) + 2 ^ 64 * ?st" using assms(5) by simp
  moreover have "sub64 0 1 = 2 ^ 64 - 1" by (simp add: sub64_def)
  ultimately have "block_at start ?st (sub64 0 1) = (start - ?st + 2 ^ 64 * ?st) mod 2 ^ 64" by (simp only: block_at_def)
  also have "\<dots> = start - ?st" using assms(1) by (simp only: mod_mult_self2) (simp add: less_imp_diff_less)
  finally have b: "mp_chain start ?st 0 m = store 8 (start - ?st) 0 m" for m by (simp add: mp_chain_def)
  have z: "(?st = 0) = False" "start \<noteq> 0" by (use assms(5) in auto)
  show ?thesis unfolding rt_mp_init_def Let_def st n b z if_False using assms(2,4) z(2) by simp
qed

theorem rt_mp_init_small_overwrites_witness:
  "\<exists>w'. rt_mp_init 9 4096 16 16 ex_system = Some (RT_EOK, w') \<and> sys_mem w' = store 8 4072 0 (sys_mem ex_system)"
  using rt_mp_init_small_overwrites [of 4096 16 16 9 ex_system] ex_pool_ok(1) by auto

end
