(* ===== verification/Printf.thy ===== *)
theory Printf
  imports Strings
begin

text \<open>
  Formatted output of \<^verbatim>\<open>src/kservice.c\<close>, in the configuration with \<^verbatim>\<open>RT_PRINTF_PRECISION\<close> and without
  \<^verbatim>\<open>RT_PRINTF_LONGLONG\<close> and \<^verbatim>\<open>RT_PRINTF_SPECIAL\<close>. The format and the strings among the arguments
  are lists of characters without the terminating null, apart from the output buffer; a pointer into the
  format is the rest of the list. An argument is a 64-bit slot or a string; reading past the last
  argument or a string where a number is wanted is \<open>None\<close>, as are the overflow of a field width and
  of the array for the digits. The counters of the loops are unbounded integers; widths and precisions below \<open>2\<^sup>3\<^sup>0\<close>
  keep the counters of the code within \<^verbatim>\<open>int\<close>.
\<close>

abbreviation (input) ZEROPAD :: u8 where "ZEROPAD \<equiv> 1"
abbreviation (input) SIGN :: u8 where "SIGN \<equiv> 2"
abbreviation (input) PLUS :: u8 where "PLUS \<equiv> 4"
abbreviation (input) SPACE :: u8 where "SPACE \<equiv> 8"
abbreviation (input) LEFT :: u8 where "LEFT \<equiv> 16"
abbreviation (input) SPECIAL :: u8 where "SPECIAL \<equiv> 32"
abbreviation (input) LARGE :: u8 where "LARGE \<equiv> 64"

abbreviation (input) chr :: "char \<Rightarrow> u8" where "chr c \<equiv> of_char c"

datatype va = Slot u64 | Text "u8 list option"

fun va_int :: "va list \<Rightarrow> (u32 \<times> va list) option" where
  "va_int (Slot v # as) = Some (ucast v, as)"
| "va_int _ = None"

fun va_ptr :: "va list \<Rightarrow> (u64 \<times> va list) option" where
  "va_ptr (Slot v # as) = Some (v, as)"
| "va_ptr _ = None"

fun va_text :: "va list \<Rightarrow> (u8 list option \<times> va list) option" where
  "va_text (Text s # as) = Some (s, as)"
| "va_text _ = None"

subsection \<open>Writing into the buffer\<close>

text \<open>The output pointer and the memory; \<^verbatim>\<open>if (buf < end) *buf = c; ++ buf;\<close>\<close>

type_synonym cursor = "nat \<times> memory"

definition put :: "nat \<Rightarrow> u8 \<Rightarrow> cursor \<Rightarrow> cursor" where
  "put fin c cur = (fst cur + 1, if fst cur < fin then (snd cur)(fst cur := c) else snd cur)"

text \<open>\<^verbatim>\<open>while (size-- > 0) put(c)\<close>, \<^verbatim>\<open>while (--width > 0) put(' ')\<close> and \<^verbatim>\<open>while (len < width--) put(' ')\<close>\<close>

function pad :: "nat \<Rightarrow> u8 \<Rightarrow> int \<Rightarrow> cursor \<Rightarrow> int \<times> cursor" where
  "pad fin c sz cur = (if sz > 0 then pad fin c (sz - 1) (put fin c cur) else (sz - 1, cur))"
  by pat_completeness auto
termination by (relation "measure (\<lambda>(_, _, sz, _). nat sz)") auto

function pad_char :: "nat \<Rightarrow> int \<Rightarrow> cursor \<Rightarrow> int \<times> cursor" where
  "pad_char fin width cur =
     (if width - 1 > 0 then pad_char fin (width - 1) (put fin (chr CHR '' '') cur) else (width - 1, cur))"
  by pat_completeness auto
termination by (relation "measure (\<lambda>(_, width, _). nat width)") auto

function pad_text :: "nat \<Rightarrow> int \<Rightarrow> int \<Rightarrow> cursor \<Rightarrow> int \<times> cursor" where
  "pad_text fin len width cur =
     (if len < width then pad_text fin len (width - 1) (put fin (chr CHR '' '') cur) else (width - 1, cur))"
  by pat_completeness auto
termination by (relation "measure (\<lambda>(_, len, width, _). nat (width - len))") auto

declare pad.simps [simp del] pad_char.simps [simp del] pad_text.simps [simp del]

fun put_text :: "nat \<Rightarrow> u8 list \<Rightarrow> cursor \<Rightarrow> cursor" where
  "put_text fin [] cur = cur"
| "put_text fin (c # cs) cur = put_text fin cs (put fin c cur)"

subsection \<open>Numbers\<close>

definition divide_by :: "u64 \<Rightarrow> int \<Rightarrow> u64 \<times> u64" where
  "divide_by n base = (if base = 10 then (n mod 10, n div 10) else (n mod 16, n div 16))"

abbreviation small_digits :: "u8 list" where "small_digits \<equiv> map of_char ''0123456789abcdef''"
abbreviation large_digits :: "u8 list" where "large_digits \<equiv> map of_char ''0123456789ABCDEF''"

text \<open>The digits, the last one first, in the array \<^verbatim>\<open>tmp[16]\<close>.\<close>

function num_loop :: "u8 list \<Rightarrow> int \<Rightarrow> u64 \<Rightarrow> u8 list \<Rightarrow> u8 list option" where
  "num_loop digits base num tmp =
     (if num = 0 then Some tmp
      else if length tmp \<ge> 16 then None
      else num_loop digits base (snd (divide_by num base)) (tmp @ [digits ! unat (fst (divide_by num base))]))"
  by pat_completeness auto
termination
proof (relation "measure (\<lambda>(_, _, num, _). unat num)")
  fix digits tmp :: "u8 list" and base :: int and num :: u64
  assume "num \<noteq> 0"
  then have "0 < unat num" by (simp add: unat_gt_0)
  then have "unat (num div d) < unat num" if "1 < unat d" for d using that by (simp add: unat_div)
  then show "((digits, base, snd (divide_by num base), tmp @ [digits ! unat (fst (divide_by num base))]), digits, base, num, tmp)
      \<in> measure (\<lambda>(_, _, num, _). unat num)" by (simp add: divide_by_def)
qed simp

declare num_loop.simps [simp del]

fun put_zeros :: "nat \<Rightarrow> nat \<Rightarrow> cursor \<Rightarrow> cursor" where
  "put_zeros fin 0 cur = cur"
| "put_zeros fin (Suc n) cur = put_zeros fin n (put fin (chr CHR ''0'') cur)"

fun put_digits :: "nat \<Rightarrow> u8 list \<Rightarrow> nat \<Rightarrow> int \<Rightarrow> cursor \<Rightarrow> cursor" where
  "put_digits fin tmp 0 bak cur = cur"
| "put_digits fin tmp (Suc i) bak cur = (if bak \<noteq> 0 then put_digits fin tmp i bak (put fin (tmp ! i) cur) else cur)"

definition number_sign :: "u64 \<Rightarrow> u8 \<Rightarrow> u8 \<times> u64" where
  "number_sign num type =
     (if type AND SIGN \<noteq> 0
      then if sint num < 0 then (chr CHR ''-'', - num)
           else if type AND PLUS \<noteq> 0 then (chr CHR ''+'', num)
           else if type AND SPACE \<noteq> 0 then (chr CHR '' '', num)
           else (0, num)
      else (0, num))"

text \<open>The field around sign and digits: \<^verbatim>\<open>print_number\<close> from the adjustment of the precision on.\<close>

definition print_field :: "nat \<Rightarrow> u8 list \<Rightarrow> u8 \<Rightarrow> u8 \<Rightarrow> u8 \<Rightarrow> int \<Rightarrow> int \<Rightarrow> cursor \<Rightarrow> cursor" where
  "print_field fin tmp c sign type s precision cur =
     (let i = length tmp;
          prec = (if int i > precision then int i else precision);
          size1 = s - prec;
          (size2, cur2) = (if type AND (ZEROPAD OR LEFT) = 0
                           then pad fin (chr CHR '' '') (if sign \<noteq> 0 \<and> size1 > 0 then size1 - 1 else size1) cur
                           else (size1, cur));
          (size3, cur3) = (if sign \<noteq> 0 then (size2 - 1, put fin sign cur2) else (size2, cur2));
          (size4, cur4) = (if type AND LEFT = 0 then pad fin c size3 cur3 else (size3, cur3));
          cur5 = put_zeros fin (nat (prec - int i)) cur4;
          cur6 = put_digits fin tmp i precision cur5
      in snd (pad fin (chr CHR '' '') size4 cur6))"

definition print_number :: "nat \<Rightarrow> u64 \<Rightarrow> int \<Rightarrow> int \<Rightarrow> int \<Rightarrow> u8 \<Rightarrow> cursor \<Rightarrow> cursor option" where
  "print_number fin num base s precision flags cur =
     do { let digits = (if flags AND LARGE \<noteq> 0 then large_digits else small_digits);
          let type = (if flags AND LEFT \<noteq> 0 then flags AND NOT ZEROPAD else flags);
          let c = (if type AND ZEROPAD \<noteq> 0 then chr CHR ''0'' else chr CHR '' '');
          let (sign, num1) = number_sign num type;
          tmp \<leftarrow> (if num1 = 0 then Some [chr CHR ''0''] else num_loop digits base num1 []);
          Some (print_field fin tmp c sign type s precision cur) }"

subsection \<open>Conversion specifications\<close>

definition isdigit :: "u8 \<Rightarrow> bool" where
  "isdigit c \<longleftrightarrow> c - chr CHR ''0'' < 10"

fun skip_atoi :: "u8 list \<Rightarrow> int \<Rightarrow> (int \<times> u8 list) option" where
  "skip_atoi [] i = Some (i, [])"
| "skip_atoi (c # cs) i =
     (if isdigit c
      then if i * 10 + int (unat c) \<ge> 2 ^ 31 then None else skip_atoi cs (i * 10 + int (unat c) - 48)
      else Some (i, c # cs))"

fun vs_flags :: "u8 list \<Rightarrow> u8 \<Rightarrow> u8 \<times> u8 list" where
  "vs_flags [] flags = (flags, [])"
| "vs_flags (c # fmt) flags =
     (if c = chr CHR ''-'' then vs_flags fmt (flags OR LEFT)
      else if c = chr CHR ''+'' then vs_flags fmt (flags OR PLUS)
      else if c = chr CHR '' '' then vs_flags fmt (flags OR SPACE)
      else if c = chr CHR ''#'' then vs_flags fmt (flags OR SPECIAL)
      else if c = chr CHR ''0'' then vs_flags fmt (flags OR ZEROPAD)
      else (flags, c # fmt))"

definition vs_width :: "u8 list \<Rightarrow> va list \<Rightarrow> u8 \<Rightarrow> (u8 \<times> int \<times> u8 list \<times> va list) option" where
  "vs_width fmt args flags =
     (case fmt of
        [] \<Rightarrow> Some (flags, -1, [], args)
      | c # cs \<Rightarrow>
          if isdigit c then do { (w, rest) \<leftarrow> skip_atoi fmt 0; Some (flags, w, rest, args) }
          else if c = chr CHR ''*''
          then do { (v, args1) \<leftarrow> va_int args;
                    if sint v < 0
                    then if sint v = - (2 ^ 31) then None else Some (flags OR LEFT, - sint v, cs, args1)
                    else Some (flags, sint v, cs, args1) }
          else Some (flags, -1, fmt, args))"

definition vs_precision :: "u8 list \<Rightarrow> va list \<Rightarrow> (int \<times> u8 list \<times> va list) option" where
  "vs_precision fmt args =
     (case fmt of
        [] \<Rightarrow> Some (-1, [], args)
      | c # cs \<Rightarrow>
          if c = chr CHR ''.''
          then do { (p, rest, args1) \<leftarrow>
                      (case cs of
                         [] \<Rightarrow> Some (-1, cs, args)
                       | d # ds \<Rightarrow>
                           if isdigit d then do { (p, rest) \<leftarrow> skip_atoi cs 0; Some (p, rest, args) }
                           else if d = chr CHR ''*'' then do { (v, args1) \<leftarrow> va_int args; Some (sint v, ds, args1) }
                           else Some (-1, cs, args));
                    Some (if p < 0 then 0 else p, rest, args1) }
          else Some (-1, fmt, args))"

definition vs_qualifier :: "u8 list \<Rightarrow> u8 \<times> u8 list" where
  "vs_qualifier fmt =
     (case fmt of
        [] \<Rightarrow> (0, [])
      | c # cs \<Rightarrow> if c = chr CHR ''h'' \<or> c = chr CHR ''l'' then (c, cs) else (0, fmt))"

text \<open>The number of an integer conversion: \<^verbatim>\<open>rt_uint32_t num\<close>, passed on as \<^verbatim>\<open>long\<close>.\<close>

definition vs_num :: "u8 \<Rightarrow> u8 \<Rightarrow> va list \<Rightarrow> (u64 \<times> va list) option" where
  "vs_num qualifier flags args =
     do { (v, args1) \<leftarrow> va_int args;
          let num = (if qualifier = chr CHR ''h''
                     then (let h = (ucast v :: u16) in if flags AND SIGN \<noteq> 0 then scast h else ucast h :: u32)
                     else v);
          Some (ucast num, args1) }"

text \<open>\<^verbatim>\<open>int len = rt_strlen(s)\<close>, cut to the precision.\<close>

definition text_len :: "u8 list \<Rightarrow> int \<Rightarrow> int" where
  "text_len s precision =
     (let len = sint (of_nat (length s) :: 32 word) in if precision > 0 \<and> len > precision then precision else len)"

record conversion =
  cv_flags :: u8
  cv_width :: int
  cv_precision :: int
  cv_qualifier :: u8

text \<open>From the character after \<^verbatim>\<open>%\<close> to the conversion character.\<close>

definition vs_parse :: "u8 list \<Rightarrow> va list \<Rightarrow> (conversion \<times> u8 list \<times> va list) option" where
  "vs_parse fmt args =
     do { let (flags0, fmt0) = vs_flags fmt 0;
          (flags, width, fmt1, args1) \<leftarrow> vs_width fmt0 args flags0;
          (precision, fmt2, args2) \<leftarrow> vs_precision fmt1 args1;
          let (qualifier, fmt3) = vs_qualifier fmt2;
          Some (\<lparr>cv_flags = flags, cv_width = width, cv_precision = precision, cv_qualifier = qualifier\<rparr>, fmt3, args2) }"

definition vs_char :: "nat \<Rightarrow> conversion \<Rightarrow> va list \<Rightarrow> cursor \<Rightarrow> (cursor \<times> va list) option" where
  "vs_char fin cv args cur =
     do { let (width1, cur1) = (if cv_flags cv AND LEFT = 0 then pad_char fin (cv_width cv) cur else (cv_width cv, cur));
          (v, args1) \<leftarrow> va_int args;
          let cur2 = put fin (ucast v) cur1;
          Some (snd (pad_char fin width1 cur2), args1) }"

definition null_text :: "u8 list" where
  "null_text = map of_char ''(NULL)''"

definition vs_string :: "nat \<Rightarrow> conversion \<Rightarrow> va list \<Rightarrow> cursor \<Rightarrow> (cursor \<times> va list) option" where
  "vs_string fin cv args cur =
     do { (p, args1) \<leftarrow> va_text args;
          let s = (case p of None \<Rightarrow> null_text | Some s \<Rightarrow> s);
          let len = text_len s (cv_precision cv);
          let (width1, cur1) = (if cv_flags cv AND LEFT = 0 then pad_text fin len (cv_width cv) cur else (cv_width cv, cur));
          let cur2 = put_text fin (take (nat len) s) cur1;
          Some (snd (pad_text fin len width1 cur2), args1) }"

definition vs_pointer :: "nat \<Rightarrow> conversion \<Rightarrow> va list \<Rightarrow> cursor \<Rightarrow> (cursor \<times> va list) option" where
  "vs_pointer fin cv args cur =
     do { let (width, flags) = (if cv_width cv = -1 then (16, cv_flags cv OR ZEROPAD) else (cv_width cv, cv_flags cv));
          (v, args1) \<leftarrow> va_ptr args;
          cur1 \<leftarrow> print_number fin v 16 width (cv_precision cv) flags cur;
          Some (cur1, args1) }"

text \<open>The cases of the \<^verbatim>\<open>switch\<close> that set up base and flags of an integer.\<close>

definition vs_base :: "u8 \<Rightarrow> u8 \<Rightarrow> (int \<times> u8) option" where
  "vs_base c flags =
     (if c = chr CHR ''o'' then Some (8, flags)
      else if c = chr CHR ''X'' then Some (16, flags OR LARGE)
      else if c = chr CHR ''x'' then Some (16, flags)
      else if c = chr CHR ''d'' \<or> c = chr CHR ''i'' then Some (10, flags OR SIGN)
      else if c = chr CHR ''u'' then Some (10, flags)
      else None)"

definition vs_integer :: "nat \<Rightarrow> int \<times> u8 \<Rightarrow> conversion \<Rightarrow> va list \<Rightarrow> cursor \<Rightarrow> (cursor \<times> va list) option" where
  "vs_integer fin bf cv args cur =
     do { (num, args1) \<leftarrow> vs_num (cv_qualifier cv) (snd bf) args;
          cur1 \<leftarrow> print_number fin num (fst bf) (cv_width cv) (cv_precision cv) (snd bf) cur;
          Some (cur1, args1) }"

definition vs_conv :: "nat \<Rightarrow> conversion \<Rightarrow> u8 \<Rightarrow> va list \<Rightarrow> cursor \<Rightarrow> (cursor \<times> va list) option" where
  "vs_conv fin cv c args cur =
     (if c = chr CHR ''c'' then vs_char fin cv args cur
      else if c = chr CHR ''s'' then vs_string fin cv args cur
      else if c = chr CHR ''p'' then vs_pointer fin cv args cur
      else if c = chr CHR ''%'' then Some (put fin (chr CHR ''%'') cur, args)
      else case vs_base c (cv_flags cv) of
             Some bf \<Rightarrow> vs_integer fin bf cv args cur
           | None \<Rightarrow> Some (put fin c (put fin (chr CHR ''%'') cur), args))"

definition vs_step :: "nat \<Rightarrow> u8 list \<Rightarrow> va list \<Rightarrow> cursor \<Rightarrow> (u8 list \<times> va list \<times> cursor) option" where
  "vs_step fin fmt args cur =
     do { (cv, fmt1, args1) \<leftarrow> vs_parse fmt args;
          case fmt1 of
            [] \<Rightarrow> Some ([], args1, put fin (chr CHR ''%'') cur)
          | c # fmt2 \<Rightarrow> do { (cur1, args2) \<leftarrow> vs_conv fin cv c args1 cur; Some (fmt2, args2, cur1) } }"

text \<open>Parsing moves forward, so the loop over the format ends.\<close>

lemma skip_atoi_length: "skip_atoi s i = Some (n, rest) \<Longrightarrow> length rest \<le> length s"
  by (induction s i rule: skip_atoi.induct) (auto split: if_splits)

lemma vs_flags_length: "length (snd (vs_flags fmt flags)) \<le> length fmt"
  by (induction fmt flags rule: vs_flags.induct) auto

lemma vs_width_length: "vs_width fmt args flags = Some (fl, w, rest, as) \<Longrightarrow> length rest \<le> length fmt"
  by (auto simp: vs_width_def bind_eq_Some_conv split: list.splits if_splits dest: skip_atoi_length)

lemma vs_precision_length: "vs_precision fmt args = Some (p, rest, as) \<Longrightarrow> length rest \<le> length fmt"
  by (auto simp: vs_precision_def bind_eq_Some_conv split: list.splits if_splits dest: skip_atoi_length)

lemma vs_qualifier_length: "length (snd (vs_qualifier fmt)) \<le> length fmt"
  by (auto simp: vs_qualifier_def split: list.splits)

lemma vs_parse_length:
  assumes "vs_parse fmt args = Some (cv, rest, as)"
  shows "length rest \<le> length fmt"
proof -
  obtain fl w fmt1 args1 p fmt2 where
    w: "vs_width (snd (vs_flags fmt 0)) args (fst (vs_flags fmt 0)) = Some (fl, w, fmt1, args1)" and
    p: "vs_precision fmt1 args1 = Some (p, fmt2, as)" and rest: "rest = snd (vs_qualifier fmt2)"
    using assms by (auto simp: vs_parse_def bind_eq_Some_conv Let_def case_prod_beta)
  show ?thesis
    using vs_flags_length [of fmt 0] vs_width_length [OF w] vs_precision_length [OF p] vs_qualifier_length [of fmt2] rest by simp
qed

lemma vs_step_length: "vs_step fin fmt args cur = Some (rest, as, cur') \<Longrightarrow> length rest \<le> length fmt"
  by (cases "vs_parse fmt args") (fastforce simp: vs_step_def bind_eq_Some_conv split: list.splits prod.splits dest: vs_parse_length)+

function vs_loop :: "nat \<Rightarrow> u8 list \<Rightarrow> va list \<Rightarrow> cursor \<Rightarrow> cursor option" where
  "vs_loop fin [] args cur = Some cur"
| "vs_loop fin (c # fmt) args cur =
     (if c \<noteq> chr CHR ''%'' then vs_loop fin fmt args (put fin c cur)
      else case vs_step fin fmt args cur of
             None \<Rightarrow> None
           | Some (fmt1, args1, cur1) \<Rightarrow> vs_loop fin fmt1 args1 cur1)"
  by pat_completeness auto
termination
  by (relation "measure (\<lambda>(_, fmt, _, _). length fmt)") (auto dest: vs_step_length)

definition rt_vsnprintf :: "nat \<Rightarrow> u64 \<Rightarrow> u8 list \<Rightarrow> va list \<Rightarrow> memory \<Rightarrow> (int \<times> memory) option" where
  "rt_vsnprintf buf size0 fmt args m =
     do { let (fin, size1) = (if buf + unat size0 \<ge> 2 ^ 64 then (2 ^ 64 - 1, 2 ^ 64 - 1 - buf)
                              else (buf + unat size0, unat size0));
          (str, m1) \<leftarrow> vs_loop fin fmt args (buf, m);
          let m2 = (if size1 > 0 then if str < fin then m1(str := 0) else m1(fin - 1 := 0) else m1);
          Some (sint (of_nat (str - buf) :: u32), m2) }"

definition rt_snprintf :: "nat \<Rightarrow> u64 \<Rightarrow> u8 list \<Rightarrow> va list \<Rightarrow> memory \<Rightarrow> (int \<times> memory) option" where
  "rt_snprintf buf size0 fmt args m = rt_vsnprintf buf size0 fmt args m"

definition rt_vsprintf :: "nat \<Rightarrow> u8 list \<Rightarrow> va list \<Rightarrow> memory \<Rightarrow> (int \<times> memory) option" where
  "rt_vsprintf buf fmt args m = rt_vsnprintf buf (-1) fmt args m"

definition rt_sprintf :: "nat \<Rightarrow> u8 list \<Rightarrow> va list \<Rightarrow> memory \<Rightarrow> (int \<times> memory) option" where
  "rt_sprintf buf fmt args m = rt_vsprintf buf fmt args m"

text \<open>
  The console: what \<^verbatim>\<open>rt_device_write\<close> is given of the static buffer of 128 bytes, or nothing
  where no console device is set (the weak \<^verbatim>\<open>rt_hw_console_output\<close> is empty).
\<close>

definition rt_kprintf :: "bool \<Rightarrow> nat \<Rightarrow> u8 list \<Rightarrow> va list \<Rightarrow> memory \<Rightarrow> (u8 list \<times> memory) option" where
  "rt_kprintf device rt_log_buf fmt args m =
     do { (n, m1) \<leftarrow> rt_vsnprintf rt_log_buf (128 - 1) fmt args m;
          let len = (word_of_int n :: u64);
          let len1 = (if len > 127 then 127 else len);
          Some (if device then map (\<lambda>k. m1 (rt_log_buf + k)) [0..<unat len1] else [], m1) }"

subsection \<open>What is printed\<close>

text \<open>
  The output as a list of bytes. A number is its positional numeral with the sign in front, at least as many
  digits as the precision, in a field of the given width.
\<close>

definition digit :: "bool \<Rightarrow> nat \<Rightarrow> u8" where
  "digit large d = of_nat (if d < 10 then 48 + d else if large then 55 + d else 87 + d)"

function numeral_text :: "bool \<Rightarrow> nat \<Rightarrow> nat \<Rightarrow> u8 list" where
  "numeral_text large b n =
     (if b \<le> 1 \<or> n < b then [digit large n] else numeral_text large b (n div b) @ [digit large (n mod b)])"
  by pat_completeness auto
termination by (relation "measure (\<lambda>(_, _, n). n)") auto

declare numeral_text.simps [simp del]

definition field :: "bool \<Rightarrow> int \<Rightarrow> u8 list \<Rightarrow> u8 list" where
  "field left width xs =
     (let fill = replicate (nat width - length xs) (chr CHR '' '') in if left then xs @ fill else fill @ xs)"

definition sign_text :: "bool \<Rightarrow> u8 \<Rightarrow> u8 list" where
  "sign_text negative flags =
     (if flags AND SIGN = 0 then []
      else if negative then [chr CHR ''-'']
      else if flags AND PLUS \<noteq> 0 then [chr CHR ''+'']
      else if flags AND SPACE \<noteq> 0 then [chr CHR '' ''] else [])"

definition number_text :: "bool \<Rightarrow> nat \<Rightarrow> nat \<Rightarrow> int \<Rightarrow> int \<Rightarrow> u8 \<Rightarrow> u8 list" where
  "number_text negative n b width precision flags =
     (let ds = numeral_text (flags AND LARGE \<noteq> 0) b n;
          zs = replicate (nat precision - length ds) (chr CHR ''0'');
          sg = sign_text negative flags;
          gap = nat width - (length sg + length zs + length ds);
          body = zs @ (if precision = 0 then [] else ds)
      in if flags AND LEFT \<noteq> 0 then sg @ body @ replicate gap (chr CHR '' '')
         else if flags AND ZEROPAD \<noteq> 0 then sg @ replicate gap (chr CHR ''0'') @ body
         else replicate gap (chr CHR '' '') @ sg @ body)"

text \<open>Where an output goes: into the buffer as far as it fits.\<close>

definition place :: "nat \<Rightarrow> u8 list \<Rightarrow> memory \<Rightarrow> memory" where
  "place a xs m = (\<lambda>q. if a \<le> q \<and> q < a + length xs then xs ! (q - a) else m q)"

definition written :: "nat \<Rightarrow> nat \<Rightarrow> memory \<Rightarrow> u8 list \<Rightarrow> cursor" where
  "written fin buf m out = (buf + length out, place buf (take (fin - buf) out) m)"

lemma place_snoc: "(place a xs m)(a + length xs := c) = place a (xs @ [c]) m"
  by (auto simp: place_def fun_eq_iff nth_append)

lemma written_Nil [simp]: "written fin buf m [] = (buf, m)"
  by (auto simp: written_def place_def fun_eq_iff)

lemma put_written [simp]:
  assumes "buf \<le> fin"
  shows "put fin c (written fin buf m out) = written fin buf m (out @ [c])"
proof (cases "length out < fin - buf")
  case True
  then show ?thesis using assms place_snoc [of buf out m c] by (auto simp: put_def written_def)
next
  case False
  then show ?thesis using assms by (auto simp: put_def written_def)
qed

lemma put_text_written [simp]: "buf \<le> fin \<Longrightarrow> put_text fin xs (written fin buf m out) = written fin buf m (out @ xs)"
  by (induction xs arbitrary: out) auto

lemma put_zeros_written [simp]:
  "buf \<le> fin \<Longrightarrow> put_zeros fin n (written fin buf m out) = written fin buf m (out @ replicate n (chr CHR ''0''))"
  by (induction n arbitrary: out) (auto simp: replicate_append_same)

lemma put_digits_written [simp]:
  "buf \<le> fin \<Longrightarrow> i \<le> length tmp \<Longrightarrow>
   put_digits fin tmp i bak (written fin buf m out) = written fin buf m (out @ (if bak = 0 then [] else rev (take i tmp)))"
  by (induction i arbitrary: out) (auto simp: take_Suc_conv_app_nth)

lemma pad_written [simp]:
  assumes "buf \<le> fin"
  shows "pad fin c sz (written fin buf m out) = ((if sz > 0 then 0 else sz) - 1, written fin buf m (out @ replicate (nat sz) c))"
proof (induction "nat sz" arbitrary: sz out)
  case (Suc n)
  then have "0 < sz" and n: "n = nat (sz - 1)" by simp_all
  from n have "nat sz = Suc (nat (sz - 1))" using \<open>0 < sz\<close> by simp
  then show ?case using \<open>0 < sz\<close> assms Suc.hyps(1) [OF n] by (simp add: pad.simps [of fin c sz])
qed (simp add: pad.simps)

lemma pad_char_written [simp]:
  assumes "buf \<le> fin"
  shows "pad_char fin w (written fin buf m out) =
     ((if w > 0 then 1 else w) - 1, written fin buf m (out @ replicate (nat w - 1) (chr CHR '' '')))"
proof (induction "nat w" arbitrary: w out)
  case (Suc n)
  show ?case
  proof (cases "w - 1 > 0")
    case True
    with Suc.hyps(2) have n: "n = nat (w - 1)" by simp
    have "nat w - 1 = Suc (nat (w - 1) - 1)" using True by simp
    then have "replicate (nat w - 1) c = c # replicate (nat (w - 1) - 1) c" for c :: u8 by (simp only: replicate_Suc)
    then show ?thesis using True assms Suc.hyps(1) [OF n] by (simp only: pad_char.simps [of fin w]) simp
  next
    case False
    then show ?thesis using Suc.hyps(2) by (simp add: pad_char.simps [of fin w])
  qed
qed (simp add: pad_char.simps)

lemma pad_text_written [simp]:
  assumes "buf \<le> fin"
  shows "pad_text fin len w (written fin buf m out) =
     ((if len < w then len else w) - 1, written fin buf m (out @ replicate (nat (w - len)) (chr CHR '' '')))"
proof (induction "nat (w - len)" arbitrary: w out)
  case (Suc n)
  then have "len < w" and n: "n = nat (w - 1 - len)" by simp_all
  then have "nat (w - len) = Suc (nat (w - 1 - len))" by simp
  then show ?case using \<open>len < w\<close> assms Suc.hyps(1) [OF n] by (simp add: pad_text.simps [of fin len w])
qed (simp add: pad_text.simps)


subsection \<open>Numbers are printed as specified\<close>

definition radix :: "int \<Rightarrow> nat" where
  "radix base = (if base = 10 then 10 else 16)"

lemma radix_gt [simp]: "1 < radix base" "radix base \<le> 16"
  by (simp_all add: radix_def)

lemma unat_divide_by: "unat (fst (divide_by num base)) = unat num mod radix base" "unat (snd (divide_by num base)) = unat num div radix base"
  by (simp_all add: divide_by_def radix_def unat_mod unat_div)

lemma digits_nth:
  assumes "k < 16"
  shows "(if large then large_digits else small_digits) ! k = digit large k"
proof -
  have "\<forall>k\<in>{..<16}. (if large then large_digits else small_digits) ! k = digit large k"
    by (cases large) (simp_all add: digit_def lessThan_nat_numeral lessThan_Suc)
  then show ?thesis using assms by blast
qed

lemma length_numeral_text: "n < b ^ Suc k \<Longrightarrow> 1 < b \<Longrightarrow> length (numeral_text large b n) \<le> Suc k"
proof (induction k arbitrary: n)
  case (Suc k)
  have "n div b < b ^ Suc k" using Suc.prems by (simp add: less_mult_imp_div_less mult.commute)
  then show ?case using Suc.IH [of "n div b"] Suc.prems by (simp add: numeral_text.simps [of large b n])
qed (simp add: numeral_text.simps)

lemma num_loop_numeral:
  assumes "num \<noteq> 0" "length tmp + length (numeral_text large (radix base) (unat num)) \<le> 16"
  shows "num_loop (if large then large_digits else small_digits) base num tmp =
     Some (tmp @ rev (numeral_text large (radix base) (unat num)))"
  using assms
proof (induction "unat num" arbitrary: num tmp rule: less_induct)
  case less
  let ?b = "radix base" and ?q = "snd (divide_by num base)"
  have pos: "0 < unat num" using less.prems(1) by (simp add: unat_gt_0)
  have d: "(if large then large_digits else small_digits) ! unat (fst (divide_by num base)) = digit large (unat num mod ?b)"
    unfolding unat_divide_by by (rule digits_nth) (rule order.strict_trans2 [OF mod_less_divisor], simp_all add: radix_def)
  show ?case
  proof (cases "unat num < ?b")
    case True
    then have "?q = 0" using unat_divide_by(2) [of num base] by (simp add: unat_eq_0)
    then show ?thesis using True less.prems d
      by (simp add: num_loop.simps [of _ base num] num_loop.simps [of _ base 0] numeral_text.simps [of large ?b "unat num"])
  next
    case False
    then have nt: "numeral_text large ?b (unat num) = numeral_text large ?b (unat ?q) @ [digit large (unat num mod ?b)]"
      using radix_gt(1) [of base] by (simp add: numeral_text.simps [of large ?b "unat num"] unat_divide_by)
    have "unat ?q \<noteq> 0" using False radix_gt(1) [of base] by (simp add: unat_divide_by div_eq_0_iff)
    then have nz: "?q \<noteq> 0" by (metis unat_0)
    have "unat ?q < unat num" using pos radix_gt(1) [of base] by (simp add: unat_divide_by)
    from less.hyps [OF this nz, of "tmp @ [digit large (unat num mod ?b)]"]
    show ?thesis using less.prems nt d by (simp add: num_loop.simps [of _ base num])
  qed
qed

definition negative :: "u64 \<Rightarrow> u8 \<Rightarrow> bool" where
  "negative num flags \<longleftrightarrow> flags AND SIGN \<noteq> 0 \<and> sint num < 0"

definition magnitude :: "u64 \<Rightarrow> u8 \<Rightarrow> nat" where
  "magnitude num flags = unat (if negative num flags then - num else num)"

lemma number_sign_text:
  "snd (number_sign num flags) = (if negative num flags then - num else num)"
  "sign_text (negative num flags) flags = (if fst (number_sign num flags) = 0 then [] else [fst (number_sign num flags)])"
  by (simp_all add: number_sign_def negative_def sign_text_def)


text \<open>The flags that decide the layout: \<^verbatim>\<open>LEFT\<close> switches \<^verbatim>\<open>ZEROPAD\<close> off.\<close>

definition effective :: "u8 \<Rightarrow> u8" where
  "effective flags = (if flags AND LEFT \<noteq> 0 then flags AND NOT ZEROPAD else flags)"

lemma effective_flags:
  "effective flags AND SIGN = flags AND SIGN" "effective flags AND PLUS = flags AND PLUS" "effective flags AND SPACE = flags AND SPACE"
  "effective flags AND LEFT = flags AND LEFT" "flags AND LEFT = 0 \<Longrightarrow> effective flags = flags" "flags AND LEFT \<noteq> 0 \<Longrightarrow> effective flags AND ZEROPAD = 0"
  by (simp_all add: effective_def and.assoc)

lemma number_sign_effective [simp]: "number_sign num (effective flags) = number_sign num flags"
  by (simp add: number_sign_def effective_flags)

lemma layout_flags:
  fixes flags :: u8
  shows "flags AND 17 = 0 \<longleftrightarrow> flags AND ZEROPAD = 0 \<and> flags AND LEFT = 0"
  using or_eq_0_iff [of "flags AND ZEROPAD" "flags AND LEFT"] bit.conj_disj_distrib [of flags ZEROPAD LEFT] by simp

lemma print_field_written:
  assumes "buf \<le> fin" "c = (if effective flags AND ZEROPAD \<noteq> 0 then chr CHR ''0'' else chr CHR '' '')"
    and "ds = numeral_text (flags AND LARGE \<noteq> 0) b n" "sign_text neg flags = (if sign = 0 then [] else [sign])"
  shows "print_field fin (rev ds) c sign (effective flags) width precision (written fin buf m out) =
     written fin buf m (out @ number_text neg n b width precision flags)"
proof -
  define z where "z = nat precision - length ds"
  have prec: "(if int (length (rev ds)) > precision then int (length (rev ds)) else precision) = int (z + length ds)" by (simp add: z_def)
  have fills: "nat (int (z + length ds) - int (length (rev ds))) = z" "nat (width - int k) = nat width - k" "nat (width - int k - 1) = nat width - Suc k" for k by simp_all
  note defs = number_text_def Let_def assms(3) [symmetric] assms(4) z_def [symmetric] fills layout_flags
  consider "flags AND LEFT \<noteq> 0" | "flags AND LEFT = 0" "flags AND ZEROPAD \<noteq> 0" | "flags AND LEFT = 0" "flags AND ZEROPAD = 0" by blast
  then show ?thesis
  proof cases
    case 1
    then show ?thesis using assms(1) unfolding print_field_def Let_def prec fills by (cases "sign = 0") (auto simp: defs effective_flags simp del: of_nat_add)
  next
    case 2
    then show ?thesis using assms(1,2) unfolding print_field_def Let_def prec fills by (cases "sign = 0") (auto simp: defs effective_flags simp del: of_nat_add)
  next
    case 3
    then show ?thesis using assms(1,2) unfolding print_field_def Let_def prec fills by (cases "sign = 0") (auto simp: defs effective_flags simp del: of_nat_add)
  qed
qed

lemma print_number_written:
  assumes "buf \<le> fin" and len: "length (numeral_text (flags AND LARGE \<noteq> 0) (radix base) (magnitude num flags)) \<le> 16"
  shows "print_number fin num base width precision flags (written fin buf m out) =
     Some (written fin buf m (out @ number_text (negative num flags) (magnitude num flags) (radix base) width precision flags))"
proof -
  let ?large = "flags AND LARGE \<noteq> 0" and ?num = "snd (number_sign num flags)" and ?sg = "fst (number_sign num flags)"
  let ?nt = "numeral_text ?large (radix base) (magnitude num flags)"
  have mag: "magnitude num flags = unat ?num" by (simp add: magnitude_def number_sign_text)
  have "numeral_text ?large (radix base) 0 = [48]" using radix_gt(1) [of base] by (simp add: numeral_text.simps digit_def)
  then have tmp: "(if ?num = 0 then Some [chr CHR ''0''] else num_loop (if ?large then large_digits else small_digits) base ?num []) = Some (rev ?nt)"
    using num_loop_numeral [of ?num "[]" ?large base] len by (simp add: mag)
  show ?thesis
    unfolding print_number_def effective_def [symmetric] Let_def number_sign_effective case_prod_beta tmp
    using print_field_written [OF assms(1) refl refl number_sign_text(2)] by simp
qed

subsection \<open>The text of a format\<close>

text \<open>
  What the loop over the format appends, as a function of what the parser delivers. The theory of the pieces of an
  output compares it with a specification that does not depend on the parser.
\<close>

definition conv_text :: "conversion \<Rightarrow> u8 \<Rightarrow> va list \<Rightarrow> (u8 list \<times> va list) option" where
  "conv_text cv c args =
     (let left = (cv_flags cv AND LEFT \<noteq> 0); width = cv_width cv; precision = cv_precision cv
      in if c = chr CHR ''c'' then do { (v, as) \<leftarrow> va_int args; Some (field left width [ucast v], as) }
         else if c = chr CHR ''s''
         then do { (p, as) \<leftarrow> va_text args;
                   let s = (case p of None \<Rightarrow> null_text | Some s \<Rightarrow> s);
                   Some (field left width (if precision > 0 then take (nat precision) s else s), as) }
         else if c = chr CHR ''p''
         then do { (v, as) \<leftarrow> va_ptr args;
                   Some (if width = -1 then number_text False (unat v) 16 16 precision (cv_flags cv OR ZEROPAD)
                         else number_text False (unat v) 16 width precision (cv_flags cv), as) }
         else if c = chr CHR ''%'' then Some ([c], args)
         else case vs_base c (cv_flags cv) of
                Some (base, flags) \<Rightarrow>
                  do { (num, as) \<leftarrow> vs_num (cv_qualifier cv) flags args;
                       Some (number_text False (unat num) (radix base) width precision flags, as) }
              | None \<Rightarrow> Some ([chr CHR ''%'', c], args))"

function render :: "u8 list \<Rightarrow> va list \<Rightarrow> u8 list option" where
  "render [] args = Some []"
| "render (c # fmt) args =
     (if c \<noteq> chr CHR ''%'' then map_option ((#) c) (render fmt args)
      else case vs_parse fmt args of
             None \<Rightarrow> None
           | Some (cv, [], args1) \<Rightarrow> Some [chr CHR ''%'']
           | Some (cv, d # fmt1, args1) \<Rightarrow>
               (case conv_text cv d args1 of
                  None \<Rightarrow> None
                | Some (t, args2) \<Rightarrow> map_option ((@) t) (render fmt1 args2)))"
  by pat_completeness auto
termination
  by (relation "measure (\<lambda>(fmt, _). length fmt)") (auto dest: vs_parse_length)

text \<open>No flag character sets \<^verbatim>\<open>SIGN\<close>.\<close>

lemma vs_flags_unsigned: "flags AND SIGN = 0 \<Longrightarrow> fst (vs_flags fmt flags) AND SIGN = 0"
  by (induction fmt flags rule: vs_flags.induct) (auto simp: bit.conj_disj_distrib2)

lemma vs_width_unsigned: "vs_width fmt args flags = Some (fl, w, rest, as) \<Longrightarrow> flags AND SIGN = 0 \<Longrightarrow> fl AND SIGN = 0"
  by (auto simp: vs_width_def bind_eq_Some_conv bit.conj_disj_distrib2 split: list.splits if_splits)

lemma vs_parse_unsigned: "vs_parse fmt args = Some (cv, rest, as) \<Longrightarrow> cv_flags cv AND SIGN = 0"
  using vs_flags_unsigned [of 0 fmt]
  by (auto simp: vs_parse_def bind_eq_Some_conv Let_def case_prod_beta dest!: vs_width_unsigned)

text \<open>The arguments left over are among those given.\<close>

lemma va_rest:
  "va_int args = Some (v, as) \<Longrightarrow> set as \<subseteq> set args"
  "va_ptr args = Some (p, as) \<Longrightarrow> set as \<subseteq> set args"
  "va_text args = Some (t, as) \<Longrightarrow> set as \<subseteq> set args"
  by (auto elim!: va_int.elims va_ptr.elims va_text.elims)

lemma vs_width_rest: "vs_width fmt args flags = Some (fl, w, rest, as) \<Longrightarrow> set as \<subseteq> set args"
  by (auto simp: vs_width_def bind_eq_Some_conv split: list.splits if_splits dest: va_rest)

lemma vs_precision_rest: "vs_precision fmt args = Some (p, rest, as) \<Longrightarrow> set as \<subseteq> set args"
  by (auto simp: vs_precision_def bind_eq_Some_conv split: list.splits if_splits dest: va_rest)

lemma vs_parse_rest:
  assumes "vs_parse fmt args = Some (cv, rest, as)" shows "set as \<subseteq> set args"
proof -
  obtain fl w fmt1 args1 p fmt2 where
    "vs_width (snd (vs_flags fmt 0)) args (fst (vs_flags fmt 0)) = Some (fl, w, fmt1, args1)"
    "vs_precision fmt1 args1 = Some (p, fmt2, as)"
    using assms by (auto simp: vs_parse_def bind_eq_Some_conv Let_def case_prod_beta)
  then show ?thesis using vs_width_rest vs_precision_rest by blast
qed

lemma vs_numD:
  assumes "vs_num q flags args = Some (num, as)"
  shows "set as \<subseteq> set args" "unat num < 2 ^ 32"
proof -
  obtain v w where v: "va_int args = Some (v, as)" and num: "num = ucast (w :: u32)"
    using assms by (auto simp: vs_num_def Let_def bind_eq_Some_conv split: if_splits)
  show "set as \<subseteq> set args" by (rule va_rest(1) [OF v])
  show "unat num < 2 ^ 32" using num unat_u32 [of w] by simp
qed

lemma conv_text_rest: "conv_text cv c args = Some (t, as) \<Longrightarrow> set as \<subseteq> set args"
  by (auto simp: conv_text_def Let_def bind_eq_Some_conv split: if_splits option.splits dest: va_rest [THEN subsetD] vs_numD(1) [THEN subsetD])

text \<open>A number of 32 bits, or any in base 16, fits the array for its digits.\<close>

lemma numeral_text_fits:
  "n < 2 ^ 32 \<Longrightarrow> length (numeral_text large (radix base) n) \<le> 16"
  "n < 2 ^ 64 \<Longrightarrow> length (numeral_text large 16 n) \<le> 16"
proof -
  assume n: "n < 2 ^ 32"
  have "(10 :: nat) ^ Suc 9 \<le> radix base ^ Suc 9" by (rule power_mono) (simp_all add: radix_def)
  then have "n < radix base ^ Suc 9" using n by simp
  from length_numeral_text [OF this radix_gt(1), of large] show "length (numeral_text large (radix base) n) \<le> 16" by simp
next
  assume "n < 2 ^ 64"
  then show "length (numeral_text large 16 n) \<le> 16" using length_numeral_text [of n 16 15 large] by simp
qed

definition texts_short :: "va list \<Rightarrow> bool" where
  "texts_short args \<longleftrightarrow> list_all (\<lambda>a. case a of Text (Some s) \<Rightarrow> length s < 2 ^ 31 | _ \<Rightarrow> True) args"

lemma texts_shortD: "texts_short args \<Longrightarrow> Text (Some s) \<in> set args \<Longrightarrow> length s < 2 ^ 31"
  by (auto simp: texts_short_def list_all_iff)

lemma texts_short_mono: "texts_short args \<Longrightarrow> set as \<subseteq> set args \<Longrightarrow> texts_short as"
  by (auto simp: texts_short_def list_all_iff)

lemma sint_length:
  "n < 2 ^ 31 \<Longrightarrow> sint (of_nat n :: u32) = int n" "n < 2 ^ 63 \<Longrightarrow> sint (of_nat n :: u64) = int n"
  by (simp_all add: signed_of_nat signed_take_bit_int_eq_self)

lemma text_len_take:
  assumes "length s < 2 ^ 31"
  shows "take (nat (text_len s p)) s = (if p > 0 then take (nat p) s else s)"
    "text_len s p = int (length (if p > 0 then take (nat p) s else s))"
  using sint_length(1) [OF assms] by (auto simp: text_len_def Let_def)


text \<open>Every conversion appends its text.\<close>

lemma unsigned_written:
  assumes "buf \<le> fin" "flags AND SIGN = 0 \<or> unat num < 2 ^ 32" "unat num < 2 ^ 32 \<or> base \<noteq> 10"
  shows "print_number fin num base width precision flags (written fin buf m out) =
     Some (written fin buf m (out @ number_text False (unat num) (radix base) width precision flags))"
proof -
  have "\<not> sint num < 0" if "unat num < 2 ^ 32"
    using that sint_length(2) [of "unat num"] by simp
  then have neg: "negative num flags = False" using assms(2) by (auto simp: negative_def)
  then have mag: "magnitude num flags = unat num" by (simp add: magnitude_def)
  have "unat num < 2 ^ 64" by (rule order.strict_trans2 [OF unsigned_less]) simp
  then have "length (numeral_text (flags AND LARGE \<noteq> 0) (radix base) (unat num)) \<le> 16"
    using numeral_text_fits(1) [of "unat num" "flags AND LARGE \<noteq> 0" base] numeral_text_fits(2) [of "unat num"] assms(3)
    by (cases "base = 10") (auto simp: radix_def [of base])
  then show ?thesis using print_number_written [OF assms(1), of flags base num width precision m out] by (simp add: neg mag)
qed

lemma vs_char_written:
  "buf \<le> fin \<Longrightarrow> vs_char fin cv args (written fin buf m out) =
     do { (v, as) \<leftarrow> va_int args;
          Some (written fin buf m (out @ field (cv_flags cv AND LEFT \<noteq> 0) (cv_width cv) [ucast v]), as) }"
  by (cases "va_int args") (auto simp: vs_char_def field_def Let_def)

lemma vs_string_written:
  assumes "buf \<le> fin" "texts_short args"
  shows "vs_string fin cv args (written fin buf m out) =
     do { (p, as) \<leftarrow> va_text args;
          let s = (case p of None \<Rightarrow> null_text | Some s \<Rightarrow> s);
          Some (written fin buf m (out @ field (cv_flags cv AND LEFT \<noteq> 0) (cv_width cv)
            (if cv_precision cv > 0 then take (nat (cv_precision cv)) s else s)), as) }"
proof (cases "va_text args")
  case (Some r)
  obtain p as where r: "r = (p, as)" by (cases r)
  have "p = Some s \<Longrightarrow> Text (Some s) \<in> set args" for s using Some r by (auto elim!: va_text.elims)
  then have "length (case p of None \<Rightarrow> null_text | Some s \<Rightarrow> s) < 2 ^ 31"
    using texts_shortD [OF assms(2)] by (cases p) (auto simp: null_text_def)
  note len = text_len_take [OF this, of "cv_precision cv"]
  define s where "s = (case p of None \<Rightarrow> null_text | Some s \<Rightarrow> s)"
  define u where "u = (if cv_precision cv > 0 then take (nat (cv_precision cv)) s else s)"
  have t: "take (nat (text_len s (cv_precision cv))) s = u" "text_len s (cv_precision cv) = int (length u)"
    using len by (simp_all add: s_def u_def)
  have n: "nat (cv_width cv - int k) = nat (cv_width cv) - k" for k by simp
  show ?thesis
    unfolding vs_string_def Some r Option.bind.simps prod.case Let_def s_def [symmetric] u_def [symmetric] t
    using assms(1) t by (cases "cv_flags cv AND LEFT = 0") (simp_all add: n field_def Let_def)
qed (simp add: vs_string_def)

lemma vs_conv_written:
  assumes "buf \<le> fin" "texts_short args" "cv_flags cv AND SIGN = 0"
  shows "vs_conv fin cv c args (written fin buf m out) =
     map_option (\<lambda>(t, as). (written fin buf m (out @ t), as)) (conv_text cv c args)"
proof -
  have p: "vs_pointer fin cv args (written fin buf m out) =
      map_option (\<lambda>(t, as). (written fin buf m (out @ t), as)) (conv_text cv (chr CHR ''p'') args)"
    using assms(1,3) unsigned_written [OF assms(1), of "cv_flags cv" _ 16] unsigned_written [OF assms(1), of "cv_flags cv OR 1" _ 16]
    by (cases "va_ptr args") (auto simp: vs_pointer_def conv_text_def Let_def radix_def bit.conj_disj_distrib2)
  have i: "vs_integer fin bf cv args (written fin buf m out) =
      do { (num, as) \<leftarrow> vs_num (cv_qualifier cv) (snd bf) args;
           Some (written fin buf m (out @ number_text False (unat num) (radix (fst bf)) (cv_width cv) (cv_precision cv) (snd bf)), as) }" for bf
    using unsigned_written [OF assms(1), of "snd bf" _ "fst bf"] vs_numD(2)
    by (cases "vs_num (cv_qualifier cv) (snd bf) args") (auto simp: vs_integer_def)
  consider "c = chr CHR ''c''" | "c = chr CHR ''s''" | "c = chr CHR ''p''" | "c \<noteq> chr CHR ''c''" "c \<noteq> chr CHR ''s''" "c \<noteq> chr CHR ''p''" by blast
  then show ?thesis
  proof cases
    case 1
    then show ?thesis using vs_char_written [OF assms(1)]
      by (cases "va_int args") (auto simp: vs_conv_def conv_text_def)
  next
    case 2
    then show ?thesis using vs_string_written [OF assms(1,2)]
      by (cases "va_text args") (auto simp: vs_conv_def conv_text_def Let_def)
  next
    case 3
    then show ?thesis using p by (simp add: vs_conv_def)
  next
    case 4
    then show ?thesis using assms(1)
      by (cases "vs_base c (cv_flags cv)"; cases "vs_num (cv_qualifier cv) (snd (the (vs_base c (cv_flags cv)))) args")
        (auto simp: vs_conv_def conv_text_def Let_def i)
  qed
qed

lemma vs_loop_written:
  assumes "buf \<le> fin" "texts_short args"
  shows "vs_loop fin fmt args (written fin buf m out) = map_option (\<lambda>t. written fin buf m (out @ t)) (render fmt args)"
  using assms(2)
proof (induction fmt args arbitrary: out rule: render.induct)
  case (2 c fmt args)
  show ?case
  proof (cases "c = chr CHR ''%''")
    case True
    show ?thesis
    proof (cases "vs_parse fmt args")
      case (Some r)
      obtain cv rest as where r: "r = (cv, rest, as)" by (cases r)
      note p = Some [unfolded r]
      show ?thesis
      proof (cases rest)
        case Nil
        then show ?thesis using True p assms(1) by (simp add: vs_step_def)
      next
        case (Cons d fmt1)
        have "texts_short as" by (rule texts_short_mono [OF 2(3) vs_parse_rest [OF p]])
        note conv = vs_conv_written [OF assms(1) this vs_parse_unsigned [OF p]]
        show ?thesis
        proof (cases "conv_text cv d as")
          case None
          then show ?thesis using True p Cons conv by (simp add: vs_step_def)
        next
          case t: (Some q)
          obtain t as2 where q: "q = (t, as2)" by (cases q)
          have "texts_short as2" by (rule texts_short_mono [OF \<open>texts_short as\<close> conv_text_rest]) (use t q in simp)
          then have "vs_loop fin fmt1 as2 (written fin buf m (out @ t)) = map_option (\<lambda>u. written fin buf m ((out @ t) @ u)) (render fmt1 as2)"
            using 2(2) True p Cons t q by simp
          then show ?thesis using True p Cons conv t q by (simp add: vs_step_def option.map_comp comp_def)
        qed
      qed
    qed (use True in \<open>simp add: vs_step_def\<close>)
  next
    case False
    then show ?thesis using 2 assms(1) by (simp add: option.map_comp comp_def)
  qed
qed simp

subsection \<open>The buffer\<close>

text \<open>The part of a text that a buffer of \<open>n\<close> bytes holds, with its terminating null.\<close>

definition fitted :: "nat \<Rightarrow> u8 list \<Rightarrow> u8 list" where
  "fitted n t = (if n = 0 then [] else take (n - 1) t @ [0])"

definition room :: "nat \<Rightarrow> u64 \<Rightarrow> nat" where
  "room buf size0 = (if buf + unat size0 \<ge> 2 ^ 64 then 2 ^ 64 - 1 - buf else unat size0)"

lemma place_last:
  assumes "0 < n" "n \<le> length t"
  shows "(place buf (take n t) m)(buf + n - 1 := c) = place buf (take (n - 1) t @ [c]) m"
proof
  fix q
  show "((place buf (take n t) m)(buf + n - 1 := c)) q = place buf (take (n - 1) t @ [c]) m q"
    using assms by (cases "q = buf + n - 1") (auto simp: place_def nth_append)
qed

lemma written_fitted:
  "(if n > 0 then if fst (written (buf + n) buf m t) < buf + n then (snd (written (buf + n) buf m t))(fst (written (buf + n) buf m t) := 0)
                  else (snd (written (buf + n) buf m t))(buf + n - 1 := 0)
    else snd (written (buf + n) buf m t)) = place buf (fitted n t) m"
  using place_last [of n t buf m 0] place_snoc [of buf t m 0]
  by (cases "length t < n") (auto simp: written_def fitted_def)

lemma vsnprintf_eq:
  assumes "buf < 2 ^ 64" "texts_short args"
  shows "rt_vsnprintf buf size0 fmt args m =
     map_option (\<lambda>t. (sint (of_nat (length t) :: u32), place buf (fitted (room buf size0) t) m)) (render fmt args)"
proof -
  let ?n = "room buf size0"
  have fin: "(if buf + unat size0 \<ge> 2 ^ 64 then (2 ^ 64 - 1, 2 ^ 64 - 1 - buf) else (buf + unat size0, unat size0)) = (buf + ?n, ?n)"
    using assms(1) by (simp add: room_def)
  have "vs_loop (buf + ?n) fmt args (buf, m) = map_option (written (buf + ?n) buf m) (render fmt args)"
    using vs_loop_written [of buf "buf + ?n" args fmt m "[]"] assms(2) by simp
  then show ?thesis
    unfolding rt_vsnprintf_def fin Let_def prod.case
    using written_fitted [of ?n buf m] by (cases "render fmt args") (simp_all add: case_prod_beta, simp add: written_def)
qed

text \<open>
  \<^verbatim>\<open>rt_vsnprintf\<close> writes nothing outside its buffer: the buffer holds as much of the text as fits together with a
  terminating null.
\<close>

lemma vsnprintf_outcome:
  assumes "buf + unat size0 < 2 ^ 64" "texts_short args" "render fmt args = Some t" "length t < 2 ^ 31"
  shows "\<exists>m'. rt_vsnprintf buf size0 fmt args m = Some (int (length t), m') \<and>
     (\<forall>q. q < buf \<or> buf + unat size0 \<le> q \<longrightarrow> m' q = m q) \<and>
     (0 < size0 \<longrightarrow> m' (buf + min (length t) (unat size0 - 1)) = 0) \<and>
     (\<forall>k < min (length t) (unat size0 - 1). m' (buf + k) = t ! k)"
proof -
  let ?n = "unat size0"
  have n: "room buf size0 = ?n" using assms(1) by (simp add: room_def)
  have "rt_vsnprintf buf size0 fmt args m = Some (int (length t), place buf (fitted ?n t) m)"
    using vsnprintf_eq [of buf args size0 fmt m] assms sint_length(1) [OF assms(4)] by (simp add: n)
  moreover have "place buf (fitted ?n t) m q = m q" if "q < buf \<or> buf + ?n \<le> q" for q
    using that by (auto simp: place_def fitted_def)
  moreover have "place buf (fitted ?n t) m (buf + min (length t) (?n - 1)) = 0" if "0 < size0"
  proof -
    have "0 < ?n" using that by (simp add: unat_gt_0 word_gt_0)
    then show ?thesis by (simp add: place_def fitted_def nth_append)
  qed
  moreover have "place buf (fitted ?n t) m (buf + k) = t ! k" if "k < min (length t) (?n - 1)" for k
    using that by (auto simp: place_def fitted_def nth_append)
  ultimately show ?thesis by blast
qed

subsection \<open>Decimal numbers\<close>

lemma cstr_text:
  assumes "\<forall>i < length t. m (a + i) = t ! i" "0 \<notin> set t" "m (a + length t) = 0" "length t < n"
  shows "cstr n m a = t"
  using assms
proof (induction t arbitrary: a n)
  case Nil
  then show ?case by (cases n) simp_all
next
  case (Cons c t)
  obtain k where k: "n = Suc k" using Cons.prems(4) by (cases n) simp_all
  have "m a = c" using Cons.prems(1) by force
  moreover have "\<forall>i < length t. m (a + 1 + i) = t ! i" using Cons.prems(1) by force
  ultimately show ?case using Cons.IH [of "a + 1" k] Cons.prems(2-4) by (simp add: k)
qed

lemma digit_facts:
  assumes "d < 10"
  shows "isdigit (digit large d)" "unat (digit large d) = 48 + d" "digit large d \<noteq> 0"
proof -
  show u: "unat (digit large d) = 48 + d" using assms by (simp add: digit_def unsigned_of_nat take_bit_nat_eq_self del: of_nat_add)
  then show "digit large d \<noteq> 0" by auto
  have "digit large d - 48 = of_nat d" using assms by (simp add: digit_def)
  then show "isdigit (digit large d)" using assms by (simp add: isdigit_def word_less_nat_alt unsigned_of_nat take_bit_nat_eq_self)
qed

lemma numeral_text_nonzero: "0 \<notin> set (numeral_text large 10 n)"
  by (induction n rule: less_induct) (subst numeral_text.simps, auto simp: digit_facts(3) [symmetric])

lemma skip_atoi_snoc:
  "skip_atoi xs i = Some (j, []) \<Longrightarrow> isdigit c \<Longrightarrow> j * 10 + int (unat c) < 2 ^ 31 \<Longrightarrow>
   skip_atoi (xs @ [c]) i = Some (j * 10 + int (unat c) - 48, [])"
  by (induction xs i rule: skip_atoi.induct) (auto split: if_splits)

lemma skip_atoi_numeral: "n + 48 < 2 ^ 31 \<Longrightarrow> skip_atoi (numeral_text large 10 n) 0 = Some (int n, [])"
proof (induction n rule: less_induct)
  case (less n)
  show ?case
  proof (cases "n < 10")
    case True
    then show ?thesis using digit_facts [OF True, of large] by (simp add: numeral_text.simps)
  next
    case False
    have "n mod 10 < 10" by simp
    note d = digit_facts [OF this, of large]
    have "skip_atoi (numeral_text large 10 (n div 10)) 0 = Some (int (n div 10), [])"
      by (rule less.IH) (use False less.prems in auto)
    moreover have e: "int (n div 10) * 10 + int (unat (digit large (n mod 10))) = int n + 48"
      unfolding d(2) using div_mult_mod_eq [of n 10] by linarith
    ultimately show ?thesis
      using skip_atoi_snoc [of "numeral_text large 10 (n div 10)" 0 "int (n div 10)" "digit large (n mod 10)"] d(1) less.prems False
      by (simp add: numeral_text.simps [of large 10 n])
  qed
qed

lemma render_decimal:
  "render (map of_char ''%d'') [Slot v] = Some (numeral_text False 10 (unat (ucast v :: u32)))"
  "render (map of_char ''%u'') [Slot v] = Some (numeral_text False 10 (unat (ucast v :: u32)))"
  by (simp_all add: vs_parse_def vs_width_def vs_precision_def vs_qualifier_def vs_base_def vs_num_def conv_text_def
      isdigit_def number_text_def sign_text_def radix_def)

lemma snprintf_decimal:
  assumes "buf + unat size0 < 2 ^ 64" "10 < unat size0"
  obtains m' where "rt_snprintf buf size0 (map of_char ''%d'') [Slot v] m =
      Some (int (length (numeral_text False 10 (unat (ucast v :: u32)))), m')"
    "cstr (unat size0) m' buf = numeral_text False 10 (unat (ucast v :: u32))"
proof -
  let ?t = "numeral_text False 10 (unat (ucast v :: u32))"
  have len: "length ?t \<le> 10" using length_numeral_text [of "unat (ucast v :: u32)" 10 9 False] unat_u32 [of "ucast v"] by simp
  then have i: "sint (of_nat (length ?t) :: u32) = int (length ?t)" by (intro sint_length(1)) simp
  have n: "room buf size0 = unat size0" using assms(1) by (simp add: room_def)
  have f: "fitted (unat size0) ?t = ?t @ [0]" using len assms(2) by (simp add: fitted_def)
  let ?m = "place buf (?t @ [0]) m"
  have "rt_snprintf buf size0 (map of_char ''%d'') [Slot v] m = Some (int (length ?t), ?m)"
    unfolding rt_snprintf_def using vsnprintf_eq [of buf "[Slot v]" size0 "map of_char ''%d''" m] assms(1)
    unfolding render_decimal n f option.map i by (simp add: texts_short_def)
  moreover have "cstr (unat size0) ?m buf = ?t"
    by (rule cstr_text) (use len assms(2) numeral_text_nonzero in \<open>auto simp: place_def nth_append\<close>)
  ultimately show thesis by (rule that)
qed

text \<open>
  \<^bold>\<open>C37\<close>: A decimal number survives printing and reading: a number that \<^verbatim>\<open>rt_snprintf\<close> prints with \<^verbatim>\<open>%d\<close> is what
  \<^verbatim>\<open>skip_atoi\<close> reads from the string in the buffer. The bound is the largest number for which
  \<^verbatim>\<open>i * 10 + *s - '0'\<close> does not overflow.
\<close>

theorem decimal_roundtrip:
  assumes "buf + unat size0 < 2 ^ 64" "10 < unat size0" "n + 48 < 2 ^ 31"
  shows "\<exists>len m'. rt_snprintf buf size0 (map of_char ''%d'') [Slot (of_nat n)] m = Some (len, m') \<and>
     skip_atoi (cstr (unat size0) m' buf) 0 = Some (int n, [])"
proof -
  have "unat (ucast (of_nat n :: u64) :: u32) = n"
    using assms(3) by (simp add: unsigned_ucast_eq unsigned_of_nat take_bit_nat_eq_self)
  with snprintf_decimal [OF assms(1,2), of "of_nat n" m] skip_atoi_numeral [OF assms(3), of False] show ?thesis by metis
qed

theorem decimal_roundtrip_witness:
  "\<exists>len m'. rt_snprintf 64 16 (map of_char ''%d'') [Slot 31415] (\<lambda>_. 0) = Some (len, m') \<and>
     skip_atoi (cstr 16 m' 64) 0 = Some (31415, [])"
  using decimal_roundtrip [of 64 16 31415 "\<lambda>_. 0"] by simp

text \<open>
  \<^bold>\<open>C38\<close>: \<^verbatim>\<open>%d\<close> of a negative number prints no sign but the number increased by \<open>2\<^sup>3\<^sup>2\<close>: the conversion
  keeps the argument in an unsigned 32-bit variable, which \<^verbatim>\<open>print_number\<close> receives as a non-negative 64-bit \<^verbatim>\<open>long\<close>.
\<close>

theorem rt_snprintf_negative_unsigned:
  assumes "sint (v :: u32) < 0" "buf + unat size0 < 2 ^ 64" "10 < unat size0"
  shows "\<exists>len m'. rt_snprintf buf size0 (map of_char ''%d'') [Slot (scast v)] m = Some (len, m') \<and>
     cstr (unat size0) m' buf = numeral_text False 10 (nat (sint v + 2 ^ 32))"
proof -
  have "ucast (scast v :: u64) = v" by (rule bit_word_eqI) (auto simp: bit_simps)
  moreover have "uint v = sint v + 2 ^ 32"
    using assms(1) sint_greater_eq [of v] mod_add_self2 [of "sint v" "2 ^ 32"] mod_pos_pos_trivial [of "sint v + 2 ^ 32" "2 ^ 32"]
    by (simp add: uint_sint take_bit_eq_mod)
  then have "unat v = nat (sint v + 2 ^ 32)" by (metis nat_uint_eq)
  ultimately show ?thesis using snprintf_decimal [OF assms(2,3), of "scast v" m] by metis
qed

theorem rt_snprintf_negative_unsigned_witness:
  "\<exists>len m'. rt_snprintf 64 16 (map of_char ''%d'') [Slot (scast (- 1 :: u32))] (\<lambda>_. 0) = Some (len, m') \<and>
     cstr 16 m' 64 = map of_char ''4294967295''"
proof -
  have "numeral_text False 10 4294967295 = map of_char ''4294967295''" by (simp add: numeral_text.simps digit_def)
  then show ?thesis using rt_snprintf_negative_unsigned [of "- 1" 64 16 "\<lambda>_. 0"] by simp
qed

subsection \<open>The console\<close>

text \<open>
  \<^verbatim>\<open>rt_kprintf\<close> gives the console device the text of the format if it has fewer than 127 bytes; of a longer
  text the device receives the first 126 bytes and then the null byte that ends the string in the buffer.
\<close>

theorem rt_kprintf_output:
  assumes "rt_log_buf + 127 < 2 ^ 64" "texts_short args" "render fmt args = Some t" "length t < 2 ^ 31"
  shows "\<exists>m'. rt_kprintf True rt_log_buf fmt args m = Some (if length t < 127 then t else take 126 t @ [0], m') \<and>
     (\<forall>q. q < rt_log_buf \<or> rt_log_buf + 127 \<le> q \<longrightarrow> m' q = m q)"
proof -
  let ?f = "fitted 127 t"
  have r: "rt_vsnprintf rt_log_buf (128 - 1) fmt args m = Some (int (length t), place rt_log_buf ?f m)"
    using vsnprintf_eq [of rt_log_buf args 127 fmt m] assms sint_length(1) [OF assms(4)] by (simp add: room_def)
  have "unat (of_nat (length t) :: u64) = length t" using assms(4) by (simp add: unsigned_of_nat take_bit_nat_eq_self)
  then have n: "unat (if (of_nat (length t) :: u64) > 127 then 127 else of_nat (length t) :: u64) = min (length t) 127"
    by (simp add: word_less_nat_alt min_def)
  have lf: "length ?f = Suc (min (length t) 126)" by (simp add: fitted_def)
  have "map (\<lambda>k. place rt_log_buf ?f m (rt_log_buf + k)) [0..<min (length t) 127] = take (min (length t) 127) ?f"
    by (rule nth_equalityI) (auto simp: place_def lf)
  also have "\<dots> = (if length t < 127 then t else take 126 t @ [0])" by (simp add: fitted_def)
  finally have "rt_kprintf True rt_log_buf fmt args m = Some (if length t < 127 then t else take 126 t @ [0], place rt_log_buf ?f m)"
    unfolding rt_kprintf_def r Option.bind.simps prod.case Let_def of_int_of_nat_eq n by simp
  moreover have "place rt_log_buf ?f m q = m q" if "q < rt_log_buf \<or> rt_log_buf + 127 \<le> q" for q
    using that by (auto simp: place_def fitted_def)
  ultimately show ?thesis by blast
qed

theorem rt_kprintf_output_witness:
  "\<exists>m'. rt_kprintf True 512 (replicate 200 65) [] (\<lambda>_. 1) = Some (replicate 126 65 @ [0], m') \<and> m' 639 = 1"
proof -
  have r: "render (replicate n 65) [] = Some (replicate n 65)" for n by (induction n) simp_all
  have "texts_short []" by (simp add: texts_short_def)
  from rt_kprintf_output [OF _ this r, of 512 200 "\<lambda>_. 1"] show ?thesis by auto
qed

end
