(* ===== verification/Printf_Spec.thy ===== *)
theory Printf_Spec
  imports Printf
begin

text \<open>
  What \<^verbatim>\<open>rt_vsnprintf\<close> of \<^verbatim>\<open>src/kservice.c\<close> prints, stated without the code that reads the format. An output is a
  list of pieces: characters to be copied and arguments with the layout they are to have. A list of pieces is written down as a
  format with its arguments, and it has a text; \<^verbatim>\<open>rt_vsnprintf\<close>, given the format and the arguments, prints
  the text. Of the conversions, \<^verbatim>\<open>%o\<close> (which prints hexadecimal digits), a precision of zero (with which a
  number loses its digits and a string is not cut) and negative numbers (which lose their sign) are left out.
\<close>

subsection \<open>Pieces of an output\<close>

datatype flag = Minus | Plus_sign | Blank | Zero_fill

datatype amount = Absent | Digits nat | Star int

record layout =
  la_flags :: "flag list"
  la_width :: amount
  la_precision :: amount

datatype int_size = Whole | Short | Long

datatype radix_style = Unsigned | Signed | Hex_small | Hex_large

datatype piece =
    Literal u8
  | Percent
  | Character layout u8
  | String layout "u8 list option"
  | Number layout int_size radix_style nat
  | Pointer layout u64

subsection \<open>The format and the arguments\<close>

fun flag_char :: "flag \<Rightarrow> u8" where
  "flag_char Minus = chr CHR ''-''"
| "flag_char Plus_sign = chr CHR ''+''"
| "flag_char Blank = chr CHR '' ''"
| "flag_char Zero_fill = chr CHR ''0''"

fun amount_fmt :: "amount \<Rightarrow> u8 list" where
  "amount_fmt Absent = []"
| "amount_fmt (Digits n) = numeral_text False 10 n"
| "amount_fmt (Star k) = [chr CHR ''*'']"

fun amount_args :: "amount \<Rightarrow> va list" where
  "amount_args (Star k) = [Slot (of_int k)]"
| "amount_args _ = []"

definition layout_fmt :: "layout \<Rightarrow> u8 list" where
  "layout_fmt l = map flag_char (la_flags l) @ amount_fmt (la_width l) @
     (if la_precision l = Absent then [] else chr CHR ''.'' # amount_fmt (la_precision l))"

definition layout_args :: "layout \<Rightarrow> va list" where
  "layout_args l = amount_args (la_width l) @ amount_args (la_precision l)"

fun size_fmt :: "int_size \<Rightarrow> u8 list" where
  "size_fmt Whole = []"
| "size_fmt Short = [chr CHR ''h'']"
| "size_fmt Long = [chr CHR ''l'']"

fun style_char :: "radix_style \<Rightarrow> u8" where
  "style_char Unsigned = chr CHR ''u''"
| "style_char Signed = chr CHR ''d''"
| "style_char Hex_small = chr CHR ''x''"
| "style_char Hex_large = chr CHR ''X''"

fun piece_fmt :: "piece \<Rightarrow> u8 list" where
  "piece_fmt (Literal c) = [c]"
| "piece_fmt Percent = map of_char ''%%''"
| "piece_fmt (Character l v) = chr CHR ''%'' # layout_fmt l @ [chr CHR ''c'']"
| "piece_fmt (String l s) = chr CHR ''%'' # layout_fmt l @ [chr CHR ''s'']"
| "piece_fmt (Number l sz st n) = chr CHR ''%'' # layout_fmt l @ size_fmt sz @ [style_char st]"
| "piece_fmt (Pointer l v) = chr CHR ''%'' # layout_fmt l @ [chr CHR ''p'']"

fun piece_args :: "piece \<Rightarrow> va list" where
  "piece_args (Character l v) = layout_args l @ [Slot (ucast v)]"
| "piece_args (String l s) = layout_args l @ [Text s]"
| "piece_args (Number l sz st n) = layout_args l @ [Slot (of_nat n)]"
| "piece_args (Pointer l v) = layout_args l @ [Slot v]"
| "piece_args _ = []"

subsection \<open>The text\<close>

fun amount_value :: "amount \<Rightarrow> nat" where
  "amount_value Absent = 0"
| "amount_value (Digits n) = n"
| "amount_value (Star k) = nat \<bar>k\<bar>"

text \<open>A negative width among the arguments means the same as the flag \<^verbatim>\<open>-\<close>.\<close>

definition to_left :: "layout \<Rightarrow> bool" where
  "to_left l \<longleftrightarrow> Minus \<in> set (la_flags l) \<or> (case la_width l of Star k \<Rightarrow> k < 0 | _ \<Rightarrow> False)"

abbreviation spaces :: "nat \<Rightarrow> u8 list" where "spaces k \<equiv> replicate k (chr CHR '' '')"
abbreviation zeros :: "nat \<Rightarrow> u8 list" where "zeros k \<equiv> replicate k (chr CHR ''0'')"

text \<open>Sign and digits, at least as many digits as the precision says, in a field of the given width.\<close>

definition number_piece :: "bool \<Rightarrow> bool \<Rightarrow> nat \<Rightarrow> nat \<Rightarrow> u8 list \<Rightarrow> u8 list \<Rightarrow> u8 list" where
  "number_piece left zero width precision sg ds =
     (let body = zeros (precision - length ds) @ ds;
          gap = width - (length sg + length body)
      in if left then sg @ body @ spaces gap
         else if zero then sg @ zeros gap @ body
         else spaces gap @ sg @ body)"

definition plus_or_blank :: "layout \<Rightarrow> u8 list" where
  "plus_or_blank l =
     (if Plus_sign \<in> set (la_flags l) then [chr CHR ''+'']
      else if Blank \<in> set (la_flags l) then [chr CHR '' ''] else [])"

fun style_digits :: "radix_style \<Rightarrow> nat \<Rightarrow> u8 list" where
  "style_digits Unsigned n = numeral_text False 10 n"
| "style_digits Signed n = numeral_text False 10 n"
| "style_digits Hex_small n = numeral_text False 16 n"
| "style_digits Hex_large n = numeral_text True 16 n"

definition string_text :: "amount \<Rightarrow> u8 list option \<Rightarrow> u8 list" where
  "string_text precision s =
     (let xs = (case s of None \<Rightarrow> map of_char ''(NULL)'' | Some xs \<Rightarrow> xs)
      in if precision = Absent then xs else take (amount_value precision) xs)"

fun piece_text :: "piece \<Rightarrow> u8 list" where
  "piece_text (Literal c) = [c]"
| "piece_text Percent = [chr CHR ''%'']"
| "piece_text (Character l v) = field (to_left l) (int (amount_value (la_width l))) [v]"
| "piece_text (String l s) = field (to_left l) (int (amount_value (la_width l))) (string_text (la_precision l) s)"
| "piece_text (Number l sz st n) =
     number_piece (to_left l) (Zero_fill \<in> set (la_flags l)) (amount_value (la_width l)) (amount_value (la_precision l))
       (if st = Signed then plus_or_blank l else []) (style_digits st n)"
| "piece_text (Pointer l v) =
     number_piece (to_left l) (Zero_fill \<in> set (la_flags l) \<or> la_width l = Absent)
       (if la_width l = Absent then 16 else amount_value (la_width l)) (amount_value (la_precision l)) [] (numeral_text False 16 (unat v))"

definition pieces_fmt :: "piece list \<Rightarrow> u8 list" where
  "pieces_fmt ps = concat (map piece_fmt ps)"

definition pieces_args :: "piece list \<Rightarrow> va list" where
  "pieces_args ps = concat (map piece_args ps)"

definition pieces_text :: "piece list \<Rightarrow> u8 list" where
  "pieces_text ps = concat (map piece_text ps)"

text \<open>
  The pieces considered. The bounds of width and precision keep the \<^verbatim>\<open>int\<close> counters of the code, which
  count the missing characters down to below zero, within their range.
\<close>

definition layout_ok :: "layout \<Rightarrow> bool" where
  "layout_ok l \<longleftrightarrow>
     (case la_width l of Absent \<Rightarrow> True | Digits n \<Rightarrow> 0 < n \<and> n < 2 ^ 30 | Star k \<Rightarrow> \<bar>k\<bar> < 2 ^ 30) \<and>
     (case la_precision l of Absent \<Rightarrow> True | Digits n \<Rightarrow> 0 < n \<and> n < 2 ^ 30 | Star k \<Rightarrow> 0 < k \<and> k < 2 ^ 30)"

fun piece_ok :: "piece \<Rightarrow> bool" where
  "piece_ok (Literal c) = (c \<noteq> 0 \<and> c \<noteq> chr CHR ''%'')"
| "piece_ok Percent = True"
| "piece_ok (Character l v) = layout_ok l"
| "piece_ok (String l s) = (layout_ok l \<and> (case s of None \<Rightarrow> True | Some xs \<Rightarrow> length xs < 2 ^ 31 \<and> 0 \<notin> set xs))"
| "piece_ok (Number l sz st n) = (layout_ok l \<and> n < 2 ^ ((if sz = Short then 16 else 32) - (if st = Signed then 1 else 0)))"
| "piece_ok (Pointer l v) = layout_ok l"

subsection \<open>Reading a format back\<close>

text \<open>A character after flags, width and precision: a qualifier or a conversion.\<close>

abbreviation letter :: "u8 \<Rightarrow> bool" where "letter c \<equiv> 88 \<le> c"

lemma letter_not:
  assumes "letter c"
  shows "\<not> isdigit c" "c \<noteq> 45" "c \<noteq> 43" "c \<noteq> 32" "c \<noteq> 35" "c \<noteq> 48" "c \<noteq> 46" "c \<noteq> 42" "c \<noteq> 37"
proof -
  have "88 \<le> unat c" using assms by (simp add: word_le_nat_alt)
  then have "\<not> unat (c - 48) < 10" by (simp add: unat_sub word_le_nat_alt)
  then show "\<not> isdigit c" by (simp add: isdigit_def word_less_nat_alt)
qed (use assms in \<open>auto simp: word_le_nat_alt\<close>)

fun flag_bit :: "flag \<Rightarrow> u8" where
  "flag_bit Minus = LEFT"
| "flag_bit Plus_sign = PLUS"
| "flag_bit Blank = SPACE"
| "flag_bit Zero_fill = ZEROPAD"

definition flag_bits :: "flag list \<Rightarrow> u8" where
  "flag_bits fs = foldr (\<lambda>x f. flag_bit x OR f) fs 0"

lemma flag_bits_simps [simp]: "flag_bits [] = 0" "flag_bits (x # fs) = flag_bit x OR flag_bits fs"
  by (simp_all add: flag_bits_def)

lemma vs_flags_print:
  assumes "\<forall>c\<in>set (take 1 r). c \<noteq> 45 \<and> c \<noteq> 43 \<and> c \<noteq> 32 \<and> c \<noteq> 35 \<and> c \<noteq> 48"
  shows "vs_flags (map flag_char fs @ r) f = (f OR flag_bits fs, r)"
proof (induction fs arbitrary: f)
  case Nil
  then show ?case using assms by (cases r) simp_all
next
  case (Cons x fs)
  then show ?case by (cases x) (simp_all add: or.assoc)
qed

lemma flag_bit_and [simp]:
  "flag_bit x AND LEFT = (if x = Minus then LEFT else 0)" "flag_bit x AND PLUS = (if x = Plus_sign then PLUS else 0)"
  "flag_bit x AND SPACE = (if x = Blank then SPACE else 0)" "flag_bit x AND ZEROPAD = (if x = Zero_fill then ZEROPAD else 0)"
  "flag_bit x AND SIGN = 0" "flag_bit x AND LARGE = 0"
  by (cases x; simp)+

lemma flag_bits_iff:
  "flag_bits fs AND LEFT = 0 \<longleftrightarrow> Minus \<notin> set fs" "flag_bits fs AND PLUS = 0 \<longleftrightarrow> Plus_sign \<notin> set fs"
  "flag_bits fs AND SPACE = 0 \<longleftrightarrow> Blank \<notin> set fs" "flag_bits fs AND ZEROPAD = 0 \<longleftrightarrow> Zero_fill \<notin> set fs"
  "flag_bits fs AND SIGN = 0" "flag_bits fs AND LARGE = 0"
  by (induction fs) (auto simp: bit.conj_disj_distrib2 or_eq_0_iff)

lemma skip_atoi_rest:
  "skip_atoi xs i = Some (j, []) \<Longrightarrow> \<forall>c\<in>set (take 1 r). \<not> isdigit c \<Longrightarrow> skip_atoi (xs @ r) i = Some (j, r)"
proof (induction xs i rule: skip_atoi.induct)
  case (1 i)
  then show ?case by (cases r) simp_all
qed (auto split: if_splits)

lemma numeral_text_hd:
  assumes "0 < n"
  obtains d xs where "numeral_text large 10 n = digit large d # xs" "0 < d" "d < 10"
proof -
  have "\<exists>d xs. numeral_text large 10 n = digit large d # xs \<and> 0 < d \<and> d < 10"
    using assms
  proof (induction n rule: less_induct)
    case (less n)
    show ?case
    proof (cases "n < 10")
      case False
      then have "n div 10 < n" "0 < n div 10" by auto
      with less.IH [of "n div 10"] False show ?thesis by (auto simp: numeral_text.simps [of large 10 n])
    qed (use less.prems in \<open>auto simp: numeral_text.simps\<close>)
  qed
  then show thesis using that by blast
qed

lemma digit_not:
  assumes "0 < d" "d < 10"
  shows "digit large d \<noteq> 45" "digit large d \<noteq> 43" "digit large d \<noteq> 32" "digit large d \<noteq> 35" "digit large d \<noteq> 48"
    "digit large d \<noteq> 42"
  using digit_facts(2) [OF assms(2), of large] assms(1) by auto

lemma sint_small:
  "- (2 ^ (LENGTH('a) - 1)) \<le> k \<Longrightarrow> k < 2 ^ (LENGTH('a) - 1) \<Longrightarrow> sint (of_int k :: 'a :: len word) = k"
  by (simp add: signed_of_int signed_take_bit_int_eq_self)

lemma sint_slot:
  assumes "\<bar>k\<bar> < 2 ^ 30"
  shows "sint (ucast (of_int k :: u64) :: u32) = k"
proof -
  have "(ucast (of_int k :: u64) :: u32) = of_int k" by (rule bit_word_eqI) (simp add: bit_simps)
  moreover have "sint (of_int k :: u32) = k" by (rule sint_small) (use assms in \<open>simp_all\<close>)
  ultimately show ?thesis by simp
qed

lemma vs_width_print:
  assumes "case w of Absent \<Rightarrow> True | Digits n \<Rightarrow> 0 < n \<and> n < 2 ^ 30 | Star k \<Rightarrow> \<bar>k\<bar> < 2 ^ 30"
    and r: "\<forall>c\<in>set (take 1 r). \<not> isdigit c \<and> c \<noteq> 42"
  shows "vs_width (amount_fmt w @ r) (amount_args w @ as) f =
     Some (case w of Star k \<Rightarrow> if k < 0 then f OR LEFT else f | _ \<Rightarrow> f,
       if w = Absent then -1 else int (amount_value w), r, as)"
proof (cases w)
  case Absent
  then show ?thesis using r by (cases r) (simp_all add: vs_width_def)
next
  case (Digits n)
  with assms(1) have n: "0 < n" "n + 48 < 2 ^ 31" by simp_all
  obtain d xs where d: "numeral_text False 10 n = digit False d # xs" "0 < d" "d < 10" by (rule numeral_text_hd [OF n(1)])
  have "skip_atoi (digit False d # xs @ r) 0 = Some (int n, r)"
    using skip_atoi_rest [OF skip_atoi_numeral [OF n(2), of False]] r unfolding d(1) by simp
  then show ?thesis using digit_facts(1) [OF d(3), of False] by (simp add: Digits vs_width_def d(1) del: skip_atoi.simps)
next
  case (Star k)
  then have "sint (ucast (of_int k :: u64) :: u32) = k" using assms(1) by (intro sint_slot) simp
  then show ?thesis using Star assms(1) by (auto simp: vs_width_def isdigit_def)
qed

lemma vs_precision_print:
  assumes "case p of Absent \<Rightarrow> True | Digits n \<Rightarrow> 0 < n \<and> n < 2 ^ 30 | Star k \<Rightarrow> 0 < k \<and> k < 2 ^ 30"
    and r: "\<forall>c\<in>set (take 1 r). letter c"
  shows "vs_precision ((if p = Absent then [] else 46 # amount_fmt p) @ r) (amount_args p @ as) =
     Some (if p = Absent then -1 else int (amount_value p), r, as)"
proof (cases p)
  case Absent
  then show ?thesis using r by (cases r) (simp_all add: vs_precision_def letter_not)
next
  case (Digits n)
  with assms(1) have n: "0 < n" "n + 48 < 2 ^ 31" by simp_all
  obtain d xs where d: "numeral_text False 10 n = digit False d # xs" "0 < d" "d < 10" by (rule numeral_text_hd [OF n(1)])
  have "skip_atoi (digit False d # xs @ r) 0 = Some (int n, r)"
    using skip_atoi_rest [OF skip_atoi_numeral [OF n(2), of False]] r letter_not(1) unfolding d(1) by simp
  then show ?thesis using digit_facts(1) [OF d(3), of False] by (simp add: Digits vs_precision_def d(1) del: skip_atoi.simps)
next
  case (Star k)
  then have "sint (ucast (of_int k :: u64) :: u32) = k" using assms(1) by (intro sint_slot) simp
  then show ?thesis using Star assms(1) by (auto simp: vs_precision_def isdigit_def)
qed

fun size_char :: "int_size \<Rightarrow> u8" where
  "size_char Whole = 0"
| "size_char Short = chr CHR ''h''"
| "size_char Long = chr CHR ''l''"

definition layout_conv :: "layout \<Rightarrow> int_size \<Rightarrow> conversion" where
  "layout_conv l sz =
     \<lparr>cv_flags = (case la_width l of Star k \<Rightarrow> if k < 0 then flag_bits (la_flags l) OR LEFT else flag_bits (la_flags l)
                  | _ \<Rightarrow> flag_bits (la_flags l)),
      cv_width = (if la_width l = Absent then -1 else int (amount_value (la_width l))),
      cv_precision = (if la_precision l = Absent then -1 else int (amount_value (la_precision l))),
      cv_qualifier = size_char sz\<rparr>"

lemma size_letter: "letter c \<Longrightarrow> \<forall>x\<in>set (take 1 (size_fmt sz @ c # r)). letter x"
  by (cases sz) simp_all

lemma after_width:
  assumes "\<forall>c\<in>set (take 1 r). letter c"
  shows "\<forall>c\<in>set (take 1 ((if p = Absent then [] else 46 # amount_fmt p) @ r)). \<not> isdigit c \<and> c \<noteq> 42 \<and>
     c \<noteq> 45 \<and> c \<noteq> 43 \<and> c \<noteq> 32 \<and> c \<noteq> 35 \<and> c \<noteq> 48"
  using assms letter_not by (cases r; cases "p = Absent") (auto simp: isdigit_def [of 46])

lemma after_flags:
  assumes "\<forall>c\<in>set (take 1 r). c \<noteq> 45 \<and> c \<noteq> 43 \<and> c \<noteq> 32 \<and> c \<noteq> 35 \<and> c \<noteq> 48" "case w of Digits n \<Rightarrow> 0 < n | _ \<Rightarrow> True"
  shows "\<forall>c\<in>set (take 1 (amount_fmt w @ r)). c \<noteq> 45 \<and> c \<noteq> 43 \<and> c \<noteq> 32 \<and> c \<noteq> 35 \<and> c \<noteq> 48"
proof (cases w)
  case (Digits n)
  with assms(2) have "0 < n" by simp
  then obtain d xs where "numeral_text False 10 n = digit False d # xs" "0 < d" "d < 10" by (rule numeral_text_hd)
  then show ?thesis by (simp add: Digits digit_not)
qed (use assms(1) in simp_all)

lemma vs_parse_print:
  assumes l: "layout_ok l" and c: "letter c" "c \<noteq> 104" "c \<noteq> 108"
  shows "vs_parse (layout_fmt l @ size_fmt sz @ c # r) (layout_args l @ as) = Some (layout_conv l sz, c # r, as)"
proof -
  let ?q = "size_fmt sz @ c # r"
  let ?p = "(if la_precision l = Absent then [] else 46 # amount_fmt (la_precision l)) @ ?q"
  note q = size_letter [OF c(1), of sz r]
  have f: "vs_flags (map flag_char (la_flags l) @ amount_fmt (la_width l) @ ?p) 0 = (flag_bits (la_flags l), amount_fmt (la_width l) @ ?p)"
    using vs_flags_print [OF after_flags [of ?p "la_width l"], of "la_flags l" 0] after_width [OF q, of "la_precision l"] l
    by (simp add: layout_ok_def split: amount.splits)
  have w: "vs_width (amount_fmt (la_width l) @ ?p) (amount_args (la_width l) @ amount_args (la_precision l) @ as) (flag_bits (la_flags l)) =
     Some (cv_flags (layout_conv l sz), cv_width (layout_conv l sz), ?p, amount_args (la_precision l) @ as)"
    using vs_width_print [of "la_width l" ?p] after_width [OF q, of "la_precision l"] l by (simp add: layout_ok_def layout_conv_def)
  have p: "vs_precision ?p (amount_args (la_precision l) @ as) = Some (cv_precision (layout_conv l sz), ?q, as)"
    using vs_precision_print [OF _ q, of "la_precision l" as] l by (simp add: layout_ok_def layout_conv_def)
  have s: "vs_qualifier ?q = (cv_qualifier (layout_conv l sz), c # r)"
    using c by (cases sz) (simp_all add: vs_qualifier_def layout_conv_def)
  have fm: "layout_fmt l @ ?q = map flag_char (la_flags l) @ amount_fmt (la_width l) @ ?p"
    "layout_args l @ as = amount_args (la_width l) @ amount_args (la_precision l) @ as" by (simp_all add: layout_fmt_def layout_args_def)
  show ?thesis unfolding fm vs_parse_def f Let_def prod.case w Option.bind.bind_lunit p s by simp
qed

lemma layout_conv_simps [simp]:
  "cv_width (layout_conv l sz) = (if la_width l = Absent then -1 else int (amount_value (la_width l)))"
  "cv_precision (layout_conv l sz) = (if la_precision l = Absent then -1 else int (amount_value (la_precision l)))"
  "cv_qualifier (layout_conv l sz) = size_char sz"
  by (simp_all add: layout_conv_def)

lemma layout_flags_iff:
  "cv_flags (layout_conv l sz) AND LEFT = 0 \<longleftrightarrow> \<not> to_left l"
  "cv_flags (layout_conv l sz) AND PLUS = 0 \<longleftrightarrow> Plus_sign \<notin> set (la_flags l)"
  "cv_flags (layout_conv l sz) AND SPACE = 0 \<longleftrightarrow> Blank \<notin> set (la_flags l)"
  "cv_flags (layout_conv l sz) AND ZEROPAD = 0 \<longleftrightarrow> Zero_fill \<notin> set (la_flags l)"
  "cv_flags (layout_conv l sz) AND SIGN = 0" "cv_flags (layout_conv l sz) AND LARGE = 0"
  by (auto simp: layout_conv_def to_left_def bit.conj_disj_distrib2 or_eq_0_iff flag_bits_iff split: amount.splits)

subsection \<open>The text of a conversion\<close>

lemma number_text_piece:
  assumes "precision \<noteq> 0" "ds = numeral_text (flags AND LARGE \<noteq> 0) b n"
  shows "number_text False n b width precision flags =
     number_piece (flags AND LEFT \<noteq> 0) (flags AND ZEROPAD \<noteq> 0) (nat width) (nat precision) (sign_text False flags) ds"
  using assms by (simp add: number_text_def number_piece_def Let_def add.assoc)

lemma field_absent: "field left (if w = Absent then -1 else int (amount_value w)) xs = field left (int (amount_value w)) xs"
  by (simp add: field_def)

lemma nat_amount [simp]: "nat (if w = Absent then - 1 else int (amount_value w)) = amount_value w"
  by simp

lemma precision_pos: "layout_ok l \<Longrightarrow> la_precision l = Absent \<or> 0 < amount_value (la_precision l)"
  by (auto simp: layout_ok_def split: amount.splits)

lemma precision_nonzero: "layout_ok l \<Longrightarrow> (if la_precision l = Absent then - 1 else int (amount_value (la_precision l))) \<noteq> 0"
  using precision_pos by auto

fun style_base :: "radix_style \<Rightarrow> int" where
  "style_base Unsigned = 10" | "style_base Signed = 10" | "style_base _ = 16"

fun style_flags :: "radix_style \<Rightarrow> u8" where
  "style_flags Unsigned = 0" | "style_flags Signed = SIGN" | "style_flags Hex_small = 0" | "style_flags Hex_large = LARGE"

lemma vs_base_style: "vs_base (style_char st) f = Some (style_base st, f OR style_flags st)"
  by (cases st) (simp_all add: vs_base_def)

lemma vs_num_print:
  assumes "n < 2 ^ ((if sz = Short then 16 else 32) - (if st = Signed then 1 else 0))" "f AND SIGN = 0"
  shows "\<exists>num. vs_num (size_char sz) (f OR style_flags st) (Slot (of_nat n) # as) = Some (num, as) \<and> unat num = n"
proof -
  have n: "n < 2 ^ 32" using assms(1) by (auto split: if_splits)
  have v: "(ucast (of_nat n :: u64) :: u32) = of_nat n" by (rule bit_word_eqI) (simp add: bit_simps)
  have u: "unat (ucast (of_nat n :: u32) :: u64) = n" using n by (simp add: unsigned_ucast_eq unsigned_of_nat take_bit_nat_eq_self)
  show ?thesis
  proof (cases "sz = Short")
    case False
    then have "size_char sz \<noteq> 104" by (cases sz) simp_all
    then show ?thesis using u by (simp add: vs_num_def v)
  next
    case True
    have h: "(ucast (of_nat n :: u32) :: u16) = of_nat n" by (rule bit_word_eqI) (simp add: bit_simps)
    have n16: "n < 2 ^ 16" using assms(1) True by (auto split: if_splits)
    have uh: "(ucast (of_nat n :: u16) :: u32) = of_nat n"
      using n16 by (simp add: word_unat_eq_iff unsigned_ucast_eq unsigned_of_nat take_bit_nat_eq_self)
    have sh: "(scast (of_nat n :: u16) :: u32) = of_nat n" if "st = Signed"
    proof -
      have "sint (of_int (int n) :: u16) = int n" by (rule sint_small) (use assms(1) True that in simp_all)
      then show ?thesis by (metis of_int_of_nat_eq scast_eq)
    qed
    have "(f OR style_flags st) AND SIGN \<noteq> 0 \<longleftrightarrow> st = Signed"
      using assms(2) by (cases st) (simp_all add: bit.conj_disj_distrib2)
    then show ?thesis using True u uh sh by (auto simp: vs_num_def v h)
  qed
qed

lemma render_conversion:
  assumes "layout_ok l" "letter c" "c \<noteq> 104" "c \<noteq> 108" "conv_text (layout_conv l sz) c as = Some (t, as')"
  shows "render (37 # layout_fmt l @ size_fmt sz @ c # r) (layout_args l @ as) = map_option ((@) t) (render r as')"
  using vs_parse_print [OF assms(1-4), of sz r as] assms(5) by simp

lemma sign_text_layout:
  "sign_text False (cv_flags (layout_conv l sz) OR style_flags st) = (if st = Signed then plus_or_blank l else [])"
  by (cases st) (simp_all add: sign_text_def plus_or_blank_def bit.conj_disj_distrib2 or_eq_0_iff layout_flags_iff)

lemma number_conv_text:
  assumes "piece_ok (Number l sz st n)"
  shows "conv_text (layout_conv l sz) (style_char st) (Slot (of_nat n) # as) = Some (piece_text (Number l sz st n), as)"
proof -
  let ?f = "cv_flags (layout_conv l sz) OR style_flags st"
  obtain num where num: "vs_num (size_char sz) ?f (Slot (of_nat n) # as) = Some (num, as)" "unat num = n"
    using vs_num_print [of n sz st "cv_flags (layout_conv l sz)" as] assms layout_flags_iff(5) by auto
  have ds: "style_digits st n = numeral_text (?f AND LARGE \<noteq> 0) (radix (style_base st)) n"
    by (cases st) (simp_all add: bit.conj_disj_distrib2 layout_flags_iff radix_def)
  have fl: "?f AND LEFT \<noteq> 0 \<longleftrightarrow> to_left l" "?f AND ZEROPAD \<noteq> 0 \<longleftrightarrow> Zero_fill \<in> set (la_flags l)"
    by (cases st; simp add: bit.conj_disj_distrib2 layout_flags_iff)+
  have c: "style_char st \<noteq> 99" "style_char st \<noteq> 115" "style_char st \<noteq> 112" "style_char st \<noteq> 37" by (cases st; simp)+
  have "number_text False n (radix (style_base st)) (cv_width (layout_conv l sz)) (cv_precision (layout_conv l sz)) ?f = piece_text (Number l sz st n)"
    using number_text_piece [OF _ ds] precision_nonzero assms unfolding fl sign_text_layout by simp
  then show ?thesis using c num by (simp add: conv_text_def vs_base_style)
qed

lemma pointer_conv_text:
  assumes "layout_ok l"
  shows "conv_text (layout_conv l Whole) 112 (Slot v # as) = Some (piece_text (Pointer l v), as)"
proof -
  let ?f = "cv_flags (layout_conv l Whole)"
  have fl: "?f AND LEFT \<noteq> 0 \<longleftrightarrow> to_left l" "?f AND ZEROPAD \<noteq> 0 \<longleftrightarrow> Zero_fill \<in> set (la_flags l)" "?f AND LARGE = 0" "?f AND SIGN = 0"
    "(?f OR ZEROPAD) AND LEFT \<noteq> 0 \<longleftrightarrow> to_left l" "(?f OR ZEROPAD) AND ZEROPAD \<noteq> 0" "(?f OR ZEROPAD) AND LARGE = 0" "(?f OR ZEROPAD) AND SIGN = 0"
    by (simp_all add: bit.conj_disj_distrib2 layout_flags_iff or_eq_0_iff)
  have "sign_text False ?f = []" "sign_text False (?f OR ZEROPAD) = []" by (simp_all add: sign_text_def fl(4,8))
  then have "number_text False (unat v) 16 w (cv_precision (layout_conv l Whole)) ?f =
      number_piece (to_left l) (Zero_fill \<in> set (la_flags l)) (nat w) (amount_value (la_precision l)) [] (numeral_text False 16 (unat v))"
    "number_text False (unat v) 16 w (cv_precision (layout_conv l Whole)) (?f OR ZEROPAD) =
      number_piece (to_left l) True (nat w) (amount_value (la_precision l)) [] (numeral_text False 16 (unat v))" for w
    using number_text_piece [OF precision_nonzero [OF assms] refl] fl by simp_all
  then show ?thesis by (auto simp: conv_text_def Let_def)
qed

lemma string_conv_text:
  assumes "layout_ok l"
  shows "conv_text (layout_conv l Whole) 115 (Text s # as) = Some (piece_text (String l s), as)"
  using precision_pos [OF assms]
  by (cases s; cases "la_precision l = Absent") (auto simp: conv_text_def Let_def string_text_def null_text_def field_absent layout_flags_iff)

lemma character_conv_text: "conv_text (layout_conv l Whole) 99 (Slot (ucast v) # as) = Some (piece_text (Character l v), as)"
proof -
  have "ucast (ucast (ucast v :: u64) :: u32) = v" for v :: u8 by (rule bit_word_eqI) (auto simp: bit_simps dest: bit_imp_le_length)
  then show ?thesis by (simp add: conv_text_def Let_def field_absent layout_flags_iff)
qed

lemma render_piece:
  assumes "piece_ok p"
  shows "render (piece_fmt p @ r) (piece_args p @ as) = map_option ((@) (piece_text p)) (render r as)"
proof (cases p)
  case (Literal c)
  then show ?thesis using assms by (simp add: append_Cons [abs_def])
next
  case Percent
  have "vs_parse (37 # r) as = Some (\<lparr>cv_flags = 0, cv_width = -1, cv_precision = -1, cv_qualifier = 0\<rparr>, 37 # r, as)"
    by (simp add: vs_parse_def vs_width_def vs_precision_def vs_qualifier_def isdigit_def)
  then show ?thesis by (simp add: Percent conv_text_def Let_def)
next
  case (Character l v)
  then show ?thesis using render_conversion [OF _ _ _ _ character_conv_text, of l r v as] assms by simp
next
  case (String l s)
  then show ?thesis using render_conversion [OF _ _ _ _ string_conv_text, of l r s as] assms by simp
next
  case (Number l sz st n)
  have "letter (style_char st)" "style_char st \<noteq> 104" "style_char st \<noteq> 108" by (cases st; simp)+
  then show ?thesis using render_conversion [OF _ _ _ _ number_conv_text, of l st sz n r as] assms Number by simp
next
  case (Pointer l v)
  then show ?thesis using render_conversion [OF _ _ _ _ pointer_conv_text, of l r v as] assms by simp
qed

lemma render_pieces: "list_all piece_ok ps \<Longrightarrow> render (pieces_fmt ps) (pieces_args ps) = Some (pieces_text ps)"
  by (induction ps) (simp_all add: pieces_fmt_def pieces_args_def pieces_text_def render_piece)

lemma pieces_short: "list_all piece_ok ps \<Longrightarrow> texts_short (pieces_args ps)"
proof (induction ps)
  case (Cons p ps)
  have "texts_short (amount_args w)" for w by (cases w) (simp_all add: texts_short_def)
  then have "texts_short (layout_args l)" for l by (auto simp: layout_args_def texts_short_def)
  then have "texts_short (piece_args p)" using Cons.prems by (cases p) (auto simp: texts_short_def split: option.splits)
  then show ?case using Cons by (auto simp: pieces_args_def texts_short_def)
qed (simp add: pieces_args_def texts_short_def)

subsection \<open>Formatted output\<close>

text \<open>
  \<^bold>\<open>C14\<close>: Formatted output. Given the format and the arguments of a list of pieces (characters; \<^verbatim>\<open>%%\<close>; \<^verbatim>\<open>%c\<close>, \<^verbatim>\<open>%s\<close>, \<^verbatim>\<open>%p\<close>;
  \<^verbatim>\<open>%u\<close>, \<^verbatim>\<open>%d\<close>, \<^verbatim>\<open>%x\<close>, \<^verbatim>\<open>%X\<close> of non-negative numbers that fit their type, with \<^verbatim>\<open>h\<close> and \<^verbatim>\<open>l\<close>; any flags but \<^verbatim>\<open>#\<close>, width
  and positive precision written out or as arguments, below \<open>2\<^sup>3\<^sup>0\<close>), \<^verbatim>\<open>rt_vsnprintf\<close> returns the length of their text.
  The buffer holds as much of the text as fits together with a terminating null, and every byte outside the
  buffer is unchanged. The text is defined on the pieces alone: numbers in their base with the precision as
  the least number of digits and the sign the flags ask for, strings cut to the precision, each in its field.
\<close>

theorem rt_vsnprintf_renders:
  assumes "buf + unat size0 < 2 ^ 64" "list_all piece_ok ps" "length (pieces_text ps) < 2 ^ 31"
  shows "\<exists>m'. rt_vsnprintf buf size0 (pieces_fmt ps) (pieces_args ps) m = Some (int (length (pieces_text ps)), m') \<and>
     (\<forall>q. q < buf \<or> buf + unat size0 \<le> q \<longrightarrow> m' q = m q) \<and>
     (0 < size0 \<longrightarrow> m' (buf + min (length (pieces_text ps)) (unat size0 - 1)) = 0) \<and>
     (\<forall>k < min (length (pieces_text ps)) (unat size0 - 1). m' (buf + k) = pieces_text ps ! k)"
  by (rule vsnprintf_outcome [OF assms(1) pieces_short [OF assms(2)] render_pieces [OF assms(2)] assms(3)])

text \<open>The format \<^verbatim>\<open>[%-3d|%04X%5.*s]\<close> with the arguments 7, 255, 2 and \<^verbatim>\<open>"omv"\<close>, in a buffer of 12 bytes.\<close>

definition ex_pieces :: "piece list" where
  "ex_pieces =
    [Literal 91, Number \<lparr>la_flags = [Minus], la_width = Digits 3, la_precision = Absent\<rparr> Whole Signed 7, Literal 124,
     Number \<lparr>la_flags = [Zero_fill], la_width = Digits 4, la_precision = Absent\<rparr> Whole Hex_large 255,
     String \<lparr>la_flags = [], la_width = Digits 5, la_precision = Star 2\<rparr> (Some (map of_char ''omv'')), Literal 93]"

lemma ex_pieces_values:
  "pieces_fmt ex_pieces = map of_char ''[%-3d|%04X%5.*s]''" "pieces_args ex_pieces = [Slot 7, Slot 255, Slot 2, Text (Some (map of_char ''omv''))]"
  "pieces_text ex_pieces = map of_char ''[7  |00FF   om]''" "list_all piece_ok ex_pieces"
proof -
  have n: "numeral_text False 10 k = [digit False k]" if "k < 10" for k using that by (simp add: numeral_text.simps)
  have x: "numeral_text True 16 255 = [70, 70]" by (simp add: numeral_text.simps digit_def)
  have r: "replicate 2 y = [y, y]" "replicate 3 y = [y, y, y]" for y :: u8 by (simp_all add: numeral_2_eq_2 numeral_3_eq_3)
  show "pieces_fmt ex_pieces = map of_char ''[%-3d|%04X%5.*s]''"
    by (simp add: ex_pieces_def pieces_fmt_def layout_fmt_def n digit_def)
  show "pieces_args ex_pieces = [Slot 7, Slot 255, Slot 2, Text (Some (map of_char ''omv''))]"
    by (simp add: ex_pieces_def pieces_args_def layout_args_def)
  show "pieces_text ex_pieces = map of_char ''[7  |00FF   om]''"
    by (simp add: ex_pieces_def pieces_text_def to_left_def number_piece_def string_text_def plus_or_blank_def field_def n x r digit_def)
  show "list_all piece_ok ex_pieces" by (simp add: ex_pieces_def layout_ok_def)
qed

theorem rt_vsnprintf_renders_witness:
  "\<exists>m'. rt_vsnprintf 100 12 (map of_char ''[%-3d|%04X%5.*s]'') [Slot 7, Slot 255, Slot 2, Text (Some (map of_char ''omv''))] (\<lambda>_. 9) =
       Some (15, m') \<and>
     m' 99 = 9 \<and> m' 112 = 9 \<and> map m' [100..<111] = map of_char ''[7  |00FF  '' \<and> m' 111 = 0"
proof -
  define t where "t = pieces_text ex_pieces"
  have t: "t = map of_char ''[7  |00FF   om]''" "length t = 15" by (simp_all add: t_def ex_pieces_values(3))
  have "100 + unat (12 :: u64) < 2 ^ 64" "length (pieces_text ex_pieces) < 2 ^ 31" using t by (simp_all add: t_def)
  from rt_vsnprintf_renders [OF this(1) ex_pieces_values(4) this(2), of "\<lambda>_. 9"] obtain m' where
    m: "rt_vsnprintf 100 12 (pieces_fmt ex_pieces) (pieces_args ex_pieces) (\<lambda>_. 9) = Some (int (length t), m')"
      "\<forall>q. q < 100 \<or> 100 + unat (12 :: u64) \<le> q \<longrightarrow> m' q = 9" "0 < (12 :: u64) \<longrightarrow> m' (100 + min (length t) (unat (12 :: u64) - 1)) = 0"
      "\<forall>k < min (length t) (unat (12 :: u64) - 1). m' (100 + k) = t ! k"
    unfolding t_def by blast
  have "map m' [100..<111] = take 11 t" by (intro nth_equalityI) (use m(4) t(2) in \<open>simp_all del: upt_rec_numeral upt.simps\<close>)
  then have "map m' [100..<111] = map of_char ''[7  |00FF  ''" by (simp add: t(1))
  then show ?thesis using m t(2) unfolding ex_pieces_values by (intro exI [of _ m']) simp
qed

end
