(* ===== verification/Omv_Array.thy ===== *)
theory Omv_Array
  imports Prelude "HOL-Library.Multiset"
begin

text \<open>
  The dynamic array of the OpenMV library (\<^verbatim>\<open>omv/array.c\<close>): a growing array of pointers with its two
  sorting routines. An element is whatever the pointer stands for. The allocator of the interpreter,
  \<^verbatim>\<open>gc_alloc\<close> and \<^verbatim>\<open>gc_realloc\<close>, is a parameter; where it fails, \<^verbatim>\<open>xalloc\<close> raises an exception.
  \<open>None\<close> is an access outside the array.
\<close>

subsection \<open>Access by index\<close>

definition aget :: "'a list \<Rightarrow> int \<Rightarrow> 'a option" where
  "aget xs i = (if 0 \<le> i \<and> i < int (length xs) then Some (xs ! nat i) else None)"

definition aset :: "'a list \<Rightarrow> int \<Rightarrow> 'a \<Rightarrow> 'a list option" where
  "aset xs i x = (if 0 \<le> i \<and> i < int (length xs) then Some (xs[nat i := x]) else None)"

definition aswap :: "'a list \<Rightarrow> int \<Rightarrow> int \<Rightarrow> 'a list option" where
  "aswap xs i j = do { x \<leftarrow> aget xs i; y \<leftarrow> aget xs j; ys \<leftarrow> aset xs i y; aset ys j x }"

lemma aswap_Some:
  "0 \<le> i \<Longrightarrow> i < int (length xs) \<Longrightarrow> 0 \<le> j \<Longrightarrow> j < int (length xs) \<Longrightarrow>
   aswap xs i j = Some (xs[nat i := xs ! nat j, nat j := xs ! nat i])"
  by (simp add: aswap_def aget_def aset_def)

subsection \<open>Quicksort\<close>

text \<open>\<^verbatim>\<open>do ++h; while (h < t && comp(h[0], v) < 0)\<close> and its counterpart from the other end.\<close>

function scan_up :: "('a \<Rightarrow> 'a \<Rightarrow> int) \<Rightarrow> 'a list \<Rightarrow> 'a \<Rightarrow> int \<Rightarrow> int \<Rightarrow> int option" where
  "scan_up cmp xs v h t =
     (if h + 1 < t
      then case aget xs (h + 1) of
             None \<Rightarrow> None
           | Some x \<Rightarrow> if cmp x v < 0 then scan_up cmp xs v (h + 1) t else Some (h + 1)
      else Some (h + 1))"
  by pat_completeness auto
termination by (relation "measure (\<lambda>(_, _, _, h, t). nat (t - h))") auto

function scan_down :: "('a \<Rightarrow> 'a \<Rightarrow> int) \<Rightarrow> 'a list \<Rightarrow> 'a \<Rightarrow> int \<Rightarrow> int \<Rightarrow> int option" where
  "scan_down cmp xs v h t =
     (if h < t - 1
      then case aget xs (t - 1) of
             None \<Rightarrow> None
           | Some x \<Rightarrow> if cmp v x < 0 then scan_down cmp xs v h (t - 1) else Some (t - 1)
      else Some (t - 1))"
  by pat_completeness auto
termination by (relation "measure (\<lambda>(_, _, _, h, t). nat (t - h))") auto

declare scan_up.simps [simp del] scan_down.simps [simp del]

lemma scan_up_bounds: "scan_up cmp xs v h t = Some h' \<Longrightarrow> h < h' \<and> (h < t \<longrightarrow> h' \<le> t)"
  by (induction cmp xs v h t rule: scan_up.induct) (subst (asm) (2) scan_up.simps, auto split: if_splits option.splits)

lemma scan_down_bounds: "scan_down cmp xs v h t = Some t' \<Longrightarrow> t' < t \<and> (h < t \<longrightarrow> h \<le> t')"
  by (induction cmp xs v h t rule: scan_down.induct) (subst (asm) (2) scan_down.simps, auto split: if_splits option.splits)

function part_loop :: "('a \<Rightarrow> 'a \<Rightarrow> int) \<Rightarrow> 'a \<Rightarrow> 'a list \<Rightarrow> int \<Rightarrow> int \<Rightarrow> ('a list \<times> int \<times> int) option" where
  "part_loop cmp v xs h t =
     (case scan_up cmp xs v h t of
        None \<Rightarrow> None
      | Some h1 \<Rightarrow>
          (case scan_down cmp xs v h1 t of
             None \<Rightarrow> None
           | Some t1 \<Rightarrow>
               if h1 \<ge> t1 then Some (xs, h1, t1)
               else case aswap xs h1 t1 of None \<Rightarrow> None | Some ys \<Rightarrow> part_loop cmp v ys h1 t1))"
  by pat_completeness auto
termination
  by (relation "measure (\<lambda>(_, _, _, h, t). nat (t - h))") (auto dest!: scan_up_bounds scan_down_bounds)

declare part_loop.simps [simp del]

lemma part_loop_bounds:
  "part_loop cmp v xs h t = Some (ys, h', t') \<Longrightarrow> h < t \<Longrightarrow> h < h' \<and> h' \<le> t \<and> h' - 1 \<le> t' \<and> t' \<le> h' \<and> t' < t"
proof (induction cmp v xs h t rule: part_loop.induct)
  case (1 cmp v xs h t)
  from 1(2) obtain h1 where h1: "scan_up cmp xs v h t = Some h1"
    by (subst (asm) part_loop.simps) (auto split: option.splits)
  with 1(2) obtain t1 where t1: "scan_down cmp xs v h1 t = Some t1"
    by (subst (asm) part_loop.simps) (auto split: option.splits)
  have b: "h < h1" "h1 \<le> t" "t1 < t" using scan_up_bounds [OF h1] scan_down_bounds [OF t1] 1(3) by auto
  have b2: "h1 - 1 \<le> t1" using t1 scan_down_bounds [OF t1] b(2) by (subst (asm) scan_down.simps) (auto split: if_splits option.splits)
  show ?case
  proof (cases "h1 \<ge> t1")
    case True
    then show ?thesis using 1(2) h1 t1 b b2 by (subst (asm) part_loop.simps) auto
  next
    case False
    with 1(2) h1 t1 obtain zs where z: "aswap xs h1 t1 = Some zs" "part_loop cmp v zs h1 t1 = Some (ys, h', t')"
      by (subst (asm) part_loop.simps) (auto split: option.splits)
    from 1(1) [OF h1 t1 False z] False show ?thesis using b by auto
  qed
qed

function quicksort :: "('a \<Rightarrow> 'a \<Rightarrow> int) \<Rightarrow> 'a list \<Rightarrow> int \<Rightarrow> int \<Rightarrow> 'a list option" where
  "quicksort cmp xs head tail =
     (if head < tail
      then case aget xs tail of
             None \<Rightarrow> None
           | Some v \<Rightarrow>
               (case part_loop cmp v xs (head - 1) tail of
                  None \<Rightarrow> None
                | Some (ys, h, t) \<Rightarrow>
                    (case aswap ys h tail of
                       None \<Rightarrow> None
                     | Some zs \<Rightarrow>
                         if t - head < tail - h - 1
                         then (case quicksort cmp zs head t of
                                 None \<Rightarrow> None | Some ws \<Rightarrow> quicksort cmp ws (h + 1) tail)
                         else (case quicksort cmp zs (h + 1) tail of
                                 None \<Rightarrow> None | Some ws \<Rightarrow> quicksort cmp ws head t)))
      else Some xs)"
  by pat_completeness auto
termination
  by (relation "measure (\<lambda>(_, _, head, tail). nat (tail - head + 1))") (auto dest!: part_loop_bounds)

declare quicksort.simps [simp del]

subsection \<open>Rearrangements\<close>

text \<open>The part of an array between two indices, and arrays that differ only in the order of that part.\<close>

definition span_set :: "'a list \<Rightarrow> int \<Rightarrow> int \<Rightarrow> 'a set" where
  "span_set xs lo hi = (!) xs ` {k. k < length xs \<and> lo \<le> int k \<and> int k \<le> hi}"

definition rearranged :: "int \<Rightarrow> int \<Rightarrow> 'a list \<Rightarrow> 'a list \<Rightarrow> bool" where
  "rearranged lo hi xs ys \<longleftrightarrow> length ys = length xs \<and> mset ys = mset xs \<and>
     (\<forall>k < length xs. int k < lo \<or> hi < int k \<longrightarrow> ys ! k = xs ! k)"

lemma rearranged_refl [simp]: "rearranged lo hi xs xs"
  by (simp add: rearranged_def)

lemma rearranged_trans: "rearranged lo hi xs ys \<Longrightarrow> rearranged lo hi ys zs \<Longrightarrow> rearranged lo hi xs zs"
  by (simp add: rearranged_def)

lemma rearranged_mono: "rearranged lo hi xs ys \<Longrightarrow> lo' \<le> lo \<Longrightarrow> hi \<le> hi' \<Longrightarrow> rearranged lo' hi' xs ys"
  by (auto simp: rearranged_def)

lemma rearranged_outside: "rearranged lo hi xs ys \<Longrightarrow> k < length xs \<Longrightarrow> int k < lo \<or> hi < int k \<Longrightarrow> ys ! k = xs ! k"
  by (auto simp: rearranged_def)

lemma mset_nth: "mset xs = image_mset ((!) xs) (mset_set {..<length xs})"
proof -
  have "mset xs = mset (map ((!) xs) [0..<length xs])" by (simp add: map_nth)
  then show ?thesis by (simp add: atLeast0LessThan)
qed

lemma rearranged_seg:
  assumes "rearranged lo hi xs ys"
  shows "span_set ys lo hi = span_set xs lo hi"
proof -
  let ?I = "{k. k < length xs \<and> lo \<le> int k \<and> int k \<le> hi}" and ?O = "{k. k < length xs \<and> \<not> (lo \<le> int k \<and> int k \<le> hi)}"
  have u: "{..<length xs} = ?I \<union> ?O" "?I \<inter> ?O = {}" by auto
  have fin: "finite ?I" "finite ?O" by simp_all
  have split: "mset zs = image_mset ((!) zs) (mset_set ?I) + image_mset ((!) zs) (mset_set ?O)" if "length zs = length xs" for zs :: "'a list"
    unfolding mset_nth [of zs] that u(1) mset_set_Union [OF fin u(2)] by simp
  have len: "length ys = length xs" using assms by (simp add: rearranged_def)
  have "image_mset ((!) ys) (mset_set ?O) = image_mset ((!) xs) (mset_set ?O)"
    by (rule image_mset_cong) (use assms fin in \<open>auto simp: rearranged_def\<close>)
  then have "image_mset ((!) ys) (mset_set ?I) = image_mset ((!) xs) (mset_set ?I)"
    using split [of ys] split [of xs] len assms by (simp add: rearranged_def)
  then have "set_mset (image_mset ((!) ys) (mset_set ?I)) = set_mset (image_mset ((!) xs) (mset_set ?I))" by simp
  then show ?thesis using fin by (simp add: span_set_def len)
qed

lemma aswap_rearranged:
  assumes "aswap xs i j = Some ys" "lo \<le> i" "i \<le> hi" "lo \<le> j" "j \<le> hi"
  shows "rearranged lo hi xs ys"
proof -
  have b: "0 \<le> i" "i < int (length xs)" "0 \<le> j" "j < int (length xs)"
    using assms(1) by (auto simp: aswap_def aget_def aset_def split: if_splits)
  then have ys: "ys = xs[nat i := xs ! nat j, nat j := xs ! nat i]" using assms(1) by (simp add: aswap_Some)
  have "mset ys = mset xs" unfolding ys using b by (simp add: mset_swap)
  then show ?thesis using assms(2-) b by (auto simp: rearranged_def ys nth_list_update)
qed

lemma aswap_nth:
  assumes "aswap xs i j = Some ys"
  shows "length ys = length xs" "ys ! nat i = xs ! nat j" "ys ! nat j = xs ! nat i"
    "k \<noteq> nat i \<Longrightarrow> k \<noteq> nat j \<Longrightarrow> ys ! k = xs ! k"
proof -
  have b: "0 \<le> i" "i < int (length xs)" "0 \<le> j" "j < int (length xs)"
    using assms(1) by (auto simp: aswap_def aget_def aset_def split: if_splits)
  then have ys: "ys = xs[nat i := xs ! nat j, nat j := xs ! nat i]" using assms(1) by (simp add: aswap_Some)
  show "length ys = length xs" "ys ! nat i = xs ! nat j" "ys ! nat j = xs ! nat i"
    "k \<noteq> nat i \<Longrightarrow> k \<noteq> nat j \<Longrightarrow> ys ! k = xs ! k"
    using b by (simp_all add: ys nth_list_update)
qed

definition below :: "('a \<Rightarrow> 'a \<Rightarrow> int) \<Rightarrow> 'a list \<Rightarrow> int \<Rightarrow> int \<Rightarrow> 'a \<Rightarrow> bool" where
  "below cmp xs lo hi v \<longleftrightarrow> (\<forall>x \<in> span_set xs lo hi. cmp x v \<le> 0)"

definition above :: "('a \<Rightarrow> 'a \<Rightarrow> int) \<Rightarrow> 'a list \<Rightarrow> int \<Rightarrow> int \<Rightarrow> 'a \<Rightarrow> bool" where
  "above cmp xs lo hi v \<longleftrightarrow> (\<forall>x \<in> span_set xs lo hi. cmp v x \<le> 0)"

definition ordered :: "('a \<Rightarrow> 'a \<Rightarrow> int) \<Rightarrow> 'a list \<Rightarrow> int \<Rightarrow> int \<Rightarrow> bool" where
  "ordered cmp xs lo hi \<longleftrightarrow> (\<forall>i j. lo \<le> int i \<and> i < j \<and> int j \<le> hi \<and> j < length xs \<longrightarrow> cmp (xs ! i) (xs ! j) \<le> 0)"

lemma belowD: "below cmp xs lo hi v \<Longrightarrow> k < length xs \<Longrightarrow> lo \<le> int k \<Longrightarrow> int k \<le> hi \<Longrightarrow> cmp (xs ! k) v \<le> 0"
  by (auto simp: below_def span_set_def)

lemma aboveD: "above cmp xs lo hi v \<Longrightarrow> k < length xs \<Longrightarrow> lo \<le> int k \<Longrightarrow> int k \<le> hi \<Longrightarrow> cmp v (xs ! k) \<le> 0"
  by (auto simp: above_def span_set_def)

lemma belowI: "(\<And>k. k < length xs \<Longrightarrow> lo \<le> int k \<Longrightarrow> int k \<le> hi \<Longrightarrow> cmp (xs ! k) v \<le> 0) \<Longrightarrow> below cmp xs lo hi v"
  by (auto simp: below_def span_set_def)

lemma aboveI: "(\<And>k. k < length xs \<Longrightarrow> lo \<le> int k \<Longrightarrow> int k \<le> hi \<Longrightarrow> cmp v (xs ! k) \<le> 0) \<Longrightarrow> above cmp xs lo hi v"
  by (auto simp: above_def span_set_def)

subsection \<open>What a comparison function promises\<close>

text \<open>The comment on \<^verbatim>\<open>array_comp_t\<close>: negative, zero or positive as the left element is less, equal or greater.\<close>

locale comparator =
  fixes cmp :: "'a \<Rightarrow> 'a \<Rightarrow> int"
  assumes sign: "cmp a b < 0 \<longleftrightarrow> 0 < cmp b a"
    and trans: "cmp a b \<le> 0 \<Longrightarrow> cmp b c \<le> 0 \<Longrightarrow> cmp a c \<le> 0"
begin

lemma self: "cmp a a = 0"
  using sign [of a a] by linarith

lemma not_less: "\<not> cmp a b < 0 \<longleftrightarrow> cmp b a \<le> 0"
  using sign [of a b] by linarith

lemma scan_up_stops:
  assumes "h < t" "-1 \<le> h" "t < int (length xs)" "below cmp xs lo h v" "above cmp xs t hi v" "t \<le> hi"
  obtains h' where "scan_up cmp xs v h t = Some h'" "h < h'" "h' \<le> t" "below cmp xs lo (h' - 1) v" "cmp v (xs ! nat h') \<le> 0"
  using assms
proof (induction cmp \<equiv> cmp xs v h t arbitrary: thesis rule: scan_up.induct)
  case (1 xs v h t)
  show ?case
  proof (cases "h + 1 < t")
    case False
    then have "h + 1 = t" using 1(3) by simp
    moreover have "cmp v (xs ! nat t) \<le> 0" by (rule aboveD [OF 1(7)]) (use 1(3-5,8) in auto)
    ultimately show ?thesis using 1(6) by (intro 1(2) [of t]) (auto simp: scan_up.simps [of cmp xs v h])
  next
    case True
    then have g: "aget xs (h + 1) = Some (xs ! nat (h + 1))" using 1(4,5) by (simp add: aget_def)
    show ?thesis
    proof (cases "cmp (xs ! nat (h + 1)) v < 0")
      case False
      with not_less have "cmp v (xs ! nat (h + 1)) \<le> 0" by blast
      with False show ?thesis using True g 1(6) by (intro 1(2) [of "h + 1"]) (auto simp: scan_up.simps [of cmp xs v h])
    next
      case less: True
      have b: "below cmp xs lo (h + 1) v"
      proof (rule belowI)
        fix k assume "k < length xs" "lo \<le> int k" "int k \<le> h + 1"
        then show "cmp (xs ! k) v \<le> 0" using belowD [OF 1(6), of k] less by (cases "k = nat (h + 1)") auto
      qed
      show ?thesis
      proof (rule 1(1) [OF True g less])
        fix h' assume "scan_up cmp xs v (h + 1) t = Some h'" "h + 1 < h'" "h' \<le> t" "below cmp xs lo (h' - 1) v" "cmp v (xs ! nat h') \<le> 0"
        then show thesis using True g less by (intro 1(2) [of h']) (auto simp: scan_up.simps [of cmp xs v h])
      qed (use True 1(4,5,7,8) b in auto)
    qed
  qed
qed

lemma scan_down_stops:
  assumes "h \<le> t" "0 \<le> h" "t < int (length xs)" "above cmp xs t hi v"
  obtains t' where "scan_down cmp xs v h t = Some t'" "t' < t" "h - 1 \<le> t'" "above cmp xs (t' + 1) hi v"
    "h < t' \<Longrightarrow> cmp (xs ! nat t') v \<le> 0"
  using assms
proof (induction cmp \<equiv> cmp xs v h t arbitrary: thesis rule: scan_down.induct)
  case (1 xs v h t)
  show ?case
  proof (cases "h < t - 1")
    case False
    then show ?thesis using 1(3,6) by (intro 1(2) [of "t - 1"]) (auto simp: scan_down.simps [of cmp xs v h t])
  next
    case True
    then have g: "aget xs (t - 1) = Some (xs ! nat (t - 1))" using 1(4,5) by (simp add: aget_def)
    show ?thesis
    proof (cases "cmp v (xs ! nat (t - 1)) < 0")
      case False
      with not_less have "cmp (xs ! nat (t - 1)) v \<le> 0" by blast
      with False show ?thesis using True g 1(6) by (intro 1(2) [of "t - 1"]) (auto simp: scan_down.simps [of cmp xs v h t])
    next
      case less: True
      have b: "above cmp xs (t - 1) hi v"
      proof (rule aboveI)
        fix k assume "k < length xs" "t - 1 \<le> int k" "int k \<le> hi"
        then show "cmp v (xs ! k) \<le> 0" using aboveD [OF 1(6), of k] less by (cases "k = nat (t - 1)") auto
      qed
      show ?thesis
      proof (rule 1(1) [OF True g less])
        fix t' assume "scan_down cmp xs v h (t - 1) = Some t'" "t' < t - 1" "h - 1 \<le> t'" "above cmp xs (t' + 1) hi v"
          "h < t' \<Longrightarrow> cmp (xs ! nat t') v \<le> 0"
        then show thesis using True g less by (intro 1(2) [of t']) (auto simp: scan_down.simps [of cmp xs v h t])
      qed (use True 1(4,5) b in auto)
    qed
  qed
qed

lemma part_loop_partitions:
  assumes "h < t" "lo - 1 \<le> h" "0 \<le> lo" "t \<le> hi" "hi < int (length xs)" "xs ! nat hi = v"
    "below cmp xs lo h v" "above cmp xs t hi v"
  obtains ys h' t' where "part_loop cmp v xs h t = Some (ys, h', t')" "rearranged lo hi xs ys" "ys ! nat hi = v"
    "below cmp ys lo (h' - 1) v" "above cmp ys h' hi v"
  using assms
proof (induction cmp \<equiv> cmp v xs h t arbitrary: thesis rule: part_loop.induct)
  case (1 v xs h t)
  from 1(3-10) obtain h1 where h1: "scan_up cmp xs v h t = Some h1" "h < h1" "h1 \<le> t" "below cmp xs lo (h1 - 1) v" "cmp v (xs ! nat h1) \<le> 0"
    by (elim scan_up_stops [of h t xs lo v hi]) auto
  obtain t1 where t1: "scan_down cmp xs v h1 t = Some t1" "t1 < t" "h1 - 1 \<le> t1" "above cmp xs (t1 + 1) hi v"
    "h1 < t1 \<Longrightarrow> cmp (xs ! nat t1) v \<le> 0"
    by (rule scan_down_stops [of h1 t xs hi v]) (use h1 1(3-10) in auto)
  show ?case
  proof (cases "h1 \<ge> t1")
    case True
    have "above cmp xs h1 hi v"
    proof (rule aboveI)
      fix k assume "k < length xs" "h1 \<le> int k" "int k \<le> hi"
      then show "cmp v (xs ! k) \<le> 0" using aboveD [OF t1(4), of k] h1(5) True by (cases "int k = h1") auto
    qed
    then show ?thesis using True h1 t1 1(8) by (intro 1(2) [of xs h1 t1]) (auto simp: part_loop.simps [of cmp v xs h t])
  next
    case False
    have b: "0 \<le> h1" "0 \<le> t1" "t1 < hi" "h1 < int (length xs)" "t1 < int (length xs)" using h1(2) t1(2) False 1(4-7) by auto
    define ys where "ys = xs[nat h1 := xs ! nat t1, nat t1 := xs ! nat h1]"
    have sw: "aswap xs h1 t1 = Some ys" unfolding ys_def using b by (intro aswap_Some)
    have r: "rearranged lo hi xs ys" by (rule aswap_rearranged [OF sw]) (use h1(2,3) t1(2) False 1(4,6) in auto)
    note n = aswap_nth [OF sw]
    have "ys ! nat hi = v" using n(4) [of "nat hi"] b 1(8) False by auto
    moreover have "below cmp ys lo h1 v"
    proof (rule belowI)
      fix k assume k: "k < length ys" "lo \<le> int k" "int k \<le> h1"
      show "cmp (ys ! k) v \<le> 0"
      proof (cases "int k = h1")
        case True
        then show ?thesis using n(2) t1(5) False by auto
      next
        case F: False
        then have "ys ! k = xs ! k" using k False b by (intro n(4)) auto
        then show ?thesis using belowD [OF h1(4), of k] k F n(1) by auto
      qed
    qed
    moreover have "above cmp ys t1 hi v"
    proof (rule aboveI)
      fix k assume k: "k < length ys" "t1 \<le> int k" "int k \<le> hi"
      show "cmp v (ys ! k) \<le> 0"
      proof (cases "int k = t1")
        case True
        then show ?thesis using n(3) h1(5) by auto
      next
        case F: False
        then have "ys ! k = xs ! k" using k False b by (intro n(4)) auto
        then show ?thesis using aboveD [OF t1(4), of k] k F n(1) by auto
      qed
    qed
    ultimately show ?thesis
    proof (elim 1(1) [OF h1(1) t1(1) False sw, rotated -3])
      fix zs h' t'
      assume z: "part_loop cmp v ys h1 t1 = Some (zs, h', t')" "rearranged lo hi ys zs" "zs ! nat hi = v"
        "below cmp zs lo (h' - 1) v" "above cmp zs h' hi v"
      then show thesis using False h1(1) t1(1) sw
        by (intro 1(2) [OF _ rearranged_trans [OF r z(2)]]) (auto simp: part_loop.simps [of cmp v xs h t])
    qed (use False h1(2) t1(2) 1(4-7) n(1) in auto)
  qed
qed

lemma ordered_join:
  assumes "ordered cmp xs lo p" "ordered cmp xs (p + 1) hi" "below cmp xs lo p v" "above cmp xs (p + 1) hi v"
  shows "ordered cmp xs lo hi"
  unfolding ordered_def
proof (intro allI impI)
  fix i j assume ij: "lo \<le> int i \<and> i < j \<and> int j \<le> hi \<and> j < length xs"
  consider "int j \<le> p" | "p < int i" | "int i \<le> p" "p < int j" by linarith
  then show "cmp (xs ! i) (xs ! j) \<le> 0"
  proof cases
    case 3
    then have "cmp (xs ! i) v \<le> 0" "cmp v (xs ! j) \<le> 0" using ij belowD [OF assms(3), of i] aboveD [OF assms(4), of j] by auto
    then show ?thesis by (rule trans)
  qed (use assms(1,2) ij in \<open>auto simp: ordered_def\<close>)
qed

lemma ordered_extend:
  assumes "ordered cmp xs lo (p - 1)" "below cmp xs lo (p - 1) (xs ! nat p)"
  shows "ordered cmp xs lo p"
  unfolding ordered_def
proof (intro allI impI)
  fix i j assume ij: "lo \<le> int i \<and> i < j \<and> int j \<le> p \<and> j < length xs"
  show "cmp (xs ! i) (xs ! j) \<le> 0"
  proof (cases "int j = p")
    case True
    then have "nat p = j" by simp
    then show ?thesis using belowD [OF assms(2), of i] ij True by auto
  qed (use assms(1) ij in \<open>auto simp: ordered_def\<close>)
qed

lemma below_rearranged: "below cmp xs lo hi v \<Longrightarrow> rearranged lo hi xs ys \<Longrightarrow> below cmp ys lo hi v"
  by (simp add: below_def rearranged_seg)

lemma above_rearranged: "above cmp xs lo hi v \<Longrightarrow> rearranged lo hi xs ys \<Longrightarrow> above cmp ys lo hi v"
  by (simp add: above_def rearranged_seg)

lemma ordered_frame:
  "ordered cmp xs lo hi \<Longrightarrow> rearranged lo' hi' xs ys \<Longrightarrow> hi < lo' \<or> hi' < lo \<Longrightarrow> ordered cmp ys lo hi"
  by (auto simp: ordered_def rearranged_def)

lemma below_frame:
  "below cmp xs lo hi v \<Longrightarrow> rearranged lo' hi' xs ys \<Longrightarrow> hi < lo' \<or> hi' < lo \<Longrightarrow> below cmp ys lo hi v"
  by (intro belowI) (auto simp: rearranged_def dest: belowD)

lemma above_frame:
  "above cmp xs lo hi v \<Longrightarrow> rearranged lo' hi' xs ys \<Longrightarrow> hi < lo' \<or> hi' < lo \<Longrightarrow> above cmp ys lo hi v"
  by (intro aboveI) (auto simp: rearranged_def dest: aboveD)

text \<open>
  The two recursive calls are on the parts \<open>lo..t\<close> and \<open>h + 1..hi\<close> around the pivot at \<open>h\<close>; the first may
  include it.
\<close>

lemma two_sides:
  assumes z: "below cmp zs lo (h - 1) v" "above cmp zs (h + 1) hi v" "zs ! nat h = v" "0 \<le> h" "h < int (length zs)"
    and t: "h - 1 \<le> t" "t \<le> h" "lo \<le> h"
    and ws: "rearranged a b zs ws" "ordered cmp ws a b" and us: "rearranged c d ws us" "ordered cmp us c d"
    and ab: "a = lo \<and> b = t \<and> c = h + 1 \<and> d = hi \<or> a = h + 1 \<and> b = hi \<and> c = lo \<and> d = t"
  shows "ordered cmp us lo hi"
proof -
  have len: "length us = length zs" "length ws = length zs" using ws(1) us(1) by (simp_all add: rearranged_def)
  have bt: "below cmp zs lo t v"
  proof (rule belowI)
    fix k assume k: "k < length zs" "lo \<le> int k" "int k \<le> t"
    show "cmp (zs ! k) v \<le> 0"
    proof (cases "k = nat h")
      case True
      then show ?thesis using z(3) self by simp
    qed (use belowD [OF z(1), of k] k t z(4) in auto)
  qed
  have o: "ordered cmp us lo t" "ordered cmp us (h + 1) hi"
    using ab ws us ordered_frame [OF ws(2) us(1)] t by auto
  have b: "below cmp us lo t v"
    using ab below_rearranged [OF bt] below_rearranged [of ws lo t v us] below_frame [OF bt ws(1)] below_frame [of ws lo t v c d us] ws(1) us(1) t by auto
  have ab2: "above cmp us (h + 1) hi v"
    using ab above_rearranged [OF z(2)] above_rearranged [of ws "h + 1" hi v us] above_frame [OF z(2) ws(1)] above_frame [of ws "h + 1" hi v c d us]
      ws(1) us(1) t by auto
  consider "t = h" | "t = h - 1" using t by linarith
  then have "ordered cmp us lo h \<and> below cmp us lo h v"
  proof cases
    case 2
    have "us ! nat h = v"
      using rearranged_outside [OF us(1), of "nat h"] rearranged_outside [OF ws(1), of "nat h"] ab 2 z(3-5) len by auto
    moreover have "below cmp us lo h v"
      by (rule belowI) (use b 2 \<open>us ! nat h = v\<close> self in \<open>auto simp: le_less dest!: belowD\<close>)
    ultimately show ?thesis using ordered_extend [of us lo h] o(1) b 2 by simp
  qed (use o b in auto)
  then show ?thesis using ordered_join o(2) ab2 by blast
qed

text \<open>One round: the pivot is at its place, smaller elements below and greater ones above it.\<close>

lemma pivot_placed:
  assumes "lo < hi" "0 \<le> lo" "hi < int (length xs)"
  obtains ys h t zs where "part_loop cmp (xs ! nat hi) xs (lo - 1) hi = Some (ys, h, t)" "aswap ys h hi = Some zs"
    "lo \<le> h" "h \<le> hi" "h - 1 \<le> t" "t \<le> h" "t < hi" "rearranged lo hi xs zs"
    "below cmp zs lo (h - 1) (xs ! nat hi)" "above cmp zs (h + 1) hi (xs ! nat hi)" "zs ! nat h = xs ! nat hi"
proof -
  let ?v = "xs ! nat hi"
  have "k = nat hi" if "hi \<le> int k" "int k \<le> hi" for k using that by simp
  then have st: "below cmp xs lo (lo - 1) ?v" "above cmp xs hi hi ?v" using self by (auto simp: below_def above_def span_set_def)
  obtain ys h t where p: "part_loop cmp ?v xs (lo - 1) hi = Some (ys, h, t)" "rearranged lo hi xs ys" "ys ! nat hi = ?v"
    "below cmp ys lo (h - 1) ?v" "above cmp ys h hi ?v"
    by (rule part_loop_partitions [of "lo - 1" hi lo hi xs ?v]) (use assms st in auto)
  have b: "lo \<le> h" "h \<le> hi" "h - 1 \<le> t" "t \<le> h" "t < hi" using part_loop_bounds [OF p(1)] assms(1) by auto
  have len: "length ys = length xs" using p(2) by (simp add: rearranged_def)
  have "\<exists>zs. aswap ys h hi = Some zs" using aswap_Some [of h ys hi] b assms len by auto
  then obtain zs where sw: "aswap ys h hi = Some zs" by blast
  note n = aswap_nth [OF sw]
  have r: "rearranged lo hi xs zs" by (rule rearranged_trans [OF p(2) aswap_rearranged [OF sw]]) (use b assms in auto)
  have z1: "below cmp zs lo (h - 1) ?v"
  proof (rule belowI)
    fix k assume "k < length zs" "lo \<le> int k" "int k \<le> h - 1"
    then show "cmp (zs ! k) ?v \<le> 0" using n(4) [of k] n(1) belowD [OF p(4), of k] b by auto
  qed
  have z2: "above cmp zs (h + 1) hi ?v"
  proof (rule aboveI)
    fix k assume k: "k < length zs" "h + 1 \<le> int k" "int k \<le> hi"
    have "cmp ?v (ys ! nat h) \<le> 0" by (rule aboveD [OF p(5)]) (use b assms len in auto)
    then show "cmp ?v (zs ! k) \<le> 0" using n(3) n(4) [of k] n(1) aboveD [OF p(5), of k] b k assms(2)
      by (cases "k = nat hi") auto
  qed
  show thesis by (rule that [OF p(1) sw b r z1 z2]) (use n(2) p(3) in simp)
qed

lemma quicksort_sorts:
  assumes "0 \<le> lo" "hi < int (length xs)"
  obtains ys where "quicksort cmp xs lo hi = Some ys" "rearranged lo hi xs ys" "ordered cmp ys lo hi"
  using assms
proof (induction cmp \<equiv> cmp xs lo hi arbitrary: thesis rule: quicksort.induct)
  case (1 xs lo hi)
  show ?case
  proof (cases "lo < hi")
    case False
    then show ?thesis by (intro 1(5) [of xs]) (auto simp: quicksort.simps [of cmp xs lo hi] ordered_def)
  next
    case True
    then have v: "aget xs hi = Some (xs ! nat hi)" using 1(6,7) by (simp add: aget_def)
    obtain ys h t zs where p: "part_loop cmp (xs ! nat hi) xs (lo - 1) hi = Some (ys, h, t)" "aswap ys h hi = Some zs"
      and b: "lo \<le> h" "h \<le> hi" "h - 1 \<le> t" "t \<le> h" "t < hi" and r: "rearranged lo hi xs zs"
      and z: "below cmp zs lo (h - 1) (xs ! nat hi)" "above cmp zs (h + 1) hi (xs ! nat hi)" "zs ! nat h = xs ! nat hi"
      by (rule pivot_placed [OF True 1(6,7)])
    have zl: "length zs = length xs" using r by (simp add: rearranged_def)
    have finish: thesis if w: "rearranged a b zs ws" "ordered cmp ws a b" "rearranged c d ws us" "ordered cmp us c d"
        "quicksort cmp xs lo hi = Some us" "a = lo \<and> b = t \<and> c = h + 1 \<and> d = hi \<or> a = h + 1 \<and> b = hi \<and> c = lo \<and> d = t" for a b c d ws us
    proof (rule 1(5) [OF w(5)])
      show "ordered cmp us lo hi" by (rule two_sides [OF z _ _ b(3,4,1) w(1-4,6)]) (use b 1(6,7) zl in auto)
      show "rearranged lo hi xs us"
        by (rule rearranged_trans [OF r rearranged_trans [OF rearranged_mono [OF w(1)] rearranged_mono [OF w(3)]]]) (use b w(6) in auto)
    qed
    show ?thesis
    proof (cases "t - lo < hi - h - 1")
      case lower: True
      obtain ws where w: "quicksort cmp zs lo t = Some ws" "rearranged lo t zs ws" "ordered cmp ws lo t"
        by (rule 1(1) [OF True v p(1) refl refl p(2) lower]) (use b 1(6,7) zl in auto)
      obtain us where u: "quicksort cmp ws (h + 1) hi = Some us" "rearranged (h + 1) hi ws us" "ordered cmp us (h + 1) hi"
        by (rule 1(2) [OF True v p(1) refl refl p(2) lower w(1)]) (use b 1(6,7) zl w(2) in \<open>auto simp: rearranged_def\<close>)
      have "quicksort cmp xs lo hi = Some us" using True v p lower w(1) u(1) by (simp add: quicksort.simps [of cmp xs lo hi])
      then show ?thesis by (rule finish [OF w(2,3) u(2,3)]) simp
    next
      case upper: False
      obtain ws where w: "quicksort cmp zs (h + 1) hi = Some ws" "rearranged (h + 1) hi zs ws" "ordered cmp ws (h + 1) hi"
        by (rule 1(3) [OF True v p(1) refl refl p(2) upper]) (use b 1(6,7) zl in auto)
      obtain us where u: "quicksort cmp ws lo t = Some us" "rearranged lo t ws us" "ordered cmp us lo t"
        by (rule 1(4) [OF True v p(1) refl refl p(2) upper w(1)]) (use b 1(6,7) zl w(2) in \<open>auto simp: rearranged_def\<close>)
      have "quicksort cmp xs lo hi = Some us" using True v p upper w(1) u(1) by (simp add: quicksort.simps [of cmp xs lo hi])
      then show ?thesis by (rule finish [OF w(2,3) u(2,3)]) simp
    qed
  qed
qed

end

subsection \<open>The array\<close>

record 'a array_t =
  arr_index :: int
  arr_length :: int
  arr_data :: "'a list option"

datatype 'r outcome = Returns 'r | MemoryError

text \<open>The result of an operation on \<^verbatim>\<open>int\<close>, whose overflow is \<open>None\<close>.\<close>

definition int_of :: "int \<Rightarrow> int option" where
  "int_of v = (if - (2 ^ 31) \<le> v \<and> v < 2 ^ 31 then Some v else None)"

lemma int_of_Some [simp]: "0 \<le> v \<Longrightarrow> v < 2 ^ 31 \<Longrightarrow> int_of v = Some v"
  by (simp add: int_of_def)

text \<open>
  \<^verbatim>\<open>xalloc\<close> and \<^verbatim>\<open>xrealloc\<close> of \<^verbatim>\<open>omv/xalloc.c\<close> for blocks of pointers: \<open>gc_alloc\<close> and \<open>gc_realloc\<close> give a block
  of the number of elements asked for, or nothing. A request for no elements gives the null pointer. The size in
  bytes, \<^verbatim>\<open>n * sizeof(void*)\<close>, is passed as a \<^verbatim>\<open>uint32_t\<close>.
\<close>

definition ptr_bytes :: "int \<Rightarrow> nat" where
  "ptr_bytes n = nat (n * 8 mod 2 ^ 32)"

lemma ptr_bytes: "0 \<le> n \<Longrightarrow> n < 2 ^ 29 \<Longrightarrow> ptr_bytes n = nat n * 8"
  by (simp add: ptr_bytes_def nat_mult_distrib)

definition xalloc :: "(nat \<Rightarrow> 'a list option) \<Rightarrow> int \<Rightarrow> 'a list option outcome" where
  "xalloc gc_alloc n = (case gc_alloc (ptr_bytes n div 8) of
       None \<Rightarrow> if ptr_bytes n \<noteq> 0 then MemoryError else Returns None
     | Some b \<Rightarrow> Returns (Some b))"

definition xrealloc :: "('a list option \<Rightarrow> nat \<Rightarrow> 'a list option) \<Rightarrow> 'a list option \<Rightarrow> int \<Rightarrow> 'a list option outcome" where
  "xrealloc gc_realloc p n = (case gc_realloc p (ptr_bytes n div 8) of
       None \<Rightarrow> if ptr_bytes n \<noteq> 0 then MemoryError else Returns None
     | Some b \<Rightarrow> Returns (Some b))"

text \<open>\<open>room\<close> says whether there is room for the structure itself.\<close>

definition array_alloc :: "bool \<Rightarrow> (nat \<Rightarrow> 'a list option) \<Rightarrow> 'a array_t outcome" where
  "array_alloc room gc_alloc = (if \<not> room then MemoryError else case xalloc gc_alloc 4 of
       MemoryError \<Rightarrow> MemoryError
     | Returns d \<Rightarrow> Returns \<lparr>arr_index = 0, arr_length = 4, arr_data = d\<rparr>)"

definition array_alloc_init :: "bool \<Rightarrow> (nat \<Rightarrow> 'a list option) \<Rightarrow> int \<Rightarrow> 'a array_t outcome" where
  "array_alloc_init room gc_alloc n = (if \<not> room then MemoryError else case xalloc gc_alloc n of
       MemoryError \<Rightarrow> MemoryError
     | Returns d \<Rightarrow> Returns \<lparr>arr_index = 0, arr_length = n, arr_data = d\<rparr>)"

text \<open>The destructor is called for each element; the calls are the second component of the result.\<close>

definition array_clear :: "bool \<Rightarrow> 'a array_t \<Rightarrow> ('a array_t \<times> 'a list) option" where
  "array_clear dtor a =
     do { ds \<leftarrow> (if dtor \<and> arr_index a > 0 then Option.bind (arr_data a) (\<lambda>d. memread d 0 (arr_index a)) else Some []);
          Some (a\<lparr>arr_index := 0, arr_length := 0, arr_data := None\<rparr>, ds) }"

definition array_length :: "'a array_t \<Rightarrow> int" where
  "array_length a = arr_index a"

definition array_at :: "'a array_t \<Rightarrow> int \<Rightarrow> 'a option" where
  "array_at a i = do { d \<leftarrow> arr_data a; aget d i }"

definition array_push_back :: "('a list option \<Rightarrow> nat \<Rightarrow> 'a list option) \<Rightarrow> 'a array_t \<Rightarrow> 'a \<Rightarrow> 'a array_t outcome option" where
  "array_push_back gc_realloc a x =
     do { r \<leftarrow> (if arr_index a = arr_length a
               then do { len \<leftarrow> int_of (arr_length a + 4);
                         Some (case xrealloc gc_realloc (arr_data a) len of
                                 MemoryError \<Rightarrow> MemoryError
                               | Returns d \<Rightarrow> Returns (a\<lparr>arr_length := len, arr_data := d\<rparr>)) }
               else Some (Returns a));
          case r of
            MemoryError \<Rightarrow> Some MemoryError
          | Returns a1 \<Rightarrow> do { d \<leftarrow> arr_data a1; d1 \<leftarrow> aset d (arr_index a1) x; i \<leftarrow> int_of (arr_index a1 + 1);
                              Some (Returns (a1\<lparr>arr_index := i, arr_data := Some d1\<rparr>)) } }"

definition array_pop_back :: "'a array_t \<Rightarrow> ('a option \<times> 'a array_t) option" where
  "array_pop_back a =
     (if arr_index a \<noteq> 0
      then do { x \<leftarrow> array_at a (arr_index a - 1); Some (Some x, a\<lparr>arr_index := arr_index a - 1\<rparr>) }
      else Some (None, a))"

text \<open>
  \<open>memcpy d dst src n\<close> copies within one block, \<open>None\<close> for a range outside it. \<^verbatim>\<open>array_take\<close> calls it for ranges that
  overlap, which C leaves undefined; the comment there relies on a copy in ascending order. The function of the C
  library is therefore a parameter.
\<close>

type_synonym 'a memcpy = "'a list \<Rightarrow> nat \<Rightarrow> nat \<Rightarrow> nat \<Rightarrow> 'a list"

definition memcpy_in :: "'a memcpy \<Rightarrow> 'a list \<Rightarrow> int \<Rightarrow> int \<Rightarrow> int \<Rightarrow> 'a list option" where
  "memcpy_in memcpy d dst src n =
     (if 0 \<le> n \<and> 0 \<le> dst \<and> 0 \<le> src \<and> dst + n \<le> int (length d) \<and> src + n \<le> int (length d)
      then Some (memcpy d (nat dst) (nat src) (nat n)) else None)"

definition array_take :: "'a memcpy \<Rightarrow> 'a array_t \<Rightarrow> int \<Rightarrow> ('a \<times> 'a array_t) option" where
  "array_take memcpy a i =
     do { d \<leftarrow> arr_data a;
          x \<leftarrow> aget d i;
          d1 \<leftarrow> (if 1 < arr_index a \<and> i < arr_index a - 1
                 then memcpy_in memcpy d i (i + 1) (arr_index a - i - 1)
                 else Some d);
          Some (x, a\<lparr>arr_index := arr_index a - 1, arr_data := Some d1\<rparr>) }"

definition array_erase :: "'a memcpy \<Rightarrow> bool \<Rightarrow> 'a array_t \<Rightarrow> int \<Rightarrow> ('a array_t \<times> 'a list) option" where
  "array_erase memcpy dtor a i =
     do { ds \<leftarrow> (if dtor then map_option (\<lambda>x. [x]) (array_at a i) else Some []);
          (_, a1) \<leftarrow> array_take memcpy a i;
          Some (a1, ds) }"

definition array_resize :: "('a list option \<Rightarrow> nat \<Rightarrow> 'a list option) \<Rightarrow> bool \<Rightarrow> 'a array_t \<Rightarrow> int \<Rightarrow> ('a array_t \<times> 'a list) outcome option" where
  "array_resize gc_realloc dtor a num =
     (if arr_index a = num then Some (Returns (a, []))
      else if num = 0 then map_option Returns (array_clear dtor a)
      else do { ds \<leftarrow> (if arr_index a > num \<and> dtor
                       then Option.bind (arr_data a) (\<lambda>d. memread d num (arr_index a - num)) else Some []);
                let a1 = (if arr_index a > num then a\<lparr>arr_index := num\<rparr> else a);
                Some (case xrealloc gc_realloc (arr_data a1) num of
                        MemoryError \<Rightarrow> MemoryError
                      | Returns d \<Rightarrow> Returns (a1\<lparr>arr_length := num, arr_data := d\<rparr>, ds)) })"

definition array_sort :: "('a \<Rightarrow> 'a \<Rightarrow> int) \<Rightarrow> 'a array_t \<Rightarrow> 'a array_t option" where
  "array_sort cmp a =
     (if arr_index a > 1
      then do { d \<leftarrow> arr_data a; d1 \<leftarrow> quicksort cmp d 0 (arr_index a - 1); Some (a\<lparr>arr_data := Some d1\<rparr>) }
      else Some a)"

text \<open>\<^verbatim>\<open>while (j >= 0 && comp(array->data[j], t))\<close>, and the loop around it.\<close>

function isort_shift :: "('a \<Rightarrow> 'a \<Rightarrow> int) \<Rightarrow> 'a \<Rightarrow> 'a list \<Rightarrow> int \<Rightarrow> ('a list \<times> int) option" where
  "isort_shift cmp t d j =
     (if j \<ge> 0
      then case aget d j of
             None \<Rightarrow> None
           | Some x \<Rightarrow> if cmp x t \<noteq> 0
                       then (case aset d (j + 1) x of None \<Rightarrow> None | Some d1 \<Rightarrow> isort_shift cmp t d1 (j - 1))
                       else Some (d, j)
      else Some (d, j))"
  by pat_completeness auto
termination by (relation "measure (\<lambda>(_, _, _, j). nat (j + 1))") auto

function isort_loop :: "('a \<Rightarrow> 'a \<Rightarrow> int) \<Rightarrow> int \<Rightarrow> int \<Rightarrow> 'a list \<Rightarrow> 'a list option" where
  "isort_loop cmp n i d =
     (if i < n
      then case aget d i of
             None \<Rightarrow> None
           | Some t \<Rightarrow> (case isort_shift cmp t d (i - 1) of
                          None \<Rightarrow> None
                        | Some (d1, j) \<Rightarrow> (case aset d1 (j + 1) t of None \<Rightarrow> None | Some d2 \<Rightarrow> isort_loop cmp n (i + 1) d2))
      else Some d)"
  by pat_completeness auto
termination by (relation "measure (\<lambda>(_, n, i, _). nat (n - i))") auto

declare isort_shift.simps [simp del] isort_loop.simps [simp del]

definition array_isort :: "('a \<Rightarrow> 'a \<Rightarrow> int) \<Rightarrow> 'a array_t \<Rightarrow> 'a array_t option" where
  "array_isort cmp a =
     (if arr_index a > 1
      then do { d \<leftarrow> arr_data a; d1 \<leftarrow> isort_loop cmp (arr_index a) 1 d; Some (a\<lparr>arr_data := Some d1\<rparr>) }
      else Some a)"

subsection \<open>The list in the array\<close>

definition arr_ok :: "'a array_t \<Rightarrow> bool" where
  "arr_ok a \<longleftrightarrow> 0 \<le> arr_index a \<and> arr_index a \<le> arr_length a \<and>
     arr_length a = (case arr_data a of None \<Rightarrow> 0 | Some d \<Rightarrow> int (length d))"

definition arr_list :: "'a array_t \<Rightarrow> 'a list" where
  "arr_list a = (case arr_data a of None \<Rightarrow> [] | Some d \<Rightarrow> take (nat (arr_index a)) d)"

text \<open>What \<^verbatim>\<open>gc_realloc\<close> promises: a block of the size asked for that starts with the old contents.\<close>

definition realloc_ok :: "('a list option \<Rightarrow> nat \<Rightarrow> 'a list option) \<Rightarrow> bool" where
  "realloc_ok gc_realloc \<longleftrightarrow>
     (\<forall>n b. gc_realloc None n = Some b \<longrightarrow> length b = n) \<and>
     (\<forall>d n b. gc_realloc (Some d) n = Some b \<longrightarrow> length b = n \<and> take (min n (length d)) b = take (min n (length d)) d)"

definition gc_fails :: "('a list option \<Rightarrow> nat \<Rightarrow> 'a list option) \<Rightarrow> bool" where
  "gc_fails gc_realloc \<longleftrightarrow> (\<exists>p n. gc_realloc p n = None)"

lemma realloc_keeps: "realloc_ok gc_realloc \<Longrightarrow> gc_realloc (Some d) n = Some b \<Longrightarrow> length d \<le> n \<Longrightarrow> take (length d) b = d"
  unfolding realloc_ok_def by (metis min.absorb2 order_refl take_all)

lemma arr_okE:
  assumes "arr_ok a" "arr_index a > 0"
  obtains d where "arr_data a = Some d" "arr_length a = int (length d)" "arr_index a \<le> int (length d)" "arr_list a = take (nat (arr_index a)) d"
  using assms by (cases "arr_data a") (auto simp: arr_ok_def arr_list_def)

lemma length_arr_list: "arr_ok a \<Longrightarrow> int (length (arr_list a)) = arr_index a"
  by (auto simp: arr_ok_def arr_list_def split: option.splits)

text \<open>What the code relies on of \<^verbatim>\<open>memcpy\<close>: towards lower addresses the result is right even if the ranges overlap.\<close>

definition memcpy_ascending :: "'a memcpy \<Rightarrow> bool" where
  "memcpy_ascending memcpy \<longleftrightarrow>
     (\<forall>d dst src n. dst \<le> src \<and> src + n \<le> length d \<longrightarrow> memcpy d dst src n = blit d dst (take n (drop src d)))"

text \<open>A loop over the elements from the first to the last has the property.\<close>

fun copy_loop :: "'a memcpy" where
  "copy_loop d dst src 0 = d"
| "copy_loop d dst src (Suc n) = copy_loop (d[dst := d ! src]) (Suc dst) (Suc src) n"

lemma copy_loop_ascending: "memcpy_ascending copy_loop"
proof -
  have "copy_loop d dst src n = blit d dst (take n (drop src d))" if "dst \<le> src" "src + n \<le> length d" for d :: "'a list" and dst src n
    using that
  proof (induction n arbitrary: d dst src)
    case 0
    then show ?case by (simp add: blit_def)
  next
    case (Suc n)
    have "drop (Suc src) (d[dst := d ! src]) = drop (Suc src) d" using Suc(2) by simp
    moreover have "drop src d = d ! src # drop (Suc src) d" using Suc(3) by (simp add: Cons_nth_drop_Suc)
    ultimately show ?case using Suc(2,3)
      by (simp add: Suc.IH blit_def take_Suc_conv_app_nth)
  qed
  then show ?thesis by (simp add: memcpy_ascending_def)
qed

text \<open>The bound \<open>N\<close> on the number of elements keeps the length an \<^verbatim>\<open>int\<close> and the size in bytes a \<^verbatim>\<open>uint32_t\<close>.\<close>

lemma arr_push:
  assumes "arr_ok a" "realloc_ok gc_realloc" "length (arr_list a) < N" "arr_length a \<le> int N + 4" "N + 4 < 2 ^ 29"
  obtains "array_push_back gc_realloc a x = Some MemoryError" "gc_fails gc_realloc"
  | a' where "array_push_back gc_realloc a x = Some (Returns a')" "arr_ok a'" "arr_list a' = arr_list a @ [x]" "arr_length a' \<le> int N + 4"
proof (cases "arr_index a = arr_length a")
  case False
  then obtain d where d: "arr_data a = Some d" "arr_length a = int (length d)" "0 \<le> arr_index a" "arr_index a < int (length d)"
    using assms(1) by (cases "arr_data a") (auto simp: arr_ok_def)
  have "int_of (arr_index a + 1) = Some (arr_index a + 1)" using d assms(4,5) by simp
  let ?a = "a\<lparr>arr_index := arr_index a + 1, arr_data := Some (d[nat (arr_index a) := x])\<rparr>"
  have "array_push_back gc_realloc a x = Some (Returns ?a)" using False d \<open>int_of _ = _\<close> by (simp add: array_push_back_def aset_def)
  moreover have "arr_ok ?a" using d by (simp add: arr_ok_def)
  moreover have "arr_list ?a = arr_list a @ [x]" using d by (simp add: arr_list_def nat_add_distrib take_Suc_conv_app_nth)
  moreover have "arr_length ?a \<le> int N + 4" using assms(4) by simp
  ultimately show thesis by (rule that(2))
next
  case True
  have n: "0 \<le> arr_length a" "arr_length a < int N" using assms(1,3) True length_arr_list [OF assms(1)] by (auto simp: arr_ok_def)
  then have l: "int_of (arr_length a + 4) = Some (arr_length a + 4)" "int_of (arr_length a + 1) = Some (arr_length a + 1)"
    "ptr_bytes (arr_length a + 4) = nat (arr_length a + 4) * 8" using assms(5) by (simp_all add: ptr_bytes)
  show thesis
  proof (cases "gc_realloc (arr_data a) (nat (arr_length a + 4))")
    case None
    then have "array_push_back gc_realloc a x = Some MemoryError"
      using True n l by (simp add: array_push_back_def xrealloc_def nat_add_distrib)
    then show thesis using None by (intro that(1)) (auto simp: gc_fails_def)
  next
    case (Some b)
    have len: "int (length b) = arr_length a + 4" and pre: "take (nat (arr_length a)) b = arr_list a"
      using Some assms True n realloc_keeps [OF assms(2), of _ "nat (arr_length a + 4)" b]
      by (auto simp: realloc_ok_def arr_ok_def arr_list_def split: option.splits)
    let ?a = "a\<lparr>arr_index := arr_index a + 1, arr_length := arr_length a + 4, arr_data := Some (b[nat (arr_index a) := x])\<rparr>"
    have "array_push_back gc_realloc a x = Some (Returns ?a)"
      using True Some len n l by (simp add: array_push_back_def xrealloc_def aset_def)
    moreover have "arr_ok ?a" using len n True by (simp add: arr_ok_def)
    moreover have "arr_list ?a = arr_list a @ [x]" using len n True pre by (simp add: arr_list_def nat_add_distrib take_Suc_conv_app_nth)
    moreover have "arr_length ?a \<le> int N + 4" using n by simp
    ultimately show thesis by (rule that(2))
  qed
qed

lemma arr_pop:
  assumes "arr_ok a"
  shows "\<exists>a'. array_pop_back a = Some (if arr_list a = [] then None else Some (last (arr_list a)), a') \<and> arr_ok a' \<and> arr_list a' = butlast (arr_list a) \<and>
     arr_length a' = arr_length a"
proof (cases "arr_index a = 0")
  case True
  then have "arr_list a = []" by (simp add: arr_list_def split: option.splits)
  then show ?thesis using True assms by (simp add: array_pop_back_def)
next
  case False
  then have "arr_index a > 0" using assms by (simp add: arr_ok_def)
  then obtain d where d: "arr_data a = Some d" "arr_length a = int (length d)" "arr_index a \<le> int (length d)"
    "arr_list a = take (nat (arr_index a)) d" using arr_okE [OF assms] by blast
  have n: "nat (arr_index a - 1) = nat (arr_index a) - 1" by simp
  have ne: "arr_list a \<noteq> []" using d \<open>arr_index a > 0\<close> by auto
  moreover have "last (arr_list a) = d ! nat (arr_index a - 1)"
    using d(4) \<open>arr_index a > 0\<close> length_arr_list [OF assms] unfolding last_conv_nth [OF ne] n by (simp add: nat_eq_iff [symmetric])
  moreover have "butlast (arr_list a) = take (nat (arr_index a - 1)) d" using d unfolding n by (simp add: butlast_take)
  ultimately show ?thesis using False d assms \<open>arr_index a > 0\<close>
    by (simp add: array_pop_back_def array_at_def aget_def arr_ok_def arr_list_def [of "a\<lparr>arr_index := arr_index a - 1\<rparr>"])
qed

lemma arr_take:
  assumes "arr_ok a" "i < length (arr_list a)" "memcpy_ascending memcpy"
  shows "\<exists>a'. array_take memcpy a (int i) = Some (arr_list a ! i, a') \<and> arr_ok a' \<and> arr_length a' = arr_length a \<and> arr_list a' = take i (arr_list a) @ drop (Suc i) (arr_list a)"
proof -
  have pos: "arr_index a > 0" "int i < arr_index a" using length_arr_list [OF assms(1)] assms(2) by linarith+
  then obtain d where d: "arr_data a = Some d" "arr_length a = int (length d)" "arr_index a \<le> int (length d)"
    "arr_list a = take (nat (arr_index a)) d" using arr_okE [OF assms(1)] by blast
  define n where "n = nat (arr_index a)"
  have n: "arr_index a = int n" "i < n" "n \<le> length d" using pos d by (auto simp: n_def)
  let ?part = "take (n - Suc i) (drop (Suc i) d)"
  have g: "aget d (int i) = Some (arr_list a ! i)" using d n by (simp add: aget_def)
  show ?thesis
  proof (cases "int i < arr_index a - 1")
    case True
    have "length ?part = n - Suc i" using n by simp
    moreover have "memcpy_in memcpy d (int i) (int i + 1) (arr_index a - int i - 1) = Some (blit d i ?part)"
      using n True assms(3) by (simp add: memcpy_in_def memcpy_ascending_def nat_diff_distrib nat_add_distrib)
    ultimately have "array_take memcpy a (int i) = Some (arr_list a ! i, a\<lparr>arr_index := arr_index a - 1, arr_data := Some (blit d i ?part)\<rparr>)"
      using True d g n by (simp add: array_take_def)
    moreover have "take (n - 1) (blit d i ?part) = take i (take n d) @ drop (Suc i) (take n d)"
      using n by (simp add: blit_def drop_take)
    ultimately show ?thesis using d n by (simp add: arr_ok_def arr_list_def nat_diff_distrib)
  next
    case False
    then have "Suc i = n" using n by simp
    moreover have "array_take memcpy a (int i) = Some (arr_list a ! i, a\<lparr>arr_index := arr_index a - 1, arr_data := Some d\<rparr>)"
      using False d g by (simp add: array_take_def)
    moreover have "nat (int n - 1) = i" using \<open>Suc i = n\<close> by simp
    ultimately show ?thesis using d n by (simp add: arr_ok_def arr_list_def)
  qed
qed

lemma sorted_wrt_ordered:
  assumes "ordered cmp d 0 (int n - 1)" "n \<le> length d"
  shows "sorted_wrt (\<lambda>x y. cmp x y \<le> 0) (take n d)"
  using assms by (auto simp: sorted_wrt_iff_nth_less ordered_def)

lemma rearranged_take:
  assumes "rearranged 0 (int n - 1) xs ys" "n \<le> length xs"
  shows "mset (take n ys) = mset (take n xs)"
proof -
  have len: "length ys = length xs" using assms(1) by (simp add: rearranged_def)
  have "drop n ys = drop n xs" by (rule nth_equalityI) (use assms len in \<open>auto simp: rearranged_def\<close>)
  moreover have "mset (take n zs) + mset (drop n zs) = mset zs" for zs :: "'a list" by (metis append_take_drop_id mset_append)
  ultimately show ?thesis using assms(1) by (metis add_right_cancel rearranged_def)
qed

text \<open>
  \<^bold>\<open>C16\<close>: Sorting. For every comparison function that keeps to the contract of \<^verbatim>\<open>array_comp_t\<close>, \<^verbatim>\<open>array_sort\<close> returns, and
  the array holds a permutation of its elements in ascending order; no access is outside the array.
\<close>

theorem array_sort_sorts:
  assumes "comparator cmp" "arr_ok a"
  shows "\<exists>a'. array_sort cmp a = Some a' \<and> arr_ok a' \<and> mset (arr_list a') = mset (arr_list a) \<and>
     sorted_wrt (\<lambda>x y. cmp x y \<le> 0) (arr_list a')"
proof (cases "arr_index a > 1")
  case False
  then have "length (arr_list a) \<le> 1" using length_arr_list [OF assms(2)] by linarith
  then show ?thesis using False assms(2) by (auto simp: array_sort_def sorted_wrt_iff_nth_less)
next
  case True
  then obtain d where d: "arr_data a = Some d" "arr_length a = int (length d)" "arr_index a \<le> int (length d)"
    "arr_list a = take (nat (arr_index a)) d" using arr_okE [OF assms(2)] by (metis less_trans zero_less_one)
  obtain d' where q: "quicksort cmp d 0 (arr_index a - 1) = Some d'" "rearranged 0 (arr_index a - 1) d d'" "ordered cmp d' 0 (arr_index a - 1)"
    by (rule comparator.quicksort_sorts [OF assms(1), of 0 "arr_index a - 1" d]) (use d in auto)
  have len: "length d' = length d" using q(2) by (simp add: rearranged_def)
  let ?a = "a\<lparr>arr_data := Some d'\<rparr>"
  have "array_sort cmp a = Some ?a" using True d q(1) by (simp add: array_sort_def)
  moreover have "arr_ok ?a" using assms(2) d len by (simp add: arr_ok_def)
  moreover have "mset (arr_list ?a) = mset (arr_list a)"
    using rearranged_take [of "nat (arr_index a)" d d'] q(2) d True by (simp add: arr_list_def)
  moreover have "sorted_wrt (\<lambda>x y. cmp x y \<le> 0) (arr_list ?a)"
    using sorted_wrt_ordered [of cmp d' "nat (arr_index a)"] q(3) d len True by (simp add: arr_list_def)
  ultimately show ?thesis by blast
qed

text \<open>The keypoints of \<^verbatim>\<open>img/orb.c\<close>, which are sorted by falling score.\<close>

record kp_t =
  kp_x :: u16
  kp_y :: u16
  kp_score :: u16
  kp_octave :: u16
  kp_angle :: u16
  kp_matched :: u16
  kp_desc :: "u8 list"

definition kpt_comp :: "kp_t \<Rightarrow> kp_t \<Rightarrow> int" where
  "kpt_comp kp1 kp2 = uint (kp_score kp2) - uint (kp_score kp1)"

interpretation keypoints: comparator kpt_comp
  by unfold_locales (auto simp: kpt_comp_def)

definition ex_kp :: "u16 \<Rightarrow> u16 \<Rightarrow> kp_t" where
  "ex_kp x score = \<lparr>kp_x = x, kp_y = 1, kp_score = score, kp_octave = 1, kp_angle = 0, kp_matched = 0, kp_desc = replicate 32 0\<rparr>"

theorem array_sort_sorts_witness:
  "\<exists>a'. array_sort kpt_comp \<lparr>arr_index = 3, arr_length = 4, arr_data = Some [ex_kp 1 5, ex_kp 2 9, ex_kp 3 7, ex_kp 4 8]\<rparr> = Some a' \<and>
     arr_ok a' \<and> sorted_wrt (\<lambda>x y. kpt_comp x y \<le> 0) (arr_list a')"
  using array_sort_sorts [OF keypoints.comparator_axioms,
     of "\<lparr>arr_index = 3, arr_length = 4, arr_data = Some [ex_kp 1 5, ex_kp 2 9, ex_kp 3 7, ex_kp 4 8]\<rparr>"]
  by (auto simp: arr_ok_def)

text \<open>
  \<^verbatim>\<open>array_isort\<close> tests the result of the comparison only for being zero or not: two elements that are already in
  ascending order are exchanged.
\<close>

theorem array_isort_exchanges:
  assumes "cmp x y < 0"
  shows "array_isort cmp \<lparr>arr_index = 2, arr_length = int (length d) + 2, arr_data = Some (x # y # d)\<rparr> =
     Some \<lparr>arr_index = 2, arr_length = int (length d) + 2, arr_data = Some (y # x # d)\<rparr>"
proof -
  have "isort_shift cmp y (x # y # d) 0 = Some (x # x # d, -1)"
    using assms by (simp add: isort_shift.simps aget_def aset_def)
  then show ?thesis by (simp add: array_isort_def isort_loop.simps aget_def aset_def)
qed

theorem array_isort_exchanges_witness:
  "array_isort (\<lambda>x y :: int. x - y) \<lparr>arr_index = 2, arr_length = 2, arr_data = Some [1, 2]\<rparr> =
     Some \<lparr>arr_index = 2, arr_length = 2, arr_data = Some [2, 1]\<rparr>"
  using array_isort_exchanges [of "\<lambda>x y :: int. x - y" 1 2 "[]"] by simp

end
