(* ===== verification/Rectangle.thy ===== *)
theory Rectangle
  imports Omv_Array "HOL-Library.Signed_Division"
begin

text \<open>
  Rectangles of the image library (\<^verbatim>\<open>omv/img/rectangle.c\<close>): intersection, the part of an image that a
  rectangle covers, and the merging of overlapping detections. Coordinates are 16-bit signed in memory
  and \<^verbatim>\<open>int\<close> in expressions; \<open>int16\<close> is the conversion on a store.
\<close>

definition int16 :: "int \<Rightarrow> int" where
  "int16 v = sint (word_of_int v :: 16 word)"

record rectangle_t =
  rx :: int
  ry :: int
  rw :: int
  rh :: int

definition rectangle_alloc :: "bool \<Rightarrow> int \<Rightarrow> int \<Rightarrow> int \<Rightarrow> int \<Rightarrow> rectangle_t outcome" where
  "rectangle_alloc room x y w h = (if room then Returns \<lparr>rx = int16 x, ry = int16 y, rw = int16 w, rh = int16 h\<rparr> else MemoryError)"

definition rectangle_equal :: "rectangle_t \<Rightarrow> rectangle_t \<Rightarrow> bool" where
  "rectangle_equal r1 r2 \<longleftrightarrow> rx r1 = rx r2 \<and> ry r1 = ry r2 \<and> rw r1 = rw r2 \<and> rh r1 = rh r2"

definition rectangle_intersects :: "rectangle_t \<Rightarrow> rectangle_t \<Rightarrow> bool" where
  "rectangle_intersects r1 r2 \<longleftrightarrow> rx r1 < rx r2 + rw r2 \<and> ry r1 < ry r2 + rh r2 \<and> rx r1 + rw r1 > rx r2 \<and> ry r1 + rh r1 > ry r2"

text \<open>The image enters by its width and height only.\<close>

definition rectangle_subimg :: "int \<Rightarrow> int \<Rightarrow> rectangle_t \<Rightarrow> rectangle_t option" where
  "rectangle_subimg img_w img_h r =
     (let r_img = \<lparr>rx = 0, ry = 0, rw = int16 img_w, rh = int16 img_h\<rparr>
      in if rectangle_intersects r_img r
         then let x = int16 (max (rx r_img) (rx r)); y = int16 (max (ry r_img) (ry r))
              in Some \<lparr>rx = x, ry = y,
                       rw = int16 (min (rx r_img + rw r_img) (rx r + rw r) - x),
                       rh = int16 (min (ry r_img + rh r_img) (ry r + rh r) - y)\<rparr>
         else None)"



definition rectangle_expand :: "rectangle_t \<Rightarrow> int \<Rightarrow> int \<Rightarrow> rectangle_t" where
  "rectangle_expand r x y =
     (let r1 = (if x < rx r then r\<lparr>rx := int16 x\<rparr> else r);
          r2 = (if y < ry r1 then r1\<lparr>ry := int16 y\<rparr> else r1);
          r3 = (if x > rw r2 then r2\<lparr>rw := int16 x\<rparr> else r2)
      in if y > rh r3 then r3\<lparr>rh := int16 y\<rparr> else r3)"

subsection \<open>Merging\<close>











subsection \<open>Pixels\<close>

definition pixels :: "rectangle_t \<Rightarrow> (int \<times> int) set" where
  "pixels r = {rx r..<rx r + rw r} \<times> {ry r..<ry r + rh r}"

definition rect_ok :: "rectangle_t \<Rightarrow> bool" where
  "rect_ok r \<longleftrightarrow> (\<forall>v \<in> {rx r, ry r, rw r, rh r}. - (2 ^ 15) \<le> v \<and> v < 2 ^ 15)"

lemma int16_id: "- (2 ^ 15) \<le> v \<Longrightarrow> v < 2 ^ 15 \<Longrightarrow> int16 v = v"
  by (simp add: int16_def signed_take_bit_int_eq_self sint_sbintrunc')



lemma interval_disjoint: "{a..<a + b} \<inter> {c..<c + d} \<noteq> {} \<longleftrightarrow> a < c + d \<and> c < a + b" if "0 < b" "0 < d" for a b c d :: int
proof -
  have "{a..<a + b} \<inter> {c..<c + d} = {max a c..<min (a + b) (c + d)}" by auto
  then show ?thesis using that by auto
qed

text \<open>
  \<^bold>\<open>C39\<close>: For rectangles that are not empty, \<^verbatim>\<open>rectangle_intersects\<close> tells whether they have a pixel in common, and
  \<^verbatim>\<open>rectangle_subimg\<close> returns the rectangle of exactly those pixels of the image that the rectangle covers, or
  reports that there are none.
\<close>

theorem rectangle_subimg_pixels:
  assumes "rect_ok r" "0 < rw r" "0 < rh r" "0 < w" "w < 2 ^ 15" "0 < h" "h < 2 ^ 15"
  shows "case rectangle_subimg w h r of
      None \<Rightarrow> {0..<w} \<times> {0..<h} \<inter> pixels r = {}
    | Some s \<Rightarrow> rect_ok s \<and> 0 < rw s \<and> 0 < rh s \<and> pixels s = {0..<w} \<times> {0..<h} \<inter> pixels r"
proof -
  have b: "- (2 ^ 15) \<le> rx r" "rx r < 2 ^ 15" "- (2 ^ 15) \<le> ry r" "ry r < 2 ^ 15" "rw r < 2 ^ 15" "rh r < 2 ^ 15"
    using assms(1) by (auto simp: rect_ok_def)
  have wh: "int16 w = w" "int16 h = h" using assms(4-7) by (simp_all add: int16_id)
  have x: "int16 (max 0 (rx r)) = max 0 (rx r)" "int16 (max 0 (ry r)) = max 0 (ry r)" using b by (auto intro!: int16_id)
  show ?thesis
  proof (cases "0 < rx r + rw r \<and> 0 < ry r + rh r \<and> w > rx r \<and> h > ry r")
    case False
    then have "rectangle_subimg w h r = None" by (auto simp: rectangle_subimg_def rectangle_intersects_def wh)
    moreover have "{0..<w} \<inter> {rx r..<rx r + rw r} = {} \<or> {0..<h} \<inter> {ry r..<ry r + rh r} = {}" using False by auto
    ultimately show ?thesis by (auto simp: pixels_def)
  next
    case True
    let ?W = "min w (rx r + rw r) - max 0 (rx r)" and ?H = "min h (ry r + rh r) - max 0 (ry r)"
    have pos: "0 < ?W" "0 < ?H" "?W < 2 ^ 15" "?H < 2 ^ 15" using True assms(2-7) b by (auto simp: min_def max_def)
    have "int16 ?W = ?W" "int16 ?H = ?H" by (rule int16_id; use pos in linarith)+
    then have "rectangle_subimg w h r = Some \<lparr>rx = max 0 (rx r), ry = max 0 (ry r), rw = ?W, rh = ?H\<rparr>"
      using True by (simp add: rectangle_subimg_def rectangle_intersects_def wh x Let_def)
    moreover have "rect_ok \<lparr>rx = max 0 (rx r), ry = max 0 (ry r), rw = ?W, rh = ?H\<rparr>"
      using b pos by (auto simp: rect_ok_def)
    ultimately show ?thesis using pos(1,2) by (auto simp: pixels_def)
  qed
qed

theorem rectangle_subimg_pixels_witness:
  "rectangle_subimg 320 240 \<lparr>rx = -10, ry = 230, rw = 50, rh = 20\<rparr> = Some \<lparr>rx = 0, ry = 230, rw = 40, rh = 10\<rparr> \<and>
   pixels \<lparr>rx = 0, ry = 230, rw = 40, rh = 10\<rparr> = {0..<320} \<times> {0..<240} \<inter> pixels \<lparr>rx = -10, ry = 230, rw = 50, rh = 20\<rparr>"
proof -
  have e: "rectangle_subimg 320 240 \<lparr>rx = -10, ry = 230, rw = 50, rh = 20\<rparr> = Some \<lparr>rx = 0, ry = 230, rw = 40, rh = 10\<rparr>"
    by (simp add: rectangle_subimg_def rectangle_intersects_def int16_id)
  then show ?thesis using rectangle_subimg_pixels [of "\<lparr>rx = -10, ry = 230, rw = 50, rh = 20\<rparr>" 320 240] by (simp add: rect_ok_def)
qed

subsection \<open>The groups of a merge\<close>

text \<open>
  The rectangle that replaces a group: sums in 16 bits, which wrap around, divided by the number of rectangles. As long
  as the sums fit, this is the mean of the group.
\<close>

definition group_rect :: "rectangle_t \<Rightarrow> rectangle_t list \<Rightarrow> rectangle_t" where
  "group_rect r os =
     (let q = (\<lambda>f. int16 (int16 (f r + (\<Sum>q\<leftarrow>os. f q)) sdiv (1 + int (length os))))
      in \<lparr>rx = q rx, ry = q ry, rw = q rw, rh = q rh\<rparr>)"

lemma sdiv_int16_range:
  assumes "- (2 ^ 15) \<le> v" "v < 2 ^ 15" "0 \<le> n"
  shows "- (2 ^ 15) \<le> v sdiv (1 + n)" "v sdiv (1 + n) < (2 ^ 15 :: int)"
proof -
  have "\<bar>v\<bar> div (1 + n) \<le> \<bar>v\<bar>" using zdiv_mono2 [of "\<bar>v\<bar>" 1 "1 + n"] assms(3) by simp
  moreover have "0 \<le> \<bar>v\<bar> div (1 + n)" using assms(3) by (simp add: pos_imp_zdiv_nonneg_iff)
  moreover have "v sdiv (1 + n) = sgn v * (\<bar>v\<bar> div (1 + n))" using assms(3) by (simp add: signed_divide_int_def sgn_mult abs_div)
  ultimately show "- (2 ^ 15) \<le> v sdiv (1 + n)" "v sdiv (1 + n) < 2 ^ 15"
    using assms(1,2) by (auto simp: sgn_if split: if_splits)
qed

lemma int16_quotient: "- (2 ^ 15) \<le> v \<Longrightarrow> v < 2 ^ 15 \<Longrightarrow> 0 \<le> n \<Longrightarrow> int16 (int16 v sdiv (1 + n)) = v sdiv (1 + n)"
  using sdiv_int16_range [of v n] by (simp add: int16_id)

lemma group_rect_mean:
  assumes "\<forall>f \<in> {rx, ry, rw, rh}. - (2 ^ 15) \<le> f r + (\<Sum>q\<leftarrow>os. f q) \<and> f r + (\<Sum>q\<leftarrow>os. f q) < 2 ^ 15"
  shows "group_rect r os = \<lparr>rx = (rx r + (\<Sum>q\<leftarrow>os. rx q)) sdiv (1 + int (length os)),
     ry = (ry r + (\<Sum>q\<leftarrow>os. ry q)) sdiv (1 + int (length os)), rw = (rw r + (\<Sum>q\<leftarrow>os. rw q)) sdiv (1 + int (length os)),
     rh = (rh r + (\<Sum>q\<leftarrow>os. rh q)) sdiv (1 + int (length os))\<rparr>"
  using assms by (simp add: group_rect_def Let_def int16_quotient)











end
