(* ===== verification/Fsort.thy ===== *)
theory Fsort
  imports Prelude "HOL-Library.Multiset"
begin

text \<open>
  The sorting networks of the rank filters (\<^verbatim>\<open>omv/img/fsort.c\<close>) for windows of 3 by 3 and 5 by 5 pixels. A
  network is its list of comparators in the order of the calls of \<^verbatim>\<open>cmpswp\<close>. The element type is any linear order;
  the code uses \<^verbatim>\<open>int\<close>. For other sizes \<^verbatim>\<open>fsort\<close> calls the library's \<^verbatim>\<open>qsort\<close>, a parameter.
\<close>

definition cmpswp :: "nat \<Rightarrow> nat \<Rightarrow> 'a :: linorder list \<Rightarrow> 'a list" where
  "cmpswp a b d = (if d ! b < d ! a then d[a := d ! b, b := d ! a] else d)"

type_synonym comparators = "(nat \<times> nat) list"

fun network :: "comparators \<Rightarrow> 'a :: linorder list \<Rightarrow> 'a list" where
  "network [] d = d"
| "network ((a, b) # ns) d = network ns (cmpswp a b d)"

definition net9 :: comparators where
  "net9 =
   [(0, 1), (3, 4), (6, 7),
    (1, 2), (4, 5), (7, 8),
    (0, 1), (3, 4), (6, 7), (2, 5),
    (0, 3), (1, 4), (5, 8),
    (3, 6), (4, 7), (2, 5),
    (0, 3), (1, 4), (5, 7), (2, 6),
    (1, 3), (4, 6),
    (2, 4), (5, 6),
    (2, 3)]"

definition net25 :: comparators where
  "net25 =
   [(1, 2), (4, 5), (7, 8), (10, 11), (13, 14), (16, 17), (19, 20), (21, 22), (23, 24),
    (0, 2), (3, 5), (6, 8), (9, 11), (12, 14), (15, 17), (18, 20), (21, 23), (22, 24),
    (0, 1), (3, 4), (2, 5), (6, 7), (9, 10), (8, 11), (12, 13), (15, 16), (14, 17), (18, 19), (22, 23), (20, 24),
    (0, 3), (1, 4), (6, 9), (7, 10), (5, 11), (12, 15), (13, 16), (18, 22), (19, 23), (17, 24),
    (2, 4), (1, 3), (8, 10), (7, 9), (0, 6), (14, 16), (13, 15), (18, 21), (20, 23), (11, 24),
    (2, 3), (8, 9), (1, 7), (4, 10), (14, 15), (19, 21), (20, 22), (16, 23),
    (2, 8), (1, 6), (3, 9), (5, 10), (20, 21), (12, 19), (15, 22), (17, 23),
    (2, 7), (4, 9), (12, 18), (13, 20), (14, 21), (16, 22), (10, 23),
    (2, 6), (5, 9), (4, 7), (14, 20), (13, 18), (17, 22), (11, 23),
    (3, 6), (5, 8), (14, 19), (16, 20), (17, 21), (0, 13), (9, 22),
    (5, 7), (4, 6), (14, 18), (15, 19), (17, 20), (0, 12), (8, 21), (10, 22),
    (5, 6), (15, 18), (17, 19), (1, 14), (7, 20), (11, 22),
    (16, 18), (2, 15), (1, 12), (6, 19), (8, 20), (11, 21),
    (17, 18), (2, 14), (3, 16), (7, 19), (10, 20),
    (2, 13), (4, 17), (5, 18), (8, 19), (11, 20),
    (2, 12), (5, 17), (4, 16), (3, 13), (9, 19),
    (5, 16), (3, 12), (4, 14), (10, 19),
    (5, 15), (4, 12), (11, 19), (9, 16), (10, 17),
    (5, 14), (8, 15), (11, 18), (10, 16),
    (5, 13), (7, 14), (11, 17),
    (5, 12), (6, 13), (8, 14), (11, 16),
    (6, 12), (8, 13), (10, 14), (11, 15),
    (7, 12), (9, 13), (11, 14),
    (8, 12), (11, 13),
    (9, 12),
    (10, 12),
    (11, 12)]"

definition fsort9 :: "'a :: linorder list \<Rightarrow> 'a list" where
  "fsort9 d = network net9 d"

definition fsort25 :: "'a :: linorder list \<Rightarrow> 'a list" where
  "fsort25 d = network net25 d"

definition fsort :: "('a :: linorder list \<Rightarrow> 'a list) \<Rightarrow> 'a list \<Rightarrow> nat \<Rightarrow> 'a list" where
  "fsort qsort d n = (if n = 1 then d else if n = 9 then fsort9 d else if n = 25 then fsort25 d else qsort d)"

subsection \<open>Networks\<close>

definition wires :: "nat \<Rightarrow> comparators \<Rightarrow> bool" where
  "wires n ns \<longleftrightarrow> list_all (\<lambda>(a, b). a < n \<and> b < n) ns"

lemma wires_simps [simp]:
  "wires n []" "wires n ((a, b) # ns) \<longleftrightarrow> a < n \<and> b < n \<and> wires n ns" "wires n (ms @ ns) \<longleftrightarrow> wires n ms \<and> wires n ns"
  by (auto simp: wires_def)

lemma length_cmpswp [simp]: "length (cmpswp a b d) = length d"
  by (simp add: cmpswp_def)

lemma length_network [simp]: "length (network ns d) = length d"
  by (induction ns d rule: network.induct) auto

lemma mset_cmpswp: "a < length d \<Longrightarrow> b < length d \<Longrightarrow> mset (cmpswp a b d) = mset d"
  by (simp add: cmpswp_def mset_swap)

lemma mset_network: "wires (length d) ns \<Longrightarrow> mset (network ns d) = mset d"
  by (induction ns d rule: network.induct) (auto simp: mset_cmpswp)

lemma network_append: "network (ms @ ns) d = network ns (network ms d)"
  by (induction ms d rule: network.induct) auto

text \<open>Monotone functions commute with networks; so a network that sorts truth values sorts everything.\<close>

lemma cmpswp_map:
  fixes f :: "'a :: linorder \<Rightarrow> 'b :: linorder"
  assumes "mono f" "a < length d" "b < length d"
  shows "cmpswp a b (map f d) = map f (cmpswp a b d)"
proof -
  have less: "d ! b < d ! a" if "f (d ! b) < f (d ! a)" using that assms(1) by (meson monoD not_less)
  have "map f d = map f (d[a := d ! b, b := d ! a])" if "d ! b < d ! a" "\<not> f (d ! b) < f (d ! a)"
  proof -
    have "f (d ! b) = f (d ! a)" using that assms(1) by (meson antisym less_imp_le monoD not_less)
    then show ?thesis using assms(2,3) by (intro nth_equalityI) (auto simp: map_update nth_list_update)
  qed
  then show ?thesis using less assms(2,3) by (auto simp: cmpswp_def map_update)
qed

lemma network_map:
  "mono f \<Longrightarrow> wires (length d) ns \<Longrightarrow> network ns (map f d) = map f (network ns d)"
  by (induction ns d rule: network.induct) (auto simp: cmpswp_map)

definition sorter :: "nat \<Rightarrow> comparators \<Rightarrow> bool" where
  "sorter n ns \<longleftrightarrow> wires n ns \<and> (\<forall>bs :: bool list. length bs = n \<longrightarrow> sorted (network ns bs))"

lemma zero_one:
  fixes d :: "'a :: linorder list"
  assumes "sorter (length d) ns"
  shows "network ns d = sort d"
proof -
  have w: "wires (length d) ns" using assms by (simp add: sorter_def)
  have "sorted (network ns d)"
    unfolding sorted_iff_nth_mono_less
  proof (intro allI impI)
    fix i j assume ij: "i < j" "j < length (network ns d)"
    let ?y = "network ns d" and ?f = "\<lambda>x. network ns d ! j < x"
    have "mono ?f" by (auto simp: mono_def le_bool_def)
    from network_map [OF this w] have "sorted (map ?f ?y)" using assms by (metis length_map sorter_def)
    then have "?f (?y ! i) \<le> ?f (?y ! j)" using ij by (auto simp: sorted_iff_nth_mono_less)
    then show "?y ! i \<le> ?y ! j" by (auto simp: not_less)
  qed
  then show ?thesis using mset_network [OF w] by (metis properties_for_sort)
qed


subsection \<open>Testing many inputs at once\<close>

text \<open>
  A wire carries the truth values of all test cases as the bits of one integer; a comparator is then a bitwise
  conjunction and disjunction. The result is sorted in every case if each wire implies the next one.
\<close>

fun parallel :: "comparators \<Rightarrow> int list \<Rightarrow> int list" where
  "parallel [] d = d"
| "parallel ((a, b) # ns) d = (let x = d ! a; y = d ! b in parallel ns (d[a := x AND y, b := x OR y]))"

fun rising :: "int list \<Rightarrow> bool" where
  "rising (x # y # ws) \<longleftrightarrow> x OR y = y \<and> rising (y # ws)"
| "rising _ \<longleftrightarrow> True"

definition lanes :: "nat \<Rightarrow> bool list list \<Rightarrow> int list" where
  "lanes n vs = map (\<lambda>i. horner_sum of_bool 2 (map (\<lambda>v. v ! i) vs)) [0..<n]"

lemma cmpswp_bool:
  fixes d :: "bool list"
  assumes "a < length d" "b < length d"
  shows "cmpswp a b d = d[a := d ! a \<and> d ! b, b := d ! a \<or> d ! b]"
proof -
  have "d[a := d ! a, b := d ! b] = d" by simp
  then show ?thesis by (cases "d ! a"; cases "d ! b") (auto simp: cmpswp_def)
qed

lemma parallel_bit:
  "wires (length d) ns \<Longrightarrow> map (\<lambda>w. bit w k) (parallel ns d) = network ns (map (\<lambda>w. bit w k) d)"
  by (induction ns d rule: parallel.induct) (simp_all add: cmpswp_bool map_update bit_and_iff bit_or_iff Let_def)

lemma rising_sorted: "rising ws \<Longrightarrow> sorted (map (\<lambda>w. bit w k) ws)"
proof (induction ws rule: rising.induct)
  case (1 x y ws)
  from 1(2) have "x OR y = y" and c: "rising (y # ws)" by simp_all
  moreover note 1(1) [OF c]
  moreover from \<open>x OR y = y\<close> have "bit x k \<le> bit y k" by (metis bit_or_iff le_bool_def)
  ultimately show ?case by (simp only: list.map sorted2)
qed auto

lemma lanes_case:
  assumes "k < length vs" "length (vs ! k) = n"
  shows "map (\<lambda>w. bit w k) (lanes n vs) = vs ! k"
  by (rule nth_equalityI) (use assms in \<open>auto simp: lanes_def bit_horner_sum_bit_iff\<close>)

lemma test_cases:
  assumes "wires n ns" "rising (parallel ns (lanes n vs))" "v \<in> set vs" "length v = n"
  shows "sorted (network ns v)"
proof -
  obtain k where k: "k < length vs" "v = vs ! k" using assms(3) by (auto simp: in_set_conv_nth)
  have "length (lanes n vs) = n" by (simp add: lanes_def)
  then have "network ns v = map (\<lambda>w. bit w k) (parallel ns (lanes n vs))"
    using parallel_bit [of "lanes n vs" ns k] lanes_case [of k vs n] k assms(1,4) by simp
  then show ?thesis using rising_sorted [OF assms(2)] by simp
qed

subsection \<open>Networks made of smaller ones\<close>

text \<open>Comparators on different wires can be exchanged.\<close>

fun disjoint_wires :: "nat \<times> nat \<Rightarrow> nat \<times> nat \<Rightarrow> bool" where
  "disjoint_wires (a, b) (c, d) \<longleftrightarrow> a \<noteq> c \<and> a \<noteq> d \<and> b \<noteq> c \<and> b \<noteq> d"

fun pull :: "nat \<times> nat \<Rightarrow> comparators \<Rightarrow> comparators option" where
  "pull c [] = None"
| "pull c (n # ns) = (if n = c then Some ns else if disjoint_wires c n then map_option ((#) n) (pull c ns) else None)"

fun reorder :: "comparators \<Rightarrow> comparators \<Rightarrow> bool" where
  "reorder [] ns \<longleftrightarrow> ns = []"
| "reorder (c # cs) ns \<longleftrightarrow> (case pull c ns of None \<Rightarrow> False | Some ms \<Rightarrow> reorder cs ms)"

lemma cmpswp_commute: "disjoint_wires (a, b) (x, y) \<Longrightarrow> cmpswp a b (cmpswp x y d) = cmpswp x y (cmpswp a b d)"
  by (auto simp: cmpswp_def list_update_swap)

lemma pull_network:
  assumes "pull (a, b) ns = Some ms"
  shows "network ns d = network ms (cmpswp a b d)"
  using assms
proof (induction ns arbitrary: ms d)
  case (Cons n ns)
  obtain x y where n: "n = (x, y)" by (cases n)
  show ?case
  proof (cases "n = (a, b)")
    case False
    then obtain ks where "pull (a, b) ns = Some ks" "ms = n # ks" "disjoint_wires (a, b) (x, y)"
      using Cons.prems n by (auto split: if_splits)
    then show ?thesis using Cons.IH [of ks "cmpswp x y d"] cmpswp_commute [of a b x y d] n by simp
  qed (use Cons.prems n in auto)
qed simp

lemma reorder_network: "reorder cs ns \<Longrightarrow> network ns d = network cs d"
proof (induction cs ns arbitrary: d rule: reorder.induct)
  case (2 c cs ns)
  obtain a b where c: "c = (a, b)" by (cases c)
  with 2(2) obtain ms where "pull (a, b) ns = Some ms" "reorder cs ms" by (auto split: option.splits)
  then show ?case using 2(1) [of ms] pull_network [of a b ns ms d] c by simp
qed simp

text \<open>A network on some of the wires works on that part of the list.\<close>

definition shift :: "nat \<Rightarrow> comparators \<Rightarrow> comparators" where
  "shift k ns = map (\<lambda>(a, b). (a + k, b + k)) ns"

lemma network_left: "wires (length xs) ns \<Longrightarrow> network ns (xs @ ys) = network ns xs @ ys"
  by (induction ns xs rule: network.induct) (auto simp: cmpswp_def nth_append list_update_append)

lemma cmpswp_shift: "cmpswp (a + length xs) (b + length xs) (xs @ ys) = xs @ cmpswp a b ys"
  by (simp add: cmpswp_def nth_append list_update_append)

lemma network_right: "network (shift (length xs) ns) (xs @ ys) = xs @ network ns ys"
  by (induction ns ys rule: network.induct) (simp_all add: shift_def cmpswp_shift)

lemma sorted_bool: "sorted bs \<Longrightarrow> \<exists>i \<le> length bs. bs = replicate i False @ replicate (length bs - i) True"
proof (induction bs)
  case (Cons b bs)
  then obtain i where i: "i \<le> length bs" "bs = replicate i False @ replicate (length bs - i) True" by auto
  show ?case
  proof (cases b)
    case True
    with Cons.prems have "bs = replicate (length bs) True" by (intro replicate_eqI [THEN sym, THEN sym]) (auto simp: replicate_eqI)
    then show ?thesis using True by (intro exI [of _ 0]) auto
  next
    case False
    then show ?thesis using i by (intro exI [of _ "Suc i"]) auto
  qed
qed simp

definition two_runs :: "nat \<Rightarrow> nat \<Rightarrow> bool list list" where
  "two_runs p q = [replicate i False @ replicate (p - i) True @ replicate j False @ replicate (q - j) True. i \<leftarrow> [0..<Suc p], j \<leftarrow> [0..<Suc q]]"

lemma merge_sorter:
  assumes lo: "sorter p lo" and hi: "sorter q hi" and re: "reorder (lo @ shift p hi @ mg) ns" and w: "wires (p + q) mg" "wires (p + q) ns"
    and mg: "rising (parallel mg (lanes (p + q) (two_runs p q)))"
  shows "sorter (p + q) ns"
  unfolding sorter_def
proof (intro conjI allI impI)
  fix bs :: "bool list" assume len: "length bs = p + q"
  define xs where "xs = take p bs"
  define ys where "ys = drop p bs"
  have bs: "bs = xs @ ys" "length xs = p" "length ys = q" using len by (simp_all add: xs_def ys_def)
  have "sorted (network lo xs)" "sorted (network hi ys)" "wires p lo" using lo hi bs(2,3) by (auto simp: sorter_def)
  then obtain i j where i: "i \<le> p" "network lo xs = replicate i False @ replicate (p - i) True"
      and j: "j \<le> q" "network hi ys = replicate j False @ replicate (q - j) True"
    using sorted_bool [of "network lo xs"] sorted_bool [of "network hi ys"] bs(2,3) by auto
  have "network (shift p hi) (network lo xs @ ys) = network lo xs @ network hi ys"
    using network_right [of "network lo xs" hi ys] bs(2) by simp
  moreover have "network lo (xs @ ys) = network lo xs @ ys" using network_left [of xs lo ys] bs(2) \<open>wires p lo\<close> by simp
  ultimately have "network ns bs = network mg (network lo xs @ network hi ys)"
    unfolding reorder_network [OF re] network_append bs(1) by simp
  moreover have "network lo xs @ network hi ys \<in> set (two_runs p q)" using i j
    by (auto simp: two_runs_def less_Suc_eq_le simp del: upt_Suc intro!: bexI [of _ i] image_eqI [of _ _ j])
  ultimately show "sorted (network ns bs)" using test_cases [OF w(1) mg] bs(2,3) by simp
qed (rule w(2))

definition part :: "nat \<Rightarrow> nat \<Rightarrow> comparators \<Rightarrow> comparators" where
  "part lo hi ns = map (\<lambda>(a, b). (a - lo, b - lo)) (filter (\<lambda>(a, b). lo \<le> a \<and> lo \<le> b \<and> a < hi \<and> b < hi) ns)"

definition across :: "nat \<Rightarrow> comparators \<Rightarrow> comparators" where
  "across m ns = filter (\<lambda>(a, b). (a < m) \<noteq> (b < m)) ns"

subsection \<open>The networks of the code\<close>

lemma sorterI:
  assumes "wires n ns" "rising (parallel ns (lanes n (List.n_lists n [False, True])))"
  shows "sorter n ns"
  unfolding sorter_def using assms(1) test_cases [OF assms] by (auto simp: set_n_lists)

lemma sorter_net9: "sorter 9 net9"
proof (rule sorterI)
  show "wires 9 net9" by code_simp
  show "rising (parallel net9 (lanes 9 (List.n_lists 9 [False, True])))" by code_simp
qed

text \<open>The network for 25 values is made of ones for 12 and 13 values, these of ones for 6, 6, 6 and 7.\<close>

lemma sorter_6_7:
  "sorter 6 (part 0 6 net25)" "sorter 6 (part 6 12 net25)" "sorter 6 (part 12 18 net25)" "sorter 7 (part 18 25 net25)"
proof -
  have w: "wires 6 (part 0 6 net25)" "wires 6 (part 6 12 net25)" "wires 6 (part 12 18 net25)" "wires 7 (part 18 25 net25)" by code_simp+
  have c: "rising (parallel (part 0 6 net25) (lanes 6 (List.n_lists 6 [False, True])))"
    "rising (parallel (part 6 12 net25) (lanes 6 (List.n_lists 6 [False, True])))"
    "rising (parallel (part 12 18 net25) (lanes 6 (List.n_lists 6 [False, True])))"
    "rising (parallel (part 18 25 net25) (lanes 7 (List.n_lists 7 [False, True])))" by code_simp+
  show "sorter 6 (part 0 6 net25)" "sorter 6 (part 6 12 net25)" "sorter 6 (part 12 18 net25)" "sorter 7 (part 18 25 net25)"
    by (rule sorterI [OF w(1) c(1)], rule sorterI [OF w(2) c(2)], rule sorterI [OF w(3) c(3)], rule sorterI [OF w(4) c(4)])
qed

lemma sorter_12: "sorter (6 + 6) (part 0 12 net25)"
proof (rule merge_sorter [OF sorter_6_7(1,2)])
  show "reorder (part 0 6 net25 @ shift 6 (part 6 12 net25) @ across 6 (part 0 12 net25)) (part 0 12 net25)" by code_simp
  show "wires (6 + 6) (across 6 (part 0 12 net25))" "wires (6 + 6) (part 0 12 net25)" by code_simp+
  show "rising (parallel (across 6 (part 0 12 net25)) (lanes (6 + 6) (two_runs 6 6)))" by code_simp
qed

lemma sorter_13: "sorter (6 + 7) (part 12 25 net25)"
proof (rule merge_sorter [OF sorter_6_7(3,4)])
  show "reorder (part 12 18 net25 @ shift 6 (part 18 25 net25) @ across 6 (part 12 25 net25)) (part 12 25 net25)" by code_simp
  show "wires (6 + 7) (across 6 (part 12 25 net25))" "wires (6 + 7) (part 12 25 net25)" by code_simp+
  show "rising (parallel (across 6 (part 12 25 net25)) (lanes (6 + 7) (two_runs 6 7)))" by code_simp
qed

lemma sorter_net25: "sorter 25 net25"
proof -
  have "sorter (12 + 13) net25"
  proof (rule merge_sorter)
    show "sorter 12 (part 0 12 net25)" "sorter 13 (part 12 25 net25)" using sorter_12 sorter_13 by simp_all
    show "reorder (part 0 12 net25 @ shift 12 (part 12 25 net25) @ across 12 net25) net25" by code_simp
    show "wires (12 + 13) (across 12 net25)" "wires (12 + 13) net25" by code_simp+
    show "rising (parallel (across 12 net25) (lanes (12 + 13) (two_runs 12 13)))" by code_simp
  qed
  then show ?thesis by simp
qed

text \<open>
  \<^bold>\<open>C17\<close>: The sorting networks are correct: \<^verbatim>\<open>fsort\<close> of one, 9 or 25 values is the sorted list of the values, for every
  input; for another number of values it is what \<^verbatim>\<open>qsort\<close> returns.
\<close>

theorem fsort_sorts:
  assumes "length d = n"
  shows "fsort qsort d n = (if n \<in> {1, 9, 25} then sort d else qsort d)"
proof -
  consider "n = 1" | "n = 9" | "n = 25" | "n \<notin> {1, 9, 25}" by blast
  then show ?thesis
  proof cases
    case 1
    then obtain x where "d = [x]" using assms by (auto simp: length_Suc_conv)
    then show ?thesis using 1 by (simp add: fsort_def)
  next
    case 2
    then show ?thesis using zero_one [of d net9] sorter_net9 assms by (simp add: fsort_def fsort9_def)
  next
    case 3
    then show ?thesis using zero_one [of d net25] sorter_net25 assms by (simp add: fsort_def fsort25_def)
  next
    case 4
    then show ?thesis by (simp add: fsort_def)
  qed
qed

theorem fsort_sorts_witness: "fsort id [9, 2, 7, 4, 5, 6, 3, 8, 1 :: int] 9 = [1, 2, 3, 4, 5, 6, 7, 8, 9]"
  using fsort_sorts [of "[9, 2, 7, 4, 5, 6, 3, 8, 1 :: int]" 9 id] by simp

end
