(* ===== verification/Integral.thy ===== *)
theory Integral
  imports Omv_Array "HOL-Library.Signed_Division"
begin

text \<open>
  Integral images (\<^verbatim>\<open>omv/img/integral.c\<close>), with which template matching and the cascade classifiers get the sum of any
  rectangle of pixels from four values. The table has 32-bit unsigned entries. Row sums and indices are of type
  \<^verbatim>\<open>int\<close>, whose overflow is \<open>None\<close>, or in the table of squares \<^verbatim>\<open>uint32_t\<close>, which wraps around.
\<close>

record image_t =
  img_w :: int
  img_h :: int
  img_bpp :: int
  img_data :: "u8 list"
  img_ai_pixels :: "u8 list option"

record i_image_t =
  ii_w :: int
  ii_h :: int
  ii_data :: "u32 list"

definition add_int :: "int \<Rightarrow> int \<Rightarrow> int option" where
  "add_int s p = int_of (s + p)"

definition add_uint32 :: "int \<Rightarrow> int \<Rightarrow> int option" where
  "add_uint32 s p = Some ((s + p) mod 2 ^ 32)"

text \<open>The index \<^verbatim>\<open>y * w + x\<close> in the arithmetic of the two types.\<close>

definition cell_int :: "int \<Rightarrow> int \<Rightarrow> int \<Rightarrow> int option" where
  "cell_int w y x = do { row \<leftarrow> int_of (y * w); int_of (row + x) }"

definition cell_uint32 :: "int \<Rightarrow> int \<Rightarrow> int \<Rightarrow> int option" where
  "cell_uint32 w y x = Some ((y * w + x) mod 2 ^ 32)"

text \<open>The first row of the table, and a later one; \<open>pix y x\<close> is the pixel value that is added.\<close>

function first_row :: "(int \<Rightarrow> int \<Rightarrow> int option) \<Rightarrow> (int \<Rightarrow> int option) \<Rightarrow> int \<Rightarrow> int \<Rightarrow> int \<Rightarrow> u32 list \<Rightarrow> u32 list option" where
  "first_row add pix w x s d =
     (if x < w
      then case pix x of
             None \<Rightarrow> None
           | Some p \<Rightarrow> (case add s p of
                          None \<Rightarrow> None
                        | Some s1 \<Rightarrow> (case aset d x (word_of_int s1) of
                                        None \<Rightarrow> None
                                      | Some d1 \<Rightarrow> first_row add pix w (x + 1) s1 d1))
      else Some d)"
  by pat_completeness auto
termination by (relation "measure (\<lambda>(_, _, w, x, _, _). nat (w - x))") auto

function next_row :: "(int \<Rightarrow> int \<Rightarrow> int option) \<Rightarrow> (int \<Rightarrow> int \<Rightarrow> int \<Rightarrow> int option) \<Rightarrow> (int \<Rightarrow> int option) \<Rightarrow> int \<Rightarrow> int \<Rightarrow> int \<Rightarrow> int \<Rightarrow> u32 list \<Rightarrow> u32 list option" where
  "next_row add cell pix w y x s d =
     (if x < w
      then case pix x of
             None \<Rightarrow> None
           | Some p \<Rightarrow> (case add s p of
                          None \<Rightarrow> None
                        | Some s1 \<Rightarrow> (case Option.bind (cell w (y - 1) x) (aget d) of
                                        None \<Rightarrow> None
                                      | Some up \<Rightarrow> (case Option.bind (cell w y x) (\<lambda>i. aset d i (word_of_int s1 + up)) of
                                                         None \<Rightarrow> None
                                                       | Some d1 \<Rightarrow> next_row add cell pix w y (x + 1) s1 d1)))
      else Some d)"
  by pat_completeness auto
termination by (relation "measure (\<lambda>(_, _, _, w, _, x, _, _). nat (w - x))") auto

function rows :: "(int \<Rightarrow> int \<Rightarrow> int option) \<Rightarrow> (int \<Rightarrow> int \<Rightarrow> int \<Rightarrow> int option) \<Rightarrow> (int \<Rightarrow> int \<Rightarrow> int option) \<Rightarrow> int \<Rightarrow> int \<Rightarrow> int \<Rightarrow> u32 list \<Rightarrow> u32 list option" where
  "rows add cell pix w h y d =
     (if y < h
      then case next_row add cell (pix y) w y 0 0 d of None \<Rightarrow> None | Some d1 \<Rightarrow> rows add cell pix w h (y + 1) d1
      else Some d)"
  by pat_completeness auto
termination by (relation "measure (\<lambda>(_, _, _, _, h, y, _). nat (h - y))") auto

declare first_row.simps [simp del] next_row.simps [simp del] rows.simps [simp del]

text \<open>In the first row the index is \<^verbatim>\<open>x\<close> itself.\<close>

definition integral_table :: "(int \<Rightarrow> int \<Rightarrow> int option) \<Rightarrow> (int \<Rightarrow> int \<Rightarrow> int \<Rightarrow> int option) \<Rightarrow> (int \<Rightarrow> int \<Rightarrow> int option) \<Rightarrow> int \<Rightarrow> int \<Rightarrow> u32 list \<Rightarrow> u32 list option" where
  "integral_table add cell pix w h d = do { d1 \<leftarrow> first_row add (pix 0) w 0 0 d; rows add cell pix w h 1 d1 }"

definition imlib_integral_image :: "image_t \<Rightarrow> i_image_t \<Rightarrow> i_image_t option" where
  "imlib_integral_image src tab =
     do { d \<leftarrow> integral_table add_int cell_int (\<lambda>y x. do { i \<leftarrow> cell_int (img_w src) y x; map_option uint (aget (img_data src) i) })
                 (img_w src) (img_h src) (ii_data tab);
          Some (tab\<lparr>ii_data := d\<rparr>) }"

text \<open>Positions in the source are 16.16 fixed-point numbers.\<close>

definition mul_int :: "int \<Rightarrow> int \<Rightarrow> int option" where
  "mul_int a b = int_of (a * b)"

definition scale_ratio :: "int \<Rightarrow> int \<Rightarrow> int option" where
  "scale_ratio src dst = do { v \<leftarrow> mul_int src (2 ^ 16); if dst = 0 then None else int_of (v sdiv dst + 1) }"

definition imlib_integral_image_scaled :: "image_t \<Rightarrow> i_image_t \<Rightarrow> i_image_t option" where
  "imlib_integral_image_scaled src tab =
     do { x_ratio \<leftarrow> scale_ratio (img_w src) (ii_w tab);
          y_ratio \<leftarrow> scale_ratio (img_h src) (ii_h tab);
          d \<leftarrow> integral_table add_int cell_int
                 (\<lambda>y x. do { sy \<leftarrow> mul_int y y_ratio; sx \<leftarrow> mul_int x x_ratio;
                             i \<leftarrow> cell_int (img_w src) (sy div 2 ^ 16) (sx div 2 ^ 16);
                             map_option uint (aget (img_data src) i) })
                 (ii_w tab) (ii_h tab) (ii_data tab);
          Some (tab\<lparr>ii_data := d\<rparr>) }"

text \<open>The loop variables are \<^verbatim>\<open>uint32_t\<close> here, so width and height are converted for the comparisons as well.\<close>

definition imlib_integral_image_sq :: "image_t \<Rightarrow> i_image_t \<Rightarrow> i_image_t option" where
  "imlib_integral_image_sq src tab =
     do { let w = img_w src mod 2 ^ 32; let h = img_h src mod 2 ^ 32;
          d \<leftarrow> integral_table add_uint32 cell_uint32
                 (\<lambda>y x. do { i \<leftarrow> cell_uint32 w y x; map_option (\<lambda>p. uint p * uint p) (aget (img_data src) i) }) w h (ii_data tab);
          Some (tab\<lparr>ii_data := d\<rparr>) }"

definition imlib_integral_lookup :: "i_image_t \<Rightarrow> int \<Rightarrow> int \<Rightarrow> int \<Rightarrow> int \<Rightarrow> u32 option" where
  "imlib_integral_lookup tab x y w h =
     (let PIXEL_AT = (\<lambda>x y. do { x \<leftarrow> x; y \<leftarrow> y; y1 \<leftarrow> int_of (y - 1); x1 \<leftarrow> int_of (x - 1);
                                  i \<leftarrow> cell_int (ii_w tab) y1 x1; aget (ii_data tab) i })
      in if x = 0 \<and> y = 0 then PIXEL_AT (Some w) (Some h)
         else if y = 0 then do { a \<leftarrow> PIXEL_AT (int_of (w + x)) (Some h); b \<leftarrow> PIXEL_AT (Some x) (Some h); Some (a - b) }
         else if x = 0 then do { a \<leftarrow> PIXEL_AT (Some w) (int_of (h + y)); b \<leftarrow> PIXEL_AT (Some w) (Some y); Some (a - b) }
         else do { a \<leftarrow> PIXEL_AT (int_of (w + x)) (int_of (h + y)); b \<leftarrow> PIXEL_AT (Some x) (Some y);
                   c \<leftarrow> PIXEL_AT (int_of (w + x)) (Some y); d \<leftarrow> PIXEL_AT (Some x) (int_of (h + y)); Some (a + b - c - d) })"

subsection \<open>Sums of rectangles\<close>

definition area_sum :: "(int \<Rightarrow> int \<Rightarrow> int) \<Rightarrow> int \<Rightarrow> int \<Rightarrow> int \<Rightarrow> int \<Rightarrow> int" where
  "area_sum p x y w h = (\<Sum>j\<in>{y..<y + h}. \<Sum>i\<in>{x..<x + w}. p j i)"

text \<open>A table of sums: the entry at \<open>(x, y)\<close> is the sum of all pixels up to there.\<close>

definition table_upto :: "(int \<Rightarrow> int \<Rightarrow> int) \<Rightarrow> int \<Rightarrow> int \<Rightarrow> u32 list \<Rightarrow> bool" where
  "table_upto p w n d \<longleftrightarrow> (\<forall>x y. 0 \<le> x \<and> x < w \<and> 0 \<le> y \<and> y * w + x < n \<longrightarrow> d ! nat (y * w + x) = word_of_int (area_sum p 0 0 (x + 1) (y + 1)))"

lemma table_uptoD:
  "table_upto p w n d \<Longrightarrow> 0 \<le> x \<Longrightarrow> x < w \<Longrightarrow> 0 \<le> y \<Longrightarrow> y * w + x < n \<Longrightarrow> d ! nat (y * w + x) = word_of_int (area_sum p 0 0 (x + 1) (y + 1))"
  by (simp add: table_upto_def)

lemma sum_split_int: "0 \<le> m \<Longrightarrow> 0 \<le> n \<Longrightarrow> (\<Sum>i\<in>{a..<a + (m + n)}. f i) = (\<Sum>i\<in>{a..<a + m}. f i) + (\<Sum>i\<in>{a + m..<a + m + n}. f i)" for a :: int
proof -
  assume "0 \<le> m" "0 \<le> n"
  then have "{a..<a + (m + n)} = {a..<a + m} \<union> {a + m..<a + m + n}" by auto
  then show ?thesis by (simp add: sum.union_disjoint)
qed

lemma area_rows: "0 \<le> h \<Longrightarrow> 0 \<le> k \<Longrightarrow> area_sum p x y w (h + k) = area_sum p x y w h + area_sum p x (y + h) w k"
  by (simp add: area_sum_def sum_split_int)

lemma area_columns: "0 \<le> w \<Longrightarrow> 0 \<le> v \<Longrightarrow> area_sum p x y (w + v) h = area_sum p x y w h + area_sum p (x + w) y v h"
  by (simp add: area_sum_def sum_split_int sum.distrib)

lemma area_empty [simp]: "area_sum p x y 0 h = 0" "area_sum p x y w 0 = 0"
  by (simp_all add: area_sum_def)

lemma area_cell [simp]: "area_sum p x y 1 1 = p y x"
proof -
  have "{x..<x + 1} = {x}" "{y..<y + 1} = {y}" by auto
  then show ?thesis by (simp add: area_sum_def)
qed

text \<open>Inclusion and exclusion of the four corners.\<close>

lemma area_corners:
  assumes "0 \<le> x" "0 \<le> y" "0 \<le> w" "0 \<le> h"
  shows "area_sum p x y w h = area_sum p 0 0 (w + x) (h + y) + area_sum p 0 0 x y - area_sum p 0 0 (w + x) y - area_sum p 0 0 x (h + y)"
proof -
  have "area_sum p 0 0 (w + x) (h + y) = area_sum p 0 0 (w + x) y + area_sum p 0 y (w + x) h"
    using area_rows [of y h p 0 0 "w + x"] assms by (simp add: add.commute)
  moreover have "area_sum p 0 y (w + x) h = area_sum p 0 y x h + area_sum p x y w h"
    using area_columns [of x w p 0 y h] assms by (simp add: add.commute)
  moreover have "area_sum p 0 0 x (h + y) = area_sum p 0 0 x y + area_sum p 0 y x h"
    using area_rows [of y h p 0 0 x] assms by (simp add: add.commute)
  ultimately show ?thesis by simp
qed

subsection \<open>The table is correct\<close>

lemma cell_less: "0 \<le> x \<Longrightarrow> x < w \<Longrightarrow> 0 \<le> y \<Longrightarrow> y < h \<Longrightarrow> y * w + x < h * w" for x y w h :: int
proof -
  assume "0 \<le> x" "x < w" "0 \<le> y" "y < h"
  then have "y * w + x < (y + 1) * w" by (simp add: algebra_simps)
  also have "\<dots> \<le> h * w" using \<open>y < h\<close> \<open>x < w\<close> \<open>0 \<le> x\<close> by (intro mult_right_mono) auto
  finally show ?thesis .
qed

lemma cell_unique:
  fixes x y x' y' w :: int
  assumes "0 \<le> x" "x < w" "0 \<le> x'" "x' < w" "y * w + x = y' * w + x'"
  shows "x = x' \<and> y = y'"
proof -
  have "x = (y * w + x) mod w" "x' = (y' * w + x') mod w" using assms(1-4) by simp_all
  then have "x = x'" using assms(5) by metis
  then show ?thesis using assms by auto
qed

lemma table_extend:
  assumes t: "table_upto p w (y * w + x) d" and x: "0 \<le> x" "x < w" "0 \<le> y" "y * w + x < int (length d)"
  shows "table_upto p w (y * w + x + 1) (d[nat (y * w + x) := word_of_int (area_sum p 0 0 (x + 1) (y + 1))])"
  unfolding table_upto_def
proof (intro allI impI)
  fix i j assume ij: "0 \<le> i \<and> i < w \<and> 0 \<le> j \<and> j * w + i < y * w + x + 1"
  have pos: "0 \<le> j * w + i" "0 \<le> y * w + x" using ij x by auto
  show "d[nat (y * w + x) := word_of_int (area_sum p 0 0 (x + 1) (y + 1))] ! nat (j * w + i) = word_of_int (area_sum p 0 0 (i + 1) (j + 1))"
  proof (cases "j * w + i = y * w + x")
    case True
    then have "i = x \<and> j = y" using cell_unique [of i w x j y] ij x by auto
    then show ?thesis using x(4) pos by simp
  next
    case False
    then have "nat (j * w + i) \<noteq> nat (y * w + x)" using pos by simp
    moreover have "d ! nat (j * w + i) = word_of_int (area_sum p 0 0 (i + 1) (j + 1))"
      using t ij False by (auto simp: table_upto_def)
    ultimately show ?thesis by simp
  qed
qed

text \<open>
  What the accumulator of a row has to do: \<open>rep a\<close> is how the row sum \<open>a\<close> is kept.
\<close>

definition row_adder :: "(int \<Rightarrow> int \<Rightarrow> int option) \<Rightarrow> (int \<Rightarrow> int) \<Rightarrow> (int \<Rightarrow> int \<Rightarrow> int) \<Rightarrow> int \<Rightarrow> int \<Rightarrow> bool" where
  "row_adder add rep p w h \<longleftrightarrow> rep 0 = 0 \<and> (\<forall>a. word_of_int (rep a) = (word_of_int a :: u32)) \<and>
     (\<forall>x y. 0 \<le> x \<and> x < w \<and> 0 \<le> y \<and> y < h \<longrightarrow> add (rep (area_sum p 0 y x 1)) (p y x) = Some (rep (area_sum p 0 y (x + 1) 1)))"

lemma first_row_table:
  assumes "row_adder add rep p w h" "\<forall>x. 0 \<le> x \<and> x < w \<longrightarrow> pix x = Some (p 0 x)" "0 < h"
    and "0 \<le> x" "x \<le> w" "w \<le> int (length d)" "table_upto p w x d"
  shows "\<exists>d'. first_row add pix w x (rep (area_sum p 0 0 x 1)) d = Some d' \<and> length d' = length d \<and> table_upto p w w d'"
  using assms(4-)
proof (induction "nat (w - x)" arbitrary: x d)
  case 0
  then show ?case by (subst first_row.simps) auto
next
  case (Suc n)
  then have x: "x < w" by simp
  let ?s = "rep (area_sum p 0 0 (x + 1) 1)" and ?d = "d[nat x := word_of_int (area_sum p 0 0 (x + 1) 1)]"
  have "aset d x (word_of_int ?s) = Some ?d" using Suc.prems x assms(1) by (simp add: aset_def row_adder_def)
  moreover have "add (rep (area_sum p 0 0 x 1)) (p 0 x) = Some ?s" using assms(1,3) x Suc.prems(1) by (simp add: row_adder_def)
  ultimately have "first_row add pix w x (rep (area_sum p 0 0 x 1)) d = first_row add pix w (x + 1) ?s ?d"
    using assms(2) x Suc.prems(1) by (simp add: first_row.simps [of add pix w x])
  moreover have "table_upto p w (x + 1) ?d" using table_extend [of p w 0 x d] Suc.prems x by simp
  ultimately show ?case using Suc.hyps(1) [of "x + 1" ?d] Suc.hyps(2) Suc.prems x by simp
qed

text \<open>Inside the table the index does not overflow.\<close>

definition cells_ok :: "(int \<Rightarrow> int \<Rightarrow> int \<Rightarrow> int option) \<Rightarrow> int \<Rightarrow> int \<Rightarrow> bool" where
  "cells_ok cell w h \<longleftrightarrow> (\<forall>x y. 0 \<le> x \<and> x < w \<and> 0 \<le> y \<and> y < h \<longrightarrow> cell w y x = Some (y * w + x))"

lemma cells_int: "0 \<le> x \<Longrightarrow> x < w \<Longrightarrow> 0 \<le> y \<Longrightarrow> y < h \<Longrightarrow> h * w < 2 ^ 31 \<Longrightarrow> cell_int w y x = Some (y * w + x)"
  using cell_less [of x w y h] by (simp add: cell_int_def)

lemma cells_ok_int: "h * w < 2 ^ 31 \<Longrightarrow> cells_ok cell_int w h"
  by (auto simp: cells_ok_def intro: cells_int)

lemma cells_ok_uint32: "h * w < 2 ^ 32 \<Longrightarrow> cells_ok cell_uint32 w h"
  using cell_less by (fastforce simp: cells_ok_def cell_uint32_def)

lemma next_row_table:
  assumes "row_adder add rep p w h" "cells_ok cell w h" "\<forall>x. 0 \<le> x \<and> x < w \<longrightarrow> pix x = Some (p y x)" "0 < y" "y < h"
    and "0 \<le> x" "x \<le> w" "h * w \<le> int (length d)" "table_upto p w (y * w + x) d"
  shows "\<exists>d'. next_row add cell pix w y x (rep (area_sum p 0 y x 1)) d = Some d' \<and> length d' = length d \<and> table_upto p w (y * w + w) d'"
  using assms(6-)
proof (induction "nat (w - x)" arbitrary: x d)
  case 0
  then show ?case by (subst next_row.simps) auto
next
  case (Suc n)
  then have x: "x < w" by simp
  have "0 \<le> (y - 1) * w" using x Suc.prems(1) assms(4) by simp
  then have c: "0 \<le> (y - 1) * w + x" "0 \<le> y * w + x" "(y - 1) * w + x < y * w + x" "y * w + x < int (length d)"
    using Suc.prems x assms(4,5) cell_less [of x w y h] by (auto simp: left_diff_distrib)
  have cell: "cell w (y - 1) x = Some ((y - 1) * w + x)" "cell w y x = Some (y * w + x)"
    using assms(2,4,5) x Suc.prems(1) by (auto simp: cells_ok_def)
  let ?s = "rep (area_sum p 0 y (x + 1) 1)" and ?d = "d[nat (y * w + x) := word_of_int (area_sum p 0 0 (x + 1) (y + 1))]"
  have up: "aget d ((y - 1) * w + x) = Some (word_of_int (area_sum p 0 0 (x + 1) y))"
    using table_uptoD [OF Suc.prems(4), of x "y - 1"] c less_trans [OF c(3,4)] x Suc.prems(1) assms(4) by (simp add: aget_def)
  have "area_sum p 0 0 (x + 1) (y + 1) = area_sum p 0 0 (x + 1) y + area_sum p 0 y (x + 1) 1"
    using area_rows [of y 1 p 0 0 "x + 1"] assms(4) by simp
  then have sum: "word_of_int ?s + word_of_int (area_sum p 0 0 (x + 1) y) = (word_of_int (area_sum p 0 0 (x + 1) (y + 1)) :: u32)"
    using assms(1) by (simp add: row_adder_def add.commute)
  have "aset d (y * w + x) (word_of_int ?s + word_of_int (area_sum p 0 0 (x + 1) y)) = Some ?d"
    unfolding sum using c by (simp add: aset_def)
  moreover have "add (rep (area_sum p 0 y x 1)) (p y x) = Some ?s" using assms(1,4,5) x Suc.prems(1) by (simp add: row_adder_def)
  ultimately have "next_row add cell pix w y x (rep (area_sum p 0 y x 1)) d = next_row add cell pix w y (x + 1) ?s ?d"
    using assms(3) x Suc.prems(1) up cell by (simp add: next_row.simps [of add cell pix w y x])
  moreover have "table_upto p w (y * w + (x + 1)) ?d"
    using table_extend [of p w y x d] Suc.prems x c assms(4) by (simp add: add.assoc)
  ultimately show ?case using Suc.hyps(1) [of "x + 1" ?d] Suc.hyps(2) Suc.prems x by simp
qed

lemma rows_table:
  assumes "row_adder add rep p w h" "cells_ok cell w h" "\<forall>x y. 0 \<le> x \<and> x < w \<and> 0 \<le> y \<and> y < h \<longrightarrow> pix y x = Some (p y x)" "0 \<le> w"
    and "0 < y" "y \<le> h" "h * w \<le> int (length d)" "table_upto p w (y * w) d"
  shows "\<exists>d'. rows add cell pix w h y d = Some d' \<and> length d' = length d \<and> table_upto p w (h * w) d'"
  using assms(5-)
proof (induction "nat (h - y)" arbitrary: y d)
  case 0
  then show ?case by (subst rows.simps) auto
next
  case (Suc n)
  then have y: "y < h" by simp
  have "rep (area_sum p 0 y 0 1) = 0" using assms(1) by (simp add: row_adder_def)
  with next_row_table [OF assms(1,2), of "pix y" y 0 d] obtain d1 where
    d1: "next_row add cell (pix y) w y 0 0 d = Some d1" "length d1 = length d" "table_upto p w (y * w + w) d1"
    using assms(3,4) Suc.prems y by auto
  have "table_upto p w ((y + 1) * w) d1" using d1(3) by (simp add: algebra_simps)
  then show ?case using Suc.hyps(1) [of "y + 1" d1] Suc.hyps(2) Suc.prems y d1 by (simp add: rows.simps [of add cell pix w h y])
qed

lemma integral_table_correct:
  assumes "row_adder add rep p w h" "cells_ok cell w h" "\<forall>x y. 0 \<le> x \<and> x < w \<and> 0 \<le> y \<and> y < h \<longrightarrow> pix y x = Some (p y x)" "0 \<le> w" "0 < h"
    "h * w \<le> int (length d)"
  obtains d' where "integral_table add cell pix w h d = Some d'" "length d' = length d" "table_upto p w (h * w) d'"
proof -
  have "1 * w \<le> h * w" using assms(4,5) by (intro mult_right_mono) auto
  then have "w \<le> int (length d)" using assms(6) by simp
  moreover have "table_upto p w 0 d"
    unfolding table_upto_def using assms(4) mult_nonneg_nonneg [of _ w] by (metis add_nonneg_nonneg linorder_not_less)
  moreover have "rep (area_sum p 0 0 0 1) = 0" using assms(1) by (simp add: row_adder_def)
  ultimately obtain d1 where d1: "first_row add (pix 0) w 0 0 d = Some d1" "length d1 = length d" "table_upto p w w d1"
    using first_row_table [OF assms(1), of "pix 0" 0 d] assms(3-5) by auto
  with rows_table [OF assms(1-4), of 1 d1] assms(5,6) that show thesis by (auto simp: integral_table_def)
qed

subsection \<open>Looking up a rectangle\<close>

lemma lookup_table:
  assumes t: "table_upto p (ii_w tab) (ii_h tab * ii_w tab) (ii_data tab)" "ii_h tab * ii_w tab \<le> int (length (ii_data tab))"
      "ii_h tab * ii_w tab < 2 ^ 31"
    and r: "0 \<le> x" "0 \<le> y" "0 < w" "0 < h" "x + w \<le> ii_w tab" "y + h \<le> ii_h tab"
  shows "imlib_integral_lookup tab x y w h = Some (word_of_int (area_sum p x y w h))"
proof -
  have "ii_w tab * 1 \<le> ii_w tab * ii_h tab" "ii_h tab * 1 \<le> ii_h tab * ii_w tab" using r by (intro mult_left_mono; simp)+
  then have lim: "ii_w tab < 2 ^ 31" "ii_h tab < 2 ^ 31" using t(3) by (simp_all add: mult.commute)
  have at: "do { y1 \<leftarrow> int_of (j - 1); x1 \<leftarrow> int_of (i - 1); k \<leftarrow> cell_int (ii_w tab) y1 x1; aget (ii_data tab) k } =
      Some (word_of_int (area_sum p 0 0 i j))" if "0 < i" "i \<le> ii_w tab" "0 < j" "j \<le> ii_h tab" for i j
  proof -
    have "int_of (j - 1) = Some (j - 1)" "int_of (i - 1) = Some (i - 1)" using that lim by (simp_all add: int_of_def)
    moreover have "cell_int (ii_w tab) (j - 1) (i - 1) = Some ((j - 1) * ii_w tab + (i - 1))"
      using cells_int [of "i - 1" "ii_w tab" "j - 1" "ii_h tab"] that t(3) by simp
    moreover have "(j - 1) * ii_w tab + (i - 1) < ii_h tab * ii_w tab" using that cell_less [of "i - 1" "ii_w tab" "j - 1" "ii_h tab"] by simp
    moreover have "0 \<le> (j - 1) * ii_w tab" using that by simp
    ultimately show ?thesis using table_uptoD [OF t(1), of "i - 1" "j - 1"] t(2) that by (simp add: aget_def)
  qed
  have ends: "int_of (w + x) = Some (w + x)" "int_of (h + y) = Some (h + y)" using r lim by (simp_all add: int_of_def)
  have c: "word_of_int (area_sum p x y w h) = (word_of_int (area_sum p 0 0 (w + x) (h + y)) + word_of_int (area_sum p 0 0 x y)
      - word_of_int (area_sum p 0 0 (w + x) y) - word_of_int (area_sum p 0 0 x (h + y)) :: u32)"
    using area_corners [of x y w h p] r by simp
  consider "x = 0" "y = 0" | "0 < x" "y = 0" | "x = 0" "0 < y" | "0 < x" "0 < y" using r(1,2) by linarith
  then show ?thesis
  proof cases
    case 1
    then show ?thesis using at [of w h] r by (simp add: imlib_integral_lookup_def ends)
  next
    case 2
    then show ?thesis using at [of "w + x" h] at [of x h] c r by (simp add: imlib_integral_lookup_def ends)
  next
    case 3
    then show ?thesis using at [of w "h + y"] at [of w y] c r by (simp add: imlib_integral_lookup_def ends)
  next
    case 4
    then show ?thesis using at [of "w + x" "h + y"] at [of x y] at [of "w + x" y] at [of x "h + y"] c r
      by (simp add: imlib_integral_lookup_def Let_def ends)
  qed
qed

definition pixel :: "image_t \<Rightarrow> int \<Rightarrow> int \<Rightarrow> int" where
  "pixel src y x = uint (img_data src ! nat (y * img_w src + x))"

definition image_ok :: "image_t \<Rightarrow> bool" where
  "image_ok src \<longleftrightarrow> 0 < img_w src \<and> 0 < img_h src \<and> int (length (img_data src)) = img_h src * img_w src \<and>
     img_h src * img_w src < 2 ^ 31 \<and> img_w src * 255 < 2 ^ 31"

lemma aget_pixel:
  assumes "image_ok src" "0 \<le> x" "x < img_w src" "0 \<le> y" "y < img_h src"
  shows "aget (img_data src) (y * img_w src + x) = Some (img_data src ! nat (y * img_w src + x))"
    "cell_int (img_w src) y x = Some (y * img_w src + x)" "cell_uint32 (img_w src) y x = Some (y * img_w src + x)"
proof -
  have "0 \<le> y * img_w src" "y * img_w src + x < img_h src * img_w src" "img_h src * img_w src < 2 ^ 31"
    using assms cell_less [of x "img_w src" y "img_h src"] by (simp_all add: image_ok_def)
  then show "aget (img_data src) (y * img_w src + x) = Some (img_data src ! nat (y * img_w src + x))"
    "cell_int (img_w src) y x = Some (y * img_w src + x)" "cell_uint32 (img_w src) y x = Some (y * img_w src + x)"
    using assms cells_int [of x "img_w src" y "img_h src"] by (simp_all add: aget_def image_ok_def cell_uint32_def)
qed

lemma row_sum_bounds:
  assumes "\<forall>i. 0 \<le> p y i \<and> p y i \<le> 255" "0 \<le> x"
  shows "0 \<le> area_sum p 0 y x 1 \<and> area_sum p 0 y x 1 \<le> x * 255"
proof -
  have "{y..<y + 1} = {y}" by auto
  then have "area_sum p 0 y x 1 = (\<Sum>i\<in>{0..<x}. p y i)" by (simp add: area_sum_def)
  moreover have "(\<Sum>i\<in>{0..<x}. p y i) \<le> (\<Sum>i\<in>{0..<x}. 255)" by (rule sum_mono) (use assms in auto)
  moreover have "0 \<le> (\<Sum>i\<in>{0..<x}. p y i)" by (rule sum_nonneg) (use assms in auto)
  ultimately show ?thesis using assms(2) by simp
qed

lemma area_next: "0 \<le> x \<Longrightarrow> area_sum p 0 y (x + 1) 1 = area_sum p 0 y x 1 + p y x"
  using area_columns [of x 1 p 0 y 1] by simp

lemma int_row_adder:
  assumes "\<forall>y i. 0 \<le> p y i \<and> p y i \<le> 255" "w * 255 < 2 ^ 31"
  shows "row_adder add_int id p w h"
  unfolding row_adder_def
proof (intro conjI allI impI)
  fix x y assume xy: "0 \<le> x \<and> x < w \<and> 0 \<le> y \<and> y < h"
  then have "area_sum p 0 y (x + 1) 1 \<le> (x + 1) * 255" using row_sum_bounds [of p y "x + 1"] assms(1) by auto
  moreover have "(x + 1) * 255 \<le> w * 255" using xy by simp
  ultimately have "area_sum p 0 y (x + 1) 1 < 2 ^ 31" using assms(2) by linarith
  then show "add_int (id (area_sum p 0 y x 1)) (p y x) = Some (id (area_sum p 0 y (x + 1) 1))"
    using area_next [of x p y] row_sum_bounds [of p y "x + 1"] assms(1) xy by (simp add: add_int_def)
qed simp_all

lemma uint32_row_adder: "row_adder add_uint32 (\<lambda>a. a mod 2 ^ 32) p w h"
  unfolding row_adder_def
proof (intro conjI allI impI)
  fix a :: int
  show "word_of_int (a mod 2 ^ 32) = (word_of_int a :: u32)" by transfer (simp add: take_bit_eq_mod)
next
  fix x y assume "0 \<le> x \<and> x < w \<and> 0 \<le> y \<and> y < h"
  then show "add_uint32 (area_sum p 0 y x 1 mod 2 ^ 32) (p y x) = Some (area_sum p 0 y (x + 1) 1 mod 2 ^ 32)"
    using area_next [of x p y] by (simp add: add_uint32_def mod_add_left_eq)
qed simp

text \<open>
  \<^bold>\<open>C19\<close>: Integral images. For every image of fewer than \<open>2\<^sup>3\<^sup>1\<close> pixels whose rows add up in an \<^verbatim>\<open>int\<close> and every rectangle inside it, \<^verbatim>\<open>imlib_integral_lookup\<close> on the table made by
  \<^verbatim>\<open>imlib_integral_image\<close> is the sum of the pixels in the rectangle, and on the table of \<^verbatim>\<open>imlib_integral_image_sq\<close> the sum of
  their squares, modulo \<open>2\<^sup>3\<^sup>2\<close>; no access is outside the image or the table.
\<close>

theorem integral_lookup_sums:
  assumes "image_ok src" "ii_w tab = img_w src" "ii_h tab = img_h src" "length (ii_data tab) = length (img_data src)"
    and "0 \<le> x" "0 \<le> y" "0 < w" "0 < h" "x + w \<le> img_w src" "y + h \<le> img_h src"
  shows "\<exists>t q. imlib_integral_image src tab = Some t \<and> imlib_integral_image_sq src tab = Some q \<and>
     imlib_integral_lookup t x y w h = Some (word_of_int (area_sum (pixel src) x y w h)) \<and>
     imlib_integral_lookup q x y w h = Some (word_of_int (area_sum (\<lambda>j i. pixel src j i * pixel src j i) x y w h))"
proof -
  have src: "0 < img_w src" "0 < img_h src" "img_h src * img_w src \<le> int (length (ii_data tab))" "img_w src * 255 < 2 ^ 31"
    "img_h src * img_w src < 2 ^ 31"
    using assms(1,4) by (simp_all add: image_ok_def)
  have "img_h src \<le> img_h src * img_w src" using mult_left_mono [of 1 "img_w src" "img_h src"] src(1,2) by simp
  then have "img_h src < 2 ^ 31" "img_w src < 2 ^ 31" using src(1,4,5) by linarith+
  then have m: "img_w src mod 2 ^ 32 = img_w src" "img_h src mod 2 ^ 32 = img_h src" using src(1,2) by simp_all
  have "uint v \<le> 255" for v :: u8 using uint_lt2p [of v] by simp
  then have "\<forall>y i. 0 \<le> pixel src y i \<and> pixel src y i \<le> 255" by (simp add: pixel_def)
  then have a: "row_adder add_int id (pixel src) (img_w src) (img_h src)" using int_row_adder src(4) by blast
  let ?pix = "\<lambda>y x. do { i \<leftarrow> cell_int (img_w src) y x; map_option uint (aget (img_data src) i) }"
  let ?sq = "\<lambda>y x. do { i \<leftarrow> cell_uint32 (img_w src) y x; map_option (\<lambda>p. uint p * uint p) (aget (img_data src) i) }"
  obtain d where d: "integral_table add_int cell_int ?pix (img_w src) (img_h src) (ii_data tab) = Some d"
      "length d = length (ii_data tab)" "table_upto (pixel src) (img_w src) (img_h src * img_w src) d"
    by (rule integral_table_correct [OF a cells_ok_int [OF src(5)], of ?pix "ii_data tab"])
      (use aget_pixel [OF assms(1)] src in \<open>auto simp: pixel_def\<close>)
  obtain e where e: "integral_table add_uint32 cell_uint32 ?sq (img_w src) (img_h src) (ii_data tab) = Some e"
      "length e = length (ii_data tab)" "table_upto (\<lambda>j i. pixel src j i * pixel src j i) (img_w src) (img_h src * img_w src) e"
    by (rule integral_table_correct [OF uint32_row_adder cells_ok_uint32, of "img_h src" "img_w src" ?sq
        "\<lambda>j i. pixel src j i * pixel src j i" "ii_data tab"])
      (use aget_pixel [OF assms(1)] src in \<open>auto simp: pixel_def\<close>)
  have "imlib_integral_lookup (tab\<lparr>ii_data := d\<rparr>) x y w h = Some (word_of_int (area_sum (pixel src) x y w h))"
    by (rule lookup_table) (use d assms src in auto)
  moreover have "imlib_integral_lookup (tab\<lparr>ii_data := e\<rparr>) x y w h = Some (word_of_int (area_sum (\<lambda>j i. pixel src j i * pixel src j i) x y w h))"
    by (rule lookup_table) (use e assms src in auto)
  ultimately show ?thesis using d(1) e(1) m by (simp add: imlib_integral_image_def imlib_integral_image_sq_def)
qed

subsection \<open>The scaled table\<close>

text \<open>Where the source is not smaller than about a 256th of the table, the fixed-point positions stay inside it.\<close>

lemma scaled_position:
  fixes x n k :: int
  assumes "0 \<le> x" "x < n" "n * n \<le> k * 65536"
  shows "0 \<le> x * (k * 65536 div n + 1)" "x * (k * 65536 div n + 1) < k * 65536"
proof -
  let ?q = "k * 65536 div n"
  have n: "0 < n" using assms by simp
  have "n * n div n \<le> ?q" by (rule zdiv_mono1 [OF assms(3) n])
  then have q: "n \<le> ?q" using n by simp
  then show "0 \<le> x * (?q + 1)" using assms(1) n by simp
  have "x * (?q + 1) \<le> (n - 1) * (?q + 1)" using assms q n by (intro mult_right_mono) auto
  also have "\<dots> = n * ?q - ?q + n - 1" by (simp add: algebra_simps)
  also have "\<dots> < n * ?q" using q by simp
  also have "\<dots> \<le> k * 65536" using mult_div_mod_eq [of n "k * 65536"] pos_mod_sign [OF n, of "k * 65536"] by linarith
  finally show "x * (?q + 1) < k * 65536" .
qed

definition sample :: "int \<Rightarrow> int \<Rightarrow> int \<Rightarrow> int" where
  "sample k n x = (x * (k * 65536 div n + 1)) div 65536"

lemma sample_bounds:
  assumes "0 \<le> x" "x < n" "n * n \<le> k * 65536"
  shows "0 \<le> sample k n x" "sample k n x < k"
  using scaled_position [OF assms] by (simp_all add: sample_def div_less_iff_less_mult pos_imp_zdiv_nonneg_iff)

lemma scale_ratio_Some:
  assumes "0 < k" "k < 2 ^ 15" "0 < n"
  shows "scale_ratio k n = Some (k * 65536 div n + 1)"
proof -
  have "k * 65536 div n \<le> k * 65536" using zdiv_mono2 [of "k * 65536" 1 n] assms by simp
  moreover have "0 \<le> k * 65536 div n" using assms by (simp add: pos_imp_zdiv_nonneg_iff)
  moreover have "k * 65536 sdiv n = k * 65536 div n" using assms by (simp add: signed_divide_int_def)
  ultimately show ?thesis using assms by (simp add: scale_ratio_def mul_int_def)
qed

lemma integral_scaled_sums:
  assumes src: "image_ok src" "img_w src < 2 ^ 15" "img_h src < 2 ^ 15"
    and tab: "0 < ii_w tab" "0 < ii_h tab" "int (length (ii_data tab)) = ii_h tab * ii_w tab"
      "ii_h tab * ii_w tab < 2 ^ 31" "ii_w tab * ii_w tab \<le> img_w src * 65536" "ii_h tab * ii_h tab \<le> img_h src * 65536"
    and r: "0 \<le> x" "0 \<le> y" "0 < w" "0 < h" "x + w \<le> ii_w tab" "y + h \<le> ii_h tab"
  shows "\<exists>t. imlib_integral_image_scaled src tab = Some t \<and> imlib_integral_lookup t x y w h =
     Some (word_of_int (area_sum (\<lambda>j i. pixel src (sample (img_h src) (ii_h tab) j) (sample (img_w src) (ii_w tab) i)) x y w h))"
proof -
  let ?p = "\<lambda>j i. pixel src (sample (img_h src) (ii_h tab) j) (sample (img_w src) (ii_w tab) i)"
  let ?rx = "img_w src * 65536 div ii_w tab + 1" and ?ry = "img_h src * 65536 div ii_h tab + 1"
  let ?pix = "\<lambda>y x. do { sy \<leftarrow> mul_int y ?ry; sx \<leftarrow> mul_int x ?rx;
                i \<leftarrow> cell_int (img_w src) (sy div 2 ^ 16) (sx div 2 ^ 16); map_option uint (aget (img_data src) i) }"
  have ratio: "scale_ratio (img_w src) (ii_w tab) = Some ?rx" "scale_ratio (img_h src) (ii_h tab) = Some ?ry"
    using src tab(1,2) by (simp_all add: scale_ratio_Some image_ok_def)
  have "uint v \<le> 255" for v :: u8 using uint_lt2p [of v] by simp
  then have b: "\<forall>y i. 0 \<le> ?p y i \<and> ?p y i \<le> 255" by (simp add: pixel_def)
  have "ii_w tab * 255 < 2 ^ 31"
  proof (rule ccontr)
    assume "\<not> ii_w tab * 255 < 2 ^ 31"
    then have "2 ^ 23 \<le> ii_w tab" by simp
    then have "(2 ^ 23) * (2 ^ 23) \<le> ii_w tab * ii_w tab" by (intro mult_mono) auto
    then show False using tab(5) src(2) by simp
  qed
  with int_row_adder [OF b] have a: "row_adder add_int id ?p (ii_w tab) (ii_h tab)" by blast
  have pix: "?pix y x = Some (?p y x)" if "0 \<le> x \<and> x < ii_w tab \<and> 0 \<le> y \<and> y < ii_h tab" for x y
  proof -
    have "mul_int y ?ry = Some (y * ?ry)" "mul_int x ?rx = Some (x * ?rx)"
      using scaled_position [of x "ii_w tab" "img_w src"] scaled_position [of y "ii_h tab" "img_h src"] that tab(5,6) src(2,3)
      by (simp_all add: mul_int_def)
    moreover have "cell_int (img_w src) (sample (img_h src) (ii_h tab) y) (sample (img_w src) (ii_w tab) x) =
        Some (sample (img_h src) (ii_h tab) y * img_w src + sample (img_w src) (ii_w tab) x)"
      "aget (img_data src) (sample (img_h src) (ii_h tab) y * img_w src + sample (img_w src) (ii_w tab) x) =
        Some (img_data src ! nat (sample (img_h src) (ii_h tab) y * img_w src + sample (img_w src) (ii_w tab) x))"
      using aget_pixel [OF src(1)] sample_bounds [of x "ii_w tab" "img_w src"] sample_bounds [of y "ii_h tab" "img_h src"] that tab(5,6) by simp_all
    ultimately show ?thesis by (simp add: sample_def pixel_def)
  qed
  obtain d where d: "integral_table add_int cell_int ?pix (ii_w tab) (ii_h tab) (ii_data tab) = Some d" "length d = length (ii_data tab)"
      "table_upto ?p (ii_w tab) (ii_h tab * ii_w tab) d"
    by (rule integral_table_correct [OF a cells_ok_int [OF tab(4)], of ?pix "ii_data tab"]) (use pix tab in auto)
  have "imlib_integral_image_scaled src tab = Some (tab\<lparr>ii_data := d\<rparr>)"
    using ratio d(1) by (simp add: imlib_integral_image_scaled_def)
  moreover have "imlib_integral_lookup (tab\<lparr>ii_data := d\<rparr>) x y w h = Some (word_of_int (area_sum ?p x y w h))"
    by (rule lookup_table) (use d r tab in auto)
  ultimately show ?thesis by blast
qed

definition ex_image :: image_t where
  "ex_image = \<lparr>img_w = 3, img_h = 2, img_bpp = 1, img_data = [1, 2, 3, 4, 5, 6], img_ai_pixels = None\<rparr>"

theorem integral_lookup_sums_witness:
  "\<exists>t. imlib_integral_image ex_image \<lparr>ii_w = 3, ii_h = 2, ii_data = replicate 6 0\<rparr> = Some t \<and> imlib_integral_lookup t 1 0 2 2 = Some 16"
proof -
  have "{0..<2} = {0, 1 :: int}" "{1..<3} = {1, 2 :: int}" by auto
  then have "area_sum (pixel ex_image) 1 0 2 2 = 16" by (simp add: area_sum_def pixel_def ex_image_def)
  then show ?thesis
    using integral_lookup_sums [of ex_image "\<lparr>ii_w = 3, ii_h = 2, ii_data = replicate 6 0\<rparr>" 1 0 2 2]
    by (auto simp: image_ok_def ex_image_def)
qed

end
