(* ===== verification/Fb_Alloc.thy ===== *)
theory Fb_Alloc
  imports Refinement "HOL-Library.Multiset"
begin

text \<open>
  The stack of temporary buffers of the image algorithms (\<^verbatim>\<open>omv/fb_alloc.c\<close>): a table of twelve blocks obtained from
  \<^verbatim>\<open>malloc\<close>, with a count that orders them and a mark level. An operation returns the addresses it passes to
  \<^verbatim>\<open>free\<close>; the result of \<^verbatim>\<open>malloc\<close> is an argument.
\<close>

record fb_alloc_addr_info_t =
  fi_valid :: bool
  fi_count :: u16
  fi_mark :: u16
  fi_permanent :: bool
  fi_p :: "nat option"

record fb_state =
  m_fb_alloc_addr :: "fb_alloc_addr_info_t list"
  m_count_max_now :: u16
  m_mark_max_now :: u16

datatype fb_result = Pointer "nat option" | Out_of_memory | Too_many

definition fb_alloc_init0 :: fb_state where
  "fb_alloc_init0 = \<lparr>m_fb_alloc_addr = replicate 12 \<lparr>fi_valid = False, fi_count = 0, fi_mark = 0, fi_permanent = False, fi_p = None\<rparr>,
     m_count_max_now = 0, m_mark_max_now = 0\<rparr>"

definition fb_alloc_mark :: "fb_state \<Rightarrow> fb_state" where
  "fb_alloc_mark s = s\<lparr>m_mark_max_now := m_mark_max_now s + 1\<rparr>"

text \<open>The loop of \<^verbatim>\<open>int_fb_alloc_free_till_mark\<close>: the count, the table, the addresses freed.\<close>

fun free_marked :: "bool \<Rightarrow> u16 \<Rightarrow> u16 \<Rightarrow> fb_alloc_addr_info_t list \<Rightarrow> u16 \<times> fb_alloc_addr_info_t list \<times> nat option list" where
  "free_marked free_permanent mark cnt [] = (cnt, [], [])"
| "free_marked free_permanent mark cnt (e # es) =
     (if fi_valid e \<and> fi_mark e = mark
      then if \<not> free_permanent \<and> fi_permanent e
           then (let (cnt1, es1, fs) = free_marked free_permanent mark (cnt - 1) es in (cnt1, e # es1, fs))
           else (let (cnt1, es1, fs) = free_marked free_permanent mark (cnt - 1) es
                 in (cnt1, e\<lparr>fi_p := None, fi_valid := False, fi_permanent := False\<rparr> # es1, fi_p e # fs))
      else (let (cnt1, es1, fs) = free_marked free_permanent mark cnt es in (cnt1, e # es1, fs)))"

definition int_fb_alloc_free_till_mark :: "bool \<Rightarrow> fb_state \<Rightarrow> nat option list \<times> fb_state" where
  "int_fb_alloc_free_till_mark free_permanent s =
     (let (cnt, es, fs) = free_marked free_permanent (m_mark_max_now s) (m_count_max_now s) (m_fb_alloc_addr s)
      in (fs, s\<lparr>m_fb_alloc_addr := es, m_count_max_now := cnt, m_mark_max_now := m_mark_max_now s - 1\<rparr>))"

definition fb_alloc_free_till_mark :: "fb_state \<Rightarrow> nat option list \<times> fb_state" where
  "fb_alloc_free_till_mark s = int_fb_alloc_free_till_mark False s"

definition fb_alloc_free_till_mark_past_mark_permanent :: "fb_state \<Rightarrow> nat option list \<times> fb_state" where
  "fb_alloc_free_till_mark_past_mark_permanent s = int_fb_alloc_free_till_mark True s"

text \<open>The search for a free slot; the flag \<^verbatim>\<open>permanent\<close> of the slot stays as it is.\<close>

fun take_slot :: "nat \<Rightarrow> u16 \<Rightarrow> u16 \<Rightarrow> fb_alloc_addr_info_t list \<Rightarrow> fb_alloc_addr_info_t list option" where
  "take_slot p mark cnt [] = None"
| "take_slot p mark cnt (e # es) =
     (if \<not> fi_valid e then Some (e\<lparr>fi_valid := True, fi_p := Some p, fi_mark := mark, fi_count := cnt\<rparr> # es)
      else map_option ((#) e) (take_slot p mark cnt es))"

definition fb_enter :: "nat \<Rightarrow> fb_state \<Rightarrow> fb_result \<times> nat option list \<times> fb_state" where
  "fb_enter p s =
     (case take_slot p (m_mark_max_now s) (m_count_max_now s + 1) (m_fb_alloc_addr s) of
        None \<Rightarrow> (Too_many, [Some p], s)
      | Some es \<Rightarrow> (Pointer (Some p), [], s\<lparr>m_fb_alloc_addr := es, m_count_max_now := m_count_max_now s + 1\<rparr>))"

text \<open>\<open>malloc\<close> is the result of \<^verbatim>\<open>malloc\<close> for the size rounded up.\<close>

definition round_up :: "u32 \<Rightarrow> u32" where
  "round_up sz = ucast ((ucast sz + 4 - 1 :: u64) div 4 * 4)"

definition fb_alloc :: "u32 \<Rightarrow> (u32 \<Rightarrow> nat option) \<Rightarrow> fb_state \<Rightarrow> fb_result \<times> nat option list \<times> fb_state" where
  "fb_alloc sz malloc s =
     (if sz = 0 then (Pointer None, [], s)
      else case malloc (round_up sz) of
             None \<Rightarrow> (Out_of_memory, [], s)
           | Some p \<Rightarrow> fb_enter p s)"

definition fb_alloc_all :: "u32 \<Rightarrow> (u32 \<Rightarrow> nat option) \<Rightarrow> fb_state \<Rightarrow> fb_result \<times> nat option list \<times> fb_state" where
  "fb_alloc_all OMV_FB_ALLOC_SIZE malloc s =
     (case malloc OMV_FB_ALLOC_SIZE of
        None \<Rightarrow> (Out_of_memory, [], s)
      | Some p \<Rightarrow> fb_enter p s)"

fun free_last :: "u16 \<Rightarrow> fb_alloc_addr_info_t list \<Rightarrow> (nat option \<times> fb_alloc_addr_info_t list) option" where
  "free_last cnt [] = None"
| "free_last cnt (e # es) =
     (if fi_valid e \<and> fi_count e = cnt then Some (fi_p e, e\<lparr>fi_p := None, fi_valid := False\<rparr> # es)
      else map_option (\<lambda>(p, es1). (p, e # es1)) (free_last cnt es))"

definition fb_free :: "fb_state \<Rightarrow> nat option list \<times> fb_state" where
  "fb_free s =
     (case free_last (m_count_max_now s) (m_fb_alloc_addr s) of
        None \<Rightarrow> ([], s)
      | Some (p, es) \<Rightarrow> ([p], s\<lparr>m_fb_alloc_addr := es, m_count_max_now := m_count_max_now s - 1\<rparr>))"

definition fb_free_all :: "fb_state \<Rightarrow> nat option list \<times> fb_state" where
  "fb_free_all s =
     (map fi_p (filter fi_valid (m_fb_alloc_addr s)),
      s\<lparr>m_fb_alloc_addr := map (\<lambda>e. if fi_valid e then e\<lparr>fi_p := None, fi_valid := False\<rparr> else e) (m_fb_alloc_addr s),
        m_count_max_now := 0, m_mark_max_now := 0\<rparr>)"

definition fb_alloc_mark_permanent :: "fb_state \<Rightarrow> fb_state" where
  "fb_alloc_mark_permanent s =
     s\<lparr>m_fb_alloc_addr := map (\<lambda>e. if fi_mark e = m_mark_max_now s then e\<lparr>fi_permanent := True\<rparr> else e) (m_fb_alloc_addr s)\<rparr>"

subsection \<open>The stack in the table\<close>

abbreviation cnt :: "fb_alloc_addr_info_t \<Rightarrow> nat" where "cnt e \<equiv> unat (fi_count e)"

definition entries :: "fb_state \<Rightarrow> fb_alloc_addr_info_t list" where
  "entries s = sort_key cnt (filter fi_valid (m_fb_alloc_addr s))"

text \<open>Oldest block first: its address and mark level; and the current level.\<close>

type_synonym fb_stack = "(nat \<times> nat) list \<times> nat"

definition fb_abs :: "fb_state \<Rightarrow> fb_stack" where
  "fb_abs s = (map (\<lambda>e. (the (fi_p e), unat (fi_mark e))) (entries s), unat (m_mark_max_now s))"

definition fb_inv :: "fb_state \<Rightarrow> bool" where
  "fb_inv s \<longleftrightarrow> length (m_fb_alloc_addr s) = 12 \<and> map cnt (entries s) = [1..<Suc (unat (m_count_max_now s))] \<and>
     (\<forall>e \<in> set (m_fb_alloc_addr s). \<not> fi_permanent e) \<and> (\<forall>e \<in> set (entries s). fi_p e \<noteq> None \<and> fi_mark e \<le> m_mark_max_now s) \<and>
     sorted (map (unat \<circ> fi_mark) (entries s))"

lemma fb_init_inv: "fb_inv fb_alloc_init0" "fb_abs fb_alloc_init0 = ([], 0)"
  by (simp_all add: fb_inv_def fb_abs_def entries_def fb_alloc_init0_def)

lemma entries_eqI:
  assumes "mset (filter fi_valid (m_fb_alloc_addr s)) = mset xs" "map cnt xs = [m..<n]"
  shows "entries s = xs"
proof -
  have d: "distinct (map cnt xs)" using assms(2) by simp
  have "set (filter fi_valid (m_fb_alloc_addr s)) = set xs" using assms(1) by (metis set_mset_mset)
  then have "inj_on cnt (set (filter fi_valid (m_fb_alloc_addr s)))" using d by (simp add: distinct_map)
  then show ?thesis unfolding entries_def using assms by (intro sort_key_inj_key_eq) auto
qed

lemma mset_entries: "mset (entries s) = mset (filter fi_valid (m_fb_alloc_addr s))"
  by (simp add: entries_def)

lemma fb_count:
  assumes "fb_inv s"
  shows "length (entries s) = unat (m_count_max_now s)" "length (entries s) \<le> 12"
proof -
  have "length (map cnt (entries s)) = length [1..<Suc (unat (m_count_max_now s))]" using assms by (metis fb_inv_def)
  then show "length (entries s) = unat (m_count_max_now s)" by simp
  have "length (entries s) = length (filter fi_valid (m_fb_alloc_addr s))" by (simp add: entries_def)
  also have "\<dots> \<le> 12" using assms length_filter_le [of fi_valid "m_fb_alloc_addr s"] by (simp add: fb_inv_def)
  finally show "length (entries s) \<le> 12" .
qed

text \<open>What the loops do to the valid entries.\<close>

lemma take_slot_None: "take_slot p mark c es = None \<longleftrightarrow> list_all fi_valid es"
  by (induction es) auto

lemma take_slot_Some:
  "take_slot p mark c es = Some es' \<Longrightarrow>
   \<exists>e \<in> set es. \<not> fi_valid e \<and> length es' = length es \<and> set es' \<subseteq> insert (e\<lparr>fi_valid := True, fi_p := Some p, fi_mark := mark, fi_count := c\<rparr>) (set es) \<and>
     mset (filter fi_valid es') = add_mset (e\<lparr>fi_valid := True, fi_p := Some p, fi_mark := mark, fi_count := c\<rparr>) (mset (filter fi_valid es))"
proof (induction es arbitrary: es')
  case (Cons e es)
  show ?case
  proof (cases "fi_valid e")
    case False
    then show ?thesis using Cons.prems by (intro bexI [of _ e]) auto
  next
    case True
    then obtain es1 where "es' = e # es1" "take_slot p mark c es = Some es1" using Cons.prems by auto
    then show ?thesis using Cons.IH [of es1] True by auto
  qed
qed simp

lemma free_last_None: "free_last c es = None \<longleftrightarrow> (\<forall>e \<in> set es. fi_valid e \<longrightarrow> fi_count e \<noteq> c)"
  by (induction es) auto

lemma free_last_Some:
  "free_last c es = Some (q, es') \<Longrightarrow>
   \<exists>e \<in> set es. fi_valid e \<and> fi_count e = c \<and> q = fi_p e \<and> length es' = length es \<and>
     set es' \<subseteq> insert (e\<lparr>fi_p := None, fi_valid := False\<rparr>) (set es) \<and>
     mset (filter fi_valid es) = add_mset e (mset (filter fi_valid es'))"
proof (induction es arbitrary: es')
  case (Cons e es)
  show ?case
  proof (cases "fi_valid e \<and> fi_count e = c")
    case True
    then show ?thesis using Cons.prems by (intro bexI [of _ e]) auto
  next
    case False
    then obtain es1 where "es' = e # es1" "free_last c es = Some (q, es1)" using Cons.prems by auto
    then show ?thesis using Cons.IH [of es1] False by auto
  qed
qed simp

lemma free_marked_result:
  "free_marked fp mark c es = (c', es', fs) \<Longrightarrow> \<forall>e \<in> set es. \<not> fi_permanent e \<Longrightarrow>
   length es' = length es \<and> (\<forall>e \<in> set es'. \<not> fi_permanent e) \<and> c' = c - of_nat (length fs) \<and>
   filter fi_valid es' = filter (\<lambda>e. fi_mark e \<noteq> mark) (filter fi_valid es) \<and>
   fs = map fi_p (filter (\<lambda>e. fi_mark e = mark) (filter fi_valid es))"
proof (induction es arbitrary: c c' es' fs)
  case (Cons e es)
  obtain c1 es1 fs1 where r: "free_marked fp mark (if fi_valid e \<and> fi_mark e = mark then c - 1 else c) es = (c1, es1, fs1)"
    by (cases "free_marked fp mark (if fi_valid e \<and> fi_mark e = mark then c - 1 else c) es")
  show ?case using Cons.IH [OF r] Cons.prems r by (auto split: if_splits)
qed simp

subsection \<open>The operations on the stack\<close>

lemma fb_push:
  assumes "fb_inv s" "fb_enter p s = (Pointer (Some q), fs, s')"
  shows "fb_inv s' \<and> q = p \<and> fs = [] \<and> length (fst (fb_abs s)) < 12 \<and> fb_abs s' = (fst (fb_abs s) @ [(p, snd (fb_abs s))], snd (fb_abs s))"
proof -
  let ?c = "m_count_max_now s + 1"
  obtain es where es: "take_slot p (m_mark_max_now s) ?c (m_fb_alloc_addr s) = Some es" and r: "q = p" "fs = []"
      "s' = s\<lparr>m_fb_alloc_addr := es, m_count_max_now := ?c\<rparr>"
    using assms(2) by (auto simp: fb_enter_def split: option.splits)
  obtain e0 where e0: "e0 \<in> set (m_fb_alloc_addr s)" "\<not> fi_valid e0" "length es = length (m_fb_alloc_addr s)"
    and "set es \<subseteq> insert (e0\<lparr>fi_valid := True, fi_p := Some p, fi_mark := m_mark_max_now s, fi_count := ?c\<rparr>) (set (m_fb_alloc_addr s))"
      "mset (filter fi_valid es) = add_mset (e0\<lparr>fi_valid := True, fi_p := Some p, fi_mark := m_mark_max_now s, fi_count := ?c\<rparr>) (mset (filter fi_valid (m_fb_alloc_addr s)))"
    using take_slot_Some [OF es] by blast
  moreover define e where "e = e0\<lparr>fi_valid := True, fi_p := Some p, fi_mark := m_mark_max_now s, fi_count := ?c\<rparr>"
  ultimately have m: "mset (filter fi_valid es) = mset (entries s @ [e])" "set es \<subseteq> insert e (set (m_fb_alloc_addr s))"
    by (simp_all add: mset_entries)
  have "length (filter fi_valid (m_fb_alloc_addr s)) < length (m_fb_alloc_addr s)" using e0(1,2) by (intro length_filter_less [of e0]) auto
  then have "length (filter fi_valid (m_fb_alloc_addr s)) < 12" using assms(1) by (simp add: fb_inv_def)
  then have l: "length (entries s) < 12" by (simp add: entries_def)
  have c: "unat ?c = Suc (unat (m_count_max_now s))"
    using fb_count(1) [OF assms(1)] l by (simp add: unat_Suc_u16 word_less_nat_alt)
  have cs: "map cnt (entries s @ [e]) = [1..<Suc (unat ?c)]" using assms(1) c by (simp add: fb_inv_def e_def)
  have ent: "entries s' = entries s @ [e]" by (rule entries_eqI [OF _ cs]) (simp add: r(3) m(1) del: mset_filter)
  have "fb_inv s'"
    using assms(1) cs m(2) e0 unfolding fb_inv_def ent
    by (auto simp: r(3) e_def sorted_append word_le_nat_alt)
  moreover have "fb_abs s' = (fst (fb_abs s) @ [(p, snd (fb_abs s))], snd (fb_abs s))" by (simp add: fb_abs_def ent) (simp add: r(3) e_def)
  ultimately show ?thesis using r l by (simp add: fb_abs_def)
qed

lemma fb_pop:
  assumes "fb_inv s" "fb_free s = (fs, s')"
  shows "fb_inv s' \<and> (if fst (fb_abs s) = [] then fs = [] \<and> s' = s
     else fs = [Some (fst (last (fst (fb_abs s))))] \<and> fb_abs s' = (butlast (fst (fb_abs s)), snd (fb_abs s)))"
proof (cases "entries s = []")
  case True
  then have "filter fi_valid (m_fb_alloc_addr s) = []" using mset_entries [of s] by simp
  then have "free_last (m_count_max_now s) (m_fb_alloc_addr s) = None" by (auto simp: free_last_None filter_empty_conv)
  then show ?thesis using True assms by (auto simp: fb_free_def fb_abs_def)
next
  case False
  let ?n = "unat (m_count_max_now s)"
  obtain xs x where xs: "entries s = xs @ [x]" using False by (metis append_butlast_last_id)
  have n: "?n = Suc (length xs)" using fb_count(1) [OF assms(1)] xs by simp
  have cs: "map cnt xs = [1..<?n]" "cnt x = ?n" using assms(1) xs n by (simp_all add: fb_inv_def)
  have set: "set (entries s) = set (filter fi_valid (m_fb_alloc_addr s))" using mset_entries by (metis set_mset_mset)
  have cx: "fi_count x = m_count_max_now s" using cs(2) by (simp add: word_unat_eq_iff)
  have "x \<in> set (m_fb_alloc_addr s)" "fi_valid x" using set xs by auto
  then obtain q es where q: "free_last (m_count_max_now s) (m_fb_alloc_addr s) = Some (q, es)"
    using cx free_last_None [of "m_count_max_now s" "m_fb_alloc_addr s"] by (cases "free_last (m_count_max_now s) (m_fb_alloc_addr s)") auto
  obtain e where e: "e \<in> set (m_fb_alloc_addr s)" "fi_valid e" "fi_count e = m_count_max_now s" "q = fi_p e" "length es = length (m_fb_alloc_addr s)"
      "set es \<subseteq> insert (e\<lparr>fi_p := None, fi_valid := False\<rparr>) (set (m_fb_alloc_addr s))"
      "mset (filter fi_valid (m_fb_alloc_addr s)) = add_mset e (mset (filter fi_valid es))"
    using free_last_Some [OF q] by blast
  have "e \<in> set (entries s)" using e(1,2) set by simp
  moreover have "e \<notin> set xs"
  proof
    assume "e \<in> set xs"
    then have "cnt e \<in> set (map cnt xs)" by simp
    then show False using cs(1) e(3) by simp
  qed
  ultimately have "e = x" using xs by simp
  then have m: "mset (filter fi_valid es) = mset xs" using e(7) mset_entries [of s] xs by simp
  have s': "fs = [q]" "s' = s\<lparr>m_fb_alloc_addr := es, m_count_max_now := m_count_max_now s - 1\<rparr>" using assms(2) q by (auto simp: fb_free_def)
  have "0 < m_count_max_now s" using n by (simp add: unat_gt_0 word_gt_0 [symmetric] word_less_nat_alt)
  then have c: "Suc (unat (m_count_max_now s - 1)) = ?n" using unat_pred [of "m_count_max_now s"] n by simp
  have ent: "entries s' = xs" by (rule entries_eqI [OF _ cs(1)]) (simp add: s'(2) m del: mset_filter)
  have "fb_inv s'"
    unfolding fb_inv_def ent using assms(1) c cs(1) e(1,5,6) xs
    by (auto simp: s'(2) fb_inv_def sorted_append)
  moreover have "fs = [Some (fst (last (fst (fb_abs s))))]"
    using s'(1) e(4) \<open>e = x\<close> assms(1) xs by (auto simp: fb_abs_def fb_inv_def)
  moreover have "fb_abs s' = (butlast (fst (fb_abs s)), snd (fb_abs s))" by (simp add: fb_abs_def ent xs map_butlast [symmetric]) (simp add: s'(2))
  ultimately show ?thesis using False by (simp add: fb_abs_def)
qed

lemma sorted_split_level:
  assumes "sorted (map l xs)" "\<forall>x \<in> set xs. l x \<le> (m :: nat)"
  shows "filter (\<lambda>x. l x \<noteq> m) xs = takeWhile (\<lambda>x. l x < m) xs" "filter (\<lambda>x. l x = m) xs = dropWhile (\<lambda>x. l x < m) xs"
proof -
  have "filter (\<lambda>x. l x \<noteq> m) xs = takeWhile (\<lambda>x. l x < m) xs \<and> filter (\<lambda>x. l x = m) xs = dropWhile (\<lambda>x. l x < m) xs"
    using assms
  proof (induction xs)
    case (Cons x xs)
    show ?case
    proof (cases "l x < m")
      case False
      then have x: "l x = m" "\<forall>y \<in> set xs. l y = m" using Cons.prems by (auto intro: antisym)
      then have "filter (\<lambda>x. l x \<noteq> m) xs = []" "filter (\<lambda>x. l x = m) xs = xs" by (auto simp: filter_empty_conv filter_id_conv)
      then show ?thesis using x by simp
    qed (use Cons in auto)
  qed simp
  then show "filter (\<lambda>x. l x \<noteq> m) xs = takeWhile (\<lambda>x. l x < m) xs" "filter (\<lambda>x. l x = m) xs = dropWhile (\<lambda>x. l x < m) xs" by simp_all
qed

lemma fb_pop_mark:
  assumes "fb_inv s" "0 < m_mark_max_now s" "int_fb_alloc_free_till_mark fp s = (fs, s')"
  shows "fb_inv s' \<and> (let (st, m) = fb_abs s in
     fb_abs s' = (takeWhile (\<lambda>b. snd b < m) st, m - 1) \<and> mset fs = mset (map (Some \<circ> fst) (dropWhile (\<lambda>b. snd b < m) st)))"
proof -
  let ?m = "m_mark_max_now s" and ?V = "filter fi_valid (m_fb_alloc_addr s)"
  define lo where "lo = takeWhile (\<lambda>e. unat (fi_mark e) < unat ?m) (entries s)"
  define hi where "hi = dropWhile (\<lambda>e. unat (fi_mark e) < unat ?m) (entries s)"
  obtain c es where r: "free_marked fp ?m (m_count_max_now s) (m_fb_alloc_addr s) = (c, es, fs)"
      "s' = s\<lparr>m_fb_alloc_addr := es, m_count_max_now := c, m_mark_max_now := ?m - 1\<rparr>"
    using assms(3) by (auto simp: int_fb_alloc_free_till_mark_def split: prod.splits)
  have "\<forall>e \<in> set (m_fb_alloc_addr s). \<not> fi_permanent e" using assms(1) by (simp add: fb_inv_def)
  note f = free_marked_result [OF r(1) this]
  have e: "entries s = lo @ hi" by (simp add: lo_def hi_def)
  have "\<forall>e \<in> set (entries s). unat (fi_mark e) \<le> unat ?m" using assms(1) by (simp add: fb_inv_def word_le_nat_alt)
  moreover have "sorted (map (\<lambda>e. unat (fi_mark e)) (entries s))" using assms(1) by (simp add: fb_inv_def comp_def)
  ultimately have parts: "filter (\<lambda>e. fi_mark e \<noteq> ?m) (entries s) = lo" "filter (\<lambda>e. fi_mark e = ?m) (entries s) = hi"
    using sorted_split_level [of "\<lambda>e. unat (fi_mark e)" "entries s" "unat ?m"] by (simp_all add: lo_def hi_def word_unat_eq_iff)
  have filt: "mset (filter P ?V) = mset (filter P (entries s))" for P by (metis mset_entries mset_filter)
  have m: "mset (filter fi_valid es) = mset lo" "mset fs = mset (map fi_p hi)"
    using f filt [of "\<lambda>e. fi_mark e \<noteq> ?m"] filt [of "\<lambda>e. fi_mark e = ?m"] parts by (simp_all del: mset_filter)
  have n: "length (entries s) = unat (m_count_max_now s)" by (rule fb_count(1) [OF assms(1)])
  have "length fs = length hi" using m(2) by (metis length_map size_mset)
  then have c: "unat c = length lo"
    using f n e fb_count(2) [OF assms(1)] by (simp add: unat_sub_if' unsigned_of_nat take_bit_nat_eq_self)
  have cs: "map cnt lo = [1..<Suc (length lo)]"
  proof -
    have "map cnt lo = take (length lo) (map cnt (entries s))" by (simp add: e)
    also have "\<dots> = take (length lo) [1..<Suc (length (entries s))]" using assms(1) n by (simp add: fb_inv_def)
    also have "\<dots> = [1..<Suc (length lo)]" using e take_upt [of 1 "length lo" "Suc (length (entries s))"] by simp
    finally show ?thesis .
  qed
  have ent: "entries s' = lo" by (rule entries_eqI [OF _ cs]) (simp add: r(2) m(1) del: mset_filter)
  have lt: "fi_mark x < ?m" if "x \<in> set lo" for x using set_takeWhileD [of x] that by (auto simp: lo_def word_less_nat_alt)
  have pred: "unat (?m - 1) = unat ?m - 1" by (rule unat_pred [OF assms(2)])
  have "fb_inv s'"
    unfolding fb_inv_def ent using assms(1) f cs c e lt pred
    by (auto simp: r(2) fb_inv_def sorted_append word_le_nat_alt word_less_nat_alt dest: lt)
  moreover have "fb_abs s' = (takeWhile (\<lambda>b. snd b < unat ?m) (fst (fb_abs s)), unat ?m - 1)"
    by (simp add: fb_abs_def ent takeWhile_map comp_def lo_def) (simp add: r(2) pred)
  moreover have "mset fs = mset (map (Some \<circ> fst) (dropWhile (\<lambda>b. snd b < unat ?m) (fst (fb_abs s))))"
  proof -
    have h: "map fi_p hi = map (Some \<circ> fst) (map (\<lambda>e. (the (fi_p e), unat (fi_mark e))) hi)" using assms(1) e by (auto simp: fb_inv_def)
    have d: "dropWhile (\<lambda>b. snd b < unat ?m) (fst (fb_abs s)) = map (\<lambda>e. (the (fi_p e), unat (fi_mark e))) hi"
      by (simp add: fb_abs_def dropWhile_map comp_def hi_def)
    show ?thesis unfolding d m(2) by (simp only: h)
  qed
  ultimately show ?thesis by (simp add: fb_abs_def)
qed

subsection \<open>Runs\<close>

lemma run_append: "run step s es s' \<Longrightarrow> run step s' fs s'' \<Longrightarrow> run step s (es @ fs) s''"
  by (induction rule: run.induct) auto

lemma run_snoc: "run step s es s' \<Longrightarrow> step s' e s'' \<Longrightarrow> run step s (es @ [e]) s''"
  by (rule run_append) auto

lemma fb_enter_spec:
  assumes "fb_inv s" "fb_enter p s = (r, fs, s')"
  shows "fb_inv s' \<and> (if length (fst (fb_abs s)) < 12
     then r = Pointer (Some p) \<and> fs = [] \<and> fb_abs s' = (fst (fb_abs s) @ [(p, snd (fb_abs s))], snd (fb_abs s))
     else r = Too_many \<and> fs = [Some p] \<and> s' = s)"
proof (cases "take_slot p (m_mark_max_now s) (m_count_max_now s + 1) (m_fb_alloc_addr s)")
  case None
  then have "filter fi_valid (m_fb_alloc_addr s) = m_fb_alloc_addr s" by (simp add: take_slot_None list_all_iff filter_id_conv)
  then have "length (fst (fb_abs s)) = 12" using assms(1) by (simp add: fb_abs_def entries_def fb_inv_def)
  then show ?thesis using None assms by (auto simp: fb_enter_def)
next
  case (Some es)
  then have "fb_enter p s = (Pointer (Some p), [], s')" "r = Pointer (Some p)" "fs = []" using assms(2) by (auto simp: fb_enter_def)
  then show ?thesis using fb_push [OF assms(1), of p p "[]" s'] by simp
qed

lemma fb_clear:
  assumes "fb_inv s" "fb_free_all s = (fs, s')"
  shows "fb_inv s' \<and> fb_abs s' = ([], 0) \<and> mset fs = mset (map (Some \<circ> fst) (fst (fb_abs s)))"
proof -
  let ?es = "map (\<lambda>e. if fi_valid e then e\<lparr>fi_p := None, fi_valid := False\<rparr> else e) (m_fb_alloc_addr s)"
  have s': "s' = s\<lparr>m_fb_alloc_addr := ?es, m_count_max_now := 0, m_mark_max_now := 0\<rparr>"
    and fs: "fs = map fi_p (filter fi_valid (m_fb_alloc_addr s))" using assms(2) by (auto simp: fb_free_all_def)
  have "filter fi_valid ?es = []" by (auto simp: filter_empty_conv)
  then have e: "entries s' = []" by (simp add: s' entries_def)
  have "fb_inv s'" using assms(1) unfolding fb_inv_def e by (auto simp: s')
  moreover have "fb_abs s' = ([], 0)" using e by (simp add: fb_abs_def) (simp add: s')
  moreover have "mset fs = mset (map fi_p (entries s))" using mset_entries [of s] by (simp add: fs)
  moreover have "map fi_p (entries s) = map (Some \<circ> fst) (fst (fb_abs s))" using assms(1) by (auto simp: fb_abs_def fb_inv_def)
  ultimately show ?thesis by simp
qed

lemma fb_mark_abs:
  assumes "fb_inv s" "m_mark_max_now s < 65535"
  shows "fb_inv (fb_alloc_mark s)" "fb_abs (fb_alloc_mark s) = (fst (fb_abs s), snd (fb_abs s) + 1)"
proof -
  have u: "unat (m_mark_max_now s + 1) = unat (m_mark_max_now s) + 1" by (rule unat_Suc_u16 [OF assms(2)])
  have e: "entries (fb_alloc_mark s) = entries s" by (simp add: entries_def fb_alloc_mark_def)
  show "fb_inv (fb_alloc_mark s)" unfolding fb_inv_def e using assms(1)
    by (auto simp: fb_inv_def fb_alloc_mark_def word_le_nat_alt u)
  show "fb_abs (fb_alloc_mark s) = (fst (fb_abs s), snd (fb_abs s) + 1)" by (simp add: fb_abs_def e) (simp add: fb_alloc_mark_def u)
qed

text \<open>
  A call with what it did: for an allocation what \<^verbatim>\<open>malloc\<close> returned and the result; and for every call the
  addresses it has passed to \<^verbatim>\<open>free\<close>, \<^verbatim>\<open>NULL\<close> included.
\<close>

datatype fb_event =
    Alloc "nat option" fb_result "nat option list" | Free "nat option list" | Free_all "nat option list"
  | Mark | Pop "nat option list"

fun freed :: "fb_event \<Rightarrow> nat option list" where
  "freed (Alloc ob r fs) = fs" | "freed (Free fs) = fs" | "freed (Free_all fs) = fs" | "freed Mark = []" | "freed (Pop fs) = fs"

fun obtained :: "fb_event \<Rightarrow> nat option list" where
  "obtained (Alloc (Some p) r fs) = [Some p]" | "obtained _ = []"

text \<open>What a stack of at most twelve blocks does: when it is full, a new block is given back at once.\<close>

fun fb_spec :: "fb_event \<Rightarrow> fb_stack \<Rightarrow> fb_stack option" where
  "fb_spec (Alloc None r fs) (st, m) = (if r \<in> {Pointer None, Out_of_memory} \<and> fs = [] then Some (st, m) else None)"
| "fb_spec (Alloc (Some p) r fs) (st, m) =
     (if length st < 12 then if r = Pointer (Some p) \<and> fs = [] then Some (st @ [(p, m)], m) else None
      else if r = Too_many \<and> fs = [Some p] then Some (st, m) else None)"
| "fb_spec (Free fs) (st, m) =
     (if st = [] then if fs = [] then Some (st, m) else None
      else if fs = [Some (fst (last st))] then Some (butlast st, m) else None)"
| "fb_spec (Free_all fs) (st, m) = (if mset fs = mset (map (Some \<circ> fst) st) then Some ([], 0) else None)"
| "fb_spec Mark (st, m) = Some (st, m + 1)"
| "fb_spec (Pop fs) (st, m) =
     (if mset fs = mset (map (Some \<circ> fst) (dropWhile (\<lambda>b. snd b < m) st)) then Some (takeWhile (\<lambda>b. snd b < m) st, m - 1) else None)"

text \<open>The calls an algorithm makes; a mark is set before it is popped, and no block is marked permanent.\<close>

inductive fb_step :: "fb_state \<Rightarrow> fb_event \<Rightarrow> fb_state \<Rightarrow> bool" where
  alloc: "fb_alloc sz malloc s = (r, fs, s') \<Longrightarrow> fb_step s (Alloc (if sz = 0 then None else malloc (round_up sz)) r fs) s'"
| alloc_all: "fb_alloc_all sz malloc s = (r, fs, s') \<Longrightarrow> fb_step s (Alloc (malloc sz) r fs) s'"
| free: "fb_free s = (fs, s') \<Longrightarrow> fb_step s (Free fs) s'"
| free_all: "fb_free_all s = (fs, s') \<Longrightarrow> fb_step s (Free_all fs) s'"
| mark: "m_mark_max_now s < 65535 \<Longrightarrow> fb_step s Mark (fb_alloc_mark s)"
| pop: "0 < m_mark_max_now s \<Longrightarrow> fb_alloc_free_till_mark s = (fs, s') \<Longrightarrow> fb_step s (Pop fs) s'"
| pop_permanent: "0 < m_mark_max_now s \<Longrightarrow> fb_alloc_free_till_mark_past_mark_permanent s = (fs, s') \<Longrightarrow> fb_step s (Pop fs) s'"

lemma fb_step_refines: "fb_step s e s' \<Longrightarrow> fb_inv s \<Longrightarrow> fb_inv s' \<and> fb_spec e (fb_abs s) = Some (fb_abs s')"
proof (induction rule: fb_step.induct)
  case (alloc sz malloc s r fs s')
  show ?case
  proof (cases "if sz = 0 then None else malloc (round_up sz)")
    case None
    then show ?thesis using alloc by (cases "fb_abs s") (auto simp: fb_alloc_def split: if_splits)
  next
    case (Some p)
    then have "fb_enter p s = (r, fs, s')" using alloc(1) by (auto simp: fb_alloc_def split: if_splits)
    from fb_enter_spec [OF alloc(2) this] show ?thesis using Some by (cases "fb_abs s") (auto split: if_splits)
  qed
next
  case (alloc_all sz malloc s r fs s')
  show ?case
  proof (cases "malloc sz")
    case None
    then show ?thesis using alloc_all by (cases "fb_abs s") (auto simp: fb_alloc_all_def)
  next
    case (Some p)
    then have "fb_enter p s = (r, fs, s')" using alloc_all(1) by (simp add: fb_alloc_all_def)
    from fb_enter_spec [OF alloc_all(2) this] show ?thesis using Some by (cases "fb_abs s") (auto split: if_splits)
  qed
next
  case (free s fs s')
  then show ?case using fb_pop [OF free(2,1)] by (cases "fb_abs s") (auto split: if_splits)
next
  case (free_all s fs s')
  then show ?case using fb_clear [OF free_all(2,1)] by (cases "fb_abs s") auto
next
  case (mark s)
  then show ?case using fb_mark_abs [OF mark(2,1)] by (cases "fb_abs s") auto
next
  case (pop s fs s')
  then show ?case using fb_pop_mark [OF pop(3,1) pop(2) [unfolded fb_alloc_free_till_mark_def]] by (cases "fb_abs s") auto
next
  case (pop_permanent s fs s')
  then show ?case
    using fb_pop_mark [OF pop_permanent(3,1) pop_permanent(2) [unfolded fb_alloc_free_till_mark_past_mark_permanent_def]]
    by (cases "fb_abs s") auto
qed

interpretation fb: implements fb_step fb_inv fb_abs fb_spec
  by unfold_locales (auto dest: fb_step_refines)

abbreviation on_stack :: "fb_stack \<Rightarrow> nat option multiset" where
  "on_stack a \<equiv> mset (map (Some \<circ> fst) (fst a))"

lemma fb_spec_balance:
  assumes "fb_spec e a = Some a'"
  shows "on_stack a + mset (obtained e) = on_stack a' + mset (freed e)"
proof -
  obtain st m where a: "a = (st, m)" by (cases a)
  have split: "mset (map f (takeWhile P xs)) + mset (map f (dropWhile P xs)) = mset (map f xs)" for P xs and f :: "nat \<times> nat \<Rightarrow> nat option"
    unfolding mset_append [symmetric] map_append [symmetric] by (simp only: takeWhile_dropWhile_id)
  have last: "mset (map f st) = mset (map f (butlast st)) + {#f (last st)#}" if "st \<noteq> []" for f :: "nat \<times> nat \<Rightarrow> nat option"
    using that by (metis append_butlast_last_id map_append mset_append list.simps(8,9) mset_single_iff_right)
  show ?thesis
  proof (cases e)
    case (Alloc ob r fs)
    then show ?thesis using assms a by (cases ob) (auto split: if_splits)
  next
    case (Free fs)
    then show ?thesis using assms a last [of "Some \<circ> fst"] by (auto split: if_splits)
  next
    case (Pop fs)
    then show ?thesis using assms a split [of "Some \<circ> fst" "\<lambda>b. snd b < m" st] by (auto split: if_splits)
  qed (use assms a in \<open>auto split: if_splits\<close>)
qed

lemma fb_run_balance:
  "spec_run fb_spec es a = Some a' \<Longrightarrow> on_stack a + mset (concat (map obtained es)) = on_stack a' + mset (concat (map freed es))"
proof (induction es arbitrary: a)
  case (Cons e es)
  then obtain a1 where a1: "fb_spec e a = Some a1" "spec_run fb_spec es a1 = Some a'" by (auto split: Option.bind_splits)
  have trans: "A + (O1 + O2) = C + (F1 + F2)" if "A + O1 = B + F1" "B + O2 = C + F2" for A B C O1 O2 F1 F2 :: "nat option multiset"
    using that by (metis add.assoc add.commute)
  show ?case using trans [OF fb_spec_balance [OF a1(1)] Cons.IH [OF a1(2)]] by (simp only: list.map concat.simps mset_append)
qed simp

text \<open>
  \<^bold>\<open>C20\<close>: The frame buffer stack. Over every run of \<^verbatim>\<open>fb_alloc\<close>, \<^verbatim>\<open>fb_alloc_all\<close>, \<^verbatim>\<open>fb_free\<close>, \<^verbatim>\<open>fb_free_all\<close>, \<^verbatim>\<open>fb_alloc_mark\<close> and the two
  releases to a mark, in which no block is marked permanent, results and released addresses are those of a stack of at most twelve blocks:
  \<^verbatim>\<open>fb_free\<close> releases the block allocated last, a release to a mark exactly the blocks allocated since the last mark, \<^verbatim>\<open>fb_free_all\<close> all of them, and
  an allocation fails when \<^verbatim>\<open>malloc\<close> does or the stack is full, in which case the new block is released at once. So
  every block obtained from \<^verbatim>\<open>malloc\<close> is still on the stack or has been passed to \<^verbatim>\<open>free\<close>, once for each time it was obtained, and nothing
  else has been.
\<close>

theorem fb_alloc_stack:
  assumes "run fb_step fb_alloc_init0 es s"
  shows "spec_run fb_spec es ([], 0) = Some (fb_abs s) \<and> length (fst (fb_abs s)) \<le> 12 \<and>
     mset (concat (map obtained es)) = mset (map (Some \<circ> fst) (fst (fb_abs s))) + mset (concat (map freed es))"
proof -
  have r: "spec_run fb_spec es ([], 0) = Some (fb_abs s)" using fb.run_refines [OF assms fb_init_inv(1)] fb_init_inv(2) by simp
  have "fb_inv s" using fb.run_inv [OF assms fb_init_inv(1)] .
  then have "length (fst (fb_abs s)) \<le> 12" using fb_count(2) by (simp add: fb_abs_def)
  then show ?thesis using r fb_run_balance [OF r] by simp
qed

text \<open>A block, a mark, eleven more blocks, a refused one, the release to the mark and of the first block.\<close>

primrec ex_fill :: "nat \<Rightarrow> fb_state" where
  "ex_fill 0 = fb_alloc_mark (snd (snd (fb_alloc 16 (\<lambda>_. Some 64) fb_alloc_init0)))"
| "ex_fill (Suc n) = snd (snd (fb_alloc 16 (\<lambda>_. Some 128) (ex_fill n)))"

abbreviation ex_got :: "nat \<Rightarrow> fb_event" where
  "ex_got p \<equiv> Alloc (Some p) (Pointer (Some p)) []"

lemma ex_fill_run: "n \<le> 11 \<Longrightarrow> run fb_step (ex_fill 0) (replicate n (ex_got 128)) (ex_fill n)"
proof (induction n)
  case (Suc n)
  have "list_all (\<lambda>n. fb_alloc 16 (\<lambda>_. Some 128) (ex_fill n) = (Pointer (Some 128), [], ex_fill (Suc n))) [0..<11]" by code_simp
  then have "fb_alloc 16 (\<lambda>_. Some 128) (ex_fill n) = (Pointer (Some 128), [], ex_fill (Suc n))" using Suc.prems by (simp add: list_all_iff del: ex_fill.simps)
  from alloc [OF this] have "fb_step (ex_fill n) (ex_got 128) (ex_fill (Suc n))" by simp
  with Suc have "run fb_step (ex_fill 0) (replicate n (ex_got 128) @ [ex_got 128]) (ex_fill (Suc n))" by (auto intro: run_snoc simp del: ex_fill.simps)
  then show ?case by (simp only: replicate_append_same replicate_Suc)
qed simp

theorem fb_alloc_stack_witness:
  "\<exists>s. run fb_step fb_alloc_init0 ([ex_got 64, Mark] @ replicate 11 (ex_got 128) @
       [Alloc (Some 192) Too_many [Some 192], Pop (replicate 11 (Some 128)), Free [Some 64], Free []]) s \<and> fb_abs s = ([], 0)"
proof -
  let ?s0 = "snd (snd (fb_alloc 16 (\<lambda>_. Some 64) fb_alloc_init0))" let ?s1 = "ex_fill 11"
  let ?s2 = "snd (fb_alloc_free_till_mark ?s1)" let ?s3 = "snd (fb_free ?s2)"
  have "fb_alloc 16 (\<lambda>_. Some 64) fb_alloc_init0 = (Pointer (Some 64), [], ?s0)" "m_mark_max_now ?s0 < 65535"
    "fb_alloc 16 (\<lambda>_. Some 192) ?s1 = (Too_many, [Some 192], ?s1)"
    "0 < m_mark_max_now ?s1" "fb_alloc_free_till_mark ?s1 = (replicate 11 (Some 128), ?s2)" "fb_free ?s2 = ([Some 64], ?s3)" "fb_free ?s3 = ([], ?s3)"
    by code_simp+
  note e = this
  have "fb_step fb_alloc_init0 (ex_got 64) ?s0" "fb_step ?s1 (Alloc (Some 192) Too_many [Some 192]) ?s1"
    using alloc [OF e(1)] alloc [OF e(3)] by simp_all
  moreover have "fb_step ?s0 Mark (ex_fill 0)" using mark [OF e(2)] by simp
  moreover note pop [OF e(4,5)] free [OF e(6)] free [OF e(7)]
  ultimately have r: "run fb_step fb_alloc_init0 ([ex_got 64, Mark] @ replicate 11 (ex_got 128) @
       [Alloc (Some 192) Too_many [Some 192], Pop (replicate 11 (Some 128)), Free [Some 64], Free []]) ?s3"
    by (intro run_append [OF _ run_append [OF ex_fill_run]]) (blast intro: run.intros | simp)+
  have "spec_run fb_spec ([ex_got 64, Mark] @ replicate 11 (ex_got 128) @
       [Alloc (Some 192) Too_many [Some 192], Pop (replicate 11 (Some 128)), Free [Some 64], Free []]) ([], 0) = Some ([], 0)" by code_simp
  with fb_alloc_stack [OF r] have "fb_abs ?s3 = ([], 0)" by simp
  with r show ?thesis by blast
qed

subsection \<open>Permanent blocks\<close>

lemma take_slot_first:
  "list_all fi_valid xs \<Longrightarrow> \<not> fi_valid e \<Longrightarrow>
   take_slot p mark c (xs @ e # ys) = Some (xs @ e\<lparr>fi_valid := True, fi_p := Some p, fi_mark := mark, fi_count := c\<rparr> # ys)"
  by (induction xs) auto

lemma free_marked_keeps:
  "\<forall>e \<in> set es. fi_valid e \<and> fi_mark e = mark \<longrightarrow> fi_permanent e \<Longrightarrow>
   free_marked False mark c es = (c - of_nat (length (filter (\<lambda>e. fi_valid e \<and> fi_mark e = mark) es)), es, [])"
  by (induction es arbitrary: c) auto

lemma free_last_first:
  "\<forall>x \<in> set xs. fi_valid x \<longrightarrow> fi_count x \<noteq> c \<Longrightarrow> fi_valid e \<Longrightarrow> fi_count e = c \<Longrightarrow>
   free_last c (xs @ e # ys) = Some (fi_p e, xs @ e\<lparr>fi_p := None, fi_valid := False\<rparr> # ys)"
  by (induction xs) auto

lemma first_free:
  assumes "\<not> list_all P xs"
  obtains ys x zs where "xs = ys @ x # zs" "list_all P ys" "\<not> P x"
proof -
  have "\<exists>x \<in> set xs. \<not> P x" using assms by (auto simp: list_all_iff)
  from split_list_first_prop [OF this] show ?thesis using that by (auto simp: list_all_iff)
qed

text \<open>
  \<^bold>\<open>C40\<close>: A permanent block is released in the place of another. In every state of a run without permanent blocks, as long as two
  entries of the table are free: when a block is allocated behind a new mark and marked permanent, \<^verbatim>\<open>fb_alloc_free_till_mark\<close>
  keeps it but lowers the count all the same. If the next calls allocate a block and release it with \<^verbatim>\<open>fb_free\<close>, what is released is the
  permanent block, and the other one stays in the table.
\<close>

theorem fb_free_releases_permanent:
  assumes "run fb_step fb_alloc_init0 es s" "length (fst (fb_abs s)) \<le> 10" "m_mark_max_now s < 65535"
    and "sz \<noteq> 0" "malloc (round_up sz) = Some a" "sz' \<noteq> 0" "malloc' (round_up sz') = Some b"
  shows "\<exists>s1 s2 s3 s4. fb_alloc sz malloc (fb_alloc_mark s) = (Pointer (Some a), [], s1) \<and>
     fb_alloc_free_till_mark (fb_alloc_mark_permanent s1) = ([], s2) \<and>
     fb_alloc sz' malloc' s2 = (Pointer (Some b), [], s3) \<and> fb_free s3 = ([Some a], s4) \<and>
     (\<exists>e \<in> set (m_fb_alloc_addr s4). fi_valid e \<and> fi_p e = Some b)"
proof -
  let ?m = "m_mark_max_now s" and ?c = "m_count_max_now s"
  have inv: "fb_inv s" by (rule fb.run_inv [OF assms(1) fb_init_inv(1)])
  have V: "length (filter fi_valid (m_fb_alloc_addr s)) \<le> 10" "length (m_fb_alloc_addr s) = 12"
    using assms(2) inv by (simp_all add: fb_abs_def entries_def fb_inv_def)
  have full: "filter fi_valid zs = zs" if "list_all fi_valid zs" for zs using that by (simp add: list_all_iff filter_id_conv)
  have "\<not> list_all fi_valid (m_fb_alloc_addr s)" using V full [of "m_fb_alloc_addr s"] by auto
  then obtain xs x ys where es: "m_fb_alloc_addr s = xs @ x # ys" "list_all fi_valid xs" "\<not> fi_valid x" by (rule first_free)
  have "\<not> list_all fi_valid ys" using V es full [OF es(2)] full [of ys] by auto
  then obtain us y vs where ys: "ys = us @ y # vs" "list_all fi_valid us" "\<not> fi_valid y" by (rule first_free)
  have old: "fi_mark e \<noteq> ?m + 1 \<and> fi_count e \<noteq> ?c + 1" if "e \<in> set (m_fb_alloc_addr s)" "fi_valid e" for e
  proof -
    have "e \<in> set (entries s)" using that by (simp add: entries_def)
    then have "cnt e \<in> set (map cnt (entries s))" by simp
    moreover have "fi_mark e \<le> ?m" using inv \<open>e \<in> set (entries s)\<close> unfolding fb_inv_def by blast
    moreover have "set (map cnt (entries s)) = {1..<Suc (unat ?c)}" using inv unfolding fb_inv_def by (metis set_upt)
    ultimately have "fi_mark e \<le> ?m" "cnt e \<le> unat ?c" by auto
    moreover have "unat (?m + 1) = unat ?m + 1" by (rule unat_Suc_u16 [OF assms(3)])
    moreover have "unat (?c + 1) = unat ?c + 1" using fb_count [OF inv] by (intro unat_Suc_u16) (simp add: word_less_nat_alt)
    ultimately show ?thesis by (auto simp: word_le_nat_alt)
  qed
  define A where "A = x\<lparr>fi_valid := True, fi_p := Some a, fi_mark := ?m + 1, fi_count := ?c + 1\<rparr>"
  define P where "P = (\<lambda>e :: fb_alloc_addr_info_t. if fi_mark e = ?m + 1 then e\<lparr>fi_permanent := True\<rparr> else e)"
  define B where "B = (P y)\<lparr>fi_valid := True, fi_p := Some b, fi_mark := ?m, fi_count := ?c + 1\<rparr>"
  define s1 where "s1 = s\<lparr>m_fb_alloc_addr := xs @ A # ys, m_count_max_now := ?c + 1, m_mark_max_now := ?m + 1\<rparr>"
  define s2 where "s2 = s\<lparr>m_fb_alloc_addr := map P (xs @ A # ys), m_count_max_now := ?c, m_mark_max_now := ?m\<rparr>"
  define s3 where "s3 = s2\<lparr>m_fb_alloc_addr := map P (xs @ A # us) @ B # map P vs, m_count_max_now := ?c + 1\<rparr>"
  have P: "fi_valid (P e) = fi_valid e" "fi_count (P e) = fi_count e" "fi_mark (P e) = fi_mark e" "fi_p (P e) = fi_p e" for e by (simp_all add: P_def)
  have 1: "fb_alloc sz malloc (fb_alloc_mark s) = (Pointer (Some a), [], s1)"
    using assms(4,5) es take_slot_first [OF es(2,3)] by (simp add: fb_alloc_def fb_enter_def fb_alloc_mark_def s1_def A_def)
  have "filter (\<lambda>e. fi_valid e \<and> fi_mark e = ?m + 1) (map P (xs @ A # ys)) = [P A]"
    using old es(1) by (auto simp: P A_def filter_map comp_def filter_empty_conv)
  moreover have "\<forall>e \<in> set (map P (xs @ A # ys)). fi_valid e \<and> fi_mark e = ?m + 1 \<longrightarrow> fi_permanent e" by (auto simp: P_def)
  ultimately have "free_marked False (?m + 1) (?c + 1) (map P (xs @ A # ys)) = (?c, map P (xs @ A # ys), [])"
    using free_marked_keeps [of "map P (xs @ A # ys)" "?m + 1" "?c + 1"] by simp
  then have 2: "fb_alloc_free_till_mark (fb_alloc_mark_permanent s1) = ([], s2)"
    by (simp add: fb_alloc_free_till_mark_def int_fb_alloc_free_till_mark_def fb_alloc_mark_permanent_def s1_def s2_def P_def)
  have v: "list_all fi_valid (map P (xs @ A # us))" "\<not> fi_valid (P y)" using es(2) ys(2,3) by (auto simp: list_all_iff P A_def)
  have 3: "fb_alloc sz' malloc' s2 = (Pointer (Some b), [], s3)"
    using assms(6,7) take_slot_first [OF v, of b ?m "?c + 1" "map P vs"] by (simp add: fb_alloc_def fb_enter_def s2_def s3_def ys B_def)
  have "free_last (?c + 1) (map P xs @ P A # map P us @ B # map P vs) =
     Some (fi_p (P A), map P xs @ (P A)\<lparr>fi_p := None, fi_valid := False\<rparr> # map P us @ B # map P vs)"
    by (rule free_last_first) (use old es(1) in \<open>auto simp: P A_def\<close>)
  then have "fb_free s3 = ([Some a], s3\<lparr>m_fb_alloc_addr := map P xs @ (P A)\<lparr>fi_p := None, fi_valid := False\<rparr> # map P us @ B # map P vs,
      m_count_max_now := ?c\<rparr>)"
    by (simp add: fb_free_def s3_def P) (simp add: A_def)
  moreover have "fi_valid B \<and> fi_p B = Some b" by (simp add: B_def)
  ultimately show ?thesis using 1 2 3 by (auto intro!: exI)
qed

theorem fb_free_releases_permanent_witness:
  "\<exists>s s1 s2 s3 s4. run fb_step fb_alloc_init0 [ex_got 32] s \<and> fb_alloc 16 (\<lambda>_. Some 64) (fb_alloc_mark s) = (Pointer (Some 64), [], s1) \<and>
     fb_alloc_free_till_mark (fb_alloc_mark_permanent s1) = ([], s2) \<and>
     fb_alloc 16 (\<lambda>_. Some 128) s2 = (Pointer (Some 128), [], s3) \<and> fb_free s3 = ([Some 64], s4)"
proof -
  let ?s = "snd (snd (fb_alloc 16 (\<lambda>_. Some 32) fb_alloc_init0))"
  have e: "fb_alloc 16 (\<lambda>_. Some 32) fb_alloc_init0 = (Pointer (Some 32), [], ?s)" "length (fst (fb_abs ?s)) \<le> 10" "m_mark_max_now ?s < 65535"
    by code_simp+
  have r: "run fb_step fb_alloc_init0 [ex_got 32] ?s" using alloc [OF e(1)] by simp
  from fb_free_releases_permanent [OF r e(2,3), of 16 "\<lambda>_. Some 64" 64 16 "\<lambda>_. Some 128" 128] show ?thesis using r by auto
qed

end
