(* ===== verification/Collections.thy ===== *)
theory Collections
  imports Circular Refinement
begin

text \<open>
  Bitmap, stack and queue of the image library (\<^verbatim>\<open>omv/img/collections.c\<close>). The elements of stack and queue are blocks of
  \<^verbatim>\<open>data_len\<close> bytes in one array of bytes; a copy outside the array or the caller's block is \<open>None\<close>. The functions
  do not test for full and empty, which is left to the callers.
\<close>

subsection \<open>Bitmap\<close>

record bitmap_t =
  bm_size :: nat
  bm_data :: "u8 list"

definition bitmap_bytes :: "nat \<Rightarrow> nat" where
  "bitmap_bytes n = (n + 7) div 8"

text \<open>The memory is zeroed by \<^verbatim>\<open>fb_alloc0\<close>.\<close>

definition bitmap_alloc :: "nat \<Rightarrow> bitmap_t" where
  "bitmap_alloc n = \<lparr>bm_size = n, bm_data = replicate (bitmap_bytes n) 0\<rparr>"

definition bitmap_clear :: "bitmap_t \<Rightarrow> bitmap_t option" where
  "bitmap_clear b =
     map_option (\<lambda>d. b\<lparr>bm_data := d\<rparr>) (memcpy_to (bm_data b) 0 (replicate (bitmap_bytes (bm_size b)) 0) (int (bitmap_bytes (bm_size b))))"

definition bitmap_bit_set :: "bitmap_t \<Rightarrow> nat \<Rightarrow> bitmap_t option" where
  "bitmap_bit_set b index =
     (if index div 8 < length (bm_data b)
      then Some (b\<lparr>bm_data := (bm_data b)[index div 8 := bm_data b ! (index div 8) OR push_bit (index mod 8) 1]\<rparr>) else None)"

definition bitmap_bit_get :: "bitmap_t \<Rightarrow> nat \<Rightarrow> bool option" where
  "bitmap_bit_get b index =
     (if index div 8 < length (bm_data b)
      then Some (drop_bit (index mod 8) (bm_data b ! (index div 8)) AND 1 \<noteq> 0) else None)"

definition bitmap_ok :: "bitmap_t \<Rightarrow> bool" where
  "bitmap_ok b \<longleftrightarrow> length (bm_data b) = bitmap_bytes (bm_size b)"

lemma bitmap_index: "bitmap_ok b \<Longrightarrow> i < bm_size b \<Longrightarrow> i div 8 < length (bm_data b)"
  by (simp add: bitmap_ok_def bitmap_bytes_def)

lemma bitmap_get_bit: "bitmap_ok b \<Longrightarrow> i < bm_size b \<Longrightarrow> bitmap_bit_get b i = Some (bit (bm_data b ! (i div 8)) (i mod 8))"
  by (simp add: bitmap_bit_get_def bitmap_index and_one_eq odd_iff_mod_2_eq_one [symmetric] bit_iff_odd_drop_bit)

lemma bitmap_alloc_get: "bitmap_ok (bitmap_alloc n)" "i < n \<Longrightarrow> bitmap_bit_get (bitmap_alloc n) i = Some False"
proof -
  show ok: "bitmap_ok (bitmap_alloc n)" by (simp add: bitmap_ok_def bitmap_alloc_def)
  show "bitmap_bit_get (bitmap_alloc n) i = Some False" if "i < n"
    using bitmap_get_bit [OF ok, of i] bitmap_index [OF ok, of i] that by (simp add: bitmap_alloc_def)
qed

lemma bitmap_set_get:
  assumes "bitmap_ok b" "i < bm_size b"
  obtains b' where "bitmap_bit_set b i = Some b'" "bitmap_ok b'" "bm_size b' = bm_size b"
    "\<And>j. j < bm_size b \<Longrightarrow> bitmap_bit_get b' j = Some (i = j \<or> bitmap_bit_get b j = Some True)"
proof -
  let ?b = "b\<lparr>bm_data := (bm_data b)[i div 8 := bm_data b ! (i div 8) OR push_bit (i mod 8) 1]\<rparr>"
  have k: "i div 8 < length (bm_data b)" by (rule bitmap_index [OF assms])
  have ok: "bitmap_ok ?b" using assms(1) by (simp add: bitmap_ok_def)
  have "bitmap_bit_get ?b j = Some (i = j \<or> bitmap_bit_get b j = Some True)" if j: "j < bm_size b" for j
  proof -
    have e: "i = j \<longleftrightarrow> i div 8 = j div 8 \<and> i mod 8 = j mod 8" by (metis div_mult_mod_eq)
    have "bit (push_bit (i mod 8) 1 :: u8) (j mod 8) \<longleftrightarrow> i mod 8 = j mod 8" by (auto simp: bit_exp_iff)
    then show ?thesis using bitmap_get_bit [OF ok, of j] bitmap_get_bit [OF assms(1) j] j k e
      by (auto simp: nth_list_update bit_or_iff)
  qed
  then show thesis using k ok by (intro that [of ?b]) (simp_all add: bitmap_bit_set_def)
qed

subsection \<open>Blocks in an array of bytes\<close>

definition chunk :: "nat \<Rightarrow> u8 list \<Rightarrow> nat \<Rightarrow> u8 list" where
  "chunk n d k = take n (drop (k * n) d)"

lemma chunk_bound: "k < m \<Longrightarrow> k * n + n \<le> m * n" for k m n :: nat
proof -
  assume "k < m"
  then have "Suc k * n \<le> m * n" by (intro mult_right_mono) auto
  then show ?thesis by simp
qed

lemma length_chunk: "length d = m * n \<Longrightarrow> k < m \<Longrightarrow> length (chunk n d k) = n"
  using chunk_bound [of k m n] by (simp add: chunk_def)

lemma chunk_write:
  assumes "length d = m * n" "k < m" "j < m" "length x = n"
  shows "chunk n (blit d (k * n) x) j = (if j = k then x else chunk n d j)"
proof (rule nth_equalityI)
  have len: "length (blit d (k * n) x) = m * n" using assms chunk_bound [of k m n] by simp
  show "length (chunk n (blit d (k * n) x) j) = length (if j = k then x else chunk n d j)"
    using length_chunk [OF len assms(3)] length_chunk [OF assms(1,3)] assms(4) by simp
  fix i assume "i < length (chunk n (blit d (k * n) x) j)"
  then have i: "i < n" using length_chunk [OF len assms(3)] by simp
  have b: "j * n + i < m * n" using chunk_bound [OF assms(3), of n] i by simp
  have "k * n \<le> j * n + i \<and> j * n + i < k * n + n \<longleftrightarrow> j = k"
  proof (cases j k rule: linorder_cases)
    case less
    then show ?thesis using chunk_bound [of j k n] i by auto
  next
    case greater
    then show ?thesis using chunk_bound [of k j n] by auto
  qed (use i in auto)
  then show "chunk n (blit d (k * n) x) j ! i = (if j = k then x else chunk n d j) ! i"
    using nth_blit [of "k * n" x d "j * n + i"] assms chunk_bound [of k m n] b i by (auto simp: chunk_def)
qed

lemma copy_in:
  assumes "length d = m * n" "k < m" "length x = n"
  shows "memcpy_to d (int (k * n)) x (int n) = Some (blit d (k * n) x)"
  using memcpy_to_Some [of n x "k * n" d] assms chunk_bound [of k m n] by simp

lemma copy_out:
  assumes "length d = m * n" "k < m"
  shows "memread d (int (k * n)) (int n) = Some (chunk n d k)"
  using memread_Some [of "k * n" n d] assms chunk_bound [of k m n] by (simp add: chunk_def)

subsection \<open>Stack\<close>

record lifo_t =
  lf_len :: nat
  lf_size :: nat
  lf_data_len :: nat
  lf_data :: "u8 list"

text \<open>\<open>d\<close> is the memory obtained from \<^verbatim>\<open>fb_alloc\<close>.\<close>

definition lifo_alloc :: "nat \<Rightarrow> nat \<Rightarrow> u8 list \<Rightarrow> lifo_t" where
  "lifo_alloc sz data_len d = \<lparr>lf_len = 0, lf_size = sz, lf_data_len = data_len, lf_data = d\<rparr>"

definition lifo_alloc_all :: "nat \<Rightarrow> u8 list \<Rightarrow> lifo_t" where
  "lifo_alloc_all data_len d = \<lparr>lf_len = 0, lf_size = length d div data_len, lf_data_len = data_len, lf_data = d\<rparr>"

definition lifo_clear :: "lifo_t \<Rightarrow> lifo_t" where
  "lifo_clear l = l\<lparr>lf_len := 0\<rparr>"

definition lifo_size :: "lifo_t \<Rightarrow> nat" where
  "lifo_size l = lf_len l"

definition lifo_is_not_empty :: "lifo_t \<Rightarrow> bool" where
  "lifo_is_not_empty l \<longleftrightarrow> lf_len l \<noteq> 0"

definition lifo_is_not_full :: "lifo_t \<Rightarrow> bool" where
  "lifo_is_not_full l \<longleftrightarrow> lf_len l \<noteq> lf_size l"

definition lifo_poke :: "lifo_t \<Rightarrow> u8 list \<Rightarrow> lifo_t option" where
  "lifo_poke l x = map_option (\<lambda>d. l\<lparr>lf_data := d\<rparr>) (memcpy_to (lf_data l) (int (lf_len l * lf_data_len l)) x (int (lf_data_len l)))"

definition lifo_enqueue :: "lifo_t \<Rightarrow> u8 list \<Rightarrow> lifo_t option" where
  "lifo_enqueue l x = map_option (\<lambda>d. l\<lparr>lf_data := d, lf_len := lf_len l + 1\<rparr>)
     (memcpy_to (lf_data l) (int (lf_len l * lf_data_len l)) x (int (lf_data_len l)))"

definition lifo_peek :: "lifo_t \<Rightarrow> u8 list option" where
  "lifo_peek l = memread (lf_data l) ((int (lf_len l) - 1) * int (lf_data_len l)) (int (lf_data_len l))"

text \<open>\<open>want\<close>: whether the caller passes a block for the element; the length wraps around below zero.\<close>

definition lifo_dequeue :: "lifo_t \<Rightarrow> bool \<Rightarrow> (u8 list option \<times> lifo_t) option" where
  "lifo_dequeue l want =
     do { x \<leftarrow> (if want then map_option Some (lifo_peek l) else Some None);
          Some (x, l\<lparr>lf_len := (lf_len l + 2 ^ 64 - 1) mod 2 ^ 64\<rparr>) }"

definition lifo_ok :: "lifo_t \<Rightarrow> bool" where
  "lifo_ok l \<longleftrightarrow> lf_len l \<le> lf_size l \<and> lf_size l < 2 ^ 64 \<and> length (lf_data l) = lf_size l * lf_data_len l"

definition lifo_list :: "lifo_t \<Rightarrow> u8 list list" where
  "lifo_list l = map (chunk (lf_data_len l) (lf_data l)) [0..<lf_len l]"

lemma lifo_push:
  assumes "lifo_ok l" "lifo_is_not_full l" "length x = lf_data_len l"
  obtains l' where "lifo_enqueue l x = Some l'" "lifo_ok l'" "lifo_list l' = lifo_list l @ [x]" "lf_data_len l' = lf_data_len l" "lf_size l' = lf_size l"
proof -
  let ?n = "lf_data_len l" and ?k = "lf_len l"
  let ?l = "l\<lparr>lf_data := blit (lf_data l) (?k * ?n) x, lf_len := ?k + 1\<rparr>"
  have k: "?k < lf_size l" and d: "length (lf_data l) = lf_size l * ?n" using assms(1,2) by (auto simp: lifo_ok_def lifo_is_not_full_def)
  have "lifo_enqueue l x = Some ?l" using copy_in [OF d k assms(3)] by (simp add: lifo_enqueue_def)
  moreover have "lifo_ok ?l" using assms k d chunk_bound [OF k, of ?n] by (simp add: lifo_ok_def)
  moreover have "lifo_list ?l = lifo_list l @ [x]" using chunk_write [OF d k _ assms(3)] k by (simp add: lifo_list_def)
  ultimately show thesis by (rule that) simp_all
qed

lemma lifo_pop:
  assumes "lifo_ok l" "lifo_is_not_empty l"
  obtains l' where "lifo_dequeue l want = Some (if want then Some (last (lifo_list l)) else None, l')" "lifo_ok l'" "lifo_list l' = butlast (lifo_list l)"
    "lifo_peek l = Some (last (lifo_list l))" "lf_data_len l' = lf_data_len l" "lf_size l' = lf_size l"
proof -
  obtain k where k: "lf_len l = Suc k" using assms(2) by (auto simp: lifo_is_not_empty_def gr0_conv_Suc)
  have d: "length (lf_data l) = lf_size l * lf_data_len l" "k < lf_size l" "lf_size l < 2 ^ 64" using assms(1) k by (auto simp: lifo_ok_def)
  have pk: "lifo_peek l = Some (chunk (lf_data_len l) (lf_data l) k)" using copy_out [OF d(1,2)] k by (simp add: lifo_peek_def)
  have "(lf_len l + 2 ^ 64 - 1) mod 2 ^ 64 = k" using k d(2,3) by simp
  then have "lifo_dequeue l want = Some (if want then Some (chunk (lf_data_len l) (lf_data l) k) else None, l\<lparr>lf_len := k\<rparr>)"
    using pk by (simp add: lifo_dequeue_def)
  then show thesis using pk k assms(1) by (intro that [of "l\<lparr>lf_len := k\<rparr>"]) (simp_all add: lifo_list_def lifo_ok_def)
qed

subsection \<open>Queue\<close>

record fifo_t =
  ff_head_ptr :: nat
  ff_tail_ptr :: nat
  ff_len :: nat
  ff_size :: nat
  ff_data_len :: nat
  ff_data :: "u8 list"

text \<open>
  The memory that \<^verbatim>\<open>fb_alloc\<close> returns is an argument: at least \<open>sz * data_len\<close> bytes as long as this product, which
  \<^verbatim>\<open>fb_alloc\<close> takes as a 32-bit number, is below \<open>2\<^sup>3\<^sup>2\<close>.
\<close>

definition fifo_alloc :: "nat \<Rightarrow> nat \<Rightarrow> u8 list \<Rightarrow> fifo_t" where
  "fifo_alloc sz data_len d =
     \<lparr>ff_head_ptr = 0, ff_tail_ptr = 0, ff_len = 0, ff_size = sz, ff_data_len = data_len, ff_data = d\<rparr>"

definition fifo_alloc_all :: "nat \<Rightarrow> u8 list \<Rightarrow> fifo_t" where
  "fifo_alloc_all data_len d =
     \<lparr>ff_head_ptr = 0, ff_tail_ptr = 0, ff_len = 0, ff_size = length d div data_len, ff_data_len = data_len, ff_data = d\<rparr>"

definition fifo_clear :: "fifo_t \<Rightarrow> fifo_t" where
  "fifo_clear q = q\<lparr>ff_head_ptr := 0, ff_tail_ptr := 0, ff_len := 0\<rparr>"

definition fifo_size :: "fifo_t \<Rightarrow> nat" where
  "fifo_size q = ff_len q"

definition fifo_is_not_empty :: "fifo_t \<Rightarrow> bool" where
  "fifo_is_not_empty q \<longleftrightarrow> ff_len q \<noteq> 0"

definition fifo_is_not_full :: "fifo_t \<Rightarrow> bool" where
  "fifo_is_not_full q \<longleftrightarrow> ff_len q \<noteq> ff_size q"

definition fifo_poke :: "fifo_t \<Rightarrow> u8 list \<Rightarrow> fifo_t option" where
  "fifo_poke q x = map_option (\<lambda>d. q\<lparr>ff_data := d\<rparr>) (memcpy_to (ff_data q) (int (ff_head_ptr q * ff_data_len q)) x (int (ff_data_len q)))"

definition fifo_peek :: "fifo_t \<Rightarrow> u8 list option" where
  "fifo_peek q = memread (ff_data q) (int (ff_tail_ptr q * ff_data_len q)) (int (ff_data_len q))"

definition fifo_next :: "fifo_t \<Rightarrow> nat \<Rightarrow> nat" where
  "fifo_next q i = (let temp = i + 1 in if temp = ff_size q then 0 else temp)"

definition fifo_enqueue :: "fifo_t \<Rightarrow> u8 list \<Rightarrow> fifo_t option" where
  "fifo_enqueue q x =
     do { d \<leftarrow> memcpy_to (ff_data q) (int (ff_head_ptr q * ff_data_len q)) x (int (ff_data_len q));
          Some (q\<lparr>ff_data := d, ff_head_ptr := fifo_next q (ff_head_ptr q), ff_len := ff_len q + 1\<rparr>) }"

definition fifo_dequeue :: "fifo_t \<Rightarrow> bool \<Rightarrow> (u8 list option \<times> fifo_t) option" where
  "fifo_dequeue q want =
     do { x \<leftarrow> (if want then map_option Some (fifo_peek q) else Some None);
          Some (x, q\<lparr>ff_tail_ptr := fifo_next q (ff_tail_ptr q), ff_len := (ff_len q + 2 ^ 64 - 1) mod 2 ^ 64\<rparr>) }"

definition fifo_ok :: "fifo_t \<Rightarrow> bool" where
  "fifo_ok q \<longleftrightarrow> 0 < ff_size q \<and> ff_size q < 2 ^ 64 \<and> ff_tail_ptr q < ff_size q \<and> ff_len q \<le> ff_size q \<and>
     ff_head_ptr q = (ff_tail_ptr q + ff_len q) mod ff_size q \<and> length (ff_data q) = ff_size q * ff_data_len q"

definition fifo_cells :: "fifo_t \<Rightarrow> u8 list list" where
  "fifo_cells q = map (chunk (ff_data_len q) (ff_data q)) [0..<ff_size q]"

definition fifo_list :: "fifo_t \<Rightarrow> u8 list list" where
  "fifo_list q = circ (fifo_cells q) (ff_size q) (ff_tail_ptr q) (ff_len q)"

lemma fifo_next_mod: "i < ff_size q \<Longrightarrow> fifo_next q i = Suc i mod ff_size q"
  by (auto simp: fifo_next_def Let_def)

lemma fifo_cells_write:
  assumes "fifo_ok q" "k < ff_size q" "length x = ff_data_len q"
  shows "fifo_cells (q\<lparr>ff_data := blit (ff_data q) (k * ff_data_len q) x\<rparr>) = (fifo_cells q)[k := x]"
proof (rule nth_equalityI)
  fix j assume "j < length (fifo_cells (q\<lparr>ff_data := blit (ff_data q) (k * ff_data_len q) x\<rparr>))"
  then have "j < ff_size q" by (simp add: fifo_cells_def)
  then show "fifo_cells (q\<lparr>ff_data := blit (ff_data q) (k * ff_data_len q) x\<rparr>) ! j = (fifo_cells q)[k := x] ! j"
    using chunk_write [of "ff_data q" "ff_size q" "ff_data_len q" k j x] assms by (simp add: fifo_cells_def fifo_ok_def nth_list_update)
qed (simp add: fifo_cells_def)

lemma fifo_push:
  assumes "fifo_ok q" "fifo_is_not_full q" "length x = ff_data_len q"
  obtains q' where "fifo_enqueue q x = Some q'" "fifo_ok q'" "fifo_list q' = fifo_list q @ [x]" "ff_data_len q' = ff_data_len q" "ff_size q' = ff_size q"
proof -
  let ?h = "ff_head_ptr q" and ?n = "ff_data_len q"
  have q: "?h < ff_size q" "ff_len q < ff_size q" "length (ff_data q) = ff_size q * ?n" using assms(1,2) by (auto simp: fifo_ok_def fifo_is_not_full_def)
  let ?d = "blit (ff_data q) (?h * ?n) x"
  let ?q = "q\<lparr>ff_data := ?d, ff_head_ptr := fifo_next q ?h, ff_len := ff_len q + 1\<rparr>"
  have "fifo_enqueue q x = Some ?q" using copy_in [OF q(3,1) assms(3)] by (simp add: fifo_enqueue_def)
  moreover have "fifo_ok ?q"
    using assms(1,3) q fifo_next_mod [OF q(1)] chunk_bound [OF q(1), of ?n] by (simp add: fifo_ok_def mod_Suc_eq)
  moreover have "fifo_cells ?q = (fifo_cells q)[?h := x]" using fifo_cells_write [OF assms(1) q(1) assms(3)] by (simp add: fifo_cells_def)
  then have "fifo_list ?q = fifo_list q @ [x]"
    using circ_update [of "ff_size q" "fifo_cells q" ?h "ff_tail_ptr q" "ff_len q" x] assms(1) q
    by (simp add: fifo_list_def fifo_ok_def fifo_cells_def)
  ultimately show thesis by (rule that) simp_all
qed

lemma fifo_pop:
  assumes "fifo_ok q" "fifo_is_not_empty q"
  obtains q' where "fifo_dequeue q want = Some (if want then Some (hd (fifo_list q)) else None, q')" "fifo_ok q'" "fifo_list q = hd (fifo_list q) # fifo_list q'"
    "fifo_peek q = Some (hd (fifo_list q))" "ff_data_len q' = ff_data_len q" "ff_size q' = ff_size q"
proof -
  obtain k where k: "ff_len q = Suc k" using assms(2) by (auto simp: fifo_is_not_empty_def gr0_conv_Suc)
  have q: "0 < ff_size q" "ff_tail_ptr q < ff_size q" "length (ff_data q) = ff_size q * ff_data_len q" "Suc k \<le> ff_size q" "ff_size q < 2 ^ 64"
    using assms(1) k by (auto simp: fifo_ok_def)
  let ?q = "q\<lparr>ff_tail_ptr := Suc (ff_tail_ptr q) mod ff_size q, ff_len := k\<rparr>"
  have l: "fifo_list q = fifo_cells q ! ff_tail_ptr q # fifo_list ?q"
    using circ_Cons [OF q(1,2), of "fifo_cells q" k] k by (simp add: fifo_list_def fifo_cells_def)
  have pk: "fifo_peek q = Some (hd (fifo_list q))"
    using copy_out [OF q(3,2)] l q(2) by (simp add: fifo_peek_def fifo_cells_def)
  have "(ff_len q + 2 ^ 64 - 1) mod 2 ^ 64 = k" using k q(4,5) by simp
  then have "fifo_dequeue q want = Some (if want then Some (hd (fifo_list q)) else None, ?q)"
    using pk fifo_next_mod [OF q(2)] by (simp add: fifo_dequeue_def)
  moreover have "fifo_ok ?q" using assms(1) q k by (simp add: fifo_ok_def mod_add_left_eq)
  ultimately show thesis using l pk by (intro that [of ?q]) simp_all
qed

subsection \<open>Runs of stack and queue\<close>

text \<open>The callers test for room and for elements first, as the flood fill and the other algorithms do.\<close>

datatype access = In "u8 list" | Out "u8 list"

inductive lifo_step :: "lifo_t \<Rightarrow> access \<Rightarrow> lifo_t \<Rightarrow> bool" where
  "lifo_is_not_full l \<Longrightarrow> length x = lf_data_len l \<Longrightarrow> lifo_enqueue l x = Some l' \<Longrightarrow> lifo_step l (In x) l'"
| "lifo_is_not_empty l \<Longrightarrow> lifo_dequeue l True = Some (Some x, l') \<Longrightarrow> lifo_step l (Out x) l'"

inductive fifo_step :: "fifo_t \<Rightarrow> access \<Rightarrow> fifo_t \<Rightarrow> bool" where
  "fifo_is_not_full q \<Longrightarrow> length x = ff_data_len q \<Longrightarrow> fifo_enqueue q x = Some q' \<Longrightarrow> fifo_step q (In x) q'"
| "fifo_is_not_empty q \<Longrightarrow> fifo_dequeue q True = Some (Some x, q') \<Longrightarrow> fifo_step q (Out x) q'"

fun stack_spec :: "access \<Rightarrow> u8 list list \<Rightarrow> u8 list list option" where
  "stack_spec (In x) xs = Some (xs @ [x])"
| "stack_spec (Out x) xs = (if xs \<noteq> [] \<and> last xs = x then Some (butlast xs) else None)"

fun queue_spec :: "access \<Rightarrow> u8 list list \<Rightarrow> u8 list list option" where
  "queue_spec (In x) xs = Some (xs @ [x])"
| "queue_spec (Out x) xs = (if xs \<noteq> [] \<and> hd xs = x then Some (tl xs) else None)"

lemma lifo_list_empty: "lifo_list l = [] \<longleftrightarrow> \<not> lifo_is_not_empty l"
  by (simp add: lifo_list_def lifo_is_not_empty_def)

interpretation lifo: implements lifo_step lifo_ok lifo_list stack_spec
proof unfold_locales
  fix l e l' assume ok: "lifo_ok l" and st: "lifo_step l e l'"
  from st have "lifo_ok l' \<and> stack_spec e (lifo_list l) = Some (lifo_list l')"
  proof cases
    case (1 x)
    obtain l1 where l1: "lifo_enqueue l x = Some l1" "lifo_ok l1" "lifo_list l1 = lifo_list l @ [x]"
      by (rule lifo_push [OF ok 1(2,3)])
    with 1(4) have "l' = l1" by simp
    then show ?thesis using l1 1(1) by simp
  next
    case (2 x)
    obtain l1 where l1: "lifo_dequeue l True = Some (Some (last (lifo_list l)), l1)" "lifo_ok l1" "lifo_list l1 = butlast (lifo_list l)"
      by (rule lifo_pop [OF ok 2(2), of True]) simp
    with 2(3) have "x = last (lifo_list l)" "l' = l1" by simp_all
    then show ?thesis using l1 2(1,2) lifo_list_empty [of l] by simp
  qed
  then show "lifo_ok l'" "stack_spec e (lifo_list l) = Some (lifo_list l')" by auto
qed

interpretation fifo: implements fifo_step fifo_ok fifo_list queue_spec
proof unfold_locales
  fix q e q' assume ok: "fifo_ok q" and st: "fifo_step q e q'"
  from st have "fifo_ok q' \<and> queue_spec e (fifo_list q) = Some (fifo_list q')"
  proof cases
    case (1 x)
    obtain q1 where q1: "fifo_enqueue q x = Some q1" "fifo_ok q1" "fifo_list q1 = fifo_list q @ [x]"
      by (rule fifo_push [OF ok 1(2,3)])
    with 1(4) have "q' = q1" by simp
    then show ?thesis using q1 1(1) by simp
  next
    case (2 x)
    obtain q1 where q1: "fifo_dequeue q True = Some (Some (hd (fifo_list q)), q1)" "fifo_ok q1" and l: "fifo_list q = hd (fifo_list q) # fifo_list q1"
      by (rule fifo_pop [OF ok 2(2), of True]) simp
    with 2(3) have x: "x = hd (fifo_list q)" "q' = q1" by simp_all
    have "fifo_list q \<noteq> []" "tl (fifo_list q) = fifo_list q1" using l by (metis list.distinct(1), metis list.sel(3))
    then show ?thesis using x q1(2) 2(1) by simp
  qed
  then show "fifo_ok q'" "queue_spec e (fifo_list q) = Some (fifo_list q')" by auto
qed

fun ins :: "access list \<Rightarrow> u8 list list" where
  "ins [] = []" | "ins (In x # es) = x # ins es" | "ins (Out x # es) = ins es"

fun outs :: "access list \<Rightarrow> u8 list list" where
  "outs [] = []" | "outs (In x # es) = outs es" | "outs (Out x # es) = x # outs es"

lemma queue_order: "spec_run queue_spec es xs = Some ys \<Longrightarrow> xs @ ins es = outs es @ ys"
proof (induction es arbitrary: xs)
  case (Cons e es)
  then show ?case
  proof (cases e)
    case (Out x)
    then show ?thesis using Cons by (cases xs) (auto split: if_splits)
  next
    case (In x)
    then show ?thesis using Cons.IH [of "xs @ [x]"] Cons.prems by simp
  qed
qed simp

text \<open>
  \<^bold>\<open>C22\<close>: The queue of the image library. Over every run of \<^verbatim>\<open>fifo_enqueue\<close> and \<^verbatim>\<open>fifo_dequeue\<close> on a queue whose memory fits its size,
  called when the queue has room or an element, the blocks come out in the order they went in, byte for byte, and none
  is lost; and neither call then accesses memory outside the queue.
\<close>

theorem fifo_keeps_order:
  assumes "run fifo_step (fifo_alloc n k d) es q" "length d = n * k" "0 < n" "n < 2 ^ 64"
  shows "ins es = outs es @ fifo_list q \<and>
     (\<forall>x. fifo_is_not_full q \<and> length x = k \<longrightarrow> fifo_enqueue q x \<noteq> None) \<and> (fifo_is_not_empty q \<longrightarrow> fifo_dequeue q True \<noteq> None)"
proof -
  have ok: "fifo_ok (fifo_alloc n k d)" "fifo_list (fifo_alloc n k d) = []"
    using assms by (simp_all add: fifo_ok_def fifo_alloc_def fifo_list_def)
  have len: "ff_data_len q = k"
  proof -
    have frame: "ff_data_len q' = ff_data_len p" if "fifo_step p e q'" for p e q'
      using that by cases (auto simp: fifo_enqueue_def fifo_dequeue_def bind_eq_Some_conv split: if_splits)
    have "ff_data_len q = ff_data_len p" if "run fifo_step p es q" for p es q using that by (induction rule: run.induct) (auto dest: frame)
    from this [OF assms(1)] show ?thesis by (simp add: fifo_alloc_def)
  qed
  have inv: "fifo_ok q" by (rule fifo.run_inv [OF assms(1) ok(1)])
  have "ins es = outs es @ fifo_list q" using queue_order [OF fifo.run_refines [OF assms(1) ok(1)]] ok(2) by simp
  moreover have "fifo_enqueue q x \<noteq> None" if "fifo_is_not_full q" "length x = k" for x
    by (rule fifo_push [OF inv that(1), of x]) (simp_all add: that(2) len)
  moreover have "fifo_dequeue q True \<noteq> None" if "fifo_is_not_empty q"
    by (rule fifo_pop [OF inv that, of True]) simp
  ultimately show ?thesis by blast
qed

theorem fifo_keeps_order_witness:
  "\<exists>q. run fifo_step (fifo_alloc 2 2 [0, 0, 0, 0]) [In [1, 2], In [3, 4], Out [1, 2], In [5, 6]] q \<and> fifo_list q = [[3, 4], [5, 6]]"
proof -
  let ?q0 = "fifo_alloc 2 2 [0, 0, 0, 0]"
  let ?q1 = "the (fifo_enqueue ?q0 [1, 2])" let ?q2 = "the (fifo_enqueue ?q1 [3, 4])" let ?q3 = "snd (the (fifo_dequeue ?q2 True))"
  let ?q4 = "the (fifo_enqueue ?q3 [5, 6])"
  note e = fifo_alloc_def fifo_enqueue_def fifo_dequeue_def fifo_peek_def fifo_next_def memcpy_to_def memread_def blit_def
    fifo_is_not_full_def fifo_is_not_empty_def
  have "fifo_step ?q0 (In [1, 2]) ?q1" "fifo_step ?q1 (In [3, 4]) ?q2" by (intro fifo_step.intros; simp add: e)+
  moreover have "fifo_step ?q2 (Out [1, 2]) ?q3" "fifo_step ?q3 (In [5, 6]) ?q4" by (intro fifo_step.intros; simp add: e)+
  ultimately have r: "run fifo_step ?q0 [In [1, 2], In [3, 4], Out [1, 2], In [5, 6]] ?q4" by auto
  from fifo_keeps_order [OF r] have "fifo_list ?q4 = [[3, 4], [5, 6]]" by simp
  with r show ?thesis by blast
qed

end
