(* ===== verification/Omv_List.thy ===== *)
theory Omv_List
  imports Omv_Array Refinement
begin

text \<open>
  The linked lists of the image library (\<^verbatim>\<open>omv/img/collections.c\<close>), which hold the results of the detectors. The links
  are cells of the interpreter's heap at 64-bit addresses, zero is \<^verbatim>\<open>NULL\<close>; following \<^verbatim>\<open>NULL\<close> or the address of
  a link that was released is \<open>None\<close>. The address \<^verbatim>\<open>xalloc\<close> returns is an argument, zero where the heap is exhausted
  and \<^verbatim>\<open>xalloc\<close> raises an exception.
\<close>

record list_lnk_t =
  next_ptr :: u64
  prev_ptr :: u64
  lnk_data :: "u8 list"

record list_t =
  head_ptr :: u64
  tail_ptr :: u64
  ls_size :: u64
  ls_data_len :: nat

type_synonym lnk_heap = "u64 \<rightharpoonup> list_lnk_t"

definition link_at :: "lnk_heap \<Rightarrow> u64 \<Rightarrow> list_lnk_t option" where
  "link_at h a = (if a = 0 then None else h a)"

definition link_upd :: "u64 \<Rightarrow> (list_lnk_t \<Rightarrow> list_lnk_t) \<Rightarrow> lnk_heap \<Rightarrow> lnk_heap option" where
  "link_upd a f h = map_option (\<lambda>n. h(a \<mapsto> f n)) (link_at h a)"

text \<open>\<^verbatim>\<open>memcpy\<close> of \<^verbatim>\<open>data_len\<close> bytes out of a block of bytes.\<close>

definition block_of :: "nat \<Rightarrow> u8 list \<Rightarrow> u8 list option" where
  "block_of n d = (if n \<le> length d then Some (take n d) else None)"

subsection \<open>The operations\<close>

definition list_init :: "nat \<Rightarrow> list_t" where
  "list_init data_len = \<lparr>head_ptr = 0, tail_ptr = 0, ls_size = 0, ls_data_len = data_len\<rparr>"

definition list_copy :: "list_t \<Rightarrow> list_t" where
  "list_copy src = src"

partial_function (option) list_free_loop :: "u64 \<Rightarrow> lnk_heap \<Rightarrow> lnk_heap option" where
  "list_free_loop i h =
     (if i = 0 then Some h
      else case h i of None \<Rightarrow> None | Some n \<Rightarrow> list_free_loop (next_ptr n) (h(i := None)))"

definition list_free :: "list_t \<Rightarrow> lnk_heap \<Rightarrow> lnk_heap option" where
  "list_free ptr h = list_free_loop (head_ptr ptr) h"

definition list_clear :: "list_t \<Rightarrow> lnk_heap \<Rightarrow> (list_t \<times> lnk_heap) option" where
  "list_clear ptr h = do { h1 \<leftarrow> list_free ptr h; Some (ptr\<lparr>head_ptr := 0, tail_ptr := 0, ls_size := 0\<rparr>, h1) }"

definition list_size :: "list_t \<Rightarrow> u64" where
  "list_size ptr = ls_size ptr"

definition list_push_front :: "u64 \<Rightarrow> u8 list \<Rightarrow> list_t \<Rightarrow> lnk_heap \<Rightarrow> (list_t \<times> lnk_heap) outcome option" where
  "list_push_front tmp data ptr h =
     (if tmp = 0 then Some MemoryError
      else do { d \<leftarrow> block_of (ls_data_len ptr) data;
                if ls_size ptr \<noteq> 0
                then do { h1 \<leftarrow> link_upd (head_ptr ptr) (\<lambda>n. n\<lparr>prev_ptr := tmp\<rparr>)
                                  (h(tmp \<mapsto> \<lparr>next_ptr = head_ptr ptr, prev_ptr = 0, lnk_data = d\<rparr>));
                          Some (Returns (ptr\<lparr>ls_size := ls_size ptr + 1, head_ptr := tmp\<rparr>, h1)) }
                else Some (Returns (ptr\<lparr>ls_size := ls_size ptr + 1, head_ptr := tmp, tail_ptr := tmp\<rparr>,
                                    h(tmp \<mapsto> \<lparr>next_ptr = 0, prev_ptr = 0, lnk_data = d\<rparr>))) })"

definition list_push_back :: "u64 \<Rightarrow> u8 list \<Rightarrow> list_t \<Rightarrow> lnk_heap \<Rightarrow> (list_t \<times> lnk_heap) outcome option" where
  "list_push_back tmp data ptr h =
     (if tmp = 0 then Some MemoryError
      else do { d \<leftarrow> block_of (ls_data_len ptr) data;
                if ls_size ptr \<noteq> 0
                then do { h1 \<leftarrow> link_upd (tail_ptr ptr) (\<lambda>n. n\<lparr>next_ptr := tmp\<rparr>)
                                  (h(tmp \<mapsto> \<lparr>next_ptr = 0, prev_ptr = tail_ptr ptr, lnk_data = d\<rparr>));
                          Some (Returns (ptr\<lparr>ls_size := ls_size ptr + 1, tail_ptr := tmp\<rparr>, h1)) }
                else Some (Returns (ptr\<lparr>ls_size := ls_size ptr + 1, head_ptr := tmp, tail_ptr := tmp\<rparr>,
                                    h(tmp \<mapsto> \<lparr>next_ptr = 0, prev_ptr = 0, lnk_data = d\<rparr>))) })"

text \<open>The block is copied to the caller unless it passes \<^verbatim>\<open>NULL\<close>.\<close>

definition copy_out :: "bool \<Rightarrow> nat \<Rightarrow> list_lnk_t \<Rightarrow> u8 list option option" where
  "copy_out want n l = (if want then map_option Some (block_of n (lnk_data l)) else Some None)"

definition list_pop_front :: "bool \<Rightarrow> list_t \<Rightarrow> lnk_heap \<Rightarrow> (u8 list option \<times> list_t \<times> lnk_heap) option" where
  "list_pop_front want ptr h =
     do { tmp \<leftarrow> link_at h (head_ptr ptr);
          r \<leftarrow> copy_out want (ls_data_len ptr) tmp;
          h1 \<leftarrow> (if next_ptr tmp \<noteq> 0 then link_upd (next_ptr tmp) (\<lambda>n. n\<lparr>prev_ptr := 0\<rparr>) h else Some h);
          Some (r, ptr\<lparr>head_ptr := next_ptr tmp, ls_size := ls_size ptr - 1\<rparr>, h1(head_ptr ptr := None)) }"

definition list_pop_back :: "bool \<Rightarrow> list_t \<Rightarrow> lnk_heap \<Rightarrow> (u8 list option \<times> list_t \<times> lnk_heap) option" where
  "list_pop_back want ptr h =
     do { tmp \<leftarrow> link_at h (tail_ptr ptr);
          r \<leftarrow> copy_out want (ls_data_len ptr) tmp;
          h1 \<leftarrow> link_upd (prev_ptr tmp) (\<lambda>n. n\<lparr>next_ptr := 0\<rparr>) h;
          Some (r, ptr\<lparr>tail_ptr := prev_ptr tmp, ls_size := ls_size ptr - 1\<rparr>, h1(tail_ptr ptr := None)) }"

definition link_get :: "list_t \<Rightarrow> u64 \<Rightarrow> lnk_heap \<Rightarrow> u8 list option" where
  "link_get ptr i h = do { n \<leftarrow> link_at h i; block_of (ls_data_len ptr) (lnk_data n) }"

definition link_set :: "list_t \<Rightarrow> u64 \<Rightarrow> u8 list \<Rightarrow> lnk_heap \<Rightarrow> lnk_heap option" where
  "link_set ptr i data h =
     do { d \<leftarrow> block_of (ls_data_len ptr) data;
          n \<leftarrow> link_at h i;
          if ls_data_len ptr \<le> length (lnk_data n) then Some (h(i \<mapsto> n\<lparr>lnk_data := d @ drop (ls_data_len ptr) (lnk_data n)\<rparr>)) else None }"

definition list_get_front :: "list_t \<Rightarrow> lnk_heap \<Rightarrow> u8 list option" where
  "list_get_front ptr h = link_get ptr (head_ptr ptr) h"

definition list_get_back :: "list_t \<Rightarrow> lnk_heap \<Rightarrow> u8 list option" where
  "list_get_back ptr h = link_get ptr (tail_ptr ptr) h"

definition list_set_front :: "list_t \<Rightarrow> u8 list \<Rightarrow> lnk_heap \<Rightarrow> lnk_heap option" where
  "list_set_front ptr data h = link_set ptr (head_ptr ptr) data h"

definition list_set_back :: "list_t \<Rightarrow> u8 list \<Rightarrow> lnk_heap \<Rightarrow> lnk_heap option" where
  "list_set_back ptr data h = link_set ptr (tail_ptr ptr) data h"

text \<open>The loops to the link at an index, from whichever end is nearer.\<close>

primrec walk_links :: "(list_lnk_t \<Rightarrow> u64) \<Rightarrow> nat \<Rightarrow> lnk_heap \<Rightarrow> u64 \<Rightarrow> u64 option" where
  "walk_links dir 0 h i = Some i"
| "walk_links dir (Suc n) h i = (case link_at h i of None \<Rightarrow> None | Some l \<Rightarrow> walk_links dir n h (dir l))"

definition seek :: "list_t \<Rightarrow> u64 \<Rightarrow> lnk_heap \<Rightarrow> u64 option" where
  "seek ptr index h =
     (if index < drop_bit 1 (ls_size ptr) then walk_links next_ptr (unat index) h (head_ptr ptr)
      else walk_links prev_ptr (unat (ls_size ptr - index - 1)) h (tail_ptr ptr))"

definition list_insert :: "u64 \<Rightarrow> u8 list \<Rightarrow> u64 \<Rightarrow> list_t \<Rightarrow> lnk_heap \<Rightarrow> (list_t \<times> lnk_heap) outcome option" where
  "list_insert tmp data index ptr h =
     (if index = 0 then list_push_front tmp data ptr h
      else if index \<ge> ls_size ptr then list_push_back tmp data ptr h
      else do { i \<leftarrow> seek ptr index h;
                if tmp = 0 then Some MemoryError
                else do { d \<leftarrow> block_of (ls_data_len ptr) data;
                          n \<leftarrow> link_at h i;
                          h1 \<leftarrow> link_upd (prev_ptr n) (\<lambda>l. l\<lparr>next_ptr := tmp\<rparr>)
                                  (h(tmp \<mapsto> \<lparr>next_ptr = i, prev_ptr = prev_ptr n, lnk_data = d\<rparr>));
                          h2 \<leftarrow> link_upd i (\<lambda>l. l\<lparr>prev_ptr := tmp\<rparr>) h1;
                          Some (Returns (ptr\<lparr>ls_size := ls_size ptr + 1\<rparr>, h2)) } })"

definition list_remove :: "bool \<Rightarrow> u64 \<Rightarrow> list_t \<Rightarrow> lnk_heap \<Rightarrow> (u8 list option \<times> list_t \<times> lnk_heap) option" where
  "list_remove want index ptr h =
     (if index = 0 then list_pop_front want ptr h
      else if index \<ge> ls_size ptr - 1 then list_pop_back want ptr h
      else do { i \<leftarrow> seek ptr index h;
                n \<leftarrow> link_at h i;
                r \<leftarrow> copy_out want (ls_data_len ptr) n;
                h1 \<leftarrow> link_upd (prev_ptr n) (\<lambda>l. l\<lparr>next_ptr := next_ptr n\<rparr>) h;
                h2 \<leftarrow> link_upd (next_ptr n) (\<lambda>l. l\<lparr>prev_ptr := prev_ptr n\<rparr>) h1;
                Some (r, ptr\<lparr>ls_size := ls_size ptr - 1\<rparr>, h2(i := None)) })"

definition list_get :: "u64 \<Rightarrow> list_t \<Rightarrow> lnk_heap \<Rightarrow> u8 list option" where
  "list_get index ptr h =
     (if index = 0 then list_get_front ptr h
      else if index \<ge> ls_size ptr - 1 then list_get_back ptr h
      else do { i \<leftarrow> seek ptr index h; link_get ptr i h })"

definition list_set :: "u8 list \<Rightarrow> u64 \<Rightarrow> list_t \<Rightarrow> lnk_heap \<Rightarrow> lnk_heap option" where
  "list_set data index ptr h =
     (if index = 0 then list_set_front ptr data h
      else if index \<ge> ls_size ptr - 1 then list_set_back ptr data h
      else do { i \<leftarrow> seek ptr index h; link_set ptr i data h })"

definition iterator_start_from_head :: "list_t \<Rightarrow> u64" where
  "iterator_start_from_head ptr = head_ptr ptr"

definition iterator_start_from_tail :: "list_t \<Rightarrow> u64" where
  "iterator_start_from_tail ptr = tail_ptr ptr"

definition iterator_next :: "u64 \<Rightarrow> lnk_heap \<Rightarrow> u64 option" where
  "iterator_next lnk h = map_option next_ptr (link_at h lnk)"

definition iterator_prev :: "u64 \<Rightarrow> lnk_heap \<Rightarrow> u64 option" where
  "iterator_prev lnk h = map_option prev_ptr (link_at h lnk)"

definition iterator_get :: "list_t \<Rightarrow> u64 \<Rightarrow> lnk_heap \<Rightarrow> u8 list option" where
  "iterator_get ptr lnk h = link_get ptr lnk h"

definition iterator_set :: "list_t \<Rightarrow> u64 \<Rightarrow> u8 list \<Rightarrow> lnk_heap \<Rightarrow> lnk_heap option" where
  "iterator_set ptr lnk data h = link_set ptr lnk data h"

subsection \<open>Well-formed lists\<close>

fun start :: "u64 list \<Rightarrow> u64 \<Rightarrow> u64" where
  "start [] q = q"
| "start (a # as) q = a"

fun finish :: "u64 \<Rightarrow> u64 list \<Rightarrow> u64" where
  "finish p [] = p"
| "finish p (a # as) = finish a as"

fun linked :: "lnk_heap \<Rightarrow> u64 \<Rightarrow> u64 list \<Rightarrow> u64 \<Rightarrow> bool" where
  "linked h p [] q \<longleftrightarrow> True"
| "linked h p (a # as) q \<longleftrightarrow>
     a \<noteq> 0 \<and> (\<exists>n. h a = Some n \<and> prev_ptr n = p \<and> next_ptr n = start as q) \<and> linked h a as q"

lemma start_append [simp]: "start (as @ bs) q = start as (start bs q)"
  by (cases as) auto

lemma finish_append [simp]: "finish p (as @ bs) = finish (finish p as) bs"
  by (induction p as rule: finish.induct) auto

lemma linked_append [simp]: "linked h p (as @ bs) q \<longleftrightarrow> linked h p as (start bs q) \<and> linked h (finish p as) bs q"
  by (induction as arbitrary: p) auto

lemma linked_cong: "\<forall>a \<in> set ps. h' a = h a \<Longrightarrow> linked h' p ps q = linked h p ps q"
  by (induction ps arbitrary: p) auto

lemma linked_nonzero: "linked h p ps q \<Longrightarrow> 0 \<notin> set ps"
  by (induction ps arbitrary: p) auto

lemma finish_last: "ps \<noteq> [] \<Longrightarrow> finish p ps = last ps"
  by (induction ps arbitrary: p) auto

definition data_of :: "lnk_heap \<Rightarrow> u64 \<Rightarrow> u8 list" where
  "data_of h a = lnk_data (the (h a))"

definition list_rep :: "list_t \<Rightarrow> lnk_heap \<Rightarrow> u64 list \<Rightarrow> bool" where
  "list_rep ptr h ps \<longleftrightarrow> distinct ps \<and> linked h 0 ps 0 \<and> head_ptr ptr = start ps 0 \<and> (ps \<noteq> [] \<longrightarrow> tail_ptr ptr = finish 0 ps) \<and>
     unat (ls_size ptr) = length ps \<and> (\<forall>a \<in> set ps. length (data_of h a) = ls_data_len ptr)"

lemma rep_room:
  assumes "linked h p ps q" "distinct ps" "h a = None" "a \<noteq> 0"
  shows "a \<notin> set ps" "Suc (length ps) < 2 ^ 64"
proof -
  have "h b \<noteq> None" if "b \<in> set ps" for b using assms(1) that by (induction ps arbitrary: p) auto
  then show a: "a \<notin> set ps" using assms(3) by blast
  have "0 \<notin> set ps" using linked_nonzero [OF assms(1)] .
  then have "card (set (0 # a # ps)) = Suc (Suc (length ps))" using a assms(2,4) by (simp add: distinct_card)
  moreover have "card (set (0 # a # ps)) \<le> CARD(64 word)" by (rule card_mono) auto
  ultimately show "Suc (length ps) < 2 ^ 64" by (simp add: card_word)
qed

lemma unat_inc: "Suc (unat x) < 2 ^ 64 \<Longrightarrow> unat (x + 1 :: u64) = Suc (unat x)"
  by (simp add: unat_word_ariths)

lemma unat_dec: "x \<noteq> 0 \<Longrightarrow> unat (x - 1 :: u64) = unat x - 1"
  by (metis unat_minus_one)

lemma link_at_linked: "linked h p (as @ a # bs) q \<Longrightarrow>
    link_at h a = Some (the (h a)) \<and> prev_ptr (the (h a)) = finish p as \<and> next_ptr (the (h a)) = start bs q"
  by (auto simp: link_at_def)

lemma block_of_exact [simp]: "length d = n \<Longrightarrow> block_of n d = Some d"
  by (simp add: block_of_def)

lemma copy_out_exact [simp]: "length (lnk_data l) = n \<Longrightarrow> copy_out want n l = Some (if want then Some (lnk_data l) else None)"
  by (simp add: copy_out_def)

lemma rep_split:
  assumes "list_rep ptr h ps" "i < length ps"
  obtains as a bs where "ps = as @ a # bs" "length as = i" "a = ps ! i"
  using id_take_nth_drop [OF assms(2)] assms(2) by (metis length_take min.absorb4)

text \<open>The heap after a link is inserted between \<open>as\<close> and \<open>bs\<close>, and after one is taken out.\<close>

definition joined :: "u64 \<Rightarrow> u64 list \<Rightarrow> u64 list \<Rightarrow> lnk_heap \<Rightarrow> lnk_heap" where
  "joined tmp as bs h =
     (let h1 = (if as = [] then h else h(last as \<mapsto> (the (h (last as)))\<lparr>next_ptr := tmp\<rparr>))
      in if bs = [] then h1 else h1(hd bs \<mapsto> (the (h1 (hd bs)))\<lparr>prev_ptr := tmp\<rparr>))"

definition parted :: "u64 list \<Rightarrow> u64 list \<Rightarrow> lnk_heap \<Rightarrow> lnk_heap" where
  "parted as bs h =
     (let h1 = (if as = [] then h else h(last as \<mapsto> (the (h (last as)))\<lparr>next_ptr := start bs 0\<rparr>))
      in if bs = [] then h1 else h1(hd bs \<mapsto> (the (h1 (hd bs)))\<lparr>prev_ptr := finish 0 as\<rparr>))"

lemma joined_linked:
  assumes "linked h 0 (as @ bs) 0" "distinct (as @ bs)" "tmp \<notin> set (as @ bs)" "tmp \<noteq> 0"
    and h'_def: "h' = joined tmp as bs (h(tmp \<mapsto> \<lparr>next_ptr = start bs 0, prev_ptr = finish 0 as, lnk_data = d\<rparr>))"
  shows "linked h' 0 (as @ tmp # bs) 0" "data_of h' tmp = d" "a \<in> set (as @ bs) \<Longrightarrow> data_of h' a = data_of h a"
proof -
  have l: "linked h' p (butlast as) q = linked h p (butlast as) q" for p q
    by (rule linked_cong) (use assms in \<open>cases as rule: rev_cases; cases bs; auto simp: joined_def\<close>)
  have r: "linked h' p (tl bs) q = linked h p (tl bs) q" for p q
    by (rule linked_cong) (use assms in \<open>cases as rule: rev_cases; cases bs; auto simp: joined_def\<close>)
  show "linked h' 0 (as @ tmp # bs) 0"
    using l r assms(1-4) by (cases as rule: rev_cases; cases bs) (auto simp: joined_def h'_def)
  show "data_of h' tmp = d" using assms(3) by (cases as rule: rev_cases; cases bs) (auto simp: joined_def h'_def data_of_def)
  show "data_of h' a = data_of h a" if "a \<in> set (as @ bs)"
    using that assms(1-3) by (cases as rule: rev_cases; cases bs) (auto simp: joined_def h'_def data_of_def)
qed

lemma parted_linked:
  assumes "linked h 0 (as @ c # bs) 0" "distinct (as @ c # bs)"
  defines "h' \<equiv> (parted as bs h)(c := None)"
  shows "linked h' 0 (as @ bs) 0" "a \<in> set (as @ bs) \<Longrightarrow> data_of h' a = data_of h a"
proof -
  have l: "linked h' p (butlast as) q = linked h p (butlast as) q" for p q
    by (rule linked_cong) (use assms in \<open>cases as rule: rev_cases; cases bs; auto simp: parted_def\<close>)
  have r: "linked h' p (tl bs) q = linked h p (tl bs) q" for p q
    by (rule linked_cong) (use assms in \<open>cases as rule: rev_cases; cases bs; auto simp: parted_def\<close>)
  show "linked h' 0 (as @ bs) 0"
    using l r assms(1,2) by (cases as rule: rev_cases; cases bs) (auto simp: parted_def h'_def)
  show "data_of h' a = data_of h a" if "a \<in> set (as @ bs)"
    using that assms(1,2) by (cases as rule: rev_cases; cases bs) (auto simp: parted_def h'_def data_of_def)
qed

lemma joined_rep:
  assumes "list_rep ptr h (as @ bs)" "h tmp = None" "tmp \<noteq> 0" "length d = ls_data_len ptr"
    and "head_ptr ptr' = start as tmp" "tail_ptr ptr' = finish tmp bs" "ls_size ptr' = ls_size ptr + 1" "ls_data_len ptr' = ls_data_len ptr"
    and h'_def: "h' = joined tmp as bs (h(tmp \<mapsto> \<lparr>next_ptr = start bs 0, prev_ptr = finish 0 as, lnk_data = d\<rparr>))"
  shows "list_rep ptr' h' (as @ tmp # bs)" "map (data_of h') (as @ tmp # bs) = map (data_of h) as @ d # map (data_of h) bs"
proof -
  have rep: "linked h 0 (as @ bs) 0" "distinct (as @ bs)" "unat (ls_size ptr) = length (as @ bs)"
    "\<forall>a \<in> set (as @ bs). length (data_of h a) = ls_data_len ptr" using assms(1) by (auto simp: list_rep_def)
  note new = rep_room [OF rep(1,2) assms(2,3)]
  note j = joined_linked [OF rep(1,2) new(1) assms(3) h'_def]
  show "list_rep ptr' h' (as @ tmp # bs)"
    using j rep new assms(4-8) unat_inc [of "ls_size ptr"] by (cases as) (auto simp: list_rep_def)
  show "map (data_of h') (as @ tmp # bs) = map (data_of h) as @ d # map (data_of h) bs" using j(2,3) by simp
qed

lemma parted_rep:
  assumes "list_rep ptr h (as @ c # bs)"
    and "head_ptr ptr' = start as (start bs 0)" "as @ bs \<noteq> [] \<longrightarrow> tail_ptr ptr' = finish 0 (as @ bs)" "ls_size ptr' = ls_size ptr - 1"
    and "ls_data_len ptr' = ls_data_len ptr"
  defines "h' \<equiv> (parted as bs h)(c := None)"
  shows "list_rep ptr' h' (as @ bs)" "map (data_of h') (as @ bs) = map (data_of h) (as @ bs)"
proof -
  have rep: "linked h 0 (as @ c # bs) 0" "distinct (as @ c # bs)" "unat (ls_size ptr) = Suc (length (as @ bs))"
    "\<forall>a \<in> set (as @ bs). length (data_of h a) = ls_data_len ptr" using assms(1) by (auto simp: list_rep_def)
  note p = parted_linked [OF rep(1,2), folded h'_def]
  have "ls_size ptr \<noteq> 0" using rep(3) by auto
  then show "list_rep ptr' h' (as @ bs)"
    using p rep assms(2-5) unat_dec [of "ls_size ptr"] by (auto simp: list_rep_def)
  show "map (data_of h') (as @ bs) = map (data_of h) (as @ bs)" using p(2) by simp
qed

subsection \<open>Every operation on a well-formed list\<close>

lemma walk_next: "linked h p as q \<Longrightarrow> i < length as \<Longrightarrow> walk_links next_ptr i h (start as q) = Some (as ! i)"
proof (induction i arbitrary: as p)
  case 0
  then show ?case by (cases as) auto
next
  case (Suc i)
  then obtain a as' where as: "as = a # as'" by (cases as) auto
  with Suc.prems have "link_at h a = Some (the (h a))" "next_ptr (the (h a)) = start as' q" by (auto simp: link_at_def)
  then show ?case using Suc.IH [of a as'] Suc.prems as by simp
qed

lemma walk_prev: "linked h p as q \<Longrightarrow> i < length as \<Longrightarrow> walk_links prev_ptr i h (finish p as) = Some (as ! (length as - 1 - i))"
proof (induction i arbitrary: as q)
  case 0
  then have "as \<noteq> []" by auto
  then show ?case by (simp add: finish_last last_conv_nth)
next
  case (Suc i)
  then obtain a as' where as: "as = as' @ [a]" by (cases as rule: rev_cases) auto
  with Suc.prems have "link_at h a = Some (the (h a))" "prev_ptr (the (h a)) = finish p as'" by (auto simp: link_at_def)
  then show ?case using Suc.IH [of as' a] Suc.prems as by (auto simp: nth_append)
qed

lemma seek_nth:
  assumes "list_rep ptr h ps" "unat index < length ps"
  shows "seek ptr index h = Some (ps ! unat index)"
proof -
  have r: "linked h 0 ps 0" "head_ptr ptr = start ps 0" "tail_ptr ptr = finish 0 ps" "unat (ls_size ptr) = length ps"
    using assms by (auto simp: list_rep_def)
  have "index < ls_size ptr" using assms(2) r(4) by (simp add: word_less_nat_alt)
  then have "unat (ls_size ptr - index) = length ps - unat index" "ls_size ptr - index \<noteq> 0"
    using r(4) by (auto simp: unat_sub word_less_nat_alt word_le_nat_alt)
  then have e: "unat (ls_size ptr - index - 1) = length ps - 1 - unat index" by (simp add: unat_dec)
  have "walk_links prev_ptr (length ps - 1 - unat index) h (finish 0 ps) = Some (ps ! unat index)"
    using walk_prev [OF r(1), of "length ps - 1 - unat index"] assms(2) by simp
  then show ?thesis using walk_next [OF r(1) assms(2)] r(2,3) e by (simp add: seek_def)
qed

definition spliced :: "nat \<Rightarrow> 'a list \<Rightarrow> 'a list \<Rightarrow> 'a list" where
  "spliced i x xs = take i xs @ x @ drop i xs"

lemma list_push_front_rep:
  assumes "list_rep ptr h ps" "h tmp = None" "tmp \<noteq> 0" "length d = ls_data_len ptr"
  obtains ptr' h' where "list_push_front tmp d ptr h = Some (Returns (ptr', h'))" "list_rep ptr' h' (tmp # ps)"
    "map (data_of h') (tmp # ps) = d # map (data_of h) ps"
proof -
  let ?ptr = "ptr\<lparr>ls_size := ls_size ptr + 1, head_ptr := tmp, tail_ptr := finish tmp ps\<rparr>"
  let ?h = "joined tmp [] ps (h(tmp \<mapsto> \<lparr>next_ptr = start ps 0, prev_ptr = finish 0 [], lnk_data = d\<rparr>))"
  have r: "linked h 0 ps 0" "distinct ps" "unat (ls_size ptr) = length ps" "head_ptr ptr = start ps 0" "ps \<noteq> [] \<longrightarrow> tail_ptr ptr = finish 0 ps"
    using assms(1) by (auto simp: list_rep_def)
  have new: "tmp \<notin> set ps" using rep_room [OF r(1,2) assms(2,3)] by simp
  have "list_push_front tmp d ptr h = Some (Returns (?ptr, ?h))"
  proof (cases ps)
    case Nil
    then have "ls_size ptr = 0" using r(3) by (simp add: unat_eq_zero)
    then show ?thesis using Nil r assms(3,4) by (simp add: list_push_front_def joined_def)
  next
    case (Cons a as)
    then have "ls_size ptr \<noteq> 0" using r(3) by auto
    then show ?thesis using Cons r assms(3,4) new by (auto simp: list_push_front_def joined_def link_upd_def link_at_def)
  qed
  moreover have "list_rep ?ptr ?h ([] @ tmp # ps)" "map (data_of ?h) ([] @ tmp # ps) = map (data_of h) [] @ d # map (data_of h) ps"
    by (rule joined_rep [where ptr = ptr and ptr' = ?ptr]; use assms in simp)+
  ultimately show ?thesis using that by simp
qed

lemma list_push_back_rep:
  assumes "list_rep ptr h ps" "h tmp = None" "tmp \<noteq> 0" "length d = ls_data_len ptr"
  obtains ptr' h' where "list_push_back tmp d ptr h = Some (Returns (ptr', h'))" "list_rep ptr' h' (ps @ [tmp])"
    "map (data_of h') (ps @ [tmp]) = map (data_of h) ps @ [d]"
proof -
  let ?ptr = "ptr\<lparr>ls_size := ls_size ptr + 1, head_ptr := start ps tmp, tail_ptr := tmp\<rparr>"
  let ?h = "joined tmp ps [] (h(tmp \<mapsto> \<lparr>next_ptr = start [] 0, prev_ptr = finish 0 ps, lnk_data = d\<rparr>))"
  have r: "linked h 0 ps 0" "distinct ps" "unat (ls_size ptr) = length ps" "head_ptr ptr = start ps 0" "ps \<noteq> [] \<longrightarrow> tail_ptr ptr = finish 0 ps"
    using assms(1) by (auto simp: list_rep_def)
  have new: "tmp \<notin> set ps" using rep_room [OF r(1,2) assms(2,3)] by simp
  have "list_push_back tmp d ptr h = Some (Returns (?ptr, ?h))"
  proof (cases ps rule: rev_cases)
    case Nil
    then have "ls_size ptr = 0" using r(3) by (simp add: unat_eq_zero)
    then show ?thesis using Nil r assms(3,4) by (simp add: list_push_back_def joined_def)
  next
    case (snoc as a)
    then have "ls_size ptr \<noteq> 0" "start ps tmp = start ps 0" using r(3) by auto
    then show ?thesis using snoc r assms(3,4) new by (auto simp: list_push_back_def joined_def link_upd_def link_at_def)
  qed
  moreover have "list_rep ?ptr ?h (ps @ tmp # [])" "map (data_of ?h) (ps @ tmp # []) = map (data_of h) ps @ d # map (data_of h) []"
    by (rule joined_rep [where ptr = ptr and ptr' = ?ptr]; use assms in simp)+
  ultimately show ?thesis using that by simp
qed

lemma list_insert_rep:
  assumes "list_rep ptr h ps" "h tmp = None" "tmp \<noteq> 0" "length d = ls_data_len ptr"
  obtains ptr' h' where "list_insert tmp d index ptr h = Some (Returns (ptr', h'))" "list_rep ptr' h' (spliced (unat index) [tmp] ps)"
    "map (data_of h') (spliced (unat index) [tmp] ps) = spliced (unat index) [d] (map (data_of h) ps)"
proof -
  have r: "linked h 0 ps 0" "distinct ps" "unat (ls_size ptr) = length ps" "head_ptr ptr = start ps 0" "ps \<noteq> [] \<longrightarrow> tail_ptr ptr = finish 0 ps"
    using assms(1) by (auto simp: list_rep_def)
  consider "index = 0" | "index \<noteq> 0" "ls_size ptr \<le> index" | "index \<noteq> 0" "index < ls_size ptr" by fastforce
  then show ?thesis
  proof cases
    case 1
    show ?thesis by (rule list_push_front_rep [OF assms]) (use that 1 in \<open>simp add: list_insert_def spliced_def\<close>)
  next
    case 2
    then have "length ps \<le> unat index" using r(3) by (simp add: word_le_nat_alt)
    then show ?thesis by - (rule list_push_back_rep [OF assms], use that 2 in \<open>simp add: list_insert_def spliced_def\<close>)
  next
    case 3
    then have i: "unat index < length ps" "0 < unat index" using r(3) by (simp_all add: word_less_nat_alt unat_gt_0)
    then obtain as b bs where ps: "ps = as @ b # bs" "length as = unat index" "b = ps ! unat index" using rep_split [OF assms(1)] by metis
    then have "as \<noteq> []" using i(2) by auto
    then obtain as' a where as: "as = as' @ [a]" by (cases as rule: rev_cases) auto
    let ?ptr = "ptr\<lparr>ls_size := ls_size ptr + 1\<rparr>"
    let ?h = "joined tmp as (b # bs) (h(tmp \<mapsto> \<lparr>next_ptr = start (b # bs) 0, prev_ptr = finish 0 as, lnk_data = d\<rparr>))"
    have new: "tmp \<notin> set ps" using rep_room [OF r(1,2) assms(2,3)] by simp
    have "list_insert tmp d index ptr h = Some (Returns (?ptr, ?h))"
      using 3 seek_nth [OF assms(1) i(1), folded ps(3)] r ps(1) as new assms(3,4)
      by (auto simp: list_insert_def joined_def link_upd_def link_at_def)
    moreover have "list_rep ?ptr ?h (as @ tmp # b # bs)"
      "map (data_of ?h) (as @ tmp # b # bs) = map (data_of h) as @ d # map (data_of h) (b # bs)"
      by (rule joined_rep [where ptr = ptr and ptr' = ?ptr]; use assms ps(1) as r in simp)+
    ultimately show ?thesis using that ps(1,2) by (simp add: spliced_def)
  qed
qed

definition dropped :: "nat \<Rightarrow> 'a list \<Rightarrow> 'a list" where
  "dropped i xs = take i xs @ drop (Suc i) xs"

lemma list_pop_front_rep:
  assumes "list_rep ptr h (a # ps)"
  obtains ptr' h' where "list_pop_front want ptr h = Some (if want then Some (data_of h a) else None, ptr', h')"
    "list_rep ptr' h' ps" "map (data_of h') ps = map (data_of h) ps" "ls_data_len ptr' = ls_data_len ptr"
proof -
  let ?ptr = "ptr\<lparr>head_ptr := start ps 0, ls_size := ls_size ptr - 1\<rparr>" and ?h = "(parted [] ps h)(a := None)"
  have r: "linked h 0 (a # ps) 0" "distinct (a # ps)" "head_ptr ptr = a" "tail_ptr ptr = finish a ps" "length (data_of h a) = ls_data_len ptr"
    using assms by (auto simp: list_rep_def)
  have "list_pop_front want ptr h = Some (if want then Some (data_of h a) else None, ?ptr, ?h)"
    using r by (cases ps) (auto simp: list_pop_front_def parted_def link_upd_def link_at_def data_of_def)
  moreover have "list_rep ?ptr ?h ([] @ ps)" "map (data_of ?h) ([] @ ps) = map (data_of h) ([] @ ps)"
    by (rule parted_rep [where ptr = ptr and ptr' = ?ptr]; use assms r in \<open>cases ps; simp\<close>)+
  ultimately show ?thesis using that by simp
qed

lemma list_pop_back_rep:
  assumes "list_rep ptr h (ps @ [a])" "ps \<noteq> []"
  obtains ptr' h' where "list_pop_back want ptr h = Some (if want then Some (data_of h a) else None, ptr', h')"
    "list_rep ptr' h' ps" "map (data_of h') ps = map (data_of h) ps" "ls_data_len ptr' = ls_data_len ptr"
proof -
  obtain as b where ps: "ps = as @ [b]" using assms(2) by (cases ps rule: rev_cases) auto
  let ?ptr = "ptr\<lparr>tail_ptr := finish 0 ps, ls_size := ls_size ptr - 1\<rparr>" and ?h = "(parted ps [] h)(a := None)"
  have r: "linked h 0 (ps @ [a]) 0" "distinct (ps @ [a])" "head_ptr ptr = start ps a" "tail_ptr ptr = a" "length (data_of h a) = ls_data_len ptr"
    using assms by (auto simp: list_rep_def)
  have "list_pop_back want ptr h = Some (if want then Some (data_of h a) else None, ?ptr, ?h)"
    using r ps by (auto simp: list_pop_back_def parted_def link_upd_def link_at_def data_of_def)
  moreover have "list_rep ?ptr ?h (ps @ [])" "map (data_of ?h) (ps @ []) = map (data_of h) (ps @ [])"
    by (rule parted_rep [where ptr = ptr and ptr' = ?ptr]; use assms r ps in simp)+
  ultimately show ?thesis using that by simp
qed

text \<open>A list with one element has no link before its tail.\<close>

lemma list_pop_back_single: "list_rep ptr h [a] \<Longrightarrow> list_pop_back want ptr h = None"
  by (auto simp: list_rep_def list_pop_back_def link_at_def link_upd_def data_of_def)

lemma list_remove_rep:
  assumes "list_rep ptr h ps" "index = 0 \<and> ps \<noteq> [] \<or> 2 \<le> length ps"
  defines "i \<equiv> min (unat index) (length ps - 1)"
  obtains ptr' h' where "list_remove want index ptr h = Some (if want then Some (data_of h (ps ! i)) else None, ptr', h')"
    "list_rep ptr' h' (dropped i ps)" "map (data_of h') (dropped i ps) = dropped i (map (data_of h) ps)" "ls_data_len ptr' = ls_data_len ptr"
proof -
  have r: "linked h 0 ps 0" "distinct ps" "unat (ls_size ptr) = length ps" "head_ptr ptr = start ps 0" "ps \<noteq> [] \<longrightarrow> tail_ptr ptr = finish 0 ps"
    "\<forall>a \<in> set ps. length (data_of h a) = ls_data_len ptr"
    using assms(1) by (auto simp: list_rep_def)
  have "ls_size ptr \<noteq> 0" using r(3) assms(2) by auto
  then have last: "unat (ls_size ptr - 1) = length ps - 1" using unat_dec r(3) by simp
  consider "index = 0" | "index \<noteq> 0" "ls_size ptr - 1 \<le> index" | "index \<noteq> 0" "index < ls_size ptr - 1" by fastforce
  then show ?thesis
  proof cases
    case 1
    with assms(2) obtain a as where ps: "ps = a # as" by (cases ps) auto
    with assms(1) have "list_rep ptr h (a # as)" by simp
    then show ?thesis
      by - (rule list_pop_front_rep [of ptr h a as want], assumption, use that 1 ps in \<open>simp add: list_remove_def dropped_def i_def\<close>)
  next
    case 2
    then have "length ps - 1 \<le> unat index" using last by (simp add: word_le_nat_alt)
    then have i: "i = length ps - 1" by (simp add: i_def)
    obtain as a where ps: "ps = as @ [a]" using assms(2) by (cases ps rule: rev_cases) auto
    moreover have "as \<noteq> []" using assms(2) 2(1) ps by auto
    moreover have "list_rep ptr h (as @ [a])" using assms(1) ps by simp
    ultimately show ?thesis
      by - (rule list_pop_back_rep [of ptr h as a want], assumption, assumption, use that 2 i in \<open>simp add: list_remove_def dropped_def\<close>)
  next
    case 3
    then have u: "unat index < length ps - 1" "0 < unat index" using last by (simp_all add: word_less_nat_alt unat_gt_0)
    then have i: "i = unat index" "unat index < length ps" by (simp_all add: i_def)
    then obtain as b bs where ps: "ps = as @ b # bs" "length as = unat index" "b = ps ! unat index" using rep_split [OF assms(1)] by metis
    obtain as' a where as: "as = as' @ [a]" using ps(2) u(2) by (cases as rule: rev_cases) auto
    obtain c cs where bs: "bs = c # cs" using ps(1,2) u(1) by (cases bs) auto
    let ?ptr = "ptr\<lparr>ls_size := ls_size ptr - 1\<rparr>" and ?h = "(parted as bs h)(b := None)"
    have "list_remove want index ptr h = Some (if want then Some (data_of h b) else None, ?ptr, ?h)"
      using 3 seek_nth [OF assms(1) i(2), folded ps(3)] r ps(1) as bs
      by (auto simp: list_remove_def parted_def link_upd_def link_at_def data_of_def)
    moreover have "list_rep ?ptr ?h (as @ bs)" "map (data_of ?h) (as @ bs) = map (data_of h) (as @ bs)"
      by (rule parted_rep [where ptr = ptr and ptr' = ?ptr]; use assms(1) ps(1) as bs r in simp)+
    moreover have "dropped i ps = as @ bs" "dropped i (map (data_of h) ps) = map (data_of h) (as @ bs)"
      using ps(1,2) i(1) by (simp_all add: dropped_def)
    moreover have "ps ! i = b" using ps(3) i(1) by simp
    ultimately show ?thesis using that by simp
  qed
qed

lemma index_cases:
  assumes "list_rep ptr h ps" "ps \<noteq> []"
    and i_def: "i = min (unat index) (length ps - 1)"
  shows "i < length ps" "index = 0 \<Longrightarrow> head_ptr ptr = ps ! i" "index \<ge> ls_size ptr - 1 \<Longrightarrow> tail_ptr ptr = ps ! i"
    "\<not> index \<ge> ls_size ptr - 1 \<Longrightarrow> seek ptr index h = Some (ps ! i)"
proof -
  have r: "unat (ls_size ptr) = length ps" "head_ptr ptr = start ps 0" "tail_ptr ptr = finish 0 ps"
    using assms(1,2) by (auto simp: list_rep_def)
  have "ls_size ptr \<noteq> 0" using r(1) assms(2) by auto
  then have last: "unat (ls_size ptr - 1) = length ps - 1" using unat_dec r(1) by simp
  show "i < length ps" using assms(2) by (cases ps) (auto simp: i_def)
  show "head_ptr ptr = ps ! i" if "index = 0" using that r(2) assms(2) by (cases ps) (auto simp: i_def)
  show "tail_ptr ptr = ps ! i" if "index \<ge> ls_size ptr - 1"
    using that r(3) assms(2) last by (simp add: i_def word_le_nat_alt finish_last last_conv_nth)
  show "seek ptr index h = Some (ps ! i)" if "\<not> index \<ge> ls_size ptr - 1"
    using that last seek_nth [OF assms(1), of index] by (simp add: i_def word_le_nat_alt)
qed

lemma list_get_rep:
  assumes "list_rep ptr h ps" "ps \<noteq> []"
  shows "list_get index ptr h = Some (data_of h (ps ! min (unat index) (length ps - 1)))"
proof -
  let ?i = "min (unat index) (length ps - 1)"
  note c = index_cases [OF assms refl, of index]
  obtain as bs where ps: "ps = as @ ps ! ?i # bs" using id_take_nth_drop [OF c(1)] by blast
  then have "link_at h (ps ! ?i) = Some (the (h (ps ! ?i)))" "length (data_of h (ps ! ?i)) = ls_data_len ptr"
    using link_at_linked [of h 0 as "ps ! ?i" bs 0] assms(1) c(1) by (auto simp: list_rep_def)
  then have "link_get ptr (ps ! ?i) h = Some (data_of h (ps ! ?i))" by (simp add: link_get_def data_of_def)
  then show ?thesis using c(2-4) by (auto simp: list_get_def list_get_front_def list_get_back_def)
qed

lemma link_set_rep:
  assumes "list_rep ptr h ps" "i < length ps" "length d = ls_data_len ptr"
  obtains h' where "link_set ptr (ps ! i) d h = Some h'" "list_rep ptr h' ps" "map (data_of h') ps = (map (data_of h) ps)[i := d]"
proof -
  obtain as a bs where ps: "ps = as @ a # bs" "length as = i" "a = ps ! i" using rep_split [OF assms(1,2)] by metis
  have r: "linked h 0 (as @ a # bs) 0" "distinct (as @ a # bs)" "length (data_of h a) = ls_data_len ptr" using assms(1) ps(1) by (auto simp: list_rep_def)
  let ?h = "h(a \<mapsto> (the (h a))\<lparr>lnk_data := d\<rparr>)"
  have "link_set ptr a d h = Some ?h" using link_at_linked [OF r(1)] r(3) assms(3) by (simp add: link_set_def data_of_def)
  moreover have "linked ?h p as q = linked h p as q" "linked ?h p bs q = linked h p bs q" for p q using r(2) by (auto intro!: linked_cong)
  then have "list_rep ptr ?h ps" using assms(1,3) r(1) ps(1) by (auto simp: list_rep_def data_of_def)
  moreover have "map (data_of ?h) ps = (map (data_of h) ps)[i := d]"
    using r(2) ps(1,2) by (auto simp: data_of_def list_update_append)
  ultimately show ?thesis using that ps(3) by simp
qed

lemma list_set_rep:
  assumes "list_rep ptr h ps" "ps \<noteq> []" "length d = ls_data_len ptr"
  obtains h' where "list_set d index ptr h = Some h'" "list_rep ptr h' ps"
    "map (data_of h') ps = (map (data_of h) ps)[min (unat index) (length ps - 1) := d]"
proof -
  note c = index_cases [OF assms(1,2) refl, of index]
  obtain h' where h': "link_set ptr (ps ! min (unat index) (length ps - 1)) d h = Some h'" "list_rep ptr h' ps"
    "map (data_of h') ps = (map (data_of h) ps)[min (unat index) (length ps - 1) := d]"
    by (rule link_set_rep [OF assms(1) c(1) assms(3)])
  then have "list_set d index ptr h = Some h'" using c(2-4) by (auto simp: list_set_def list_set_front_def list_set_back_def)
  with h' that show ?thesis by blast
qed

lemma list_free_loop_linked: "linked h p ps 0 \<Longrightarrow> distinct ps \<Longrightarrow> list_free_loop (start ps 0) h = Some (h |` (- set ps))"
proof (induction ps arbitrary: h p)
  case Nil
  then show ?case by (simp add: list_free_loop.simps)
next
  case (Cons a as)
  have l: "linked (h(a := None)) a as 0"
    using Cons.prems by (subst linked_cong [where h = h]) auto
  have "(h(a := None)) |` (- set as) = h |` (- set (a # as))" by (auto simp: restrict_map_def)
  moreover have "list_free_loop a h = list_free_loop (start as 0) (h(a := None))"
    using Cons.prems by (subst list_free_loop.simps) auto
  moreover have "list_free_loop (start as 0) (h(a := None)) = Some ((h(a := None)) |` (- set as))"
    by (rule Cons.IH [OF l]) (use Cons.prems(2) in simp)
  ultimately show ?case by (simp only: start.simps)
qed

lemma list_clear_rep:
  assumes "list_rep ptr h ps"
  shows "list_clear ptr h = Some (list_init (ls_data_len ptr), h |` (- set ps))"
  using assms list_free_loop_linked [of h 0 ps]
  by (auto simp: list_rep_def list_clear_def list_free_def list_init_def)

subsection \<open>The list as a sequence of blocks\<close>

primrec trace :: "nat \<Rightarrow> lnk_heap \<Rightarrow> u64 \<Rightarrow> u64 list" where
  "trace 0 h p = []"
| "trace (Suc n) h p = p # trace n h (next_ptr (the (h p)))"

fun list_vals :: "list_t \<times> lnk_heap \<Rightarrow> u8 list list" where
  "list_vals (ptr, h) = map (data_of h) (trace (unat (ls_size ptr)) h (head_ptr ptr))"

fun list_inv :: "list_t \<times> lnk_heap \<Rightarrow> bool" where
  "list_inv (ptr, h) \<longleftrightarrow> list_rep ptr h (trace (unat (ls_size ptr)) h (head_ptr ptr))"

lemma trace_linked: "linked h p ps q \<Longrightarrow> trace (length ps) h (start ps q) = ps"
  by (induction ps arbitrary: p) auto

lemma rep_inv:
  assumes "list_rep ptr h ps"
  shows "list_inv (ptr, h)" "list_vals (ptr, h) = map (data_of h) ps"
proof -
  have "trace (unat (ls_size ptr)) h (head_ptr ptr) = ps" using assms trace_linked [of h 0 ps 0] by (simp add: list_rep_def)
  then show "list_inv (ptr, h)" "list_vals (ptr, h) = map (data_of h) ps" using assms by simp_all
qed

lemma inv_rep:
  assumes "list_inv (ptr, h)"
  obtains ps where "list_rep ptr h ps" "list_vals (ptr, h) = map (data_of h) ps"
  using assms by simp

datatype list_op = Push_front "u8 list" | Push_back "u8 list" | Insert u64 "u8 list" | Pop_front "u8 list" | Pop_back "u8 list" |
  Remove u64 "u8 list" | Get u64 "u8 list" | Put u64 "u8 list" | Clear

fun list_spec :: "list_op \<Rightarrow> u8 list list \<Rightarrow> u8 list list option" where
  "list_spec (Push_front d) xs = Some (d # xs)"
| "list_spec (Push_back d) xs = Some (xs @ [d])"
| "list_spec (Insert i d) xs = Some (spliced (unat i) [d] xs)"
| "list_spec (Pop_front d) xs = (if xs \<noteq> [] \<and> hd xs = d then Some (tl xs) else None)"
| "list_spec (Pop_back d) xs = (if 2 \<le> length xs \<and> last xs = d then Some (butlast xs) else None)"
| "list_spec (Remove i d) xs =
     (let k = min (unat i) (length xs - 1)
      in if (i = 0 \<and> xs \<noteq> [] \<or> 2 \<le> length xs) \<and> xs ! k = d then Some (dropped k xs) else None)"
| "list_spec (Get i d) xs = (if xs \<noteq> [] \<and> xs ! min (unat i) (length xs - 1) = d then Some xs else None)"
| "list_spec (Put i d) xs = (if xs \<noteq> [] then Some (xs[min (unat i) (length xs - 1) := d]) else None)"
| "list_spec Clear xs = Some []"

definition fresh_link :: "u64 \<Rightarrow> u8 list \<Rightarrow> list_t \<Rightarrow> lnk_heap \<Rightarrow> bool" where
  "fresh_link tmp d ptr h \<longleftrightarrow> h tmp = None \<and> tmp \<noteq> 0 \<and> length d = ls_data_len ptr"

inductive list_step :: "list_t \<times> lnk_heap \<Rightarrow> list_op \<Rightarrow> list_t \<times> lnk_heap \<Rightarrow> bool" where
  "fresh_link tmp d ptr h \<Longrightarrow> list_push_front tmp d ptr h = Some (Returns s') \<Longrightarrow> list_step (ptr, h) (Push_front d) s'"
| "fresh_link tmp d ptr h \<Longrightarrow> list_push_back tmp d ptr h = Some (Returns s') \<Longrightarrow> list_step (ptr, h) (Push_back d) s'"
| "fresh_link tmp d ptr h \<Longrightarrow> list_insert tmp d i ptr h = Some (Returns s') \<Longrightarrow> list_step (ptr, h) (Insert i d) s'"
| "0 < list_size ptr \<Longrightarrow> list_pop_front True ptr h = Some (Some d, s') \<Longrightarrow> list_step (ptr, h) (Pop_front d) s'"
| "1 < list_size ptr \<Longrightarrow> list_pop_back True ptr h = Some (Some d, s') \<Longrightarrow> list_step (ptr, h) (Pop_back d) s'"
| "i = 0 \<and> 0 < list_size ptr \<or> 1 < list_size ptr \<Longrightarrow> list_remove True i ptr h = Some (Some d, s') \<Longrightarrow> list_step (ptr, h) (Remove i d) s'"
| "0 < list_size ptr \<Longrightarrow> list_get i ptr h = Some d \<Longrightarrow> list_step (ptr, h) (Get i d) (ptr, h)"
| "0 < list_size ptr \<Longrightarrow> length d = ls_data_len ptr \<Longrightarrow> list_set d i ptr h = Some h' \<Longrightarrow> list_step (ptr, h) (Put i d) (ptr, h')"
| "list_clear ptr h = Some s' \<Longrightarrow> list_step (ptr, h) Clear s'"

lemma rep_size:
  assumes "list_rep ptr h ps"
  shows "0 < list_size ptr \<longleftrightarrow> ps \<noteq> []" "1 < list_size ptr \<longleftrightarrow> 2 \<le> length ps"
  using assms by (auto simp: list_rep_def list_size_def word_less_nat_alt)

lemma list_step_refines:
  assumes "list_inv (ptr, h)" "list_step (ptr, h) e s'"
  shows "list_inv s' \<and> list_spec e (list_vals (ptr, h)) = Some (list_vals s')"
proof -
  obtain ps where r: "list_rep ptr h ps" "list_vals (ptr, h) = map (data_of h) ps" by (rule inv_rep [OF assms(1)])
  note size = rep_size [OF r(1)]
  from assms(2) show ?thesis
  proof cases
    case (1 tmp d)
    then have l: "h tmp = None" "tmp \<noteq> 0" "length d = ls_data_len ptr" by (simp_all add: fresh_link_def)
    show ?thesis by (rule list_push_front_rep [OF r(1) l]) (use 1 r(2) rep_inv in auto)
  next
    case (2 tmp d)
    then have l: "h tmp = None" "tmp \<noteq> 0" "length d = ls_data_len ptr" by (simp_all add: fresh_link_def)
    show ?thesis by (rule list_push_back_rep [OF r(1) l]) (use 2 r(2) rep_inv in auto)
  next
    case (3 tmp d i)
    then have l: "h tmp = None" "tmp \<noteq> 0" "length d = ls_data_len ptr" by (simp_all add: fresh_link_def)
    show ?thesis by (rule list_insert_rep [OF r(1) l, of i]) (use 3 r(2) rep_inv in auto)
  next
    case (4 d)
    then obtain a as where ps: "ps = a # as" using size by (cases ps) auto
    with r(1) have l: "list_rep ptr h (a # as)" by simp
    show ?thesis by (rule list_pop_front_rep [OF l, of True]) (use 4 ps r(2) rep_inv in auto)
  next
    case (5 d)
    then have n: "2 \<le> length ps" using size by simp
    then obtain a as where ps: "ps = as @ [a]" by (cases ps rule: rev_cases) auto
    then have ne: "as \<noteq> []" and l: "list_rep ptr h (as @ [a])" using n r(1) by auto
    from n show ?thesis by - (rule list_pop_back_rep [OF l ne, of True], use 5 ps r(2) rep_inv in auto)
  next
    case (6 i d)
    then have l: "i = 0 \<and> ps \<noteq> [] \<or> 2 \<le> length ps" using size by auto
    then have n: "min (unat i) (length ps - 1) < length ps" by (cases ps) auto
    show ?thesis by (rule list_remove_rep [OF r(1) l, of True]) (use 6 r(2) rep_inv l n in \<open>auto simp: Let_def\<close>)
  next
    case (7 i d)
    then have l: "ps \<noteq> []" using size by simp
    then have "min (unat i) (length ps - 1) < length ps" by (cases ps) auto
    then show ?thesis using 7 l list_get_rep [OF r(1) l, of i] r(2) assms(1) by (simp del: list_vals.simps)
  next
    case (8 d i h')
    then have l: "ps \<noteq> []" using size by simp
    show ?thesis by (rule list_set_rep [OF r(1) l 8(4), of i]) (use 8 l r(2) rep_inv in auto)
  next
    case 9
    have "list_rep (list_init n) g []" for n g by (simp add: list_rep_def list_init_def)
    then show ?thesis using 9 list_clear_rep [OF r(1)] rep_inv by fastforce
  qed
qed

interpretation lst: implements list_step list_inv list_vals list_spec
  by unfold_locales (use list_step_refines in \<open>metis surj_pair\<close>)+

text \<open>
  \<^bold>\<open>C18\<close>: The linked list of the image library. Over every run of its operations on a list that starts empty, the results are those
  of the same operations on a sequence of blocks, with an index beyond the end taken as the last one, and the
  size is its length. In every state the run reaches, insertion and removal at any index, access, replacement and clearing stay inside the
  links of the list and return, except for removal at an index other than zero from a list with one element.
\<close>

theorem list_run_refines:
  assumes "run list_step (list_init n, h0) es (ptr, h)"
  shows "spec_run list_spec es [] = Some (list_vals (ptr, h)) \<and> unat (list_size ptr) = length (list_vals (ptr, h)) \<and>
     (\<forall>tmp d i. fresh_link tmp d ptr h \<longrightarrow> (\<exists>s. list_insert tmp d i ptr h = Some (Returns s))) \<and>
     (\<forall>i. i = 0 \<and> 0 < list_size ptr \<or> 1 < list_size ptr \<longrightarrow> list_remove True i ptr h \<noteq> None) \<and>
     (\<forall>d i. 0 < list_size ptr \<and> length d = ls_data_len ptr \<longrightarrow> list_get i ptr h \<noteq> None \<and> list_set d i ptr h \<noteq> None) \<and>
     list_clear ptr h \<noteq> None"
proof -
  have "list_rep (list_init n) h0 []" by (simp add: list_rep_def list_init_def)
  note init = rep_inv [OF this]
  have "list_inv (ptr, h)" by (rule lst.run_inv [OF assms init(1)])
  then obtain ps where r: "list_rep ptr h ps" "list_vals (ptr, h) = map (data_of h) ps" by (rule inv_rep)
  have "spec_run list_spec es [] = Some (list_vals (ptr, h))" using lst.run_refines [OF assms init(1)] init(2) by simp
  moreover have "unat (list_size ptr) = length (list_vals (ptr, h))" using r by (simp add: list_rep_def list_size_def)
  moreover have "\<exists>s. list_insert tmp d i ptr h = Some (Returns s)" if "fresh_link tmp d ptr h" for tmp d i
    by (rule list_insert_rep [OF r(1), of tmp d i]) (use that in \<open>auto simp: fresh_link_def\<close>)
  moreover have "list_remove True i ptr h \<noteq> None" if "i = 0 \<and> 0 < list_size ptr \<or> 1 < list_size ptr" for i
    by (rule list_remove_rep [OF r(1), of i True]) (use that rep_size [OF r(1)] in auto)
  moreover have "list_get i ptr h \<noteq> None" if "0 < list_size ptr" for i
    using list_get_rep [OF r(1), of i] that rep_size [OF r(1)] by simp
  moreover have "list_set d i ptr h \<noteq> None" if "0 < list_size ptr" "length d = ls_data_len ptr" for d i
    by (rule list_set_rep [OF r(1) _ that(2), of i]) (use that rep_size [OF r(1)] in auto)
  moreover have "list_clear ptr h \<noteq> None" using list_clear_rep [OF r(1)] by simp
  ultimately show ?thesis by blast
qed

theorem list_run_refines_witness:
  "\<exists>ptr h. run list_step (list_init 1, Map.empty) [Push_back [7], Push_front [5], Insert 1 [6], Remove 2 [7]] (ptr, h) \<and> list_vals (ptr, h) = [[5], [6]]"
proof -
  define s1 where "s1 = (case list_push_back 16 [7] (list_init 1) Map.empty of Some (Returns s) \<Rightarrow> s)"
  define s2 where "s2 = (case list_push_front 32 [5] (fst s1) (snd s1) of Some (Returns s) \<Rightarrow> s)"
  define s3 where "s3 = (case list_insert 48 [6] 1 (fst s2) (snd s2) of Some (Returns s) \<Rightarrow> s)"
  define s4 where "s4 = (case list_remove True 2 (fst s3) (snd s3) of Some (_, s) \<Rightarrow> s)"
  have two: "\<not> 2 \<le> (1 :: u64)" by (simp add: word_le_nat_alt)
  note e = two list_init_def block_of_def link_upd_def link_at_def fresh_link_def list_size_def
  have e1: "s1 = (\<lparr>head_ptr = 16, tail_ptr = 16, ls_size = 1, ls_data_len = 1\<rparr>, [16 \<mapsto> \<lparr>next_ptr = 0, prev_ptr = 0, lnk_data = [7]\<rparr>])"
    by (simp add: s1_def list_push_back_def e)
  have e2: "s2 = (\<lparr>head_ptr = 32, tail_ptr = 16, ls_size = 2, ls_data_len = 1\<rparr>,
      [32 \<mapsto> \<lparr>next_ptr = 16, prev_ptr = 0, lnk_data = [5]\<rparr>, 16 \<mapsto> \<lparr>next_ptr = 0, prev_ptr = 32, lnk_data = [7]\<rparr>])"
    by (auto simp: s2_def e1 list_push_front_def e)
  have e3: "s3 = (\<lparr>head_ptr = 32, tail_ptr = 16, ls_size = 3, ls_data_len = 1\<rparr>,
      [32 \<mapsto> \<lparr>next_ptr = 48, prev_ptr = 0, lnk_data = [5]\<rparr>, 48 \<mapsto> \<lparr>next_ptr = 16, prev_ptr = 32, lnk_data = [6]\<rparr>,
       16 \<mapsto> \<lparr>next_ptr = 0, prev_ptr = 48, lnk_data = [7]\<rparr>])"
    by (auto simp: s3_def e2 list_insert_def seek_def e)
  have "list_step (list_init 1, Map.empty) (Push_back [7]) s1"
    by (rule list_step.intros(2) [of 16]) (simp_all add: e1 list_push_back_def e)
  moreover have "list_step s1 (Push_front [5]) s2"
    unfolding e1 by (rule list_step.intros(1) [of 32]) (auto simp: e2 list_push_front_def e)
  moreover have "list_step s2 (Insert 1 [6]) s3"
    unfolding e2 by (rule list_step.intros(3) [of 48]) (auto simp: e3 list_insert_def seek_def e)
  moreover have "list_step s3 (Remove 2 [7]) s4"
    unfolding s4_def e3 by (rule list_step.intros(6)) (simp_all add: list_remove_def list_pop_back_def copy_out_def e)
  ultimately have r: "run list_step (list_init 1, Map.empty) [Push_back [7], Push_front [5], Insert 1 [6], Remove 2 [7]] (fst s4, snd s4)"
    by (auto intro!: run_step run_nil simp del: run_simps split_paired_Ex)
  from list_run_refines [OF r] have "list_vals (fst s4, snd s4) = [[5], [6]]" by (simp add: spliced_def dropped_def del: list_vals.simps)
  with r show ?thesis by blast
qed

end
