(* ===== verification/Spec2Isabelle.thy ===== *)
theory Spec2Isabelle
  imports Ringbuffer Sem_Fairness Kernel_Api Mq_Interleaving Mempool Printf_Spec Rectangle Fsort Integral Fb_Alloc Collections Omv_List
begin

text \<open>
  A verification development of the K210 MicroPython and OpenMV firmware: its RT-Thread kernel, and the data structures and
  integer routines on which its image library rests.

  \<^bold>\<open>The program.\<close> The firmware runs MicroPython and the OpenMV image library as threads of RT-Thread on
  the two harts of the K210. The kernel (\<^verbatim>\<open>src/src/rt-thread/src\<close>) schedules threads by priority, keeps
  timers, offers semaphores, mutexes, events, mailboxes and message queues between threads, and
  manages the memory. The parts call each other as follows. A hart in the kernel holds the nesting lock of
  \<^verbatim>\<open>cpu.c\<close>; \<^verbatim>\<open>scheduler.c\<close> keeps the ready queues and decides which thread a hart runs; \<^verbatim>\<open>thread.c\<close>
  suspends and resumes threads and arms their timers; the tick interrupt (\<^verbatim>\<open>clock.c\<close>) counts time slices and
  lets \<^verbatim>\<open>timer.c\<close> wake the threads whose waiting time is over; \<^verbatim>\<open>ipc.c\<close> suspends callers on the waiting
  lists of its objects and resumes them; \<^verbatim>\<open>mem.c\<close> protects its heap with a semaphore of \<^verbatim>\<open>ipc.c\<close>; \<^verbatim>\<open>mempool.c\<close>
  allocates pools on the heap and suspends callers when a pool is empty; \<^verbatim>\<open>kservice.c\<close> has the memory,
  string and output functions everything else uses. The image library (\<^verbatim>\<open>src/src/openmv/omv\<close>) runs inside one thread. It
  takes working memory from a stack of blocks (\<^verbatim>\<open>fb_alloc.c\<close>) and results from the interpreter's heap (\<^verbatim>\<open>xalloc.c\<close>), which it keeps in dynamic
  arrays (\<^verbatim>\<open>array.c\<close>) and in the bitmaps, stacks, queues and lists of \<^verbatim>\<open>collections.c\<close>; detections are rectangles (\<^verbatim>\<open>rectangle.c\<close>), and
  filters and detectors use the sorting networks of \<^verbatim>\<open>fsort.c\<close> and the integral images of \<^verbatim>\<open>integral.c\<close>.

  \<^bold>\<open>How the model relates to the code.\<close> The structures of \<^verbatim>\<open>rtdef.h\<close> are records with the fields of the
  source at their widths (words of 8 to 64 bits, wrap-around included); the global variables of the kernel are
  the record \<^typ>\<open>kernel\<close>. Each C function is a function of the same name from state to state. \<^const>\<open>None\<close> is a
  failed \<^verbatim>\<open>RT_ASSERT\<close>, an access outside an object, or a null or dangling pointer; a theorem that
  concludes \<^const>\<open>Some\<close> shows that none of them happens. The argument \<open>c\<close> is the hart that executes the
  function. A function that blocks its caller ends where the hart switches to another thread; the function with
  the suffix \<open>_resume\<close> is the rest, executed when the thread runs again. Between the two any other
  thread may run: the runs of the theorems are sequences of such steps of all threads and harts. Names
  of parts of a function (\<open>malloc_find\<close>, \<open>mb_put\<close>) are definitions for the loops and branches inside it.

  \<^bold>\<open>Theories.\<close>
  \<^item> \<open>Prelude\<close>: integer types, error codes, assertions, block copies, alignment, shared lemmas. \<open>Refinement\<close>:
    runs of step relations and the locale \<open>implements\<close>, the contract between the steps of a component and
    an abstract specification; all objects interpret it. \<open>Circular\<close>: circular arrays and the locale
    \<open>bounded_fifo\<close>.
  \<^item> \<open>Rt_List\<close>: the linked lists of \<^verbatim>\<open>rtservice.h\<close> over a pointer heap, and the locale \<open>intrusive_lists\<close> through
    which the kernel sees them: a family of disjoint sequences. \<open>Kservice\<close>: \<^verbatim>\<open>__rt_ffs\<close>.
  \<^item> \<open>Kernel_State\<close>: threads, harts, timers, IPC objects, the kernel record. \<open>Scheduler\<close>: \<^verbatim>\<open>cpu.c\<close> and \<^verbatim>\<open>scheduler.c\<close>;
    the invariant of ready queues and bitmaps, and that \<^verbatim>\<open>rt_schedule\<close> leaves the hart to the most urgent
    thread it may run. \<open>Timer\<close>: the sorted timer list across wrap-around of the tick. \<open>Thread\<close>: \<^verbatim>\<open>thread.c\<close>;
    sleep, yield, suspend, resume. \<open>Clock\<close>: the tick interrupt and \<^verbatim>\<open>rt_timer_check\<close>. \<open>Kernel_Inv\<close>: the
    invariant of the kernel as a whole, and how each operation below \<^verbatim>\<open>ipc.c\<close> keeps it.
  \<^item> \<open>Ipc\<close>: the waiting lists of \<^verbatim>\<open>ipc.c\<close> and what blocking and waking change. \<open>Semaphore\<close>: units are conserved.
    \<open>Sem_Fairness\<close>: a waiting thread is served after a bounded number of hand-overs. \<open>Mutex\<close>: mutual
    exclusion, priority inheritance and its end. \<open>Event\<close>: delivery of flags. \<open>Mailbox\<close>:
    refinement of a bounded queue over all runs, including waiters that are woken and have to wait again.
    \<open>Message_Queue\<close>: the operations of a message queue. Sends and receives have two critical sections with the copy of the message
    between them, each a definition of its own; a call that is not interrupted is their composition. \<open>Mq_Interleaving\<close>: order and
    contents of the messages when other threads use the queue between the critical sections of a call.
    \<open>Kernel_Api\<close>: the objects together. The locale \<open>ipc_object\<close> says what an object relies on while others are
    used; the result is the soundness of the interface: calls of running threads, and calls that go on after waiting, never get stuck and keep
    every invariant. It holds as long as no thread's timer expires: an expired timer stays linked into a list whose head is on the stack
    of \<^verbatim>\<open>rt_timer_check\<close>, the defect shown in \<open>Clock\<close>.
  \<^item> \<open>Byte_Memory\<close>: memory as bytes, the word-wise \<^verbatim>\<open>rt_memset\<close>, \<^verbatim>\<open>rt_memcpy\<close>, \<^verbatim>\<open>rt_memmove\<close> and their equivalence with
    byte-wise definitions. \<open>Strings\<close>: the string functions. \<open>Printf\<close>: \<^verbatim>\<open>rt_vsnprintf\<close> and \<^verbatim>\<open>rt_kprintf\<close>, and that
    they write nothing outside their buffers. \<open>Printf_Spec\<close>: outputs as lists of pieces, which have a format, arguments and a text of
    their own; the text is what \<^verbatim>\<open>rt_vsnprintf\<close> makes of the format and the arguments.
  \<^item> \<open>Heap_Blocks\<close>, \<open>Small_Mem\<close>, \<open>Heap_Contract\<close>, \<open>Heap_Lock\<close>: the small memory management algorithm of \<^verbatim>\<open>mem.c\<close>, from the
    linked block headers in memory over the abstract allocator it implements to the entry points with
    their lock. \<open>Mempool\<close>: \<^verbatim>\<open>mempool.c\<close> on the same memory.
  \<^item> \<open>Ringbuffer\<close>: the ring buffer of the drivers (\<^verbatim>\<open>components/drivers/src/ringbuffer.c\<close>).
  \<^item> \<open>Omv_Array\<close>: \<^verbatim>\<open>array.c\<close>; quicksort is proved in the locale \<open>comparator\<close>, the contract of a comparison function, which the comparison of
    keypoints in \<^verbatim>\<open>orb.c\<close> interprets. \<open>Rectangle\<close>: intersection with the image, and the merging of detections as one rectangle for each
    group. \<open>Fsort\<close>: the networks for 9 and 25 values sort, by the 0-1 principle; the network for 25 is split into two halves and a merge, and all 0-1 inputs
    of a part are run at once as the bits of integers. \<open>Integral\<close>: a lookup is the sum of the pixels in the
    rectangle. \<open>Fb_Alloc\<close>: the table of blocks as a stack with marks. \<open>Collections\<close>: bitmap, stack and queue of blocks of
    bytes. \<open>Omv_List\<close>: the linked list over a heap of links, as a sequence of blocks. The allocators of the interpreter and of the C library are
    parameters, as are \<^verbatim>\<open>qsort\<close> and the \<^verbatim>\<open>memcpy\<close> that \<^verbatim>\<open>array_take\<close> calls on overlapping ranges; an exception they cause is a value of the result type.

  \<^bold>\<open>Loops.\<close> Every loop of the code is a recursive function with a termination proof, or, where it runs down a
  string or a list in memory that need not end, a partial function whose value \<^const>\<open>None\<close> is not to
  return; the theorems about these conclude that they return. No fuel is used.

  \<^bold>\<open>Defects.\<close> Theorems state the behaviour of the code as it is. Those that show a defect are
  \<open>ringbuffer_put_force_loses_block\<close>, \<open>rt_timer_check_leaves_timers_on_stack_list\<close>, \<open>rt_malloc_size_wraps\<close>,
  \<open>rt_mp_init_small_overwrites\<close>, \<open>rt_snprintf_negative_unsigned\<close>, \<open>fb_free_releases_permanent\<close>, \<open>array_isort_exchanges\<close>,
  \<open>list_pop_back_single\<close>, and parts of \<open>rt_mp_alloc_outcome\<close> and \<open>rt_kprintf_output\<close>.

  \<^bold>\<open>Not modelled.\<close> The instructions below the spin lock and the context switch, interrupt controller and device
  drivers: hardware. Hooks: not set. The lists of objects by class and their names (\<^verbatim>\<open>object.c\<close>), the idle
  thread's clean-up, \<^verbatim>\<open>memheap.c\<close>: no operation of the modelled parts depends on them. \<^verbatim>\<open>slab.c\<close>, signals, soft timers:
  not in this configuration. File systems, network, shell, logging: device input and output, and vendored code.
  The image processing itself and the Python bindings: floating-point numerics, tables, vendored decoders, and bindings to an
  interpreter that is not part of the repository.
\<close>

end
